(* ===== verification/Prelude.thy ===== *)
theory Prelude
  imports Main "HOL-Library.Word"
begin

text \<open>
  What every component shares: the names of the C integer types, the byte memory the
  pointers of the loader point into, results that are an error or a value, and the
  lemmas on lists, words and options that carry the component proofs.

  The target of the repository is a 32-bit RISC-V chip (ESP32-C6), so \<open>uintptr_t\<close> and
  \<open>size_t\<close> are 32 bits wide; a pointer is a value of type \<open>32 word\<close> and a comparison of
  pointers is a comparison of words.
\<close>

unbundle bit_operations_syntax

type_synonym u8 = "8 word"
type_synonym u16 = "16 word"
type_synonym u32 = "32 word"
type_synonym u64 = "64 word"

section \<open>Byte memory\<close>

type_synonym cmem = "u32 \<Rightarrow> u8"

definition cbytes :: "cmem \<Rightarrow> u32 \<Rightarrow> nat \<Rightarrow> u8 list" where
  "cbytes m p n = map (\<lambda>i. m (p + of_nat i)) [0..<n]"

definition mem_of :: "u32 \<Rightarrow> u8 list \<Rightarrow> cmem" where
  "mem_of base bs a = (let i = unat (a - base) in if i < length bs then bs ! i else 0)"

definition same_on :: "u32 \<Rightarrow> u32 \<Rightarrow> cmem \<Rightarrow> cmem \<Rightarrow> bool" where
  "same_on p q m m' \<longleftrightarrow> (\<forall>a. p \<le> a \<and> a < q \<longrightarrow> m a = m' a)"

lemma length_cbytes [simp]: "length (cbytes m p n) = n"
  by (simp add: cbytes_def)

lemma nth_cbytes [simp]: "i < n \<Longrightarrow> cbytes m p n ! i = m (p + of_nat i)"
  by (simp add: cbytes_def)

lemma cbytes_0 [simp]: "cbytes m p 0 = []"
  by (simp add: cbytes_def)

lemma cbytes_Suc: "cbytes m p (Suc n) = m p # cbytes m (p + 1) n"
proof (rule nth_equalityI)
  fix i
  assume "i < length (cbytes m p (Suc n))"
  then show "cbytes m p (Suc n) ! i = (m p # cbytes m (p + 1) n) ! i"
    by (cases i) (simp_all add: algebra_simps)
qed simp

lemma cbytes_snoc: "cbytes m p (Suc n) = cbytes m p n @ [m (p + of_nat n)]"
  by (simp add: cbytes_def)

lemma cbytes_eq_Cons:
  "cbytes m p n = b # bs \<longleftrightarrow> (\<exists>n'. n = Suc n' \<and> m p = b \<and> cbytes m (p + 1) n' = bs)"
  by (cases n) (auto simp: cbytes_Suc)

section \<open>Results\<close>

text \<open>An operation that fails returns \<open>Inl\<close> of the reason, one that succeeds \<open>Inr\<close> of
  its result; \<open>bindE\<close> is the early return of the code's \<open>goto fail\<close>.\<close>

fun bindE :: "'e + 'a \<Rightarrow> ('a \<Rightarrow> 'e + 'b) \<Rightarrow> 'e + 'b" where
  "bindE (Inl e) f = Inl e"
| "bindE (Inr x) f = f x"

definition guardE :: "bool \<Rightarrow> 'e \<Rightarrow> 'e + unit" where
  "guardE b e = (if b then Inr () else Inl e)"

lemma bindE_eq_Inr [simp]: "bindE r f = Inr y \<longleftrightarrow> (\<exists>x. r = Inr x \<and> f x = Inr y)"
  by (cases r) auto

lemma bindE_eq_Inl:
  "bindE r f = Inl e \<longleftrightarrow> r = Inl e \<or> (\<exists>x. r = Inr x \<and> f x = Inl e)"
  by (cases r) auto

lemma bindE_assoc: "bindE (bindE r f) g = bindE r (\<lambda>x. bindE (f x) g)"
  by (cases r) auto

lemma guardE_eq_Inr [simp]: "guardE b e = Inr u \<longleftrightarrow> b"
  by (simp add: guardE_def)

lemma guardE_eq_Inl [simp]: "guardE b e = Inl e' \<longleftrightarrow> \<not> b \<and> e' = e"
  by (auto simp: guardE_def)

section \<open>Words\<close>

text \<open>A pointer range check of the form the loader uses everywhere: the sum is compared
  with its first summand to notice wrap-around, then with the end. Together the two tests
  say exactly that the sum, taken without wrap-around, does not pass the end.\<close>

lemma ptr_check_iff:
  fixes p n e :: "'a::len word"
  shows "\<not> (p + n < p \<or> p + n > e) \<longleftrightarrow> unat p + unat n \<le> unat e"
proof (cases "unat p + unat n < 2 ^ LENGTH('a)")
  case True
  then have "unat (p + n) = unat p + unat n"
    by (simp add: unat_word_ariths)
  then show ?thesis by (auto simp: word_less_nat_alt)
next
  case False
  have b: "unat p < 2 ^ LENGTH('a)" "unat n < 2 ^ LENGTH('a)" "unat e < 2 ^ LENGTH('a)"
    by (rule unsigned_less)+
  have "unat (p + n) = (unat p + unat n - 2 ^ LENGTH('a)) mod 2 ^ LENGTH('a)"
    using False by (simp add: unat_word_ariths le_mod_geq)
  also have "\<dots> = unat p + unat n - 2 ^ LENGTH('a)"
    using b by (intro mod_less) linarith
  finally have "unat (p + n) = unat p + unat n - 2 ^ LENGTH('a)" .
  then show ?thesis using False b unfolding word_less_nat_alt by linarith
qed

lemma unat_add_eq_imp:
  fixes a b c :: "'a::len word"
  assumes "unat a + unat b = unat c"
  shows "a + b = c"
proof -
  have "unat (a + b) = unat c"
    using assms by (simp add: unat_word_ariths)
  then show ?thesis by (rule unsigned_word_eqI)
qed

lemma unat_u32_less: "unat (x :: u32) < 4294967296"
  by (rule order_less_le_trans [OF unsigned_less]) simp

lemma ptr_nat_check_iff:
  fixes p e :: u32
  assumes "n < 2 ^ 32"
  shows "p + of_nat n < p \<or> p + of_nat n > e \<longleftrightarrow> unat e < unat p + n"
  using ptr_check_iff [of p "of_nat n" e] assms by (simp add: unat_of_nat) linarith

text \<open>A statement about every byte can be checked byte by byte.\<close>

lemma byte_all:
  assumes "list_all (\<lambda>n. P (word_of_nat n :: u8)) [0..<256]"
  shows "P b"
proof -
  have "unat b < 256" using unsigned_less [of b] by simp
  then have "unat b \<in> set [0..<256]" by (simp del: upt_conv_Cons_Cons)
  with assms have "P (word_of_nat (unat b))" unfolding list_all_iff by blast
  then show ?thesis by simp
qed

lemma bit_small_imp:
  fixes x :: "'a::len word"
  assumes "uint x < 2 ^ s" "bit x n"
  shows "n < s"
proof -
  have "take_bit s (uint x) = uint x"
    using assms(1) by (simp add: take_bit_int_eq_self)
  moreover have "bit (uint x) n"
    using assms(2) bit_imp_le_length [of x n] by (simp add: bit_uint_iff)
  ultimately show ?thesis by (metis bit_take_bit_iff)
qed

lemma uint_less_exp_of_bits:
  fixes x :: "'a::len word"
  assumes "\<And>n. bit x n \<Longrightarrow> n < s"
  shows "uint x < 2 ^ s"
proof -
  have "take_bit s (uint x) = uint x"
    using assms by (auto simp: bit_eq_iff bit_take_bit_iff bit_uint_iff)
  then show ?thesis by (metis take_bit_int_less_exp)
qed

lemma or_push_bit_eq_add:
  fixes x y :: "'a::len word"
  assumes "uint x < 2 ^ s"
  shows "x OR push_bit s y = x + push_bit s y"
proof -
  have "x AND push_bit s y = 0"
  proof (rule bit_eqI)
    fix n
    show "bit (x AND push_bit s y) n \<longleftrightarrow> bit (0 :: 'a word) n"
      using bit_small_imp [OF assms, of n] by (auto simp: bit_simps)
  qed
  then show ?thesis by (simp add: disjunctive_add_eq_or)
qed

section \<open>Little-endian words in byte memory\<close>

fun le_word :: "u8 list \<Rightarrow> 'a::len word" where
  "le_word [] = 0"
| "le_word (b # bs) = ucast b OR push_bit 8 (le_word bs)"

definition word_bytes :: "nat \<Rightarrow> 'a::len word \<Rightarrow> u8 list" where
  "word_bytes n w = map (\<lambda>i. ucast (drop_bit (8 * i) w)) [0..<n]"

definition mem_put :: "cmem \<Rightarrow> u32 \<Rightarrow> u8 list \<Rightarrow> cmem" where
  "mem_put m p bs a = (let i = unat (a - p) in if i < length bs then bs ! i else m a)"

lemma length_word_bytes [simp]: "length (word_bytes n w) = n"
  by (simp add: word_bytes_def)

lemma bit_le_word:
  "bit (le_word bs :: 'a::len word) i \<longleftrightarrow>
     i < LENGTH('a) \<and> i div 8 < length bs \<and> bit (bs ! (i div 8)) (i mod 8)"
proof (induction bs arbitrary: i)
  case (Cons b bs)
  show ?case
  proof (cases "i < 8")
    case True
    then show ?thesis by (auto simp: bit_simps)
  next
    case False
    then have "i div 8 = Suc ((i - 8) div 8)" "i mod 8 = (i - 8) mod 8"
      by (simp_all add: div_if [of i] mod_if [of i])
    moreover have "\<not> bit b i" using False bit_imp_le_length [of b i] by auto
    ultimately show ?thesis using False Cons [of "i - 8"] by (auto simp: bit_simps)
  qed
qed simp

lemma le_word_word_bytes [simp]:
  fixes w :: "'a::len word"
  assumes "LENGTH('a) \<le> 8 * n"
  shows "(le_word (word_bytes n w) :: 'a word) = w"
proof (rule bit_word_eqI)
  fix i
  assume i: "i < LENGTH('a)"
  then have "i div 8 < n" using assms by (simp add: less_mult_imp_div_less mult.commute)
  moreover have "8 * (i div 8) + i mod 8 = i" by simp
  ultimately show "bit (le_word (word_bytes n w) :: 'a word) i \<longleftrightarrow> bit w i"
    using i by (auto simp: bit_le_word word_bytes_def bit_simps add.commute)
qed

lemma word_bytes_le_word:
  assumes "length bs = n" "8 * n \<le> LENGTH('a)"
  shows "word_bytes n (le_word bs :: 'a::len word) = bs"
proof (rule nth_equalityI)
  fix i
  assume i: "i < length (word_bytes n (le_word bs :: 'a word))"
  show "word_bytes n (le_word bs :: 'a word) ! i = bs ! i"
  proof (rule bit_word_eqI)
    fix j
    assume "j < LENGTH(8)"
    then have j: "j < 8" by simp
    then have "(8 * i + j) div 8 = i" "(8 * i + j) mod 8 = j" by simp_all
    moreover have "8 * i + j < LENGTH('a)" using i j assms by simp
    ultimately show "bit (word_bytes n (le_word bs :: 'a word) ! i) j \<longleftrightarrow> bit (bs ! i) j"
      using i j assms(1) by (simp add: word_bytes_def bit_simps bit_le_word)
  qed
qed (simp add: assms)

text \<open>Reading after writing. Ranges of addresses that do not wrap around are ranges of numbers.\<close>

lemma mem_put_outside: "length bs \<le> unat (a - p) \<Longrightarrow> mem_put m p bs a = m a"
  by (simp add: mem_put_def Let_def)

lemma unat_sub_range:
  fixes a p :: u32
  shows "unat p \<le> unat a \<Longrightarrow> unat (a - p) = unat a - unat p"
  by (simp add: unat_sub word_le_nat_alt)

lemma unat_sub_below:
  fixes a p :: u32
  assumes "unat a < unat p" "unat p + n \<le> 2 ^ 32"
  shows "n \<le> unat (a - p)"
  using assms by (simp add: unat_sub_if_size word_size)

lemma mem_put_nat:
  assumes "unat p + length bs \<le> 2 ^ 32"
  shows "mem_put m p bs a =
    (if unat p \<le> unat a \<and> unat a < unat p + length bs then bs ! (unat a - unat p) else m a)"
  using unat_sub_below [OF _ assms, of a] unat_sub_range [of p a]
  by (cases "unat a < unat p") (auto simp: mem_put_def Let_def)

lemma unat_add_small:
  fixes p :: u32
  assumes "unat p + i < 2 ^ 32"
  shows "unat (p + of_nat i) = unat p + i"
  using assms by (simp add: unat_word_ariths unat_of_nat)

lemma cbytes_mem_put:
  assumes "unat p + length bs \<le> 2 ^ 32" "unat q + n \<le> 2 ^ 32"
  shows "cbytes (mem_put m p bs) q n = map (\<lambda>i.
    if unat p \<le> unat q + i \<and> unat q + i < unat p + length bs
    then bs ! (unat q + i - unat p) else cbytes m q n ! i) [0..<n]"
proof (rule nth_equalityI)
  fix i
  assume "i < length (cbytes (mem_put m p bs) q n)"
  then have i: "i < n" by simp
  with assms(2) have "unat (q + of_nat i) = unat q + i" by (intro unat_add_small) linarith
  with i show "cbytes (mem_put m p bs) q n ! i = map (\<lambda>i.
    if unat p \<le> unat q + i \<and> unat q + i < unat p + length bs
    then bs ! (unat q + i - unat p) else cbytes m q n ! i) [0..<n] ! i"
    by (simp add: mem_put_nat [OF assms(1)])
qed simp

lemma cbytes_mem_put_same:
  assumes "unat p + length bs \<le> 2 ^ 32"
  shows "cbytes (mem_put m p bs) p (length bs) = bs"
  by (subst cbytes_mem_put [OF assms assms]) (auto intro: nth_equalityI)

lemma cbytes_mem_put_disjoint:
  assumes "unat p + length bs \<le> 2 ^ 32" "unat q + n \<le> 2 ^ 32"
    and "unat p + length bs \<le> unat q \<or> unat q + n \<le> unat p"
  shows "cbytes (mem_put m p bs) q n = cbytes m q n"
  by (subst cbytes_mem_put [OF assms(1,2)]) (use assms(3) in \<open>auto intro!: nth_equalityI\<close>)

lemma take_drop_cbytes:
  assumes "k + n \<le> l"
  shows "take n (drop k (cbytes m p l)) = cbytes m (p + of_nat k) n"
  by (rule nth_equalityI) (use assms in \<open>auto simp: add.assoc\<close>)

lemma take_cbytes: "k \<le> n \<Longrightarrow> take k (cbytes m p n) = cbytes m p k"
  using take_drop_cbytes [where k = 0 and n = k and l = n] by simp

lemma cbytes_mem_put_prefix:
  assumes "unat p + length bs \<le> 2 ^ 32" "k \<le> length bs"
  shows "cbytes (mem_put m p bs) p k = take k bs"
  using take_cbytes [OF assms(2), of "mem_put m p bs" p] cbytes_mem_put_same [OF assms(1)] by simp

end
