(* ===== verification/Leb128.thy ===== *)
theory Leb128
  imports Prelude
begin

text \<open>
  The LEB128 decoders: \<open>bh_leb_read\<close> of \<^verbatim>\<open>core/shared/utils/bh_leb128.c\<close>, its wrapper
  \<open>read_leb\<close> of \<^verbatim>\<open>wasm_loader_common.c\<close>, and the unchecked readers the second pass of
  the loader (\<open>read_leb_quick\<close>) and the interpreter use on code that was already
  checked. The specification is the number a little-endian base 128 digit string stands
  for; the theorems give the decoder's result on every input.
\<close>

section \<open>bh_leb_read\<close>

datatype bh_leb_read_status =
    BH_LEB_READ_TOO_LONG
  | BH_LEB_READ_OVERFLOW
  | BH_LEB_READ_UNEXPECTED_END

text \<open>The loop of \<open>bh_leb_read\<close>. A call of the function reads at most ten bytes, so the
  counters \<open>shift\<close>, \<open>offset\<close> and \<open>bcnt\<close> stay far below \<open>2 ^ 32\<close> and are natural
  numbers; the pointer test is made on words, as in the code.\<close>

function leb_loop ::
  "cmem \<Rightarrow> u32 \<Rightarrow> u32 \<Rightarrow> nat \<Rightarrow> u64 \<Rightarrow> nat \<Rightarrow> nat \<Rightarrow> nat \<Rightarrow>
   bh_leb_read_status + (u64 \<times> nat \<times> nat \<times> u8)" where
  "leb_loop m buf buf_end maxbits result shift offset bcnt =
     (if bcnt + 1 > (maxbits + 6) div 7 then Inl BH_LEB_READ_TOO_LONG
      else if buf + of_nat offset + 1 < buf \<or> buf + of_nat offset + 1 > buf_end
      then Inl BH_LEB_READ_UNEXPECTED_END
      else
        let byte = m (buf + of_nat offset);
            result' = result OR push_bit shift (ucast (byte AND 0x7f))
        in if byte AND 0x80 = 0 then Inr (result', shift + 7, offset + 1, byte)
           else leb_loop m buf buf_end maxbits result' (shift + 7) (offset + 1) (bcnt + 1))"
  by pat_completeness auto
termination
  by (relation "measure (\<lambda>(m, buf, e, maxbits, r, s, off, bcnt). (maxbits + 6) div 7 - bcnt)") auto

declare leb_loop.simps [simp del]

definition bh_leb_read ::
  "cmem \<Rightarrow> u32 \<Rightarrow> u32 \<Rightarrow> nat \<Rightarrow> bool \<Rightarrow> bh_leb_read_status + (u64 \<times> nat)" where
  "bh_leb_read m buf buf_end maxbits sign =
     bindE (leb_loop m buf buf_end maxbits 0 0 0 0) (\<lambda>(result, shift, offset, byte).
       if \<not> sign \<and> maxbits = 32 \<and> shift \<ge> maxbits then
         (if byte AND 0xf0 \<noteq> 0 then Inl BH_LEB_READ_OVERFLOW else Inr (result, offset))
       else if sign \<and> maxbits = 32 then
         (if shift < maxbits then
            (if byte AND 0x40 \<noteq> 0
             then Inr (result OR push_bit shift (NOT 0), offset)
             else Inr (result, offset))
          else
            (let sign_bit_set = (byte AND 0x8 \<noteq> 0); top_bits = byte AND 0xf0
             in if (sign_bit_set \<and> top_bits \<noteq> 0x70) \<or> (\<not> sign_bit_set \<and> top_bits \<noteq> 0)
                then Inl BH_LEB_READ_OVERFLOW else Inr (result, offset)))
       else if sign \<and> maxbits = 64 then
         (if shift < maxbits then
            (if byte AND 0x40 \<noteq> 0
             then Inr (result OR push_bit shift (NOT 0), offset)
             else Inr (result, offset))
          else
            (let sign_bit_set = (byte AND 0x1 \<noteq> 0); top_bits = byte AND 0xfe
             in if (sign_bit_set \<and> top_bits \<noteq> 0x7e) \<or> (\<not> sign_bit_set \<and> top_bits \<noteq> 0)
                then Inl BH_LEB_READ_OVERFLOW else Inr (result, offset)))
       else Inr (result, offset))"

section \<open>read_leb and the unchecked readers\<close>

text \<open>\<open>read_leb\<close> of the loader advances the caller's pointer on success and turns the
  status into the message of the load error.\<close>

definition leb_error_message :: "bh_leb_read_status \<Rightarrow> string" where
  "leb_error_message st = (case st of
      BH_LEB_READ_TOO_LONG \<Rightarrow> ''integer representation too long''
    | BH_LEB_READ_OVERFLOW \<Rightarrow> ''integer too large''
    | BH_LEB_READ_UNEXPECTED_END \<Rightarrow> ''unexpected end'')"

definition read_leb ::
  "cmem \<Rightarrow> u32 \<Rightarrow> u32 \<Rightarrow> nat \<Rightarrow> bool \<Rightarrow> string + (u64 \<times> u32)" where
  "read_leb m p p_end maxbits sign =
     (case bh_leb_read m p p_end maxbits sign of
        Inr (result, offset) \<Rightarrow> Inr (result, p + of_nat offset)
      | Inl st \<Rightarrow> Inl (leb_error_message st))"

definition read_leb_uint32 :: "cmem \<Rightarrow> u32 \<Rightarrow> u32 \<Rightarrow> string + (u32 \<times> u32)" where
  "read_leb_uint32 m p p_end =
     bindE (read_leb m p p_end 32 False) (\<lambda>(res64, p'). Inr (ucast res64, p'))"

definition read_leb_int32 :: "cmem \<Rightarrow> u32 \<Rightarrow> u32 \<Rightarrow> string + (u32 \<times> u32)" where
  "read_leb_int32 m p p_end =
     bindE (read_leb m p p_end 32 True) (\<lambda>(res64, p'). Inr (ucast res64, p'))"

definition read_leb_int64 :: "cmem \<Rightarrow> u32 \<Rightarrow> u32 \<Rightarrow> string + (u64 \<times> u32)" where
  "read_leb_int64 m p p_end =
     bindE (read_leb m p p_end 64 True) (\<lambda>(res64, p'). Inr (res64, p'))"

text \<open>\<open>read_leb_quick\<close> of the loader and \<open>read_leb\<close> of the interpreter have no test that
  stops them: on a memory of continuation bytes they run on, so they are partial.\<close>

partial_function (option) leb_quick_loop ::
  "cmem \<Rightarrow> u32 \<Rightarrow> u64 \<Rightarrow> nat \<Rightarrow> (u64 \<times> nat \<times> u8 \<times> u32) option" where
  "leb_quick_loop m buf result shift =
     (let byte = m buf;
          result' = result OR push_bit shift (ucast (byte AND 0x7f))
      in if byte AND 0x80 = 0 then Some (result', shift + 7, byte, buf + 1)
         else leb_quick_loop m (buf + 1) result' (shift + 7))"

definition read_leb_quick ::
  "cmem \<Rightarrow> u32 \<Rightarrow> nat \<Rightarrow> bool \<Rightarrow> (u64 \<times> u32) option" where
  "read_leb_quick m p maxbits sign =
     (case leb_quick_loop m p 0 0 of
        None \<Rightarrow> None
      | Some (result, shift, byte, p') \<Rightarrow>
          if sign \<and> shift < maxbits \<and> byte AND 0x40 \<noteq> 0
          then Some (result OR push_bit shift (NOT 0), p') else Some (result, p'))"

section \<open>The numbers the encodings stand for\<close>

fun leb_val :: "u8 list \<Rightarrow> int" where
  "leb_val [] = 0"
| "leb_val (b # bs) = uint b mod 128 + 128 * leb_val bs"

fun leb_wf :: "u8 list \<Rightarrow> bool" where
  "leb_wf [] = False"
| "leb_wf (b # bs) = (if bs = [] then uint b < 128 else 128 \<le> uint b \<and> leb_wf bs)"

definition leb_sval :: "u8 list \<Rightarrow> int" where
  "leb_sval bs = (if 64 \<le> uint (last bs) mod 128
                  then leb_val bs - 128 ^ length bs else leb_val bs)"

lemma leb_wf_ne: "leb_wf bs \<Longrightarrow> bs \<noteq> []"
  by (cases bs) auto

lemma leb_val_ge0: "0 \<le> leb_val bs"
  by (induction bs) auto

lemma leb_val_less: "leb_val bs < 128 ^ length bs"
proof (induction bs)
  case (Cons b bs)
  have "uint b mod 128 < 128" by simp
  moreover have "128 * leb_val bs \<le> 128 * (128 ^ length bs - 1)" using Cons by simp
  ultimately show ?case by (simp add: algebra_simps)
qed simp

lemma leb_val_snoc: "leb_val (bs @ [b]) = leb_val bs + 128 ^ length bs * (uint b mod 128)"
  by (induction bs) (simp_all add: algebra_simps)

section \<open>The loop on a terminated digit string\<close>

lemma byte_and_7f: "uint (b AND 0x7f :: u8) = uint b mod 128"
  by (rule byte_all [where P = "\<lambda>b. uint (b AND 0x7f) = uint b mod 128"]) code_simp

lemma byte_and_80: "(b AND 0x80 = (0 :: u8)) \<longleftrightarrow> uint b < 128"
  by (rule byte_all [where P = "\<lambda>b. (b AND 0x80 = 0) \<longleftrightarrow> uint b < 128"]) code_simp

lemma byte_and_40: "(b AND 0x40 = (0 :: u8)) \<longleftrightarrow> uint b mod 128 < 64"
  by (rule byte_all [where P = "\<lambda>b. (b AND 0x40 = 0) \<longleftrightarrow> uint b mod 128 < 64"]) code_simp

lemma byte_and_f0: "(b AND 0xf0 = (0 :: u8)) \<longleftrightarrow> uint b < 16"
  by (rule byte_all [where P = "\<lambda>b. (b AND 0xf0 = 0) \<longleftrightarrow> uint b < 16"]) code_simp

lemma byte_s32_top:
  "uint b < 128 \<Longrightarrow>
   (b AND 0x8 \<noteq> 0 \<and> b AND 0xf0 \<noteq> 0x70 \<or> b AND 0x8 = 0 \<and> b AND 0xf0 \<noteq> (0 :: u8))
   \<longleftrightarrow> 8 \<le> uint b \<and> uint b < 120"
  by (rule byte_all [where P = "\<lambda>b. uint b < 128 \<longrightarrow>
        ((b AND 0x8 \<noteq> 0 \<and> b AND 0xf0 \<noteq> 0x70 \<or> b AND 0x8 = 0 \<and> b AND 0xf0 \<noteq> 0)
         \<longleftrightarrow> 8 \<le> uint b \<and> uint b < 120)", rule_format]) code_simp

lemma byte_s64_top:
  "uint b < 128 \<Longrightarrow>
   (b AND 0x1 \<noteq> 0 \<and> b AND 0xfe \<noteq> 0x7e \<or> b AND 0x1 = 0 \<and> b AND 0xfe \<noteq> (0 :: u8))
   \<longleftrightarrow> 1 \<le> uint b \<and> uint b < 127"
  by (rule byte_all [where P = "\<lambda>b. uint b < 128 \<longrightarrow>
        ((b AND 0x1 \<noteq> 0 \<and> b AND 0xfe \<noteq> 0x7e \<or> b AND 0x1 = 0 \<and> b AND 0xfe \<noteq> 0)
         \<longleftrightarrow> 1 \<le> uint b \<and> uint b < 127)", rule_format]) code_simp

text \<open>One round of the accumulator: the new digit lands above all earlier ones.\<close>

lemma ucast_and_7f: "(ucast (b AND 0x7f :: u8) :: u64) = word_of_int (uint b mod 128)"
  by (simp add: ucast_eq byte_and_7f)

lemma leb_round:
  fixes r :: u64
  assumes "uint r < 2 ^ (7 * k)"
  shows "r OR push_bit (7 * k) (ucast (b AND 0x7f :: u8))
         = r + push_bit (7 * k) (word_of_int (uint b mod 128))"
    and "uint (r OR push_bit (7 * k) (ucast (b AND 0x7f :: u8))) < 2 ^ (7 * Suc k)"
proof -
  show "r OR push_bit (7 * k) (ucast (b AND 0x7f :: u8))
         = r + push_bit (7 * k) (word_of_int (uint b mod 128))"
    by (simp only: or_push_bit_eq_add [OF assms] ucast_and_7f)
  have mod: "uint b mod 128 = take_bit 7 (uint b)"
    by (simp add: take_bit_eq_mod)
  show "uint (r OR push_bit (7 * k) (ucast (b AND 0x7f :: u8))) < 2 ^ (7 * Suc k)"
    by (intro uint_less_exp_of_bits)
      (auto simp: bit_simps ucast_and_7f mod dest!: bit_small_imp [OF assms])
qed

lemma leb_loop_wf:
  assumes "leb_wf bs" "cbytes m (buf + of_nat k) (length bs) = bs"
    and "unat buf + k + length bs \<le> unat e" "uint r < 2 ^ (7 * k)"
  shows "leb_loop m buf e maxbits r (7 * k) k k =
    (if k + length bs > (maxbits + 6) div 7 then Inl BH_LEB_READ_TOO_LONG
     else Inr (r + push_bit (7 * k) (word_of_int (leb_val bs)),
               7 * (k + length bs), k + length bs, last bs))"
  using assms
proof (induction bs arbitrary: k r)
  case (Cons b bs)
  have mb: "m (buf + of_nat k) = b"
    and mbs: "cbytes m (buf + of_nat (Suc k)) (length bs) = bs"
    using Cons.prems(2) by (simp_all add: cbytes_Suc algebra_simps)
  have lt: "k + 1 < 2 ^ 32"
    using Cons.prems(3) unat_u32_less [of e] by simp
  have ptr: "\<not> (buf + of_nat k + 1 < buf \<or> buf + of_nat k + 1 > e)"
    using ptr_nat_check_iff [OF lt, of buf e] Cons.prems(3)
    by (simp add: algebra_simps)
  let ?r = "r OR push_bit (7 * k) (ucast (b AND 0x7f))"
  note rnd = leb_round [OF Cons.prems(4), of b]
  show ?case
  proof (cases "bs = []")
    case True
    with Cons.prems(1) have "b AND 0x80 = 0" "uint b mod 128 = uint b"
      by (simp_all add: byte_and_80)
    with True ptr mb rnd(1) show ?thesis
      by (subst leb_loop.simps) (simp add: Let_def)
  next
    case False
    with Cons.prems(1) have wf: "leb_wf bs" and hi: "b AND 0x80 \<noteq> 0"
      by (simp_all add: byte_and_80)
    have IH: "leb_loop m buf e maxbits ?r (7 * Suc k) (Suc k) (Suc k) =
      (if Suc k + length bs > (maxbits + 6) div 7 then Inl BH_LEB_READ_TOO_LONG
       else Inr (?r + push_bit (7 * Suc k) (word_of_int (leb_val bs)),
                 7 * (Suc k + length bs), Suc k + length bs, last bs))"
      using Cons.prems(3) by (intro Cons.IH [OF wf mbs _ rnd(2)]) simp
    have acc: "?r + push_bit (7 * Suc k) (word_of_int (leb_val bs)) =
        r + push_bit (7 * k) (word_of_int (leb_val (b # bs)))"
      unfolding rnd(1) by (simp add: push_bit_eq_mult power_add algebra_simps)
    show ?thesis
    proof (cases "k + 1 > (maxbits + 6) div 7")
      case True
      then show ?thesis by (subst leb_loop.simps) simp
    next
      case False
      then have "leb_loop m buf e maxbits r (7 * k) k k =
          leb_loop m buf e maxbits ?r (7 * Suc k) (Suc k) (Suc k)"
        using ptr mb hi by (subst leb_loop.simps) (simp add: Let_def add.commute [of 7])
      with IH acc \<open>bs \<noteq> []\<close> show ?thesis by simp
    qed
  qed
qed simp

lemma leb_loop_start:
  assumes "leb_wf bs" "cbytes m p (length bs) = bs" "unat p + length bs \<le> unat e"
  shows "leb_loop m p e maxbits 0 0 0 0 =
    (if length bs > (maxbits + 6) div 7 then Inl BH_LEB_READ_TOO_LONG
     else Inr (word_of_int (leb_val bs), 7 * length bs, length bs, last bs))"
  using leb_loop_wf [of bs m p 0 e 0 maxbits] assms by simp

text \<open>The value of a string is that of its first digits plus the last digit at its weight.\<close>

lemma leb_val_last:
  assumes "leb_wf bs" "length bs = Suc n"
  shows "leb_val bs = leb_val (butlast bs) + 128 ^ n * uint (last bs)"
    and "0 \<le> leb_val (butlast bs)" "leb_val (butlast bs) < 128 ^ n" "uint (last bs) < 128"
proof -
  have ne: "bs \<noteq> []" and len: "length (butlast bs) = n" using assms by auto
  have last: "leb_wf xs \<Longrightarrow> uint (last xs) < 128" for xs
    by (induction xs) (auto split: if_splits)
  then show l: "uint (last bs) < 128" using assms by blast
  show "leb_val bs = leb_val (butlast bs) + 128 ^ n * uint (last bs)"
    using leb_val_snoc [of "butlast bs" "last bs"] ne len l by simp
  show "0 \<le> leb_val (butlast bs)" by (rule leb_val_ge0)
  show "leb_val (butlast bs) < 128 ^ n" using leb_val_less [of "butlast bs"] len by simp
qed

lemma leb_len_cases: "leb_wf bs \<Longrightarrow> \<exists>n. length bs = Suc n"
  by (cases bs) auto

lemma pow_128_le: "n \<le> k \<Longrightarrow> (128 :: int) ^ n \<le> 128 ^ k"
  by (rule power_increasing) auto

lemma ucast_word_of_int: "(ucast (word_of_int i :: u64) :: u32) = word_of_int i"
  by (rule bit_word_eqI) (simp add: bit_simps)

section \<open>What the checked readers return\<close>

lemma leb_u32_overflow:
  assumes "leb_wf bs" "length bs \<le> 5"
  shows "(32 \<le> 7 * length bs \<and> 16 \<le> uint (last bs)) \<longleftrightarrow> 2 ^ 32 \<le> leb_val bs"
proof -
  obtain n where n: "length bs = Suc n" using leb_len_cases [OF assms(1)] by blast
  note v = leb_val_last [OF assms(1) n]
  show ?thesis
  proof (cases "n = 4")
    case True
    then show ?thesis using v n by simp linarith
  next
    case False
    with assms(2) n have "n \<le> 3" by simp
    moreover from this have "(128 :: int) ^ n \<le> 128 ^ 3" by (rule pow_128_le)
    ultimately show ?thesis using leb_val_less [of bs] n by simp
  qed
qed

lemma bh_leb_read_u32:
  assumes "leb_wf bs" "cbytes m p (length bs) = bs" "unat p + length bs \<le> unat e"
  shows "bh_leb_read m p e 32 False =
    (if 5 < length bs then Inl BH_LEB_READ_TOO_LONG
     else if 2 ^ 32 \<le> leb_val bs then Inl BH_LEB_READ_OVERFLOW
     else Inr (word_of_int (leb_val bs), length bs))"
proof (cases "5 < length bs")
  case True
  then show ?thesis
    using leb_loop_start [OF assms, of 32] by (simp add: bh_leb_read_def)
next
  case False
  then have "bh_leb_read m p e 32 False =
      (if 32 \<le> 7 * length bs \<and> last bs AND 0xf0 \<noteq> 0 then Inl BH_LEB_READ_OVERFLOW
       else Inr (word_of_int (leb_val bs), length bs))"
    using leb_loop_start [OF assms, of 32] by (simp add: bh_leb_read_def)
  with False leb_u32_overflow [OF assms(1)]
  have "bh_leb_read m p e 32 False =
      (if 2 ^ 32 \<le> leb_val bs then Inl BH_LEB_READ_OVERFLOW
       else Inr (word_of_int (leb_val bs), length bs))"
    by (simp only: byte_and_f0 not_less)
  with False show ?thesis by simp
qed

text \<open>C32: the unsigned 32-bit reader of the loader returns, on every complete LEB128 digit string that
  lies in its buffer, the number the string stands for and the pointer behind it when the string has at
  most five bytes and the number is below \<open>2 ^ 32\<close>, and otherwise the error for a string that is too
  long or a number that is too large.\<close>

theorem read_leb_uint32_spec:
  assumes "leb_wf bs" "cbytes m p (length bs) = bs" "unat p + length bs \<le> unat e"
  shows "read_leb_uint32 m p e =
    (if 5 < length bs then Inl ''integer representation too long''
     else if 2 ^ 32 \<le> leb_val bs then Inl ''integer too large''
     else Inr (word_of_int (leb_val bs), p + of_nat (length bs)))"
  unfolding read_leb_uint32_def read_leb_def bh_leb_read_u32 [OF assms]
  by (simp add: leb_error_message_def ucast_word_of_int)

lemma leb_sval_bounds:
  assumes "leb_wf bs"
  shows "- (64 * 128 ^ (length bs - 1)) \<le> leb_sval bs" "leb_sval bs < 64 * 128 ^ (length bs - 1)"
proof -
  obtain n where n: "length bs = Suc n" using leb_len_cases [OF assms] by blast
  note v = leb_val_last [OF assms n]
  let ?P = "(128 :: int) ^ n"
  have P: "0 < ?P" by simp
  have "- (64 * ?P) \<le> leb_sval bs \<and> leb_sval bs < 64 * ?P"
  proof (cases "64 \<le> uint (last bs)")
    case True
    have "?P * 64 \<le> ?P * uint (last bs)" "?P * uint (last bs) \<le> ?P * 127"
      using True v(4) P by (intro mult_left_mono; simp)+
    moreover have "leb_sval bs = leb_val bs - 128 * ?P"
      using True v n by (simp add: leb_sval_def)
    ultimately show ?thesis using v by linarith
  next
    case False
    have "?P * 0 \<le> ?P * uint (last bs)" "?P * uint (last bs) \<le> ?P * 63"
      using False P by (intro mult_left_mono; simp)+
    moreover have "leb_sval bs = leb_val bs"
      using False v n by (simp add: leb_sval_def)
    ultimately show ?thesis using v by linarith
  qed
  then show "- (64 * 128 ^ (length bs - 1)) \<le> leb_sval bs"
    "leb_sval bs < 64 * 128 ^ (length bs - 1)" using n by simp_all
qed

lemma leb_s32_range:
  assumes "leb_wf bs" "length bs \<le> 5"
  shows "- (2 ^ 31) \<le> leb_sval bs \<and> leb_sval bs < 2 ^ 31 \<longleftrightarrow>
    \<not> (32 \<le> 7 * length bs \<and> 8 \<le> uint (last bs) \<and> uint (last bs) < 120)"
proof -
  obtain n where n: "length bs = Suc n" using leb_len_cases [OF assms(1)] by blast
  note v = leb_val_last [OF assms(1) n]
  show ?thesis
  proof (cases "n = 4")
    case True
    then show ?thesis using v n
      by (auto simp: leb_sval_def) (use uint_ge_0 [of "last bs"] in linarith)
  next
    case False
    with assms(2) n have "n \<le> 3" by simp
    moreover from this have "(128 :: int) ^ n \<le> 128 ^ 3" by (rule pow_128_le)
    ultimately show ?thesis using leb_sval_bounds [OF assms(1)] n by simp
  qed
qed

lemma leb_s64_range:
  assumes "leb_wf bs" "length bs \<le> 10"
  shows "- (2 ^ 63) \<le> leb_sval bs \<and> leb_sval bs < 2 ^ 63 \<longleftrightarrow>
    \<not> (64 \<le> 7 * length bs \<and> 1 \<le> uint (last bs) \<and> uint (last bs) < 127)"
proof -
  obtain n where n: "length bs = Suc n" using leb_len_cases [OF assms(1)] by blast
  note v = leb_val_last [OF assms(1) n]
  show ?thesis
  proof (cases "n = 9")
    case True
    then show ?thesis using v n
      by (auto simp: leb_sval_def) (use uint_ge_0 [of "last bs"] in linarith)
  next
    case False
    with assms(2) n have "n \<le> 8" by simp
    moreover from this have "(128 :: int) ^ n \<le> 128 ^ 8" by (rule pow_128_le)
    ultimately show ?thesis using leb_sval_bounds [OF assms(1)] n by simp
  qed
qed

text \<open>The sign extension of a string that ends below the width.\<close>

lemma leb_sign_extend:
  assumes "7 * length bs < 64" "leb_wf bs"
  shows "word_of_int (leb_val bs) OR push_bit (7 * length bs) (NOT 0)
    = (word_of_int (leb_val bs - 128 ^ length bs) :: u64)"
proof -
  have "(128 :: int) ^ length bs = 2 ^ (7 * length bs)" by (simp add: power_mult)
  moreover have "leb_val bs < 2 ^ (7 * length bs)"
    using leb_val_less [of bs] by (simp add: power_mult)
  moreover have "uint (word_of_int (leb_val bs) :: u64) \<le> leb_val bs"
    using leb_val_ge0 [of bs] by (simp add: uint_word_of_int zmod_le_nonneg_dividend)
  ultimately have "uint (word_of_int (leb_val bs) :: u64) < 2 ^ (7 * length bs)" by linarith
  then have "word_of_int (leb_val bs) OR push_bit (7 * length bs) (NOT 0)
      = (word_of_int (leb_val bs) + push_bit (7 * length bs) (NOT 0) :: u64)"
    by (rule or_push_bit_eq_add)
  also have "\<dots> = word_of_int (leb_val bs) + NOT 0 * 2 ^ (7 * length bs)"
    by (simp only: push_bit_eq_mult)
  also have "\<dots> = word_of_int (leb_val bs - 128 ^ length bs)"
    by (simp add: power_mult)
  finally show ?thesis .
qed

lemma leb_sval_last: "leb_wf bs \<Longrightarrow>
  leb_sval bs = (if last bs AND 0x40 \<noteq> 0 then leb_val bs - 128 ^ length bs else leb_val bs)"
  by (simp add: leb_sval_def byte_and_40 not_less)

lemma bh_leb_read_s32:
  assumes "leb_wf bs" "cbytes m p (length bs) = bs" "unat p + length bs \<le> unat e"
  shows "map_sum id (\<lambda>(r, n). (ucast r :: u32, n)) (bh_leb_read m p e 32 True) =
    (if 5 < length bs then Inl BH_LEB_READ_TOO_LONG
     else if leb_sval bs < - (2 ^ 31) \<or> 2 ^ 31 \<le> leb_sval bs then Inl BH_LEB_READ_OVERFLOW
     else Inr (word_of_int (leb_sval bs), length bs))"
proof (cases "5 < length bs")
  case True
  then show ?thesis
    using leb_loop_start [OF assms, of 32] by (simp add: bh_leb_read_def)
next
  case False
  then have range: "leb_sval bs < - (2 ^ 31) \<or> 2 ^ 31 \<le> leb_sval bs \<longleftrightarrow>
      32 \<le> 7 * length bs \<and> 8 \<le> uint (last bs) \<and> uint (last bs) < 120"
    using leb_s32_range [OF assms(1)] by auto
  obtain n where n: "length bs = Suc n" using leb_len_cases [OF assms(1)] by blast
  note top = byte_s32_top [OF leb_val_last(4) [OF assms(1) n]]
  have loop: "leb_loop m p e 32 0 0 0 0 =
      Inr (word_of_int (leb_val bs), 7 * length bs, length bs, last bs)"
    using False leb_loop_start [OF assms, of 32] by simp
  show ?thesis
  proof (cases "7 * length bs < 32")
    case True
    have "bh_leb_read m p e 32 True = Inr (word_of_int (leb_sval bs), length bs)"
      using loop True leb_sign_extend [of bs] assms(1)
      by (simp add: bh_leb_read_def leb_sval_last)
    then show ?thesis using True False range by (simp add: ucast_word_of_int)
  next
    case long: False
    with False have len: "length bs = 5" by simp
    have "bh_leb_read m p e 32 True =
        (if 8 \<le> uint (last bs) \<and> uint (last bs) < 120 then Inl BH_LEB_READ_OVERFLOW
         else Inr (word_of_int (leb_val bs), length bs))"
      using loop len top by (auto simp: bh_leb_read_def Let_def)
    moreover have "(word_of_int (leb_val bs) :: u32) = word_of_int (leb_sval bs)"
      using len mod_diff_right_eq [of "leb_val bs" "128 ^ 5" "2 ^ 32"] by (simp add: leb_sval_def word_of_int_eq_iff take_bit_eq_mod)
    ultimately show ?thesis using len range by (simp add: ucast_word_of_int)
  qed
qed

lemma bh_leb_read_s64:
  assumes "leb_wf bs" "cbytes m p (length bs) = bs" "unat p + length bs \<le> unat e"
  shows "bh_leb_read m p e 64 True =
    (if 10 < length bs then Inl BH_LEB_READ_TOO_LONG
     else if leb_sval bs < - (2 ^ 63) \<or> 2 ^ 63 \<le> leb_sval bs then Inl BH_LEB_READ_OVERFLOW
     else Inr (word_of_int (leb_sval bs), length bs))"
proof (cases "10 < length bs")
  case True
  then show ?thesis
    using leb_loop_start [OF assms, of 64] by (simp add: bh_leb_read_def)
next
  case False
  then have range: "leb_sval bs < - (2 ^ 63) \<or> 2 ^ 63 \<le> leb_sval bs \<longleftrightarrow>
      64 \<le> 7 * length bs \<and> 1 \<le> uint (last bs) \<and> uint (last bs) < 127"
    using leb_s64_range [OF assms(1)] by auto
  obtain n where n: "length bs = Suc n" using leb_len_cases [OF assms(1)] by blast
  note top = byte_s64_top [OF leb_val_last(4) [OF assms(1) n]]
  have loop: "leb_loop m p e 64 0 0 0 0 =
      Inr (word_of_int (leb_val bs), 7 * length bs, length bs, last bs)"
    using False leb_loop_start [OF assms, of 64] by simp
  show ?thesis
  proof (cases "7 * length bs < 64")
    case True
    have "bh_leb_read m p e 64 True = Inr (word_of_int (leb_sval bs), length bs)"
      using loop True leb_sign_extend [of bs] assms(1)
      by (simp add: bh_leb_read_def leb_sval_last)
    then show ?thesis using True False range by simp
  next
    case long: False
    with False have len: "length bs = 10" by simp
    have "bh_leb_read m p e 64 True =
        (if 1 \<le> uint (last bs) \<and> uint (last bs) < 127 then Inl BH_LEB_READ_OVERFLOW
         else Inr (word_of_int (leb_val bs), length bs))"
      using loop len top by (auto simp: bh_leb_read_def Let_def)
    moreover have "(word_of_int (leb_val bs) :: u64) = word_of_int (leb_sval bs)"
      using len mod_diff_right_eq [of "leb_val bs" "128 ^ 10" "2 ^ 64"] by (simp add: leb_sval_def word_of_int_eq_iff take_bit_eq_mod)
    ultimately show ?thesis using len range by simp
  qed
qed

text \<open>C33: the signed readers of the loader return, on every complete LEB128 digit string that lies in
  the buffer, the two's complement number the string stands for and the pointer behind it when the string
  is at most five (ten) bytes long and the number fits 32 (64) bits, and the load error otherwise.\<close>

theorem read_leb_signed_spec:
  assumes "leb_wf bs" "cbytes m p (length bs) = bs" "unat p + length bs \<le> unat e"
  shows "read_leb_int32 m p e =
      (if 5 < length bs then Inl ''integer representation too long''
       else if leb_sval bs < - (2 ^ 31) \<or> 2 ^ 31 \<le> leb_sval bs then Inl ''integer too large''
       else Inr (word_of_int (leb_sval bs), p + of_nat (length bs))) \<and>
    read_leb_int64 m p e =
      (if 10 < length bs then Inl ''integer representation too long''
       else if leb_sval bs < - (2 ^ 63) \<or> 2 ^ 63 \<le> leb_sval bs then Inl ''integer too large''
       else Inr (word_of_int (leb_sval bs), p + of_nat (length bs)))"
proof
  have "read_leb_int32 m p e =
      map_sum leb_error_message (\<lambda>(r, n). (r, p + of_nat n))
        (map_sum id (\<lambda>(r, n). (ucast r :: u32, n)) (bh_leb_read m p e 32 True))"
    by (auto simp: read_leb_int32_def read_leb_def split: sum.splits)
  then show "read_leb_int32 m p e =
      (if 5 < length bs then Inl ''integer representation too long''
       else if leb_sval bs < - (2 ^ 31) \<or> 2 ^ 31 \<le> leb_sval bs then Inl ''integer too large''
       else Inr (word_of_int (leb_sval bs), p + of_nat (length bs)))"
    unfolding bh_leb_read_s32 [OF assms] by (simp add: leb_error_message_def)
  show "read_leb_int64 m p e =
      (if 10 < length bs then Inl ''integer representation too long''
       else if leb_sval bs < - (2 ^ 63) \<or> 2 ^ 63 \<le> leb_sval bs then Inl ''integer too large''
       else Inr (word_of_int (leb_sval bs), p + of_nat (length bs)))"
    unfolding read_leb_int64_def read_leb_def bh_leb_read_s64 [OF assms]
    by (simp add: leb_error_message_def)
qed

section \<open>Memory safety and unterminated strings\<close>

lemma leb_ptr_ok:
  fixes buf e :: u32
  assumes "\<not> (buf + of_nat k + 1 < buf \<or> buf + of_nat k + 1 > e)" "k < 1000"
  shows "unat buf + k + 1 \<le> unat e" "unat (buf + of_nat k) = unat buf + k"
proof -
  show c: "unat buf + k + 1 \<le> unat e"
    using ptr_nat_check_iff [of "k + 1" buf e] assms by (simp add: algebra_simps)
  then show "unat (buf + of_nat k) = unat buf + k"
    using unat_u32_less [of e] assms(2) by (simp add: unat_word_ariths unat_of_nat)
qed

lemma leb_loop_same_on:
  assumes "same_on buf e m m'" "maxbits \<le> 64"
  shows "leb_loop m buf e maxbits r s k k = leb_loop m' buf e maxbits r s k k"
  using assms
proof (induction "(maxbits + 6) div 7 - k" arbitrary: r s k rule: less_induct)
  case less
  show ?case
  proof (cases "k + 1 > (maxbits + 6) div 7 \<or>
      (buf + of_nat k + 1 < buf \<or> buf + of_nat k + 1 > e)")
    case True
    then show ?thesis
      by (auto simp: leb_loop.simps [of m _ _ _ _ _ k k] leb_loop.simps [of m' _ _ _ _ _ k k])
  next
    case False
    then have k: "k + 1 \<le> (maxbits + 6) div 7" and "k < 1000"
      using less.prems(2) by auto
    with False leb_ptr_ok [of buf k e] have "unat buf + k + 1 \<le> unat e"
      "unat (buf + of_nat k) = unat buf + k" by auto
    then have "m (buf + of_nat k) = m' (buf + of_nat k)"
      using less.prems(1) by (simp add: same_on_def word_le_nat_alt word_less_nat_alt)
    moreover have "leb_loop m buf e maxbits r' s' (k + 1) (k + 1)
        = leb_loop m' buf e maxbits r' s' (k + 1) (k + 1)" for r' s'
      using k by (intro less.hyps less.prems) simp
    ultimately show ?thesis
      by (simp only: leb_loop.simps [of m _ _ _ _ _ k k] leb_loop.simps [of m' _ _ _ _ _ k k])
  qed
qed

lemma leb_loop_success:
  assumes "leb_loop m buf e maxbits r s k k = Inr (r', s', n, b)" "maxbits \<le> 64"
  shows "\<exists>bs. leb_wf bs \<and> cbytes m (buf + of_nat k) (length bs) = bs \<and>
    unat buf + k + length bs \<le> unat e \<and> n = k + length bs"
  using assms
proof (induction "(maxbits + 6) div 7 - k" arbitrary: r s k rule: less_induct)
  case less
  let ?b = "m (buf + of_nat k)"
  have k: "\<not> k + 1 > (maxbits + 6) div 7"
    and ptr: "\<not> (buf + of_nat k + 1 < buf \<or> buf + of_nat k + 1 > e)"
    using less.prems(1) by (auto simp: leb_loop.simps [of m _ _ _ _ _ k k] split: if_splits)
  from k less.prems(2) have "k < 1000" by simp
  note p = leb_ptr_ok [OF ptr this]
  show ?case
  proof (cases "?b AND 0x80 = 0")
    case True
    then have "n = k + 1"
      using less.prems(1) k ptr by (simp add: leb_loop.simps [of m _ _ _ _ _ k k] Let_def)
    then show ?thesis using True p
      by (intro exI [of _ "[?b]"]) (simp add: byte_and_80 cbytes_Suc)
  next
    case False
    then have "leb_loop m buf e maxbits (r OR push_bit s (ucast (?b AND 0x7f))) (s + 7)
        (k + 1) (k + 1) = Inr (r', s', n, b)"
      using less.prems(1) k ptr by (simp add: leb_loop.simps [of m _ _ _ _ _ k k] Let_def)
    moreover have "(maxbits + 6) div 7 - (k + 1) < (maxbits + 6) div 7 - k" using k by simp
    ultimately obtain bs where bs: "leb_wf bs"
      "cbytes m (buf + of_nat (k + 1)) (length bs) = bs"
      "unat buf + (k + 1) + length bs \<le> unat e" "n = k + 1 + length bs"
      using less.hyps less.prems(2) by blast
    then show ?thesis using False
      by (intro exI [of _ "?b # bs"]) (auto simp: byte_and_80 cbytes_Suc algebra_simps)
  qed
qed

lemma leb_loop_unterminated:
  assumes "\<forall>i<d. 128 \<le> uint (m (buf + of_nat i))" "unat buf + d = unat e"
    and "k \<le> d" "maxbits \<le> 64" "k \<le> (maxbits + 6) div 7"
  shows "leb_loop m buf e maxbits r s k k =
    Inl (if (maxbits + 6) div 7 \<le> d then BH_LEB_READ_TOO_LONG
         else BH_LEB_READ_UNEXPECTED_END)"
  using assms
proof (induction "d - k" arbitrary: r s k)
  case 0
  then have "k = d" "unat e < unat buf + (k + 1)" "k + 1 < 2 ^ 32" by auto
  then have "buf + of_nat k + 1 < buf \<or> buf + of_nat k + 1 > e"
    using ptr_nat_check_iff [of "k + 1" buf e] by (simp add: algebra_simps)
  with 0 \<open>k = d\<close> show ?case by (auto simp: leb_loop.simps [of m _ _ _ _ _ d d])
next
  case (Suc j)
  then have "k < d" by simp
  then have hi: "m (buf + of_nat k) AND 0x80 \<noteq> 0" and ok: "unat buf + (k + 1) \<le> unat e"
    using Suc.prems by (auto simp: byte_and_80)
  show ?case
  proof (cases "k + 1 > (maxbits + 6) div 7")
    case True
    with \<open>k < d\<close> Suc.prems show ?thesis by (simp add: leb_loop.simps [of m _ _ _ _ _ k k])
  next
    case False
    then have "k + 1 < 2 ^ 32" using Suc.prems(4) by simp
    then have "\<not> (buf + of_nat k + 1 < buf \<or> buf + of_nat k + 1 > e)"
      using ptr_nat_check_iff [of "k + 1" buf e] ok by (simp add: algebra_simps)
    then have "leb_loop m buf e maxbits r s k k = leb_loop m buf e maxbits
        (r OR push_bit s (ucast (m (buf + of_nat k) AND 0x7f))) (s + 7) (k + 1) (k + 1)"
      using False hi by (simp add: leb_loop.simps [of m _ _ _ _ _ k k] Let_def)
    moreover have "j = d - (k + 1)" "k + 1 \<le> d" "k + 1 \<le> (maxbits + 6) div 7"
      using Suc.hyps(2) False \<open>k < d\<close> by auto
    ultimately show ?thesis using Suc.hyps(1) [of "k + 1"] Suc.prems by simp
  qed
qed

lemma bh_leb_read_loop_Inr:
  assumes "bh_leb_read m p e maxbits sign = Inr (r, n)"
  obtains res s b where "leb_loop m p e maxbits 0 0 0 0 = Inr (res, s, n, b)"
  using assms by (auto simp: bh_leb_read_def Let_def split: prod.splits if_splits)

lemma bh_leb_read_Inr:
  assumes "bh_leb_read m p e maxbits sign = Inr (r, n)" "maxbits \<le> 64"
  shows "0 < n" "n \<le> (maxbits + 6) div 7" "unat p + n \<le> unat e" "leb_wf (cbytes m p n)"
proof -
  from assms(1) obtain res s b where loop: "leb_loop m p e maxbits 0 0 0 0 = Inr (res, s, n, b)"
    by (rule bh_leb_read_loop_Inr)
  from leb_loop_success [OF this assms(2)] obtain bs where bs: "leb_wf bs"
    "cbytes m p (length bs) = bs" "unat p + length bs \<le> unat e" "n = length bs"
    by auto
  then show "0 < n" "unat p + n \<le> unat e" "leb_wf (cbytes m p n)"
    using leb_wf_ne by auto
  show "n \<le> (maxbits + 6) div 7"
    using loop leb_loop_start [OF bs(1-3), of maxbits] bs(4) by (auto split: if_splits)
qed

lemma bh_leb_read_same_on:
  "same_on p e m m' \<Longrightarrow> maxbits \<le> 64 \<Longrightarrow>
   bh_leb_read m p e maxbits sign = bh_leb_read m' p e maxbits sign"
  by (simp add: bh_leb_read_def leb_loop_same_on)

lemma read_leb_Inr:
  assumes "read_leb m p e maxbits sign = Inr (r, p')" "maxbits \<le> 64"
  shows "unat p < unat p'" "unat p' \<le> unat e"
proof -
  from assms(1) obtain n where n: "bh_leb_read m p e maxbits sign = Inr (r, n)" "p' = p + of_nat n"
    by (auto simp: read_leb_def split: sum.splits)
  note b = bh_leb_read_Inr [OF n(1) assms(2)]
  then have "unat p' = unat p + n"
    using n(2) unat_u32_less [of e] by (simp add: unat_word_ariths unat_of_nat)
  with b show "unat p < unat p'" "unat p' \<le> unat e" by auto
qed

lemma read_leb_same_on:
  "same_on p e m m' \<Longrightarrow> maxbits \<le> 64 \<Longrightarrow>
   read_leb m p e maxbits sign = read_leb m' p e maxbits sign"
  by (simp add: read_leb_def bh_leb_read_same_on)

lemma read_leb_uint32_Inr:
  assumes "read_leb_uint32 m p e = Inr (v, p')"
  shows "unat p < unat p'" "unat p' \<le> unat e"
  using assms read_leb_Inr [of m p e 32 False] by (auto simp: read_leb_uint32_def)

lemma read_leb_int32_Inr:
  assumes "read_leb_int32 m p e = Inr (v, p')"
  shows "unat p < unat p'" "unat p' \<le> unat e"
  using assms read_leb_Inr [of m p e 32 True] by (auto simp: read_leb_int32_def)

lemma read_leb_int64_Inr:
  assumes "read_leb_int64 m p e = Inr (v, p')"
  shows "unat p < unat p'" "unat p' \<le> unat e"
  using assms read_leb_Inr [of m p e 64 True] by (auto simp: read_leb_int64_def)

lemma read_leb_uint32_same_on:
  "same_on p e m m' \<Longrightarrow> read_leb_uint32 m p e = read_leb_uint32 m' p e"
  by (simp add: read_leb_uint32_def read_leb_same_on)

text \<open>C36: on success the decoder has consumed between one byte and \<open>\<lceil>maxbits / 7\<rceil>\<close> bytes that form one
  complete digit string inside the buffer, and whatever it returns, it has read no byte outside
  \<open>[buf, buf_end)\<close>: a memory that agrees there gives the same result.\<close>

theorem bh_leb_read_memory_safe:
  assumes "maxbits \<le> 64"
  shows "(bh_leb_read m p e maxbits sign = Inr (r, n) \<longrightarrow>
      0 < n \<and> n \<le> (maxbits + 6) div 7 \<and> unat p + n \<le> unat e \<and> leb_wf (cbytes m p n)) \<and>
    (same_on p e m m' \<longrightarrow> bh_leb_read m p e maxbits sign = bh_leb_read m' p e maxbits sign)"
proof (intro conjI impI)
  assume "bh_leb_read m p e maxbits sign = Inr (r, n)"
  from bh_leb_read_Inr [OF this assms]
  show "0 < n" "n \<le> (maxbits + 6) div 7" "unat p + n \<le> unat e" "leb_wf (cbytes m p n)" .
next
  assume "same_on p e m m'"
  then show "bh_leb_read m p e maxbits sign = bh_leb_read m' p e maxbits sign"
    by (rule bh_leb_read_same_on [OF _ assms])
qed

theorem bh_leb_read_memory_safe_witness:
  "leb_wf (cbytes (mem_of 0x1000 [0xe5, 0x8e, 0x26, 7]) 0x1000 3) \<and>
   bh_leb_read ((mem_of 0x1000 [0xe5, 0x8e, 0x26, 7])(0x1004 := 0x80, 0xfff := 1)) 0x1000 0x1004 32 False = Inr (624485, 3)"
proof -
  let ?m = "mem_of 0x1000 [0xe5, 0x8e, 0x26, 7]"
  have r: "bh_leb_read ?m 0x1000 0x1004 32 False = Inr (624485, 3)" by code_simp
  have s: "same_on 0x1000 0x1004 ?m (?m(0x1004 := 0x80, 0xfff := 1))" by (simp add: same_on_def word_less_nat_alt word_le_nat_alt)
  show ?thesis
    using bh_leb_read_memory_safe [of 32 ?m "0x1000" "0x1004" False 624485 3 "?m(0x1004 := 0x80, 0xfff := 1)"] r s by simp
qed

text \<open>C39: a buffer that holds only continuation bytes is rejected: as too long when it has at least
  \<open>\<lceil>maxbits / 7\<rceil>\<close> bytes and as ending unexpectedly otherwise. Together with the results on complete
  digit strings this gives the decoder's answer on every buffer.\<close>

theorem bh_leb_read_unterminated:
  assumes "list_all (\<lambda>b. 128 \<le> uint b) (cbytes m p (unat e - unat p))" "p \<le> e" "maxbits \<le> 64"
  shows "bh_leb_read m p e maxbits sign =
    Inl (if (maxbits + 6) div 7 \<le> unat e - unat p then BH_LEB_READ_TOO_LONG
         else BH_LEB_READ_UNEXPECTED_END)"
proof -
  have "\<forall>i<unat e - unat p. 128 \<le> uint (m (p + of_nat i))"
    using assms(1) by (auto simp: list_all_length)
  moreover have "unat p + (unat e - unat p) = unat e"
    using assms(2) by (simp add: word_le_nat_alt)
  ultimately show ?thesis
    using leb_loop_unterminated [of "unat e - unat p" m p e 0 maxbits 0 0] assms(3)
    by (simp add: bh_leb_read_def)
qed

theorem bh_leb_read_unterminated_witness:
  "bh_leb_read (mem_of 0x1000 [0x80, 0xff]) 0x1000 0x1002 32 True
   = Inl BH_LEB_READ_UNEXPECTED_END"
proof -
  have "list_all (\<lambda>b. 128 \<le> uint b)
      (cbytes (mem_of 0x1000 [0x80, 0xff]) 0x1000 (unat (0x1002 :: u32) - unat (0x1000 :: u32)))"
    by code_simp
  from bh_leb_read_unterminated [OF this] show ?thesis by simp
qed

theorem read_leb_uint32_spec_witness:
  "read_leb_uint32 (mem_of 0x1000 [0xe5, 0x8e, 0x26]) 0x1000 0x1003 = Inr (624485, 0x1003)"
proof -
  let ?bs = "[0xe5, 0x8e, 0x26] :: u8 list"
  have "leb_wf ?bs" "cbytes (mem_of 0x1000 ?bs) 0x1000 (length ?bs) = ?bs"
    "unat (0x1000 :: u32) + length ?bs \<le> unat (0x1003 :: u32)"
    by code_simp+
  from read_leb_uint32_spec [OF this] show ?thesis by simp
qed

theorem read_leb_signed_spec_witness:
  "read_leb_int32 (mem_of 0x1000 [0xc0, 0xbb, 0x78]) 0x1000 0x1003 = Inr (- 123456, 0x1003)"
proof -
  let ?bs = "[0xc0, 0xbb, 0x78] :: u8 list"
  have "leb_wf ?bs" "cbytes (mem_of 0x1000 ?bs) 0x1000 (length ?bs) = ?bs"
    "unat (0x1000 :: u32) + length ?bs \<le> unat (0x1003 :: u32)"
    by code_simp+
  from read_leb_signed_spec [OF this, THEN conjunct1] show ?thesis
    by (simp add: leb_sval_def)
qed

section \<open>The unchecked readers on checked code\<close>

lemma leb_quick_loop_agrees:
  assumes "leb_loop m buf e maxbits r s k k = Inr (r', s', n, b)" "maxbits \<le> 64"
  shows "leb_quick_loop m (buf + of_nat k) r s = Some (r', s', b, buf + of_nat n)"
  using assms
proof (induction "(maxbits + 6) div 7 - k" arbitrary: r s k rule: less_induct)
  case less
  let ?b = "m (buf + of_nat k)"
  have k: "\<not> k + 1 > (maxbits + 6) div 7"
    and ptr: "\<not> (buf + of_nat k + 1 < buf \<or> buf + of_nat k + 1 > e)"
    using less.prems(1) by (auto simp: leb_loop.simps [of m _ _ _ _ _ k k] split: if_splits)
  show ?case
  proof (cases "?b AND 0x80 = 0")
    case True
    then show ?thesis
      using less.prems(1) k ptr
      by (auto simp: leb_loop.simps [of m _ _ _ _ _ k k] leb_quick_loop.simps Let_def add.assoc)
  next
    case False
    then have "leb_loop m buf e maxbits (r OR push_bit s (ucast (?b AND 0x7f))) (s + 7)
        (k + 1) (k + 1) = Inr (r', s', n, b)"
      using less.prems(1) k ptr by (simp add: leb_loop.simps [of m _ _ _ _ _ k k] Let_def)
    moreover have "(maxbits + 6) div 7 - (k + 1) < (maxbits + 6) div 7 - k" using k by simp
    ultimately have "leb_quick_loop m (buf + of_nat (k + 1))
        (r OR push_bit s (ucast (?b AND 0x7f))) (s + 7) = Some (r', s', b, buf + of_nat n)"
      using less.hyps less.prems(2) by blast
    then show ?thesis using False
      by (simp add: leb_quick_loop.simps [of m "buf + of_nat k"] Let_def add.assoc add.commute [of 1])
  qed
qed

lemma read_leb_quick_eq:
  assumes "bh_leb_read m p e maxbits sign = Inr (r, n)" "maxbits = 32 \<or> maxbits = 64"
  shows "read_leb_quick m p maxbits sign = Some (r, p + of_nat n)"
proof -
  from assms(1) obtain res s b where loop: "leb_loop m p e maxbits 0 0 0 0 = Inr (res, s, n, b)"
    by (rule bh_leb_read_loop_Inr)
  with leb_quick_loop_agrees [of m p e maxbits 0 0 0] assms(2)
  have "leb_quick_loop m p 0 0 = Some (res, s, b, p + of_nat n)" by auto
  then show ?thesis
    using assms loop
    by (auto simp: read_leb_quick_def bh_leb_read_def Let_def split: if_splits)
qed

text \<open>What a successful reading returns depends on the bytes it consumed only.\<close>

lemma bh_leb_read_bytes:
  assumes "bh_leb_read m p e maxbits sign = Inr (r, n)" "maxbits \<le> 64"
    and "cbytes m' p n = cbytes m p n" "unat p + n \<le> unat e'"
  shows "bh_leb_read m' p e' maxbits sign = Inr (r, n)"
proof -
  from assms(1) obtain res s b where loop: "leb_loop m p e maxbits 0 0 0 0 = Inr (res, s, n, b)"
    by (rule bh_leb_read_loop_Inr)
  from leb_loop_success [OF this assms(2)] obtain bs where bs: "leb_wf bs"
    "cbytes m p (length bs) = bs" "unat p + length bs \<le> unat e" "n = length bs" by auto
  then have "leb_loop m' p e' maxbits 0 0 0 0 = leb_loop m p e maxbits 0 0 0 0"
    using leb_loop_start [OF bs(1-3), of maxbits] leb_loop_start [OF bs(1), of m' p e' maxbits] assms(3,4)
    by simp
  then show ?thesis using assms(1) by (simp add: bh_leb_read_def)
qed

lemma read_leb_quick_bytes:
  assumes "bh_leb_read m p e maxbits sign = Inr (r, n)" "maxbits = 32 \<or> maxbits = 64"
    and "cbytes m' p n = cbytes m p n"
  shows "read_leb_quick m' p maxbits sign = Some (r, p + of_nat n)"
proof -
  have "maxbits \<le> 64" using assms(2) by auto
  note read = bh_leb_read_Inr [OF assms(1) this]
  show ?thesis
    by (rule read_leb_quick_eq [OF bh_leb_read_bytes [OF assms(1) \<open>maxbits \<le> 64\<close> assms(3) read(3)] assms(2)])
qed

text \<open>The readers without a format check, which the second pass of the loader and the interpreter
  use, return on every string the checked reader accepted the same number and advance by the same
  number of bytes, at both widths and signs: skipping the check on code that was checked once is sound.\<close>

theorem read_leb_quick_agrees:
  assumes "bh_leb_read m p e maxbits sign = Inr (r, n)" "maxbits = 32 \<or> maxbits = 64"
  shows "read_leb_quick m p maxbits sign = Some (r, p + of_nat n)"
  by (rule read_leb_quick_eq [OF assms])

theorem read_leb_quick_agrees_witness:
  "read_leb_quick (mem_of 0x1000 [0x7f]) 0x1000 64 True = Some (- 1, 0x1001)"
proof -
  have "bh_leb_read (mem_of 0x1000 [0x7f]) 0x1000 0x1001 64 True = Inr (- 1, 1)"
    by code_simp
  from read_leb_quick_agrees [OF this] show ?thesis by simp
qed

text \<open>The unsigned 64-bit reading has no test of the bits of the tenth byte that do not fit: the code
  accepts such a string and drops them.\<close>

lemma bh_leb_read_u64_drops_bits:
  "bh_leb_read (mem_of 0x1000 [0x80, 0x80, 0x80, 0x80, 0x80, 0x80, 0x80, 0x80, 0x80, 0x7e])
     0x1000 0x100a 64 False = Inr (0, 10)"
  by code_simp

end
