(* ===== verification/Module_Sections.thy ===== *)
theory Module_Sections
  imports Leb128
begin

text \<open>
  The outer layer of the module loader (\<^verbatim>\<open>core/iwasm/interpreter/wasm_loader.c\<close> and
  \<^verbatim>\<open>common/wasm_loader_common.c\<close>): the magic number and the version, the cutting of the
  binary into sections with the check of their order, and the flag bytes of memories and
  tables. The build of this repository has bulk memory and shared memory and neither
  tags, string references, reference types, SIMD nor 64-bit memories; the conditional
  parts of the code are taken for these settings.
\<close>

section \<open>Value types and flag bytes\<close>

definition VALUE_TYPE_I32 :: u8 where "VALUE_TYPE_I32 = 0x7F"
definition VALUE_TYPE_I64 :: u8 where "VALUE_TYPE_I64 = 0x7E"
definition VALUE_TYPE_F32 :: u8 where "VALUE_TYPE_F32 = 0x7D"
definition VALUE_TYPE_F64 :: u8 where "VALUE_TYPE_F64 = 0x7C"
definition VALUE_TYPE_V128 :: u8 where "VALUE_TYPE_V128 = 0x7B"
definition VALUE_TYPE_FUNCREF :: u8 where "VALUE_TYPE_FUNCREF = 0x70"
definition VALUE_TYPE_EXTERNREF :: u8 where "VALUE_TYPE_EXTERNREF = 0x6F"
definition VALUE_TYPE_VOID :: u8 where "VALUE_TYPE_VOID = 0x40"
definition VALUE_TYPE_ANY :: u8 where "VALUE_TYPE_ANY = 0x42"

lemmas value_type_defs =
  VALUE_TYPE_I32_def VALUE_TYPE_I64_def VALUE_TYPE_F32_def VALUE_TYPE_F64_def
  VALUE_TYPE_V128_def VALUE_TYPE_FUNCREF_def VALUE_TYPE_EXTERNREF_def
  VALUE_TYPE_VOID_def VALUE_TYPE_ANY_def

definition is_valid_value_type :: "u8 \<Rightarrow> bool" where
  "is_valid_value_type type \<longleftrightarrow> VALUE_TYPE_F64 \<le> type \<and> type \<le> VALUE_TYPE_I32"

definition is_valid_value_type_for_interpreter :: "u8 \<Rightarrow> bool" where
  "is_valid_value_type_for_interpreter value_type \<longleftrightarrow>
     (if value_type = VALUE_TYPE_V128 then False else is_valid_value_type value_type)"

definition is_byte_a_type :: "u8 \<Rightarrow> bool" where
  "is_byte_a_type type \<longleftrightarrow>
     is_valid_value_type_for_interpreter type \<or> type = VALUE_TYPE_VOID"

definition is_indices_overflow :: "u32 \<Rightarrow> u32 \<Rightarrow> bool" where
  "is_indices_overflow import other \<longleftrightarrow> import > 0xFFFFFFFF - other"

text \<open>The flag checks return the message they leave in the error buffer, if any, and
  whether they accept.\<close>

definition wasm_memory_check_flags :: "u8 \<Rightarrow> string option \<times> bool" where
  "wasm_memory_check_flags mem_flag =
     (if mem_flag > 0x01 \<and> mem_flag AND 0x04 \<noteq> 0
      then (Some ''invalid limits flags'', False)
      else if mem_flag > 0x01 + 0x02 + 0x04
      then (Some ''invalid limits flags'', False)
      else if mem_flag AND 0x02 \<noteq> 0 \<and> mem_flag AND 0x01 = 0
      then (Some ''shared memory must have maximum'', False)
      else (None, True))"

definition wasm_table_check_flags :: "u8 \<Rightarrow> string option \<times> bool" where
  "wasm_table_check_flags table_flag =
     (let err = (if table_flag > 0x01 \<and> table_flag AND 0x02 \<noteq> 0
                 then Some ''tables cannot be shared'' else None)
      in if table_flag > 0x01 \<and> table_flag AND 0x04 \<noteq> 0
         then (Some ''invalid limits flags(table64 flag was found, please enable memory64)'',
               False)
         else if table_flag > 0x01 + 0x04
         then (Some ''invalid limits flags'', False)
         else (err, True))"

text \<open>A memory's flag byte is accepted exactly when it is 0 (no maximum), 1 (a maximum) or 3 (shared,
  with a maximum), and an accepted byte leaves no error message; the flag check of tables accepts
  exactly 0, 1, 2 and 3, so that a table marked as shared passes although the check has just written
  the message that tables cannot be shared.\<close>

theorem check_flags_accept:
  "(snd (wasm_memory_check_flags f) \<longleftrightarrow> f = 0 \<or> f = 1 \<or> f = 3) \<and>
   (snd (wasm_memory_check_flags f) \<longleftrightarrow> fst (wasm_memory_check_flags f) = None) \<and>
   (snd (wasm_table_check_flags f) \<longleftrightarrow> f = 0 \<or> f = 1 \<or> f = 2 \<or> f = 3) \<and>
   wasm_table_check_flags 2 = (Some ''tables cannot be shared'', True)"
proof -
  have "snd (wasm_memory_check_flags f) \<longleftrightarrow> f = 0 \<or> f = 1 \<or> f = 3"
    by (rule byte_all [where P = "\<lambda>f. snd (wasm_memory_check_flags f) \<longleftrightarrow> f = 0 \<or> f = 1 \<or> f = 3"])
      code_simp
  moreover have "snd (wasm_memory_check_flags f) \<longleftrightarrow> fst (wasm_memory_check_flags f) = None"
    by (simp add: wasm_memory_check_flags_def)
  moreover have "snd (wasm_table_check_flags f) \<longleftrightarrow> f = 0 \<or> f = 1 \<or> f = 2 \<or> f = 3"
    by (rule byte_all [where P = "\<lambda>f. snd (wasm_table_check_flags f) \<longleftrightarrow>
          f = 0 \<or> f = 1 \<or> f = 2 \<or> f = 3"]) code_simp
  moreover have "wasm_table_check_flags 2 = (Some ''tables cannot be shared'', True)"
    by code_simp
  ultimately show ?thesis by blast
qed

section \<open>Cutting the binary into sections\<close>

definition section_ids :: "u8 list" where
  "section_ids = [0, 1, 2, 3, 4, 5, 6, 7, 8, 9, 12, 10, 11]"

fun section_index_from :: "u8 \<Rightarrow> u8 \<Rightarrow> u8 list \<Rightarrow> u8" where
  "section_index_from t i [] = - 1"
| "section_index_from t i (x # xs) = (if t = x then i else section_index_from t (i + 1) xs)"

definition get_section_index :: "u8 \<Rightarrow> u8" where
  "get_section_index t = section_index_from t 0 section_ids"

definition check_buf :: "u32 \<Rightarrow> u32 \<Rightarrow> u32 \<Rightarrow> bool" where
  "check_buf buf buf_end len \<longleftrightarrow> \<not> (buf + len < buf \<or> buf + len > buf_end)"

record WASMSection =
  section_type :: u8
  section_body :: u32
  section_body_size :: u32

text \<open>One round of the loop of \<open>create_sections\<close>: the section, the pointer behind it and the
  index to compare the next one with. \<open>alloc_ok\<close> says whether \<open>loader_malloc\<close> succeeds.\<close>

definition create_section1 ::
  "cmem \<Rightarrow> u32 \<Rightarrow> u32 \<Rightarrow> u8 \<Rightarrow> bool \<Rightarrow> string + (WASMSection \<times> u32 \<times> u8)" where
  "create_section1 m p p_end last_idx alloc_ok =
     bindE (guardE (check_buf p p_end 1) ''unexpected end of section or function'') (\<lambda>_.
     let stype = m p; p = p + 1; sindex = get_section_index stype
     in if sindex \<noteq> - 1 then
          bindE (guardE (\<not> (stype \<noteq> 0 \<and> last_idx \<noteq> - 1 \<and> sindex \<le> last_idx))
                   ''unexpected content after last section or junk after last section'') (\<lambda>_.
          bindE (read_leb_uint32 m p p_end) (\<lambda>(ssize, p).
          bindE (guardE (check_buf p p_end ssize) ''unexpected end'') (\<lambda>_.
          bindE (guardE alloc_ok ''allocate memory failed'') (\<lambda>_.
            Inr (\<lparr>section_type = stype, section_body = p, section_body_size = ssize\<rparr>,
                 p + ssize, (if stype \<noteq> 0 then sindex else last_idx))))))
        else Inl ''invalid section id'')"

lemma check_buf_iff: "check_buf p e n \<longleftrightarrow> unat p + unat n \<le> unat e"
  unfolding check_buf_def by (rule ptr_check_iff)

lemma check_buf_unat: "check_buf p e n \<Longrightarrow> unat (p + n) = unat p + unat n"
  using unat_u32_less [of e] by (simp add: check_buf_iff unat_word_ariths)

lemma create_section1_Inr:
  assumes "create_section1 m p e l ok = Inr (sec, p', l')"
  shows "section_type sec = m p" "unat p < unat (section_body sec)"
    "unat (section_body sec) + unat (section_body_size sec) = unat p'" "unat p' \<le> unat e"
    "get_section_index (m p) \<noteq> - 1"
    "m p \<noteq> 0 \<Longrightarrow> l' = get_section_index (m p) \<and> (l \<noteq> - 1 \<longrightarrow> l < l')"
    "m p = 0 \<Longrightarrow> l' = l"
proof -
  from assms obtain q n where q: "read_leb_uint32 m (p + 1) e = Inr (n, q)"
    and b: "check_buf p e 1" "check_buf q e n"
    and sec: "sec = \<lparr>section_type = m p, section_body = q, section_body_size = n\<rparr>"
    and p': "p' = q + n" and idx: "get_section_index (m p) \<noteq> - 1"
    and l': "l' = (if m p \<noteq> 0 then get_section_index (m p) else l)"
    and ord: "\<not> (m p \<noteq> 0 \<and> l \<noteq> - 1 \<and> get_section_index (m p) \<le> l)"
    by (auto simp: create_section1_def Let_def split: if_splits)
  show "section_type sec = m p" "get_section_index (m p) \<noteq> - 1" using sec idx by simp_all
  show "unat p < unat (section_body sec)"
    using read_leb_uint32_Inr [OF q] check_buf_unat [OF b(1)] sec by simp
  show "unat (section_body sec) + unat (section_body_size sec) = unat p'"
    using check_buf_unat [OF b(2)] sec p' by simp
  then show "unat p' \<le> unat e" using b(2) p' sec by (simp add: check_buf_iff)
  show "m p \<noteq> 0 \<Longrightarrow> l' = get_section_index (m p) \<and> (l \<noteq> - 1 \<longrightarrow> l < l')"
    "m p = 0 \<Longrightarrow> l' = l" using l' ord by auto
qed

text \<open>\<open>create_sections\<close> returns the list it has built so far beside the verdict, since the
  caller frees that list on success and on failure alike. \<open>ok k\<close> is the outcome of the
  \<open>k\<close>-th allocation.\<close>

function create_sections_loop ::
  "cmem \<Rightarrow> u32 \<Rightarrow> u32 \<Rightarrow> u8 \<Rightarrow> (nat \<Rightarrow> bool) \<Rightarrow> nat \<Rightarrow> WASMSection list \<times> string option" where
  "create_sections_loop m p p_end last_idx ok k =
     (if p < p_end then
        (case create_section1 m p p_end last_idx (ok k) of
           Inl err \<Rightarrow> ([], Some err)
         | Inr (sec, p', last_idx') \<Rightarrow>
             (case create_sections_loop m p' p_end last_idx' ok (Suc k) of
                (secs, r) \<Rightarrow> (sec # secs, r)))
      else ([], None))"
  by pat_completeness auto
termination
proof (relation "measure (\<lambda>(m, p, e, l, ok, k). unat e - unat p)", simp, clarify)
  fix m p e l k sec p' l' and ok :: "nat \<Rightarrow> bool"
  assume "p < e" "create_section1 m p e l (ok k) = Inr (sec, p', l')"
  then show "((m, p', e, l', ok, Suc k), m, p, e, l, ok, k)
      \<in> measure (\<lambda>(m, p, e, l, ok, k). unat e - unat p)"
    using create_section1_Inr(2-4) [of m p e l "ok k" sec p' l']
    by (simp add: word_less_nat_alt)
qed

declare create_sections_loop.simps [simp del]

definition create_sections ::
  "cmem \<Rightarrow> u32 \<Rightarrow> u32 \<Rightarrow> (nat \<Rightarrow> bool) \<Rightarrow> WASMSection list \<times> string option" where
  "create_sections m buf sz ok =
     create_sections_loop m (buf + 8) (buf + sz) (- 1) ok 0"

text \<open>The list \<open>load\<close> works on: the magic number and the version are read as little-endian words.\<close>

definition read_uint32 :: "cmem \<Rightarrow> u32 \<Rightarrow> u32" where
  "read_uint32 m p = ucast (m p) OR push_bit 8 (ucast (m (p + 1)))
     OR push_bit 16 (ucast (m (p + 2))) OR push_bit 24 (ucast (m (p + 3)))"

definition WASM_MAGIC_NUMBER :: u32 where "WASM_MAGIC_NUMBER = 0x6d736100"
definition WASM_CURRENT_VERSION :: u32 where "WASM_CURRENT_VERSION = 1"

text \<open>\<open>load\<close> without the part that interprets the sections, which is the parameter
  \<open>load_from_sections\<close>. The first component of the result is what the error buffer gets.\<close>

definition load_header ::
  "cmem \<Rightarrow> u32 \<Rightarrow> u32 \<Rightarrow> string + u32" where
  "load_header m buf sz =
     (let p = buf; p_end = buf + sz
      in bindE (guardE (check_buf p p_end 4) ''unexpected end'') (\<lambda>_.
         bindE (guardE (read_uint32 m p = WASM_MAGIC_NUMBER) ''magic header not detected'') (\<lambda>_.
         let p = p + 4
         in bindE (guardE (check_buf p p_end 4) ''unexpected end'') (\<lambda>_.
            bindE (guardE (read_uint32 m p = WASM_CURRENT_VERSION) ''unknown binary version'') (\<lambda>_.
            Inr (read_uint32 m p))))))"

definition load ::
  "(WASMSection list \<Rightarrow> string + 'module) \<Rightarrow> (nat \<Rightarrow> bool) \<Rightarrow> cmem \<Rightarrow> u32 \<Rightarrow> u32 \<Rightarrow> string + 'module" where
  "load load_from_sections ok m buf sz =
     bindE (load_header m buf sz) (\<lambda>_.
       case create_sections m buf sz ok of
         (secs, Some err) \<Rightarrow> Inl err
       | (secs, None) \<Rightarrow> load_from_sections secs)"

section \<open>What an accepted section list looks like\<close>

text \<open>\<open>tiles p e secs\<close>: the sections lie one behind the other between \<open>p\<close> and \<open>e\<close>, each with its
  type byte and its length in front of its body, and the last one ends at \<open>e\<close>.\<close>

fun tiles :: "cmem \<Rightarrow> u32 \<Rightarrow> u32 \<Rightarrow> WASMSection list \<Rightarrow> bool" where
  "tiles m p e [] \<longleftrightarrow> p = e"
| "tiles m p e (s # ss) \<longleftrightarrow>
     section_type s = m p \<and> unat p < unat (section_body s) \<and>
     unat (section_body s) + unat (section_body_size s) \<le> unat e \<and>
     tiles m (section_body s + section_body_size s) e ss"

definition known_indices :: "WASMSection list \<Rightarrow> u8 list" where
  "known_indices secs = map (get_section_index o section_type) (filter (\<lambda>s. section_type s \<noteq> 0) secs)"

lemma get_section_index_inj:
  "get_section_index x = get_section_index y \<Longrightarrow> get_section_index x \<noteq> - 1 \<Longrightarrow> x = y"
  by (auto simp: get_section_index_def section_ids_def split: if_splits)

lemma known_indices_simps [simp]:
  "known_indices [] = []"
  "known_indices (s # ss) =
     (if section_type s = 0 then known_indices ss
      else get_section_index (section_type s) # known_indices ss)"
  by (simp_all add: known_indices_def)

lemma create_sections_loop_sound:
  assumes "create_sections_loop m p e last_idx ok k = (secs, None)" "p \<le> e"
  shows "tiles m p e secs \<and> sorted_wrt (<) (known_indices secs) \<and>
    (last_idx \<noteq> - 1 \<longrightarrow> (\<forall>i \<in> set (known_indices secs). last_idx < i)) \<and>
    (\<forall>s \<in> set secs. get_section_index (section_type s) \<noteq> - 1)"
  using assms
proof (induction m p e last_idx ok k arbitrary: secs rule: create_sections_loop.induct)
  case (1 m p e last_idx ok k)
  show ?case
  proof (cases "p < e")
    case False
    then show ?thesis using "1.prems"
      by (auto simp: create_sections_loop.simps [of m p e] create_sections_loop.simps [of m e e])
  next
    case True
    then obtain sec p' last_idx' where s1: "create_section1 m p e last_idx (ok k) = Inr (sec, p', last_idx')"
      using "1.prems" by (auto simp: create_sections_loop.simps [of m p] split: sum.splits)
    then obtain rest where rest: "create_sections_loop m p' e last_idx' ok (Suc k) = (rest, None)"
      and secs: "secs = sec # rest"
      using "1.prems" True
      by (auto simp: create_sections_loop.simps [of m p] split: prod.splits)
    note c = create_section1_Inr [OF s1]
    have p': "p' = section_body sec + section_body_size sec"
      using c(3) by (rule unat_add_eq_imp [symmetric])
    have "p' \<le> e" using c(4) by (simp add: word_le_nat_alt)
    with "1.IH" True s1 rest have IH: "tiles m p' e rest" "sorted_wrt (<) (known_indices rest)"
      "last_idx' \<noteq> - 1 \<longrightarrow> (\<forall>i \<in> set (known_indices rest). last_idx' < i)"
      "\<forall>s \<in> set rest. get_section_index (section_type s) \<noteq> - 1"
      by blast+
    show ?thesis
    proof (cases "m p = 0")
      case True
      then show ?thesis using c IH secs p' by simp
    next
      case False
      then show ?thesis using c IH secs p' by (auto intro: order.strict_trans)
    qed
  qed
qed

lemma read_uint32_bytes:
  "(ucast (read_uint32 m p) :: u8) = m p"
  "(ucast (drop_bit 8 (read_uint32 m p)) :: u8) = m (p + 1)"
  "(ucast (drop_bit 16 (read_uint32 m p)) :: u8) = m (p + 2)"
  "(ucast (drop_bit 24 (read_uint32 m p)) :: u8) = m (p + 3)"
  by (rule bit_word_eqI; auto simp: read_uint32_def bit_simps dest: bit_imp_le_length)+

lemma read_uint32_eq_iff:
  "read_uint32 m p = w \<longleftrightarrow> m p = ucast w \<and> m (p + 1) = ucast (drop_bit 8 w) \<and>
     m (p + 2) = ucast (drop_bit 16 w) \<and> m (p + 3) = ucast (drop_bit 24 w)"
  (is "_ \<longleftrightarrow> ?bytes")
proof
  assume ?bytes
  show "read_uint32 m p = w"
  proof (rule bit_word_eqI)
    fix n
    assume "n < LENGTH(32)"
    then consider "n < 8" | "8 \<le> n" "n < 16" | "16 \<le> n" "n < 24" | "24 \<le> n" "n < 32"
      by fastforce
    then show "bit (read_uint32 m p) n \<longleftrightarrow> bit w n"
      using \<open>?bytes\<close> by cases (auto simp: read_uint32_def bit_simps)
  qed
qed (metis read_uint32_bytes)

lemma load_header_Inr:
  assumes "load_header m buf sz = Inr v"
  shows "cbytes m buf 8 = [0, 0x61, 0x73, 0x6d, 1, 0, 0, 0]" "v = 1"
    "unat buf + 8 \<le> unat (buf + sz)"
proof -
  from assms have b: "check_buf buf (buf + sz) 4" "check_buf (buf + 4) (buf + sz) 4"
    and w: "read_uint32 m buf = 0x6d736100" "read_uint32 m (buf + 4) = 1" "v = read_uint32 m (buf + 4)"
    by (auto simp: load_header_def WASM_MAGIC_NUMBER_def WASM_CURRENT_VERSION_def Let_def)
  from w show "v = 1" by simp
  show "unat buf + 8 \<le> unat (buf + sz)"
    using b(2) check_buf_unat [OF b(1)] by (simp add: check_buf_iff)
  from w show "cbytes m buf 8 = [0, 0x61, 0x73, 0x6d, 1, 0, 0, 0]"
    by (simp add: read_uint32_eq_iff cbytes_def upt_rec add.assoc)
qed

text \<open>C34: a binary the loader accepts starts with the eight bytes of the WebAssembly header, and the part that
  interprets the module runs on sections that tile the rest of the buffer without gap or overlap, each of
  a known type, every non-custom section at most once and in the prescribed order.\<close>

theorem load_sections_sound:
  assumes "load load_from_sections ok m buf sz = Inr md"
  shows "\<exists>secs. load_from_sections secs = Inr md \<and>
    cbytes m buf 8 = [0, 0x61, 0x73, 0x6d, 1, 0, 0, 0] \<and>
    tiles m (buf + 8) (buf + sz) secs \<and>
    (\<forall>s \<in> set secs. section_type s \<in> set section_ids) \<and>
    sorted_wrt (<) (known_indices secs)"
proof -
  from assms obtain v secs where h: "load_header m buf sz = Inr v"
    and c: "create_sections m buf sz ok = (secs, None)" "load_from_sections secs = Inr md"
    by (auto simp: load_def split: prod.splits option.splits)
  note hd = load_header_Inr [OF h]
  have "unat (buf + 8) = unat buf + 8"
    using hd(3) unat_u32_less [of "buf + sz"] by (simp add: unat_word_ariths)
  with hd(3) have "buf + 8 \<le> buf + sz" by (simp add: word_le_nat_alt)
  note l = create_sections_loop_sound [OF c(1) [unfolded create_sections_def] this]
  have "section_type s \<in> set section_ids" if "get_section_index (section_type s) \<noteq> - 1" for s
    using that by (auto simp: get_section_index_def section_ids_def split: if_splits)
  with l c(2) hd(1) show ?thesis by blast
qed

theorem load_sections_sound_witness:
  "\<exists>secs. tiles (mem_of 0x1000 [0, 0x61, 0x73, 0x6d, 1, 0, 0, 0, 1, 1, 0])
     0x1008 0x100b secs \<and> length secs = 1"
proof -
  let ?m = "mem_of 0x1000 [0, 0x61, 0x73, 0x6d, 1, 0, 0, 0, 1, 1, 0]"
  have "load (\<lambda>secs. if length secs = 1 then Inr () else Inl ''bad'') (\<lambda>_. True) ?m 0x1000 11 = Inr ()"
    by code_simp
  from load_sections_sound [OF this] show ?thesis
    by (auto split: if_splits)
qed

end
