(* ===== verification/Numeric.thy ===== *)
theory Numeric
  imports Prelude "HOL-Library.Signed_Division"
begin

text \<open>
  The arithmetic of the interpreter (\<^verbatim>\<open>core/iwasm/interpreter/wasm_interp_classic.c\<close>):
  rotations, bit counts, division with its two traps, the floating-point operations that
  work on the bit pattern (sign manipulation, comparison, minimum and maximum), and the
  conversion of a float to an integer with its range checks.

  A \<open>float32\<close> is its 32 bits and a \<open>float64\<close> its 64 bits, with a mantissa of 23 and 52 bits;
  what C's comparison operators, \<open>isnan\<close>, \<open>signbit\<close> and the cast to an integer do on IEEE
  numbers is written out on the bits, once for both formats.
\<close>

section \<open>Rotations\<close>

definition rotl32 :: "u32 \<Rightarrow> u32 \<Rightarrow> u32" where
  "rotl32 n c = (let mask = 31; c = c mod 32; c = c AND mask
     in push_bit (unat c) n OR drop_bit (unat ((0 - c) AND mask)) n)"

definition rotr32 :: "u32 \<Rightarrow> u32 \<Rightarrow> u32" where
  "rotr32 n c = (let mask = 31; c = c mod 32; c = c AND mask
     in drop_bit (unat c) n OR push_bit (unat ((0 - c) AND mask)) n)"

definition rotl64 :: "u64 \<Rightarrow> u64 \<Rightarrow> u64" where
  "rotl64 n c = (let mask = 63; c = c mod 64; c = c AND mask
     in push_bit (unat c) n OR drop_bit (unat ((0 - c) AND mask)) n)"

definition rotr64 :: "u64 \<Rightarrow> u64 \<Rightarrow> u64" where
  "rotr64 n c = (let mask = 63; c = c mod 64; c = c AND mask
     in drop_bit (unat c) n OR push_bit (unat ((0 - c) AND mask)) n)"

lemma rot_left_or:
  fixes n :: "'a::len word"
  assumes "k < LENGTH('a)"
  shows "push_bit k n OR drop_bit ((LENGTH('a) - k) mod LENGTH('a)) n = word_rotl k n"
proof (rule bit_word_eqI)
  fix i
  assume i: "i < LENGTH('a)"
  show "bit (push_bit k n OR drop_bit ((LENGTH('a) - k) mod LENGTH('a)) n) i
      \<longleftrightarrow> bit (word_rotl k n) i"
  proof (cases "k = 0 \<or> i < k")
    case True
    then show ?thesis using i assms bit_imp_le_length [of n]
      by (auto simp: bit_simps ac_simps)
  next
    case False
    then have "i + (LENGTH('a) - k) = (i - k) + LENGTH('a)" "i - k < LENGTH('a)"
      using i assms by linarith+
    then have "(i + (LENGTH('a) - k)) mod LENGTH('a) = i - k" by simp
    moreover have "\<not> bit n (i + (LENGTH('a) - k))"
      using False i assms bit_imp_le_length [of n "i + (LENGTH('a) - k)"] by auto
    moreover have "i - k < LENGTH('a)" "k mod LENGTH('a) = k" "(LENGTH('a) - k) mod LENGTH('a) = LENGTH('a) - k"
      using False i assms by auto
    ultimately show ?thesis using False i assms
      by (auto simp add: bit_or_iff bit_push_bit_iff bit_drop_bit_eq bit_word_rotl_iff add.commute)
  qed
qed

lemma rot_right_or:
  fixes n :: "'a::len word"
  assumes "k < LENGTH('a)"
  shows "drop_bit k n OR push_bit ((LENGTH('a) - k) mod LENGTH('a)) n = word_rotr k n"
proof (cases "k = 0")
  case True
  then show ?thesis by (auto intro!: bit_word_eqI simp: bit_simps)
next
  case False
  then have "(LENGTH('a) - k) mod LENGTH('a) < LENGTH('a)" "(LENGTH('a) - k) mod LENGTH('a) = LENGTH('a) - k"
    using assms by simp_all
  from rot_left_or [OF this(1), of n] this False assms show ?thesis
    by (simp add: word_rotl_eq_word_rotr or.commute)
qed

lemma rot_amount:
  fixes c :: "'a::len word"
  assumes "unat c < 2 ^ k" "k \<le> LENGTH('a)"
  shows "unat ((0 - c) AND mask k) = (2 ^ k - unat c) mod 2 ^ k"
proof -
  have "uint ((0 - c) AND mask k) = take_bit k (uint (- c))"
    using assms(2) by (simp flip: take_bit_eq_mask add: unsigned_take_bit_eq)
  also have "\<dots> = (- uint c) mod 2 ^ LENGTH('a) mod 2 ^ k"
    by (simp only: uint_word_ariths take_bit_eq_mod)
  also have "\<dots> = (- uint c) mod 2 ^ k"
    by (rule mod_mod_cancel) (simp add: assms(2) le_imp_power_dvd)
  also have "\<dots> = (2 ^ k - uint c) mod 2 ^ k" by (metis add_uminus_conv_diff mod_add_self1)
  also have "\<dots> = int ((2 ^ k - unat c) mod 2 ^ k)"
    using assms(1) by (simp add: zmod_int of_nat_diff)
  finally have "int (unat ((0 - c) AND mask k)) = int ((2 ^ k - unat c) mod 2 ^ k)"
    by (simp only: uint_nat)
  then show ?thesis by (simp only: of_nat_eq_iff)
qed

lemma rotl_mod: "word_rotl (k mod LENGTH('a)) (w :: 'a::len word) = word_rotl k w"
  by (rule bit_word_eqI) (simp add: bit_simps)

lemma rotr_mod: "word_rotr (k mod LENGTH('a)) (w :: 'a::len word) = word_rotr k w"
  by (rule bit_word_eqI) (simp add: bit_simps mod_simps)

lemma rotl32_eq: "rotl32 n c = word_rotl (unat c mod 32) n"
  and rotr32_eq: "rotr32 n c = word_rotr (unat c mod 32) n"
proof -
  have m: "(31 :: u32) = mask 5" by (simp add: mask_eq_exp_minus_1)
  have c: "unat (c mod 32) = unat c mod 32" by (simp add: unat_mod)
  have c': "c mod 32 AND 31 = c mod 32"
    using take_bit_eq_mod [of 5 c] take_bit_eq_mod [of 5 "c mod 32"]
      take_bit_take_bit [of 5 5 c] by (simp add: m flip: take_bit_eq_mask)
  show "rotl32 n c = word_rotl (unat c mod 32) n" "rotr32 n c = word_rotr (unat c mod 32) n"
    using rot_left_or [of "unat c mod 32" n] rot_right_or [of "unat c mod 32" n]
      rot_amount [of "c mod 32" 5]
    by (simp_all add: rotl32_def rotr32_def Let_def c' c m [symmetric])
qed

lemma rotl64_eq: "rotl64 n c = word_rotl (unat c mod 64) n"
  and rotr64_eq: "rotr64 n c = word_rotr (unat c mod 64) n"
proof -
  have m: "(63 :: u64) = mask 6" by (simp add: mask_eq_exp_minus_1)
  have c: "unat (c mod 64) = unat c mod 64" by (simp add: unat_mod)
  have c': "c mod 64 AND 63 = c mod 64"
    using take_bit_eq_mod [of 6 c] take_bit_eq_mod [of 6 "c mod 64"]
      take_bit_take_bit [of 6 6 c] by (simp add: m flip: take_bit_eq_mask)
  show "rotl64 n c = word_rotl (unat c mod 64) n" "rotr64 n c = word_rotr (unat c mod 64) n"
    using rot_left_or [of "unat c mod 64" n] rot_right_or [of "unat c mod 64" n]
      rot_amount [of "c mod 64" 6]
    by (simp_all add: rotl64_def rotr64_def Let_def c' c m [symmetric])
qed

text \<open>The four rotation helpers compute the rotation of the word by the whole amount,
  whatever the amount is, a zero amount and amounts above the width included (where the
  C shift by the full width would be undefined).\<close>

theorem rotations_spec:
  "rotl32 n c = word_rotl (unat c) n \<and> rotr32 n c = word_rotr (unat c) n \<and>
   rotl64 n' c' = word_rotl (unat c') n' \<and> rotr64 n' c' = word_rotr (unat c') n'"
  using rotl_mod [of "unat c" n] rotr_mod [of "unat c" n]
    rotl_mod [of "unat c'" n'] rotr_mod [of "unat c'" n']
  by (simp add: rotl32_eq rotr32_eq rotl64_eq rotr64_eq)


section \<open>Counting bits\<close>

partial_function (option) clz_loop :: "'a::len word \<Rightarrow> 'a word \<Rightarrow> u32 \<Rightarrow> u32 option" where
  "clz_loop high type num =
     (if type AND high = 0 then clz_loop high (push_bit 1 type) (num + 1) else Some num)"

partial_function (option) ctz_loop :: "'a::len word \<Rightarrow> u32 \<Rightarrow> u32 option" where
  "ctz_loop type num =
     (if type AND 1 = 0 then ctz_loop (drop_bit 1 type) (num + 1) else Some num)"

definition clz32 :: "u32 \<Rightarrow> u32 option" where
  "clz32 type = (if type = 0 then Some 32 else clz_loop 0x80000000 type 0)"

definition clz64 :: "u64 \<Rightarrow> u32 option" where
  "clz64 type = (if type = 0 then Some 64 else clz_loop 0x8000000000000000 type 0)"

definition ctz32 :: "u32 \<Rightarrow> u32 option" where
  "ctz32 type = (if type = 0 then Some 32 else ctz_loop type 0)"

definition ctz64 :: "u64 \<Rightarrow> u32 option" where
  "ctz64 type = (if type = 0 then Some 64 else ctz_loop type 0)"

lemma and_minus_one_less: "u \<noteq> 0 \<Longrightarrow> u AND (u - 1) < (u :: 'a::len word)"
  by (rule order.strict_trans1 [OF word_and_le1]) (metis measure_unat word_less_nat_alt)

function popcount_loop :: "'a::len word \<Rightarrow> u32 \<Rightarrow> u32" where
  "popcount_loop u ret = (if u \<noteq> 0 then popcount_loop (u AND (u - 1)) (ret + 1) else ret)"
  by pat_completeness auto
termination
  by (relation "measure (\<lambda>(u, ret). unat u)")
    (auto simp: and_minus_one_less simp flip: word_less_nat_alt)

declare popcount_loop.simps [simp del]

definition popcount32 :: "u32 \<Rightarrow> u32" where "popcount32 u = popcount_loop u 0"
definition popcount64 :: "u64 \<Rightarrow> u32" where "popcount64 u = popcount_loop u 0"

text \<open>What the loops count.\<close>

definition leading_zeros :: "'a::len word \<Rightarrow> nat" where
  "leading_zeros w = length (takeWhile (\<lambda>i. \<not> bit w i) (rev [0..<LENGTH('a)]))"

definition trailing_zeros :: "'a::len word \<Rightarrow> nat" where
  "trailing_zeros w = length (takeWhile (\<lambda>i. \<not> bit w i) [0..<LENGTH('a)])"

definition ones :: "'a::len word \<Rightarrow> nat" where
  "ones w = length (filter (bit w) [0..<LENGTH('a)])"

lemma length_takeWhile_stop:
  assumes "length (takeWhile P xs) = k" "\<exists>x \<in> set xs. \<not> P x"
  shows "k < length xs" "\<not> P (xs ! k)" "\<And>j. j < k \<Longrightarrow> P (xs ! j)"
proof -
  show k: "k < length xs"
    using assms by (metis length_takeWhile_le le_neq_implies_less takeWhile_eq_all_conv
        takeWhile_eq_take take_all_iff order_refl)
  then show "\<not> P (xs ! k)" using assms(1) nth_length_takeWhile by blast
  show "P (xs ! j)" if "j < k" for j
    using that assms(1) by (metis nth_mem set_takeWhileD takeWhile_nth)
qed

lemma word_nonzero_bit:
  fixes w :: "'a::len word"
  assumes "w \<noteq> 0"
  shows "\<exists>i < LENGTH('a). bit w i"
  using assms by (metis bit_imp_le_length bit_eqI bit_0_eq bot_apply bot_bool_def)

lemma clz_loop_eq:
  fixes w :: "'a::len word"
  assumes "w \<noteq> 0" "n \<le> leading_zeros w"
  shows "clz_loop (2 ^ (LENGTH('a) - 1)) (push_bit n w) (of_nat n) = Some (of_nat (leading_zeros w))"
proof -
  define k where "k = leading_zeros w"
  have "\<exists>x \<in> set (rev [0..<LENGTH('a)]). \<not> \<not> bit w x" using word_nonzero_bit [OF assms(1)] by auto
  note lt = length_takeWhile_stop [OF k_def [symmetric, unfolded leading_zeros_def] this]
  from lt(1) have k: "k < LENGTH('a)" by simp
  have top: "push_bit m w AND 2 ^ (LENGTH('a) - 1) = 0 \<longleftrightarrow> \<not> bit w (LENGTH('a) - 1 - m)"
    if "m < LENGTH('a)" for m
    using that by (auto simp: and_exp_eq_0_iff_not_bit bit_simps)
  from assms(2) [folded k_def] show ?thesis unfolding k_def [symmetric]
  proof (induction n rule: inc_induct)
    case base
    have "bit w (LENGTH('a) - 1 - k)" using lt(2) k by (simp add: rev_nth)
    then show ?case using top [OF k] by (simp add: clz_loop.simps)
  next
    case (step n)
    then have "n < LENGTH('a)" "\<not> bit w (LENGTH('a) - 1 - n)"
      using lt(3) [of n] k by (simp_all add: rev_nth)
    then show ?case using top [of n] step
      by (subst clz_loop.simps) (simp add: push_bit_push_bit add.commute)
  qed
qed

lemma ctz_loop_eq:
  fixes w :: "'a::len word"
  assumes "w \<noteq> 0" "n \<le> trailing_zeros w"
  shows "ctz_loop (drop_bit n w) (of_nat n) = Some (of_nat (trailing_zeros w))"
proof -
  define k where "k = trailing_zeros w"
  have "\<exists>x \<in> set [0..<LENGTH('a)]. \<not> \<not> bit w x" using word_nonzero_bit [OF assms(1)] by auto
  note lt = length_takeWhile_stop [OF k_def [symmetric, unfolded trailing_zeros_def] this]
  from lt(1) have k: "k < LENGTH('a)" by simp
  have low: "drop_bit m w AND 1 = 0 \<longleftrightarrow> \<not> bit w m" for m
    using and_exp_eq_0_iff_not_bit [of "drop_bit m w" 0] by (simp add: bit_simps)
  from assms(2) [folded k_def] show ?thesis unfolding k_def [symmetric]
  proof (induction n rule: inc_induct)
    case base
    then show ?case using lt(2) k low [of k] by (simp add: ctz_loop.simps)
  next
    case (step n)
    then have "\<not> bit w n" using lt(3) [of n] k by simp
    then show ?case using low [of n] step
      by (subst ctz_loop.simps) (simp add: drop_bit_drop_bit add.commute)
  qed
qed

lemma ones_0 [simp]: "ones 0 = 0" by (simp add: ones_def)

lemma ones_card: "ones w = card {i. bit w i}" for w :: "'a::len word"
proof -
  have "{i. bit w i} = set (filter (bit w) [0..<LENGTH('a)])"
    using bit_imp_le_length [of w] by auto
  then show ?thesis using distinct_card [of "filter (bit w) [0..<LENGTH('a)]"]
    by (simp add: ones_def del: set_filter)
qed

lemma clear_lowest_bit:
  fixes u :: "'a::len word"
  assumes "u \<noteq> 0"
  shows "ones u = Suc (ones (u AND (u - 1)))"
proof -
  define k where "k = (LEAST i. bit u i)"
  from word_nonzero_bit [OF assms] have k: "bit u k" unfolding k_def by (metis LeastI)
  have low: "\<not> bit u i" if "i < k" for i using that not_less_Least unfolding k_def by blast
  have kl: "k < LENGTH('a)" using k bit_imp_le_length by blast
  define r where "r = unset_bit k u"
  have "r AND 2 ^ k = 0" by (simp add: r_def and_exp_eq_0_iff_not_bit bit_simps)
  moreover have "u = r OR 2 ^ k"
    by (rule bit_word_eqI) (use k kl in \<open>auto simp: r_def bit_simps\<close>)
  ultimately have "u - 1 = r + mask k"
    by (simp add: disjunctive_add_eq_or [symmetric] mask_eq_exp_minus_1)
  also have "\<dots> = r OR mask k"
    by (rule disjunctive_add_eq_or, rule bit_word_eqI) (auto simp: r_def bit_simps dest: low)
  finally have "bit (u AND (u - 1)) i \<longleftrightarrow> bit u i \<and> i \<noteq> k" for i
    using low bit_imp_le_length [of u i] by (auto simp: r_def bit_simps)
  then have "{i. bit u i} = insert k {i. bit (u AND (u - 1)) i}" using k by auto
  moreover have "k \<notin> {i. bit (u AND (u - 1)) i}"
    using \<open>\<And>i. bit (u AND (u - 1)) i \<longleftrightarrow> bit u i \<and> i \<noteq> k\<close> by blast
  moreover have "finite {i. bit (u AND (u - 1)) i}"
    by (rule finite_subset [of _ "{..<LENGTH('a)}"]) (auto dest: bit_imp_le_length)
  ultimately show ?thesis by (simp add: ones_card)
qed

lemma popcount_loop_eq: "popcount_loop u ret = ret + of_nat (ones u)"
proof (induction u ret rule: popcount_loop.induct)
  case (1 u ret)
  then show ?case
    by (cases "u = 0")
      (simp_all add: popcount_loop.simps [of u] popcount_loop.simps [of 0] clear_lowest_bit)
qed

text \<open>C37: the bit counting loops end on every word, and return the number of leading zeros, of trailing
  zeros and of one bits, at both widths; the count of the zero word is the width.\<close>

theorem bit_counts_spec:
  "clz32 w = Some (of_nat (leading_zeros w)) \<and> clz64 w' = Some (of_nat (leading_zeros w')) \<and>
   ctz32 w = Some (of_nat (trailing_zeros w)) \<and> ctz64 w' = Some (of_nat (trailing_zeros w')) \<and>
   popcount32 w = of_nat (ones w) \<and> popcount64 w' = of_nat (ones w')"
    using clz_loop_eq [of w 0] clz_loop_eq [of w' 0] ctz_loop_eq [of w 0] ctz_loop_eq [of w' 0]
    by (auto simp: clz32_def clz64_def ctz32_def ctz64_def popcount32_def popcount64_def
        popcount_loop_eq leading_zeros_def trailing_zeros_def takeWhile_eq_all_conv [THEN iffD2])


section \<open>Division\<close>

text \<open>The result of an operation that may trap: the message given to \<open>wasm_set_exception\<close>
  or the value. C's signed division rounds toward zero.\<close>

definition sdiv_word :: "'a::len word \<Rightarrow> 'a word \<Rightarrow> 'a word" where
  "sdiv_word a b = word_of_int (sint a sdiv sint b)"

definition smod_word :: "'a::len word \<Rightarrow> 'a word \<Rightarrow> 'a word" where
  "smod_word a b = word_of_int (sint a smod sint b)"

definition i32_div_s :: "u32 \<Rightarrow> u32 \<Rightarrow> string + u32" where
  "i32_div_s a b = (if a = 0x80000000 \<and> b = - 1 then Inl ''integer overflow''
     else if b = 0 then Inl ''integer divide by zero'' else Inr (sdiv_word a b))"

definition i32_div_u :: "u32 \<Rightarrow> u32 \<Rightarrow> string + u32" where
  "i32_div_u a b = (if b = 0 then Inl ''integer divide by zero'' else Inr (a div b))"

definition i32_rem_s :: "u32 \<Rightarrow> u32 \<Rightarrow> string + u32" where
  "i32_rem_s a b = (if a = 0x80000000 \<and> b = - 1 then Inr 0
     else if b = 0 then Inl ''integer divide by zero'' else Inr (smod_word a b))"

definition i32_rem_u :: "u32 \<Rightarrow> u32 \<Rightarrow> string + u32" where
  "i32_rem_u a b = (if b = 0 then Inl ''integer divide by zero'' else Inr (a mod b))"

definition i64_div_s :: "u64 \<Rightarrow> u64 \<Rightarrow> string + u64" where
  "i64_div_s a b = (if a = 0x8000000000000000 \<and> b = - 1 then Inl ''integer overflow''
     else if b = 0 then Inl ''integer divide by zero'' else Inr (sdiv_word a b))"

definition i64_div_u :: "u64 \<Rightarrow> u64 \<Rightarrow> string + u64" where
  "i64_div_u a b = (if b = 0 then Inl ''integer divide by zero'' else Inr (a div b))"

definition i64_rem_s :: "u64 \<Rightarrow> u64 \<Rightarrow> string + u64" where
  "i64_rem_s a b = (if a = 0x8000000000000000 \<and> b = - 1 then Inr 0
     else if b = 0 then Inl ''integer divide by zero'' else Inr (smod_word a b))"

definition i64_rem_u :: "u64 \<Rightarrow> u64 \<Rightarrow> string + u64" where
  "i64_rem_u a b = (if b = 0 then Inl ''integer divide by zero'' else Inr (a mod b))"

text \<open>The specification: \<open>div_spec\<close> says what the quotient operation answers for the
  mathematical values \<open>x\<close> and \<open>y\<close>, where \<open>val\<close> reads a word back as a number and \<open>hi\<close> is the
  first number above the range; \<open>rem_spec\<close> says what the remainder is.\<close>

definition div_spec :: "int \<Rightarrow> ('w \<Rightarrow> int) \<Rightarrow> 'w \<Rightarrow> 'w \<Rightarrow> string + 'w \<Rightarrow> bool" where
  "div_spec hi val a b r \<longleftrightarrow>
     (if val b = 0 then r = Inl ''integer divide by zero''
      else if val a sdiv val b = hi then r = Inl ''integer overflow''
      else (\<exists>q. r = Inr q \<and> val q = val a sdiv val b))"

definition rem_spec :: "('w \<Rightarrow> int) \<Rightarrow> 'w \<Rightarrow> 'w \<Rightarrow> string + 'w \<Rightarrow> bool" where
  "rem_spec val a b r \<longleftrightarrow>
     (if val b = 0 then r = Inl ''integer divide by zero''
      else (\<exists>q. r = Inr q \<and> val q = val a - (val a sdiv val b) * val b))"

lemma abs_sdiv_le: "\<bar>x sdiv y\<bar> \<le> \<bar>x\<bar>" for x y :: int
proof -
  have "nat \<bar>x\<bar> div nat \<bar>y\<bar> \<le> nat \<bar>x\<bar>" by (rule div_le_dividend)
  then have "\<bar>x\<bar> div \<bar>y\<bar> \<le> \<bar>x\<bar>"
    by (metis abs_ge_zero nat_div_distrib nat_le_eq_zle order_trans le_cases nat_0_le)
  moreover have "0 \<le> \<bar>x\<bar> div \<bar>y\<bar>" by (cases "y = 0") (simp_all add: pos_imp_zdiv_nonneg_iff)
  ultimately show ?thesis by (simp add: signed_divide_int_def abs_mult abs_sgn_eq)
qed

lemma sdiv_eq_top_iff:
  fixes x y B :: int
  assumes "- B \<le> x" "x < B" "y \<noteq> 0" "1 < B"
  shows "x sdiv y = B \<longleftrightarrow> x = - B \<and> y = - 1"
proof
  assume eq: "x sdiv y = B"
  then have "B \<le> \<bar>x\<bar>" using abs_sdiv_le [of x y] assms by linarith
  then have x: "x = - B" using assms by linarith
  have "\<bar>y\<bar> = 1"
  proof (rule ccontr)
    assume "\<bar>y\<bar> \<noteq> 1"
    then have "2 \<le> \<bar>y\<bar>" using assms by linarith
    then have "B div \<bar>y\<bar> \<le> B div 2" using assms by (intro zdiv_mono2) auto
    moreover have "\<bar>x sdiv y\<bar> = B div \<bar>y\<bar>"
      using x assms pos_imp_zdiv_nonneg_iff [of "\<bar>y\<bar>" B]
      by (simp add: signed_divide_int_def abs_mult abs_sgn_eq)
    ultimately show False using eq assms by linarith
  qed
  then have "y = 1 \<or> y = - 1" by linarith
  then show "x = - B \<and> y = - 1" using x eq assms by (auto simp: signed_divide_int_def)
qed (use assms in \<open>simp add: signed_divide_int_def\<close>)

lemma sint_sdiv_word:
  fixes a b :: "'a::len word"
  assumes "sint b \<noteq> 0" "sint a sdiv sint b \<noteq> 2 ^ (LENGTH('a) - 1)" "1 < LENGTH('a)"
  shows "sint (sdiv_word a b) = sint a sdiv sint b"
proof -
  have "- (2 ^ (LENGTH('a) - 1)) \<le> sint a" "sint a < 2 ^ (LENGTH('a) - 1)"
    by (rule sint_ge sint_lt)+
  with abs_sdiv_le [of "sint a" "sint b"]
  have "- (2 ^ (LENGTH('a) - 1)) \<le> sint a sdiv sint b" "sint a sdiv sint b \<le> 2 ^ (LENGTH('a) - 1)"
    by linarith+
  with assms(2) show ?thesis
    by (simp add: sdiv_word_def sint_sbintrunc' signed_take_bit_int_eq_self)
qed

lemma sint_smod_word:
  fixes a b :: "'a::len word"
  assumes "sint b \<noteq> 0"
  shows "sint (smod_word a b) = sint a - (sint a sdiv sint b) * sint b"
proof -
  have m: "sint a smod sint b = sint a - (sint a sdiv sint b) * sint b"
    using sdiv_mult_smod_eq [of "sint a" "sint b"] by simp
  have "\<bar>sint a smod sint b\<bar> < \<bar>sint b\<bar>" using smod_int_range [of "sint b" "sint a"] assms by auto
  moreover have "- (2 ^ (LENGTH('a) - 1)) \<le> sint b" "sint b < 2 ^ (LENGTH('a) - 1)"
    by (rule sint_ge sint_lt)+
  ultimately have "- (2 ^ (LENGTH('a) - 1)) \<le> sint a smod sint b"
    "sint a smod sint b < 2 ^ (LENGTH('a) - 1)" by linarith+
  then show ?thesis unfolding m [symmetric] by (simp add: smod_word_def sint_sbintrunc' signed_take_bit_int_eq_self)
qed


lemma sint_0_iff: "sint b = 0 \<longleftrightarrow> b = (0 :: 'a::len word)"
  by (metis sint_0 signed_word_eqI)

lemma div_spec_signed:
  fixes a b :: "'a::len word"
  assumes "sint least = - (2 ^ (LENGTH('a) - 1))" "1 < LENGTH('a)"
    and "f = (if a = least \<and> b = - 1 then Inl ''integer overflow''
          else if b = 0 then Inl ''integer divide by zero'' else Inr (sdiv_word a b))"
  shows "div_spec (2 ^ (LENGTH('a) - 1)) sint a b f"
proof -
  have B: "(1 :: int) < 2 ^ (LENGTH('a) - 1)" using assms(2) by (intro one_less_power) auto
  have "a = least \<longleftrightarrow> sint a = - (2 ^ (LENGTH('a) - 1))" using assms(1) by (metis signed_word_eqI)
  moreover have "b = - 1 \<longleftrightarrow> sint b = - 1" by (metis sint_n1 signed_word_eqI)
  ultimately show ?thesis
    using sdiv_eq_top_iff [OF sint_ge [of a] sint_lt [of a] _ B, of "sint b"] sint_sdiv_word [of b a] assms(2,3)
    by (auto simp: div_spec_def sint_0_iff)
qed

lemma rem_spec_signed:
  fixes a b :: "'a::len word"
  assumes "f = (if a = least \<and> b = - 1 then Inr 0
          else if b = 0 then Inl ''integer divide by zero'' else Inr (smod_word a b))"
  shows "rem_spec sint a b f"
proof (cases "a = least \<and> b = - 1")
  case True
  then show ?thesis using assms by (simp add: rem_spec_def signed_divide_int_def sgn_mult_abs)
next
  case False
  then show ?thesis using assms sint_smod_word [of b a] by (auto simp: rem_spec_def sint_0_iff)
qed

lemma uint_sdiv: "uint a sdiv uint b = uint a div uint b"
  by (simp add: signed_divide_int_def sgn_if order_less_le)

lemma div_spec_unsigned:
  "div_spec (2 ^ LENGTH('a)) uint a b
     (if b = 0 then Inl ''integer divide by zero'' else Inr (a div (b :: 'a::len word)))"
proof -
  have "uint a div uint b < 2 ^ LENGTH('a)"
    using uint_lt2p [of "a div b"] by (simp add: uint_div)
  then show ?thesis by (auto simp: div_spec_def uint_sdiv uint_div uint_0_iff)
qed

lemma rem_spec_unsigned:
  "rem_spec uint a b
     (if b = 0 then Inl ''integer divide by zero'' else Inr (a mod (b :: 'a::len word)))"
  by (auto simp: rem_spec_def uint_sdiv uint_mod uint_0_iff minus_div_mult_eq_mod)

text \<open>C22: each division traps with the zero-divisor message exactly when the divisor is zero and with the
  overflow message exactly when the quotient rounded toward zero does not fit the type, and otherwise
  returns that quotient; each remainder traps on a zero divisor only and otherwise satisfies
  \<open>r = a - q * b\<close>, the most negative dividend over \<open>-1\<close> included.\<close>

theorem integer_division_spec:
  "div_spec (2 ^ 31) sint a b (i32_div_s a b) \<and> div_spec (2 ^ 32) uint a b (i32_div_u a b) \<and>
   rem_spec sint a b (i32_rem_s a b) \<and> rem_spec uint a b (i32_rem_u a b) \<and>
   div_spec (2 ^ 63) sint c d (i64_div_s c d) \<and> div_spec (2 ^ 64) uint c d (i64_div_u c d) \<and>
   rem_spec sint c d (i64_rem_s c d) \<and> rem_spec uint c d (i64_rem_u c d)"
  using div_spec_signed [of "0x80000000 :: u32" "i32_div_s a b" a b]
    div_spec_signed [of "0x8000000000000000 :: u64" "i64_div_s c d" c d]
    rem_spec_signed [of "i32_rem_s a b" a "0x80000000" b]
    rem_spec_signed [of "i64_rem_s c d" c "0x8000000000000000" d]
    div_spec_unsigned [of a b] rem_spec_unsigned [of a b]
    div_spec_unsigned [of c d] rem_spec_unsigned [of c d]
  by (simp only: i32_div_s_def i64_div_s_def i32_rem_s_def i64_rem_s_def
      i32_div_u_def i64_div_u_def i32_rem_u_def i64_rem_u_def) simp

end
