(* ===== verification/Floats.thy ===== *)
theory Floats
  imports Prelude
begin

text \<open>
  The floating-point operations of the interpreter that work on the bits: sign
  manipulation, comparison, minimum and maximum, and the conversion to an integer
  (\<open>TRUNC_FUNCTION\<close>, \<open>trunc_f32_to_int\<close>, \<open>trunc_f64_to_int\<close> of
  \<^verbatim>\<open>wasm_interp_classic.c\<close>).

  A number is its bit pattern, a word with \<open>mw\<close> mantissa bits (23 of 32 and 52 of 64), the
  exponent above them and the sign on top. The parts of C the code relies on are written
  out for both formats at once: \<open>isnan\<close>, \<open>signbit\<close>, the comparison operators (false when
  an operand is not a number, and indifferent to the sign of zero) and the cast to an
  integer (rounding toward zero).
\<close>

section \<open>What C's operators do on the bits\<close>

definition fl_mag :: "'a::len word \<Rightarrow> int" where
  "fl_mag b = uint (take_bit (LENGTH('a) - 1) b)"

definition fl_signbit :: "'a::len word \<Rightarrow> bool" where
  "fl_signbit b \<longleftrightarrow> bit b (LENGTH('a) - 1)"

definition fl_inf :: "nat \<Rightarrow> 'a::len itself \<Rightarrow> int" where
  "fl_inf mw _ = push_bit mw (mask (LENGTH('a) - 1 - mw))"

definition fl_isnan :: "nat \<Rightarrow> 'a::len word \<Rightarrow> bool" where
  "fl_isnan mw b \<longleftrightarrow> fl_inf mw TYPE('a) < fl_mag b"

text \<open>The comparison key: the magnitude bits order the absolute values, both zeros have key 0.\<close>

definition fl_key :: "'a::len word \<Rightarrow> int" where
  "fl_key b = (if fl_signbit b then - fl_mag b else fl_mag b)"

definition fl_eq :: "nat \<Rightarrow> 'a::len word \<Rightarrow> 'a word \<Rightarrow> bool" where
  "fl_eq mw a b \<longleftrightarrow> \<not> fl_isnan mw a \<and> \<not> fl_isnan mw b \<and> fl_key a = fl_key b"

definition fl_lt :: "nat \<Rightarrow> 'a::len word \<Rightarrow> 'a word \<Rightarrow> bool" where
  "fl_lt mw a b \<longleftrightarrow> \<not> fl_isnan mw a \<and> \<not> fl_isnan mw b \<and> fl_key a < fl_key b"

definition fl_le :: "nat \<Rightarrow> 'a::len word \<Rightarrow> 'a word \<Rightarrow> bool" where
  "fl_le mw a b \<longleftrightarrow> \<not> fl_isnan mw a \<and> \<not> fl_isnan mw b \<and> fl_key a \<le> fl_key b"

text \<open>The whole part of the number with magnitude bits \<open>m\<close>: the mantissa with its hidden bit,
  scaled by the exponent. (A subnormal number is below one, and so is \<open>2 ^ mw + m\<close> over the
  bias, so the formula needs no case for it.)\<close>

definition fl_bias :: "nat \<Rightarrow> 'a::len itself \<Rightarrow> nat" where
  "fl_bias mw _ = 2 ^ (LENGTH('a) - 2 - mw) - 1"

definition trunc_mag :: "nat \<Rightarrow> nat \<Rightarrow> int \<Rightarrow> int" where
  "trunc_mag mw bias m =
     (2 ^ mw + m mod 2 ^ mw) * 2 ^ nat (m div 2 ^ mw) div 2 ^ (bias + mw)"

lemma trunc_mag_eval [code]:
  "trunc_mag mw bias m =
     (let e = nat (m div 2 ^ mw); a = 2 ^ mw + m mod 2 ^ mw
      in if e \<le> bias + mw then a div 2 ^ (bias + mw - e) else a * 2 ^ (e - (bias + mw)))"
proof -
  have split: "a * 2 ^ e div 2 ^ b = (if e \<le> b then a div 2 ^ (b - e) else a * 2 ^ (e - b))"
    for a :: int and b e :: nat
  proof (cases "e \<le> b")
    case True
    then have "(2 :: int) ^ b = 2 ^ (b - e) * 2 ^ e" by (simp flip: power_add)
    then show ?thesis using True by simp
  next
    case False
    then have "(2 :: int) ^ e = 2 ^ (e - b) * 2 ^ b" by (simp flip: power_add)
    then show ?thesis using False by (simp flip: mult.assoc)
  qed
  show ?thesis by (simp add: trunc_mag_def Let_def split)
qed

definition trunc_key :: "nat \<Rightarrow> nat \<Rightarrow> int \<Rightarrow> int" where
  "trunc_key mw bias k = (if k < 0 then - trunc_mag mw bias (- k) else trunc_mag mw bias k)"

definition fl_trunc :: "nat \<Rightarrow> 'a::len word \<Rightarrow> int" where
  "fl_trunc mw b = trunc_key mw (fl_bias mw TYPE('a)) (fl_key b)"

section \<open>The operations\<close>

definition NAN32 :: u32 where "NAN32 = 0x7FC00000"
definition NAN64 :: u64 where "NAN64 = 0x7FF8000000000000"

definition f32_min :: "u32 \<Rightarrow> u32 \<Rightarrow> u32" where
  "f32_min a b =
     (if fl_isnan 23 a \<or> fl_isnan 23 b then NAN32
      else if fl_eq 23 a 0 \<and> fl_eq 23 a b then (if fl_signbit a then a else b)
      else if fl_lt 23 b a then b else a)"

definition f32_max :: "u32 \<Rightarrow> u32 \<Rightarrow> u32" where
  "f32_max a b =
     (if fl_isnan 23 a \<or> fl_isnan 23 b then NAN32
      else if fl_eq 23 a 0 \<and> fl_eq 23 a b then (if fl_signbit a then b else a)
      else if fl_lt 23 b a then a else b)"

definition f64_min :: "u64 \<Rightarrow> u64 \<Rightarrow> u64" where
  "f64_min a b =
     (if fl_isnan 52 a \<or> fl_isnan 52 b then NAN64
      else if fl_eq 52 a 0 \<and> fl_eq 52 a b then (if fl_signbit a then a else b)
      else if fl_lt 52 b a then b else a)"

definition f64_max :: "u64 \<Rightarrow> u64 \<Rightarrow> u64" where
  "f64_max a b =
     (if fl_isnan 52 a \<or> fl_isnan 52 b then NAN64
      else if fl_eq 52 a 0 \<and> fl_eq 52 a b then (if fl_signbit a then b else a)
      else if fl_lt 52 b a then a else b)"

definition local_copysignf :: "u32 \<Rightarrow> u32 \<Rightarrow> u32" where
  "local_copysignf x y = (x AND 0x7fffffff) OR (y AND 0x80000000)"

definition local_copysign :: "u64 \<Rightarrow> u64 \<Rightarrow> u64" where
  "local_copysign x y = (x AND 0x7fffffffffffffff) OR (y AND 0x8000000000000000)"

definition f32_neg :: "u32 \<Rightarrow> u32" where
  "f32_neg u = (let sign_bit = u AND push_bit 31 1
     in if sign_bit \<noteq> 0 then u AND NOT (push_bit 31 1) else u OR push_bit 31 1)"

definition f64_neg :: "u64 \<Rightarrow> u64" where
  "f64_neg u = (let sign_bit = u AND push_bit 63 1
     in if sign_bit \<noteq> 0 then u AND NOT (push_bit 63 1) else u OR push_bit 63 1)"

text \<open>\<open>fabs\<close> clears the sign bit.\<close>

definition fl_abs :: "'a::len word \<Rightarrow> 'a word" where
  "fl_abs b = take_bit (LENGTH('a) - 1) b"

text \<open>The macro \<open>TRUNC_FUNCTION\<close> and its users. \<open>src_min\<close> and \<open>src_max\<close> are the float constants next to
  the range of the target on the outside, given as bit patterns.\<close>

definition trunc_function ::
  "nat \<Rightarrow> 'a::len word \<Rightarrow> 'a word \<Rightarrow> 'a word \<Rightarrow> 'd::len word \<Rightarrow> 'd word \<Rightarrow> bool \<Rightarrow> 'd word" where
  "trunc_function mw src_value src_min src_max dst_min dst_max is_sign =
     (if \<not> fl_isnan mw src_value then
        if fl_le mw src_value src_min then dst_min
        else if fl_le mw src_max src_value then dst_max
        else if is_sign then word_of_int (fl_trunc mw src_value)
        else word_of_int (fl_trunc mw src_value)
      else 0)"

definition trunc_to_int ::
  "nat \<Rightarrow> 'a::len word \<Rightarrow> 'a word \<Rightarrow> 'a word \<Rightarrow> bool \<Rightarrow> bool \<Rightarrow> string + 'd::len word" where
  "trunc_to_int mw src_value src_min src_max saturating is_sign =
     (if \<not> saturating \<and> fl_isnan mw src_value then Inl ''invalid conversion to integer''
      else if \<not> saturating \<and> (fl_le mw src_value src_min \<or> fl_le mw src_max src_value)
      then Inl ''integer overflow''
      else
        let dst_min = (if is_sign then push_bit (LENGTH('d) - 1) 1 else 0);
            dst_max = (if is_sign then mask (LENGTH('d) - 1) else - 1)
        in Inr (trunc_function mw src_value src_min src_max dst_min dst_max is_sign))"

text \<open>The eight uses with the constants of the handlers: \<open>-2147483904.0f\<close> and \<open>2147483648.0f\<close>,
  \<open>-1.0f\<close> and \<open>4294967296.0f\<close>, and so on.\<close>

definition i32_trunc_s_f32 :: "bool \<Rightarrow> u32 \<Rightarrow> string + u32" where
  "i32_trunc_s_f32 sat x = trunc_to_int 23 x 0xCF000001 0x4F000000 sat True"

definition i32_trunc_u_f32 :: "bool \<Rightarrow> u32 \<Rightarrow> string + u32" where
  "i32_trunc_u_f32 sat x = trunc_to_int 23 x 0xBF800000 0x4F800000 sat False"

definition i32_trunc_s_f64 :: "bool \<Rightarrow> u64 \<Rightarrow> string + u32" where
  "i32_trunc_s_f64 sat x = trunc_to_int 52 x 0xC1E0000000200000 0x41E0000000000000 sat True"

definition i32_trunc_u_f64 :: "bool \<Rightarrow> u64 \<Rightarrow> string + u32" where
  "i32_trunc_u_f64 sat x = trunc_to_int 52 x 0xBFF0000000000000 0x41F0000000000000 sat False"

definition i64_trunc_s_f32 :: "bool \<Rightarrow> u32 \<Rightarrow> string + u64" where
  "i64_trunc_s_f32 sat x = trunc_to_int 23 x 0xDF000001 0x5F000000 sat True"

definition i64_trunc_u_f32 :: "bool \<Rightarrow> u32 \<Rightarrow> string + u64" where
  "i64_trunc_u_f32 sat x = trunc_to_int 23 x 0xBF800000 0x5F800000 sat False"

definition i64_trunc_s_f64 :: "bool \<Rightarrow> u64 \<Rightarrow> string + u64" where
  "i64_trunc_s_f64 sat x = trunc_to_int 52 x 0xC3E0000000000001 0x43E0000000000000 sat True"

definition i64_trunc_u_f64 :: "bool \<Rightarrow> u64 \<Rightarrow> string + u64" where
  "i64_trunc_u_f64 sat x = trunc_to_int 52 x 0xBFF0000000000000 0x43F0000000000000 sat False"

section \<open>Truncation is monotone\<close>

lemma div_mod_carry:
  fixes q r M :: int
  assumes "0 \<le> r" "r < M"
  shows "(q * M + r) div M = q" "(q * M + r) mod M = r"
  using assms by (simp_all add: div_add1_eq mod_mult_self3)

lemma trunc_mag_step:
  assumes "0 \<le> m"
  shows "trunc_mag mw bias m \<le> trunc_mag mw bias (m + 1)"
proof -
  define M :: int where "M = 2 ^ mw"
  define q r where "q = m div M" and "r = m mod M"
  have M: "0 < M" by (simp add: M_def)
  have r: "0 \<le> r" "r < M" and q: "0 \<le> q" and m: "m = q * M + r"
    using M assms by (simp_all add: q_def r_def pos_imp_zdiv_nonneg_iff)
  let ?g = "\<lambda>m. (M + m mod M) * 2 ^ nat (m div M)"
  have "?g m \<le> ?g (m + 1)"
  proof (cases "r = M - 1")
    case True
    then have "m + 1 = (q + 1) * M + 0" using m by (simp add: algebra_simps)
    then have "(m + 1) div M = q + 1" "(m + 1) mod M = 0"
      using div_mod_carry [of 0 M "q + 1"] M by (simp_all only:)
    then show ?thesis using True q M by (simp flip: q_def r_def add: nat_add_distrib)
  next
    case False
    then have "m + 1 = q * M + (r + 1)" "r + 1 < M" using m r by linarith+
    then have "(m + 1) div M = q" "(m + 1) mod M = r + 1"
      using div_mod_carry [of "r + 1" M q] r by (simp_all only:)
    then show ?thesis by (simp flip: q_def r_def)
  qed
  then show ?thesis unfolding trunc_mag_def M_def by (intro zdiv_mono1) simp_all
qed

lemma trunc_mag_mono:
  assumes "0 \<le> m" "m \<le> m'"
  shows "trunc_mag mw bias m \<le> trunc_mag mw bias m'"
proof -
  have "trunc_mag mw bias m \<le> trunc_mag mw bias (m + int n)" for n
  proof (induction n)
    case (Suc n)
    then show ?case using trunc_mag_step [of "m + int n" mw bias] assms(1)
      by (simp add: ac_simps)
  qed simp
  from this [of "nat (m' - m)"] show ?thesis using assms by simp
qed

lemma trunc_mag_nonneg: "0 \<le> m \<Longrightarrow> 0 \<le> trunc_mag mw bias m"
  by (simp add: trunc_mag_def pos_imp_zdiv_nonneg_iff add_nonneg_nonneg)

lemma trunc_key_mono: "k \<le> k' \<Longrightarrow> trunc_key mw bias k \<le> trunc_key mw bias k'"
  using trunc_mag_mono [of k k' mw bias] trunc_mag_mono [of "- k'" "- k" mw bias]
    trunc_mag_nonneg [of "- k" mw bias] trunc_mag_nonneg [of k' mw bias]
  by (auto simp: trunc_key_def)

text \<open>A bound next to the range: at the bound the whole part is out of range, one step inside it is
  in range. Then comparing with the bound decides the range exactly.\<close>

lemma trunc_key_below:
  assumes "trunc_key mw bias K < lo" "lo \<le> trunc_key mw bias (K + 1)"
  shows "k \<le> K \<longleftrightarrow> trunc_key mw bias k < lo"
proof
  assume "k \<le> K"
  then show "trunc_key mw bias k < lo" using trunc_key_mono assms(1) by (meson le_less_trans)
next
  assume "trunc_key mw bias k < lo"
  then have "\<not> K + 1 \<le> k" using trunc_key_mono [of "K + 1" k mw bias] assms(2) by linarith
  then show "k \<le> K" by simp
qed

lemma trunc_key_above:
  assumes "hi < trunc_key mw bias K" "trunc_key mw bias (K - 1) \<le> hi"
  shows "K \<le> k \<longleftrightarrow> hi < trunc_key mw bias k"
proof
  assume "K \<le> k"
  then show "hi < trunc_key mw bias k" using trunc_key_mono assms(1) by (meson less_le_trans)
next
  assume "hi < trunc_key mw bias k"
  then have "\<not> k \<le> K - 1" using trunc_key_mono [of k "K - 1" mw bias] assms(2) by linarith
  then show "K \<le> k" by simp
qed

section \<open>Conversion to an integer\<close>

text \<open>What a conversion of \<open>x\<close> to the integers from \<open>lo\<close> to \<open>hi\<close> answers. The trapping
  conversion refuses what is not a number and what does not fit; the saturating one gives
  0 and the nearer end of the range.\<close>

definition trunc_spec ::
  "nat \<Rightarrow> int \<Rightarrow> int \<Rightarrow> bool \<Rightarrow> 'a::len word \<Rightarrow> string + 'd::len word" where
  "trunc_spec mw lo hi sat x =
     (if fl_isnan mw x
      then (if sat then Inr 0 else Inl ''invalid conversion to integer'')
      else if lo \<le> fl_trunc mw x \<and> fl_trunc mw x \<le> hi then Inr (word_of_int (fl_trunc mw x))
      else if sat then Inr (word_of_int (if fl_trunc mw x < lo then lo else hi))
      else Inl ''integer overflow'')"

lemma word_min_eq: "- (2 ^ (LENGTH('a) - 1)) = (push_bit (LENGTH('a) - 1) 1 :: 'a::len word)"
proof -
  have "2 * 2 ^ (LENGTH('a) - 1) = (2 ^ Suc (LENGTH('a) - 1) :: 'a word)"
    by (rule power_Suc [symmetric])
  also have "Suc (LENGTH('a) - 1) = LENGTH('a)" by (rule Suc_diff_1) (rule len_gt_0)
  also have "(2 ^ LENGTH('a) :: 'a word) = 0" by simp
  finally have "2 ^ (LENGTH('a) - 1) + 2 ^ (LENGTH('a) - 1) = (0 :: 'a word)" by (simp only: mult_2)
  then show ?thesis using minus_unique unfolding push_bit_eq_mult mult_1 by blast
qed

lemma trunc_to_int_eq:
  fixes x src_min src_max :: "'a::len word"
  assumes "\<not> fl_isnan mw src_min" "\<not> fl_isnan mw src_max"
    and "trunc_key mw (fl_bias mw TYPE('a)) (fl_key src_min) < lo"
    and "lo \<le> trunc_key mw (fl_bias mw TYPE('a)) (fl_key src_min + 1)"
    and "hi < trunc_key mw (fl_bias mw TYPE('a)) (fl_key src_max)"
    and "trunc_key mw (fl_bias mw TYPE('a)) (fl_key src_max - 1) \<le> hi"
    and "lo = (if is_sign then - (2 ^ (LENGTH('d) - 1)) else 0)"
    and "hi = (if is_sign then 2 ^ (LENGTH('d) - 1) - 1 else 2 ^ LENGTH('d) - 1)"
  shows "(trunc_to_int mw x src_min src_max sat is_sign :: string + 'd::len word) =
    trunc_spec mw lo hi sat x"
proof (cases "fl_isnan mw x")
  case True
  then show ?thesis by (simp add: trunc_to_int_def trunc_spec_def trunc_function_def)
next
  case False
  have le: "fl_le mw x src_min \<longleftrightarrow> fl_trunc mw x < lo"
    unfolding fl_le_def fl_trunc_def using False assms(1)
    by (simp only: trunc_key_below [OF assms(3,4), of "fl_key x"] simp_thms)
  have ge: "fl_le mw src_max x \<longleftrightarrow> hi < fl_trunc mw x"
    unfolding fl_le_def fl_trunc_def using False assms(2)
    by (simp only: trunc_key_above [OF assms(5,6), of "fl_key x"] simp_thms)
  have lo: "(if is_sign then push_bit (LENGTH('d) - 1) 1 else 0 :: 'd word) = word_of_int lo"
    unfolding assms(7) using word_min_eq [where 'a = 'd] by simp
  have hi: "(if is_sign then mask (LENGTH('d) - 1) else - 1 :: 'd word) = word_of_int hi"
    unfolding assms(8) by (simp add: mask_eq_exp_minus_1)
  have "lo \<le> hi" unfolding assms(7,8) by simp
  then show ?thesis using False
    unfolding trunc_to_int_def trunc_spec_def trunc_function_def le ge lo hi Let_def
    by (cases "fl_trunc mw x < lo"; cases "hi < fl_trunc mw x") (simp_all add: not_le)
qed

text \<open>C23: every conversion of a float to an integer accepts exactly the numbers whose whole part
  fits the target and returns that whole part; the constants the handlers compare with, which differ from
  the integer limits because a float cannot hold them, draw the line in the right place for all eight
  pairs of types, trapping and saturating.\<close>

theorem trunc_conversions_spec:
  "i32_trunc_s_f32 sat x = trunc_spec 23 (- (2 ^ 31)) (2 ^ 31 - 1) sat x \<and>
   i32_trunc_u_f32 sat x = trunc_spec 23 0 (2 ^ 32 - 1) sat x \<and>
   i32_trunc_s_f64 sat y = trunc_spec 52 (- (2 ^ 31)) (2 ^ 31 - 1) sat y \<and>
   i32_trunc_u_f64 sat y = trunc_spec 52 0 (2 ^ 32 - 1) sat y \<and>
   i64_trunc_s_f32 sat x = trunc_spec 23 (- (2 ^ 63)) (2 ^ 63 - 1) sat x \<and>
   i64_trunc_u_f32 sat x = trunc_spec 23 0 (2 ^ 64 - 1) sat x \<and>
   i64_trunc_s_f64 sat y = trunc_spec 52 (- (2 ^ 63)) (2 ^ 63 - 1) sat y \<and>
   i64_trunc_u_f64 sat y = trunc_spec 52 0 (2 ^ 64 - 1) sat y"
  unfolding i32_trunc_s_f32_def i32_trunc_u_f32_def i32_trunc_s_f64_def i32_trunc_u_f64_def
    i64_trunc_s_f32_def i64_trunc_u_f32_def i64_trunc_s_f64_def i64_trunc_u_f64_def
  by (intro conjI; rule trunc_to_int_eq; (code_simp; fail | simp))

section \<open>Minimum, maximum and sign\<close>

text \<open>The order the result of \<open>min\<close> and \<open>max\<close> is taken in: the comparison order, with the
  negative zero below the positive one.\<close>

definition fl_total :: "'a::len word \<Rightarrow> int" where
  "fl_total b = (if fl_signbit b then - 1 - fl_mag b else fl_mag b)"

lemma fl_mag_nonneg [simp]: "0 \<le> fl_mag b" by (simp add: fl_mag_def)

lemma fl_total_inj: "fl_total a = fl_total b \<longleftrightarrow> a = (b :: 'a::len word)"
proof
  assume t: "fl_total a = fl_total b"
  have s: "fl_signbit a \<longleftrightarrow> fl_signbit b" and m: "fl_mag a = fl_mag b"
    using t fl_mag_nonneg [of a] fl_mag_nonneg [of b]
    unfolding fl_total_def by (smt (verit))+
  from m have e: "take_bit (LENGTH('a) - 1) a = take_bit (LENGTH('a) - 1) b"
    unfolding fl_mag_def by (rule word_uint_eqI)
  show "a = b"
  proof (rule bit_word_eqI)
    fix n
    assume "n < LENGTH('a)"
    then consider "n < LENGTH('a) - 1" | "n = LENGTH('a) - 1" by linarith
    then show "bit a n \<longleftrightarrow> bit b n"
    proof cases
      case 1
      then show ?thesis using arg_cong [OF e, of "\<lambda>w. bit w n"] by (simp add: bit_simps)
    qed (use s in \<open>simp add: fl_signbit_def\<close>)
  qed
qed simp

lemma fl_zero [simp]: "fl_mag (0 :: 'a::len word) = 0" "\<not> fl_signbit (0 :: 'a word)"
  by (simp_all add: fl_mag_def fl_signbit_def)

lemma minmax_choice:
  assumes "\<not> fl_isnan mw a" "\<not> fl_isnan mw b" "\<not> fl_isnan mw (0 :: 'a::len word)"
  shows "(if fl_eq mw a 0 \<and> fl_eq mw a b then (if fl_signbit a then a else b)
          else if fl_lt mw b a then b else a) = (if fl_total b < fl_total a then b else (a :: 'a word))"
    and "(if fl_eq mw a 0 \<and> fl_eq mw a b then (if fl_signbit a then b else a)
          else if fl_lt mw b a then a else b) = (if fl_total b < fl_total a then a else b)"
  using assms fl_mag_nonneg [of a] fl_mag_nonneg [of b] fl_total_inj [of a b]
  by (auto simp: fl_eq_def fl_lt_def fl_key_def fl_total_def simp del: fl_mag_nonneg
      split: if_splits)


text \<open>C38: the minimum and the maximum of two numbers are the smaller and the greater one in the order that puts
  the negative zero below the positive one, not a number as soon as one operand is not, and
  the result does not depend on the order of the operands.\<close>

theorem float_min_max_spec:
  "f32_min a b = (if fl_isnan 23 a \<or> fl_isnan 23 b then NAN32
     else if fl_total b < fl_total a then b else a) \<and>
   f32_max a b = (if fl_isnan 23 a \<or> fl_isnan 23 b then NAN32
     else if fl_total b < fl_total a then a else b) \<and>
   f32_min a b = f32_min b a \<and> f32_max a b = f32_max b a \<and>
   f64_min c d = (if fl_isnan 52 c \<or> fl_isnan 52 d then NAN64
     else if fl_total d < fl_total c then d else c) \<and>
   f64_max c d = (if fl_isnan 52 c \<or> fl_isnan 52 d then NAN64
     else if fl_total d < fl_total c then c else d) \<and>
   f64_min c d = f64_min d c \<and> f64_max c d = f64_max d c"
proof -
  have z: "\<not> fl_isnan 23 (0 :: u32)" "\<not> fl_isnan 52 (0 :: u64)" by code_simp+
  have f32: "f32_min a b = (if fl_isnan 23 a \<or> fl_isnan 23 b then NAN32
       else if fl_total b < fl_total a then b else a)"
    "f32_max a b = (if fl_isnan 23 a \<or> fl_isnan 23 b then NAN32
       else if fl_total b < fl_total a then a else b)" for a b
    using minmax_choice [of 23 a b] z(1) by (simp_all add: f32_min_def f32_max_def)
  have f64: "f64_min c d = (if fl_isnan 52 c \<or> fl_isnan 52 d then NAN64
       else if fl_total d < fl_total c then d else c)"
    "f64_max c d = (if fl_isnan 52 c \<or> fl_isnan 52 d then NAN64
       else if fl_total d < fl_total c then c else d)" for c d
    using minmax_choice [of 52 c d] z(2) by (simp_all add: f64_min_def f64_max_def)
  have "f32_min a b = f32_min b a" "f32_max a b = f32_max b a"
    using fl_total_inj [of a b] by (auto simp: f32)
  moreover have "f64_min c d = f64_min d c" "f64_max c d = f64_max d c"
    using fl_total_inj [of c d] by (auto simp: f64)
  ultimately show ?thesis using f32 [of a b] f64 [of c d] by blast
qed

lemma and_push_bit_1_eq_0: "w AND push_bit k 1 = 0 \<longleftrightarrow> \<not> bit w k" for w :: "'a::len word"
  using and_exp_eq_0_iff_not_bit [of w k] by (simp add: push_bit_eq_mult)

lemma flip_bit_word:
  fixes w :: "'a::len word"
  assumes "k < LENGTH('a)"
  shows "bit (if w AND push_bit k 1 \<noteq> 0 then w AND NOT (push_bit k 1) else w OR push_bit k 1) i
    \<longleftrightarrow> (if i = k then \<not> bit w k else bit w i)"
  using assms bit_imp_le_length [of w i]
  by (auto simp: and_exp_eq_0_iff_not_bit bit_simps push_bit_eq_mult)

lemma neg_bits:
  "bit (f32_neg a) i \<longleftrightarrow> (if i = 31 then \<not> bit a 31 else bit a i)"
  "bit (f64_neg b) i \<longleftrightarrow> (if i = 63 then \<not> bit b 63 else bit b i)"
  unfolding f32_neg_def f64_neg_def Let_def by (rule flip_bit_word; simp)+

lemma copysign_word:
  fixes w v :: "'a::len word"
  assumes "k < LENGTH('a)" "LENGTH('a) \<le> Suc k"
  shows "bit (w AND mask k OR v AND push_bit k 1) i \<longleftrightarrow> (if i = k then bit v k else bit w i)"
  using assms bit_imp_le_length [of w i]
  by (cases "bit w i"; cases "i = k") (auto simp: bit_simps push_bit_eq_mult)

lemma copysign_bits:
  "bit (local_copysignf a a') i \<longleftrightarrow> (if i = 31 then bit a' 31 else bit a i)"
  "bit (local_copysign b b') i \<longleftrightarrow> (if i = 63 then bit b' 63 else bit b i)"
proof -
  have m: "(0x7fffffff :: u32) = mask 31" "(0x7fffffffffffffff :: u64) = mask 63"
    "(0x80000000 :: u32) = push_bit 31 1" "(0x8000000000000000 :: u64) = push_bit 63 1"
    by (simp_all add: mask_eq_exp_minus_1 push_bit_eq_mult)
  show "bit (local_copysignf a a') i \<longleftrightarrow> (if i = 31 then bit a' 31 else bit a i)"
    "bit (local_copysign b b') i \<longleftrightarrow> (if i = 63 then bit b' 63 else bit b i)"
    unfolding local_copysignf_def local_copysign_def m by (rule copysign_word; simp)+
qed

text \<open>Negating twice is the identity and the negated number is the copy of the number with the sign of
  the negation: the sign operations change the sign bit only, on numbers and on everything else.\<close>

lemma neg_neg: "f32_neg (f32_neg a) = a" "f64_neg (f64_neg b) = b"
  by (rule bit_word_eqI; simp add: neg_bits)+

lemma copysign_neg: "local_copysignf a (f32_neg a) = f32_neg a" "local_copysign b (f64_neg b) = f64_neg b"
  by (rule bit_word_eqI; simp add: neg_bits copysign_bits)+

end
