(* ===== verification/Platform_Esp.thy ===== *)
theory Platform_Esp
  imports Prelude
begin

text \<open>
  Memory of the platform layer (\<^verbatim>\<open>core/shared/platform/esp-idf\<close>): \<open>os_malloc\<close>, \<open>os_realloc\<close>,
  \<open>os_free\<close>, \<open>os_mmap\<close> and \<open>os_mremap\<close>. All of them align the block they get to eight bytes
  and keep the address of the block in the word in front of the aligned address.

  The allocator of ESP-IDF is a parameter: \<open>malloc\<close> gives the address of a block for a size
  (0 when there is none), \<open>realloc\<close> also the memory after it has moved the content. A \<open>size_t\<close> and
  an \<open>unsigned\<close> have 32 bits.
\<close>

section \<open>The operations\<close>

definition load_u32 :: "cmem \<Rightarrow> u32 \<Rightarrow> u32" where
  "load_u32 m p = le_word (cbytes m p 4)"

definition store_u32 :: "cmem \<Rightarrow> u32 \<Rightarrow> u32 \<Rightarrow> cmem" where
  "store_u32 m p v = mem_put m p (word_bytes 4 v)"

definition os_malloc :: "(u32 \<Rightarrow> u32) \<Rightarrow> cmem \<Rightarrow> u32 \<Rightarrow> cmem \<times> u32" where
  "os_malloc malloc m sz =
     (let buf_origin = malloc (sz + 8 + 4)
      in if buf_origin = 0 then (m, 0)
         else let buf_fixed = buf_origin + 4;
                  buf_fixed = (if buf_fixed AND 0x7 \<noteq> 0 then (buf_fixed + 8) AND NOT 7 else buf_fixed);
                  addr_field = buf_fixed - 4
              in (store_u32 m addr_field buf_origin, buf_fixed))"

definition os_realloc ::
  "(u32 \<Rightarrow> u32) \<Rightarrow> (cmem \<Rightarrow> u32 \<Rightarrow> u32 \<Rightarrow> cmem \<times> u32) \<Rightarrow> cmem \<Rightarrow> u32 \<Rightarrow> u32 \<Rightarrow> cmem \<times> u32" where
  "os_realloc malloc realloc m ptr sz =
     (if ptr = 0 then os_malloc malloc m sz
      else let addr_field = ptr - 4; mem_origin = load_u32 m addr_field;
               (m, mem_new) = realloc m mem_origin (sz + 8 + 4)
           in if mem_new = 0 then (m, 0)
              else if mem_origin \<noteq> mem_new then
                let mem_new_fixed = mem_new + 4;
                    mem_new_fixed =
                      (if mem_new_fixed AND 0x7 \<noteq> 0 then (mem_new + 8) AND NOT 7 else mem_new_fixed);
                    addr_field = mem_new_fixed - 4
                in (store_u32 m addr_field mem_new, mem_new_fixed)
              else (m, ptr))"

text \<open>\<open>os_free\<close> passes this address to \<open>free\<close>, if any.\<close>

definition os_free :: "cmem \<Rightarrow> u32 \<Rightarrow> u32 option" where
  "os_free m ptr = (if ptr \<noteq> 0 then Some (load_u32 m (ptr - 4)) else None)"

text \<open>\<open>os_mmap\<close>: \<open>exec\<close> is the test of the protection for \<open>MMAP_PROT_EXEC\<close>, which selects the kind
  of memory \<open>heap_caps_malloc\<close> takes.\<close>

definition os_mmap :: "(bool \<Rightarrow> u32 \<Rightarrow> u32) \<Rightarrow> cmem \<Rightarrow> u32 \<Rightarrow> bool \<Rightarrow> cmem \<times> u32" where
  "os_mmap heap_caps_malloc m sz exec =
     (let buf_origin = heap_caps_malloc exec (sz + 4 + 4)
      in if buf_origin = 0 then (m, 0)
         else let buf_fixed = buf_origin + 4;
                  buf_fixed = (if buf_fixed AND 0x7 \<noteq> 0 then (buf_fixed + 4) AND NOT 7 else buf_fixed);
                  addr_field = buf_fixed - 4;
                  m = store_u32 m addr_field buf_origin
              in (mem_put m buf_fixed (replicate (unat sz) 0), buf_fixed))"

definition os_mremap :: "(bool \<Rightarrow> u32 \<Rightarrow> u32) \<Rightarrow> cmem \<Rightarrow> u32 \<Rightarrow> u32 \<Rightarrow> u32 \<Rightarrow> cmem \<times> u32" where
  "os_mremap heap_caps_malloc m old_addr old_size new_size =
     (let (m, new_memory) = os_mmap heap_caps_malloc m new_size False
      in if new_memory = 0 then (m, 0)
         else (mem_put m new_memory
                 (cbytes m old_addr (unat (if new_size < old_size then new_size else old_size))),
               new_memory))"

text \<open>After the copy the old block is unmapped (\<open>os_munmap\<close>, which is \<open>os_free\<close>): what \<open>free\<close> gets.\<close>

definition os_mremap_frees ::
  "(bool \<Rightarrow> u32 \<Rightarrow> u32) \<Rightarrow> cmem \<Rightarrow> u32 \<Rightarrow> u32 \<Rightarrow> u32 \<Rightarrow> u32 option" where
  "os_mremap_frees heap_caps_malloc m old_addr old_size new_size =
     (case os_mremap heap_caps_malloc m old_addr old_size new_size of
        (m, new_memory) \<Rightarrow> if new_memory = 0 then None else os_free m old_addr)"

section \<open>Alignment\<close>

lemma unat_and_mask: "unat (x AND mask n) = unat x mod 2 ^ n" for x :: "'a::len word"
proof -
  have "unat (take_bit n x) = take_bit n (unat x)" by (rule unsigned_take_bit_eq)
  then show ?thesis unfolding take_bit_eq_mask [of n x] unfolding take_bit_eq_mod .
qed

lemma unat_and_not_mask: "unat (x AND NOT (mask n)) = unat x - unat x mod 2 ^ n" for x :: "'a::len word"
proof -
  have d: "(x AND NOT (mask n)) AND (x AND mask n) = 0"
    by (rule bit_word_eqI) (auto simp: bit_simps)
  have "(x AND NOT (mask n)) OR (x AND mask n) = x"
    by (rule bit_word_eqI) (auto simp: bit_simps)
  with d have x: "x = (x AND NOT (mask n)) + (x AND mask n)"
    by (simp add: disjunctive_add_eq_or)
  have "x AND NOT (mask n) \<le> x" by (rule word_and_le2)
  then have "unat (x - (x AND NOT (mask n))) = unat x - unat (x AND NOT (mask n))"
    by (rule unat_sub)
  moreover have "x - (x AND NOT (mask n)) = x AND mask n" by (metis x add_diff_cancel_left')
  moreover have "unat (x AND NOT (mask n)) \<le> unat x"
    using \<open>x AND NOT (mask n) \<le> x\<close> by (simp add: word_le_nat_alt)
  ultimately show ?thesis using unat_and_mask [of x n] by simp
qed

lemma seven_mask: "(7 :: u32) = mask 3" by (simp add: mask_eq_exp_minus_1)

lemma unat_and_7: "unat (x AND 7) = unat x mod 8" for x :: u32
  using unat_and_mask [of x 3] by (simp add: seven_mask)

lemma unat_and_not_7: "unat (x AND NOT 7) = unat x - unat x mod 8" for x :: u32
  using unat_and_not_mask [of x 3] by (simp add: seven_mask)

lemma and_7_eq_0: "x AND 7 = 0 \<longleftrightarrow> unat x mod 8 = 0" for x :: u32
  using unat_and_7 [of x] by (metis unat_eq_zero)

text \<open>The allocator returns multiples of four, so the distance from the block to the aligned
  address is 4 or 8. All operations compute this address.\<close>

definition fixed_offset :: "u32 \<Rightarrow> nat" where
  "fixed_offset buf_origin = (if unat buf_origin mod 8 = 4 then 4 else 8)"

definition block_ok :: "u32 \<Rightarrow> nat \<Rightarrow> bool" where
  "block_ok a n \<longleftrightarrow> a \<noteq> 0 \<and> unat a mod 4 = 0 \<and> unat a + n < 2 ^ 32"

lemma mod_8_cases: "(n :: nat) mod 4 = 0 \<Longrightarrow> n mod 8 = 0 \<or> n mod 8 = 4"
  by presburger

lemma fixed_offset_mod_8: "unat a mod 4 = 0 \<Longrightarrow> (unat a + fixed_offset a) mod 8 = 0"
  unfolding fixed_offset_def using mod_8_cases [of "unat a"] by presburger

lemma unat_fixed:
  assumes "block_ok a n" "8 \<le> n"
  shows "unat (a + of_nat (fixed_offset a)) = unat a + fixed_offset a"
proof (rule unat_add_small)
  have "fixed_offset a \<le> n" using assms(2) by (simp add: fixed_offset_def)
  then have "unat a + fixed_offset a \<le> unat a + n" by (rule add_left_mono)
  also have "\<dots> < 2 ^ 32" using assms(1) unfolding block_ok_def by blast
  finally show "unat a + fixed_offset a < 2 ^ 32" .
qed

lemma fixed_address:
  assumes "block_ok a n" "k \<le> n" "k = 8 \<or> k = 12"
  shows "(if (a + 4) AND 7 \<noteq> 0 then (a + of_nat k) AND NOT 7 else a + 4) = a + of_nat (fixed_offset a)"
proof -
  have a: "unat a mod 4 = 0" "unat a + n < 2 ^ 32" using assms(1) unfolding block_ok_def by blast+
  have small: "unat (a + of_nat j) = unat a + j" if "j \<le> k" for j
    by (rule unat_add_small, rule order_le_less_trans [OF _ a(2)]) (use that assms(2) in simp)
  have n8: "8 \<le> n" using assms(2,3) by auto
  have u4: "unat (a + 4) = unat a + 4" using small [of 4] assms(3) by auto
  show ?thesis
  proof (cases "unat a mod 8 = 4")
    case True
    then have "(unat a + 4) mod 8 = 0" by presburger
    then have "(a + 4) AND 7 = 0" unfolding and_7_eq_0 u4 .
    then show ?thesis using True by (simp add: fixed_offset_def)
  next
    case False
    with mod_8_cases [OF a(1)] have z: "unat a mod 8 = 0" by simp
    from z obtain q where q: "unat a = 8 * q" by (auto elim: dvdE simp: mod_eq_0_iff_dvd)
    have "unat (a + of_nat k) = unat a + k" using assms(3) by (intro small) auto
    moreover have "8 * q + k - (8 * q + k) mod 8 = 8 * q + 8" using assms(3) by auto
    ultimately have "unat ((a + of_nat k) AND NOT 7) = unat a + 8"
      unfolding unat_and_not_7 q by simp
    moreover have "unat (a + of_nat (fixed_offset a)) = unat a + 8"
      using False unat_fixed [OF assms(1) n8] by (simp only: fixed_offset_def if_False)
    ultimately have "(a + of_nat k) AND NOT 7 = a + of_nat (fixed_offset a)"
      by (metis unsigned_word_eqI)
    moreover have "(a + 4) AND 7 \<noteq> 0" unfolding and_7_eq_0 u4 q by simp
    ultimately show ?thesis by (simp only: if_True simp_thms)
  qed
qed

lemma os_malloc_eq:
  assumes "block_ok a n" "12 \<le> n" "malloc (sz + 8 + 4) = a"
  shows "os_malloc malloc m sz =
    (store_u32 m (a + of_nat (fixed_offset a) - 4) a, a + of_nat (fixed_offset a))"
  using fixed_address [OF assms(1,2)] assms by (auto simp: os_malloc_def Let_def add.assoc block_ok_def)

lemma os_mmap_eq:
  assumes "block_ok a n" "8 \<le> n" "heap_caps_malloc exec (sz + 4 + 4) = a"
  shows "os_mmap heap_caps_malloc m sz exec =
    (mem_put (store_u32 m (a + of_nat (fixed_offset a) - 4) a) (a + of_nat (fixed_offset a))
       (replicate (unat sz) 0), a + of_nat (fixed_offset a))"
  using fixed_address [OF assms(1,2)] assms by (auto simp: os_mmap_def Let_def add.assoc block_ok_def)


lemma unat_minus_4: "4 \<le> unat x \<Longrightarrow> unat (x - 4) = unat x - 4" for x :: u32
  using unat_sub_range [of 4 x] by simp

lemma load_store_u32:
  assumes "unat p + 4 \<le> 2 ^ 32"
  shows "load_u32 (store_u32 m p v) p = v"
  using cbytes_mem_put_same [of p "word_bytes 4 v" m] assms
  by (simp add: load_u32_def store_u32_def)

lemma store_u32_other:
  assumes "unat p + 4 \<le> 2 ^ 32" "unat a < unat p \<or> unat p + 4 \<le> unat a"
  shows "store_u32 m p v a = m a"
  using mem_put_nat [of p "word_bytes 4 v" m a] assms by (auto simp: store_u32_def)

text \<open>What the operations share: the word with the block's address lies between the start of the
  block and the aligned address, which is inside the block.\<close>

lemma fixed_block:
  fixes a :: u32
  assumes "block_ok a n" "8 \<le> n"
  defines "p \<equiv> a + of_nat (fixed_offset a)"
  shows "unat p mod 8 = 0" "unat a \<le> unat (p - 4)" "unat (p - 4) + 4 = unat p"
    "unat p = unat a + fixed_offset a" "unat p \<le> unat a + 8" "unat p + 4 \<le> 2 ^ 32" "p \<noteq> 0"
    "unat (p - 4) + 4 \<le> 2 ^ 32"
proof -
  show p: "unat p = unat a + fixed_offset a" unfolding p_def by (rule unat_fixed [OF assms(1,2)])
  have o: "4 \<le> fixed_offset a" "fixed_offset a \<le> 8" by (simp_all add: fixed_offset_def)
  show "unat p mod 8 = 0"
    using assms(1) unfolding p block_ok_def by (intro fixed_offset_mod_8) blast
  have p4: "unat (p - 4) = unat p - 4" using o(1) by (intro unat_minus_4) (simp add: p)
  show "unat a \<le> unat (p - 4)" "unat (p - 4) + 4 = unat p" "unat p \<le> unat a + 8"
    using p p4 o by linarith+
  have "unat p mod 4 = 0" using \<open>unat p mod 8 = 0\<close> by presburger
  with unat_u32_less [of p] show "unat p + 4 \<le> 2 ^ 32" by simp presburger
  then show "unat (p - 4) + 4 \<le> 2 ^ 32" using p4 by simp
  show "p \<noteq> 0" using p o(1) by auto
qed

text \<open>C35: on a block the allocator grants, \<open>os_malloc\<close> and \<open>os_mmap\<close> return a multiple of eight with the
  requested number of bytes behind it inside the block, write only inside the block, \<open>os_mmap\<close>
  hands the bytes out as zeros, and \<open>os_free\<close> gives the allocator back the address it granted.\<close>

theorem os_malloc_free:
  assumes "block_ok (malloc (sz + 12)) (unat sz + 12)"
    "block_ok (hcm exec (sz + 8)) (unat sz + 8)"
  shows "(let (m', p) = os_malloc malloc m sz; b = malloc (sz + 12)
          in unat p mod 8 = 0 \<and> unat b < unat p \<and> unat p + unat sz \<le> unat b + unat sz + 12 \<and>
             os_free m' p = Some b \<and>
             (\<forall>a. \<not> (unat b \<le> unat a \<and> unat a < unat b + unat sz + 12) \<longrightarrow> m' a = m a)) \<and>
         (let (m', p) = os_mmap hcm m sz exec; b = hcm exec (sz + 8)
          in unat p mod 8 = 0 \<and> unat b < unat p \<and> unat p + unat sz \<le> unat b + unat sz + 8 \<and>
             os_free m' p = Some b \<and> cbytes m' p (unat sz) = replicate (unat sz) 0 \<and>
             (\<forall>a. \<not> (unat b \<le> unat a \<and> unat a < unat b + unat sz + 8) \<longrightarrow> m' a = m a))"
proof -
  define b where "b = malloc (sz + 12)"
  define c where "c = hcm exec (sz + 8)"
  have b: "block_ok b (unat sz + 12)" "8 \<le> unat sz + 12" "12 \<le> unat sz + 12"
    using assms(1) by (simp_all add: b_def)
  have c: "block_ok c (unat sz + 8)" "8 \<le> unat sz + 8" using assms(2) by (simp_all add: c_def)
  define p where "p = b + of_nat (fixed_offset b)"
  define q where "q = c + of_nat (fixed_offset c)"
  note fb = fixed_block [OF b(1,2), folded p_def] and fc = fixed_block [OF c, folded q_def]
  have om: "os_malloc malloc m sz = (store_u32 m (p - 4) b, p)"
    unfolding p_def by (rule os_malloc_eq [OF b(1,3)]) (simp add: b_def add.assoc)
  define z :: "u8 list" where "z = replicate (unat sz) 0"
  have zl: "length z = unat sz" by (simp add: z_def)
  have omm: "os_mmap hcm m sz exec = (mem_put (store_u32 m (q - 4) c) q z, q)"
    unfolding q_def z_def by (rule os_mmap_eq [OF c]) (simp add: c_def add.assoc)
  have cs: "unat c + unat sz + 8 < 2 ^ 32" using c(1) unfolding block_ok_def by linarith
  have qz: "unat q + length z \<le> 2 ^ 32" using fc(5) cs zl by linarith
  have "cbytes (mem_put (store_u32 m (q - 4) c) q z) (q - 4) 4 = cbytes (store_u32 m (q - 4) c) (q - 4) 4"
    by (rule cbytes_mem_put_disjoint [OF qz fc(8)]) (use fc(3) in simp)
  then have "load_u32 (mem_put (store_u32 m (q - 4) c) q z) (q - 4) = c"
    using load_store_u32 [OF fc(8), of m c] by (simp only: load_u32_def)
  moreover have "cbytes (mem_put (store_u32 m (q - 4) c) q z) q (unat sz) = z"
    using cbytes_mem_put_same [OF qz] by (simp only: zl)
  moreover have "mem_put (store_u32 m (q - 4) c) q z a = m a"
    if "\<not> (unat c \<le> unat a \<and> unat a < unat c + unat sz + 8)" for a
    using that fc(2,3,5) zl by (simp only: mem_put_nat [OF qz]) (auto intro!: store_u32_other [OF fc(8)])
  moreover have "store_u32 m (p - 4) b a = m a"
    if "\<not> (unat b \<le> unat a \<and> unat a < unat b + unat sz + 12)" for a
    using that fb(2,3,5) by (intro store_u32_other [OF fb(8)]) auto
  moreover have "unat b < unat p" "unat c < unat q" using fb(2,3) fc(2,3) by linarith+
  ultimately show ?thesis
    using fb(1,5,7) fc(1,5,7) load_store_u32 [OF fb(8), of m b]
    unfolding om omm Let_def prod.case b_def [symmetric] c_def [symmetric] z_def [symmetric] os_free_def
    by simp
qed

theorem os_malloc_free_witness:
  "let (m', p) = os_malloc (\<lambda>_. 0x1000) (\<lambda>_. 0) 16
   in unat p mod 8 = 0 \<and> os_free m' p = Some 0x1000"
  using os_malloc_free [of "\<lambda>_. 0x1000" 16 "\<lambda>_ _. 0x2000" False "\<lambda>_. 0"]
  by (simp add: block_ok_def Let_def split: prod.splits)

text \<open>C40: when the allocator moves the block, \<open>os_realloc\<close> returns a multiple of eight from which
  \<open>os_free\<close> finds the new block, but the bytes behind it are those of the old block at the new block's
  offset: the caller's content is preserved when both blocks have the same offset, and shifted by four
  bytes otherwise, since the operation never moves it.\<close>

theorem os_realloc_content:
  assumes "realloc m a (sz + 12) = (m1, b)" "a \<noteq> b"
    and "block_ok a (n + 12)" "block_ok b (unat sz + 12)"
    and "load_u32 m (a + of_nat (fixed_offset a) - 4) = a"
    and "\<And>k. k \<le> n + 12 \<Longrightarrow> k \<le> unat sz + 12 \<Longrightarrow> cbytes m1 b k = cbytes m a k"
    and "l \<le> n" "l \<le> unat sz"
  shows "\<exists>m' p. os_realloc malloc realloc m (a + of_nat (fixed_offset a)) sz = (m', p) \<and>
    unat p mod 8 = 0 \<and> os_free m' p = Some b \<and>
    cbytes m' p l = cbytes m (a + of_nat (fixed_offset b)) l \<and>
    (fixed_offset a = fixed_offset b \<longrightarrow>
       cbytes m' p l = cbytes m (a + of_nat (fixed_offset a)) l)"
proof -
  define p where "p = b + of_nat (fixed_offset b)"
  have n: "8 \<le> unat sz + 12" "12 \<le> unat sz + 12" "8 \<le> n + 12" by simp_all
  note fb = fixed_block [OF assms(4) n(1), folded p_def]
  have b8: "(if (b + 4) AND 7 \<noteq> 0 then (b + 8) AND NOT 7 else b + 4) = p"
    using fixed_address [OF assms(4) n(1)] by (simp only: p_def of_nat_numeral simp_thms)
  have "b \<noteq> 0" using assms(4) by (simp add: block_ok_def)
  then have r: "os_realloc malloc realloc m (a + of_nat (fixed_offset a)) sz = (store_u32 m1 (p - 4) b, p)"
    using fixed_block(7) [OF assms(3) n(3)] assms(1,2) b8
    by (simp add: os_realloc_def Let_def assms(5) add.assoc)
  have fo: "fixed_offset b \<le> 8" by (simp add: fixed_offset_def)
  have bl: "unat b + unat sz + 12 < 2 ^ 32" using assms(4) unfolding block_ok_def by linarith
  have "cbytes (store_u32 m1 (p - 4) b) p l = cbytes m1 p l"
    unfolding store_u32_def
  proof (rule cbytes_mem_put_disjoint)
    show "unat (p - 4) + length (word_bytes 4 b) \<le> 2 ^ 32" using fb(8) by simp
    show "unat p + l \<le> 2 ^ 32" using fb(5) bl assms(8) by linarith
  qed (use fb(3) in simp)
  also have "\<dots> = take l (drop (fixed_offset b) (cbytes m1 b (fixed_offset b + l)))"
    unfolding p_def by (subst take_drop_cbytes) simp_all
  also have "cbytes m1 b (fixed_offset b + l) = cbytes m a (fixed_offset b + l)"
    using fo assms(7,8) by (intro assms(6)) simp_all
  also have "take l (drop (fixed_offset b) \<dots>) = cbytes m (a + of_nat (fixed_offset b)) l"
    by (subst take_drop_cbytes) simp_all
  finally have content: "cbytes (store_u32 m1 (p - 4) b) p l = cbytes m (a + of_nat (fixed_offset b)) l" .
  moreover have "os_free (store_u32 m1 (p - 4) b) p = Some b"
    using fb(7) load_store_u32 [OF fb(8)] by (simp add: os_free_def)
  ultimately show ?thesis using r fb(1) by simp
qed

text \<open>The shift on a concrete heap: the block at \<open>0x1004\<close> with the bytes 1 to 8 moves to \<open>0x2000\<close>, and the
  caller finds 5 to 8 where it left 1 to 4.\<close>

definition shift_heap :: cmem where
  "shift_heap = mem_of 0x1004 ([4, 0x10, 0, 0] @ [1, 2, 3, 4, 5, 6, 7, 8] @ [0, 0, 0, 0, 0, 0, 0, 0])"

definition copying_realloc :: "cmem \<Rightarrow> u32 \<Rightarrow> u32 \<Rightarrow> cmem \<times> u32" where
  "copying_realloc m a sz = (mem_put m 0x2000 (cbytes m a 20), 0x2000)"

lemma os_realloc_shifts_content:
  "let (m', p) = os_realloc (\<lambda>_. 0) copying_realloc shift_heap 0x1008 8
   in cbytes shift_heap 0x1008 4 = [1, 2, 3, 4] \<and> cbytes m' p 4 = [5, 6, 7, 8]"
  by code_simp

theorem os_realloc_content_witness:
  "\<exists>m' p. os_realloc (\<lambda>_. 0) copying_realloc shift_heap 0x1008 8 = (m', p) \<and>
     cbytes m' p 4 = cbytes shift_heap 0x100c 4"
proof -
  have fo: "fixed_offset 0x1004 = 4" "fixed_offset 0x2000 = 8" by (simp_all add: fixed_offset_def)
  have cp: "cbytes (mem_put shift_heap 0x2000 (cbytes shift_heap 0x1004 20)) 0x2000 k = cbytes shift_heap 0x1004 k"
    if "k \<le> 20" for k
    using that by (simp add: cbytes_mem_put_prefix take_cbytes)
  have "load_u32 shift_heap 0x1004 = 0x1004" by code_simp
  with os_realloc_content [where realloc = copying_realloc and m = shift_heap and a = "0x1004" and sz = 8
      and ?m1.0 = "mem_put shift_heap 0x2000 (cbytes shift_heap 0x1004 20)" and b = "0x2000" and n = 8
      and l = 4 and malloc = "\<lambda>_. 0"] fo cp
  show ?thesis unfolding copying_realloc_def block_ok_def by simp blast
qed

end
