(* ===== verification/Linear_Memory.thy ===== *)
theory Linear_Memory
  imports Platform_Esp
begin

text \<open>
  The linear memory of an instance: the address computation and bounds check of every load and
  store, the memory instructions of the interpreter (\<^verbatim>\<open>wasm_interp_classic.c\<close>), growing
  (\<^verbatim>\<open>common/wasm_memory.c\<close>) and the checks that native code makes on application addresses.

  A linear memory is a stretch of the chip's memory, a \<open>cmem\<close>: the instance holds its first
  address and its size. \<open>lin_bytes\<close> abstracts it to the list of its bytes. Bounds checks are in software
  (the chip has no memory protection), addresses of the application are 32 bits wide, and the
  shared heap is not part of the build.
\<close>

section \<open>The instance\<close>

record WASMMemoryInstance =
  is_shared_memory :: bool
  num_bytes_per_page :: u32
  cur_page_count :: u32
  max_page_count :: u32
  memory_data_size :: u64
  memory_data :: u32
  memory_data_end :: u32
  heap_data :: u32
  heap_data_end :: u32
  mem_bound_check_1byte :: u32
  mem_bound_check_2bytes :: u32
  mem_bound_check_4bytes :: u32
  mem_bound_check_8bytes :: u32
  mem_bound_check_16bytes :: u32

definition lm_ok :: "WASMMemoryInstance \<Rightarrow> bool" where
  "lm_ok mem \<longleftrightarrow> unat (memory_data mem) + unat (memory_data_size mem) < 2 ^ 32 \<and>
     memory_data_end mem = memory_data mem + ucast (memory_data_size mem)"

definition lin_size :: "WASMMemoryInstance \<Rightarrow> nat" where
  "lin_size mem = unat (memory_data_size mem)"

definition lin_bytes :: "cmem \<Rightarrow> WASMMemoryInstance \<Rightarrow> u8 list" where
  "lin_bytes m mem = cbytes m (memory_data mem) (lin_size mem)"

section \<open>Address checks\<close>

text \<open>The macros \<open>CHECK_MEMORY_OVERFLOW\<close> and \<open>CHECK_BULK_MEMORY_OVERFLOW\<close>: the native address, or
  \<open>None\<close> for the jump to \<open>out_of_bounds\<close>.\<close>

definition check_memory_overflow :: "WASMMemoryInstance \<Rightarrow> u32 \<Rightarrow> u32 \<Rightarrow> nat \<Rightarrow> u32 option" where
  "check_memory_overflow mem offset addr bytes =
     (let offset1 = (ucast offset :: u64) + ucast addr
      in if offset1 + of_nat bytes \<le> memory_data_size mem
         then Some (memory_data mem + ucast offset1) else None)"

definition check_bulk_memory_overflow :: "WASMMemoryInstance \<Rightarrow> u32 \<Rightarrow> u64 \<Rightarrow> u32 option" where
  "check_bulk_memory_overflow mem start bytes =
     (let offset1 = (ucast start :: u64)
      in if offset1 + bytes \<le> memory_data_size mem
         then Some (memory_data mem + ucast offset1) else None)"

definition oob :: string where "oob = ''out of bounds memory access''"

lemma unat_ucast_u64 [simp]: "unat (ucast (x :: u32) :: u64) = unat x"
  using unat_u32_less [of x] by (simp add: unsigned_ucast_eq take_bit_nat_eq_self)

lemma unat_ucast_u32:
  "unat x < 2 ^ 32 \<Longrightarrow> unat (ucast (x :: u64) :: u32) = unat x"
  by (simp add: unsigned_ucast_eq take_bit_nat_eq_self)

lemma ucast_u64_u32 [simp]: "(ucast (ucast (x :: u32) :: u64) :: u32) = x"
  by (rule bit_word_eqI) (simp add: bit_simps)

lemma unat_ea: "unat ((ucast (x :: u32) :: u64) + ucast (y :: u32)) = unat x + unat y"
  using unat_u32_less [of x] unat_u32_less [of y] by (simp add: unat_word_ariths)

lemma unat_add_u64:
  fixes a b :: u64
  assumes "unat a + unat b < 2 ^ 64"
  shows "unat (a + b) = unat a + unat b"
  using assms by (simp add: unat_word_ariths)

text \<open>An offset inside the memory gives the address with the same distance from the base.\<close>

lemma lm_ok_address:
  assumes "lm_ok mem" "unat (o1 :: u64) \<le> lin_size mem"
  shows "memory_data mem + ucast o1 = memory_data mem + of_nat (unat o1)"
    "unat (memory_data mem + ucast o1) = unat (memory_data mem) + unat o1"
proof -
  show e: "memory_data mem + ucast o1 = memory_data mem + of_nat (unat o1)" by simp
  show "unat (memory_data mem + ucast o1) = unat (memory_data mem) + unat o1"
    unfolding e using assms by (intro unat_add_small) (simp add: lm_ok_def lin_size_def)
qed

lemma lm_ok_size: "lm_ok mem \<Longrightarrow> lin_size mem < 2 ^ 32"
  by (simp add: lm_ok_def lin_size_def)

lemma length_lin_bytes [simp]: "length (lin_bytes m mem) = lin_size mem"
  by (simp add: lin_bytes_def)

lemma check_memory_overflow_eq:
  assumes "lm_ok mem" "n \<le> 2 ^ 32"
  shows "check_memory_overflow mem offset addr n =
    (if unat offset + unat addr + n \<le> lin_size mem
     then Some (memory_data mem + of_nat (unat offset + unat addr)) else None)"
proof -
  let ?o1 = "(ucast offset :: u64) + ucast addr"
  have "unat (of_nat n :: u64) = n" using assms(2) by (simp add: unat_of_nat)
  then have "unat (?o1 + of_nat n) = unat offset + unat addr + n"
    using unat_u32_less [of offset] unat_u32_less [of addr] assms(2)
    by (subst unat_add_u64) (simp_all add: unat_ea)
  then show ?thesis
    using lm_ok_address(1) [OF assms(1), of ?o1]
    by (auto simp: check_memory_overflow_def Let_def word_le_nat_alt unat_ea lin_size_def)
qed

lemma check_bulk_memory_overflow_eq:
  assumes "lm_ok mem" "unat n \<le> 2 ^ 32"
  shows "check_bulk_memory_overflow mem start n =
    (if unat start + unat n \<le> lin_size mem
     then Some (memory_data mem + of_nat (unat start)) else None)"
proof -
  have "unat ((ucast start :: u64) + n) = unat start + unat n"
    using unat_u32_less [of start] assms(2) by (subst unat_add_u64) simp_all
  then show ?thesis
    using lm_ok_address(1) [OF assms(1), of "ucast start"]
    by (auto simp: check_bulk_memory_overflow_def Let_def word_le_nat_alt lin_size_def)
qed

section \<open>Loads and stores\<close>

definition load_bytes ::
  "cmem \<Rightarrow> WASMMemoryInstance \<Rightarrow> u32 \<Rightarrow> u32 \<Rightarrow> nat \<Rightarrow> string + u8 list" where
  "load_bytes m mem offset addr n =
     (case check_memory_overflow mem offset addr n of
        None \<Rightarrow> Inl oob | Some maddr \<Rightarrow> Inr (cbytes m maddr n))"

definition store_bytes ::
  "cmem \<Rightarrow> WASMMemoryInstance \<Rightarrow> u32 \<Rightarrow> u32 \<Rightarrow> u8 list \<Rightarrow> string + cmem" where
  "store_bytes m mem offset addr bs =
     (case check_memory_overflow mem offset addr (length bs) of
        None \<Rightarrow> Inl oob | Some maddr \<Rightarrow> Inr (mem_put m maddr bs))"

definition sign_ext_8_32 :: "u8 \<Rightarrow> u32" where
  "sign_ext_8_32 v = (if v AND 0x80 \<noteq> 0 then scast v OR 0xffffff00 else scast v)"

definition sign_ext_16_32 :: "u16 \<Rightarrow> u32" where
  "sign_ext_16_32 v = (if v AND 0x8000 \<noteq> 0 then scast v OR 0xffff0000 else scast v)"

definition sign_ext_8_64 :: "u8 \<Rightarrow> u64" where
  "sign_ext_8_64 v = (if v AND 0x80 \<noteq> 0 then scast v OR 0xffffffffffffff00 else scast v)"

definition sign_ext_16_64 :: "u16 \<Rightarrow> u64" where
  "sign_ext_16_64 v = (if v AND 0x8000 \<noteq> 0 then scast v OR 0xffffffffffff0000 else scast v)"

definition sign_ext_32_64 :: "u32 \<Rightarrow> u64" where
  "sign_ext_32_64 v = (if v AND 0x80000000 \<noteq> 0 then scast v OR 0xffffffff00000000 else scast v)"

text \<open>The loads: the number of bytes each opcode reads, and what it pushes for them. A 64-bit value is
  two cells, the low half below.\<close>

definition cells_of_u64 :: "u64 \<Rightarrow> u32 list" where
  "cells_of_u64 v = [ucast (drop_bit 32 v), ucast v]"

definition load_handler :: "u8 \<Rightarrow> (nat \<times> (u8 list \<Rightarrow> u32 list)) option" where
  "load_handler opcode =
     (if opcode = 0x28 \<or> opcode = 0x2a then Some (4, \<lambda>bs. [le_word bs])
      else if opcode = 0x29 \<or> opcode = 0x2b then Some (8, \<lambda>bs. cells_of_u64 (le_word bs))
      else if opcode = 0x2c then Some (1, \<lambda>bs. [sign_ext_8_32 (le_word bs)])
      else if opcode = 0x2d then Some (1, \<lambda>bs. [ucast (le_word bs :: u8)])
      else if opcode = 0x2e then Some (2, \<lambda>bs. [sign_ext_16_32 (le_word bs)])
      else if opcode = 0x2f then Some (2, \<lambda>bs. [ucast (le_word bs :: u16)])
      else if opcode = 0x30 then Some (1, \<lambda>bs. cells_of_u64 (sign_ext_8_64 (le_word bs)))
      else if opcode = 0x31 then Some (1, \<lambda>bs. cells_of_u64 (ucast (le_word bs :: u8)))
      else if opcode = 0x32 then Some (2, \<lambda>bs. cells_of_u64 (sign_ext_16_64 (le_word bs)))
      else if opcode = 0x33 then Some (2, \<lambda>bs. cells_of_u64 (ucast (le_word bs :: u16)))
      else if opcode = 0x34 then Some (4, \<lambda>bs. cells_of_u64 (sign_ext_32_64 (le_word bs)))
      else if opcode = 0x35 then Some (4, \<lambda>bs. cells_of_u64 (ucast (le_word bs :: u32)))
      else None)"

text \<open>The stores: whether the value has two cells, and the number of its low bytes that are written.\<close>

definition store_handler :: "u8 \<Rightarrow> (bool \<times> nat) option" where
  "store_handler opcode =
     (if opcode = 0x36 \<or> opcode = 0x38 then Some (False, 4)
      else if opcode = 0x37 \<or> opcode = 0x39 then Some (True, 8)
      else if opcode = 0x3a then Some (False, 1)
      else if opcode = 0x3b then Some (False, 2)
      else if opcode = 0x3c then Some (True, 1)
      else if opcode = 0x3d then Some (True, 2)
      else if opcode = 0x3e then Some (True, 4)
      else None)"

lemma sign_ext_eq_scast:
  "sign_ext_8_32 b = scast b" "sign_ext_16_32 h = scast h"
  "sign_ext_8_64 b = scast b" "sign_ext_16_64 h = scast h" "sign_ext_32_64 w = scast w"
proof -
  have m: "(0x80 :: u8) = 2 ^ 7" "(0x8000 :: u16) = 2 ^ 15" "(0x80000000 :: u32) = 2 ^ 31"
    "(0xffffff00 :: u32) = NOT (mask 8)" "(0xffff0000 :: u32) = NOT (mask 16)"
    "(0xffffffffffffff00 :: u64) = NOT (mask 8)" "(0xffffffffffff0000 :: u64) = NOT (mask 16)"
    "(0xffffffff00000000 :: u64) = NOT (mask 32)"
    by (simp_all add: mask_eq_exp_minus_1)
  show "sign_ext_8_32 b = scast b" "sign_ext_16_32 h = scast h"
    "sign_ext_8_64 b = scast b" "sign_ext_16_64 h = scast h" "sign_ext_32_64 w = scast w"
    unfolding sign_ext_8_32_def sign_ext_16_32_def sign_ext_8_64_def sign_ext_16_64_def
      sign_ext_32_64_def m and_exp_eq_0_iff_not_bit
    by (auto intro!: bit_word_eqI simp: bit_simps min_def)
qed


section \<open>The contract of a linear memory\<close>

text \<open>What the instructions need of a memory: its size, its bytes, a read and a write that fail
  outside the size. The laws say that the read returns the bytes and that the write changes
  exactly the bytes it is given.\<close>

locale byte_store =
  fixes inv :: "'s \<Rightarrow> bool"
    and sz :: "'s \<Rightarrow> nat"
    and content :: "'s \<Rightarrow> u8 list"
    and rd :: "'s \<Rightarrow> nat \<Rightarrow> nat \<Rightarrow> u8 list option"
    and wr :: "'s \<Rightarrow> nat \<Rightarrow> u8 list \<Rightarrow> 's option"
  assumes content_length: "inv s \<Longrightarrow> length (content s) = sz s"
    and rd_law: "inv s \<Longrightarrow>
      rd s a n = (if a + n \<le> sz s then Some (take n (drop a (content s))) else None)"
    and wr_ok: "inv s \<Longrightarrow> a + length bs \<le> sz s \<Longrightarrow> wr s a bs \<noteq> None"
    and wr_law: "inv s \<Longrightarrow> wr s a bs = Some s' \<Longrightarrow> a + length bs \<le> sz s \<and> inv s' \<and>
      content s' = take a (content s) @ bs @ drop (a + length bs) (content s)"
begin

lemma wr_sz: "inv s \<Longrightarrow> wr s a bs = Some s' \<Longrightarrow> sz s' = sz s"
  using wr_law [of s a bs s'] content_length [of s] content_length [of s'] by simp

lemma wr_None_iff: "inv s \<Longrightarrow> wr s a bs = None \<longleftrightarrow> sz s < a + length bs"
  using wr_ok [of s a bs] wr_law [of s a bs] by fastforce

lemma rd_after_wr:
  assumes "inv s" "wr s a bs = Some s'"
  shows "rd s' a (length bs) = Some bs"
proof -
  have "inv s'" "a + length bs \<le> sz s'" "a \<le> length (content s)"
    using wr_law [OF assms] wr_sz [OF assms] content_length [OF assms(1)] by simp_all
  then show ?thesis using wr_law [OF assms] by (simp add: rd_law)
qed

lemma rd_after_wr_other:
  assumes "inv s" "wr s a bs = Some s'" "b + n \<le> a \<or> a + length bs \<le> b"
  shows "rd s' b n = rd s b n"
proof -
  note w = wr_law [OF assms(1,2)] and c = content_length [OF assms(1)]
  have l: "length (content s') = length (content s)" using w c by simp
  have "take n (drop b (content s')) = take n (drop b (content s))" if le: "b + n \<le> sz s"
  proof (rule nth_equalityI)
    fix i
    assume "i < length (take n (drop b (content s')))"
    then have "i < n" by simp
    then show "take n (drop b (content s')) ! i = take n (drop b (content s)) ! i"
      using assms(3) w c le by (auto simp: nth_append)
  qed (simp add: l)
  then show ?thesis using w wr_sz [OF assms(1,2)] assms(1) by (simp add: rd_law)
qed

lemma wr_wr_same:
  assumes "inv s" "wr s a bs = Some s1" "wr s1 a cs = Some s2" "length cs = length bs"
  shows "wr s a cs \<noteq> None" "\<And>s'. wr s a cs = Some s' \<Longrightarrow> content s' = content s2"
proof -
  note w1 = wr_law [OF assms(1,2)]
  have i1: "inv s1" using w1 by blast
  note w2 = wr_law [OF i1 assms(3)]
  show "wr s a cs \<noteq> None" using w1 assms(1,4) by (intro wr_ok) simp_all
  have l: "a \<le> length (content s)" using w1 content_length [OF assms(1)] by simp
  show "content s' = content s2" if "wr s a cs = Some s'" for s'
    using wr_law [OF assms(1) that] w1 w2 l assms(4) by simp
qed

text \<open>A word written is the word read, at every width.\<close>

lemma rd_word_after_wr:
  fixes v :: "'w::len word"
  assumes "inv s" "wr s a (word_bytes n v) = Some s'" "LENGTH('w) \<le> 8 * n"
  shows "map_option (\<lambda>bs. le_word bs) (rd s' a n) = Some v"
  using rd_after_wr [OF assms(1,2)] assms(3) by simp

end

text \<open>The model provides the contract: the state is the chip's memory with the instance.\<close>

definition lm_rd :: "cmem \<times> WASMMemoryInstance \<Rightarrow> nat \<Rightarrow> nat \<Rightarrow> u8 list option" where
  "lm_rd s a n =
     (case check_memory_overflow (snd s) 0 (of_nat a) n of
        None \<Rightarrow> None
      | Some maddr \<Rightarrow> if a < 2 ^ 32 \<and> n \<le> 2 ^ 32 then Some (cbytes (fst s) maddr n) else None)"

definition lm_wr ::
  "cmem \<times> WASMMemoryInstance \<Rightarrow> nat \<Rightarrow> u8 list \<Rightarrow> (cmem \<times> WASMMemoryInstance) option" where
  "lm_wr s a bs =
     (case check_memory_overflow (snd s) 0 (of_nat a) (length bs) of
        None \<Rightarrow> None
      | Some maddr \<Rightarrow> if a < 2 ^ 32 \<and> length bs \<le> 2 ^ 32
                     then Some (mem_put (fst s) maddr bs, snd s) else None)"

lemma lin_bytes_put:
  assumes "lm_ok mem" "k + length bs \<le> lin_size mem"
  shows "lin_bytes (mem_put m (memory_data mem + of_nat k) bs) mem =
    take k (lin_bytes m mem) @ bs @ drop (k + length bs) (lin_bytes m mem)"
proof -
  have b: "unat (memory_data mem) + lin_size mem < 2 ^ 32" using assms(1) by (simp add: lm_ok_def lin_size_def)
  then have u: "unat (memory_data mem + of_nat k) = unat (memory_data mem) + k"
    using assms(2) by (intro unat_add_small) linarith
  have "unat (memory_data mem + of_nat k) + length bs \<le> 2 ^ 32" using u b assms(2) by linarith
  moreover have "unat (memory_data mem) + lin_size mem \<le> 2 ^ 32" using b by linarith
  ultimately show ?thesis unfolding lin_bytes_def
    by (subst cbytes_mem_put)
      (use assms(2) in \<open>auto intro!: nth_equalityI simp: u nth_append add.assoc\<close>)
qed

lemma lm_rd_eq:
  assumes "lm_ok (snd s)"
  shows "lm_rd s a n = (if a + n \<le> lin_size (snd s)
    then Some (take n (drop a (lin_bytes (fst s) (snd s)))) else None)"
proof (cases "a < 2 ^ 32 \<and> n \<le> 2 ^ 32")
  case True
  then have "unat (of_nat a :: u32) = a" by (simp add: unat_of_nat)
  then show ?thesis using True check_memory_overflow_eq [OF assms, of n 0 "of_nat a"]
    by (auto simp: lm_rd_def lin_bytes_def take_drop_cbytes)
next
  case False
  then show ?thesis using lm_ok_size [OF assms] by (auto simp: lm_rd_def split: option.splits)
qed

lemma lm_wr_eq:
  assumes "lm_ok (snd s)"
  shows "lm_wr s a bs = (if a + length bs \<le> lin_size (snd s)
    then Some (mem_put (fst s) (memory_data (snd s) + of_nat a) bs, snd s) else None)"
proof (cases "a < 2 ^ 32 \<and> length bs \<le> 2 ^ 32")
  case True
  then have "unat (of_nat a :: u32) = a" by (simp add: unat_of_nat)
  then show ?thesis using True check_memory_overflow_eq [OF assms, of "length bs" 0 "of_nat a"]
    by (auto simp: lm_wr_def)
next
  case False
  then show ?thesis using lm_ok_size [OF assms] by (auto simp: lm_wr_def split: option.splits)
qed

interpretation lm: byte_store "\<lambda>s. lm_ok (snd s)" "\<lambda>s. lin_size (snd s)"
  "\<lambda>s. lin_bytes (fst s) (snd s)" lm_rd lm_wr
  by unfold_locales (auto simp: lm_rd_eq lm_wr_eq lin_bytes_put split: if_splits)

text \<open>The instructions are reads and writes at the effective address.\<close>

lemma load_bytes_rd:
  assumes "lm_ok mem" "n \<le> 2 ^ 32"
  shows "load_bytes m mem offset addr n =
    (case lm_rd (m, mem) (unat offset + unat addr) n of None \<Rightarrow> Inl oob | Some bs \<Rightarrow> Inr bs)"
  using assms by (simp add: load_bytes_def check_memory_overflow_eq lm_rd_eq lin_bytes_def take_drop_cbytes)

lemma store_bytes_wr:
  assumes "lm_ok mem" "length bs \<le> 2 ^ 32"
  shows "store_bytes m mem offset addr bs =
    (case lm_wr (m, mem) (unat offset + unat addr) bs of None \<Rightarrow> Inl oob | Some s' \<Rightarrow> Inr (fst s'))"
  using assms by (simp add: store_bytes_def check_memory_overflow_eq lm_wr_eq)

text \<open>C15: a load reads exactly the bytes at the effective address, the sum of the immediate and the
  operand without wrap-around, and a store replaces exactly those bytes of the linear memory and
  no other byte of the chip's memory; when the access does not lie within the memory in full both
  trap and nothing is read or written.\<close>

theorem load_store_bytes_spec:
  assumes "lm_ok mem" "n \<le> 2 ^ 32" "length bs \<le> 2 ^ 32"
  shows "load_bytes m mem offset addr n =
      (if unat offset + unat addr + n \<le> lin_size mem
       then Inr (take n (drop (unat offset + unat addr) (lin_bytes m mem))) else Inl oob) \<and>
    (if unat offset + unat addr + length bs \<le> lin_size mem
     then \<exists>m'. store_bytes m mem offset addr bs = Inr m' \<and>
       lin_bytes m' mem = take (unat offset + unat addr) (lin_bytes m mem) @ bs @
         drop (unat offset + unat addr + length bs) (lin_bytes m mem) \<and>
       (\<forall>a. \<not> (memory_data mem \<le> a \<and> a < memory_data_end mem) \<longrightarrow> m' a = m a)
     else store_bytes m mem offset addr bs = Inl oob)"
proof -
  let ?ea = "unat offset + unat addr"
  let ?p = "memory_data mem + of_nat ?ea"
  have frame: "mem_put m ?p bs a = m a"
    if le: "?ea + length bs \<le> lin_size mem" and out: "\<not> (memory_data mem \<le> a \<and> a < memory_data_end mem)" for a
  proof -
    have b: "unat (memory_data mem) + lin_size mem < 2 ^ 32" using assms(1) by (simp add: lm_ok_def lin_size_def)
    have u: "unat ?p = unat (memory_data mem) + ?ea" using b le by (intro unat_add_small) linarith
    have "unat (memory_data_end mem) = unat (memory_data mem) + lin_size mem"
      using lm_ok_address(2) [OF assms(1), of "memory_data_size mem"] assms(1)
      by (simp add: lm_ok_def lin_size_def)
    then have "\<not> (unat ?p \<le> unat a \<and> unat a < unat ?p + length bs)"
      using out le u by (auto simp: word_le_nat_alt word_less_nat_alt)
    moreover have "unat ?p + length bs \<le> 2 ^ 32" using u b le by linarith
    ultimately show ?thesis by (simp only: mem_put_nat) simp
  qed
  show ?thesis
    using frame load_bytes_rd [OF assms(1,2)] store_bytes_wr [OF assms(1,3)] lin_bytes_put [OF assms(1), of ?ea]
    by (simp add: lm_rd_eq lm_wr_eq assms(1))
qed

theorem load_store_bytes_spec_witness:
  "\<exists>mem. load_bytes (\<lambda>_. 0) mem 8 7 2 = Inl oob \<and> lin_size mem = 16"
proof -
  let ?mem = "\<lparr>is_shared_memory = False, num_bytes_per_page = 16, cur_page_count = 1,
    max_page_count = 1, memory_data_size = 16, memory_data = 0x1000, memory_data_end = 0x1010,
    heap_data = 0x1000, heap_data_end = 0x1000, mem_bound_check_1byte = 0, mem_bound_check_2bytes = 0,
    mem_bound_check_4bytes = 0, mem_bound_check_8bytes = 0, mem_bound_check_16bytes = 0\<rparr>"
  have "lm_ok ?mem" "lin_size ?mem = 16" by (simp_all add: lm_ok_def lin_size_def)
  with load_store_bytes_spec [of ?mem 2 "[]" "\<lambda>_. 0" 8 7] show ?thesis by auto
qed

definition u64_of_cells :: "u32 list \<Rightarrow> u64" where
  "u64_of_cells cs = push_bit 32 (ucast (cs ! 0)) OR ucast (cs ! 1)"

definition exec_load ::
  "u8 \<Rightarrow> cmem \<Rightarrow> WASMMemoryInstance \<Rightarrow> u32 \<Rightarrow> u32 \<Rightarrow> string + u32 list" where
  "exec_load opcode m mem offset addr =
     (case load_handler opcode of
        None \<Rightarrow> Inl ''unsupported opcode''
      | Some (n, f) \<Rightarrow> bindE (load_bytes m mem offset addr n) (\<lambda>bs. Inr (f bs)))"

definition exec_store ::
  "u8 \<Rightarrow> cmem \<Rightarrow> WASMMemoryInstance \<Rightarrow> u32 \<Rightarrow> u32 \<Rightarrow> u32 list \<Rightarrow> string + cmem" where
  "exec_store opcode m mem offset addr cs =
     (case store_handler opcode of
        None \<Rightarrow> Inl ''unsupported opcode''
      | Some (two, n) \<Rightarrow>
          store_bytes m mem offset addr
            (if two then word_bytes n (u64_of_cells cs) else word_bytes n (cs ! 0)))"

lemma u64_of_cells_of_u64 [simp]: "u64_of_cells (cells_of_u64 v) = v"
  by (rule bit_word_eqI) (auto simp: u64_of_cells_def cells_of_u64_def bit_simps)

lemma load_after_store_bytes:
  assumes "lm_ok mem" "store_bytes m mem offset addr bs = Inr m'" "length bs \<le> 2 ^ 32"
  shows "load_bytes m' mem offset addr (length bs) = Inr bs"
proof -
  obtain s' where s': "lm_wr (m, mem) (unat offset + unat addr) bs = Some s'" "m' = fst s'"
    using assms store_bytes_wr [OF assms(1,3), of m offset addr] by (auto split: option.splits)
  have "snd s' = mem" using s'(1) assms(1) by (auto simp: lm_wr_eq split: if_splits)
  then show ?thesis
    using lm.rd_after_wr [OF _ s'(1)] s'(2) load_bytes_rd [OF assms(1,3), of m' offset addr] assms(1)
    by (cases s') simp
qed

lemma le_word_bytes_narrow:
  fixes v :: "'a::len word"
  assumes "LENGTH('b) = 8 * n" "LENGTH('b) \<le> LENGTH('a)"
  shows "(le_word (word_bytes n v) :: 'b::len word) = ucast v"
proof -
  have "word_bytes n v = word_bytes n (ucast v :: 'b word)"
    unfolding word_bytes_def
  proof (rule map_cong)
    fix i
    assume "i \<in> set [0..<n]"
    then have "8 * i + 8 \<le> LENGTH('b)" using assms(1) by simp
    then show "(ucast (drop_bit (8 * i) v) :: u8) = ucast (drop_bit (8 * i) (ucast v :: 'b word))"
      by (intro bit_word_eqI) (auto simp: bit_simps)
  qed simp
  then show ?thesis using assms(1) by simp
qed

lemma exec_load_store:
  assumes "lm_ok mem" "exec_store st m mem offset addr cs = Inr m'"
    and "store_handler st = Some (two, n)" "load_handler ld = Some (n, f)"
  shows "exec_load ld m' mem offset addr =
    Inr (f (if two then word_bytes n (u64_of_cells cs) else word_bytes n (cs ! 0)))"
proof -
  let ?bs = "if two then word_bytes n (u64_of_cells cs) else word_bytes n (cs ! 0)"
  have n: "n \<le> 8" using assms(3) by (auto simp: store_handler_def split: if_splits)
  have st: "store_bytes m mem offset addr ?bs = Inr m'" and l: "length ?bs = n"
    using assms(2,3) by (simp_all add: exec_store_def)
  have "load_bytes m' mem offset addr n = Inr ?bs"
    using load_after_store_bytes [OF assms(1) st] l n by simp
  then show ?thesis using assms(4) by (simp add: exec_load_def)
qed

text \<open>C29: a value stored and loaded again at the same address comes back: whole for the full-width pairs,
  and for the narrow ones as its low bits, extended with zeros or with the sign as the load says.\<close>

theorem store_load_roundtrip:
  assumes "lm_ok mem" "exec_store st m mem offset addr cs = Inr m'"
  shows "(st = 0x36 \<longrightarrow> exec_load 0x28 m' mem offset addr = Inr [cs ! 0]) \<and>
    (st = 0x37 \<longrightarrow> exec_load 0x29 m' mem offset addr = Inr (cells_of_u64 (u64_of_cells cs))) \<and>
    (st = 0x3a \<longrightarrow> exec_load 0x2d m' mem offset addr = Inr [ucast (ucast (cs ! 0) :: u8)] \<and>
           exec_load 0x2c m' mem offset addr = Inr [scast (ucast (cs ! 0) :: u8)]) \<and>
    (st = 0x3b \<longrightarrow> exec_load 0x2f m' mem offset addr = Inr [ucast (ucast (cs ! 0) :: u16)] \<and>
           exec_load 0x2e m' mem offset addr = Inr [scast (ucast (cs ! 0) :: u16)]) \<and>
    (st = 0x3c \<longrightarrow> exec_load 0x31 m' mem offset addr =
             Inr (cells_of_u64 (ucast (ucast (u64_of_cells cs) :: u8))) \<and>
           exec_load 0x30 m' mem offset addr =
             Inr (cells_of_u64 (scast (ucast (u64_of_cells cs) :: u8)))) \<and>
    (st = 0x3d \<longrightarrow> exec_load 0x33 m' mem offset addr =
             Inr (cells_of_u64 (ucast (ucast (u64_of_cells cs) :: u16))) \<and>
           exec_load 0x32 m' mem offset addr =
             Inr (cells_of_u64 (scast (ucast (u64_of_cells cs) :: u16)))) \<and>
    (st = 0x3e \<longrightarrow> exec_load 0x35 m' mem offset addr =
             Inr (cells_of_u64 (ucast (ucast (u64_of_cells cs) :: u32))) \<and>
           exec_load 0x34 m' mem offset addr =
             Inr (cells_of_u64 (scast (ucast (u64_of_cells cs) :: u32))))"
proof -
  note rt = exec_load_store [OF assms]
  note simps = store_handler_def load_handler_def le_word_bytes_narrow sign_ext_eq_scast
  show ?thesis
    by (intro conjI impI; simp add: rt [of False 4] rt [of True 8] rt [of False 1] rt [of False 2]
        rt [of True 1] rt [of True 2] rt [of True 4] simps)
qed

text \<open>A memory of one page for the examples.\<close>

definition tiny_memory :: WASMMemoryInstance where
  "tiny_memory = \<lparr>is_shared_memory = False, num_bytes_per_page = 65536, cur_page_count = 1,
    max_page_count = 65536, memory_data_size = 65536, memory_data = 0x40800000,
    memory_data_end = 0x40810000, heap_data = 0x40810000, heap_data_end = 0x40810000,
    mem_bound_check_1byte = 0, mem_bound_check_2bytes = 0, mem_bound_check_4bytes = 0,
    mem_bound_check_8bytes = 0, mem_bound_check_16bytes = 0\<rparr>"

theorem store_load_roundtrip_witness:
  "\<exists>m'. exec_store 0x36 (\<lambda>_. 0) tiny_memory 0 16 [42] = Inr m' \<and>
     exec_load 0x28 m' tiny_memory 0 16 = Inr [42]"
proof -
  have ok: "lm_ok tiny_memory" by (simp add: lm_ok_def tiny_memory_def)
  then obtain m' where "exec_store 0x36 (\<lambda>_. 0) tiny_memory 0 16 [42] = Inr m'"
    by (simp add: exec_store_def store_handler_def store_bytes_def check_memory_overflow_eq)
      (simp add: tiny_memory_def lin_size_def)
  with store_load_roundtrip [OF ok this] show ?thesis by simp
qed

end
