(* ===== verification/Memory_Api.thy ===== *)
theory Memory_Api
  imports Linear_Memory
begin

text \<open>
  Growing a linear memory, the bulk memory instructions, and the checks and conversions that
  native functions apply to the addresses an application passes them
  (\<^verbatim>\<open>common/wasm_memory.c\<close>, \<^verbatim>\<open>shared/utils/bh_common.c\<close>, \<^verbatim>\<open>wasm_interp_classic.c\<close>).

  The allocator under \<open>os_mremap\<close> is the parameter of the platform layer; the migration of the
  application heap that may live inside the memory is a parameter too.
\<close>

section \<open>Growing\<close>

definition wasm_runtime_set_mem_bound_check_bytes ::
  "WASMMemoryInstance \<Rightarrow> u64 \<Rightarrow> WASMMemoryInstance" where
  "wasm_runtime_set_mem_bound_check_bytes memory sz = memory
     \<lparr>mem_bound_check_1byte := ucast sz - 1,
      mem_bound_check_2bytes := ucast sz - 2,
      mem_bound_check_4bytes := ucast sz - 4,
      mem_bound_check_8bytes := ucast sz - 8,
      mem_bound_check_16bytes := ucast sz - 16\<rparr>"

definition wasm_mremap_linear_memory ::
  "(bool \<Rightarrow> u32 \<Rightarrow> u32) \<Rightarrow> cmem \<Rightarrow> u32 \<Rightarrow> u64 \<Rightarrow> u64 \<Rightarrow> cmem \<times> u32" where
  "wasm_mremap_linear_memory hcm m mapped_mem old_size new_size =
     (if mapped_mem \<noteq> 0 then os_mremap hcm m mapped_mem (ucast old_size) (ucast new_size)
      else os_mmap hcm m (ucast new_size) False)"

definition set_memory_size :: "WASMMemoryInstance \<Rightarrow> u32 \<Rightarrow> u64 \<Rightarrow> WASMMemoryInstance" where
  "set_memory_size memory total_page_count total_size_new =
     (let memory = memory\<lparr>cur_page_count := total_page_count, memory_data_size := total_size_new,
            memory_data_end := memory_data memory + ucast total_size_new\<rparr>
      in wasm_runtime_set_mem_bound_check_bytes memory total_size_new)"

definition wasm_enlarge_memory_internal ::
  "(bool \<Rightarrow> u32 \<Rightarrow> u32) \<Rightarrow> (cmem \<Rightarrow> u32 \<Rightarrow> u32 \<Rightarrow> cmem \<times> bool) \<Rightarrow> bool \<Rightarrow> cmem \<Rightarrow>
     WASMMemoryInstance \<Rightarrow> u32 \<Rightarrow> (cmem \<times> WASMMemoryInstance) \<times> bool" where
  "wasm_enlarge_memory_internal hcm migrate heap_corrupted m memory inc_page_count =
     (let memory_data_old = memory_data memory;
          total_size_old = memory_data_size memory;
          heap_data_old = heap_data memory;
          heap_size = heap_data_end memory - heap_data memory;
          cur_pages = cur_page_count memory;
          total_page_count = inc_page_count + cur_pages;
          total_size_new = ucast (num_bytes_per_page memory) * ucast total_page_count
      in if inc_page_count \<le> 0 then ((m, memory), True)
         else if total_page_count < cur_pages then ((m, memory), False)
         else if total_page_count > max_page_count memory then ((m, memory), False)
         else if is_shared_memory memory then
           ((m, set_memory_size memory total_page_count total_size_new), True)
         else if heap_size > 0 \<and> heap_corrupted then ((m, memory), False)
         else let (m, memory_data_new) =
                    wasm_mremap_linear_memory hcm m memory_data_old total_size_old total_size_new
              in if memory_data_new = 0 then ((m, memory), False)
                 else let (m, ret) =
                            (if heap_size > 0
                             then migrate m (heap_data_old + (memory_data_new - memory_data_old)) heap_size
                             else (m, True));
                          new_heap = memory_data_new + (heap_data_old - memory_data_old);
                          memory = memory\<lparr>heap_data := new_heap, heap_data_end := new_heap + heap_size,
                            memory_data := memory_data_new\<rparr>
                      in ((m, set_memory_size memory total_page_count total_size_new), ret))"

text \<open>The instruction \<open>memory.grow\<close>: what it pushes is the last component.\<close>

definition exec_memory_grow ::
  "(bool \<Rightarrow> u32 \<Rightarrow> u32) \<Rightarrow> (cmem \<Rightarrow> u32 \<Rightarrow> u32 \<Rightarrow> cmem \<times> bool) \<Rightarrow> bool \<Rightarrow> cmem \<Rightarrow>
     WASMMemoryInstance \<Rightarrow> u32 \<Rightarrow> (cmem \<times> WASMMemoryInstance) \<times> u32" where
  "exec_memory_grow hcm migrate heap_corrupted m memory delta =
     (let prev_page_count = cur_page_count memory;
          (s, ok) = wasm_enlarge_memory_internal hcm migrate heap_corrupted m memory delta
      in (s, if ok then prev_page_count else - 1))"

text \<open>What the platform gives back when it moves a memory: the old bytes followed by zeros.\<close>

lemma os_mremap_grow:
  fixes hcm :: "bool \<Rightarrow> u32 \<Rightarrow> u32"
  assumes "block_ok b (unat new + 8)" "hcm False (new + 8) = b" "old_size \<le> new"
    and "unat p + unat old_size \<le> 2 ^ 32"
    and "unat b + (unat new + 8) \<le> unat p \<or> unat p + unat old_size \<le> unat b"
  shows "\<exists>m' q. os_mremap hcm m p old_size new = (m', q) \<and> q \<noteq> 0 \<and>
    unat q + unat new < 2 ^ 32 \<and>
    cbytes m' q (unat new) = cbytes m p (unat old_size) @ replicate (unat new - unat old_size) 0"
proof -
  let ?q = "b + of_nat (fixed_offset b)"
  let ?z = "replicate (unat new) (0 :: u8)"
  let ?m1 = "store_u32 m (?q - 4) b"
  let ?m2 = "mem_put ?m1 ?q ?z"
  have n8: "8 \<le> unat new + 8" by simp
  note f = fixed_block [OF assms(1) n8]
  have bs: "unat b + unat new + 8 < 2 ^ 32" using assms(1) unfolding block_ok_def by linarith
  have qs: "unat ?q + unat new < 2 ^ 32" using f(5) bs by linarith
  have le: "unat old_size \<le> unat new" using assms(3) by (simp add: word_le_nat_alt)
  have mm: "os_mmap hcm m new False = (?m2, ?q)"
    by (rule os_mmap_eq [OF assms(1) n8]) (simp add: assms(2) add.assoc)
  have zl: "unat ?q + length ?z \<le> 2 ^ 32" using qs by simp
  have "cbytes ?m2 p (unat old_size) = cbytes ?m1 p (unat old_size)"
    using f(2,3,5) assms(5) by (intro cbytes_mem_put_disjoint [OF zl assms(4)]) auto
  also have "\<dots> = cbytes m p (unat old_size)"
    unfolding store_u32_def using f(2,3,5,8) assms(5)
    by (intro cbytes_mem_put_disjoint [OF _ assms(4)]) auto
  finally have old: "cbytes ?m2 p (unat old_size) = cbytes m p (unat old_size)" .
  have sz: "(if new < old_size then new else old_size) = old_size" using assms(3) by auto
  have r: "os_mremap hcm m p old_size new = (mem_put ?m2 ?q (cbytes m p (unat old_size)), ?q)"
    using f(7) by (simp add: os_mremap_def mm sz old del: of_nat_unat)
  have c2: "cbytes ?m2 ?q (unat new) = ?z" using cbytes_mem_put_same [OF zl] by simp
  have "cbytes (mem_put ?m2 ?q (cbytes m p (unat old_size))) ?q (unat new) =
      cbytes m p (unat old_size) @ replicate (unat new - unat old_size) 0"
    by (subst cbytes_mem_put)
      (use qs le in \<open>auto intro!: nth_equalityI simp: nth_append c2 simp del: cbytes_mem_put_same\<close>)
  with r f(7) qs show ?thesis by blast
qed

text \<open>The well-formedness of an instance with whole pages, and the contract of the allocator for one
  request: no block, or a block of the size asked for that does not overlap the memory.\<close>

definition pages_ok :: "WASMMemoryInstance \<Rightarrow> bool" where
  "pages_ok mem \<longleftrightarrow> lm_ok mem \<and> memory_data mem \<noteq> 0 \<and>
     lin_size mem = unat (num_bytes_per_page mem) * unat (cur_page_count mem)"

definition fresh_block :: "WASMMemoryInstance \<Rightarrow> u32 \<Rightarrow> nat \<Rightarrow> bool" where
  "fresh_block mem b n \<longleftrightarrow> b = 0 \<or> block_ok b n \<and>
     (unat b + n \<le> unat (memory_data mem) \<or> unat (memory_data mem) + lin_size mem \<le> unat b)"

definition grown_size :: "WASMMemoryInstance \<Rightarrow> u32 \<Rightarrow> nat" where
  "grown_size mem inc = unat (num_bytes_per_page mem) * (unat inc + unat (cur_page_count mem))"

lemma add_no_wrap_iff:
  fixes a b c :: u32
  shows "\<not> (a + b < b \<or> a + b > c) \<longleftrightarrow> unat a + unat b \<le> unat c"
  using ptr_check_iff [of b a c] by (simp add: add.commute)

lemma grown_size_u64:
  assumes "unat inc + unat (cur_page_count mem) < 2 ^ 32"
    "unat (num_bytes_per_page mem) * (unat inc + unat (cur_page_count mem)) < 2 ^ 32"
  shows "unat ((ucast (num_bytes_per_page mem) :: u64) * ucast (inc + cur_page_count mem)) =
    grown_size mem inc"
proof -
  have "unat (inc + cur_page_count mem) = unat inc + unat (cur_page_count mem)"
    using assms(1) by (simp add: unat_word_ariths)
  then show ?thesis using assms(2) by (simp add: unat_word_ariths(2) grown_size_def)
qed

text \<open>What a growth that moves the memory leaves: \<open>m1\<close> is the chip's memory before the application heap, if there is
  one, has been moved inside it, which gives \<open>m'\<close>, and \<open>ok\<close> says whether that went well.\<close>

definition grown ::
  "(cmem \<Rightarrow> u32 \<Rightarrow> u32 \<Rightarrow> cmem \<times> bool) \<Rightarrow> cmem \<Rightarrow> WASMMemoryInstance \<Rightarrow> u32 \<Rightarrow> cmem \<Rightarrow> WASMMemoryInstance \<Rightarrow> bool \<Rightarrow> bool" where
  "grown migrate m mem inc m' mem' ok \<longleftrightarrow> (\<exists>m1.
     lin_bytes m1 mem' = lin_bytes m mem @ replicate (unat inc * unat (num_bytes_per_page mem)) 0 \<and>
     (if heap_data_end mem = heap_data mem then m' = m1 \<and> ok
      else migrate m1 (heap_data mem') (heap_data_end mem - heap_data mem) = (m', ok)) \<and>
     pages_ok mem' \<and> cur_page_count mem' = cur_page_count mem + inc \<and>
     heap_data mem' - memory_data mem' = heap_data mem - memory_data mem \<and>
     heap_data_end mem' - heap_data mem' = heap_data_end mem - heap_data mem)"

lemma enlarge_moves:
  assumes "pages_ok mem" "\<not> is_shared_memory mem" "heap_data_end mem = heap_data mem \<or> \<not> hc"
    and "inc \<noteq> 0" "unat inc + unat (cur_page_count mem) \<le> unat (max_page_count mem)"
    and "unat (num_bytes_per_page mem) * unat (max_page_count mem) + 8 < 2 ^ 32"
    and "fresh_block mem (hcm False (of_nat (grown_size mem inc) + 8)) (grown_size mem inc + 8)"
    and "hcm False (of_nat (grown_size mem inc) + 8) \<noteq> 0"
  shows "\<exists>m' mem' ok. wasm_enlarge_memory_internal hcm migrate hc m mem inc = ((m', mem'), ok) \<and> grown migrate m mem inc m' mem' ok"
proof -
  define tot where "tot = (ucast (num_bytes_per_page mem) :: u64) * ucast (inc + cur_page_count mem)"
  define new :: u32 where "new = ucast tot"
  have "grown_size mem inc \<le> unat (num_bytes_per_page mem) * unat (max_page_count mem)"
    unfolding grown_size_def using assms(5) by (rule mult_le_mono2)
  with assms(6) have g: "grown_size mem inc + 8 < 2 ^ 32" by linarith
  have pc: "unat inc + unat (cur_page_count mem) < 2 ^ 32"
    using assms(5) unat_u32_less [of "max_page_count mem"] by simp
  then have upc: "unat (inc + cur_page_count mem) = unat inc + unat (cur_page_count mem)"
    by (simp add: unat_word_ariths)
  have utot: "unat tot = grown_size mem inc"
    unfolding tot_def using g pc by (intro grown_size_u64) (simp_all add: grown_size_def)
  then have unew: "unat new = grown_size mem inc"
    using g by (simp add: new_def unsigned_ucast_eq take_bit_nat_eq_self)
  then have new: "new = of_nat (grown_size mem inc)" by (metis of_nat_unat ucast_id)
  have ok: "lm_ok mem" "memory_data mem \<noteq> 0"
    "lin_size mem = unat (num_bytes_per_page mem) * unat (cur_page_count mem)"
    using assms(1) by (auto simp: pages_ok_def)
  have sz: "grown_size mem inc = lin_size mem + unat inc * unat (num_bytes_per_page mem)"
    unfolding grown_size_def ok(3) by (simp add: algebra_simps)
  define old :: u32 where "old = ucast (memory_data_size mem)"
  have uold: "unat old = lin_size mem"
    using lm_ok_size [OF ok(1)] by (simp add: old_def lin_size_def unsigned_ucast_eq take_bit_nat_eq_self)
  have b: "block_ok (hcm False (new + 8)) (unat new + 8)"
    "unat (hcm False (new + 8)) + (unat new + 8) \<le> unat (memory_data mem) \<or>
     unat (memory_data mem) + unat old \<le> unat (hcm False (new + 8))"
    using assms(7,8) unfolding fresh_block_def new [symmetric] unew uold by (auto simp: add.assoc)
  have le: "old \<le> new" using sz by (simp add: word_le_nat_alt uold unew)
  have p: "unat (memory_data mem) + unat old \<le> 2 ^ 32" using ok(1) by (simp add: uold lm_ok_def lin_size_def)
  obtain m1 q where mr: "os_mremap hcm m (memory_data mem) old new = (m1, q)" and q: "q \<noteq> 0"
    "unat q + unat new < 2 ^ 32"
    "cbytes m1 q (unat new) = cbytes m (memory_data mem) (unat old) @ replicate (unat new - unat old) 0"
    using os_mremap_grow [where hcm = hcm, OF b(1) refl le p b(2), of m] by blast
  let ?hs = "heap_data_end mem - heap_data mem" and ?heap = "q + (heap_data mem - memory_data mem)"
  obtain m' ok where mig: "(if ?hs > 0 then migrate m1 (heap_data mem + (q - memory_data mem)) ?hs else (m1, True)) = (m', ok)"
    by fastforce
  define mem' where "mem' = set_memory_size (mem\<lparr>heap_data := ?heap, heap_data_end := ?heap + ?hs, memory_data := q\<rparr>)
    (inc + cur_page_count mem) tot"
  have range: "\<not> (inc + cur_page_count mem < cur_page_count mem \<or> inc + cur_page_count mem > max_page_count mem)"
    using assms(5) by (simp only: add_no_wrap_iff)
  have "wasm_enlarge_memory_internal hcm migrate hc m mem inc = ((m', mem'), ok)"
    using range assms(2-4) ok(2) q(1) mr mig
    unfolding wasm_enlarge_memory_internal_def Let_def wasm_mremap_linear_memory_def
      tot_def [symmetric] new_def [symmetric] old_def [symmetric] mem'_def
    by auto
  moreover have f: "memory_data mem' = q" "memory_data_size mem' = tot" "memory_data_end mem' = q + ucast tot"
    "cur_page_count mem' = inc + cur_page_count mem" "num_bytes_per_page mem' = num_bytes_per_page mem"
    "heap_data mem' = ?heap" "heap_data_end mem' = ?heap + ?hs"
    by (simp_all add: mem'_def set_memory_size_def wasm_runtime_set_mem_bound_check_bytes_def Let_def)
  moreover have "pages_ok mem'"
    using q(1,2) by (simp add: pages_ok_def lm_ok_def lin_size_def f utot unew upc grown_size_def)
  moreover have "lin_bytes m1 mem' = lin_bytes m mem @
      replicate (unat inc * unat (num_bytes_per_page mem)) 0"
    using q(3) by (simp add: lin_bytes_def f(1) lin_size_def [of mem'] f(2) utot unew uold sz)
  moreover have "?heap = heap_data mem + (q - memory_data mem)" by simp
  moreover have "?hs > 0 \<longleftrightarrow> heap_data_end mem \<noteq> heap_data mem" by (simp add: word_gt_0)
  ultimately show ?thesis
    using mig by (intro exI [of _ m'] exI [of _ mem'] exI [of _ ok]) (auto simp: grown_def add.commute split: if_splits)
qed

text \<open>C16: what \<open>memory.grow\<close> does to a memory whose maximum stays below 4 GiB (by the eight bytes the platform layer
  adds), when the platform gives no block or one apart from the memory. Growing by nothing pushes the page count. Past the
  maximum it pushes \<open>-1\<close> and nothing changes. A shared memory stays where it is and gets the new
  size. Otherwise, if the application heap in the memory is damaged or the platform has no block, it pushes \<open>-1\<close>
  and nothing changes; and else the memory moves: every byte is kept, zero pages follow, the memory stays
  well formed, the heap lies at the same place in it, and the old page count is pushed, or \<open>-1\<close> when the migration of
  the heap reports a failure, although the memory has grown then (\<open>memory_grow_failed_migration\<close>).\<close>

theorem memory_grow_spec:
  assumes "pages_ok mem" "unat (num_bytes_per_page mem) * unat (max_page_count mem) + 8 < 2 ^ 32"
    and "fresh_block mem (hcm False (of_nat (grown_size mem inc) + 8)) (grown_size mem inc + 8)"
  shows "if inc = 0 then exec_memory_grow hcm migrate hc m mem inc = ((m, mem), cur_page_count mem)
    else if unat inc + unat (cur_page_count mem) > unat (max_page_count mem)
    then exec_memory_grow hcm migrate hc m mem inc = ((m, mem), - 1)
    else if is_shared_memory mem
    then \<exists>mem'. exec_memory_grow hcm migrate hc m mem inc = ((m, mem'), cur_page_count mem) \<and>
      memory_data mem' = memory_data mem \<and> lin_size mem' = grown_size mem inc \<and>
      cur_page_count mem' = cur_page_count mem + inc
    else if hc \<and> heap_data_end mem \<noteq> heap_data mem \<or> hcm False (of_nat (grown_size mem inc) + 8) = 0
    then exec_memory_grow hcm migrate hc m mem inc = ((m, mem), - 1)
    else \<exists>m' mem' ok. grown migrate m mem inc m' mem' ok \<and>
      exec_memory_grow hcm migrate hc m mem inc = ((m', mem'), if ok then cur_page_count mem else - 1)"
proof -
  let ?tot = "(ucast (num_bytes_per_page mem) :: u64) * ucast (inc + cur_page_count mem)"
  let ?room = "unat inc + unat (cur_page_count mem) \<le> unat (max_page_count mem)"
  have tot: "unat ?tot = grown_size mem inc" "(ucast ?tot :: u32) = of_nat (grown_size mem inc)" if ?room
  proof -
    have "grown_size mem inc \<le> unat (num_bytes_per_page mem) * unat (max_page_count mem)"
      unfolding grown_size_def using that by (rule mult_le_mono2)
    then have "grown_size mem inc < 2 ^ 32" using assms(2) by linarith
    moreover have "unat inc + unat (cur_page_count mem) < 2 ^ 32"
      using that unat_u32_less [of "max_page_count mem"] by simp
    ultimately show u: "unat ?tot = grown_size mem inc" by (intro grown_size_u64) (simp_all add: grown_size_def)
    then show "(ucast ?tot :: u32) = of_nat (grown_size mem inc)" by (metis of_nat_unat)
  qed
  have range: "?room \<longleftrightarrow> \<not> (inc + cur_page_count mem < cur_page_count mem \<or> inc + cur_page_count mem > max_page_count mem)"
    by (simp only: add_no_wrap_iff)
  consider "inc = 0" | "inc \<noteq> 0" "\<not> ?room" | "inc \<noteq> 0" ?room "is_shared_memory mem"
    | "inc \<noteq> 0" ?room "\<not> is_shared_memory mem" "hc" "heap_data_end mem \<noteq> heap_data mem"
    | "inc \<noteq> 0" ?room "\<not> is_shared_memory mem" "heap_data_end mem = heap_data mem \<or> \<not> hc"
      "hcm False (of_nat (grown_size mem inc) + 8) = 0"
    | "inc \<noteq> 0" ?room "\<not> is_shared_memory mem" "heap_data_end mem = heap_data mem \<or> \<not> hc"
      "hcm False (of_nat (grown_size mem inc) + 8) \<noteq> 0" by blast
  then show ?thesis
  proof cases
    case 1
    then show ?thesis by (simp add: exec_memory_grow_def wasm_enlarge_memory_internal_def Let_def)
  next
    case 2
    then show ?thesis using range by (auto simp: exec_memory_grow_def wasm_enlarge_memory_internal_def Let_def)
  next
    case 3
    then have "exec_memory_grow hcm migrate hc m mem inc =
        ((m, set_memory_size mem (inc + cur_page_count mem) ?tot), cur_page_count mem)"
      using range by (simp add: exec_memory_grow_def wasm_enlarge_memory_internal_def Let_def)
    then show ?thesis
      using 3 tot(1) by (simp add: set_memory_size_def wasm_runtime_set_mem_bound_check_bytes_def lin_size_def Let_def add.commute)
  next
    case 4
    then have "wasm_enlarge_memory_internal hcm migrate hc m mem inc = ((m, mem), False)"
      using range by (simp add: wasm_enlarge_memory_internal_def Let_def word_gt_0)
    with 4 show ?thesis by (simp add: exec_memory_grow_def Let_def)
  next
    case 5
    have "os_mmap hcm m (of_nat (grown_size mem inc)) False = (m, 0)"
      using 5(5) by (simp add: os_mmap_def add.assoc)
    then have "wasm_mremap_linear_memory hcm m (memory_data mem) (memory_data_size mem) ?tot = (m, 0)"
      unfolding wasm_mremap_linear_memory_def os_mremap_def tot(2) [OF 5(2)] Let_def by simp
    then have "wasm_enlarge_memory_internal hcm migrate hc m mem inc = ((m, mem), False)"
      using range 5(1-4) by (auto simp: wasm_enlarge_memory_internal_def Let_def)
    with 5 show ?thesis by (auto simp: exec_memory_grow_def Let_def)
  next
    case 6
    from enlarge_moves [where hcm = hcm, OF assms(1) 6(3,4,1,2) assms(2,3) 6(5), of migrate m]
    obtain m' mem' ok where "wasm_enlarge_memory_internal hcm migrate hc m mem inc = ((m', mem'), ok)"
      and g: "grown migrate m mem inc m' mem' ok" by blast
    then have "exec_memory_grow hcm migrate hc m mem inc = ((m', mem'), if ok then cur_page_count mem else - 1)"
      by (simp add: exec_memory_grow_def)
    with g have "\<exists>m' mem' ok. grown migrate m mem inc m' mem' ok \<and>
      exec_memory_grow hcm migrate hc m mem inc = ((m', mem'), if ok then cur_page_count mem else - 1)" by blast
    moreover have "\<not> (hc \<and> heap_data_end mem \<noteq> heap_data mem \<or> hcm False (of_nat (grown_size mem inc) + 8) = 0)"
      using 6(4,5) by blast
    moreover have "\<not> unat inc + unat (cur_page_count mem) > unat (max_page_count mem)" using 6(2) by linarith
    ultimately show ?thesis using 6(1,3) by (simp only: if_False)
  qed
qed

theorem memory_grow_spec_witness:
  "\<exists>m' mem'. exec_memory_grow (\<lambda>_ _. 0x40900000) (\<lambda>m _ _. (m(0x40908000 := 1), True)) False (\<lambda>_. 7)
      (tiny_memory\<lparr>max_page_count := 4, heap_data := 0x40808000\<rparr>) 2 = ((m', mem'), 1) \<and>
    lin_size mem' = 196608 \<and> heap_data mem' - memory_data mem' = 0x8000"
proof -
  let ?mem = "tiny_memory\<lparr>max_page_count := 4, heap_data := 0x40808000\<rparr>" and ?mig = "\<lambda>m _ _. (m(0x40908000 := 1 :: u8), True)"
  have "pages_ok ?mem"
    by (simp add: pages_ok_def lm_ok_def lin_size_def tiny_memory_def)
  moreover have "fresh_block ?mem 0x40900000 (grown_size ?mem 2 + 8)"
    by (simp add: fresh_block_def block_ok_def grown_size_def lin_size_def tiny_memory_def)
  moreover have f: "\<not> is_shared_memory ?mem" "memory_data ?mem = 0x40800000" "heap_data ?mem = 0x40808000"
    "heap_data_end ?mem \<noteq> heap_data ?mem" "cur_page_count ?mem = 1" "max_page_count ?mem = 4"
    "num_bytes_per_page ?mem = 65536"
    by (simp_all add: tiny_memory_def)
  ultimately obtain m' mem' ok where g: "grown ?mig (\<lambda>_. 7) ?mem 2 m' mem' ok"
    "exec_memory_grow (\<lambda>_ _. 0x40900000) ?mig False (\<lambda>_. 7) ?mem 2 = ((m', mem'), if ok then 1 else - 1)"
    using memory_grow_spec [of ?mem "\<lambda>_ _. 0x40900000" 2 ?mig False "\<lambda>_. 7"] by (simp only: f) auto
  from g(1) f have ok: ok "heap_data mem' - memory_data mem' = 0x8000" and p: "pages_ok mem'" "cur_page_count mem' = 3"
    by (auto simp: grown_def)
  obtain m1 where "lin_bytes m1 mem' = lin_bytes (\<lambda>_. 7) ?mem @ replicate (unat (2 :: u32) * unat (num_bytes_per_page ?mem)) 0"
    using g(1) unfolding grown_def by blast
  then have "length (lin_bytes m1 mem') = 196608" by (simp add: lin_size_def tiny_memory_def)
  then have "lin_size mem' = 196608" unfolding length_lin_bytes .
  with g(2) ok show ?thesis by auto
qed

text \<open>The bound of 4 GiB in the theorem is needed: the sizes the platform layer takes are 32 bits
  wide. Growing to 65536 pages asks it for a block of eight bytes, and the instance then claims
  \<open>2 ^ 32\<close> bytes, so that the check lets every access through to the chip's memory.\<close>

definition eight_byte_allocator :: "bool \<Rightarrow> u32 \<Rightarrow> u32" where
  "eight_byte_allocator exec sz = (if sz = 8 then 0x40900000 else 0)"

lemma memory_grow_to_4GiB:
  "case exec_memory_grow eight_byte_allocator (\<lambda>m _ _. (m, True)) False m tiny_memory 65535 of
     ((m', mem'), r) \<Rightarrow> r = 1 \<and> memory_data_size mem' = 2 ^ 32 \<and>
       (unat offset + unat addr + 4 \<le> 2 ^ 32 \<longrightarrow>
        check_memory_overflow mem' offset addr 4 = Some (memory_data mem' + (offset + addr)))"
proof -
  have u: "(65536 * 65536 :: u64) = 4294967296" "(ucast (4294967296 :: u64) :: u32) = 0" by simp_all
  have ea: "unat ((ucast offset :: u64) + ucast addr + 4) = unat offset + unat addr + 4"
    using unat_u32_less [of offset] unat_u32_less [of addr]
    by (subst unat_add_u64) (simp_all add: unat_ea)
  have uc: "(ucast ((ucast offset :: u64) + ucast addr) :: u32) = offset + addr"
  proof (rule unsigned_word_eqI)
    show "unat (ucast ((ucast offset :: u64) + ucast addr) :: u32) = unat (offset + addr)"
      unfolding unsigned_ucast_eq unat_ea by (simp add: take_bit_eq_mod unat_word_ariths)
  qed
  show ?thesis
    using uc
    by (simp add: exec_memory_grow_def wasm_enlarge_memory_internal_def tiny_memory_def Let_def
        wasm_mremap_linear_memory_def os_mremap_def os_mmap_def eight_byte_allocator_def u
        set_memory_size_def wasm_runtime_set_mem_bound_check_bytes_def check_memory_overflow_def
        word_le_nat_alt ea)
qed

text \<open>When the application heap inside the memory fails to migrate, \<open>memory.grow\<close> pushes \<open>-1\<close> although
  the memory has grown.\<close>

lemma memory_grow_failed_migration:
  "case exec_memory_grow (\<lambda>_ _. 0x40900000) (\<lambda>m _ _. (m, False)) False m
      (tiny_memory\<lparr>heap_data := 0x40808000\<rparr>) 2 of
     ((m', mem'), r) \<Rightarrow> r = - 1 \<and> cur_page_count mem' = 3 \<and> memory_data_size mem' = 3 * 65536"
  by (simp add: exec_memory_grow_def wasm_enlarge_memory_internal_def tiny_memory_def Let_def
        wasm_mremap_linear_memory_def os_mremap_def os_mmap_def
        set_memory_size_def wasm_runtime_set_mem_bound_check_bytes_def)

section \<open>Bulk memory instructions\<close>

text \<open>\<open>b_memcpy_s\<close> and \<open>b_memmove_s\<close> return 0 or -1; the memory is the first component. The two have
  the same text but for \<open>memcpy\<close> and \<open>memmove\<close>, which agree unless the ranges overlap; \<open>memmove\<close> reads the
  source before it writes.\<close>

definition b_memmove_s :: "cmem \<Rightarrow> u32 \<Rightarrow> u32 \<Rightarrow> u32 \<Rightarrow> u32 \<Rightarrow> cmem \<times> int" where
  "b_memmove_s m s1 s1max s2 n =
     (if n = 0 then (m, 0)
      else if s1 = 0 then (m, - 1)
      else if s2 = 0 \<or> n > s1max then (mem_put m s1 (replicate (unat s1max) 0), - 1)
      else (mem_put m s1 (cbytes m s2 (unat n)), 0))"

definition b_memcpy_s :: "cmem \<Rightarrow> u32 \<Rightarrow> u32 \<Rightarrow> u32 \<Rightarrow> u32 \<Rightarrow> cmem \<times> int" where
  "b_memcpy_s m s1 s1max s2 n =
     (if n = 0 then (m, 0)
      else if s1 = 0 then (m, - 1)
      else if s2 = 0 \<or> n > s1max then (mem_put m s1 (replicate (unat s1max) 0), - 1)
      else (mem_put m s1 (cbytes m s2 (unat n)), 0))"

text \<open>A data segment is the address and the length of its bytes in the loaded module, and whether it has
  been dropped.\<close>

record data_segment =
  seg_data :: u32
  seg_length :: u32
  seg_dropped :: bool

definition exec_memory_init ::
  "cmem \<Rightarrow> WASMMemoryInstance \<Rightarrow> data_segment \<Rightarrow> u32 \<Rightarrow> u32 \<Rightarrow> u32 \<Rightarrow> string + cmem" where
  "exec_memory_init m mem segment addr offset bytes =
     (case check_bulk_memory_overflow mem addr (ucast bytes) of
        None \<Rightarrow> Inl oob
      | Some maddr \<Rightarrow>
          let (seg_len, data) = (if seg_dropped segment then (0 :: u64, 0)
                                 else (ucast (seg_length segment), seg_data segment))
          in if ucast offset + ucast bytes > seg_len then Inl oob
             else Inr (fst (b_memcpy_s m maddr (ucast (memory_data_size mem - ucast addr))
                              (data + offset) bytes)))"

definition exec_data_drop :: "data_segment \<Rightarrow> data_segment" where
  "exec_data_drop segment = segment\<lparr>seg_dropped := True\<rparr>"

definition exec_memory_copy ::
  "cmem \<Rightarrow> WASMMemoryInstance \<Rightarrow> u32 \<Rightarrow> u32 \<Rightarrow> u32 \<Rightarrow> string + cmem" where
  "exec_memory_copy m mem dst src len =
     (let dlen = memory_data_size mem - ucast dst
      in case check_bulk_memory_overflow mem dst (ucast len) of
           None \<Rightarrow> Inl oob
         | Some mdst \<Rightarrow>
             (case check_bulk_memory_overflow mem src (ucast len) of
                None \<Rightarrow> Inl oob
              | Some msrc \<Rightarrow> Inr (fst (b_memmove_s m mdst (ucast dlen) msrc len))))"

definition exec_memory_fill ::
  "cmem \<Rightarrow> WASMMemoryInstance \<Rightarrow> u32 \<Rightarrow> u32 \<Rightarrow> u32 \<Rightarrow> string + cmem" where
  "exec_memory_fill m mem dst val len =
     (case check_bulk_memory_overflow mem dst (ucast len) of
        None \<Rightarrow> Inl oob
      | Some mdst \<Rightarrow> Inr (mem_put m mdst (replicate (unat len) (ucast val))))"

definition splice :: "nat \<Rightarrow> u8 list \<Rightarrow> u8 list \<Rightarrow> u8 list" where
  "splice k bs xs = take k xs @ bs @ drop (k + length bs) xs"

lemma splice_nil [simp]: "splice k [] xs = xs" by (simp add: splice_def)

lemma lin_bytes_splice:
  "lm_ok mem \<Longrightarrow> k + length bs \<le> lin_size mem \<Longrightarrow>
    lin_bytes (mem_put m (memory_data mem + of_nat k) bs) mem = splice k bs (lin_bytes m mem)"
  unfolding splice_def by (rule lin_bytes_put)

lemma remaining_size:
  fixes dst len :: u32
  assumes "lm_ok mem" "unat dst + unat len \<le> lin_size mem"
  shows "\<not> len > ucast (memory_data_size mem - ucast dst)"
proof -
  have "unat (memory_data_size mem - ucast dst) = lin_size mem - unat dst"
    using assms(2) by (subst unat_sub) (simp_all add: word_le_nat_alt lin_size_def)
  then have "unat (ucast (memory_data_size mem - ucast dst) :: u32) = lin_size mem - unat dst"
    using lm_ok_size [OF assms(1)] by (simp add: unsigned_ucast_eq take_bit_nat_eq_self)
  then show ?thesis using assms(2) by (simp add: word_less_nat_alt)
qed

lemma memory_address_nonzero:
  assumes "lm_ok mem" "memory_data mem \<noteq> 0" "k \<le> lin_size mem"
  shows "memory_data mem + of_nat k \<noteq> 0"
proof -
  have "unat (memory_data mem + of_nat k) = unat (memory_data mem) + k"
    using assms(1,3) by (intro unat_add_small) (simp add: lm_ok_def lin_size_def)
  moreover have "0 < unat (memory_data mem)" using assms(2) by (simp add: unat_gt_0)
  ultimately show ?thesis by (metis add_is_0 unat_0 less_nat_zero_code)
qed

text \<open>C17: \<open>memory.fill\<close> and \<open>memory.copy\<close> overwrite exactly the destination range of the linear memory, with
  the fill byte and with the bytes the source range had before the instruction, overlapping ranges
  included; they trap, without writing, when a range does not lie within the memory.\<close>

theorem memory_fill_copy_spec:
  assumes "lm_ok mem" "memory_data mem \<noteq> 0"
  shows "(if unat dst + unat len \<le> lin_size mem
      then \<exists>m'. exec_memory_fill m mem dst val len = Inr m' \<and>
        lin_bytes m' mem = splice (unat dst) (replicate (unat len) (ucast val)) (lin_bytes m mem)
      else exec_memory_fill m mem dst val len = Inl oob) \<and>
    (if unat dst + unat len \<le> lin_size mem \<and> unat src + unat len \<le> lin_size mem
      then \<exists>m'. exec_memory_copy m mem dst src len = Inr m' \<and>
        lin_bytes m' mem =
          splice (unat dst) (take (unat len) (drop (unat src) (lin_bytes m mem))) (lin_bytes m mem)
      else exec_memory_copy m mem dst src len = Inl oob)"
proof -
  have n: "unat (ucast len :: u64) \<le> 2 ^ 32" using unat_u32_less [of len] by simp
  note ck = check_bulk_memory_overflow_eq [OF assms(1) n, simplified]
  have fill: "if unat dst + unat len \<le> lin_size mem
      then \<exists>m'. exec_memory_fill m mem dst val len = Inr m' \<and>
        lin_bytes m' mem = splice (unat dst) (replicate (unat len) (ucast val)) (lin_bytes m mem)
      else exec_memory_fill m mem dst val len = Inl oob"
    using lin_bytes_splice [OF assms(1), of "unat dst" "replicate (unat len) (ucast val)" m]
    by (simp add: exec_memory_fill_def ck)
  have copy: "lin_bytes (fst (b_memmove_s m (memory_data mem + of_nat (unat dst))
        (ucast (memory_data_size mem - ucast dst)) (memory_data mem + of_nat (unat src)) len)) mem =
      splice (unat dst) (take (unat len) (drop (unat src) (lin_bytes m mem))) (lin_bytes m mem)"
    if "unat dst + unat len \<le> lin_size mem" "unat src + unat len \<le> lin_size mem"
  proof (cases "len = 0")
    case True
    then show ?thesis by (simp add: b_memmove_s_def)
  next
    case False
    have "take (unat len) (drop (unat src) (lin_bytes m mem)) =
        cbytes m (memory_data mem + of_nat (unat src)) (unat len)"
      unfolding lin_bytes_def using that(2) by (rule take_drop_cbytes)
    then show ?thesis
      using False remaining_size [OF assms(1) that(1)] that
        memory_address_nonzero [OF assms, of "unat dst"] memory_address_nonzero [OF assms, of "unat src"]
        lin_bytes_splice [OF assms(1), of "unat dst" "cbytes m (memory_data mem + of_nat (unat src)) (unat len)" m]
      by (simp add: b_memmove_s_def del: of_nat_unat)
  qed
  show ?thesis using fill copy by (simp add: exec_memory_copy_def Let_def ck)
qed

theorem memory_fill_copy_spec_witness:
  "exec_memory_fill (\<lambda>_. 0) tiny_memory 0xfff0 0 17 = Inl oob"
  using memory_fill_copy_spec [of tiny_memory "0xfff0" 17 "\<lambda>_. 0" 0 0]
  by (simp add: tiny_memory_def lm_ok_def lin_size_def)

text \<open>C21: \<open>memory.init\<close> copies the requested part of the data segment, as it stands in the loaded module,
  over the destination range, and traps when the part does not lie within the segment or the range
  does not lie within the memory; a dropped segment has length zero.\<close>

theorem memory_init_spec:
  assumes "lm_ok mem" "memory_data mem \<noteq> 0"
    and "seg_data seg \<noteq> 0" "unat (seg_data seg) + unat (seg_length seg) < 2 ^ 32"
  defines "seg_len \<equiv> if seg_dropped seg then 0 else unat (seg_length seg)"
  shows "if unat dst + unat n \<le> lin_size mem \<and> unat offset + unat n \<le> seg_len
    then \<exists>m'. exec_memory_init m mem seg dst offset n = Inr m' \<and>
      lin_bytes m' mem = splice (unat dst)
        (take (unat n) (drop (unat offset) (cbytes m (seg_data seg) seg_len))) (lin_bytes m mem)
    else exec_memory_init m mem seg dst offset n = Inl oob"
proof -
  have n: "unat (ucast n :: u64) \<le> 2 ^ 32" using unat_u32_less [of n] by simp
  note ck = check_bulk_memory_overflow_eq [OF assms(1) n, simplified]
  have cmp: "ucast offset + ucast n > (ucast w :: u64) \<longleftrightarrow> unat w < unat offset + unat n" for w :: u32
    by (simp add: word_less_nat_alt unat_ea)
  show ?thesis
  proof (cases "unat dst + unat n \<le> lin_size mem \<and> unat offset + unat n \<le> seg_len")
    case False
    then show ?thesis using cmp [of 0] cmp [of "seg_length seg"]
      by (auto simp: exec_memory_init_def ck seg_len_def)
  next
    case True
    then have d: "unat dst + unat n \<le> lin_size mem" and o: "unat offset + unat n \<le> seg_len" by simp_all
    show ?thesis
    proof (cases "n = 0")
      case True
      have c: "check_bulk_memory_overflow mem dst (ucast n) = Some (memory_data mem + of_nat (unat dst))"
        using d by (simp only: ck if_True)
      have "\<not> ucast offset + ucast n > (if seg_dropped seg then 0 else ucast (seg_length seg) :: u64)"
        using o cmp [of 0] cmp [of "seg_length seg"] by (auto simp: seg_len_def not_less)
      then have "exec_memory_init m mem seg dst offset n = Inr m"
        unfolding exec_memory_init_def c using True
        by (cases "seg_dropped seg") (simp_all add: b_memcpy_s_def)
      then show ?thesis using d o True by simp
    next
      case False
      then have live: "\<not> seg_dropped seg" "seg_len = unat (seg_length seg)"
        using o by (auto simp: seg_len_def unat_eq_zero split: if_splits)
      have so: "unat (seg_data seg + of_nat (unat offset)) = unat (seg_data seg) + unat offset"
        using assms(4) o live(2) by (intro unat_add_small) linarith
      have "0 < unat (seg_data seg)" using assms(3) by (simp add: unat_gt_0)
      with so have nz: "seg_data seg + offset \<noteq> 0" by (metis add_is_0 of_nat_unat ucast_id unat_0 less_nat_zero_code)
      have part: "take (unat n) (drop (unat offset) (cbytes m (seg_data seg) seg_len)) =
          cbytes m (seg_data seg + offset) (unat n)"
        using take_drop_cbytes [OF o] by simp
      have "exec_memory_init m mem seg dst offset n = Inr (mem_put m (memory_data mem + of_nat (unat dst))
          (cbytes m (seg_data seg + offset) (unat n)))"
        using False live o d nz cmp [of "seg_length seg"] remaining_size [OF assms(1) d]
          memory_address_nonzero [OF assms(1,2), of "unat dst"]
        by (simp add: exec_memory_init_def ck b_memcpy_s_def)
      then show ?thesis using d o lin_bytes_splice [OF assms(1), of "unat dst"] by (simp add: part)
    qed
  qed
qed

theorem memory_init_spec_witness:
  "exec_memory_init (\<lambda>_. 0) tiny_memory
     \<lparr>seg_data = 0x42000000, seg_length = 8, seg_dropped = True\<rparr> 0 0 1 = Inl oob"
  using memory_init_spec [of tiny_memory "\<lparr>seg_data = 0x42000000, seg_length = 8, seg_dropped = True\<rparr>" 0 1 0 "\<lambda>_. 0"]
  by (simp add: tiny_memory_def lm_ok_def)

section \<open>Application and native addresses\<close>

text \<open>The instance is an option: an instance may have no memory. A failed check also sets the exception
  \<open>oob\<close>. Offsets and sizes have 64 bits, a native pointer 32; where the code converts an offset to
  a pointer its upper half is lost.\<close>

definition MAX_LINEAR_MEMORY_SIZE :: u64 where "MAX_LINEAR_MEMORY_SIZE = 4 * 0x40000000"

definition wasm_runtime_validate_app_addr :: "WASMMemoryInstance option \<Rightarrow> u64 \<Rightarrow> u64 \<Rightarrow> bool" where
  "wasm_runtime_validate_app_addr memory_inst app_offset sz =
     (case memory_inst of
        None \<Rightarrow> False
      | Some mem \<Rightarrow>
          if sz > MAX_LINEAR_MEMORY_SIZE \<or> app_offset > MAX_LINEAR_MEMORY_SIZE - sz then False
          else if app_offset + sz \<le> memory_data_size mem then True
          else False)"

definition wasm_runtime_validate_native_addr :: "WASMMemoryInstance option \<Rightarrow> u32 \<Rightarrow> u64 \<Rightarrow> bool" where
  "wasm_runtime_validate_native_addr memory_inst native_ptr sz =
     (case memory_inst of
        None \<Rightarrow> False
      | Some mem \<Rightarrow>
          let addr = native_ptr
          in if sz > MAX_LINEAR_MEMORY_SIZE \<or> ucast addr > 0xFFFFFFFF - sz then False
             else if memory_data mem \<le> addr \<and> addr + ucast sz \<le> memory_data_end mem then True
             else False)"

definition wasm_runtime_addr_app_to_native :: "WASMMemoryInstance option \<Rightarrow> u64 \<Rightarrow> u32" where
  "wasm_runtime_addr_app_to_native memory_inst app_offset =
     (case memory_inst of
        None \<Rightarrow> 0
      | Some mem \<Rightarrow>
          let addr = memory_data mem + ucast app_offset
          in if memory_data mem \<le> addr \<and> addr < memory_data_end mem then addr else 0)"

definition wasm_runtime_addr_native_to_app :: "WASMMemoryInstance option \<Rightarrow> u32 \<Rightarrow> u64" where
  "wasm_runtime_addr_native_to_app memory_inst native_ptr =
     (case memory_inst of
        None \<Rightarrow> 0
      | Some mem \<Rightarrow>
          let addr = native_ptr
          in if memory_data mem \<le> addr \<and> addr < memory_data_end mem
             then ucast (addr - memory_data mem) else 0)"

definition wasm_runtime_get_app_addr_range ::
  "WASMMemoryInstance option \<Rightarrow> u64 \<Rightarrow> (u64 \<times> u64) option" where
  "wasm_runtime_get_app_addr_range memory_inst app_offset =
     (case memory_inst of
        None \<Rightarrow> None
      | Some mem \<Rightarrow>
          if app_offset < memory_data_size mem then Some (0, memory_data_size mem) else None)"

definition wasm_runtime_get_native_addr_range ::
  "WASMMemoryInstance option \<Rightarrow> u32 \<Rightarrow> (u32 \<times> u32) option" where
  "wasm_runtime_get_native_addr_range memory_inst native_ptr =
     (case memory_inst of
        None \<Rightarrow> None
      | Some mem \<Rightarrow>
          if memory_data mem \<le> native_ptr \<and> native_ptr < memory_data_end mem
          then Some (memory_data mem, memory_data_end mem) else None)"

text \<open>The loop over a string: the first address with a zero byte, or the end.\<close>

function str_scan :: "cmem \<Rightarrow> u32 \<Rightarrow> u32 \<Rightarrow> u32" where
  "str_scan m str str_end =
     (if str < str_end \<and> m str \<noteq> 0 then str_scan m (str + 1) str_end else str)"
  by pat_completeness auto
termination
proof (relation "measure (\<lambda>(m, str, str_end). unat str_end - unat str)", simp, clarify)
  fix m :: cmem and str str_end :: u32
  assume l: "str < str_end"
  then have "unat str + 1 < 2 ^ 32" using unat_u32_less [of str_end] by (simp add: word_less_nat_alt)
  then have "unat (str + 1) = unat str + 1" using unat_add_small [of str 1] by simp
  with l show "((m, str + 1, str_end), m, str, str_end)
      \<in> measure (\<lambda>(m, str, str_end). unat str_end - unat str)"
    by (simp add: word_less_nat_alt)
qed

declare str_scan.simps [simp del]

definition wasm_runtime_validate_app_str_addr ::
  "cmem \<Rightarrow> WASMMemoryInstance option \<Rightarrow> u64 \<Rightarrow> bool" where
  "wasm_runtime_validate_app_str_addr m memory_inst app_str_offset =
     (case wasm_runtime_get_app_addr_range memory_inst app_str_offset of
        None \<Rightarrow> False
      | Some (app_start_offset, app_end_offset) \<Rightarrow>
          if app_str_offset \<ge> MAX_LINEAR_MEMORY_SIZE \<or> app_end_offset > MAX_LINEAR_MEMORY_SIZE then False
          else let str = wasm_runtime_addr_app_to_native memory_inst app_str_offset;
                   str_end = str + ucast (app_end_offset - app_str_offset)
               in if str_scan m str str_end = str_end then False else True)"

definition wasm_check_app_addr_and_convert ::
  "cmem \<Rightarrow> WASMMemoryInstance option \<Rightarrow> bool \<Rightarrow> u64 \<Rightarrow> u64 \<Rightarrow> u32 option" where
  "wasm_check_app_addr_and_convert m memory_inst is_str app_buf_addr app_buf_size =
     (case memory_inst of
        None \<Rightarrow> None
      | Some mem \<Rightarrow>
          let native_addr = memory_data mem + ucast app_buf_addr
          in if app_buf_addr \<ge> memory_data_size mem then None
             else if \<not> is_str then
               (if app_buf_size > memory_data_size mem - app_buf_addr then None else Some native_addr)
             else let str_end = memory_data_end mem
                  in if str_scan m native_addr str_end = str_end then None else Some native_addr)"

lemma str_scan_end_iff:
  assumes "str \<le> str_end"
  shows "str_scan m str str_end = str_end \<longleftrightarrow> 0 \<notin> set (cbytes m str (unat str_end - unat str))"
  using assms
proof (induction m str str_end rule: str_scan.induct)
  case (1 m str str_end)
  show ?case
  proof (cases "str < str_end")
    case True
    then have "unat str + 1 < 2 ^ 32" using unat_u32_less [of str_end] by (simp add: word_less_nat_alt)
    then have u: "unat (str + 1) = unat str + 1" using unat_add_small [of str 1] by simp
    with True have "unat str_end - unat str = Suc (unat str_end - unat (str + 1))"
      and le: "str + 1 \<le> str_end"
      by (simp_all add: word_less_nat_alt word_le_nat_alt)
    then have c: "cbytes m str (unat str_end - unat str) =
        m str # cbytes m (str + 1) (unat str_end - unat (str + 1))"
      by (simp only: cbytes_Suc)
    show ?thesis
      using True "1.IH" le by (subst str_scan.simps) (auto simp: c)
  next
    case False
    with "1.prems" have "str = str_end" by simp
    then show ?thesis by (simp add: str_scan.simps [of m str_end])
  qed
qed

lemma lm_end:
  assumes "lm_ok mem"
  shows "unat (memory_data_end mem) = unat (memory_data mem) + lin_size mem"
  using lm_ok_address(2) [OF assms, of "memory_data_size mem"] assms by (simp add: lm_ok_def lin_size_def)

lemma cbytes_tail:
  assumes "lm_ok mem" "unat (off :: u64) \<le> lin_size mem"
  shows "cbytes m (memory_data mem + ucast off)
      (unat (memory_data_end mem) - unat (memory_data mem + ucast off)) = drop (unat off) (lin_bytes m mem)"
proof -
  have "drop (unat off) (lin_bytes m mem) = take (lin_size mem - unat off) (drop (unat off) (lin_bytes m mem))"
    by simp
  also have "\<dots> = cbytes m (memory_data mem + of_nat (unat off)) (lin_size mem - unat off)"
    unfolding lin_bytes_def by (rule take_drop_cbytes) (use assms(2) in simp)
  finally show ?thesis
    unfolding lm_ok_address(1) [OF assms] lm_ok_address(2) [OF assms, unfolded lm_ok_address(1) [OF assms]]
      lm_end [OF assms(1)] by simp
qed

lemma validate_app_addr_iff:
  assumes "lm_ok mem"
  shows "wasm_runtime_validate_app_addr (Some mem) off n \<longleftrightarrow> unat off + unat n \<le> lin_size mem"
proof (cases "n > MAX_LINEAR_MEMORY_SIZE \<or> off > MAX_LINEAR_MEMORY_SIZE - n")
  case True
  have "unat (MAX_LINEAR_MEMORY_SIZE - n) = 2 ^ 32 - unat n" if "n \<le> MAX_LINEAR_MEMORY_SIZE"
    using unat_sub [OF that] by (simp add: MAX_LINEAR_MEMORY_SIZE_def)
  with True have "2 ^ 32 < unat off + unat n"
    by (cases "n \<le> MAX_LINEAR_MEMORY_SIZE")
      (auto simp: word_less_nat_alt MAX_LINEAR_MEMORY_SIZE_def not_le not_less word_le_nat_alt)
  with True show ?thesis using lm_ok_size [OF assms] by (simp add: wasm_runtime_validate_app_addr_def)
next
  case False
  then have n: "n \<le> MAX_LINEAR_MEMORY_SIZE" and o: "off \<le> MAX_LINEAR_MEMORY_SIZE - n"
    by (simp_all add: not_less)
  have "unat off + unat n \<le> 2 ^ 32"
    using n o unat_sub [OF n] by (simp add: word_le_nat_alt MAX_LINEAR_MEMORY_SIZE_def)
  then have "unat (off + n) = unat off + unat n" by (intro unat_add_u64) simp
  with False show ?thesis
    by (simp add: wasm_runtime_validate_app_addr_def word_le_nat_alt lin_size_def)
qed

lemma base_plus_offset_le_end:
  assumes "lm_ok mem" "unat (off :: u64) \<le> lin_size mem"
  shows "memory_data mem + ucast off \<le> memory_data_end mem"
  unfolding word_le_nat_alt lm_ok_address(2) [OF assms] lm_end [OF assms(1)] using assms(2) by simp

lemma string_terminated_iff:
  assumes "lm_ok mem" "unat (off :: u64) \<le> lin_size mem"
  shows "str_scan m (memory_data mem + ucast off) (memory_data_end mem) \<noteq> memory_data_end mem \<longleftrightarrow>
    0 \<in> set (drop (unat off) (lin_bytes m mem))"
  unfolding str_scan_end_iff [OF base_plus_offset_le_end [OF assms]] cbytes_tail [OF assms] by simp

lemma check_and_convert_eq:
  assumes "lm_ok mem"
  shows "wasm_check_app_addr_and_convert m (Some mem) is_str off n =
      (if unat off < lin_size mem \<and>
          (if is_str then 0 \<in> set (drop (unat off) (lin_bytes m mem))
           else unat off + unat n \<le> lin_size mem)
       then Some (memory_data mem + of_nat (unat off)) else None)"
proof (cases "unat off < lin_size mem")
  case False
  then show ?thesis by (simp add: wasm_check_app_addr_and_convert_def word_le_nat_alt lin_size_def)
next
  case True
  then have "off \<le> memory_data_size mem" by (simp add: word_le_nat_alt lin_size_def)
  then have "unat (memory_data_size mem - off) = lin_size mem - unat off"
    by (simp add: unat_sub lin_size_def)
  then have "n > memory_data_size mem - off \<longleftrightarrow> lin_size mem < unat off + unat n"
    using True unfolding word_less_nat_alt by linarith
  then show ?thesis
    using True string_terminated_iff [OF assms, of off m]
    by (auto simp: wasm_check_app_addr_and_convert_def word_le_nat_alt lin_size_def)
qed

lemma app_to_native_eq:
  assumes "lm_ok mem"
  shows "wasm_runtime_addr_app_to_native (Some mem) off =
    (if unat off mod 2 ^ 32 < lin_size mem
     then memory_data mem + of_nat (unat off mod 2 ^ 32) else 0)"
proof -
  define k where "k = unat off mod 2 ^ 32"
  have uk: "unat (ucast off :: u32) = k" by (simp add: k_def unsigned_ucast_eq take_bit_eq_mod)
  then have ok: "ucast off = (of_nat k :: u32)" by (metis of_nat_unat ucast_id)
  have iff: "memory_data mem \<le> memory_data mem + of_nat k \<and>
      memory_data mem + of_nat k < memory_data_end mem \<longleftrightarrow> k < lin_size mem"
  proof
    assume "k < lin_size mem"
    then have "unat (memory_data mem + of_nat k) = unat (memory_data mem) + k"
      using assms by (intro unat_add_small) (simp add: lm_ok_def lin_size_def)
    with \<open>k < lin_size mem\<close> show "memory_data mem \<le> memory_data mem + of_nat k \<and>
      memory_data mem + of_nat k < memory_data_end mem"
      by (simp add: word_le_nat_alt word_less_nat_alt lm_end [OF assms])
  next
    assume a: "memory_data mem \<le> memory_data mem + of_nat k \<and>
      memory_data mem + of_nat k < memory_data_end mem"
    then have "unat (memory_data mem + of_nat k) - unat (memory_data mem) = k"
      using unat_sub_range [of "memory_data mem" "memory_data mem + of_nat k"] uk ok
      by (simp add: word_le_nat_alt)
    with a show "k < lin_size mem"
      unfolding word_le_nat_alt word_less_nat_alt lm_end [OF assms] by linarith
  qed
  show ?thesis
    unfolding wasm_runtime_addr_app_to_native_def option.case Let_def ok iff k_def [symmetric] by (rule refl)
qed

lemma validate_app_str_addr_iff:
  assumes "lm_ok mem"
  shows "wasm_runtime_validate_app_str_addr m (Some mem) off \<longleftrightarrow>
    unat off < lin_size mem \<and> 0 \<in> set (drop (unat off) (lin_bytes m mem))"
proof (cases "unat off < lin_size mem")
  case False
  then show ?thesis
    by (simp add: wasm_runtime_validate_app_str_addr_def wasm_runtime_get_app_addr_range_def
        word_less_nat_alt lin_size_def)
next
  case True
  then have sz: "unat off < 2 ^ 32" "memory_data_size mem \<le> MAX_LINEAR_MEMORY_SIZE"
    "off < MAX_LINEAR_MEMORY_SIZE" "off < memory_data_size mem"
    using lm_ok_size [OF assms]
    by (simp_all add: word_le_nat_alt word_less_nat_alt MAX_LINEAR_MEMORY_SIZE_def lin_size_def)
  have n: "wasm_runtime_addr_app_to_native (Some mem) off = memory_data mem + ucast off"
    unfolding app_to_native_eq [OF assms] lm_ok_address(1) [OF assms less_imp_le [OF True]]
    using True sz(1) by (simp only: mod_less if_True)
  have e: "memory_data mem + ucast off + ucast (memory_data_size mem - off) = memory_data_end mem"
  proof -
    have "unat (memory_data_size mem - off) = lin_size mem - unat off"
      using sz(4) by (simp add: unat_sub lin_size_def)
    then have "(ucast (memory_data_size mem - off) :: u32) = of_nat (lin_size mem - unat off)"
      by (metis of_nat_unat)
    moreover have "(ucast off :: u32) = of_nat (unat off)" by simp
    ultimately have "ucast off + ucast (memory_data_size mem - off) =
        (of_nat (unat off + (lin_size mem - unat off)) :: u32)"
      by (simp only: of_nat_add)
    also have "\<dots> = ucast (memory_data_size mem)" using True by (simp add: lin_size_def)
    finally show ?thesis using assms by (simp only: lm_ok_def add.assoc)
  qed
  have r: "wasm_runtime_get_app_addr_range (Some mem) off = Some (0, memory_data_size mem)"
    using sz(4) by (simp add: wasm_runtime_get_app_addr_range_def)
  have "\<not> (off \<ge> MAX_LINEAR_MEMORY_SIZE \<or> memory_data_size mem > MAX_LINEAR_MEMORY_SIZE)"
    using sz(2,3) by auto
  then have "wasm_runtime_validate_app_str_addr m (Some mem) off \<longleftrightarrow>
      str_scan m (memory_data mem + ucast off) (memory_data_end mem) \<noteq> memory_data_end mem"
    unfolding wasm_runtime_validate_app_str_addr_def r option.case prod.case n Let_def e by simp
  then show ?thesis using True string_terminated_iff [OF assms, of off m] by simp
qed

text \<open>C30: the check of an application buffer accepts exactly the ranges that lie within the linear memory, for
  all 64-bit offsets and sizes; the conversion of a buffer refuses the end of the memory as a start
  and otherwise accepts the same ranges; both operations on strings accept an offset exactly when
  a terminating zero follows within the memory, and the address returned is the base plus the offset.\<close>

theorem app_addr_checks_spec:
  assumes "lm_ok mem"
  shows "(wasm_runtime_validate_app_addr (Some mem) off n \<longleftrightarrow> unat off + unat n \<le> lin_size mem) \<and>
    wasm_check_app_addr_and_convert m (Some mem) is_str off n =
      (if unat off < lin_size mem \<and>
          (if is_str then 0 \<in> set (drop (unat off) (lin_bytes m mem))
           else unat off + unat n \<le> lin_size mem)
       then Some (memory_data mem + of_nat (unat off)) else None) \<and>
    (wasm_runtime_validate_app_str_addr m (Some mem) off \<longleftrightarrow>
      unat off < lin_size mem \<and> 0 \<in> set (drop (unat off) (lin_bytes m mem)))"
  using validate_app_addr_iff [OF assms] check_and_convert_eq [OF assms]
    validate_app_str_addr_iff [OF assms] by simp

theorem app_addr_checks_spec_witness:
  "wasm_runtime_validate_app_addr (Some tiny_memory) 0xfff0 16 \<and>
   \<not> wasm_runtime_validate_app_addr (Some tiny_memory) 0xfff0 17"
  using app_addr_checks_spec [of tiny_memory "0xfff0" 16 "\<lambda>_. 0" False]
    app_addr_checks_spec [of tiny_memory "0xfff0" 17 "\<lambda>_. 0" False]
  by (simp add: tiny_memory_def lm_ok_def lin_size_def)

text \<open>The conversions between the two kinds of addresses invert each other on the linear memory. The
  conversion of an offset keeps its low 32 bits only, so an offset beyond 4 GiB is not refused.\<close>

text \<open>C31: converting an application address to a native one and back gives the address, converting a
  native address within the memory and back gives that address, and what lies outside the memory is
  converted to null; the conversion of a 64-bit offset looks at its low 32 bits only.\<close>

theorem addr_conversion_roundtrip:
  assumes "lm_ok mem" "memory_data mem \<noteq> 0"
  shows "(unat off < lin_size mem \<longrightarrow>
      wasm_runtime_addr_native_to_app (Some mem) (wasm_runtime_addr_app_to_native (Some mem) off) = off) \<and>
    (memory_data mem \<le> p \<and> p < memory_data_end mem \<longrightarrow>
      wasm_runtime_addr_app_to_native (Some mem) (wasm_runtime_addr_native_to_app (Some mem) p) = p) \<and>
    (wasm_runtime_addr_app_to_native (Some mem) off = 0 \<longleftrightarrow> lin_size mem \<le> unat off mod 2 ^ 32)"
proof (intro conjI impI)
  assume o: "unat off < lin_size mem"
  have small: "unat off < 2 ^ 32" using o lm_ok_size [OF assms(1)] by simp
  have n: "wasm_runtime_addr_app_to_native (Some mem) off = memory_data mem + ucast off"
    unfolding app_to_native_eq [OF assms(1)] lm_ok_address(1) [OF assms(1) less_imp_le [OF o]]
    using o small by (simp only: mod_less if_True)
  have u: "unat (memory_data mem + ucast off) = unat (memory_data mem) + unat off"
    using lm_ok_address(2) [OF assms(1) less_imp_le [OF o]] .
  have "memory_data mem \<le> memory_data mem + ucast off \<and> memory_data mem + ucast off < memory_data_end mem"
    unfolding word_le_nat_alt word_less_nat_alt u lm_end [OF assms(1)] using o by simp
  moreover have "(ucast (memory_data mem + ucast off - memory_data mem) :: u64) = off"
  proof -
    have "unat (ucast (ucast off :: u32) :: u64) = unat off"
      unfolding unat_ucast_u64 using small by (rule unat_ucast_u32)
    then have "(ucast (ucast off :: u32) :: u64) = off" by (rule unsigned_word_eqI)
    then show ?thesis by simp
  qed
  ultimately show "wasm_runtime_addr_native_to_app (Some mem) (wasm_runtime_addr_app_to_native (Some mem) off) = off"
    unfolding n wasm_runtime_addr_native_to_app_def by simp
next
  assume p: "memory_data mem \<le> p \<and> p < memory_data_end mem"
  then have "wasm_runtime_addr_native_to_app (Some mem) p = ucast (p - memory_data mem)"
    by (simp add: wasm_runtime_addr_native_to_app_def)
  then show "wasm_runtime_addr_app_to_native (Some mem) (wasm_runtime_addr_native_to_app (Some mem) p) = p"
    using p by (simp add: wasm_runtime_addr_app_to_native_def Let_def)
next
  have "memory_data mem + of_nat (unat off mod 2 ^ 32) \<noteq> 0" if "unat off mod 2 ^ 32 < lin_size mem"
    using memory_address_nonzero [OF assms, of "unat off mod 2 ^ 32"] that by simp
  then show "wasm_runtime_addr_app_to_native (Some mem) off = 0 \<longleftrightarrow> lin_size mem \<le> unat off mod 2 ^ 32"
    unfolding app_to_native_eq [OF assms(1)] by (auto simp del: of_nat_mod)
qed

theorem addr_conversion_roundtrip_witness:
  "wasm_runtime_addr_app_to_native (Some tiny_memory) 0x10000 = 0 \<and>
   wasm_runtime_addr_app_to_native (Some tiny_memory) 0x100000010 \<noteq> 0"
  using addr_conversion_roundtrip [of tiny_memory "0x10000" 0]
    addr_conversion_roundtrip [of tiny_memory "0x100000010" 0]
  by (simp add: tiny_memory_def lm_ok_def lin_size_def)

text \<open>The check of a native buffer is exact for sizes below 4 GiB. For the size \<open>2 ^ 32\<close> the guard
  against wrap-around wraps around itself, and every address of the memory passes.\<close>

lemma validate_native_addr_iff:
  assumes "lm_ok mem" "unat n < 2 ^ 32"
  shows "wasm_runtime_validate_native_addr (Some mem) p n \<longleftrightarrow>
    unat (memory_data mem) \<le> unat p \<and> unat p + unat n \<le> unat (memory_data_end mem)"
proof -
  have s: "unat (0xFFFFFFFF - n) = 0xFFFFFFFF - unat n"
    using assms(2) by (subst unat_sub) (simp_all add: word_le_nat_alt)
  have g: "(ucast p :: u64) > 0xFFFFFFFF - n \<longleftrightarrow> 2 ^ 32 \<le> unat p + unat n"
    unfolding word_less_nat_alt s using assms(2) by auto
  have m: "\<not> n > MAX_LINEAR_MEMORY_SIZE"
    using assms(2) by (simp add: word_less_nat_alt MAX_LINEAR_MEMORY_SIZE_def)
  have un: "unat (ucast n :: u32) = unat n"
    using assms(2) by (simp add: unsigned_ucast_eq take_bit_nat_eq_self)
  show ?thesis
  proof (cases "2 ^ 32 \<le> unat p + unat n")
    case True
    then show ?thesis using g m unat_u32_less [of "memory_data_end mem"]
      by (simp add: wasm_runtime_validate_native_addr_def)
  next
    case False
    then have "unat (p + ucast n) = unat p + unat n"
      using un by (simp add: unat_word_ariths)
    then show ?thesis using False g m
      by (simp add: wasm_runtime_validate_native_addr_def word_le_nat_alt)
  qed
qed

lemma validate_native_addr_4GiB:
  assumes "lm_ok mem" "memory_data mem \<le> p" "p \<le> memory_data_end mem"
  shows "wasm_runtime_validate_native_addr (Some mem) p 0x100000000"
proof -
  have "\<not> (0x100000000 :: u64) > MAX_LINEAR_MEMORY_SIZE" "(ucast (0x100000000 :: u64) :: u32) = 0"
    by (simp_all add: MAX_LINEAR_MEMORY_SIZE_def)
  moreover have "\<not> (ucast p :: u64) > 0xFFFFFFFF - 0x100000000"
    by (simp add: not_less)
  ultimately show ?thesis
    using assms(2,3) unfolding wasm_runtime_validate_native_addr_def option.case Let_def
    by (simp only: if_False if_True add_0_right simp_thms)
qed

end
