(* ===== verification/Utf8_Check.thy ===== *)
theory Utf8_Check
  imports Prelude
begin

text \<open>
  Names of a module: \<^verbatim>\<open>wasm_check_utf8_str\<close> of
  \<^verbatim>\<open>core/iwasm/interpreter/wasm_runtime.c\<close> against the encoding it stands for. A string is the
  list of its bytes, so that \<^verbatim>\<open>p + k < p_end\<close> says that more than \<open>k\<close> bytes are left.
\<close>

section \<open>The check\<close>

definition outside :: "u8 \<Rightarrow> u8 \<Rightarrow> u8 \<Rightarrow> bool" where
  "outside b lo hi \<longleftrightarrow> b < lo \<or> b > hi"

function wasm_check_utf8_str :: "u8 list \<Rightarrow> bool" where
  "wasm_check_utf8_str p =
     (if p = [] then True
      else
        let chr = p ! 0
        in if chr = 0 then False
           else if chr < 0x80 then wasm_check_utf8_str (drop 1 p)
           else if chr \<ge> 0xC2 \<and> chr \<le> 0xDF \<and> 1 < length p then
             (if outside (p ! 1) 0x80 0xBF then False else wasm_check_utf8_str (drop 2 p))
           else if chr \<ge> 0xE0 \<and> chr \<le> 0xEF \<and> 2 < length p then
             (if chr = 0xE0 then
                (if outside (p ! 1) 0xA0 0xBF \<or> outside (p ! 2) 0x80 0xBF then False
                 else wasm_check_utf8_str (drop 3 p))
              else if chr = 0xED then
                (if outside (p ! 1) 0x80 0x9F \<or> outside (p ! 2) 0x80 0xBF then False
                 else wasm_check_utf8_str (drop 3 p))
              else
                (if outside (p ! 1) 0x80 0xBF \<or> outside (p ! 2) 0x80 0xBF then False
                 else wasm_check_utf8_str (drop 3 p)))
           else if chr \<ge> 0xF0 \<and> chr \<le> 0xF4 \<and> 3 < length p then
             (if chr = 0xF0 then
                (if outside (p ! 1) 0x90 0xBF \<or> outside (p ! 2) 0x80 0xBF \<or> outside (p ! 3) 0x80 0xBF
                 then False else wasm_check_utf8_str (drop 4 p))
              else if chr \<le> 0xF3 then
                (if outside (p ! 1) 0x80 0xBF \<or> outside (p ! 2) 0x80 0xBF \<or> outside (p ! 3) 0x80 0xBF
                 then False else wasm_check_utf8_str (drop 4 p))
              else
                (if outside (p ! 1) 0x80 0x8F \<or> outside (p ! 2) 0x80 0xBF \<or> outside (p ! 3) 0x80 0xBF
                 then False else wasm_check_utf8_str (drop 4 p)))
           else False)"
  by pat_completeness auto
termination by (relation "measure length") auto

declare wasm_check_utf8_str.simps [simp del]

section \<open>The encoding\<close>

text \<open>The encoding form UTF-8 of the Unicode standard, for the scalar values other than 0.\<close>

definition scalar :: "nat \<Rightarrow> bool" where
  "scalar c \<longleftrightarrow> 0 < c \<and> c < 0x110000 \<and> \<not> (0xD800 \<le> c \<and> c < 0xE000)"

definition utf8 :: "nat \<Rightarrow> u8 list" where
  "utf8 c =
     (if c < 0x80 then [of_nat c]
      else if c < 0x800 then [of_nat (0xC0 + c div 64), of_nat (0x80 + c mod 64)]
      else if c < 0x10000 then
        [of_nat (0xE0 + c div 4096), of_nat (0x80 + c div 64 mod 64), of_nat (0x80 + c mod 64)]
      else [of_nat (0xF0 + c div 262144), of_nat (0x80 + c div 4096 mod 64),
            of_nat (0x80 + c div 64 mod 64), of_nat (0x80 + c mod 64)])"

text \<open>The same on the numbers of the bytes.\<close>

definition tail_ok :: "nat \<Rightarrow> bool" where "tail_ok b \<longleftrightarrow> 0x80 \<le> b \<and> b < 0xC0"

lemma byte_small: "n < 256 \<Longrightarrow> unat (of_nat n :: u8) = n"
  by (simp add: unat_of_nat)

lemma byte_number: "(b :: u8) = of_nat n \<longleftrightarrow> unat b = n" if "n < 256"
  using that by (auto simp: byte_small)

lemmas check_nat = wasm_check_utf8_str.simps Let_def outside_def word_le_nat_alt word_less_nat_alt

lemma check_one: "unat b < 0x80 \<Longrightarrow> wasm_check_utf8_str (b # bs) \<longleftrightarrow> 0 < unat b \<and> wasm_check_utf8_str bs"
  by (subst wasm_check_utf8_str.simps) (auto simp: Let_def word_less_nat_alt unat_gt_0)

lemma check_two:
  "0x80 \<le> unat b \<Longrightarrow> unat b < 0xE0 \<Longrightarrow>
   wasm_check_utf8_str (b # bs) \<longleftrightarrow> 0xC2 \<le> unat b \<and> (\<exists>b1 r. bs = b1 # r \<and> tail_ok (unat b1) \<and> wasm_check_utf8_str r)"
  by (subst wasm_check_utf8_str.simps; cases bs)
    (auto simp: Let_def outside_def word_le_nat_alt word_less_nat_alt tail_ok_def)

text \<open>The longer forms: first that they are not too short, then their bytes.\<close>

lemma long_short:
  "0xE0 \<le> unat b \<Longrightarrow> length bs < 2 \<Longrightarrow> \<not> wasm_check_utf8_str (b # bs)"
  "0xF0 \<le> unat b \<Longrightarrow> length bs < 3 \<Longrightarrow> \<not> wasm_check_utf8_str (b # bs)"
  by (subst wasm_check_utf8_str.simps; simp add: Let_def word_le_nat_alt word_less_nat_alt unat_gt_0 [symmetric]; fail)+

lemma check_three_bytes:
  assumes "0xE0 \<le> unat b" "unat b < 0xF0"
  shows "wasm_check_utf8_str (b # b1 # b2 # r) \<longleftrightarrow> tail_ok (unat b1) \<and> tail_ok (unat b2) \<and>
     (unat b = 0xE0 \<longrightarrow> 0xA0 \<le> unat b1) \<and> (unat b = 0xED \<longrightarrow> unat b1 < 0xA0) \<and> wasm_check_utf8_str r"
proof -
  have "b \<noteq> 0" using assms(1) by auto
  then have "wasm_check_utf8_str (b # b1 # b2 # r) \<longleftrightarrow>
     (if b = 0xE0 then \<not> outside b1 0xA0 0xBF \<and> \<not> outside b2 0x80 0xBF \<and> wasm_check_utf8_str r
      else if b = 0xED then \<not> outside b1 0x80 0x9F \<and> \<not> outside b2 0x80 0xBF \<and> wasm_check_utf8_str r
      else \<not> outside b1 0x80 0xBF \<and> \<not> outside b2 0x80 0xBF \<and> wasm_check_utf8_str r)"
    using assms by (subst wasm_check_utf8_str.simps) (simp add: Let_def word_le_nat_alt word_less_nat_alt)
  also have "\<dots> \<longleftrightarrow> tail_ok (unat b1) \<and> tail_ok (unat b2) \<and>
     (b = 0xE0 \<longrightarrow> 0xA0 \<le> unat b1) \<and> (b = 0xED \<longrightarrow> unat b1 < 0xA0) \<and> wasm_check_utf8_str r"
    by (cases "b = 0xE0"; cases "b = 0xED") (auto simp: outside_def tail_ok_def word_less_nat_alt)
  finally show ?thesis by (simp add: word_unat_eq_iff)
qed

lemma check_three:
  assumes "0xE0 \<le> unat b" "unat b < 0xF0"
  shows "wasm_check_utf8_str (b # bs) \<longleftrightarrow> (\<exists>b1 b2 r. bs = b1 # b2 # r \<and> tail_ok (unat b1) \<and> tail_ok (unat b2) \<and>
     (unat b = 0xE0 \<longrightarrow> 0xA0 \<le> unat b1) \<and> (unat b = 0xED \<longrightarrow> unat b1 < 0xA0) \<and> wasm_check_utf8_str r)"
proof (cases "length bs < 2")
  case True
  then show ?thesis using long_short(1) [OF assms(1)] by auto
next
  case False
  then obtain b1 b2 r where "bs = b1 # b2 # r" by (cases bs; cases "tl bs") auto
  then show ?thesis using check_three_bytes [OF assms] by simp
qed

lemma check_four_bytes:
  assumes "0xF0 \<le> unat b"
  shows "wasm_check_utf8_str (b # b1 # b2 # b3 # r) \<longleftrightarrow> unat b < 0xF5 \<and>
     tail_ok (unat b1) \<and> tail_ok (unat b2) \<and> tail_ok (unat b3) \<and>
     (unat b = 0xF0 \<longrightarrow> 0x90 \<le> unat b1) \<and> (unat b = 0xF4 \<longrightarrow> unat b1 < 0x90) \<and> wasm_check_utf8_str r"
proof (cases "unat b < 0xF5")
  case True
  have z: "b \<noteq> 0" using assms by auto
  have "wasm_check_utf8_str (b # b1 # b2 # b3 # r) \<longleftrightarrow>
     (if b = 0xF0 then \<not> outside b1 0x90 0xBF \<and> \<not> outside b2 0x80 0xBF \<and> \<not> outside b3 0x80 0xBF \<and> wasm_check_utf8_str r
      else if b \<le> 0xF3 then \<not> outside b1 0x80 0xBF \<and> \<not> outside b2 0x80 0xBF \<and> \<not> outside b3 0x80 0xBF \<and> wasm_check_utf8_str r
      else \<not> outside b1 0x80 0x8F \<and> \<not> outside b2 0x80 0xBF \<and> \<not> outside b3 0x80 0xBF \<and> wasm_check_utf8_str r)"
    using assms True z by (subst wasm_check_utf8_str.simps) (simp add: Let_def word_le_nat_alt word_less_nat_alt)
  moreover have "b \<le> 0xF3 \<longleftrightarrow> unat b \<noteq> 0xF4" "b = 0xF0 \<longleftrightarrow> unat b = 0xF0"
    using True by (auto simp: word_le_nat_alt word_unat_eq_iff)
  ultimately show ?thesis
    using True by (cases "unat b = 0xF0"; cases "unat b = 0xF4") (auto simp: outside_def tail_ok_def word_less_nat_alt)
next
  case False
  then have "b \<noteq> 0" by auto
  then have "\<not> wasm_check_utf8_str (b # b1 # b2 # b3 # r)"
    using False by (subst wasm_check_utf8_str.simps) (simp add: Let_def word_le_nat_alt word_less_nat_alt)
  with False show ?thesis by simp
qed

lemma check_four:
  assumes "0xF0 \<le> unat b"
  shows "wasm_check_utf8_str (b # bs) \<longleftrightarrow> unat b < 0xF5 \<and> (\<exists>b1 b2 b3 r. bs = b1 # b2 # b3 # r \<and>
     tail_ok (unat b1) \<and> tail_ok (unat b2) \<and> tail_ok (unat b3) \<and>
     (unat b = 0xF0 \<longrightarrow> 0x90 \<le> unat b1) \<and> (unat b = 0xF4 \<longrightarrow> unat b1 < 0x90) \<and> wasm_check_utf8_str r)"
proof (cases "length bs < 3")
  case True
  then show ?thesis using long_short(2) [OF assms] by auto
next
  case False
  then obtain b1 b2 b3 r where "bs = b1 # b2 # b3 # r" by (cases bs; cases "tl bs"; cases "tl (tl bs)") auto
  then show ?thesis using check_four_bytes [OF assms] by simp
qed


section \<open>The check accepts the encodings\<close>

lemma utf8_forms:
  "n < 0x80 \<Longrightarrow> utf8 n = [of_nat n]"
  "r0 < 64 \<Longrightarrow> 2 \<le> q \<Longrightarrow> q < 32 \<Longrightarrow> utf8 (64 * q + r0) = [of_nat (0xC0 + q), of_nat (0x80 + r0)]"
  "r0 < 64 \<Longrightarrow> r1 < 64 \<Longrightarrow> 0 < q \<or> 32 \<le> r1 \<Longrightarrow> q < 16 \<Longrightarrow>
     utf8 (4096 * q + 64 * r1 + r0) = [of_nat (0xE0 + q), of_nat (0x80 + r1), of_nat (0x80 + r0)]"
  "r0 < 64 \<Longrightarrow> r1 < 64 \<Longrightarrow> r2 < 64 \<Longrightarrow> 0 < q \<or> 16 \<le> r2 \<Longrightarrow>
     utf8 (262144 * q + 4096 * r2 + 64 * r1 + r0) =
       [of_nat (0xF0 + q), of_nat (0x80 + r2), of_nat (0x80 + r1), of_nat (0x80 + r0)]"
proof -
  show "utf8 n = [of_nat n]" if "n < 0x80" using that by (simp add: utf8_def)
  show "utf8 (64 * q + r0) = [of_nat (0xC0 + q), of_nat (0x80 + r0)]" if "r0 < 64" "2 \<le> q" "q < 32"
  proof -
    have "(64 * q + r0) div 64 = q" "(64 * q + r0) mod 64 = r0" using that(1) by simp_all
    then show ?thesis using that by (simp add: utf8_def)
  qed
  show "utf8 (4096 * q + 64 * r1 + r0) = [of_nat (0xE0 + q), of_nat (0x80 + r1), of_nat (0x80 + r0)]"
    if "r0 < 64" "r1 < 64" "0 < q \<or> 32 \<le> r1" "q < 16"
  proof -
    let ?c = "4096 * q + 64 * r1 + r0"
    have d: "?c div 4096 = q" using that(1,2) by (intro div_nat_eqI) simp_all
    have d1: "?c div 64 = 64 * q + r1" using that(1) by (intro div_nat_eqI) simp_all
    have e: "?c = r0 + 64 * (64 * q + r1)" by simp
    have "?c mod 64 = r0" using that(1) by (simp only: e mod_mult_self2 mod_less)
    moreover have "?c div 64 mod 64 = r1" unfolding d1 using that(2) by simp
    moreover have "0x800 \<le> ?c" "?c < 0x10000" using that by linarith+
    ultimately show ?thesis using d that by (simp add: utf8_def)
  qed
  show "utf8 (262144 * q + 4096 * r2 + 64 * r1 + r0) =
       [of_nat (0xF0 + q), of_nat (0x80 + r2), of_nat (0x80 + r1), of_nat (0x80 + r0)]"
    if "r0 < 64" "r1 < 64" "r2 < 64" "0 < q \<or> 16 \<le> r2"
  proof -
    let ?c = "262144 * q + 4096 * r2 + 64 * r1 + r0"
    have d: "?c div 262144 = q" using that(1-3) by (intro div_nat_eqI) simp_all
    have d2: "?c div 4096 = 64 * q + r2" using that(1,2) by (intro div_nat_eqI) simp_all
    have d1: "?c div 64 = 64 * (64 * q + r2) + r1" using that(1) by (intro div_nat_eqI) simp_all
    have e: "?c = r0 + 64 * (64 * (64 * q + r2) + r1)" by simp
    have "?c mod 64 = r0" using that(1) by (simp only: e mod_mult_self2 mod_less)
    moreover have "?c div 64 mod 64 = r1" using that(2) by (simp only: d1 add.commute [of _ r1] mod_mult_self2 mod_less)
    moreover have "?c div 4096 mod 64 = r2" unfolding d2 using that(3) by simp
    moreover have "0x10000 \<le> ?c" using that(4) by linarith
    ultimately show ?thesis using d that by (simp add: utf8_def)
  qed
qed

text \<open>Every scalar value has one of these forms.\<close>

lemma digits64: "(n :: nat) = 64 * (n div 64) + n mod 64" "n mod 64 < 64"
  by simp_all

lemma scalar_forms:
  assumes "scalar c"
  obtains (one) "0 < c" "c < 0x80"
  | (two) q r0 where "c = 64 * q + r0" "r0 < 64" "2 \<le> q" "q < 32"
  | (three) q r1 r0 where "c = 4096 * q + 64 * r1 + r0" "r0 < 64" "r1 < 64" "0 < q \<or> 32 \<le> r1" "q < 16" "q \<noteq> 13 \<or> r1 < 32"
  | (four) q r2 r1 r0 where "c = 262144 * q + 4096 * r2 + 64 * r1 + r0" "r0 < 64" "r1 < 64" "r2 < 64"
      "0 < q \<or> 16 \<le> r2" "q < 4 \<or> q = 4 \<and> r2 < 16"
proof -
  define r0 where "r0 = c mod 64"
  define r1 where "r1 = c div 64 mod 64"
  define r2 where "r2 = c div 4096 mod 64"
  have c1: "c = 64 * (c div 64) + r0" by (simp add: r0_def)
  have "c div 64 = 64 * (c div 64 div 64) + r1" by (simp add: r1_def)
  then have c2: "c = 4096 * (c div 4096) + 64 * r1 + r0" using c1 by (simp add: div_mult2_eq [of c 64 64, simplified])
  have "c div 4096 = 64 * (c div 4096 div 64) + r2" by (simp add: r2_def)
  then have c3: "c = 262144 * (c div 262144) + 4096 * r2 + 64 * r1 + r0"
    using c2 by (simp add: div_mult2_eq [of c 4096 64, simplified])
  have r: "r0 < 64" "r1 < 64" "r2 < 64" by (simp_all add: r0_def r1_def r2_def)
  have s: "0 < c" "c < 0x110000" "c < 0xD800 \<or> 0xE000 \<le> c" using assms by (auto simp: scalar_def)
  consider "c < 0x80" | "0x80 \<le> c" "c < 0x800" | "0x800 \<le> c" "c < 0x10000" | "0x10000 \<le> c" by linarith
  then show thesis
  proof cases
    case 1
    then show thesis using s one by simp
  next
    case 2
    then show thesis using c1 r by (intro two [of "c div 64" r0]) simp_all
  next
    case 3
    have "0 < c div 4096 \<or> 32 \<le> r1" "c div 4096 < 16" "c div 4096 \<noteq> 13 \<or> r1 < 32" using c2 r s 3 by linarith+
    then show thesis using c2 r by (intro three [of "c div 4096" r1 r0])
  next
    case 4
    have "0 < c div 262144 \<or> 16 \<le> r2" "c div 262144 < 4 \<or> c div 262144 = 4 \<and> r2 < 16" using c3 r s 4 by linarith+
    then show thesis using c3 r by (intro four [of "c div 262144" r2 r1 r0])
  qed
qed

lemma check_utf8:
  assumes "scalar c"
  shows "wasm_check_utf8_str (utf8 c @ r) \<longleftrightarrow> wasm_check_utf8_str r"
  using assms
proof (cases rule: scalar_forms)
  case one
  then show ?thesis using check_one [of "of_nat c" r] by (simp add: utf8_forms(1) byte_small)
next
  case (two q r0)
  show ?thesis unfolding two(1) utf8_forms(2) [OF two(2-4)]
    using two check_two [of "of_nat (0xC0 + q)"] by (simp add: byte_small tail_ok_def del: of_nat_add)
next
  case (three q r1 r0)
  show ?thesis unfolding three(1) utf8_forms(3) [OF three(2-5)]
    using three check_three_bytes [of "of_nat (0xE0 + q)"] by (simp add: byte_small tail_ok_def del: of_nat_add) linarith
next
  case (four q r2 r1 r0)
  have "q < 5" using four(6) by auto
  then show ?thesis unfolding four(1) utf8_forms(4) [OF four(2-5)]
    using four check_four_bytes [of "of_nat (0xF0 + q)"] by (simp add: byte_small tail_ok_def del: of_nat_add) linarith
qed

text \<open>And back: what the check accepts starts with an encoding.\<close>

lemma byte_from: "lo \<le> unat (b :: u8) \<Longrightarrow> of_nat (lo + (unat b - lo)) = b"
  by simp

lemma scalar_three:
  assumes "r0 < 64" "r1 < 64" "0 < q \<or> 32 \<le> r1" "q < 16" "q \<noteq> 13 \<or> r1 < 32"
  shows "scalar (4096 * q + 64 * r1 + r0)"
proof -
  let ?c = "4096 * q + 64 * r1 + r0"
  have "0 < ?c" "?c < 0x110000" using assms(1-4) by linarith+
  moreover have "?c < 0xD800 \<or> 0xE000 \<le> ?c"
  proof (cases "q < 14")
    case True
    then have "?c < 0xD800" using assms(1,2,5) by linarith
    then show ?thesis ..
  qed simp
  ultimately show ?thesis unfolding scalar_def by linarith
qed

lemma scalar_four:
  assumes "r0 < 64" "r1 < 64" "r2 < 64" "0 < q \<or> 16 \<le> r2" "q < 4 \<or> q = 4 \<and> r2 < 16"
  shows "scalar (262144 * q + 4096 * r2 + 64 * r1 + r0)"
proof -
  let ?c = "262144 * q + 4096 * r2 + 64 * r1 + r0"
  have "0x10000 \<le> ?c" "?c < 0x110000" using assms by linarith+
  then show ?thesis unfolding scalar_def by linarith
qed

lemma check_first:
  assumes "wasm_check_utf8_str (b # bs)"
  shows "\<exists>c r. scalar c \<and> b # bs = utf8 c @ r \<and> wasm_check_utf8_str r"
proof -
  consider "unat b < 0x80" | "0x80 \<le> unat b" "unat b < 0xE0" | "0xE0 \<le> unat b" "unat b < 0xF0" | "0xF0 \<le> unat b" by linarith
  then show ?thesis
  proof cases
    case 1
    then have "utf8 (unat b) = [b]" "scalar (unat b)" using assms check_one [OF 1] by (simp_all add: utf8_forms(1) scalar_def)
    then show ?thesis using assms check_one [OF 1] by (intro exI [of _ "unat b"] exI [of _ bs]) simp
  next
    case 2
    with assms check_two [OF 2, of bs] obtain b1 r where b: "0xC2 \<le> unat b" "bs = b1 # r" "tail_ok (unat b1)" "wasm_check_utf8_str r"
      by auto
    let ?q = "unat b - 0xC0" and ?r0 = "unat b1 - 0x80"
    have l: "?r0 < 64" "2 \<le> ?q" "?q < 32" using b(1,3) 2 by (auto simp: tail_ok_def)
    have "utf8 (64 * ?q + ?r0) = [b, b1]" unfolding utf8_forms(2) [OF l] using b 2 by (simp add: byte_from tail_ok_def del: of_nat_add)
    moreover have "scalar (64 * ?q + ?r0)" using l unfolding scalar_def by linarith
    ultimately show ?thesis using b by (intro exI [of _ "64 * ?q + ?r0"] exI [of _ r]) simp
  next
    case 3
    with assms check_three [OF 3, of bs] obtain b1 b2 r where b: "bs = b1 # b2 # r" "tail_ok (unat b1)" "tail_ok (unat b2)"
      "unat b = 0xE0 \<longrightarrow> 0xA0 \<le> unat b1" "unat b = 0xED \<longrightarrow> unat b1 < 0xA0" "wasm_check_utf8_str r" by auto
    let ?q = "unat b - 0xE0" and ?r1 = "unat b1 - 0x80" and ?r0 = "unat b2 - 0x80"
    have l: "?r0 < 64" "?r1 < 64" "0 < ?q \<or> 32 \<le> ?r1" "?q < 16" using b(2-5) 3 by (auto simp: tail_ok_def)
    have "utf8 (4096 * ?q + 64 * ?r1 + ?r0) = [b, b1, b2]"
      unfolding utf8_forms(3) [OF l] using b 3 by (simp add: byte_from tail_ok_def del: of_nat_add)
    moreover have "?q \<noteq> 13 \<or> ?r1 < 32" using b(5) 3 by auto
    then have "scalar (4096 * ?q + 64 * ?r1 + ?r0)" by (rule scalar_three [OF l])
    ultimately show ?thesis using b by (intro exI [of _ "4096 * ?q + 64 * ?r1 + ?r0"] exI [of _ r]) simp
  next
    case 4
    with assms check_four [OF 4, of bs] obtain b1 b2 b3 r where b: "unat b < 0xF5" "bs = b1 # b2 # b3 # r"
      "tail_ok (unat b1)" "tail_ok (unat b2)" "tail_ok (unat b3)"
      "unat b = 0xF0 \<longrightarrow> 0x90 \<le> unat b1" "unat b = 0xF4 \<longrightarrow> unat b1 < 0x90" "wasm_check_utf8_str r" by auto
    let ?q = "unat b - 0xF0" and ?r2 = "unat b1 - 0x80" and ?r1 = "unat b2 - 0x80" and ?r0 = "unat b3 - 0x80"
    have l: "?r0 < 64" "?r1 < 64" "?r2 < 64" "0 < ?q \<or> 16 \<le> ?r2" using b(1,3-6) 4 by (auto simp: tail_ok_def)
    have "utf8 (262144 * ?q + 4096 * ?r2 + 64 * ?r1 + ?r0) = [b, b1, b2, b3]"
      unfolding utf8_forms(4) [OF l] using b 4 by (simp add: byte_from tail_ok_def del: of_nat_add)
    moreover have "?q < 4 \<or> ?q = 4 \<and> ?r2 < 16" using b(1,7) 4 by auto
    then have "scalar (262144 * ?q + 4096 * ?r2 + 64 * ?r1 + ?r0)" by (rule scalar_four [OF l])
    ultimately show ?thesis using b by (intro exI [of _ "262144 * ?q + 4096 * ?r2 + 64 * ?r1 + ?r0"] exI [of _ r]) simp
  qed
qed

text \<open>C27: the check of names is exact. A byte string passes it if and only if it is the UTF-8 encoding of a sequence of
  Unicode scalar values other than U+0000, which the check refuses: no overlong forms, no surrogates, nothing beyond U+10FFFF and
  nothing cut off at the end.\<close>

theorem utf8_check_exact:
  "wasm_check_utf8_str p \<longleftrightarrow> (\<exists>cs. list_all scalar cs \<and> p = concat (map utf8 cs))"
proof
  assume "wasm_check_utf8_str p"
  then show "\<exists>cs. list_all scalar cs \<and> p = concat (map utf8 cs)"
  proof (induction "length p" arbitrary: p rule: less_induct)
    case less
    show ?case
    proof (cases p)
      case Nil
      then show ?thesis by (intro exI [of _ "[]"]) simp
    next
      case (Cons b bs)
      with check_first less.prems obtain c r where c: "scalar c" "p = utf8 c @ r" "wasm_check_utf8_str r" by metis
      have "length r < length p" using c(2) by (simp add: utf8_def)
      from less.hyps [OF this c(3)] obtain cs where "list_all scalar cs" "r = concat (map utf8 cs)" by blast
      with c show ?thesis by (intro exI [of _ "c # cs"]) simp
    qed
  qed
next
  assume "\<exists>cs. list_all scalar cs \<and> p = concat (map utf8 cs)"
  then obtain cs where "list_all scalar cs" "p = concat (map utf8 cs)" by blast
  then show "wasm_check_utf8_str p"
    by (induction cs arbitrary: p) (simp_all add: check_utf8 wasm_check_utf8_str.simps [of "[]"])
qed

end
