(* ===== verification/Loader_Stack.thy ===== *)
theory Loader_Stack
  imports Module_Sections
begin

text \<open>
  The two stacks of the code validator (\<^verbatim>\<open>core/iwasm/interpreter/wasm_loader.c\<close> and
  \<^verbatim>\<open>wasm.h\<close>): the stack of operand cells, in which every 4-byte cell holds the type of the
  value it belongs to, and the stack of control blocks. The operations are those of the
  build without fast interpreter, garbage collection and reference types.

  A C stack that grows upwards is a list with its top first: \<open>frame_ref\<close> holds the
  bytes from \<^verbatim>\<open>frame_ref_bottom\<close> up to the stack pointer, \<open>frame_csp\<close> the blocks, so that
  \<^verbatim>\<open>frame_csp - 1\<close> is the head. The counters are natural numbers: the checks at 65535 keep
  them far from \<open>2 ^ 32\<close>, and the differences the code casts to \<open>int32\<close> are integers here.
  Whether the heap can provide \<open>n\<close> bytes is the parameter \<open>av n\<close>.
\<close>

section \<open>Types and their cells\<close>

definition wasm_value_type_size :: "u8 \<Rightarrow> nat" where
  "wasm_value_type_size value_type =
     (if value_type = VALUE_TYPE_VOID then 0
      else if value_type = VALUE_TYPE_I32 \<or> value_type = VALUE_TYPE_F32
              \<or> value_type = VALUE_TYPE_ANY then 4
      else if value_type = VALUE_TYPE_I64 \<or> value_type = VALUE_TYPE_F64 then 8
      else 0)"

definition wasm_value_type_cell_num :: "u8 \<Rightarrow> nat" where
  "wasm_value_type_cell_num value_type = wasm_value_type_size value_type div 4"

definition wasm_get_cell_num :: "u8 list \<Rightarrow> nat" where
  "wasm_get_cell_num types = foldl (\<lambda>n t. n + wasm_value_type_cell_num t) 0 types"

definition is_32bit_type :: "u8 \<Rightarrow> bool" where
  "is_32bit_type type \<longleftrightarrow>
     type = VALUE_TYPE_I32 \<or> type = VALUE_TYPE_F32 \<or> type = VALUE_TYPE_ANY"

definition is_64bit_type :: "u8 \<Rightarrow> bool" where
  "is_64bit_type type \<longleftrightarrow> type = VALUE_TYPE_I64 \<or> type = VALUE_TYPE_F64"

definition type2str :: "u8 \<Rightarrow> string" where
  "type2str type =
     (if VALUE_TYPE_V128 \<le> type \<and> type \<le> VALUE_TYPE_I32
      then [''v128'', ''f64'', ''f32'', ''i64'', ''i32''] ! unat (type - VALUE_TYPE_V128)
      else if type = VALUE_TYPE_FUNCREF then ''funcref''
      else if type = VALUE_TYPE_EXTERNREF then ''externref''
      else ''unknown type'')"

section \<open>Function types, block types, blocks\<close>

record WASMFuncType =
  param_count :: nat
  result_count :: nat
  types :: "u8 list"

datatype BlockType = Value_type u8 | Type_index WASMFuncType

fun block_type_get_param_types :: "BlockType \<Rightarrow> u8 list" where
  "block_type_get_param_types (Value_type t) = []"
| "block_type_get_param_types (Type_index ft) = take (param_count ft) (types ft)"

fun block_type_get_result_types :: "BlockType \<Rightarrow> u8 list" where
  "block_type_get_result_types (Value_type t) = (if t \<noteq> VALUE_TYPE_VOID then [t] else [])"
| "block_type_get_result_types (Type_index ft) =
     take (result_count ft) (drop (param_count ft) (types ft))"

definition LABEL_TYPE_BLOCK :: u8 where "LABEL_TYPE_BLOCK = 0"
definition LABEL_TYPE_LOOP :: u8 where "LABEL_TYPE_LOOP = 1"
definition LABEL_TYPE_IF :: u8 where "LABEL_TYPE_IF = 2"
definition LABEL_TYPE_FUNCTION :: u8 where "LABEL_TYPE_FUNCTION = 3"

lemmas label_type_defs =
  LABEL_TYPE_BLOCK_def LABEL_TYPE_LOOP_def LABEL_TYPE_IF_def LABEL_TYPE_FUNCTION_def

definition block_type_get_arity :: "BlockType \<Rightarrow> u8 \<Rightarrow> nat" where
  "block_type_get_arity bt label =
     (if label = LABEL_TYPE_LOOP
      then (case bt of Value_type t \<Rightarrow> 0 | Type_index ft \<Rightarrow> param_count ft)
      else (case bt of Value_type t \<Rightarrow> if t \<noteq> VALUE_TYPE_VOID then 1 else 0
                     | Type_index ft \<Rightarrow> result_count ft))"

record BranchBlock =
  label_type :: u8
  block_type :: BlockType
  start_addr :: u32
  else_addr :: u32
  end_addr :: u32
  block_stack_cell_num :: nat
  is_stack_polymorphic :: bool

record WASMLoaderContext =
  frame_ref :: "u8 list"
  frame_ref_size :: nat
  stack_cell_num :: nat
  max_stack_cell_num :: nat
  frame_csp :: "BranchBlock list"
  frame_csp_size :: nat
  csp_num :: nat
  max_csp_num :: nat

text \<open>\<open>sizeof (BranchBlock)\<close> on the 32-bit target: the label with its padding, the block
  type, three pointers, the cell number and the flag with its padding.\<close>

definition sizeof_BranchBlock :: nat where
  "sizeof_BranchBlock = 4 + 8 + 3 * 4 + 4 + 4"

definition sizeof_WASMLoaderContext :: nat where
  "sizeof_WASMLoaderContext = 6 * 4 + 6 * 4"

definition alloc_failed :: string where "alloc_failed = ''allocate memory failed''"

definition wasm_loader_ctx_init :: "(nat \<Rightarrow> bool) \<Rightarrow> string + WASMLoaderContext" where
  "wasm_loader_ctx_init av =
     (if \<not> av sizeof_WASMLoaderContext then Inl alloc_failed
      else if \<not> av 32 then Inl alloc_failed
      else if \<not> av (sizeof_BranchBlock * 8) then Inl alloc_failed
      else Inr \<lparr>frame_ref = [], frame_ref_size = 32, stack_cell_num = 0,
                max_stack_cell_num = 0, frame_csp = [],
                frame_csp_size = sizeof_BranchBlock * 8, csp_num = 0, max_csp_num = 0\<rparr>)"

section \<open>The operand stack\<close>

definition check_stack_push ::
  "(nat \<Rightarrow> bool) \<Rightarrow> WASMLoaderContext \<Rightarrow> u8 \<Rightarrow> string + WASMLoaderContext" where
  "check_stack_push av ctx type =
     (let cell_num_needed = wasm_value_type_cell_num type
      in if length (frame_ref ctx) + cell_num_needed > frame_ref_size ctx then
           if av (frame_ref_size ctx + 16)
           then Inr (ctx\<lparr>frame_ref_size := frame_ref_size ctx + 16\<rparr>)
           else Inl alloc_failed
         else Inr ctx)"

definition stack_depth_exceeded :: string where
  "stack_depth_exceeded = ''operand stack depth limit exceeded''"

definition wasm_loader_push_frame_ref ::
  "(nat \<Rightarrow> bool) \<Rightarrow> WASMLoaderContext \<Rightarrow> u8 \<Rightarrow> string + WASMLoaderContext" where
  "wasm_loader_push_frame_ref av ctx type =
     bindE (check_stack_push av ctx type) (\<lambda>ctx.
       let type_cell_num = wasm_value_type_cell_num type;
           ctx = ctx\<lparr>frame_ref := replicate type_cell_num type @ frame_ref ctx,
                     stack_cell_num := stack_cell_num ctx + type_cell_num\<rparr>
       in if stack_cell_num ctx > max_stack_cell_num ctx then
            let ctx = ctx\<lparr>max_stack_cell_num := stack_cell_num ctx\<rparr>
            in if max_stack_cell_num ctx > 65535 then Inl stack_depth_exceeded else Inr ctx
          else Inr ctx)"

definition expect_data :: string where
  "expect_data = ''type mismatch: expect data but stack was empty''"

definition got_other :: "u8 \<Rightarrow> string" where
  "got_other type = ''type mismatch: expect '' @ type2str type @ '' but got other''"

definition check_stack_top_values :: "u8 list \<Rightarrow> int \<Rightarrow> u8 \<Rightarrow> string + unit" where
  "check_stack_top_values fr cells type =
     (let type_cell_num = wasm_value_type_cell_num type
      in if cells < int type_cell_num then Inl expect_data
         else if \<not> list_all (\<lambda>t. t = type) (take type_cell_num fr) then Inl (got_other type)
         else Inr ())"

definition top_is_any :: "u8 list \<Rightarrow> bool" where
  "top_is_any fr \<longleftrightarrow> take 1 fr = [VALUE_TYPE_ANY]"

definition available_cells :: "WASMLoaderContext \<Rightarrow> BranchBlock \<Rightarrow> int" where
  "available_cells ctx b = int (stack_cell_num ctx) - int (block_stack_cell_num b)"

definition check_stack_pop :: "WASMLoaderContext \<Rightarrow> u8 \<Rightarrow> string + unit" where
  "check_stack_pop ctx type =
     (let block_cells = available_cells ctx (hd (frame_csp ctx))
      in if block_cells > 0 \<and> top_is_any (frame_ref ctx) then Inr ()
         else check_stack_top_values (frame_ref ctx) block_cells type)"

definition wasm_loader_pop_frame_ref ::
  "WASMLoaderContext \<Rightarrow> u8 \<Rightarrow> string + WASMLoaderContext" where
  "wasm_loader_pop_frame_ref ctx type =
     (let cur_block = hd (frame_csp ctx)
      in if available_cells ctx cur_block \<le> 0 \<and> is_stack_polymorphic cur_block then Inr ctx
         else if type = VALUE_TYPE_VOID then Inr ctx
         else bindE (check_stack_pop ctx type) (\<lambda>_.
           let cell_num_to_pop =
                 (if top_is_any (frame_ref ctx) then 1 else wasm_value_type_cell_num type)
           in Inr (ctx\<lparr>frame_ref := drop cell_num_to_pop (frame_ref ctx),
                       stack_cell_num := stack_cell_num ctx - cell_num_to_pop\<rparr>)))"

fun pop_frame_refs :: "WASMLoaderContext \<Rightarrow> u8 list \<Rightarrow> string + WASMLoaderContext" where
  "pop_frame_refs ctx [] = Inr ctx"
| "pop_frame_refs ctx (t # ts) =
     bindE (wasm_loader_pop_frame_ref ctx t) (\<lambda>ctx. pop_frame_refs ctx ts)"

fun push_frame_refs ::
  "(nat \<Rightarrow> bool) \<Rightarrow> WASMLoaderContext \<Rightarrow> u8 list \<Rightarrow> string + WASMLoaderContext" where
  "push_frame_refs av ctx [] = Inr ctx"
| "push_frame_refs av ctx (t # ts) =
     bindE (wasm_loader_push_frame_ref av ctx t) (\<lambda>ctx. push_frame_refs av ctx ts)"

definition wasm_loader_push_pop_frame_ref ::
  "(nat \<Rightarrow> bool) \<Rightarrow> WASMLoaderContext \<Rightarrow> nat \<Rightarrow> u8 \<Rightarrow> u8 \<Rightarrow> string + WASMLoaderContext" where
  "wasm_loader_push_pop_frame_ref av ctx pop_cnt type_push type_pop =
     bindE (pop_frame_refs ctx (replicate pop_cnt type_pop))
       (\<lambda>ctx. wasm_loader_push_frame_ref av ctx type_push)"

section \<open>The block stack\<close>

definition wasm_loader_push_frame_csp ::
  "(nat \<Rightarrow> bool) \<Rightarrow> WASMLoaderContext \<Rightarrow> u8 \<Rightarrow> BlockType \<Rightarrow> u32 \<Rightarrow> string + WASMLoaderContext" where
  "wasm_loader_push_frame_csp av ctx label btype start =
     bindE (if length (frame_csp ctx) \<ge> frame_csp_size ctx div sizeof_BranchBlock then
              if av (frame_csp_size ctx + 8 * sizeof_BranchBlock)
              then Inr (ctx\<lparr>frame_csp_size := frame_csp_size ctx + 8 * sizeof_BranchBlock\<rparr>)
              else Inl alloc_failed
            else Inr ctx) (\<lambda>ctx.
       let ctx = ctx\<lparr>frame_csp := \<lparr>label_type = label, block_type = btype, start_addr = start,
                       else_addr = 0, end_addr = 0, block_stack_cell_num = stack_cell_num ctx,
                       is_stack_polymorphic = False\<rparr> # frame_csp ctx,
                     csp_num := csp_num ctx + 1\<rparr>
       in if csp_num ctx > max_csp_num ctx then
            let ctx = ctx\<lparr>max_csp_num := csp_num ctx\<rparr>
            in if max_csp_num ctx > 65535 then Inl ''label stack depth limit exceeded'' else Inr ctx
          else Inr ctx)"

definition wasm_loader_pop_frame_csp :: "WASMLoaderContext \<Rightarrow> string + WASMLoaderContext" where
  "wasm_loader_pop_frame_csp ctx =
     (if csp_num ctx < 1 then Inl ''type mismatch: expect data but block stack was empty''
      else Inr (ctx\<lparr>frame_csp := tl (frame_csp ctx), csp_num := csp_num ctx - 1\<rparr>))"

definition reset_stack :: "WASMLoaderContext \<Rightarrow> WASMLoaderContext" where
  "reset_stack ctx =
     (let n = block_stack_cell_num (hd (frame_csp ctx))
      in ctx\<lparr>stack_cell_num := n,
             frame_ref := drop (length (frame_ref ctx) - n) (frame_ref ctx)\<rparr>)"

definition set_polymorphic :: "bool \<Rightarrow> WASMLoaderContext \<Rightarrow> WASMLoaderContext" where
  "set_polymorphic flag ctx =
     ctx\<lparr>frame_csp := (hd (frame_csp ctx))\<lparr>is_stack_polymorphic := flag\<rparr> # tl (frame_csp ctx)\<rparr>"

section \<open>Branches and the ends of blocks\<close>

definition WASM_OP_BR_TABLE :: u8 where "WASM_OP_BR_TABLE = 0x0e"

definition label_types :: "BranchBlock \<Rightarrow> u8 list" where
  "label_types b = (if label_type b = LABEL_TYPE_LOOP
     then block_type_get_param_types (block_type b)
     else block_type_get_result_types (block_type b))"

fun check_top_types :: "bool \<Rightarrow> u8 list \<Rightarrow> int \<Rightarrow> u8 list \<Rightarrow> string + unit" where
  "check_top_types poly fr avail [] = Inr ()"
| "check_top_types poly fr avail (t # ts) =
     (if avail \<le> 0 \<and> poly then Inr ()
      else bindE (check_stack_top_values fr avail t) (\<lambda>_.
        check_top_types poly (drop (wasm_value_type_cell_num t) fr)
          (avail - int (wasm_value_type_cell_num t)) ts))"

text \<open>For \<^verbatim>\<open>br_table\<close> the operands are saved before the labels are pushed and written back
  afterwards: the top \<open>total\<close> cells of the old stack over what lies above the height after
  the pops.\<close>

definition wasm_loader_check_br ::
  "(nat \<Rightarrow> bool) \<Rightarrow> WASMLoaderContext \<Rightarrow> u32 \<Rightarrow> u8 \<Rightarrow> string + WASMLoaderContext" where
  "wasm_loader_check_br av ctx depth opcode =
     (if csp_num ctx - 1 < unat depth
      then Inl ''unknown label, unexpected end of section or function''
      else
        let cur_block = hd (frame_csp ctx);
            target_block = frame_csp ctx ! unat depth;
            ts = label_types target_block
        in if is_stack_polymorphic cur_block then
             bindE (pop_frame_refs ctx (rev ts)) (\<lambda>ctx1.
               let total = length (frame_ref ctx) - length (frame_ref ctx1)
               in if opcode = WASM_OP_BR_TABLE then
                    if total > 4 \<and> \<not> av total then Inl alloc_failed
                    else bindE (push_frame_refs av ctx1 ts) (\<lambda>ctx2.
                      Inr (ctx2\<lparr>stack_cell_num := stack_cell_num ctx,
                        frame_ref := take total (frame_ref ctx) @
                          drop (length (frame_ref ctx2) - length (frame_ref ctx1)) (frame_ref ctx2)\<rparr>))
                  else push_frame_refs av ctx1 ts)
           else bindE (check_top_types (is_stack_polymorphic cur_block) (frame_ref ctx)
                         (available_cells ctx cur_block) (rev ts)) (\<lambda>_. Inr ctx))"

definition check_block_stack ::
  "(nat \<Rightarrow> bool) \<Rightarrow> WASMLoaderContext \<Rightarrow> BranchBlock \<Rightarrow> string + WASMLoaderContext" where
  "check_block_stack av ctx block =
     (let ts = block_type_get_result_types (block_type block);
          avail = available_cells ctx block;
          return_cell_num = wasm_get_cell_num ts;
          err = ''type mismatch: stack size does not match block type''
      in if is_stack_polymorphic block then
           bindE (pop_frame_refs ctx (rev ts)) (\<lambda>ctx.
             if stack_cell_num ctx \<noteq> block_stack_cell_num block then Inl err
             else push_frame_refs av ctx ts)
         else if avail \<noteq> int return_cell_num then Inl err
         else bindE (check_top_types False (frame_ref ctx) avail (rev ts)) (\<lambda>_. Inr ctx))"

section \<open>The typed operand stack\<close>

text \<open>The specification of the two stacks is the validation algorithm of the WebAssembly
  standard: a stack of values' types for every open block. \<open>cells_of\<close> are the cells a
  stack of types occupies; \<open>stack_rel\<close> relates the one array of cells and the blocks'
  heights to one list of types per block. The type \<open>VALUE_TYPE_ANY\<close> stands for the unknown
  type; the code pushes it only at the bottom of a block whose rest is unreachable.\<close>

definition cells_of :: "u8 list \<Rightarrow> u8 list" where
  "cells_of ts = concat (map (\<lambda>t. replicate (wasm_value_type_cell_num t) t) ts)"

fun segment_ok :: "bool \<Rightarrow> u8 list \<Rightarrow> bool" where
  "segment_ok poly [] = True"
| "segment_ok poly (t # ts) =
     ((is_valid_value_type t \<or> t = VALUE_TYPE_ANY \<and> ts = [] \<and> poly) \<and> segment_ok poly ts)"

fun stack_rel :: "u8 list \<Rightarrow> BranchBlock list \<Rightarrow> u8 list list \<Rightarrow> bool" where
  "stack_rel fr [] [] = (fr = [])"
| "stack_rel fr (b # bs) (ts # segs) =
     (\<exists>fr'. fr = cells_of ts @ fr' \<and> length fr' = block_stack_cell_num b \<and>
       segment_ok (is_stack_polymorphic b) ts \<and> stack_rel fr' bs segs)"
| "stack_rel fr _ _ = False"

definition ctx_rel :: "WASMLoaderContext \<Rightarrow> u8 list list \<Rightarrow> bool" where
  "ctx_rel ctx segs \<longleftrightarrow>
     stack_rel (frame_ref ctx) (frame_csp ctx) segs \<and>
     stack_cell_num ctx = length (frame_ref ctx) \<and>
     length (frame_ref ctx) \<le> frame_ref_size ctx \<and>
     stack_cell_num ctx \<le> max_stack_cell_num ctx \<and> max_stack_cell_num ctx \<le> 65535 \<and>
     csp_num ctx = length (frame_csp ctx) \<and>
     csp_num ctx \<le> frame_csp_size ctx div sizeof_BranchBlock \<and>
     csp_num ctx \<le> max_csp_num ctx \<and> max_csp_num ctx \<le> 65535"

definition poly_of :: "WASMLoaderContext \<Rightarrow> bool" where
  "poly_of ctx \<longleftrightarrow> is_stack_polymorphic (hd (frame_csp ctx))"

fun spec_pop :: "bool \<Rightarrow> u8 list \<Rightarrow> u8 \<Rightarrow> u8 list option" where
  "spec_pop poly [] t = (if poly then Some [] else None)"
| "spec_pop poly (x # ts) t = (if x = t \<or> x = VALUE_TYPE_ANY then Some ts else None)"

fun spec_pops :: "bool \<Rightarrow> u8 list \<Rightarrow> u8 list \<Rightarrow> u8 list option" where
  "spec_pops poly ts [] = Some ts"
| "spec_pops poly ts (x # xs) =
     (case spec_pop poly ts x of None \<Rightarrow> None | Some ts' \<Rightarrow> spec_pops poly ts' xs)"

lemma valid_type_iff:
  "is_valid_value_type t \<longleftrightarrow> t = VALUE_TYPE_I32 \<or> t = VALUE_TYPE_I64
     \<or> t = VALUE_TYPE_F32 \<or> t = VALUE_TYPE_F64"
  by (rule byte_all [where P = "\<lambda>t. is_valid_value_type t \<longleftrightarrow> t = VALUE_TYPE_I32
     \<or> t = VALUE_TYPE_I64 \<or> t = VALUE_TYPE_F32 \<or> t = VALUE_TYPE_F64"]) code_simp

lemma any_not_valid [simp]: "\<not> is_valid_value_type VALUE_TYPE_ANY"
  "\<not> is_valid_value_type VALUE_TYPE_VOID"
  by code_simp+

lemma cell_num_simps [simp]:
  "wasm_value_type_cell_num VALUE_TYPE_I32 = 1" "wasm_value_type_cell_num VALUE_TYPE_F32 = 1"
  "wasm_value_type_cell_num VALUE_TYPE_ANY = 1" "wasm_value_type_cell_num VALUE_TYPE_I64 = 2"
  "wasm_value_type_cell_num VALUE_TYPE_F64 = 2" "wasm_value_type_cell_num VALUE_TYPE_VOID = 0"
  by code_simp+

lemma valid_cell_num: "is_valid_value_type t \<Longrightarrow>
    wasm_value_type_cell_num t = 1 \<or> wasm_value_type_cell_num t = 2"
  by (auto simp: valid_type_iff)

lemma valid_not_void: "is_valid_value_type t \<Longrightarrow> t \<noteq> VALUE_TYPE_VOID \<and> t \<noteq> VALUE_TYPE_ANY"
  by (metis any_not_valid)

lemma cells_of_simps [simp]:
  "cells_of [] = []"
  "cells_of (t # ts) = replicate (wasm_value_type_cell_num t) t @ cells_of ts"
  "cells_of (ts @ us) = cells_of ts @ cells_of us"
  by (simp_all add: cells_of_def)

lemma cell_num_le_2: "wasm_value_type_cell_num t \<le> 2"
  by (simp add: wasm_value_type_cell_num_def wasm_value_type_size_def)

lemma segment_ok_valid: "segment_ok False ts \<longleftrightarrow> list_all is_valid_value_type ts"
  by (induction ts) auto

lemma segment_ok_append:
  "list_all is_valid_value_type ts \<Longrightarrow> segment_ok p us \<Longrightarrow> segment_ok p (ts @ us)"
  by (induction ts) auto

lemma segment_ok_all: "list_all is_valid_value_type ts \<Longrightarrow> segment_ok p ts"
  using segment_ok_append [of ts p "[]"] by simp

lemma segment_ok_Cons_pos: "segment_ok p (t # ts) \<Longrightarrow> 0 < wasm_value_type_cell_num t"
  by (auto simp: valid_type_iff)

lemma ctx_rel_Cons:
  assumes "ctx_rel ctx (ts # segs)"
  obtains b bs fr' where "frame_csp ctx = b # bs" "frame_ref ctx = cells_of ts @ fr'"
    "length fr' = block_stack_cell_num b" "segment_ok (is_stack_polymorphic b) ts"
    "stack_rel fr' bs segs" "available_cells ctx b = int (length (cells_of ts))"
    "poly_of ctx = is_stack_polymorphic b"
proof -
  from assms obtain b bs where csp: "frame_csp ctx = b # bs"
    by (cases "frame_csp ctx") (auto simp: ctx_rel_def)
  with assms that show thesis
    by (auto simp: ctx_rel_def available_cells_def poly_of_def)
qed

lemma ctx_rel_new_stack:
  assumes "ctx_rel ctx (ts # segs)" "frame_csp ctx = b # bs" "frame_ref ctx = cells_of ts @ fr'"
    and "length fr' = block_stack_cell_num b" "stack_rel fr' bs segs"
    and "segment_ok (is_stack_polymorphic b) ts'" "length (cells_of ts') \<le> length (cells_of ts)"
  shows "ctx_rel (ctx\<lparr>frame_ref := cells_of ts' @ fr', stack_cell_num := length (cells_of ts' @ fr')\<rparr>)
    (ts' # segs)"
  using assms by (auto simp: ctx_rel_def)

text \<open>The top of the cells is the top of the types.\<close>

lemma top_is_any_cells:
  assumes "segment_ok p ts" "ts \<noteq> []"
  shows "top_is_any (cells_of ts @ fr) \<longleftrightarrow> hd ts = VALUE_TYPE_ANY"
proof -
  obtain t us where ts: "ts = t # us" using assms(2) by (cases ts) auto
  then obtain k where "wasm_value_type_cell_num t = Suc k"
    using segment_ok_Cons_pos assms(1) by (metis Suc_pred)
  then show ?thesis by (simp add: ts top_is_any_def)
qed

lemma check_top_values_cells:
  assumes "segment_ok p (x # ts)" "x \<noteq> VALUE_TYPE_ANY" "is_valid_value_type t"
  shows "check_stack_top_values (cells_of (x # ts) @ fr) (int (length (cells_of (x # ts)))) t
      = Inr () \<longleftrightarrow> x = t"
proof -
  obtain k where k: "wasm_value_type_cell_num x = Suc k"
    using segment_ok_Cons_pos [OF assms(1)] by (metis Suc_pred)
  obtain j where j: "wasm_value_type_cell_num t = Suc j"
    using valid_cell_num [OF assms(3)] by (metis One_nat_def numeral_2_eq_2)
  show ?thesis
  proof (cases "x = t")
    case True
    then show ?thesis by (simp add: check_stack_top_values_def Let_def list_all_iff)
  next
    case False
    then show ?thesis using k j by (simp add: check_stack_top_values_def Let_def)
  qed
qed

lemma check_stack_top_values_Inr: "check_stack_top_values fr c t = Inr u \<longleftrightarrow>
    check_stack_top_values fr c t = Inr ()"
  by simp

lemma check_stack_top_values_short: "0 < wasm_value_type_cell_num t \<Longrightarrow>
    check_stack_top_values fr 0 t = Inl expect_data"
  by (simp add: check_stack_top_values_def)

section \<open>Popping and pushing implement the typed stack\<close>

definition stack_only :: "WASMLoaderContext \<Rightarrow> WASMLoaderContext \<Rightarrow> bool" where
  "stack_only ctx ctx' \<longleftrightarrow>
     frame_csp ctx' = frame_csp ctx \<and> csp_num ctx' = csp_num ctx \<and>
     frame_csp_size ctx' = frame_csp_size ctx \<and> max_csp_num ctx' = max_csp_num ctx \<and>
     max_stack_cell_num ctx \<le> max_stack_cell_num ctx' \<and> frame_ref_size ctx \<le> frame_ref_size ctx'"

lemma stack_only_refl [simp]: "stack_only ctx ctx"
  by (simp add: stack_only_def)

lemma stack_only_trans: "stack_only a b \<Longrightarrow> stack_only b c \<Longrightarrow> stack_only a c"
  by (auto simp: stack_only_def)

lemma stack_only_poly: "stack_only ctx ctx' \<Longrightarrow> poly_of ctx' = poly_of ctx"
  by (simp add: stack_only_def poly_of_def)

lemma pop_frame_ref_spec:
  assumes rel: "ctx_rel ctx (ts # segs)" and t: "is_valid_value_type t"
  shows "case spec_pop (poly_of ctx) ts t of
      None \<Rightarrow> \<exists>e. wasm_loader_pop_frame_ref ctx t = Inl e
    | Some ts' \<Rightarrow> \<exists>ctx'. wasm_loader_pop_frame_ref ctx t = Inr ctx' \<and> ctx_rel ctx' (ts' # segs) \<and>
        stack_only ctx ctx'"
proof -
  from rel obtain b bs fr' where c: "frame_csp ctx = b # bs" "frame_ref ctx = cells_of ts @ fr'"
    "length fr' = block_stack_cell_num b" "segment_ok (is_stack_polymorphic b) ts"
    "stack_rel fr' bs segs" and av: "available_cells ctx b = int (length (cells_of ts))"
    and poly: "poly_of ctx = is_stack_polymorphic b"
    by (rule ctx_rel_Cons)
  have pos: "0 < wasm_value_type_cell_num t" and nv: "t \<noteq> VALUE_TYPE_VOID"
    using valid_cell_num [OF t] valid_not_void [OF t] by auto
  show ?thesis
  proof (cases ts)
    case Nil
    then show ?thesis
    proof (cases "is_stack_polymorphic b")
      case True
      with Nil rel av c(1) poly show ?thesis by (simp add: wasm_loader_pop_frame_ref_def)
    next
      case False
      with Nil av c(1) poly nv check_stack_top_values_short [OF pos] show ?thesis
        by (simp add: wasm_loader_pop_frame_ref_def check_stack_pop_def)
    qed
  next
    case (Cons x us)
    have av_pos: "0 < available_cells ctx b"
      using segment_ok_Cons_pos [of "is_stack_polymorphic b" x us] c(4) by (simp add: av Cons)
    have top: "top_is_any (frame_ref ctx) \<longleftrightarrow> x = VALUE_TYPE_ANY"
      using top_is_any_cells [OF c(4)] Cons c(2) by simp
    have ok': "segment_ok (is_stack_polymorphic b) us" using c(4) Cons by simp
    note rel' = ctx_rel_new_stack [OF rel c(1,2,3,5) ok']
    have num: "stack_cell_num ctx = length (cells_of ts @ fr')"
      using rel c(2) by (simp add: ctx_rel_def)
    have popped: "ctx_rel (ctx\<lparr>frame_ref := drop (wasm_value_type_cell_num x) (frame_ref ctx),
        stack_cell_num := stack_cell_num ctx - wasm_value_type_cell_num x\<rparr>) (us # segs)"
      using rel' by (simp add: c(2) num Cons)
    have res: "wasm_loader_pop_frame_ref ctx t = bindE (check_stack_pop ctx t) (\<lambda>_.
        let n = (if x = VALUE_TYPE_ANY then 1 else wasm_value_type_cell_num t)
        in Inr (ctx\<lparr>frame_ref := drop n (frame_ref ctx), stack_cell_num := stack_cell_num ctx - n\<rparr>))"
      using av_pos nv by (simp add: wasm_loader_pop_frame_ref_def c(1) top)
    show ?thesis
    proof (cases "x = VALUE_TYPE_ANY \<or> x = t")
      case True
      then have "check_stack_pop ctx t = Inr ()"
        using av_pos top check_top_values_cells [of "is_stack_polymorphic b" x us t fr'] c t
        by (auto simp: check_stack_pop_def av Cons Let_def)
      then have "wasm_loader_pop_frame_ref ctx t =
          Inr (ctx\<lparr>frame_ref := drop (wasm_value_type_cell_num x) (frame_ref ctx),
            stack_cell_num := stack_cell_num ctx - wasm_value_type_cell_num x\<rparr>)"
        using res True by (auto simp: Let_def)
      with popped True show ?thesis by (auto simp: Cons stack_only_def)
    next
      case False
      then have "check_stack_pop ctx t \<noteq> Inr ()"
        using av_pos top check_top_values_cells [of "is_stack_polymorphic b" x us t fr'] c t
        by (simp add: check_stack_pop_def av Cons)
      then obtain e where "check_stack_pop ctx t = Inl e"
        by (cases "check_stack_pop ctx t") auto
      with False res show ?thesis by (simp add: Cons)
    qed
  qed
qed

lemma push_frame_ref_spec:
  assumes rel: "ctx_rel ctx (ts # segs)"
    and t: "is_valid_value_type t \<or> t = VALUE_TYPE_ANY \<and> ts = [] \<and> poly_of ctx"
  shows "case wasm_loader_push_frame_ref av ctx t of
      Inl e \<Rightarrow> e = alloc_failed \<and> \<not> av (frame_ref_size ctx + 16) \<or>
        e = stack_depth_exceeded \<and> 65535 < stack_cell_num ctx + wasm_value_type_cell_num t
    | Inr ctx' \<Rightarrow> ctx_rel ctx' ((t # ts) # segs) \<and> stack_only ctx ctx'"
proof -
  from rel obtain b bs fr' where c: "frame_csp ctx = b # bs" "frame_ref ctx = cells_of ts @ fr'"
    "length fr' = block_stack_cell_num b" "segment_ok (is_stack_polymorphic b) ts"
    "stack_rel fr' bs segs" and poly: "poly_of ctx = is_stack_polymorphic b"
    by (rule ctx_rel_Cons)
  have ok: "segment_ok (is_stack_polymorphic b) (t # ts)" using c(4) t poly by auto
  show ?thesis
  proof (cases "check_stack_push av ctx t")
    case (Inl e)
    then show ?thesis
      by (auto simp: wasm_loader_push_frame_ref_def check_stack_push_def Let_def split: if_splits)
  next
    case (Inr ctx1)
    then obtain n where ctx1: "ctx1 = ctx\<lparr>frame_ref_size := n\<rparr>"
      and n: "length (frame_ref ctx) + wasm_value_type_cell_num t \<le> n" "frame_ref_size ctx \<le> n"
    proof (cases "length (frame_ref ctx) + wasm_value_type_cell_num t > frame_ref_size ctx")
      case True
      with Inr that [of "frame_ref_size ctx + 16"] rel cell_num_le_2 [of t] show ?thesis
        by (auto simp: check_stack_push_def ctx_rel_def Let_def split: if_splits)
    next
      case False
      with Inr that [of "frame_ref_size ctx"] show ?thesis by (simp add: check_stack_push_def)
    qed
    let ?c2 = "ctx\<lparr>frame_ref_size := n,
      frame_ref := replicate (wasm_value_type_cell_num t) t @ frame_ref ctx,
      stack_cell_num := stack_cell_num ctx + wasm_value_type_cell_num t,
      max_stack_cell_num := max (max_stack_cell_num ctx) (stack_cell_num ctx + wasm_value_type_cell_num t)\<rparr>"
    have res: "wasm_loader_push_frame_ref av ctx t =
        (if 65535 < stack_cell_num ctx + wasm_value_type_cell_num t then Inl stack_depth_exceeded
         else Inr ?c2)"
      using rel by (auto simp: wasm_loader_push_frame_ref_def Inr ctx1 Let_def ctx_rel_def max_def)
    show ?thesis
    proof (cases "65535 < stack_cell_num ctx + wasm_value_type_cell_num t")
      case True
      then show ?thesis by (simp add: res)
    next
      case False
      moreover have "ctx_rel ?c2 ((t # ts) # segs)"
        using rel c(1,2,3,5) ok n False by (simp add: ctx_rel_def)
      moreover have "stack_only ctx ?c2" using n by (simp add: stack_only_def)
      ultimately show ?thesis by (simp add: res)
    qed
  qed
qed

lemma pop_frame_refs_spec:
  assumes "ctx_rel ctx (ts # segs)" "list_all is_valid_value_type xs"
  shows "case spec_pops (poly_of ctx) ts xs of
      None \<Rightarrow> \<exists>e. pop_frame_refs ctx xs = Inl e
    | Some ts' \<Rightarrow> \<exists>ctx'. pop_frame_refs ctx xs = Inr ctx' \<and> ctx_rel ctx' (ts' # segs) \<and>
        stack_only ctx ctx'"
  using assms
proof (induction xs arbitrary: ctx ts)
  case Nil
  then show ?case by simp
next
  case (Cons x xs)
  then have x: "is_valid_value_type x" and xs: "list_all is_valid_value_type xs" by simp_all
  note p = pop_frame_ref_spec [OF Cons.prems(1) x]
  show ?case
  proof (cases "spec_pop (poly_of ctx) ts x")
    case None
    with p show ?thesis by auto
  next
    case (Some us)
    with p obtain ctx1 where c1: "wasm_loader_pop_frame_ref ctx x = Inr ctx1"
      "ctx_rel ctx1 (us # segs)" "stack_only ctx ctx1" by auto
    with Cons.IH [OF c1(2) xs] Some show ?thesis
      by (auto simp: stack_only_poly intro: stack_only_trans split: option.splits)
  qed
qed

lemma push_frame_refs_spec:
  assumes "ctx_rel ctx (ts # segs)" "list_all is_valid_value_type xs"
    and "push_frame_refs av ctx xs = Inr ctx'"
  shows "ctx_rel ctx' ((rev xs @ ts) # segs)" "stack_only ctx ctx'"
proof -
  have "ctx_rel ctx' ((rev xs @ ts) # segs) \<and> stack_only ctx ctx'"
    using assms
  proof (induction xs arbitrary: ctx ts)
    case (Cons x xs)
    then obtain ctx1 where c1: "wasm_loader_push_frame_ref av ctx x = Inr ctx1"
      "push_frame_refs av ctx1 xs = Inr ctx'" by auto
    with push_frame_ref_spec [OF Cons.prems(1), of x av] Cons.prems(2)
    have "ctx_rel ctx1 ((x # ts) # segs)" "stack_only ctx ctx1" by auto
    with Cons.IH [OF this(1) _ c1(2)] Cons.prems(2) show ?case
      by (auto intro: stack_only_trans)
  qed simp
  then show "ctx_rel ctx' ((rev xs @ ts) # segs)" "stack_only ctx ctx'" by blast+
qed

lemma spec_pops_mono: "spec_pops p ts xs = Some us \<Longrightarrow> \<exists>vs. ts = vs @ us"
proof (induction xs arbitrary: ts)
  case (Cons x xs)
  then obtain ts' where ts': "spec_pop p ts x = Some ts'" "spec_pops p ts' xs = Some us"
    by (auto split: option.splits)
  with Cons.IH obtain vs where vs: "ts' = vs @ us" by blast
  show ?case
  proof (cases ts)
    case Nil
    with ts'(1) vs show ?thesis by (auto split: if_splits)
  next
    case (Cons y ys)
    with ts'(1) vs have "ts = (y # vs) @ us" by (auto split: if_splits)
    then show ?thesis by blast
  qed
qed auto

lemma spec_pops_plain:
  assumes "list_all is_valid_value_type ts"
  shows "spec_pops False ts xs = Some us \<longleftrightarrow> ts = xs @ us"
  using assms
proof (induction xs arbitrary: ts)
  case (Cons x xs)
  then show ?case by (cases ts) (auto dest: valid_not_void)
qed auto

lemma check_top_types_cells:
  assumes "list_all is_valid_value_type ts" "list_all is_valid_value_type xs"
  shows "check_top_types False (cells_of ts @ fr) (int (length (cells_of ts))) xs = Inr u \<longleftrightarrow>
    (\<exists>us. ts = xs @ us)"
  using assms
proof (induction xs arbitrary: ts)
  case (Cons x xs)
  then have x: "is_valid_value_type x" by simp
  show ?case
  proof (cases ts)
    case Nil
    with valid_cell_num [OF x] show ?thesis
      by (auto simp: check_stack_top_values_def)
  next
    case (Cons y ys)
    then have "check_stack_top_values (cells_of ts @ fr) (int (length (cells_of ts))) x = Inr ()
        \<longleftrightarrow> y = x"
      using check_top_values_cells [of False y ys x fr] Cons.prems x
      by (auto simp: segment_ok_all dest: valid_not_void)
    with Cons Cons.IH [of ys] Cons.prems show ?thesis
      by (cases "y = x") (auto simp del: cells_of_simps(3))
  qed
qed simp

lemma wasm_get_cell_num_eq: "wasm_get_cell_num ts = length (cells_of ts)"
proof -
  have "foldl (\<lambda>n t. n + wasm_value_type_cell_num t) n ts = n + length (cells_of ts)" for n
    by (induction ts arbitrary: n) auto
  then show ?thesis by (simp add: wasm_get_cell_num_def)
qed

lemma length_cells_rev [simp]: "length (cells_of (rev ts)) = length (cells_of ts)"
  by (induction ts) auto

lemma cells_length_0: "segment_ok p ts \<Longrightarrow> length (cells_of ts) = 0 \<longleftrightarrow> ts = []"
  using segment_ok_Cons_pos by (cases ts) fastforce+

section \<open>Blocks and branches implement the typed stack\<close>

definition func_type_ok :: "WASMFuncType \<Rightarrow> bool" where
  "func_type_ok ft \<longleftrightarrow> length (types ft) = param_count ft + result_count ft \<and>
     list_all is_valid_value_type (types ft)"

fun block_type_ok :: "BlockType \<Rightarrow> bool" where
  "block_type_ok (Value_type t) = is_byte_a_type t"
| "block_type_ok (Type_index ft) = func_type_ok ft"

definition blocks_ok :: "WASMLoaderContext \<Rightarrow> bool" where
  "blocks_ok ctx \<longleftrightarrow> list_all (\<lambda>b. block_type_ok (block_type b)) (frame_csp ctx)"

definition ctx_ok :: "WASMLoaderContext \<Rightarrow> bool" where
  "ctx_ok ctx \<longleftrightarrow> (\<exists>segs. ctx_rel ctx segs) \<and> blocks_ok ctx"

lemma list_all_take: "list_all P xs \<Longrightarrow> list_all P (take n xs)"
  by (induction xs arbitrary: n) (auto split: nat.splits simp: take_Cons)

lemma list_all_drop: "list_all P xs \<Longrightarrow> list_all P (drop n xs)"
  by (induction xs arbitrary: n) (auto split: nat.splits simp: drop_Cons)

lemma byte_type_valid: "is_byte_a_type t \<Longrightarrow> t \<noteq> VALUE_TYPE_VOID \<Longrightarrow> is_valid_value_type t"
  by (auto simp: is_byte_a_type_def is_valid_value_type_for_interpreter_def split: if_splits)

lemma block_types_valid:
  assumes "block_type_ok bt"
  shows "list_all is_valid_value_type (block_type_get_param_types bt)"
    "list_all is_valid_value_type (block_type_get_result_types bt)"
  using assms by (cases bt; auto simp: func_type_ok_def byte_type_valid list_all_take list_all_drop)+

lemma label_types_valid:
  "block_type_ok (block_type b) \<Longrightarrow> list_all is_valid_value_type (label_types b)"
  by (simp add: label_types_def block_types_valid)

lemma block_type_get_arity_eq:
  assumes "block_type_ok (block_type b)"
  shows "block_type_get_arity (block_type b) (label_type b) = length (label_types b)"
  using assms by (cases "block_type b")
    (auto simp: block_type_get_arity_def label_types_def func_type_ok_def)

lemma ctx_rel_hd:
  assumes "ctx_rel ctx (ts # segs)"
  shows "frame_csp ctx \<noteq> []" "frame_csp ctx = hd (frame_csp ctx) # tl (frame_csp ctx)"
  using assms by (auto elim!: ctx_rel_Cons)

lemma reset_stack_rel:
  assumes "ctx_rel ctx (ts # segs)"
  shows "ctx_rel (reset_stack ctx) ([] # segs)" "stack_only ctx (reset_stack ctx)"
proof -
  from assms obtain b bs fr' where "frame_csp ctx = b # bs" "frame_ref ctx = cells_of ts @ fr'"
    "length fr' = block_stack_cell_num b" "stack_rel fr' bs segs"
    by (rule ctx_rel_Cons)
  with assms show "ctx_rel (reset_stack ctx) ([] # segs)" "stack_only ctx (reset_stack ctx)"
    by (auto simp: reset_stack_def ctx_rel_def stack_only_def Let_def)
qed

lemma set_polymorphic_rel:
  assumes "ctx_rel ctx ([] # segs)"
  shows "ctx_rel (set_polymorphic flag ctx) ([] # segs)"
proof -
  from assms obtain b bs fr' where "frame_csp ctx = b # bs" "frame_ref ctx = cells_of [] @ fr'"
    "length fr' = block_stack_cell_num b" "stack_rel fr' bs segs"
    by (rule ctx_rel_Cons)
  with assms show ?thesis by (auto simp: set_polymorphic_def ctx_rel_def)
qed

lemma set_polymorphic_blocks:
  "blocks_ok ctx \<Longrightarrow> frame_csp ctx \<noteq> [] \<Longrightarrow> blocks_ok (set_polymorphic flag ctx)"
  by (cases "frame_csp ctx") (auto simp: blocks_ok_def set_polymorphic_def)

lemma stack_only_blocks: "stack_only ctx ctx' \<Longrightarrow> blocks_ok ctx' = blocks_ok ctx"
  by (simp add: stack_only_def blocks_ok_def)

definition new_block :: "u8 \<Rightarrow> BlockType \<Rightarrow> u32 \<Rightarrow> nat \<Rightarrow> BranchBlock" where
  "new_block label bt start n = \<lparr>label_type = label, block_type = bt, start_addr = start,
     else_addr = 0, end_addr = 0, block_stack_cell_num = n, is_stack_polymorphic = False\<rparr>"

lemma new_block_simps [simp]:
  "label_type (new_block label bt start n) = label"
  "block_type (new_block label bt start n) = bt"
  "start_addr (new_block label bt start n) = start"
  "else_addr (new_block label bt start n) = 0"
  "block_stack_cell_num (new_block label bt start n) = n"
  "\<not> is_stack_polymorphic (new_block label bt start n)"
  by (simp_all add: new_block_def)

lemma push_frame_csp_eq:
  assumes csp: "csp_num ctx = length (frame_csp ctx)" "max_csp_num ctx \<le> 65535"
      "csp_num ctx \<le> frame_csp_size ctx div sizeof_BranchBlock"
    and push: "wasm_loader_push_frame_csp av ctx label bt start = Inr ctx'"
  obtains n k where "csp_num ctx + 1 \<le> n div sizeof_BranchBlock"
    "csp_num ctx + 1 \<le> k" "max_csp_num ctx \<le> k" "k \<le> 65535"
    "ctx' = ctx\<lparr>frame_csp_size := n,
       frame_csp := new_block label bt start (stack_cell_num ctx) # frame_csp ctx,
       csp_num := csp_num ctx + 1, max_csp_num := k\<rparr>"
proof -
  have sz: "0 < sizeof_BranchBlock" by (simp add: sizeof_BranchBlock_def)
  have grow: "(n + 8 * sizeof_BranchBlock) div sizeof_BranchBlock = n div sizeof_BranchBlock + 8" for n
    using sz div_mult_self1 [of sizeof_BranchBlock n 8] by simp
  define sz where "sz = (if length (frame_csp ctx) \<ge> frame_csp_size ctx div sizeof_BranchBlock
    then frame_csp_size ctx + 8 * sizeof_BranchBlock else frame_csp_size ctx)"
  have szn: "csp_num ctx + 1 \<le> sz div sizeof_BranchBlock"
    using csp by (simp add: grow sz_def)
  define ctx1 where "ctx1 = ctx\<lparr>frame_csp_size := sz\<rparr>"
  have r: "bindE (Inr ctx1) (\<lambda>ctx.
       let ctx = ctx\<lparr>frame_csp := new_block label bt start (stack_cell_num ctx) # frame_csp ctx,
                     csp_num := csp_num ctx + 1\<rparr>
       in if csp_num ctx > max_csp_num ctx then
            let ctx = ctx\<lparr>max_csp_num := csp_num ctx\<rparr>
            in if max_csp_num ctx > 65535 then Inl ''label stack depth limit exceeded'' else Inr ctx
          else Inr ctx) = Inr ctx'"
  proof (cases "length (frame_csp ctx) \<ge> frame_csp_size ctx div sizeof_BranchBlock")
    case True
    with push have "av (frame_csp_size ctx + 8 * sizeof_BranchBlock)"
      by (auto simp: wasm_loader_push_frame_csp_def split: if_splits)
    with True push show ?thesis
      unfolding wasm_loader_push_frame_csp_def new_block_def [symmetric] ctx1_def sz_def by simp
  next
    case False
    with push show ?thesis
      unfolding wasm_loader_push_frame_csp_def new_block_def [symmetric] ctx1_def sz_def by simp
  qed
  show thesis
  proof (cases "max_csp_num ctx < csp_num ctx + 1")
    case True
    with r have "ctx' = ctx1\<lparr>frame_csp := new_block label bt start (stack_cell_num ctx1) # frame_csp ctx1,
                     csp_num := csp_num ctx1 + 1, max_csp_num := csp_num ctx + 1\<rparr>" "csp_num ctx + 1 \<le> 65535"
      by (simp_all add: ctx1_def Let_def split: if_splits)
    with True szn show thesis by (intro that [of sz "csp_num ctx + 1"]) (simp_all add: ctx1_def)
  next
    case False
    with r have "ctx' = ctx1\<lparr>frame_csp := new_block label bt start (stack_cell_num ctx1) # frame_csp ctx1,
                     csp_num := csp_num ctx1 + 1\<rparr>"
      by (simp add: ctx1_def)
    with False szn csp(2) show thesis by (intro that [of sz "max_csp_num ctx"]) (simp_all add: ctx1_def)
  qed
qed

lemma push_frame_csp_rel:
  assumes "ctx_rel ctx segs" "wasm_loader_push_frame_csp av ctx label bt start = Inr ctx'"
  shows "ctx_rel ctx' ([] # segs)"
    "frame_csp ctx' = new_block label bt start (stack_cell_num ctx) # frame_csp ctx"
    "csp_num ctx' = csp_num ctx + 1" "max_stack_cell_num ctx' = max_stack_cell_num ctx"
proof -
  have csp: "csp_num ctx = length (frame_csp ctx)" "max_csp_num ctx \<le> 65535"
      "csp_num ctx \<le> frame_csp_size ctx div sizeof_BranchBlock"
    using assms(1) by (simp_all add: ctx_rel_def)
  from csp assms(2) obtain n k where "csp_num ctx + 1 \<le> n div sizeof_BranchBlock"
    "csp_num ctx + 1 \<le> k" "max_csp_num ctx \<le> k" "k \<le> 65535"
    "ctx' = ctx\<lparr>frame_csp_size := n,
       frame_csp := new_block label bt start (stack_cell_num ctx) # frame_csp ctx,
       csp_num := csp_num ctx + 1, max_csp_num := k\<rparr>"
    by (rule push_frame_csp_eq)
  with assms(1) show "ctx_rel ctx' ([] # segs)"
    "frame_csp ctx' = new_block label bt start (stack_cell_num ctx) # frame_csp ctx"
    "csp_num ctx' = csp_num ctx + 1" "max_stack_cell_num ctx' = max_stack_cell_num ctx"
    by (simp_all add: ctx_rel_def)
qed

text \<open>Closing a block hands its values to the enclosing block.\<close>

lemma pop_frame_csp_rel:
  assumes "ctx_rel ctx (ts # us # segs)" "list_all is_valid_value_type ts"
  shows "\<exists>ctx'. wasm_loader_pop_frame_csp ctx = Inr ctx' \<and> ctx_rel ctx' ((ts @ us) # segs) \<and>
    frame_csp ctx' = tl (frame_csp ctx) \<and> csp_num ctx' = csp_num ctx - 1 \<and> 0 < csp_num ctx'"
proof -
  from assms(1) obtain b bs fr' where c: "frame_csp ctx = b # bs" "frame_ref ctx = cells_of ts @ fr'"
    "stack_rel fr' bs (us # segs)"
    by (rule ctx_rel_Cons)
  from c(3) obtain b' bs' where bs: "bs = b' # bs'" by (cases bs) auto
  let ?c = "ctx\<lparr>frame_csp := bs, csp_num := csp_num ctx - 1\<rparr>"
  have num: "csp_num ctx = Suc (Suc (length bs'))"
    using assms(1) c(1) bs by (simp add: ctx_rel_def)
  have "stack_rel (frame_ref ctx) bs ((ts @ us) # segs)"
    using c(2,3) segment_ok_append [OF assms(2)] by (auto simp: bs)
  then have "ctx_rel ?c ((ts @ us) # segs)"
    using assms(1) c(1) num by (simp add: ctx_rel_def bs)
  then show ?thesis using c(1) num by (simp add: wasm_loader_pop_frame_csp_def)
qed

lemma check_top_block:
  assumes rel: "ctx_rel ctx (ts # segs)" and poly: "\<not> poly_of ctx"
    and xs: "list_all is_valid_value_type xs"
  shows "check_top_types False (frame_ref ctx) (available_cells ctx (hd (frame_csp ctx))) xs = Inr u
    \<longleftrightarrow> (\<exists>us. ts = xs @ us)"
proof -
  from rel obtain b bs fr' where c: "frame_csp ctx = b # bs" "frame_ref ctx = cells_of ts @ fr'"
    "segment_ok (is_stack_polymorphic b) ts" "available_cells ctx b = int (length (cells_of ts))"
    "poly_of ctx = is_stack_polymorphic b"
    by (rule ctx_rel_Cons)
  with poly have "list_all is_valid_value_type ts" by (simp add: segment_ok_valid)
  from check_top_types_cells [OF this xs] c show ?thesis by simp
qed

text \<open>What the check of a branch does to the typed stack: the values the label takes must be on
  top; in unreachable code the ones that are missing are made up, except for the labels of
  a table, which leave the stack as it was.\<close>

lemma restore_frame_ref:
  assumes "frame_ref c1 = drop k (frame_ref c)" "k \<le> length (frame_ref c)"
    and "frame_ref c2 = cells @ frame_ref c1"
  shows "take (length (frame_ref c) - length (frame_ref c1)) (frame_ref c) @
    drop (length (frame_ref c2) - length (frame_ref c1)) (frame_ref c2) = frame_ref c"
  using assms by simp

lemma pop_frame_refs_suffix:
  "pop_frame_refs ctx xs = Inr ctx' \<Longrightarrow> \<exists>k. frame_ref ctx' = drop k (frame_ref ctx)"
proof (induction xs arbitrary: ctx)
  case (Cons x xs)
  then obtain c1 where c1: "wasm_loader_pop_frame_ref ctx x = Inr c1" "pop_frame_refs c1 xs = Inr ctx'"
    by auto
  from c1(1) have "\<exists>j. frame_ref c1 = drop j (frame_ref ctx)"
    by (auto simp: wasm_loader_pop_frame_ref_def Let_def split: if_splits intro: exI [of _ 0])
  with Cons.IH [OF c1(2)] show ?case by auto
qed (auto intro: exI [of _ 0])

lemma push_frame_refs_append:
  "push_frame_refs av ctx xs = Inr ctx' \<Longrightarrow> \<exists>cells. frame_ref ctx' = cells @ frame_ref ctx"
proof (induction xs arbitrary: ctx)
  case (Cons x xs)
  then obtain c1 where c1: "wasm_loader_push_frame_ref av ctx x = Inr c1"
    "push_frame_refs av c1 xs = Inr ctx'" by auto
  from c1(1) have "\<exists>cells. frame_ref c1 = cells @ frame_ref ctx"
    by (auto simp: wasm_loader_push_frame_ref_def check_stack_push_def Let_def split: if_splits)
  with Cons.IH [OF c1(2)] show ?case by auto
qed auto

definition resource_error :: "string \<Rightarrow> bool" where
  "resource_error e \<longleftrightarrow> e = alloc_failed \<or> e = stack_depth_exceeded"

definition spec_br :: "bool \<Rightarrow> bool \<Rightarrow> u8 list \<Rightarrow> u8 list \<Rightarrow> u8 list option" where
  "spec_br poly table ts ls =
     (case spec_pops poly ts ls of None \<Rightarrow> None | Some us \<Rightarrow> Some (if table then ts else ls @ us))"

definition spec_end :: "bool \<Rightarrow> u8 list \<Rightarrow> u8 list \<Rightarrow> u8 list option" where
  "spec_end poly ts rs = (if spec_pops poly ts rs = Some [] then Some rs else None)"

lemma push_frame_refs_error:
  assumes "ctx_rel ctx (ts # segs)" "list_all is_valid_value_type xs"
    and "push_frame_refs av ctx xs = Inl e"
  shows "resource_error e"
  using assms
proof (induction xs arbitrary: ctx ts)
  case (Cons x xs)
  note p = push_frame_ref_spec [OF Cons.prems(1), of x av]
  show ?case
  proof (cases "wasm_loader_push_frame_ref av ctx x")
    case (Inl e')
    with p Cons.prems(2,3) show ?thesis by (auto simp: resource_error_def)
  next
    case (Inr c1)
    with p Cons.prems(2) have "ctx_rel c1 ((x # ts) # segs)" by simp
    from Cons.IH [OF this] Cons.prems(2,3) Inr show ?thesis by simp
  qed
qed simp

lemma wasm_loader_check_br_rel:
  assumes rel: "ctx_rel ctx (ts # segs)" and bl: "blocks_ok ctx" and d: "unat depth < csp_num ctx"
  shows "case spec_br (poly_of ctx) (opcode = WASM_OP_BR_TABLE \<and> poly_of ctx) ts
             (rev (label_types (frame_csp ctx ! unat depth))) of
      None \<Rightarrow> \<exists>e. wasm_loader_check_br av ctx depth opcode = Inl e
    | Some ts' \<Rightarrow> (case wasm_loader_check_br av ctx depth opcode of
          Inl e \<Rightarrow> resource_error e
        | Inr ctx' \<Rightarrow> ctx_rel ctx' (ts' # segs) \<and> stack_only ctx ctx')"
proof -
  let ?ls = "label_types (frame_csp ctx ! unat depth)"
  have dd: "\<not> csp_num ctx - 1 < unat depth" using d by linarith
  have num: "csp_num ctx = length (frame_csp ctx)" using rel by (simp add: ctx_rel_def)
  have v: "list_all is_valid_value_type ?ls"
    using bl d num by (intro label_types_valid) (simp add: blocks_ok_def list_all_length)
  then have vr: "list_all is_valid_value_type (rev ?ls)" by simp
  note pops = pop_frame_refs_spec [OF rel vr]
  show ?thesis
  proof (cases "poly_of ctx")
    case False
    then have seg: "list_all is_valid_value_type ts"
      using rel by (auto elim!: ctx_rel_Cons simp: segment_ok_valid)
    have res: "wasm_loader_check_br av ctx depth opcode =
        bindE (check_top_types False (frame_ref ctx) (available_cells ctx (hd (frame_csp ctx))) (rev ?ls))
          (\<lambda>_. Inr ctx)"
      using dd False by (simp add: wasm_loader_check_br_def poly_of_def Let_def)
    note top = check_top_block [OF rel False vr]
    show ?thesis
    proof (cases "\<exists>us. ts = rev ?ls @ us")
      case True
      then obtain us where us: "ts = rev ?ls @ us" by blast
      then have "spec_pops False ts (rev ?ls) = Some us" using spec_pops_plain [OF seg] by blast
      with top True res False us rel show ?thesis
        by (auto simp: spec_br_def)
    next
      case no: False
      then have "spec_pops False ts (rev ?ls) = None" using spec_pops_plain [OF seg] by (metis not_None_eq)
      moreover obtain e where "check_top_types False (frame_ref ctx)
          (available_cells ctx (hd (frame_csp ctx))) (rev ?ls) = Inl e"
        using top no by (metis sum.exhaust)
      ultimately show ?thesis using False res by (simp add: spec_br_def)
    qed
  next
    case True
    show ?thesis
    proof (cases "spec_pops (poly_of ctx) ts (rev ?ls)")
      case None
      with pops dd True show ?thesis
        by (auto simp: spec_br_def wasm_loader_check_br_def Let_def poly_of_def)
    next
      case (Some us)
      with pops obtain c1 where c1: "pop_frame_refs ctx (rev ?ls) = Inr c1"
        "ctx_rel c1 (us # segs)" "stack_only ctx c1" by auto
      obtain k where k: "frame_ref c1 = drop k (frame_ref ctx)"
        using pop_frame_refs_suffix [OF c1(1)] by blast
      show ?thesis
      proof (cases "push_frame_refs av c1 ?ls")
        case (Inl e)
        then have "resource_error e" by (rule push_frame_refs_error [OF c1(2) v])
        with Inl c1 Some dd True show ?thesis
          by (auto simp: spec_br_def wasm_loader_check_br_def Let_def poly_of_def resource_error_def)
      next
        case (Inr c2)
        note c2 = push_frame_refs_spec [OF c1(2) v Inr]
        have so: "stack_only ctx c2" using c1(3) c2(2) by (rule stack_only_trans)
        show ?thesis
        proof (cases "opcode = WASM_OP_BR_TABLE")
          case False
          with Some dd True c1 Inr c2(1) so show ?thesis
            by (simp add: spec_br_def wasm_loader_check_br_def Let_def poly_of_def)
        next
          case tbl: True
          have fr: "take (length (frame_ref ctx) - length (frame_ref c1)) (frame_ref ctx) @
              drop (length (frame_ref c2) - length (frame_ref c1)) (frame_ref c2) = frame_ref ctx"
            using k push_frame_refs_append [OF Inr]
            by (cases "k \<le> length (frame_ref ctx)") auto
          let ?c = "c2\<lparr>stack_cell_num := stack_cell_num ctx, frame_ref := frame_ref ctx\<rparr>"
          have "ctx_rel ?c (ts # segs)" "stack_only ctx ?c"
            using rel c2(1) so by (auto simp: ctx_rel_def stack_only_def)
          with Some dd True c1 Inr tbl fr show ?thesis
            by (auto simp: spec_br_def wasm_loader_check_br_def Let_def poly_of_def resource_error_def)
        qed
      qed
    qed
  qed
qed

lemma check_block_stack_rel:
  assumes rel: "ctx_rel ctx (ts # segs)" and bl: "blocks_ok ctx"
  shows "case spec_end (poly_of ctx) ts
             (rev (block_type_get_result_types (block_type (hd (frame_csp ctx))))) of
      None \<Rightarrow> \<exists>e. check_block_stack av ctx (hd (frame_csp ctx)) = Inl e
    | Some ts' \<Rightarrow> (case check_block_stack av ctx (hd (frame_csp ctx)) of
          Inl e \<Rightarrow> resource_error e
        | Inr ctx' \<Rightarrow> ctx_rel ctx' (ts' # segs) \<and> stack_only ctx ctx')"
proof -
  let ?rs = "block_type_get_result_types (block_type (hd (frame_csp ctx)))"
  from rel obtain b bs fr' where c: "frame_csp ctx = b # bs" "frame_ref ctx = cells_of ts @ fr'"
    "segment_ok (is_stack_polymorphic b) ts" "available_cells ctx b = int (length (cells_of ts))"
    "poly_of ctx = is_stack_polymorphic b"
    by (rule ctx_rel_Cons)
  have v: "list_all is_valid_value_type ?rs"
    using bl c(1) by (intro block_types_valid) (simp add: blocks_ok_def)
  then have vr: "list_all is_valid_value_type (rev ?rs)" by simp
  show ?thesis
  proof (cases "poly_of ctx")
    case False
    then have seg: "list_all is_valid_value_type ts" using c(3,5) by (simp add: segment_ok_valid)
    note top = check_top_block [OF rel False vr]
    have spec: "spec_pops False ts (rev ?rs) = Some [] \<longleftrightarrow> ts = rev ?rs"
      using spec_pops_plain [OF seg] by simp
    show ?thesis
    proof (cases "ts = rev ?rs")
      case True
      with False spec top rel c show ?thesis
        by (auto simp: spec_end_def check_block_stack_def Let_def wasm_get_cell_num_eq)
    next
      case no: False
      have "\<exists>e. check_block_stack av ctx (hd (frame_csp ctx)) = Inl e"
      proof (cases "length (cells_of ts) = length (cells_of ?rs)")
        case True
        have "\<not> (\<exists>us. ts = rev ?rs @ us)"
        proof
          assume "\<exists>us. ts = rev ?rs @ us"
          then obtain us where us: "ts = rev ?rs @ us" by blast
          with seg True no cells_length_0 [of False us] show False by (simp add: segment_ok_valid)
        qed
        with top obtain e where "check_top_types False (frame_ref ctx)
            (available_cells ctx (hd (frame_csp ctx))) (rev ?rs) = Inl e"
          by (metis sum.exhaust)
        with True False c show ?thesis
          by (auto simp: check_block_stack_def Let_def wasm_get_cell_num_eq)
      next
        case False
        with \<open>\<not> poly_of ctx\<close> c show ?thesis
          by (auto simp: check_block_stack_def Let_def wasm_get_cell_num_eq)
      qed
      with False spec no show ?thesis by (simp add: spec_end_def)
    qed
  next
    case True
    note pops = pop_frame_refs_spec [OF rel vr]
    show ?thesis
    proof (cases "spec_pops (poly_of ctx) ts (rev ?rs)")
      case None
      with pops True c show ?thesis
        by (auto simp: spec_end_def check_block_stack_def Let_def)
    next
      case (Some us)
      with pops obtain c1 where c1: "pop_frame_refs ctx (rev ?rs) = Inr c1"
        "ctx_rel c1 (us # segs)" "stack_only ctx c1" by auto
      have csp1: "frame_csp c1 = b # bs" using c1(3) c(1) by (simp add: stack_only_def)
      have "stack_cell_num c1 = block_stack_cell_num b \<longleftrightarrow> us = []"
        using c1(2) csp1 cells_length_0 [of "is_stack_polymorphic b" us]
        by (auto simp: ctx_rel_def)
      then have res: "check_block_stack av ctx (hd (frame_csp ctx)) =
          (if us = [] then push_frame_refs av c1 ?rs
           else Inl ''type mismatch: stack size does not match block type'')"
        using True c c1(1) by (simp add: check_block_stack_def Let_def)
      show ?thesis
      proof (cases "us = []")
        case False
        with Some res True show ?thesis by (simp add: spec_end_def)
      next
        case nil: True
        show ?thesis
        proof (cases "push_frame_refs av c1 ?rs")
          case (Inl e)
          then have "resource_error e" by (rule push_frame_refs_error [OF c1(2) v])
          with Inl Some res nil show ?thesis by (simp add: spec_end_def)
        next
          case (Inr c2)
          note c2 = push_frame_refs_spec [OF c1(2) v Inr]
          with Inr Some res nil c1(3) show ?thesis
            by (auto simp: spec_end_def intro: stack_only_trans)
        qed
      qed
    qed
  qed
qed

text \<open>C10: the operand stack of the validator implements the typed stack of the standard's validation
  algorithm. On related stacks, popping a type succeeds exactly when the specification
  pops it (the type, or the unknown type, is on top, or the block is empty and its rest
  unreachable) and the results are related again; pushing a type always gives related
  stacks unless it fails for one of the two resource limits.\<close>

theorem operand_stack_refines:
  assumes "ctx_rel ctx (ts # segs)" "is_valid_value_type t"
  shows "(case spec_pop (poly_of ctx) ts t of
        None \<Rightarrow> \<exists>e. wasm_loader_pop_frame_ref ctx t = Inl e
      | Some ts' \<Rightarrow> \<exists>ctx'. wasm_loader_pop_frame_ref ctx t = Inr ctx' \<and> ctx_rel ctx' (ts' # segs) \<and>
          frame_csp ctx' = frame_csp ctx) \<and>
    (case wasm_loader_push_frame_ref av ctx t of
        Inl e \<Rightarrow> e = alloc_failed \<and> \<not> av (frame_ref_size ctx + 16) \<or>
          e = stack_depth_exceeded \<and> 65535 < stack_cell_num ctx + wasm_value_type_cell_num t
      | Inr ctx' \<Rightarrow> ctx_rel ctx' ((t # ts) # segs) \<and> frame_csp ctx' = frame_csp ctx)"
  using pop_frame_ref_spec [OF assms] push_frame_ref_spec [OF assms(1), of t av] assms(2)
  by (auto simp: stack_only_def split: option.splits sum.splits)

text \<open>C13: the two checks of control flow implement the standard's. A branch is accepted exactly when its
  label exists and the values the label takes are on top of the current block's stack, where
  values that are missing in unreachable code are made up and pushed, except that the labels
  of a table leave the stack as it was; the end of a block is accepted exactly when its stack
  is the block's results, again up to missing values in unreachable code.\<close>

theorem branch_checks_refine:
  assumes "ctx_rel ctx (ts # segs)" "blocks_ok ctx"
  shows "(unat depth < csp_num ctx \<longrightarrow>
      (case spec_br (poly_of ctx) (opcode = WASM_OP_BR_TABLE \<and> poly_of ctx) ts
             (rev (label_types (frame_csp ctx ! unat depth))) of
         None \<Rightarrow> \<exists>e. wasm_loader_check_br av ctx depth opcode = Inl e
       | Some ts' \<Rightarrow> (case wasm_loader_check_br av ctx depth opcode of
             Inl e \<Rightarrow> resource_error e
           | Inr ctx' \<Rightarrow> ctx_rel ctx' (ts' # segs) \<and> frame_csp ctx' = frame_csp ctx))) \<and>
    (\<not> unat depth < csp_num ctx \<longrightarrow> (\<exists>e. wasm_loader_check_br av ctx depth opcode = Inl e)) \<and>
    (case spec_end (poly_of ctx) ts
             (rev (block_type_get_result_types (block_type (hd (frame_csp ctx))))) of
         None \<Rightarrow> \<exists>e. check_block_stack av ctx (hd (frame_csp ctx)) = Inl e
       | Some ts' \<Rightarrow> (case check_block_stack av ctx (hd (frame_csp ctx)) of
             Inl e \<Rightarrow> resource_error e
           | Inr ctx' \<Rightarrow> ctx_rel ctx' (ts' # segs) \<and> frame_csp ctx' = frame_csp ctx))"
proof (intro conjI impI)
  assume d: "unat depth < csp_num ctx"
  from wasm_loader_check_br_rel [OF assms d, where opcode = opcode and av = av]
  show "case spec_br (poly_of ctx) (opcode = WASM_OP_BR_TABLE \<and> poly_of ctx) ts
             (rev (label_types (frame_csp ctx ! unat depth))) of
         None \<Rightarrow> \<exists>e. wasm_loader_check_br av ctx depth opcode = Inl e
       | Some ts' \<Rightarrow> (case wasm_loader_check_br av ctx depth opcode of
             Inl e \<Rightarrow> resource_error e
           | Inr ctx' \<Rightarrow> ctx_rel ctx' (ts' # segs) \<and> frame_csp ctx' = frame_csp ctx)"
    by (auto simp: stack_only_def split: option.splits sum.splits)
next
  assume "\<not> unat depth < csp_num ctx"
  moreover have "0 < csp_num ctx" using assms(1) ctx_rel_hd(1) [OF assms(1)] by (simp add: ctx_rel_def)
  ultimately show "\<exists>e. wasm_loader_check_br av ctx depth opcode = Inl e"
    by (auto simp: wasm_loader_check_br_def)
next
  from check_block_stack_rel [OF assms, of av]
  show "case spec_end (poly_of ctx) ts
             (rev (block_type_get_result_types (block_type (hd (frame_csp ctx))))) of
         None \<Rightarrow> \<exists>e. check_block_stack av ctx (hd (frame_csp ctx)) = Inl e
       | Some ts' \<Rightarrow> (case check_block_stack av ctx (hd (frame_csp ctx)) of
             Inl e \<Rightarrow> resource_error e
           | Inr ctx' \<Rightarrow> ctx_rel ctx' (ts' # segs) \<and> frame_csp ctx' = frame_csp ctx)"
    by (auto simp: stack_only_def split: option.splits sum.splits)
qed

text \<open>One block of type \<open>[] -> [i32]\<close> with an \<open>i64\<close> on its stack.\<close>

definition small_ctx :: WASMLoaderContext where
  "small_ctx = \<lparr>frame_ref = [0x7e, 0x7e], frame_ref_size = 32, stack_cell_num = 2,
     max_stack_cell_num = 2, frame_csp = [new_block LABEL_TYPE_FUNCTION (Value_type 0x7f) 0x1000 0],
     frame_csp_size = 256, csp_num = 1, max_csp_num = 1\<rparr>"

lemma small_ctx_rel: "ctx_rel small_ctx [[VALUE_TYPE_I64]]" "blocks_ok small_ctx"
proof -
  show "ctx_rel small_ctx [[VALUE_TYPE_I64]]"
    by (simp add: ctx_rel_def small_ctx_def sizeof_BranchBlock_def valid_type_iff numeral_2_eq_2)
      (simp add: value_type_defs)
  show "blocks_ok small_ctx" by code_simp
qed

theorem operand_stack_refines_witness:
  "\<exists>ctx'. wasm_loader_pop_frame_ref small_ctx VALUE_TYPE_I64 = Inr ctx' \<and> ctx_rel ctx' [[]]"
  using operand_stack_refines [OF small_ctx_rel(1), of VALUE_TYPE_I64]
  by (auto simp: valid_type_iff)

theorem branch_checks_refine_witness:
  "\<exists>e. wasm_loader_check_br (\<lambda>_. True) small_ctx 0 0x0c = Inl e"
proof -
  have "spec_br (poly_of small_ctx) (0x0c = WASM_OP_BR_TABLE \<and> poly_of small_ctx) [VALUE_TYPE_I64]
      (rev (label_types (frame_csp small_ctx ! unat (0 :: u32)))) = None"
    by code_simp
  with branch_checks_refine [OF small_ctx_rel, where depth = 0 and opcode = "0x0c" and av = "\<lambda>_. True"] show ?thesis
    by (simp add: small_ctx_def)
qed

end
