(* ===== verification/Loader_Code.thy ===== *)
theory Loader_Code
  imports Loader_Stack
begin

text \<open>
  The validation of a function body, \<open>wasm_loader_prepare_bytecode\<close> of
  \<^verbatim>\<open>core/iwasm/interpreter/wasm_loader.c\<close>: one definition per \<^verbatim>\<open>case\<close> of its switch (or per
  group of cases with one body), composed by \<open>prepare_step\<close>, and the loop around them. The
  code is validated in place and rewritten for the interpreter as it is validated, so the
  byte memory is part of the state.

  The cases are those of the build: without reference types, tail calls, exception handling,
  SIMD and garbage collection. A \<^verbatim>\<open>goto fail\<close> is \<open>Inl\<close> of the message.
\<close>

section \<open>The module, the function and the state\<close>

text \<open>The parts of a loaded module the validation reads. A list's length is the module's
  count; that the sums of the counts do not wrap around was checked when the sections
  were loaded (\<open>is_indices_overflow\<close>).\<close>

record WASMModule =
  m_types :: "WASMFuncType list"
  import_functions :: "WASMFuncType list"
  module_functions :: "WASMFuncType list"
  import_globals :: "(u8 \<times> bool) list"
  globals :: "(u8 \<times> bool) list"
  import_table_count :: nat
  table_count :: nat
  import_memory_count :: nat
  memory_count :: nat
  data_seg_count :: nat
  data_seg_count1 :: nat
  aux_stack_size :: u32
  aux_stack_top_global_index :: u32

record WASMFunction =
  func_type :: WASMFuncType
  local_types :: "u8 list"
  local_offsets :: "u16 list"
  code :: u32
  code_size :: u32

record LoaderState =
  lctx :: WASMLoaderContext
  lp :: u32
  lmem :: cmem
  br_table_caches :: "(u32 \<times> u32 list) list"
  possible_memory_grow :: bool

type_synonym 'a lresult = "string + 'a"

definition on_ctx ::
  "(WASMLoaderContext \<Rightarrow> WASMLoaderContext lresult) \<Rightarrow> LoaderState \<Rightarrow> LoaderState lresult" where
  "on_ctx f s = bindE (f (lctx s)) (\<lambda>c. Inr (s\<lparr>lctx := c\<rparr>))"

definition read_u32 :: "u32 \<Rightarrow> LoaderState \<Rightarrow> (u32 \<times> LoaderState) lresult" where
  "read_u32 p_end s =
     bindE (read_leb_uint32 (lmem s) (lp s) p_end) (\<lambda>(v, p). Inr (v, s\<lparr>lp := p\<rparr>))"

definition poke :: "u32 \<Rightarrow> u8 \<Rightarrow> LoaderState \<Rightarrow> LoaderState" where
  "poke a b s = s\<lparr>lmem := (lmem s)(a := b)\<rparr>"

text \<open>The loop that writes nops up to \<open>p\<close>.\<close>

definition WASM_OP_NOP :: u8 where "WASM_OP_NOP = 0x01"

definition fill_nops :: "u32 \<Rightarrow> LoaderState \<Rightarrow> LoaderState" where
  "fill_nops p_org s = s\<lparr>lmem := \<lambda>a. if p_org \<le> a \<and> a < lp s then WASM_OP_NOP else lmem s a\<rparr>"

definition POP_TYPE :: "u8 \<Rightarrow> LoaderState \<Rightarrow> LoaderState lresult" where
  "POP_TYPE t = on_ctx (\<lambda>c. wasm_loader_pop_frame_ref c t)"

definition POP_TYPES :: "u8 list \<Rightarrow> LoaderState \<Rightarrow> LoaderState lresult" where
  "POP_TYPES ts = on_ctx (\<lambda>c. pop_frame_refs c ts)"

definition PUSH_TYPES :: "(nat \<Rightarrow> bool) \<Rightarrow> u8 list \<Rightarrow> LoaderState \<Rightarrow> LoaderState lresult" where
  "PUSH_TYPES av ts = on_ctx (\<lambda>c. push_frame_refs av c ts)"

definition POPS_AND_PUSH ::
  "(nat \<Rightarrow> bool) \<Rightarrow> nat \<Rightarrow> u8 \<Rightarrow> u8 \<Rightarrow> LoaderState \<Rightarrow> LoaderState lresult" where
  "POPS_AND_PUSH av n type_pop type_push =
     on_ctx (\<lambda>c. wasm_loader_push_pop_frame_ref av c n type_push type_pop)"

definition unexpected_end :: string where
  "unexpected_end = ''unexpected end of section or function''"

text \<open>\<open>RESET_STACK\<close> and \<open>SET_CUR_BLOCK_STACK_POLYMORPHIC_STATE(true)\<close>, after an
  instruction that never continues with the next one.\<close>

definition mark_unreachable :: "LoaderState \<Rightarrow> LoaderState lresult" where
  "mark_unreachable s = Inr (s\<lparr>lctx := set_polymorphic True (reset_stack (lctx s))\<rparr>)"

section \<open>Blocks\<close>

definition WASM_OP_BLOCK :: u8 where "WASM_OP_BLOCK = 0x02"
definition EXT_OP_BLOCK :: u8 where "EXT_OP_BLOCK = 0xd7"

fun pop_block_params :: "WASMLoaderContext \<Rightarrow> u8 list \<Rightarrow> WASMLoaderContext lresult" where
  "pop_block_params ctx [] = Inr ctx"
| "pop_block_params ctx (t # ts) =
     (if available_cells ctx (hd (frame_csp ctx)) \<le> 0 \<and> is_stack_polymorphic (hd (frame_csp ctx))
      then Inr ctx
      else bindE (wasm_loader_pop_frame_ref ctx t) (\<lambda>ctx. pop_block_params ctx ts))"

definition read_block_type ::
  "WASMModule \<Rightarrow> u32 \<Rightarrow> u8 \<Rightarrow> LoaderState \<Rightarrow> (BlockType \<times> LoaderState) lresult" where
  "read_block_type M p_end opcode s =
     (if \<not> check_buf (lp s) p_end 1 then Inl unexpected_end
      else
        let value_type = lmem s (lp s)
        in if is_byte_a_type value_type then Inr (Value_type value_type, s\<lparr>lp := lp s + 1\<rparr>)
           else
             let p_org = lp s - 1
             in bindE (read_leb_int32 (lmem s) (lp s) p_end) (\<lambda>(type_index, p).
                  if unat type_index \<ge> length (m_types M) then Inl ''unknown type''
                  else Inr (Type_index (m_types M ! unat type_index),
                         poke p_org (EXT_OP_BLOCK + (opcode - WASM_OP_BLOCK)) (s\<lparr>lp := p\<rparr>))))"

definition open_block ::
  "(nat \<Rightarrow> bool) \<Rightarrow> u8 \<Rightarrow> BlockType \<Rightarrow> u32 \<Rightarrow> WASMLoaderContext \<Rightarrow> WASMLoaderContext lresult" where
  "open_block av opcode bt p ctx =
     bindE (pop_block_params ctx (rev (block_type_get_param_types bt))) (\<lambda>ctx.
     bindE (wasm_loader_push_frame_csp av ctx (LABEL_TYPE_BLOCK + (opcode - WASM_OP_BLOCK)) bt p)
       (\<lambda>ctx. push_frame_refs av ctx (block_type_get_param_types bt)))"

definition handle_op_block_and_loop ::
  "(nat \<Rightarrow> bool) \<Rightarrow> WASMModule \<Rightarrow> u32 \<Rightarrow> u8 \<Rightarrow> LoaderState \<Rightarrow> LoaderState lresult" where
  "handle_op_block_and_loop av M p_end opcode s =
     bindE (read_block_type M p_end opcode s) (\<lambda>(bt, s).
       on_ctx (open_block av opcode bt (lp s)) s)"

definition op_if ::
  "(nat \<Rightarrow> bool) \<Rightarrow> WASMModule \<Rightarrow> u32 \<Rightarrow> u8 \<Rightarrow> LoaderState \<Rightarrow> LoaderState lresult" where
  "op_if av M p_end opcode s =
     bindE (POP_TYPE VALUE_TYPE_I32 s) (handle_op_block_and_loop av M p_end opcode)"

definition set_else_addr :: "u32 \<Rightarrow> WASMLoaderContext \<Rightarrow> WASMLoaderContext" where
  "set_else_addr a ctx =
     ctx\<lparr>frame_csp := (hd (frame_csp ctx))\<lparr>else_addr := a\<rparr> # tl (frame_csp ctx)\<rparr>"

definition handle_op_else :: "(nat \<Rightarrow> bool) \<Rightarrow> LoaderState \<Rightarrow> LoaderState lresult" where
  "handle_op_else av s =
     (let block = hd (frame_csp (lctx s))
      in if csp_num (lctx s) < 2 \<or> label_type block \<noteq> LABEL_TYPE_IF \<or> else_addr block \<noteq> 0
         then Inl ''opcode else found without matched opcode if''
         else on_ctx (\<lambda>ctx.
           bindE (check_block_stack av ctx block) (\<lambda>ctx.
             push_frame_refs av
               (set_polymorphic False (reset_stack (set_else_addr (lp s - 1) ctx)))
               (block_type_get_param_types (block_type block)))) s)"

text \<open>The address of the end, which the code stores into the block it has just popped,
  is not part of the model: the slot is not read again.\<close>

definition op_end :: "(nat \<Rightarrow> bool) \<Rightarrow> u32 \<Rightarrow> LoaderState \<Rightarrow> LoaderState lresult" where
  "op_end av p_end s =
     (let cur_block = hd (frame_csp (lctx s))
      in bindE (on_ctx (\<lambda>ctx. check_block_stack av ctx cur_block) s) (\<lambda>s.
           if label_type cur_block = LABEL_TYPE_IF \<and> else_addr cur_block = 0
           then handle_op_else av (s\<lparr>lp := lp s - 1\<rparr>)
           else bindE (on_ctx wasm_loader_pop_frame_csp s) (\<lambda>s.
             if csp_num (lctx s) > 0 then Inr s
             else if lp s < p_end then Inl ''section size mismatch'' else Inr s)))"

section \<open>Branches\<close>

definition check_branch_block ::
  "(nat \<Rightarrow> bool) \<Rightarrow> u32 \<Rightarrow> u8 \<Rightarrow> LoaderState \<Rightarrow> LoaderState lresult" where
  "check_branch_block av p_end opcode s =
     bindE (read_u32 p_end s) (\<lambda>(depth, s).
       on_ctx (\<lambda>ctx. wasm_loader_check_br av ctx depth opcode) s)"

definition op_br :: "(nat \<Rightarrow> bool) \<Rightarrow> u32 \<Rightarrow> u8 \<Rightarrow> LoaderState \<Rightarrow> LoaderState lresult" where
  "op_br av p_end opcode s = bindE (check_branch_block av p_end opcode s) mark_unreachable"

definition op_br_if :: "(nat \<Rightarrow> bool) \<Rightarrow> u32 \<Rightarrow> u8 \<Rightarrow> LoaderState \<Rightarrow> LoaderState lresult" where
  "op_br_if av p_end opcode s =
     bindE (POP_TYPE VALUE_TYPE_I32 s) (check_branch_block av p_end opcode)"

text \<open>\<^verbatim>\<open>br_table\<close> reads its depths twice: first all of them against the number of blocks,
  then one by one with the check of the target. The loops run \<open>count + 1\<close> times; where
  \<open>count\<close> is \<open>2 ^ 32 - 1\<close> the code's counter would wrap around, but the reads have left
  the buffer long before. \<open>p_depth\<close> is where the next one-byte depth is written,
  \<open>cache\<close> the depths of a \<open>BrTableCache\<close> once one depth is over 255.\<close>

definition unknown_label :: string where
  "unknown_label = ''unknown label, unexpected end of section or function''"

definition EXT_OP_BR_TABLE_CACHE :: u8 where "EXT_OP_BR_TABLE_CACHE = 0xda"

fun br_table_scan :: "nat \<Rightarrow> nat \<Rightarrow> u32 \<Rightarrow> u32 \<Rightarrow> LoaderState \<Rightarrow> u32 lresult" where
  "br_table_scan 0 csp p_end d s = Inr d"
| "br_table_scan (Suc n) csp p_end d s =
     bindE (read_u32 p_end s) (\<lambda>(depth, s).
       if csp - 1 < unat depth then Inl unknown_label
       else br_table_scan n csp p_end depth s)"

definition target_arity :: "WASMLoaderContext \<Rightarrow> u32 \<Rightarrow> nat" where
  "target_arity ctx depth =
     (let target_block = frame_csp ctx ! unat depth
      in block_type_get_arity (block_type target_block) (label_type target_block))"

definition sizeof_br_table_cache :: "u32 \<Rightarrow> nat" where
  "sizeof_br_table_cache count = 12 + 4 * unat (count + 1)"

definition store_depth ::
  "(nat \<Rightarrow> bool) \<Rightarrow> u32 \<Rightarrow> u32 \<Rightarrow> u32 \<Rightarrow> u32 \<Rightarrow> u32 \<times> u32 list option \<times> LoaderState \<Rightarrow>
   (u32 \<times> u32 list option \<times> LoaderState) lresult" where
  "store_depth av count p_opcode p_begin depth = (\<lambda>(p_depth, cache, s).
     case cache of
       Some ds \<Rightarrow> Inr (p_depth, Some (ds @ [depth]), s)
     | None \<Rightarrow>
         if depth > 255 then
           (if sizeof_br_table_cache count \<ge> 0xFFFFFFFF \<or> \<not> av (sizeof_br_table_cache count)
            then Inl alloc_failed
            else let s = poke p_opcode EXT_OP_BR_TABLE_CACHE s
                 in Inr (p_depth, Some (map ucast (cbytes (lmem s) p_begin (unat (p_depth - p_begin)))
                                        @ [depth]), s))
         else Inr (p_depth + 1, None, poke p_depth (ucast depth) s))"

fun br_table_targets ::
  "(nat \<Rightarrow> bool) \<Rightarrow> u32 \<Rightarrow> u32 \<Rightarrow> nat \<Rightarrow> u32 \<Rightarrow> u32 \<Rightarrow> nat \<Rightarrow> u32 \<times> u32 list option \<times> LoaderState \<Rightarrow>
   (u32 \<times> u32 list option \<times> LoaderState) lresult" where
  "br_table_targets av p_end count default_arity p_opcode p_begin 0 st = Inr st"
| "br_table_targets av p_end count default_arity p_opcode p_begin (Suc n) (p_depth, cache, s) =
     bindE (read_u32 p_end s) (\<lambda>(depth, _).
       if target_arity (lctx s) depth \<noteq> default_arity
       then Inl ''type mismatch: br_table targets must all use same result type''
       else bindE (check_branch_block av p_end WASM_OP_BR_TABLE s) (\<lambda>s.
         bindE (store_depth av count p_opcode p_begin depth (p_depth, cache, s))
           (br_table_targets av p_end count default_arity p_opcode p_begin n)))"

definition op_br_table :: "(nat \<Rightarrow> bool) \<Rightarrow> u32 \<Rightarrow> LoaderState \<Rightarrow> LoaderState lresult" where
  "op_br_table av p_end s =
     (let p_opcode = lp s - 1
      in bindE (read_u32 p_end s) (\<lambda>(count, s).
         bindE (POP_TYPE VALUE_TYPE_I32 s) (\<lambda>s.
         bindE (br_table_scan (Suc (unat count)) (csp_num (lctx s)) p_end 0 s) (\<lambda>depth.
         bindE (br_table_targets av p_end count (target_arity (lctx s) depth) p_opcode (lp s)
                  (Suc (unat count)) (lp s, None, s)) (\<lambda>(p_depth, cache, s').
           case cache of
             Some ds \<Rightarrow> mark_unreachable ((fill_nops (lp s) s')\<lparr>br_table_caches :=
                           (p_opcode, ds) # br_table_caches s'\<rparr>)
           | None \<Rightarrow> mark_unreachable (fill_nops p_depth s'))))))"

definition op_return :: "WASMFunction \<Rightarrow> LoaderState \<Rightarrow> LoaderState lresult" where
  "op_return F s =
     bindE (POP_TYPES (rev (block_type_get_result_types (Type_index (func_type F)))) s)
       mark_unreachable"

section \<open>Calls\<close>

definition call_type ::
  "(nat \<Rightarrow> bool) \<Rightarrow> WASMFuncType \<Rightarrow> LoaderState \<Rightarrow> LoaderState lresult" where
  "call_type av ft s =
     bindE (POP_TYPES (rev (block_type_get_param_types (Type_index ft))) s)
       (PUSH_TYPES av (block_type_get_result_types (Type_index ft)))"

definition check_function_index :: "WASMModule \<Rightarrow> u32 \<Rightarrow> bool" where
  "check_function_index M function_index \<longleftrightarrow>
     \<not> unat function_index \<ge> length (import_functions M) + length (module_functions M)"

text \<open>The messages that print the index or the opcode (\<open>unknown function %u\<close>,
  \<open>unsupported opcode %02x\<close>) are modelled without the number.\<close>

definition op_call :: "(nat \<Rightarrow> bool) \<Rightarrow> WASMModule \<Rightarrow> u32 \<Rightarrow> LoaderState \<Rightarrow> LoaderState lresult" where
  "op_call av M p_end s =
     bindE (read_u32 p_end s) (\<lambda>(func_idx, s).
       if \<not> check_function_index M func_idx then Inl ''unknown function''
       else
         let ft = (if unat func_idx < length (import_functions M)
                   then import_functions M ! unat func_idx
                   else module_functions M ! (unat func_idx - length (import_functions M)))
         in call_type av ft s)"

definition check_table_index :: "WASMModule \<Rightarrow> u8 \<Rightarrow> unit lresult" where
  "check_table_index M table_index =
     (if table_index \<noteq> 0
      then Inl ''zero byte expected. The module uses reference types feature which is disabled in the runtime.''
      else if unat table_index \<ge> import_table_count M + table_count M then Inl ''unknown table''
      else Inr ())"

definition op_call_indirect ::
  "(nat \<Rightarrow> bool) \<Rightarrow> WASMModule \<Rightarrow> u32 \<Rightarrow> LoaderState \<Rightarrow> LoaderState lresult" where
  "op_call_indirect av M p_end s =
     bindE (read_u32 p_end s) (\<lambda>(type_idx, s).
       if \<not> check_buf (lp s) p_end 1 then Inl unexpected_end
       else bindE (check_table_index M (lmem s (lp s))) (\<lambda>_.
         bindE (POP_TYPE VALUE_TYPE_I32 (s\<lparr>lp := lp s + 1\<rparr>)) (\<lambda>s.
           if unat type_idx \<ge> length (m_types M) then Inl ''unknown type''
           else call_type av (m_types M ! unat type_idx) s)))"

section \<open>Drop and select\<close>

definition WASM_OP_DROP_64 :: u8 where "WASM_OP_DROP_64 = 0xc5"
definition WASM_OP_SELECT_64 :: u8 where "WASM_OP_SELECT_64 = 0xc6"

definition drop_cells :: "nat \<Rightarrow> WASMLoaderContext \<Rightarrow> WASMLoaderContext" where
  "drop_cells n ctx =
     ctx\<lparr>frame_ref := drop n (frame_ref ctx), stack_cell_num := stack_cell_num ctx - n\<rparr>"

definition op_drop :: "LoaderState \<Rightarrow> LoaderState lresult" where
  "op_drop s =
     (let ctx = lctx s; cur_block = hd (frame_csp ctx); avail = available_cells ctx cur_block
      in if avail \<le> 0 \<and> \<not> is_stack_polymorphic cur_block
         then Inl ''type mismatch, opcode drop was found but stack was empty''
         else if avail > 0 then
           (if is_32bit_type (hd (frame_ref ctx)) then Inr (s\<lparr>lctx := drop_cells 1 ctx\<rparr>)
            else if is_64bit_type (hd (frame_ref ctx))
            then Inr (poke (lp s - 1) WASM_OP_DROP_64 (s\<lparr>lctx := drop_cells 2 ctx\<rparr>))
            else Inl ''type mismatch'')
         else Inr s)"

definition op_select :: "(nat \<Rightarrow> bool) \<Rightarrow> LoaderState \<Rightarrow> LoaderState lresult" where
  "op_select av s =
     bindE (POP_TYPE VALUE_TYPE_I32 s) (\<lambda>s.
       let ctx = lctx s; cur_block = hd (frame_csp ctx); avail = available_cells ctx cur_block
       in if avail \<le> 0 \<and> \<not> is_stack_polymorphic cur_block
          then Inl ''type mismatch or invalid result arity, opcode select was found but stack was empty''
          else if avail > 0 then
            let t = hd (frame_ref ctx)
            in bindE (if is_32bit_type t then Inr s
                      else if is_64bit_type t then Inr (poke (lp s - 1) WASM_OP_SELECT_64 s)
                      else Inl ''type mismatch'')
                 (POPS_AND_PUSH av 2 t t)
          else PUSH_TYPES av [VALUE_TYPE_ANY] s)"

section \<open>Locals and globals\<close>

definition EXT_OP_GET_LOCAL_FAST :: u8 where "EXT_OP_GET_LOCAL_FAST = 0xc7"
definition EXT_OP_SET_LOCAL_FAST :: u8 where "EXT_OP_SET_LOCAL_FAST = 0xc9"
definition EXT_OP_TEE_LOCAL_FAST :: u8 where "EXT_OP_TEE_LOCAL_FAST = 0xca"
definition WASM_OP_GET_GLOBAL_64 :: u8 where "WASM_OP_GET_GLOBAL_64 = 0x1d"
definition WASM_OP_SET_GLOBAL_64 :: u8 where "WASM_OP_SET_GLOBAL_64 = 0x1e"
definition WASM_OP_SET_GLOBAL_AUX_STACK :: u8 where "WASM_OP_SET_GLOBAL_AUX_STACK = 0x1f"

text \<open>\<open>GET_LOCAL_INDEX_TYPE_AND_OFFSET\<close>\<close>

definition get_local ::
  "WASMFunction \<Rightarrow> u32 \<Rightarrow> LoaderState \<Rightarrow> (u8 \<times> u16 \<times> LoaderState) lresult" where
  "get_local F p_end s =
     bindE (read_u32 p_end s) (\<lambda>(local_idx, s).
       let n = param_count (func_type F); i = unat local_idx
       in if i \<ge> n + length (local_types F) then Inl ''unknown local''
          else Inr (if i < n then types (func_type F) ! i else local_types F ! (i - n),
                    local_offsets F ! i, s))"

text \<open>A local whose cell offset fits seven bits gets the short form of the instruction, with
  the width of the local in the top bit of the offset byte.\<close>

definition rewrite_local :: "u8 \<Rightarrow> u8 \<Rightarrow> u16 \<Rightarrow> u32 \<Rightarrow> LoaderState \<Rightarrow> LoaderState" where
  "rewrite_local fast_op t offset p_org s =
     (if offset < 0x80
      then fill_nops (p_org + 2)
             (poke (p_org + 1)
                (if is_32bit_type t then ucast offset else ucast (offset OR 0x80))
                (poke p_org fast_op s))
      else s)"

definition op_get_local ::
  "(nat \<Rightarrow> bool) \<Rightarrow> WASMFunction \<Rightarrow> u32 \<Rightarrow> LoaderState \<Rightarrow> LoaderState lresult" where
  "op_get_local av F p_end s =
     (let p_org = lp s - 1
      in bindE (get_local F p_end s) (\<lambda>(t, offset, s).
         bindE (PUSH_TYPES av [t] s) (\<lambda>s.
           Inr (rewrite_local EXT_OP_GET_LOCAL_FAST t offset p_org s))))"

definition op_set_local :: "WASMFunction \<Rightarrow> u32 \<Rightarrow> LoaderState \<Rightarrow> LoaderState lresult" where
  "op_set_local F p_end s =
     (let p_org = lp s - 1
      in bindE (get_local F p_end s) (\<lambda>(t, offset, s).
         POP_TYPE t (rewrite_local EXT_OP_SET_LOCAL_FAST t offset p_org s)))"

definition op_tee_local ::
  "(nat \<Rightarrow> bool) \<Rightarrow> WASMFunction \<Rightarrow> u32 \<Rightarrow> LoaderState \<Rightarrow> LoaderState lresult" where
  "op_tee_local av F p_end s =
     (let p_org = lp s - 1
      in bindE (get_local F p_end s) (\<lambda>(t, offset, s).
         bindE (POP_TYPE t s) (\<lambda>s.
         bindE (PUSH_TYPES av [t] s) (\<lambda>s.
           Inr (rewrite_local EXT_OP_TEE_LOCAL_FAST t offset p_org s)))))"

definition get_global ::
  "WASMModule \<Rightarrow> u32 \<Rightarrow> LoaderState \<Rightarrow> (nat \<times> u8 \<times> bool \<times> LoaderState) lresult" where
  "get_global M p_end s =
     bindE (read_u32 p_end s) (\<lambda>(global_idx, s).
       let n = length (import_globals M); i = unat global_idx
       in if i \<ge> n + length (globals M) then Inl ''unknown global''
          else let g = (if i < n then import_globals M ! i else globals M ! (i - n))
               in Inr (i, fst g, snd g, s))"

definition op_get_global ::
  "(nat \<Rightarrow> bool) \<Rightarrow> WASMModule \<Rightarrow> u32 \<Rightarrow> LoaderState \<Rightarrow> LoaderState lresult" where
  "op_get_global av M p_end s =
     (let p_org = lp s - 1
      in bindE (get_global M p_end s) (\<lambda>(i, t, mutable, s).
         bindE (PUSH_TYPES av [t] s) (\<lambda>s.
           Inr (if t = VALUE_TYPE_I64 \<or> t = VALUE_TYPE_F64
                then poke p_org WASM_OP_GET_GLOBAL_64 s else s))))"

definition op_set_global :: "WASMModule \<Rightarrow> u32 \<Rightarrow> LoaderState \<Rightarrow> LoaderState lresult" where
  "op_set_global M p_end s =
     (let p_org = lp s - 1
      in bindE (get_global M p_end s) (\<lambda>(i, t, mutable, s).
         if \<not> mutable then Inl ''global is immutable''
         else POP_TYPE t
           (if t = VALUE_TYPE_I64 \<or> t = VALUE_TYPE_F64 then poke p_org WASM_OP_SET_GLOBAL_64 s
            else if aux_stack_size M > 0 \<and> i = unat (aux_stack_top_global_index M)
            then poke p_org WASM_OP_SET_GLOBAL_AUX_STACK s
            else s)))"

section \<open>Memory\<close>

definition check_memory :: "WASMModule \<Rightarrow> unit lresult" where
  "check_memory M =
     (if memory_count M = 0 \<and> import_memory_count M = 0 then Inl ''unknown memory'' else Inr ())"

definition check_memidx :: "u32 \<Rightarrow> unit lresult" where
  "check_memidx memidx = (if memidx \<noteq> 0 then Inl ''zero byte expected'' else Inr ())"

definition mem_access_aligns :: "nat list" where
  "mem_access_aligns =
     [2, 3, 2, 3, 0, 0, 1, 1, 0, 0, 1, 1, 2, 2,
      2, 3, 2, 3, 0, 1, 0, 1, 2]"

definition check_memory_access_align :: "u8 \<Rightarrow> u32 \<Rightarrow> unit lresult" where
  "check_memory_access_align opcode align =
     (if unat align > mem_access_aligns ! unat (opcode - 0x28)
      then Inl ''invalid memop flags: alignment must not be larger than natural''
      else Inr ())"

text \<open>The type a load pushes and the type a store pops.\<close>

definition load_type :: "u8 \<Rightarrow> u8 option" where
  "load_type op =
     (if op \<in> {0x28, 0x2c, 0x2d, 0x2e, 0x2f} then Some VALUE_TYPE_I32
      else if op \<in> {0x29, 0x30, 0x31, 0x32, 0x33, 0x34, 0x35} then Some VALUE_TYPE_I64
      else if op = 0x2a then Some VALUE_TYPE_F32
      else if op = 0x2b then Some VALUE_TYPE_F64 else None)"

definition store_type :: "u8 \<Rightarrow> u8 option" where
  "store_type op =
     (if op \<in> {0x36, 0x3a, 0x3b} then Some VALUE_TYPE_I32
      else if op \<in> {0x37, 0x3c, 0x3d, 0x3e} then Some VALUE_TYPE_I64
      else if op = 0x38 then Some VALUE_TYPE_F32
      else if op = 0x39 then Some VALUE_TYPE_F64 else None)"

definition op_load_store ::
  "(nat \<Rightarrow> bool) \<Rightarrow> WASMModule \<Rightarrow> u32 \<Rightarrow> u8 \<Rightarrow> LoaderState \<Rightarrow> LoaderState lresult" where
  "op_load_store av M p_end opcode s =
     bindE (check_memory M) (\<lambda>_.
     bindE (read_u32 p_end s) (\<lambda>(align, s).
     bindE (read_u32 p_end s) (\<lambda>(mem_offset, s).
     bindE (check_memory_access_align opcode align) (\<lambda>_.
       case load_type opcode of
         Some t \<Rightarrow> POPS_AND_PUSH av 1 VALUE_TYPE_I32 t s
       | None \<Rightarrow> (case store_type opcode of
             Some t \<Rightarrow> bindE (POP_TYPE t s) (POP_TYPE VALUE_TYPE_I32)
           | None \<Rightarrow> Inr s)))))"

definition op_memory_size ::
  "(nat \<Rightarrow> bool) \<Rightarrow> WASMModule \<Rightarrow> u32 \<Rightarrow> LoaderState \<Rightarrow> LoaderState lresult" where
  "op_memory_size av M p_end s =
     bindE (check_memory M) (\<lambda>_.
     bindE (read_u32 p_end s) (\<lambda>(memidx, s).
     bindE (check_memidx memidx) (\<lambda>_.
     bindE (PUSH_TYPES av [VALUE_TYPE_I32] s) (\<lambda>s.
       Inr (s\<lparr>possible_memory_grow := True\<rparr>)))))"

definition op_memory_grow ::
  "(nat \<Rightarrow> bool) \<Rightarrow> WASMModule \<Rightarrow> u32 \<Rightarrow> LoaderState \<Rightarrow> LoaderState lresult" where
  "op_memory_grow av M p_end s =
     bindE (check_memory M) (\<lambda>_.
     bindE (read_u32 p_end s) (\<lambda>(memidx, s).
     bindE (check_memidx memidx) (\<lambda>_.
     bindE (POPS_AND_PUSH av 1 VALUE_TYPE_I32 VALUE_TYPE_I32 s) (\<lambda>s.
       Inr (s\<lparr>possible_memory_grow := True\<rparr>)))))"


section \<open>Constants and arithmetic\<close>

definition op_const :: "(nat \<Rightarrow> bool) \<Rightarrow> u32 \<Rightarrow> u8 \<Rightarrow> LoaderState \<Rightarrow> LoaderState lresult" where
  "op_const av p_end opcode s =
     (if opcode = 0x41 then
        bindE (read_leb_int32 (lmem s) (lp s) p_end) (\<lambda>(i32_const, p).
          PUSH_TYPES av [VALUE_TYPE_I32] (s\<lparr>lp := p\<rparr>))
      else if opcode = 0x42 then
        bindE (read_leb_int64 (lmem s) (lp s) p_end) (\<lambda>(i64_const, p).
          PUSH_TYPES av [VALUE_TYPE_I64] (s\<lparr>lp := p\<rparr>))
      else if opcode = 0x43 then
        (if \<not> check_buf (lp s) p_end 4 then Inl unexpected_end
         else PUSH_TYPES av [VALUE_TYPE_F32] (s\<lparr>lp := lp s + 4\<rparr>))
      else
        (if \<not> check_buf (lp s) p_end 8 then Inl unexpected_end
         else PUSH_TYPES av [VALUE_TYPE_F64] (s\<lparr>lp := lp s + 8\<rparr>)))"

text \<open>The operands and the result of every comparison, arithmetic operation and conversion
  (opcodes 0x45 to 0xc4): how many operands, their type, the type of the result.\<close>

definition numeric_sig :: "u8 \<Rightarrow> (nat \<times> u8 \<times> u8) option" where
  "numeric_sig op =
     (let i32 = VALUE_TYPE_I32; i64 = VALUE_TYPE_I64; f32 = VALUE_TYPE_F32; f64 = VALUE_TYPE_F64
      in if op < 0x45 then None
      else if op \<le> 0x45 then Some (1, i32, i32)
      else if op \<le> 0x4f then Some (2, i32, i32)
      else if op \<le> 0x50 then Some (1, i64, i32)
      else if op \<le> 0x5a then Some (2, i64, i32)
      else if op \<le> 0x60 then Some (2, f32, i32)
      else if op \<le> 0x66 then Some (2, f64, i32)
      else if op \<le> 0x69 then Some (1, i32, i32)
      else if op \<le> 0x78 then Some (2, i32, i32)
      else if op \<le> 0x7b then Some (1, i64, i64)
      else if op \<le> 0x8a then Some (2, i64, i64)
      else if op \<le> 0x91 then Some (1, f32, f32)
      else if op \<le> 0x98 then Some (2, f32, f32)
      else if op \<le> 0x9f then Some (1, f64, f64)
      else if op \<le> 0xa6 then Some (2, f64, f64)
      else if op \<le> 0xa7 then Some (1, i64, i32)
      else if op \<le> 0xa9 then Some (1, f32, i32)
      else if op \<le> 0xab then Some (1, f64, i32)
      else if op \<le> 0xad then Some (1, i32, i64)
      else if op \<le> 0xaf then Some (1, f32, i64)
      else if op \<le> 0xb1 then Some (1, f64, i64)
      else if op \<le> 0xb3 then Some (1, i32, f32)
      else if op \<le> 0xb5 then Some (1, i64, f32)
      else if op \<le> 0xb6 then Some (1, f64, f32)
      else if op \<le> 0xb8 then Some (1, i32, f64)
      else if op \<le> 0xba then Some (1, i64, f64)
      else if op \<le> 0xbb then Some (1, f32, f64)
      else if op \<le> 0xbc then Some (1, f32, i32)
      else if op \<le> 0xbd then Some (1, f64, i64)
      else if op \<le> 0xbe then Some (1, i32, f32)
      else if op \<le> 0xbf then Some (1, i64, f64)
      else if op \<le> 0xc1 then Some (1, i32, i32)
      else if op \<le> 0xc4 then Some (1, i64, i64)
      else None)"

section \<open>The two prefixes\<close>

definition unsupported_opcode :: string where "unsupported_opcode = ''unsupported opcode''"

definition misc_trunc_sig :: "u32 \<Rightarrow> (u8 \<times> u8) option" where
  "misc_trunc_sig op =
     (if op \<in> {0, 1} then Some (VALUE_TYPE_F32, VALUE_TYPE_I32)
      else if op \<in> {2, 3} then Some (VALUE_TYPE_F64, VALUE_TYPE_I32)
      else if op \<in> {4, 5} then Some (VALUE_TYPE_F32, VALUE_TYPE_I64)
      else if op \<in> {6, 7} then Some (VALUE_TYPE_F64, VALUE_TYPE_I64)
      else None)"

definition has_memory :: "WASMModule \<Rightarrow> bool" where
  "has_memory M \<longleftrightarrow> \<not> (import_memory_count M = 0 \<and> memory_count M = 0)"

definition op_misc ::
  "(nat \<Rightarrow> bool) \<Rightarrow> WASMModule \<Rightarrow> u32 \<Rightarrow> LoaderState \<Rightarrow> LoaderState lresult" where
  "op_misc av M p_end s =
     bindE (read_u32 p_end s) (\<lambda>(opcode1, s).
       case misc_trunc_sig opcode1 of
         Some (t, t') \<Rightarrow> POPS_AND_PUSH av 1 t t' s
       | None \<Rightarrow>
         if opcode1 = 8 then
           bindE (read_u32 p_end s) (\<lambda>(data_seg_idx, s).
           if \<not> has_memory M then Inl ''unknown memory 0'' else
           bindE (read_u32 p_end s) (\<lambda>(memidx, s).
           bindE (check_memidx memidx) (\<lambda>_.
             if unat data_seg_idx \<ge> data_seg_count M then Inl ''unknown data segment''
             else if data_seg_count1 M = 0 then Inl ''data count section required''
             else POP_TYPES [VALUE_TYPE_I32, VALUE_TYPE_I32, VALUE_TYPE_I32] s)))
         else if opcode1 = 9 then
           bindE (read_u32 p_end s) (\<lambda>(data_seg_idx, s).
             if unat data_seg_idx \<ge> data_seg_count M then Inl ''unknown data segment''
             else if data_seg_count1 M = 0 then Inl ''data count section required''
             else Inr s)
         else if opcode1 = 10 then
           (if \<not> check_buf (lp s) p_end 2 then Inl unexpected_end else
           bindE (read_u32 p_end s) (\<lambda>(memidx, s).
           bindE (check_memidx memidx) (\<lambda>_.
           bindE (read_u32 p_end s) (\<lambda>(memidx, s).
           bindE (check_memidx memidx) (\<lambda>_.
             if \<not> has_memory M then Inl ''unknown memory 0''
             else POP_TYPES [VALUE_TYPE_I32, VALUE_TYPE_I32, VALUE_TYPE_I32] s)))))
         else if opcode1 = 11 then
           bindE (read_u32 p_end s) (\<lambda>(memidx, s).
           bindE (check_memidx memidx) (\<lambda>_.
             if \<not> has_memory M then Inl ''unknown memory 0''
             else POP_TYPES [VALUE_TYPE_I32, VALUE_TYPE_I32, VALUE_TYPE_I32] s))
         else Inl unsupported_opcode)"

text \<open>The alignment check of the atomic operations gets the opcode as a byte and reads an array
  with it. Its assertion about the opcode is empty in the build, so an opcode that is no
  atomic operation reads outside the array: what is there is the parameter \<open>stray\<close>.\<close>

definition atomic_align :: "(int \<Rightarrow> u8) \<Rightarrow> u8 \<Rightarrow> u8" where
  "atomic_align stray opcode =
     (if opcode \<le> 2 then [2, 2, 3] ! unat opcode
      else
        let i = (if uint opcode - 0x10 < 0 then - ((0x10 - uint opcode) mod 7)
                 else (uint opcode - 0x10) mod 7)
        in if 0 \<le> i then [2, 3, 0, 1, 0, 1, 2] ! nat i else stray i)"

definition check_memory_align_equal :: "(int \<Rightarrow> u8) \<Rightarrow> u8 \<Rightarrow> u32 \<Rightarrow> unit lresult" where
  "check_memory_align_equal stray opcode align =
     (if align \<noteq> ucast (atomic_align stray opcode) then Inl ''alignment isn't equal to natural''
      else Inr ())"

text \<open>The operands from the top of the stack (the address last) and the results of the atomic
  operations. Every group of seven opcodes from 0x10 to 0x4e has its operations on 32-bit
  values at the places 0, 2 and 3.\<close>

definition atomic_sig :: "u32 \<Rightarrow> (u8 list \<times> u8 list) option" where
  "atomic_sig op =
     (let i32 = VALUE_TYPE_I32; i64 = VALUE_TYPE_I64;
          t = (if (unat op - 0x10) mod 7 \<in> {0, 2, 3} then i32 else i64)
      in if op = 0 then Some ([i32, i32], [i32])
         else if op = 1 then Some ([i64, i32, i32], [i32])
         else if op = 2 then Some ([i64, i64, i32], [i32])
         else if 0x10 \<le> op \<and> op \<le> 0x16 then Some ([i32], [t])
         else if 0x17 \<le> op \<and> op \<le> 0x1d then Some ([t, i32], [])
         else if 0x1e \<le> op \<and> op \<le> 0x47 then Some ([t, i32], [t])
         else if 0x48 \<le> op \<and> op \<le> 0x4e then Some ([t, t, i32], [t])
         else None)"

definition op_atomic ::
  "(nat \<Rightarrow> bool) \<Rightarrow> (int \<Rightarrow> u8) \<Rightarrow> WASMModule \<Rightarrow> u32 \<Rightarrow> LoaderState \<Rightarrow> LoaderState lresult" where
  "op_atomic av stray M p_end s =
     bindE (read_u32 p_end s) (\<lambda>(opcode1, s).
       if opcode1 = 3 then
         (if lmem s (lp s) \<noteq> 0 then Inl ''zero byte expected''
          else Inr (s\<lparr>lp := lp s + 1\<rparr>))
       else
         bindE (check_memory M) (\<lambda>_.
         bindE (read_u32 p_end s) (\<lambda>(align, s).
         bindE (read_u32 p_end s) (\<lambda>(mem_offset, s).
         bindE (check_memory_align_equal stray (ucast opcode1) align) (\<lambda>_.
           case atomic_sig opcode1 of
             None \<Rightarrow> Inl unsupported_opcode
           | Some (pops, pushes) \<Rightarrow> bindE (POP_TYPES pops s) (PUSH_TYPES av pushes))))))"

section \<open>The switch and its loop\<close>

record loader_env =
  env_av :: "nat \<Rightarrow> bool"
  env_stray :: "int \<Rightarrow> u8"

definition prepare_opcode ::
  "loader_env \<Rightarrow> WASMModule \<Rightarrow> WASMFunction \<Rightarrow> u32 \<Rightarrow> u8 \<Rightarrow> LoaderState \<Rightarrow> LoaderState lresult" where
  "prepare_opcode E M F p_end opcode s =
     (let av = env_av E
      in if opcode = 0x00 then mark_unreachable s
      else if opcode = 0x01 then Inr s
      else if opcode = 0x02 \<or> opcode = 0x03 then handle_op_block_and_loop av M p_end opcode s
      else if opcode = 0x04 then op_if av M p_end opcode s
      else if opcode = 0x05 then handle_op_else av s
      else if opcode = 0x0b then op_end av p_end s
      else if opcode = 0x0c then op_br av p_end opcode s
      else if opcode = 0x0d then op_br_if av p_end opcode s
      else if opcode = 0x0e then op_br_table av p_end s
      else if opcode = 0x0f then op_return F s
      else if opcode = 0x10 then op_call av M p_end s
      else if opcode = 0x11 then op_call_indirect av M p_end s
      else if opcode = 0x1a then op_drop s
      else if opcode = 0x1b then op_select av s
      else if opcode = 0x20 then op_get_local av F p_end s
      else if opcode = 0x21 then op_set_local F p_end s
      else if opcode = 0x22 then op_tee_local av F p_end s
      else if opcode = 0x23 then op_get_global av M p_end s
      else if opcode = 0x24 then op_set_global M p_end s
      else if 0x28 \<le> opcode \<and> opcode \<le> 0x3e then op_load_store av M p_end opcode s
      else if opcode = 0x3f then op_memory_size av M p_end s
      else if opcode = 0x40 then op_memory_grow av M p_end s
      else if 0x41 \<le> opcode \<and> opcode \<le> 0x44 then op_const av p_end opcode s
      else if opcode = 0xfc then op_misc av M p_end s
      else if opcode = 0xfe then op_atomic av (env_stray E) M p_end s
      else (case numeric_sig opcode of
              Some (n, type_pop, type_push) \<Rightarrow> POPS_AND_PUSH av n type_pop type_push s
            | None \<Rightarrow> Inl unsupported_opcode))"

definition prepare_step ::
  "loader_env \<Rightarrow> WASMModule \<Rightarrow> WASMFunction \<Rightarrow> u32 \<Rightarrow> LoaderState \<Rightarrow> LoaderState lresult" where
  "prepare_step E M F p_end s =
     prepare_opcode E M F p_end (lmem s (lp s)) (s\<lparr>lp := lp s + 1\<rparr>)"

partial_function (option) prepare_loop ::
  "loader_env \<Rightarrow> WASMModule \<Rightarrow> WASMFunction \<Rightarrow> u32 \<Rightarrow> LoaderState \<Rightarrow> LoaderState lresult option" where
  "prepare_loop E M F p_end s =
     (if lp s < p_end then
        (case prepare_step E M F p_end s of
           Inl e \<Rightarrow> Some (Inl e)
         | Inr s' \<Rightarrow> prepare_loop E M F p_end s')
      else Some (Inr s))"

declare prepare_loop.simps [code]

text \<open>The result of the validation: the depths of the two stacks, which become
  \<open>max_stack_cell_num\<close> and \<open>max_block_num\<close> of the function, and the state, which holds the
  rewritten code.\<close>

definition prepare_start :: "loader_env \<Rightarrow> WASMFunction \<Rightarrow> cmem \<Rightarrow> LoaderState lresult" where
  "prepare_start E F m =
     bindE (wasm_loader_ctx_init (env_av E)) (\<lambda>ctx.
     bindE (wasm_loader_push_frame_csp (env_av E) ctx LABEL_TYPE_FUNCTION
              (Type_index (func_type F)) (code F)) (\<lambda>ctx.
       Inr \<lparr>lctx = ctx, lp = code F, lmem = m, br_table_caches = [],
            possible_memory_grow = False\<rparr>))"

definition wasm_loader_prepare_bytecode ::
  "loader_env \<Rightarrow> WASMModule \<Rightarrow> WASMFunction \<Rightarrow> cmem \<Rightarrow> (nat \<times> nat \<times> LoaderState) lresult option" where
  "wasm_loader_prepare_bytecode E M F m =
     (case prepare_start E F m of
        Inl e \<Rightarrow> Some (Inl e)
      | Inr s0 \<Rightarrow>
          (case prepare_loop E M F (code F + code_size F) s0 of
             None \<Rightarrow> None
           | Some (Inl e) \<Rightarrow> Some (Inl e)
           | Some (Inr s) \<Rightarrow> Some
               (if csp_num (lctx s) > 0
                then Inl ''unexpected end opcodes from unbalanced control flow structures''
                else Inr (max_stack_cell_num (lctx s), max_csp_num (lctx s), s))))"

end
