(* ===== verification/Module_Content.thy ===== *)
theory Module_Content
  imports Utf8_Check Loader_Code "HOL-Library.List_Lexorder"
begin

text \<open>
  The loaders of the sections of a module, \<^verbatim>\<open>core/iwasm/interpreter/wasm_loader.c\<close>: types,
  imports, functions, tables, memories, globals, exports, the start function, element and data segments, and
  \<open>load_from_sections\<close>, which runs them and then the validation of every function body.

  A section loader reads at a pointer and returns the pointer behind what it has read. The byte memory is
  part of the state, because names are zero-terminated in place when the module is loaded from a
  buffer that stays; a name itself is modelled by its bytes, which contain no zero. Requests to the allocator are the parameter
  \<open>av\<close>, the sizes of the C structures are parameters. Left out is what only other configurations read: the
  links to native functions, which \<open>Native_Symbols\<close> has, and the counts of shared types are
  counted from the list.
\<close>

section \<open>What a module consists of\<close>

datatype ctype = T_Import | T_Function | T_Table | T_Memory | T_Global | T_Export | T_TableSeg | T_DataSeg
  | T_InitExpr | T_InitValue | T_FuncType | T_StringNode

record InitializerExpression =
  init_expr_type :: u8
  init_value :: u64

record FunctionImport =
  fi_module :: "u8 list"
  fi_field :: "u8 list"
  fi_type :: WASMFuncType

record TableType =
  tt_elem_type :: u8
  tt_flags :: u32
  tt_init_size :: u32
  tt_max_size :: u32

record MemoryType =
  mt_flags :: u32
  mt_init_page_count :: u32
  mt_max_page_count :: u32
  mt_num_bytes_per_page :: u32

record GlobalImport =
  gi_val_type :: u8
  gi_mutable :: bool
  gi_linked :: "u64 option"

record WASMGlobal =
  g_val_type :: u8
  g_mutable :: bool
  g_init :: InitializerExpression

record WASMExport =
  e_name :: "u8 list"
  e_kind :: u8
  e_index :: u32

record WASMTableSeg =
  ts_table_index :: u32
  ts_base_offset :: InitializerExpression
  ts_values :: "u32 list"

record WASMDataSeg =
  ds_passive :: bool
  ds_memory_index :: u32
  ds_base_offset :: InitializerExpression
  ds_data :: u32
  ds_length :: u32

text \<open>The part of \<^verbatim>\<open>WASMModule\<close> the loader fills. The counts are the lengths of the lists.\<close>

record ModuleContent =
  mc_types :: "WASMFuncType list"
  mc_import_functions :: "FunctionImport list"
  mc_import_tables :: "TableType list"
  mc_import_memories :: "MemoryType list"
  mc_import_globals :: "GlobalImport list"
  mc_functions :: "WASMFunction list"
  mc_tables :: "TableType list"
  mc_memories :: "MemoryType list"
  mc_globals :: "WASMGlobal list"
  mc_exports :: "WASMExport list"
  mc_start_function :: u32
  mc_table_segs :: "WASMTableSeg list"
  mc_data_segs :: "WASMDataSeg list"
  mc_data_seg_count1 :: u32
  mc_import_wasi_api :: bool

record loading =
  ld_mem :: cmem
  ld_strs :: "u8 list list"
  ld_mod :: ModuleContent

record load_env =
  le_av :: "nat \<Rightarrow> bool"
  le_sizeof :: "ctype \<Rightarrow> nat"
  le_reuse :: bool
  le_clone :: bool

definition loader_malloc :: "load_env \<Rightarrow> nat \<Rightarrow> bool" where
  "loader_malloc E n \<longleftrightarrow> \<not> n \<ge> 0xFFFFFFFF \<and> le_av E n"

definition allocE :: "load_env \<Rightarrow> nat \<Rightarrow> unit lresult" where
  "allocE E n = guardE (loader_malloc E n) ''allocate memory failed''"

definition sizeof_ptr :: nat where "sizeof_ptr = 4"

section \<open>Reading\<close>

definition CHECK_BUF :: "u32 \<Rightarrow> u32 \<Rightarrow> u32 \<Rightarrow> unit lresult" where
  "CHECK_BUF p p_end n = guardE (check_buf p p_end n) unexpected_end"

definition get_uint8 :: "cmem \<Rightarrow> u32 \<Rightarrow> u32 \<Rightarrow> (u8 \<times> u32) lresult" where
  "get_uint8 m p p_end = bindE (CHECK_BUF p p_end 1) (\<lambda>_. Inr (m p, p + 1))"

text \<open>\<open>n\<close> bytes, each with its check.\<close>

fun get_bytes :: "cmem \<Rightarrow> nat \<Rightarrow> u32 \<Rightarrow> u32 \<Rightarrow> (u8 list \<times> u32) lresult" where
  "get_bytes m 0 p p_end = Inr ([], p)"
| "get_bytes m (Suc n) p p_end =
     bindE (get_uint8 m p p_end) (\<lambda>(b, p). bindE (get_bytes m n p p_end) (\<lambda>(bs, p). Inr (b # bs, p)))"

text \<open>A loop over \<open>n\<close> items, which keeps the pointer and a state.\<close>

fun items :: "(u32 \<Rightarrow> 's \<Rightarrow> ('s \<times> u32) lresult) \<Rightarrow> nat \<Rightarrow> u32 \<Rightarrow> 's \<Rightarrow> ('s \<times> u32) lresult" where
  "items f 0 p s = Inr (s, p)"
| "items f (Suc n) p s = bindE (f p s) (\<lambda>(s, p). items f n p s)"

definition section_end :: "u32 \<Rightarrow> u32 \<Rightarrow> unit lresult" where
  "section_end p p_end = guardE (p = p_end) ''section size mismatch''"

text \<open>Names: \<open>wasm_const_str_list_insert\<close>. With \<open>le_reuse\<close> the string moves one byte down over the last byte of
  its length, and a zero follows it; otherwise it is copied once.\<close>

definition adjust_string :: "u32 \<Rightarrow> u32 \<Rightarrow> cmem \<Rightarrow> cmem" where
  "adjust_string str n m =
     (\<lambda>a. if a - (str - 1) < n then m (a + 1) else if a = str - 1 + n then 0 else m a)"

definition wasm_const_str_list_insert ::
  "load_env \<Rightarrow> u32 \<Rightarrow> u32 \<Rightarrow> loading \<Rightarrow> (u8 list \<times> loading) lresult" where
  "wasm_const_str_list_insert E str n s =
     (let bs = cbytes (ld_mem s) str (unat n)
      in if \<not> wasm_check_utf8_str bs then Inl ''invalid UTF-8 encoding''
         else if n = 0 then Inr ([], s)
         else if le_reuse E then Inr (bs, s\<lparr>ld_mem := adjust_string str n (ld_mem s)\<rparr>)
         else if bs \<in> set (ld_strs s) then Inr (bs, s)
         else bindE (allocE E (le_sizeof E T_StringNode + unat n + 1)) (\<lambda>_.
                Inr (bs, s\<lparr>ld_strs := bs # ld_strs s\<rparr>)))"

text \<open>A name with its length in front, as the sections have it.\<close>

definition read_name :: "load_env \<Rightarrow> u32 \<Rightarrow> u32 \<Rightarrow> loading \<Rightarrow> ((u8 list \<times> u32) \<times> loading) lresult" where
  "read_name E p p_end s =
     bindE (read_leb_uint32 (ld_mem s) p p_end) (\<lambda>(n, p).
     bindE (CHECK_BUF p p_end n) (\<lambda>_.
     bindE (wasm_const_str_list_insert E p n s) (\<lambda>(bs, s). Inr ((bs, p + n), s))))"

definition skip_name :: "cmem \<Rightarrow> u32 \<Rightarrow> u32 \<Rightarrow> u32 lresult" where
  "skip_name m p p_end =
     bindE (read_leb_uint32 m p p_end) (\<lambda>(n, p). bindE (CHECK_BUF p p_end n) (\<lambda>_. Inr (p + n)))"

section \<open>Types\<close>

definition read_func_type ::
  "load_env \<Rightarrow> cmem \<Rightarrow> u32 \<Rightarrow> u32 \<Rightarrow> WASMFuncType list \<Rightarrow> (WASMFuncType list \<times> u32) lresult" where
  "read_func_type E m p_end p ts =
     bindE (get_uint8 m p p_end) (\<lambda>(flag, p).
     bindE (guardE (flag = 0x60) ''invalid type flag'') (\<lambda>_.
     bindE (read_leb_uint32 m p p_end) (\<lambda>(n_params, p).
     let p_org = p in
     bindE (CHECK_BUF p p_end n_params) (\<lambda>_.
     bindE (read_leb_uint32 m (p + n_params) p_end) (\<lambda>(n_results, p).
     bindE (CHECK_BUF p p_end n_results) (\<lambda>_.
     bindE (guardE (\<not> (n_params > 0xFFFF \<or> n_results > 0xFFFF)) ''param count or result count too large'') (\<lambda>_.
     bindE (allocE E (le_sizeof E T_FuncType + unat (n_params + n_results))) (\<lambda>_.
     bindE (get_bytes m (unat n_params) p_org p_end) (\<lambda>(params, p).
     bindE (read_leb_uint32 m p p_end) (\<lambda>(n_results, p).
     bindE (get_bytes m (unat n_results) p p_end) (\<lambda>(results, p).
     bindE (guardE (list_all is_valid_value_type_for_interpreter (params @ results)) ''unknown value type'') (\<lambda>_.
     bindE (guardE (\<not> (wasm_get_cell_num params > 0xFFFF \<or> wasm_get_cell_num results > 0xFFFF))
              ''param count or result count too large'') (\<lambda>_.
     let t = \<lparr>param_count = unat n_params, result_count = unat n_results, types = params @ results\<rparr> in
     bindE (guardE (length (filter (\<lambda>t'. t' = t) ts) < 0xFFFF) ''wasm type's ref count too large'') (\<lambda>_.
       Inr (ts @ [t], p)))))))))))))))"

definition load_type_section :: "load_env \<Rightarrow> u32 \<Rightarrow> u32 \<Rightarrow> loading \<Rightarrow> loading lresult" where
  "load_type_section E buf buf_end s =
     (let m = ld_mem s in
      bindE (read_leb_uint32 m buf buf_end) (\<lambda>(type_count, p).
      bindE (if type_count \<noteq> 0 then allocE E (sizeof_ptr * unat type_count) else Inr ()) (\<lambda>_.
      bindE (items (read_func_type E m buf_end) (unat type_count) p []) (\<lambda>(ts, p).
      bindE (section_end p buf_end) (\<lambda>_.
        Inr (s\<lparr>ld_mod := (ld_mod s)\<lparr>mc_types := ts\<rparr>\<rparr>))))))"


section \<open>Tables and memories\<close>

definition adjust_table_max_size :: "u32 \<Rightarrow> bool \<Rightarrow> u32 \<Rightarrow> u32" where
  "adjust_table_max_size init_size max_size_flag max_size =
     (let default_max_size = (if 0x7FFFFFFF > init_size then init_size * 2 else 0xFFFFFFFF);
          default_max_size = (if default_max_size < 1024 then 1024 else default_max_size)
      in if max_size_flag then
           (if init_size < max_size then
              (if max_size < default_max_size then max_size else default_max_size) else max_size)
         else default_max_size)"

definition check_table_max_size :: "u32 \<Rightarrow> u32 \<Rightarrow> unit lresult" where
  "check_table_max_size init_size max_size =
     guardE (\<not> max_size < init_size) ''size minimum must not be greater than maximum''"

text \<open>The flags of a limit: one byte, and accepted.\<close>

definition read_flags :: "(u8 \<Rightarrow> string option \<times> bool) \<Rightarrow> cmem \<Rightarrow> u32 \<Rightarrow> u32 \<Rightarrow> (u32 \<times> u32) lresult" where
  "read_flags check m p p_end =
     (let p_org = p in
      bindE (read_leb_uint32 m p p_end) (\<lambda>(flags, p).
      bindE (guardE (\<not> p - p_org > 1) ''invalid limits flags'') (\<lambda>_.
        case check (ucast flags) of
          (e, ok) \<Rightarrow> if ok then Inr (flags, p) else Inl (case e of None \<Rightarrow> [] | Some msg \<Rightarrow> msg))))"

definition load_table :: "cmem \<Rightarrow> u32 \<Rightarrow> u32 \<Rightarrow> (TableType \<times> u32) lresult" where
  "load_table m p p_end =
     bindE (get_uint8 m p p_end) (\<lambda>(elem_type, p).
     bindE (guardE (\<not> VALUE_TYPE_FUNCREF \<noteq> elem_type) ''incompatible import type'') (\<lambda>_.
     bindE (read_flags wasm_table_check_flags m p p_end) (\<lambda>(flags, p).
     bindE (read_leb_uint32 m p p_end) (\<lambda>(init_size, p).
     bindE (if flags AND 1 \<noteq> 0 then
              bindE (read_leb_uint32 m p p_end) (\<lambda>(max_size, p).
              bindE (check_table_max_size init_size max_size) (\<lambda>_. Inr (max_size, p)))
            else Inr (0, p)) (\<lambda>(max_size, p).
       Inr (\<lparr>tt_elem_type = elem_type, tt_flags = flags, tt_init_size = init_size,
             tt_max_size = adjust_table_max_size init_size (flags AND 1 \<noteq> 0) max_size\<rparr>, p))))))"

definition name_bytes :: "string \<Rightarrow> u8 list" where
  "name_bytes = map (\<lambda>c. of_nat (of_char c))"

definition load_table_import ::
  "cmem \<Rightarrow> u32 \<Rightarrow> u32 \<Rightarrow> u8 list \<Rightarrow> u8 list \<Rightarrow> (TableType \<times> u32) lresult" where
  "load_table_import m p p_end sub_module_name table_name =
     bindE (load_table m p p_end) (\<lambda>(t, p).
       if sub_module_name = name_bytes ''spectest'' then
         if table_name \<noteq> name_bytes ''table'' then Inl ''incompatible import type or unknown import''
         else if tt_init_size t > 10 \<or> tt_max_size t < 20 then Inl ''incompatible import type''
         else Inr (t\<lparr>tt_init_size := 10, tt_max_size := 20\<rparr>, p)
       else Inr (t, p))"

definition check_memory_init_size :: "bool \<Rightarrow> u32 \<Rightarrow> unit lresult" where
  "check_memory_init_size is_memory64 init_size =
     guardE (\<not> (\<not> is_memory64 \<and> init_size > 65536)) ''memory size must be at most 65536 pages (4GiB)''"

definition check_memory_max_size :: "bool \<Rightarrow> u32 \<Rightarrow> u32 \<Rightarrow> unit lresult" where
  "check_memory_max_size is_memory64 init_size max_size =
     bindE (guardE (\<not> max_size < init_size) ''size minimum must not be greater than maximum'') (\<lambda>_.
       guardE (\<not> (\<not> is_memory64 \<and> max_size > 65536)) ''memory size must be at most 65536 pages (4GiB)'')"

definition load_memory :: "cmem \<Rightarrow> u32 \<Rightarrow> u32 \<Rightarrow> (MemoryType \<times> u32) lresult" where
  "load_memory m p p_end =
     bindE (read_flags wasm_memory_check_flags m p p_end) (\<lambda>(flags, p).
     let is_memory64 = (flags AND 4 \<noteq> 0) in
     bindE (read_leb_uint32 m p p_end) (\<lambda>(init_page_count, p).
     bindE (check_memory_init_size is_memory64 init_page_count) (\<lambda>_.
     let max_page_count = (if is_memory64 then 0xFFFFFFFF else 65536) in
     bindE (if flags AND 1 \<noteq> 0 then
              bindE (read_leb_uint32 m p p_end) (\<lambda>(n, p).
              bindE (check_memory_max_size is_memory64 init_page_count n) (\<lambda>_.
                Inr (if n > max_page_count then max_page_count else n, p)))
            else Inr (max_page_count, p)) (\<lambda>(n, p).
       Inr (\<lparr>mt_flags = flags, mt_init_page_count = init_page_count, mt_max_page_count = n,
             mt_num_bytes_per_page = 65536\<rparr>, p)))))"

definition load_memory_import ::
  "cmem \<Rightarrow> u32 \<Rightarrow> u32 \<Rightarrow> u8 list \<Rightarrow> u8 list \<Rightarrow> (MemoryType \<times> u32) lresult" where
  "load_memory_import m p p_end sub_module_name memory_name =
     bindE (load_memory m p p_end) (\<lambda>(t, p).
       if sub_module_name = name_bytes ''spectest'' then
         if memory_name \<noteq> name_bytes ''memory'' then Inl ''incompatible import type or unknown import''
         else if mt_init_page_count t > 1 \<or> mt_max_page_count t < 2 then Inl ''incompatible import type''
         else Inr (t\<lparr>mt_init_page_count := 1, mt_max_page_count := 2\<rparr>, p)
       else Inr (t, p))"

section \<open>Imports\<close>

definition check_mutability :: "u8 \<Rightarrow> unit lresult" where
  "check_mutability mutable = guardE (\<not> mutable \<ge> 2) ''invalid mutability''"

definition native_global_defs :: "(u8 list \<times> u8 list \<times> u8 \<times> u64) list" where
  "native_global_defs =
     [(name_bytes ''global'', name_bytes ''NaN'', VALUE_TYPE_F64, 0x7FF8000000000000),
      (name_bytes ''global'', name_bytes ''Infinity'', VALUE_TYPE_F64, 0x7FF0000000000000)]"

definition wasm_native_lookup_libc_builtin_global :: "u8 list \<Rightarrow> u8 list \<Rightarrow> (u8 \<times> u64) option" where
  "wasm_native_lookup_libc_builtin_global module_name' global_name =
     map_option (\<lambda>(_, _, t, v). (t, v))
       (find (\<lambda>(mn, gn, _, _). mn = module_name' \<and> gn = global_name) native_global_defs)"

definition load_function_import ::
  "cmem \<Rightarrow> u32 \<Rightarrow> u32 \<Rightarrow> WASMFuncType list \<Rightarrow> u8 list \<Rightarrow> u8 list \<Rightarrow> (FunctionImport \<times> u32) lresult" where
  "load_function_import m p p_end ts sub_module_name function_name =
     bindE (read_leb_uint32 m p p_end) (\<lambda>(type_index, p).
     bindE (guardE (\<not> unat type_index \<ge> length ts) ''unknown type'') (\<lambda>_.
       Inr (\<lparr>fi_module = sub_module_name, fi_field = function_name, fi_type = ts ! unat type_index\<rparr>, p)))"

definition load_global_import ::
  "cmem \<Rightarrow> u32 \<Rightarrow> u32 \<Rightarrow> u8 list \<Rightarrow> u8 list \<Rightarrow> (GlobalImport \<times> u32) lresult" where
  "load_global_import m p p_end sub_module_name global_name =
     bindE (CHECK_BUF p p_end 2) (\<lambda>_.
     let declare_type = m p; declare_mutable = m (p + 1); p = p + 2 in
     bindE (guardE (is_valid_value_type_for_interpreter declare_type) ''type mismatch'') (\<lambda>_.
     bindE (check_mutability declare_mutable) (\<lambda>_.
       case wasm_native_lookup_libc_builtin_global sub_module_name global_name of
         Some (t, v) \<Rightarrow>
           if t \<noteq> declare_type \<or> declare_mutable \<noteq> 0 then Inl ''incompatible import type''
           else Inr (\<lparr>gi_val_type = declare_type, gi_mutable = (declare_mutable = 1), gi_linked = Some v\<rparr>, p)
       | None \<Rightarrow> Inr (\<lparr>gi_val_type = declare_type, gi_mutable = (declare_mutable = 1), gi_linked = None\<rparr>, p))))"

text \<open>The first scan counts the imports of each kind and refuses a second table or memory.\<close>

definition skip_limits :: "cmem \<Rightarrow> u32 \<Rightarrow> u32 \<Rightarrow> u32 lresult" where
  "skip_limits m p p_end =
     bindE (read_leb_uint32 m p p_end) (\<lambda>(flags, p).
     bindE (read_leb_uint32 m p p_end) (\<lambda>(_, p).
       if flags AND 1 \<noteq> 0 then bindE (read_leb_uint32 m p p_end) (\<lambda>(_, p). Inr p) else Inr p))"

definition count_import ::
  "cmem \<Rightarrow> u32 \<Rightarrow> u32 \<Rightarrow> nat \<times> nat \<Rightarrow> ((nat \<times> nat) \<times> u32) lresult" where
  "count_import m p_end p c =
     (case c of (tables, memories) \<Rightarrow>
      bindE (skip_name m p p_end) (\<lambda>p.
      bindE (skip_name m p p_end) (\<lambda>p.
      bindE (get_uint8 m p p_end) (\<lambda>(kind, p).
        if kind = 0 then bindE (read_leb_uint32 m p p_end) (\<lambda>(_, p). Inr (c, p))
        else if kind = 1 then
          bindE (get_uint8 m p p_end) (\<lambda>(_, p). bindE (skip_limits m p p_end) (\<lambda>p.
          bindE (guardE (\<not> Suc tables > 1) ''multiple tables'') (\<lambda>_. Inr ((Suc tables, memories), p))))
        else if kind = 2 then
          bindE (skip_limits m p p_end) (\<lambda>p.
          bindE (guardE (\<not> Suc memories > 1) ''multiple memories'') (\<lambda>_. Inr ((tables, Suc memories), p)))
        else if kind = 3 then bindE (CHECK_BUF p p_end 2) (\<lambda>_. Inr (c, p + 2))
        else Inl ''invalid import kind''))))"

definition on_mod :: "(ModuleContent \<Rightarrow> ModuleContent) \<Rightarrow> loading \<Rightarrow> loading" where
  "on_mod f s = s\<lparr>ld_mod := f (ld_mod s)\<rparr>"

definition load_import :: "load_env \<Rightarrow> u32 \<Rightarrow> u32 \<Rightarrow> loading \<Rightarrow> (loading \<times> u32) lresult" where
  "load_import E p_end p s =
     bindE (read_name E p p_end s) (\<lambda>((sub_module_name, p), s).
     bindE (read_name E p p_end s) (\<lambda>((field_name, p), s).
     let m = ld_mem s in
     bindE (get_uint8 m p p_end) (\<lambda>(kind, p).
       if kind = 0 then
         bindE (load_function_import m p p_end (mc_types (ld_mod s)) sub_module_name field_name) (\<lambda>(f, p).
           Inr (on_mod (\<lambda>c. c\<lparr>mc_import_functions := mc_import_functions c @ [f]\<rparr>) s, p))
       else if kind = 1 then
         bindE (load_table_import m p p_end sub_module_name field_name) (\<lambda>(t, p).
           Inr (on_mod (\<lambda>c. c\<lparr>mc_import_tables := mc_import_tables c @ [t]\<rparr>) s, p))
       else if kind = 2 then
         bindE (load_memory_import m p p_end sub_module_name field_name) (\<lambda>(t, p).
           Inr (on_mod (\<lambda>c. c\<lparr>mc_import_memories := mc_import_memories c @ [t]\<rparr>) s, p))
       else if kind = 3 then
         bindE (load_global_import m p p_end sub_module_name field_name) (\<lambda>(g, p).
           Inr (on_mod (\<lambda>c. c\<lparr>mc_import_globals := mc_import_globals c @ [g]\<rparr>) s, p))
       else Inl ''invalid import kind'')))"

definition load_import_section :: "load_env \<Rightarrow> u32 \<Rightarrow> u32 \<Rightarrow> loading \<Rightarrow> loading lresult" where
  "load_import_section E buf buf_end s =
     bindE (read_leb_uint32 (ld_mem s) buf buf_end) (\<lambda>(import_count, p).
     bindE (if import_count \<noteq> 0 then
              bindE (allocE E (le_sizeof E T_Import * unat import_count)) (\<lambda>_.
              bindE (items (count_import (ld_mem s) buf_end) (unat import_count) p (0, 0)) (\<lambda>_.
              bindE (items (load_import E buf_end) (unat import_count) p s) (\<lambda>(s, p).
                Inr (on_mod (\<lambda>c. c\<lparr>mc_import_wasi_api := mc_import_wasi_api c \<or>
                       list_ex (\<lambda>f. fi_module f = name_bytes ''wasi_unstable'' \<or>
                                    fi_module f = name_bytes ''wasi_snapshot_preview1'')
                         (mc_import_functions c)\<rparr>) s, p))))
            else Inr (s, p)) (\<lambda>(s, p).
     bindE (section_end p buf_end) (\<lambda>_. Inr s)))"


section \<open>Constant expressions\<close>

record InitValue =
  iv_type :: u8
  iv_flag :: u8
  iv_value :: u64

text \<open>The stack of values, top first, and its capacity. It grows by four: out of the context by an allocation,
  afterwards by a reallocation, whose size is computed with 32 bits.\<close>

type_synonym const_expr_ctx = "InitValue list \<times> nat"

definition WASM_CONST_EXPR_STACK_SIZE :: nat where "WASM_CONST_EXPR_STACK_SIZE = 4"

definition push_const_expr_stack ::
  "load_env \<Rightarrow> u8 \<Rightarrow> u8 \<Rightarrow> u64 \<Rightarrow> const_expr_ctx \<Rightarrow> const_expr_ctx lresult" where
  "push_const_expr_stack E flag t v ctx =
     (case ctx of (stack, cap) \<Rightarrow>
        let iv = \<lparr>iv_type = t, iv_flag = flag, iv_value = v\<rparr>;
            bytes = (cap + 4) * le_sizeof E T_InitValue
        in if length stack \<ge> cap then
             bindE (if cap \<noteq> WASM_CONST_EXPR_STACK_SIZE
                    then guardE (le_av E (unat (of_nat bytes :: u32))) ''allocate memory failed''
                    else allocE E bytes) (\<lambda>_. Inr (iv # stack, cap + 4))
           else Inr (iv # stack, cap))"

definition pop_const_expr_stack :: "u8 \<Rightarrow> const_expr_ctx \<Rightarrow> (InitValue \<times> const_expr_ctx) lresult" where
  "pop_const_expr_stack t ctx =
     (case ctx of (stack, cap) \<Rightarrow>
        (case stack of
           [] \<Rightarrow> Inl ''type mismatch: const expr stack underflow''
         | iv # ivs \<Rightarrow> if iv_type iv \<noteq> t then Inl ''type mismatch'' else Inr (iv, (ivs, cap))))"

definition const_expr_global ::
  "load_env \<Rightarrow> cmem \<Rightarrow> GlobalImport list \<Rightarrow> u32 \<Rightarrow> u8 \<Rightarrow> u32 \<Rightarrow> const_expr_ctx \<Rightarrow> (const_expr_ctx \<times> u32) lresult" where
  "const_expr_global E m gs p_end flag p ctx =
     bindE (read_leb_uint32 m p p_end) (\<lambda>(global_idx, p).
      if unat global_idx \<ge> length gs then Inl ''unknown global''
      else if gi_mutable (gs ! unat global_idx) then Inl ''constant expression required''
      else bindE (push_const_expr_stack E flag (gi_val_type (gs ! unat global_idx)) (ucast global_idx) ctx)
             (\<lambda>ctx. Inr (ctx, p)))"

definition const_expr_op ::
  "load_env \<Rightarrow> cmem \<Rightarrow> GlobalImport list \<Rightarrow> u32 \<Rightarrow> u8 \<Rightarrow> u32 \<Rightarrow> const_expr_ctx \<Rightarrow> (const_expr_ctx \<times> u32) lresult" where
  "const_expr_op E m gs p_end flag p ctx =
     (if flag = 0x41 then
        bindE (read_leb_int32 m p p_end) (\<lambda>(v, p).
        bindE (push_const_expr_stack E flag VALUE_TYPE_I32 (ucast v) ctx) (\<lambda>ctx. Inr (ctx, p)))
      else if flag = 0x42 then
        bindE (read_leb_int64 m p p_end) (\<lambda>(v, p).
        bindE (push_const_expr_stack E flag VALUE_TYPE_I64 v ctx) (\<lambda>ctx. Inr (ctx, p)))
      else if flag = 0x43 then
        bindE (CHECK_BUF p p_end 4) (\<lambda>_.
        bindE (push_const_expr_stack E flag VALUE_TYPE_F32 (le_word (cbytes m p 4)) ctx) (\<lambda>ctx. Inr (ctx, p + 4)))
      else if flag = 0x44 then
        bindE (CHECK_BUF p p_end 8) (\<lambda>_.
        bindE (push_const_expr_stack E flag VALUE_TYPE_F64 (le_word (cbytes m p 8)) ctx) (\<lambda>ctx. Inr (ctx, p + 8)))
      else if flag = 0x23 then
        const_expr_global E m gs p_end flag p ctx
      else Inl ''illegal opcode or constant expression required or type mismatch'')"

lemma const_expr_op_forward:
  assumes "const_expr_op E m gs p_end flag p ctx = Inr (ctx', p')"
  shows "unat p \<le> unat p'"
  using assms check_buf_unat [of p p_end 4] check_buf_unat [of p p_end 8]
  by (auto simp: const_expr_op_def const_expr_global_def CHECK_BUF_def split: if_splits
      dest!: read_leb_uint32_Inr(1) read_leb_int32_Inr(1) read_leb_int64_Inr(1))

function const_expr_loop ::
  "load_env \<Rightarrow> cmem \<Rightarrow> GlobalImport list \<Rightarrow> u32 \<Rightarrow> u8 \<Rightarrow> u32 \<Rightarrow> const_expr_ctx \<Rightarrow> (const_expr_ctx \<times> u32) lresult" where
  "const_expr_loop E m gs p_end flag p ctx =
     (if flag = 0x0b then Inr (ctx, p)
      else (case const_expr_op E m gs p_end flag p ctx of
              Inl e \<Rightarrow> Inl e
            | Inr (ctx', p') \<Rightarrow>
                (case get_uint8 m p' p_end of
                   Inl e \<Rightarrow> Inl e
                 | Inr (flag', q) \<Rightarrow> const_expr_loop E m gs p_end flag' q ctx')))"
  by pat_completeness auto

lemma get_uint8_Inr:
  assumes "get_uint8 m p p_end = Inr (b, q)"
  shows "b = m p" "q = p + 1" "unat q = unat p + 1" "unat q \<le> unat p_end"
proof -
  from assms have c: "check_buf p p_end 1" and q: "b = m p" "q = p + 1" by (auto simp: get_uint8_def CHECK_BUF_def)
  then show "b = m p" "q = p + 1" "unat q = unat p + 1" by (simp_all add: check_buf_unat [OF c])
  then show "unat q \<le> unat p_end" using c by (simp add: check_buf_iff)
qed

termination const_expr_loop
proof (relation "measure (\<lambda>(E, m, gs, e, flag, p, ctx). unat e - unat p)", simp, clarify)
  fix E m gs e flag p ctx ctx' p' flag' q
  assume "const_expr_op E m gs e flag p ctx = Inr (ctx', p')" "get_uint8 m p' e = Inr (flag', q)"
  then show "((E, m, gs, e, flag', q, ctx'), E, m, gs, e, flag, p, ctx) \<in> measure (\<lambda>(E, m, gs, e, flag, p, ctx). unat e - unat p)"
    using const_expr_op_forward [of E m gs e flag p ctx ctx' p'] get_uint8_Inr(3,4) [of m p' e flag' q] by simp
qed

declare const_expr_loop.simps [simp del]

definition load_init_expr ::
  "load_env \<Rightarrow> cmem \<Rightarrow> GlobalImport list \<Rightarrow> u32 \<Rightarrow> u32 \<Rightarrow> u8 \<Rightarrow> (InitializerExpression \<times> u32) lresult" where
  "load_init_expr E m gs p p_end t =
     bindE (get_uint8 m p p_end) (\<lambda>(flag, p).
     bindE (const_expr_loop E m gs p_end flag p ([], WASM_CONST_EXPR_STACK_SIZE)) (\<lambda>(ctx, p).
     bindE (pop_const_expr_stack t ctx) (\<lambda>(iv, ctx).
     bindE (guardE (\<not> length (fst ctx) \<noteq> 0) ''type mismatch: illegal constant opcode sequence'') (\<lambda>_.
       Inr (\<lparr>init_expr_type = iv_flag iv, init_value = iv_value iv\<rparr>, p)))))"

section \<open>Functions\<close>

text \<open>The declarations of locals are read twice: for their number and for their types.\<close>

definition count_locals :: "cmem \<Rightarrow> u32 \<Rightarrow> u32 \<Rightarrow> u32 \<Rightarrow> (u32 \<times> u32) lresult" where
  "count_locals m p_end p local_count =
     bindE (read_leb_uint32 m p p_end) (\<lambda>(sub_local_count, p).
     bindE (guardE (\<not> sub_local_count > 0xFFFFFFFF - local_count) ''too many locals'') (\<lambda>_.
     bindE (get_uint8 m p p_end) (\<lambda>(_, p). Inr (local_count + sub_local_count, p))))"

definition local_type_message :: "u8 \<Rightarrow> string" where
  "local_type_message t =
     (if t = VALUE_TYPE_V128 then ''v128 value type requires simd feature''
      else if t = VALUE_TYPE_FUNCREF \<or> t = VALUE_TYPE_EXTERNREF
      then ''ref value type requires reference types feature'' else ''invalid local type'')"

definition read_locals ::
  "cmem \<Rightarrow> u32 \<Rightarrow> u32 \<Rightarrow> u32 \<Rightarrow> u8 list \<Rightarrow> (u8 list \<times> u32) lresult" where
  "read_locals m p_end local_count p ts =
     bindE (read_leb_uint32 m p p_end) (\<lambda>(sub_local_count, p).
     bindE (guardE (\<not> (length ts > 0xFFFFFFFF - unat sub_local_count \<or>
                      length ts + unat sub_local_count > unat local_count)) ''invalid local count'') (\<lambda>_.
     bindE (get_uint8 m p p_end) (\<lambda>(t, p).
     bindE (guardE (is_valid_value_type_for_interpreter t) (local_type_message t)) (\<lambda>_.
       Inr (ts @ replicate (unat sub_local_count) t, p)))))"

text \<open>The offsets of parameters and locals in the frame, in cells, cut to 16 bits.\<close>

fun offsets_from :: "nat \<Rightarrow> u8 list \<Rightarrow> u16 list" where
  "offsets_from off [] = []"
| "offsets_from off (t # ts) = of_nat off # offsets_from (off + wasm_value_type_cell_num t) ts"

definition init_function_local_offsets :: "load_env \<Rightarrow> WASMFuncType \<Rightarrow> u8 list \<Rightarrow> u16 list lresult" where
  "init_function_local_offsets E ft local_ts =
     (let total_size = 2 * (param_count ft + length local_ts)
      in bindE (if total_size > 0 then allocE E total_size else Inr ()) (\<lambda>_.
           Inr (offsets_from 0 (take (param_count ft) (types ft) @ local_ts))))"

definition load_function ::
  "load_env \<Rightarrow> cmem \<Rightarrow> WASMFuncType list \<Rightarrow> u32 \<Rightarrow> u32 \<Rightarrow> u32 \<Rightarrow> WASMFunction list \<times> u32 \<Rightarrow>
   ((WASMFunction list \<times> u32) \<times> u32) lresult" where
  "load_function E m ts p_end buf_code_end p st =
     (case st of (fs, p_code) \<Rightarrow>
     bindE (read_leb_uint32 m p p_end) (\<lambda>(type_index, p).
     bindE (guardE (\<not> unat type_index \<ge> length ts) ''unknown type'') (\<lambda>_.
     bindE (read_leb_uint32 m p_code buf_code_end) (\<lambda>(code_sz, p_code).
     bindE (guardE (\<not> (code_sz = 0 \<or> p_code + code_sz > buf_code_end)) ''invalid function code size'') (\<lambda>_.
     let p_code_end = p_code + code_sz in
     bindE (read_leb_uint32 m p_code buf_code_end) (\<lambda>(local_set_count, p_code).
     let p_code_save = p_code in
     bindE (items (count_locals m buf_code_end) (unat local_set_count) p_code 0) (\<lambda>(local_count, p_code).
     bindE (guardE (\<not> (p_code_end \<le> p_code \<or> m (p_code_end - 1) \<noteq> 0x0b))
              ''section size mismatch: function body END opcode expected'') (\<lambda>_.
     bindE (allocE E (le_sizeof E T_Function + unat local_count)) (\<lambda>_.
     bindE (items (read_locals m buf_code_end local_count) (unat local_set_count) p_code_save []) (\<lambda>(local_ts, _).
     let ft = ts ! unat type_index in
     bindE (guardE (\<not> (of_nat (wasm_get_cell_num local_ts) :: u32) > 0xFFFF) ''local count too large'') (\<lambda>_.
     bindE (init_function_local_offsets E ft local_ts) (\<lambda>offs.
       Inr ((fs @ [\<lparr>func_type = ft, local_types = local_ts, local_offsets = offs, code = p_code,
                    code_size = p_code_end - p_code\<rparr>], p_code_end), p)))))))))))))"

definition load_function_section ::
  "load_env \<Rightarrow> u32 \<Rightarrow> u32 \<Rightarrow> (u32 \<times> u32) option \<Rightarrow> loading \<Rightarrow> loading lresult" where
  "load_function_section E buf buf_end code_section s =
     (let m = ld_mem s; c = ld_mod s in
      bindE (read_leb_uint32 m buf buf_end) (\<lambda>(func_count, p).
      bindE (case code_section of
               None \<Rightarrow> Inr (0, (0, 0))
             | Some (buf_code, buf_code_end) \<Rightarrow>
                 bindE (read_leb_uint32 m buf_code buf_code_end) (\<lambda>(n, p_code). Inr (n, (p_code, buf_code_end))))
        (\<lambda>(code_count, (p_code, buf_code_end)).
      bindE (guardE (\<not> func_count \<noteq> code_count)
               ''function and code section have inconsistent lengths or unexpected end'') (\<lambda>_.
      bindE (guardE (\<not> is_indices_overflow (of_nat (length (mc_import_functions c))) func_count)
               ''too many items in the index space'') (\<lambda>_.
      bindE (if func_count \<noteq> 0 then allocE E (sizeof_ptr * unat func_count) else Inr ()) (\<lambda>_.
      bindE (items (load_function E m (mc_types c) buf_end buf_code_end) (unat func_count) p ([], p_code))
        (\<lambda>((fs, _), p).
      bindE (section_end p buf_end) (\<lambda>_.
        Inr (on_mod (\<lambda>c. c\<lparr>mc_functions := fs\<rparr>) s)))))))))"


section \<open>Tables, memories and globals of the module\<close>

definition load_table_section :: "load_env \<Rightarrow> u32 \<Rightarrow> u32 \<Rightarrow> loading \<Rightarrow> loading lresult" where
  "load_table_section E buf buf_end s =
     (let m = ld_mem s; c = ld_mod s in
      bindE (read_leb_uint32 m buf buf_end) (\<lambda>(n, p).
      bindE (guardE (\<not> of_nat (length (mc_import_tables c)) + n > 1) ''multiple tables'') (\<lambda>_.
      bindE (if n \<noteq> 0 then allocE E (le_sizeof E T_Table * unat n) else Inr ()) (\<lambda>_.
      bindE (items (\<lambda>p ts. bindE (load_table m p buf_end) (\<lambda>(t, p). Inr (ts @ [t], p))) (unat n) p [])
        (\<lambda>(ts, p).
      bindE (section_end p buf_end) (\<lambda>_. Inr (on_mod (\<lambda>c. c\<lparr>mc_tables := ts\<rparr>) s)))))))"

definition load_memory_section :: "load_env \<Rightarrow> u32 \<Rightarrow> u32 \<Rightarrow> loading \<Rightarrow> loading lresult" where
  "load_memory_section E buf buf_end s =
     (let m = ld_mem s; c = ld_mod s in
      bindE (read_leb_uint32 m buf buf_end) (\<lambda>(n, p).
      bindE (guardE (\<not> of_nat (length (mc_import_memories c)) + n > 1) ''multiple memories'') (\<lambda>_.
      bindE (if n \<noteq> 0 then allocE E (le_sizeof E T_Memory * unat n) else Inr ()) (\<lambda>_.
      bindE (items (\<lambda>p ts. bindE (load_memory m p buf_end) (\<lambda>(t, p). Inr (ts @ [t], p))) (unat n) p [])
        (\<lambda>(ts, p).
      bindE (section_end p buf_end) (\<lambda>_. Inr (on_mod (\<lambda>c. c\<lparr>mc_memories := ts\<rparr>) s)))))))"

definition load_global ::
  "load_env \<Rightarrow> cmem \<Rightarrow> GlobalImport list \<Rightarrow> u32 \<Rightarrow> u32 \<Rightarrow> WASMGlobal list \<Rightarrow> (WASMGlobal list \<times> u32) lresult" where
  "load_global E m gs p_end p acc =
     bindE (CHECK_BUF p p_end 2) (\<lambda>_.
     let t = m p; mutable = m (p + 1); p = p + 2 in
     bindE (guardE (is_valid_value_type_for_interpreter t) ''type mismatch'') (\<lambda>_.
     bindE (check_mutability mutable) (\<lambda>_.
     bindE (load_init_expr E m gs p p_end t) (\<lambda>(ie, p).
       Inr (acc @ [\<lparr>g_val_type = t, g_mutable = (mutable \<noteq> 0), g_init = ie\<rparr>], p)))))"

definition load_global_section :: "load_env \<Rightarrow> u32 \<Rightarrow> u32 \<Rightarrow> loading \<Rightarrow> loading lresult" where
  "load_global_section E buf buf_end s =
     (let m = ld_mem s; c = ld_mod s in
      bindE (read_leb_uint32 m buf buf_end) (\<lambda>(n, p).
      bindE (guardE (\<not> is_indices_overflow (of_nat (length (mc_import_globals c))) n)
               ''too many items in the index space'') (\<lambda>_.
      bindE (if n \<noteq> 0 then allocE E (le_sizeof E T_Global * unat n) else Inr ()) (\<lambda>_.
      bindE (items (load_global E m (mc_import_globals c) buf_end) (unat n) p []) (\<lambda>(gs, p).
      bindE (section_end p buf_end) (\<lambda>_. Inr (on_mod (\<lambda>c. c\<lparr>mc_globals := gs\<rparr>) s)))))))"

section \<open>Exports and the start function\<close>

text \<open>The names are sorted and each is compared with its neighbour.\<close>

fun neighbours_equal :: "u8 list list \<Rightarrow> bool" where
  "neighbours_equal (x # y # ys) \<longleftrightarrow> x = y \<or> neighbours_equal (y # ys)"
| "neighbours_equal _ \<longleftrightarrow> False"

definition check_duplicate_exports :: "load_env \<Rightarrow> WASMExport list \<Rightarrow> unit lresult" where
  "check_duplicate_exports E es =
     bindE (if length es > 32 then allocE E (unat (of_nat (length es * sizeof_ptr) :: u32)) else Inr ()) (\<lambda>_.
       guardE (\<not> neighbours_equal (sort (map e_name es))) ''duplicate export name'')"

definition export_limit :: "ModuleContent \<Rightarrow> u8 \<Rightarrow> (nat \<times> string) option" where
  "export_limit c kind =
     (if kind = 0 then Some (length (mc_functions c) + length (mc_import_functions c), ''unknown function'')
      else if kind = 1 then Some (length (mc_tables c) + length (mc_import_tables c), ''unknown table'')
      else if kind = 2 then Some (length (mc_memories c) + length (mc_import_memories c), ''unknown memory'')
      else if kind = 3 then Some (length (mc_globals c) + length (mc_import_globals c), ''unknown global'')
      else None)"

definition load_export ::
  "load_env \<Rightarrow> u32 \<Rightarrow> u32 \<Rightarrow> WASMExport list \<times> loading \<Rightarrow> ((WASMExport list \<times> loading) \<times> u32) lresult" where
  "load_export E p_end p st =
     (case st of (es, s) \<Rightarrow>
     bindE (read_name E p p_end s) (\<lambda>((str, p), s).
     bindE (get_uint8 (ld_mem s) p p_end) (\<lambda>(kind, p).
     bindE (read_leb_uint32 (ld_mem s) p p_end) (\<lambda>(index, p).
       case export_limit (ld_mod s) kind of
         None \<Rightarrow> Inl ''invalid export kind''
       | Some (limit, msg) \<Rightarrow>
           bindE (guardE (\<not> unat index \<ge> limit) msg) (\<lambda>_.
             Inr ((es @ [\<lparr>e_name = str, e_kind = kind, e_index = index\<rparr>], s), p))))))"

definition load_export_section :: "load_env \<Rightarrow> u32 \<Rightarrow> u32 \<Rightarrow> loading \<Rightarrow> loading lresult" where
  "load_export_section E buf buf_end s =
     bindE (read_leb_uint32 (ld_mem s) buf buf_end) (\<lambda>(n, p).
     bindE (if n \<noteq> 0 then allocE E (le_sizeof E T_Export * unat n) else Inr ()) (\<lambda>_.
     bindE (items (load_export E buf_end) (unat n) p ([], s)) (\<lambda>((es, s), p).
     bindE (if n \<noteq> 0 then check_duplicate_exports E es else Inr ()) (\<lambda>_.
     bindE (section_end p buf_end) (\<lambda>_. Inr (on_mod (\<lambda>c. c\<lparr>mc_exports := es\<rparr>) s))))))"

definition function_type :: "ModuleContent \<Rightarrow> nat \<Rightarrow> WASMFuncType" where
  "function_type c i =
     (if i < length (mc_import_functions c) then fi_type (mc_import_functions c ! i)
      else func_type (mc_functions c ! (i - length (mc_import_functions c))))"

definition load_start_section :: "u32 \<Rightarrow> u32 \<Rightarrow> loading \<Rightarrow> loading lresult" where
  "load_start_section buf buf_end s =
     (let c = ld_mod s in
      bindE (read_leb_uint32 (ld_mem s) buf buf_end) (\<lambda>(start, p).
      bindE (guardE (\<not> unat start \<ge> length (mc_functions c) + length (mc_import_functions c)) ''unknown function'') (\<lambda>_.
      let t = function_type c (unat start) in
      bindE (guardE (\<not> (param_count t \<noteq> 0 \<or> result_count t \<noteq> 0)) ''invalid start function'') (\<lambda>_.
      bindE (section_end p buf_end) (\<lambda>_. Inr (on_mod (\<lambda>c. c\<lparr>mc_start_function := start\<rparr>) s))))))"

section \<open>Segments\<close>

definition mc_check_table_index :: "ModuleContent \<Rightarrow> u32 \<Rightarrow> unit lresult" where
  "mc_check_table_index c table_index =
     (if table_index \<noteq> 0
      then Inl ''zero byte expected. The module uses reference types feature which is disabled in the runtime.''
      else guardE (\<not> unat table_index \<ge> length (mc_import_tables c) + length (mc_tables c)) ''unknown table'')"

definition mc_check_function_index :: "ModuleContent \<Rightarrow> u32 \<Rightarrow> unit lresult" where
  "mc_check_function_index c i =
     guardE (\<not> unat i \<ge> length (mc_import_functions c) + length (mc_functions c)) ''unknown function''"

definition load_func_index_vec ::
  "load_env \<Rightarrow> cmem \<Rightarrow> ModuleContent \<Rightarrow> u32 \<Rightarrow> u32 \<Rightarrow> (u32 list \<times> u32) lresult" where
  "load_func_index_vec E m c p p_end =
     bindE (read_leb_uint32 m p p_end) (\<lambda>(n, p).
     let total_size = le_sizeof E T_InitExpr * unat n in
     bindE (if total_size > 0 then allocE E total_size else Inr ()) (\<lambda>_.
       items (\<lambda>p fs. bindE (read_leb_uint32 m p p_end) (\<lambda>(i, p).
                bindE (mc_check_function_index c i) (\<lambda>_. Inr (fs @ [i], p)))) (unat n) p []))"

definition check_table_elem_type :: "ModuleContent \<Rightarrow> u32 \<Rightarrow> u8 \<Rightarrow> unit lresult" where
  "check_table_elem_type c table_index t =
     guardE (tt_elem_type ((mc_import_tables c @ mc_tables c) ! unat table_index) = t) ''type mismatch''"

definition load_table_seg ::
  "load_env \<Rightarrow> cmem \<Rightarrow> ModuleContent \<Rightarrow> u32 \<Rightarrow> u32 \<Rightarrow> WASMTableSeg list \<Rightarrow> (WASMTableSeg list \<times> u32) lresult" where
  "load_table_seg E m c p_end p segs =
     bindE (guardE (\<not> p \<ge> p_end) ''invalid value type or invalid elements segment kind'') (\<lambda>_.
     bindE (read_leb_uint32 m p p_end) (\<lambda>(table_index, p).
     bindE (mc_check_table_index c table_index) (\<lambda>_.
     bindE (load_init_expr E m (mc_import_globals c) p p_end VALUE_TYPE_I32) (\<lambda>(off, p).
     bindE (load_func_index_vec E m c p p_end) (\<lambda>(fs, p).
     bindE (check_table_elem_type c table_index VALUE_TYPE_FUNCREF) (\<lambda>_.
       Inr (segs @ [\<lparr>ts_table_index = table_index, ts_base_offset = off, ts_values = fs\<rparr>], p)))))))"

definition load_table_segment_section :: "load_env \<Rightarrow> u32 \<Rightarrow> u32 \<Rightarrow> loading \<Rightarrow> loading lresult" where
  "load_table_segment_section E buf buf_end s =
     (let m = ld_mem s; c = ld_mod s in
      bindE (read_leb_uint32 m buf buf_end) (\<lambda>(n, p).
      bindE (if n \<noteq> 0 then allocE E (le_sizeof E T_TableSeg * unat n) else Inr ()) (\<lambda>_.
      bindE (items (load_table_seg E m c buf_end) (unat n) p []) (\<lambda>(segs, p).
      bindE (section_end p buf_end) (\<lambda>_. Inr (on_mod (\<lambda>c. c\<lparr>mc_table_segs := segs\<rparr>) s))))))"

definition check_data_count_consistency :: "bool \<Rightarrow> u32 \<Rightarrow> u32 \<Rightarrow> unit lresult" where
  "check_data_count_consistency has_datacount_section datacount_len data_seg_len =
     guardE (\<not> (has_datacount_section \<and> datacount_len \<noteq> data_seg_len))
       ''data count and data section have inconsistent lengths''"

text \<open>The flag of a data segment: the two low bits say whether it is active, passive, or active with the
  index of its memory. The result is whether it is passive, and the memory.\<close>

definition data_seg_mode :: "cmem \<Rightarrow> ModuleContent \<Rightarrow> u32 \<Rightarrow> u32 \<Rightarrow> ((bool \<times> u32) \<times> u32) lresult" where
  "data_seg_mode m c p p_end =
     bindE (read_leb_uint32 m p p_end) (\<lambda>(mem_index, p).
     let mem_flag = mem_index AND 0x03;
         check = (\<lambda>i p. bindE (guardE (\<not> unat i \<ge> length (mc_import_memories c) + length (mc_memories c)) ''unknown memory'')
                          (\<lambda>_. Inr ((False, i), p)))
     in if mem_flag = 1 then Inr ((True, mem_index), p)
        else if mem_flag = 0 then check 0 p
        else if mem_flag = 2 then bindE (read_leb_uint32 m p p_end) (\<lambda>(i, p). check i p)
        else Inl ''unknown memory'')"

definition load_data_seg ::
  "load_env \<Rightarrow> cmem \<Rightarrow> ModuleContent \<Rightarrow> u32 \<Rightarrow> u32 \<Rightarrow> WASMDataSeg list \<Rightarrow> (WASMDataSeg list \<times> u32) lresult" where
  "load_data_seg E m c p_end p segs =
     bindE (data_seg_mode m c p p_end) (\<lambda>((is_passive, mem_index), p).
     bindE (if is_passive then Inr (\<lparr>init_expr_type = 0, init_value = 0\<rparr>, p)
            else load_init_expr E m (mc_import_globals c) p p_end VALUE_TYPE_I32) (\<lambda>(ie, p).
     bindE (read_leb_uint32 m p p_end) (\<lambda>(n, p).
     bindE (allocE E (le_sizeof E T_DataSeg)) (\<lambda>_.
     bindE (CHECK_BUF p p_end n) (\<lambda>_.
     bindE (if le_clone E then allocE E (unat n) else Inr ()) (\<lambda>_.
       Inr (segs @ [\<lparr>ds_passive = is_passive, ds_memory_index = (if is_passive then 0 else mem_index),
              ds_base_offset = ie, ds_data = p, ds_length = n\<rparr>], p + n)))))))"

definition load_data_segment_section :: "load_env \<Rightarrow> u32 \<Rightarrow> u32 \<Rightarrow> bool \<Rightarrow> loading \<Rightarrow> loading lresult" where
  "load_data_segment_section E buf buf_end has_datacount s =
     (let m = ld_mem s; c = ld_mod s in
      bindE (read_leb_uint32 m buf buf_end) (\<lambda>(n, p).
      bindE (check_data_count_consistency has_datacount (mc_data_seg_count1 c) n) (\<lambda>_.
      bindE (if n \<noteq> 0 then allocE E (sizeof_ptr * unat n) else Inr ()) (\<lambda>_.
      bindE (items (load_data_seg E m c buf_end) (unat n) p []) (\<lambda>(segs, p).
      bindE (section_end p buf_end) (\<lambda>_. Inr (on_mod (\<lambda>c. c\<lparr>mc_data_segs := segs\<rparr>) s)))))))"

definition load_datacount_section :: "u32 \<Rightarrow> u32 \<Rightarrow> loading \<Rightarrow> loading lresult" where
  "load_datacount_section buf buf_end s =
     bindE (read_leb_uint32 (ld_mem s) buf buf_end) (\<lambda>(n, p).
     bindE (section_end p buf_end) (\<lambda>_. Inr (on_mod (\<lambda>c. c\<lparr>mc_data_seg_count1 := n\<rparr>) s)))"

text \<open>The bodies were read with the function section; here only the two counts are compared.\<close>

definition load_code_section ::
  "u32 \<Rightarrow> u32 \<Rightarrow> (u32 \<times> u32) option \<Rightarrow> loading \<Rightarrow> loading lresult" where
  "load_code_section buf buf_end func_section s =
     bindE (read_leb_uint32 (ld_mem s) buf buf_end) (\<lambda>(code_count, p).
     bindE (case func_section of
              None \<Rightarrow> Inr 0
            | Some (buf_func, buf_func_end) \<Rightarrow>
                bindE (read_leb_uint32 (ld_mem s) buf_func buf_func_end) (\<lambda>(n, _). Inr n)) (\<lambda>func_count.
     bindE (guardE (\<not> func_count \<noteq> code_count) ''function and code section have inconsistent lengths'') (\<lambda>_. Inr s)))"

text \<open>A custom section needs a name; a length that wraps around leaves the check of the name nothing to read
  and makes it fail.\<close>

definition load_user_section :: "u32 \<Rightarrow> u32 \<Rightarrow> loading \<Rightarrow> loading lresult" where
  "load_user_section buf buf_end s =
     bindE (guardE (\<not> buf \<ge> buf_end) ''unexpected end'') (\<lambda>_.
     bindE (read_leb_uint32 (ld_mem s) buf buf_end) (\<lambda>(name_len, p).
     bindE (guardE (\<not> p + name_len > buf_end) ''unexpected end'') (\<lambda>_.
     bindE (guardE (p \<le> p + name_len \<and> wasm_check_utf8_str (cbytes (ld_mem s) p (unat name_len)))
              ''invalid UTF-8 encoding'') (\<lambda>_. Inr s))))"


section \<open>Running the section loaders\<close>

definition section_end_of :: "WASMSection \<Rightarrow> u32" where
  "section_end_of sec = section_body sec + section_body_size sec"

text \<open>The last section of a type, as its begin and its end.\<close>

definition find_section :: "u8 \<Rightarrow> WASMSection list \<Rightarrow> (u32 \<times> u32) option" where
  "find_section t secs =
     map_option (\<lambda>sec. (section_body sec, section_end_of sec)) (find (\<lambda>sec. section_type sec = t) (rev secs))"

definition load_section ::
  "load_env \<Rightarrow> WASMSection list \<Rightarrow> WASMSection \<Rightarrow> bool \<times> loading \<Rightarrow> (bool \<times> loading) lresult" where
  "load_section E secs sec st =
     (case st of (has_datacount, s) \<Rightarrow>
      let t = section_type sec; buf = section_body sec; buf_end = section_end_of sec;
          keep = (\<lambda>r. bindE r (\<lambda>s. Inr (has_datacount, s)))
      in if t = 0 then keep (load_user_section buf buf_end s)
         else if t = 1 then keep (load_type_section E buf buf_end s)
         else if t = 2 then keep (load_import_section E buf buf_end s)
         else if t = 3 then keep (load_function_section E buf buf_end (find_section 10 secs) s)
         else if t = 4 then keep (load_table_section E buf buf_end s)
         else if t = 5 then keep (load_memory_section E buf buf_end s)
         else if t = 6 then keep (load_global_section E buf buf_end s)
         else if t = 7 then keep (load_export_section E buf buf_end s)
         else if t = 8 then keep (load_start_section buf buf_end s)
         else if t = 9 then keep (load_table_segment_section E buf buf_end s)
         else if t = 10 then keep (load_code_section buf buf_end (find_section 3 secs) s)
         else if t = 11 then keep (load_data_segment_section E buf buf_end has_datacount s)
         else if t = 12 then bindE (load_datacount_section buf buf_end s) (\<lambda>s. Inr (True, s))
         else Inl ''invalid section id'')"

fun load_sections ::
  "load_env \<Rightarrow> WASMSection list \<Rightarrow> WASMSection list \<Rightarrow> bool \<times> loading \<Rightarrow> (bool \<times> loading) lresult" where
  "load_sections E secs [] st = Inr st"
| "load_sections E secs (sec # rest) st = bindE (load_section E secs sec st) (load_sections E secs rest)"

text \<open>A module as \<open>create_module\<close> leaves it.\<close>

definition empty_content :: ModuleContent where
  "empty_content = \<lparr>mc_types = [], mc_import_functions = [], mc_import_tables = [], mc_import_memories = [],
     mc_import_globals = [], mc_functions = [], mc_tables = [], mc_memories = [], mc_globals = [], mc_exports = [],
     mc_start_function = - 1, mc_table_segs = [], mc_data_segs = [], mc_data_seg_count1 = 0, mc_import_wasi_api = False\<rparr>"

section \<open>The globals of the linker\<close>

record AuxInfo =
  ax_data_end_global_index :: u32
  ax_data_end :: u64
  ax_heap_base_global_index :: u32
  ax_heap_base :: u64
  ax_stack_top_global_index :: u32
  ax_stack_bottom :: u64
  ax_stack_size :: u32

definition no_aux :: AuxInfo where
  "no_aux = \<lparr>ax_data_end_global_index = - 1, ax_data_end = 0, ax_heap_base_global_index = - 1, ax_heap_base = 0,
     ax_stack_top_global_index = - 1, ax_stack_bottom = 0, ax_stack_size = 0\<rparr>"

definition align_uint64 :: "u64 \<Rightarrow> u64 \<Rightarrow> u64" where
  "align_uint64 n b = (n + b - 1) AND NOT (b - 1)"

definition const_i32 :: "WASMGlobal \<Rightarrow> bool" where
  "const_i32 g \<longleftrightarrow> g_val_type g = VALUE_TYPE_I32 \<and> init_expr_type (g_init g) = 0x41"

definition i32_value :: "WASMGlobal \<Rightarrow> u64" where
  "i32_value g = ucast (ucast (init_value (g_init g)) :: u32)"

text \<open>The scan of the exported globals, with what has been found of the heap base and the data end: it
  stops as soon as both are there and in order.\<close>

fun aux_scan ::
  "ModuleContent \<Rightarrow> WASMExport list \<Rightarrow> (u64 \<times> u32) option \<Rightarrow> (u64 \<times> u32) option \<Rightarrow> ((u64 \<times> u32) \<times> (u64 \<times> u32)) option" where
  "aux_scan c [] heap_base data_end = None"
| "aux_scan c (e # es) heap_base data_end =
     (if e_kind e \<noteq> 3 then aux_scan c es heap_base data_end
      else
        let n = length (mc_import_globals c); i = unat (e_index e); g = mc_globals c ! (i - n);
            ok = (n \<le> i \<and> const_i32 g \<and> \<not> g_mutable g);
            heap_base = (if e_name e = name_bytes ''__heap_base'' \<and> ok then Some (i32_value g, e_index e) else heap_base);
            data_end = (if e_name e = name_bytes ''__data_end'' \<and> ok
                        then Some (align_uint64 (i32_value g) 16, e_index e) else data_end)
        in case (heap_base, data_end) of
             (Some (hb, hi), Some (de, di)) \<Rightarrow>
               if de \<le> hb then Some ((hb, hi), (de, di)) else aux_scan c es heap_base data_end
           | _ \<Rightarrow> aux_scan c es heap_base data_end)"

definition stack_top_global :: "u64 \<Rightarrow> WASMGlobal \<Rightarrow> bool" where
  "stack_top_global heap_base g \<longleftrightarrow> g_mutable g \<and> const_i32 g \<and> i32_value g \<le> heap_base"

definition find_index :: "('a \<Rightarrow> bool) \<Rightarrow> 'a list \<Rightarrow> nat option" where
  "find_index P xs = map_option fst (find (\<lambda>(i, x). P x) (zip [0..<length xs] xs))"

definition resolve_aux :: "ModuleContent \<Rightarrow> AuxInfo option" where
  "resolve_aux c =
     (case aux_scan c (mc_exports c) None None of
        None \<Rightarrow> None
      | Some ((hb, hi), (de, di)) \<Rightarrow>
          let a = no_aux\<lparr>ax_data_end_global_index := di, ax_data_end := de,
                    ax_heap_base_global_index := hi, ax_heap_base := hb\<rparr>
          in Some (case find_index (stack_top_global hb) (mc_globals c) of
               Some k \<Rightarrow>
                 let top = i32_value (mc_globals c ! k)
                 in a\<lparr>ax_stack_top_global_index := of_nat (length (mc_import_globals c) + k), ax_stack_bottom := top,
                      ax_stack_size := (if top > de then ucast (top - de) else ucast top)\<rparr>
             | None \<Rightarrow> a\<lparr>ax_stack_top_global_index := hi, ax_stack_bottom := hb, ax_stack_size := 0\<rparr>))"

section \<open>The allocation functions of the module\<close>

record HeapFunctions =
  hf_malloc :: u32
  hf_free :: u32
  hf_retain :: u32

definition own_function :: "ModuleContent \<Rightarrow> WASMExport \<Rightarrow> bool" where
  "own_function c e \<longleftrightarrow> e_kind e = 0 \<and> length (mc_import_functions c) \<le> unat (e_index e)"

definition export_type :: "ModuleContent \<Rightarrow> WASMExport \<Rightarrow> WASMFuncType" where
  "export_type c e = func_type (mc_functions c ! (unat (e_index e) - length (mc_import_functions c)))"

definition i32_function :: "nat \<Rightarrow> nat \<Rightarrow> WASMFuncType \<Rightarrow> bool" where
  "i32_function n r t \<longleftrightarrow> param_count t = n \<and> result_count t = r \<and>
     list_all (\<lambda>x. x = VALUE_TYPE_I32) (take (n + r) (types t))"

definition find_retain :: "ModuleContent \<Rightarrow> WASMExport option" where
  "find_retain c =
     find (\<lambda>e. own_function c e \<and> (e_name e = name_bytes ''__retain'' \<or> e_name e = name_bytes ''__pin'') \<and>
             i32_function 1 1 (export_type c e)) (mc_exports c)"

definition heap_function :: "ModuleContent \<Rightarrow> WASMExport \<Rightarrow> HeapFunctions \<Rightarrow> HeapFunctions" where
  "heap_function c e h =
     (if \<not> own_function c e then h
      else if e_name e = name_bytes ''malloc'' then
        (if i32_function 1 1 (export_type c e) then h\<lparr>hf_malloc := e_index e\<rparr> else h)
      else if e_name e = name_bytes ''__new'' then
        (if i32_function 2 1 (export_type c e) then
           (case find_retain c of
              Some r \<Rightarrow> h\<lparr>hf_malloc := e_index e, hf_retain := e_index r\<rparr>
            | None \<Rightarrow> h\<lparr>hf_malloc := - 1\<rparr>)
         else h)
      else if e_name e \<in> {name_bytes ''free'', name_bytes ''__release'', name_bytes ''__unpin''} then
        (if i32_function 1 0 (export_type c e) then h\<lparr>hf_free := e_index e\<rparr> else h)
      else h)"

definition resolve_heap_functions :: "ModuleContent \<Rightarrow> HeapFunctions" where
  "resolve_heap_functions c =
     fold (heap_function c) (mc_exports c) \<lparr>hf_malloc = - 1, hf_free = - 1, hf_retain = - 1\<rparr>"

section \<open>The validation of all bodies\<close>

text \<open>What the validation sees of the module.\<close>

definition validation_view :: "ModuleContent \<Rightarrow> AuxInfo option \<Rightarrow> WASMModule" where
  "validation_view c aux =
     (let a = (case aux of None \<Rightarrow> no_aux | Some a \<Rightarrow> a)
      in \<lparr>m_types = mc_types c, import_functions = map fi_type (mc_import_functions c),
          module_functions = map func_type (mc_functions c),
          import_globals = map (\<lambda>g. (gi_val_type g, gi_mutable g)) (mc_import_globals c),
          globals = map (\<lambda>g. (g_val_type g, g_mutable g)) (mc_globals c),
          import_table_count = length (mc_import_tables c), table_count = length (mc_tables c),
          import_memory_count = length (mc_import_memories c), memory_count = length (mc_memories c),
          data_seg_count = length (mc_data_segs c), data_seg_count1 = unat (mc_data_seg_count1 c),
          aux_stack_size = ax_stack_size a, aux_stack_top_global_index = ax_stack_top_global_index a\<rparr>)"

record checked =
  ck_mem :: cmem
  ck_depths :: "(nat \<times> nat) list"
  ck_br_tables :: "(u32 \<times> u32 list) list"
  ck_memory_grow :: bool

fun prepare_functions ::
  "loader_env \<Rightarrow> WASMModule \<Rightarrow> u32 \<Rightarrow> WASMFunction list \<Rightarrow> checked \<Rightarrow> checked lresult option" where
  "prepare_functions V M buf_code_end [] k = Some (Inr k)"
| "prepare_functions V M buf_code_end (F # Fs) k =
     (case wasm_loader_prepare_bytecode V M F (ck_mem k) of
        None \<Rightarrow> None
      | Some (Inl e) \<Rightarrow> Some (Inl e)
      | Some (Inr (max_stack, max_block, s)) \<Rightarrow>
          if Fs = [] \<and> code F + code_size F \<noteq> buf_code_end then Some (Inl ''code section size mismatch'')
          else prepare_functions V M buf_code_end Fs
                 \<lparr>ck_mem = lmem s, ck_depths = ck_depths k @ [(max_stack, max_block)],
                  ck_br_tables = br_table_caches s @ ck_br_tables k,
                  ck_memory_grow = (ck_memory_grow k \<or> possible_memory_grow s)\<rparr>)"

section \<open>The size of the memory\<close>

fun on_head :: "('a \<Rightarrow> 'a) \<Rightarrow> 'a list \<Rightarrow> 'a list" where
  "on_head f [] = []"
| "on_head f (x # xs) = f x # xs"

text \<open>A memory that never grows is cut down to the heap base, if that is known, and becomes one big page.\<close>

definition shrink_memory :: "u64 \<Rightarrow> MemoryType \<Rightarrow> MemoryType" where
  "shrink_memory shrunk t =
     (if shrunk \<le> ucast (mt_num_bytes_per_page t) * ucast (mt_init_page_count t)
      then t\<lparr>mt_num_bytes_per_page := ucast shrunk, mt_init_page_count := 1\<rparr> else t)"

definition one_page :: "MemoryType \<Rightarrow> MemoryType" where
  "one_page t =
     (if mt_init_page_count t < 65536 then
        (let n = (if mt_init_page_count t > 0 then 1 else 0)
         in t\<lparr>mt_num_bytes_per_page := mt_num_bytes_per_page t * mt_init_page_count t,
              mt_init_page_count := n, mt_max_page_count := n\<rparr>)
      else t)"

definition resize_memory :: "AuxInfo option \<Rightarrow> MemoryType \<Rightarrow> MemoryType" where
  "resize_memory aux t =
     one_page (case aux of
       None \<Rightarrow> t
     | Some a \<Rightarrow> let shrunk = align_uint64 (ax_heap_base a) 8 in if shrunk \<le> 0xFFFFFFFF then shrink_memory shrunk t else t)"

definition calculate_global_data_offset :: "ModuleContent \<Rightarrow> u32" where
  "calculate_global_data_offset c =
     of_nat (4 * wasm_get_cell_num (map gi_val_type (mc_import_globals c) @ map g_val_type (mc_globals c)))"

record LoadedModule =
  lm_content :: ModuleContent
  lm_checked :: checked
  lm_aux :: "AuxInfo option"
  lm_heap :: HeapFunctions
  lm_global_data_size :: u32

definition load_from_sections ::
  "load_env \<Rightarrow> loader_env \<Rightarrow> cmem \<Rightarrow> WASMSection list \<Rightarrow> LoadedModule lresult option" where
  "load_from_sections E V m secs =
     (case load_sections E secs secs (False, \<lparr>ld_mem = m, ld_strs = [], ld_mod = empty_content\<rparr>) of
        Inl e \<Rightarrow> Some (Inl e)
      | Inr (has_datacount, s) \<Rightarrow>
          let c = ld_mod s
          in case check_data_count_consistency has_datacount (mc_data_seg_count1 c) (of_nat (length (mc_data_segs c))) of
               Inl e \<Rightarrow> Some (Inl e)
             | Inr _ \<Rightarrow>
                 let aux = resolve_aux c; heap = resolve_heap_functions c;
                     buf_code_end = (case find_section 10 secs of None \<Rightarrow> 0 | Some (_, e) \<Rightarrow> e)
                 in case prepare_functions V (validation_view c aux) buf_code_end (mc_functions c)
                           \<lparr>ck_mem = ld_mem s, ck_depths = [], ck_br_tables = [], ck_memory_grow = False\<rparr> of
                      None \<Rightarrow> None
                    | Some (Inl e) \<Rightarrow> Some (Inl e)
                    | Some (Inr k) \<Rightarrow>
                        let c = (if ck_memory_grow k then c
                                 else c\<lparr>mc_import_memories := on_head (resize_memory aux) (mc_import_memories c),
                                        mc_memories := on_head (resize_memory aux) (mc_memories c)\<rparr>)
                        in Some (Inr \<lparr>lm_content = c, lm_checked = k, lm_aux = aux, lm_heap = heap,
                                   lm_global_data_size = calculate_global_data_offset c\<rparr>))"

text \<open>The whole load: the sections are cut, then loaded.\<close>

definition load_module ::
  "load_env \<Rightarrow> loader_env \<Rightarrow> (nat \<Rightarrow> bool) \<Rightarrow> cmem \<Rightarrow> u32 \<Rightarrow> u32 \<Rightarrow> LoadedModule lresult option" where
  "load_module E V ok m buf sz =
     (case load Inr ok m buf sz of
        Inl e \<Rightarrow> Some (Inl e)
      | Inr secs \<Rightarrow> load_from_sections E V m secs)"

end
