(* ===== verification/Interp_Ops.thy ===== *)
theory Interp_Ops
  imports Numeric Floats Linear_Memory Loader_Code
begin

text \<open>
  The handlers of the comparisons, the arithmetic and the conversions, opcodes 0x45 to 0xc4,
  of \<^verbatim>\<open>wasm_interp_classic.c\<close>: a handler is a function on values with the cells it pops and
  pushes, and the table of the handlers has the order of the opcodes. The signature the code
  validation gives every one of these opcodes is shown to be the one of its handler, so that
  what the validation accepts is what the interpreter does to the stack.

  The operand stack is the list of its 32-bit cells, top first; a 64-bit value is two cells,
  the low half below.
\<close>

section \<open>What a handler is\<close>

text \<open>The outcome of C code that may not return (\<open>None\<close>), trap (\<open>Some (Inl message)\<close>) or return a
  value. Constructors are named by the cells popped and pushed.\<close>

type_synonym 'a run = "(string + 'a) option"

datatype handler =
    Keep
  | Un_1_1 "u32 \<Rightarrow> u32 run"
  | Un_1_2 "u32 \<Rightarrow> u64 run"
  | Un_2_1 "u64 \<Rightarrow> u32 run"
  | Un_2_2 "u64 \<Rightarrow> u64 run"
  | Bin_1_1 "u32 \<Rightarrow> u32 \<Rightarrow> u32 run"
  | Bin_2_1 "u64 \<Rightarrow> u64 \<Rightarrow> u32 run"
  | Bin_2_2 "u64 \<Rightarrow> u64 \<Rightarrow> u64 run"

fun pops :: "handler \<Rightarrow> nat" where
  "pops Keep = 0"
| "pops (Un_1_1 _) = 1"
| "pops (Un_1_2 _) = 1"
| "pops (Un_2_1 _) = 2"
| "pops (Un_2_2 _) = 2"
| "pops (Bin_1_1 _) = 2"
| "pops (Bin_2_1 _) = 4"
| "pops (Bin_2_2 _) = 4"

fun pushes :: "handler \<Rightarrow> nat" where
  "pushes Keep = 0"
| "pushes (Un_1_1 _) = 1"
| "pushes (Un_1_2 _) = 2"
| "pushes (Un_2_1 _) = 1"
| "pushes (Un_2_2 _) = 2"
| "pushes (Bin_1_1 _) = 1"
| "pushes (Bin_2_1 _) = 1"
| "pushes (Bin_2_2 _) = 2"

definition push1 :: "u32 list \<Rightarrow> u32 run \<Rightarrow> u32 list run" where
  "push1 st r = map_option (map_sum id (\<lambda>v. v # st)) r"

definition push2 :: "u32 list \<Rightarrow> u64 run \<Rightarrow> u32 list run" where
  "push2 st r = map_option (map_sum id (\<lambda>v. cells_of_u64 v @ st)) r"

text \<open>The right operand is on top. A stack with too few cells is outside what the code is
  written for: it would read below the frame. The model has no result for it (\<open>None\<close>), and
  the theorems on accepted code show that it does not occur.\<close>

fun exec_handler :: "handler \<Rightarrow> u32 list \<Rightarrow> u32 list run" where
  "exec_handler Keep st = Some (Inr st)"
| "exec_handler (Un_1_1 f) (a # st) = push1 st (f a)"
| "exec_handler (Un_1_2 f) (a # st) = push2 st (f a)"
| "exec_handler (Un_2_1 f) (ah # al # st) = push1 st (f (u64_of_cells [ah, al]))"
| "exec_handler (Un_2_2 f) (ah # al # st) = push2 st (f (u64_of_cells [ah, al]))"
| "exec_handler (Bin_1_1 f) (b # a # st) = push1 st (f a b)"
| "exec_handler (Bin_2_1 f) (bh # bl # ah # al # st) =
     push1 st (f (u64_of_cells [ah, al]) (u64_of_cells [bh, bl]))"
| "exec_handler (Bin_2_2 f) (bh # bl # ah # al # st) =
     push2 st (f (u64_of_cells [ah, al]) (u64_of_cells [bh, bl]))"
| "exec_handler _ _ = None"

text \<open>The macros \<open>DEF_OP_*\<close>: a value computed without a trap, a C function that may trap,
  a loop that may not return.\<close>

definition total1 :: "('a \<Rightarrow> 'b) \<Rightarrow> 'a \<Rightarrow> 'b run" where
  "total1 f a = Some (Inr (f a))"

definition total2 :: "('a \<Rightarrow> 'b \<Rightarrow> 'c) \<Rightarrow> 'a \<Rightarrow> 'b \<Rightarrow> 'c run" where
  "total2 f a b = Some (Inr (f a b))"

definition trap1 :: "('a \<Rightarrow> string + 'b) \<Rightarrow> 'a \<Rightarrow> 'b run" where
  "trap1 f a = Some (f a)"

definition trap2 :: "('a \<Rightarrow> 'b \<Rightarrow> string + 'c) \<Rightarrow> 'a \<Rightarrow> 'b \<Rightarrow> 'c run" where
  "trap2 f a b = Some (f a b)"

definition DEF_OP_BIT_COUNT :: "('a::len word \<Rightarrow> u32 option) \<Rightarrow> 'a word \<Rightarrow> 'a word run" where
  "DEF_OP_BIT_COUNT operation v = map_option (\<lambda>n. Inr (ucast n)) (operation v)"

definition DEF_OP_EQZ :: "'a::len word \<Rightarrow> u32 run" where
  "DEF_OP_EQZ = total1 (\<lambda>v. of_bool (v = 0))"

definition DEF_OP_CMP :: "('a \<Rightarrow> 'a \<Rightarrow> bool) \<Rightarrow> 'a \<Rightarrow> 'a \<Rightarrow> u32 run" where
  "DEF_OP_CMP cond = total2 (\<lambda>a b. of_bool (cond a b))"

text \<open>The ten integer comparisons in the order of their opcodes.\<close>

definition int_conds :: "('a::len word \<Rightarrow> 'a word \<Rightarrow> bool) list" where
  "int_conds =
     [(=), (\<noteq>), \<lambda>a b. sint a < sint b, (<), \<lambda>a b. sint a > sint b, (>),
      \<lambda>a b. sint a \<le> sint b, (\<le>), \<lambda>a b. sint a \<ge> sint b, (\<ge>)]"

definition float_conds :: "nat \<Rightarrow> ('a::len word \<Rightarrow> 'a word \<Rightarrow> bool) list" where
  "float_conds mw =
     [fl_eq mw, \<lambda>a b. \<not> fl_eq mw a b, fl_lt mw, \<lambda>a b. fl_lt mw b a, fl_le mw, \<lambda>a b. fl_le mw b a]"

section \<open>The rounding operations\<close>

text \<open>The chip has no floating-point unit: the rounding operations are the calls of the C compiler and
  of its mathematics library, parameters of the model.\<close>

datatype float_unop = Ceil | Floor | Trunc | Nearest | Sqrt
datatype float_binop = Add | Sub | Mul | Div

record fpu =
  fun32 :: "float_unop \<Rightarrow> u32 \<Rightarrow> u32"
  fbin32 :: "float_binop \<Rightarrow> u32 \<Rightarrow> u32 \<Rightarrow> u32"
  fun64 :: "float_unop \<Rightarrow> u64 \<Rightarrow> u64"
  fbin64 :: "float_binop \<Rightarrow> u64 \<Rightarrow> u64 \<Rightarrow> u64"
  f32_of_int :: "int \<Rightarrow> u32"
  f64_of_int :: "int \<Rightarrow> u64"
  demote :: "u64 \<Rightarrow> u32"
  promote :: "u32 \<Rightarrow> u64"

section \<open>The table\<close>

definition i32_compare :: "handler list" where
  "i32_compare = Un_1_1 DEF_OP_EQZ # map (\<lambda>c. Bin_1_1 (DEF_OP_CMP c)) int_conds"

definition i64_compare :: "handler list" where
  "i64_compare = Un_2_1 DEF_OP_EQZ # map (\<lambda>c. Bin_2_1 (DEF_OP_CMP c)) int_conds"

definition float_compare :: "handler list" where
  "float_compare = map (\<lambda>c. Bin_1_1 (DEF_OP_CMP c)) (float_conds 23) @
     map (\<lambda>c. Bin_2_1 (DEF_OP_CMP c)) (float_conds 52)"

text \<open>\<open>DEF_OP_NUMERIC2\<close>: the shift amount is reduced first, so C's shifts are defined.\<close>

definition i32_numeric :: "handler list" where
  "i32_numeric =
     [Un_1_1 (DEF_OP_BIT_COUNT clz32), Un_1_1 (DEF_OP_BIT_COUNT ctz32),
      Un_1_1 (DEF_OP_BIT_COUNT (\<lambda>v. Some (popcount32 v))),
      Bin_1_1 (total2 (+)), Bin_1_1 (total2 (-)), Bin_1_1 (total2 (*)),
      Bin_1_1 (trap2 i32_div_s), Bin_1_1 (trap2 i32_div_u),
      Bin_1_1 (trap2 i32_rem_s), Bin_1_1 (trap2 i32_rem_u),
      Bin_1_1 (total2 (AND)), Bin_1_1 (total2 (OR)), Bin_1_1 (total2 (XOR)),
      Bin_1_1 (total2 (\<lambda>a b. push_bit (unat (b mod 32)) a)),
      Bin_1_1 (total2 (\<lambda>a b. signed_drop_bit (unat (b mod 32)) a)),
      Bin_1_1 (total2 (\<lambda>a b. drop_bit (unat (b mod 32)) a)),
      Bin_1_1 (total2 rotl32), Bin_1_1 (total2 rotr32)]"

definition i64_numeric :: "handler list" where
  "i64_numeric =
     [Un_2_2 (DEF_OP_BIT_COUNT clz64), Un_2_2 (DEF_OP_BIT_COUNT ctz64),
      Un_2_2 (DEF_OP_BIT_COUNT (\<lambda>v. Some (popcount64 v))),
      Bin_2_2 (total2 (+)), Bin_2_2 (total2 (-)), Bin_2_2 (total2 (*)),
      Bin_2_2 (trap2 i64_div_s), Bin_2_2 (trap2 i64_div_u),
      Bin_2_2 (trap2 i64_rem_s), Bin_2_2 (trap2 i64_rem_u),
      Bin_2_2 (total2 (AND)), Bin_2_2 (total2 (OR)), Bin_2_2 (total2 (XOR)),
      Bin_2_2 (total2 (\<lambda>a b. push_bit (unat (b mod 64)) a)),
      Bin_2_2 (total2 (\<lambda>a b. signed_drop_bit (unat (b mod 64)) a)),
      Bin_2_2 (total2 (\<lambda>a b. drop_bit (unat (b mod 64)) a)),
      Bin_2_2 (total2 rotl64), Bin_2_2 (total2 rotr64)]"

definition f32_numeric :: "fpu \<Rightarrow> handler list" where
  "f32_numeric F =
     [Un_1_1 (total1 fl_abs), Un_1_1 (total1 f32_neg)] @
     map (\<lambda>u. Un_1_1 (total1 (fun32 F u))) [Ceil, Floor, Trunc, Nearest, Sqrt] @
     map (\<lambda>b. Bin_1_1 (total2 (fbin32 F b))) [Add, Sub, Mul, Div] @
     [Bin_1_1 (total2 f32_min), Bin_1_1 (total2 f32_max), Bin_1_1 (total2 local_copysignf)]"

definition f64_numeric :: "fpu \<Rightarrow> handler list" where
  "f64_numeric F =
     [Un_2_2 (total1 fl_abs), Un_2_2 (total1 f64_neg)] @
     map (\<lambda>u. Un_2_2 (total1 (fun64 F u))) [Ceil, Floor, Trunc, Nearest, Sqrt] @
     map (\<lambda>b. Bin_2_2 (total2 (fbin64 F b))) [Add, Sub, Mul, Div] @
     [Bin_2_2 (total2 f64_min), Bin_2_2 (total2 f64_max), Bin_2_2 (total2 local_copysign)]"

definition int_conversions :: "handler list" where
  "int_conversions =
     [Un_2_1 (total1 (\<lambda>v. ucast (v AND 0xffffffff))),
      Un_1_1 (trap1 (i32_trunc_s_f32 False)), Un_1_1 (trap1 (i32_trunc_u_f32 False)),
      Un_2_1 (trap1 (i32_trunc_s_f64 False)), Un_2_1 (trap1 (i32_trunc_u_f64 False)),
      Un_1_2 (total1 scast), Un_1_2 (total1 ucast),
      Un_1_2 (trap1 (i64_trunc_s_f32 False)), Un_1_2 (trap1 (i64_trunc_u_f32 False)),
      Un_2_2 (trap1 (i64_trunc_s_f64 False)), Un_2_2 (trap1 (i64_trunc_u_f64 False))]"

definition float_conversions :: "fpu \<Rightarrow> handler list" where
  "float_conversions F =
     [Un_1_1 (total1 (\<lambda>v. f32_of_int F (sint v))), Un_1_1 (total1 (\<lambda>v. f32_of_int F (uint v))),
      Un_2_1 (total1 (\<lambda>v. f32_of_int F (sint v))), Un_2_1 (total1 (\<lambda>v. f32_of_int F (uint v))),
      Un_2_1 (total1 (demote F)),
      Un_1_2 (total1 (\<lambda>v. f64_of_int F (sint v))), Un_1_2 (total1 (\<lambda>v. f64_of_int F (uint v))),
      Un_2_2 (total1 (\<lambda>v. f64_of_int F (sint v))), Un_2_2 (total1 (\<lambda>v. f64_of_int F (uint v))),
      Un_1_2 (total1 (promote F)),
      Keep, Keep, Keep, Keep]"

definition sign_extensions :: "handler list" where
  "sign_extensions =
     [Un_1_1 (total1 (\<lambda>v. scast (ucast v :: u8))), Un_1_1 (total1 (\<lambda>v. scast (ucast v :: u16))),
      Un_2_2 (total1 (\<lambda>v. scast (ucast v :: u8))), Un_2_2 (total1 (\<lambda>v. scast (ucast v :: u16))),
      Un_2_2 (total1 (\<lambda>v. scast (ucast v :: u32)))]"

definition numeric_handlers :: "fpu \<Rightarrow> handler list" where
  "numeric_handlers F =
     i32_compare @ i64_compare @ float_compare @ i32_numeric @ i64_numeric @
     f32_numeric F @ f64_numeric F @ int_conversions @ float_conversions F @ sign_extensions"

definition numeric_handler :: "fpu \<Rightarrow> u8 \<Rightarrow> handler option" where
  "numeric_handler F opcode =
     (if 0x45 \<le> opcode \<and> opcode \<le> 0xc4 then Some (numeric_handlers F ! (unat opcode - 0x45))
      else None)"

text \<open>The saturating conversions behind the prefix 0xfc.\<close>

definition trunc_sat_handlers :: "handler list" where
  "trunc_sat_handlers =
     [Un_1_1 (trap1 (i32_trunc_s_f32 True)), Un_1_1 (trap1 (i32_trunc_u_f32 True)),
      Un_2_1 (trap1 (i32_trunc_s_f64 True)), Un_2_1 (trap1 (i32_trunc_u_f64 True)),
      Un_1_2 (trap1 (i64_trunc_s_f32 True)), Un_1_2 (trap1 (i64_trunc_u_f32 True)),
      Un_2_2 (trap1 (i64_trunc_s_f64 True)), Un_2_2 (trap1 (i64_trunc_u_f64 True))]"

section \<open>A handler and the stack\<close>

text \<open>Whatever a handler computes, it replaces the cells it pops by the cells it pushes and
  leaves the rest of the stack alone; and it has a result whenever the value function has.\<close>

lemma length_cells_of_u64 [simp]: "length (cells_of_u64 v) = 2"
  by (simp add: cells_of_u64_def)

lemma push1_eq_Some:
  "push1 st r = Some (Inr st') \<longleftrightarrow> (\<exists>v. r = Some (Inr v) \<and> st' = v # st)"
  by (cases r; cases "the r") (auto simp: push1_def)

lemma push2_eq_Some:
  "push2 st r = Some (Inr st') \<longleftrightarrow> (\<exists>v. r = Some (Inr v) \<and> st' = cells_of_u64 v @ st)"
  by (cases r; cases "the r") (auto simp: push2_def)

lemma push_eq_None [simp]: "push1 st r = None \<longleftrightarrow> r = None" "push2 st r' = None \<longleftrightarrow> r' = None"
  by (simp_all add: push1_def push2_def)

lemma exec_handler_result:
  assumes "exec_handler h st = Some (Inr st')"
  shows "pops h \<le> length st \<and> (\<exists>vs. length vs = pushes h \<and> st' = vs @ drop (pops h) st)"
  using assms
  by (induction h st rule: exec_handler.induct) (auto simp: push1_eq_Some push2_eq_Some Suc_length_conv
      cells_of_u64_def)

fun returns :: "handler \<Rightarrow> bool" where
  "returns Keep = True"
| "returns (Un_1_1 f) = (\<forall>a. f a \<noteq> None)"
| "returns (Un_1_2 f) = (\<forall>a. f a \<noteq> None)"
| "returns (Un_2_1 f) = (\<forall>a. f a \<noteq> None)"
| "returns (Un_2_2 f) = (\<forall>a. f a \<noteq> None)"
| "returns (Bin_1_1 f) = (\<forall>a b. f a b \<noteq> None)"
| "returns (Bin_2_1 f) = (\<forall>a b. f a b \<noteq> None)"
| "returns (Bin_2_2 f) = (\<forall>a b. f a b \<noteq> None)"

lemma exec_handler_returns:
  assumes "returns h" "pops h \<le> length st"
  shows "exec_handler h st \<noteq> None"
  using assms by (induction h st rule: exec_handler.induct) auto

lemma op_values [simp]:
  "total1 f a \<noteq> None" "total2 g a b \<noteq> None" "trap1 f' a \<noteq> None" "trap2 g' a b \<noteq> None"
  "DEF_OP_EQZ w \<noteq> None" "DEF_OP_CMP c a b \<noteq> None"
  by (simp_all add: total1_def total2_def trap1_def trap2_def DEF_OP_EQZ_def DEF_OP_CMP_def)

lemma bit_count_value [simp]: "DEF_OP_BIT_COUNT f a = None \<longleftrightarrow> f a = None"
  by (simp add: DEF_OP_BIT_COUNT_def)

lemma bit_counts_return: "clz32 v \<noteq> None" "ctz32 v \<noteq> None" "clz64 v' \<noteq> None" "ctz64 v' \<noteq> None"
  using clz_loop_eq [of v 0] clz_loop_eq [of v' 0] ctz_loop_eq [of v 0] ctz_loop_eq [of v' 0]
  by (simp_all add: clz32_def ctz32_def clz64_def ctz64_def)

lemmas handler_tables =
  i32_compare_def i64_compare_def float_compare_def i32_numeric_def i64_numeric_def
  f32_numeric_def f64_numeric_def int_conversions_def float_conversions_def sign_extensions_def
  int_conds_def float_conds_def

lemma numeric_handlers_return: "h \<in> set (numeric_handlers F) \<Longrightarrow> returns h"
  unfolding numeric_handlers_def handler_tables using bit_counts_return by auto

lemma trunc_sat_handlers_return: "h \<in> set trunc_sat_handlers \<Longrightarrow> returns h"
  unfolding trunc_sat_handlers_def by auto

section \<open>The signatures of the code validation\<close>

definition handler_sig :: "handler \<Rightarrow> nat \<times> nat" where
  "handler_sig h = (pops h, pushes h)"

definition numeric_sigs :: "(nat \<times> nat) list" where
  "numeric_sigs =
     (1, 1) # replicate 10 (2, 1) @ (2, 1) # replicate 10 (4, 1) @
     replicate 6 (2, 1) @ replicate 6 (4, 1) @
     replicate 3 (1, 1) @ replicate 15 (2, 1) @ replicate 3 (2, 2) @ replicate 15 (4, 2) @
     replicate 7 (1, 1) @ replicate 7 (2, 1) @ replicate 7 (2, 2) @ replicate 7 (4, 2) @
     [(2, 1), (1, 1), (1, 1), (2, 1), (2, 1), (1, 2), (1, 2), (1, 2), (1, 2), (2, 2), (2, 2)] @
     [(1, 1), (1, 1), (2, 1), (2, 1), (2, 1), (1, 2), (1, 2), (2, 2), (2, 2), (1, 2),
      (0, 0), (0, 0), (0, 0), (0, 0)] @
     [(1, 1), (1, 1), (2, 2), (2, 2), (2, 2)]"

lemma numeric_handlers_sigs: "map handler_sig (numeric_handlers F) = numeric_sigs"
  by (simp add: numeric_handlers_def handler_tables handler_sig_def numeric_sigs_def numeral_eq_Suc)

lemma length_numeric_handlers: "length (numeric_handlers F) = 128"
proof -
  have "length numeric_sigs = 128" by (simp add: numeric_sigs_def)
  then show ?thesis by (metis numeric_handlers_sigs length_map)
qed

definition sig_cells :: "nat \<times> u8 \<times> u8 \<Rightarrow> nat \<times> nat" where
  "sig_cells = (\<lambda>(n, tp, tq). (n * wasm_value_type_cell_num tp, wasm_value_type_cell_num tq))"

text \<open>The handlers that do nothing belong to opcodes whose operand and result have equally many cells.\<close>

definition sig_fits :: "u8 \<Rightarrow> nat \<times> nat \<Rightarrow> bool" where
  "sig_fits opcode p \<longleftrightarrow>
     (case numeric_sig opcode of None \<Rightarrow> False
      | Some s \<Rightarrow> if p = (0, 0) then fst (sig_cells s) = snd (sig_cells s) else p = sig_cells s)"

definition table_opcodes :: "u8 list" where
  "table_opcodes = map word_of_nat [0x45..<0xc5]"

lemma length_table [simp]: "length table_opcodes = 128" "length numeric_sigs = 128"
  by (simp_all add: table_opcodes_def numeric_sigs_def)

lemma table_sigs_fit: "list_all2 sig_fits table_opcodes numeric_sigs"
  by code_simp

lemma no_sig_outside: "numeric_sig opcode = None \<longleftrightarrow> \<not> (0x45 \<le> opcode \<and> opcode \<le> 0xc4)"
  by (rule byte_all [where P = "\<lambda>b. numeric_sig b = None \<longleftrightarrow> \<not> (0x45 \<le> b \<and> b \<le> 0xc4)"]) code_simp

lemma nth_map_upt: "i < n - m \<Longrightarrow> map f [m..<n] ! i = f (m + i)"
  by simp

lemma sigs_fit:
  assumes "0x45 \<le> opcode" "opcode \<le> 0xc4"
  shows "sig_fits opcode (numeric_sigs ! (unat opcode - 0x45))"
proof -
  have b: "0x45 \<le> unat opcode" "unat opcode < 0xc5" using assms by (simp_all add: word_le_nat_alt)
  then have "table_opcodes ! (unat opcode - 0x45) = word_of_nat (0x45 + (unat opcode - 0x45))"
    unfolding table_opcodes_def by (intro nth_map_upt) simp
  also have "\<dots> = opcode" using b(1) by simp
  finally have "table_opcodes ! (unat opcode - 0x45) = opcode" .
  with list_all2_nthD [OF table_sigs_fit, of "unat opcode - 0x45"] b show ?thesis by simp
qed

lemma nth_numeric_handlers:
  assumes "i < 128"
  shows "handler_sig (numeric_handlers F ! i) = numeric_sigs ! i"
  using nth_map [of i "numeric_handlers F" handler_sig] assms
  by (simp add: numeric_handlers_sigs length_numeric_handlers)

text \<open>C12: the code validation and the interpreter agree on the comparisons, the arithmetic and the
  conversions. An opcode has a signature exactly if it has a handler; and on every stack that holds
  the operands of the signature the handler comes to an end, and, unless it traps, replaces the
  cells of the operands by the cells of the result and leaves the cells below alone.\<close>

theorem numeric_handlers_typed:
  "(numeric_sig opcode = None \<longleftrightarrow> numeric_handler F opcode = None) \<and>
   (\<forall>n tp tq h. numeric_sig opcode = Some (n, tp, tq) \<and> numeric_handler F opcode = Some h \<and>
      n * wasm_value_type_cell_num tp \<le> length st \<longrightarrow>
      (\<exists>r. exec_handler h st = Some r \<and>
        (\<forall>st'. r = Inr st' \<longrightarrow>
          length st' + n * wasm_value_type_cell_num tp = length st + wasm_value_type_cell_num tq \<and>
          drop (wasm_value_type_cell_num tq) st' = drop (n * wasm_value_type_cell_num tp) st)))"
proof (cases "0x45 \<le> opcode \<and> opcode \<le> 0xc4")
  case False
  then show ?thesis using no_sig_outside [of opcode] by (auto simp: numeric_handler_def)
next
  case True
  let ?i = "unat opcode - 0x45"
  let ?h = "numeric_handlers F ! ?i"
  have i: "?i < 128" using True by (simp add: word_le_nat_alt) linarith
  have ret: "returns ?h" using i by (intro numeric_handlers_return [of _ F]) (simp add: length_numeric_handlers)
  obtain n tp tq where s: "numeric_sig opcode = Some (n, tp, tq)"
    using True no_sig_outside [of opcode] by auto
  have fit: "if handler_sig ?h = (0, 0) then n * wasm_value_type_cell_num tp = wasm_value_type_cell_num tq
       else handler_sig ?h = (n * wasm_value_type_cell_num tp, wasm_value_type_cell_num tq)"
    using sigs_fit [of opcode] True s
    by (cases "numeric_sigs ! ?i = (0, 0)")
      (simp_all only: nth_numeric_handlers [OF i, of F] sig_fits_def sig_cells_def option.case prod.case
        fst_conv snd_conv if_True if_False refl simp_thms)
  have "\<exists>r. exec_handler ?h st = Some r \<and>
        (\<forall>st'. r = Inr st' \<longrightarrow>
          length st' + n * wasm_value_type_cell_num tp = length st + wasm_value_type_cell_num tq \<and>
          drop (wasm_value_type_cell_num tq) st' = drop (n * wasm_value_type_cell_num tp) st)"
    if le: "n * wasm_value_type_cell_num tp \<le> length st"
  proof -
    have "pops ?h \<le> length st" using fit le by (auto simp: handler_sig_def split: if_splits)
    with exec_handler_returns [OF ret] obtain r where r: "exec_handler ?h st = Some r" by blast
    moreover have "length st' + n * wasm_value_type_cell_num tp = length st + wasm_value_type_cell_num tq \<and>
        drop (wasm_value_type_cell_num tq) st' = drop (n * wasm_value_type_cell_num tp) st"
      if "r = Inr st'" for st'
      using exec_handler_result [of ?h st st'] r that fit by (auto simp: handler_sig_def split: if_splits)
    ultimately show ?thesis by blast
  qed
  then show ?thesis using True s by (simp add: numeric_handler_def)
qed

theorem numeric_handlers_typed_witness:
  "\<forall>F. \<exists>h r. numeric_handler F 0x6a = Some h \<and> exec_handler h [2, 5] = Some r"
proof
  fix F
  have "numeric_sig 0x6a = Some (2, 0x7f, 0x7f)" "wasm_value_type_cell_num 0x7f = 1" by code_simp+
  moreover obtain h where h: "numeric_handler F 0x6a = Some h" by (simp add: numeric_handler_def)
  ultimately obtain r where "exec_handler h [2, 5] = Some r"
    using numeric_handlers_typed [of "0x6a" F "[2, 5]"] by auto
  with h show "\<exists>h r. numeric_handler F 0x6a = Some h \<and> exec_handler h [2, 5] = Some r" by blast
qed

end
