(* ===== verification/Interp_Frame.thy ===== *)
theory Interp_Frame
  imports Interp_Ops Memory_Api
begin

text \<open>
  The instructions of the classic interpreter that go on with the next instruction
  (\<open>wasm_interp_call_func_bytecode\<close> of \<^verbatim>\<open>wasm_interp_classic.c\<close>): locals, globals, memory,
  constants, parametric and numeric instructions, the bulk memory and the atomic
  instructions, on the state a frame has at run time. Branches, calls and the blocks are
  not here.

  The code is read from the memory of the chip, where the loader has rewritten it. A step is
  a function that returns the next state, traps (\<open>Some (Inl message)\<close>), or has no result
  (\<open>None\<close>): it would read operands below the frame, leave the arrays of the frame, or never
  return.
\<close>

section \<open>The state\<close>

definition bindR :: "'a run \<Rightarrow> ('a \<Rightarrow> 'b run) \<Rightarrow> 'b run" where
  "bindR r f = (case r of None \<Rightarrow> None | Some (Inl e) \<Rightarrow> Some (Inl e) | Some (Inr x) \<Rightarrow> f x)"

text \<open>The registers of the interpreter and the parts of the instance the instructions use. The
  operand stack is the list of its cells, top first; \<open>frame_lp\<close> are the cells of the
  parameters and locals; a global is its byte offset in the global data.\<close>

record InterpState =
  frame_ip :: u32
  frame_sp :: "u32 list"
  frame_lp :: "u32 list"
  chip :: cmem
  mem_inst :: WASMMemoryInstance
  data_segs :: "data_segment list"

text \<open>What the instructions call: the float operations, the allocator under \<open>os_mmap\<close>, the migration of the
  application heap, and the two functions of shared memory (\<open>Shared_Wait\<close> has them as steps of threads). \<open>ie_wait\<close> gives
  what \<open>wasm_runtime_atomic_wait\<close> returns and the memory as the other threads have left it by then.\<close>

record interp_env =
  ie_fpu :: fpu
  ie_mmap :: "bool \<Rightarrow> u32 \<Rightarrow> u32"
  ie_migrate :: "cmem \<Rightarrow> u32 \<Rightarrow> u32 \<Rightarrow> cmem \<times> bool"
  ie_heap_corrupted :: bool
  ie_notify :: "cmem \<Rightarrow> u32 \<Rightarrow> u32 \<Rightarrow> u32"
  ie_wait :: "cmem \<Rightarrow> WASMMemoryInstance \<Rightarrow> u32 \<Rightarrow> u64 \<Rightarrow> u64 \<Rightarrow> bool \<Rightarrow> u32 \<times> cmem \<times> WASMMemoryInstance"
  ie_global_data :: u32
  ie_global_offsets :: "u32 list"
  ie_aux_stack_boundary :: u32
  ie_aux_stack_bottom :: u32

definition stuck :: "'a run" where "stuck = None"

definition done_with :: "'a \<Rightarrow> 'a run" where "done_with x = Some (Inr x)"

definition trap :: "string \<Rightarrow> 'a run" where "trap e = Some (Inl e)"

text \<open>Immediates: a LEB128 number, a byte.\<close>

definition fetch_u32 :: "InterpState \<Rightarrow> (u32 \<times> InterpState) run" where
  "fetch_u32 i =
     (case read_leb_quick (chip i) (frame_ip i) 32 False of
        None \<Rightarrow> stuck
      | Some (v, p) \<Rightarrow> done_with (ucast v, i\<lparr>frame_ip := p\<rparr>))"

definition fetch_byte :: "InterpState \<Rightarrow> u8 \<times> InterpState" where
  "fetch_byte i = (chip i (frame_ip i), i\<lparr>frame_ip := frame_ip i + 1\<rparr>)"

text \<open>\<open>POP_I32\<close>, \<open>PUSH_I32\<close>, \<open>POP_I64\<close>, \<open>PUSH_I64\<close>\<close>

definition pop32 :: "InterpState \<Rightarrow> (u32 \<times> InterpState) run" where
  "pop32 i = (case frame_sp i of [] \<Rightarrow> stuck | v # st \<Rightarrow> done_with (v, i\<lparr>frame_sp := st\<rparr>))"

definition push32 :: "u32 \<Rightarrow> InterpState \<Rightarrow> InterpState run" where
  "push32 v i = done_with (i\<lparr>frame_sp := v # frame_sp i\<rparr>)"

definition pop64 :: "InterpState \<Rightarrow> (u64 \<times> InterpState) run" where
  "pop64 i =
     (case frame_sp i of
        hi # lo # st \<Rightarrow> done_with (u64_of_cells [hi, lo], i\<lparr>frame_sp := st\<rparr>)
      | _ \<Rightarrow> stuck)"

definition push64 :: "u64 \<Rightarrow> InterpState \<Rightarrow> InterpState run" where
  "push64 v i = done_with (i\<lparr>frame_sp := cells_of_u64 v @ frame_sp i\<rparr>)"

definition run_handler :: "handler \<Rightarrow> InterpState \<Rightarrow> InterpState run" where
  "run_handler h i = bindR (exec_handler h (frame_sp i)) (\<lambda>st. done_with (i\<lparr>frame_sp := st\<rparr>))"

section \<open>Constants and parametric instructions\<close>

definition exec_const :: "u8 \<Rightarrow> InterpState \<Rightarrow> InterpState run" where
  "exec_const opcode i =
     (if opcode = 0x41 then
        (case read_leb_quick (chip i) (frame_ip i) 32 True of
           None \<Rightarrow> stuck | Some (v, p) \<Rightarrow> push32 (ucast v) (i\<lparr>frame_ip := p\<rparr>))
      else if opcode = 0x42 then
        (case read_leb_quick (chip i) (frame_ip i) 64 True of
           None \<Rightarrow> stuck | Some (v, p) \<Rightarrow> push64 v (i\<lparr>frame_ip := p\<rparr>))
      else if opcode = 0x43 then
        push32 (le_word (cbytes (chip i) (frame_ip i) 4)) (i\<lparr>frame_ip := frame_ip i + 4\<rparr>)
      else push64 (le_word (cbytes (chip i) (frame_ip i) 8)) (i\<lparr>frame_ip := frame_ip i + 8\<rparr>))"

definition exec_drop :: "nat \<Rightarrow> InterpState \<Rightarrow> InterpState run" where
  "exec_drop n i =
     (if n \<le> length (frame_sp i) then done_with (i\<lparr>frame_sp := drop n (frame_sp i)\<rparr>) else stuck)"

definition exec_select :: "InterpState \<Rightarrow> InterpState run" where
  "exec_select i =
     bindR (pop32 i) (\<lambda>(cond, i). bindR (pop32 i) (\<lambda>(v2, i). bindR (pop32 i) (\<lambda>(v1, i).
       push32 (if cond = 0 then v2 else v1) i)))"

definition exec_select_64 :: "InterpState \<Rightarrow> InterpState run" where
  "exec_select_64 i =
     bindR (pop32 i) (\<lambda>(cond, i). bindR (pop64 i) (\<lambda>(v2, i). bindR (pop64 i) (\<lambda>(v1, i).
       push64 (if cond = 0 then v2 else v1) i)))"

section \<open>Locals\<close>

definition load_local :: "nat \<Rightarrow> InterpState \<Rightarrow> u32 run" where
  "load_local off i = (if off < length (frame_lp i) then done_with (frame_lp i ! off) else stuck)"

definition store_local :: "nat \<Rightarrow> u32 \<Rightarrow> InterpState \<Rightarrow> InterpState run" where
  "store_local off v i =
     (if off < length (frame_lp i) then done_with (i\<lparr>frame_lp := (frame_lp i)[off := v]\<rparr>) else stuck)"

definition load_local_64 :: "nat \<Rightarrow> InterpState \<Rightarrow> u64 run" where
  "load_local_64 off i =
     bindR (load_local off i) (\<lambda>lo. bindR (load_local (off + 1) i) (\<lambda>hi.
       done_with (u64_of_cells [hi, lo])))"

definition store_local_64 :: "nat \<Rightarrow> u64 \<Rightarrow> InterpState \<Rightarrow> InterpState run" where
  "store_local_64 off v i =
     bindR (store_local off (cells_of_u64 v ! 1) i) (store_local (off + 1) (cells_of_u64 v ! 0))"

definition get_local_cells :: "bool \<Rightarrow> nat \<Rightarrow> InterpState \<Rightarrow> InterpState run" where
  "get_local_cells wide off i =
     (if wide then bindR (load_local_64 off i) (\<lambda>v. push64 v i)
      else bindR (load_local off i) (\<lambda>v. push32 v i))"

definition set_local_cells :: "bool \<Rightarrow> nat \<Rightarrow> InterpState \<Rightarrow> InterpState run" where
  "set_local_cells wide off i =
     (if wide then bindR (pop64 i) (\<lambda>(v, i). store_local_64 off v i)
      else bindR (pop32 i) (\<lambda>(v, i). store_local off v i))"

definition tee_local_cells :: "bool \<Rightarrow> nat \<Rightarrow> InterpState \<Rightarrow> InterpState run" where
  "tee_local_cells wide off i =
     (if wide then bindR (pop64 i) (\<lambda>(v, _). store_local_64 off v i)
      else bindR (pop32 i) (\<lambda>(v, _). store_local off v i))"

text \<open>\<open>GET_LOCAL_INDEX_TYPE_AND_OFFSET\<close>, and the switch on the type: whether the local is two cells
  wide and its offset.\<close>

definition fetch_local :: "WASMFunction \<Rightarrow> InterpState \<Rightarrow> (bool \<times> nat \<times> InterpState) run" where
  "fetch_local F i =
     bindR (fetch_u32 i) (\<lambda>(local_idx, i).
       let n = param_count (func_type F); j = unat local_idx
       in if j \<ge> n + length (local_types F) then stuck
          else
            let local_type = (if j < n then types (func_type F) ! j else local_types F ! (j - n));
                local_offset = unat (local_offsets F ! j)
            in if local_type = VALUE_TYPE_I32 \<or> local_type = VALUE_TYPE_F32
               then done_with (False, local_offset, i)
               else if local_type = VALUE_TYPE_I64 \<or> local_type = VALUE_TYPE_F64
               then done_with (True, local_offset, i)
               else trap ''invalid local type'')"

text \<open>The short forms: the byte behind the opcode is the offset, its top bit the width.\<close>

definition fetch_local_fast :: "InterpState \<Rightarrow> bool \<times> nat \<times> InterpState" where
  "fetch_local_fast i =
     (let (b, i) = fetch_byte i in (b AND 0x80 \<noteq> 0, unat (b AND 0x7f), i))"

definition exec_local :: "WASMFunction \<Rightarrow> u8 \<Rightarrow> InterpState \<Rightarrow> InterpState run" where
  "exec_local F opcode i =
     (if opcode = 0x20 then bindR (fetch_local F i) (\<lambda>(w, off, i). get_local_cells w off i)
      else if opcode = 0x21 then bindR (fetch_local F i) (\<lambda>(w, off, i). set_local_cells w off i)
      else if opcode = 0x22 then bindR (fetch_local F i) (\<lambda>(w, off, i). tee_local_cells w off i)
      else
        let (w, off, i) = fetch_local_fast i
        in if opcode = EXT_OP_GET_LOCAL_FAST then get_local_cells w off i
           else if opcode = EXT_OP_SET_LOCAL_FAST then set_local_cells w off i
           else tee_local_cells w off i)"

section \<open>Globals\<close>

definition global_addr :: "interp_env \<Rightarrow> InterpState \<Rightarrow> (u32 \<times> InterpState) run" where
  "global_addr V i =
     bindR (fetch_u32 i) (\<lambda>(global_idx, i).
       if unat global_idx < length (ie_global_offsets V)
       then done_with (ie_global_data V + ie_global_offsets V ! unat global_idx, i) else stuck)"

definition poke_chip :: "u32 \<Rightarrow> u8 list \<Rightarrow> InterpState \<Rightarrow> InterpState" where
  "poke_chip a bs i = i\<lparr>chip := mem_put (chip i) a bs\<rparr>"

definition exec_global :: "interp_env \<Rightarrow> u8 \<Rightarrow> InterpState \<Rightarrow> InterpState run" where
  "exec_global V opcode i =
     bindR (global_addr V i) (\<lambda>(a, i).
       if opcode = 0x23 then push32 (le_word (cbytes (chip i) a 4)) i
       else if opcode = WASM_OP_GET_GLOBAL_64 then push64 (le_word (cbytes (chip i) a 8)) i
       else if opcode = WASM_OP_SET_GLOBAL_64 then
         bindR (pop64 i) (\<lambda>(v, i). done_with (poke_chip a (word_bytes 8 v) i))
       else if opcode = WASM_OP_SET_GLOBAL_AUX_STACK then
         bindR (pop32 i) (\<lambda>(aux_stack_top, i).
           if aux_stack_top \<le> ie_aux_stack_boundary V then trap ''wasm auxiliary stack overflow''
           else if aux_stack_top > ie_aux_stack_bottom V then trap ''wasm auxiliary stack underflow''
           else done_with (poke_chip a (word_bytes 4 aux_stack_top) i))
       else bindR (pop32 i) (\<lambda>(v, i). done_with (poke_chip a (word_bytes 4 v) i)))"

section \<open>Memory\<close>

definition exec_load_op :: "u8 \<Rightarrow> InterpState \<Rightarrow> InterpState run" where
  "exec_load_op opcode i =
     bindR (fetch_u32 i) (\<lambda>(flags, i). bindR (fetch_u32 i) (\<lambda>(offset, i).
     bindR (pop32 i) (\<lambda>(addr, i).
     bindR (Some (exec_load opcode (chip i) (mem_inst i) offset addr)) (\<lambda>cells.
       done_with (i\<lparr>frame_sp := cells @ frame_sp i\<rparr>)))))"

definition pop_value :: "nat \<Rightarrow> InterpState \<Rightarrow> (u32 list \<times> InterpState) run" where
  "pop_value n i =
     (if n \<le> length (frame_sp i)
      then done_with (take n (frame_sp i), i\<lparr>frame_sp := drop n (frame_sp i)\<rparr>) else stuck)"

definition exec_store_op :: "u8 \<Rightarrow> InterpState \<Rightarrow> InterpState run" where
  "exec_store_op opcode i =
     bindR (fetch_u32 i) (\<lambda>(flags, i). bindR (fetch_u32 i) (\<lambda>(offset, i).
       case store_handler opcode of
         None \<Rightarrow> stuck
       | Some (two, n) \<Rightarrow>
           bindR (pop_value (if two then 2 else 1) i) (\<lambda>(cells, i). bindR (pop32 i) (\<lambda>(addr, i).
           bindR (Some (exec_store opcode (chip i) (mem_inst i) offset addr cells)) (\<lambda>m.
             done_with (i\<lparr>chip := m\<rparr>))))))"

definition exec_memory_size_op :: "InterpState \<Rightarrow> InterpState run" where
  "exec_memory_size_op i =
     bindR (fetch_u32 i) (\<lambda>(mem_idx, i). push32 (cur_page_count (mem_inst i)) i)"

definition exec_memory_grow_op :: "interp_env \<Rightarrow> InterpState \<Rightarrow> InterpState run" where
  "exec_memory_grow_op V i =
     bindR (fetch_u32 i) (\<lambda>(mem_idx, i). bindR (pop32 i) (\<lambda>(delta, i).
       let ((m, mem), res) = exec_memory_grow (ie_mmap V) (ie_migrate V) (ie_heap_corrupted V)
                               (chip i) (mem_inst i) delta
       in push32 res (i\<lparr>chip := m, mem_inst := mem\<rparr>)))"

section \<open>The prefix 0xfc\<close>

text \<open>The memory index of the bulk instructions is skipped as one byte.\<close>

definition skip_byte :: "InterpState \<Rightarrow> InterpState" where
  "skip_byte i = i\<lparr>frame_ip := frame_ip i + 1\<rparr>"

definition exec_memory_init_op :: "InterpState \<Rightarrow> InterpState run" where
  "exec_memory_init_op i =
     bindR (fetch_u32 i) (\<lambda>(segment, i). let i = skip_byte i in
     bindR (pop32 i) (\<lambda>(bytes, i). bindR (pop32 i) (\<lambda>(offset, i). bindR (pop32 i) (\<lambda>(addr, i).
       if unat segment < length (data_segs i)
       then bindR (Some (exec_memory_init (chip i) (mem_inst i) (data_segs i ! unat segment) addr
                           offset bytes)) (\<lambda>m. done_with (i\<lparr>chip := m\<rparr>))
       else stuck))))"

definition exec_data_drop_op :: "InterpState \<Rightarrow> InterpState run" where
  "exec_data_drop_op i =
     bindR (fetch_u32 i) (\<lambda>(segment, i).
       if unat segment < length (data_segs i)
       then done_with (i\<lparr>data_segs := (data_segs i)[unat segment :=
                           exec_data_drop (data_segs i ! unat segment)]\<rparr>)
       else stuck)"

definition exec_memory_copy_op :: "InterpState \<Rightarrow> InterpState run" where
  "exec_memory_copy_op i =
     bindR (pop32 i) (\<lambda>(len, i). bindR (pop32 i) (\<lambda>(src, i). bindR (pop32 i) (\<lambda>(dst, i).
     bindR (Some (exec_memory_copy (chip i) (mem_inst i) dst src len)) (\<lambda>m.
       done_with (skip_byte (skip_byte (i\<lparr>chip := m\<rparr>)))))))"

definition exec_memory_fill_op :: "InterpState \<Rightarrow> InterpState run" where
  "exec_memory_fill_op i =
     (let i = skip_byte i in
     bindR (pop32 i) (\<lambda>(len, i). bindR (pop32 i) (\<lambda>(fill_val, i). bindR (pop32 i) (\<lambda>(dst, i).
     bindR (Some (exec_memory_fill (chip i) (mem_inst i) dst fill_val len)) (\<lambda>m.
       done_with (i\<lparr>chip := m\<rparr>))))))"

definition exec_misc :: "InterpState \<Rightarrow> InterpState run" where
  "exec_misc i =
     bindR (fetch_u32 i) (\<lambda>(opcode1, i).
       let opcode = (ucast opcode1 :: u8)
       in if opcode < 8 then run_handler (trunc_sat_handlers ! unat opcode) i
          else if opcode = 8 then exec_memory_init_op i
          else if opcode = 9 then exec_data_drop_op i
          else if opcode = 10 then exec_memory_copy_op i
          else if opcode = 11 then exec_memory_fill_op i
          else trap ''unsupported opcode'')"

section \<open>The prefix 0xfe\<close>

text \<open>Atomic accesses, each under the lock of the memory, so one step. Opcodes from 0x10 come in
  groups of seven: the group is the operation, the place in it the type of the value and the
  number of bytes accessed. \<open>maddr\<close> must be a multiple of the access width the immediate gives.\<close>

definition atomic_width :: "u8 \<Rightarrow> bool \<times> nat" where
  "atomic_width opcode =
     [(False, 4), (True, 8), (False, 1), (False, 2), (True, 1), (True, 2), (True, 4)]
       ! ((unat opcode - 0x10) mod 7)"

definition atomic_addr :: "InterpState \<Rightarrow> u32 \<Rightarrow> u32 \<Rightarrow> u32 \<Rightarrow> nat \<Rightarrow> u32 run" where
  "atomic_addr i align offset addr n =
     (case check_memory_overflow (mem_inst i) offset addr n of
        None \<Rightarrow> trap oob
      | Some maddr \<Rightarrow> if maddr AND (push_bit (unat align) 1 - 1) \<noteq> 0
                       then trap ''unaligned atomic'' else done_with maddr)"

definition atomic_read :: "cmem \<Rightarrow> u32 \<Rightarrow> nat \<Rightarrow> 'a::len word" where
  "atomic_read m maddr n = le_word (cbytes m maddr n)"

definition atomic_write :: "cmem \<Rightarrow> u32 \<Rightarrow> nat \<Rightarrow> 'a::len word \<Rightarrow> cmem" where
  "atomic_write m maddr n v = mem_put m maddr (word_bytes n v)"

text \<open>\<open>DEF_ATOMIC_RMW_OPCODE\<close>; the exchange is \<open>readv * 0 + sval\<close>.\<close>

definition rmw_op :: "nat \<Rightarrow> 'a::len word \<Rightarrow> 'a word \<Rightarrow> 'a word" where
  "rmw_op k readv sval =
     (if k = 2 then readv + sval else if k = 3 then readv - sval
      else if k = 4 then readv AND sval else if k = 5 then readv OR sval
      else if k = 6 then readv XOR sval else readv * 0 + sval)"

definition cmpxchg :: "cmem \<Rightarrow> u32 \<Rightarrow> nat \<Rightarrow> 'a::len word \<Rightarrow> 'a word \<Rightarrow> 'a word \<times> cmem" where
  "cmpxchg m maddr n expect sval =
     (let readv = atomic_read m maddr n
      in (readv, if readv = take_bit (8 * n) expect then atomic_write m maddr n sval else m))"

text \<open>One access on values of either width: pops by \<open>pop\<close>, pushes by \<open>push\<close>.\<close>

definition exec_atomic_access ::
  "nat \<Rightarrow> nat \<Rightarrow> u32 \<Rightarrow> u32 \<Rightarrow> (InterpState \<Rightarrow> ('a::len word \<times> InterpState) run) \<Rightarrow>
   ('a word \<Rightarrow> InterpState \<Rightarrow> InterpState run) \<Rightarrow> InterpState \<Rightarrow> InterpState run" where
  "exec_atomic_access k n align offset pop push i =
     (if k = 0 then
        bindR (pop32 i) (\<lambda>(addr, i). bindR (atomic_addr i align offset addr n) (\<lambda>maddr.
          push (atomic_read (chip i) maddr n) i))
      else if k = 1 then
        bindR (pop i) (\<lambda>(sval, i). bindR (pop32 i) (\<lambda>(addr, i).
        bindR (atomic_addr i align offset addr n) (\<lambda>maddr.
          done_with (i\<lparr>chip := atomic_write (chip i) maddr n sval\<rparr>))))
      else if k < 8 then
        bindR (pop i) (\<lambda>(sval, i). bindR (pop32 i) (\<lambda>(addr, i).
        bindR (atomic_addr i align offset addr n) (\<lambda>maddr.
          let readv = atomic_read (chip i) maddr n
          in push readv (i\<lparr>chip := atomic_write (chip i) maddr n (rmw_op k readv sval)\<rparr>))))
      else
        bindR (pop i) (\<lambda>(sval, i). bindR (pop i) (\<lambda>(expect, i). bindR (pop32 i) (\<lambda>(addr, i).
        bindR (atomic_addr i align offset addr n) (\<lambda>maddr.
          let (readv, m) = cmpxchg (chip i) maddr n expect sval
          in push readv (i\<lparr>chip := m\<rparr>))))))"

text \<open>Waking and waiting, opcodes 0 to 2; \<open>- 1\<close> stands for an exception. That a thread which has to terminate leaves
  after the wait is in \<open>Interp_Control.exec_opcode\<close>.\<close>

definition atomic_failed :: string where "atomic_failed = ''atomic wait or notify failed''"

definition exec_notify :: "interp_env \<Rightarrow> u32 \<Rightarrow> u32 \<Rightarrow> InterpState \<Rightarrow> InterpState run" where
  "exec_notify V align offset i =
     bindR (pop32 i) (\<lambda>(notify_count, i). bindR (pop32 i) (\<lambda>(addr, i).
     bindR (atomic_addr i align offset addr 4) (\<lambda>maddr.
       let ret = ie_notify V (chip i) maddr notify_count
       in if ret = - 1 then trap atomic_failed else push32 ret i)))"

definition finish_wait ::
  "interp_env \<Rightarrow> u32 \<Rightarrow> u64 \<Rightarrow> u64 \<Rightarrow> bool \<Rightarrow> InterpState \<Rightarrow> InterpState run" where
  "finish_wait V maddr expect timeout wait64 i =
     (let (ret, m, mem) = ie_wait V (chip i) (mem_inst i) maddr expect timeout wait64
      in if ret = - 1 then trap atomic_failed else push32 ret (i\<lparr>chip := m, mem_inst := mem\<rparr>))"

definition exec_wait :: "interp_env \<Rightarrow> bool \<Rightarrow> u32 \<Rightarrow> u32 \<Rightarrow> InterpState \<Rightarrow> InterpState run" where
  "exec_wait V wait64 align offset i =
     bindR (pop64 i) (\<lambda>(timeout, i).
       if wait64 then
         bindR (pop64 i) (\<lambda>(expect, i). bindR (pop32 i) (\<lambda>(addr, i).
         bindR (atomic_addr i align offset addr 8) (\<lambda>maddr. finish_wait V maddr expect timeout True i)))
       else
         bindR (pop32 i) (\<lambda>(expect, i). bindR (pop32 i) (\<lambda>(addr, i).
         bindR (atomic_addr i align offset addr 4) (\<lambda>maddr. finish_wait V maddr (ucast expect) timeout False i))))"

definition exec_atomic :: "interp_env \<Rightarrow> InterpState \<Rightarrow> InterpState run" where
  "exec_atomic V i =
     bindR (fetch_u32 i) (\<lambda>(opcode1, i).
       let opcode = (ucast opcode1 :: u8)
       in if opcode = 3 then done_with (skip_byte i)
          else bindR (fetch_u32 i) (\<lambda>(align, i). bindR (fetch_u32 i) (\<lambda>(offset, i).
            if opcode = 0 then exec_notify V align offset i
            else if opcode = 1 \<or> opcode = 2 then exec_wait V (opcode = 2) align offset i
            else if 0x10 \<le> opcode \<and> opcode \<le> 0x4e then
              let (wide, n) = atomic_width opcode; k = (unat opcode - 0x10) div 7
              in if wide then exec_atomic_access k n align offset pop64 push64 i
                 else exec_atomic_access k n align offset pop32 push32 i
            else stuck)))"

section \<open>The dispatch\<close>

definition exec_plain :: "interp_env \<Rightarrow> WASMFunction \<Rightarrow> u8 \<Rightarrow> InterpState \<Rightarrow> InterpState run" where
  "exec_plain V F opcode i =
     (if opcode = 0x01 then done_with i
      else if opcode = 0x00 then trap ''unreachable''
      else if opcode = 0x1a then exec_drop 1 i
      else if opcode = WASM_OP_DROP_64 then exec_drop 2 i
      else if opcode = 0x1b then exec_select i
      else if opcode = WASM_OP_SELECT_64 then exec_select_64 i
      else if opcode \<in> {0x20, 0x21, 0x22, EXT_OP_GET_LOCAL_FAST, EXT_OP_SET_LOCAL_FAST,
                         EXT_OP_TEE_LOCAL_FAST} then exec_local F opcode i
      else if opcode \<in> {0x23, 0x24, WASM_OP_GET_GLOBAL_64, WASM_OP_SET_GLOBAL_64,
                         WASM_OP_SET_GLOBAL_AUX_STACK} then exec_global V opcode i
      else if 0x28 \<le> opcode \<and> opcode \<le> 0x35 then exec_load_op opcode i
      else if 0x36 \<le> opcode \<and> opcode \<le> 0x3e then exec_store_op opcode i
      else if opcode = 0x3f then exec_memory_size_op i
      else if opcode = 0x40 then exec_memory_grow_op V i
      else if 0x41 \<le> opcode \<and> opcode \<le> 0x44 then exec_const opcode i
      else if opcode = 0xfc then exec_misc i
      else if opcode = 0xfe then exec_atomic V i
      else (case numeric_handler (ie_fpu V) opcode of
              Some h \<Rightarrow> run_handler h i
            | None \<Rightarrow> stuck))"

definition exec_step :: "interp_env \<Rightarrow> WASMFunction \<Rightarrow> InterpState \<Rightarrow> InterpState run" where
  "exec_step V F i =
     (let (opcode, i) = fetch_byte i in exec_plain V F opcode i)"

fun exec_steps :: "interp_env \<Rightarrow> WASMFunction \<Rightarrow> nat \<Rightarrow> InterpState \<Rightarrow> InterpState run" where
  "exec_steps V F 0 i = done_with i"
| "exec_steps V F (Suc n) i = bindR (exec_step V F i) (exec_steps V F n)"

end
