(* ===== verification/Interp_Control.thy ===== *)
theory Interp_Control
  imports Interp_Frame
begin

text \<open>
  The control instructions of the classic interpreter (\<^verbatim>\<open>wasm_interp_classic.c\<close>): blocks,
  branches, returns, and the instructions that call; the search for the end of a block
  (\<open>wasm_loader_find_block_addr\<close> of \<^verbatim>\<open>wasm_loader.c\<close>) and its cache; and the calls of
  functions of the module, with one frame per activation.

  The interpreter does not know where a block ends when it enters it. The search reads the
  rewritten code instruction by instruction, and has to skip exactly the immediates that the
  validation consumed.
\<close>

section \<open>Skipping one instruction\<close>

text \<open>\<^verbatim>\<open>while (*p++ & 0x80)\<close> and \<^verbatim>\<open>while (*p == WASM_OP_NOP) p++\<close> have no bound.\<close>

partial_function (option) skip_leb :: "cmem \<Rightarrow> u32 \<Rightarrow> u32 option" where
  "skip_leb m p = (if m p AND 0x80 \<noteq> 0 then skip_leb m (p + 1) else Some (p + 1))"

partial_function (option) skip_nops :: "cmem \<Rightarrow> u32 \<Rightarrow> u32 option" where
  "skip_nops m p = (if m p = WASM_OP_NOP then skip_nops m (p + 1) else Some p)"

declare skip_leb.simps [code] skip_nops.simps [code]

definition not_found :: "'a run" where "not_found = trap ''find block address failed''"

definition runs_on :: "'a option \<Rightarrow> 'a run" where
  "runs_on r = (case r of None \<Rightarrow> stuck | Some x \<Rightarrow> done_with x)"

text \<open>A checked reading whose failure makes the search return false.\<close>

definition scan_u32 :: "cmem \<Rightarrow> u32 \<Rightarrow> u32 \<Rightarrow> (u32 \<times> u32) run" where
  "scan_u32 m p p_end =
     (case read_leb_uint32 m p p_end of Inl e \<Rightarrow> not_found | Inr vp \<Rightarrow> done_with vp)"

definition skip_two :: "cmem \<Rightarrow> u32 \<Rightarrow> u32 run" where
  "skip_two m p = bindR (runs_on (skip_leb m p)) (\<lambda>p. runs_on (skip_leb m p))"

definition skip_misc :: "cmem \<Rightarrow> u32 \<Rightarrow> u32 \<Rightarrow> u32 run" where
  "skip_misc m p p_end =
     bindR (scan_u32 m p p_end) (\<lambda>(opcode1, p).
       let opcode = (ucast opcode1 :: u8)
       in if opcode < 8 then done_with p
          else if opcode = 8 \<or> opcode = 10 then skip_two m p
          else if opcode = 9 \<or> opcode = 11 then runs_on (skip_leb m p)
          else not_found)"

definition skip_atomic :: "cmem \<Rightarrow> u32 \<Rightarrow> u32 \<Rightarrow> u32 run" where
  "skip_atomic m p p_end =
     bindR (scan_u32 m p p_end) (\<lambda>(opcode1, p).
       let opcode = (ucast opcode1 :: u8)
       in if opcode \<noteq> 3 then skip_two m p else done_with (p + 1))"

text \<open>The cases of the switch but for the opcodes that open, divide or close a block; \<open>p\<close> is behind
  the opcode.\<close>

definition scan_skip :: "cmem \<Rightarrow> u8 \<Rightarrow> u32 \<Rightarrow> u32 \<Rightarrow> u32 run" where
  "scan_skip m opcode p p_end =
     (if opcode \<in> {0x00, 0x01, 0x0f, 0x1a, 0x1b, WASM_OP_DROP_64, WASM_OP_SELECT_64}
         \<or> 0x45 \<le> opcode \<and> opcode \<le> 0xc4 then done_with p
      else if opcode \<in> {0x0c, 0x0d, 0x10, 0x20, 0x21, 0x22, 0x23, 0x24, WASM_OP_GET_GLOBAL_64,
                         WASM_OP_SET_GLOBAL_64, WASM_OP_SET_GLOBAL_AUX_STACK, 0x3f, 0x40, 0x41, 0x42}
      then runs_on (skip_leb m p)
      else if opcode = 0x0e then
        bindR (scan_u32 m p p_end) (\<lambda>(count, p). runs_on (skip_nops m (p + (count + 1))))
      else if opcode = EXT_OP_BR_TABLE_CACHE then
        bindR (scan_u32 m p p_end) (\<lambda>(count, p). runs_on (skip_nops m p))
      else if opcode = 0x11 then bindR (runs_on (skip_leb m p)) (\<lambda>p. done_with (p + 1))
      else if opcode \<in> {EXT_OP_GET_LOCAL_FAST, EXT_OP_SET_LOCAL_FAST, EXT_OP_TEE_LOCAL_FAST} then
        (if check_buf p p_end 1 then done_with (p + 1) else not_found)
      else if 0x28 \<le> opcode \<and> opcode \<le> 0x3e then skip_two m p
      else if opcode = 0x43 then done_with (p + 4)
      else if opcode = 0x44 then done_with (p + 8)
      else if opcode = 0xfc then skip_misc m p p_end
      else if opcode = 0xfe then skip_atomic m p p_end
      else not_found)"

section \<open>The search\<close>

record BlockAddr =
  ba_start :: u32
  ba_else :: u32
  ba_end :: u32

text \<open>The local variables of the search: the position, the \<open>else\<close> found at nesting depth 1, the depth,
  and the first sixteen levels of nested blocks.\<close>

record ScanState =
  scan_p :: u32
  scan_else :: u32
  scan_depth :: nat
  scan_blocks :: "BlockAddr list"

definition EXT_OP_LOOP :: u8 where "EXT_OP_LOOP = 0xd8"
definition EXT_OP_IF :: u8 where "EXT_OP_IF = 0xd9"

definition scan_open :: "u32 \<Rightarrow> ScanState \<Rightarrow> ScanState" where
  "scan_open p sc =
     (let d = scan_depth sc; bs = scan_blocks sc
      in sc\<lparr>scan_p := p, scan_depth := d + 1,
            scan_blocks := (if d < length bs
                            then bs[d := (bs ! d)\<lparr>ba_start := p, ba_else := 0\<rparr>] else bs)\<rparr>)"

definition scan_else_op :: "u8 \<Rightarrow> u32 \<Rightarrow> ScanState \<Rightarrow> ScanState" where
  "scan_else_op label p sc =
     (let d = scan_depth sc; bs = scan_blocks sc
      in sc\<lparr>scan_p := p,
            scan_else := (if label = LABEL_TYPE_IF \<and> d = 1 then p - 1 else scan_else sc),
            scan_blocks := (if d - 1 < length bs
                            then bs[d - 1 := (bs ! (d - 1))\<lparr>ba_else := p - 1\<rparr>] else bs)\<rparr>)"

text \<open>An \<open>end\<close>: the depth goes down and the level's end is recorded.\<close>

definition scan_close :: "u32 \<Rightarrow> ScanState \<Rightarrow> ScanState" where
  "scan_close p sc =
     (let d = scan_depth sc - 1; bs = scan_blocks sc
      in sc\<lparr>scan_p := p, scan_depth := d,
            scan_blocks := (if d < length bs then bs[d := (bs ! d)\<lparr>ba_end := p - 1\<rparr>] else bs)\<rparr>)"

definition scan_op :: "cmem \<Rightarrow> u32 \<Rightarrow> u8 \<Rightarrow> u8 \<Rightarrow> u32 \<Rightarrow> ScanState \<Rightarrow> ScanState run" where
  "scan_op m p_end label opcode p sc =
     (if opcode = 0x02 \<or> opcode = 0x03 \<or> opcode = 0x04 then
        (if is_byte_a_type (m p) then done_with (scan_open (p + 1) sc)
         else bindR (runs_on (skip_leb m p)) (\<lambda>p. done_with (scan_open p sc)))
      else if opcode = EXT_OP_BLOCK \<or> opcode = EXT_OP_LOOP \<or> opcode = EXT_OP_IF then
        bindR (runs_on (skip_leb m p)) (\<lambda>p. done_with (scan_open p sc))
      else if opcode = 0x05 then done_with (scan_else_op label p sc)
      else if opcode = 0x0b then done_with (scan_close p sc)
      else bindR (scan_skip m opcode p p_end) (\<lambda>p. done_with (sc\<lparr>scan_p := p\<rparr>)))"

text \<open>The loop ends at the \<open>end\<close> of depth 1; \<open>scan_p\<close> is then behind it.\<close>

partial_function (option) scan_loop :: "cmem \<Rightarrow> u32 \<Rightarrow> u8 \<Rightarrow> ScanState \<Rightarrow> ScanState run" where
  "scan_loop m p_end label sc =
     (if scan_p sc < p_end then
        (case scan_op m p_end label (m (scan_p sc)) (scan_p sc + 1) sc of
           None \<Rightarrow> None
         | Some r \<Rightarrow>
             (case r of
                Inl e \<Rightarrow> Some (Inl e)
              | Inr sc' \<Rightarrow> if scan_depth sc' = 0 then Some (Inr sc')
                          else scan_loop m p_end label sc'))
      else not_found)"

declare scan_loop.simps [code]

text \<open>The cache: 64 lines of two entries; a full line loses its second entry.\<close>

definition BLOCK_ADDR_CACHE_SIZE :: nat where "BLOCK_ADDR_CACHE_SIZE = 64"
definition BLOCK_ADDR_CONFLICT_SIZE :: nat where "BLOCK_ADDR_CONFLICT_SIZE = 2"

definition cache_line :: "u32 \<Rightarrow> nat" where
  "cache_line start =
     BLOCK_ADDR_CONFLICT_SIZE * unat (start AND of_nat (BLOCK_ADDR_CACHE_SIZE - 1))"

definition cache_lookup :: "BlockAddr list \<Rightarrow> u32 \<Rightarrow> BlockAddr option" where
  "cache_lookup cache start =
     (let i = cache_line start
      in if ba_start (cache ! i) = start then Some (cache ! i)
         else if ba_start (cache ! (i + 1)) = start then Some (cache ! (i + 1)) else None)"

definition cache_insert :: "BlockAddr \<Rightarrow> BlockAddr list \<Rightarrow> BlockAddr list" where
  "cache_insert b cache =
     (let i = cache_line (ba_start b)
      in if ba_start (cache ! i) = 0 then cache[i := b]
         else if ba_start (cache ! (i + 1)) = 0 then cache[i + 1 := b]
         else cache[i + 1 := cache ! i, i := b])"

fun cache_insert_all :: "BlockAddr list \<Rightarrow> BlockAddr list \<Rightarrow> BlockAddr list" where
  "cache_insert_all [] cache = cache"
| "cache_insert_all (b # bs) cache =
     (if ba_start b \<noteq> 0 then cache_insert_all bs (cache_insert b cache) else cache)"

definition no_block :: BlockAddr where "no_block = \<lparr>ba_start = 0, ba_else = 0, ba_end = 0\<rparr>"

definition scan_start :: "u32 \<Rightarrow> ScanState" where
  "scan_start start =
     \<lparr>scan_p = start, scan_else = 0, scan_depth = 1,
      scan_blocks = no_block\<lparr>ba_start := start\<rparr> # replicate 15 no_block\<rparr>"

text \<open>The result is the address of the \<open>else\<close> (0 if there is none; the code leaves the variable alone
  unless the label is that of an \<open>if\<close>), the address of the \<open>end\<close>, and the cache.\<close>

definition wasm_loader_find_block_addr ::
  "cmem \<Rightarrow> BlockAddr list \<Rightarrow> u32 \<Rightarrow> u32 \<Rightarrow> u8 \<Rightarrow> (u32 \<times> u32 \<times> BlockAddr list) run" where
  "wasm_loader_find_block_addr m cache start code_end_addr label =
     (case cache_lookup cache start of
        Some b \<Rightarrow> done_with (ba_else b, ba_end b, cache)
      | None \<Rightarrow>
          bindR (scan_loop m code_end_addr label (scan_start start)) (\<lambda>sc.
            done_with (if label = LABEL_TYPE_IF then scan_else sc else 0, scan_p sc - 1,
                       cache_insert_all (scan_blocks sc) cache)))"

section \<open>The labels of a frame\<close>

text \<open>\<open>WASMBranchBlock\<close>, one per open block, innermost first. \<open>block_sp\<close> is the number of cells on the
  operand stack at \<^verbatim>\<open>frame_csp->frame_sp\<close>; the target 0 stands for a block whose end has not been
  looked for yet. The labels of \<open>try\<close> do not exist in the build, so there is no label type.\<close>

record WASMBranchBlock =
  begin_addr :: u32
  target_addr :: u32
  block_sp :: nat
  block_cells :: nat

record ControlState =
  frame :: InterpState
  labels :: "WASMBranchBlock list"
  addr_cache :: "BlockAddr list"

text \<open>What the control instructions read of the module and its instance: the types, the type of every
  function, the table of \<open>call_indirect\<close>, the depths of the \<open>br_table\<close> instructions the loader has
  put aside, and whether another thread has asked this one to terminate.\<close>

record control_env =
  ce_base :: interp_env
  ce_types :: "WASMFuncType list"
  ce_functions :: "WASMFuncType list"
  ce_table :: "u32 list"
  ce_br_tables :: "(u32 \<times> u32 list) list"
  ce_terminate :: bool

datatype outcome =
    Goes_on ControlState
  | Calls u32 ControlState
  | Returns "u32 list" ControlState
  | Terminates

definition param_cells :: "WASMFuncType \<Rightarrow> nat" where
  "param_cells ft = wasm_get_cell_num (block_type_get_param_types (Type_index ft))"

definition ret_cells :: "WASMFuncType \<Rightarrow> nat" where
  "ret_cells ft = wasm_get_cell_num (block_type_get_result_types (Type_index ft))"

definition PUSH_CSP :: "nat \<Rightarrow> nat \<Rightarrow> u32 \<Rightarrow> ControlState \<Rightarrow> ControlState run" where
  "PUSH_CSP param_cell_num cell_num target cs =
     (let n = length (frame_sp (frame cs))
      in if n < param_cell_num then stuck
         else done_with (cs\<lparr>labels := \<lparr>begin_addr = frame_ip (frame cs), target_addr = target,
                 block_sp = n - param_cell_num, block_cells = cell_num\<rparr> # labels cs\<rparr>))"

text \<open>\<open>n\<close> labels go, the label left on top is the target: its cells are copied down to its height. The
  copy is of cells of the frame, none of which may lie below that height.\<close>

definition POP_CSP_N :: "nat \<Rightarrow> ControlState \<Rightarrow> ControlState run" where
  "POP_CSP_N n cs =
     (case drop n (labels cs) of
        [] \<Rightarrow> stuck
      | l # ls \<Rightarrow>
          let sp = frame_sp (frame cs)
          in if length sp < block_sp l + block_cells l then stuck
             else done_with (cs\<lparr>labels := l # ls,
                    frame := (frame cs)\<lparr>frame_ip := target_addr l,
                      frame_sp := take (block_cells l) sp @ drop (length sp - block_sp l) sp\<rparr>\<rparr>))"

section \<open>Blocks\<close>

definition on_frame :: "(InterpState \<Rightarrow> ('a \<times> InterpState) run) \<Rightarrow> ControlState \<Rightarrow> ('a \<times> ControlState) run" where
  "on_frame f cs = bindR (f (frame cs)) (\<lambda>(x, i). done_with (x, cs\<lparr>frame := i\<rparr>))"

text \<open>The immediate of a block: its parameter and result cells. The opcodes the loader has put in for
  blocks with a type index read the index, the others one byte.\<close>

definition block_header :: "control_env \<Rightarrow> bool \<Rightarrow> InterpState \<Rightarrow> ((nat \<times> nat) \<times> InterpState) run" where
  "block_header V ext i =
     (if ext then
        bindR (fetch_u32 i) (\<lambda>(type_index, i).
          if unat type_index < length (ce_types V)
          then let ft = ce_types V ! unat type_index in done_with ((param_cells ft, ret_cells ft), i)
          else stuck)
      else let (value_type, i) = fetch_byte i
           in done_with ((0, wasm_value_type_cell_num value_type), i))"

definition exec_block :: "control_env \<Rightarrow> bool \<Rightarrow> ControlState \<Rightarrow> ControlState run" where
  "exec_block V ext cs =
     bindR (on_frame (block_header V ext) cs) (\<lambda>((param_cell_num, cell_num), cs).
       let end_addr = (case cache_lookup (addr_cache cs) (frame_ip (frame cs)) of
                         Some b \<Rightarrow> ba_end b | None \<Rightarrow> 0)
       in PUSH_CSP param_cell_num cell_num end_addr cs)"

definition exec_loop :: "control_env \<Rightarrow> bool \<Rightarrow> ControlState \<Rightarrow> ControlState run" where
  "exec_loop V ext cs =
     bindR (on_frame (block_header V ext) cs) (\<lambda>((param_cell_num, _), cs).
       PUSH_CSP param_cell_num param_cell_num (frame_ip (frame cs)) cs)"

definition jump_to :: "u32 \<Rightarrow> ControlState \<Rightarrow> ControlState" where
  "jump_to a cs = cs\<lparr>frame := (frame cs)\<lparr>frame_ip := a\<rparr>\<rparr>"

definition find_block ::
  "u32 \<Rightarrow> u8 \<Rightarrow> ControlState \<Rightarrow> ((u32 \<times> u32) \<times> ControlState) run" where
  "find_block start label cs =
     bindR (wasm_loader_find_block_addr (chip (frame cs)) (addr_cache cs) start (- 1) label)
       (\<lambda>(else_addr, end_addr, cache). done_with ((else_addr, end_addr), cs\<lparr>addr_cache := cache\<rparr>))"

definition exec_if :: "control_env \<Rightarrow> bool \<Rightarrow> ControlState \<Rightarrow> ControlState run" where
  "exec_if V ext cs =
     bindR (on_frame (block_header V ext) cs) (\<lambda>((param_cell_num, cell_num), cs).
     bindR (case cache_lookup (addr_cache cs) (frame_ip (frame cs)) of
              Some b \<Rightarrow> done_with ((ba_else b, ba_end b), cs)
            | None \<Rightarrow> find_block (frame_ip (frame cs)) LABEL_TYPE_IF cs) (\<lambda>((else_addr, end_addr), cs).
     bindR (on_frame pop32 cs) (\<lambda>(cond, cs).
       if cond \<noteq> 0 then PUSH_CSP param_cell_num cell_num end_addr cs
       else if else_addr = 0 then done_with (jump_to (end_addr + 1) cs)
       else bindR (PUSH_CSP param_cell_num cell_num end_addr cs) (\<lambda>cs.
              done_with (jump_to (else_addr + 1) cs)))))"

definition exec_else :: "ControlState \<Rightarrow> ControlState run" where
  "exec_else cs =
     (case labels cs of [] \<Rightarrow> stuck | l # ls \<Rightarrow> done_with (jump_to (target_addr l) cs))"

text \<open>The cells a function returns go to the stack of the caller in the order they have here.\<close>

definition exec_return :: "WASMFunction \<Rightarrow> ControlState \<Rightarrow> outcome run" where
  "exec_return F cs =
     (let n = ret_cells (func_type F); sp = frame_sp (frame cs)
      in if length sp < n then stuck
         else done_with (Returns (take n sp) (cs\<lparr>frame := (frame cs)\<lparr>frame_sp := drop n sp\<rparr>\<rparr>)))"

definition exec_end :: "WASMFunction \<Rightarrow> ControlState \<Rightarrow> outcome run" where
  "exec_end F cs =
     (if length (labels cs) > 1 then done_with (Goes_on (cs\<lparr>labels := tl (labels cs)\<rparr>))
      else exec_return F cs)"

section \<open>Branches\<close>

definition label_pop_csp_n :: "u32 \<Rightarrow> ControlState \<Rightarrow> ControlState run" where
  "label_pop_csp_n depth cs =
     bindR (POP_CSP_N (unat depth) cs) (\<lambda>cs.
       if frame_ip (frame cs) = 0 then
         bindR (find_block (begin_addr (hd (labels cs))) LABEL_TYPE_BLOCK cs)
           (\<lambda>((else_addr, end_addr), cs). done_with (jump_to end_addr cs))
       else done_with cs)"

definition exec_br :: "ControlState \<Rightarrow> ControlState run" where
  "exec_br cs = bindR (on_frame fetch_u32 cs) (\<lambda>(depth, cs). label_pop_csp_n depth cs)"

definition exec_br_if :: "ControlState \<Rightarrow> ControlState run" where
  "exec_br_if cs =
     bindR (on_frame fetch_u32 cs) (\<lambda>(depth, cs). bindR (on_frame pop32 cs) (\<lambda>(cond, cs).
       if cond \<noteq> 0 then label_pop_csp_n depth cs else done_with cs))"

definition exec_br_table :: "ControlState \<Rightarrow> ControlState run" where
  "exec_br_table cs =
     bindR (on_frame fetch_u32 cs) (\<lambda>(count, cs). bindR (on_frame pop32 cs) (\<lambda>(lidx, cs).
       let lidx = (if lidx > count then count else lidx);
           depth = ucast (chip (frame cs) (frame_ip (frame cs) + lidx))
       in label_pop_csp_n depth cs))"

text \<open>The node of the list whose address is that of this instruction; without one the code goes on
  with the next byte.\<close>

definition exec_br_table_cache :: "control_env \<Rightarrow> ControlState \<Rightarrow> ControlState run" where
  "exec_br_table_cache V cs =
     bindR (on_frame pop32 cs) (\<lambda>(lidx, cs).
       case find (\<lambda>node. fst node = frame_ip (frame cs) - 1) (ce_br_tables V) of
         None \<Rightarrow> done_with cs
       | Some (_, br_depths) \<Rightarrow>
           let br_count = length br_depths - 1;
               lidx = (if unat lidx > br_count then br_count else unat lidx)
           in label_pop_csp_n (br_depths ! lidx) cs)"

section \<open>Calls as seen by the caller\<close>

definition exec_call :: "control_env \<Rightarrow> ControlState \<Rightarrow> outcome run" where
  "exec_call V cs = bindR (on_frame fetch_u32 cs) (\<lambda>(fidx, cs). done_with (Calls fidx cs))"

text \<open>The code compares pointers to types; the loader keeps one copy of equal types, so this is equality
  of types.\<close>

definition exec_call_indirect :: "control_env \<Rightarrow> ControlState \<Rightarrow> outcome run" where
  "exec_call_indirect V cs =
     bindR (on_frame fetch_u32 cs) (\<lambda>(tidx, cs).
     let cs = jump_to (frame_ip (frame cs) + 1) cs in
     bindR (on_frame pop32 cs) (\<lambda>(val, cs).
       if \<not> unat tidx < length (ce_types V) then stuck
       else if unat val \<ge> length (ce_table V) then trap ''undefined element''
       else
         let fidx = ce_table V ! unat val
         in if fidx = - 1 then trap ''uninitialized element''
            else if unat fidx \<ge> length (ce_functions V) then trap ''unknown function''
            else if ce_types V ! unat tidx \<noteq> ce_functions V ! unat fidx
            then trap ''indirect call type mismatch''
            else done_with (Calls fidx cs)))"

section \<open>The dispatch\<close>

definition goes_on :: "ControlState run \<Rightarrow> outcome run" where
  "goes_on r = bindR r (\<lambda>cs. done_with (Goes_on cs))"

text \<open>The instructions that first look whether the thread has to terminate.\<close>

definition checks_suspend :: "u8 \<Rightarrow> bool" where
  "checks_suspend opcode \<longleftrightarrow> opcode \<in> {0x0c, 0x0d, 0x0e, EXT_OP_BR_TABLE_CACHE, 0x10, 0x11}"

text \<open>\<^verbatim>\<open>memory.atomic.wait\<close> looks after it has waited; the result it has pushed then does not matter.\<close>

definition waits :: "u8 \<Rightarrow> InterpState \<Rightarrow> bool" where
  "waits opcode i \<longleftrightarrow> opcode = 0xfe \<and>
     (case fetch_u32 i of
        Some (Inr (opcode1, _)) \<Rightarrow> (ucast opcode1 :: u8) = 1 \<or> (ucast opcode1 :: u8) = 2
      | _ \<Rightarrow> False)"

definition exec_opcode ::
  "control_env \<Rightarrow> WASMFunction \<Rightarrow> u8 \<Rightarrow> ControlState \<Rightarrow> outcome run" where
  "exec_opcode V F opcode cs =
     (if checks_suspend opcode \<and> ce_terminate V then done_with Terminates
      else if opcode = 0x02 \<or> opcode = EXT_OP_BLOCK then
        goes_on (exec_block V (opcode = EXT_OP_BLOCK) cs)
      else if opcode = 0x03 \<or> opcode = EXT_OP_LOOP then
        goes_on (exec_loop V (opcode = EXT_OP_LOOP) cs)
      else if opcode = 0x04 \<or> opcode = EXT_OP_IF then goes_on (exec_if V (opcode = EXT_OP_IF) cs)
      else if opcode = 0x05 then goes_on (exec_else cs)
      else if opcode = 0x0b then exec_end F cs
      else if opcode = 0x0c then goes_on (exec_br cs)
      else if opcode = 0x0d then goes_on (exec_br_if cs)
      else if opcode = 0x0e then goes_on (exec_br_table cs)
      else if opcode = EXT_OP_BR_TABLE_CACHE then goes_on (exec_br_table_cache V cs)
      else if opcode = 0x0f then exec_return F cs
      else if opcode = 0x10 then exec_call V cs
      else if opcode = 0x11 then exec_call_indirect V cs
      else bindR (exec_plain (ce_base V) F opcode (frame cs)) (\<lambda>i.
             if waits opcode (frame cs) \<and> ce_terminate V then done_with Terminates
             else done_with (Goes_on (cs\<lparr>frame := i\<rparr>))))"

definition exec_control :: "control_env \<Rightarrow> WASMFunction \<Rightarrow> ControlState \<Rightarrow> outcome run" where
  "exec_control V F cs =
     (let (opcode, i) = fetch_byte (frame cs) in exec_opcode V F opcode (cs\<lparr>frame := i\<rparr>))"

section \<open>Calls and frames\<close>

text \<open>A function of the module and what its validation recorded: the depths of its two stacks.\<close>

record FunctionBody =
  fb_fun :: WASMFunction
  fb_max_stack :: nat
  fb_max_block :: nat

text \<open>What a call of a native function did: whether it returned without an exception, the two cells of
  \<^verbatim>\<open>argv_ret\<close>, and the frame with the memory it left. Native functions are code of the host.\<close>

type_synonym native = "u32 \<Rightarrow> u32 list \<Rightarrow> InterpState \<Rightarrow> (u32 \<times> u32 \<times> InterpState) option"

record machine_env =
  me_control :: control_env
  me_import_count :: nat
  me_bodies :: "FunctionBody list"
  me_native :: native
  me_boundary :: nat

text \<open>A suspended frame, and the machine: the running function with its frame at \<open>frame_base\<close>, the frames
  of its callers, and the top of the stack of frames.\<close>

record Activation =
  act_fun :: nat
  act_base :: nat
  act_ip :: u32
  act_sp :: "u32 list"
  act_lp :: "u32 list"
  act_labels :: "WASMBranchBlock list"

record Machine =
  cur_func :: nat
  now :: ControlState
  callers :: "Activation list"
  frame_base :: nat
  stack_top :: nat

datatype progress =
    Running Machine
  | Finished "u32 list" Machine
  | Terminated

definition frame_header :: nat where "frame_header = 9 * 4"

definition wasm_interp_interp_frame_size :: "nat \<Rightarrow> nat" where
  "wasm_interp_interp_frame_size all_cell_num = frame_header + all_cell_num * 4"

definition local_cells :: "WASMFunction \<Rightarrow> nat" where
  "local_cells F = wasm_get_cell_num (local_types F)"

definition all_cells :: "FunctionBody \<Rightarrow> nat" where
  "all_cells B = param_cells (func_type (fb_fun B)) + local_cells (fb_fun B) + fb_max_stack B
     + fb_max_block B * 4"

definition exec_env_alloc_wasm_frame :: "nat \<Rightarrow> nat \<Rightarrow> nat \<Rightarrow> nat option" where
  "exec_env_alloc_wasm_frame boundary addr bytes =
     (if bytes * 2 > boundary - addr then None else Some (addr + bytes))"

definition suspend_frame :: "Machine \<Rightarrow> Activation" where
  "suspend_frame k =
     (let i = frame (now k)
      in \<lparr>act_fun = cur_func k, act_base = frame_base k, act_ip = frame_ip i, act_sp = frame_sp i,
          act_lp = frame_lp i, act_labels = labels (now k)\<rparr>)"

definition resume_frame :: "Activation \<Rightarrow> ControlState \<Rightarrow> ControlState" where
  "resume_frame a cs =
     cs\<lparr>frame := (frame cs)\<lparr>frame_ip := act_ip a, frame_sp := act_sp a, frame_lp := act_lp a\<rparr>,
        labels := act_labels a\<rparr>"

text \<open>\<open>call_func_from_entry\<close> for a function of the module, with the arguments that lie behind the stack's
  top: the frame, its locals, and the label of the function.\<close>

definition enter_function ::
  "machine_env \<Rightarrow> nat \<Rightarrow> u32 list \<Rightarrow> Machine \<Rightarrow> progress run" where
  "enter_function V fidx args k =
     (let B = me_bodies V ! (fidx - me_import_count V); F = fb_fun B;
          bytes = wasm_interp_interp_frame_size (all_cells B)
      in case exec_env_alloc_wasm_frame (me_boundary V) (stack_top k) bytes of
           None \<Rightarrow> trap ''wasm operand stack overflow''
         | Some stack \<Rightarrow>
             if ce_terminate (me_control V) then done_with Terminated
             else done_with (Running (k\<lparr>cur_func := fidx,
               now := (now k)\<lparr>
                 frame := (frame (now k))\<lparr>frame_ip := code F, frame_sp := [],
                            frame_lp := args @ replicate (local_cells F) 0\<rparr>,
                 labels := [\<lparr>begin_addr = code F, target_addr = code F + code_size F - 1,
                             block_sp = 0, block_cells = ret_cells (func_type F)\<rparr>]\<rparr>,
               callers := suspend_frame k # callers k, frame_base := stack_top k, stack_top := stack\<rparr>)))"

text \<open>\<open>wasm_interp_call_func_native\<close>: its own frame, the call, and the results, which are pushed if they
  are one or two cells. The function is a parameter: it may change the memory and the globals, and does not call back
  into the module, which would change the cache of blocks.\<close>

definition push_native_result :: "nat \<Rightarrow> u32 \<Rightarrow> u32 \<Rightarrow> u32 list \<Rightarrow> u32 list" where
  "push_native_result ret_cell_num r0 r1 sp =
     (if ret_cell_num = 1 then r0 # sp else if ret_cell_num = 2 then r1 # r0 # sp else sp)"

definition call_func_native ::
  "machine_env \<Rightarrow> u32 \<Rightarrow> u32 list \<Rightarrow> Machine \<Rightarrow> progress run" where
  "call_func_native V fidx args k =
     (let ft = ce_functions (me_control V) ! unat fidx;
          bytes = wasm_interp_interp_frame_size (max (param_cells ft) 2)
      in case exec_env_alloc_wasm_frame (me_boundary V) (stack_top k) bytes of
           None \<Rightarrow> trap ''wasm operand stack overflow''
         | Some stack \<Rightarrow>
             (case me_native V fidx args (frame (now k)) of
                None \<Rightarrow> trap ''native function failed''
              | Some (r0, r1, i) \<Rightarrow>
                  if ce_terminate (me_control V) then done_with Terminated
                  else done_with (Running (k\<lparr>now := (now k)\<lparr>
                    frame := (frame (now k))\<lparr>chip := chip i, mem_inst := mem_inst i,
                      frame_sp := push_native_result (ret_cells ft) r0 r1
                                    (frame_sp (frame (now k)))\<rparr>\<rparr>\<rparr>))))"

text \<open>\<open>call_func_from_interp\<close>: the arguments are copied behind the top of the stack of frames, where the
  frame of the callee will have its parameters.\<close>

definition call_func_from_interp :: "machine_env \<Rightarrow> u32 \<Rightarrow> Machine \<Rightarrow> progress run" where
  "call_func_from_interp V fidx k =
     (if unat fidx \<ge> length (ce_functions (me_control V)) then stuck
      else
        let n = param_cells (ce_functions (me_control V) ! unat fidx);
            sp = frame_sp (frame (now k));
            k' = k\<lparr>now := (now k)\<lparr>frame := (frame (now k))\<lparr>frame_sp := drop n sp\<rparr>\<rparr>\<rparr>
        in if length sp < n \<or> 0 < n \<and> stack_top k + frame_header + 4 * n > me_boundary V then stuck
           else if unat fidx < me_import_count V then call_func_native V fidx (rev (take n sp)) k'
           else enter_function V (unat fidx) (rev (take n sp)) k')"

text \<open>\<open>return_func\<close>: the results go to the caller's stack, the frame is freed.\<close>

definition return_func :: "u32 list \<Rightarrow> Machine \<Rightarrow> progress" where
  "return_func vs k =
     (case callers k of
        [] \<Rightarrow> Finished vs (k\<lparr>stack_top := frame_base k\<rparr>)
      | a # as \<Rightarrow> Running (k\<lparr>cur_func := act_fun a,
            now := resume_frame (a\<lparr>act_sp := vs @ act_sp a\<rparr>) (now k),
            callers := as, frame_base := act_base a, stack_top := frame_base k\<rparr>))"

definition machine_step :: "machine_env \<Rightarrow> Machine \<Rightarrow> progress run" where
  "machine_step V k =
     (let B = me_bodies V ! (cur_func k - me_import_count V)
      in bindR (exec_control (me_control V) (fb_fun B) (now k)) (\<lambda>r.
           case r of
             Goes_on cs \<Rightarrow> done_with (Running (k\<lparr>now := cs\<rparr>))
           | Calls fidx cs \<Rightarrow> call_func_from_interp V fidx (k\<lparr>now := cs\<rparr>)
           | Returns vs cs \<Rightarrow> done_with (return_func vs (k\<lparr>now := cs\<rparr>))
           | Terminates \<Rightarrow> done_with Terminated))"

text \<open>A native function whose result is more than two cells leaves none of them: its caller finds
  fewer operands than its type promises.\<close>

lemma native_results_missing: "2 < n \<Longrightarrow> push_native_result n r0 r1 sp = sp"
  by (simp add: push_native_result_def)

end
