(* ===== verification/Loader_Safety.thy ===== *)
theory Loader_Safety
  imports Loader_Code
begin

text \<open>
  What the validation of a function body guarantees whatever the bytes are: it always
  returns, it writes only into the body, its two stacks keep their invariant, and the
  operands of an instruction it accepted are on the stack with their types.
\<close>

section \<open>Every operation keeps the stacks\<close>

definition good_ctx :: "WASMLoaderContext \<Rightarrow> bool" where
  "good_ctx c \<longleftrightarrow> (\<exists>ts segs. ctx_rel c (ts # segs)) \<and> blocks_ok c"

definition open_ifs :: "WASMLoaderContext \<Rightarrow> nat" where
  "open_ifs c = length (filter (\<lambda>b. label_type b = LABEL_TYPE_IF \<and> else_addr b = 0) (frame_csp c))"

definition ctx_step :: "WASMLoaderContext \<Rightarrow> WASMLoaderContext \<Rightarrow> bool" where
  "ctx_step c c' \<longleftrightarrow> good_ctx c' \<and> open_ifs c' = open_ifs c \<and> csp_num c' = csp_num c \<and>
     max_stack_cell_num c \<le> max_stack_cell_num c'"

lemma ctx_step_trans: "ctx_step a b \<Longrightarrow> ctx_step b c \<Longrightarrow> ctx_step a c"
  by (simp add: ctx_step_def)

lemma ctx_step_good: "ctx_step a b \<Longrightarrow> good_ctx b"
  by (simp add: ctx_step_def)

lemma ctx_step_refl: "good_ctx c \<Longrightarrow> ctx_step c c"
  by (simp add: ctx_step_def)

lemma ctx_stepI:
  assumes "stack_only c c'" "ctx_rel c' (ts # segs)" "blocks_ok c"
  shows "ctx_step c c'"
  using assms by (auto simp: ctx_step_def good_ctx_def stack_only_blocks open_ifs_def stack_only_def)

lemma pop_frame_refs_step:
  assumes "good_ctx c" "list_all is_valid_value_type xs" "pop_frame_refs c xs = Inr c'"
  shows "ctx_step c c'"
proof -
  from assms(1) obtain ts segs where rel: "ctx_rel c (ts # segs)" and bl: "blocks_ok c"
    by (auto simp: good_ctx_def)
  from pop_frame_refs_spec [OF rel assms(2)] assms(3)
  obtain ts' where "ctx_rel c' (ts' # segs)" "stack_only c c'"
    by (auto split: option.splits)
  then show ?thesis using bl by (intro ctx_stepI)
qed

lemma pop_frame_ref_step:
  assumes "good_ctx c" "is_valid_value_type t" "wasm_loader_pop_frame_ref c t = Inr c'"
  shows "ctx_step c c'"
  using pop_frame_refs_step [OF assms(1), of "[t]"] assms(2,3) by simp

lemma push_frame_refs_step:
  assumes "good_ctx c" "list_all is_valid_value_type xs" "push_frame_refs av c xs = Inr c'"
  shows "ctx_step c c'"
proof -
  from assms(1) obtain ts segs where rel: "ctx_rel c (ts # segs)" and bl: "blocks_ok c"
    by (auto simp: good_ctx_def)
  from push_frame_refs_spec [OF rel assms(2,3)] bl show ?thesis by (intro ctx_stepI)
qed

lemma push_pop_step:
  assumes "good_ctx c" "is_valid_value_type t" "is_valid_value_type t'"
    and "wasm_loader_push_pop_frame_ref av c n t' t = Inr c'"
  shows "ctx_step c c'"
proof -
  from assms(4) obtain c1 where c1: "pop_frame_refs c (replicate n t) = Inr c1"
    "push_frame_refs av c1 [t'] = Inr c'"
    by (auto simp: wasm_loader_push_pop_frame_ref_def)
  have "ctx_step c c1"
    using c1(1) assms(1,2) by (intro pop_frame_refs_step) (simp_all add: list_all_iff)
  moreover from this have "ctx_step c1 c'"
    using push_frame_refs_step [of c1 "[t']" av c'] c1(2) assms(3) by (auto dest: ctx_step_good)
  ultimately show ?thesis by (rule ctx_step_trans)
qed

lemma mark_unreachable_step:
  assumes "good_ctx c"
  shows "ctx_step c (set_polymorphic flag (reset_stack c))"
proof -
  from assms obtain ts segs where rel: "ctx_rel c (ts # segs)" and bl: "blocks_ok c"
    by (auto simp: good_ctx_def)
  note r = reset_stack_rel [OF rel]
  have rel': "ctx_rel (set_polymorphic flag (reset_stack c)) ([] # segs)"
    by (rule set_polymorphic_rel [OF r(1)])
  have ne: "frame_csp (reset_stack c) \<noteq> []" by (rule ctx_rel_hd [OF r(1)])
  then have "blocks_ok (set_polymorphic flag (reset_stack c))"
    using bl stack_only_blocks [OF r(2)] by (simp add: set_polymorphic_blocks)
  moreover have "open_ifs (set_polymorphic flag (reset_stack c)) = open_ifs c"
    using ne r(2) by (cases "frame_csp c")
      (auto simp: open_ifs_def set_polymorphic_def stack_only_def)
  moreover have "csp_num (set_polymorphic flag (reset_stack c)) = csp_num c"
      "max_stack_cell_num (set_polymorphic flag (reset_stack c)) = max_stack_cell_num c"
    by (simp_all add: set_polymorphic_def reset_stack_def Let_def)
  ultimately show ?thesis using rel' by (auto simp: ctx_step_def good_ctx_def)
qed

lemma check_br_step:
  assumes "good_ctx c" "wasm_loader_check_br av c depth opcode = Inr c'"
  shows "ctx_step c c'" "unat depth < csp_num c"
proof -
  from assms(1) obtain ts segs where rel: "ctx_rel c (ts # segs)" and bl: "blocks_ok c"
    by (auto simp: good_ctx_def)
  have pos: "0 < csp_num c" using ctx_rel_hd [OF rel] rel by (simp add: ctx_rel_def)
  show d: "unat depth < csp_num c"
    using assms(2) pos by (auto simp: wasm_loader_check_br_def split: if_splits)
  from wasm_loader_check_br_rel [OF rel bl d, where opcode = opcode and av = av] assms(2)
  obtain ts' where "ctx_rel c' (ts' # segs)" "stack_only c c'"
    by (auto split: option.splits)
  then show "ctx_step c c'" using bl by (intro ctx_stepI)
qed

lemma check_block_stack_step:
  assumes "good_ctx c" "check_block_stack av c (hd (frame_csp c)) = Inr c'"
  shows "ctx_step c c'" "stack_only c c'"
    "\<exists>segs. ctx_rel c' (rev (block_type_get_result_types (block_type (hd (frame_csp c)))) # segs)"
proof -
  from assms(1) obtain ts segs where rel: "ctx_rel c (ts # segs)" and bl: "blocks_ok c"
    by (auto simp: good_ctx_def)
  from check_block_stack_rel [OF rel bl, of av] assms(2)
  have "ctx_rel c' (rev (block_type_get_result_types (block_type (hd (frame_csp c)))) # segs)"
    "stack_only c c'"
    by (auto simp: spec_end_def split: option.splits if_splits)
  then show "ctx_step c c'" "stack_only c c'"
    "\<exists>segs. ctx_rel c' (rev (block_type_get_result_types (block_type (hd (frame_csp c)))) # segs)"
    using bl by (blast intro: ctx_stepI)+
qed

lemma pop_block_params_step:
  assumes "good_ctx c" "list_all is_valid_value_type xs" "pop_block_params c xs = Inr c'"
  shows "ctx_step c c'"
  using assms
proof (induction xs arbitrary: c)
  case (Cons x xs)
  show ?case
  proof (cases "available_cells c (hd (frame_csp c)) \<le> 0 \<and> is_stack_polymorphic (hd (frame_csp c))")
    case True
    with Cons.prems show ?thesis by (simp add: ctx_step_refl)
  next
    case False
    with Cons.prems obtain c1 where c1: "wasm_loader_pop_frame_ref c x = Inr c1"
      "pop_block_params c1 xs = Inr c'" by auto
    with Cons.prems have s1: "ctx_step c c1" by (intro pop_frame_ref_step) auto
    with c1 Cons show ?thesis by (auto intro: ctx_step_trans dest: ctx_step_good)
  qed
qed (auto intro: ctx_step_refl)

text \<open>The top cell is the top type's.\<close>

lemma top_cell:
  assumes "good_ctx c" "0 < available_cells c (hd (frame_csp c))"
  obtains ts segs where "ctx_rel c ((hd (frame_ref c) # ts) # segs)" "blocks_ok c"
proof -
  from assms(1) obtain us segs where rel: "ctx_rel c (us # segs)" and bl: "blocks_ok c"
    by (auto simp: good_ctx_def)
  from rel obtain b bs fr' where c: "frame_csp c = b # bs" "frame_ref c = cells_of us @ fr'"
    "segment_ok (is_stack_polymorphic b) us" "available_cells c b = int (length (cells_of us))"
    by (rule ctx_rel_Cons)
  with assms(2) obtain t ts where us: "us = t # ts" by (cases us) auto
  with c(3) obtain k where "wasm_value_type_cell_num t = Suc k"
    using segment_ok_Cons_pos by (metis Suc_pred)
  then have "hd (frame_ref c) = t" by (simp add: c(2) us)
  with rel bl us that show thesis by simp
qed

lemma drop_cells_step:
  assumes "good_ctx c" "0 < available_cells c (hd (frame_csp c))"
  shows "ctx_step c (drop_cells (wasm_value_type_cell_num (hd (frame_ref c))) c)"
proof -
  let ?t = "hd (frame_ref c)"
  from assms obtain ts segs where rel: "ctx_rel c ((?t # ts) # segs)" and bl: "blocks_ok c"
    by (rule top_cell)
  from rel obtain b bs fr' where c: "frame_csp c = b # bs" "frame_ref c = cells_of (?t # ts) @ fr'"
    "length fr' = block_stack_cell_num b" "segment_ok (is_stack_polymorphic b) (?t # ts)"
    "stack_rel fr' bs segs"
    by (rule ctx_rel_Cons)
  have ok: "segment_ok (is_stack_polymorphic b) ts" using c(4) by simp
  have drop: "drop (wasm_value_type_cell_num ?t) (frame_ref c) = cells_of ts @ fr'"
    by (subst c(2)) simp
  have len: "length (frame_ref c) = wasm_value_type_cell_num ?t + length (cells_of ts @ fr')"
    by (subst c(2)) simp
  have num: "stack_cell_num c = length (frame_ref c)" using rel by (simp add: ctx_rel_def)
  have "ctx_rel (c\<lparr>frame_ref := cells_of ts @ fr', stack_cell_num := length (cells_of ts @ fr')\<rparr>)
      (ts # segs)"
    by (rule ctx_rel_new_stack [OF rel c(1,2,3,5) ok]) simp
  then have "ctx_rel (drop_cells (wasm_value_type_cell_num ?t) c) (ts # segs)"
    by (simp add: drop_cells_def drop num len)
  moreover have "stack_only c (drop_cells (wasm_value_type_cell_num ?t) c)"
    by (simp add: stack_only_def drop_cells_def)
  ultimately show ?thesis using bl by (intro ctx_stepI)
qed

lemma top_cell_type:
  assumes "good_ctx c" "0 < available_cells c (hd (frame_csp c))"
  shows "is_valid_value_type (hd (frame_ref c)) \<or> hd (frame_ref c) = VALUE_TYPE_ANY"
  using assms by (rule top_cell) (auto elim!: ctx_rel_Cons)

lemma push_any_step:
  assumes rel: "ctx_rel c ([] # segs)" and bl: "blocks_ok c" and poly: "poly_of c"
    and push: "wasm_loader_push_frame_ref av c VALUE_TYPE_ANY = Inr c'"
  shows "ctx_step c c'"
  using push_frame_ref_spec [OF rel, of VALUE_TYPE_ANY av] poly push bl
  by (auto intro: ctx_stepI)

lemma select_any_step:
  assumes good: "good_ctx c" and av: "0 < available_cells c (hd (frame_csp c))"
    and any: "hd (frame_ref c) = VALUE_TYPE_ANY"
    and pp: "wasm_loader_push_pop_frame_ref av c 2 VALUE_TYPE_ANY VALUE_TYPE_ANY = Inr c'"
  shows "ctx_step c c'"
proof -
  from good av obtain ts segs where rel: "ctx_rel c ((VALUE_TYPE_ANY # ts) # segs)" and bl: "blocks_ok c"
    using any by (metis top_cell)
  from rel obtain b bs fr' where c: "frame_csp c = b # bs" "frame_ref c = cells_of (VALUE_TYPE_ANY # ts) @ fr'"
    "length fr' = block_stack_cell_num b" "segment_ok (is_stack_polymorphic b) (VALUE_TYPE_ANY # ts)"
    "stack_rel fr' bs segs" "poly_of c = is_stack_polymorphic b"
    by (rule ctx_rel_Cons)
  then have ts: "ts = []" and poly: "is_stack_polymorphic b" by simp_all
  have num: "stack_cell_num c = Suc (length fr')" "frame_ref c = VALUE_TYPE_ANY # fr'"
    using rel c(2) ts by (simp_all add: ctx_rel_def)
  let ?c1 = "c\<lparr>frame_ref := fr', stack_cell_num := length fr'\<rparr>"
  have tia: "top_is_any (frame_ref c)" by (simp add: top_is_any_def num)
  have p1: "wasm_loader_pop_frame_ref c VALUE_TYPE_ANY = Inr ?c1"
    using av c(1) tia num by (simp add: wasm_loader_pop_frame_ref_def check_stack_pop_def
        value_type_defs)
  have p2: "wasm_loader_pop_frame_ref ?c1 VALUE_TYPE_ANY = Inr ?c1"
    using c(1,3) poly by (simp add: wasm_loader_pop_frame_ref_def available_cells_def)
  have rel1: "ctx_rel ?c1 ([] # segs)"
    using ctx_rel_new_stack [OF rel c(1,2,3,5), of "[]"] by simp
  have so: "stack_only c ?c1" by (simp add: stack_only_def)
  have "wasm_loader_push_frame_ref av ?c1 VALUE_TYPE_ANY = Inr c'"
    using pp p1 p2 by (simp add: wasm_loader_push_pop_frame_ref_def numeral_2_eq_2)
  moreover have "poly_of ?c1" using poly c(1) by (simp add: poly_of_def)
  ultimately have "ctx_step ?c1 c'"
    using rel1 bl stack_only_blocks [OF so] by (intro push_any_step) simp_all
  moreover have "ctx_step c ?c1" by (rule ctx_stepI [OF so rel1 bl])
  ultimately show ?thesis by (blast intro: ctx_step_trans)
qed

text \<open>Opening and closing blocks.\<close>

definition label_is_if :: "u8 \<Rightarrow> bool" where
  "label_is_if opcode \<longleftrightarrow> LABEL_TYPE_BLOCK + (opcode - WASM_OP_BLOCK) = LABEL_TYPE_IF"

lemma open_block_step:
  assumes "good_ctx c" "block_type_ok bt" "open_block av opcode bt p c = Inr c'"
  shows "good_ctx c'" "open_ifs c' = open_ifs c + (if label_is_if opcode then 1 else 0)"
    "max_stack_cell_num c \<le> max_stack_cell_num c'"
proof -
  have v: "list_all is_valid_value_type (block_type_get_param_types bt)"
    by (rule block_types_valid [OF assms(2)])
  from assms(3) obtain c1 c2 where c1: "pop_block_params c (rev (block_type_get_param_types bt)) = Inr c1"
    and c2: "wasm_loader_push_frame_csp av c1 (LABEL_TYPE_BLOCK + (opcode - WASM_OP_BLOCK)) bt p = Inr c2"
    and c': "push_frame_refs av c2 (block_type_get_param_types bt) = Inr c'"
    by (auto simp: open_block_def)
  have s1: "ctx_step c c1" using c1 assms(1) v by (intro pop_block_params_step) simp_all
  then obtain ts segs where rel1: "ctx_rel c1 (ts # segs)" and bl1: "blocks_ok c1"
    by (auto simp: ctx_step_def good_ctx_def)
  note r2 = push_frame_csp_rel [OF rel1 c2]
  have good2: "good_ctx c2"
    using r2 bl1 assms(2) by (auto simp: good_ctx_def blocks_ok_def)
  have ifs2: "open_ifs c2 = open_ifs c1 + (if label_is_if opcode then 1 else 0)"
    by (simp add: open_ifs_def r2(2) label_is_if_def)
  have s2: "ctx_step c2 c'" by (rule push_frame_refs_step [OF good2 v c'])
  show "good_ctx c'" "open_ifs c' = open_ifs c + (if label_is_if opcode then 1 else 0)"
    "max_stack_cell_num c \<le> max_stack_cell_num c'"
    using s1 s2 ifs2 r2(4) by (auto simp: ctx_step_def)
qed


lemma set_else_addr_rel:
  assumes "ctx_rel c (ts # segs)"
  shows "ctx_rel (set_else_addr a c) (ts # segs)"
proof -
  from assms obtain b bs fr' where "frame_csp c = b # bs" "frame_ref c = cells_of ts @ fr'"
    "length fr' = block_stack_cell_num b" "segment_ok (is_stack_polymorphic b) ts" "stack_rel fr' bs segs"
    by (rule ctx_rel_Cons)
  with assms show ?thesis by (auto simp: set_else_addr_def ctx_rel_def)
qed

lemma else_step:
  assumes good: "good_ctx c" and hd: "label_type (hd (frame_csp c)) = LABEL_TYPE_IF"
      "else_addr (hd (frame_csp c)) = 0" and a: "a \<noteq> 0"
    and chk: "check_block_stack av c (hd (frame_csp c)) = Inr c1"
    and push: "push_frame_refs av (set_polymorphic False (reset_stack (set_else_addr a c1)))
        (block_type_get_param_types (block_type (hd (frame_csp c)))) = Inr c'"
  shows "good_ctx c'" "open_ifs c' + 1 = open_ifs c" "max_stack_cell_num c \<le> max_stack_cell_num c'"
proof -
  note s1 = check_block_stack_step [OF good chk]
  obtain ts segs where rel: "ctx_rel c (ts # segs)" and bl: "blocks_ok c"
    using good by (auto simp: good_ctx_def)
  obtain b bs where b: "frame_csp c = b # bs" using ctx_rel_hd [OF rel] by blast
  have b1: "frame_csp c1 = b # bs" using s1(2) b by (simp add: stack_only_def)
  from s1(3) obtain ts1 segs1 where rel1: "ctx_rel c1 (ts1 # segs1)" by blast
  have rel2: "ctx_rel (set_else_addr a c1) (ts1 # segs1)" by (rule set_else_addr_rel [OF rel1])
  have bl2: "blocks_ok (set_else_addr a c1)"
    using bl b b1 by (simp add: blocks_ok_def set_else_addr_def)
  have ifs: "open_ifs (set_else_addr a c1) + 1 = open_ifs c"
    using hd a b b1 by (simp add: open_ifs_def set_else_addr_def)
  have s3: "ctx_step (set_else_addr a c1) (set_polymorphic False (reset_stack (set_else_addr a c1)))"
    using rel2 bl2 by (intro mark_unreachable_step) (auto simp: good_ctx_def)
  have v: "list_all is_valid_value_type (block_type_get_param_types (block_type (hd (frame_csp c))))"
    using bl b by (intro block_types_valid) (simp add: blocks_ok_def)
  have s4: "ctx_step (set_polymorphic False (reset_stack (set_else_addr a c1))) c'"
    by (rule push_frame_refs_step [OF ctx_step_good [OF s3] v push])
  have "max_stack_cell_num c \<le> max_stack_cell_num (set_else_addr a c1)"
    using s1(1) by (simp add: set_else_addr_def ctx_step_def)
  with s3 s4 ifs show "good_ctx c'" "open_ifs c' + 1 = open_ifs c" "max_stack_cell_num c \<le> max_stack_cell_num c'"
    by (auto simp: ctx_step_def)
qed

lemma end_step:
  assumes good: "good_ctx c" and chk: "check_block_stack av c (hd (frame_csp c)) = Inr c1"
    and pop: "wasm_loader_pop_frame_csp c1 = Inr c'"
  shows "0 < csp_num c' \<longrightarrow> good_ctx c'" "open_ifs c' \<le> open_ifs c" "csp_num c' + 1 = csp_num c"
    "max_stack_cell_num c \<le> max_stack_cell_num c'" "max_stack_cell_num c' \<le> 65535"
    "max_csp_num c' \<le> 65535"
proof -
  note s1 = check_block_stack_step [OF good chk]
  obtain ts segs where rel: "ctx_rel c (ts # segs)" and bl: "blocks_ok c"
    using good by (auto simp: good_ctx_def)
  obtain b bs where b: "frame_csp c = b # bs" using ctx_rel_hd [OF rel] by blast
  have b1: "frame_csp c1 = b # bs" using s1(2) b by (simp add: stack_only_def)
  have c': "c' = c1\<lparr>frame_csp := bs, csp_num := csp_num c1 - 1\<rparr>" and pos: "0 < csp_num c1"
    using pop b1 by (auto simp: wasm_loader_pop_frame_csp_def split: if_splits)
  show "open_ifs c' \<le> open_ifs c" using b b1 by (simp add: c' open_ifs_def)
  show "max_stack_cell_num c \<le> max_stack_cell_num c'" "max_stack_cell_num c' \<le> 65535"
    "max_csp_num c' \<le> 65535"
    using s1(1,3) by (auto simp: c' ctx_step_def ctx_rel_def)
  show num: "csp_num c' + 1 = csp_num c" using s1(1) pos by (simp add: c' ctx_step_def)
  have v: "list_all is_valid_value_type (rev (block_type_get_result_types (block_type b)))"
    using bl b by (simp add: blocks_ok_def block_types_valid)
  show "0 < csp_num c' \<longrightarrow> good_ctx c'"
  proof
    assume p: "0 < csp_num c'"
    from s1(3) b obtain segs1 where rel1: "ctx_rel c1 (rev (block_type_get_result_types (block_type b)) # segs1)"
      by auto
    have "csp_num c1 = length (b # bs)" using rel1 b1 by (simp add: ctx_rel_def)
    with p c' have "bs \<noteq> []" by auto
    with rel1 b1 obtain us segs2 where "segs1 = us # segs2"
      by (cases segs1; cases bs) (auto simp: ctx_rel_def)
    with pop_frame_csp_rel [of c1 _ us segs2, OF _ v] rel1 pop
    have "\<exists>us' segs'. ctx_rel c' (us' # segs')" by auto
    moreover have "blocks_ok c'" using bl b by (simp add: c' blocks_ok_def)
    ultimately show "good_ctx c'" by (simp add: good_ctx_def)
  qed
qed

section \<open>What a case of the switch may do\<close>

text \<open>The addresses the code may have been changed at lie between the opcode and the new
  position.\<close>

definition code_step :: "u32 \<Rightarrow> u32 \<Rightarrow> LoaderState \<Rightarrow> LoaderState \<Rightarrow> bool" where
  "code_step p0 p_end s s' \<longleftrightarrow>
     ctx_step (lctx s) (lctx s') \<and> unat (lp s) \<le> unat (lp s') \<and> unat (lp s') \<le> unat p_end \<and>
     (\<forall>a. unat a < unat p0 \<or> unat (lp s') \<le> unat a \<longrightarrow> lmem s' a = lmem s a)"

definition at_code :: "u32 \<Rightarrow> u32 \<Rightarrow> LoaderState \<Rightarrow> bool" where
  "at_code p0 p_end s \<longleftrightarrow> good_ctx (lctx s) \<and> unat p0 < unat (lp s) \<and> unat (lp s) \<le> unat p_end"

lemma code_step_trans:
  "code_step p0 p_end a b \<Longrightarrow> code_step p0 p_end b c \<Longrightarrow> code_step p0 p_end a c"
  by (auto simp: code_step_def intro: ctx_step_trans)

lemma code_step_at: "at_code p0 p_end s \<Longrightarrow> code_step p0 p_end s s' \<Longrightarrow> at_code p0 p_end s'"
  by (auto simp: code_step_def at_code_def dest: ctx_step_good)

lemma code_step_refl: "at_code p0 p_end s \<Longrightarrow> code_step p0 p_end s s"
  by (simp add: code_step_def at_code_def ctx_step_refl)

lemma on_ctx_step:
  assumes "at_code p0 p_end s" "on_ctx f s = Inr s'"
    and "\<And>c'. good_ctx (lctx s) \<Longrightarrow> f (lctx s) = Inr c' \<Longrightarrow> ctx_step (lctx s) c'"
  shows "code_step p0 p_end s s'"
  using assms by (auto simp: on_ctx_def code_step_def at_code_def)


lemma POP_TYPES_step:
  assumes "at_code p0 p_end s" "list_all is_valid_value_type ts" "POP_TYPES ts s = Inr s'"
  shows "code_step p0 p_end s s'"
  using on_ctx_step [OF assms(1) assms(3) [unfolded POP_TYPES_def]] assms(2)
  by (blast intro: pop_frame_refs_step)

lemma POP_TYPE_step:
  assumes "at_code p0 p_end s" "is_valid_value_type t" "POP_TYPE t s = Inr s'"
  shows "code_step p0 p_end s s'"
  using on_ctx_step [OF assms(1) assms(3) [unfolded POP_TYPE_def]] assms(2)
  by (blast intro: pop_frame_ref_step)

lemma PUSH_TYPES_step:
  assumes "at_code p0 p_end s" "list_all is_valid_value_type ts" "PUSH_TYPES av ts s = Inr s'"
  shows "code_step p0 p_end s s'"
  using on_ctx_step [OF assms(1) assms(3) [unfolded PUSH_TYPES_def]] assms(2)
  by (blast intro: push_frame_refs_step)

lemma POPS_AND_PUSH_step:
  assumes "at_code p0 p_end s" "is_valid_value_type t" "is_valid_value_type t'"
    and "POPS_AND_PUSH av n t t' s = Inr s'"
  shows "code_step p0 p_end s s'"
  using on_ctx_step [OF assms(1) assms(4) [unfolded POPS_AND_PUSH_def]] assms(2,3)
  by (blast intro: push_pop_step)

lemma mark_unreachable_code_step:
  assumes "at_code p0 p_end s" "mark_unreachable s = Inr s'"
  shows "code_step p0 p_end s s'"
  using assms mark_unreachable_step [of "lctx s" True]
  by (auto simp: mark_unreachable_def code_step_def at_code_def)

lemma read_u32_step:
  assumes "at_code p0 p_end s" "read_u32 p_end s = Inr (v, s')"
  shows "code_step p0 p_end s s'" "lctx s' = lctx s" "lmem s' = lmem s" "unat (lp s) < unat (lp s')"
    "s' = s\<lparr>lp := lp s'\<rparr>"
proof -
  from assms(2) obtain p where p: "read_leb_uint32 (lmem s) (lp s) p_end = Inr (v, p)" "s' = s\<lparr>lp := p\<rparr>"
    by (auto simp: read_u32_def)
  from read_leb_uint32_Inr [OF p(1)] p(2) assms(1)
  show "code_step p0 p_end s s'" "lctx s' = lctx s" "lmem s' = lmem s" "unat (lp s) < unat (lp s')"
    "s' = s\<lparr>lp := lp s'\<rparr>"
    by (simp_all add: code_step_def at_code_def ctx_step_refl)
qed

lemma move_lp_step:
  assumes "at_code p0 p_end s" "unat (lp s) \<le> unat p" "unat p \<le> unat p_end"
  shows "code_step p0 p_end s (s\<lparr>lp := p\<rparr>)"
  using assms by (simp add: code_step_def at_code_def ctx_step_refl)

lemma poke_step:
  assumes "at_code p0 p_end s" "unat p0 \<le> unat a" "unat a < unat (lp s)"
  shows "code_step p0 p_end s (poke a b s)"
  using assms by (auto simp: code_step_def at_code_def ctx_step_refl poke_def)

lemma fill_nops_step:
  assumes "at_code p0 p_end s" "unat p0 \<le> unat a"
  shows "code_step p0 p_end s (fill_nops a s)"
  using assms
  by (auto simp: code_step_def at_code_def ctx_step_refl fill_nops_def word_le_nat_alt word_less_nat_alt)

definition module_ok :: "WASMModule \<Rightarrow> bool" where
  "module_ok M \<longleftrightarrow> list_all func_type_ok (m_types M) \<and> list_all func_type_ok (import_functions M) \<and>
     list_all func_type_ok (module_functions M) \<and>
     list_all (\<lambda>g. is_valid_value_type (fst g)) (import_globals M) \<and>
     list_all (\<lambda>g. is_valid_value_type (fst g)) (globals M)"

definition function_ok :: "WASMFunction \<Rightarrow> bool" where
  "function_ok F \<longleftrightarrow> func_type_ok (func_type F) \<and> list_all is_valid_value_type (local_types F)"

lemma func_types_valid:
  "func_type_ok ft \<Longrightarrow> list_all is_valid_value_type (block_type_get_param_types (Type_index ft))"
  "func_type_ok ft \<Longrightarrow> list_all is_valid_value_type (block_type_get_result_types (Type_index ft))"
  using block_types_valid [of "Type_index ft"] by simp_all

lemma call_type_step:
  assumes "at_code p0 p_end s" "func_type_ok ft" "call_type av ft s = Inr s'"
  shows "code_step p0 p_end s s'"
proof -
  from assms(3) obtain s1 where s1: "POP_TYPES (rev (block_type_get_param_types (Type_index ft))) s = Inr s1"
    and s': "PUSH_TYPES av (block_type_get_result_types (Type_index ft)) s1 = Inr s'"
    unfolding call_type_def by (auto simp del: block_type_get_param_types.simps block_type_get_result_types.simps)
  have 1: "code_step p0 p_end s s1"
    using func_types_valid(1) [OF assms(2)]
    by (intro POP_TYPES_step [OF assms(1) _ s1]) (simp del: block_type_get_param_types.simps)
  have "code_step p0 p_end s1 s'"
    by (rule PUSH_TYPES_step [OF code_step_at [OF assms(1) 1] func_types_valid(2) [OF assms(2)] s'])
  with 1 show ?thesis by (rule code_step_trans)
qed

lemma op_call_step:
  assumes at: "at_code p0 p_end s" and M: "module_ok M" and op: "op_call av M p_end s = Inr s'"
  shows "code_step p0 p_end s s'"
proof -
  from op obtain i s1 where r: "read_u32 p_end s = Inr (i, s1)" and i: "check_function_index M i"
    and c: "call_type av (if unat i < length (import_functions M) then import_functions M ! unat i
      else module_functions M ! (unat i - length (import_functions M))) s1 = Inr s'"
    by (auto simp: op_call_def Let_def split: if_splits)
  have 1: "code_step p0 p_end s s1" by (rule read_u32_step [OF at r])
  have "func_type_ok (if unat i < length (import_functions M) then import_functions M ! unat i
      else module_functions M ! (unat i - length (import_functions M)))"
    using M i by (cases "unat i < length (import_functions M)")
      (simp_all add: module_ok_def check_function_index_def list_all_length)
  from call_type_step [OF code_step_at [OF at 1] this c] 1 show ?thesis by (blast intro: code_step_trans)
qed

lemma check_buf_move:
  assumes "at_code p0 p_end s" "check_buf (lp s) p_end n"
  shows "code_step p0 p_end s (s\<lparr>lp := lp s + n\<rparr>)"
  using assms check_buf_unat [OF assms(2)]
  by (intro move_lp_step) (auto simp: check_buf_iff)

lemma op_call_indirect_step:
  assumes at: "at_code p0 p_end s" and M: "module_ok M"
    and op: "op_call_indirect av M p_end s = Inr s'"
  shows "code_step p0 p_end s s'"
proof -
  from op obtain i s1 s2 where r: "read_u32 p_end s = Inr (i, s1)"
    and b: "check_buf (lp s1) p_end 1" and p: "POP_TYPE VALUE_TYPE_I32 (s1\<lparr>lp := lp s1 + 1\<rparr>) = Inr s2"
    and i: "unat i < length (m_types M)" and c: "call_type av (m_types M ! unat i) s2 = Inr s'"
    by (auto simp: op_call_indirect_def split: if_splits)
  have 1: "code_step p0 p_end s s1" by (rule read_u32_step [OF at r])
  note at1 = code_step_at [OF at 1]
  have 2: "code_step p0 p_end s1 (s1\<lparr>lp := lp s1 + 1\<rparr>)" by (rule check_buf_move [OF at1 b])
  note at2 = code_step_at [OF at1 2]
  have 3: "code_step p0 p_end (s1\<lparr>lp := lp s1 + 1\<rparr>) s2"
    by (rule POP_TYPE_step [OF at2 _ p]) (simp add: valid_type_iff)
  have "func_type_ok (m_types M ! unat i)"
    using M i by (simp add: module_ok_def list_all_length)
  from call_type_step [OF code_step_at [OF at2 3] this c] 1 2 3 show ?thesis
    by (blast intro: code_step_trans)
qed


lemma op_return_step:
  assumes at: "at_code p0 p_end s" and F: "function_ok F" and op: "op_return F s = Inr s'"
  shows "code_step p0 p_end s s'"
proof -
  from op obtain s1 where s1: "POP_TYPES (rev (block_type_get_result_types (Type_index (func_type F)))) s = Inr s1"
    and m: "mark_unreachable s1 = Inr s'"
    unfolding op_return_def by (auto simp del: block_type_get_result_types.simps)
  have 1: "code_step p0 p_end s s1"
    using func_types_valid(2) F
    by (intro POP_TYPES_step [OF at _ s1]) (simp add: function_ok_def del: block_type_get_result_types.simps)
  from mark_unreachable_code_step [OF code_step_at [OF at 1] m] 1 show ?thesis
    by (blast intro: code_step_trans)
qed

lemma check_branch_block_step:
  assumes at: "at_code p0 p_end s" and op: "check_branch_block av p_end opcode s = Inr s'"
  shows "code_step p0 p_end s s'" "lmem s' = lmem s" "unat (lp s) < unat (lp s')"
proof -
  from op obtain d s1 where r: "read_u32 p_end s = Inr (d, s1)"
    and c: "on_ctx (\<lambda>ctx. wasm_loader_check_br av ctx d opcode) s1 = Inr s'"
    by (auto simp: check_branch_block_def)
  note r' = read_u32_step [OF at r]
  have "code_step p0 p_end s1 s'"
    by (rule on_ctx_step [OF code_step_at [OF at r'(1)] c]) (rule check_br_step)
  with r'(1) show "code_step p0 p_end s s'" by (rule code_step_trans)
  show "lmem s' = lmem s" "unat (lp s) < unat (lp s')"
    using c r' by (auto simp: on_ctx_def)
qed

lemma op_br_step:
  assumes at: "at_code p0 p_end s" and op: "op_br av p_end opcode s = Inr s'"
  shows "code_step p0 p_end s s'"
proof -
  from op obtain s1 where c: "check_branch_block av p_end opcode s = Inr s1" and m: "mark_unreachable s1 = Inr s'"
    by (auto simp: op_br_def)
  note 1 = check_branch_block_step(1) [OF at c]
  from 1 mark_unreachable_code_step [OF code_step_at [OF at 1] m] show ?thesis
    by (rule code_step_trans)
qed

lemma op_br_if_step:
  assumes at: "at_code p0 p_end s" and op: "op_br_if av p_end opcode s = Inr s'"
  shows "code_step p0 p_end s s'"
proof -
  from op obtain s1 where p: "POP_TYPE VALUE_TYPE_I32 s = Inr s1" and c: "check_branch_block av p_end opcode s1 = Inr s'"
    by (auto simp: op_br_if_def)
  have 1: "code_step p0 p_end s s1" by (rule POP_TYPE_step [OF at _ p]) (simp add: valid_type_iff)
  from 1 check_branch_block_step(1) [OF code_step_at [OF at 1] c] show ?thesis
    by (rule code_step_trans)
qed

text \<open>The depths of a branch table are written behind the position they are read at.\<close>

lemma store_depth_step:
  assumes at: "at_code p0 p_end s" and po: "unat p0 \<le> unat p_opcode" "unat p_opcode < unat (lp s)"
    and pd: "unat p0 \<le> unat p_depth" "unat p_depth < unat (lp s)"
    and op: "store_depth av count p_opcode p_begin depth (p_depth, cache, s) = Inr (p_depth', cache', s')"
  shows "code_step p0 p_end s s'" "lp s' = lp s" "unat p_depth \<le> unat p_depth'"
    "unat p_depth' \<le> unat (lp s)"
proof -
  have suc: "unat (p_depth + 1) = unat p_depth + 1"
    using unat_add_small [of p_depth 1] pd(2) unat_u32_less [of "lp s"] by simp
  have "code_step p0 p_end s s' \<and> lp s' = lp s \<and> unat p_depth \<le> unat p_depth' \<and> unat p_depth' \<le> unat (lp s)"
    using op poke_step [OF at po, of EXT_OP_BR_TABLE_CACHE] poke_step [OF at pd, of "ucast depth"] code_step_refl [OF at] pd suc
    by (auto simp: store_depth_def Let_def poke_def split: option.splits if_splits)
  then show "code_step p0 p_end s s'" "lp s' = lp s" "unat p_depth \<le> unat p_depth'"
    "unat p_depth' \<le> unat (lp s)" by blast+
qed

lemma br_table_targets_step:
  assumes "at_code p0 p_end s" "unat p0 \<le> unat p_opcode" "unat p_opcode < unat (lp s)"
    and "unat p0 \<le> unat p_depth" "unat p_depth \<le> unat (lp s)"
    and "br_table_targets av p_end count ar p_opcode p_begin n (p_depth, cache, s) = Inr (p_depth', cache', s')"
  shows "code_step p0 p_end s s' \<and> unat p0 \<le> unat p_depth'"
  using assms
proof (induction n arbitrary: p_depth cache s)
  case 0
  then show ?case by (simp add: code_step_refl)
next
  case (Suc n)
  from Suc.prems(6) obtain depth x s1 pd1 c1 s2 where
    c: "check_branch_block av p_end WASM_OP_BR_TABLE s = Inr s1"
    and st: "store_depth av count p_opcode p_begin depth (p_depth, cache, s1) = Inr (pd1, c1, s2)"
    and rest: "br_table_targets av p_end count ar p_opcode p_begin n (pd1, c1, s2) = Inr (p_depth', cache', s')"
    by (auto split: if_splits)
  note b = check_branch_block_step [OF Suc.prems(1) c]
  note at1 = code_step_at [OF Suc.prems(1) b(1)]
  have po1: "unat p_opcode < unat (lp s1)" and pd1: "unat p_depth < unat (lp s1)"
    using b(3) Suc.prems by simp_all
  note s2 = store_depth_step [OF at1 Suc.prems(2) po1 Suc.prems(4) pd1 st]
  note at2 = code_step_at [OF at1 s2(1)]
  have "code_step p0 p_end s2 s' \<and> unat p0 \<le> unat p_depth'"
    using s2 po1 Suc.prems(2,4) by (intro Suc.IH [OF at2 _ _ _ _ rest]) simp_all
  with b(1) s2(1) show ?case by (blast intro: code_step_trans)
qed

lemma op_br_table_step:
  assumes at: "at_code p0 p_end s" and lp: "lp s = p0 + 1" and op: "op_br_table av p_end s = Inr s'"
  shows "code_step p0 p_end s s'"
proof -
  have p0: "lp s - 1 = p0" using lp by simp
  from op obtain count s1 s2 depth pd cache s3 where r: "read_u32 p_end s = Inr (count, s1)"
    and p: "POP_TYPE VALUE_TYPE_I32 s1 = Inr s2"
    and t: "br_table_targets av p_end count (target_arity (lctx s2) depth) p0 (lp s2)
        (Suc (unat count)) (lp s2, None, s2) = Inr (pd, cache, s3)"
    and m: "(case cache of
          Some ds \<Rightarrow> mark_unreachable ((fill_nops (lp s2) s3)\<lparr>br_table_caches := (p0, ds) # br_table_caches s3\<rparr>)
        | None \<Rightarrow> mark_unreachable (fill_nops pd s3)) = Inr s'"
    by (auto simp: op_br_table_def Let_def p0 simp del: br_table_scan.simps br_table_targets.simps)
  note r' = read_u32_step [OF at r]
  note at1 = code_step_at [OF at r'(1)]
  have 2: "code_step p0 p_end s1 s2" by (rule POP_TYPE_step [OF at1 _ p]) (simp add: valid_type_iff)
  note at2 = code_step_at [OF at1 2]
  have p02: "unat p0 < unat (lp s2)" using at2 by (simp add: at_code_def)
  have 3: "code_step p0 p_end s2 s3" "unat p0 \<le> unat pd"
    using br_table_targets_step [OF at2 _ p02 _ _ t] p02 by auto
  note at3 = code_step_at [OF at2 3(1)]
  have "code_step p0 p_end s3 s'"
  proof (cases cache)
    case None
    note 4 = fill_nops_step [OF at3 3(2)]
    have "mark_unreachable (fill_nops pd s3) = Inr s'" using m None by simp
    from mark_unreachable_code_step [OF code_step_at [OF at3 4] this] 4 show ?thesis
      by (blast intro: code_step_trans)
  next
    case (Some ds)
    have 4: "code_step p0 p_end s3 (fill_nops (lp s2) s3)"
      using p02 by (intro fill_nops_step [OF at3]) simp
    have "mark_unreachable (fill_nops (lp s2) s3) = Inr (s'\<lparr>br_table_caches := br_table_caches s3\<rparr>)"
      using m Some by (auto simp: mark_unreachable_def fill_nops_def)
    from mark_unreachable_code_step [OF code_step_at [OF at3 4] this] 4 show ?thesis
      by (auto simp: code_step_def intro: ctx_step_trans)
  qed
  with r'(1) 2 3(1) show ?thesis by (blast intro: code_step_trans)
qed

lemma cell_num_32: "is_32bit_type t \<Longrightarrow> wasm_value_type_cell_num t = 1"
  by (auto simp: is_32bit_type_def)

lemma cell_num_64: "is_64bit_type t \<Longrightarrow> wasm_value_type_cell_num t = 2"
  by (auto simp: is_64bit_type_def)

lemma lp_pred:
  assumes "at_code p0 p_end s"
  shows "unat (lp s - 1) = unat (lp s) - 1" "unat p0 \<le> unat (lp s - 1)" "unat (lp s - 1) < unat (lp s)"
proof -
  have pos: "0 < unat (lp s)" using assms by (simp add: at_code_def)
  then show u: "unat (lp s - 1) = unat (lp s) - 1"
    using unat_sub_range [of 1 "lp s"] by simp
  show "unat p0 \<le> unat (lp s - 1)" "unat (lp s - 1) < unat (lp s)"
    using assms pos unfolding u by (auto simp: at_code_def)
qed

lemma op_drop_step:
  assumes at: "at_code p0 p_end s" and op: "op_drop s = Inr s'"
  shows "code_step p0 p_end s s'"
proof (cases "0 < available_cells (lctx s) (hd (frame_csp (lctx s)))")
  case False
  with op have "s' = s" by (auto simp: op_drop_def Let_def split: if_splits)
  then show ?thesis using code_step_refl [OF at] by simp
next
  case True
  have d: "ctx_step (lctx s) (drop_cells (wasm_value_type_cell_num (hd (frame_ref (lctx s)))) (lctx s))"
    using at True by (intro drop_cells_step) (simp_all add: at_code_def)
  let ?s1 = "s\<lparr>lctx := drop_cells (wasm_value_type_cell_num (hd (frame_ref (lctx s)))) (lctx s)\<rparr>"
  have 1: "code_step p0 p_end s ?s1" using d at by (simp add: code_step_def at_code_def)
  note at1 = code_step_at [OF at 1]
  from op True have "s' = ?s1 \<or> s' = poke (lp s - 1) WASM_OP_DROP_64 ?s1"
    by (auto simp: op_drop_def Let_def cell_num_32 cell_num_64 split: if_splits)
  with 1 poke_step [OF at1, of "lp s - 1" WASM_OP_DROP_64] lp_pred [OF at] show ?thesis
    by (auto intro: code_step_trans)
qed

lemma op_select_step:
  assumes at: "at_code p0 p_end s" and op: "op_select av s = Inr s'"
  shows "code_step p0 p_end s s'"
proof -
  from op obtain s1 where p: "POP_TYPE VALUE_TYPE_I32 s = Inr s1" by (auto simp: op_select_def)
  have 1: "code_step p0 p_end s s1" by (rule POP_TYPE_step [OF at _ p]) (simp add: valid_type_iff)
  note at1 = code_step_at [OF at 1]
  let ?c = "lctx s1" let ?t = "hd (frame_ref (lctx s1))"
  have good1: "good_ctx ?c" using at1 by (simp add: at_code_def)
  have "code_step p0 p_end s1 s'"
  proof (cases "0 < available_cells ?c (hd (frame_csp ?c))")
    case True
    obtain s2 where s2: "s2 = s1 \<or> s2 = poke (lp s1 - 1) WASM_OP_SELECT_64 s1"
      and pp: "POPS_AND_PUSH av 2 ?t ?t s2 = Inr s'"
      using op p True by (auto simp: op_select_def Let_def split: if_splits)
    have 2: "code_step p0 p_end s1 s2"
      using s2 code_step_refl [OF at1] poke_step [OF at1] lp_pred [OF at1] by auto
    note at2 = code_step_at [OF at1 2]
    have c2: "lctx s2 = ?c" using s2 by (auto simp: poke_def)
    have "code_step p0 p_end s2 s'"
    proof (cases "?t = VALUE_TYPE_ANY")
      case False
      then have v: "is_valid_value_type ?t" using top_cell_type [OF good1 True] by simp
      show ?thesis by (rule POPS_AND_PUSH_step [OF at2 v v pp])
    next
      case any: True
      show ?thesis
      proof (rule on_ctx_step [OF at2 pp [unfolded POPS_AND_PUSH_def]])
        fix c' assume "wasm_loader_push_pop_frame_ref av (lctx s2) 2 ?t ?t = Inr c'"
        then show "ctx_step (lctx s2) c'"
          using select_any_step [OF good1 True any, of av c'] any c2 by simp
      qed
    qed
    with 2 show ?thesis by (rule code_step_trans)
  next
    case False
    with op p have poly: "is_stack_polymorphic (hd (frame_csp ?c))"
      and push: "PUSH_TYPES av [VALUE_TYPE_ANY] s1 = Inr s'"
      by (auto simp: op_select_def Let_def split: if_splits)
    from good1 obtain ts segs where rel: "ctx_rel ?c (ts # segs)" and bl: "blocks_ok ?c"
      by (auto simp: good_ctx_def)
    from rel False have ts: "ts = []"
      by (auto elim!: ctx_rel_Cons dest!: cells_length_0)
    show ?thesis
    proof (rule on_ctx_step [OF at1 push [unfolded PUSH_TYPES_def]])
      fix c' assume "push_frame_refs av ?c [VALUE_TYPE_ANY] = Inr c'"
      then show "ctx_step ?c c'"
        using push_any_step [of ?c segs av c'] rel bl poly by (simp add: ts poly_of_def)
    qed
  qed
  with 1 show ?thesis by (rule code_step_trans)
qed

lemma get_local_step:
  assumes at: "at_code p0 p_end s" and F: "function_ok F" and op: "get_local F p_end s = Inr (t, off, s')"
  shows "code_step p0 p_end s s'" "is_valid_value_type t" "unat (lp s) < unat (lp s')"
proof -
  from op obtain i where r: "read_u32 p_end s = Inr (i, s')"
    and i: "unat i < param_count (func_type F) + length (local_types F)"
    and t: "t = (if unat i < param_count (func_type F) then types (func_type F) ! unat i
      else local_types F ! (unat i - param_count (func_type F)))"
    by (auto simp: get_local_def Let_def split: if_splits)
  show "code_step p0 p_end s s'" "unat (lp s) < unat (lp s')" using read_u32_step [OF at r] by simp_all
  show "is_valid_value_type t"
    using F i t by (auto simp: function_ok_def func_type_ok_def list_all_length)
qed

lemma rewrite_local_step:
  assumes at: "at_code p0 p_end s" and two: "unat p0 + 2 \<le> unat (lp s)"
  shows "code_step p0 p_end s (rewrite_local op t off p0 s)"
proof -
  have u: "unat (p0 + 1) = unat p0 + 1" "unat (p0 + 2) = unat p0 + 2"
    using unat_add_small [of p0 1] unat_add_small [of p0 2] two unat_u32_less [of "lp s"] by simp_all
  let ?b = "if is_32bit_type t then ucast off else ucast (off OR 0x80) :: u8"
  have 1: "code_step p0 p_end s (poke p0 op s)" using two by (intro poke_step [OF at]) simp_all
  note at1 = code_step_at [OF at 1]
  have lp1: "lp (poke p0 op s) = lp s" "lp (poke (p0 + 1) ?b (poke p0 op s)) = lp s"
    by (simp_all add: poke_def)
  have 2: "code_step p0 p_end (poke p0 op s) (poke (p0 + 1) ?b (poke p0 op s))"
    using two u lp1 by (intro poke_step [OF at1]) simp_all
  note at2 = code_step_at [OF at1 2]
  have "code_step p0 p_end (poke (p0 + 1) ?b (poke p0 op s)) (fill_nops (p0 + 2) (poke (p0 + 1) ?b (poke p0 op s)))"
    using u by (intro fill_nops_step [OF at2]) simp
  with 1 2 code_step_refl [OF at] show ?thesis
    unfolding rewrite_local_def by (auto intro: code_step_trans)
qed


lemma op_get_local_step:
  assumes at: "at_code p0 p_end s" and lp: "lp s = p0 + 1" and F: "function_ok F"
    and op: "op_get_local av F p_end s = Inr s'"
  shows "code_step p0 p_end s s'"
proof -
  have p0: "lp s - 1 = p0" using lp by simp
  from op obtain t off s1 s2 where g: "get_local F p_end s = Inr (t, off, s1)"
    and p: "PUSH_TYPES av [t] s1 = Inr s2" and s': "s' = rewrite_local EXT_OP_GET_LOCAL_FAST t off p0 s2"
    by (auto simp: op_get_local_def Let_def p0)
  note g' = get_local_step [OF at F g]
  note at1 = code_step_at [OF at g'(1)]
  have 2: "code_step p0 p_end s1 s2" by (rule PUSH_TYPES_step [OF at1 _ p]) (simp add: g'(2))
  note at2 = code_step_at [OF at1 2]
  have "unat p0 + 2 \<le> unat (lp s2)" using at g'(3) 2 by (simp add: at_code_def code_step_def)
  from rewrite_local_step [OF at2 this] have "code_step p0 p_end s2 s'" unfolding s' .
  with g'(1) 2 show ?thesis by (blast intro: code_step_trans)
qed

lemma op_set_local_step:
  assumes at: "at_code p0 p_end s" and lp: "lp s = p0 + 1" and F: "function_ok F"
    and op: "op_set_local F p_end s = Inr s'"
  shows "code_step p0 p_end s s'"
proof -
  have p0: "lp s - 1 = p0" using lp by simp
  from op obtain t off s1 where g: "get_local F p_end s = Inr (t, off, s1)"
    and p: "POP_TYPE t (rewrite_local EXT_OP_SET_LOCAL_FAST t off p0 s1) = Inr s'"
    by (auto simp: op_set_local_def Let_def p0)
  note g' = get_local_step [OF at F g]
  note at1 = code_step_at [OF at g'(1)]
  have "unat p0 + 2 \<le> unat (lp s1)" using at g'(3) by (simp add: at_code_def)
  note 2 = rewrite_local_step [OF at1 this, of EXT_OP_SET_LOCAL_FAST t off]
  from POP_TYPE_step [OF code_step_at [OF at1 2] g'(2) p] g'(1) 2 show ?thesis
    by (blast intro: code_step_trans)
qed

lemma op_tee_local_step:
  assumes at: "at_code p0 p_end s" and lp: "lp s = p0 + 1" and F: "function_ok F"
    and op: "op_tee_local av F p_end s = Inr s'"
  shows "code_step p0 p_end s s'"
proof -
  have p0: "lp s - 1 = p0" using lp by simp
  from op obtain t off s1 s2 s3 where g: "get_local F p_end s = Inr (t, off, s1)"
    and p: "POP_TYPE t s1 = Inr s2" and q: "PUSH_TYPES av [t] s2 = Inr s3"
    and s': "s' = rewrite_local EXT_OP_TEE_LOCAL_FAST t off p0 s3"
    by (auto simp: op_tee_local_def Let_def p0)
  note g' = get_local_step [OF at F g]
  note at1 = code_step_at [OF at g'(1)]
  note 2 = POP_TYPE_step [OF at1 g'(2) p]
  note at2 = code_step_at [OF at1 2]
  have 3: "code_step p0 p_end s2 s3" by (rule PUSH_TYPES_step [OF at2 _ q]) (simp add: g'(2))
  note at3 = code_step_at [OF at2 3]
  have "unat p0 + 2 \<le> unat (lp s3)" using at g'(3) 2 3 by (simp add: at_code_def code_step_def)
  from rewrite_local_step [OF at3 this] have "code_step p0 p_end s3 s'" unfolding s' .
  with g'(1) 2 3 show ?thesis by (blast intro: code_step_trans)
qed

lemma get_global_step:
  assumes at: "at_code p0 p_end s" and M: "module_ok M" and op: "get_global M p_end s = Inr (i, t, mut, s')"
  shows "code_step p0 p_end s s'" "is_valid_value_type t"
proof -
  from op obtain k where r: "read_u32 p_end s = Inr (k, s')"
    and i: "unat k < length (import_globals M) + length (globals M)"
    and t: "t = fst (if unat k < length (import_globals M) then import_globals M ! unat k
      else globals M ! (unat k - length (import_globals M)))"
    by (auto simp: get_global_def Let_def split: if_splits)
  show "code_step p0 p_end s s'" by (rule read_u32_step [OF at r])
  show "is_valid_value_type t"
    using M i t by (auto simp: module_ok_def list_all_length)
qed

lemma op_get_global_step:
  assumes at: "at_code p0 p_end s" and lp: "lp s = p0 + 1" and M: "module_ok M"
    and op: "op_get_global av M p_end s = Inr s'"
  shows "code_step p0 p_end s s'"
proof -
  have p0: "lp s - 1 = p0" using lp by simp
  from op obtain i t mut s1 s2 where g: "get_global M p_end s = Inr (i, t, mut, s1)"
    and p: "PUSH_TYPES av [t] s1 = Inr s2" and s': "s' = s2 \<or> s' = poke p0 WASM_OP_GET_GLOBAL_64 s2"
    by (auto simp: op_get_global_def Let_def p0 split: if_splits)
  note g' = get_global_step [OF at M g]
  note at1 = code_step_at [OF at g'(1)]
  have 2: "code_step p0 p_end s1 s2" by (rule PUSH_TYPES_step [OF at1 _ p]) (simp add: g'(2))
  note at2 = code_step_at [OF at1 2]
  have "code_step p0 p_end s2 s'"
    using s' code_step_refl [OF at2] poke_step [OF at2, of p0] at2 by (auto simp: at_code_def)
  with g'(1) 2 show ?thesis by (blast intro: code_step_trans)
qed

lemma op_set_global_step:
  assumes at: "at_code p0 p_end s" and lp: "lp s = p0 + 1" and M: "module_ok M"
    and op: "op_set_global M p_end s = Inr s'"
  shows "code_step p0 p_end s s'"
proof -
  have p0: "lp s - 1 = p0" using lp by simp
  from op obtain i t mut s1 s2 where g: "get_global M p_end s = Inr (i, t, mut, s1)"
    and s2: "s2 = s1 \<or> (\<exists>b. s2 = poke p0 b s1)" and p: "POP_TYPE t s2 = Inr s'"
    by (auto simp: op_set_global_def Let_def p0 split: if_splits)
  note g' = get_global_step [OF at M g]
  note at1 = code_step_at [OF at g'(1)]
  have 2: "code_step p0 p_end s1 s2"
    using s2 code_step_refl [OF at1] poke_step [OF at1, of p0] at1 by (auto simp: at_code_def)
  from POP_TYPE_step [OF code_step_at [OF at1 2] g'(2) p] g'(1) 2 show ?thesis
    by (blast intro: code_step_trans)
qed

lemma base_types_valid [simp]:
  "is_valid_value_type VALUE_TYPE_I32" "is_valid_value_type VALUE_TYPE_I64"
  "is_valid_value_type VALUE_TYPE_F32" "is_valid_value_type VALUE_TYPE_F64"
  by (simp_all add: valid_type_iff)

lemma load_type_valid: "load_type op = Some t \<Longrightarrow> is_valid_value_type t"
  by (auto simp: load_type_def split: if_splits)

lemma store_type_valid: "store_type op = Some t \<Longrightarrow> is_valid_value_type t"
  by (auto simp: store_type_def split: if_splits)

text \<open>Chaining two parts of a case.\<close>

lemma code_step_bind:
  assumes "at_code p0 p_end s" "code_step p0 p_end s s1"
    and "at_code p0 p_end s1 \<Longrightarrow> code_step p0 p_end s1 s'"
  shows "code_step p0 p_end s s'"
  using assms by (blast intro: code_step_trans code_step_at)

lemma op_load_store_step:
  assumes at: "at_code p0 p_end s" and op: "op_load_store av M p_end opcode s = Inr s'"
  shows "code_step p0 p_end s s'"
proof -
  from op obtain a o1 s1 s2 where r1: "read_u32 p_end s = Inr (a, s1)" and r2: "read_u32 p_end s1 = Inr (o1, s2)"
    and c: "(case load_type opcode of
         Some t \<Rightarrow> POPS_AND_PUSH av 1 VALUE_TYPE_I32 t s2
       | None \<Rightarrow> (case store_type opcode of
             Some t \<Rightarrow> bindE (POP_TYPE t s2) (POP_TYPE VALUE_TYPE_I32)
           | None \<Rightarrow> Inr s2)) = Inr s'"
    by (auto simp: op_load_store_def)
  show ?thesis
  proof (rule code_step_bind [OF at read_u32_step(1) [OF at r1]])
    assume at1: "at_code p0 p_end s1"
    show "code_step p0 p_end s1 s'"
    proof (rule code_step_bind [OF at1 read_u32_step(1) [OF at1 r2]])
      assume at2: "at_code p0 p_end s2"
      show "code_step p0 p_end s2 s'"
      proof (cases "load_type opcode")
        case (Some t)
        then have "POPS_AND_PUSH av 1 VALUE_TYPE_I32 t s2 = Inr s'" using c by simp
        then show ?thesis
          by (rule POPS_AND_PUSH_step [OF at2 base_types_valid(1) load_type_valid [OF Some]])
      next
        case none: None
        show ?thesis
        proof (cases "store_type opcode")
          case None
          with none c code_step_refl [OF at2] show ?thesis by simp
        next
          case (Some t)
          with none c obtain s3 where s3: "POP_TYPE t s2 = Inr s3" "POP_TYPE VALUE_TYPE_I32 s3 = Inr s'"
            by auto
          note 3 = POP_TYPE_step [OF at2 store_type_valid [OF Some] s3(1)]
          show ?thesis
            by (rule code_step_bind [OF at2 3]) (rule POP_TYPE_step [OF _ _ s3(2)], simp_all)
        qed
      qed
    qed
  qed
qed

lemma set_grow_step: "code_step p0 p_end s (s1\<lparr>possible_memory_grow := b\<rparr>) = code_step p0 p_end s s1"
  by (simp add: code_step_def)

lemma op_memory_size_step:
  assumes at: "at_code p0 p_end s" and op: "op_memory_size av M p_end s = Inr s'"
  shows "code_step p0 p_end s s'"
proof -
  from op obtain i s1 s2 where r: "read_u32 p_end s = Inr (i, s1)"
    and p: "PUSH_TYPES av [VALUE_TYPE_I32] s1 = Inr s2" and s': "s' = s2\<lparr>possible_memory_grow := True\<rparr>"
    by (auto simp: op_memory_size_def)
  show ?thesis unfolding s' set_grow_step
    by (rule code_step_bind [OF at read_u32_step(1) [OF at r]])
      (rule PUSH_TYPES_step [OF _ _ p], simp_all)
qed

lemma op_memory_grow_step:
  assumes at: "at_code p0 p_end s" and op: "op_memory_grow av M p_end s = Inr s'"
  shows "code_step p0 p_end s s'"
proof -
  from op obtain i s1 s2 where r: "read_u32 p_end s = Inr (i, s1)"
    and p: "POPS_AND_PUSH av 1 VALUE_TYPE_I32 VALUE_TYPE_I32 s1 = Inr s2"
    and s': "s' = s2\<lparr>possible_memory_grow := True\<rparr>"
    by (auto simp: op_memory_grow_def)
  show ?thesis unfolding s' set_grow_step
    by (rule code_step_bind [OF at read_u32_step(1) [OF at r]])
      (rule POPS_AND_PUSH_step [OF _ _ _ p], simp_all)
qed

lemma op_const_step:
  assumes at: "at_code p0 p_end s" and op: "op_const av p_end opcode s = Inr s'"
  shows "code_step p0 p_end s s'"
proof -
  have "\<exists>t p. is_valid_value_type t \<and> PUSH_TYPES av [t] (s\<lparr>lp := p\<rparr>) = Inr s' \<and>
      unat (lp s) \<le> unat p \<and> unat p \<le> unat p_end"
  proof -
    consider (i32) "opcode = 0x41" | (i64) "opcode = 0x42" | (f32) "opcode = 0x43"
      | (f64) "opcode \<noteq> 0x41" "opcode \<noteq> 0x42" "opcode \<noteq> 0x43"
      by blast
    then show ?thesis
    proof cases
      case i32
      with op obtain v p where r: "read_leb_int32 (lmem s) (lp s) p_end = Inr (v, p)"
        "PUSH_TYPES av [VALUE_TYPE_I32] (s\<lparr>lp := p\<rparr>) = Inr s'" by (auto simp: op_const_def)
      with read_leb_int32_Inr [OF r(1)] show ?thesis by (metis base_types_valid(1) less_imp_le)
    next
      case i64
      with op obtain v p where r: "read_leb_int64 (lmem s) (lp s) p_end = Inr (v, p)"
        "PUSH_TYPES av [VALUE_TYPE_I64] (s\<lparr>lp := p\<rparr>) = Inr s'" by (auto simp: op_const_def)
      with read_leb_int64_Inr [OF r(1)] show ?thesis by (metis base_types_valid(2) less_imp_le)
    next
      case f32
      with op have b: "check_buf (lp s) p_end 4"
        and push: "PUSH_TYPES av [VALUE_TYPE_F32] (s\<lparr>lp := lp s + 4\<rparr>) = Inr s'"
        by (auto simp: op_const_def split: if_splits)
      with check_buf_unat [OF b] show ?thesis
        by (intro exI [of _ VALUE_TYPE_F32] exI [of _ "lp s + 4"]) (simp add: check_buf_iff)
    next
      case f64
      with op have b: "check_buf (lp s) p_end 8"
        and push: "PUSH_TYPES av [VALUE_TYPE_F64] (s\<lparr>lp := lp s + 8\<rparr>) = Inr s'"
        by (auto simp: op_const_def split: if_splits)
      with check_buf_unat [OF b] show ?thesis
        by (intro exI [of _ VALUE_TYPE_F64] exI [of _ "lp s + 8"]) (simp add: check_buf_iff)
    qed
  qed
  then obtain t p where t: "is_valid_value_type t" and push: "PUSH_TYPES av [t] (s\<lparr>lp := p\<rparr>) = Inr s'"
    and p: "unat (lp s) \<le> unat p" "unat p \<le> unat p_end" by blast
  show ?thesis
    by (rule code_step_bind [OF at move_lp_step [OF at p]])
      (rule PUSH_TYPES_step [OF _ _ push], simp_all add: t)
qed

lemma numeric_sig_valid:
  "numeric_sig op = Some (n, t, t') \<Longrightarrow> is_valid_value_type t \<and> is_valid_value_type t'"
  by (auto simp: numeric_sig_def Let_def split: if_splits)

lemma misc_trunc_sig_valid:
  "misc_trunc_sig op = Some (t, t') \<Longrightarrow> is_valid_value_type t \<and> is_valid_value_type t'"
  by (auto simp: misc_trunc_sig_def split: if_splits)

lemma atomic_sig_valid:
  "atomic_sig op = Some (ps, qs) \<Longrightarrow> list_all is_valid_value_type ps \<and> list_all is_valid_value_type qs"
  by (auto simp: atomic_sig_def Let_def split: if_splits)


lemma op_misc_step:
  assumes at: "at_code p0 p_end s" and op: "op_misc av M p_end s = Inr s'"
  shows "code_step p0 p_end s s'"
proof -
  from op obtain o1 s1 where r: "read_u32 p_end s = Inr (o1, s1)" by (auto simp: op_misc_def)
  show ?thesis
  proof (rule code_step_bind [OF at read_u32_step(1) [OF at r]])
    assume at1: "at_code p0 p_end s1"
    have pops: "code_step p0 p_end s1 s'"
      if "code_step p0 p_end s1 s2" "POP_TYPES [VALUE_TYPE_I32, VALUE_TYPE_I32, VALUE_TYPE_I32] s2 = Inr s'"
      for s2
      by (rule code_step_bind [OF at1 that(1)]) (rule POP_TYPES_step [OF _ _ that(2)], simp_all)
    have read2: "code_step p0 p_end s1 s3"
      if "read_u32 p_end s1 = Inr (a, s2)" "read_u32 p_end s2 = Inr (b, s3)" for a b s2 s3
      by (rule code_step_bind [OF at1 read_u32_step(1) [OF at1 that(1)]]) (rule read_u32_step(1) [OF _ that(2)])
    show "code_step p0 p_end s1 s'"
    proof (cases "misc_trunc_sig o1")
      case (Some a)
      then obtain t t' where tt: "misc_trunc_sig o1 = Some (t, t')" by (cases a) auto
      with op r have "POPS_AND_PUSH av 1 t t' s1 = Inr s'" by (simp add: op_misc_def)
      with misc_trunc_sig_valid [OF tt] show ?thesis by (blast intro: POPS_AND_PUSH_step [OF at1])
    next
      case None
      with op r have "(\<exists>a b s2 s3. read_u32 p_end s1 = Inr (a, s2) \<and> read_u32 p_end s2 = Inr (b, s3) \<and>
            POP_TYPES [VALUE_TYPE_I32, VALUE_TYPE_I32, VALUE_TYPE_I32] s3 = Inr s') \<or>
          (\<exists>a. read_u32 p_end s1 = Inr (a, s')) \<or>
          (\<exists>a s2. read_u32 p_end s1 = Inr (a, s2) \<and>
            POP_TYPES [VALUE_TYPE_I32, VALUE_TYPE_I32, VALUE_TYPE_I32] s2 = Inr s')"
        by (fastforce simp: op_misc_def split: if_splits)
      then show ?thesis
        using pops read2 read_u32_step(1) [OF at1] by blast
    qed
  qed
qed

lemma POPS_then_PUSH:
  assumes at: "at_code p0 p_end s" and op: "bindE (POP_TYPES ps s) (PUSH_TYPES av qs) = Inr s'"
    and "list_all is_valid_value_type ps" "list_all is_valid_value_type qs"
  shows "code_step p0 p_end s s'"
proof -
  from op obtain s1 where s1: "POP_TYPES ps s = Inr s1" "PUSH_TYPES av qs s1 = Inr s'" by auto
  show ?thesis
    by (rule code_step_bind [OF at POP_TYPES_step [OF at assms(3) s1(1)]])
      (rule PUSH_TYPES_step [OF _ assms(4) s1(2)])
qed

text \<open>The fence reads its reserved byte without a check, so it may end one byte after the
  end of the code; every other operation stays inside.\<close>

lemma op_atomic_step:
  assumes at: "at_code p0 p_end s" and op: "op_atomic av stray M p_end s = Inr s'"
  shows "code_step p0 p_end s s' \<or>
    lctx s' = lctx s \<and> lmem s' = lmem s \<and> lp s' = p_end + 1"
proof -
  from op obtain o1 s1 where r: "read_u32 p_end s = Inr (o1, s1)" by (auto simp: op_atomic_def)
  note 1 = read_u32_step [OF at r]
  note at1 = code_step_at [OF at 1(1)]
  show ?thesis
  proof (cases "o1 = 3")
    case True
    with op r have s': "s' = s1\<lparr>lp := lp s1 + 1\<rparr>" by (auto simp: op_atomic_def split: if_splits)
    show ?thesis
    proof (cases "lp s1 = p_end")
      case True
      with s' 1 show ?thesis by simp
    next
      case False
      then have "unat (lp s1) < unat p_end" using at1 by (simp add: at_code_def word_unat_eq_iff)
      then have "unat (lp s1 + 1) = unat (lp s1) + 1"
        using unat_add_small [of "lp s1" 1] unat_u32_less [of p_end] by simp
      with \<open>unat (lp s1) < unat p_end\<close> have "code_step p0 p_end s1 s'"
        unfolding s' by (intro move_lp_step [OF at1]) simp_all
      with 1(1) show ?thesis by (blast intro: code_step_trans)
    qed
  next
    case False
    with op r obtain a b s2 s3 ps qs where r2: "read_u32 p_end s1 = Inr (a, s2)"
      and r3: "read_u32 p_end s2 = Inr (b, s3)" and sg: "atomic_sig o1 = Some (ps, qs)"
      and pp: "bindE (POP_TYPES ps s3) (PUSH_TYPES av qs) = Inr s'"
      by (fastforce simp: op_atomic_def split: option.splits if_splits)
    have "code_step p0 p_end s1 s'"
    proof (rule code_step_bind [OF at1 read_u32_step(1) [OF at1 r2]])
      assume at2: "at_code p0 p_end s2"
      show "code_step p0 p_end s2 s'"
        by (rule code_step_bind [OF at2 read_u32_step(1) [OF at2 r3]])
          (rule POPS_then_PUSH [OF _ pp], simp_all add: atomic_sig_valid [OF sg])
    qed
    with 1(1) show ?thesis by (blast intro: code_step_trans)
  qed
qed


section \<open>One round of the loop\<close>

text \<open>What is known after a round that started at \<open>p0\<close>: either the stacks are in order and the
  position is inside the code, or the position has reached the end; only the code was
  written; and a measure went down. An \<open>end\<close> that closes an \<open>if\<close> without \<open>else\<close> is handled
  twice at the same position, first as an \<open>else\<close>, which is why the measure counts the blocks of
  that kind.\<close>

definition loop_measure :: "u32 \<Rightarrow> LoaderState \<Rightarrow> nat" where
  "loop_measure p_end s = 2 * (unat p_end - unat (lp s)) + open_ifs (lctx s)"

definition in_limits :: "WASMLoaderContext \<Rightarrow> bool" where
  "in_limits c \<longleftrightarrow> max_stack_cell_num c \<le> 65535 \<and> max_csp_num c \<le> 65535"

definition round_post :: "u32 \<Rightarrow> u32 \<Rightarrow> LoaderState \<Rightarrow> LoaderState \<Rightarrow> bool" where
  "round_post p0 p_end s s' \<longleftrightarrow>
     (good_ctx (lctx s') \<or> unat p_end \<le> unat (lp s')) \<and> in_limits (lctx s') \<and>
     max_stack_cell_num (lctx s) \<le> max_stack_cell_num (lctx s') \<and>
     unat p0 \<le> unat (lp s') \<and> loop_measure p_end s' \<le> loop_measure p_end s + 1 \<and>
     (\<forall>a. unat a < unat p0 \<or> unat p_end \<le> unat a \<longrightarrow> lmem s' a = lmem s a)"

lemma good_in_limits: "good_ctx c \<Longrightarrow> in_limits c"
  by (auto simp: good_ctx_def in_limits_def ctx_rel_def)

lemma code_step_round:
  assumes "at_code p0 p_end s" "code_step p0 p_end s s'"
  shows "round_post p0 p_end s s'"
  using assms by (auto simp: round_post_def code_step_def ctx_step_def at_code_def loop_measure_def
      good_in_limits)

lemma read_block_type_step:
  assumes at: "at_code p0 p_end s" and lp: "lp s = p0 + 1" and M: "module_ok M"
    and op: "read_block_type M p_end opcode s = Inr (bt, s')"
  shows "code_step p0 p_end s s'" "block_type_ok bt" "unat (lp s) < unat (lp s')" "lctx s' = lctx s"
proof -
  have p0: "lp s - 1 = p0" using lp by simp
  have "code_step p0 p_end s s' \<and> block_type_ok bt \<and> unat (lp s) < unat (lp s') \<and> lctx s' = lctx s"
  proof (cases "is_byte_a_type (lmem s (lp s))")
    case True
    with op have b: "check_buf (lp s) p_end 1" and bt: "bt = Value_type (lmem s (lp s))"
      and s': "s' = s\<lparr>lp := lp s + 1\<rparr>"
      by (auto simp: read_block_type_def Let_def split: if_splits)
    from check_buf_move [OF at b] check_buf_unat [OF b] True show ?thesis by (simp add: bt s')
  next
    case False
    with op obtain i p where r: "read_leb_int32 (lmem s) (lp s) p_end = Inr (i, p)"
      and i: "unat i < length (m_types M)" and bt: "bt = Type_index (m_types M ! unat i)"
      and s': "s' = poke p0 (EXT_OP_BLOCK + (opcode - WASM_OP_BLOCK)) (s\<lparr>lp := p\<rparr>)"
      by (auto simp: read_block_type_def Let_def p0 split: if_splits)
    note r' = read_leb_int32_Inr [OF r]
    have 1: "code_step p0 p_end s (s\<lparr>lp := p\<rparr>)" using r' by (intro move_lp_step [OF at]) simp_all
    note at1 = code_step_at [OF at 1]
    have "code_step p0 p_end (s\<lparr>lp := p\<rparr>) s'"
      using s' poke_step [OF at1, of p0] at1 by (auto simp: at_code_def)
    moreover have "block_type_ok bt" using M i by (simp add: bt module_ok_def list_all_length)
    ultimately show ?thesis using 1 r'(1) s' by (auto simp: poke_def intro: code_step_trans)
  qed
  then show "code_step p0 p_end s s'" "block_type_ok bt" "unat (lp s) < unat (lp s')"
    "lctx s' = lctx s" by blast+
qed

lemma block_round:
  assumes at: "at_code p0 p_end s" and lp: "lp s = p0 + 1" and M: "module_ok M"
    and op: "handle_op_block_and_loop av M p_end opcode s = Inr s'"
  shows "round_post p0 p_end s s'"
proof -
  from op obtain bt s1 where r: "read_block_type M p_end opcode s = Inr (bt, s1)"
    and o: "on_ctx (open_block av opcode bt (lp s1)) s1 = Inr s'"
    by (auto simp: handle_op_block_and_loop_def)
  note r' = read_block_type_step [OF at lp M r]
  note at1 = code_step_at [OF at r'(1)]
  from o obtain c' where c': "open_block av opcode bt (lp s1) (lctx s1) = Inr c'" "s' = s1\<lparr>lctx := c'\<rparr>"
    by (auto simp: on_ctx_def)
  have good1: "good_ctx (lctx s1)" using at1 by (simp add: at_code_def)
  note b = open_block_step [OF good1 r'(2) c'(1)]
  show ?thesis
    using b r' c'(2) at at1 good_in_limits [OF b(1)]
    by (auto simp: round_post_def code_step_def loop_measure_def at_code_def ctx_step_def)
qed

lemma if_round:
  assumes at: "at_code p0 p_end s" and lp: "lp s = p0 + 1" and M: "module_ok M"
    and op: "op_if av M p_end opcode s = Inr s'"
  shows "round_post p0 p_end s s'"
proof -
  from op obtain s1 where p: "POP_TYPE VALUE_TYPE_I32 s = Inr s1"
    and b: "handle_op_block_and_loop av M p_end opcode s1 = Inr s'"
    by (auto simp: op_if_def)
  have 1: "code_step p0 p_end s s1" by (rule POP_TYPE_step [OF at base_types_valid(1) p])
  have lp1: "lp s1 = p0 + 1" "lmem s1 = lmem s" using p lp by (auto simp: POP_TYPE_def on_ctx_def)
  from block_round [OF code_step_at [OF at 1] lp1(1) M b] 1 lp1 show ?thesis
    by (auto simp: round_post_def code_step_def ctx_step_def loop_measure_def)
qed


lemma else_code_step:
  assumes good: "good_ctx (lctx s)" and a: "lp s - 1 \<noteq> 0" and op: "handle_op_else av s = Inr s'"
  shows "good_ctx (lctx s')" "open_ifs (lctx s') + 1 = open_ifs (lctx s)"
    "max_stack_cell_num (lctx s) \<le> max_stack_cell_num (lctx s')"
    "lp s' = lp s" "lmem s' = lmem s"
proof -
  let ?b = "hd (frame_csp (lctx s))"
  from op obtain c1 c' where h: "label_type ?b = LABEL_TYPE_IF" "else_addr ?b = 0"
    and chk: "check_block_stack av (lctx s) ?b = Inr c1"
    and push: "push_frame_refs av (set_polymorphic False (reset_stack (set_else_addr (lp s - 1) c1)))
        (block_type_get_param_types (block_type ?b)) = Inr c'"
    and s': "s' = s\<lparr>lctx := c'\<rparr>"
    by (auto simp: handle_op_else_def on_ctx_def Let_def split: if_splits)
  note e = else_step [OF good h a chk push]
  show "good_ctx (lctx s')" "open_ifs (lctx s') + 1 = open_ifs (lctx s)"
    "max_stack_cell_num (lctx s) \<le> max_stack_cell_num (lctx s')"
    "lp s' = lp s" "lmem s' = lmem s"
    using e by (simp_all add: s')
qed

lemma else_round:
  assumes at: "at_code p0 p_end s" and lp: "lp s = p0 + 1" and p0: "1 < unat p0"
    and op: "handle_op_else av s = Inr s'"
  shows "round_post p0 p_end s s'"
proof -
  have "lp s - 1 \<noteq> 0" using lp p0 by auto
  note e = else_code_step [OF _ this op]
  show ?thesis
    using e at good_in_limits [of "lctx s'"] by (auto simp: at_code_def round_post_def loop_measure_def)
qed

lemma end_round:
  assumes at: "at_code p0 p_end s" and lp: "lp s = p0 + 1" and p0: "1 < unat p0"
    and op: "op_end av p_end s = Inr s'"
  shows "round_post p0 p_end s s'"
proof -
  let ?b = "hd (frame_csp (lctx s))"
  have good: "good_ctx (lctx s)" using at by (simp add: at_code_def)
  from op obtain c1 where chk: "check_block_stack av (lctx s) ?b = Inr c1"
    by (auto simp: op_end_def on_ctx_def Let_def)
  note 1 = check_block_stack_step [OF good chk]
  show ?thesis
  proof (cases "label_type ?b = LABEL_TYPE_IF \<and> else_addr ?b = 0")
    case True
    with op chk have e: "handle_op_else av (s\<lparr>lctx := c1, lp := p0\<rparr>) = Inr s'"
      using lp by (simp add: op_end_def on_ctx_def)
    have "p0 - 1 \<noteq> 0" using p0 by auto
    with else_code_step [OF _ _ e] ctx_step_good [OF 1(1)] have e': "good_ctx (lctx s')"
      "open_ifs (lctx s') + 1 = open_ifs c1" "max_stack_cell_num c1 \<le> max_stack_cell_num (lctx s')"
      "lp s' = p0" "lmem s' = lmem s"
      by simp_all
    have u: "unat (lp s) = unat p0 + 1"
    proof -
      have "1 + p0 \<noteq> 0" using at lp by (auto simp: at_code_def add.commute)
      then show ?thesis using lp unatSuc [of p0] by (simp add: add.commute)
    qed
    show ?thesis
      using e' 1(1) u at good_in_limits [OF e'(1)]
      by (simp add: round_post_def loop_measure_def ctx_step_def at_code_def)
  next
    case False
    with op chk obtain c2 where pop: "wasm_loader_pop_frame_csp c1 = Inr c2"
      and s': "s' = s\<lparr>lctx := c2\<rparr>" and fin: "csp_num c2 > 0 \<or> \<not> lp s < p_end"
      by (auto simp: op_end_def on_ctx_def Let_def split: if_splits)
    note e = end_step [OF good chk pop]
    show ?thesis
      using e fin at by (auto simp: round_post_def loop_measure_def s' in_limits_def at_code_def
          word_less_nat_alt)
  qed
qed

lemma round_post_fence:
  assumes at: "at_code p0 p_end s" and p0: "unat p_end < 2 ^ 32 - 1"
    and s': "lctx s' = lctx s" "lmem s' = lmem s" "lp s' = p_end + 1"
  shows "round_post p0 p_end s s'"
proof -
  have "unat (p_end + 1) = unat p_end + 1" using unat_add_small [of p_end 1] p0 by simp
  with at s' show ?thesis
    by (auto simp: round_post_def at_code_def loop_measure_def good_in_limits)
qed

lemma prepare_opcode_round:
  assumes at: "at_code p0 p_end s" and lp: "lp s = p0 + 1" and p0: "1 < unat p0"
    and pe: "unat p_end < 2 ^ 32 - 1" and M: "module_ok M" and F: "function_ok F"
    and op: "prepare_opcode E M F p_end opcode s = Inr s'"
  shows "round_post p0 p_end s s'"
proof -
  let ?av = "env_av E"
  note cs = code_step_round [OF at]
  have "mark_unreachable s = Inr s' \<or> s' = s \<or> (\<exists>o1. handle_op_block_and_loop ?av M p_end o1 s = Inr s')
    \<or> (\<exists>o1. op_if ?av M p_end o1 s = Inr s') \<or> handle_op_else ?av s = Inr s' \<or> op_end ?av p_end s = Inr s'
    \<or> (\<exists>o1. op_br ?av p_end o1 s = Inr s') \<or> (\<exists>o1. op_br_if ?av p_end o1 s = Inr s')
    \<or> op_br_table ?av p_end s = Inr s' \<or> op_return F s = Inr s' \<or> op_call ?av M p_end s = Inr s'
    \<or> op_call_indirect ?av M p_end s = Inr s' \<or> op_drop s = Inr s' \<or> op_select ?av s = Inr s'
    \<or> op_get_local ?av F p_end s = Inr s' \<or> op_set_local F p_end s = Inr s'
    \<or> op_tee_local ?av F p_end s = Inr s' \<or> op_get_global ?av M p_end s = Inr s'
    \<or> op_set_global M p_end s = Inr s' \<or> (\<exists>o1. op_load_store ?av M p_end o1 s = Inr s')
    \<or> op_memory_size ?av M p_end s = Inr s' \<or> op_memory_grow ?av M p_end s = Inr s'
    \<or> (\<exists>o1. op_const ?av p_end o1 s = Inr s') \<or> op_misc ?av M p_end s = Inr s'
    \<or> op_atomic ?av (env_stray E) M p_end s = Inr s'
    \<or> (\<exists>n t t'. numeric_sig opcode = Some (n, t, t') \<and> POPS_AND_PUSH ?av n t t' s = Inr s')"
    using op unfolding prepare_opcode_def Let_def
    by (simp split: if_splits option.splits prod.splits; blast)
  note rounds = cs [OF mark_unreachable_code_step [OF at]] block_round [OF at lp M] if_round [OF at lp M]
    else_round [OF at lp p0] end_round [OF at lp p0] cs [OF op_br_step [OF at]] cs [OF op_br_if_step [OF at]]
    cs [OF op_br_table_step [OF at lp]] cs [OF op_return_step [OF at F]] cs [OF op_call_step [OF at M]]
    cs [OF op_call_indirect_step [OF at M]] cs [OF op_drop_step [OF at]] cs [OF op_select_step [OF at]]
    cs [OF op_get_local_step [OF at lp F]] cs [OF op_set_local_step [OF at lp F]]
    cs [OF op_tee_local_step [OF at lp F]] cs [OF op_get_global_step [OF at lp M]]
    cs [OF op_set_global_step [OF at lp M]] cs [OF op_load_store_step [OF at]]
    cs [OF op_memory_size_step [OF at]] cs [OF op_memory_grow_step [OF at]] cs [OF op_const_step [OF at]]
    cs [OF op_misc_step [OF at]]
  have atomic: "round_post p0 p_end s s'" if "op_atomic ?av (env_stray E) M p_end s = Inr s'"
    using op_atomic_step [OF at that] round_post_fence [OF at pe] cs by blast
  have num: "round_post p0 p_end s s'"
    if "numeric_sig opcode = Some (n, t, t')" "POPS_AND_PUSH ?av n t t' s = Inr s'" for n t t'
    using POPS_AND_PUSH_step [OF at _ _ that(2)] numeric_sig_valid [OF that(1)] cs by blast
  from \<open>_ \<or> _\<close> show ?thesis
    by (elim disjE exE conjE) (use cs [OF code_step_refl [OF at]] in \<open>simp; fail\<close> | erule rounds | erule atomic | erule (1) num)+
qed

lemma prepare_step_round:
  assumes good: "good_ctx (lctx s)" and lt: "unat (lp s) < unat p_end" and p0: "1 < unat (lp s)"
    and pe: "unat p_end < 2 ^ 32 - 1" and M: "module_ok M" and F: "function_ok F"
    and op: "prepare_step E M F p_end s = Inr s'"
  shows "round_post (lp s) p_end (s\<lparr>lp := lp s + 1\<rparr>) s'" "loop_measure p_end s' < loop_measure p_end s"
proof -
  have u: "unat (lp s + 1) = unat (lp s) + 1"
    using unat_add_small [of "lp s" 1] lt pe by simp
  have at: "at_code (lp s) p_end (s\<lparr>lp := lp s + 1\<rparr>)"
    using good lt by (simp add: at_code_def u)
  show r: "round_post (lp s) p_end (s\<lparr>lp := lp s + 1\<rparr>) s'"
    using op unfolding prepare_step_def by (intro prepare_opcode_round [OF at _ p0 pe M F]) simp_all
  have "loop_measure p_end s' \<le> loop_measure p_end (s\<lparr>lp := lp s + 1\<rparr>) + 1"
    using r by (simp add: round_post_def)
  also have "\<dots> < loop_measure p_end s"
    using lt by (simp add: loop_measure_def u)
  finally show "loop_measure p_end s' < loop_measure p_end s" .
qed

section \<open>The whole validation\<close>

text \<open>The states a validation passes through.\<close>

inductive prepare_reaches ::
  "loader_env \<Rightarrow> WASMModule \<Rightarrow> WASMFunction \<Rightarrow> u32 \<Rightarrow> LoaderState \<Rightarrow> LoaderState \<Rightarrow> bool"
  for E M F p_end where
  prepare_refl: "prepare_reaches E M F p_end s s"
| prepare_next: "prepare_reaches E M F p_end s t \<Longrightarrow> lp t < p_end \<Longrightarrow>
    prepare_step E M F p_end t = Inr u \<Longrightarrow> prepare_reaches E M F p_end s u"

definition loop_inv :: "u32 \<Rightarrow> u32 \<Rightarrow> cmem \<Rightarrow> LoaderState \<Rightarrow> bool" where
  "loop_inv lo p_end m s \<longleftrightarrow>
     (good_ctx (lctx s) \<or> unat p_end \<le> unat (lp s)) \<and> in_limits (lctx s) \<and> unat lo \<le> unat (lp s) \<and>
     (\<forall>a. unat a < unat lo \<or> unat p_end \<le> unat a \<longrightarrow> lmem s a = m a)"

definition setting_ok :: "WASMModule \<Rightarrow> WASMFunction \<Rightarrow> u32 \<Rightarrow> bool" where
  "setting_ok M F lo \<longleftrightarrow> module_ok M \<and> function_ok F \<and> 1 < unat lo"

lemma loop_inv_step:
  assumes inv: "loop_inv lo p_end m s" and lt: "lp s < p_end" and ok: "setting_ok M F lo"
    and pe: "unat p_end < 2 ^ 32 - 1" and op: "prepare_step E M F p_end s = Inr s'"
  shows "loop_inv lo p_end m s'" "loop_measure p_end s' < loop_measure p_end s"
    "max_stack_cell_num (lctx s) \<le> max_stack_cell_num (lctx s')"
proof -
  have ltn: "unat (lp s) < unat p_end" using lt by (simp add: word_less_nat_alt)
  with inv have good: "good_ctx (lctx s)" by (auto simp: loop_inv_def)
  have p0: "1 < unat (lp s)" using inv ok by (auto simp: loop_inv_def setting_ok_def)
  have M: "module_ok M" and F: "function_ok F" using ok by (auto simp: setting_ok_def)
  note r = prepare_step_round [OF good ltn p0 pe M F op]
  show "loop_measure p_end s' < loop_measure p_end s" by (rule r(2))
  show "loop_inv lo p_end m s'" "max_stack_cell_num (lctx s) \<le> max_stack_cell_num (lctx s')"
    using r(1) inv by (auto simp: round_post_def loop_inv_def)
qed

lemma prepare_reaches_inv:
  assumes "prepare_reaches E M F p_end s t" "loop_inv lo p_end m s" "setting_ok M F lo"
    and "unat p_end < 2 ^ 32 - 1"
  shows "loop_inv lo p_end m t" "max_stack_cell_num (lctx s) \<le> max_stack_cell_num (lctx t)"
proof -
  have "loop_inv lo p_end m t \<and> max_stack_cell_num (lctx s) \<le> max_stack_cell_num (lctx t)"
    using assms
  proof (induction rule: prepare_reaches.induct)
    case (prepare_next s t u)
    then show ?case using loop_inv_step [of lo p_end m t M F E u] by auto
  qed simp
  then show "loop_inv lo p_end m t" "max_stack_cell_num (lctx s) \<le> max_stack_cell_num (lctx t)"
    by blast+
qed

lemma prepare_first:
  assumes "prepare_reaches E M F p_end s1 t" "lp s < p_end" "prepare_step E M F p_end s = Inr s1"
  shows "prepare_reaches E M F p_end s t"
  using assms
  by (induction rule: prepare_reaches.induct) (auto intro: prepare_reaches.intros)

lemma prepare_loop_total:
  assumes "loop_inv lo p_end m s" "setting_ok M F lo" "unat p_end < 2 ^ 32 - 1"
  shows "\<exists>r. prepare_loop E M F p_end s = Some r \<and>
    (\<forall>s'. r = Inr s' \<longrightarrow> prepare_reaches E M F p_end s s' \<and> \<not> lp s' < p_end)"
  using assms(1)
proof (induction "loop_measure p_end s" arbitrary: s rule: less_induct)
  case less
  show ?case
  proof (cases "lp s < p_end")
    case False
    then show ?thesis by (subst prepare_loop.simps) (simp add: prepare_refl)
  next
    case lt: True
    show ?thesis
    proof (cases "prepare_step E M F p_end s")
      case (Inl e)
      with lt show ?thesis by (subst prepare_loop.simps) simp
    next
      case (Inr s1)
      note st = loop_inv_step [OF less.prems lt assms(2,3) Inr]
      from less.hyps [OF st(2,1)] obtain r where r: "prepare_loop E M F p_end s1 = Some r"
        "\<And>s'. r = Inr s' \<Longrightarrow> prepare_reaches E M F p_end s1 s' \<and> \<not> lp s' < p_end"
        by blast
      then show ?thesis
        using lt Inr by (subst prepare_loop.simps) (auto intro: prepare_first)
    qed
  qed
qed

lemma prepare_start_inv:
  assumes "prepare_start E F m = Inr s0" "function_ok F"
  shows "loop_inv (code F) p_end m s0" "lp s0 = code F"
proof -
  from assms(1) obtain c0 c where i: "wasm_loader_ctx_init (env_av E) = Inr c0"
    and p: "wasm_loader_push_frame_csp (env_av E) c0 LABEL_TYPE_FUNCTION
              (Type_index (func_type F)) (code F) = Inr c"
    and s0: "s0 = \<lparr>lctx = c, lp = code F, lmem = m, br_table_caches = [],
            possible_memory_grow = False\<rparr>"
    by (auto simp: prepare_start_def)
  have rel0: "ctx_rel c0 []" and bl0: "frame_csp c0 = []"
    using i by (auto simp: wasm_loader_ctx_init_def ctx_rel_def split: if_splits)
  note r = push_frame_csp_rel [OF rel0 p]
  have "good_ctx c"
    using r(1,2) assms(2) bl0 by (auto simp: good_ctx_def blocks_ok_def function_ok_def)
  then show "loop_inv (code F) p_end m s0" "lp s0 = code F"
    by (simp_all add: s0 loop_inv_def good_in_limits)
qed

definition code_end :: "WASMFunction \<Rightarrow> u32" where
  "code_end F = code F + code_size F"

lemma unat_code_end:
  "unat (code F) + unat (code_size F) < 2 ^ 32 - 1 \<Longrightarrow>
   unat (code_end F) = unat (code F) + unat (code_size F)"
  using unat_add_small [of "code F" "unat (code_size F)"] by (simp add: code_end_def)

lemma prepare_loop_reaches:
  "prepare_reaches E M F p_end s t \<Longrightarrow> prepare_loop E M F p_end s = prepare_loop E M F p_end t"
proof (induction rule: prepare_reaches.induct)
  case (prepare_next s t u)
  then show ?case by (subst (asm) prepare_loop.simps [of E M F p_end t]) simp
qed simp

text \<open>C9: the validation of a function body returns on every sequence of bytes: no body makes the
  loop run forever. When it accepts, the two depths it records fit the 16 bits the
  interpreter has for them, every block is closed, and no byte outside the body was
  written although the body is rewritten in place.\<close>

theorem prepare_bytecode_total:
  assumes "module_ok M" "function_ok F" "1 < unat (code F)"
    and "unat (code F) + unat (code_size F) < 2 ^ 32 - 1"
  shows "\<exists>r. wasm_loader_prepare_bytecode E M F m = Some r \<and>
    (\<forall>ms mc s. r = Inr (ms, mc, s) \<longrightarrow> ms < 2 ^ 16 \<and> mc < 2 ^ 16 \<and> csp_num (lctx s) = 0 \<and>
      (\<forall>a. unat a < unat (code F) \<or> unat (code F) + unat (code_size F) \<le> unat a \<longrightarrow> lmem s a = m a))"
proof (cases "prepare_start E F m")
  case (Inl e)
  then show ?thesis by (simp add: wasm_loader_prepare_bytecode_def)
next
  case (Inr s0)
  have set: "setting_ok M F (code F)" using assms by (simp add: setting_ok_def)
  have pe: "unat (code_end F) < 2 ^ 32 - 1" using unat_code_end [OF assms(4)] assms(4) by simp
  note inv0 = prepare_start_inv(1) [OF Inr assms(2)]
  from prepare_loop_total [OF inv0 set pe, of E] obtain r
    where r: "prepare_loop E M F (code_end F) s0 = Some r"
    and fin: "\<And>s'. r = Inr s' \<Longrightarrow> prepare_reaches E M F (code_end F) s0 s'" by blast
  show ?thesis
  proof (cases r)
    case (Inl e)
    with Inr r show ?thesis by (simp add: wasm_loader_prepare_bytecode_def code_end_def)
  next
    case (Inr s1)
    with fin have "loop_inv (code F) (code_end F) m s1"
      using prepare_reaches_inv(1) [OF _ inv0 set pe] by blast
    then show ?thesis
      using \<open>prepare_start E F m = Inr s0\<close> r Inr unat_code_end [OF assms(4)]
      by (auto simp: wasm_loader_prepare_bytecode_def code_end_def loop_inv_def in_limits_def)
  qed
qed

text \<open>C4: the invariant of the validation. In every state it passes through before the end of the body
  the array of cells is the concatenation of the typed stacks of the open blocks, with the
  heights the blocks record; and when the body is accepted the recorded maximum is at least
  the depth of the operand stack in each of these states, so a frame with that many cells is
  large enough at every instruction.\<close>

theorem prepare_states_typed:
  assumes "module_ok M" "function_ok F" "1 < unat (code F)"
    and "unat (code F) + unat (code_size F) < 2 ^ 32 - 1"
    and "prepare_start E F m = Inr s0" "prepare_reaches E M F (code_end F) s0 t"
    and "lp t < code_end F"
  shows "(\<exists>ts segs. ctx_rel (lctx t) (ts # segs)) \<and>
    (\<forall>ms mc s. wasm_loader_prepare_bytecode E M F m = Some (Inr (ms, mc, s)) \<longrightarrow>
      stack_cell_num (lctx t) \<le> ms)"
proof (intro conjI allI impI)
  have set: "setting_ok M F (code F)" using assms by (simp add: setting_ok_def)
  have pe: "unat (code_end F) < 2 ^ 32 - 1" using unat_code_end [OF assms(4)] assms(4) by simp
  note inv0 = prepare_start_inv(1) [OF assms(5,2)]
  note inv = prepare_reaches_inv(1) [OF assms(6) inv0 set pe]
  then show rel: "\<exists>ts segs. ctx_rel (lctx t) (ts # segs)"
    using assms(7) by (auto simp: loop_inv_def good_ctx_def word_less_nat_alt)
  fix ms mc s
  assume "wasm_loader_prepare_bytecode E M F m = Some (Inr (ms, mc, s))"
  then have "prepare_loop E M F (code_end F) s0 = Some (Inr s)" and ms: "ms = max_stack_cell_num (lctx s)"
    using assms(5) by (auto simp: wasm_loader_prepare_bytecode_def code_end_def
        split: option.splits sum.splits if_splits)
  then have "prepare_loop E M F (code_end F) t = Some (Inr s)"
    using prepare_loop_reaches [OF assms(6)] by simp
  with prepare_loop_total [OF inv set pe, of E] have "prepare_reaches E M F (code_end F) t s" by auto
  from prepare_reaches_inv(2) [OF this inv set pe] rel show "stack_cell_num (lctx t) \<le> ms"
    by (auto simp: ms ctx_rel_def)
qed

section \<open>A small function\<close>

definition tiny_module :: WASMModule where
  "tiny_module = \<lparr>m_types = [], import_functions = [], module_functions = [], import_globals = [],
     globals = [], import_table_count = 0, table_count = 0, import_memory_count = 0,
     memory_count = 1, data_seg_count = 0, data_seg_count1 = 0, aux_stack_size = 0,
     aux_stack_top_global_index = 0\<rparr>"

definition tiny_function :: WASMFunction where
  "tiny_function = \<lparr>func_type = \<lparr>param_count = 1, result_count = 1, types = [0x7f, 0x7f]\<rparr>,
     local_types = [], local_offsets = [0], code = 0x1000, code_size = 6\<rparr>"

definition tiny_env :: loader_env where
  "tiny_env = \<lparr>env_av = \<lambda>_. True, env_stray = \<lambda>_. 0\<rparr>"

lemma tiny_ok: "module_ok tiny_module" "function_ok tiny_function" "1 < unat (code tiny_function)"
  "unat (code tiny_function) + unat (code_size tiny_function) < 2 ^ 32 - 1"
  by (simp_all add: module_ok_def tiny_module_def function_ok_def tiny_function_def func_type_ok_def
      valid_type_iff value_type_defs)

theorem prepare_bytecode_total_witness:
  "\<exists>r. wasm_loader_prepare_bytecode tiny_env tiny_module tiny_function
     (mem_of 0x1000 [0x41, 1, 0x20, 0, 0x6a, 0x0b]) = Some r"
  using prepare_bytecode_total [OF tiny_ok] by blast

theorem prepare_states_typed_witness:
  "\<exists>s0. prepare_start tiny_env tiny_function (\<lambda>_. 0) = Inr s0 \<and>
     (\<exists>ts segs. ctx_rel (lctx s0) (ts # segs))"
proof -
  obtain s0 where s0: "prepare_start tiny_env tiny_function (\<lambda>_. 0) = Inr s0"
    by (simp add: prepare_start_def wasm_loader_ctx_init_def wasm_loader_push_frame_csp_def
        tiny_env_def sizeof_BranchBlock_def Let_def)
  have "lp s0 < code_end tiny_function"
    using prepare_start_inv(2) [OF s0 tiny_ok(2)] by (simp add: tiny_function_def code_end_def)
  from prepare_states_typed [OF tiny_ok s0 prepare_refl this] s0 show ?thesis by blast
qed

end
