(* ===== verification/Interp_Sound.thy ===== *)
theory Interp_Sound
  imports Interp_Frame Loader_Safety
begin

text \<open>
  What the code validation promises the interpreter, for the instructions that go on with the
  next one: at an address the validation has reached with a known stack, the interpreter,
  with as many cells on its operand stack as the validation counted, finds the operands and
  the immediates of the instruction, comes to the address the validation went on with, and
  has the number of cells the validation counted there. The values are not needed for this:
  a cell is a cell, whatever its type.

  The code the interpreter runs is the code the loader has rewritten, so the statement is
  about the state of the memory after the validation of the instruction.
\<close>

section \<open>The validation counts cells\<close>

text \<open>A context of code that can be reached: its innermost block is not polymorphic. \<open>height\<close> is the
  number of cells below that block.\<close>

definition live :: "WASMLoaderContext \<Rightarrow> bool" where
  "live c \<longleftrightarrow> good_ctx c \<and> \<not> poly_of c"

definition height :: "WASMLoaderContext \<Rightarrow> nat" where
  "height c = block_stack_cell_num (hd (frame_csp c))"

definition counts :: "nat \<Rightarrow> nat \<Rightarrow> WASMLoaderContext \<Rightarrow> WASMLoaderContext \<Rightarrow> bool" where
  "counts k q c c' \<longleftrightarrow> live c' \<and> stack_only c c' \<and> height c + k \<le> stack_cell_num c \<and>
     stack_cell_num c' + k = stack_cell_num c + q"

lemma stack_only_height: "stack_only c c' \<Longrightarrow> height c' = height c"
  by (simp add: stack_only_def height_def)

lemma counts_trans:
  assumes "counts k 0 c c1" "counts 0 q c1 c'"
  shows "counts k q c c'"
  using assms by (auto simp: counts_def intro: stack_only_trans dest: stack_only_height)

lemma counts_pops:
  assumes "counts k 0 c c1" "counts k' 0 c1 c'"
  shows "counts (k + k') 0 c c'"
  using assms stack_only_height [of c c1] by (auto simp: counts_def intro: stack_only_trans)

lemma live_cells:
  assumes "ctx_rel c (ts # segs)"
  shows "stack_cell_num c = length (cells_of ts) + height c"
proof -
  from assms obtain b bs fr' where "frame_csp c = b # bs" "frame_ref c = cells_of ts @ fr'"
    "length fr' = block_stack_cell_num b" by (rule ctx_rel_Cons)
  moreover have "stack_cell_num c = length (frame_ref c)" using assms by (simp add: ctx_rel_def)
  ultimately show ?thesis by (simp add: height_def)
qed

lemma counts_refl: "live c \<Longrightarrow> counts 0 0 c c"
  by (auto simp: counts_def live_def good_ctx_def dest: live_cells)

lemma pop_frame_refs_counts:
  assumes "live c" "list_all is_valid_value_type xs" "pop_frame_refs c xs = Inr c'"
  shows "counts (length (cells_of xs)) 0 c c'"
proof -
  from assms(1) obtain ts segs where rel: "ctx_rel c (ts # segs)" and np: "\<not> poly_of c"
    and bl: "blocks_ok c"
    by (auto simp: live_def good_ctx_def)
  from pop_frame_refs_spec [OF rel assms(2)] assms(3) obtain ts'
    where ts': "spec_pops (poly_of c) ts xs = Some ts'" "ctx_rel c' (ts' # segs)" "stack_only c c'"
    by (auto split: option.splits)
  have "list_all is_valid_value_type ts"
    using rel np by (elim ctx_rel_Cons) (auto simp: segment_ok_valid poly_of_def)
  then have "ts = xs @ ts'" using ts'(1) np by (simp add: spec_pops_plain)
  then show ?thesis
    using live_cells [OF rel] live_cells [OF ts'(2)] stack_only_height [OF ts'(3)] ts' np
      stack_only_blocks [of c c'] bl
    by (auto simp: counts_def live_def good_ctx_def stack_only_poly)
qed

lemma push_frame_refs_counts:
  assumes "live c" "list_all is_valid_value_type xs" "push_frame_refs av c xs = Inr c'"
  shows "counts 0 (length (cells_of xs)) c c'"
proof -
  from assms(1) obtain ts segs where rel: "ctx_rel c (ts # segs)" and np: "\<not> poly_of c"
    and bl: "blocks_ok c"
    by (auto simp: live_def good_ctx_def)
  note p = push_frame_refs_spec [OF rel assms(2,3)]
  then show ?thesis
    using live_cells [OF rel] live_cells [OF p(1)] stack_only_height [OF p(2)] np
      stack_only_blocks [of c c'] bl
    by (auto simp: counts_def live_def good_ctx_def stack_only_poly)
qed

text \<open>The same for the operations on the loader's state, which leave the position and the code alone.\<close>

lemma on_ctx_Inr: "on_ctx f s = Inr s' \<longleftrightarrow> (\<exists>c. f (lctx s) = Inr c \<and> s' = s\<lparr>lctx := c\<rparr>)"
  by (auto simp: on_ctx_def)

definition moves :: "nat \<Rightarrow> nat \<Rightarrow> LoaderState \<Rightarrow> LoaderState \<Rightarrow> bool" where
  "moves k q s s' \<longleftrightarrow> counts k q (lctx s) (lctx s') \<and> lp s' = lp s \<and> lmem s' = lmem s"

lemma POP_TYPES_moves:
  assumes "live (lctx s)" "list_all is_valid_value_type xs" "POP_TYPES xs s = Inr s'"
  shows "moves (length (cells_of xs)) 0 s s'"
  using pop_frame_refs_counts [OF assms(1,2)] assms(3)
  by (auto simp: POP_TYPES_def on_ctx_Inr moves_def)

lemma POP_TYPE_moves:
  assumes "live (lctx s)" "is_valid_value_type t" "POP_TYPE t s = Inr s'"
  shows "moves (wasm_value_type_cell_num t) 0 s s'"
  using pop_frame_refs_counts [OF assms(1), of "[t]"] assms(2,3)
  by (auto simp: POP_TYPE_def on_ctx_Inr moves_def)

lemma PUSH_TYPES_moves:
  assumes "live (lctx s)" "list_all is_valid_value_type xs" "PUSH_TYPES av xs s = Inr s'"
  shows "moves 0 (length (cells_of xs)) s s'"
  using push_frame_refs_counts [OF assms(1,2)] assms(3)
  by (auto simp: PUSH_TYPES_def on_ctx_Inr moves_def)

lemma moves_live: "moves k q s s' \<Longrightarrow> live (lctx s')"
  by (simp add: moves_def counts_def)

lemma moves_trans: "moves k 0 s s1 \<Longrightarrow> moves 0 q s1 s' \<Longrightarrow> moves k q s s'"
  by (auto simp: moves_def intro: counts_trans)

lemma moves_pops: "moves k 0 s s1 \<Longrightarrow> moves k' 0 s1 s' \<Longrightarrow> moves (k + k') 0 s s'"
  by (auto simp: moves_def intro: counts_pops)

lemma POPS_AND_PUSH_moves:
  assumes "live (lctx s)" "is_valid_value_type t" "is_valid_value_type t'"
    and "POPS_AND_PUSH av n t t' s = Inr s'"
  shows "moves (n * wasm_value_type_cell_num t) (wasm_value_type_cell_num t') s s'"
proof -
  have cells: "length (cells_of (replicate n t)) = n * wasm_value_type_cell_num t" for n
    by (induction n) simp_all
  from assms(4) obtain c1 c where c1: "pop_frame_refs (lctx s) (replicate n t) = Inr c1"
    "push_frame_refs av c1 [t'] = Inr c" "s' = s\<lparr>lctx := c\<rparr>"
    by (auto simp: POPS_AND_PUSH_def on_ctx_Inr wasm_loader_push_pop_frame_ref_def)
  have 1: "counts (n * wasm_value_type_cell_num t) 0 (lctx s) c1"
    using pop_frame_refs_counts [OF assms(1) _ c1(1)] assms(2) by (simp add: list_all_iff cells)
  moreover have "counts 0 (wasm_value_type_cell_num t') c1 c"
    using push_frame_refs_counts [OF _ _ c1(2)] 1 assms(3) by (simp add: counts_def)
  ultimately show ?thesis using c1(3) by (auto simp: moves_def intro: counts_trans)
qed

section \<open>The interpreter follows\<close>

text \<open>\<open>effect k q p i r\<close>: started in \<open>i\<close> with at least \<open>k\<close> cells, the outcome \<open>r\<close> is a trap or a state at the
  address \<open>p\<close> in which the \<open>k\<close> top cells are replaced by \<open>q\<close> cells, the others are the same, and the
  arrays of the frame and of the instance have their lengths.\<close>

definition same_frame :: "InterpState \<Rightarrow> InterpState \<Rightarrow> bool" where
  "same_frame i i' \<longleftrightarrow> length (frame_lp i') = length (frame_lp i) \<and>
     length (data_segs i') = length (data_segs i)"

definition effect :: "nat \<Rightarrow> nat \<Rightarrow> u32 \<Rightarrow> InterpState \<Rightarrow> InterpState run \<Rightarrow> bool" where
  "effect k q p i r \<longleftrightarrow> (k \<le> length (frame_sp i) \<longrightarrow>
     (\<exists>e. r = Some (Inl e)) \<or>
     (\<exists>i' vs. r = Some (Inr i') \<and> frame_ip i' = p \<and> frame_sp i' = vs @ drop k (frame_sp i) \<and>
        length vs = q \<and> same_frame i i'))"

lemma same_frame_refl [simp]: "same_frame i i"
  by (simp add: same_frame_def)

lemma bindR_simps [simp]:
  "bindR (done_with x) f = f x" "bindR (trap e) f = trap e" "bindR stuck f = stuck"
  "bindR (Some (Inr x)) f = f x" "bindR (Some (Inl e)) f = Some (Inl e)"
  by (simp_all add: bindR_def done_with_def trap_def stuck_def)

lemma effect_trap: "effect k q p i (trap e)" "effect k q p i (Some (Inl e))"
  by (simp_all add: effect_def trap_def)

lemma effectI:
  assumes "frame_ip i' = p" "frame_sp i' = vs @ drop k (frame_sp i)" "length vs = q" "same_frame i i'"
  shows "effect k q p i (done_with i')"
  using assms by (auto simp: effect_def done_with_def)

text \<open>An effect after a number of cells has been popped; and an effect that does not depend on how the
  instruction was fetched.\<close>

lemma effect_pop32:
  assumes "\<And>v st. frame_sp i = v # st \<Longrightarrow> effect k q p (i\<lparr>frame_sp := st\<rparr>) (f (v, i\<lparr>frame_sp := st\<rparr>))"
  shows "effect (Suc k) q p i (bindR (pop32 i) f)"
proof (cases "frame_sp i")
  case (Cons v st)
  with assms [OF Cons] show ?thesis
    by (auto simp: effect_def pop32_def same_frame_def)
qed (simp add: effect_def)

lemma effect_pop64:
  assumes "\<And>v st. 2 \<le> length (frame_sp i) \<Longrightarrow> st = drop 2 (frame_sp i) \<Longrightarrow>
    effect k q p (i\<lparr>frame_sp := st\<rparr>) (f (v, i\<lparr>frame_sp := st\<rparr>))"
  shows "effect (Suc (Suc k)) q p i (bindR (pop64 i) f)"
proof (cases "2 \<le> length (frame_sp i)")
  case True
  then obtain hi lo st where sp: "frame_sp i = hi # lo # st"
    by (cases "frame_sp i"; cases "tl (frame_sp i)") auto
  with assms [OF True, of st "u64_of_cells [hi, lo]"] show ?thesis
    by (auto simp: effect_def pop64_def same_frame_def)
qed (simp add: effect_def)

lemma effect_moved:
  assumes "effect k q p (i\<lparr>frame_ip := p'\<rparr>) r"
  shows "effect k q p i r"
  using assms by (simp add: effect_def same_frame_def)

lemma effect_push:
  "frame_ip i = p \<Longrightarrow> effect 0 1 p i (push32 v i)" "frame_ip i = p \<Longrightarrow> effect 0 2 p i (push64 v' i)"
  unfolding push32_def push64_def
  by (rule effectI [where vs = "[v]"]; simp add: same_frame_def)
    (rule effectI [where vs = "cells_of_u64 v'"]; simp add: same_frame_def)

lemma effect_push_at [simp]:
  "effect 0 (Suc 0) p i (push32 v (i\<lparr>frame_ip := p\<rparr>))" "effect 0 2 p i (push64 v' (i\<lparr>frame_ip := p\<rparr>))"
  using effect_moved [OF effect_push(1) [of "i\<lparr>frame_ip := p\<rparr>" p]]
    effect_moved [OF effect_push(2) [of "i\<lparr>frame_ip := p\<rparr>" p]] by simp_all

lemma effect_done: "frame_ip i' = p \<Longrightarrow> frame_sp i' = frame_sp i \<Longrightarrow> same_frame i i' \<Longrightarrow>
    effect 0 0 p i (done_with i')"
  by (rule effectI) simp_all

lemma effect_run_handler:
  assumes "returns h" "frame_ip i = p"
  shows "effect (pops h) (pushes h) p i (run_handler h i)"
proof (cases "pops h \<le> length (frame_sp i)")
  case True
  from exec_handler_returns [OF assms(1) this] obtain r where r: "exec_handler h (frame_sp i) = Some r"
    by blast
  show ?thesis
  proof (cases r)
    case (Inl e)
    then show ?thesis by (simp add: run_handler_def r effect_trap)
  next
    case (Inr st)
    with exec_handler_result [of h "frame_sp i" st] r obtain vs
      where "length vs = pushes h" "st = vs @ drop (pops h) (frame_sp i)" by auto
    then show ?thesis using r Inr assms(2)
      by (simp add: run_handler_def effectI [where vs = vs] same_frame_def)
  qed
qed (simp add: effect_def)

section \<open>Immediates\<close>

text \<open>The memory the interpreter reads agrees with the loader's on a range of addresses.\<close>

definition agree :: "cmem \<Rightarrow> cmem \<Rightarrow> u32 \<Rightarrow> u32 \<Rightarrow> bool" where
  "agree m m' p q \<longleftrightarrow> (\<forall>a. unat p \<le> unat a \<and> unat a < unat q \<longrightarrow> m' a = m a)"

lemma agree_cbytes:
  assumes "agree m m' p q" "unat p + n \<le> unat q"
  shows "cbytes m' p n = cbytes m p n"
proof (rule nth_equalityI)
  fix j
  assume "j < length (cbytes m' p n)"
  then have j: "j < n" by simp
  then have "unat (p + of_nat j) = unat p + j"
    using assms(2) unat_u32_less [of q] by (intro unat_add_small) simp
  with j assms show "cbytes m' p n ! j = cbytes m p n ! j" by (simp add: agree_def)
qed simp

lemma agree_sub: "agree m m' p q \<Longrightarrow> unat p \<le> unat p' \<Longrightarrow> unat q' \<le> unat q \<Longrightarrow> agree m m' p' q'"
  by (simp add: agree_def)

lemma read_leb_fetched:
  assumes "read_leb m p e bits sign = Inr (v, p')" "bits = 32 \<or> bits = 64" "agree m m' p p'"
  shows "read_leb_quick m' p bits sign = Some (v, p')"
proof -
  from assms(1) obtain n where n: "bh_leb_read m p e bits sign = Inr (v, n)" "p' = p + of_nat n"
    by (auto simp: read_leb_def split: sum.splits)
  have b: "bits \<le> 64" using assms(2) by auto
  from bh_leb_read_Inr(3) [OF n(1) b] have "unat p + n < 2 ^ 32" using unat_u32_less [of e] by simp
  then have "unat p' = unat p + n" unfolding n(2) by (rule unat_add_small)
  then have "cbytes m' p n = cbytes m p n" by (intro agree_cbytes [OF assms(3)]) simp
  from read_leb_quick_bytes [OF n(1) assms(2) this] n(2) show ?thesis by simp
qed

lemma fetch_u32_eq:
  assumes "read_u32 p_end s = Inr (v, s1)" "frame_ip i = lp s" "agree (lmem s) (chip i) (lp s) (lp s1)"
  shows "fetch_u32 i = done_with (v, i\<lparr>frame_ip := lp s1\<rparr>)"
proof -
  from assms(1) obtain r where r: "read_leb (lmem s) (lp s) p_end 32 False = Inr (r, lp s1)" "v = ucast r"
    by (auto simp: read_u32_def read_leb_uint32_def)
  with read_leb_fetched [OF r(1) _ assms(3)] assms(2) show ?thesis
    by (simp add: fetch_u32_def)
qed

lemma read_u32_moves:
  assumes "read_u32 p_end s = Inr (v, s1)"
  shows "lctx s1 = lctx s" "lmem s1 = lmem s" "unat (lp s) < unat (lp s1)" "unat (lp s1) \<le> unat p_end"
proof -
  from assms obtain p where p: "read_leb_uint32 (lmem s) (lp s) p_end = Inr (v, p)" "s1 = s\<lparr>lp := p\<rparr>"
    by (auto simp: read_u32_def)
  from read_leb_uint32_Inr [OF p(1)] p(2)
  show "lctx s1 = lctx s" "lmem s1 = lmem s" "unat (lp s) < unat (lp s1)" "unat (lp s1) \<le> unat p_end"
    by simp_all
qed

section \<open>Instruction by instruction\<close>

definition matched :: "LoaderState \<Rightarrow> LoaderState \<Rightarrow> InterpState \<Rightarrow> InterpState run \<Rightarrow> bool" where
  "matched s s' i r \<longleftrightarrow> (\<exists>k q. counts k q (lctx s) (lctx s') \<and> effect k q (lp s') i r)"

lemma matchedI:
  "counts k q (lctx s) (lctx s') \<Longrightarrow> effect k q (lp s') i r \<Longrightarrow> matched s s' i r"
  by (auto simp: matched_def)

text \<open>A group of facts on the value types.\<close>

lemma is_32bit_valid: "is_valid_value_type t \<Longrightarrow> is_32bit_type t \<longleftrightarrow> t = VALUE_TYPE_I32 \<or> t = VALUE_TYPE_F32"
  unfolding valid_type_iff by (auto simp: is_32bit_type_def value_type_defs)

lemma is_64bit_valid: "is_valid_value_type t \<Longrightarrow> is_64bit_type t \<longleftrightarrow> t = VALUE_TYPE_I64 \<or> t = VALUE_TYPE_F64"
  unfolding valid_type_iff by (auto simp: is_64bit_type_def value_type_defs)

lemma live_top_valid:
  assumes "live c" "0 < available_cells c (hd (frame_csp c))"
  shows "is_valid_value_type (hd (frame_ref c))"
proof -
  from assms have "good_ctx c" and np: "\<not> poly_of c" by (auto simp: live_def)
  from this(1) assms(2) obtain ts segs where "ctx_rel c ((hd (frame_ref c) # ts) # segs)" by (rule top_cell)
  then obtain b bs fr' where "frame_csp c = b # bs" "segment_ok (is_stack_polymorphic b) (hd (frame_ref c) # ts)"
    "poly_of c = is_stack_polymorphic b" by (rule ctx_rel_Cons)
  with np show ?thesis by simp
qed

lemma live_available: "live c \<Longrightarrow> available_cells c (hd (frame_csp c)) = int (stack_cell_num c) - int (height c)"
  by (simp add: available_cells_def height_def)

lemma live_cell_enough:
  assumes "live c" "0 < available_cells c (hd (frame_csp c))"
  shows "height c + wasm_value_type_cell_num (hd (frame_ref c)) \<le> stack_cell_num c"
proof -
  from assms obtain ts segs where "ctx_rel c ((hd (frame_ref c) # ts) # segs)"
    by (auto simp: live_def elim: top_cell)
  from live_cells [OF this] show ?thesis by simp
qed

lemma drop_cells_counts:
  assumes "live c" "0 < available_cells c (hd (frame_csp c))"
  shows "counts (wasm_value_type_cell_num (hd (frame_ref c))) 0 c
    (drop_cells (wasm_value_type_cell_num (hd (frame_ref c))) c)"
proof -
  have "ctx_step c (drop_cells (wasm_value_type_cell_num (hd (frame_ref c))) c)"
    using assms by (intro drop_cells_step) (auto simp: live_def)
  then show ?thesis using assms live_cell_enough [OF assms]
    by (auto simp: counts_def live_def stack_only_def drop_cells_def poly_of_def dest: ctx_step_good)
qed

lemma exec_drop_effect: "frame_ip i = p \<Longrightarrow> effect n 0 p i (exec_drop n i)"
  by (cases "n \<le> length (frame_sp i)") (auto simp: exec_drop_def effect_def done_with_def same_frame_def)

lemma exec_select_effect:
  "frame_ip i = p \<Longrightarrow> effect 3 1 p i (exec_select i)" "frame_ip i = p \<Longrightarrow> effect 5 2 p i (exec_select_64 i)"
  unfolding exec_select_def exec_select_64_def numeral_eq_Suc pred_numeral_simps arith_simps BitM.simps
  by (intro effect_pop32 effect_pop64; simp add: effect_push effect_push [unfolded One_nat_def numeral_2_eq_2])+

lemma poke_simps [simp]: "lctx (poke a b s) = lctx s" "lp (poke a b s) = lp s" "lmem (poke a b s) = (lmem s)(a := b)"
  by (simp_all add: poke_def)

lemma op_drop_matched:
  assumes "live (lctx s)" "op_drop s = Inr s'" "lmem s (lp s - 1) = 0x1a" "frame_ip i = lp s"
  shows "matched s s' i (exec_plain V F (lmem s' (lp s - 1)) i)"
proof -
  let ?c = "lctx s"
  have av: "0 < available_cells ?c (hd (frame_csp ?c))"
    using assms(1,2) by (auto simp: op_drop_def live_def poly_of_def Let_def split: if_splits)
  note val = live_top_valid [OF assms(1) av] and counts = drop_cells_counts [OF assms(1) av]
  show ?thesis
  proof (cases "is_32bit_type (hd (frame_ref ?c))")
    case True
    then have "s' = s\<lparr>lctx := drop_cells 1 ?c\<rparr>" using assms(2) av by (simp add: op_drop_def Let_def)
    then show ?thesis using counts True exec_drop_effect [OF assms(4), of 1] assms(3)
      by (intro matchedI [where k = 1 and q = 0]) (simp_all add: cell_num_32 exec_plain_def)
  next
    case False
    then have w: "is_64bit_type (hd (frame_ref ?c))" using val is_32bit_valid is_64bit_valid valid_type_iff by blast
    then have "s' = poke (lp s - 1) WASM_OP_DROP_64 (s\<lparr>lctx := drop_cells 2 ?c\<rparr>)"
      using False assms(2) av by (simp add: op_drop_def Let_def)
    then show ?thesis using counts w exec_drop_effect [OF assms(4), of 2]
      by (intro matchedI [where k = 2 and q = 0]) (simp_all add: cell_num_64 exec_plain_def WASM_OP_DROP_64_def)
  qed
qed

lemma op_select_matched:
  assumes "live (lctx s)" "op_select av s = Inr s'" "lmem s (lp s - 1) = 0x1b" "frame_ip i = lp s"
  shows "matched s s' i (exec_plain V F (lmem s' (lp s - 1)) i)"
proof -
  from assms(2) obtain s1 where s1: "POP_TYPE VALUE_TYPE_I32 s = Inr s1" by (auto simp: op_select_def)
  note m1 = POP_TYPE_moves [OF assms(1) _ s1]
  have l1: "live (lctx s1)" using m1 by (simp add: moves_live)
  let ?c = "lctx s1"
  let ?t = "hd (frame_ref ?c)"
  have av: "0 < available_cells ?c (hd (frame_csp ?c))"
    using assms(2) s1 l1 by (auto simp: op_select_def live_def poly_of_def Let_def split: if_splits)
  note val = live_top_valid [OF l1 av]
  have lp1: "lp s1 = lp s" "lmem s1 = lmem s" using m1 by (simp_all add: moves_def)
  show ?thesis
  proof (cases "is_32bit_type ?t")
    case True
    then have "POPS_AND_PUSH av 2 ?t ?t s1 = Inr s'" using assms(2) s1 av by (simp add: op_select_def Let_def)
    from POPS_AND_PUSH_moves [OF l1 val val this] have m2: "moves 2 1 s1 s'" using True by (simp add: cell_num_32)
    have "counts 3 1 (lctx s) (lctx s')"
      using m1 m2 stack_only_height [of "lctx s" ?c] by (auto simp: moves_def counts_def intro: stack_only_trans)
    moreover have "lmem s' (lp s - 1) = 0x1b" "lp s' = lp s" using m2 lp1 assms(3) by (simp_all add: moves_def)
    ultimately show ?thesis using exec_select_effect(1) [OF assms(4)]
      by (intro matchedI [where k = 3 and q = 1]) (simp_all add: exec_plain_def WASM_OP_DROP_64_def)
  next
    case False
    then have w: "is_64bit_type ?t" using val is_32bit_valid is_64bit_valid valid_type_iff by blast
    then have pp: "POPS_AND_PUSH av 2 ?t ?t (poke (lp s1 - 1) WASM_OP_SELECT_64 s1) = Inr s'"
      using False assms(2) s1 av by (simp add: op_select_def Let_def)
    have "moves 4 2 (poke (lp s1 - 1) WASM_OP_SELECT_64 s1) s'"
      using POPS_AND_PUSH_moves [OF _ val val pp] l1 w by (simp add: cell_num_64)
    then have m2: "counts 4 2 ?c (lctx s')" "lmem s' (lp s - 1) = WASM_OP_SELECT_64" "lp s' = lp s"
      using lp1 by (simp_all add: moves_def)
    have "counts 5 2 (lctx s) (lctx s')"
      using m1 m2 stack_only_height [of "lctx s" ?c] by (auto simp: moves_def counts_def intro: stack_only_trans)
    then show ?thesis using exec_select_effect(2) [OF assms(4)] m2
      by (intro matchedI [where k = 5 and q = 2]) (simp_all add: exec_plain_def WASM_OP_SELECT_64_def
          WASM_OP_DROP_64_def)
  qed
qed

section \<open>Locals\<close>

definition local_type :: "WASMFunction \<Rightarrow> nat \<Rightarrow> u8" where
  "local_type F j = (let n = param_count (func_type F) in
     if j < n then types (func_type F) ! j else local_types F ! (j - n))"

definition local_count :: "WASMFunction \<Rightarrow> nat" where
  "local_count F = param_count (func_type F) + length (local_types F)"

text \<open>The frame has the cells of every local.\<close>

definition locals_fit :: "WASMFunction \<Rightarrow> nat \<Rightarrow> bool" where
  "locals_fit F cells \<longleftrightarrow> (\<forall>j < local_count F.
     unat (local_offsets F ! j) + wasm_value_type_cell_num (local_type F j) \<le> cells)"

lemma local_type_valid:
  assumes "function_ok F" "j < local_count F"
  shows "is_valid_value_type (local_type F j)"
proof (cases "j < param_count (func_type F)")
  case True
  have "param_count (func_type F) \<le> length (types (func_type F))"
    and "list_all is_valid_value_type (types (func_type F))"
    using assms(1) by (auto simp: function_ok_def func_type_ok_def)
  then show ?thesis using True by (simp add: local_type_def list_all_length)
next
  case False
  then show ?thesis using assms
    by (auto simp: local_type_def Let_def function_ok_def local_count_def list_all_length)
qed

lemma get_local_Inr:
  assumes "get_local F p_end s = Inr (t, off, s1)"
  obtains j where "read_u32 p_end s = Inr (j, s1)" "unat j < local_count F" "t = local_type F (unat j)"
    "off = local_offsets F ! unat j"
  using assms by (auto simp: get_local_def local_count_def local_type_def Let_def split: if_splits)

lemma store_local_64_run:
  assumes "off + 2 \<le> length (frame_lp i)"
  obtains i' where "store_local_64 off v i = done_with i'" "frame_ip i' = frame_ip i"
    "frame_sp i' = frame_sp i" "same_frame i i'"
  using assms by (auto simp: store_local_64_def store_local_def same_frame_def)

lemma store_local_run:
  assumes "off + 1 \<le> length (frame_lp i)"
  obtains i' where "store_local off v i = done_with i'" "frame_ip i' = frame_ip i"
    "frame_sp i' = frame_sp i" "same_frame i i'"
  using assms by (auto simp: store_local_def same_frame_def)

lemma get_local_cells_effect:
  assumes "off + (if w then 2 else 1) \<le> length (frame_lp i)" "frame_ip i = p"
  shows "effect 0 (if w then 2 else 1) p i (get_local_cells w off i)"
  using assms by (auto simp: get_local_cells_def load_local_64_def load_local_def
      intro: effect_push effect_push [unfolded One_nat_def])

lemma set_local_cells_effect:
  assumes "off + (if w then 2 else 1) \<le> length (frame_lp i)" "frame_ip i = p"
  shows "effect (if w then 2 else 1) 0 p i (set_local_cells w off i)"
proof (cases w)
  case True
  have "effect (Suc (Suc 0)) 0 p i (bindR (pop64 i) (\<lambda>(v, i). store_local_64 off v i))"
  proof (rule effect_pop64)
    fix v st
    let ?i = "i\<lparr>frame_sp := st\<rparr>"
    obtain i' where "store_local_64 off v ?i = done_with i'" "frame_ip i' = frame_ip ?i"
      "frame_sp i' = frame_sp ?i" "same_frame ?i i'"
      using assms(1) True by (auto intro: store_local_64_run [of off ?i v])
    then show "effect 0 0 p ?i (case (v, ?i) of (v, i) \<Rightarrow> store_local_64 off v i)"
      using assms(2) by (simp add: effect_done)
  qed
  then show ?thesis using True by (simp add: set_local_cells_def numeral_2_eq_2)
next
  case False
  have "effect (Suc 0) 0 p i (bindR (pop32 i) (\<lambda>(v, i). store_local off v i))"
  proof (rule effect_pop32)
    fix v st
    let ?i = "i\<lparr>frame_sp := st\<rparr>"
    obtain i' where "store_local off v ?i = done_with i'" "frame_ip i' = frame_ip ?i"
      "frame_sp i' = frame_sp ?i" "same_frame ?i i'"
      using assms(1) False by (auto intro: store_local_run [of off ?i v])
    then show "effect 0 0 p ?i (case (v, ?i) of (v, i) \<Rightarrow> store_local off v i)"
      using assms(2) by (simp add: effect_done)
  qed
  then show ?thesis using False by (simp add: set_local_cells_def)
qed

lemma tee_local_cells_effect:
  assumes "off + (if w then 2 else 1) \<le> length (frame_lp i)" "frame_ip i = p"
  shows "effect (if w then 2 else 1) (if w then 2 else 1) p i (tee_local_cells w off i)"
proof (cases w)
  case True
  show ?thesis
  proof (cases "2 \<le> length (frame_sp i)")
    case sp: True
    then obtain hi lo st where sp: "frame_sp i = hi # lo # st"
      by (cases "frame_sp i"; cases "tl (frame_sp i)") auto
    obtain i' where "store_local_64 off (u64_of_cells [hi, lo]) i = done_with i'"
      "frame_ip i' = frame_ip i" "frame_sp i' = frame_sp i" "same_frame i i'"
      using assms(1) True by (auto intro: store_local_64_run [of off i "u64_of_cells [hi, lo]"])
    then show ?thesis using assms(2) True sp
      by (simp add: tee_local_cells_def pop64_def effectI [where vs = "[hi, lo]"])
  qed (simp add: effect_def True)
next
  case False
  show ?thesis
  proof (cases "frame_sp i")
    case (Cons v st)
    obtain i' where "store_local off v i = done_with i'"
      "frame_ip i' = frame_ip i" "frame_sp i' = frame_sp i" "same_frame i i'"
      using assms(1) False by (auto intro: store_local_run [of off i v])
    then show ?thesis using assms(2) False Cons
      by (simp add: tee_local_cells_def pop32_def effectI [where vs = "[v]"])
  qed (simp add: effect_def False)
qed

text \<open>The bytes an instruction no longer needs are nops: the interpreter walks over them.\<close>

lemma exec_nops:
  assumes "\<forall>a. unat (frame_ip i) \<le> unat a \<and> unat a < unat (frame_ip i) + n \<longrightarrow> chip i a = WASM_OP_NOP"
    and "unat (frame_ip i) + n < 2 ^ 32"
  shows "exec_steps V F n i = done_with (i\<lparr>frame_ip := frame_ip i + of_nat n\<rparr>)"
  using assms
proof (induction n arbitrary: i)
  case (Suc n)
  let ?i = "i\<lparr>frame_ip := frame_ip i + 1\<rparr>"
  have u: "unat (frame_ip i + 1) = unat (frame_ip i) + 1"
    using Suc.prems(2) unat_add_small [of "frame_ip i" 1] by simp
  have "exec_step V F i = done_with ?i"
    using Suc.prems(1) by (simp add: exec_step_def fetch_byte_def exec_plain_def WASM_OP_NOP_def)
  moreover have "exec_steps V F n ?i = done_with (?i\<lparr>frame_ip := frame_ip ?i + of_nat n\<rparr>)"
    by (rule Suc.IH) (use Suc.prems u in auto)
  ultimately show ?case by (simp add: add.assoc)
qed simp

definition keeps_chip :: "InterpState \<Rightarrow> InterpState run \<Rightarrow> bool" where
  "keeps_chip i r \<longleftrightarrow> (\<forall>i'. r = Some (Inr i') \<longrightarrow> chip i' = chip i \<and> frame_ip i' = frame_ip i)"

text \<open>After \<open>r\<close>, \<open>n\<close> steps do nothing but go on.\<close>

definition idles :: "interp_env \<Rightarrow> WASMFunction \<Rightarrow> nat \<Rightarrow> InterpState run \<Rightarrow> bool" where
  "idles V F n r \<longleftrightarrow> (\<forall>i' m. r = Some (Inr i') \<and> m \<le> n \<longrightarrow>
     exec_steps V F m i' = done_with (i'\<lparr>frame_ip := frame_ip i' + of_nat m\<rparr>))"

lemma idles_0 [simp]: "idles V F 0 r"
  by (simp add: idles_def)

lemma idle_nops:
  assumes "keeps_chip j r" "frame_ip j = p"
    and "\<forall>a. unat p \<le> unat a \<and> unat a < unat p + n \<longrightarrow> chip j a = WASM_OP_NOP" "unat p + n < 2 ^ 32"
  shows "idles V F n r"
  unfolding idles_def
proof (intro allI impI)
  fix i' m
  assume "r = Some (Inr i') \<and> m \<le> n"
  then show "exec_steps V F m i' = done_with (i'\<lparr>frame_ip := frame_ip i' + of_nat m\<rparr>)"
    using assms by (intro exec_nops) (auto simp: keeps_chip_def)
qed

lemma effect_nops:
  assumes "effect k q p i r" "keeps_chip j r"
    and "\<forall>a. unat p \<le> unat a \<and> unat a < unat p + n \<longrightarrow> chip j a = WASM_OP_NOP"
    and "unat p + n < 2 ^ 32" "p' = p + of_nat n"
  shows "effect k q p' i (bindR r (exec_steps V F n))"
proof (cases r)
  case (Some x)
  show ?thesis
  proof (cases x)
    case (Inl e)
    then show ?thesis using Some by (simp add: effect_trap)
  next
    case (Inr i')
    show ?thesis
    proof (cases "k \<le> length (frame_sp i)")
      case True
      with assms(1) Some Inr obtain vs where i': "frame_ip i' = p" "frame_sp i' = vs @ drop k (frame_sp i)"
        "length vs = q" "same_frame i i'" by (auto simp: effect_def)
      have "chip i' = chip j" using assms(2) Some Inr by (simp add: keeps_chip_def)
      then have "exec_steps V F n i' = done_with (i'\<lparr>frame_ip := p'\<rparr>)"
        using exec_nops [of i' n V F] assms(3-5) i'(1) by simp
      then show ?thesis using i' Some Inr
        by (simp add: effectI [where vs = vs] same_frame_def)
    qed (simp add: effect_def)
  qed
qed (use assms(1) in \<open>auto simp: effect_def bindR_def\<close>)

lemma local_cells_keep:
  "keeps_chip i (get_local_cells w off i)" "keeps_chip i (set_local_cells w off i)"
  "keeps_chip i (tee_local_cells w off i)"
  by (auto simp: keeps_chip_def get_local_cells_def set_local_cells_def tee_local_cells_def bindR_def
      load_local_64_def load_local_def store_local_64_def store_local_def push32_def push64_def pop32_def
      pop64_def done_with_def stuck_def split: if_splits option.splits sum.splits list.splits)

lemma rewrite_local_simps [simp]:
  "lctx (rewrite_local f t off p s) = lctx s" "lp (rewrite_local f t off p s) = lp s"
  by (simp_all add: rewrite_local_def fill_nops_def)

lemma fast_offset_byte:
  fixes off :: u16
  assumes "off < 0x80"
  shows "(ucast off :: u8) AND 0x80 = 0" "unat ((ucast off :: u8) AND 0x7f) = unat off"
    "(ucast (off OR 0x80) :: u8) AND 0x80 \<noteq> 0" "unat ((ucast (off OR 0x80) :: u8) AND 0x7f) = unat off"
proof -
  define b where "b = (ucast off :: u8)"
  have n: "unat off < 128" using assms by (simp add: word_less_nat_alt)
  have ub: "unat b = unat off" using n by (simp add: b_def unsigned_ucast_eq take_bit_nat_eq_self)
  have c: "(ucast (off OR 0x80) :: u8) = b OR 0x80"
    by (rule bit_word_eqI) (auto simp: b_def bit_simps)
  have "unat b < 128 \<longrightarrow> b AND 0x80 = 0 \<and> b AND 0x7f = b \<and> (b OR 0x80) AND 0x80 \<noteq> 0 \<and>
      (b OR 0x80) AND 0x7f = b"
    by (rule byte_all [where P = "\<lambda>b. unat b < 128 \<longrightarrow> b AND 0x80 = 0 \<and> b AND 0x7f = b \<and>
        (b OR 0x80) AND 0x80 \<noteq> 0 \<and> (b OR 0x80) AND 0x7f = b"]) code_simp
  then show "(ucast off :: u8) AND 0x80 = 0" "unat ((ucast off :: u8) AND 0x7f) = unat off"
    "(ucast (off OR 0x80) :: u8) AND 0x80 \<noteq> 0" "unat ((ucast (off OR 0x80) :: u8) AND 0x7f) = unat off"
    using n ub c by (auto simp: b_def [symmetric])
qed

lemma bindR_done [simp]: "bindR r done_with = r"
  by (auto simp: bindR_def done_with_def split: option.splits sum.splits)

lemma exec_steps_0: "exec_steps V F 0 = done_with"
  by (rule ext) simp

lemma rewritten_bytes:
  assumes "off < 0x80" "lp s = p + 1" "0 < unat (lp s)" "unat (lp s) < unat (lp s1)"
  shows "lmem (rewrite_local fast t off p s1) p = fast"
    "lmem (rewrite_local fast t off p s1) (lp s) =
       (if is_32bit_type t then ucast off else ucast (off OR 0x80))"
    "unat (lp s) + 1 \<le> unat a \<and> unat a < unat (lp s1) \<Longrightarrow>
       lmem (rewrite_local fast t off p s1) a = WASM_OP_NOP"
proof -
  have p: "p = lp s - 1" and p2: "p + 2 = lp s + 1" using assms(2) by simp_all
  have up: "unat p = unat (lp s) - 1" unfolding p using assms(3) by (simp add: unat_sub word_le_nat_alt)
  have u2: "unat (lp s + 1) = unat (lp s) + 1"
    using assms(4) unat_u32_less [of "lp s1"] unat_add_small [of "lp s" 1] by simp
  show "lmem (rewrite_local fast t off p s1) p = fast"
    using assms(1) up u2 assms(3) by (auto simp: rewrite_local_def fill_nops_def p2 word_le_nat_alt)
  show "lmem (rewrite_local fast t off p s1) (lp s) =
      (if is_32bit_type t then ucast off else ucast (off OR 0x80))"
    using assms(1,2) u2 by (simp add: rewrite_local_def fill_nops_def p2 word_le_nat_alt)
  show "lmem (rewrite_local fast t off p s1) a = WASM_OP_NOP"
    if "unat (lp s) + 1 \<le> unat a \<and> unat a < unat (lp s1)"
    using that assms(1) u2 by (simp add: rewrite_local_def fill_nops_def p2 word_le_nat_alt word_less_nat_alt)
qed

lemma local_matched:
  assumes F: "function_ok F" and fit: "locals_fit F (length (frame_lp i))"
    and gl: "get_local F p_end s = Inr (t, off, s1)"
    and mem: "lmem s' = lmem (rewrite_local fast t off (lp s - 1) s1)" "lp s' = lp s1"
    and c: "counts (K (is_64bit_type t)) (Q (is_64bit_type t)) (lctx s) (lctx s')"
    and eff: "\<And>w off j. off + (if w then 2 else 1) \<le> length (frame_lp j) \<Longrightarrow>
      effect (K w) (Q w) (frame_ip j) j (f w off j)"
    and keeps: "\<And>w off j. keeps_chip j (f w off j)"
    and slow: "\<And>j. exec_plain V F (lmem s (lp s - 1)) j = bindR (fetch_local F j) (\<lambda>(w, off, j). f w off j)"
    and fast: "\<And>j. exec_plain V F fast j = (let (w, off, j) = fetch_local_fast j in f w off j)"
    and ip: "frame_ip i = lp s" and ag: "agree (lmem s') (chip i) (lp s) (lp s')" and pos: "0 < unat (lp s)"
  shows "\<exists>n. matched s s' i (bindR (exec_plain V F (lmem s' (lp s - 1)) i) (exec_steps V F n)) \<and>
    idles V F n (exec_plain V F (lmem s' (lp s - 1)) i)"
proof -
  from gl obtain j where j: "read_u32 p_end s = Inr (j, s1)" "unat j < local_count F"
    "t = local_type F (unat j)" "off = local_offsets F ! unat j" by (rule get_local_Inr)
  let ?w = "is_64bit_type t"
  have val: "is_valid_value_type t" unfolding j(3) by (rule local_type_valid [OF F j(2)])
  then have n32: "is_32bit_type t \<longleftrightarrow> \<not> ?w"
    unfolding valid_type_iff by (auto simp: is_64bit_type_def is_32bit_type_def value_type_defs)
  then have cells: "wasm_value_type_cell_num t = (if ?w then 2 else 1)"
    using cell_num_32 [of t] cell_num_64 [of t] by auto
  have room: "unat off + (if ?w then 2 else 1) \<le> length (frame_lp i)"
    using fit j(2,4) cells by (auto simp: locals_fit_def j(3))
  note rd = read_u32_moves [OF j(1)]
  show ?thesis
  proof (cases "off < 0x80")
    case True
    have lps: "lp s = (lp s - 1) + 1" by simp
    note bytes = rewritten_bytes [OF True lps pos rd(3), where fast = fast and t = t, folded mem(1)]
    have u1: "unat (lp s + 1) = unat (lp s) + 1"
      using rd(3) unat_u32_less [of "lp s1"] unat_add_small [of "lp s" 1] by simp
    let ?i = "i\<lparr>frame_ip := lp s + 1\<rparr>"
    have "chip i (lp s) = lmem s' (lp s)" using ag rd(3) mem(2) by (simp add: agree_def)
    then have "fetch_local_fast i = (?w, unat off, ?i)"
      using bytes(2) n32 ip fast_offset_byte [OF True] by (simp add: fetch_local_fast_def fetch_byte_def)
    then have run: "exec_plain V F (lmem s' (lp s - 1)) i = f ?w (unat off) ?i"
      by (simp add: bytes(1) fast)
    have e1: "effect (K ?w) (Q ?w) (lp s + 1) i (f ?w (unat off) ?i)"
      using eff [where j = ?i and w = ?w, of "unat off"] room by (auto intro: effect_moved)
    let ?n = "unat (lp s1) - unat (lp s) - 1"
    have nops: "\<forall>a. unat (lp s + 1) \<le> unat a \<and> unat a < unat (lp s + 1) + ?n \<longrightarrow> chip ?i a = WASM_OP_NOP"
    proof (intro allI impI)
      fix a :: u32
      assume a: "unat (lp s + 1) \<le> unat a \<and> unat a < unat (lp s + 1) + ?n"
      then have "unat (lp s) + 1 \<le> unat a \<and> unat a < unat (lp s1)" using u1 rd(3) by auto
      with bytes(3) ag mem(2) show "chip ?i a = WASM_OP_NOP" by (simp add: agree_def)
    qed
    have room: "unat (lp s + 1) + ?n < 2 ^ 32" using u1 rd(3) unat_u32_less [of "lp s1"] by simp
    have "lp s' = lp s + 1 + of_nat ?n"
      using u1 rd(3) unat_u32_less [of "lp s1"] unat_add_small [of "lp s + 1" ?n] mem(2)
      by (intro unsigned_word_eqI) simp
    from effect_nops [OF e1 keeps nops room this]
    have "effect (K ?w) (Q ?w) (lp s') i (bindR (f ?w (unat off) ?i) (exec_steps V F ?n))" .
    moreover have "idles V F ?n (f ?w (unat off) ?i)" by (rule idle_nops [OF keeps _ nops room]) simp
    ultimately show ?thesis using c run by (intro exI [of _ ?n]) (auto intro: matchedI)
  next
    case False
    then have "lmem s' = lmem s" using mem(1) rd(2) by (simp add: rewrite_local_def)
    then have "fetch_u32 i = done_with (j, i\<lparr>frame_ip := lp s1\<rparr>)"
      using fetch_u32_eq [OF j(1) ip] ag mem(2) by simp
    moreover have "t = VALUE_TYPE_I32 \<or> t = VALUE_TYPE_F32 \<longleftrightarrow> \<not> ?w"
      "t = VALUE_TYPE_I64 \<or> t = VALUE_TYPE_F64 \<longleftrightarrow> ?w"
      using val is_32bit_valid is_64bit_valid n32 by blast+
    ultimately have "fetch_local F i = done_with (?w, unat off, i\<lparr>frame_ip := lp s1\<rparr>)"
      using j(2-4) by (auto simp: fetch_local_def local_count_def local_type_def Let_def)
    then have "exec_plain V F (lmem s' (lp s - 1)) i = f ?w (unat off) (i\<lparr>frame_ip := lp s1\<rparr>)"
      using slow \<open>lmem s' = lmem s\<close> by simp
    moreover have "effect (K ?w) (Q ?w) (lp s') i (f ?w (unat off) (i\<lparr>frame_ip := lp s1\<rparr>))"
      using eff [where j = "i\<lparr>frame_ip := lp s1\<rparr>" and w = ?w, of "unat off"] room mem(2) by (auto intro: effect_moved)
    ultimately show ?thesis using c by (intro exI [of _ 0]) (auto simp: exec_steps_0 intro: matchedI)
  qed
qed

text \<open>The three instructions. \<open>follows\<close> is what is shown of every one: some number of steps after the
  opcode has been fetched, matched by the validation of the instruction.\<close>

definition follows :: "interp_env \<Rightarrow> WASMFunction \<Rightarrow> LoaderState \<Rightarrow> LoaderState \<Rightarrow> InterpState \<Rightarrow> bool" where
  "follows V F s s' i \<longleftrightarrow>
     (\<exists>n. matched s s' i (bindR (exec_plain V F (lmem s' (lp s - 1)) i) (exec_steps V F n)) \<and>
          idles V F n (exec_plain V F (lmem s' (lp s - 1)) i))"

lemma follows_once:
  "matched s s' i (exec_plain V F (lmem s' (lp s - 1)) i) \<Longrightarrow> follows V F s s' i"
  unfolding follows_def by (rule exI [of _ 0]) (simp add: exec_steps_0)

lemmas opcode_values =
  EXT_OP_GET_LOCAL_FAST_def EXT_OP_SET_LOCAL_FAST_def EXT_OP_TEE_LOCAL_FAST_def
  WASM_OP_GET_GLOBAL_64_def WASM_OP_SET_GLOBAL_64_def WASM_OP_SET_GLOBAL_AUX_STACK_def
  WASM_OP_DROP_64_def WASM_OP_SELECT_64_def

lemma exec_plain_local:
  "exec_plain V F 0x20 j = bindR (fetch_local F j) (\<lambda>(w, off, j). get_local_cells w off j)"
  "exec_plain V F 0x21 j = bindR (fetch_local F j) (\<lambda>(w, off, j). set_local_cells w off j)"
  "exec_plain V F 0x22 j = bindR (fetch_local F j) (\<lambda>(w, off, j). tee_local_cells w off j)"
  "exec_plain V F EXT_OP_GET_LOCAL_FAST j = (let (w, off, j) = fetch_local_fast j in get_local_cells w off j)"
  "exec_plain V F EXT_OP_SET_LOCAL_FAST j = (let (w, off, j) = fetch_local_fast j in set_local_cells w off j)"
  "exec_plain V F EXT_OP_TEE_LOCAL_FAST j = (let (w, off, j) = fetch_local_fast j in tee_local_cells w off j)"
  by (simp_all add: exec_plain_def exec_local_def opcode_values Let_def split: prod.splits)

lemma local_cells_num:
  assumes "function_ok F" "get_local F p_end s = Inr (t, off, s1)"
  shows "is_valid_value_type t" "wasm_value_type_cell_num t = (if is_64bit_type t then 2 else 1)"
proof -
  from assms(2) obtain j where "read_u32 p_end s = Inr (j, s1)" "unat j < local_count F"
    "t = local_type F (unat j)" "off = local_offsets F ! unat j" by (rule get_local_Inr)
  then show val: "is_valid_value_type t" using local_type_valid [OF assms(1)] by blast
  then have "is_32bit_type t \<longleftrightarrow> \<not> is_64bit_type t"
    unfolding valid_type_iff by (auto simp: is_64bit_type_def is_32bit_type_def value_type_defs)
  then show "wasm_value_type_cell_num t = (if is_64bit_type t then 2 else 1)"
    using cell_num_32 [of t] cell_num_64 [of t] by auto
qed

lemma get_local_moves:
  assumes "get_local F p_end s = Inr (t, off, s1)"
  shows "lctx s1 = lctx s" "lmem s1 = lmem s" "unat (lp s) < unat (lp s1)"
proof -
  from assms obtain j where "read_u32 p_end s = Inr (j, s1)" "unat j < local_count F"
    "t = local_type F (unat j)" "off = local_offsets F ! unat j" by (rule get_local_Inr)
  from read_u32_moves [OF this(1)]
  show "lctx s1 = lctx s" "lmem s1 = lmem s" "unat (lp s) < unat (lp s1)" by simp_all
qed

lemma rewrite_local_lmem:
  "lmem s = lmem s1 \<Longrightarrow> lp s = lp s1 \<Longrightarrow>
   lmem (rewrite_local f t off p s) = lmem (rewrite_local f t off p s1)"
  by (auto simp: rewrite_local_def fill_nops_def)

text \<open>What every instruction is given.\<close>

definition machine_at :: "WASMFunction \<Rightarrow> LoaderState \<Rightarrow> LoaderState \<Rightarrow> InterpState \<Rightarrow> bool" where
  "machine_at F s s' i \<longleftrightarrow> frame_ip i = lp s \<and> agree (lmem s') (chip i) (lp s) (lp s') \<and>
     0 < unat (lp s) \<and> locals_fit F (length (frame_lp i))"

lemma op_get_local_follows:
  assumes "live (lctx s)" "function_ok F" "op_get_local av F p_end s = Inr s'" "lmem s (lp s - 1) = 0x20"
    and "machine_at F s s' i"
  shows "follows V F s s' i"
proof -
  from assms(3) obtain t off s1 s2 where gl: "get_local F p_end s = Inr (t, off, s1)"
    and ps: "PUSH_TYPES av [t] s1 = Inr s2"
    and s': "s' = rewrite_local EXT_OP_GET_LOCAL_FAST t off (lp s - 1) s2"
    by (auto simp: op_get_local_def Let_def)
  note val = local_cells_num [OF assms(2) gl] and gm = get_local_moves [OF gl]
  have "moves 0 (if is_64bit_type t then 2 else 1) s1 s2"
    using PUSH_TYPES_moves [OF _ _ ps] assms(1) val gm by simp
  then have c: "counts 0 (if is_64bit_type t then 2 else 1) (lctx s) (lctx s')" and m: "lmem s2 = lmem s1" "lp s2 = lp s1"
    using s' gm by (simp_all add: moves_def)
  note m' = rewrite_local_lmem [OF m]
  show ?thesis unfolding follows_def
    by (rule local_matched [where K = "\<lambda>_. 0" and Q = "\<lambda>w. if w then 2 else 1" and f = get_local_cells
          and fast = EXT_OP_GET_LOCAL_FAST, OF assms(2) _ gl])
      (use assms(4,5) c s' m m' in \<open>simp_all add: machine_at_def get_local_cells_effect
         local_cells_keep exec_plain_local\<close>)
qed

lemma op_set_local_follows:
  assumes "live (lctx s)" "function_ok F" "op_set_local F p_end s = Inr s'" "lmem s (lp s - 1) = 0x21"
    and "machine_at F s s' i"
  shows "follows V F s s' i"
proof -
  from assms(3) obtain t off s1 where gl: "get_local F p_end s = Inr (t, off, s1)"
    and ps: "POP_TYPE t (rewrite_local EXT_OP_SET_LOCAL_FAST t off (lp s - 1) s1) = Inr s'"
    by (auto simp: op_set_local_def Let_def)
  note val = local_cells_num [OF assms(2) gl] and gm = get_local_moves [OF gl]
  have "moves (if is_64bit_type t then 2 else 1) 0 (rewrite_local EXT_OP_SET_LOCAL_FAST t off (lp s - 1) s1) s'"
    using POP_TYPE_moves [OF _ val(1) ps] assms(1) val gm by simp
  then have c: "counts (if is_64bit_type t then 2 else 1) 0 (lctx s) (lctx s')"
    and m: "lmem s' = lmem (rewrite_local EXT_OP_SET_LOCAL_FAST t off (lp s - 1) s1)" "lp s' = lp s1"
    using gm by (simp_all add: moves_def)
  show ?thesis unfolding follows_def
    by (rule local_matched [where K = "\<lambda>w. if w then 2 else 1" and Q = "\<lambda>_. 0" and f = set_local_cells
          and fast = EXT_OP_SET_LOCAL_FAST, OF assms(2) _ gl])
      (use assms(4,5) c m in \<open>simp_all add: machine_at_def set_local_cells_effect
         local_cells_keep exec_plain_local\<close>)
qed

lemma op_tee_local_follows:
  assumes "live (lctx s)" "function_ok F" "op_tee_local av F p_end s = Inr s'" "lmem s (lp s - 1) = 0x22"
    and "machine_at F s s' i"
  shows "follows V F s s' i"
proof -
  from assms(3) obtain t off s1 s2 s3 where gl: "get_local F p_end s = Inr (t, off, s1)"
    and pp: "POP_TYPE t s1 = Inr s2" and ps: "PUSH_TYPES av [t] s2 = Inr s3"
    and s': "s' = rewrite_local EXT_OP_TEE_LOCAL_FAST t off (lp s - 1) s3"
    by (auto simp: op_tee_local_def Let_def)
  note val = local_cells_num [OF assms(2) gl] and gm = get_local_moves [OF gl]
  let ?n = "if is_64bit_type t then 2 else 1"
  have 1: "moves ?n 0 s1 s2" using POP_TYPE_moves [OF _ val(1) pp] assms(1) val gm by simp
  have "moves 0 ?n s2 s3" using PUSH_TYPES_moves [OF moves_live [OF 1] _ ps] val by simp
  with 1 have "moves ?n ?n s1 s3" by (rule moves_trans)
  then have c: "counts ?n ?n (lctx s) (lctx s')" and m: "lmem s3 = lmem s1" "lp s3 = lp s1"
    using s' gm by (simp_all add: moves_def)
  note m' = rewrite_local_lmem [OF m]
  show ?thesis unfolding follows_def
    by (rule local_matched [where K = "\<lambda>w. if w then 2 else 1" and Q = "\<lambda>w. if w then 2 else 1"
          and f = tee_local_cells and fast = EXT_OP_TEE_LOCAL_FAST, OF assms(2) _ gl])
      (use assms(4,5) c s' m m' in \<open>simp_all add: machine_at_def tee_local_cells_effect
         local_cells_keep exec_plain_local\<close>)
qed

section \<open>Globals and memory\<close>

definition global_count :: "WASMModule \<Rightarrow> nat" where
  "global_count M = length (import_globals M) + length (globals M)"

definition global_type :: "WASMModule \<Rightarrow> nat \<Rightarrow> u8" where
  "global_type M j = fst (if j < length (import_globals M) then import_globals M ! j
     else globals M ! (j - length (import_globals M)))"

lemma get_global_Inr:
  assumes "get_global M p_end s = Inr (i, t, mut, s1)"
  obtains j where "read_u32 p_end s = Inr (j, s1)" "i = unat j" "unat j < global_count M"
    "t = global_type M (unat j)"
  using assms by (auto simp: get_global_def global_count_def global_type_def Let_def split: if_splits)

lemma global_type_valid:
  assumes "module_ok M" "j < global_count M"
  shows "is_valid_value_type (global_type M j)"
  using assms by (auto simp: global_type_def global_count_def module_ok_def list_all_length)

lemma type_width:
  assumes "is_valid_value_type t"
  shows "wasm_value_type_cell_num t = (if t = VALUE_TYPE_I64 \<or> t = VALUE_TYPE_F64 then 2 else 1)"
  using assms cell_num_32 [of t] cell_num_64 [of t] is_32bit_valid [OF assms] is_64bit_valid [OF assms]
  unfolding valid_type_iff by auto

lemma exec_plain_global:
  "opcode \<in> {0x23, 0x24, WASM_OP_GET_GLOBAL_64, WASM_OP_SET_GLOBAL_64, WASM_OP_SET_GLOBAL_AUX_STACK} \<Longrightarrow>
   exec_plain V F opcode j = exec_global V opcode j"
  by (auto simp: exec_plain_def opcode_values)

lemma poke_chip_simps [simp]:
  "frame_ip (poke_chip a bs i) = frame_ip i" "frame_sp (poke_chip a bs i) = frame_sp i"
  "same_frame i (poke_chip a bs j) = same_frame i j"
  by (simp_all add: poke_chip_def same_frame_def)

lemma exec_global_effect:
  assumes "global_addr V i = done_with (a, i\<lparr>frame_ip := p\<rparr>)"
  shows "effect 0 1 p i (exec_global V 0x23 i)" "effect 0 2 p i (exec_global V WASM_OP_GET_GLOBAL_64 i)"
    "effect 2 0 p i (exec_global V WASM_OP_SET_GLOBAL_64 i)"
    "effect 1 0 p i (exec_global V WASM_OP_SET_GLOBAL_AUX_STACK i)"
    "effect 1 0 p i (exec_global V 0x24 i)"
proof -
  show "effect 0 1 p i (exec_global V 0x23 i)" "effect 0 2 p i (exec_global V WASM_OP_GET_GLOBAL_64 i)"
    by (rule effect_moved [where p' = p]; simp add: exec_global_def assms opcode_values effect_push
        effect_push [unfolded One_nat_def])+
  have "effect (Suc (Suc 0)) 0 p i (exec_global V WASM_OP_SET_GLOBAL_64 i)"
    by (rule effect_moved [where p' = p], simp add: exec_global_def assms opcode_values, rule effect_pop64)
      (auto intro: effect_done)
  then show "effect 2 0 p i (exec_global V WASM_OP_SET_GLOBAL_64 i)" by (simp add: numeral_2_eq_2)
  have "effect (Suc 0) 0 p i (exec_global V WASM_OP_SET_GLOBAL_AUX_STACK i)"
    by (rule effect_moved [where p' = p], simp add: exec_global_def assms opcode_values, rule effect_pop32)
      (auto intro: effect_done effect_trap)
  then show "effect 1 0 p i (exec_global V WASM_OP_SET_GLOBAL_AUX_STACK i)" by simp
  have "effect (Suc 0) 0 p i (exec_global V 0x24 i)"
    by (rule effect_moved [where p' = p], simp add: exec_global_def assms opcode_values, rule effect_pop32)
      (auto intro: effect_done)
  then show "effect 1 0 p i (exec_global V 0x24 i)" by simp
qed

lemma global_addr_run:
  assumes "read_u32 p_end s = Inr (j, s1)" "frame_ip i = lp s" "agree (lmem s) (chip i) (lp s) (lp s1)"
    and "unat j < length (ie_global_offsets V)"
  obtains a where "global_addr V i = done_with (a, i\<lparr>frame_ip := lp s1\<rparr>)"
  using fetch_u32_eq [OF assms(1-3)] assms(4) by (auto simp: global_addr_def)

text \<open>Only the byte of the opcode, before the position, is written by these instructions.\<close>

lemma agree_opcode:
  assumes "agree (m(p - 1 := b)) m' p q" "0 < unat p"
  shows "agree m m' p q"
proof -
  have "unat (p - 1) < unat p" using assms(2) by (simp add: unat_sub word_le_nat_alt)
  then show ?thesis using assms(1) by (auto simp: agree_def)
qed

lemma op_get_global_follows:
  assumes "live (lctx s)" "module_ok M" "op_get_global av M p_end s = Inr s'" "lmem s (lp s - 1) = 0x23"
    and "machine_at F s s' i" "global_count M \<le> length (ie_global_offsets V)"
  shows "follows V F s s' i"
proof -
  from assms(3) obtain g t mut s1 s2 where gg: "get_global M p_end s = Inr (g, t, mut, s1)"
    and ps: "PUSH_TYPES av [t] s1 = Inr s2"
    and s': "s' = (if t = VALUE_TYPE_I64 \<or> t = VALUE_TYPE_F64 then poke (lp s - 1) WASM_OP_GET_GLOBAL_64 s2 else s2)"
    by (auto simp: op_get_global_def Let_def)
  from gg obtain j where j: "read_u32 p_end s = Inr (j, s1)" "g = unat j" "unat j < global_count M"
    "t = global_type M (unat j)" by (rule get_global_Inr)
  note rd = read_u32_moves [OF j(1)]
  have val: "is_valid_value_type t" unfolding j(4) by (rule global_type_valid [OF assms(2) j(3)])
  have "moves 0 (wasm_value_type_cell_num t) s1 s2"
    using PUSH_TYPES_moves [OF _ _ ps] assms(1) val rd by simp
  then have c: "counts 0 (wasm_value_type_cell_num t) (lctx s) (lctx s')"
    and m: "lmem s2 = lmem s" "lp s' = lp s1" using s' rd by (simp_all add: moves_def)
  have ag: "agree (lmem s) (chip i) (lp s) (lp s1)"
    using assms(5) agree_opcode m s' by (auto simp: machine_at_def split: if_splits)
  have ip: "frame_ip i = lp s" using assms(5) by (simp add: machine_at_def)
  have "unat j < length (ie_global_offsets V)" using j(3) assms(6) by simp
  from global_addr_run [OF j(1) ip ag this] obtain a
    where a: "global_addr V i = done_with (a, i\<lparr>frame_ip := lp s1\<rparr>)" by blast
  show ?thesis using c exec_global_effect(1,2) [OF a] m s' type_width [OF val] assms(4)
    by (intro follows_once) (auto simp: exec_plain_global intro: matchedI split: if_splits)
qed

lemma op_set_global_follows:
  assumes "live (lctx s)" "module_ok M" "op_set_global M p_end s = Inr s'" "lmem s (lp s - 1) = 0x24"
    and "machine_at F s s' i" "global_count M \<le> length (ie_global_offsets V)"
  shows "follows V F s s' i"
proof -
  from assms(3) obtain g t mut s1 s2 where gg: "get_global M p_end s = Inr (g, t, mut, s1)"
    and s2: "s2 = (if t = VALUE_TYPE_I64 \<or> t = VALUE_TYPE_F64 then poke (lp s - 1) WASM_OP_SET_GLOBAL_64 s1
      else if aux_stack_size M > 0 \<and> g = unat (aux_stack_top_global_index M)
      then poke (lp s - 1) WASM_OP_SET_GLOBAL_AUX_STACK s1 else s1)"
    and pp: "POP_TYPE t s2 = Inr s'"
  proof -
    from assms(3) obtain g t mut s1 where gg: "get_global M p_end s = Inr (g, t, mut, s1)"
      by (auto simp: op_set_global_def Let_def)
    with assms(3) have "mut" by (cases mut) (auto simp: op_set_global_def Let_def)
    with gg assms(3) that show thesis by (simp add: op_set_global_def Let_def)
  qed
  from gg obtain j where j: "read_u32 p_end s = Inr (j, s1)" "g = unat j" "unat j < global_count M"
    "t = global_type M (unat j)" by (rule get_global_Inr)
  note rd = read_u32_moves [OF j(1)]
  have val: "is_valid_value_type t" unfolding j(4) by (rule global_type_valid [OF assms(2) j(3)])
  have l2: "lctx s2 = lctx s" "lp s2 = lp s1" using s2 rd by auto
  then have "moves (wasm_value_type_cell_num t) 0 s2 s'"
    using POP_TYPE_moves [OF _ val pp] assms(1) by simp
  then have c: "counts (wasm_value_type_cell_num t) 0 (lctx s) (lctx s')"
    and m: "lmem s' = lmem s2" "lp s' = lp s1" using l2 by (simp_all add: moves_def)
  have "lmem s' = lmem s \<or> (\<exists>b. lmem s' = (lmem s)(lp s - 1 := b))" using m(1) s2 rd(2) by auto
  then have ag: "agree (lmem s) (chip i) (lp s) (lp s1)"
    using assms(5) m(2) agree_opcode [of "lmem s" "lp s"] by (auto simp: machine_at_def)
  have ip: "frame_ip i = lp s" using assms(5) by (simp add: machine_at_def)
  have "unat j < length (ie_global_offsets V)" using j(3) assms(6) by simp
  from global_addr_run [OF j(1) ip ag this] obtain a
    where a: "global_addr V i = done_with (a, i\<lparr>frame_ip := lp s1\<rparr>)" by blast
  note eff = exec_global_effect(3-5) [OF a, folded m(2)] and w = type_width [OF val]
  consider (wide) "wasm_value_type_cell_num t = 2" "lmem s' (lp s - 1) = WASM_OP_SET_GLOBAL_64"
    | (aux) "wasm_value_type_cell_num t = 1" "lmem s' (lp s - 1) = WASM_OP_SET_GLOBAL_AUX_STACK"
    | (plain) "wasm_value_type_cell_num t = 1" "lmem s' (lp s - 1) = 0x24"
    using m(1) s2 w assms(4) rd(2)
    by (cases "t = VALUE_TYPE_I64 \<or> t = VALUE_TYPE_F64";
        cases "aux_stack_size M > 0 \<and> g = unat (aux_stack_top_global_index M)") auto
  then show ?thesis
  proof cases
    case wide
    with c eff(1) show ?thesis by (intro follows_once matchedI [where k = 2]) (simp_all add: exec_plain_global)
  next
    case aux
    with c eff(2) show ?thesis by (intro follows_once matchedI [where k = 1]) (simp_all add: exec_plain_global)
  next
    case plain
    with c eff(3) show ?thesis by (intro follows_once matchedI [where k = 1]) (simp_all add: exec_plain_global)
  qed
qed

text \<open>Loads and stores: the two immediates are the alignment and the offset.\<close>

lemma fetch_two:
  assumes "read_u32 p_end s = Inr (v1, s1)" "read_u32 p_end s1 = Inr (v2, s2)"
    and "frame_ip i = lp s" "agree (lmem s) (chip i) (lp s) (lp s2)"
  shows "fetch_u32 i = done_with (v1, i\<lparr>frame_ip := lp s1\<rparr>)"
    "fetch_u32 (i\<lparr>frame_ip := lp s1\<rparr>) = done_with (v2, i\<lparr>frame_ip := lp s2\<rparr>)"
proof -
  note r1 = read_u32_moves [OF assms(1)] and r2 = read_u32_moves [OF assms(2)]
  show "fetch_u32 i = done_with (v1, i\<lparr>frame_ip := lp s1\<rparr>)"
    using fetch_u32_eq [OF assms(1,3)] agree_sub [OF assms(4)] r2(3) by simp
  show "fetch_u32 (i\<lparr>frame_ip := lp s1\<rparr>) = done_with (v2, i\<lparr>frame_ip := lp s2\<rparr>)"
    using fetch_u32_eq [OF assms(2), of "i\<lparr>frame_ip := lp s1\<rparr>"] agree_sub [OF assms(4)] r1 by simp
qed

lemma load_type_handler:
  "load_type op = Some t \<Longrightarrow> \<exists>n f. load_handler op = Some (n, f) \<and>
     (\<forall>bs. length (f bs) = wasm_value_type_cell_num t)"
  by (auto simp: load_type_def load_handler_def split: if_split_asm)

lemma store_type_handler:
  "store_type op = Some t \<Longrightarrow> \<exists>two n. store_handler op = Some (two, n) \<and>
     wasm_value_type_cell_num t = (if two then 2 else 1)"
  by (auto simp: store_type_def store_handler_def split: if_split_asm)

lemma access_types:
  assumes "0x28 \<le> op" "op \<le> 0x3e"
  shows "(op \<le> 0x35 \<longleftrightarrow> load_type op \<noteq> None) \<and> (op > 0x35 \<longleftrightarrow> store_type op \<noteq> None)"
proof -
  have "list_all (\<lambda>n. let op = word_of_nat n in
    (op \<le> 0x35 \<longleftrightarrow> load_type op \<noteq> None) \<and> (op > 0x35 \<longleftrightarrow> store_type op \<noteq> None)) [0x28..<0x3f]"
    by code_simp
  moreover have "unat op \<in> set [0x28..<0x3f]"
    using assms by (simp add: word_le_nat_alt del: upt_conv_Cons_Cons upt_rec_numeral)
  ultimately have "let op = word_of_nat (unat op) in
    (op \<le> 0x35 \<longleftrightarrow> load_type op \<noteq> None) \<and> (op > 0x35 \<longleftrightarrow> store_type op \<noteq> None)"
    unfolding list_all_iff by blast
  then show ?thesis by (simp add: Let_def)
qed

lemma exec_load_effect:
  assumes "load_handler op = Some (n, f)" "\<And>bs. length (f bs) = q"
    and "fetch_u32 i = done_with (v1, i1)" "fetch_u32 i1 = done_with (v2, i\<lparr>frame_ip := p\<rparr>)"
  shows "effect 1 q p i (exec_load_op op i)"
proof -
  have "effect (Suc 0) q p (i\<lparr>frame_ip := p\<rparr>) (bindR (pop32 (i\<lparr>frame_ip := p\<rparr>)) (\<lambda>(addr, i).
     bindR (Some (exec_load op (chip i) (mem_inst i) v2 addr)) (\<lambda>cells.
       done_with (i\<lparr>frame_sp := cells @ frame_sp i\<rparr>))))"
  proof (rule effect_pop32)
    fix addr st
    let ?j = "i\<lparr>frame_ip := p, frame_sp := st\<rparr>"
    show "effect 0 q p (i\<lparr>frame_ip := p\<rparr>\<lparr>frame_sp := st\<rparr>)
      (case (addr, i\<lparr>frame_ip := p\<rparr>\<lparr>frame_sp := st\<rparr>) of (addr, i) \<Rightarrow>
         bindR (Some (exec_load op (chip i) (mem_inst i) v2 addr))
          (\<lambda>cells. done_with (i\<lparr>frame_sp := cells @ frame_sp i\<rparr>)))"
    proof (cases "exec_load op (chip i) (mem_inst i) v2 addr")
      case (Inl e)
      then show ?thesis by (simp add: effect_trap)
    next
      case (Inr cells)
      then have "length cells = q" using assms(1,2) by (auto simp: exec_load_def)
      then show ?thesis using Inr by (simp add: effectI [where vs = cells] same_frame_def)
    qed
  qed
  then show ?thesis using assms(3,4) by (auto simp: exec_load_op_def intro: effect_moved)
qed

lemma exec_store_effect:
  assumes "store_handler op = Some (two, n)"
    and "fetch_u32 i = done_with (v1, i1)" "fetch_u32 i1 = done_with (v2, i\<lparr>frame_ip := p\<rparr>)"
  shows "effect (if two then 3 else 2) 0 p i (exec_store_op op i)"
proof -
  let ?n = "if two then 2 else 1"
  let ?i = "i\<lparr>frame_ip := p\<rparr>"
  show ?thesis
  proof (cases "?n \<le> length (frame_sp i)")
    case True
    let ?j = "?i\<lparr>frame_sp := drop ?n (frame_sp i)\<rparr>"
    have "effect (Suc 0) 0 p ?j (bindR (pop32 ?j) (\<lambda>(addr, i).
      bindR (Some (exec_store op (chip i) (mem_inst i) v2 addr (take ?n (frame_sp ?i)))) (\<lambda>m.
             done_with (i\<lparr>chip := m\<rparr>))))"
    proof (rule effect_pop32)
      fix addr st
      show "effect 0 0 p (?j\<lparr>frame_sp := st\<rparr>)
        (case (addr, ?j\<lparr>frame_sp := st\<rparr>) of (addr, i) \<Rightarrow>
          bindR (Some (exec_store op (chip i) (mem_inst i) v2 addr (take ?n (frame_sp ?i))))
           (\<lambda>m. done_with (i\<lparr>chip := m\<rparr>)))"
        by (cases "exec_store op (chip i) (mem_inst i) v2 addr (take ?n (frame_sp ?i))")
          (auto intro: effect_trap effect_done simp: same_frame_def)
    qed
    then have "effect (Suc 0) 0 p ?j (exec_store_op op i)"
      using assms True by (simp add: exec_store_op_def pop_value_def)
    then show ?thesis using True by (auto simp: effect_def same_frame_def numeral_2_eq_2 numeral_3_eq_3)
  qed (auto simp: effect_def)
qed

lemma op_load_store_follows:
  assumes "live (lctx s)" "op_load_store av M p_end (lmem s (lp s - 1)) s = Inr s'"
    and "0x28 \<le> lmem s (lp s - 1)" "lmem s (lp s - 1) \<le> 0x3e" "machine_at F s s' i"
  shows "follows V F s s' i"
proof -
  let ?op = "lmem s (lp s - 1)"
  from assms(2) obtain al s1 off s2 where r: "read_u32 p_end s = Inr (al, s1)" "read_u32 p_end s1 = Inr (off, s2)"
    and body: "(case load_type ?op of Some t \<Rightarrow> POPS_AND_PUSH av 1 VALUE_TYPE_I32 t s2
       | None \<Rightarrow> (case store_type ?op of
             Some t \<Rightarrow> bindE (POP_TYPE t s2) (POP_TYPE VALUE_TYPE_I32)
           | None \<Rightarrow> Inr s2)) = Inr s'"
    by (auto simp: op_load_store_def)
  note r1 = read_u32_moves [OF r(1)] and r2 = read_u32_moves [OF r(2)]
  have l2: "live (lctx s2)" using assms(1) r1 r2 by simp
  have ip: "frame_ip i = lp s" and ag: "agree (lmem s') (chip i) (lp s) (lp s')"
    using assms(5) by (simp_all add: machine_at_def)
  note types = access_types [OF assms(3,4)]
  show ?thesis
  proof (cases "load_type ?op")
    case (Some t)
    then have "POPS_AND_PUSH av 1 VALUE_TYPE_I32 t s2 = Inr s'" using body by simp
    from POPS_AND_PUSH_moves [OF l2 _ load_type_valid [OF Some] this]
    have m: "moves 1 (wasm_value_type_cell_num t) s2 s'" by simp
    then have ag2: "agree (lmem s) (chip i) (lp s) (lp s2)" using ag r1 r2 by (simp add: moves_def)
    note f = fetch_two [OF r ip ag2]
    from load_type_handler [OF Some] obtain n f where h: "load_handler ?op = Some (n, f)"
      "\<And>bs. length (f bs) = wasm_value_type_cell_num t" by blast
    have "?op \<le> 0x35" using types Some by simp
    then have "exec_plain V F ?op i = exec_load_op ?op i"
      using assms(3) by (auto simp: exec_plain_def opcode_values word_le_nat_alt)
    then show ?thesis using exec_load_effect [OF h f] m r1 r2
      by (intro follows_once matchedI [where k = 1]) (simp_all add: moves_def)
  next
    case None
    then obtain t where t: "store_type ?op = Some t" using types assms(3,4) by (auto simp: not_le)
    then obtain s3 where s3: "POP_TYPE t s2 = Inr s3" "POP_TYPE VALUE_TYPE_I32 s3 = Inr s'"
      using body None by auto
    note m1 = POP_TYPE_moves [OF l2 store_type_valid [OF t] s3(1)]
    have "moves 1 0 s3 s'" using POP_TYPE_moves [OF moves_live [OF m1] _ s3(2)] by simp
    with m1 have m: "moves (wasm_value_type_cell_num t + 1) 0 s2 s'" by (rule moves_pops)
    then have ag2: "agree (lmem s) (chip i) (lp s) (lp s2)" using ag r1 r2 by (simp add: moves_def)
    note f = fetch_two [OF r ip ag2]
    from store_type_handler [OF t] obtain two n where h: "store_handler ?op = Some (two, n)"
      "wasm_value_type_cell_num t = (if two then 2 else 1)" by blast
    have "\<not> ?op \<le> 0x35" using types None by simp
    then have "exec_plain V F ?op i = exec_store_op ?op i"
      using assms(3,4) by (auto simp: exec_plain_def opcode_values word_le_nat_alt)
    then show ?thesis using exec_store_effect [OF h(1) f] m r1 r2 h(2)
      by (intro follows_once matchedI [where k = "wasm_value_type_cell_num t + 1"])
        (auto simp: moves_def numeral_2_eq_2 numeral_3_eq_3 split: if_splits)
  qed
qed

text \<open>The size of the memory and its growth.\<close>

lemma op_memory_size_follows:
  assumes "live (lctx s)" "op_memory_size av M p_end s = Inr s'" "lmem s (lp s - 1) = 0x3f"
    and "machine_at F s s' i"
  shows "follows V F s s' i"
proof -
  from assms(2) obtain mi s1 s2 where r: "read_u32 p_end s = Inr (mi, s1)"
    and ps: "PUSH_TYPES av [VALUE_TYPE_I32] s1 = Inr s2" and s': "s' = s2\<lparr>possible_memory_grow := True\<rparr>"
    by (auto simp: op_memory_size_def)
  note rd = read_u32_moves [OF r]
  have "moves 0 1 s1 s2" using PUSH_TYPES_moves [OF _ _ ps] assms(1) rd by simp
  then have c: "counts 0 1 (lctx s) (lctx s')" "lmem s' = lmem s" "lp s' = lp s1"
    using s' rd by (simp_all add: moves_def)
  then have "fetch_u32 i = done_with (mi, i\<lparr>frame_ip := lp s1\<rparr>)"
    using fetch_u32_eq [OF r] assms(4) by (simp add: machine_at_def)
  then have "effect 0 1 (lp s1) i (exec_memory_size_op i)"
    by (simp add: exec_memory_size_op_def)
  then show ?thesis using c assms(3)
    by (intro follows_once matchedI [where k = 0 and q = 1]) (simp_all add: exec_plain_def opcode_values)
qed

lemma op_memory_grow_follows:
  assumes "live (lctx s)" "op_memory_grow av M p_end s = Inr s'" "lmem s (lp s - 1) = 0x40"
    and "machine_at F s s' i"
  shows "follows V F s s' i"
proof -
  from assms(2) obtain mi s1 s2 where r: "read_u32 p_end s = Inr (mi, s1)"
    and ps: "POPS_AND_PUSH av 1 VALUE_TYPE_I32 VALUE_TYPE_I32 s1 = Inr s2"
    and s': "s' = s2\<lparr>possible_memory_grow := True\<rparr>"
    by (auto simp: op_memory_grow_def)
  note rd = read_u32_moves [OF r]
  have "moves 1 1 s1 s2" using POPS_AND_PUSH_moves [OF _ _ _ ps] assms(1) rd by simp
  then have c: "counts 1 1 (lctx s) (lctx s')" "lmem s' = lmem s" "lp s' = lp s1"
    using s' rd by (simp_all add: moves_def)
  then have f: "fetch_u32 i = done_with (mi, i\<lparr>frame_ip := lp s1\<rparr>)"
    using fetch_u32_eq [OF r] assms(4) by (simp add: machine_at_def)
  have "effect (Suc 0) 1 (lp s1) i (exec_memory_grow_op V i)"
    unfolding exec_memory_grow_op_def f bindR_simps prod.case
    by (rule effect_moved [where p' = "lp s1"], rule effect_pop32)
      (auto simp: push32_def effectI [where vs = "[v]" for v] same_frame_def split: prod.splits)
  then show ?thesis using c assms(3)
    by (intro follows_once matchedI [where k = 1 and q = 1]) (simp_all add: exec_plain_def opcode_values)
qed

section \<open>Constants and numeric instructions\<close>

lemma op_const_follows:
  assumes "live (lctx s)" "op_const av p_end (lmem s (lp s - 1)) s = Inr s'"
    and "0x41 \<le> lmem s (lp s - 1)" "lmem s (lp s - 1) \<le> 0x44" "machine_at F s s' i"
  shows "follows V F s s' i"
proof -
  let ?op = "lmem s (lp s - 1)"
  have ip: "frame_ip i = lp s" and ag: "agree (lmem s') (chip i) (lp s) (lp s')"
    using assms(5) by (simp_all add: machine_at_def)
  have key: "matched s s' i (exec_const ?op i) \<and> lmem s' = lmem s"
  proof -
    consider v p where "?op = 0x41" "read_leb_int32 (lmem s) (lp s) p_end = Inr (v, p)"
        "PUSH_TYPES av [VALUE_TYPE_I32] (s\<lparr>lp := p\<rparr>) = Inr s'"
      | v p where "?op = 0x42" "read_leb_int64 (lmem s) (lp s) p_end = Inr (v, p)"
        "PUSH_TYPES av [VALUE_TYPE_I64] (s\<lparr>lp := p\<rparr>) = Inr s'"
      | "?op = 0x43" "PUSH_TYPES av [VALUE_TYPE_F32] (s\<lparr>lp := lp s + 4\<rparr>) = Inr s'"
      | "?op \<noteq> 0x41" "?op \<noteq> 0x42" "?op \<noteq> 0x43" "PUSH_TYPES av [VALUE_TYPE_F64] (s\<lparr>lp := lp s + 8\<rparr>) = Inr s'"
      using assms(2) by (auto simp: op_const_def split: if_splits)
    then show ?thesis
    proof cases
      case 1
      have m: "moves 0 1 (s\<lparr>lp := p\<rparr>) s'" using PUSH_TYPES_moves [OF _ _ 1(3)] assms(1) by simp
      from 1(2) obtain r where r: "read_leb (lmem s) (lp s) p_end 32 True = Inr (r, p)"
        by (auto simp: read_leb_int32_def)
      have "read_leb_quick (chip i) (frame_ip i) 32 True = Some (r, p)"
        using read_leb_fetched [OF r, of "chip i"] ag m ip by (simp add: moves_def)
      then have "effect 0 1 p i (exec_const ?op i)"
        using 1(1) by (simp add: exec_const_def)
      then show ?thesis using m by (auto simp: moves_def intro: matchedI)
    next
      case 2
      have m: "moves 0 2 (s\<lparr>lp := p\<rparr>) s'" using PUSH_TYPES_moves [OF _ _ 2(3)] assms(1) by simp
      from 2(2) have r: "read_leb (lmem s) (lp s) p_end 64 True = Inr (v, p)"
        by (auto simp: read_leb_int64_def)
      have "read_leb_quick (chip i) (frame_ip i) 64 True = Some (v, p)"
        using read_leb_fetched [OF r, of "chip i"] ag m ip by (simp add: moves_def)
      then have "effect 0 2 p i (exec_const ?op i)"
        using 2(1) by (simp add: exec_const_def)
      then show ?thesis using m by (auto simp: moves_def intro: matchedI)
    next
      case 3
      have m: "moves 0 1 (s\<lparr>lp := lp s + 4\<rparr>) s'" using PUSH_TYPES_moves [OF _ _ 3(2)] assms(1) by simp
      have "effect 0 1 (lp s + 4) i (exec_const ?op i)"
        using 3(1) ip by (simp add: exec_const_def)
      then show ?thesis using m by (auto simp: moves_def intro: matchedI)
    next
      case 4
      have m: "moves 0 2 (s\<lparr>lp := lp s + 8\<rparr>) s'" using PUSH_TYPES_moves [OF _ _ 4(4)] assms(1) by simp
      have "effect 0 2 (lp s + 8) i (exec_const ?op i)"
        using 4(1-3) ip by (simp add: exec_const_def)
      then show ?thesis using m by (auto simp: moves_def intro: matchedI)
    qed
  qed
  have "exec_plain V F ?op i = exec_const ?op i"
    using assms(3,4) by (auto simp: exec_plain_def opcode_values word_le_nat_alt)
  with key show ?thesis by (intro follows_once) simp
qed

lemma numeric_handler_fits:
  assumes "numeric_sig opcode = Some (n, tp, tq)"
  obtains h where "numeric_handler U opcode = Some h" "returns h"
    "pops h = n * wasm_value_type_cell_num tp \<and> pushes h = wasm_value_type_cell_num tq \<or>
     h = Keep \<and> n * wasm_value_type_cell_num tp = wasm_value_type_cell_num tq"
proof -
  have op: "0x45 \<le> opcode \<and> opcode \<le> 0xc4" using assms no_sig_outside [of opcode] by auto
  let ?h = "numeric_handlers U ! (unat opcode - 0x45)"
  have i: "unat opcode - 0x45 < 128" using op by (simp add: word_le_nat_alt) linarith
  have ret: "returns ?h" using i by (intro numeric_handlers_return [of _ U]) (simp add: length_numeric_handlers)
  have "sig_fits opcode (pops ?h, pushes ?h)"
    using sigs_fit [of opcode] op nth_numeric_handlers [OF i, of U] by (simp add: handler_sig_def)
  then have "pops ?h = n * wasm_value_type_cell_num tp \<and> pushes ?h = wasm_value_type_cell_num tq \<or>
     ?h = Keep \<and> n * wasm_value_type_cell_num tp = wasm_value_type_cell_num tq"
    using assms by (cases ?h) (auto simp: sig_fits_def sig_cells_def split: if_splits)
  with that op ret show thesis by (simp add: numeric_handler_def)
qed

lemma numeric_follows:
  assumes "live (lctx s)" "numeric_sig (lmem s (lp s - 1)) = Some (n, tp, tq)"
    and "POPS_AND_PUSH av n tp tq s = Inr s'" "machine_at F s s' i"
  shows "follows V F s s' i"
proof -
  let ?op = "lmem s (lp s - 1)"
  have ip: "frame_ip i = lp s" using assms(4) by (simp add: machine_at_def)
  note val = numeric_sig_valid [OF assms(2)]
  have m: "moves (n * wasm_value_type_cell_num tp) (wasm_value_type_cell_num tq) s s'"
    using POPS_AND_PUSH_moves [OF assms(1) _ _ assms(3)] val by simp
  from numeric_handler_fits [OF assms(2), of "ie_fpu V"] obtain h
    where h: "numeric_handler (ie_fpu V) ?op = Some h" "returns h"
      "pops h = n * wasm_value_type_cell_num tp \<and> pushes h = wasm_value_type_cell_num tq \<or>
       h = Keep \<and> n * wasm_value_type_cell_num tp = wasm_value_type_cell_num tq" .
  have op: "0x45 \<le> ?op" "?op \<le> 0xc4" using no_sig_outside [of ?op] assms(2) by auto
  have plain: "exec_plain V F ?op i = run_handler h i"
  proof -
    have "?op \<noteq> 0xfc" "?op \<noteq> 0xfe" "\<not> ?op \<le> 0x44" "\<not> ?op \<le> 0x3e" "\<not> ?op \<le> 0x35"
      "?op \<notin> {0, 1, 0x1a, 0x1b, 0x20, 0x21, 0x22, 0x23, 0x24, 0x3f, 0x40}"
      "?op \<notin> {0xc5, 0xc6, 0xc7, 0xc9, 0xca, 0x1d, 0x1e, 0x1f}"
      using op by (auto simp: word_le_nat_alt)
    then show ?thesis by (simp add: exec_plain_def opcode_values h(1))
  qed
  have "effect (n * wasm_value_type_cell_num tp) (wasm_value_type_cell_num tq) (lp s) i (run_handler h i)"
    using h(3)
  proof
    assume "pops h = n * wasm_value_type_cell_num tp \<and> pushes h = wasm_value_type_cell_num tq"
    then show ?thesis using effect_run_handler [OF h(2) ip] by simp
  next
    assume k: "h = Keep \<and> n * wasm_value_type_cell_num tp = wasm_value_type_cell_num tq"
    show ?thesis
    proof (cases "wasm_value_type_cell_num tq \<le> length (frame_sp i)")
      case True
      then show ?thesis using k ip
        by (simp add: run_handler_def effectI [where vs = "take (wasm_value_type_cell_num tq) (frame_sp i)"])
    qed (use k in \<open>simp add: effect_def\<close>)
  qed
  then show ?thesis using m plain
    by (intro follows_once) (auto simp: moves_def intro: matchedI)
qed

section \<open>The prefixes\<close>

text \<open>A number of one byte.\<close>

lemma read_u32_short:
  assumes "read_u32 p_end s = Inr (v, s1)" "lmem s (lp s) < 0x80"
  shows "lp s1 = lp s + 1"
proof -
  from assms(1) obtain r where "read_leb (lmem s) (lp s) p_end 32 False = Inr (r, lp s1)"
    by (auto simp: read_u32_def read_leb_uint32_def)
  then obtain n where n: "bh_leb_read (lmem s) (lp s) p_end 32 False = Inr (r, n)" "lp s1 = lp s + of_nat n"
    by (auto simp: read_leb_def split: sum.splits)
  from bh_leb_read_Inr(1,4) [OF n(1)] obtain k where k: "n = Suc k" "leb_wf (cbytes (lmem s) (lp s) (Suc k))"
    by (cases n) auto
  have "\<not> 128 \<le> uint (lmem s (lp s))" using assms(2) by (simp add: word_less_def)
  then have "cbytes (lmem s) (lp s + 1) k = []" using k(2) by (auto simp: cbytes_Suc split: if_splits)
  then have "k = 0" by (metis length_cbytes list.size(3))
  with n(2) k(1) show ?thesis by simp
qed

text \<open>The encodings on which the classic interpreter and the validation read the same: every memory index
  of a bulk memory instruction is one byte long.\<close>

definition short_memidx :: "u32 \<Rightarrow> LoaderState \<Rightarrow> bool" where
  "short_memidx p_end s =
     (case read_u32 p_end s of
        Inl e \<Rightarrow> True
      | Inr (opcode1, s1) \<Rightarrow>
          if opcode1 = 8 then
            (case read_u32 p_end s1 of Inl e \<Rightarrow> True | Inr (seg, s2) \<Rightarrow> lmem s2 (lp s2) < 0x80)
          else if opcode1 = 10 then lmem s1 (lp s1) < 0x80 \<and> lmem s1 (lp s1 + 1) < 0x80
          else if opcode1 = 11 then lmem s1 (lp s1) < 0x80
          else True)"

lemma pop_three:
  assumes "\<And>a b c st. frame_sp i = a # b # c # st \<Longrightarrow>
    effect 0 q p (i\<lparr>frame_sp := st\<rparr>) (f a b c (i\<lparr>frame_sp := st\<rparr>))"
  shows "effect 3 q p i (bindR (pop32 i) (\<lambda>(a, i). bindR (pop32 i) (\<lambda>(b, i). bindR (pop32 i) (\<lambda>(c, i).
    f a b c i))))"
proof (cases "3 \<le> length (frame_sp i)")
  case True
  then obtain a b c st where sp: "frame_sp i = a # b # c # st"
    by (cases "frame_sp i"; cases "tl (frame_sp i)"; cases "tl (tl (frame_sp i))") auto
  from assms [OF sp] show ?thesis
    by (auto simp: sp pop32_def effect_def same_frame_def numeral_3_eq_3)
qed (simp add: effect_def)

lemma bulk_done: "effect 0 0 p i (bindR (Some r) (\<lambda>m. done_with (g m)))"
  if "\<And>m. frame_ip (g m) = p \<and> frame_sp (g m) = frame_sp i \<and> same_frame i (g m)"
  using that by (cases r) (auto intro: effect_trap effect_done)

lemma exec_memory_init_effect:
  assumes "fetch_u32 i = done_with (seg, i\<lparr>frame_ip := p\<rparr>)" "unat seg < length (data_segs i)"
  shows "effect 3 0 (p + 1) i (exec_memory_init_op i)"
  unfolding exec_memory_init_op_def assms(1) bindR_simps prod.case Let_def
  by (rule effect_moved [where p' = "p + 1"], unfold skip_byte_def, simp, rule pop_three)
    (simp add: assms(2), rule bulk_done, simp add: same_frame_def)

lemma exec_data_drop_effect:
  assumes "fetch_u32 i = done_with (seg, i\<lparr>frame_ip := p\<rparr>)" "unat seg < length (data_segs i)"
  shows "effect 0 0 p i (exec_data_drop_op i)"
  using assms by (simp add: exec_data_drop_op_def effect_done same_frame_def)

lemma exec_memory_copy_effect:
  "effect 3 0 (frame_ip i + 1 + 1) i (exec_memory_copy_op i)"
  unfolding exec_memory_copy_op_def
  by (rule pop_three, rule bulk_done) (simp add: skip_byte_def same_frame_def)

lemma exec_memory_fill_effect:
  "effect 3 0 (frame_ip i + 1) i (exec_memory_fill_op i)"
  unfolding exec_memory_fill_op_def Let_def
  by (rule effect_moved [where p' = "frame_ip i + 1"], unfold skip_byte_def, rule pop_three, rule bulk_done)
    (simp add: same_frame_def)

lemma trunc_sat_effect:
  assumes "misc_trunc_sig opcode1 = Some (t, t')"
  shows "unat opcode1 < 8" "effect (wasm_value_type_cell_num t) (wasm_value_type_cell_num t') (frame_ip i) i
    (run_handler (trunc_sat_handlers ! unat (ucast opcode1 :: u8)) i)"
proof -
  from assms have op: "opcode1 \<in> {0, 1, 2, 3, 4, 5, 6, 7}"
    by (auto simp: misc_trunc_sig_def split: if_splits)
  then show lt: "unat opcode1 < 8" by auto
  let ?h = "trunc_sat_handlers ! unat opcode1"
  have "pops ?h = wasm_value_type_cell_num t \<and> pushes ?h = wasm_value_type_cell_num t'"
    using op assms by (auto simp: misc_trunc_sig_def trunc_sat_handlers_def)
  moreover have "returns ?h"
    using lt by (intro trunc_sat_handlers_return nth_mem) (simp add: trunc_sat_handlers_def)
  moreover have "unat (ucast opcode1 :: u8) = unat opcode1"
    using lt by (simp add: unsigned_ucast_eq take_bit_nat_eq_self)
  ultimately show "effect (wasm_value_type_cell_num t) (wasm_value_type_cell_num t') (frame_ip i) i
    (run_handler (trunc_sat_handlers ! unat (ucast opcode1 :: u8)) i)"
    using effect_run_handler [of ?h i "frame_ip i"] by simp
qed

lemma POP3_moves:
  assumes "live (lctx s)" "POP_TYPES [VALUE_TYPE_I32, VALUE_TYPE_I32, VALUE_TYPE_I32] s = Inr s'"
  shows "moves 3 0 s s'"
  using POP_TYPES_moves [OF assms(1) _ assms(2)] by (simp add: numeral_3_eq_3)

lemma op_misc_follows:
  assumes "live (lctx s)" "op_misc av M p_end s = Inr s'" "lmem s (lp s - 1) = 0xfc"
    and "machine_at F s s' i" "data_seg_count M \<le> length (data_segs i)" "short_memidx p_end s"
  shows "follows V F s s' i"
proof -
  have ip: "frame_ip i = lp s" and ag: "agree (lmem s') (chip i) (lp s) (lp s')"
    using assms(4) by (simp_all add: machine_at_def)
  from assms(2) obtain opcode1 s1 where r: "read_u32 p_end s = Inr (opcode1, s1)"
    by (auto simp: op_misc_def)
  note rd = read_u32_moves [OF r]
  let ?i = "i\<lparr>frame_ip := lp s1\<rparr>"
  have l1: "live (lctx s1)" using assms(1) rd by simp
  have key: "matched s1 s' ?i (exec_misc i) \<and> lmem s' = lmem s"
  proof -
    have fetch: "fetch_u32 i = done_with (opcode1, ?i)" if "lmem s' = lmem s" "unat (lp s1) \<le> unat (lp s')"
      using fetch_u32_eq [OF r ip] agree_sub [OF ag] that by simp
    consider t t' where "misc_trunc_sig opcode1 = Some (t, t')" "POPS_AND_PUSH av 1 t t' s1 = Inr s'"
      | seg s2 mi s3 where "opcode1 = 8" "read_u32 p_end s1 = Inr (seg, s2)" "read_u32 p_end s2 = Inr (mi, s3)"
          "unat seg < data_seg_count M"
          "POP_TYPES [VALUE_TYPE_I32, VALUE_TYPE_I32, VALUE_TYPE_I32] s3 = Inr s'"
      | seg where "opcode1 = 9" "read_u32 p_end s1 = Inr (seg, s')" "unat seg < data_seg_count M"
      | mi s2 mi' s3 where "opcode1 = 10" "read_u32 p_end s1 = Inr (mi, s2)" "read_u32 p_end s2 = Inr (mi', s3)"
          "POP_TYPES [VALUE_TYPE_I32, VALUE_TYPE_I32, VALUE_TYPE_I32] s3 = Inr s'"
      | mi s2 where "opcode1 = 11" "read_u32 p_end s1 = Inr (mi, s2)"
          "POP_TYPES [VALUE_TYPE_I32, VALUE_TYPE_I32, VALUE_TYPE_I32] s2 = Inr s'"
      using assms(2) r by (auto simp: op_misc_def split: if_splits option.splits prod.splits)
    then show ?thesis
    proof cases
      case 1
      note v = misc_trunc_sig_valid [OF 1(1)] and e = trunc_sat_effect [OF 1(1)]
      have m: "moves (wasm_value_type_cell_num t) (wasm_value_type_cell_num t') s1 s'"
        using POPS_AND_PUSH_moves [OF l1 _ _ 1(2)] v by simp
      then have ms: "lmem s' = lmem s" using rd by (simp add: moves_def)
      have f: "fetch_u32 i = done_with (opcode1, ?i)" using fetch ms m by (simp add: moves_def)
      have "(ucast opcode1 :: u8) < 8"
        using e(1) by (simp add: word_less_nat_alt unsigned_ucast_eq take_bit_nat_eq_self)
      then show ?thesis
        using m ms e(2) [of ?i] by (intro conjI matchedI) (auto simp: exec_misc_def f Let_def moves_def)
    next
      case 2
      note r2 = read_u32_moves [OF 2(2)] and r3 = read_u32_moves [OF 2(3)]
      have m: "moves 3 0 s3 s'" using POP3_moves [OF _ 2(5)] l1 r2 r3 by simp
      then have ms: "lmem s' = lmem s" using rd r2 r3 by (simp add: moves_def)
      have f: "fetch_u32 i = done_with (opcode1, ?i)" using fetch ms m r2 r3 by (simp add: moves_def)
      have "lp s3 = lp s2 + 1"
        using assms(6) r 2(1,2) read_u32_short [OF 2(3)] by (simp add: short_memidx_def)
      moreover have "fetch_u32 ?i = done_with (seg, ?i\<lparr>frame_ip := lp s2\<rparr>)"
        using fetch_u32_eq [OF 2(2), of ?i] agree_sub [OF ag] ms m rd r2 r3 by (simp add: moves_def)
      from exec_memory_init_effect [OF this] have "effect 3 0 (lp s2 + 1) ?i (exec_memory_init_op ?i)"
        using 2(4) assms(5) by simp
      ultimately show ?thesis
        using m ms r2 r3 2(1) by (intro conjI matchedI [where k = 3 and q = 0]) (auto simp: exec_misc_def f Let_def moves_def)
    next
      case 3
      note r2 = read_u32_moves [OF 3(2)]
      have ms: "lmem s' = lmem s" using rd r2 by simp
      have f: "fetch_u32 i = done_with (opcode1, ?i)" using fetch ms r2 by simp
      have "fetch_u32 ?i = done_with (seg, ?i\<lparr>frame_ip := lp s'\<rparr>)"
        using fetch_u32_eq [OF 3(2), of ?i] agree_sub [OF ag] ms rd r2 by simp
      from exec_data_drop_effect [OF this] have "effect 0 0 (lp s') ?i (exec_data_drop_op ?i)"
        using 3(3) assms(5) by simp
      then show ?thesis
        using counts_refl [OF l1] ms r2 3(1) by (intro conjI matchedI [where k = 0 and q = 0]) (auto simp: exec_misc_def f Let_def)
    next
      case 4
      note r2 = read_u32_moves [OF 4(2)] and r3 = read_u32_moves [OF 4(3)]
      have m: "moves 3 0 s3 s'" using POP3_moves [OF _ 4(4)] l1 r2 r3 by simp
      then have ms: "lmem s' = lmem s" using rd r2 r3 by (simp add: moves_def)
      have f: "fetch_u32 i = done_with (opcode1, ?i)" using fetch ms m r2 r3 by (simp add: moves_def)
      have "lp s2 = lp s1 + 1" "lp s3 = lp s2 + 1"
        using assms(6) r 4(1) read_u32_short [OF 4(2)] read_u32_short [OF 4(3)] r2 by (auto simp: short_memidx_def)
      then show ?thesis
        using m ms r2 r3 4(1) exec_memory_copy_effect [of ?i]
        by (intro conjI matchedI [where k = 3 and q = 0]) (auto simp: exec_misc_def f Let_def moves_def)
    next
      case 5
      note r2 = read_u32_moves [OF 5(2)]
      have m: "moves 3 0 s2 s'" using POP3_moves [OF _ 5(3)] l1 r2 by simp
      then have ms: "lmem s' = lmem s" using rd r2 by (simp add: moves_def)
      have f: "fetch_u32 i = done_with (opcode1, ?i)" using fetch ms m r2 by (simp add: moves_def)
      have "lp s2 = lp s1 + 1"
        using assms(6) r 5(1) read_u32_short [OF 5(2)] by (simp add: short_memidx_def)
      then show ?thesis
        using m ms r2 5(1) exec_memory_fill_effect [of ?i]
        by (intro conjI matchedI [where k = 3 and q = 0]) (auto simp: exec_misc_def f Let_def moves_def)
    qed
  qed
  then have "matched s s' i (exec_misc i)" and mem: "lmem s' = lmem s" using rd by (auto simp: matched_def intro: effect_moved)
  then show ?thesis using mem assms(3)
    by (intro follows_once) (simp add: exec_plain_def opcode_values)
qed

text \<open>Atomic accesses: four shapes, at both widths.\<close>

lemma atomic_addr_cases: "(\<exists>a. atomic_addr i al off addr n = done_with a) \<or> (\<exists>e. atomic_addr i al off addr n = trap e)"
  by (auto simp: atomic_addr_def split: option.splits)

lemma effect_atomic_addr:
  assumes "\<And>a. effect k q p i (g a)"
  shows "effect k q p i (bindR (atomic_addr j al off addr n) g)"
  using atomic_addr_cases [of j al off addr n] assms by (auto intro: effect_trap)

lemma effect_push_chip:
  "frame_ip i = p \<Longrightarrow> effect 0 (Suc 0) p i (push32 v (i\<lparr>chip := m\<rparr>))"
  "frame_ip i = p \<Longrightarrow> effect 0 2 p i (push64 v' (i\<lparr>chip := m\<rparr>))"
  by (simp_all add: push32_def push64_def effectI [where vs = "[v]"] effectI [where vs = "cells_of_u64 v'"]
      same_frame_def)

lemma exec_atomic_access_32:
  assumes "frame_ip i = p"
  shows "effect (if k = 0 then 1 else if k < 8 then 2 else 3) (if k = 1 then 0 else 1) p i
    (exec_atomic_access k n al off pop32 push32 i)"
proof -
  consider "k = 0" | "k = 1" | "1 < k" "k < 8" | "8 \<le> k" by linarith
  then show ?thesis
  proof cases
    case 1
    have "effect (Suc 0) (Suc 0) p i (exec_atomic_access 0 n al off pop32 push32 i)"
      unfolding exec_atomic_access_def if_P [OF refl]
      by (rule effect_pop32) (auto intro!: effect_atomic_addr simp: assms effect_push [unfolded One_nat_def])
    then show ?thesis using 1 by simp
  next
    case 2
    have "effect (Suc (Suc 0)) 0 p i (exec_atomic_access 1 n al off pop32 push32 i)"
      unfolding exec_atomic_access_def
      by (simp, rule effect_pop32, simp, rule effect_pop32)
        (auto intro!: effect_atomic_addr effect_done simp: assms same_frame_def)
    then show ?thesis using 2 by (simp add: numeral_2_eq_2)
  next
    case 3
    have "effect (Suc (Suc 0)) (Suc 0) p i (exec_atomic_access k n al off pop32 push32 i)"
      unfolding exec_atomic_access_def using 3
      by (simp, intro effect_pop32, simp, intro effect_pop32)
        (auto intro!: effect_atomic_addr effect_push_chip simp: assms Let_def)
    then show ?thesis using 3 by (simp add: numeral_2_eq_2)
  next
    case 4
    have "effect (Suc (Suc (Suc 0))) (Suc 0) p i (exec_atomic_access k n al off pop32 push32 i)"
      unfolding exec_atomic_access_def using 4
      by (simp, intro effect_pop32, simp, intro effect_pop32, simp, intro effect_pop32)
        (auto intro!: effect_atomic_addr effect_push_chip simp: assms Let_def split: prod.splits)
    then show ?thesis using 4 by (simp add: numeral_3_eq_3)
  qed
qed

lemma exec_atomic_access_64:
  assumes "frame_ip i = p"
  shows "effect (if k = 0 then 1 else if k < 8 then 3 else 5) (if k = 1 then 0 else 2) p i
    (exec_atomic_access k n al off pop64 push64 i)"
proof -
  consider "k = 0" | "k = 1" | "1 < k" "k < 8" | "8 \<le> k" by linarith
  then show ?thesis
  proof cases
    case 1
    have "effect (Suc 0) 2 p i (exec_atomic_access 0 n al off pop64 push64 i)"
      unfolding exec_atomic_access_def if_P [OF refl]
      by (rule effect_pop32) (auto intro!: effect_atomic_addr simp: assms effect_push)
    then show ?thesis using 1 by simp
  next
    case 2
    have "effect (Suc (Suc (Suc 0))) 0 p i (exec_atomic_access 1 n al off pop64 push64 i)"
      unfolding exec_atomic_access_def
      by (simp, rule effect_pop64, simp, rule effect_pop32)
        (auto intro!: effect_atomic_addr effect_done simp: assms same_frame_def)
    then show ?thesis using 2 by (simp add: numeral_3_eq_3)
  next
    case 3
    have "effect (Suc (Suc (Suc 0))) 2 p i (exec_atomic_access k n al off pop64 push64 i)"
      unfolding exec_atomic_access_def using 3
      by (simp, intro effect_pop64, simp, intro effect_pop32)
        (auto intro!: effect_atomic_addr effect_push_chip simp: assms Let_def)
    then show ?thesis using 3 by (simp add: numeral_3_eq_3)
  next
    case 4
    have "effect (Suc (Suc (Suc (Suc (Suc 0))))) 2 p i (exec_atomic_access k n al off pop64 push64 i)"
      unfolding exec_atomic_access_def using 4
      by (simp, intro effect_pop64, simp, intro effect_pop64, simp, intro effect_pop32)
        (auto intro!: effect_atomic_addr effect_push_chip simp: assms Let_def split: prod.splits)
    moreover have "Suc (Suc (Suc (Suc (Suc 0)))) = 5" by simp
    ultimately show ?thesis using 4 by (simp only:) simp
  qed
qed

text \<open>The cells of the signature of an atomic access.\<close>

definition atomic_cells :: "u8 \<Rightarrow> nat \<times> nat" where
  "atomic_cells opcode =
     (if opcode = 0 then (2, 1) else if opcode = 1 then (4, 1) else if opcode = 2 then (5, 1) else
      let (wide, n) = atomic_width opcode; k = (unat opcode - 0x10) div 7
      in if wide then (if k = 0 then 1 else if k < 8 then 3 else 5, if k = 1 then 0 else 2)
         else (if k = 0 then 1 else if k < 8 then 2 else 3, if k = 1 then 0 else 1))"

lemma atomic_sig_cells:
  assumes "atomic_sig op = Some (ts, us)" "unat op \<le> 2 \<or> 0x10 \<le> unat op \<and> unat op \<le> 0x4e"
  shows "atomic_cells (ucast op) = (length (cells_of ts), length (cells_of us))"
proof -
  have "list_all (\<lambda>n. case atomic_sig (word_of_nat n) of None \<Rightarrow> True
    | Some (p, q) \<Rightarrow> atomic_cells (word_of_nat n) = (length (cells_of p), length (cells_of q))) ([0, 1, 2] @ [0x10..<0x4f])"
    by code_simp
  moreover have "unat op \<in> set ([0, 1, 2] @ [0x10..<0x4f])"
    using assms(2) by (auto simp del: upt_conv_Cons_Cons upt_rec_numeral)
  ultimately have "case atomic_sig (word_of_nat (unat op)) of None \<Rightarrow> True
    | Some (p, q) \<Rightarrow> atomic_cells (word_of_nat (unat op)) = (length (cells_of p), length (cells_of q))"
    unfolding list_all_iff by blast
  moreover have "(word_of_nat (unat op) :: u8) = ucast op" by simp
  ultimately show ?thesis using assms(1) by simp
qed

lemma effect_notify:
  assumes "frame_ip i = p"
  shows "effect 2 1 p i (exec_notify V al off i)"
proof -
  have "effect (Suc (Suc 0)) (Suc 0) p i (exec_notify V al off i)"
    unfolding exec_notify_def
    by (rule effect_pop32, simp, rule effect_pop32)
      (auto intro!: effect_atomic_addr effect_trap effect_push [unfolded One_nat_def] simp: assms Let_def)
  then show ?thesis by (simp add: numeral_2_eq_2)
qed

lemma effect_finish_wait: "frame_ip i = p \<Longrightarrow> effect 0 (Suc 0) p i (finish_wait V a e t w i)"
  by (auto simp: finish_wait_def push32_def Let_def effect_trap effectI [where vs = "[v]" for v] same_frame_def
      split: prod.splits)

lemma effect_wait:
  assumes "frame_ip i = p"
  shows "effect 4 1 p i (exec_wait V False al off i)" "effect 5 1 p i (exec_wait V True al off i)"
proof -
  have "effect (Suc (Suc (Suc (Suc 0)))) (Suc 0) p i (exec_wait V False al off i)"
    unfolding exec_wait_def
    by (rule effect_pop64, simp, rule effect_pop32, simp, rule effect_pop32)
      (auto intro!: effect_atomic_addr effect_finish_wait simp: assms)
  then show "effect 4 1 p i (exec_wait V False al off i)" by (simp add: eval_nat_numeral)
  have "effect (Suc (Suc (Suc (Suc (Suc 0))))) (Suc 0) p i (exec_wait V True al off i)"
    unfolding exec_wait_def
    by (rule effect_pop64, simp, rule effect_pop64, simp, rule effect_pop32)
      (auto intro!: effect_atomic_addr effect_finish_wait simp: assms)
  then show "effect 5 1 p i (exec_wait V True al off i)" by (simp add: eval_nat_numeral)
qed

lemma exec_atomic_effect:
  assumes "fetch_u32 i = done_with (opcode1, i1)" "fetch_u32 i1 = done_with (al, i2)"
    and "fetch_u32 i2 = done_with (off, i\<lparr>frame_ip := p\<rparr>)"
    and "unat opcode1 \<le> 2 \<or> 0x10 \<le> unat opcode1 \<and> unat opcode1 \<le> 0x4e"
  shows "effect (fst (atomic_cells (ucast opcode1))) (snd (atomic_cells (ucast opcode1))) p i (exec_atomic V i)"
proof -
  let ?op = "ucast opcode1 :: u8" and ?i = "i\<lparr>frame_ip := p\<rparr>"
  have "unat opcode1 < 256" using assms(4) by auto
  then have u: "unat ?op = unat opcode1" by (simp add: unsigned_ucast_eq take_bit_nat_eq_self)
  then have n3: "?op \<noteq> 3" using assms(4) by auto
  have run: "exec_atomic V i =
      (if ?op = 0 then exec_notify V al off ?i
       else if ?op = 1 \<or> ?op = 2 then exec_wait V (?op = 2) al off ?i
       else if 0x10 \<le> ?op \<and> ?op \<le> 0x4e then
         let (wide, n) = atomic_width ?op; k = (unat ?op - 0x10) div 7
         in if wide then exec_atomic_access k n al off pop64 push64 ?i else exec_atomic_access k n al off pop32 push32 ?i
       else stuck)"
    using n3 by (simp add: exec_atomic_def assms(1-3) Let_def)
  consider "?op = 0" | "?op = 1" | "?op = 2" | "?op \<noteq> 0" "?op \<noteq> 1" "?op \<noteq> 2" "0x10 \<le> ?op \<and> ?op \<le> 0x4e"
  proof -
    have "?op = 0 \<longleftrightarrow> unat ?op = 0" "?op = 1 \<longleftrightarrow> unat ?op = 1" "?op = 2 \<longleftrightarrow> unat ?op = 2"
      by (simp_all add: word_unat_eq_iff)
    with assms(4) that show thesis unfolding u word_le_nat_alt by (cases "unat opcode1 \<le> 2") (auto simp: u)
  qed
  then show ?thesis
  proof cases
    case 4
    obtain wide n where w: "atomic_width ?op = (wide, n)" by fastforce
    show ?thesis
      using exec_atomic_access_32 [of ?i p "(unat ?op - 0x10) div 7" n al off]
        exec_atomic_access_64 [of ?i p "(unat ?op - 0x10) div 7" n al off] w 4
      by (cases wide) (auto simp: run atomic_cells_def Let_def intro: effect_moved)
  qed (use effect_moved [OF effect_notify [of ?i p V al off]] effect_moved [OF effect_wait(1) [of ?i p V al off]]
      effect_moved [OF effect_wait(2) [of ?i p V al off]] in \<open>simp_all add: run atomic_cells_def\<close>)
qed

lemma op_atomic_follows:
  assumes "live (lctx s)" "op_atomic av stray M p_end s = Inr s'" "lmem s (lp s - 1) = 0xfe"
    and "machine_at F s s' i" "unat p_end < 2 ^ 32 - 1"
  shows "follows V F s s' i"
proof -
  have ip: "frame_ip i = lp s" and ag: "agree (lmem s') (chip i) (lp s) (lp s')"
    using assms(4) by (simp_all add: machine_at_def)
  from assms(2) obtain opcode1 s1 where r: "read_u32 p_end s = Inr (opcode1, s1)"
    by (auto simp: op_atomic_def)
  note rd = read_u32_moves [OF r]
  let ?i = "i\<lparr>frame_ip := lp s1\<rparr>"
  have l1: "live (lctx s1)" using assms(1) rd by simp
  have "matched s s' i (exec_atomic V i) \<and> lmem s' = lmem s"
  proof (cases "opcode1 = 3")
    case True
    then have s': "s' = s1\<lparr>lp := lp s1 + 1\<rparr>"
      using assms(2) r by (auto simp: op_atomic_def split: if_splits)
    have "unat (lp s1 + 1) = unat (lp s1) + 1" using unat_add_small [of "lp s1" 1] rd assms(5) by simp
    then have f: "fetch_u32 i = done_with (opcode1, ?i)"
      using fetch_u32_eq [OF r ip] agree_sub [OF ag] s' rd by simp
    have "effect 0 0 (lp s') i (exec_atomic V i)"
      using True s' by (simp add: exec_atomic_def f skip_byte_def effect_done same_frame_def)
    then show ?thesis using counts_refl [OF assms(1)] s' rd by (auto intro: matchedI)
  next
    case False
    then obtain al s2 off s3 ts us s4 where p: "read_u32 p_end s1 = Inr (al, s2)"
      "read_u32 p_end s2 = Inr (off, s3)" and sg: "atomic_sig opcode1 = Some (ts, us)"
      and st: "POP_TYPES ts s3 = Inr s4" "PUSH_TYPES av us s4 = Inr s'"
      using assms(2) r by (auto simp: op_atomic_def split: if_splits option.splits prod.splits)
    note r2 = read_u32_moves [OF p(1)] and r3 = read_u32_moves [OF p(2)]
    have v: "list_all is_valid_value_type ts" "list_all is_valid_value_type us"
      using atomic_sig_valid [OF sg] by simp_all
    have m1: "moves (length (cells_of ts)) 0 s3 s4" using POP_TYPES_moves [OF _ v(1) st(1)] l1 r2 r3 by simp
    have "moves 0 (length (cells_of us)) s4 s'" by (rule PUSH_TYPES_moves [OF moves_live [OF m1] v(2) st(2)])
    with m1 have m: "moves (length (cells_of ts)) (length (cells_of us)) s3 s'" by (rule moves_trans)
    then have ms: "lmem s' = lmem s" "lp s' = lp s3" using rd r2 r3 by (simp_all add: moves_def)
    have f1: "fetch_u32 i = done_with (opcode1, ?i)"
      using fetch_u32_eq [OF r ip] agree_sub [OF ag] ms r2 r3 by simp
    note f2 = fetch_two [OF p, of ?i]
    have "agree (lmem s1) (chip ?i) (lp s1) (lp s3)" using agree_sub [OF ag] ms rd r2 r3 by simp
    then have f: "fetch_u32 ?i = done_with (al, ?i\<lparr>frame_ip := lp s2\<rparr>)"
      "fetch_u32 (?i\<lparr>frame_ip := lp s2\<rparr>) = done_with (off, i\<lparr>frame_ip := lp s3\<rparr>)"
      using f2 by simp_all
    have op: "unat opcode1 \<le> 2 \<or> 0x10 \<le> unat opcode1 \<and> unat opcode1 \<le> 0x4e"
      using sg by (auto simp: atomic_sig_def Let_def word_le_nat_alt word_less_nat_alt split: if_splits)
    have cells: "atomic_cells (ucast opcode1) = (length (cells_of ts), length (cells_of us))"
      using atomic_sig_cells [OF sg] op by simp
    have "effect (length (cells_of ts)) (length (cells_of us)) (lp s') i (exec_atomic V i)"
      using exec_atomic_effect [OF f1 f] op ms cells by simp
    then show ?thesis using m ms rd r2 r3 by (auto simp: moves_def intro: matchedI)
  qed
  then show ?thesis using assms(3) by (intro follows_once) (simp add: exec_plain_def opcode_values)
qed

text \<open>The restriction to memory indices of one byte is needed: the validation accepts the index 0 in a longer
  encoding, and the interpreter goes on with its second byte.\<close>

lemma memidx_out_of_step:
  "read_leb_uint32 (mem_of 0x1000 [0x80, 0x00]) 0x1000 0x1002 = Inr (0, 0x1002)"
  "exec_memory_fill_op i = Some (Inr i') \<Longrightarrow> frame_ip i' = frame_ip i + 1"
proof -
  show "read_leb_uint32 (mem_of 0x1000 [0x80, 0x00]) 0x1000 0x1002 = Inr (0, 0x1002)" by code_simp
  assume run: "exec_memory_fill_op i = Some (Inr i')"
  have "3 \<le> length (frame_sp i)"
  proof (rule ccontr)
    assume "\<not> 3 \<le> length (frame_sp i)"
    then have "exec_memory_fill_op i = None"
      by (cases "frame_sp i"; cases "tl (frame_sp i)"; cases "tl (tl (frame_sp i))")
        (auto simp: exec_memory_fill_op_def pop32_def skip_byte_def, simp_all add: stuck_def)
    with run show False by simp
  qed
  with exec_memory_fill_effect [of i] run show "frame_ip i' = frame_ip i + 1" by (auto simp: effect_def)
qed

section \<open>Every plain instruction\<close>

text \<open>The instructions the statement is about: all that go on with the next one, with memory indices of one byte.\<close>

definition plain_instr :: "u32 \<Rightarrow> LoaderState \<Rightarrow> bool" where
  "plain_instr p_end s \<longleftrightarrow>
     (let op = lmem s (lp s); s = s\<lparr>lp := lp s + 1\<rparr>
      in op \<in> {0x01, 0x1a, 0x1b, 0x20, 0x21, 0x22, 0x23, 0x24} \<or> 0x28 \<le> op \<and> op \<le> 0xc4 \<or>
         op = 0xfc \<and> short_memidx p_end s \<or> op = 0xfe)"

lemma opcode_classes:
  fixes op :: u8
  assumes "0x28 \<le> op" "op \<le> 0xc4"
  shows "0x28 \<le> op \<and> op \<le> 0x3e \<or> op = 0x3f \<or> op = 0x40 \<or>
    0x41 \<le> op \<and> op \<le> 0x44 \<or> 0x45 \<le> op \<and> op \<le> 0xc4"
proof -
  have e: "op = 0x3f \<longleftrightarrow> unat op = 0x3f" "op = 0x40 \<longleftrightarrow> unat op = 0x40"
    by (simp_all add: word_unat_eq_iff)
  show ?thesis using assms unfolding e word_le_nat_alt by simp linarith
qed

lemma prepare_opcode_ranges:
  "0x28 \<le> op \<Longrightarrow> op \<le> 0x3e \<Longrightarrow> prepare_opcode E M F p_end op s = op_load_store (env_av E) M p_end op s"
  "0x41 \<le> op \<Longrightarrow> op \<le> 0x44 \<Longrightarrow> prepare_opcode E M F p_end op s = op_const (env_av E) p_end op s"
  "0x45 \<le> op \<Longrightarrow> op \<le> 0xc4 \<Longrightarrow> prepare_opcode E M F p_end op s =
     (case numeric_sig op of Some (n, tp, tq) \<Rightarrow> POPS_AND_PUSH (env_av E) n tp tq s
      | None \<Rightarrow> Inl unsupported_opcode)"
proof -
  have ne: "op \<notin> {0, 1, 2, 3, 4, 5, 0xb, 0xc, 0xd, 0xe, 0xf, 0x10, 0x11, 0x1a, 0x1b, 0x20, 0x21, 0x22,
      0x23, 0x24, 0xfc, 0xfe}" if "0x28 \<le> op" "op \<le> 0xc4"
    using that by (auto simp: word_le_nat_alt)
  show "prepare_opcode E M F p_end op s = op_load_store (env_av E) M p_end op s"
    if r: "0x28 \<le> op" "op \<le> 0x3e"
  proof -
    have "op \<le> 0xc4" using r(2) by (rule order_trans) simp
    from ne [OF r(1) this] r show ?thesis by (simp add: prepare_opcode_def)
  qed
  show "prepare_opcode E M F p_end op s = op_const (env_av E) p_end op s"
    if r: "0x41 \<le> op" "op \<le> 0x44"
  proof -
    have "0x28 \<le> op" by (rule order_trans [OF _ r(1)]) simp
    moreover have "op \<le> 0xc4" using r(2) by (rule order_trans) simp
    moreover have "op \<notin> {0x3f, 0x40}" "\<not> op \<le> 0x3e" using r(1) by (auto simp: word_le_nat_alt)
    ultimately show ?thesis using ne r by (simp add: prepare_opcode_def)
  qed
  show "prepare_opcode E M F p_end op s = (case numeric_sig op of Some (n, tp, tq) \<Rightarrow>
      POPS_AND_PUSH (env_av E) n tp tq s | None \<Rightarrow> Inl unsupported_opcode)"
    if r: "0x45 \<le> op" "op \<le> 0xc4"
  proof -
    have "0x28 \<le> op" by (rule order_trans [OF _ r(1)]) simp
    moreover have "op \<notin> {0x3f, 0x40}" "\<not> op \<le> 0x3e" "\<not> op \<le> 0x44" using r(1) by (auto simp: word_le_nat_alt)
    ultimately show ?thesis using ne r by (simp add: prepare_opcode_def)
  qed
qed

lemma plain_instr_follows:
  assumes "live (lctx s)" "module_ok M" "function_ok F" "prepare_step E M F p_end s = Inr s'"
    and "unat p_end < 2 ^ 32 - 1" "plain_instr p_end s"
    and "machine_at F (s\<lparr>lp := lp s + 1\<rparr>) s' i"
    and "global_count M \<le> length (ie_global_offsets V)" "data_seg_count M \<le> length (data_segs i)"
  shows "follows V F (s\<lparr>lp := lp s + 1\<rparr>) s' i"
proof -
  let ?s = "s\<lparr>lp := lp s + 1\<rparr>"
  let ?op = "lmem ?s (lp ?s - 1)"
  have live: "live (lctx ?s)" using assms(1) by simp
  have op: "prepare_opcode E M F p_end ?op ?s = Inr s'" using assms(4) by (simp add: prepare_step_def)
  note m = assms(7)
  consider "?op = 0x01" | "?op = 0x1a" | "?op = 0x1b" | "?op = 0x20" | "?op = 0x21" | "?op = 0x22"
    | "?op = 0x23" | "?op = 0x24" | "0x28 \<le> ?op" "?op \<le> 0x3e" | "?op = 0x3f" | "?op = 0x40"
    | "0x41 \<le> ?op" "?op \<le> 0x44" | "0x45 \<le> ?op" "?op \<le> 0xc4" | "?op = 0xfc" | "?op = 0xfe"
  proof -
    have "?op \<in> {0x01, 0x1a, 0x1b, 0x20, 0x21, 0x22, 0x23, 0x24} \<or> 0x28 \<le> ?op \<and> ?op \<le> 0xc4 \<or> ?op = 0xfc \<or> ?op = 0xfe"
      using assms(6) by (auto simp: plain_instr_def Let_def)
    then show thesis using opcode_classes [of ?op] that by blast
  qed
  then show ?thesis
  proof cases
    case 1
    then have "s' = ?s" using op by (simp add: prepare_opcode_def)
    then show ?thesis using counts_refl [OF live] m 1
      by (intro follows_once matchedI [where k = 0 and q = 0])
        (simp_all add: exec_plain_def effect_done machine_at_def)
  next
    case 2
    then have "op_drop ?s = Inr s'" using op by (simp add: prepare_opcode_def)
    with 2 m live show ?thesis
      by (intro follows_once op_drop_matched) (simp_all add: machine_at_def)
  next
    case 3
    then have "op_select (env_av E) ?s = Inr s'" using op by (simp add: prepare_opcode_def)
    with 3 m live show ?thesis
      by (intro follows_once op_select_matched) (simp_all add: machine_at_def)
  next
    case 4
    then have "op_get_local (env_av E) F p_end ?s = Inr s'" using op by (simp add: prepare_opcode_def)
    from op_get_local_follows [OF live assms(3) this 4 m] show ?thesis .
  next
    case 5
    then have "op_set_local F p_end ?s = Inr s'" using op by (simp add: prepare_opcode_def)
    from op_set_local_follows [OF live assms(3) this 5 m] show ?thesis .
  next
    case 6
    then have "op_tee_local (env_av E) F p_end ?s = Inr s'" using op by (simp add: prepare_opcode_def)
    from op_tee_local_follows [OF live assms(3) this 6 m] show ?thesis .
  next
    case 7
    then have "op_get_global (env_av E) M p_end ?s = Inr s'" using op by (simp add: prepare_opcode_def)
    from op_get_global_follows [OF live assms(2) this 7 m assms(8)] show ?thesis .
  next
    case 8
    then have "op_set_global M p_end ?s = Inr s'" using op by (simp add: prepare_opcode_def)
    from op_set_global_follows [OF live assms(2) this 8 m assms(8)] show ?thesis .
  next
    case 9
    then have "op_load_store (env_av E) M p_end ?op ?s = Inr s'"
      using op by (simp only: prepare_opcode_ranges)
    from op_load_store_follows [OF live this 9 m] show ?thesis .
  next
    case 10
    then have "op_memory_size (env_av E) M p_end ?s = Inr s'" using op by (simp add: prepare_opcode_def)
    from op_memory_size_follows [OF live this 10 m] show ?thesis .
  next
    case 11
    then have "op_memory_grow (env_av E) M p_end ?s = Inr s'" using op by (simp add: prepare_opcode_def)
    from op_memory_grow_follows [OF live this 11 m] show ?thesis .
  next
    case 12
    then have "op_const (env_av E) p_end ?op ?s = Inr s'"
      using op by (simp only: prepare_opcode_ranges)
    from op_const_follows [OF live this 12 m] show ?thesis .
  next
    case 13
    then obtain n tp tq where sg: "numeric_sig ?op = Some (n, tp, tq)" using no_sig_outside [of ?op] by auto
    have "POPS_AND_PUSH (env_av E) n tp tq ?s = Inr s'"
      using op sg by (simp only: prepare_opcode_ranges(3) [OF 13] option.case prod.case)
    from numeric_follows [OF live sg this m] show ?thesis .
  next
    case 14
    then have "op_misc (env_av E) M p_end ?s = Inr s'" using op by (simp add: prepare_opcode_def)
    moreover have "short_memidx p_end ?s"
      using assms(6) 14 by (auto simp: plain_instr_def Let_def)
    ultimately show ?thesis using op_misc_follows [OF live _ 14 m assms(9)] by blast
  next
    case 15
    then have "op_atomic (env_av E) (env_stray E) M p_end ?s = Inr s'" using op by (simp add: prepare_opcode_def)
    then show ?thesis by (rule op_atomic_follows [OF live _ 15 m assms(5)])
  qed
qed

text \<open>The position moves forward.\<close>

definition plain_opcode :: "u8 \<Rightarrow> bool" where
  "plain_opcode op \<longleftrightarrow> op \<in> {0x01, 0x1a, 0x1b, 0x20, 0x21, 0x22, 0x23, 0x24} \<or>
     0x28 \<le> op \<and> op \<le> 0xc4 \<or> op = 0xfc \<or> op = 0xfe"

lemma plain_opcode_other:
  "plain_opcode op \<Longrightarrow> op \<notin> {0, 2, 3, 4, 5, 0xb, 0xc, 0xd, 0xe, 0xf, 0x10, 0x11}"
  by (auto simp: plain_opcode_def word_le_nat_alt)

lemma plain_forward:
  assumes at: "at_code p0 p_end s" and lp: "lp s = p0 + 1" and pe: "unat p_end < 2 ^ 32 - 1"
    and M: "module_ok M" and F: "function_ok F"
    and op: "prepare_opcode E M F p_end opcode s = Inr s'" and plain: "plain_opcode opcode"
  shows "unat (lp s) \<le> unat (lp s')"
proof -
  let ?av = "env_av E"
  have "s' = s \<or> op_drop s = Inr s' \<or> op_select ?av s = Inr s'
    \<or> op_get_local ?av F p_end s = Inr s' \<or> op_set_local F p_end s = Inr s'
    \<or> op_tee_local ?av F p_end s = Inr s' \<or> op_get_global ?av M p_end s = Inr s'
    \<or> op_set_global M p_end s = Inr s' \<or> (\<exists>o1. op_load_store ?av M p_end o1 s = Inr s')
    \<or> op_memory_size ?av M p_end s = Inr s' \<or> op_memory_grow ?av M p_end s = Inr s'
    \<or> (\<exists>o1. op_const ?av p_end o1 s = Inr s') \<or> op_misc ?av M p_end s = Inr s'
    \<or> op_atomic ?av (env_stray E) M p_end s = Inr s'
    \<or> (\<exists>n t t'. numeric_sig opcode = Some (n, t, t') \<and> POPS_AND_PUSH ?av n t t' s = Inr s')"
    using op plain_opcode_other [OF plain] unfolding prepare_opcode_def Let_def
    by (simp split: if_splits option.splits prod.splits; blast)
  note steps = op_drop_step [OF at] op_select_step [OF at]
    op_get_local_step [OF at lp F] op_set_local_step [OF at lp F]
    op_tee_local_step [OF at lp F] op_get_global_step [OF at lp M]
    op_set_global_step [OF at lp M] op_load_store_step [OF at]
    op_memory_size_step [OF at] op_memory_grow_step [OF at] op_const_step [OF at] op_misc_step [OF at]
  have atomic: "unat (lp s) \<le> unat (lp s')" if "op_atomic ?av (env_stray E) M p_end s = Inr s'"
  proof -
    have "unat (p_end + 1) = unat p_end + 1" using unat_add_small [of p_end 1] pe by simp
    then show ?thesis using op_atomic_step [OF at that] at by (auto simp: code_step_def at_code_def)
  qed
  have fwd: "code_step p0 p_end s s' \<Longrightarrow> unat (lp s) \<le> unat (lp s')" by (simp add: code_step_def)
  have num: "unat (lp s) \<le> unat (lp s')"
    if "numeric_sig opcode = Some (n, t, t')" "POPS_AND_PUSH ?av n t t' s = Inr s'" for n t t'
    using POPS_AND_PUSH_step [OF at _ _ that(2)] numeric_sig_valid [OF that(1)] fwd by blast
  from \<open>_ \<or> _\<close> show ?thesis
    by (elim disjE exE conjE) (simp; fail | erule fwd [OF steps(1)] | erule fwd [OF steps(2)] | erule fwd [OF steps(3)]
      | erule fwd [OF steps(4)] | erule fwd [OF steps(5)] | erule fwd [OF steps(6)] | erule fwd [OF steps(7)]
      | erule fwd [OF steps(8)] | erule fwd [OF steps(9)] | erule fwd [OF steps(10)] | erule fwd [OF steps(11)]
      | erule fwd [OF steps(12)] | erule atomic | erule (1) num)+
qed

lemma plain_instr_opcode: "plain_instr p_end s \<Longrightarrow> plain_opcode (lmem s (lp s))"
  by (auto simp: plain_instr_def plain_opcode_def Let_def)

lemma instruction_runs:
  assumes "module_ok M" "function_ok F" "1 < unat (code F)"
    and "unat (code F) + unat (code_size F) < 2 ^ 32 - 1"
    and "prepare_start E F m = Inr s0" "prepare_reaches E M F (code_end F) s0 s" "lp s < code_end F"
    and "prepare_step E M F (code_end F) s = Inr s'"
    and "\<not> poly_of (lctx s)" "plain_instr (code_end F) s"
    and "frame_ip i = lp s" "length (frame_sp i) = stack_cell_num (lctx s)"
    and "agree (lmem s') (chip i) (lp s) (lp s')"
    and "locals_fit F (length (frame_lp i))" "global_count M \<le> length (ie_global_offsets V)"
    and "data_seg_count M \<le> length (data_segs i)"
  shows "\<exists>n. ((\<exists>e. exec_steps V F (Suc n) i = Some (Inl e)) \<or>
    (\<exists>i'. exec_steps V F (Suc n) i = Some (Inr i') \<and> frame_ip i' = lp s' \<and>
      length (frame_sp i') = stack_cell_num (lctx s') \<and>
      live (lctx s') \<and> height (lctx s') = height (lctx s) \<and> height (lctx s) \<le> length (frame_sp i') \<and>
      drop (length (frame_sp i') - height (lctx s)) (frame_sp i') =
        drop (length (frame_sp i) - height (lctx s)) (frame_sp i) \<and> same_frame i i')) \<and>
    (\<forall>j i1. 0 < j \<and> j \<le> Suc n \<and> exec_steps V F j i = Some (Inr i1) \<longrightarrow>
      length (frame_sp i1) = stack_cell_num (lctx s'))" (is "\<exists>n. ?ends n \<and> ?counted n")
proof -
  have set: "setting_ok M F (code F)" using assms(1-3) by (simp add: setting_ok_def)
  have pe: "unat (code_end F) < 2 ^ 32 - 1" using unat_code_end [OF assms(4)] assms(4) by simp
  note inv = prepare_reaches_inv(1) [OF assms(6) prepare_start_inv(1) [OF assms(5,2)] set pe]
  have lt: "unat (lp s) < unat (code_end F)" using assms(7) by (simp add: word_less_nat_alt)
  then have good: "good_ctx (lctx s)" and pos: "1 < unat (lp s)"
    using inv assms(3) by (auto simp: loop_inv_def)
  then have live: "live (lctx s)" using assms(9) by (simp add: live_def)
  have u1: "unat (lp s + 1) = unat (lp s) + 1" using unat_add_small [of "lp s" 1] lt pe by simp
  have adv: "unat (lp s) + 1 \<le> unat (lp s')"
  proof -
    have at: "at_code (lp s) (code_end F) (s\<lparr>lp := lp s + 1\<rparr>)" using good lt by (simp add: at_code_def u1)
    have "unat (lp (s\<lparr>lp := lp s + 1\<rparr>)) \<le> unat (lp s')"
      using assms(8) unfolding prepare_step_def
      by (intro plain_forward [OF at _ pe assms(1,2) _ plain_instr_opcode [OF assms(10)]]) simp_all
    then show ?thesis using u1 by simp
  qed
  let ?s = "s\<lparr>lp := lp s + 1\<rparr>" and ?i = "i\<lparr>frame_ip := lp s + 1\<rparr>"
  have "machine_at F ?s s' ?i"
    using assms(13,14) u1 by (auto simp: machine_at_def intro: agree_sub)
  then have "follows V F ?s s' ?i"
    using plain_instr_follows [OF live assms(1,2,8) pe assms(10)] assms(15,16) by simp
  then obtain n k q where c: "counts k q (lctx s) (lctx s')"
    and e: "effect k q (lp s') ?i (bindR (exec_plain V F (lmem s' (lp s)) ?i) (exec_steps V F n))"
    and idle: "idles V F n (exec_plain V F (lmem s' (lp s)) ?i)"
    by (auto simp: follows_def matched_def)
  have "chip i (lp s) = lmem s' (lp s)" using assms(13) adv by (simp add: agree_def)
  then have run: "exec_steps V F (Suc n) i = bindR (exec_plain V F (lmem s' (lp s)) ?i) (exec_steps V F n)" for n
    using assms(11) by (simp add: exec_step_def fetch_byte_def)
  have k: "height (lctx s) + k \<le> length (frame_sp i)" using c assms(12) by (simp add: counts_def)
  with e run consider (trapped) e' where "exec_steps V F (Suc n) i = Some (Inl e')"
    | (runs) i' vs where "exec_steps V F (Suc n) i = Some (Inr i')" "frame_ip i' = lp s'"
      "frame_sp i' = vs @ drop k (frame_sp i)" "length vs = q" "same_frame i i'"
    by (auto simp: effect_def same_frame_def)
  then have ends: "?ends n"
  proof cases
    case trapped
    then show ?thesis by blast
  next
    case runs
    have len: "length (frame_sp i') = stack_cell_num (lctx s')"
      using runs(3,4) c assms(12) by (simp add: counts_def) linarith
    moreover have "height (lctx s') = height (lctx s)"
      using c stack_only_height by (auto simp: counts_def)
    moreover have "drop (length (frame_sp i') - height (lctx s)) (frame_sp i') =
        drop (length (frame_sp i) - height (lctx s)) (frame_sp i)"
      using runs(3,4) k by (simp add: add.commute)
    moreover have "height (lctx s) \<le> length (frame_sp i')" using runs(3) k by simp
    moreover have "live (lctx s')" using c by (simp add: counts_def)
    ultimately show ?thesis using runs by blast
  qed
  have "?counted n"
  proof (intro allI impI)
    fix j i1
    assume j: "0 < j \<and> j \<le> Suc n \<and> exec_steps V F j i = Some (Inr i1)"
    then obtain m where m: "j = Suc m" "m \<le> n" by (cases j) auto
    with j run [of m] obtain i2 where i2: "exec_plain V F (lmem s' (lp s)) ?i = Some (Inr i2)" "exec_steps V F m i2 = Some (Inr i1)"
      by (auto simp: bindR_def split: option.splits sum.splits)
    have "frame_sp i1 = frame_sp i2" using idle i2 m(2) by (auto simp: idles_def done_with_def)
    moreover have "exec_steps V F (Suc n) i = Some (Inr (i2\<lparr>frame_ip := frame_ip i2 + of_nat n\<rparr>))"
      using run [of n] i2(1) idle by (simp add: idles_def done_with_def)
    ultimately show "length (frame_sp i1) = stack_cell_num (lctx s')" using ends by auto
  qed
  with ends show ?thesis by blast
qed

text \<open>C5: type soundness of the rewritten code, for the instructions that go on with the next one. Let the validation of an
  accepted or rejected body come to such an instruction (\<open>plain_instr\<close>: locals, globals, memory, constants, numeric,
  parametric, atomic and bulk memory instructions, the last with memory indices of one byte, as \<open>memidx_out_of_step\<close>
  demands), with a stack that is not the unreachable one, and accept it. Then an interpreter that stands there, with as
  many cells on its operand stack as the validation counted and a frame with the cells of the locals, after one or more
  steps has either trapped or stands where the validation went on, with as many cells as it counted there; it
  has not touched the cells of the enclosing blocks, and no step reads an operand, a local, a global or
  a data segment that does not exist. The code the interpreter reads is the rewritten one, with the
  opcodes for 64-bit operands and the short forms for locals. Blocks, branches and calls are in \<open>Control_Sound\<close>.\<close>

theorem instruction_sound:
  assumes "module_ok M" "function_ok F" "1 < unat (code F)"
    and "unat (code F) + unat (code_size F) < 2 ^ 32 - 1"
    and "prepare_start E F m = Inr s0" "prepare_reaches E M F (code_end F) s0 s" "lp s < code_end F"
    and "prepare_step E M F (code_end F) s = Inr s'"
    and "\<not> poly_of (lctx s)" "plain_instr (code_end F) s"
    and "frame_ip i = lp s" "length (frame_sp i) = stack_cell_num (lctx s)"
    and "agree (lmem s') (chip i) (lp s) (lp s')"
    and "locals_fit F (length (frame_lp i))" "global_count M \<le> length (ie_global_offsets V)"
    and "data_seg_count M \<le> length (data_segs i)"
  shows "\<exists>n. (\<exists>e. exec_steps V F (Suc n) i = Some (Inl e)) \<or>
    (\<exists>i'. exec_steps V F (Suc n) i = Some (Inr i') \<and> frame_ip i' = lp s' \<and>
      length (frame_sp i') = stack_cell_num (lctx s') \<and>
      height (lctx s') = height (lctx s) \<and> height (lctx s) \<le> length (frame_sp i') \<and>
      drop (length (frame_sp i') - height (lctx s)) (frame_sp i') =
        drop (length (frame_sp i) - height (lctx s)) (frame_sp i) \<and> same_frame i i')"
  using instruction_runs [OF assms] by blast

section \<open>The small function again\<close>

definition tiny_code :: cmem where
  "tiny_code = mem_of 0x1000 [0x41, 1, 0x20, 0, 0x6a, 0x0b]"

definition tiny_frame :: "LoaderState \<Rightarrow> InterpState" where
  "tiny_frame s = \<lparr>frame_ip = 0x1000, frame_sp = [], frame_lp = [0], chip = lmem s,
     mem_inst = tiny_memory, data_segs = []\<rparr>"

definition tiny_fpu :: fpu where
  "tiny_fpu = \<lparr>fun32 = \<lambda>_ x. x, fbin32 = \<lambda>_ x y. x, fun64 = \<lambda>_ x. x, fbin64 = \<lambda>_ x y. x,
     f32_of_int = \<lambda>_. 0, f64_of_int = \<lambda>_. 0, demote = \<lambda>_. 0, promote = \<lambda>_. 0\<rparr>"

definition tiny_instance :: interp_env where
  "tiny_instance = \<lparr>ie_fpu = tiny_fpu, ie_mmap = \<lambda>_ _. 0, ie_migrate = \<lambda>m _ _. (m, True),
     ie_heap_corrupted = False, ie_notify = \<lambda>_ _ _. 0, ie_wait = \<lambda>m mem _ _ _ _. (0, m, mem), ie_global_data = 0, ie_global_offsets = [],
     ie_aux_stack_boundary = 0, ie_aux_stack_bottom = 0\<rparr>"

lemma tiny_start:
  obtains s0 where "prepare_start tiny_env tiny_function tiny_code = Inr s0" "lp s0 = 0x1000"
    "lmem s0 = tiny_code" "stack_cell_num (lctx s0) = 0" "frame_ref (lctx s0) = []"
    "frame_csp (lctx s0) \<noteq> []" "\<not> poly_of (lctx s0)" "frame_ref_size (lctx s0) = 32"
    "max_stack_cell_num (lctx s0) = 0"
  by (simp add: prepare_start_def wasm_loader_ctx_init_def wasm_loader_push_frame_csp_def
      tiny_env_def sizeof_BranchBlock_def Let_def poly_of_def tiny_function_def)

lemma tiny_const: "read_leb_int32 tiny_code 0x1001 0x1006 = Inr (1, 0x1002)" "tiny_code 0x1000 = 0x41"
  by code_simp+

lemma tiny_step:
  assumes "lp s = 0x1000" "lmem s = tiny_code" "stack_cell_num (lctx s) = 0" "frame_ref (lctx s) = []"
    and "frame_ref_size (lctx s) = 32" "max_stack_cell_num (lctx s) = 0"
  obtains s' where "prepare_step tiny_env tiny_module tiny_function (code_end tiny_function) s = Inr s'"
    "stack_cell_num (lctx s') = 1"
proof -
  have e: "code_end tiny_function = 0x1006" by (simp add: code_end_def tiny_function_def)
  have "prepare_step tiny_env tiny_module tiny_function (code_end tiny_function) s =
      op_const (env_av tiny_env) 0x1006 0x41 (s\<lparr>lp := 0x1001\<rparr>)"
    unfolding prepare_step_def e using assms(1,2) tiny_const(2) by (simp add: prepare_opcode_ranges(2))
  then show thesis using that assms(2-6)
    by (simp add: op_const_def tiny_const PUSH_TYPES_def on_ctx_def wasm_loader_push_frame_ref_def
        check_stack_push_def Let_def)
qed

theorem instruction_sound_witness:
  "\<exists>s' n. (\<exists>e. exec_steps tiny_instance tiny_function (Suc n) (tiny_frame s') = Some (Inl e)) \<or>
     (\<exists>i'. exec_steps tiny_instance tiny_function (Suc n) (tiny_frame s') = Some (Inr i') \<and>
       length (frame_sp i') = 1)"
proof -
  obtain s0 where s0: "prepare_start tiny_env tiny_function tiny_code = Inr s0" and f: "lp s0 = 0x1000"
    "lmem s0 = tiny_code" "stack_cell_num (lctx s0) = 0" "frame_ref (lctx s0) = []"
    "frame_csp (lctx s0) \<noteq> []" "\<not> poly_of (lctx s0)" "frame_ref_size (lctx s0) = 32"
    "max_stack_cell_num (lctx s0) = 0"
    by (rule tiny_start)
  obtain s' where s': "prepare_step tiny_env tiny_module tiny_function (code_end tiny_function) s0 = Inr s'"
    "stack_cell_num (lctx s') = 1" using f(1-4,7,8) by (rule tiny_step)
  have fit: "locals_fit tiny_function 1"
  proof -
    have "wasm_value_type_cell_num 127 = 1" by code_simp
    then show ?thesis by (simp add: locals_fit_def local_count_def local_type_def tiny_function_def)
  qed
  have "lp s0 < code_end tiny_function" by (simp add: f(1) code_end_def tiny_function_def)
  moreover have "plain_instr (code_end tiny_function) s0"
    by (simp add: plain_instr_def f(1,2) tiny_const)
  ultimately show ?thesis
    using instruction_sound [OF tiny_ok s0 prepare_refl _ s'(1) f(6), of "tiny_frame s'" tiny_instance]
      f fit s'(2)
    by (auto simp: tiny_frame_def agree_def global_count_def tiny_module_def tiny_instance_def)
qed

end
