(* ===== verification/Block_Scan.thy ===== *)
theory Block_Scan
  imports Interp_Control Interp_Sound
begin

text \<open>
  The search for the end of a block (\<open>wasm_loader_find_block_addr\<close>) against the validation of
  the body: on the rewritten code of an accepted body the search moves from instruction to
  instruction exactly as the validation did, so it finds the \<open>else\<close> and the \<open>end\<close> that the
  validation has matched with the block, and everything it puts into the cache is right.
\<close>

section \<open>Skipping what was read\<close>

lemma quick_loop_skips:
  assumes "leb_quick_loop m p r s = Some x"
  shows "skip_leb m p = Some (snd (snd (snd x)))"
proof (rule leb_quick_loop.raw_induct [where P = "\<lambda>m p r s x. skip_leb m p = Some (snd (snd (snd x)))", OF _ assms])
  fix f m p r s x
  assume "\<And>m p r s x. f m p r s = Some x \<Longrightarrow> skip_leb m p = Some (snd (snd (snd x)))"
    "(let byte = m p; result' = r OR push_bit s (ucast (byte AND 0x7f))
      in if byte AND 0x80 = 0 then Some (result', s + 7, byte, p + 1) else f m (p + 1) result' (s + 7)) = Some x"
  then show "skip_leb m p = Some (snd (snd (snd x)))"
    by (subst skip_leb.simps) (auto simp: Let_def split: if_splits)
qed

lemma read_leb_skips:
  assumes "read_leb m p e bits sign = Inr (v, p')" "bits = 32 \<or> bits = 64" "agree m m' p p'"
  shows "skip_leb m' p = Some p'"
proof -
  from read_leb_fetched [OF assms] obtain x where "leb_quick_loop m' p 0 0 = Some x" "snd (snd (snd x)) = p'"
    by (auto simp: read_leb_quick_def split: option.splits prod.splits if_splits)
  with quick_loop_skips show ?thesis by metis
qed

lemma read_leb_elsewhere:
  assumes "read_leb m p e bits sign = Inr (v, p')" "bits = 32 \<or> bits = 64" "agree m m' p p'"
    and "unat p' \<le> unat e'"
  shows "read_leb m' p e' bits sign = Inr (v, p')"
proof -
  from assms(1) obtain n where n: "bh_leb_read m p e bits sign = Inr (v, n)" "p' = p + of_nat n"
    by (auto simp: read_leb_def split: sum.splits)
  have b: "bits \<le> 64" using assms(2) by auto
  from bh_leb_read_Inr(3) [OF n(1) b] have "unat p + n < 2 ^ 32" using unat_u32_less [of e] by simp
  then have u: "unat p' = unat p + n" unfolding n(2) by (rule unat_add_small)
  then have "cbytes m' p n = cbytes m p n" by (intro agree_cbytes [OF assms(3)]) simp
  from bh_leb_read_bytes [OF n(1) b this, of e'] u assms(4) n(2) show ?thesis
    by (simp add: read_leb_def)
qed

lemma read_u32_skips:
  assumes "read_leb_uint32 m p e = Inr (v, q)" "agree m m' p q"
  shows "skip_leb m' p = Some q" "unat q \<le> unat e' \<Longrightarrow> scan_u32 m' p e' = done_with (v, q)"
proof -
  from assms(1) obtain r where r: "read_leb m p e 32 False = Inr (r, q)" "v = ucast r"
    by (auto simp: read_leb_uint32_def)
  show "skip_leb m' p = Some q" using read_leb_skips [OF r(1) _ assms(2)] by simp
  show "scan_u32 m' p e' = done_with (v, q)" if "unat q \<le> unat e'"
    using read_leb_elsewhere [OF r(1) _ assms(2) that] r(2)
    by (simp add: scan_u32_def read_leb_uint32_def)
qed

lemma read_signed_skips:
  "read_leb_int32 m p e = Inr (v, q) \<Longrightarrow> agree m m' p q \<Longrightarrow> skip_leb m' p = Some q"
  "read_leb_int64 m p e = Inr (w, q) \<Longrightarrow> agree m m' p q \<Longrightarrow> skip_leb m' p = Some q"
  by (auto simp: read_leb_int32_def read_leb_int64_def intro: read_leb_skips)

lemma runs_on_simps [simp]: "runs_on (Some x) = done_with x" "runs_on None = stuck"
  by (simp_all add: runs_on_def)

lemma skip_two_done:
  "skip_leb m p = Some q \<Longrightarrow> skip_leb m q = Some r \<Longrightarrow> skip_two m p = done_with r"
  by (simp add: skip_two_def)

section \<open>Moving the search\<close>

text \<open>The search at \<open>p\<close> has the result it has at \<open>q\<close>: the loop gets from one to the other, or could.\<close>

definition jumps :: "cmem \<Rightarrow> u32 \<Rightarrow> u32 \<Rightarrow> u32 \<Rightarrow> bool" where
  "jumps m lim p q \<longleftrightarrow> (\<forall>label sc. scan_p sc = p \<and> scan_depth sc \<noteq> 0 \<longrightarrow>
     scan_loop m lim label sc = scan_loop m lim label (sc\<lparr>scan_p := q\<rparr>))"

lemma jumps_refl: "jumps m lim p p"
  by (auto simp: jumps_def)

lemma jumps_trans:
  assumes "jumps m lim p q" "jumps m lim q r"
  shows "jumps m lim p r"
proof -
  have "scan_loop m lim label sc = scan_loop m lim label (sc\<lparr>scan_p := r\<rparr>)"
    if "scan_p sc = p" "scan_depth sc \<noteq> 0" for label sc
  proof -
    have "scan_loop m lim label sc = scan_loop m lim label (sc\<lparr>scan_p := q\<rparr>)"
      using assms(1) that by (simp add: jumps_def)
    also have "\<dots> = scan_loop m lim label (sc\<lparr>scan_p := q, scan_p := r\<rparr>)"
      using assms(2) that(2) by (simp add: jumps_def)
    finally show ?thesis by simp
  qed
  then show ?thesis by (auto simp: jumps_def)
qed

lemma jumps_sym: "jumps m lim p q \<Longrightarrow> jumps m lim q p"
proof -
  assume j: "jumps m lim p q"
  have "scan_loop m lim label sc = scan_loop m lim label (sc\<lparr>scan_p := p\<rparr>)"
    if "scan_p sc = q" "scan_depth sc \<noteq> 0" for label sc
  proof -
    have "scan_loop m lim label (sc\<lparr>scan_p := p\<rparr>) = scan_loop m lim label (sc\<lparr>scan_p := p, scan_p := q\<rparr>)"
      using j that(2) by (simp add: jumps_def)
    also have "sc\<lparr>scan_p := p, scan_p := q\<rparr> = sc" using that(1) by simp
    finally show ?thesis ..
  qed
  then show ?thesis by (auto simp: jumps_def)
qed

definition block_opcode :: "u8 \<Rightarrow> bool" where
  "block_opcode op \<longleftrightarrow>
     op \<in> {0x02, 0x03, 0x04, EXT_OP_BLOCK, EXT_OP_LOOP, EXT_OP_IF, 0x05, 0x0b}"

lemma scan_jumps:
  assumes "\<not> block_opcode (m p)" "p < lim" "scan_skip m (m p) (p + 1) lim = done_with q"
  shows "jumps m lim p q"
  using assms by (auto simp: jumps_def scan_loop.simps [of m lim _ sc for sc] scan_op_def block_opcode_def
      done_with_def [of q] bindR_def done_with_def)

lemma nop_jumps:
  assumes "m p = WASM_OP_NOP" "p < lim"
  shows "jumps m lim p (p + 1)"
  using assms by (intro scan_jumps)
    (simp_all add: block_opcode_def WASM_OP_NOP_def scan_skip_def EXT_OP_BLOCK_def EXT_OP_LOOP_def EXT_OP_IF_def)

lemma nops_jump:
  assumes "\<forall>a. unat p \<le> unat a \<and> unat a < unat p + n \<longrightarrow> m a = WASM_OP_NOP" "unat p + n \<le> unat lim"
  shows "jumps m lim p (p + of_nat n)"
  using assms
proof (induction n arbitrary: p)
  case 0
  then show ?case by (simp add: jumps_refl)
next
  case (Suc n)
  have u: "unat (p + 1) = unat p + 1"
    using Suc.prems(2) unat_u32_less [of lim] unat_add_small [of p 1] by simp
  have "jumps m lim p (p + 1)" using Suc.prems by (intro nop_jumps) (simp_all add: word_less_nat_alt)
  moreover have "jumps m lim (p + 1) (p + 1 + of_nat n)" using Suc.prems u by (intro Suc.IH) auto
  ultimately have "jumps m lim p (p + 1 + of_nat n)" by (rule jumps_trans)
  then show ?case by (simp add: add.assoc)
qed

lemma skip_nops_jumps:
  assumes "m a \<noteq> WASM_OP_NOP" "unat p \<le> unat a" "unat a < unat lim"
  shows "\<exists>q. skip_nops m p = Some q \<and> jumps m lim p q"
  using assms
proof (induction "unat a - unat p" arbitrary: p)
  case 0
  then have "p = a" by (simp add: word_unat_eq_iff)
  with 0 show ?case by (subst skip_nops.simps) (simp add: jumps_refl)
next
  case (Suc n)
  show ?case
  proof (cases "m p = WASM_OP_NOP")
    case True
    have u: "unat (p + 1) = unat p + 1"
      using Suc.hyps(2) unat_u32_less [of a] unat_add_small [of p 1] by simp
    have "\<exists>q. skip_nops m (p + 1) = Some q \<and> jumps m lim (p + 1) q"
      using Suc.hyps(2) Suc.prems u by (intro Suc.hyps(1)) simp_all
    then obtain q where q: "skip_nops m (p + 1) = Some q" "jumps m lim (p + 1) q" by blast
    have "jumps m lim p (p + 1)"
      using True Suc.hyps(2) Suc.prems by (intro nop_jumps) (simp_all add: word_less_nat_alt)
    with q True show ?thesis by (subst skip_nops.simps) (auto intro: jumps_trans)
  next
    case False
    then show ?thesis by (subst skip_nops.simps) (simp add: jumps_refl)
  qed
qed

section \<open>Instruction by instruction\<close>

text \<open>\<open>s\<close> is the state of the validation behind the opcode, \<open>s'\<close> the state behind the instruction; the
  search reads a memory that has the rewritten instruction.\<close>

definition scan_setting :: "cmem \<Rightarrow> u32 \<Rightarrow> LoaderState \<Rightarrow> LoaderState \<Rightarrow> bool" where
  "scan_setting m lim s s' \<longleftrightarrow> 0 < unat (lp s) \<and> unat (lp s) \<le> unat (lp s') \<and>
     unat (lp s') \<le> unat lim \<and> agree (lmem s') m (lp s - 1) (lp s')"

definition keeps_code :: "LoaderState \<Rightarrow> LoaderState \<Rightarrow> bool" where
  "keeps_code s s' \<longleftrightarrow> lp s' = lp s \<and> lmem s' = lmem s"

lemma keeps_codeD [dest]:
  "on_ctx f s = Inr s' \<Longrightarrow> keeps_code s s'" "POP_TYPE t s = Inr s' \<Longrightarrow> keeps_code s s'"
  "POP_TYPES ts s = Inr s' \<Longrightarrow> keeps_code s s'" "PUSH_TYPES av ts s = Inr s' \<Longrightarrow> keeps_code s s'"
  "POPS_AND_PUSH av n t t' s = Inr s' \<Longrightarrow> keeps_code s s'" "mark_unreachable s = Inr s' \<Longrightarrow> keeps_code s s'"
  "call_type av ft s = Inr s' \<Longrightarrow> keeps_code s s'"
  by (auto simp: keeps_code_def on_ctx_Inr POP_TYPE_def POP_TYPES_def PUSH_TYPES_def POPS_AND_PUSH_def
      mark_unreachable_def call_type_def)

lemma unat_pred: "0 < unat p \<Longrightarrow> Suc (unat (p - 1 :: u32)) = unat p"
  by (simp add: unat_sub word_le_nat_alt)

lemma setting_jumps:
  assumes "scan_setting m lim s s'" "lmem s' (lp s - 1) = op" "\<not> block_opcode op"
    and "scan_skip m op (lp s) lim = done_with (lp s')"
  shows "jumps m lim (lp s - 1) (lp s')"
proof -
  have u: "unat (lp s - 1) + 1 = unat (lp s)" using assms(1) unat_pred [of "lp s"] by (simp add: scan_setting_def)
  with assms(1) have "unat (lp s - 1) < unat lim" "unat (lp s - 1) < unat (lp s')"
    by (auto simp: scan_setting_def)
  then have "m (lp s - 1) = op" "lp s - 1 < lim"
    using assms(1,2) by (auto simp: scan_setting_def agree_def word_less_nat_alt)
  then show ?thesis using assms(3,4) by (intro scan_jumps) simp_all
qed

lemma setting_agree:
  assumes "scan_setting m lim s s'" "\<And>a. unat (lp s) \<le> unat a \<Longrightarrow> lmem s' a = lmem s a"
  shows "agree (lmem s) m (lp s) (lp s')"
proof -
  have "unat (lp s - 1) \<le> unat (lp s)"
    using assms(1) unat_pred [of "lp s"] by (simp add: scan_setting_def)
  with assms show ?thesis by (auto simp: scan_setting_def agree_def)
qed

lemmas scan_values = block_opcode_def EXT_OP_BLOCK_def EXT_OP_LOOP_def EXT_OP_IF_def
  EXT_OP_BR_TABLE_CACHE_def opcode_values

definition leb_opcode :: "u8 \<Rightarrow> bool" where
  "leb_opcode op \<longleftrightarrow> op \<in> {0x0c, 0x0d, 0x10, 0x20, 0x21, 0x22, 0x23, 0x24, WASM_OP_GET_GLOBAL_64,
     WASM_OP_SET_GLOBAL_64, WASM_OP_SET_GLOBAL_AUX_STACK, 0x3f, 0x40, 0x41, 0x42}"

lemma scan_skip_leb: "leb_opcode op \<Longrightarrow> scan_skip m op p lim = runs_on (skip_leb m p)"
  "leb_opcode op \<Longrightarrow> \<not> block_opcode op"
  by (auto simp: leb_opcode_def scan_skip_def scan_values)

lemma leb_jumps:
  assumes "scan_setting m lim s s'" "leb_opcode (lmem s' (lp s - 1))"
    and "skip_leb m (lp s) = Some (lp s')"
  shows "jumps m lim (lp s - 1) (lp s')"
  using scan_skip_leb [OF assms(2)] assms(3) by (intro setting_jumps [OF assms(1) refl]) simp_all

lemma one_leb_jumps:
  assumes "scan_setting m lim s s'" "leb_opcode (lmem s' (lp s - 1))"
    and "\<And>a. unat (lp s) \<le> unat a \<Longrightarrow> lmem s' a = lmem s a"
    and "\<exists>v. read_leb_uint32 (lmem s) (lp s) e = Inr (v, lp s')"
  shows "jumps m lim (lp s - 1) (lp s')"
  using assms(4) read_u32_skips(1) setting_agree [OF assms(1,3)] by (blast intro: leb_jumps [OF assms(1,2)])

lemma scan_still:
  "op \<in> {0x00, 0x01, 0x0f, 0x1a, 0x1b, WASM_OP_DROP_64, WASM_OP_SELECT_64} \<or> 0x45 \<le> op \<and> op \<le> 0xc4 \<Longrightarrow>
   scan_skip m op p lim = done_with p"
  unfolding scan_skip_def by (rule if_P)

lemma still_not_block:
  "op \<in> {0x00, 0x01, 0x0f, 0x1a, 0x1b, WASM_OP_DROP_64, WASM_OP_SELECT_64} \<or> 0x45 \<le> op \<and> op \<le> 0xc4 \<Longrightarrow>
   \<not> block_opcode op"
  by (auto simp: scan_values word_le_nat_alt)

lemma still_jumps:
  assumes "scan_setting m lim s s'" "lp s' = lp s"
    and "lmem s' (lp s - 1) \<in> {0x00, 0x01, 0x0f, 0x1a, 0x1b, WASM_OP_DROP_64, WASM_OP_SELECT_64} \<or>
      0x45 \<le> lmem s' (lp s - 1) \<and> lmem s' (lp s - 1) \<le> 0xc4"
  shows "jumps m lim (lp s - 1) (lp s')"
  using scan_still [OF assms(3)] still_not_block [OF assms(3)] assms(2)
  by (intro setting_jumps [OF assms(1) refl]) simp_all

lemma drop_jumps:
  assumes "scan_setting m lim s s'" "op_drop s = Inr s'" "lmem s (lp s - 1) = 0x1a"
  shows "jumps m lim (lp s - 1) (lp s')"
proof -
  have "lmem s' (lp s - 1) \<in> {0x1a, WASM_OP_DROP_64}" "lp s' = lp s"
    using assms(2,3) by (auto simp: op_drop_def Let_def split: if_splits)
  then show ?thesis
    by (intro still_jumps [OF assms(1)]) auto
qed

lemma select_jumps:
  assumes "scan_setting m lim s s'" "op_select av s = Inr s'" "lmem s (lp s - 1) = 0x1b"
  shows "jumps m lim (lp s - 1) (lp s')"
proof -
  have "lmem s' (lp s - 1) \<in> {0x1b, WASM_OP_SELECT_64} \<and> lp s' = lp s"
    using assms(2,3) by (auto simp: op_select_def Let_def keeps_code_def dest!: keeps_codeD split: if_splits)
  then show ?thesis
    by (intro still_jumps [OF assms(1)]) auto
qed

lemma get_global_read:
  assumes "get_global M p_end s = Inr (i, t, mutable, s1)"
  shows "\<exists>v. read_leb_uint32 (lmem s) (lp s) p_end = Inr (v, lp s1)" "lmem s1 = lmem s"
  using assms by (auto simp: get_global_def read_u32_def Let_def split: if_splits)

lemma get_global_jumps:
  assumes "scan_setting m lim s s'" "op_get_global av M p_end s = Inr s'" "lmem s (lp s - 1) = 0x23"
  shows "jumps m lim (lp s - 1) (lp s')"
proof -
  from assms(2) obtain i t b s1 s2 where g: "get_global M p_end s = Inr (i, t, b, s1)"
    and p: "PUSH_TYPES av [t] s1 = Inr s2"
    and s': "s' = (if t = VALUE_TYPE_I64 \<or> t = VALUE_TYPE_F64 then poke (lp s - 1) WASM_OP_GET_GLOBAL_64 s2 else s2)"
    by (auto simp: op_get_global_def Let_def)
  have k: "keeps_code s1 s2" using p by blast
  have u: "Suc (unat (lp s - 1)) = unat (lp s)"
    using assms(1) unat_pred [of "lp s"] by (simp add: scan_setting_def)
  have "leb_opcode (lmem s' (lp s - 1))"
    using s' k get_global_read(2) [OF g] assms(3) by (simp add: keeps_code_def leb_opcode_def)
  moreover have "lmem s' a = lmem s a" if "unat (lp s) \<le> unat a" for a
  proof -
    have "a \<noteq> lp s - 1" using that u by auto
    then show ?thesis using s' k get_global_read(2) [OF g] by (simp add: keeps_code_def)
  qed
  moreover have "lp s' = lp s1" using s' k by (simp add: keeps_code_def)
  ultimately show ?thesis using get_global_read(1) [OF g] by (intro one_leb_jumps [OF assms(1)]) simp_all
qed

lemma set_global_jumps:
  assumes "scan_setting m lim s s'" "op_set_global M p_end s = Inr s'" "lmem s (lp s - 1) = 0x24"
  shows "jumps m lim (lp s - 1) (lp s')"
proof -
  from assms(2) obtain i t s1 s2 where g: "get_global M p_end s = Inr (i, t, True, s1)"
    and p: "POP_TYPE t s2 = Inr s'"
    and s2: "s2 = s1 \<or> s2 = poke (lp s - 1) WASM_OP_SET_GLOBAL_64 s1 \<or> s2 = poke (lp s - 1) WASM_OP_SET_GLOBAL_AUX_STACK s1"
    by (fastforce simp: op_set_global_def Let_def split: if_splits)
  have k: "keeps_code s2 s'" using p by blast
  have u: "Suc (unat (lp s - 1)) = unat (lp s)"
    using assms(1) unat_pred [of "lp s"] by (simp add: scan_setting_def)
  have "leb_opcode (lmem s' (lp s - 1))"
    using s2 k get_global_read(2) [OF g] assms(3) by (auto simp: keeps_code_def leb_opcode_def)
  moreover have "lmem s' a = lmem s a" if "unat (lp s) \<le> unat a" for a
  proof -
    have "a \<noteq> lp s - 1" using that u by auto
    then show ?thesis using s2 k get_global_read(2) [OF g] by (auto simp: keeps_code_def)
  qed
  moreover have "lp s' = lp s1" using s2 k by (auto simp: keeps_code_def)
  ultimately show ?thesis using get_global_read(1) [OF g] by (intro one_leb_jumps [OF assms(1)]) simp_all
qed

text \<open>Locals: the short form is two bytes and nops, which are instructions of their own.\<close>

lemma local_jumps:
  assumes set: "scan_setting m lim s s'" and gl: "get_local F p_end s = Inr (t, off, s1)"
    and mem: "lmem s' = lmem (rewrite_local fast t off (lp s - 1) s1)" "lp s' = lp s1"
    and op: "lmem s (lp s - 1) \<in> {0x20, 0x21, 0x22}"
    and fast: "fast \<in> {EXT_OP_GET_LOCAL_FAST, EXT_OP_SET_LOCAL_FAST, EXT_OP_TEE_LOCAL_FAST}"
  shows "jumps m lim (lp s - 1) (lp s')"
proof -
  from gl obtain j where j: "read_u32 p_end s = Inr (j, s1)" by (rule get_local_Inr)
  then have rd: "read_leb_uint32 (lmem s) (lp s) p_end = Inr (j, lp s1)" "lmem s1 = lmem s"
    by (auto simp: read_u32_def)
  note mv = read_u32_moves [OF j]
  show ?thesis
  proof (cases "off < 0x80")
    case False
    then have "lmem s' = lmem s" using mem(1) rd(2) by (simp add: rewrite_local_def)
    then show ?thesis
      using rd(1) op mem(2) by (intro one_leb_jumps [OF set]) (auto simp: leb_opcode_def)
  next
    case True
    have lps: "lp s = (lp s - 1) + 1" by simp
    have pos: "0 < unat (lp s)" using set by (simp add: scan_setting_def)
    note bytes = rewritten_bytes [OF True lps pos mv(3), where fast = fast and t = t, folded mem(1)]
    have u: "unat (lp s - 1) + 1 = unat (lp s)" using unat_pred [OF pos] by simp
    have u1: "unat (lp s + 1) = unat (lp s) + 1"
      using mv(3) unat_u32_less [of "lp s1"] unat_add_small [of "lp s" 1] by simp
    have lim: "unat (lp s1) \<le> unat lim" using set mem(2) by (simp add: scan_setting_def)
    have ag: "m a = lmem s' a" if "unat (lp s - 1) \<le> unat a" "unat a < unat (lp s1)" for a
      using set that mem(2) by (simp add: scan_setting_def agree_def)
    have "m (lp s - 1) = fast" using ag [of "lp s - 1"] u mv(3) bytes(1) by simp
    moreover have "check_buf (lp s) lim 1"
      using u1 mv(3) lim by (simp add: check_buf_def word_le_nat_alt word_less_nat_alt)
    moreover have "lp s - 1 < lim" using u mv(3) lim by (simp add: word_less_nat_alt)
    ultimately have "jumps m lim (lp s - 1) (lp s + 1)"
      using fast by (intro scan_jumps) (auto simp: scan_skip_def scan_values)
    moreover have "jumps m lim (lp s + 1) (lp s + 1 + of_nat (unat (lp s1) - unat (lp s + 1)))"
    proof (rule nops_jump)
      show "\<forall>a. unat (lp s + 1) \<le> unat a \<and> unat a < unat (lp s + 1) + (unat (lp s1) - unat (lp s + 1)) \<longrightarrow>
          m a = WASM_OP_NOP"
        using ag bytes(3) u u1 mv(3) by auto
      show "unat (lp s + 1) + (unat (lp s1) - unat (lp s + 1)) \<le> unat lim" using u1 mv(3) lim by simp
    qed
    moreover have "lp s + 1 + of_nat (unat (lp s1) - unat (lp s + 1)) = lp s'"
      using u1 mv(3) unat_u32_less [of "lp s1"] mem(2)
        unat_add_small [of "lp s + 1" "unat (lp s1) - unat (lp s + 1)"] by (simp add: word_unat_eq_iff)
    ultimately show ?thesis by (metis jumps_trans)
  qed
qed

text \<open>The memory is as it was: what is left is to follow the readings.\<close>

lemma unchanged_agree:
  assumes "scan_setting m lim s s'" "lmem s' = lmem s"
  shows "agree (lmem s) m (lp s) (lp s')"
  by (rule setting_agree [OF assms(1)]) (simp add: assms(2))

lemma plain_leb_jumps:
  assumes "scan_setting m lim s s'" "lmem s' = lmem s" "leb_opcode (lmem s (lp s - 1))"
    and "\<exists>v. read_leb_uint32 (lmem s) (lp s) e = Inr (v, lp s')"
  shows "jumps m lim (lp s - 1) (lp s')"
  using assms by (intro one_leb_jumps) simp_all

lemma branch_jumps:
  "scan_setting m lim s s' \<Longrightarrow> op_br av p_end opcode s = Inr s' \<Longrightarrow> lmem s (lp s - 1) = 0x0c \<Longrightarrow>
     jumps m lim (lp s - 1) (lp s')"
  "scan_setting m lim s s' \<Longrightarrow> op_br_if av p_end opcode s = Inr s' \<Longrightarrow> lmem s (lp s - 1) = 0x0d \<Longrightarrow>
     jumps m lim (lp s - 1) (lp s')"
  "scan_setting m lim s s' \<Longrightarrow> op_call av M p_end s = Inr s' \<Longrightarrow> lmem s (lp s - 1) = 0x10 \<Longrightarrow>
     jumps m lim (lp s - 1) (lp s')"
  "scan_setting m lim s s' \<Longrightarrow> op_memory_size av M p_end s = Inr s' \<Longrightarrow> lmem s (lp s - 1) = 0x3f \<Longrightarrow>
     jumps m lim (lp s - 1) (lp s')"
  "scan_setting m lim s s' \<Longrightarrow> op_memory_grow av M p_end s = Inr s' \<Longrightarrow> lmem s (lp s - 1) = 0x40 \<Longrightarrow>
     jumps m lim (lp s - 1) (lp s')"
  by (rule plain_leb_jumps [where e = p_end];
      fastforce simp: op_br_def op_br_if_def op_call_def op_memory_size_def op_memory_grow_def
        check_branch_block_def read_u32_def keeps_code_def leb_opcode_def dest!: keeps_codeD split: if_splits)+

lemma const_jumps:
  assumes set: "scan_setting m lim s s'" and op: "op_const av p_end opcode s = Inr s'" "lmem s (lp s - 1) = opcode"
    and r: "0x41 \<le> opcode" "opcode \<le> 0x44"
  shows "jumps m lim (lp s - 1) (lp s')"
proof -
  have m: "lmem s' = lmem s"
    using op(1) by (auto simp: op_const_def keeps_code_def dest!: keeps_codeD split: if_splits)
  note ag = unchanged_agree [OF set m]
  have "opcode = 0x41 \<or> opcode = 0x42 \<or> opcode = 0x43 \<or> opcode = 0x44"
    using r by (auto simp: word_le_nat_alt word_unat_eq_iff)
  then consider "opcode = 0x41" | "opcode = 0x42" | "opcode = 0x43" | "opcode = 0x44" by blast
  then show ?thesis
  proof cases
    case 1
    then obtain v where "read_leb_int32 (lmem s) (lp s) p_end = Inr (v, lp s')"
      using op(1) by (auto simp: op_const_def keeps_code_def dest!: keeps_codeD)
    with read_signed_skips(1) [OF this ag] 1 m op(2) show ?thesis
      by (intro leb_jumps [OF set]) (simp_all add: leb_opcode_def)
  next
    case 2
    then obtain v where "read_leb_int64 (lmem s) (lp s) p_end = Inr (v, lp s')"
      using op(1) by (auto simp: op_const_def keeps_code_def dest!: keeps_codeD)
    with read_signed_skips(2) [OF this ag] 2 m op(2) show ?thesis
      by (intro leb_jumps [OF set]) (simp_all add: leb_opcode_def)
  next
    case 3
    then have "lp s' = lp s + 4"
      using op(1) by (auto simp: op_const_def keeps_code_def dest!: keeps_codeD split: if_splits)
    with 3 m op(2) show ?thesis
      by (intro setting_jumps [OF set refl]) (simp_all add: scan_skip_def scan_values)
  next
    case 4
    then have "lp s' = lp s + 8"
      using op(1) by (auto simp: op_const_def keeps_code_def dest!: keeps_codeD split: if_splits)
    with 4 m op(2) show ?thesis
      by (intro setting_jumps [OF set refl]) (simp_all add: scan_skip_def scan_values)
  qed
qed

lemma read_twice:
  assumes "read_leb_uint32 mm p e = Inr (a, q)" "read_leb_uint32 mm q e = Inr (b, r)" "agree mm m p r"
  shows "skip_two m p = done_with r" "skip_leb m p = Some q" "skip_leb m q = Some r"
proof -
  have pq: "unat p < unat q" "unat q < unat r"
    using read_leb_uint32_Inr [OF assms(1)] read_leb_uint32_Inr [OF assms(2)] by simp_all
  have ag: "agree mm m p q" "agree mm m q r" using assms(3) pq by (auto intro: agree_sub)
  show "skip_leb m p = Some q" "skip_leb m q = Some r"
    using read_u32_skips(1) [OF assms(1) ag(1)] read_u32_skips(1) [OF assms(2) ag(2)] by simp_all
  then show "skip_two m p = done_with r" by (rule skip_two_done)
qed

lemma access_jumps:
  assumes set: "scan_setting m lim s s'" and op: "op_load_store av M p_end opcode s = Inr s'"
    and o: "lmem s (lp s - 1) = opcode" and r: "0x28 \<le> opcode" "opcode \<le> 0x3e"
  shows "jumps m lim (lp s - 1) (lp s')"
proof -
  from op obtain al s1 off s2 where r1: "read_u32 p_end s = Inr (al, s1)" and r2: "read_u32 p_end s1 = Inr (off, s2)"
    and k: "keeps_code s2 s'"
    by (fastforce simp: op_load_store_def keeps_code_def dest!: keeps_codeD split: option.splits)
  then have l: "read_leb_uint32 (lmem s) (lp s) p_end = Inr (al, lp s1)"
    "read_leb_uint32 (lmem s) (lp s1) p_end = Inr (off, lp s2)" and m: "lmem s' = lmem s" "lp s' = lp s2"
    by (auto simp: read_u32_def keeps_code_def)
  have "skip_two m (lp s) = done_with (lp s')"
    using read_twice(1) [OF l] unchanged_agree [OF set m(1)] m(2) by simp
  moreover have "opcode \<notin> {0x00, 0x01, 0x0f, 0x1a, 0x1b, 0xc5, 0xc6, 0x0c, 0x0d, 0x10, 0x20, 0x21, 0x22, 0x23, 0x24,
      0x1d, 0x1e, 0x1f, 0x3f, 0x40, 0x41, 0x42, 0x0e, 0xda, 0x11, 0xc7, 0xc9, 0xca, 2, 3, 4, 0xd7, 0xd8, 0xd9, 5, 0xb}"
    "\<not> 0x45 \<le> opcode" using r by (auto simp: word_le_nat_alt)
  ultimately show ?thesis
    using r o m(1) by (intro setting_jumps [OF set refl]) (simp_all add: scan_skip_def scan_values)
qed

lemma call_indirect_jumps:
  assumes set: "scan_setting m lim s s'" and op: "op_call_indirect av M p_end s = Inr s'"
    and o: "lmem s (lp s - 1) = 0x11"
  shows "jumps m lim (lp s - 1) (lp s')"
proof -
  from op obtain v s1 where r1: "read_u32 p_end s = Inr (v, s1)" and k: "keeps_code (s1\<lparr>lp := lp s1 + 1\<rparr>) s'"
    and b: "check_buf (lp s1) p_end 1"
    by (fastforce simp: op_call_indirect_def keeps_code_def dest!: keeps_codeD split: if_splits)
  then have l: "read_leb_uint32 (lmem s) (lp s) p_end = Inr (v, lp s1)" and m: "lmem s' = lmem s" "lp s' = lp s1 + 1"
    by (auto simp: read_u32_def keeps_code_def)
  have "unat (lp s1) \<le> unat (lp s')"
    using b m(2) by (simp add: check_buf_def word_le_nat_alt word_less_nat_alt)
  then have "skip_leb m (lp s) = Some (lp s1)"
    using read_u32_skips(1) [OF l] unchanged_agree [OF set m(1)] by (auto intro: agree_sub)
  then show ?thesis
    using o m by (intro setting_jumps [OF set refl]) (simp_all add: scan_skip_def scan_values)
qed

lemma prefix_jumps:
  assumes set: "scan_setting m lim s s'" and m: "lmem s' = lmem s" and o: "lmem s (lp s - 1) \<in> {0xfc, 0xfe}"
    and k: "(if lmem s (lp s - 1) = 0xfc then skip_misc else skip_atomic) m (lp s) lim = done_with (lp s')"
  shows "jumps m lim (lp s - 1) (lp s')"
  using o m k by (intro setting_jumps [OF set refl]) (auto simp: scan_skip_def scan_values split: if_splits)

lemma read_u32_code:
  "read_u32 e s = Inr (v, s1) \<longleftrightarrow> (\<exists>p. read_leb_uint32 (lmem s) (lp s) e = Inr (v, p) \<and> s1 = s\<lparr>lp := p\<rparr>)"
  by (auto simp: read_u32_def)

lemma misc_jumps:
  assumes set: "scan_setting m lim s s'" and op: "op_misc av M p_end s = Inr s'" and o: "lmem s (lp s - 1) = 0xfc"
  shows "jumps m lim (lp s - 1) (lp s')"
proof -
  from op obtain op1 q where r: "read_leb_uint32 (lmem s) (lp s) p_end = Inr (op1, q)"
    by (auto simp: op_misc_def read_u32_code)
  note op' = op [unfolded op_misc_def read_u32_def r, simplified]
  have m: "lmem s' = lmem s"
    using op' by (auto simp: keeps_code_def read_u32_code dest!: keeps_codeD split: option.splits if_splits)
  note ag = unchanged_agree [OF set m]
  have first: "scan_u32 m (lp s) lim = done_with (op1, q)" if "unat q \<le> unat (lp s')"
    using read_u32_skips(2) [OF r, of m lim] ag that set by (auto simp: scan_setting_def intro: agree_sub)
  have "(if lmem s (lp s - 1) = 0xfc then skip_misc else skip_atomic) m (lp s) lim = done_with (lp s')"
  proof (cases "misc_trunc_sig op1")
    case (Some tt)
    then have lp: "lp s' = q" using op' by (auto simp: keeps_code_def dest!: keeps_codeD split: prod.splits)
    have "op1 \<in> {0, 1, 2, 3, 4, 5, 6, 7}" using Some by (auto simp: misc_trunc_sig_def split: if_splits)
    then have "(ucast op1 :: u8) < 8" by auto
    with first lp o show ?thesis by (simp add: skip_misc_def)
  next
    case None
    with op' have c: "op1 = 8 \<or> op1 = 9 \<or> op1 = 10 \<or> op1 = 11" by (auto split: if_splits)
    consider (one) v where "op1 = 9 \<or> op1 = 11" "read_leb_uint32 (lmem s) q p_end = Inr (v, lp s')"
      | (two) v w q' where "op1 = 8 \<or> op1 = 10" "read_leb_uint32 (lmem s) q p_end = Inr (v, q')"
        "read_leb_uint32 (lmem s) q' p_end = Inr (w, lp s')"
    proof -
      have "(\<exists>v. read_leb_uint32 (lmem s) q p_end = Inr (v, lp s'))" if "op1 = 9 \<or> op1 = 11"
        using that None op' by (auto simp: keeps_code_def read_u32_code dest!: keeps_codeD split: if_splits)
      moreover have "(\<exists>v w q'. read_leb_uint32 (lmem s) q p_end = Inr (v, q') \<and>
          read_leb_uint32 (lmem s) q' p_end = Inr (w, lp s'))" if "op1 = 8 \<or> op1 = 10"
        using that None op' by (auto simp: keeps_code_def read_u32_code dest!: keeps_codeD split: if_splits)
      ultimately show thesis using c that by blast
    qed
    then show ?thesis
    proof cases
      case one
      have q: "unat q < unat (lp s')" using read_leb_uint32_Inr [OF one(2)] by simp
      have "skip_leb m q = Some (lp s')"
        using agree_sub [OF ag, of q "lp s'"] read_leb_uint32_Inr [OF r] by (intro read_u32_skips(1) [OF one(2)]) simp
      moreover have "scan_u32 m (lp s) lim = done_with (op1, q)" using first q by simp
      ultimately show ?thesis using o one(1) by (auto simp: skip_misc_def)
    next
      case two
      have q: "unat q < unat (lp s')" using read_leb_uint32_Inr [OF two(2)] read_leb_uint32_Inr [OF two(3)] by simp
      have "skip_two m q = done_with (lp s')"
        using agree_sub [OF ag, of q "lp s'"] read_leb_uint32_Inr [OF r] by (intro read_twice(1) [OF two(2,3)]) simp
      moreover have "scan_u32 m (lp s) lim = done_with (op1, q)" using first q by simp
      ultimately show ?thesis using o two(1) by (auto simp: skip_misc_def)
    qed
  qed
  then show ?thesis using m o by (intro prefix_jumps [OF set]) simp_all
qed

lemma atomic_sig_byte:
  assumes "atomic_sig op = Some x"
  shows "unat op < 256"
proof -
  have "op \<le> 0x4e"
  proof (rule ccontr)
    assume n: "\<not> op \<le> 0x4e"
    then have "op \<noteq> 0" "op \<noteq> 1" "op \<noteq> 2" by (auto simp: word_le_nat_alt)
    moreover have "\<not> op \<le> 0x47" "\<not> op \<le> 0x1d" "\<not> op \<le> 0x16" using n by (auto simp: word_le_nat_alt)
    ultimately show False using assms n by (simp add: atomic_sig_def Let_def)
  qed
  then show ?thesis by (simp add: word_le_nat_alt)
qed

lemma atomic_jumps:
  assumes set: "scan_setting m lim s s'" and op: "op_atomic av stray M p_end s = Inr s'"
    and o: "lmem s (lp s - 1) = 0xfe"
  shows "jumps m lim (lp s - 1) (lp s')"
proof -
  from op obtain op1 q where r: "read_leb_uint32 (lmem s) (lp s) p_end = Inr (op1, q)"
    by (auto simp: op_atomic_def read_u32_code)
  note op' = op [unfolded op_atomic_def read_u32_def r, simplified]
  have m: "lmem s' = lmem s"
    using op' by (auto simp: keeps_code_def read_u32_code dest!: keeps_codeD split: option.splits if_splits)
  note ag = unchanged_agree [OF set m]
  have first: "scan_u32 m (lp s) lim = done_with (op1, q)" if "unat q \<le> unat (lp s')"
    using read_u32_skips(2) [OF r, of m lim] ag that set by (auto simp: scan_setting_def intro: agree_sub)
  have "(if lmem s (lp s - 1) = 0xfc then skip_misc else skip_atomic) m (lp s) lim = done_with (lp s')"
  proof (cases "op1 = 3")
    case True
    then have lp: "lp s' = q + 1" using op' by (auto split: if_splits)
    have "unat q + 1 < 2 ^ 32 \<or> unat q + 1 = 2 ^ 32" using unat_u32_less [of q] by auto
    then have "unat q \<le> unat (lp s')"
    proof
      assume "unat q + 1 < 2 ^ 32"
      then have "unat (q + 1) = unat q + 1" using unat_add_small [of q 1] by simp
      then show ?thesis by (simp add: lp)
    next
      assume "unat q + 1 = 2 ^ 32"
      then have "unat (q + 1) = 0" by (simp add: unat_word_ariths)
      then have "q + 1 = 0" by (simp add: word_unat_eq_iff)
      with lp set show ?thesis by (auto simp: scan_setting_def)
    qed
    with first lp True o show ?thesis by (simp add: skip_atomic_def)
  next
    case False
    with op' obtain al q' off sg where l: "read_leb_uint32 (lmem s) q p_end = Inr (al, q')"
      "read_leb_uint32 (lmem s) q' p_end = Inr (off, lp s')" and sg: "atomic_sig op1 = Some sg"
      by (auto simp: keeps_code_def read_u32_code dest!: keeps_codeD split: option.splits if_splits)
    have "(ucast op1 :: u8) \<noteq> 3"
    proof
      assume "(ucast op1 :: u8) = 3"
      then have "unat (ucast op1 :: u8) = 3" by simp
      then have "unat op1 = 3" using atomic_sig_byte [OF sg]
        by (simp add: unsigned_ucast_eq take_bit_nat_eq_self)
      then show False using False by (simp add: word_unat_eq_iff)
    qed
    moreover have q: "unat q < unat (lp s')" using read_leb_uint32_Inr [OF l(1)] read_leb_uint32_Inr [OF l(2)] by simp
    have "skip_two m q = done_with (lp s')"
      using agree_sub [OF ag, of q "lp s'"] read_leb_uint32_Inr [OF r] by (intro read_twice(1) [OF l]) simp
    ultimately show ?thesis using first q o by (simp add: skip_atomic_def)
  qed
  then show ?thesis using m o by (intro prefix_jumps [OF set]) simp_all
qed

section \<open>The tables of branches\<close>

text \<open>What \<open>br_table\<close> leaves behind: one byte per depth, or the depths in the cache and the opcode
  that says so. For code that can be reached every depth has passed the check of its label.\<close>

lemma check_br_live:
  "\<not> poly_of c \<Longrightarrow> wasm_loader_check_br av c d opcode = Inr c' \<Longrightarrow> c' = c"
  by (auto simp: wasm_loader_check_br_def poly_of_def Let_def split: if_splits)

definition checked_depths :: "(nat \<Rightarrow> bool) \<Rightarrow> LoaderState \<Rightarrow> LoaderState \<Rightarrow> u32 list \<Rightarrow> bool" where
  "checked_depths av s s' ds \<longleftrightarrow> (\<not> poly_of (lctx s) \<longrightarrow> lctx s' = lctx s \<and>
     (\<forall>d\<in>set ds. wasm_loader_check_br av (lctx s) d WASM_OP_BR_TABLE = Inr (lctx s)))"

definition depth_bytes :: "cmem \<Rightarrow> u32 \<Rightarrow> u32 list \<Rightarrow> bool" where
  "depth_bytes m p ds \<longleftrightarrow> (\<forall>j<length ds. ds ! j \<le> 255 \<and> m (p + of_nat j) = ucast (ds ! j))"

definition targets_post ::
  "u32 \<Rightarrow> u32 \<Rightarrow> u32 \<Rightarrow> u32 list option \<Rightarrow> LoaderState \<Rightarrow> u32 \<Rightarrow> u32 list option \<Rightarrow> LoaderState \<Rightarrow> u32 list \<Rightarrow> bool" where
  "targets_post p_opcode p_begin p_depth cache s p_depth' cache' s' ds \<longleftrightarrow>
     unat (lp s) + length ds \<le> unat (lp s') \<and>
     (\<forall>a. unat a < unat p_begin \<and> a \<noteq> p_opcode \<longrightarrow> lmem s' a = lmem s a) \<and>
     (cache' = None \<longrightarrow> cache = None \<and> p_depth' = p_depth + of_nat (length ds) \<and>
        lmem s' p_opcode = lmem s p_opcode \<and> depth_bytes (lmem s') p_depth ds \<and>
        (\<forall>a. unat a < unat p_depth \<longrightarrow> lmem s' a = lmem s a)) \<and>
     (\<forall>c0 c1. cache = Some c0 \<and> cache' = Some c1 \<longrightarrow> c1 = c0 @ ds \<and> lmem s' = lmem s) \<and>
     (\<forall>c1. cache = None \<and> cache' = Some c1 \<longrightarrow> lmem s' p_opcode = EXT_OP_BR_TABLE_CACHE \<and>
        c1 = map ucast (cbytes (lmem s) p_begin (unat p_depth - unat p_begin)) @ ds)"

lemma cbytes_poke_above:
  assumes "unat p + n \<le> unat a" "unat p + n < 2 ^ 32"
  shows "cbytes (m(a := b)) p n = cbytes m p n"
proof (rule nth_equalityI)
  fix j
  assume "j < length (cbytes (m(a := b)) p n)"
  then have "j < n" by simp
  moreover then have "unat (p + of_nat j) = unat p + j" using assms(2) by (intro unat_add_small) simp
  ultimately show "cbytes (m(a := b)) p n ! j = cbytes m p n ! j" using assms(1) by auto
qed simp

lemma cbytes_other:
  assumes "unat a < unat p" "unat p + n < 2 ^ 32"
  shows "cbytes (m(a := b)) p n = cbytes m p n"
proof (rule nth_equalityI)
  fix j
  assume "j < length (cbytes (m(a := b)) p n)"
  then have "j < n" by simp
  moreover then have "unat (p + of_nat j) = unat p + j" using assms(2) by (intro unat_add_small) simp
  ultimately show "cbytes (m(a := b)) p n ! j = cbytes m p n ! j" using assms(1) by auto
qed simp

lemma store_depth_cases:
  assumes "store_depth av count p_opcode p_begin depth (p_depth, cache, s) = Inr (pd, c, s')"
    and "unat p_opcode < unat p_begin" "unat p_begin \<le> unat p_depth"
  obtains (cached) c0 where "cache = Some c0" "c = Some (c0 @ [depth])" "pd = p_depth" "s' = s"
    | (big) "cache = None" "c = Some (map ucast (cbytes (lmem s) p_begin (unat p_depth - unat p_begin)) @ [depth])"
        "pd = p_depth" "s' = poke p_opcode EXT_OP_BR_TABLE_CACHE s"
    | (small) "cache = None" "c = None" "depth \<le> 255" "pd = p_depth + 1" "s' = poke p_depth (ucast depth) s"
proof (cases cache)
  case (Some c0)
  with assms(1) cached show thesis by (simp add: store_depth_def)
next
  case None
  show thesis
  proof (cases "depth > 255")
    case True
    have "unat (p_depth - p_begin) = unat p_depth - unat p_begin"
      using assms(3) by (simp add: unat_sub word_le_nat_alt)
    moreover have "cbytes ((lmem s)(p_opcode := EXT_OP_BR_TABLE_CACHE)) p_begin (unat p_depth - unat p_begin) =
        cbytes (lmem s) p_begin (unat p_depth - unat p_begin)"
      using assms(2,3) unat_u32_less [of p_depth] by (intro cbytes_other) simp_all
    ultimately show thesis
      using assms(1) None True by (intro big) (auto simp: store_depth_def Let_def split: if_splits)
  next
    case False
    then show thesis using assms(1) None by (intro small) (auto simp: store_depth_def)
  qed
qed

lemma check_branch_block_Inr:
  assumes "check_branch_block av p_end opcode s = Inr s1"
  obtains d c where "read_leb_uint32 (lmem s) (lp s) p_end = Inr (d, lp s1)"
    "wasm_loader_check_br av (lctx s) d opcode = Inr c" "lctx s1 = c" "lmem s1 = lmem s"
  using assms by (auto simp: check_branch_block_def on_ctx_Inr read_u32_code)

lemma br_table_targets_Suc:
  assumes "br_table_targets av p_end count da p_opcode p_begin (Suc n) (p_depth, cache, s) = Inr r"
  obtains d s1 pd c s2 where "wasm_loader_check_br av (lctx s) d WASM_OP_BR_TABLE = Inr (lctx s1)"
    "lmem s1 = lmem s" "unat (lp s) < unat (lp s1)"
    "store_depth av count p_opcode p_begin d (p_depth, cache, s1) = Inr (pd, c, s2)"
    "br_table_targets av p_end count da p_opcode p_begin n (pd, c, s2) = Inr r"
proof -
  from assms obtain depth x s1 pd c s2 where r: "read_u32 p_end s = Inr (depth, x)"
    and c: "check_branch_block av p_end WASM_OP_BR_TABLE s = Inr s1"
    and st: "store_depth av count p_opcode p_begin depth (p_depth, cache, s1) = Inr (pd, c, s2)"
    and rest: "br_table_targets av p_end count da p_opcode p_begin n (pd, c, s2) = Inr r"
    by (auto split: if_splits)
  from c obtain d c1 where d: "read_leb_uint32 (lmem s) (lp s) p_end = Inr (d, lp s1)"
    "wasm_loader_check_br av (lctx s) d WASM_OP_BR_TABLE = Inr c1" "lctx s1 = c1" "lmem s1 = lmem s"
    by (rule check_branch_block_Inr)
  then have "d = depth" using r by (auto simp: read_u32_code)
  with d st rest read_leb_uint32_Inr(1) [OF d(1)] show thesis by (intro that [of depth s1 pd c s2]) simp_all
qed

lemma store_depth_keeps:
  assumes "store_depth av count p_opcode p_begin depth (p_depth, cache, s) = Inr (pd, c, s')"
  shows "lctx s' = lctx s" "lp s' = lp s"
  using assms by (auto simp: store_depth_def Let_def split: option.splits if_splits)

lemma ucast_byte_back: "(d :: u32) \<le> 255 \<Longrightarrow> ucast (ucast d :: u8) = d"
  by (simp add: word_unat_eq_iff unsigned_ucast_eq unsigned_take_bit_eq take_bit_nat_eq_self word_le_nat_alt)

lemma prefix_with_depth:
  fixes q :: u32
  assumes "unat p_begin \<le> unat p_depth" "unat p_depth < unat q" "d \<le> 255"
  shows "map ucast (cbytes (m(p_depth := ucast d)) p_begin (unat (p_depth + 1) - unat p_begin)) =
    map ucast (cbytes m p_begin (unat p_depth - unat p_begin)) @ [d :: u32]"
proof -
  have u: "unat (p_depth + 1) = unat p_depth + 1"
    using assms(2) unat_u32_less [of q] unat_add_small [of p_depth 1] by simp
  then have n: "unat (p_depth + 1) - unat p_begin = Suc (unat p_depth - unat p_begin)"
    using assms(1) by simp
  have "unat (p_begin + of_nat (unat p_depth - unat p_begin)) = unat p_depth"
    using assms(1) unat_u32_less [of p_depth] unat_add_small [of p_begin "unat p_depth - unat p_begin"] by simp
  then have "p_begin + of_nat (unat p_depth - unat p_begin) = p_depth" by (simp add: word_unat_eq_iff)
  then show ?thesis
    using assms unat_u32_less [of p_depth]
    by (simp add: n cbytes_snoc cbytes_poke_above ucast_byte_back)
qed

lemma br_table_targets_post:
  assumes "br_table_targets av p_end count da p_opcode p_begin n (p_depth, cache, s) = Inr (p_depth', cache', s')"
    and "unat p_opcode < unat p_begin" "unat p_begin \<le> unat p_depth" "unat p_depth \<le> unat (lp s)"
  shows "\<exists>ds. length ds = n \<and> checked_depths av s s' ds \<and>
    targets_post p_opcode p_begin p_depth cache s p_depth' cache' s' ds"
  using assms
proof (induction n arbitrary: p_depth cache s)
  case 0
  then have "p_depth' = p_depth" "cache' = cache" "s' = s" by auto
  then show ?case by (auto simp: checked_depths_def targets_post_def depth_bytes_def)
next
  case (Suc n)
  from Suc.prems(1) obtain d s1 pd c s2 where
    chk: "wasm_loader_check_br av (lctx s) d WASM_OP_BR_TABLE = Inr (lctx s1)"
    and m1: "lmem s1 = lmem s" and lp1: "unat (lp s) < unat (lp s1)"
    and st: "store_depth av count p_opcode p_begin d (p_depth, cache, s1) = Inr (pd, c, s2)"
    and rec: "br_table_targets av p_end count da p_opcode p_begin n (pd, c, s2) = Inr (p_depth', cache', s')"
    by (rule br_table_targets_Suc)
  note keep = store_depth_keeps [OF st]
  have u: "unat (p_depth + 1) = unat p_depth + 1"
    using lp1 Suc.prems(4) unat_u32_less [of "lp s1"] unat_add_small [of p_depth 1] by simp
  have "unat p_begin \<le> unat pd \<and> unat pd \<le> unat (lp s2)"
    using st Suc.prems(2,3) lp1 Suc.prems(4) keep(2) u by (auto elim!: store_depth_cases)
  then obtain ds where ds: "length ds = n" "checked_depths av s2 s' ds"
    "targets_post p_opcode p_begin pd c s2 p_depth' cache' s' ds"
    using Suc.IH [OF rec Suc.prems(2)] by blast
  have "checked_depths av s s' (d # ds)"
    using ds(2) chk keep(1) check_br_live [OF _ chk] by (auto simp: checked_depths_def)
  moreover have "targets_post p_opcode p_begin p_depth cache s p_depth' cache' s' (d # ds)"
    using st Suc.prems(2,3)
  proof (cases rule: store_depth_cases)
    case (cached c0)
    with ds(3) m1 lp1 show ?thesis by (auto simp: targets_post_def)
  next
    case big
    with ds(3) m1 lp1 keep(2) show ?thesis by (cases cache') (auto simp: targets_post_def)
  next
    case small
    have po: "p_opcode \<noteq> p_depth" using Suc.prems(2,3) by auto
    have below: "unat a < unat p_depth \<Longrightarrow> a \<noteq> p_depth" for a by auto
    show ?thesis
    proof (cases cache')
      case None
      have d: "depth_bytes (lmem s') (p_depth + 1) ds" "\<And>a. unat a < unat (p_depth + 1) \<Longrightarrow> lmem s' a = lmem s2 a"
        using ds(3) None small by (simp_all add: targets_post_def)
      have "depth_bytes (lmem s') p_depth (d # ds)"
        unfolding depth_bytes_def
      proof (intro allI impI)
        fix j
        assume "j < length (d # ds)"
        then show "(d # ds) ! j \<le> 255 \<and> lmem s' (p_depth + of_nat j) = ucast ((d # ds) ! j)"
          using d small u by (cases j) (auto simp: depth_bytes_def add.assoc)
      qed
      with ds(3) None small m1 lp1 keep(2) u po below Suc.prems(3) show ?thesis
        by (auto simp: targets_post_def add.assoc)
    next
      case (Some c1)
      have "c1 = map ucast (cbytes (lmem s2) p_begin (unat (p_depth + 1) - unat p_begin)) @ ds"
        using ds(3) Some small by (simp add: targets_post_def)
      also have "map ucast (cbytes (lmem s2) p_begin (unat (p_depth + 1) - unat p_begin)) =
          map ucast (cbytes (lmem s) p_begin (unat p_depth - unat p_begin)) @ [d]"
        using prefix_with_depth [of p_begin p_depth "lp s1" d "lmem s1"] Suc.prems(3,4) lp1 small m1 by simp
      finally have "c1 = map ucast (cbytes (lmem s) p_begin (unat p_depth - unat p_begin)) @ (d # ds)" by simp
      moreover have "lmem s' a = lmem s a" if "unat a < unat p_begin" "a \<noteq> p_opcode" for a
        using ds(3) that small m1 below [of a] Suc.prems(3) by (auto simp: targets_post_def)
      ultimately show ?thesis using ds(3) Some small lp1 keep(2) by (simp add: targets_post_def)
    qed
  qed
  ultimately show ?case using ds(1) by (intro exI [of _ "d # ds"]) simp
qed

lemma br_table_targets_caches:
  "br_table_targets av p_end count da p_opcode p_begin n (p_depth, cache, s) = Inr (p_depth', cache', s') \<Longrightarrow>
   br_table_caches s' = br_table_caches s"
proof (induction n arbitrary: p_depth cache s)
  case (Suc n)
  from Suc.prems obtain depth x s1 pd c s2 where "read_u32 p_end s = Inr (depth, x)"
    "check_branch_block av p_end WASM_OP_BR_TABLE s = Inr s1"
    "store_depth av count p_opcode p_begin depth (p_depth, cache, s1) = Inr (pd, c, s2)"
    "br_table_targets av p_end count da p_opcode p_begin n (pd, c, s2) = Inr (p_depth', cache', s')"
    by (auto split: if_splits)
  note d = this
  have "br_table_caches s1 = br_table_caches s"
    using d(2) by (auto simp: check_branch_block_def on_ctx_Inr read_u32_code)
  moreover have "br_table_caches s2 = br_table_caches s1"
    using d(3) by (auto simp: store_depth_def Let_def poke_def split: option.splits if_splits)
  ultimately show ?case using Suc.IH [OF d(4)] by simp
qed simp

text \<open>The whole instruction: \<open>q\<close> is the address behind the count.\<close>

definition table_bytes :: "LoaderState \<Rightarrow> LoaderState \<Rightarrow> u32 \<Rightarrow> u32 list \<Rightarrow> bool" where
  "table_bytes s s' q ds \<longleftrightarrow> unat q + length ds \<le> unat (lp s') \<and>
     (\<forall>a. unat (lp s) \<le> unat a \<and> unat a < unat q \<longrightarrow> lmem s' a = lmem s a) \<and>
     (lmem s' (lp s - 1) = lmem s (lp s - 1) \<and> br_table_caches s' = br_table_caches s \<and>
        depth_bytes (lmem s') q ds \<and>
        (\<forall>a. unat q + length ds \<le> unat a \<and> unat a < unat (lp s') \<longrightarrow> lmem s' a = WASM_OP_NOP) \<or>
      lmem s' (lp s - 1) = EXT_OP_BR_TABLE_CACHE \<and>
        br_table_caches s' = (lp s - 1, ds) # br_table_caches s \<and>
        (\<forall>a. unat q \<le> unat a \<and> unat a < unat (lp s') \<longrightarrow> lmem s' a = WASM_OP_NOP))"

lemma fill_nops_lmem:
  "lmem (fill_nops p s) a = (if unat p \<le> unat a \<and> unat a < unat (lp s) then WASM_OP_NOP else lmem s a)"
  by (simp add: fill_nops_def word_le_nat_alt word_less_nat_alt)

lemma op_br_table_bytes:
  assumes op: "op_br_table av p_end s = Inr s'" and pos: "0 < unat (lp s)"
  obtains count q ds c0 where "read_leb_uint32 (lmem s) (lp s) p_end = Inr (count, q)"
    "length ds = Suc (unat count)" "table_bytes s s' q ds"
    "wasm_loader_pop_frame_ref (lctx s) VALUE_TYPE_I32 = Inr c0"
    "\<not> poly_of c0 \<Longrightarrow> \<forall>d\<in>set ds. wasm_loader_check_br av c0 d WASM_OP_BR_TABLE = Inr c0"
proof -
  let ?p = "lp s - 1"
  from op obtain count s1 s2 depth pd cache s3 where r: "read_u32 p_end s = Inr (count, s1)"
    and p: "POP_TYPE VALUE_TYPE_I32 s1 = Inr s2"
    and t: "br_table_targets av p_end count (target_arity (lctx s2) depth) ?p (lp s2)
        (Suc (unat count)) (lp s2, None, s2) = Inr (pd, cache, s3)"
    and m: "(case cache of
          Some ds \<Rightarrow> mark_unreachable ((fill_nops (lp s2) s3)\<lparr>br_table_caches := (?p, ds) # br_table_caches s3\<rparr>)
        | None \<Rightarrow> mark_unreachable (fill_nops pd s3)) = Inr s'"
    by (auto simp: op_br_table_def Let_def simp del: br_table_scan.simps br_table_targets.simps)
  from r obtain q where q: "read_leb_uint32 (lmem s) (lp s) p_end = Inr (count, q)" "s1 = s\<lparr>lp := q\<rparr>"
    by (auto simp: read_u32_code)
  from p q(2) obtain c0 where c0: "wasm_loader_pop_frame_ref (lctx s) VALUE_TYPE_I32 = Inr c0"
    and s2: "s2 = s\<lparr>lp := q, lctx := c0\<rparr>"
    by (auto simp: POP_TYPE_def on_ctx_Inr)
  have u: "Suc (unat ?p) = unat (lp s)" using unat_pred [OF pos] by simp
  have pq: "unat ?p < unat q" "unat (lp s) < unat q" using read_leb_uint32_Inr [OF q(1)] u by simp_all
  from br_table_targets_post [OF t] pq s2 obtain ds where ds: "length ds = Suc (unat count)"
    "checked_depths av s2 s3 ds" "targets_post ?p q q None s2 pd cache s3 ds"
    by auto
  note cs = br_table_targets_caches [OF t]
  have len: "unat q + length ds \<le> unat (lp s3)" using ds(3) s2 by (simp add: targets_post_def)
  have uq: "unat (q + of_nat (length ds)) = unat q + length ds"
    using len unat_u32_less [of "lp s3"] by (intro unat_add_small) simp
  have low: "lmem s3 a = lmem s a" if "unat (lp s) \<le> unat a" "unat a < unat q" for a
  proof -
    have "a \<noteq> ?p" using that(1) u by auto
    with that ds(3) s2 show ?thesis by (simp add: targets_post_def)
  qed
  have "table_bytes s s' q ds"
  proof (cases cache)
    case None
    then have pd: "pd = q + of_nat (length ds)" and b: "depth_bytes (lmem s3) q ds" "lmem s3 ?p = lmem s ?p"
      using ds(3) s2 by (simp_all add: targets_post_def)
    have s': "lp s' = lp s3" "lmem s' = lmem (fill_nops pd s3)" "br_table_caches s' = br_table_caches s3"
      using m None by (auto simp: mark_unreachable_def fill_nops_def)
    have "depth_bytes (lmem s') q ds"
      unfolding depth_bytes_def
    proof (intro allI impI)
      fix j
      assume j: "j < length ds"
      then have "unat (q + of_nat j) = unat q + j"
        using len unat_u32_less [of "lp s3"] by (intro unat_add_small) simp
      with j b(1) show "ds ! j \<le> 255 \<and> lmem s' (q + of_nat j) = ucast (ds ! j)"
        by (simp add: s'(2) fill_nops_lmem pd uq depth_bytes_def)
    qed
    then show ?thesis
      using b(2) low len pq uq cs s2 by (simp add: table_bytes_def s' fill_nops_lmem pd)
  next
    case (Some c1)
    have "c1 = ds" "lmem s3 ?p = EXT_OP_BR_TABLE_CACHE" using ds(3) Some by (simp_all add: targets_post_def)
    moreover have s': "lp s' = lp s3" "lmem s' = lmem (fill_nops q s3)"
      "br_table_caches s' = (?p, c1) # br_table_caches s3"
      using m Some s2 by (auto simp: mark_unreachable_def fill_nops_def)
    ultimately show ?thesis
      using low len pq cs s2 by (simp add: table_bytes_def s' fill_nops_lmem)
  qed
  moreover have "\<forall>d\<in>set ds. wasm_loader_check_br av c0 d WASM_OP_BR_TABLE = Inr c0" if "\<not> poly_of c0"
    using ds(2) that s2 by (simp add: checked_depths_def)
  ultimately show thesis using that q(1) ds(1) c0 by blast
qed

lemma br_table_jumps:
  assumes set: "scan_setting m lim s s'" and op: "op_br_table av p_end s = Inr s'"
    and o: "lmem s (lp s - 1) = 0x0e"
    and stop: "m a \<noteq> WASM_OP_NOP" "unat (lp s') \<le> unat a" "unat a < unat lim"
  shows "jumps m lim (lp s - 1) (lp s')"
proof -
  have pos: "0 < unat (lp s)" using set by (simp add: scan_setting_def)
  from op pos obtain count q ds c0 where rd: "read_leb_uint32 (lmem s) (lp s) p_end = Inr (count, q)"
    and len: "length ds = Suc (unat count)" and tb: "table_bytes s s' q ds"
    by (rule op_br_table_bytes)
  have u: "Suc (unat (lp s - 1)) = unat (lp s)" using unat_pred [OF pos] by simp
  have q: "unat (lp s) < unat q" using read_leb_uint32_Inr [OF rd] by simp
  have ql: "unat q + length ds \<le> unat (lp s')" using tb by (simp add: table_bytes_def)
  have ag: "m b = lmem s' b" if "unat (lp s - 1) \<le> unat b" "unat b < unat (lp s')" for b
    using set that by (simp add: scan_setting_def agree_def)
  have "agree (lmem s) m (lp s) q" using ag tb u q ql by (auto simp: agree_def table_bytes_def)
  then have count: "scan_u32 m (lp s) lim = done_with (count, q)"
    using read_u32_skips(2) [OF rd] ql set by (simp add: scan_setting_def)
  have lims: "unat (lp s') \<le> unat lim" "lp s - 1 < lim"
    using set u by (simp_all add: scan_setting_def word_less_nat_alt)
  \<comment> \<open>from an address in the padding the search comes to where the instruction ends\<close>
  have land: "\<exists>r. skip_nops m p = Some r \<and> jumps m lim r (lp s')"
    if "unat q \<le> unat p" "unat p \<le> unat (lp s')"
      and nops: "\<And>b. unat p \<le> unat b \<and> unat b < unat (lp s') \<Longrightarrow> lmem s' b = WASM_OP_NOP" for p
  proof -
    from skip_nops_jumps [of m a p lim] stop that(2)
    obtain r where r: "skip_nops m p = Some r" "jumps m lim p r" by auto
    have "p + of_nat (unat (lp s') - unat p) = lp s'"
      using that(2) unat_u32_less [of "lp s'"] unat_add_small [of p "unat (lp s') - unat p"]
      by (simp add: word_unat_eq_iff)
    moreover have "jumps m lim p (p + of_nat (unat (lp s') - unat p))"
      using that(1,2) nops ag u q lims by (intro nops_jump) auto
    ultimately show ?thesis using r jumps_trans [OF jumps_sym] by metis
  qed
  have m0: "m (lp s - 1) = lmem s' (lp s - 1)" using ag u q ql by simp
  have uq: "unat (q + of_nat (length ds)) = unat q + length ds"
    using ql unat_u32_less [of "lp s'"] by (intro unat_add_small) simp
  have "q + (count + 1) = q + of_nat (length ds)" using len by (simp add: algebra_simps)
  with uq have qc: "unat (q + (count + 1)) = unat q + length ds" by simp
  consider (plain) "lmem s' (lp s - 1) = 0x0e"
      "\<forall>a. unat q + length ds \<le> unat a \<and> unat a < unat (lp s') \<longrightarrow> lmem s' a = WASM_OP_NOP"
    | (cached) "lmem s' (lp s - 1) = EXT_OP_BR_TABLE_CACHE"
      "\<forall>a. unat q \<le> unat a \<and> unat a < unat (lp s') \<longrightarrow> lmem s' a = WASM_OP_NOP"
    using tb o by (auto simp: table_bytes_def)
  then show ?thesis
  proof cases
    case plain
    from land [of "q + (count + 1)"] plain(2) qc ql
    obtain r where r: "skip_nops m (q + (count + 1)) = Some r" "jumps m lim r (lp s')" by auto
    have "jumps m lim (lp s - 1) r"
      using m0 plain(1) lims(2) count r(1) by (intro scan_jumps) (simp_all add: scan_skip_def scan_values)
    then show ?thesis using r(2) by (rule jumps_trans)
  next
    case cached
    from land [of q] cached(2) ql obtain r where r: "skip_nops m q = Some r" "jumps m lim r (lp s')" by auto
    have "jumps m lim (lp s - 1) r"
      using m0 cached(1) lims(2) count r(1) by (intro scan_jumps) (simp_all add: scan_skip_def scan_values)
    then show ?thesis using r(2) by (rule jumps_trans)
  qed
qed

section \<open>Every instruction\<close>

text \<open>The position \<open>a\<close> stands for a byte behind the instruction that is not a nop; a body has one, its
  last \<open>end\<close>.\<close>

lemma instruction_jumps:
  assumes set: "scan_setting m lim s s'" and op: "prepare_opcode E M F p_end opcode s = Inr s'"
    and o: "lmem s (lp s - 1) = opcode" "opcode \<notin> {0x02, 0x03, 0x04, 0x05, 0x0b}"
    and stop: "m a \<noteq> WASM_OP_NOP" "unat (lp s') \<le> unat a" "unat a < unat lim"
  shows "jumps m lim (lp s - 1) (lp s')"
proof -
  let ?av = "env_av E"
  have still: "jumps m lim (lp s - 1) (lp s')" if "keeps_code s s'"
    "opcode \<in> {0x00, 0x01, 0x0f} \<or> 0x45 \<le> opcode \<and> opcode \<le> 0xc4"
    using that o(1) by (intro still_jumps [OF set]) (auto simp: keeps_code_def)
  consider (plain) "opcode \<in> {0x00, 0x01, 0x0c, 0x0d, 0x0e, 0x0f, 0x10, 0x11, 0x1a, 0x1b, 0x20, 0x21, 0x22,
      0x23, 0x24, 0x3f, 0x40, 0xfc, 0xfe}" | (access) "0x28 \<le> opcode" "opcode \<le> 0x3e"
    | (const) "0x41 \<le> opcode" "opcode \<le> 0x44" | (num) "0x45 \<le> opcode" "opcode \<le> 0xc4"
    | (none) "opcode \<notin> {0x00, 0x01, 0x0c, 0x0d, 0x0e, 0x0f, 0x10, 0x11, 0x1a, 0x1b, 0x20, 0x21, 0x22,
      0x23, 0x24, 0x3f, 0x40, 0xfc, 0xfe}" "\<not> (0x28 \<le> opcode \<and> opcode \<le> 0x3e)"
      "\<not> (0x41 \<le> opcode \<and> opcode \<le> 0x44)" "\<not> (0x45 \<le> opcode \<and> opcode \<le> 0xc4)"
    by blast
  then show ?thesis
  proof cases
    case access
    then have "op_load_store ?av M p_end opcode s = Inr s'" using op by (simp add: prepare_opcode_ranges)
    then show ?thesis using access_jumps [OF set _ o(1) access] by blast
  next
    case const
    then have "op_const ?av p_end opcode s = Inr s'" using op by (simp add: prepare_opcode_ranges)
    then show ?thesis using const_jumps [OF set _ o(1) const] by blast
  next
    case num
    then obtain n t t' where "POPS_AND_PUSH ?av n t t' s = Inr s'"
      using op by (auto simp: prepare_opcode_ranges(3) split: option.splits)
    with num show ?thesis by (intro still) auto
  next
    case none
    then have "numeric_sig opcode = None" using no_sig_outside [of opcode] by blast
    with op none o(2) show ?thesis by (auto simp: prepare_opcode_def Let_def split: if_splits)
  next
    case plain
    then show ?thesis
    proof (elim insertE)
      assume c: "opcode = 0x00"
      then show ?thesis using op by (intro still) (auto simp: prepare_opcode_def)
    next
      assume c: "opcode = 0x01"
      then show ?thesis using op by (intro still) (auto simp: prepare_opcode_def keeps_code_def)
    next
      assume c: "opcode = 0x0c"
      then show ?thesis using op o(1) by (intro branch_jumps(1) [OF set]) (simp_all add: prepare_opcode_def)
    next
      assume c: "opcode = 0x0d"
      then show ?thesis using op o(1) by (intro branch_jumps(2) [OF set]) (simp_all add: prepare_opcode_def)
    next
      assume c: "opcode = 0x0e"
      then show ?thesis using op o(1) stop by (intro br_table_jumps [OF set]) (simp_all add: prepare_opcode_def)
    next
      assume c: "opcode = 0x0f"
      then have "op_return F s = Inr s'" using op by (simp add: prepare_opcode_def)
      then have "keeps_code s s'" by (fastforce simp: op_return_def keeps_code_def dest!: keeps_codeD)
      with c show ?thesis by (intro still) simp_all
    next
      assume c: "opcode = 0x10"
      then show ?thesis using op o(1) by (intro branch_jumps(3) [OF set]) (simp_all add: prepare_opcode_def)
    next
      assume c: "opcode = 0x11"
      then show ?thesis using op o(1) by (intro call_indirect_jumps [OF set]) (simp_all add: prepare_opcode_def)
    next
      assume c: "opcode = 0x1a"
      then show ?thesis using op o(1) by (intro drop_jumps [OF set]) (simp_all add: prepare_opcode_def)
    next
      assume c: "opcode = 0x1b"
      then show ?thesis using op o(1) by (intro select_jumps [OF set]) (simp_all add: prepare_opcode_def)
    next
      assume c: "opcode = 0x20"
      then have "op_get_local ?av F p_end s = Inr s'" using op by (simp add: prepare_opcode_def)
      then obtain t off s1 s2 where gl: "get_local F p_end s = Inr (t, off, s1)" and k: "keeps_code s1 s2"
        and s': "s' = rewrite_local EXT_OP_GET_LOCAL_FAST t off (lp s - 1) s2"
        by (fastforce simp: op_get_local_def Let_def)
      with rewrite_local_lmem [of s2 s1] c o(1) show ?thesis
        by (intro local_jumps [where fast = EXT_OP_GET_LOCAL_FAST, OF set gl]) (simp_all add: keeps_code_def)
    next
      assume c: "opcode = 0x21"
      then have "op_set_local F p_end s = Inr s'" using op by (simp add: prepare_opcode_def)
      then obtain t off s1 where gl: "get_local F p_end s = Inr (t, off, s1)"
        and k: "keeps_code (rewrite_local EXT_OP_SET_LOCAL_FAST t off (lp s - 1) s1) s'"
        by (fastforce simp: op_set_local_def Let_def)
      with c o(1) show ?thesis by (intro local_jumps [where fast = EXT_OP_SET_LOCAL_FAST, OF set gl]) (simp_all add: keeps_code_def)
    next
      assume c: "opcode = 0x22"
      then have "op_tee_local ?av F p_end s = Inr s'" using op by (simp add: prepare_opcode_def)
      then obtain t off s1 s2 where gl: "get_local F p_end s = Inr (t, off, s1)" and k: "keeps_code s1 s2"
        and s': "s' = rewrite_local EXT_OP_TEE_LOCAL_FAST t off (lp s - 1) s2"
        by (fastforce simp: op_tee_local_def Let_def keeps_code_def dest!: keeps_codeD)
      with rewrite_local_lmem [of s2 s1] c o(1) show ?thesis
        by (intro local_jumps [where fast = EXT_OP_TEE_LOCAL_FAST, OF set gl]) (simp_all add: keeps_code_def)
    next
      assume c: "opcode = 0x23"
      then show ?thesis using op o(1) by (intro get_global_jumps [OF set]) (simp_all add: prepare_opcode_def)
    next
      assume c: "opcode = 0x24"
      then show ?thesis using op o(1) by (intro set_global_jumps [OF set]) (simp_all add: prepare_opcode_def)
    next
      assume c: "opcode = 0x3f"
      then show ?thesis using op o(1) by (intro branch_jumps(4) [OF set]) (simp_all add: prepare_opcode_def)
    next
      assume c: "opcode = 0x40"
      then show ?thesis using op o(1) by (intro branch_jumps(5) [OF set]) (simp_all add: prepare_opcode_def)
    next
      assume c: "opcode = 0xfc"
      then show ?thesis using op o(1) by (intro misc_jumps [OF set]) (simp_all add: prepare_opcode_def)
    next
      assume c: "opcode = 0xfe"
      then show ?thesis using op o(1) by (intro atomic_jumps [OF set]) (simp_all add: prepare_opcode_def)
    qed simp
  qed
qed

text \<open>One turn of the search at an opcode that opens, divides or closes a block.\<close>

lemma scan_loop_turn:
  assumes "scan_p sc < lim" "scan_op m lim label (m (scan_p sc)) (scan_p sc + 1) sc = done_with sc'"
  shows "scan_loop m lim label sc = (if scan_depth sc' = 0 then done_with sc' else scan_loop m lim label sc')"
  using assms by (subst scan_loop.simps) (simp add: done_with_def)

lemma block_turn:
  assumes set: "scan_setting m lim s s'" and o: "lmem s (lp s - 1) = opcode" "opcode \<in> {0x02, 0x03, 0x04}"
    and rb: "read_block_type M p_end opcode s = Inr (bt, s1)" and k: "keeps_code s1 s'"
    and sc: "scan_p sc = lp s - 1"
  shows "scan_loop m lim label sc = scan_loop m lim label (scan_open (lp s') sc)"
proof -
  have pos: "0 < unat (lp s)" using set by (simp add: scan_setting_def)
  have u: "Suc (unat (lp s - 1)) = unat (lp s)" using unat_pred [OF pos] by simp
  have ag: "m b = lmem s' b" if "unat (lp s - 1) \<le> unat b" "unat b < unat (lp s')" for b
    using set that by (simp add: scan_setting_def agree_def)
  have "scan_op m lim label (m (lp s - 1)) (lp s) sc = done_with (scan_open (lp s') sc) \<and> unat (lp s) < unat (lp s')"
  proof (cases "is_byte_a_type (lmem s (lp s))")
    case True
    then have s1: "s1 = s\<lparr>lp := lp s + 1\<rparr>" and b: "check_buf (lp s) p_end 1"
      using rb by (auto simp: read_block_type_def Let_def split: if_splits)
    have "unat (lp s) < unat (lp s')"
      using check_buf_unat [OF b] s1 k by (simp add: keeps_code_def)
    then show ?thesis
      using True s1 k o ag [of "lp s - 1"] ag [of "lp s"] u
      by (auto simp: scan_op_def keeps_code_def EXT_OP_BLOCK_def EXT_OP_LOOP_def EXT_OP_IF_def)
  next
    case False
    with rb obtain i p where r: "read_leb_int32 (lmem s) (lp s) p_end = Inr (i, p)"
      and s1: "s1 = poke (lp s - 1) (EXT_OP_BLOCK + (opcode - WASM_OP_BLOCK)) (s\<lparr>lp := p\<rparr>)"
      by (auto simp: read_block_type_def Let_def split: if_splits)
    have lt: "unat (lp s) < unat (lp s')" using read_leb_int32_Inr(1) [OF r] s1 k by (simp add: keeps_code_def)
    have "agree (lmem s) m (lp s) p"
      unfolding agree_def
    proof (intro allI impI)
      fix b :: u32
      assume b: "unat (lp s) \<le> unat b \<and> unat b < unat p"
      then have "b \<noteq> lp s - 1" using u by auto
      with b ag [of b] u s1 k show "m b = lmem s b" by (simp add: keeps_code_def)
    qed
    then have "skip_leb m (lp s) = Some p" by (rule read_signed_skips(1) [OF r])
    moreover have "m (lp s - 1) = EXT_OP_BLOCK + (opcode - WASM_OP_BLOCK)"
      using ag [of "lp s - 1"] u lt s1 k by (simp add: keeps_code_def)
    ultimately show ?thesis
      using lt o(2) s1 k
      by (auto simp: scan_op_def keeps_code_def EXT_OP_BLOCK_def EXT_OP_LOOP_def EXT_OP_IF_def WASM_OP_BLOCK_def)
  qed
  moreover have "scan_depth (scan_open (lp s') sc) \<noteq> 0" by (simp add: scan_open_def Let_def)
  ultimately show ?thesis
    using scan_loop_turn [of sc lim m label "scan_open (lp s') sc"] set sc u
    by (simp add: scan_setting_def word_less_nat_alt)
qed

end
