(* ===== verification/Block_Trace.thy ===== *)
theory Block_Trace
  imports Block_Scan
begin

text \<open>
  The blocks of a body as the validation sees them. A validation is a sequence of states; the
  blocks that are open in a state were opened by earlier states, and each is closed by one
  later state. The search for the end of a block (\<open>Block_Scan\<close>) is shown to find that state,
  and the \<open>else\<close> that was met on the way.
\<close>

section \<open>What an instruction does to the open blocks\<close>

definition alike :: "BranchBlock \<Rightarrow> BranchBlock \<Rightarrow> bool" where
  "alike b b' \<longleftrightarrow> label_type b' = label_type b \<and> block_type b' = block_type b \<and>
     start_addr b' = start_addr b \<and> block_stack_cell_num b' = block_stack_cell_num b"

definition same_blocks :: "WASMLoaderContext \<Rightarrow> WASMLoaderContext \<Rightarrow> bool" where
  "same_blocks c c' \<longleftrightarrow> csp_num c' = csp_num c \<and> length (frame_csp c') = length (frame_csp c) \<and>
     tl (frame_csp c') = tl (frame_csp c) \<and> alike (hd (frame_csp c)) (hd (frame_csp c')) \<and>
     else_addr (hd (frame_csp c')) = else_addr (hd (frame_csp c)) \<and> max_csp_num c' = max_csp_num c"

lemma alike_refl [simp]: "alike b b"
  by (simp add: alike_def)

lemma alike_trans: "alike a b \<Longrightarrow> alike b c \<Longrightarrow> alike a c"
  by (simp add: alike_def)

lemma same_blocks_refl [simp]: "same_blocks c c"
  by (simp add: same_blocks_def)

lemma same_blocks_trans: "same_blocks a b \<Longrightarrow> same_blocks b c \<Longrightarrow> same_blocks a c"
  by (auto simp: same_blocks_def intro: alike_trans)

lemma stack_only_same: "stack_only c c' \<Longrightarrow> same_blocks c c'"
  by (simp add: stack_only_def same_blocks_def)

lemma pop_frame_ref_only: "wasm_loader_pop_frame_ref c t = Inr c' \<Longrightarrow> stack_only c c'"
  by (auto simp: wasm_loader_pop_frame_ref_def stack_only_def Let_def split: if_splits)

lemma pop_frame_refs_only: "pop_frame_refs c ts = Inr c' \<Longrightarrow> stack_only c c'"
  by (induction c ts rule: pop_frame_refs.induct) (auto dest: pop_frame_ref_only intro: stack_only_trans)

lemma push_frame_ref_only: "wasm_loader_push_frame_ref av c t = Inr c' \<Longrightarrow> stack_only c c'"
  by (auto simp: wasm_loader_push_frame_ref_def check_stack_push_def stack_only_def Let_def split: if_splits)

lemma push_frame_refs_only: "push_frame_refs av c ts = Inr c' \<Longrightarrow> stack_only c c'"
  by (induction av c ts rule: push_frame_refs.induct) (auto dest: push_frame_ref_only intro: stack_only_trans)

lemma check_br_only: "wasm_loader_check_br av c d op = Inr c' \<Longrightarrow> stack_only c c'"
  by (auto simp: wasm_loader_check_br_def Let_def stack_only_def
      dest!: pop_frame_refs_only push_frame_refs_only split: if_splits)

lemma check_block_stack_only: "check_block_stack av c b = Inr c' \<Longrightarrow> stack_only c c'"
  by (auto simp: check_block_stack_def Let_def
      dest!: pop_frame_refs_only push_frame_refs_only split: if_splits intro: stack_only_trans)

lemma mark_unreachable_blocks:
  "same_blocks c (set_polymorphic f (reset_stack c))" if "frame_csp c \<noteq> []"
  using that by (auto simp: same_blocks_def set_polymorphic_def reset_stack_def alike_def Let_def)

text \<open>The same for states.\<close>

lemma on_stack_blocks:
  "POP_TYPE t s = Inr s' \<Longrightarrow> same_blocks (lctx s) (lctx s')"
  "POP_TYPES ts s = Inr s' \<Longrightarrow> same_blocks (lctx s) (lctx s')"
  "PUSH_TYPES av ts s = Inr s' \<Longrightarrow> same_blocks (lctx s) (lctx s')"
  "POPS_AND_PUSH av n t t' s = Inr s' \<Longrightarrow> same_blocks (lctx s) (lctx s')"
  "call_type av ft s = Inr s' \<Longrightarrow> same_blocks (lctx s) (lctx s')"
  by (auto simp: POP_TYPE_def POP_TYPES_def PUSH_TYPES_def POPS_AND_PUSH_def call_type_def on_ctx_Inr
      wasm_loader_push_pop_frame_ref_def
      dest!: pop_frame_ref_only pop_frame_refs_only push_frame_ref_only push_frame_refs_only
      intro!: stack_only_same intro: stack_only_trans)

lemma read_u32_blocks: "read_u32 e s = Inr (v, s') \<Longrightarrow> lctx s' = lctx s"
  by (auto simp: read_u32_code)

lemma check_branch_block_blocks:
  "check_branch_block av e op s = Inr s' \<Longrightarrow> same_blocks (lctx s) (lctx s')"
  by (auto simp: check_branch_block_def on_ctx_Inr dest!: read_u32_blocks check_br_only intro: stack_only_same)

lemma unreachable_blocks:
  "mark_unreachable s = Inr s' \<Longrightarrow> frame_csp (lctx s) \<noteq> [] \<Longrightarrow> same_blocks (lctx s) (lctx s')"
  by (auto simp: mark_unreachable_def intro: mark_unreachable_blocks)

lemma same_blocks_nonempty: "same_blocks c c' \<Longrightarrow> frame_csp c' = [] \<longleftrightarrow> frame_csp c = []"
  by (auto simp: same_blocks_def)

lemma br_table_targets_blocks:
  "br_table_targets av p_end count da p_opcode p_begin n (p_depth, cache, s) = Inr (p_depth', cache', s') \<Longrightarrow>
   same_blocks (lctx s) (lctx s')"
proof (induction n arbitrary: p_depth cache s)
  case (Suc n)
  from Suc.prems obtain d s1 pd c s2 where d:
    "wasm_loader_check_br av (lctx s) d WASM_OP_BR_TABLE = Inr (lctx s1)"
    "store_depth av count p_opcode p_begin d (p_depth, cache, s1) = Inr (pd, c, s2)"
    "br_table_targets av p_end count da p_opcode p_begin n (pd, c, s2) = Inr (p_depth', cache', s')"
    by (rule br_table_targets_Suc)
  show ?case
    using stack_only_same [OF check_br_only [OF d(1)]] store_depth_keeps(1) [OF d(2)] Suc.IH [OF d(3)]
    by (auto intro: same_blocks_trans)
qed simp

lemma op_br_table_blocks:
  assumes "op_br_table av p_end s = Inr s'" "frame_csp (lctx s) \<noteq> []"
  shows "same_blocks (lctx s) (lctx s')"
proof -
  let ?p = "lp s - 1"
  from assms(1) obtain count s1 s2 depth pd cache s3 where r: "read_u32 p_end s = Inr (count, s1)"
    and p: "POP_TYPE VALUE_TYPE_I32 s1 = Inr s2"
    and t: "br_table_targets av p_end count (target_arity (lctx s2) depth) ?p (lp s2)
        (Suc (unat count)) (lp s2, None, s2) = Inr (pd, cache, s3)"
    and m: "(case cache of
          Some ds \<Rightarrow> mark_unreachable ((fill_nops (lp s2) s3)\<lparr>br_table_caches := (?p, ds) # br_table_caches s3\<rparr>)
        | None \<Rightarrow> mark_unreachable (fill_nops pd s3)) = Inr s'"
    by (auto simp: op_br_table_def Let_def simp del: br_table_scan.simps br_table_targets.simps)
  have 3: "same_blocks (lctx s) (lctx s3)"
    using read_u32_blocks [OF r] on_stack_blocks(1) [OF p] br_table_targets_blocks [OF t]
    by (auto intro: same_blocks_trans)
  then have "frame_csp (lctx s3) \<noteq> []" using assms(2) same_blocks_nonempty by blast
  then have "same_blocks (lctx s3) (lctx s')"
    using m by (cases cache) (auto simp: mark_unreachable_def fill_nops_def intro: mark_unreachable_blocks)
  with 3 show ?thesis by (rule same_blocks_trans)
qed

lemma simple_ops_blocks:
  "op_call av M p_end s = Inr s' \<Longrightarrow> same_blocks (lctx s) (lctx s')"
  "op_call_indirect av M p_end s = Inr s' \<Longrightarrow> same_blocks (lctx s) (lctx s')"
  "op_memory_size av M p_end s = Inr s' \<Longrightarrow> same_blocks (lctx s) (lctx s')"
  "op_memory_grow av M p_end s = Inr s' \<Longrightarrow> same_blocks (lctx s) (lctx s')"
  "op_const av p_end o1 s = Inr s' \<Longrightarrow> same_blocks (lctx s) (lctx s')"
  by (auto simp: op_call_def op_call_indirect_def op_memory_size_def op_memory_grow_def op_const_def Let_def
      dest!: read_u32_blocks on_stack_blocks split: if_splits intro: same_blocks_trans)

lemma access_op_blocks:
  "op_load_store av M p_end o1 s = Inr s' \<Longrightarrow> same_blocks (lctx s) (lctx s')"
  by (auto simp: op_load_store_def dest!: read_u32_blocks on_stack_blocks split: option.splits
      intro: same_blocks_trans)

lemma prefix_ops_blocks:
  "op_misc av M p_end s = Inr s' \<Longrightarrow> same_blocks (lctx s) (lctx s')"
  "op_atomic av stray M p_end s = Inr s' \<Longrightarrow> same_blocks (lctx s) (lctx s')"
  by (auto simp: op_misc_def op_atomic_def dest!: read_u32_blocks on_stack_blocks split: option.splits if_splits)
    (metis same_blocks_trans)+

lemma drop_select_blocks:
  "op_drop s = Inr s' \<Longrightarrow> same_blocks (lctx s) (lctx s')"
  "op_select av s = Inr s' \<Longrightarrow> same_blocks (lctx s) (lctx s')"
  by (auto simp: op_drop_def op_select_def drop_cells_def Let_def dest!: on_stack_blocks split: if_splits
      intro: same_blocks_trans) (simp_all add: same_blocks_def)

lemma get_local_blocks: "get_local F p_end s = Inr (t, off, s') \<Longrightarrow> lctx s' = lctx s"
  "get_global M p_end s = Inr (i, t, b, s') \<Longrightarrow> lctx s' = lctx s"
  by (auto simp: get_local_def get_global_def Let_def dest!: read_u32_blocks split: if_splits)

lemma variable_ops_blocks:
  "op_get_local av F p_end s = Inr s' \<Longrightarrow> same_blocks (lctx s) (lctx s')"
  "op_set_local F p_end s = Inr s' \<Longrightarrow> same_blocks (lctx s) (lctx s')"
  "op_tee_local av F p_end s = Inr s' \<Longrightarrow> same_blocks (lctx s) (lctx s')"
  "op_get_global av M p_end s = Inr s' \<Longrightarrow> same_blocks (lctx s) (lctx s')"
  "op_set_global M p_end s = Inr s' \<Longrightarrow> same_blocks (lctx s) (lctx s')"
  by (auto simp: op_get_local_def op_set_local_def op_tee_local_def op_get_global_def op_set_global_def Let_def
      dest!: get_local_blocks on_stack_blocks split: if_splits intro: same_blocks_trans)

lemma plain_blocks:
  assumes op: "prepare_opcode E M F p_end opcode s = Inr s'" and ne: "frame_csp (lctx s) \<noteq> []"
    and o: "opcode \<notin> {0x02, 0x03, 0x04, 0x05, 0x0b}"
  shows "same_blocks (lctx s) (lctx s')"
proof -
  let ?av = "env_av E"
  have cases: "mark_unreachable s = Inr s' \<or> s' = s \<or> (\<exists>o1. op_br ?av p_end o1 s = Inr s') \<or> (\<exists>o1. op_br_if ?av p_end o1 s = Inr s')
    \<or> op_br_table ?av p_end s = Inr s' \<or> op_return F s = Inr s' \<or> op_call ?av M p_end s = Inr s'
    \<or> op_call_indirect ?av M p_end s = Inr s' \<or> op_drop s = Inr s' \<or> op_select ?av s = Inr s'
    \<or> op_get_local ?av F p_end s = Inr s' \<or> op_set_local F p_end s = Inr s'
    \<or> op_tee_local ?av F p_end s = Inr s' \<or> op_get_global ?av M p_end s = Inr s'
    \<or> op_set_global M p_end s = Inr s' \<or> (\<exists>o1. op_load_store ?av M p_end o1 s = Inr s')
    \<or> op_memory_size ?av M p_end s = Inr s' \<or> op_memory_grow ?av M p_end s = Inr s'
    \<or> (\<exists>o1. op_const ?av p_end o1 s = Inr s') \<or> op_misc ?av M p_end s = Inr s'
    \<or> op_atomic ?av (env_stray E) M p_end s = Inr s'
    \<or> (\<exists>n t t'. POPS_AND_PUSH ?av n t t' s = Inr s')"
    using op o unfolding prepare_opcode_def Let_def
    by (simp split: if_splits option.splits prod.splits; blast)
  have br: "same_blocks (lctx s) (lctx s')" if "op_br ?av p_end o1 s = Inr s'" for o1
    using that ne unfolding op_br_def bindE_eq_Inr
    by (metis check_branch_block_blocks unreachable_blocks same_blocks_nonempty same_blocks_trans)
  have br_if: "same_blocks (lctx s) (lctx s')" if "op_br_if ?av p_end o1 s = Inr s'" for o1
    using that unfolding op_br_if_def bindE_eq_Inr
    by (metis check_branch_block_blocks on_stack_blocks(1) same_blocks_trans)
  have ret: "same_blocks (lctx s) (lctx s')" if "op_return F s = Inr s'"
    using that ne unfolding op_return_def bindE_eq_Inr
    by (metis on_stack_blocks(2) unreachable_blocks same_blocks_nonempty same_blocks_trans)
  note rules = simple_ops_blocks access_op_blocks prefix_ops_blocks drop_select_blocks variable_ops_blocks
    op_br_table_blocks [OF _ ne] unreachable_blocks [OF _ ne] on_stack_blocks(4)
  show ?thesis using cases
    by (elim disjE exE) (simp; fail | erule br | erule br_if | erule ret | erule rules)+
qed

section \<open>Opening a block\<close>

lemma pop_block_params_live:
  "\<not> poly_of c \<Longrightarrow> pop_block_params c ts = Inr c' \<Longrightarrow> pop_frame_refs c ts = Inr c'"
proof (induction ts arbitrary: c)
  case (Cons t ts)
  from Cons.prems obtain c1 where c1: "wasm_loader_pop_frame_ref c t = Inr c1" "pop_block_params c1 ts = Inr c'"
    by (auto simp: poly_of_def split: if_splits)
  have "\<not> poly_of c1" using stack_only_poly [OF pop_frame_ref_only [OF c1(1)]] Cons.prems(1) by simp
  with Cons.IH c1 show ?case by simp
qed simp

lemma pop_block_params_only: "pop_block_params c ts = Inr c' \<Longrightarrow> stack_only c c'"
  by (induction c ts rule: pop_block_params.induct)
    (auto dest: pop_frame_ref_only intro: stack_only_trans split: if_splits)

definition param_count_of :: "BlockType \<Rightarrow> nat" where
  "param_count_of bt = length (cells_of (block_type_get_param_types bt))"

definition result_count_of :: "BlockType \<Rightarrow> nat" where
  "result_count_of bt = length (cells_of (block_type_get_result_types bt))"

lemma live_new_stack:
  assumes "good_ctx c" "frame_csp c = b # bs" "\<not> is_stack_polymorphic b"
  shows "live c"
  using assms by (simp add: live_def poly_of_def)

lemma open_block_facts:
  assumes good: "good_ctx c" and bt: "block_type_ok bt" and op: "open_block av opcode bt p c = Inr c'"
  obtains n where "frame_csp c' = new_block (LABEL_TYPE_BLOCK + (opcode - WASM_OP_BLOCK)) bt p n # frame_csp c"
    "csp_num c' = csp_num c + 1" "live c'" "stack_cell_num c' = n + param_count_of bt"
    "live c \<Longrightarrow> stack_cell_num c = n + param_count_of bt \<and> height c \<le> n"
proof -
  have v: "list_all is_valid_value_type (block_type_get_param_types bt)" by (rule block_types_valid [OF bt])
  from op obtain c1 c2 where c1: "pop_block_params c (rev (block_type_get_param_types bt)) = Inr c1"
    and c2: "wasm_loader_push_frame_csp av c1 (LABEL_TYPE_BLOCK + (opcode - WASM_OP_BLOCK)) bt p = Inr c2"
    and c': "push_frame_refs av c2 (block_type_get_param_types bt) = Inr c'"
    by (auto simp: open_block_def)
  have so1: "stack_only c c1" by (rule pop_block_params_only [OF c1])
  have "good_ctx c1" using pop_block_params_step [OF good _ c1] v by (simp add: ctx_step_def)
  then obtain ts segs where rel1: "ctx_rel c1 (ts # segs)" and bl1: "blocks_ok c1"
    by (auto simp: good_ctx_def)
  note r2 = push_frame_csp_rel [OF rel1 c2]
  have good2: "good_ctx c2" using r2 bl1 bt by (auto simp: good_ctx_def blocks_ok_def)
  then have live2: "live c2" by (rule live_new_stack [OF _ r2(2)]) simp
  have h2: "height c2 = stack_cell_num c1" using r2(2) by (simp add: height_def)
  have s2: "stack_cell_num c2 = stack_cell_num c1"
    using live_cells [OF r2(1)] h2 by simp
  note cnt = push_frame_refs_counts [OF live2 v c']
  have csp': "frame_csp c' = frame_csp c2" "csp_num c' = csp_num c2"
    using push_frame_refs_only [OF c'] by (simp_all add: stack_only_def)
  show thesis
  proof (rule that [of "stack_cell_num c1"])
    show "frame_csp c' = new_block (LABEL_TYPE_BLOCK + (opcode - WASM_OP_BLOCK)) bt p (stack_cell_num c1) # frame_csp c"
      "csp_num c' = csp_num c + 1"
      using csp' r2 so1 by (simp_all add: stack_only_def)
    show "live c'" using cnt by (simp add: counts_def)
    show "stack_cell_num c' = stack_cell_num c1 + param_count_of bt"
      using cnt s2 by (simp add: counts_def param_count_of_def)
    assume l: "live c"
    then have "pop_frame_refs c (rev (block_type_get_param_types bt)) = Inr c1"
      using c1 by (intro pop_block_params_live) (simp_all add: live_def)
    from pop_frame_refs_counts [OF l _ this] v
    have "counts (param_count_of bt) 0 c c1" by (simp add: param_count_of_def)
    then show "stack_cell_num c = stack_cell_num c1 + param_count_of bt \<and> height c \<le> stack_cell_num c1"
      using live_cells stack_only_height [OF so1] by (auto simp: counts_def live_def good_ctx_def)
  qed
qed

text \<open>What is known of the state behind an opcode that opens a block; \<open>s\<close> is the state before it. The
  condition of an \<open>if\<close> is one cell more.\<close>

definition opens :: "u8 \<Rightarrow> BlockType \<Rightarrow> LoaderState \<Rightarrow> LoaderState \<Rightarrow> bool" where
  "opens opcode bt s s' \<longleftrightarrow> (\<exists>n.
     frame_csp (lctx s') = new_block (LABEL_TYPE_BLOCK + (opcode - WASM_OP_BLOCK)) bt (lp s') n # frame_csp (lctx s) \<and>
     csp_num (lctx s') = csp_num (lctx s) + 1 \<and> live (lctx s') \<and> stack_cell_num (lctx s') = n + param_count_of bt \<and>
     (live (lctx s) \<longrightarrow>
        stack_cell_num (lctx s) = n + param_count_of bt + (if opcode = 0x04 then 1 else 0) \<and> height (lctx s) \<le> n))"

lemma block_op_opens:
  assumes at: "at_code p0 p_end s" and lp: "lp s = p0 + 1" and M: "module_ok M"
    and op: "handle_op_block_and_loop av M p_end opcode s = Inr s'" "opcode \<noteq> 0x04"
  shows "\<exists>bt s1. opens opcode bt s s' \<and> read_block_type M p_end opcode s = Inr (bt, s1) \<and> keeps_code s1 s'"
proof -
  from op(1) obtain bt s1 where r: "read_block_type M p_end opcode s = Inr (bt, s1)"
    and o: "on_ctx (open_block av opcode bt (lp s1)) s1 = Inr s'"
    by (auto simp: handle_op_block_and_loop_def)
  note r' = read_block_type_step [OF at lp M r]
  from o obtain c' where c': "open_block av opcode bt (lp s1) (lctx s) = Inr c'" "s' = s1\<lparr>lctx := c'\<rparr>"
    using r'(4) by (auto simp: on_ctx_Inr)
  have good: "good_ctx (lctx s)" using at by (simp add: at_code_def)
  have "opens opcode bt s s'"
    by (rule open_block_facts [OF good r'(2) c'(1)]) (use c'(2) op(2) in \<open>auto simp: opens_def\<close>)
  then show ?thesis using r c'(2) by (auto simp: keeps_code_def)
qed

lemma if_op_opens:
  assumes at: "at_code p0 p_end s" and lp: "lp s = p0 + 1" and M: "module_ok M"
    and op: "op_if av M p_end 0x04 s = Inr s'"
  shows "\<exists>bt s1. opens 0x04 bt s s' \<and> read_block_type M p_end 0x04 s = Inr (bt, s1) \<and> keeps_code s1 s'"
proof -
  from op obtain s0 bt s1 where p: "POP_TYPE VALUE_TYPE_I32 s = Inr s0"
    and r: "read_block_type M p_end 0x04 s0 = Inr (bt, s1)"
    and o: "on_ctx (open_block av 0x04 bt (lp s1)) s1 = Inr s'"
    by (auto simp: op_if_def handle_op_block_and_loop_def)
  have 1: "code_step p0 p_end s s0" by (rule POP_TYPE_step [OF at base_types_valid(1) p])
  note at0 = code_step_at [OF at 1]
  from p obtain c0 where c0: "s0 = s\<lparr>lctx := c0\<rparr>" "wasm_loader_pop_frame_ref (lctx s) VALUE_TYPE_I32 = Inr c0"
    by (auto simp: POP_TYPE_def on_ctx_Inr)
  then have lp0: "lp s0 = p0 + 1" using lp by simp
  note r' = read_block_type_step [OF at0 lp0 M r]
  from o obtain c' where c': "open_block av 0x04 bt (lp s1) (lctx s0) = Inr c'" "s' = s1\<lparr>lctx := c'\<rparr>"
    using r'(4) by (auto simp: on_ctx_Inr)
  have good0: "good_ctx (lctx s0)" using at0 by (simp add: at_code_def)
  have cnt: "counts 1 0 (lctx s) (lctx s0)" if "live (lctx s)"
    using POP_TYPE_moves [OF that _ p] by (simp add: moves_def)
  have csp: "frame_csp (lctx s0) = frame_csp (lctx s)" "csp_num (lctx s0) = csp_num (lctx s)"
    using pop_frame_ref_only [OF c0(2)] c0(1) by (simp_all add: stack_only_def)
  from open_block_facts [OF good0 r'(2) c'(1)] obtain n where
    n: "frame_csp c' = new_block (LABEL_TYPE_BLOCK + (0x04 - WASM_OP_BLOCK)) bt (lp s1) n # frame_csp (lctx s0)"
      "csp_num c' = csp_num (lctx s0) + 1" "live c'" "stack_cell_num c' = n + param_count_of bt"
      "live (lctx s0) \<Longrightarrow> stack_cell_num (lctx s0) = n + param_count_of bt \<and> height (lctx s0) \<le> n"
    by blast
  have "opens 0x04 bt s s'"
    unfolding opens_def
  proof (intro exI conjI impI)
    show "frame_csp (lctx s') = new_block (LABEL_TYPE_BLOCK + (0x04 - WASM_OP_BLOCK)) bt (lp s') n # frame_csp (lctx s)"
      "csp_num (lctx s') = csp_num (lctx s) + 1" "live (lctx s')" "stack_cell_num (lctx s') = n + param_count_of bt"
      using n csp c'(2) by simp_all
    assume l: "live (lctx s)"
    have "live (lctx s0)" "height (lctx s0) = height (lctx s)" "stack_cell_num (lctx s0) + 1 = stack_cell_num (lctx s)"
      using cnt [OF l] stack_only_height by (auto simp: counts_def)
    then show "stack_cell_num (lctx s) = n + param_count_of bt + (if (0x04 :: u8) = 0x04 then 1 else 0)"
      "height (lctx s) \<le> n"
      using n(5) by simp_all
  qed
  moreover have "read_block_type M p_end 0x04 s = Inr (bt, s1\<lparr>lctx := lctx s\<rparr>)"
    using r c0(1) by (auto simp: read_block_type_def Let_def poke_def split: if_splits)
  moreover have "keeps_code (s1\<lparr>lctx := lctx s\<rparr>) s'" using c'(2) by (simp add: keeps_code_def)
  ultimately show ?thesis by blast
qed

section \<open>Dividing and closing a block\<close>

abbreviation top_block :: "LoaderState \<Rightarrow> BranchBlock" where
  "top_block s \<equiv> hd (frame_csp (lctx s))"

lemma good_nonempty: "good_ctx c \<Longrightarrow> frame_csp c \<noteq> [] \<and> csp_num c = length (frame_csp c)"
  by (auto simp: good_ctx_def ctx_rel_def dest: ctx_rel_hd)

lemma check_block_stack_facts:
  assumes good: "good_ctx c" and chk: "check_block_stack av c (hd (frame_csp c)) = Inr c'"
  shows "stack_only c c'" "good_ctx c'"
    "stack_cell_num c' = height c + result_count_of (block_type (hd (frame_csp c)))"
    "live c \<Longrightarrow> stack_cell_num c = height c + result_count_of (block_type (hd (frame_csp c)))"
proof -
  note st = check_block_stack_step [OF good chk]
  show so: "stack_only c c'" by (rule check_block_stack_only [OF chk])
  show "good_ctx c'" using st(1) by (rule ctx_step_good)
  from st(3) obtain segs where rel: "ctx_rel c' (rev (block_type_get_result_types (block_type (hd (frame_csp c)))) # segs)"
    by blast
  show n: "stack_cell_num c' = height c + result_count_of (block_type (hd (frame_csp c)))"
    using live_cells [OF rel] stack_only_height [OF so] by (simp add: result_count_of_def)
  assume "live c"
  then have "c' = c"
    using chk by (auto simp: check_block_stack_def live_def poly_of_def Let_def split: if_splits)
  with n show "stack_cell_num c = height c + result_count_of (block_type (hd (frame_csp c)))" by simp
qed

definition divides :: "LoaderState \<Rightarrow> LoaderState \<Rightarrow> bool" where
  "divides s s' \<longleftrightarrow> label_type (top_block s) = LABEL_TYPE_IF \<and> else_addr (top_block s) = 0 \<and>
     alike (top_block s) (top_block s') \<and> else_addr (top_block s') \<noteq> 0 \<and>
     frame_csp (lctx s') \<noteq> [] \<and> tl (frame_csp (lctx s')) = tl (frame_csp (lctx s)) \<and>
     csp_num (lctx s') = csp_num (lctx s) \<and> max_csp_num (lctx s') = max_csp_num (lctx s) \<and>
     max_stack_cell_num (lctx s) \<le> max_stack_cell_num (lctx s') \<and> live (lctx s') \<and>
     height (lctx s) + result_count_of (block_type (top_block s)) \<le> max_stack_cell_num (lctx s') \<and>
     stack_cell_num (lctx s') = height (lctx s) + param_count_of (block_type (top_block s)) \<and>
     (live (lctx s) \<longrightarrow> stack_cell_num (lctx s) = height (lctx s) + result_count_of (block_type (top_block s)))"

lemma else_divides:
  assumes good: "good_ctx (lctx s)" and a: "lp s - 1 \<noteq> 0" and op: "handle_op_else av s = Inr s'"
  shows "divides s s'" "lp s' = lp s" "lmem s' = lmem s"
proof -
  let ?b = "top_block s"
  from op obtain c1 c' where h: "label_type ?b = LABEL_TYPE_IF" "else_addr ?b = 0"
    and chk: "check_block_stack av (lctx s) ?b = Inr c1"
    and push: "push_frame_refs av (set_polymorphic False (reset_stack (set_else_addr (lp s - 1) c1)))
        (block_type_get_param_types (block_type ?b)) = Inr c'"
    and s': "s' = s\<lparr>lctx := c'\<rparr>"
    by (auto simp: handle_op_else_def on_ctx_Inr Let_def split: if_splits)
  show "lp s' = lp s" "lmem s' = lmem s" using s' by simp_all
  let ?c2 = "set_polymorphic False (reset_stack (set_else_addr (lp s - 1) c1))"
  note ck = check_block_stack_facts [OF good chk]
  note el = else_step [OF good h a chk push]
  obtain b bs where b: "frame_csp (lctx s) = b # bs" using good_nonempty [OF good] by (cases "frame_csp (lctx s)") auto
  have b1: "frame_csp c1 = b # bs" "csp_num c1 = csp_num (lctx s)" "max_csp_num c1 = max_csp_num (lctx s)"
    "max_stack_cell_num (lctx s) \<le> max_stack_cell_num c1"
    using ck(1) b by (simp_all add: stack_only_def)
  have csp2: "frame_csp ?c2 = b\<lparr>else_addr := lp s - 1, is_stack_polymorphic := False\<rparr> # bs"
    "csp_num ?c2 = csp_num (lctx s)" "max_csp_num ?c2 = max_csp_num (lctx s)"
    "stack_cell_num ?c2 = block_stack_cell_num b" "max_stack_cell_num ?c2 = max_stack_cell_num c1"
    using b1 by (simp_all add: set_polymorphic_def reset_stack_def set_else_addr_def Let_def)
  have v: "list_all is_valid_value_type (block_type_get_param_types (block_type ?b))"
    using good b by (intro block_types_valid) (auto simp: good_ctx_def blocks_ok_def)
  from ck(2) obtain ts1 segs1 where rel1: "ctx_rel c1 (ts1 # segs1)" and bl1: "blocks_ok c1"
    by (auto simp: good_ctx_def)
  have rel2: "ctx_rel (set_else_addr (lp s - 1) c1) (ts1 # segs1)" by (rule set_else_addr_rel [OF rel1])
  have bl2: "blocks_ok (set_else_addr (lp s - 1) c1)"
    using bl1 b1 by (simp add: blocks_ok_def set_else_addr_def)
  have "ctx_step (set_else_addr (lp s - 1) c1) ?c2"
    using rel2 bl2 by (intro mark_unreachable_step) (auto simp: good_ctx_def)
  then have live2: "live ?c2" using csp2(1) by (intro live_new_stack [OF ctx_step_good csp2(1)]) simp_all
  note cnt = push_frame_refs_counts [OF live2 v push]
  have so: "stack_only ?c2 c'" by (rule push_frame_refs_only [OF push])
  have mx: "height (lctx s) + result_count_of (block_type ?b) \<le> max_stack_cell_num c1"
    using ck(3) rel1 by (simp add: ctx_rel_def)
  have c': "frame_csp c' = b\<lparr>else_addr := lp s - 1, is_stack_polymorphic := False\<rparr> # bs"
    "csp_num c' = csp_num (lctx s)" "max_csp_num c' = max_csp_num (lctx s)"
    "max_stack_cell_num c1 \<le> max_stack_cell_num c'"
    using so csp2 by (simp_all add: stack_only_def)
  have st: "stack_cell_num c' = height (lctx s) + param_count_of (block_type ?b)" "live c'"
    using cnt csp2(4) b by (simp_all add: counts_def height_def param_count_of_def)
  show "divides s s'"
    unfolding divides_def
    using h a ck(4) st c' b b1(4) mx by (simp add: s' alike_def)
qed

definition closes :: "u32 \<Rightarrow> LoaderState \<Rightarrow> LoaderState \<Rightarrow> bool" where
  "closes p_end s s' \<longleftrightarrow> frame_csp (lctx s') = tl (frame_csp (lctx s)) \<and>
     csp_num (lctx s') + 1 = csp_num (lctx s) \<and> max_csp_num (lctx s') = max_csp_num (lctx s) \<and>
     max_stack_cell_num (lctx s) \<le> max_stack_cell_num (lctx s') \<and>
     (0 < csp_num (lctx s') \<longrightarrow> good_ctx (lctx s')) \<and> (csp_num (lctx s') = 0 \<longrightarrow> \<not> lp s < p_end) \<and>
     stack_cell_num (lctx s') = height (lctx s) + result_count_of (block_type (top_block s)) \<and>
     height (lctx s) + result_count_of (block_type (top_block s)) \<le> max_stack_cell_num (lctx s') \<and>
     (live (lctx s) \<longrightarrow> stack_cell_num (lctx s) = height (lctx s) + result_count_of (block_type (top_block s)))"

definition unfinished_if :: "LoaderState \<Rightarrow> bool" where
  "unfinished_if s \<longleftrightarrow> label_type (top_block s) = LABEL_TYPE_IF \<and> else_addr (top_block s) = 0"

lemma end_closes:
  assumes good: "good_ctx (lctx s)" and op: "op_end av p_end s = Inr s'" and ni: "\<not> unfinished_if s"
  shows "closes p_end s s'" "lp s' = lp s" "lmem s' = lmem s"
proof -
  let ?b = "top_block s"
  from op obtain c1 where chk: "check_block_stack av (lctx s) ?b = Inr c1"
    by (auto simp: op_end_def on_ctx_Inr Let_def)
  from op chk ni obtain c2 where pop: "wasm_loader_pop_frame_csp c1 = Inr c2"
    and s': "s' = s\<lparr>lctx := c2\<rparr>" and fin: "csp_num c2 = 0 \<longrightarrow> \<not> lp s < p_end"
    by (auto simp: op_end_def on_ctx_def unfinished_if_def Let_def split: if_splits)
  show "lp s' = lp s" "lmem s' = lmem s" using s' by simp_all
  note ck = check_block_stack_facts [OF good chk]
  note e = end_step [OF good chk pop]
  have c2: "frame_csp c2 = tl (frame_csp c1)" "stack_cell_num c2 = stack_cell_num c1"
    "max_csp_num c2 = max_csp_num c1" "max_stack_cell_num c2 = max_stack_cell_num c1"
    using pop by (auto simp: wasm_loader_pop_frame_csp_def split: if_splits)
  have "stack_cell_num c1 \<le> max_stack_cell_num c1" using ck(2) by (auto simp: good_ctx_def ctx_rel_def)
  moreover have "frame_csp c1 = frame_csp (lctx s)" "max_csp_num c1 = max_csp_num (lctx s)"
    using ck(1) by (simp_all add: stack_only_def)
  ultimately show "closes p_end s s'"
    using ck(3,4) e(1,3,4) c2 fin by (simp add: closes_def s')
qed

lemma end_divides:
  assumes good: "good_ctx (lctx s)" and op: "op_end av p_end s = Inr s'" and ni: "unfinished_if s"
    and a: "lp s - 2 \<noteq> 0"
  shows "divides s s'" "lp s' = lp s - 1" "lmem s' = lmem s"
proof -
  let ?b = "top_block s"
  from op ni obtain c1 where chk: "check_block_stack av (lctx s) ?b = Inr c1"
    and e: "handle_op_else av (s\<lparr>lctx := c1, lp := lp s - 1\<rparr>) = Inr s'"
    by (auto simp: op_end_def on_ctx_Inr unfinished_if_def Let_def split: if_splits)
  note ck = check_block_stack_facts [OF good chk]
  have csp: "frame_csp c1 = frame_csp (lctx s)" "csp_num c1 = csp_num (lctx s)" "max_csp_num c1 = max_csp_num (lctx s)"
    "max_stack_cell_num (lctx s) \<le> max_stack_cell_num c1" "height c1 = height (lctx s)"
    using ck(1) stack_only_height [OF ck(1)] by (simp_all add: stack_only_def)
  have "lp (s\<lparr>lctx := c1, lp := lp s - 1\<rparr>) - 1 \<noteq> 0" using a by simp
  from else_divides [OF _ this e] ck(2) have d: "divides (s\<lparr>lctx := c1, lp := lp s - 1\<rparr>) s'"
    and "lp s' = lp s - 1" "lmem s' = lmem s" by simp_all
  then show "lp s' = lp s - 1" "lmem s' = lmem s" by simp_all
  from d csp ck(4) show "divides s s'" by (auto simp: divides_def)
qed

section \<open>The validation of an accepted body\<close>

text \<open>A function body with its module, the memory before and the result of its validation.\<close>

record ValidatedBody =
  vb_env :: loader_env
  vb_module :: WASMModule
  vb_fun :: WASMFunction
  vb_code :: cmem
  vb_max_stack :: nat
  vb_max_block :: nat
  vb_state :: LoaderState

abbreviation vb_end :: "ValidatedBody \<Rightarrow> u32" where
  "vb_end A \<equiv> code_end (vb_fun A)"

definition validated :: "ValidatedBody \<Rightarrow> bool" where
  "validated A \<longleftrightarrow> module_ok (vb_module A) \<and> function_ok (vb_fun A) \<and> 1 < unat (code (vb_fun A)) \<and>
     unat (code (vb_fun A)) + unat (code_size (vb_fun A)) < 2 ^ 32 - 1 \<and>
     wasm_loader_prepare_bytecode (vb_env A) (vb_module A) (vb_fun A) (vb_code A) =
       Some (Inr (vb_max_stack A, vb_max_block A, vb_state A))"

definition visited :: "ValidatedBody \<Rightarrow> LoaderState \<Rightarrow> bool" where
  "visited A s \<longleftrightarrow> (\<exists>s0. prepare_start (vb_env A) (vb_fun A) (vb_code A) = Inr s0 \<and>
     prepare_reaches (vb_env A) (vb_module A) (vb_fun A) (vb_end A) s0 s)"

definition turn :: "ValidatedBody \<Rightarrow> LoaderState \<Rightarrow> LoaderState \<Rightarrow> bool" where
  "turn A s s' \<longleftrightarrow> lp s < vb_end A \<and>
     prepare_step (vb_env A) (vb_module A) (vb_fun A) (vb_end A) s = Inr s'"

lemma turn_det: "turn A s t \<Longrightarrow> turn A s u \<Longrightarrow> t = u"
  by (simp add: turn_def)

lemma visited_turn: "visited A s \<Longrightarrow> turn A s s' \<Longrightarrow> visited A s'"
  by (auto simp: visited_def turn_def intro: prepare_next)

lemma validated_end:
  assumes "validated A"
  shows "unat (vb_end A) < 2 ^ 32 - 1" "setting_ok (vb_module A) (vb_fun A) (code (vb_fun A))"
  using assms unat_code_end [of "vb_fun A"] by (auto simp: validated_def setting_ok_def)

lemma visited_inv:
  assumes "validated A" "visited A s"
  shows "loop_inv (code (vb_fun A)) (vb_end A) (vb_code A) s"
    "prepare_loop (vb_env A) (vb_module A) (vb_fun A) (vb_end A) s = Some (Inr (vb_state A))"
proof -
  from assms(2) obtain s0 where s0: "prepare_start (vb_env A) (vb_fun A) (vb_code A) = Inr s0"
    and r: "prepare_reaches (vb_env A) (vb_module A) (vb_fun A) (vb_end A) s0 s"
    by (auto simp: visited_def)
  have F: "function_ok (vb_fun A)" using assms(1) by (simp add: validated_def)
  show "loop_inv (code (vb_fun A)) (vb_end A) (vb_code A) s"
    using prepare_reaches_inv(1) [OF r prepare_start_inv(1) [OF s0 F]] validated_end [OF assms(1)] by blast
  have "prepare_loop (vb_env A) (vb_module A) (vb_fun A) (vb_end A) s0 = Some (Inr (vb_state A))"
    using assms(1) s0
    by (auto simp: validated_def wasm_loader_prepare_bytecode_def code_end_def split: option.splits sum.splits if_splits)
  then show "prepare_loop (vb_env A) (vb_module A) (vb_fun A) (vb_end A) s = Some (Inr (vb_state A))"
    using prepare_loop_reaches [OF r] by simp
qed

lemma validated_result:
  assumes "validated A"
  shows "csp_num (lctx (vb_state A)) = 0" "max_stack_cell_num (lctx (vb_state A)) = vb_max_stack A"
    "max_csp_num (lctx (vb_state A)) = vb_max_block A"
  using assms
  by (auto simp: validated_def wasm_loader_prepare_bytecode_def split: option.splits sum.splits if_splits)

text \<open>As long as a block is open, the validation goes on.\<close>

lemma visited_open:
  assumes "validated A" "visited A s" "0 < csp_num (lctx s)"
  obtains s' where "turn A s s'" "good_ctx (lctx s)" "lp s < vb_end A" "1 < unat (lp s)"
    "unat (code (vb_fun A)) \<le> unat (lp s)"
proof -
  note inv = visited_inv [OF assms(1,2)]
  have lt: "lp s < vb_end A"
  proof (rule ccontr)
    assume n: "\<not> lp s < vb_end A"
    then have "prepare_loop (vb_env A) (vb_module A) (vb_fun A) (vb_end A) s = Some (Inr s)"
      by (subst prepare_loop.simps) simp
    with inv(2) validated_result(1) [OF assms(1)] assms(3) show False by simp
  qed
  obtain s' where "prepare_step (vb_env A) (vb_module A) (vb_fun A) (vb_end A) s = Inr s'"
    using inv(2) lt by (subst (asm) prepare_loop.simps) (auto split: sum.splits)
  moreover have "good_ctx (lctx s)" "unat (code (vb_fun A)) \<le> unat (lp s)"
    using inv(1) lt by (auto simp: loop_inv_def word_less_nat_alt)
  ultimately show thesis using that lt assms(1) by (auto simp: turn_def validated_def)
qed

text \<open>Positions: an instruction that is no block opcode moves forward.\<close>

lemma instruction_forward:
  assumes at: "at_code p0 p_end s" and lp: "lp s = p0 + 1" and pe: "unat p_end < 2 ^ 32 - 1"
    and M: "module_ok M" and F: "function_ok F"
    and op: "prepare_opcode E M F p_end opcode s = Inr s'" and o: "opcode \<notin> {0x02, 0x03, 0x04, 0x05, 0x0b}"
  shows "unat (lp s) \<le> unat (lp s')"
proof -
  let ?av = "env_av E"
  have "mark_unreachable s = Inr s' \<or> s' = s \<or> (\<exists>o1. op_br ?av p_end o1 s = Inr s') \<or> (\<exists>o1. op_br_if ?av p_end o1 s = Inr s')
    \<or> op_br_table ?av p_end s = Inr s' \<or> op_return F s = Inr s' \<or> op_call ?av M p_end s = Inr s'
    \<or> op_call_indirect ?av M p_end s = Inr s' \<or> op_drop s = Inr s' \<or> op_select ?av s = Inr s'
    \<or> op_get_local ?av F p_end s = Inr s' \<or> op_set_local F p_end s = Inr s'
    \<or> op_tee_local ?av F p_end s = Inr s' \<or> op_get_global ?av M p_end s = Inr s'
    \<or> op_set_global M p_end s = Inr s' \<or> (\<exists>o1. op_load_store ?av M p_end o1 s = Inr s')
    \<or> op_memory_size ?av M p_end s = Inr s' \<or> op_memory_grow ?av M p_end s = Inr s'
    \<or> (\<exists>o1. op_const ?av p_end o1 s = Inr s') \<or> op_misc ?av M p_end s = Inr s'
    \<or> op_atomic ?av (env_stray E) M p_end s = Inr s'
    \<or> (\<exists>n t t'. numeric_sig opcode = Some (n, t, t') \<and> POPS_AND_PUSH ?av n t t' s = Inr s')"
    using op o unfolding prepare_opcode_def Let_def
    by (simp split: if_splits option.splits prod.splits; blast)
  note cases = this
  have fwd: "code_step p0 p_end s s' \<Longrightarrow> unat (lp s) \<le> unat (lp s')" by (simp add: code_step_def)
  note steps = fwd [OF mark_unreachable_code_step [OF at]] fwd [OF op_br_step [OF at]] fwd [OF op_br_if_step [OF at]]
    fwd [OF op_br_table_step [OF at lp]] fwd [OF op_return_step [OF at F]] fwd [OF op_call_step [OF at M]]
    fwd [OF op_call_indirect_step [OF at M]] fwd [OF op_drop_step [OF at]] fwd [OF op_select_step [OF at]]
    fwd [OF op_get_local_step [OF at lp F]] fwd [OF op_set_local_step [OF at lp F]]
    fwd [OF op_tee_local_step [OF at lp F]] fwd [OF op_get_global_step [OF at lp M]]
    fwd [OF op_set_global_step [OF at lp M]] fwd [OF op_load_store_step [OF at]]
    fwd [OF op_memory_size_step [OF at]] fwd [OF op_memory_grow_step [OF at]] fwd [OF op_const_step [OF at]]
    fwd [OF op_misc_step [OF at]]
  have atomic: "unat (lp s) \<le> unat (lp s')" if "op_atomic ?av (env_stray E) M p_end s = Inr s'"
  proof -
    have "unat (p_end + 1) = unat p_end + 1" using unat_add_small [of p_end 1] pe by simp
    then show ?thesis using op_atomic_step [OF at that] at by (auto simp: code_step_def at_code_def)
  qed
  have num: "unat (lp s) \<le> unat (lp s')"
    if "numeric_sig opcode = Some (n, t, t')" "POPS_AND_PUSH ?av n t t' s = Inr s'" for n t t'
    using POPS_AND_PUSH_step [OF at _ _ that(2)] numeric_sig_valid [OF that(1)] fwd by blast
  show ?thesis using cases
    by (elim disjE exE conjE) (simp; fail | erule steps | erule atomic | erule (1) num)+
qed

text \<open>The five kinds of turn; the middle ones are an \<open>else\<close>, and the first of the two turns that the
  \<open>end\<close> of an \<open>if\<close> without \<open>else\<close> takes.\<close>

definition fetched :: "LoaderState \<Rightarrow> LoaderState" where
  "fetched s = s\<lparr>lp := lp s + 1\<rparr>"

abbreviation opcode_at :: "LoaderState \<Rightarrow> u8" where
  "opcode_at s \<equiv> lmem s (lp s)"

lemma fetched_simps [simp]:
  "lctx (fetched s) = lctx s" "lmem (fetched s) = lmem s" "lp (fetched s) = lp s + 1"
  "br_table_caches (fetched s) = br_table_caches s"
  by (simp_all add: fetched_def)

lemma opens_fetched: "opens op bt (fetched s) s' = opens op bt s s'"
  by (simp add: opens_def)

lemma divides_fetched: "divides (fetched s) s' = divides s s'"
  by (simp add: divides_def)

lemma turn_at:
  assumes "validated A" "visited A s" "0 < csp_num (lctx s)"
  shows "at_code (lp s) (vb_end A) (fetched s)" "unat (lp s + 1) = unat (lp s) + 1"
proof -
  from assms obtain s' where "turn A s s'" and g: "good_ctx (lctx s)" "lp s < vb_end A" "1 < unat (lp s)"
    by (rule visited_open)
  show u: "unat (lp s + 1) = unat (lp s) + 1"
    using unat_add_small [of "lp s" 1] g(2) unat_u32_less [of "vb_end A"] by (simp add: word_less_nat_alt)
  show "at_code (lp s) (vb_end A) (fetched s)" using g u by (simp add: at_code_def word_less_nat_alt)
qed

lemma turn_opcode:
  assumes "turn A s s'"
  shows "prepare_opcode (vb_env A) (vb_module A) (vb_fun A) (vb_end A) (opcode_at s) (fetched s) = Inr s'"
  using assms by (simp add: turn_def prepare_step_def fetched_def)

lemma turn_cases:
  assumes A: "validated A" and v: "visited A s" and n: "0 < csp_num (lctx s)" and t: "turn A s s'"
  obtains
    (plain) "opcode_at s \<notin> {0x02, 0x03, 0x04, 0x05, 0x0b}" "same_blocks (lctx s) (lctx s')"
      "unat (lp s) < unat (lp s')"
  | (entering) bt s2 where "opcode_at s \<in> {0x02, 0x03, 0x04}" "opens (opcode_at s) bt s s'"
      "read_block_type (vb_module A) (vb_end A) (opcode_at s) (fetched s) = Inr (bt, s2)" "keeps_code s2 s'"
      "unat (lp s) < unat (lp s')"
  | (dividing) "opcode_at s = 0x05" "divides s s'" "lp s' = lp s + 1" "lmem s' = lmem s"
  | (half) "opcode_at s = 0x0b" "unfinished_if s" "divides s s'" "lp s' = lp s" "lmem s' = lmem s"
  | (closing) "opcode_at s = 0x0b" "\<not> unfinished_if s" "closes (vb_end A) (fetched s) s'"
      "lp s' = lp s + 1" "lmem s' = lmem s"
proof -
  note op = turn_opcode [OF t]
  have M: "module_ok (vb_module A)" and F: "function_ok (vb_fun A)" using A by (simp_all add: validated_def)
  from A v n obtain s'' where good: "good_ctx (lctx s)" and pos: "1 < unat (lp s)" by (rule visited_open) blast
  note at = turn_at(1) [OF A v n] and u = turn_at(2) [OF A v n]
  have lp: "lp (fetched s) = lp s + 1" by simp
  have ne: "frame_csp (lctx (fetched s)) \<noteq> []" using good_nonempty [OF good] by simp
  have "lp s \<noteq> 0" "lp s - 1 \<noteq> 0" using pos by auto
  consider (p) "opcode_at s \<notin> {0x02, 0x03, 0x04, 0x05, 0x0b}" | (o) "opcode_at s = 0x02 \<or> opcode_at s = 0x03"
    | (i) "opcode_at s = 0x04" | (e) "opcode_at s = 0x05" | (c) "opcode_at s = 0x0b" by auto
  then show thesis
  proof cases
    case p
    show thesis
      using plain [OF p] plain_blocks [OF op ne p]
        instruction_forward [OF at lp validated_end(1) [OF A] M F op p] u by simp
  next
    case o
    then have h: "handle_op_block_and_loop (env_av (vb_env A)) (vb_module A) (vb_end A) (opcode_at s) (fetched s) = Inr s'"
      using op by (auto simp: prepare_opcode_def)
    have "opcode_at s \<noteq> 0x04" using o by auto
    from block_op_opens [OF at lp M h this] obtain bt s2 where b: "opens (opcode_at s) bt (fetched s) s'"
      and r: "read_block_type (vb_module A) (vb_end A) (opcode_at s) (fetched s) = Inr (bt, s2)" "keeps_code s2 s'" by blast
    with read_block_type_step(3) [OF at lp M r(1)] u have "unat (lp s) < unat (lp s')" by (simp add: keeps_code_def)
    with entering [OF _ _ r] b o show thesis by (auto simp: opens_fetched)
  next
    case i
    then have h: "op_if (env_av (vb_env A)) (vb_module A) (vb_end A) 0x04 (fetched s) = Inr s'"
      using op by (simp add: prepare_opcode_def)
    from if_op_opens [OF at lp M h] i obtain bt s2 where b: "opens (opcode_at s) bt (fetched s) s'"
      and r: "read_block_type (vb_module A) (vb_end A) (opcode_at s) (fetched s) = Inr (bt, s2)" "keeps_code s2 s'" by auto
    with read_block_type_step(3) [OF at lp M r(1)] u have "unat (lp s) < unat (lp s')" by (simp add: keeps_code_def)
    with entering [OF _ _ r] b i show thesis by (auto simp: opens_fetched)
  next
    case e
    then have h: "handle_op_else (env_av (vb_env A)) (fetched s) = Inr s'"
      using op by (simp add: prepare_opcode_def)
    have "lp (fetched s) - 1 \<noteq> 0" using \<open>lp s \<noteq> 0\<close> by simp
    from else_divides [OF _ this h] good e show thesis by (intro dividing) (simp_all add: divides_fetched)
  next
    case c
    then have h: "op_end (env_av (vb_env A)) (vb_end A) (fetched s) = Inr s'"
      using op by (simp add: prepare_opcode_def)
    show thesis
    proof (cases "unfinished_if s")
      case True
      then have "unfinished_if (fetched s)" by (simp add: unfinished_if_def)
      moreover have "lp (fetched s) - 2 \<noteq> 0" using \<open>lp s - 1 \<noteq> 0\<close> by (simp add: algebra_simps)
      ultimately show thesis
        using end_divides [OF _ h] good c True by (intro half) (simp_all add: divides_fetched)
    next
      case False
      then have "\<not> unfinished_if (fetched s)" by (simp add: unfinished_if_def)
      with end_closes [OF _ h] good c False show thesis by (intro closing) simp_all
    qed
  qed
qed

lemma turn_forward:
  assumes "validated A" "visited A s" "0 < csp_num (lctx s)" "turn A s s'"
  shows "unat (lp s) \<le> unat (lp s')" "loop_measure (vb_end A) s' < loop_measure (vb_end A) s"
    "max_stack_cell_num (lctx s) \<le> max_stack_cell_num (lctx s')"
    "unat a < unat (lp s) \<Longrightarrow> lmem s' a = lmem s a"
proof -
  show "unat (lp s) \<le> unat (lp s')"
    using assms by (cases rule: turn_cases) (simp_all add: turn_at(2) [OF assms(1-3)])
  from assms(1-3) obtain s'' where g: "good_ctx (lctx s)" "1 < unat (lp s)" by (rule visited_open) blast
  note inv = visited_inv(1) [OF assms(1,2)]
  note st = loop_inv_step [OF inv _ validated_end(2) [OF assms(1)] validated_end(1) [OF assms(1)]]
  show "loop_measure (vb_end A) s' < loop_measure (vb_end A) s"
    "max_stack_cell_num (lctx s) \<le> max_stack_cell_num (lctx s')"
    using st(2,3) assms(4) by (auto simp: turn_def)
  have "unat (lp s) < unat (vb_end A)" using assms(4) by (simp add: turn_def word_less_nat_alt)
  from prepare_step_round(1) [OF g(1) this g(2) validated_end(1) [OF assms(1)]] assms(1,4)
  show "lmem s' a = lmem s a" if "unat a < unat (lp s)"
    using that by (auto simp: turn_def validated_def round_post_def)
qed

section \<open>Inside a block\<close>

text \<open>The states from \<open>s\<close> on in which more than \<open>n\<close> blocks are open.\<close>

inductive inside :: "ValidatedBody \<Rightarrow> nat \<Rightarrow> LoaderState \<Rightarrow> LoaderState \<Rightarrow> bool" for A n where
  inside_refl: "n < csp_num (lctx s) \<Longrightarrow> inside A n s s"
| inside_next: "inside A n s t \<Longrightarrow> turn A t u \<Longrightarrow> n < csp_num (lctx u) \<Longrightarrow> inside A n s u"

lemma inside_csp: "inside A n s t \<Longrightarrow> n < csp_num (lctx t)"
  by (induction rule: inside.induct) simp_all

lemma inside_csp_start: "inside A n s t \<Longrightarrow> n < csp_num (lctx s)"
  by (induction rule: inside.induct) simp_all

lemma inside_visited: "inside A n s t \<Longrightarrow> visited A s \<Longrightarrow> visited A t"
  by (induction rule: inside.induct) (auto intro: visited_turn)

lemma inside_trans: "inside A n t u \<Longrightarrow> inside A n s t \<Longrightarrow> inside A n s u"
  by (induction rule: inside.induct) (auto intro: inside_next)

lemma inside_weaken: "inside A n s t \<Longrightarrow> k \<le> n \<Longrightarrow> inside A k s t"
  by (induction rule: inside.induct) (auto intro: inside.intros)

definition level_block :: "nat \<Rightarrow> LoaderState \<Rightarrow> BranchBlock" where
  "level_block n s = frame_csp (lctx s) ! (csp_num (lctx s) - Suc n)"

definition below :: "nat \<Rightarrow> LoaderState \<Rightarrow> BranchBlock list" where
  "below n s = drop (csp_num (lctx s) - n) (frame_csp (lctx s))"

lemma level_block_top:
  "good_ctx (lctx s) \<Longrightarrow> csp_num (lctx s) = Suc n \<Longrightarrow> level_block n s = top_block s"
  by (auto simp: level_block_def hd_conv_nth dest: good_nonempty)

lemma level_block_shift:
  assumes "frame_csp (lctx s) = b # bs" "csp_num (lctx s) = Suc k" "n < k"
  shows "level_block n s = bs ! (k - Suc n)"
  using assms by (simp add: level_block_def nth_Cons')

lemma turn_levels:
  assumes A: "validated A" and v: "visited A s" and n: "n < csp_num (lctx s)" and t: "turn A s s'"
    and n': "n < csp_num (lctx s')"
  shows "alike (level_block n s) (level_block n s')" "below n s' = below n s"
    "\<not> (csp_num (lctx s) = Suc n \<and> divides s s') \<Longrightarrow>
       else_addr (level_block n s') = else_addr (level_block n s)"
proof -
  have pos: "0 < csp_num (lctx s)" using n by simp
  from A v pos obtain s'' where good: "good_ctx (lctx s)" by (rule visited_open) blast
  obtain b bs where b: "frame_csp (lctx s) = b # bs" and num: "csp_num (lctx s) = Suc (length bs)"
    using good_nonempty [OF good] by (cases "frame_csp (lctx s)") auto
  have same: "alike (level_block n s) (level_block n s') \<and> below n s' = below n s \<and>
      (else_addr b' = else_addr b \<or> csp_num (lctx s) \<noteq> Suc n \<longrightarrow>
         else_addr (level_block n s') = else_addr (level_block n s))"
    if "frame_csp (lctx s') = b' # bs" "alike b b'" "csp_num (lctx s') = csp_num (lctx s)" for b'
    using that n num b by (cases "n = length bs") (simp_all add: level_block_def below_def Suc_diff_le nth_Cons')
  have "alike (level_block n s) (level_block n s') \<and> below n s' = below n s \<and>
      (\<not> (csp_num (lctx s) = Suc n \<and> divides s s') \<longrightarrow>
         else_addr (level_block n s') = else_addr (level_block n s))"
    using A v pos t
  proof (cases rule: turn_cases)
    case plain
    then obtain b' where "frame_csp (lctx s') = b' # bs" "alike b b'" "else_addr b' = else_addr b"
      "csp_num (lctx s') = csp_num (lctx s)"
      using b by (cases "frame_csp (lctx s')") (auto simp: same_blocks_def)
    with same show ?thesis by blast
  next
    case (entering bt s2)
    then obtain b' where "frame_csp (lctx s') = b' # b # bs" "csp_num (lctx s') = Suc (csp_num (lctx s))"
      using b by (auto simp: opens_def)
    then show ?thesis using n num b by (simp add: level_block_def below_def Suc_diff_le)
  next
    case dividing
    then obtain b' where "frame_csp (lctx s') = b' # bs" "alike b b'" "csp_num (lctx s') = csp_num (lctx s)"
      using b by (cases "frame_csp (lctx s')") (auto simp: divides_def)
    with same dividing(2) show ?thesis by blast
  next
    case half
    then obtain b' where "frame_csp (lctx s') = b' # bs" "alike b b'" "csp_num (lctx s') = csp_num (lctx s)"
      using b by (cases "frame_csp (lctx s')") (auto simp: divides_def)
    with same half(3) show ?thesis by blast
  next
    case closing
    then have "frame_csp (lctx s') = bs" "Suc (csp_num (lctx s')) = csp_num (lctx s)"
      using b by (simp_all add: closes_def)
    then show ?thesis using n n' num b by (simp add: level_block_def below_def Suc_diff_le nth_Cons')
  qed
  then show "alike (level_block n s) (level_block n s')" "below n s' = below n s"
    "\<not> (csp_num (lctx s) = Suc n \<and> divides s s') \<Longrightarrow>
       else_addr (level_block n s') = else_addr (level_block n s)" by blast+
qed

lemma inside_levels:
  assumes A: "validated A" and i: "inside A n s t" and v: "visited A s"
  shows "alike (level_block n s) (level_block n t)" "below n t = below n s" "unat (lp s) \<le> unat (lp t)"
proof -
  have "alike (level_block n s) (level_block n t) \<and> below n t = below n s \<and> unat (lp s) \<le> unat (lp t)"
    using i v
  proof (induction rule: inside.induct)
    case (inside_next s t u)
    have vt: "visited A t" using inside_visited inside_next.hyps(1) inside_next.prems by blast
    have nt: "n < csp_num (lctx t)" using inside_csp inside_next.hyps(1) by blast
    have pos: "0 < csp_num (lctx t)" using nt by simp
    from turn_levels(1,2) [OF A vt nt inside_next.hyps(2,3)] turn_forward(1) [OF A vt pos inside_next.hyps(2)]
      inside_next.IH [OF inside_next.prems] show ?case by (auto intro: alike_trans)
  qed simp
  then show "alike (level_block n s) (level_block n t)" "below n t = below n s" "unat (lp s) \<le> unat (lp t)"
    by blast+
qed

text \<open>Every byte the validation has passed stays as it is.\<close>

lemma code_settled:
  assumes A: "validated A"
  shows "visited A s \<Longrightarrow> unat a < unat (lp s) \<Longrightarrow> lmem (vb_state A) a = lmem s a"
proof (induction "loop_measure (vb_end A) s" arbitrary: s rule: less_induct)
  case less
  show ?case
  proof (cases "lp s < vb_end A")
    case False
    with visited_inv(2) [OF A less.prems(1)] show ?thesis by (subst (asm) prepare_loop.simps) simp
  next
    case True
    from visited_inv(2) [OF A less.prems(1)] True obtain s' where t: "turn A s s'"
      by (subst (asm) prepare_loop.simps) (auto simp: turn_def split: sum.splits)
    have "0 < csp_num (lctx s)"
    proof -
      have "good_ctx (lctx s)" using visited_inv(1) [OF A less.prems(1)] True
        by (auto simp: loop_inv_def word_less_nat_alt)
      then show ?thesis using good_nonempty by fastforce
    qed
    note f = turn_forward [OF A less.prems(1) this t]
    have "lmem (vb_state A) a = lmem s' a"
      using less.prems(2) f(1) by (intro less.hyps [OF f(2) visited_turn [OF less.prems(1) t]]) simp
    then show ?thesis using f(4) less.prems(2) by simp
  qed
qed

lemma turn_code:
  assumes "validated A" "visited A s" "turn A s s'"
  shows "agree (lmem s') (lmem (vb_state A)) (lp s) (lp s')"
  using code_settled [OF assms(1) visited_turn [OF assms(2,3)]] by (simp add: agree_def)

lemma good_open: "good_ctx (lctx s) \<Longrightarrow> 0 < csp_num (lctx s)"
  using good_nonempty [of "lctx s"] by (auto simp: good_ctx_def dest: ctx_rel_hd)

text \<open>A turn with fewer blocks afterwards reads an \<open>end\<close>.\<close>

lemma closing_turn:
  assumes A: "validated A" and v: "visited A s" and t: "turn A s s'"
    and n: "csp_num (lctx s') < csp_num (lctx s)"
  shows "opcode_at s = 0x0b" "\<not> unfinished_if s" "closes (vb_end A) (fetched s) s'" "lp s' = lp s + 1"
    "lmem s' = lmem s" "csp_num (lctx s) = Suc (csp_num (lctx s'))"
proof -
  have pos: "0 < csp_num (lctx s)" using n by simp
  have "opcode_at s = 0x0b \<and> \<not> unfinished_if s \<and> closes (vb_end A) (fetched s) s' \<and> lp s' = lp s + 1 \<and> lmem s' = lmem s"
    using A v pos t
  proof (cases rule: turn_cases)
    case plain
    then show ?thesis using n by (simp add: same_blocks_def)
  next
    case (entering bt s2)
    then show ?thesis using n by (auto simp: opens_def)
  next
    case dividing
    then show ?thesis using n by (simp add: divides_def)
  next
    case half
    then show ?thesis using n by (simp add: divides_def)
  next
    case closing
    then show ?thesis by blast
  qed
  then show "opcode_at s = 0x0b" "\<not> unfinished_if s" "closes (vb_end A) (fetched s) s'" "lp s' = lp s + 1"
    "lmem s' = lmem s" "csp_num (lctx s) = Suc (csp_num (lctx s'))"
    by (simp_all add: closes_def)
qed

text \<open>The turn that closes the last block reads the last byte of the body.\<close>

lemma last_turn:
  assumes A: "validated A" and v: "visited A s" and t: "turn A s s'"
    and n: "0 < csp_num (lctx s)" "csp_num (lctx s') = 0"
  shows "lp s + 1 = vb_end A" "lmem (vb_state A) (lp s) = 0x0b"
proof -
  note c = closing_turn [OF A v t] and u = turn_at(2) [OF A v n(1)]
  from c(3) n have "\<not> lp s + 1 < vb_end A" by (simp add: closes_def)
  moreover have "lp s < vb_end A" using t by (simp add: turn_def)
  ultimately show "lp s + 1 = vb_end A" using u by (simp add: word_less_nat_alt word_unat_eq_iff)
  show "lmem (vb_state A) (lp s) = 0x0b"
    using code_settled [OF A visited_turn [OF v t], of "lp s"] c n u by simp
qed

lemma last_end:
  assumes A: "validated A"
  shows "visited A s \<Longrightarrow> 0 < csp_num (lctx s) \<Longrightarrow> lmem (vb_state A) (vb_end A - 1) = 0x0b"
proof (induction "loop_measure (vb_end A) s" arbitrary: s rule: less_induct)
  case less
  from A less.prems obtain s' where t: "turn A s s'" by (rule visited_open)
  show ?case
  proof (cases "0 < csp_num (lctx s')")
    case True
    from less.hyps [OF turn_forward(2) [OF A less.prems t] visited_turn [OF less.prems(1) t] True] show ?thesis .
  next
    case False
    with last_turn [OF A less.prems(1) t less.prems(2)] have "lp s + 1 = vb_end A" "lmem (vb_state A) (lp s) = 0x0b"
      by simp_all
    then show ?thesis by (metis add_diff_cancel_right')
  qed
qed

section \<open>States are told apart by their position\<close>

lemma reaches_trans:
  "prepare_reaches E M F e t u \<Longrightarrow> prepare_reaches E M F e s t \<Longrightarrow> prepare_reaches E M F e s u"
  by (induction rule: prepare_reaches.induct) (auto intro: prepare_next)

lemma reaches_first:
  assumes "prepare_reaches E M F e s t" "s \<noteq> t"
  obtains u where "lp s < e" "prepare_step E M F e s = Inr u" "prepare_reaches E M F e u t"
proof -
  have "s = t \<or> (\<exists>u. lp s < e \<and> prepare_step E M F e s = Inr u \<and> prepare_reaches E M F e u t)"
    using assms(1) by (induction rule: prepare_reaches.induct) (auto intro: prepare_reaches.intros)
  with assms(2) that show thesis by blast
qed

lemma reaches_linear:
  assumes "prepare_reaches E M F e s0 s" "prepare_reaches E M F e s0 t"
  shows "prepare_reaches E M F e s t \<or> prepare_reaches E M F e t s"
  using assms
proof (induction rule: prepare_reaches.induct)
  case (prepare_next s0 s u)
  from prepare_next.IH [OF prepare_next.prems] show ?case
  proof
    assume r: "prepare_reaches E M F e s t"
    show ?thesis
    proof (cases "s = t")
      case True
      then show ?thesis using prepare_next.hyps by (auto intro: prepare_reaches.intros)
    next
      case False
      with r obtain v where "prepare_step E M F e s = Inr v" "prepare_reaches E M F e v t"
        by (rule reaches_first)
      then show ?thesis using prepare_next.hyps(3) by simp
    qed
  next
    assume "prepare_reaches E M F e t s"
    then show ?thesis using prepare_next.hyps by (auto intro: prepare_reaches.prepare_next)
  qed
qed simp

lemma visited_linear:
  "visited A s \<Longrightarrow> visited A t \<Longrightarrow>
   prepare_reaches (vb_env A) (vb_module A) (vb_fun A) (vb_end A) s t \<or>
   prepare_reaches (vb_env A) (vb_module A) (vb_fun A) (vb_end A) t s"
  unfolding visited_def using reaches_linear by fastforce

lemma reaches_visited:
  assumes "prepare_reaches (vb_env A) (vb_module A) (vb_fun A) (vb_end A) s t" "visited A s"
  shows "visited A t"
  using assms by (auto simp: visited_def intro: reaches_trans)

text \<open>A turn that does not move forward is the first one at the \<open>end\<close> of an \<open>if\<close> without \<open>else\<close>, and the
  next one moves.\<close>

lemma standing_turn:
  assumes A: "validated A" and v: "visited A s" and n: "0 < csp_num (lctx s)" and t: "turn A s s'"
    and l: "lp s' = lp s"
  shows "unfinished_if s" "opcode_at s = 0x0b" "divides s s'"
proof -
  note u = turn_at(2) [OF A v n]
  then have "lp s + 1 \<noteq> lp s" by auto
  have "unfinished_if s \<and> opcode_at s = 0x0b \<and> divides s s'"
    using A v n t
    by (cases rule: turn_cases) (use l \<open>lp s + 1 \<noteq> lp s\<close> in auto)
  then show "unfinished_if s" "opcode_at s = 0x0b" "divides s s'" by blast+
qed

lemma reaches_forward:
  assumes A: "validated A"
    and "prepare_reaches (vb_env A) (vb_module A) (vb_fun A) (vb_end A) s t" "visited A s"
  shows "unat (lp s) \<le> unat (lp t)"
  using assms(2,3)
proof (induction rule: prepare_reaches.induct)
  case (prepare_next s t u)
  note vt = reaches_visited [OF prepare_next.hyps(1) prepare_next.prems]
  have tn: "turn A t u" using prepare_next.hyps by (simp add: turn_def)
  have "good_ctx (lctx t)"
    using visited_inv(1) [OF A vt] prepare_next.hyps(2) by (auto simp: loop_inv_def word_less_nat_alt)
  from turn_forward(1) [OF A vt good_open [OF this] tn] prepare_next.IH [OF prepare_next.prems] show ?case by simp
qed simp

lemma same_position:
  assumes A: "validated A" and v: "visited A s" "visited A t" and l: "lp s = lp t"
    and n: "0 < csp_num (lctx s)" "0 < csp_num (lctx t)"
    and e: "else_addr (top_block s) = 0" "else_addr (top_block t) = 0"
  shows "s = t"
proof -
  have no: "a = b" if v: "visited A a" "visited A b" and l: "lp a = lp b"
    and n: "0 < csp_num (lctx a)" "0 < csp_num (lctx b)" and e: "else_addr (top_block b) = 0"
    and r: "prepare_reaches (vb_env A) (vb_module A) (vb_fun A) (vb_end A) a b" for a b
  proof (rule ccontr)
    assume "a \<noteq> b"
    with r obtain u where t: "turn A a u"
      and ub: "prepare_reaches (vb_env A) (vb_module A) (vb_fun A) (vb_end A) u b"
      by (auto simp: turn_def elim: reaches_first)
    note vu = visited_turn [OF v(1) t]
    have "unat (lp u) \<le> unat (lp b)" by (rule reaches_forward [OF A ub vu])
    with turn_forward(1) [OF A v(1) n(1) t] l have lu: "lp u = lp a" by (simp add: word_unat_eq_iff)
    note st = standing_turn [OF A v(1) n(1) t lu]
    then have eu: "else_addr (top_block u) \<noteq> 0" and nu: "0 < csp_num (lctx u)" using n(1) by (simp_all add: divides_def)
    then have "u \<noteq> b" using e by auto
    with ub obtain w where t': "turn A u w"
      and wb: "prepare_reaches (vb_env A) (vb_module A) (vb_fun A) (vb_end A) w b"
      by (auto simp: turn_def elim: reaches_first)
    have "unat (lp w) \<le> unat (lp b)" by (rule reaches_forward [OF A wb visited_turn [OF vu t']])
    with turn_forward(1) [OF A vu nu t'] l lu have "lp w = lp u" by (simp add: word_unat_eq_iff)
    from standing_turn(1) [OF A vu nu t' this] eu show False by (simp add: unfinished_if_def)
  qed
  from visited_linear [OF v] no [OF v l n e(2)] no [OF v(2,1) l [symmetric] n(2,1) e(1)] show ?thesis by blast
qed

end
