(* ===== verification/Block_Search.thy ===== *)
theory Block_Search
  imports Block_Trace
begin

text \<open>
  \<^verbatim>\<open>wasm_loader_find_block_addr\<close> finds the \<open>else\<close> and the \<open>end\<close> that the validation has matched with
  the block, and keeps its cache truthful.
\<close>

section \<open>The end of a block\<close>

text \<open>\<open>s\<close> is a state with more than \<open>k\<close> blocks open. The block of level \<open>k\<close> is closed by the turn from
  \<open>se\<close>. If it is an \<open>if\<close> whose \<open>else\<close> is still to come, \<open>x\<close> is the position of the \<open>else\<close>, or nothing
  when there is none; the validation has then taken the \<open>end\<close> for an \<open>else\<close> first.\<close>

definition completes :: "ValidatedBody \<Rightarrow> nat \<Rightarrow> LoaderState \<Rightarrow> u32 option \<Rightarrow> LoaderState \<Rightarrow> bool" where
  "completes A k s x se \<longleftrightarrow>
     inside A k s se \<and> (\<exists>se'. turn A se se' \<and> csp_num (lctx se') = k) \<and>
     (if label_type (level_block k s) = LABEL_TYPE_IF \<and> else_addr (level_block k s) = 0
      then case x of
             None \<Rightarrow> \<exists>sh. inside A k s sh \<and> csp_num (lctx sh) = Suc k \<and> opcode_at sh = 0x0b \<and>
                       unfinished_if sh \<and> turn A sh se \<and> lp se = lp sh
           | Some a \<Rightarrow> \<exists>sx sx'. inside A k s sx \<and> csp_num (lctx sx) = Suc k \<and> opcode_at sx = 0x05 \<and>
                       lp sx = a \<and> turn A sx sx' \<and> inside A k sx' se
      else x = None)"

definition opened :: "ValidatedBody \<Rightarrow> nat \<Rightarrow> LoaderState \<Rightarrow> bool" where
  "opened A n so \<longleftrightarrow> visited A so \<and> csp_num (lctx so) = Suc n \<and> else_addr (top_block so) = 0"

definition found :: "ValidatedBody \<Rightarrow> nat \<Rightarrow> LoaderState \<Rightarrow> u32 \<Rightarrow> u32 \<Rightarrow> bool" where
  "found A n so e_else e_end \<longleftrightarrow>
     (\<exists>x se. completes A n so x se \<and> e_else = case_option 0 id x \<and> e_end = lp se)"

definition entry_ok :: "ValidatedBody \<Rightarrow> BlockAddr \<Rightarrow> bool" where
  "entry_ok A b \<longleftrightarrow> (\<exists>n so. opened A n so \<and> lp so = ba_start b \<and> found A n so (ba_else b) (ba_end b))"

lemma opened_unique:
  assumes A: "validated A" and o: "opened A n so" "opened A k t" and l: "lp so = lp t"
  shows "t = so" "k = n"
proof -
  show "t = so" using o l by (intro same_position [OF A]) (simp_all add: opened_def)
  then show "k = n" using o by (simp add: opened_def)
qed

lemma entry_ok_found:
  assumes "validated A" "entry_ok A b" "opened A n so" "lp so = ba_start b"
  shows "found A n so (ba_else b) (ba_end b)"
  using assms opened_unique [OF assms(1)] unfolding entry_ok_def by metis

lemma below_level:
  assumes "good_ctx (lctx s)" "good_ctx (lctx t)" "below (Suc k) t = below (Suc k) s" "k < csp_num (lctx s)"
    "k < csp_num (lctx t)"
  shows "level_block k t = level_block k s"
proof -
  have hd: "level_block k u = hd (below (Suc k) u)" if "good_ctx (lctx u)" "k < csp_num (lctx u)" for u
    using good_nonempty [OF that(1)] that(2) by (simp add: level_block_def below_def hd_drop_conv_nth)
  show ?thesis using hd [of s] hd [of t] assms by simp
qed

lemma completes_prefix:
  assumes c: "completes A k t x se" and i: "inside A k s t"
    and l: "label_type (level_block k t) = label_type (level_block k s)"
      "else_addr (level_block k t) = else_addr (level_block k s)"
  shows "completes A k s x se"
proof -
  have tr: "inside A k s u" if "inside A k t u" for u using inside_trans that i by blast
  from c have "inside A k t se" and e: "\<exists>se'. turn A se se' \<and> csp_num (lctx se') = k" by (simp_all add: completes_def)
  show ?thesis
  proof (cases "label_type (level_block k s) = LABEL_TYPE_IF \<and> else_addr (level_block k s) = 0")
    case False
    with c e l tr [OF \<open>inside A k t se\<close>] show ?thesis by (auto simp: completes_def)
  next
    case True
    note if_else = this
    show ?thesis
    proof (cases x)
      case None
      with c if_else l obtain sh where "inside A k t sh" "csp_num (lctx sh) = Suc k" "opcode_at sh = 0x0b"
        "unfinished_if sh" "turn A sh se" "lp se = lp sh" by (auto simp: completes_def)
      with e tr [OF \<open>inside A k t se\<close>] tr [of sh] if_else None show ?thesis by (auto simp: completes_def)
    next
      case (Some a)
      with c if_else l obtain sx sx' where "inside A k t sx" "csp_num (lctx sx) = Suc k" "opcode_at sx = 0x05"
        "lp sx = a" "turn A sx sx'" "inside A k sx' se" by (auto simp: completes_def)
      with e tr [OF \<open>inside A k t se\<close>] tr [of sx] if_else Some show ?thesis by (auto simp: completes_def)
    qed
  qed
qed

section \<open>The search follows the validation\<close>

definition settled :: "ValidatedBody \<Rightarrow> BlockAddr \<Rightarrow> bool" where
  "settled A b \<longleftrightarrow> ba_start b = 0 \<or> entry_ok A b"

text \<open>What the search has done when it is behind the \<open>end\<close> of the block it was in at depth \<open>d\<close>.\<close>

definition level_scanned ::
  "ValidatedBody \<Rightarrow> nat \<Rightarrow> u32 option \<Rightarrow> LoaderState \<Rightarrow> BlockAddr list \<Rightarrow> BlockAddr list \<Rightarrow> nat \<Rightarrow> bool" where
  "level_scanned A d x se bs bs' i \<longleftrightarrow>
     (i < d \<longrightarrow> bs' ! i = bs ! i) \<and>
     (i = d \<longrightarrow> bs' ! i = (bs ! i)\<lparr>ba_else := case_option (ba_else (bs ! i)) id x, ba_end := lp se\<rparr>) \<and>
     (d < i \<longrightarrow> (\<forall>j < length bs. d < j \<longrightarrow> settled A (bs ! j)) \<longrightarrow> settled A (bs' ! i))"

definition scanned :: "ValidatedBody \<Rightarrow> u8 \<Rightarrow> u32 option \<Rightarrow> LoaderState \<Rightarrow> ScanState \<Rightarrow> ScanState \<Rightarrow> bool" where
  "scanned A label x se sc sc' \<longleftrightarrow>
     (let d = scan_depth sc - 1; bs = scan_blocks sc; bs' = scan_blocks sc'
      in scan_p sc' = lp se + 1 \<and> scan_depth sc' = d \<and> length bs' = length bs \<and>
         scan_else sc' = (if label = LABEL_TYPE_IF \<and> d = 0 then case_option (scan_else sc) id x else scan_else sc) \<and>
         (\<forall>i < length bs. level_scanned A d x se bs bs' i))"

text \<open>The memory the interpreter reads holds the rewritten code of the body; elsewhere it is arbitrary.\<close>

definition in_place :: "ValidatedBody \<Rightarrow> cmem \<Rightarrow> bool" where
  "in_place A m \<longleftrightarrow> agree (lmem (vb_state A)) m (code (vb_fun A)) (vb_end A)"

abbreviation scan_on :: "cmem \<Rightarrow> u8 \<Rightarrow> ScanState \<Rightarrow> ScanState run" where
  "scan_on m label sc \<equiv> scan_loop m (- 1) label sc"

definition scan_result :: "ValidatedBody \<Rightarrow> cmem \<Rightarrow> u8 \<Rightarrow> LoaderState \<Rightarrow> ScanState \<Rightarrow> bool" where
  "scan_result A m label s sc \<longleftrightarrow> (\<exists>x se sc'. completes A (csp_num (lctx s) - 1) s x se \<and> scanned A label x se sc sc' \<and>
     scan_on m label sc = (if scan_depth sc' = 0 then done_with sc' else scan_on m label sc'))"

lemma turn_in_place:
  assumes A: "validated A" and v: "visited A s" and n: "0 < csp_num (lctx s)" and t: "turn A s s'"
    and m: "in_place A m" and q: "unat q \<le> unat (lp s')" "unat q \<le> unat (vb_end A)"
  shows "agree (lmem s') m (lp s) q"
proof -
  have "unat (code (vb_fun A)) \<le> unat (lp s)" using A v n by (metis visited_open)
  then show ?thesis using turn_code [OF A v t] m q by (simp add: agree_def in_place_def)
qed

lemma turn_setting:
  assumes A: "validated A" and v: "visited A s" and n: "0 < csp_num (lctx s)" and t: "turn A s s'" and m: "in_place A m"
    and f: "unat (lp s) < unat (lp s')" "unat (lp s') \<le> unat (vb_end A)"
  shows "scan_setting m (- 1) (fetched s) s'"
proof -
  have "unat (lp s') \<le> unat (- 1 :: u32)" using word_le_nat_alt by fastforce
  then show ?thesis
    using turn_in_place [OF A v n t m _ f(2)] turn_at(2) [OF A v n] f(1) by (simp add: scan_setting_def)
qed

lemma turn_byte:
  assumes A: "validated A" and v: "visited A s" and n: "0 < csp_num (lctx s)" and t: "turn A s s'" and m: "in_place A m"
    and f: "unat (lp s) < unat (lp s')" "lmem s' = lmem s"
  shows "m (lp s) = opcode_at s"
proof -
  have "lp s < vb_end A" using t by (simp add: turn_def)
  then have "agree (lmem s') m (lp s) (lp s + 1)"
    using turn_at(2) [OF A v n] f(1) by (intro turn_in_place [OF A v n t m]) (simp_all add: word_less_nat_alt)
  then show ?thesis using f(2) turn_at(2) [OF A v n] by (simp add: agree_def)
qed

lemma below_max: "p < (- 1 :: u32)" if "unat p < unat q" for p q :: u32
proof -
  have "unat q \<le> unat (- 1 :: u32)" using word_le_nat_alt by fastforce
  with that show ?thesis by (simp add: word_less_nat_alt)
qed

text \<open>A turn of the search and the rest of it, put together: the block of \<open>s\<close> is closed as that of \<open>s1\<close>.\<close>

lemma scan_result_step:
  assumes A: "validated A" and v: "visited A s" and n: "0 < csp_num (lctx s)" and i: "inside A (csp_num (lctx s) - 1) s s1"
    and c: "csp_num (lctx s1) = csp_num (lctx s)"
    and e: "else_addr (level_block (csp_num (lctx s) - 1) s1) = else_addr (level_block (csp_num (lctx s) - 1) s)"
    and r: "scan_result A m label s1 sc1" and on: "scan_on m label sc = scan_on m label sc1"
    and sc: "\<And>x se sc'. scanned A label x se sc1 sc' \<Longrightarrow> scanned A label x se sc sc'"
  shows "scan_result A m label s sc"
proof -
  from r obtain x se sc' where r': "completes A (csp_num (lctx s1) - 1) s1 x se" "scanned A label x se sc1 sc'"
    "scan_on m label sc1 = (if scan_depth sc' = 0 then done_with sc' else scan_on m label sc')"
    by (auto simp: scan_result_def)
  have "completes A (csp_num (lctx s) - 1) s x se"
    using inside_levels(1) [OF A i v] e r'(1) c by (intro completes_prefix [OF _ i]) (simp_all add: alike_def)
  with sc [OF r'(2)] r'(3) on show ?thesis unfolding scan_result_def by (intro exI conjI) auto
qed

text \<open>What the search does at the \<open>end\<close> it is at.\<close>

lemma scan_at_end:
  assumes "m (scan_p sc) = 0x0b" "scan_p sc < - 1" "scan_depth sc \<noteq> 0" "scan_p sc = lp se"
  shows "scan_on m label sc = (let sc' = scan_close (lp se + 1) sc
      in if scan_depth sc' = 0 then done_with sc' else scan_on m label sc')"
    "scanned A label None se sc (scan_close (lp se + 1) sc)"
proof -
  have "scan_op m (- 1) label (m (scan_p sc)) (scan_p sc + 1) sc =
      done_with (scan_close (lp se + 1) sc)"
    using assms by (simp add: scan_op_def EXT_OP_BLOCK_def EXT_OP_LOOP_def EXT_OP_IF_def)
  from scan_loop_turn [OF assms(2) this] show "scan_on m label sc = (let sc' = scan_close (lp se + 1) sc
      in if scan_depth sc' = 0 then done_with sc' else scan_on m label sc')" by (simp add: Let_def)
  show "scanned A label None se sc (scan_close (lp se + 1) sc)"
    using assms(3) by (auto simp: scanned_def level_scanned_def scan_close_def Let_def nth_list_update)
qed

lemma scan_at_else:
  assumes "m (scan_p sc) = 0x05" "scan_p sc < - 1" "scan_depth sc \<noteq> 0" "scan_p sc = lp sx"
  shows "scan_on m label sc = scan_on m label (scan_else_op label (lp sx + 1) sc)"
    "scanned A label None se (scan_else_op label (lp sx + 1) sc) sc' \<Longrightarrow> scanned A label (Some (lp sx)) se sc sc'"
proof -
  have "scan_op m (- 1) label (m (scan_p sc)) (scan_p sc + 1) sc =
      done_with (scan_else_op label (lp sx + 1) sc)"
    using assms by (simp add: scan_op_def EXT_OP_BLOCK_def EXT_OP_LOOP_def EXT_OP_IF_def)
  from scan_loop_turn [OF assms(2) this] show "scan_on m label sc = scan_on m label (scan_else_op label (lp sx + 1) sc)"
    using assms(3) by (simp add: scan_else_op_def Let_def)
  assume "scanned A label None se (scan_else_op label (lp sx + 1) sc) sc'"
  then show "scanned A label (Some (lp sx)) se sc sc'"
    using assms(3) by (auto simp: scanned_def level_scanned_def scan_else_op_def Let_def nth_list_update split: if_splits)
qed

lemma completes_end:
  assumes "visited A s" "csp_num (lctx s) = Suc k" "turn A s s'" "csp_num (lctx s') = k"
    "good_ctx (lctx s)" "\<not> unfinished_if s"
  shows "completes A k s None s"
  using assms level_block_top [OF assms(5,2)] by (auto simp: completes_def unfinished_if_def intro: inside_refl)

lemma completes_else:
  assumes A: "validated A" and v: "visited A s" and n: "csp_num (lctx s) = Suc k" and t: "turn A s s1"
    and o: "opcode_at s = 0x05" and d: "divides s s1" and c: "completes A k s1 x se" and g: "good_ctx (lctx s)" "good_ctx (lctx s1)"
  shows "x = None" "completes A k s (Some (lp s)) se"
proof -
  have n1: "csp_num (lctx s1) = Suc k" using d n by (simp add: divides_def)
  note l = level_block_top [OF g(1) n] level_block_top [OF g(2) n1]
  show "x = None" using c d l by (simp add: completes_def divides_def)
  have i: "inside A k s s1" using inside_next [OF inside_refl t] n n1 by simp
  have "inside A k s1 se" "\<exists>se'. turn A se se' \<and> csp_num (lctx se') = k" using c by (simp_all add: completes_def)
  moreover have "label_type (level_block k s) = LABEL_TYPE_IF \<and> else_addr (level_block k s) = 0"
    using l d by (simp add: divides_def)
  moreover have "\<exists>sx sx'. inside A k s sx \<and> csp_num (lctx sx) = Suc k \<and> opcode_at sx = 0x05 \<and>
      lp sx = lp s \<and> turn A sx sx' \<and> inside A k sx' se"
    using n t o \<open>inside A k s1 se\<close> by (intro exI [of _ s] exI [of _ s1]) (simp add: inside_refl)
  ultimately show "completes A k s (Some (lp s)) se"
    using inside_trans [OF \<open>inside A k s1 se\<close> i] by (simp add: completes_def)
qed

lemma completes_half:
  assumes n: "csp_num (lctx s) = Suc k" and t: "turn A s s1" and o: "opcode_at s = 0x0b" and u: "unfinished_if s"
    and d: "divides s s1" "lp s1 = lp s" and e: "turn A s1 s2" "csp_num (lctx s2) = k" and g: "good_ctx (lctx s)"
  shows "completes A k s None s1"
proof -
  have n1: "csp_num (lctx s1) = Suc k" using d n by (simp add: divides_def)
  have i: "inside A k s s1" using inside_next [OF inside_refl t] n n1 by simp
  moreover have "\<exists>sh. inside A k s sh \<and> csp_num (lctx sh) = Suc k \<and> opcode_at sh = 0x0b \<and>
      unfinished_if sh \<and> turn A sh s1 \<and> lp s1 = lp sh"
    using n t o u d by (intro exI [of _ s]) (simp add: inside_refl)
  moreover have "\<exists>se'. turn A s1 se' \<and> csp_num (lctx se') = k" using e by blast
  moreover have "label_type (level_block k s) = LABEL_TYPE_IF \<and> else_addr (level_block k s) = 0"
    using level_block_top [OF g n] u by (simp add: unfinished_if_def)
  ultimately show ?thesis by (simp add: completes_def)
qed

lemma inside_one:
  "turn A s t \<Longrightarrow> k < csp_num (lctx s) \<Longrightarrow> k < csp_num (lctx t) \<Longrightarrow> inside A k s t"
  using inside_next [OF inside_refl] by blast

lemma scanned_jump: "scanned A label x se (sc\<lparr>scan_p := p\<rparr>) sc' = scanned A label x se sc sc'"
  by (cases x) (simp_all add: scanned_def Let_def)

text \<open>A block inside the one searched for: the two searches, one after the other.\<close>

lemma scanned_nested:
  assumes in1: "scanned A label y te (scan_open p sc) sc1" and in2: "scanned A label x se sc1 sc2"
    and d: "scan_depth sc \<noteq> 0"
    and ok: "settled A \<lparr>ba_start = p, ba_else = case_option 0 id y, ba_end = lp te\<rparr>"
  shows "scanned A label x se sc sc2"
proof -
  let ?d = "scan_depth sc" and ?bs = "scan_blocks sc" and ?b1 = "scan_blocks sc1"
  let ?bo = "scan_blocks (scan_open p sc)"
  have bo: "length ?bo = length ?bs" "\<And>i. i < length ?bs \<Longrightarrow> ?bo ! i = (if i = ?d then (?bs ! i)\<lparr>ba_start := p, ba_else := 0\<rparr> else ?bs ! i)"
    by (simp_all add: scan_open_def Let_def nth_list_update)
  have so: "scan_depth (scan_open p sc) = Suc ?d" "scan_else (scan_open p sc) = scan_else sc"
    by (simp_all add: scan_open_def Let_def)
  from in1 have s1: "scan_depth sc1 = ?d" "length ?b1 = length ?bs" "scan_else sc1 = scan_else sc"
    and b1: "\<And>i. i < length ?bs \<Longrightarrow> level_scanned A ?d y te ?bo ?b1 i"
    using d by (simp_all add: scanned_def Let_def bo(1) so)
  have low: "?b1 ! i = ?bs ! i" if "i < length ?bs" "i < ?d" for i
    using b1 [OF that(1)] bo(2) [OF that(1)] that(2) by (simp add: level_scanned_def)
  have high: "settled A (?b1 ! j)"
    if j: "j < length ?bs" "?d - 1 < j" and all: "\<forall>j < length ?bs. ?d - 1 < j \<longrightarrow> settled A (?bs ! j)" for j
  proof (cases "j = ?d")
    case True
    have "?b1 ! j = \<lparr>ba_start = p, ba_else = case_option 0 id y, ba_end = lp te\<rparr>"
      using b1 [OF j(1)] bo(2) [OF j(1)] True by (cases y) (simp_all add: level_scanned_def)
    with ok show ?thesis by simp
  next
    case False
    then have "?d < j" using j(2) by simp
    moreover have "\<forall>j < length ?bo. ?d < j \<longrightarrow> settled A (?bo ! j)" using all bo by simp
    ultimately show ?thesis using b1 [OF j(1)] by (simp add: level_scanned_def)
  qed
  from in2 have s2: "scan_p sc2 = lp se + 1" "scan_depth sc2 = ?d - 1" "length (scan_blocks sc2) = length ?bs"
    "scan_else sc2 = (if label = LABEL_TYPE_IF \<and> ?d - 1 = 0 then case_option (scan_else sc) id x else scan_else sc)"
    and b2: "\<And>i. i < length ?bs \<Longrightarrow> level_scanned A (?d - 1) x se ?b1 (scan_blocks sc2) i"
    using s1 by (cases x; simp add: scanned_def Let_def)+
  have "level_scanned A (?d - 1) x se ?bs (scan_blocks sc2) i" if i: "i < length ?bs" for i
    unfolding level_scanned_def
  proof (intro conjI impI)
    assume "i < ?d - 1"
    then show "scan_blocks sc2 ! i = ?bs ! i" using b2 [OF i] low [OF i] by (simp add: level_scanned_def)
  next
    assume "i = ?d - 1"
    then show "scan_blocks sc2 ! i = (?bs ! i)\<lparr>ba_else := case_option (ba_else (?bs ! i)) id x, ba_end := lp se\<rparr>"
      using b2 [OF i] low [OF i] d by (cases x) (simp_all add: level_scanned_def)
  next
    assume "?d - 1 < i" "\<forall>j < length ?bs. ?d - 1 < j \<longrightarrow> settled A (?bs ! j)"
    then show "settled A (scan_blocks sc2 ! i)" using b2 [OF i] high s1(2) by (simp add: level_scanned_def)
  qed
  then show ?thesis using s2 by (simp add: scanned_def Let_def)
qed

text \<open>The state behind an opening opcode, and behind the matching \<open>end\<close>.\<close>

lemma opens_opened:
  assumes A: "validated A" and v: "visited A s" and t: "turn A s s1" and o: "opens op bt s s1" and n: "csp_num (lctx s) = Suc k"
  shows "opened A (Suc k) s1" "csp_num (lctx s1) = Suc (Suc k)"
  using visited_turn [OF v t] o n by (auto simp: opened_def opens_def)

lemma completes_next:
  assumes "completes A k s x se"
  obtains se' where "turn A se se'" "csp_num (lctx se') = k" "inside A k s se"
  using assms by (auto simp: completes_def)

lemma completes_inside: "completes A k s x se \<Longrightarrow> inside A k s se"
  by (simp add: completes_def)

lemma inside_measure:
  assumes A: "validated A" and i: "inside A k s t" and v: "visited A s"
  shows "loop_measure (vb_end A) t \<le> loop_measure (vb_end A) s"
  using i v
proof (induction rule: inside.induct)
  case (inside_next s t u)
  have "0 < csp_num (lctx t)" using inside_csp [OF inside_next.hyps(1)] by simp
  from turn_forward(2) [OF A inside_visited [OF inside_next.hyps(1) inside_next.prems] this inside_next.hyps(2)]
    inside_next.IH [OF inside_next.prems] show ?case by simp
qed simp

lemma good_at: "validated A \<Longrightarrow> visited A s \<Longrightarrow> 0 < csp_num (lctx s) \<Longrightarrow> good_ctx (lctx s)"
  by (rule visited_open) blast+

text \<open>A nested block leaves the block around it as it was.\<close>

lemma nested_level:
  assumes A: "validated A" and v: "visited A s" and n: "csp_num (lctx s) = Suc k"
    and t: "turn A s s1" "csp_num (lctx s1) = Suc (Suc k)" and c: "completes A (Suc k) s1 y te"
    and e: "turn A te te'" "csp_num (lctx te') = Suc k"
  shows "inside A k s te'" "level_block k te' = level_block k s" "visited A te'"
    "loop_measure (vb_end A) te' < loop_measure (vb_end A) s"
proof -
  have i1: "inside A (Suc k) s1 te" using c by (simp add: completes_def)
  have v1: "visited A s1" by (rule visited_turn [OF v t(1)])
  have vte: "visited A te" by (rule inside_visited [OF i1 v1])
  have nte: "Suc k < csp_num (lctx te)" by (rule inside_csp [OF i1])
  show vte': "visited A te'" by (rule visited_turn [OF vte e(1)])
  have "inside A k s te" using inside_one [OF t(1)] n t(2) inside_trans [OF inside_weaken [OF i1]] by simp
  then show ins: "inside A k s te'" using inside_next [OF _ e(1)] e(2) by simp
  have pos: "0 < csp_num (lctx s)" using n by simp
  have b1: "below (Suc k) s1 = below (Suc k) s"
  proof -
    have good: "good_ctx (lctx s)" by (rule good_at [OF A v pos])
    show ?thesis using A v pos t(1)
    proof (cases rule: turn_cases)
      case (entering bt s2)
      then show ?thesis using n t(2) good_nonempty [OF good] by (auto simp: opens_def below_def)
    qed (use n t(2) in \<open>auto simp: same_blocks_def divides_def closes_def\<close>)
  qed
  have b2: "below (Suc k) te = below (Suc k) s1" by (rule inside_levels(2) [OF A i1 v1])
  have b3: "below (Suc k) te' = below (Suc k) te"
  proof -
    note cl = closing_turn [OF A vte e(1)]
    have lt: "csp_num (lctx te') < csp_num (lctx te)" using nte e(2) by simp
    from cl(3) [OF lt] cl(6) [OF lt] e(2) show ?thesis by (simp add: closes_def below_def drop_Suc)
  qed
  have pos': "0 < csp_num (lctx te')" using e(2) by simp
  show "level_block k te' = level_block k s"
    using below_level [OF good_at [OF A v pos] good_at [OF A vte' pos']] b1 b2 b3 n e(2) by simp
  have "0 < csp_num (lctx te)" using nte by simp
  from turn_forward(2) [OF A vte this e(1)] turn_forward(2) [OF A v pos t(1)] inside_measure [OF A i1 v1]
  show "loop_measure (vb_end A) te' < loop_measure (vb_end A) s" by simp
qed

lemma scan_follows:
  assumes A: "validated A" and m: "in_place A m"
  shows "visited A s \<Longrightarrow> 0 < csp_num (lctx s) \<Longrightarrow> scan_p sc = lp s \<Longrightarrow> scan_depth sc \<noteq> 0 \<Longrightarrow>
    scan_result A m label s sc"
proof (induction "loop_measure (vb_end A) s" arbitrary: s sc rule: less_induct)
  case less
  note v = less.prems(1) and n = less.prems(2) and p = less.prems(3) and d = less.prems(4)
  have good: "good_ctx (lctx s)" by (rule good_at [OF A v n])
  obtain k where k: "csp_num (lctx s) = Suc k" using n by (cases "csp_num (lctx s)") simp_all
  from A v n obtain s1 where t: "turn A s s1" by (rule visited_open) blast
  note v1 = visited_turn [OF v t] and f = turn_forward [OF A v n t] and u = turn_at(2) [OF A v n]
  have lim: "scan_p sc < - 1" using below_max [of "lp s" "lp s + 1"] u p by simp
  show ?case using A v n t
  proof (cases rule: turn_cases)
    case plain
    have n1: "csp_num (lctx s1) = csp_num (lctx s)" using plain(2) by (simp add: same_blocks_def)
    then have g1: "good_ctx (lctx s1)" using good_at [OF A v1] n by simp
    have i: "inside A k s s1" using inside_one [OF t] n1 k by simp
    have el: "else_addr (level_block k s1) = else_addr (level_block k s)"
      using level_block_top [OF good k] level_block_top [OF g1] n1 k plain(2) by (simp add: same_blocks_def)
    have lt: "lp s1 < vb_end A" using visited_open [OF A v1] n n1 by metis
    have le: "unat (lp s1) \<le> unat (vb_end A)" using lt by (simp add: word_less_nat_alt)
    have pe: "unat (vb_end A - 1) + 1 = unat (vb_end A)" "unat (lp s1) \<le> unat (vb_end A - 1)"
      using lt unat_pred [of "vb_end A"] by (simp_all add: word_less_nat_alt)
    have cl: "unat (code (vb_fun A)) \<le> unat (lp s1)" using visited_open [OF A v1] n n1 by metis
    have "m (vb_end A - 1) = lmem (vb_state A) (vb_end A - 1)"
      using m pe cl by (simp add: in_place_def agree_def)
    have "jumps m (- 1) (lp (fetched s) - 1) (lp s1)"
    proof (rule instruction_jumps [OF turn_setting [OF A v n t m plain(3) le] turn_opcode [OF t]])
      show "m (vb_end A - 1) \<noteq> WASM_OP_NOP"
        using last_end [OF A v n] \<open>m (vb_end A - 1) = lmem (vb_state A) (vb_end A - 1)\<close> by (simp add: WASM_OP_NOP_def)
      show "unat (lp s1) \<le> unat (vb_end A - 1)" "unat (vb_end A - 1) < unat (- 1 :: u32)"
        using pe below_max [of "vb_end A - 1" "vb_end A"] by (simp_all add: word_less_nat_alt)
    qed (use plain(1) in simp_all)
    then have on: "scan_on m label sc = scan_on m label (sc\<lparr>scan_p := lp s1\<rparr>)" using p d by (simp add: jumps_def)
    have "scan_result A m label s1 (sc\<lparr>scan_p := lp s1\<rparr>)"
      using n n1 d by (intro less.hyps [OF f(2) v1]) simp_all
    from scan_result_step [OF A v n _ n1 _ this on] i el k show ?thesis by (simp add: scanned_jump)
  next
    case (entering bt s2)
    note o = opens_opened [OF A v t entering(2) k]
    have n1: "0 < csp_num (lctx s1)" using o(2) by simp
    let ?so = "scan_open (lp s1) sc"
    have "lp s1 < vb_end A" using visited_open [OF A v1 n1] by blast
    then have le: "unat (lp s1) \<le> unat (vb_end A)" by (simp add: word_less_nat_alt)
    have on: "scan_on m label sc = scan_on m label ?so"
      using p entering(1) by (intro block_turn [OF turn_setting [OF A v n t m entering(5) le] _ entering(1,3,4)]) simp_all
    have "scan_result A m label s1 ?so"
      using n1 by (intro less.hyps [OF f(2) v1]) (simp_all add: scan_open_def Let_def)
    then obtain y te sc1 where y: "completes A (Suc k) s1 y te" "scanned A label y te ?so sc1"
      "scan_on m label ?so = (if scan_depth sc1 = 0 then done_with sc1 else scan_on m label sc1)"
      using o(2) by (auto simp: scan_result_def)
    obtain te' where e: "turn A te te'" "csp_num (lctx te') = Suc k" by (rule completes_next [OF y(1)])
    note nest = nested_level [OF A v k t o(2) y(1) e]
    have d1: "scan_depth sc1 = scan_depth sc" "scan_p sc1 = lp te + 1"
      using y(2) by (simp_all add: scanned_def scan_open_def Let_def)
    have "csp_num (lctx te) > Suc k" using y(1) inside_csp by (auto simp: completes_def)
    then have lpte: "lp te' = lp te + 1"
      using closing_turn(4) [OF A inside_visited [OF completes_inside [OF y(1)] v1] e(1)] e(2) by simp
    have on2: "scan_on m label sc = scan_on m label sc1" using on y(3) d1(1) d by simp
    have ok: "settled A \<lparr>ba_start = lp s1, ba_else = case_option 0 id y, ba_end = lp te\<rparr>"
      unfolding settled_def entry_ok_def found_def using o(1) y(1) by fastforce
    have r: "scan_result A m label te' sc1"
      using e(2) lpte d1 d by (intro less.hyps [OF nest(4) nest(3)]) simp_all
    show ?thesis
      by (rule scan_result_step [OF A v n _ _ _ r on2 scanned_nested [OF y(2) _ d ok]]) (use nest k e in simp_all)
  next
    case dividing
    have n1: "csp_num (lctx s1) = Suc k" using dividing(2) k by (simp add: divides_def)
    have b: "m (scan_p sc) = 0x05"
      using turn_byte [OF A v n t m _ dividing(4)] dividing(1,3) u p by simp
    note on = scan_at_else [where m = m, OF b lim d p]
    have "scan_result A m label s1 (scan_else_op label (lp s + 1) sc)"
      using n1 dividing(3) d by (intro less.hyps [OF f(2) v1]) (simp_all add: scan_else_op_def Let_def)
    then obtain x se sc' where x: "completes A k s1 x se" "scanned A label x se (scan_else_op label (lp s + 1) sc) sc'"
      "scan_on m label (scan_else_op label (lp s + 1) sc) = (if scan_depth sc' = 0 then done_with sc' else scan_on m label sc')"
      using n1 by (auto simp: scan_result_def)
    have g1: "good_ctx (lctx s1)" using good_at [OF A v1] n1 by simp
    note c = completes_else [OF A v k t dividing(1,2) x(1) good g1]
    show ?thesis
      unfolding scan_result_def using c(2) on x k unfolding c(1) by (intro exI [of _ "Some (lp s)"] exI conjI) auto
  next
    case half
    have n1: "csp_num (lctx s1) = Suc k" using half(3) k by (simp add: divides_def)
    from A v1 n1 obtain s2 where t2: "turn A s1 s2" by (metis visited_open zero_less_Suc)
    have "opcode_at s1 = 0x0b" "\<not> unfinished_if s1"
      using half by (simp_all add: divides_def unfinished_if_def)
    moreover have "0 < csp_num (lctx s1)" using n1 by simp
    ultimately have cl: "closes (vb_end A) (fetched s1) s2" "lp s2 = lp s1 + 1" "lmem s2 = lmem s1"
      using A v1 t2 by (auto elim: turn_cases)
    have e: "csp_num (lctx s2) = k" using cl(1) n1 by (simp add: closes_def)
    have b: "m (scan_p sc) = 0x0b"
      using turn_byte [OF A v1 _ t2 m _ cl(3)] cl(2) n1 half(4,5) \<open>opcode_at s1 = 0x0b\<close> u p by simp
    have p1: "scan_p sc = lp s1" using p half(4) by simp
    note on = scan_at_end [where m = m, OF b lim d p1]
    show ?thesis
      unfolding scan_result_def
      using completes_half [OF k t half(1,2,3,4) t2 e good] on k by (intro exI conjI) (auto simp: Let_def)
  next
    case closing
    have e: "csp_num (lctx s1) = k" using closing(3) k by (simp add: closes_def)
    have b: "m (scan_p sc) = 0x0b"
      using turn_byte [OF A v n t m _ closing(5)] closing(1,4) u p by simp
    note on = scan_at_end [where m = m, OF b lim d p]
    show ?thesis
      unfolding scan_result_def
      using completes_end [OF v k t e good closing(2)] on k by (intro exI conjI) (auto simp: Let_def)
  qed
qed

section \<open>The search and its cache\<close>

text \<open>The cache is shared by all bodies: an entry is trusted if it is right or not about this body.\<close>

definition trusted :: "ValidatedBody \<Rightarrow> BlockAddr \<Rightarrow> bool" where
  "trusted A b \<longleftrightarrow> (unat (code (vb_fun A)) \<le> unat (ba_start b) \<and> unat (ba_start b) < unat (vb_end A) \<longrightarrow> entry_ok A b)"

lemma entry_trusted: "entry_ok A b \<Longrightarrow> trusted A b"
  by (simp add: trusted_def)

definition cache_ok :: "ValidatedBody \<Rightarrow> BlockAddr list \<Rightarrow> bool" where
  "cache_ok A cache \<longleftrightarrow> length cache = BLOCK_ADDR_CONFLICT_SIZE * BLOCK_ADDR_CACHE_SIZE \<and> list_all (trusted A) cache"

lemma cache_line_less:
  "cache_line a + 1 < BLOCK_ADDR_CONFLICT_SIZE * BLOCK_ADDR_CACHE_SIZE"
proof -
  have "a AND 63 \<le> (63 :: u32)" by (rule word_and_le1)
  then have "unat (a AND 63) \<le> 63" by (simp add: word_le_nat_alt)
  then show ?thesis by (simp add: cache_line_def BLOCK_ADDR_CONFLICT_SIZE_def BLOCK_ADDR_CACHE_SIZE_def)
qed

lemma cache_start_ok:
  "validated A \<Longrightarrow> cache_ok A (replicate (BLOCK_ADDR_CONFLICT_SIZE * BLOCK_ADDR_CACHE_SIZE) no_block)"
  by (auto simp: cache_ok_def trusted_def no_block_def list_all_length validated_def)

lemma cache_lookup_ok:
  assumes "cache_ok A cache" "cache_lookup cache start = Some b"
    and "unat (code (vb_fun A)) \<le> unat start" "unat start < unat (vb_end A)"
  shows "entry_ok A b" "ba_start b = start"
proof -
  have l: "cache_line start < length cache" "cache_line start + 1 < length cache"
    using cache_line_less [of start] assms(1) by (simp_all add: cache_ok_def)
  have "b = cache ! cache_line start \<or> b = cache ! (cache_line start + 1)" "ba_start b = start"
    using assms(2) by (auto simp: cache_lookup_def Let_def split: if_splits)
  then have "b \<in> set cache" "ba_start b = start" using nth_mem [OF l(1)] nth_mem [OF l(2)] by auto
  then show "entry_ok A b" "ba_start b = start"
    using assms(1,3,4) by (auto simp: cache_ok_def trusted_def list_all_iff)
qed

lemma cache_insert_ok: "cache_ok B cache \<Longrightarrow> trusted B b \<Longrightarrow> cache_ok B (cache_insert b cache)"
  using cache_line_less [of "ba_start b"]
  by (auto simp: cache_ok_def cache_insert_def Let_def list_all_length nth_list_update)

lemma cache_insert_all_ok:
  "cache_ok B cache \<Longrightarrow> list_all (settled A) bs \<Longrightarrow> (\<And>b. entry_ok A b \<Longrightarrow> trusted B b) \<Longrightarrow>
   cache_ok B (cache_insert_all bs cache)"
  by (induction bs cache rule: cache_insert_all.induct) (auto simp: cache_insert_ok settled_def)

lemma opened_range:
  assumes "validated A" "opened A n so"
  shows "unat (code (vb_fun A)) \<le> unat (lp so)" "unat (lp so) < unat (vb_end A)"
  using assms visited_open [of A so] by (fastforce simp: opened_def word_less_nat_alt)+

text \<open>What is right about one body says nothing about another one elsewhere.\<close>

lemma entry_elsewhere:
  assumes "validated A" "unat (vb_end A) \<le> unat (code (vb_fun B)) \<or> unat (vb_end B) \<le> unat (code (vb_fun A))"
    and "entry_ok A b"
  shows "trusted B b"
proof -
  from assms(3) obtain n so where "opened A n so" "lp so = ba_start b" by (auto simp: entry_ok_def)
  with opened_range [OF assms(1)] assms(2) show ?thesis by (fastforce simp: trusted_def)
qed

text \<open>A freshly searched block: the answer is what the validation has matched, and all that goes into the
  cache is right.\<close>

lemma fresh_search:
  assumes A: "validated A" and m: "in_place A m" and o: "opened A n so"
    and label: "label = LABEL_TYPE_IF \<longleftrightarrow> label_type (top_block so) = LABEL_TYPE_IF"
  shows "\<exists>sc. scan_on m label (scan_start (lp so)) = done_with sc \<and>
    found A n so (if label = LABEL_TYPE_IF then scan_else sc else 0) (scan_p sc - 1) \<and>
    list_all (settled A) (scan_blocks sc)"
proof -
  have v: "visited A so" and n: "csp_num (lctx so) = Suc n" using o by (simp_all add: opened_def)
  have g: "good_ctx (lctx so)" using good_at [OF A v] n by simp
  let ?sc = "scan_start (lp so)"
  have s0: "scan_p ?sc = lp so" "scan_depth ?sc = 1" "scan_else ?sc = 0" "length (scan_blocks ?sc) = 16"
    "scan_blocks ?sc ! 0 = no_block\<lparr>ba_start := lp so\<rparr>"
    by (simp_all add: scan_start_def)
  have z: "scan_blocks ?sc ! j = no_block" if "0 < j" "j < 16" for j
    using that by (cases j) (simp_all add: scan_start_def)
  have "scan_result A m label so ?sc" using scan_follows [OF A m v] n s0(1,2) by simp
  then obtain x se sc where c: "completes A n so x se" and s: "scanned A label x se ?sc sc"
    and r: "scan_on m label ?sc = (if scan_depth sc = 0 then done_with sc else scan_on m label sc)"
    using n by (auto simp: scan_result_def)
  have sc: "scan_p sc = lp se + 1" "scan_depth sc = 0" "length (scan_blocks sc) = 16"
    "scan_else sc = (if label = LABEL_TYPE_IF then case_option 0 id x else 0)"
    and lv: "\<And>i. i < 16 \<Longrightarrow> level_scanned A 0 x se (scan_blocks ?sc) (scan_blocks sc) i"
    using s s0 by (cases x; simp add: scanned_def Let_def)+
  have x: "x = None" if "label \<noteq> LABEL_TYPE_IF"
    using c label that level_block_top [OF g n] by (simp add: completes_def)
  have f: "found A n so (case_option 0 id x) (lp se)" using c unfolding found_def by blast
  have "settled A (scan_blocks sc ! i)" if i: "i < 16" for i
  proof (cases "i = 0")
    case True
    have "scan_blocks sc ! 0 = \<lparr>ba_start = lp so, ba_else = case_option 0 id x, ba_end = lp se\<rparr>"
      using lv [of 0] s0(5) by (cases x) (simp_all add: level_scanned_def no_block_def)
    with f o True show ?thesis by (auto simp: settled_def entry_ok_def)
  next
    case False
    have "\<forall>j < length (scan_blocks ?sc). 0 < j \<longrightarrow> settled A (scan_blocks ?sc ! j)"
      using z s0(4) by (simp add: settled_def no_block_def)
    with lv [OF i] False show ?thesis by (simp add: level_scanned_def)
  qed
  then have "list_all (settled A) (scan_blocks sc)" using sc(3) by (simp add: list_all_length)
  moreover have "found A n so (if label = LABEL_TYPE_IF then scan_else sc else 0) (scan_p sc - 1)"
    using f sc(1,4) x by auto
  ultimately show ?thesis using r sc(2) by auto
qed

lemma find_block_addr_found:
  assumes A: "validated A" and m: "in_place A m" and o: "opened A n so" and c: "cache_ok A cache"
    and label: "label = LABEL_TYPE_IF \<longleftrightarrow> label_type (top_block so) = LABEL_TYPE_IF"
  shows "\<exists>e_else e_end cache'. wasm_loader_find_block_addr m cache (lp so) (- 1) label =
      done_with (e_else, e_end, cache') \<and> found A n so e_else e_end \<and>
      (\<forall>B. (\<forall>b. entry_ok A b \<longrightarrow> trusted B b) \<longrightarrow> cache_ok B cache \<longrightarrow> cache_ok B cache')"
proof (cases "cache_lookup cache (lp so)")
  case (Some b)
  from cache_lookup_ok [OF c Some opened_range [OF A o]] have "found A n so (ba_else b) (ba_end b)"
    using entry_ok_found [OF A _ o] by simp
  then show ?thesis using Some by (auto simp: wasm_loader_find_block_addr_def)
next
  case None
  from fresh_search [OF A m o label] obtain sc where sc: "scan_on m label (scan_start (lp so)) = done_with sc"
    "found A n so (if label = LABEL_TYPE_IF then scan_else sc else 0) (scan_p sc - 1)"
    "list_all (settled A) (scan_blocks sc)" by blast
  have "wasm_loader_find_block_addr m cache (lp so) (- 1) label =
      done_with (if label = LABEL_TYPE_IF then scan_else sc else 0, scan_p sc - 1, cache_insert_all (scan_blocks sc) cache)"
    using None sc(1) by (simp add: wasm_loader_find_block_addr_def)
  with sc(2) cache_insert_all_ok [OF _ sc(3)] show ?thesis by blast
qed

section \<open>A small function with an \<open>if\<close>\<close>

text \<open>\<^verbatim>\<open>i32.const 1; if; else; end; i32.const 7; end\<close>\<close>

definition branching_code :: cmem where
  "branching_code = mem_of 0x1000 [0x41, 1, 0x04, 0x40, 0x05, 0x0b, 0x41, 7, 0x0b]"

definition branching_function :: WASMFunction where
  "branching_function = tiny_function\<lparr>code_size := 9\<rparr>"

definition branching_state :: "u32 \<Rightarrow> BranchBlock list \<Rightarrow> u8 list \<Rightarrow> nat \<Rightarrow> nat \<Rightarrow> LoaderState" where
  "branching_state p bs cells ms mc =
     \<lparr>lctx = \<lparr>frame_ref = cells, frame_ref_size = 32, stack_cell_num = length cells, max_stack_cell_num = ms,
        frame_csp = bs, frame_csp_size = sizeof_BranchBlock * 8, csp_num = length bs, max_csp_num = mc\<rparr>,
      lp = p, lmem = branching_code, br_table_caches = [], possible_memory_grow = False\<rparr>"

definition function_block :: BranchBlock where
  "function_block = new_block LABEL_TYPE_FUNCTION (Type_index (func_type tiny_function)) 0x1000 0"

definition if_block :: BranchBlock where
  "if_block = new_block LABEL_TYPE_IF (Value_type 0x40) 0x1004 0"

lemma branching_bytes:
  "branching_code 0x1000 = 0x41" "branching_code 0x1002 = 0x04" "branching_code 0x1003 = 0x40" "branching_code 0x1004 = 0x05"
  "branching_code 0x1005 = 0x0b" "branching_code 0x1006 = 0x41" "branching_code 0x1008 = 0x0b"
  "read_leb_int32 branching_code 0x1001 0x1009 = Inr (1, 0x1002)"
  "read_leb_int32 branching_code 0x1007 0x1009 = Inr (7, 0x1008)"
  by code_simp+

lemma branching_values:
  "is_byte_a_type 64" "check_buf 0x1003 0x1009 1" "wasm_value_type_cell_num VALUE_TYPE_I32 = 1"
  "LABEL_TYPE_BLOCK + (4 - WASM_OP_BLOCK) = LABEL_TYPE_IF" "block_type_get_param_types (Value_type 64) = []"
  "block_type_get_result_types (Value_type 64) = []" "VALUE_TYPE_I32 \<noteq> 64" "VALUE_TYPE_VOID = 64" "VALUE_TYPE_I32 \<noteq> VALUE_TYPE_ANY"
  "block_type_get_result_types (Type_index (func_type tiny_function)) = [VALUE_TYPE_I32]"
  "wasm_get_cell_num [] = 0" "wasm_get_cell_num [VALUE_TYPE_I32] = 1" "LABEL_TYPE_FUNCTION \<noteq> LABEL_TYPE_IF"
  by code_simp+

lemma branching_type: "func_type tiny_function = \<lparr>param_count = 1, result_count = 1, types = [VALUE_TYPE_I32, VALUE_TYPE_I32]\<rparr>"
  by (simp add: tiny_function_def value_type_defs)

lemmas branching_simps = prepare_opcode_def prepare_step_def branching_state_def branching_bytes op_const_def
  PUSH_TYPES_def on_ctx_def wasm_loader_push_frame_ref_def check_stack_push_def tiny_env_def
  op_if_def POP_TYPE_def wasm_loader_pop_frame_ref_def handle_op_block_and_loop_def read_block_type_def
  available_cells_def check_stack_pop_def check_stack_top_values_def function_block_def if_block_def new_block_def open_block_def
  wasm_loader_push_frame_csp_def top_is_any_def branching_values handle_op_else_def op_end_def check_block_stack_def
  sizeof_BranchBlock_def set_polymorphic_def reset_stack_def set_else_addr_def wasm_loader_pop_frame_csp_def Let_def

lemma branching_start: "prepare_start tiny_env branching_function branching_code = Inr (branching_state 0x1000 [function_block] [] 0 1)"
  by (simp add: prepare_start_def wasm_loader_ctx_init_def wasm_loader_push_frame_csp_def branching_function_def branching_state_def
      tiny_env_def sizeof_BranchBlock_def Let_def tiny_function_def function_block_def new_block_def)

lemma branching_steps:
  "prepare_step tiny_env tiny_module branching_function 0x1009 (branching_state 0x1000 [function_block] [] 0 1) =
     Inr (branching_state 0x1002 [function_block] [VALUE_TYPE_I32] 1 1)"
  "prepare_step tiny_env tiny_module branching_function 0x1009 (branching_state 0x1002 [function_block] [VALUE_TYPE_I32] 1 1) =
     Inr (branching_state 0x1004 [if_block, function_block] [] 1 2)"
  "prepare_step tiny_env tiny_module branching_function 0x1009 (branching_state 0x1004 [if_block, function_block] [] 1 2) =
     Inr (branching_state 0x1005 [if_block\<lparr>else_addr := 0x1004\<rparr>, function_block] [] 1 2)"
  "prepare_step tiny_env tiny_module branching_function 0x1009
       (branching_state 0x1005 [if_block\<lparr>else_addr := 0x1004\<rparr>, function_block] [] 1 2) =
     Inr (branching_state 0x1006 [function_block] [] 1 2)"
  "prepare_step tiny_env tiny_module branching_function 0x1009 (branching_state 0x1006 [function_block] [] 1 2) =
     Inr (branching_state 0x1008 [function_block] [VALUE_TYPE_I32] 1 2)"
  "prepare_step tiny_env tiny_module branching_function 0x1009 (branching_state 0x1008 [function_block] [VALUE_TYPE_I32] 1 2) =
     Inr (branching_state 0x1009 [] [VALUE_TYPE_I32] 1 2)"
  by (simp_all add: branching_simps branching_type)

definition branching_body :: ValidatedBody where
  "branching_body = \<lparr>vb_env = tiny_env, vb_module = tiny_module, vb_fun = branching_function, vb_code = branching_code,
     vb_max_stack = 1, vb_max_block = 2, vb_state = branching_state 0x1009 [] [VALUE_TYPE_I32] 1 2\<rparr>"

lemma branching_end: "code_end branching_function = 0x1009"
  by (simp add: code_end_def branching_function_def tiny_function_def)

lemma branching_loop:
  "prepare_loop tiny_env tiny_module branching_function 0x1009 (branching_state 0x1000 [function_block] [] 0 1) =
   Some (Inr (branching_state 0x1009 [] [VALUE_TYPE_I32] 1 2))"
proof -
  have lp: "lp (branching_state p bs cells ms mc) = p" for p bs cells ms mc by (simp add: branching_state_def)
  show ?thesis by (simp add: prepare_loop.simps lp branching_steps del: One_nat_def)
qed

lemma branching_validated: "validated branching_body"
proof -
  have "function_ok branching_function" "1 < unat (code branching_function)"
    "unat (code branching_function) + unat (code_size branching_function) < 2 ^ 32 - 1"
    using tiny_ok by (simp_all add: function_ok_def branching_function_def tiny_function_def)
  moreover have "wasm_loader_prepare_bytecode tiny_env tiny_module branching_function branching_code =
      Some (Inr (1, 2, branching_state 0x1009 [] [VALUE_TYPE_I32] 1 2))"
    using branching_start branching_loop branching_end
    by (simp add: wasm_loader_prepare_bytecode_def branching_state_def code_end_def)
  ultimately show ?thesis using tiny_ok(1) by (simp add: validated_def branching_body_def)
qed

lemma branching_opened: "opened branching_body 1 (branching_state 0x1004 [if_block, function_block] [] 1 2)"
proof -
  let ?s0 = "branching_state 0x1000 [function_block] [] 0 1"
  have v0: "visited branching_body ?s0"
    using branching_start by (auto simp: visited_def branching_body_def intro: prepare_refl)
  have t: "turn branching_body ?s0 (branching_state 0x1002 [function_block] [VALUE_TYPE_I32] 1 1)"
    "turn branching_body (branching_state 0x1002 [function_block] [VALUE_TYPE_I32] 1 1)
       (branching_state 0x1004 [if_block, function_block] [] 1 2)"
    using branching_steps(1,2) by (simp_all add: turn_def branching_body_def branching_end branching_state_def)
  from visited_turn [OF visited_turn [OF v0 t(1)] t(2)] show ?thesis
    by (simp add: opened_def branching_state_def if_block_def)
qed

section \<open>What the search promises\<close>

text \<open>C6: the interpreter finds the ends of blocks as the validation has matched them. For a block that was
  opened in the state \<open>so\<close> of the validation of a body, the search that starts behind its opcode in
  the rewritten code terminates, with or without a hit in the cache, and finds the \<open>end\<close> that the
  validation has taken for that of this block (the state \<open>se\<close> in \<open>completes\<close>), and for an \<open>if\<close> the
  \<open>else\<close>, or none if there is none. The cache stays right, so that later searches may rely on it. The
  search has no bound (it is called with the end address -1) and does not depend on memory outside the
  body.\<close>

theorem find_block_addr_correct:
  assumes "validated A" "in_place A m" "opened A n so" "cache_ok A cache"
    and "label = LABEL_TYPE_IF \<longleftrightarrow> label_type (top_block so) = LABEL_TYPE_IF"
  shows "\<exists>e_else e_end cache'. wasm_loader_find_block_addr m cache (lp so) (- 1) label =
      done_with (e_else, e_end, cache') \<and> found A n so e_else e_end \<and> cache_ok A cache'"
  using find_block_addr_found [OF assms] assms(4) entry_trusted by metis

theorem find_block_addr_correct_witness:
  "\<exists>e_else e_end cache'. wasm_loader_find_block_addr branching_code (replicate 128 no_block) 0x1004 (- 1) LABEL_TYPE_IF =
      done_with (e_else, e_end, cache') \<and>
    found branching_body 1 (branching_state 0x1004 [if_block, function_block] [] 1 2) e_else e_end \<and>
    cache_ok branching_body cache'"
proof -
  have "in_place branching_body branching_code" by (simp add: in_place_def agree_def branching_body_def branching_state_def)
  from find_block_addr_correct [OF branching_validated this branching_opened cache_start_ok [OF branching_validated],
    of LABEL_TYPE_IF] show ?thesis
    by (simp add: branching_state_def if_block_def BLOCK_ADDR_CONFLICT_SIZE_def BLOCK_ADDR_CACHE_SIZE_def)
qed

end
