(* ===== verification/Control_Sound.thy ===== *)
theory Control_Sound
  imports Block_Search
begin

text \<open>
  The interpreter follows the validation through blocks, branches and calls: a relation between a
  frame with its labels and a state of the validation, which every step of the interpreter keeps.
\<close>

section \<open>The open blocks of a state\<close>

text \<open>\<open>so k\<close> is the state in which the block of level \<open>k\<close> was opened. The operands of a loop are those it
  was entered with.\<close>

definition entered :: "ValidatedBody \<Rightarrow> nat \<Rightarrow> LoaderState \<Rightarrow> bool" where
  "entered A k so \<longleftrightarrow> opened A k so \<and>
     (label_type (top_block so) = LABEL_TYPE_LOOP \<longrightarrow> live (lctx so) \<and>
        stack_cell_num (lctx so) = height (lctx so) + param_count_of (block_type (top_block so)))"

definition openers :: "ValidatedBody \<Rightarrow> (nat \<Rightarrow> LoaderState) \<Rightarrow> nat \<Rightarrow> LoaderState \<Rightarrow> bool" where
  "openers A so n s \<longleftrightarrow> (\<forall>k<n. entered A k (so k)) \<and> (\<forall>k. Suc k < n \<longrightarrow> inside A k (so k) (so (Suc k))) \<and>
     (0 < n \<longrightarrow> inside A (n - 1) (so (n - 1)) s)"

lemma openersD:
  assumes "openers A so n s"
  shows "k < n \<Longrightarrow> entered A k (so k)" "Suc k < n \<Longrightarrow> inside A k (so k) (so (Suc k))"
    "n = Suc k \<Longrightarrow> inside A k (so k) s"
  using assms by (simp_all add: openers_def)

lemma entered_facts:
  assumes "entered A k so"
  shows "visited A so" "csp_num (lctx so) = Suc k" "opened A k so"
  using assms by (simp_all add: entered_def opened_def)

lemma openers_inside:
  assumes "openers A so n s" "k < n"
  shows "inside A k (so k) s"
proof -
  have refl: "inside A k (so k) (so k)"
    using entered_facts(2) [OF openersD(1) [OF assms]] by (intro inside_refl) simp
  have chain: "k \<le> j \<Longrightarrow> j < n \<Longrightarrow> inside A k (so k) (so j)" for j
  proof (induction j)
    case 0
    then show ?case using refl by simp
  next
    case (Suc j)
    show ?case
    proof (cases "k = Suc j")
      case True
      then show ?thesis using refl by simp
    next
      case False
      then have "inside A k (so k) (so j)" using Suc by simp
      moreover have "inside A k (so j) (so (Suc j))"
        using Suc.prems False by (intro inside_weaken [OF openersD(2) [OF assms(1)]]) simp_all
      ultimately show ?thesis by (rule inside_trans [rotated])
    qed
  qed
  obtain j where n: "n = Suc j" using assms(2) by (cases n) simp_all
  then have kj: "k \<le> j" "j < n" using assms(2) by simp_all
  have "inside A k (so j) s" by (rule inside_weaken [OF openersD(3) [OF assms(1) n] kj(1)])
  from inside_trans [OF this chain [OF kj]] show ?thesis .
qed

lemma openers_visited: "openers A so n s \<Longrightarrow> 0 < n \<Longrightarrow> visited A s"
  by (rule inside_visited [OF openers_inside]) (auto intro: entered_facts(1) [OF openersD(1)])

lemma openers_at:
  assumes "openers A so n s" "k < n" "inside A k (so k) t"
  shows "openers A so (Suc k) t"
  using assms by (simp add: openers_def)

lemma openers_push:
  assumes o: "openers A so n s" and c: "csp_num (lctx s) = n" and t: "turn A s s1" and e: "entered A n s1" and n: "0 < n"
  shows "openers A (so(n := s1)) (Suc n) s1"
proof -
  obtain j where j: "n = Suc j" using n by (cases n) simp_all
  have c1: "csp_num (lctx s1) = Suc n" by (rule entered_facts(2) [OF e])
  have "inside A j (so j) s1" using inside_next [OF openersD(3) [OF o j] t] c1 j by simp
  moreover have "inside A n s1 s1" using c1 by (simp add: inside_refl)
  moreover have "Suc k < Suc n \<Longrightarrow> k = j \<or> Suc k < n" for k using j by auto
  ultimately show ?thesis
    unfolding openers_def using openersD(1,2) [OF o] e j by (auto simp: less_Suc_eq)
qed

lemma openers_turn:
  assumes o: "openers A so n s" and t: "turn A s s1" "n \<le> csp_num (lctx s1)"
  shows "openers A so n s1"
proof -
  have "inside A (n - 1) (so (n - 1)) s1" if "0 < n"
    by (rule inside_next [OF openers_inside [OF o] t(1)]) (use that t(2) in simp_all)
  then show ?thesis using o by (simp add: openers_def)
qed

lemma openers_closed:
  assumes o: "openers A so n s" and t: "turn A s s1" and c: "Suc (csp_num (lctx s1)) = n"
  shows "openers A so (csp_num (lctx s1)) s1"
proof -
  have "inside A (csp_num (lctx s1) - 1) (so (csp_num (lctx s1) - 1)) s1" if "0 < csp_num (lctx s1)"
    by (rule inside_next [OF openers_inside [OF o] t]) (use that c in simp_all)
  moreover have "k < csp_num (lctx s1) \<Longrightarrow> entered A k (so k)"
    "Suc k < csp_num (lctx s1) \<Longrightarrow> inside A k (so k) (so (Suc k))" for k
    using openersD(1,2) [OF o] c by simp_all
  ultimately show ?thesis by (simp add: openers_def)
qed

text \<open>The block of a level is the one its opener has on top.\<close>

lemma opener_level:
  assumes A: "validated A" and o: "openers A so n s" and k: "k < n"
  shows "alike (top_block (so k)) (level_block k s)" "below k s = below k (so k)"
proof -
  note i = openers_inside [OF o k]
  have e: "entered A k (so k)" by (rule openersD(1) [OF o k])
  note f = entered_facts [OF e]
  have "good_ctx (lctx (so k))" using good_at [OF A f(1)] f(2) by simp
  from level_block_top [OF this f(2)] inside_levels [OF A i f(1)]
  show "alike (top_block (so k)) (level_block k s)" "below k s = below k (so k)" by simp_all
qed

definition outer_live :: "LoaderState \<Rightarrow> bool" where
  "outer_live s \<longleftrightarrow> (\<forall>b\<in>set (tl (frame_csp (lctx s))). \<not> is_stack_polymorphic b)"

lemma tl_below: "csp_num (lctx s) = Suc k \<Longrightarrow> good_ctx (lctx s) \<Longrightarrow> tl (frame_csp (lctx s)) = below k s"
  by (simp add: below_def drop_Suc)

lemma outer_live_at:
  assumes A: "validated A" and o: "openers A so n s" "csp_num (lctx s) = n" "outer_live s" and k: "k < n"
    and t: "inside A k (so k) t" "csp_num (lctx t) = Suc k"
  shows "outer_live t"
proof -
  have e: "entered A k (so k)" by (rule openersD(1) [OF o(1) k])
  note f = entered_facts [OF e]
  have "visited A t" by (rule inside_visited [OF t(1) f(1)])
  then have "good_ctx (lctx t)" using good_at [OF A] t(2) by simp
  then have "tl (frame_csp (lctx t)) = below k (so k)"
    using tl_below [OF t(2)] inside_levels(2) [OF A t(1) f(1)] by simp
  also have "\<dots> = below k s" using opener_level(2) [OF A o(1) k] by simp
  also have "\<dots> = drop (n - k - 1) (tl (frame_csp (lctx s)))"
  proof -
    have "n - k = Suc (n - k - 1)" using k by simp
    then show ?thesis using o(2) drop_Suc [of "n - k - 1" "frame_csp (lctx s)"] by (simp add: below_def)
  qed
  finally show ?thesis using o(3) by (auto simp: outer_live_def dest: in_set_dropD)
qed
section \<open>A frame stands at a state\<close>

definition closes_at :: "ValidatedBody \<Rightarrow> nat \<Rightarrow> LoaderState \<Rightarrow> u32 \<Rightarrow> bool" where
  "closes_at A k so e \<longleftrightarrow> (\<exists>x se. completes A k so x se \<and> e = lp se)"

text \<open>The label of a block: where its branches go, how many cells they take along, and to which height
  of the operand stack. The end of a block of type \<open>block\<close> is looked for when it is first needed.\<close>

definition label_cells :: "BranchBlock \<Rightarrow> nat" where
  "label_cells b = length (cells_of (label_types b))"

definition label_fits :: "ValidatedBody \<Rightarrow> nat \<Rightarrow> LoaderState \<Rightarrow> WASMBranchBlock \<Rightarrow> bool" where
  "label_fits A k so l \<longleftrightarrow>
     (let b = top_block so
      in begin_addr l = lp so \<and> block_sp l = block_stack_cell_num b \<and> block_cells l = label_cells b \<and>
         (if label_type b = LABEL_TYPE_LOOP then target_addr l = lp so
          else target_addr l = 0 \<and> label_type b = LABEL_TYPE_BLOCK \<or> closes_at A k so (target_addr l)))"

text \<open>The operand stack. At an \<open>end\<close> the interpreter may arrive by a branch, so there the results of the
  block are on the stack whatever the validation had there; everywhere else it has the cells the
  validation counted.\<close>

definition sp_fits :: "LoaderState \<Rightarrow> nat \<Rightarrow> bool" where
  "sp_fits s n \<longleftrightarrow>
     (if opcode_at s = 0x0b then n = height (lctx s) + result_count_of (block_type (top_block s))
      else live (lctx s) \<and> n = stack_cell_num (lctx s))"

definition stands :: "ValidatedBody \<Rightarrow> ControlState \<Rightarrow> LoaderState \<Rightarrow> bool" where
  "stands A cs s \<longleftrightarrow>
     frame_ip (frame cs) = lp s \<and> 0 < csp_num (lctx s) \<and> length (labels cs) = csp_num (lctx s) \<and>
     (\<exists>so. openers A so (csp_num (lctx s)) s \<and>
        (\<forall>k<csp_num (lctx s). label_fits A k (so k) (labels cs ! (csp_num (lctx s) - Suc k)))) \<and>
     outer_live s \<and> sp_fits s (length (frame_sp (frame cs))) \<and> cache_ok A (addr_cache cs) \<and>
     locals_fit (vb_fun A) (length (frame_lp (frame cs))) \<and>
     data_seg_count (vb_module A) \<le> length (data_segs (frame cs))"

lemma stands_visited: "stands A cs s \<Longrightarrow> visited A s"
  by (auto simp: stands_def intro: openers_visited)

lemma live_fits:
  assumes A: "validated A" and v: "visited A s" and n: "0 < csp_num (lctx s)" and l: "live (lctx s)"
  shows "sp_fits s (stack_cell_num (lctx s))"
proof -
  from A v n obtain s1 where t: "turn A s s1" by (rule visited_open) blast
  have "stack_cell_num (lctx s) = height (lctx s) + result_count_of (block_type (top_block s))" if "opcode_at s = 0x0b"
    using A v n t by (cases rule: turn_cases) (use that l in \<open>simp_all add: divides_def closes_def\<close>)
  then show ?thesis using l by (simp add: sp_fits_def)
qed

lemma completes_exists:
  assumes A: "validated A" and v: "visited A s" and n: "csp_num (lctx s) = Suc k"
  shows "\<exists>x se. completes A k s x se"
proof -
  have m: "in_place A (lmem (vb_state A))" by (simp add: in_place_def agree_def)
  have "scan_result A (lmem (vb_state A)) 0 s (scan_start (lp s))"
    by (rule scan_follows [OF A m v]) (simp_all add: n scan_start_def)
  then show ?thesis using n by (auto simp: scan_result_def)
qed

text \<open>Where a completed block ends.\<close>

lemma completes_end_at:
  assumes A: "validated A" and c: "completes A k so x se" and v: "visited A so"
  obtains se' where "turn A se se'" "csp_num (lctx se') = k" "csp_num (lctx se) = Suc k" "opcode_at se = 0x0b"
    "visited A se" "\<not> unfinished_if se" "closes (vb_end A) (fetched se) se'" "lp se' = lp se + 1" "inside A k so se"
    "1 < unat (lp se)"
proof -
  obtain se' where t: "turn A se se'" "csp_num (lctx se') = k" "inside A k so se" by (rule completes_next [OF c])
  have vse: "visited A se" by (rule inside_visited [OF t(3) v])
  have lt: "csp_num (lctx se') < csp_num (lctx se)" using inside_csp [OF t(3)] t(2) by simp
  note cl = closing_turn [OF A vse t(1) lt]
  have "1 < unat (lp se)" using A vse lt by (metis visited_open less_nat_zero_code neq0_conv)
  with that t vse cl show thesis by simp
qed

text \<open>A frame lands in the block of level \<open>k\<close>: at its \<open>end\<close> with its results, or elsewhere with the
  operands the validation had there.\<close>

lemma landing:
  assumes A: "validated A" and st: "stands A cs s" and o: "openers A so (csp_num (lctx s)) s"
    and fits: "\<forall>k<csp_num (lctx s). label_fits A k (so k) (labels cs ! (csp_num (lctx s) - Suc k))"
    and k: "k < csp_num (lctx s)" and t: "inside A k (so k) t" "csp_num (lctx t) = Suc k"
    and cs': "frame_ip (frame cs') = lp t" "labels cs' = drop (csp_num (lctx s) - Suc k) (labels cs)"
      "cache_ok A (addr_cache cs')" "length (frame_lp (frame cs')) = length (frame_lp (frame cs))"
      "length (data_segs (frame cs')) = length (data_segs (frame cs))"
    and sp: "sp_fits t (length (frame_sp (frame cs')))"
  shows "stands A cs' t"
proof -
  have len: "length (labels cs) = csp_num (lctx s)" and ol: "outer_live s" using st by (simp_all add: stands_def)
  have "label_fits A j (so j) (labels cs' ! (csp_num (lctx t) - Suc j))" if "j < csp_num (lctx t)" for j
  proof -
    have "labels cs' ! (csp_num (lctx t) - Suc j) = labels cs ! (csp_num (lctx s) - Suc j)"
      using that t(2) k len cs'(2) by simp
    then show ?thesis using fits that t(2) k by simp
  qed
  moreover have "openers A so (csp_num (lctx t)) t" using openers_at [OF o k t(1)] t(2) by simp
  moreover have "outer_live t" by (rule outer_live_at [OF A o refl ol k t])
  moreover have "length (labels cs') = csp_num (lctx t)" using cs'(2) len t(2) k by simp
  ultimately show ?thesis using st cs' sp t(2) unfolding stands_def by auto
qed

text \<open>At the end of the block.\<close>

lemma landing_fits:
  assumes A: "validated A" and o: "openers A so n s" "k < n" and c: "completes A k (so k) x se"
    and b: "label_type (top_block (so k)) \<noteq> LABEL_TYPE_LOOP"
  shows "sp_fits se (block_stack_cell_num (top_block (so k)) + label_cells (top_block (so k)))"
proof -
  have v: "visited A (so k)" by (rule entered_facts(1) [OF openersD(1) [OF o]])
  from A c v obtain se' where e: "csp_num (lctx se) = Suc k" "opcode_at se = 0x0b" "visited A se" "inside A k (so k) se"
    by (rule completes_end_at)
  have g: "good_ctx (lctx se)" using good_at [OF A e(3)] e(1) by simp
  have "alike (top_block (so k)) (top_block se)"
    using opener_level(1) [OF A openers_at [OF o e(4)], of k] level_block_top [OF g e(1)] by simp
  then show ?thesis
    using e(2) b by (simp add: sp_fits_def height_def alike_def label_cells_def label_types_def result_count_of_def)
qed

section \<open>Branches\<close>

text \<open>A search made for this body leaves the entries about other bodies as they were.\<close>

definition cache_kept :: "ValidatedBody \<Rightarrow> BlockAddr list \<Rightarrow> BlockAddr list \<Rightarrow> bool" where
  "cache_kept A c c' \<longleftrightarrow>
     (\<forall>B. (\<forall>b. entry_ok A b \<longrightarrow> trusted B b) \<longrightarrow> cache_ok B c \<longrightarrow> cache_ok B c')"

lemma cache_kept_refl [simp]: "cache_kept A c c"
  by (simp add: cache_kept_def)

lemma stack_rel_heights:
  "stack_rel fr bs segs \<Longrightarrow> b \<in> set bs \<Longrightarrow> block_stack_cell_num b \<le> length fr"
  by (induction fr bs segs rule: stack_rel.induct) fastforce+

lemma good_heights:
  assumes "good_ctx c" "b \<in> set (frame_csp c)"
  shows "block_stack_cell_num b \<le> height c"
proof -
  from assms(1) obtain ts segs where r: "ctx_rel c (ts # segs)" by (auto simp: good_ctx_def)
  from r obtain b0 bs fr' where b: "frame_csp c = b0 # bs" "length fr' = block_stack_cell_num b0" "stack_rel fr' bs segs"
    by (auto simp: ctx_rel_def elim: stack_rel.elims)
  show ?thesis using assms(2) stack_rel_heights [OF b(3)] b(1,2) by (auto simp: height_def)
qed

lemma check_br_enough:
  assumes l: "live c" and c: "wasm_loader_check_br av c d opcode = Inr c'"
  shows "unat d < csp_num c" "height c + label_cells (frame_csp c ! unat d) \<le> stack_cell_num c"
    "block_stack_cell_num (frame_csp c ! unat d) \<le> height c"
proof -
  have good: "good_ctx c" and np: "\<not> is_stack_polymorphic (hd (frame_csp c))" using l by (simp_all add: live_def poly_of_def)
  then obtain ts segs where r: "ctx_rel c (ts # segs)" and bl: "blocks_ok c" by (auto simp: good_ctx_def)
  have ne: "frame_csp c \<noteq> []" "csp_num c = length (frame_csp c)" using good_nonempty [OF good] by simp_all
  from c np have d: "\<not> csp_num c - 1 < unat d"
    and t: "check_top_types False (frame_ref c) (available_cells c (hd (frame_csp c))) (rev (label_types (frame_csp c ! unat d))) = Inr ()"
    by (auto simp: wasm_loader_check_br_def Let_def split: if_splits)
  then show lt: "unat d < csp_num c" using ne by (cases "frame_csp c") auto
  then have mem: "frame_csp c ! unat d \<in> set (frame_csp c)" using ne by simp
  then have v: "list_all is_valid_value_type (rev (label_types (frame_csp c ! unat d)))"
    using bl by (auto simp: blocks_ok_def list_all_iff intro!: label_types_valid [unfolded list_all_iff, rule_format])
  have "\<not> poly_of c" using np by (simp add: poly_of_def)
  from t check_top_block [OF r this v] obtain us where "ts = rev (label_types (frame_csp c ! unat d)) @ us" by auto
  then show "height c + label_cells (frame_csp c ! unat d) \<le> stack_cell_num c"
    using live_cells [OF r] by (simp add: label_cells_def)
  show "block_stack_cell_num (frame_csp c ! unat d) \<le> height c" by (rule good_heights [OF good mem])
qed

text \<open>A branch to the label \<open>d\<close>, whatever the instruction has done to the stack before; the cells the label
  takes are there.\<close>

lemma branch_lands:
  assumes A: "validated A" and st: "stands A cs s" and m: "in_place A (chip (frame cs0))"
    and same: "labels cs0 = labels cs" "addr_cache cs0 = addr_cache cs" "length (frame_lp (frame cs0)) = length (frame_lp (frame cs))"
      "length (data_segs (frame cs0)) = length (data_segs (frame cs))"
    and d: "unat d < csp_num (lctx s)"
    and sp: "block_stack_cell_num (frame_csp (lctx s) ! unat d) + label_cells (frame_csp (lctx s) ! unat d) \<le>
        length (frame_sp (frame cs0))"
  shows "\<exists>cs' t. label_pop_csp_n d cs0 = done_with cs' \<and> stands A cs' t \<and>
    cache_kept A (addr_cache cs) (addr_cache cs')"
proof -
  let ?n = "csp_num (lctx s)"
  from st obtain so where o: "openers A so ?n s"
    and fits: "\<forall>k<?n. label_fits A k (so k) (labels cs ! (?n - Suc k))"
    by (auto simp: stands_def)
  have len: "length (labels cs) = ?n" and cok: "cache_ok A (addr_cache cs)" using st by (simp_all add: stands_def)
  define k where "k = ?n - Suc (unat d)"
  have k: "k < ?n" "?n - Suc k = unat d" using d by (simp_all add: k_def)
  have e: "entered A k (so k)" by (rule openersD(1) [OF o k(1)])
  note f = entered_facts [OF e]
  let ?b = "top_block (so k)"
  have al: "alike ?b (frame_csp (lctx s) ! unat d)"
    using opener_level(1) [OF A o k(1)] k by (simp add: level_block_def)
  then have sp': "block_stack_cell_num ?b + label_cells ?b \<le> length (frame_sp (frame cs0))"
    using sp by (auto simp: alike_def label_cells_def label_types_def split: if_splits)
  let ?l = "labels cs ! unat d"
  have lf: "label_fits A k (so k) ?l" using fits [rule_format, OF k(1)] k(2) by simp
  have dr: "drop (unat d) (labels cs) = ?l # drop (Suc (unat d)) (labels cs)"
    using d len by (simp add: Cons_nth_drop_Suc)
  let ?sp = "take (block_cells ?l) (frame_sp (frame cs0)) @
    drop (length (frame_sp (frame cs0)) - block_sp ?l) (frame_sp (frame cs0))"
  let ?cs1 = "cs0\<lparr>labels := drop (unat d) (labels cs),
    frame := (frame cs0)\<lparr>frame_ip := target_addr ?l, frame_sp := ?sp\<rparr>\<rparr>"
  have bl: "block_sp ?l = block_stack_cell_num ?b" "block_cells ?l = label_cells ?b" "begin_addr ?l = lp (so k)"
    using lf by (simp_all add: label_fits_def Let_def)
  have pop: "POP_CSP_N (unat d) cs0 = done_with ?cs1"
    using sp' bl same(1) by (simp add: POP_CSP_N_def dr Let_def)
  have lsp: "length ?sp = block_stack_cell_num ?b + label_cells ?b" using sp' bl by simp
  have pos: "1 < unat (lp (so k))" using A f(1,2) by (metis visited_open zero_less_Suc)
  \<comment> \<open>the two ways to arrive\<close>
  have at_end: "stands A cs' se"
    if c: "completes A k (so k) x se" and nl: "label_type ?b \<noteq> LABEL_TYPE_LOOP"
      and cs': "frame_ip (frame cs') = lp se" "labels cs' = drop (unat d) (labels cs)" "cache_ok A (addr_cache cs')"
        "length (frame_lp (frame cs')) = length (frame_lp (frame cs0))"
        "length (data_segs (frame cs')) = length (data_segs (frame cs0))" "frame_sp (frame cs') = ?sp" for x se cs'
  proof (rule landing [OF A st o fits k(1)])
    show "inside A k (so k) se" "csp_num (lctx se) = Suc k"
      using completes_end_at [OF A c f(1)] by blast+
    show "sp_fits se (length (frame_sp (frame cs')))"
      using landing_fits [OF A o k(1) c nl] lsp cs'(6) by simp
  qed (use same cs' k in simp_all)
  show ?thesis
  proof (cases "target_addr ?l = 0")
    case False
    have run: "label_pop_csp_n d cs0 = done_with ?cs1" using False by (simp add: label_pop_csp_n_def pop)
    show ?thesis
    proof (cases "label_type ?b = LABEL_TYPE_LOOP")
      case True
      have ip: "target_addr ?l = lp (so k)" using lf True by (simp add: label_fits_def Let_def)
      have "stands A ?cs1 (so k)"
      proof (rule landing [OF A st o fits k(1)])
        show "inside A k (so k) (so k)" using f(2) by (simp add: inside_refl)
        have "live (lctx (so k))" "length ?sp = stack_cell_num (lctx (so k))"
          using e True lsp by (simp_all add: entered_def height_def label_cells_def label_types_def param_count_of_def)
        then show "sp_fits (so k) (length (frame_sp (frame ?cs1)))"
          using live_fits [OF A f(1)] f(2) by simp
      qed (use same cok k ip f(2) in simp_all)
      moreover have "addr_cache ?cs1 = addr_cache cs" using same(2) by simp
      ultimately show ?thesis using run cache_kept_refl by metis
    next
      case nl: False
      then obtain x se where c: "completes A k (so k) x se" and t: "target_addr ?l = lp se"
        using lf False by (auto simp: label_fits_def Let_def closes_at_def)
      have "stands A ?cs1 se" using t same(2) cok by (intro at_end [OF c nl]) simp_all
      moreover have "addr_cache ?cs1 = addr_cache cs" using same(2) by simp
      ultimately show ?thesis using run cache_kept_refl by metis
    qed
  next
    case True
    have nl: "label_type ?b = LABEL_TYPE_BLOCK"
    proof -
      have "target_addr ?l \<noteq> lp (so k)" using True pos by auto
      moreover have "\<not> closes_at A k (so k) 0" using completes_end_at [OF A _ f(1)] by (fastforce simp: closes_at_def)
      ultimately show ?thesis using lf True by (auto simp: label_fits_def Let_def split: if_splits)
    qed
    have op: "opened A k (so k)" by (rule f(3))
    have lt: "LABEL_TYPE_BLOCK = LABEL_TYPE_IF \<longleftrightarrow> label_type ?b = LABEL_TYPE_IF" using nl by simp
    have m1: "in_place A (chip (frame ?cs1))" and c1: "cache_ok A (addr_cache ?cs1)" using m same(2) cok by simp_all
    from find_block_addr_found [OF A m1 op c1 lt] obtain e_else e_end cache' where
      fd: "wasm_loader_find_block_addr (chip (frame ?cs1)) (addr_cache ?cs1) (lp (so k)) (- 1) LABEL_TYPE_BLOCK =
        done_with (e_else, e_end, cache')" "found A k (so k) e_else e_end" "cache_kept A (addr_cache cs) cache'"
      using same(2) by (auto simp: cache_kept_def)
    then have ck: "cache_ok A cache'" using entry_trusted cok unfolding cache_kept_def by blast
    from fd(2) obtain x se where c: "completes A k (so k) x se" and ee: "e_end = lp se" by (auto simp: found_def)
    have "label_pop_csp_n d cs0 = done_with (?cs1\<lparr>addr_cache := cache', frame := (frame ?cs1)\<lparr>frame_ip := lp se\<rparr>\<rparr>)"
      using True fd(1) bl(3) by (simp add: label_pop_csp_n_def pop dr find_block_def ee jump_to_def)
    moreover have "stands A (?cs1\<lparr>addr_cache := cache', frame := (frame ?cs1)\<lparr>frame_ip := lp se\<rparr>\<rparr>) se"
      using nl ck by (intro at_end [OF c]) (simp_all add: label_type_defs)
    moreover have "addr_cache (?cs1\<lparr>addr_cache := cache', frame := (frame ?cs1)\<lparr>frame_ip := lp se\<rparr>\<rparr>) = cache'" by simp
    ultimately show ?thesis using fd(3) by metis
  qed
qed

section \<open>Instructions that go on\<close>

fun control_steps :: "control_env \<Rightarrow> WASMFunction \<Rightarrow> nat \<Rightarrow> ControlState \<Rightarrow> outcome run" where
  "control_steps V F 0 cs = done_with (Goes_on cs)"
| "control_steps V F (Suc n) cs =
     bindR (exec_control V F cs) (\<lambda>r. case r of Goes_on cs' \<Rightarrow> control_steps V F n cs' | _ \<Rightarrow> done_with r)"

definition control_opcode :: "u8 \<Rightarrow> bool" where
  "control_opcode op \<longleftrightarrow> op \<in> {0x02, 0x03, 0x04, 0x05, 0x0b, 0x0c, 0x0d, 0x0e, 0x0f, 0x10, 0x11,
     EXT_OP_BLOCK, EXT_OP_LOOP, EXT_OP_IF, EXT_OP_BR_TABLE_CACHE}"

lemma numeric_handler_range: "\<not> (0x45 \<le> op \<and> op \<le> 0xc4) \<Longrightarrow> numeric_handler P op = None"
  by (simp add: numeric_handler_def)

lemma exec_plain_control: "control_opcode op \<Longrightarrow> exec_plain V F op i = stuck"
  by (elim control_opcode_def [THEN iffD1, elim_format] insertE)
    (simp_all add: exec_plain_def numeric_handler_def EXT_OP_BLOCK_def EXT_OP_LOOP_def EXT_OP_IF_def
      EXT_OP_BR_TABLE_CACHE_def opcode_values)

lemma plain_dispatch:
  "\<not> control_opcode op \<Longrightarrow> exec_opcode V F op cs =
     bindR (exec_plain (ce_base V) F op (frame cs)) (\<lambda>i.
       if waits op (frame cs) \<and> ce_terminate V then done_with Terminates else done_with (Goes_on (cs\<lparr>frame := i\<rparr>)))"
  by (simp add: exec_opcode_def control_opcode_def checks_suspend_def)

lemma no_wait: "op \<noteq> 0xfe \<Longrightarrow> \<not> waits op i"
  by (simp add: waits_def)

text \<open>Steps of plain instructions are steps of the frame, unless the thread is terminated on the way.\<close>

lemma plain_steps:
  "exec_steps (ce_base V) F n (frame cs) \<noteq> stuck \<Longrightarrow>
   control_steps V F n cs = bindR (exec_steps (ce_base V) F n (frame cs)) (\<lambda>i. done_with (Goes_on (cs\<lparr>frame := i\<rparr>))) \<or>
   control_steps V F n cs = done_with Terminates"
proof (induction n arbitrary: cs)
  case (Suc n)
  obtain op i where f: "fetch_byte (frame cs) = (op, i)" by fastforce
  let ?r = "exec_plain (ce_base V) F op i"
  have ns: "?r \<noteq> stuck"
  proof
    assume "?r = stuck"
    then have "exec_steps (ce_base V) F (Suc n) (frame cs) = stuck" by (simp add: exec_step_def f bindR_def stuck_def)
    with Suc.prems show False by simp
  qed
  then have "\<not> control_opcode op" using exec_plain_control by blast
  then have ex: "exec_control V F cs = bindR ?r (\<lambda>i'.
      if waits op i \<and> ce_terminate V then done_with Terminates else done_with (Goes_on (cs\<lparr>frame := i'\<rparr>)))"
    by (simp add: exec_control_def f plain_dispatch cong: if_cong)
  show ?case
  proof (cases "\<exists>i'. ?r = done_with i'")
    case True
    then obtain i' where i': "?r = done_with i'" ..
    have "exec_steps (ce_base V) F n (frame (cs\<lparr>frame := i'\<rparr>)) \<noteq> stuck"
      using Suc.prems f i' by (simp add: exec_step_def)
    from Suc.IH [OF this] show ?thesis by (cases "waits op i \<and> ce_terminate V") (auto simp: ex i' exec_step_def f)
  next
    case False
    obtain a where a: "?r = Some a" using ns by (auto simp: stuck_def)
    with False obtain e where "?r = Some (Inl e)" by (cases a) (auto simp: done_with_def)
    then show ?thesis by (simp add: ex exec_step_def f)
  qed
qed (simp add: exec_steps_0)

section \<open>What a step may come to\<close>

definition env_fits :: "ValidatedBody \<Rightarrow> control_env \<Rightarrow> bool" where
  "env_fits A V \<longleftrightarrow> ce_types V = m_types (vb_module A) \<and> length (m_types (vb_module A)) < 2 ^ 31 \<and>
     ce_functions V = import_functions (vb_module A) @ module_functions (vb_module A) \<and>
     global_count (vb_module A) \<le> length (ie_global_offsets (ce_base V)) \<and>
     (\<forall>a. unat (code (vb_fun A)) \<le> unat a \<and> unat a < unat (vb_end A) \<longrightarrow>
        find (\<lambda>node. fst node = a) (ce_br_tables V) = find (\<lambda>node. fst node = a) (br_table_caches (vb_state A)))"

text \<open>A frame whose callee has returned \<open>q\<close> cells for \<open>n\<close> arguments.\<close>

definition resumes :: "ValidatedBody \<Rightarrow> ControlState \<Rightarrow> nat \<Rightarrow> nat \<Rightarrow> bool" where
  "resumes A cs n q \<longleftrightarrow> (\<exists>t. \<forall>cs'. labels cs' = labels cs \<and> frame_ip (frame cs') = frame_ip (frame cs) \<and>
     length (frame_lp (frame cs')) = length (frame_lp (frame cs)) \<and>
     length (data_segs (frame cs')) = length (data_segs (frame cs)) \<and>
     length (frame_sp (frame cs')) + n = length (frame_sp (frame cs)) + q \<and> cache_ok A (addr_cache cs') \<longrightarrow>
     stands A cs' t)"

fun safe_outcome :: "ValidatedBody \<Rightarrow> control_env \<Rightarrow> BlockAddr list \<Rightarrow> outcome \<Rightarrow> bool" where
  "safe_outcome A V c (Goes_on cs) = ((\<exists>t. stands A cs t) \<and> cache_kept A c (addr_cache cs))"
| "safe_outcome A V c (Calls fidx cs) =
     (unat fidx < length (ce_functions V) \<and> addr_cache cs = c \<and>
      (let ft = ce_functions V ! unat fidx
       in param_cells ft \<le> length (frame_sp (frame cs)) \<and> resumes A cs (param_cells ft) (ret_cells ft)))"
| "safe_outcome A V c (Returns vs cs) = (length vs = ret_cells (func_type (vb_fun A)) \<and> addr_cache cs = c)"
| "safe_outcome A V c Terminates = True"

definition safe_run :: "ValidatedBody \<Rightarrow> control_env \<Rightarrow> BlockAddr list \<Rightarrow> outcome run \<Rightarrow> bool" where
  "safe_run A V c r \<longleftrightarrow> (\<exists>e. r = trap e) \<or> (\<exists>out. r = done_with out \<and> safe_outcome A V c out)"

lemma safe_run_trap [simp]: "safe_run A V c (trap e)" "safe_run A V c (Some (Inl e))"
  by (auto simp: safe_run_def trap_def)

lemma safe_run_done [simp]: "safe_run A V c (done_with out) = safe_outcome A V c out"
  by (auto simp: safe_run_def trap_def done_with_def)

text \<open>The next state of the same block.\<close>

lemma onward:
  assumes A: "validated A" and st: "stands A cs s" and t: "turn A s s1" and sb: "same_blocks (lctx s) (lctx s1)"
    and l: "live (lctx s1)" and cs': "frame_ip (frame cs') = lp s1" "labels cs' = labels cs" "cache_ok A (addr_cache cs')"
      "length (frame_lp (frame cs')) = length (frame_lp (frame cs))"
      "length (data_segs (frame cs')) = length (data_segs (frame cs))"
      "length (frame_sp (frame cs')) = stack_cell_num (lctx s1)"
  shows "stands A cs' s1"
proof -
  have n: "csp_num (lctx s1) = csp_num (lctx s)" "0 < csp_num (lctx s)" using sb st by (simp_all add: same_blocks_def stands_def)
  have v: "visited A s1" using visited_turn [OF stands_visited [OF st] t] .
  from st obtain so where o: "openers A so (csp_num (lctx s)) s"
    and fits: "\<forall>k<csp_num (lctx s). label_fits A k (so k) (labels cs ! (csp_num (lctx s) - Suc k))"
    by (auto simp: stands_def)
  have "openers A so (csp_num (lctx s1)) s1" using openers_turn [OF o t] n by simp
  moreover have "outer_live s1" using st sb by (simp add: stands_def outer_live_def same_blocks_def)
  moreover have "sp_fits s1 (length (frame_sp (frame cs')))" using live_fits [OF A v _ l] n cs'(6) by simp
  ultimately show ?thesis using st fits cs' n unfolding stands_def by auto
qed

lemma stands_fetch:
  assumes A: "validated A" and st: "stands A cs s" and m: "in_place A (chip (frame cs))" and t: "turn A s s1"
    and f: "unat (lp s) < unat (lp s1)"
  shows "exec_control V F cs = exec_opcode V F (lmem s1 (lp s)) (cs\<lparr>frame := (frame cs)\<lparr>frame_ip := lp s + 1\<rparr>\<rparr>)"
proof -
  have v: "visited A s" and n: "0 < csp_num (lctx s)" using st stands_visited by (simp_all add: stands_def)
  have "lp s < vb_end A" using t by (simp add: turn_def)
  then have "agree (lmem s1) (chip (frame cs)) (lp s) (lp s + 1)"
    using turn_at(2) [OF A v n] f by (intro turn_in_place [OF A v n t m]) (simp_all add: word_less_nat_alt)
  then have "chip (frame cs) (lp s) = lmem s1 (lp s)" using turn_at(2) [OF A v n] by (simp add: agree_def)
  then show ?thesis using st by (simp add: exec_control_def fetch_byte_def stands_def)
qed

text \<open>The operands and labels between the steps of one instruction.\<close>

definition keeps_count :: "control_env \<Rightarrow> WASMFunction \<Rightarrow> nat \<Rightarrow> nat \<Rightarrow> ControlState \<Rightarrow> bool" where
  "keeps_count V F n k cs \<longleftrightarrow> (\<forall>j cs'. 0 < j \<and> j \<le> n \<and> control_steps V F j cs = done_with (Goes_on cs') \<longrightarrow>
     length (frame_sp (frame cs')) = k \<and> labels cs' = labels cs)"

lemma exec_steps_prefix: "j \<le> n \<Longrightarrow> exec_steps V F n i \<noteq> stuck \<Longrightarrow> exec_steps V F j i \<noteq> stuck"
proof (induction j arbitrary: n i)
  case (Suc j)
  then obtain k where k: "n = Suc k" "j \<le> k" by (cases n) auto
  with Suc.prems(2) have ns: "bindR (exec_step V F i) (exec_steps V F k) \<noteq> stuck" by simp
  show ?case
  proof (cases "\<exists>i'. exec_step V F i = done_with i'")
    case True
    with ns Suc.IH [OF k(2)] show ?thesis by auto
  next
    case False
    then have "exec_step V F i = stuck \<or> (\<exists>e. exec_step V F i = Some (Inl e))"
      by (cases "exec_step V F i" rule: option.exhaust; auto simp: stuck_def done_with_def) (metis sum.exhaust)
    with ns show ?thesis by (auto simp: stuck_def bindR_def)
  qed
qed (simp add: done_with_def stuck_def)

lemma plain_keeps_count:
  assumes "exec_steps (ce_base V) F n (frame cs) \<noteq> stuck"
    and "\<forall>j i1. 0 < j \<and> j \<le> n \<and> exec_steps (ce_base V) F j (frame cs) = Some (Inr i1) \<longrightarrow> length (frame_sp i1) = k"
  shows "keeps_count V F n k cs"
  unfolding keeps_count_def
proof (intro allI impI)
  fix j cs'
  assume j: "0 < j \<and> j \<le> n \<and> control_steps V F j cs = done_with (Goes_on cs')"
  then have "exec_steps (ce_base V) F j (frame cs) \<noteq> stuck" using exec_steps_prefix assms(1) by blast
  from plain_steps [OF this] j obtain i1 where "exec_steps (ce_base V) F j (frame cs) = Some (Inr i1)" "cs' = cs\<lparr>frame := i1\<rparr>"
    by (auto simp: bindR_def done_with_def split: option.splits sum.splits)
  then show "length (frame_sp (frame cs')) = k \<and> labels cs' = labels cs" using assms(2) j by auto
qed

lemma plain_stands:
  assumes A: "validated A" and V: "env_fits A V" and st: "stands A cs s" and m: "in_place A (chip (frame cs))"
    and t: "turn A s s1" and p: "plain_instr (vb_end A) s"
  shows "\<exists>n. safe_run A V (addr_cache cs) (control_steps V (vb_fun A) (Suc n) cs) \<and>
    keeps_count V (vb_fun A) (Suc n) (stack_cell_num (lctx s1)) cs"
proof -
  have v: "visited A s" and n: "0 < csp_num (lctx s)" using st stands_visited by (simp_all add: stands_def)
  have po: "plain_opcode (opcode_at s)" by (rule plain_instr_opcode [OF p])
  then have o: "opcode_at s \<notin> {0x02, 0x03, 0x04, 0x05, 0x0b}" using plain_opcode_other by auto
  have ob: "opcode_at s \<noteq> 0x0b" using o by simp
  have pl: "same_blocks (lctx s) (lctx s1)" "unat (lp s) < unat (lp s1)"
    using A v n t by (cases rule: turn_cases; use o in simp)+
  have n1: "0 < csp_num (lctx s1)" using pl(1) n by (simp add: same_blocks_def)
  have v1: "visited A s1" by (rule visited_turn [OF v t])
  have "lp s1 < vb_end A" using visited_open [OF A v1 n1] by blast
  then have ag: "agree (lmem s1) (chip (frame cs)) (lp s) (lp s1)"
    by (intro turn_in_place [OF A v n t m]) (simp_all add: word_less_nat_alt)
  from v obtain s0 where s0: "prepare_start (vb_env A) (vb_fun A) (vb_code A) = Inr s0"
    "prepare_reaches (vb_env A) (vb_module A) (vb_fun A) (vb_end A) s0 s" by (auto simp: visited_def)
  have sp: "live (lctx s)" "length (frame_sp (frame cs)) = stack_cell_num (lctx s)"
    using st ob by (simp_all add: stands_def sp_fits_def)
  have t': "lp s < vb_end A" "prepare_step (vb_env A) (vb_module A) (vb_fun A) (vb_end A) s = Inr s1"
    using t by (simp_all add: turn_def)
  have np: "\<not> poly_of (lctx s)" using sp(1) by (simp add: live_def)
  let ?ends = "\<lambda>n. (\<exists>e. exec_steps (ce_base V) (vb_fun A) (Suc n) (frame cs) = Some (Inl e)) \<or>
    (\<exists>i'. exec_steps (ce_base V) (vb_fun A) (Suc n) (frame cs) = Some (Inr i') \<and> frame_ip i' = lp s1 \<and>
      length (frame_sp i') = stack_cell_num (lctx s1) \<and> live (lctx s1) \<and> same_frame (frame cs) i')"
    and ?steady = "\<lambda>n. \<forall>j i1. 0 < j \<and> j \<le> Suc n \<and> exec_steps (ce_base V) (vb_fun A) j (frame cs) = Some (Inr i1) \<longrightarrow>
      length (frame_sp i1) = stack_cell_num (lctx s1)"
  have "\<exists>n. ?ends n \<and> ?steady n"
    using instruction_runs [OF _ _ _ _ s0 t' np p, of "frame cs" "ce_base V"] A V st sp(2) ag
    by (auto simp: validated_def env_fits_def stands_def)
  then obtain n where ends: "?ends n" and "?steady n" by blast
  then have kc: "keeps_count V (vb_fun A) (Suc n) (stack_cell_num (lctx s1)) cs"
    by (intro plain_keeps_count) (auto simp: stuck_def)
  from ends show ?thesis
  proof (elim disjE exE conjE)
    fix e
    assume e: "exec_steps (ce_base V) (vb_fun A) (Suc n) (frame cs) = Some (Inl e)"
    then have "control_steps V (vb_fun A) (Suc n) cs = Some (Inl e) \<or> control_steps V (vb_fun A) (Suc n) cs = done_with Terminates"
      using plain_steps [of V "vb_fun A" "Suc n" cs] by (simp add: stuck_def del: exec_steps.simps control_steps.simps)
    then show ?thesis using kc by (intro exI [of _ n]) (auto simp del: exec_steps.simps control_steps.simps)
  next
    fix i'
    assume e: "exec_steps (ce_base V) (vb_fun A) (Suc n) (frame cs) = Some (Inr i')" and i': "frame_ip i' = lp s1"
      "length (frame_sp i') = stack_cell_num (lctx s1)" "live (lctx s1)" "same_frame (frame cs) i'"
    have "control_steps V (vb_fun A) (Suc n) cs = done_with (Goes_on (cs\<lparr>frame := i'\<rparr>)) \<or>
        control_steps V (vb_fun A) (Suc n) cs = done_with Terminates"
      using plain_steps [of V "vb_fun A" "Suc n" cs] e by (simp add: stuck_def del: exec_steps.simps control_steps.simps)
    moreover have "stands A (cs\<lparr>frame := i'\<rparr>) s1"
      using i' st by (intro onward [OF A st t pl(1) i'(3)]) (simp_all add: same_frame_def stands_def)
    ultimately show ?thesis using kc by (intro exI [of _ n]) (auto simp del: exec_steps.simps control_steps.simps)
  qed
qed

section \<open>The end of a block\<close>

lemma reaches_open:
  assumes A: "validated A" and s0: "prepare_start (vb_env A) (vb_fun A) (vb_code A) = Inr s0"
    and r: "prepare_reaches (vb_env A) (vb_module A) (vb_fun A) (vb_end A) s0 s" and n: "0 < csp_num (lctx s)"
  shows "inside A 0 s0 s"
  using r s0 n
proof (induction rule: prepare_reaches.induct)
  case (prepare_next s0 s u)
  have v: "visited A s" using prepare_next.hyps(1) prepare_next.prems(1) by (auto simp: visited_def)
  have "good_ctx (lctx s)"
    using visited_inv(1) [OF A v] prepare_next.hyps(2) by (auto simp: loop_inv_def word_less_nat_alt)
  note i = prepare_next.IH [OF prepare_next.prems(1) good_open [OF this]]
  have "turn A s u" using prepare_next.hyps(2,3) by (simp add: turn_def)
  then show ?case by (rule inside_next [OF i _ prepare_next.prems(2)])
qed (simp add: inside_refl)

lemma start_block:
  assumes "prepare_start E F m = Inr s0"
  shows "csp_num (lctx s0) = 1" "top_block s0 = new_block LABEL_TYPE_FUNCTION (Type_index (func_type F)) (code F) 0"
proof -
  from assms obtain c0 c where i: "wasm_loader_ctx_init (env_av E) = Inr c0"
    and p: "wasm_loader_push_frame_csp (env_av E) c0 LABEL_TYPE_FUNCTION (Type_index (func_type F)) (code F) = Inr c"
    and s0: "s0 = \<lparr>lctx = c, lp = code F, lmem = m, br_table_caches = [], possible_memory_grow = False\<rparr>"
    by (auto simp: prepare_start_def)
  have c0: "ctx_rel c0 []" using i by (auto simp: wasm_loader_ctx_init_def ctx_rel_def split: if_splits)
  have z: "stack_cell_num c0 = 0" "csp_num c0 = 0" using i by (auto simp: wasm_loader_ctx_init_def split: if_splits)
  from push_frame_csp_rel [OF c0 p] z s0 show "csp_num (lctx s0) = 1"
    "top_block s0 = new_block LABEL_TYPE_FUNCTION (Type_index (func_type F)) (code F) 0" by simp_all
qed

lemma function_level:
  assumes A: "validated A" and v: "visited A s" and n: "0 < csp_num (lctx s)"
  shows "label_type (level_block 0 s) = LABEL_TYPE_FUNCTION" "block_type (level_block 0 s) = Type_index (func_type (vb_fun A))"
    "block_stack_cell_num (level_block 0 s) = 0"
proof -
  from v obtain s0 where s0: "prepare_start (vb_env A) (vb_fun A) (vb_code A) = Inr s0"
    "prepare_reaches (vb_env A) (vb_module A) (vb_fun A) (vb_end A) s0 s" by (auto simp: visited_def)
  have v0: "visited A s0" using s0(1) by (auto simp: visited_def intro: prepare_refl)
  note b = start_block [OF s0(1)]
  have "good_ctx (lctx s0)" using good_at [OF A v0] b(1) by simp
  then have "level_block 0 s0 = top_block s0" using b(1) by (intro level_block_top) simp_all
  with inside_levels(1) [OF A reaches_open [OF A s0 n] v0] b(2)
  show "label_type (level_block 0 s) = LABEL_TYPE_FUNCTION" "block_type (level_block 0 s) = Type_index (func_type (vb_fun A))"
    "block_stack_cell_num (level_block 0 s) = 0" by (simp_all add: alike_def)
qed

lemma closing_stands:
  assumes A: "validated A" and st: "stands A cs s" and o: "opcode_at s = 0x0b" and t: "turn A s s1"
    and c: "closes (vb_end A) (fetched s) s1" and n: "0 < csp_num (lctx s1)"
    and cs': "frame_ip (frame cs') = lp s1" "labels cs' = tl (labels cs)" "cache_ok A (addr_cache cs')"
      "length (frame_lp (frame cs')) = length (frame_lp (frame cs))"
      "length (data_segs (frame cs')) = length (data_segs (frame cs))"
      "length (frame_sp (frame cs')) = length (frame_sp (frame cs))"
  shows "stands A cs' s1"
proof -
  have v: "visited A s" and v1: "visited A s1" using st stands_visited t visited_turn by blast+
  have num: "Suc (csp_num (lctx s1)) = csp_num (lctx s)" and csp: "frame_csp (lctx s1) = tl (frame_csp (lctx s))"
    and good: "good_ctx (lctx s1)" and cells: "stack_cell_num (lctx s1) = height (lctx s) + result_count_of (block_type (top_block s))"
    using c n by (simp_all add: closes_def)
  from st obtain so where so: "openers A so (csp_num (lctx s)) s"
    and fits: "\<forall>k<csp_num (lctx s). label_fits A k (so k) (labels cs ! (csp_num (lctx s) - Suc k))"
    by (auto simp: stands_def)
  have len: "length (labels cs) = csp_num (lctx s)" and ol: "outer_live s" using st by (simp_all add: stands_def)
  have "label_fits A k (so k) (labels cs' ! (csp_num (lctx s1) - Suc k))" if k: "k < csp_num (lctx s1)" for k
  proof -
    have "csp_num (lctx s) - Suc k = Suc (csp_num (lctx s1) - Suc k)" using k num by simp
    moreover have "tl (labels cs) ! (csp_num (lctx s1) - Suc k) = labels cs ! Suc (csp_num (lctx s1) - Suc k)"
      using k num len by (intro nth_tl) simp
    ultimately show ?thesis using fits [rule_format, of k] k num cs'(2) by simp
  qed
  moreover have "openers A so (csp_num (lctx s1)) s1" by (rule openers_closed [OF so t num])
  moreover have l: "live (lctx s1)"
  proof -
    have "hd (frame_csp (lctx s1)) \<in> set (tl (frame_csp (lctx s)))" using good_nonempty [OF good] csp by simp
    then show ?thesis using good ol by (auto simp: live_def poly_of_def outer_live_def)
  qed
  moreover have "outer_live s1"
    using ol csp by (cases "tl (frame_csp (lctx s))") (simp_all add: outer_live_def)
  moreover have "sp_fits s1 (length (frame_sp (frame cs')))"
    using live_fits [OF A v1 n l] cells cs'(6) st o by (simp add: stands_def sp_fits_def)
  moreover have "length (labels cs') = csp_num (lctx s1)" using cs'(2) len num by simp
  ultimately show ?thesis using st cs' n unfolding stands_def by auto
qed

lemma end_bytes:
  assumes A: "validated A" and st: "stands A cs s" and m: "in_place A (chip (frame cs))" and o: "opcode_at s = 0x0b"
  shows "exec_control V F cs = exec_end F (cs\<lparr>frame := (frame cs)\<lparr>frame_ip := lp s + 1\<rparr>\<rparr>)"
proof -
  have v: "visited A s" and n: "0 < csp_num (lctx s)" using st stands_visited by (simp_all add: stands_def)
  from A v n obtain s1 where t: "turn A s s1" by (rule visited_open) blast
  have "chip (frame cs) (lp s) = 0x0b" using A v n t
  proof (cases rule: turn_cases)
    case half
    have v1: "visited A s1" by (rule visited_turn [OF v t])
    have n1: "0 < csp_num (lctx s1)" using half(3) n by (simp add: divides_def)
    from A v1 n1 obtain s2 where t2: "turn A s1 s2" by (rule visited_open) blast
    have o1: "opcode_at s1 = 0x0b" "\<not> unfinished_if s1" using half by (simp_all add: divides_def unfinished_if_def)
    then have "lp s2 = lp s1 + 1" "lmem s2 = lmem s1" using A v1 n1 t2 by (auto elim: turn_cases)
    then show ?thesis using turn_byte [OF A v1 n1 t2 m] turn_at(2) [OF A v1 n1] half(4) o1(1) by simp
  next
    case closing
    then show ?thesis using turn_byte [OF A v n t m] turn_at(2) [OF A v n] by simp
  qed (use o in simp_all)
  then show ?thesis
    using st by (simp add: exec_control_def fetch_byte_def stands_def exec_opcode_def checks_suspend_def
        EXT_OP_BLOCK_def EXT_OP_LOOP_def EXT_OP_IF_def EXT_OP_BR_TABLE_CACHE_def)
qed

lemma ret_cells_result: "ret_cells ft = result_count_of (Type_index ft)"
  by (simp add: ret_cells_def result_count_of_def wasm_get_cell_num_eq)

lemma param_cells_count: "param_cells ft = param_count_of (Type_index ft)"
  by (simp add: param_cells_def param_count_of_def wasm_get_cell_num_eq)

text \<open>At an \<open>end\<close>: the label goes, or the function returns.\<close>

lemma end_stands:
  assumes A: "validated A" and st: "stands A cs s" and m: "in_place A (chip (frame cs))" and o: "opcode_at s = 0x0b"
  shows "safe_run A V (addr_cache cs) (exec_control V (vb_fun A) cs)"
proof -
  have v: "visited A s" and n: "0 < csp_num (lctx s)" using st stands_visited by (simp_all add: stands_def)
  from A v n obtain s1 where t: "turn A s s1" by (rule visited_open) blast
  have len: "length (labels cs) = csp_num (lctx s)" using st by (simp add: stands_def)
  let ?cs = "cs\<lparr>frame := (frame cs)\<lparr>frame_ip := lp s + 1\<rparr>\<rparr>"
  have goes: "safe_run A V (addr_cache cs) (exec_end (vb_fun A) ?cs)"
    if "stands A (?cs\<lparr>labels := tl (labels cs)\<rparr>) u" "1 < csp_num (lctx s)" for u
    using that len by (auto simp: exec_end_def)
  show ?thesis unfolding end_bytes [OF A st m o]
  proof (cases "1 < csp_num (lctx s)")
    case True
    show "safe_run A V (addr_cache cs) (exec_end (vb_fun A) ?cs)" using A v n t
    proof (cases rule: turn_cases)
      case half
      have n1: "csp_num (lctx s1) = csp_num (lctx s)" using half(3) by (simp add: divides_def)
      have v1: "visited A s1" by (rule visited_turn [OF v t])
      from A v1 n n1 obtain s2 where t2: "turn A s1 s2" by (metis visited_open)
      have o1: "opcode_at s1 = 0x0b" "\<not> unfinished_if s1" using half by (simp_all add: divides_def unfinished_if_def)
      have cl: "closes (vb_end A) (fetched s1) s2" "lp s2 = lp s1 + 1"
        using A v1 n n1 t2 o1 by (auto elim: turn_cases)
      from st obtain so where so: "openers A so (csp_num (lctx s)) s"
        and fits: "\<forall>k<csp_num (lctx s). label_fits A k (so k) (labels cs ! (csp_num (lctx s) - Suc k))"
        by (auto simp: stands_def)
      obtain k where k: "csp_num (lctx s) = Suc k" using n by (cases "csp_num (lctx s)") simp_all
      have "inside A k (so k) s1" using inside_next [OF openersD(3) [OF so k] t] n1 k by simp
      then have st1: "stands A cs s1"
        using st k n1 half(3,4) o o1
        by (intro landing [OF A st so fits, of k]) (auto simp: stands_def sp_fits_def divides_def height_def alike_def)
      show ?thesis
        using True cl n1 half(4) st by (intro goes [of s2] closing_stands [OF A st1 o1(1) t2 cl(1)]) (simp_all add: closes_def stands_def)
    next
      case closing
      show ?thesis
        using True closing st by (intro goes [of s1] closing_stands [OF A st o t closing(3)]) (simp_all add: closes_def stands_def)
    qed (use o in simp_all)
  next
    case False
    then have one: "csp_num (lctx s) = 1" using n by simp
    have "level_block 0 s = top_block s" using level_block_top [OF good_at [OF A v n], of 0] one by simp
    then have "length (frame_sp (frame cs)) = ret_cells (func_type (vb_fun A))"
      using function_level [OF A v n] st o by (simp add: stands_def sp_fits_def height_def ret_cells_result)
    then show "safe_run A V (addr_cache cs) (exec_end (vb_fun A) ?cs)"
      using one len by (simp add: exec_end_def exec_return_def)
  qed
qed

section \<open>Entering a block\<close>

lemma high_bit_large:
  assumes "bit (v :: u32) 31"
  shows "2 ^ 31 \<le> unat v"
proof (rule ccontr)
  assume "\<not> 2 ^ 31 \<le> unat v"
  then have "\<not> odd (unat v div 2 ^ 31)" by simp
  moreover have "bit (unat v) 31" using assms by (simp add: bit_unsigned_iff)
  ultimately show False by (simp add: bit_iff_odd)
qed

lemma signed_as_unsigned:
  assumes r: "read_leb_int32 m p e = Inr (v, p')" and v: "unat v < 2 ^ 31" and ag: "agree m m' p p'"
  shows "\<exists>r. read_leb_quick m' p 32 False = Some (r, p') \<and> v = ucast r"
proof -
  from r obtain r where rl: "read_leb m p e 32 True = Inr (r, p')" "v = ucast r"
    by (auto simp: read_leb_int32_def)
  from read_leb_fetched [OF rl(1) _ ag] have q: "read_leb_quick m' p 32 True = Some (r, p')" by simp
  then obtain result shift byte where l: "leb_quick_loop m' p 0 0 = Some (result, shift, byte, p')"
    and rr: "r = (if shift < 32 \<and> byte AND 0x40 \<noteq> 0 then result OR push_bit shift (NOT 0) else result)"
    by (auto simp: read_leb_quick_def split: option.splits if_splits)
  have "\<not> (shift < 32 \<and> byte AND 0x40 \<noteq> 0)"
  proof
    assume s: "shift < 32 \<and> byte AND 0x40 \<noteq> 0"
    then have "bit (push_bit shift (NOT 0) :: u64) 31" by (simp add: bit_push_bit_iff bit_not_iff bit_mask_iff)
    then have "bit r 31" using rr s by (simp add: bit_or_iff)
    then have "bit v 31" using rl(2) by (simp add: bit_ucast_iff)
    from high_bit_large [OF this] v show False by simp
  qed
  then show ?thesis using l rr rl(2) by (auto simp: read_leb_quick_def)
qed

text \<open>The header of a block as the interpreter reads it.\<close>

definition ext_opcode :: "u8 \<Rightarrow> u8" where
  "ext_opcode op = EXT_OP_BLOCK + (op - WASM_OP_BLOCK)"

lemma result_count_value: "result_count_of (Value_type t) = wasm_value_type_cell_num t"
  by (simp add: result_count_of_def)

lemma block_header_read:
  assumes rb: "read_block_type M p_end op s = Inr (bt, s2)" and k: "keeps_code s2 s1" and pos: "0 < unat (lp s)"
    and types: "ce_types V = m_types M" "length (m_types M) < 2 ^ 31"
    and i: "frame_ip i = lp s" "agree (lmem s1) (chip i) (lp s - 1) (lp s1)" and op: "lmem s (lp s - 1) = op"
  shows "\<exists>ext. chip i (lp s - 1) = (if ext then ext_opcode op else op) \<and>
    block_header V ext i = done_with ((param_count_of bt, result_count_of bt), i\<lparr>frame_ip := lp s1\<rparr>)"
proof -
  have u: "Suc (unat (lp s - 1)) = unat (lp s)" using unat_pred [OF pos] by simp
  have ag: "chip i b = lmem s1 b" if "unat (lp s - 1) \<le> unat b" "unat b < unat (lp s1)" for b
    using i(2) that by (simp add: agree_def)
  show ?thesis
  proof (cases "is_byte_a_type (lmem s (lp s))")
    case True
    then have s2: "s2 = s\<lparr>lp := lp s + 1\<rparr>" and b: "check_buf (lp s) p_end 1" and bt: "bt = Value_type (lmem s (lp s))"
      using rb by (auto simp: read_block_type_def Let_def split: if_splits)
    have "unat (lp s) < unat (lp s1)" using check_buf_unat [OF b] s2 k by (simp add: keeps_code_def)
    then have "chip i (lp s - 1) = op" "chip i (lp s) = lmem s (lp s)"
      using ag [of "lp s - 1"] ag [of "lp s"] u op s2 k by (simp_all add: keeps_code_def)
    then show ?thesis
      using i(1) s2 k by (intro exI [of _ False])
        (simp add: block_header_def fetch_byte_def bt result_count_value param_count_of_def keeps_code_def)
  next
    case False
    with rb obtain ti p where r: "read_leb_int32 (lmem s) (lp s) p_end = Inr (ti, p)" and ti: "unat ti < length (m_types M)"
      and bt: "bt = Type_index (m_types M ! unat ti)" and s2: "s2 = poke (lp s - 1) (ext_opcode op) (s\<lparr>lp := p\<rparr>)"
      by (auto simp: read_block_type_def Let_def ext_opcode_def split: if_splits)
    have lt: "unat (lp s) < unat (lp s1)" using read_leb_int32_Inr(1) [OF r] s2 k by (simp add: keeps_code_def)
    have "agree (lmem s) (chip i) (lp s) p"
      unfolding agree_def
    proof (intro allI impI)
      fix b :: u32
      assume b: "unat (lp s) \<le> unat b \<and> unat b < unat p"
      then have "b \<noteq> lp s - 1" using u by auto
      with b ag [of b] u s2 k show "chip i b = lmem s b" by (simp add: keeps_code_def)
    qed
    from signed_as_unsigned [OF r _ this] ti types(2) have "fetch_u32 i = done_with (ti, i\<lparr>frame_ip := p\<rparr>)"
      using i(1) by (auto simp: fetch_u32_def)
    moreover have "chip i (lp s - 1) = ext_opcode op" using ag [of "lp s - 1"] u lt s2 k by (simp add: keeps_code_def)
    ultimately show ?thesis
      using ti types(1) s2 k by (intro exI [of _ True])
        (simp add: block_header_def bt ret_cells_result param_cells_count keeps_code_def Let_def)
  qed
qed

text \<open>A label is pushed.\<close>

lemma push_stands:
  assumes A: "validated A" and st: "stands A cs s" and o: "opcode_at s \<noteq> 0x0b" and t: "turn A s s1" and op: "opens op bt s s1"
    and l: "label_fits A (csp_num (lctx s)) s1 l"
    and cs': "frame_ip (frame cs') = lp s1" "labels cs' = l # labels cs" "cache_ok A (addr_cache cs')"
      "length (frame_lp (frame cs')) = length (frame_lp (frame cs))"
      "length (data_segs (frame cs')) = length (data_segs (frame cs))"
      "length (frame_sp (frame cs')) = stack_cell_num (lctx s1)"
  shows "stands A cs' s1"
proof -
  let ?n = "csp_num (lctx s)"
  have v: "visited A s" and n: "0 < ?n" using st stands_visited by (simp_all add: stands_def)
  have v1: "visited A s1" by (rule visited_turn [OF v t])
  from op obtain h where b: "frame_csp (lctx s1) = new_block (LABEL_TYPE_BLOCK + (op - WASM_OP_BLOCK)) bt (lp s1) h # frame_csp (lctx s)"
    "csp_num (lctx s1) = Suc ?n" "live (lctx s1)" "stack_cell_num (lctx s1) = h + param_count_of bt"
    by (auto simp: opens_def)
  have e: "entered A ?n s1"
    using b v1 by (simp add: entered_def opened_def height_def)
  from st obtain so where so: "openers A so ?n s" and fits: "\<forall>k<?n. label_fits A k (so k) (labels cs ! (?n - Suc k))"
    by (auto simp: stands_def)
  have o': "openers A (so(?n := s1)) (csp_num (lctx s1)) s1" using openers_push [OF so refl t e n] b(2) by simp
  have fits': "label_fits A k ((so(?n := s1)) k) (labels cs' ! (csp_num (lctx s1) - Suc k))" if "k < csp_num (lctx s1)" for k
  proof (cases "k = ?n")
    case False
    then have "k < ?n" using that b(2) by simp
    moreover then have "Suc ?n - Suc k = Suc (?n - Suc k)" by simp
    ultimately show ?thesis using fits b(2) cs'(2) by simp
  qed (use l b(2) cs'(2) in simp)
  have "live (lctx s)" using st o by (simp add: stands_def sp_fits_def)
  then have "outer_live s1"
    using st b(1) good_nonempty [of "lctx s"]
    by (cases "frame_csp (lctx s)") (auto simp: outer_live_def stands_def live_def poly_of_def)
  moreover have "sp_fits s1 (length (frame_sp (frame cs')))" using live_fits [OF A v1 _ b(3)] b(2) cs'(6) by simp
  moreover have "length (labels cs') = csp_num (lctx s1)" using cs'(2) b(2) st by (simp add: stands_def)
  ultimately show ?thesis using st o' fits' cs' b(2) unfolding stands_def by auto
qed

lemma enter_dispatch:
  "exec_opcode V F (if ext then ext_opcode 0x02 else 0x02) cs = goes_on (exec_block V ext cs)"
  "exec_opcode V F (if ext then ext_opcode 0x03 else 0x03) cs = goes_on (exec_loop V ext cs)"
  "exec_opcode V F (if ext then ext_opcode 0x04 else 0x04) cs = goes_on (exec_if V ext cs)"
  by (simp_all add: exec_opcode_def checks_suspend_def ext_opcode_def EXT_OP_BLOCK_def EXT_OP_LOOP_def EXT_OP_IF_def
      EXT_OP_BR_TABLE_CACHE_def WASM_OP_BLOCK_def)

text \<open>A turn that opens a block, with all that the interpreter finds there; \<open>h\<close> is the height of the
  block.\<close>

definition entering :: "ValidatedBody \<Rightarrow> ControlState \<Rightarrow> LoaderState \<Rightarrow> LoaderState \<Rightarrow> u8 \<Rightarrow> BlockType \<Rightarrow> nat \<Rightarrow> bool" where
  "entering A cs s s1 op bt h \<longleftrightarrow> stands A cs s \<and> opcode_at s = op \<and> op \<noteq> 0x0b \<and> turn A s s1 \<and> opens op bt s s1 \<and>
     opened A (csp_num (lctx s)) s1 \<and> csp_num (lctx s1) = Suc (csp_num (lctx s)) \<and>
     top_block s1 = new_block (LABEL_TYPE_BLOCK + (op - WASM_OP_BLOCK)) bt (lp s1) h \<and> live (lctx s1) \<and>
     stack_cell_num (lctx s1) = h + param_count_of bt \<and>
     length (frame_sp (frame cs)) = stack_cell_num (lctx s1) + (if op = 0x04 then 1 else 0)"

lemma turn_entering:
  assumes A: "validated A" and V: "env_fits A V" and st: "stands A cs s" and m: "in_place A (chip (frame cs))"
    and t: "turn A s s1" and op: "opcode_at s = op" "op \<in> {0x02, 0x03, 0x04}"
  obtains bt h ext where "entering A cs s s1 op bt h"
    "exec_control V F cs = exec_opcode V F (if ext then ext_opcode op else op)
       (cs\<lparr>frame := (frame cs)\<lparr>frame_ip := lp s + 1\<rparr>\<rparr>)"
    "block_header V ext ((frame cs)\<lparr>frame_ip := lp s + 1\<rparr>) =
       done_with ((param_count_of bt, result_count_of bt), (frame cs)\<lparr>frame_ip := lp s1\<rparr>)"
proof -
  have o: "opcode_at s \<in> {0x02, 0x03, 0x04}" using op by simp
  have v: "visited A s" and n: "0 < csp_num (lctx s)" using st stands_visited by (simp_all add: stands_def)
  obtain k where k: "csp_num (lctx s) = Suc k" using n by (cases "csp_num (lctx s)") simp_all
  from A v n t o obtain bt s2 where e: "opens (opcode_at s) bt s s1"
    "read_block_type (vb_module A) (vb_end A) (opcode_at s) (fetched s) = Inr (bt, s2)" "keeps_code s2 s1"
    "unat (lp s) < unat (lp s1)" by (auto elim: turn_cases)
  note opn = opens_opened [OF A v t e(1) k]
  have n1: "0 < csp_num (lctx s1)" using opn(2) by simp
  have "lp s1 < vb_end A" using visited_open [OF A visited_turn [OF v t] n1] by blast
  then have ag: "agree (lmem s1) (chip (frame cs)) (lp s) (lp s1)"
    by (intro turn_in_place [OF A v n t m]) (simp_all add: word_less_nat_alt)
  let ?i = "(frame cs)\<lparr>frame_ip := lp s + 1\<rparr>"
  have "\<exists>ext. chip ?i (lp (fetched s) - 1) = (if ext then ext_opcode (opcode_at s) else opcode_at s) \<and>
    block_header V ext ?i = done_with ((param_count_of bt, result_count_of bt), ?i\<lparr>frame_ip := lp s1\<rparr>)"
    using V ag turn_at(2) [OF A v n]
    by (intro block_header_read [OF e(2,3)]) (simp_all add: env_fits_def)
  then obtain ext where x: "chip (frame cs) (lp s) = (if ext then ext_opcode (opcode_at s) else opcode_at s)"
    "block_header V ext ?i = done_with ((param_count_of bt, result_count_of bt), (frame cs)\<lparr>frame_ip := lp s1\<rparr>)" by auto
  have "exec_control V F cs = exec_opcode V F (if ext then ext_opcode (opcode_at s) else opcode_at s)
       (cs\<lparr>frame := ?i\<rparr>)"
    using st x(1) by (simp add: exec_control_def fetch_byte_def stands_def)
  moreover have "\<exists>h. entering A cs s s1 (opcode_at s) bt h"
  proof -
    have l: "live (lctx s)" "length (frame_sp (frame cs)) = stack_cell_num (lctx s)"
      using st o by (auto simp: stands_def sp_fits_def)
    from e(1) obtain h where b: "frame_csp (lctx s1) = new_block (LABEL_TYPE_BLOCK + (opcode_at s - WASM_OP_BLOCK)) bt (lp s1) h # frame_csp (lctx s)"
      "live (lctx s1)" "stack_cell_num (lctx s1) = h + param_count_of bt"
      "stack_cell_num (lctx s) = h + param_count_of bt + (if opcode_at s = 0x04 then 1 else 0)"
      using l(1) by (auto simp: opens_def)
    have "opened A (csp_num (lctx s)) s1" using opn(1) k by simp
    then have "entering A cs s s1 (opcode_at s) bt h"
      unfolding entering_def using st t e(1) opn(2) k b l o by auto
    then show ?thesis by blast
  qed
  ultimately show thesis using that x(2) op(1) by blast
qed

lemma entering_push:
  assumes A: "validated A" and e: "entering A cs s s1 op bt h"
    and l: "label_fits A (csp_num (lctx s)) s1 l"
    and cs': "frame_ip (frame cs') = lp s1" "labels cs' = l # labels cs" "cache_ok A (addr_cache cs')"
      "length (frame_lp (frame cs')) = length (frame_lp (frame cs))"
      "length (data_segs (frame cs')) = length (data_segs (frame cs))"
      "length (frame_sp (frame cs')) = stack_cell_num (lctx s1)"
  shows "stands A cs' s1"
  using e by (intro push_stands [OF A _ _ _ _ l cs']) (auto simp: entering_def)

lemma block_label:
  assumes "entering A cs s s1 op bt h" "op \<noteq> 0x03" "op \<in> {0x02, 0x03, 0x04}"
    "target = 0 \<and> op = 0x02 \<or> closes_at A (csp_num (lctx s)) s1 target"
  shows "label_fits A (csp_num (lctx s)) s1
    \<lparr>begin_addr = lp s1, target_addr = target, block_sp = h, block_cells = result_count_of bt\<rparr>"
  using assms
  by (auto simp: label_fits_def entering_def label_cells_def label_types_def result_count_of_def label_type_defs
      WASM_OP_BLOCK_def)

lemma block_stands:
  assumes A: "validated A" and V: "env_fits A V" and st: "stands A cs s" and m: "in_place A (chip (frame cs))"
    and t: "turn A s s1" and o: "opcode_at s = 0x02"
  shows "safe_run A V (addr_cache cs) (exec_control V F cs)"
proof -
  obtain bt h ext where e: "entering A cs s s1 0x02 bt h"
    and "exec_control V F cs = exec_opcode V F (if ext then ext_opcode 0x02 else 0x02) (cs\<lparr>frame := (frame cs)\<lparr>frame_ip := lp s + 1\<rparr>\<rparr>)"
    and hd: "block_header V ext ((frame cs)\<lparr>frame_ip := lp s + 1\<rparr>) =
       done_with ((param_count_of bt, result_count_of bt), (frame cs)\<lparr>frame_ip := lp s1\<rparr>)"
    by (rule turn_entering [OF A V st m t o]) simp
  then have ex: "exec_control V F cs = goes_on (exec_block V ext (cs\<lparr>frame := (frame cs)\<lparr>frame_ip := lp s + 1\<rparr>\<rparr>))"
    by (simp only: enter_dispatch)
  let ?e = "case cache_lookup (addr_cache cs) (lp s1) of None \<Rightarrow> 0 | Some b \<Rightarrow> ba_end b"
  let ?l = "\<lparr>begin_addr = lp s1, target_addr = ?e, block_sp = h, block_cells = result_count_of bt\<rparr>"
  have cok: "cache_ok A (addr_cache cs)" using st by (simp add: stands_def)
  have op: "opened A (csp_num (lctx s)) s1" and sp: "length (frame_sp (frame cs)) = h + param_count_of bt"
    using e by (simp_all add: entering_def)
  have "?e = 0 \<or> closes_at A (csp_num (lctx s)) s1 ?e"
  proof (cases "cache_lookup (addr_cache cs) (lp s1)")
    case (Some b)
    from cache_lookup_ok [OF cok Some opened_range [OF A op]] have "found A (csp_num (lctx s)) s1 (ba_else b) (ba_end b)"
      using entry_ok_found [OF A _ op] by simp
    then show ?thesis using Some by (auto simp: found_def closes_at_def)
  qed simp
  then have l: "label_fits A (csp_num (lctx s)) s1 ?l" by (intro block_label [OF e]) auto
  let ?cs' = "cs\<lparr>frame := (frame cs)\<lparr>frame_ip := lp s1\<rparr>, labels := ?l # labels cs\<rparr>"
  have "exec_control V F cs = done_with (Goes_on ?cs')"
    using sp by (simp add: ex exec_block_def on_frame_def hd PUSH_CSP_def goes_on_def Let_def)
  moreover have "stands A ?cs' s1"
    using e cok by (intro entering_push [OF A e l]) (simp_all add: entering_def)
  ultimately show ?thesis by auto
qed

lemma loop_stands:
  assumes A: "validated A" and V: "env_fits A V" and st: "stands A cs s" and m: "in_place A (chip (frame cs))"
    and t: "turn A s s1" and o: "opcode_at s = 0x03"
  shows "safe_run A V (addr_cache cs) (exec_control V F cs)"
proof -
  obtain bt h ext where e: "entering A cs s s1 0x03 bt h"
    and "exec_control V F cs = exec_opcode V F (if ext then ext_opcode 0x03 else 0x03) (cs\<lparr>frame := (frame cs)\<lparr>frame_ip := lp s + 1\<rparr>\<rparr>)"
    and hd: "block_header V ext ((frame cs)\<lparr>frame_ip := lp s + 1\<rparr>) =
       done_with ((param_count_of bt, result_count_of bt), (frame cs)\<lparr>frame_ip := lp s1\<rparr>)"
    by (rule turn_entering [OF A V st m t o]) simp
  then have ex: "exec_control V F cs = goes_on (exec_loop V ext (cs\<lparr>frame := (frame cs)\<lparr>frame_ip := lp s + 1\<rparr>\<rparr>))"
    by (simp only: enter_dispatch)
  let ?l = "\<lparr>begin_addr = lp s1, target_addr = lp s1, block_sp = h, block_cells = param_count_of bt\<rparr>"
  let ?cs' = "cs\<lparr>frame := (frame cs)\<lparr>frame_ip := lp s1\<rparr>, labels := ?l # labels cs\<rparr>"
  have cok: "cache_ok A (addr_cache cs)" using st by (simp add: stands_def)
  have sp: "length (frame_sp (frame cs)) = h + param_count_of bt" using e by (simp add: entering_def)
  have l: "label_fits A (csp_num (lctx s)) s1 ?l"
    using e by (simp add: label_fits_def entering_def label_cells_def label_types_def param_count_of_def label_type_defs
        WASM_OP_BLOCK_def)
  have "exec_control V F cs = done_with (Goes_on ?cs')"
    using sp by (simp add: ex exec_loop_def on_frame_def hd PUSH_CSP_def goes_on_def)
  moreover have "stands A ?cs' s1"
    using e cok by (intro entering_push [OF A e l]) (simp_all add: entering_def)
  ultimately show ?thesis by auto
qed

lemma if_search:
  assumes A: "validated A" and m: "in_place A (chip (frame cs))" and op: "opened A n so" and c: "cache_ok A (addr_cache cs)"
    and l: "label_type (top_block so) = LABEL_TYPE_IF" and ip: "frame_ip (frame cs) = lp so"
  shows "\<exists>e_else e_end c'. (case cache_lookup (addr_cache cs) (frame_ip (frame cs)) of
        Some b \<Rightarrow> done_with ((ba_else b, ba_end b), cs)
      | None \<Rightarrow> find_block (frame_ip (frame cs)) LABEL_TYPE_IF cs) = done_with ((e_else, e_end), cs\<lparr>addr_cache := c'\<rparr>) \<and>
    found A n so e_else e_end \<and> cache_ok A c' \<and> cache_kept A (addr_cache cs) c'"
proof (cases "cache_lookup (addr_cache cs) (lp so)")
  case (Some b)
  from cache_lookup_ok [OF c Some opened_range [OF A op]] have "found A n so (ba_else b) (ba_end b)"
    using entry_ok_found [OF A _ op] by simp
  then show ?thesis using Some ip c
    by (intro exI [of _ "ba_else b"] exI [of _ "ba_end b"] exI [of _ "addr_cache cs"]) simp
next
  case None
  from find_block_addr_found [OF A m op c, of LABEL_TYPE_IF] l obtain e_else e_end c' where
    f: "wasm_loader_find_block_addr (chip (frame cs)) (addr_cache cs) (lp so) (- 1) LABEL_TYPE_IF = done_with (e_else, e_end, c')"
      "found A n so e_else e_end" "cache_kept A (addr_cache cs) c'"
    by (auto simp: cache_kept_def)
  have "cache_ok A c'" using f(3) c entry_trusted unfolding cache_kept_def by blast
  with f None ip show ?thesis by (intro exI [of _ e_else] exI [of _ e_end] exI [of _ c']) (simp add: find_block_def)
qed

text \<open>The false branch of an \<open>if\<close>: behind the \<open>else\<close>, or behind the \<open>end\<close>.\<close>

lemma if_completes:
  assumes A: "validated A" and e: "entering A cs s s1 0x04 bt h" and f: "found A (csp_num (lctx s)) s1 e_else e_end"
  obtains (one) se se' where "e_else = 0" "e_end = lp se" "completes A (csp_num (lctx s)) s1 None se" "turn A se se'"
      "closes (vb_end A) (fetched se) se'" "lp se' = lp se + 1" "inside A (csp_num (lctx s)) s1 se"
      "csp_num (lctx se) = Suc (csp_num (lctx s))" "opcode_at se = 0x0b" "param_count_of bt = result_count_of bt"
  | (two) sx' where "e_else \<noteq> 0" "lp sx' = e_else + 1" "inside A (csp_num (lctx s)) s1 sx'"
      "csp_num (lctx sx') = Suc (csp_num (lctx s))" "live (lctx sx')" "stack_cell_num (lctx sx') = h + param_count_of bt"
proof -
  let ?n = "csp_num (lctx s)"
  have top: "top_block s1 = new_block LABEL_TYPE_IF bt (lp s1) h" and num: "csp_num (lctx s1) = Suc ?n" and op: "opened A ?n s1"
    using e by (simp_all add: entering_def WASM_OP_BLOCK_def label_type_defs)
  have v1: "visited A s1" using op by (simp add: opened_def)
  have g1: "good_ctx (lctx s1)" using good_at [OF A v1] num by simp
  have lv: "level_block ?n s1 = top_block s1" by (rule level_block_top [OF g1 num])
  have below: "alike (new_block LABEL_TYPE_IF bt (lp s1) h) (top_block u)"
    if i: "inside A ?n s1 u" and c: "csp_num (lctx u) = Suc ?n" for u
  proof -
    have "good_ctx (lctx u)" using good_at [OF A inside_visited [OF i v1]] c by simp
    from level_block_top [OF this c] inside_levels(1) [OF A i v1] lv top show ?thesis by simp
  qed
  from f obtain x se where c: "completes A ?n s1 x se" and ee: "e_else = case_option 0 id x" "e_end = lp se"
    by (auto simp: found_def)
  show thesis
  proof (cases x)
    case None
    from c v1 obtain se' where se: "turn A se se'" "csp_num (lctx se') = ?n" "csp_num (lctx se) = Suc ?n" "opcode_at se = 0x0b"
      "closes (vb_end A) (fetched se) se'" "lp se' = lp se + 1" "inside A ?n s1 se"
      by (rule completes_end_at [OF A])
    from c None lv top obtain sh where sh: "inside A ?n s1 sh" "csp_num (lctx sh) = Suc ?n" "opcode_at sh = 0x0b"
      "unfinished_if sh" "turn A sh se" by (auto simp: completes_def)
    have vh: "visited A sh" and nh: "0 < csp_num (lctx sh)" using inside_visited [OF sh(1) v1] sh(2) by simp_all
    have "divides sh se" using A vh nh sh(5) sh(3,4) by (auto elim: turn_cases)
    then have "stack_cell_num (lctx se) = height (lctx sh) + param_count_of (block_type (top_block sh))" "live (lctx se)"
      by (simp_all add: divides_def)
    moreover have "stack_cell_num (lctx se) = height (lctx se) + result_count_of (block_type (top_block se))"
      using se(5) \<open>live (lctx se)\<close> by (simp add: closes_def)
    ultimately have "param_count_of bt = result_count_of bt"
      using below [OF sh(1,2)] below [OF se(7,3)] by (simp add: alike_def height_def)
    with one [of se se'] ee None c se show thesis by simp
  next
    case (Some a)
    from c Some lv top obtain sx sx' where sx: "inside A ?n s1 sx" "csp_num (lctx sx) = Suc ?n" "opcode_at sx = 0x05" "lp sx = a"
      "turn A sx sx'" by (auto simp: completes_def)
    have vx: "visited A sx" and nx: "0 < csp_num (lctx sx)" using inside_visited [OF sx(1) v1] sx(2) by simp_all
    have d: "divides sx sx'" "lp sx' = a + 1" using A vx nx sx(5) sx(3,4) by (auto elim: turn_cases)
    have nx': "csp_num (lctx sx') = Suc ?n" using d(1) sx(2) by (simp add: divides_def)
    have i: "inside A ?n s1 sx'" by (rule inside_next [OF sx(1,5)]) (simp add: nx')
    have "a \<noteq> 0" using A vx nx sx(4) visited_open [of A sx] by fastforce
    with two [of sx'] ee Some d i nx' below [OF sx(1,2)] show thesis
      by (simp add: divides_def alike_def height_def)
  qed
qed

text \<open>Moving within the innermost block.\<close>

lemma landing_from:
  assumes A: "validated A" and st: "stands A cs s" and n: "csp_num (lctx s) = Suc k" and t: "inside A k s t" "csp_num (lctx t) = Suc k"
    and cs': "frame_ip (frame cs') = lp t" "labels cs' = labels cs"
      "cache_ok A (addr_cache cs')" "length (frame_lp (frame cs')) = length (frame_lp (frame cs))"
      "length (data_segs (frame cs')) = length (data_segs (frame cs))"
    and sp: "sp_fits t (length (frame_sp (frame cs')))"
  shows "stands A cs' t"
proof -
  from st obtain so where so: "openers A so (csp_num (lctx s)) s"
    and fits: "\<forall>k<csp_num (lctx s). label_fits A k (so k) (labels cs ! (csp_num (lctx s) - Suc k))"
    by (auto simp: stands_def)
  have "inside A k (so k) t" by (rule inside_trans [OF t(1) openersD(3) [OF so n]])
  then show ?thesis using n cs' t(2) sp by (intro landing [OF A st so fits, of k]) simp_all
qed

lemma end_fits:
  assumes A: "validated A" and v: "visited A s" and n: "csp_num (lctx s) = Suc k" and i: "inside A k s t" "csp_num (lctx t) = Suc k"
    and o: "opcode_at t = 0x0b"
  shows "sp_fits t (height (lctx s) + result_count_of (block_type (top_block s)))"
proof -
  have "good_ctx (lctx s)" "good_ctx (lctx t)" using good_at [OF A v] good_at [OF A inside_visited [OF i(1) v]] n i(2) by simp_all
  from level_block_top [OF this(1) n] level_block_top [OF this(2) i(2)] inside_levels(1) [OF A i(1) v]
  show ?thesis using o by (simp add: sp_fits_def alike_def height_def)
qed

lemma if_stands:
  assumes A: "validated A" and V: "env_fits A V" and st: "stands A cs s" and m: "in_place A (chip (frame cs))"
    and t: "turn A s s1" and o: "opcode_at s = 0x04"
  shows "safe_run A V (addr_cache cs) (exec_control V F cs)"
proof -
  obtain bt h ext where e: "entering A cs s s1 0x04 bt h"
    and "exec_control V F cs = exec_opcode V F (if ext then ext_opcode 0x04 else 0x04) (cs\<lparr>frame := (frame cs)\<lparr>frame_ip := lp s + 1\<rparr>\<rparr>)"
    and hd: "block_header V ext ((frame cs)\<lparr>frame_ip := lp s + 1\<rparr>) =
       done_with ((param_count_of bt, result_count_of bt), (frame cs)\<lparr>frame_ip := lp s1\<rparr>)"
    by (rule turn_entering [OF A V st m t o]) simp
  then have ex: "exec_control V F cs = goes_on (exec_if V ext (cs\<lparr>frame := (frame cs)\<lparr>frame_ip := lp s + 1\<rparr>\<rparr>))"
    by (simp only: enter_dispatch)
  let ?n = "csp_num (lctx s)"
  have n: "0 < ?n" using st by (simp add: stands_def)
  have op: "opened A ?n s1" and top: "top_block s1 = new_block LABEL_TYPE_IF bt (lp s1) h" and num: "csp_num (lctx s1) = Suc ?n"
    and lv: "live (lctx s1)" "stack_cell_num (lctx s1) = h + param_count_of bt"
    and len: "length (frame_sp (frame cs)) = Suc (h + param_count_of bt)"
    using e by (simp_all add: entering_def WASM_OP_BLOCK_def label_type_defs)
  have v1: "visited A s1" using op by (simp add: opened_def)
  obtain v sp where sp: "frame_sp (frame cs) = v # sp" and lsp: "length sp = h + param_count_of bt"
    using len by (cases "frame_sp (frame cs)") auto
  have cok: "cache_ok A (addr_cache cs)" using st by (simp add: stands_def)
  let ?cs1 = "cs\<lparr>frame := (frame cs)\<lparr>frame_ip := lp s1\<rparr>\<rparr>"
  obtain e_else e_end c' where f: "(case cache_lookup (addr_cache ?cs1) (frame_ip (frame ?cs1)) of
        Some b \<Rightarrow> done_with ((ba_else b, ba_end b), ?cs1)
      | None \<Rightarrow> find_block (frame_ip (frame ?cs1)) LABEL_TYPE_IF ?cs1) = done_with ((e_else, e_end), ?cs1\<lparr>addr_cache := c'\<rparr>)"
    "found A ?n s1 e_else e_end" "cache_ok A c'" "cache_kept A (addr_cache cs) c'"
    using if_search [OF A, of ?cs1 ?n s1] m op cok top by auto
  let ?l = "\<lparr>begin_addr = lp s1, target_addr = e_end, block_sp = h, block_cells = result_count_of bt\<rparr>"
  let ?p = "cs\<lparr>addr_cache := c', frame := (frame cs)\<lparr>frame_ip := lp s1, frame_sp := sp\<rparr>, labels := ?l # labels cs\<rparr>"
  let ?q = "cs\<lparr>addr_cache := c', frame := (frame cs)\<lparr>frame_ip := lp s1, frame_sp := sp\<rparr>\<rparr>"
  have run: "exec_control V F cs = goes_on (if v \<noteq> 0 then done_with ?p
      else if e_else = 0 then done_with (jump_to (e_end + 1) ?q) else done_with (jump_to (e_else + 1) ?p))"
    using f(1) lsp sp by (simp add: ex exec_if_def on_frame_def hd pop32_def PUSH_CSP_def)
  have "closes_at A ?n s1 e_end" using f(2) by (auto simp: found_def closes_at_def)
  then have l: "label_fits A ?n s1 ?l" by (intro block_label [OF e]) simp_all
  have p: "stands A ?p s1" using f(3) lsp lv by (intro entering_push [OF A e l]) simp_all
  show ?thesis
  proof (cases "v \<noteq> 0")
    case True
    then show ?thesis using run p f(4) by (auto simp: goes_on_def)
  next
    case False
    from A e f(2) show ?thesis
    proof (cases rule: if_completes)
      case (one se se')
      have "height (lctx s1) = h" using top by (simp add: height_def)
      then have fit: "sp_fits se (h + result_count_of bt)" using end_fits [OF A v1 num one(7,8,9)] top by simp
      have at_se: "stands A (jump_to (lp se) ?p) se"
        using fit f(3) lsp one(10) by (intro landing_from [OF A p num one(7,8)]) (simp_all add: jump_to_def)
      then have "stands A (jump_to (e_end + 1) ?q) se'"
        using one(2,5,6,8) n f(3)
        by (intro closing_stands [OF A at_se one(9,4,5)]) (simp_all add: jump_to_def closes_def)
      then show ?thesis using run False one(1) f(4) by (auto simp: goes_on_def jump_to_def)
    next
      case (two sx')
      have "visited A sx'" by (rule inside_visited [OF two(3) v1])
      then have "sp_fits sx' (h + param_count_of bt)" using live_fits [OF A _ _ two(5)] two(4,6) by simp
      then have "stands A (jump_to (e_else + 1) ?p) sx'"
        using f(3) lsp two(2) by (intro landing_from [OF A p num two(3,4)]) (simp_all add: jump_to_def)
      then show ?thesis using run False two(1) f(4) by (auto simp: goes_on_def jump_to_def)
    qed
  qed
qed

lemma else_stands:
  assumes A: "validated A" and st: "stands A cs s" and m: "in_place A (chip (frame cs))"
    and t: "turn A s s1" and o: "opcode_at s = 0x05"
  shows "safe_run A V (addr_cache cs) (exec_control V F cs)"
proof -
  have v: "visited A s" and n: "0 < csp_num (lctx s)" using st stands_visited by (simp_all add: stands_def)
  obtain k where k: "csp_num (lctx s) = Suc k" using n by (cases "csp_num (lctx s)") simp_all
  have d: "divides s s1" "lp s1 = lp s + 1" "lmem s1 = lmem s" using A v n t o by (auto elim: turn_cases)
  have "unat (lp s) < unat (lp s1)" using turn_at(2) [OF A v n] d(2) by simp
  then have ex: "exec_control V F cs = goes_on (exec_else (cs\<lparr>frame := (frame cs)\<lparr>frame_ip := lp s + 1\<rparr>\<rparr>))"
    using stands_fetch [OF A st m t, of V F] d(3) o
    by (simp add: exec_opcode_def checks_suspend_def EXT_OP_BLOCK_def EXT_OP_LOOP_def EXT_OP_IF_def EXT_OP_BR_TABLE_CACHE_def)
  from st obtain so where so: "openers A so (csp_num (lctx s)) s"
    and fits: "\<forall>k<csp_num (lctx s). label_fits A k (so k) (labels cs ! (csp_num (lctx s) - Suc k))"
    by (auto simp: stands_def)
  have len: "length (labels cs) = Suc k" using st k by (simp add: stands_def)
  then obtain l ls where ls: "labels cs = l # ls" by (cases "labels cs") auto
  have e: "entered A k (so k)" using openersD(1) [OF so] k by simp
  note f = entered_facts [OF e]
  have al: "alike (top_block (so k)) (top_block s)"
    using opener_level(1) [OF A so, of k] level_block_top [OF good_at [OF A v n] k] k by simp
  have i: "label_type (top_block (so k)) = LABEL_TYPE_IF" using al d(1) by (simp add: alike_def divides_def)
  have "label_fits A k (so k) l" using fits k ls by force
  then obtain x se where c: "completes A k (so k) x se" and tg: "target_addr l = lp se"
    using i by (auto simp: label_fits_def Let_def closes_at_def label_type_defs)
  from c f(1) obtain se' where se: "csp_num (lctx se) = Suc k" "inside A k (so k) se" by (rule completes_end_at [OF A])
  have sp: "length (frame_sp (frame cs)) = height (lctx s) + result_count_of (block_type (top_block s))"
    using st o d(1) by (simp add: stands_def sp_fits_def divides_def)
  have "block_stack_cell_num (top_block (so k)) + label_cells (top_block (so k)) = length (frame_sp (frame cs))"
    using al i sp by (simp add: alike_def height_def label_cells_def label_types_def result_count_of_def label_type_defs)
  then have "sp_fits se (length (frame_sp (frame cs)))"
    using landing_fits [OF A so _ c] k i by (simp add: label_type_defs)
  then have "stands A (jump_to (target_addr l) cs) se"
    using st tg k se by (intro landing [OF A st so fits, of k]) (simp_all add: jump_to_def stands_def)
  then show ?thesis using ex ls by (auto simp: exec_else_def goes_on_def jump_to_def)
qed

section \<open>Branches and returns\<close>

lemma fetch_u32_at:
  assumes r: "read_leb_uint32 m p e = Inr (v, q)" and i: "frame_ip i = p" "agree m (chip i) p q"
  shows "fetch_u32 i = done_with (v, i\<lparr>frame_ip := q\<rparr>)"
proof -
  from r obtain x where x: "read_leb m p e 32 False = Inr (x, q)" "v = ucast x" by (auto simp: read_leb_uint32_def)
  from read_leb_fetched [OF x(1) _ i(2)] i(1) x(2) show ?thesis by (simp add: fetch_u32_def)
qed

text \<open>What is known when an instruction that is no block opcode is fetched.\<close>

lemma plain_fetch:
  assumes A: "validated A" and st: "stands A cs s" and m: "in_place A (chip (frame cs))" and t: "turn A s s1"
    and o: "opcode_at s \<notin> {0x02, 0x03, 0x04, 0x05, 0x0b}"
  shows "same_blocks (lctx s) (lctx s1)" "unat (lp s) < unat (lp s1)" "live (lctx s)"
    "length (frame_sp (frame cs)) = stack_cell_num (lctx s)" "agree (lmem s1) (chip (frame cs)) (lp s) (lp s1)"
    "exec_control V F cs = exec_opcode V F (lmem s1 (lp s)) (cs\<lparr>frame := (frame cs)\<lparr>frame_ip := lp s + 1\<rparr>\<rparr>)"
    "prepare_opcode (vb_env A) (vb_module A) (vb_fun A) (vb_end A) (opcode_at s) (fetched s) = Inr s1"
    "unat (lp s + 1) = unat (lp s) + 1" "1 < unat (lp s)"
proof -
  have v: "visited A s" and n: "0 < csp_num (lctx s)" using st stands_visited by (simp_all add: stands_def)
  show pl: "same_blocks (lctx s) (lctx s1)" "unat (lp s) < unat (lp s1)"
    using A v n t by (cases rule: turn_cases; use o in simp)+
  show "live (lctx s)" "length (frame_sp (frame cs)) = stack_cell_num (lctx s)"
    using st o by (simp_all add: stands_def sp_fits_def)
  have "0 < csp_num (lctx s1)" using pl(1) n by (simp add: same_blocks_def)
  then have "lp s1 < vb_end A" using visited_open [OF A visited_turn [OF v t]] by blast
  then show "agree (lmem s1) (chip (frame cs)) (lp s) (lp s1)"
    by (intro turn_in_place [OF A v n t m]) (simp_all add: word_less_nat_alt)
  show "exec_control V F cs = exec_opcode V F (lmem s1 (lp s)) (cs\<lparr>frame := (frame cs)\<lparr>frame_ip := lp s + 1\<rparr>\<rparr>)"
    by (rule stands_fetch [OF A st m t pl(2)])
  show "prepare_opcode (vb_env A) (vb_module A) (vb_fun A) (vb_end A) (opcode_at s) (fetched s) = Inr s1"
    by (rule turn_opcode [OF t])
  show "unat (lp s + 1) = unat (lp s) + 1" by (rule turn_at(2) [OF A v n])
  show "1 < unat (lp s)" using A v n by (metis visited_open)
qed

text \<open>A taken branch.\<close>

lemma branch_safe:
  assumes A: "validated A" and st: "stands A cs s" and m: "in_place A (chip (frame cs0))"
    and same: "labels cs0 = labels cs" "addr_cache cs0 = addr_cache cs" "length (frame_lp (frame cs0)) = length (frame_lp (frame cs))"
      "length (data_segs (frame cs0)) = length (data_segs (frame cs))"
    and c: "live c" "wasm_loader_check_br av c d opcode = Inr c'" "frame_csp c = frame_csp (lctx s)"
      "csp_num c = csp_num (lctx s)" "length (frame_sp (frame cs0)) = stack_cell_num c"
  shows "safe_run A V (addr_cache cs) (goes_on (label_pop_csp_n d cs0))"
proof -
  note e = check_br_enough [OF c(1,2)]
  have h: "height c = height (lctx s)" using c(3) by (simp add: height_def)
  have "block_stack_cell_num (frame_csp (lctx s) ! unat d) + label_cells (frame_csp (lctx s) ! unat d) \<le> length (frame_sp (frame cs0))"
    using e(2,3) c(3,5) by simp
  from branch_lands [OF A st m same _ this] e(1) c(4) obtain cs' t where
    "label_pop_csp_n d cs0 = done_with cs'" "stands A cs' t" "cache_kept A (addr_cache cs) (addr_cache cs')" by auto
  then show ?thesis by (auto simp: goes_on_def)
qed

lemma terminate_safe: "checks_suspend op \<Longrightarrow> ce_terminate V \<Longrightarrow> safe_run A V c (exec_opcode V F op cs)"
  by (simp add: exec_opcode_def)

lemma br_dispatch:
  assumes "\<not> ce_terminate V"
  shows "exec_opcode V F 0x0c cs = goes_on (exec_br cs)" "exec_opcode V F 0x0d cs = goes_on (exec_br_if cs)"
    "exec_opcode V F 0x0e cs = goes_on (exec_br_table cs)"
    "exec_opcode V F EXT_OP_BR_TABLE_CACHE cs = goes_on (exec_br_table_cache V cs)"
    "exec_opcode V F 0x10 cs = exec_call V cs" "exec_opcode V F 0x11 cs = exec_call_indirect V cs"
  using assms by (simp_all add: exec_opcode_def EXT_OP_BLOCK_def EXT_OP_LOOP_def EXT_OP_IF_def EXT_OP_BR_TABLE_CACHE_def)

lemma suspend_ops: "checks_suspend 0x0c" "checks_suspend 0x0d" "checks_suspend 0x0e" "checks_suspend EXT_OP_BR_TABLE_CACHE"
  "checks_suspend 0x10" "checks_suspend 0x11"
  by (simp_all add: checks_suspend_def)

lemma br_stands:
  assumes A: "validated A" and V: "env_fits A V" and st: "stands A cs s" and m: "in_place A (chip (frame cs))"
    and t: "turn A s s1" and o: "opcode_at s = 0x0c"
  shows "safe_run A V (addr_cache cs) (exec_control V F cs)"
proof -
  have no: "opcode_at s \<notin> {0x02, 0x03, 0x04, 0x05, 0x0b}" using o by simp
  note p = plain_fetch [OF A st m t no] and p6 = plain_fetch(6) [OF A st m t no, of V F]
  have op: "op_br (env_av (vb_env A)) (vb_end A) 0x0c (fetched s) = Inr s1" using p(7) o by (simp add: prepare_opcode_def)
  then obtain s2 where s2: "check_branch_block (env_av (vb_env A)) (vb_end A) 0x0c (fetched s) = Inr s2"
    and mu: "mark_unreachable s2 = Inr s1" by (auto simp: op_br_def)
  from s2 obtain d c where r: "read_leb_uint32 (lmem s) (lp s + 1) (vb_end A) = Inr (d, lp s2)"
    and c: "wasm_loader_check_br (env_av (vb_env A)) (lctx s) d 0x0c = Inr c" "lmem s2 = lmem s"
    by (auto elim!: check_branch_block_Inr)
  have k: "lmem s1 = lmem s" "lp s1 = lp s2" using mu c(2) by (auto simp: mark_unreachable_def)
  let ?cs = "cs\<lparr>frame := (frame cs)\<lparr>frame_ip := lp s + 1\<rparr>\<rparr>"
  have "agree (lmem s) (chip (frame ?cs)) (lp s + 1) (lp s2)"
    using p(5,8) k by (auto intro: agree_sub)
  from fetch_u32_at [OF r _ this] have ft: "fetch_u32 (frame ?cs) = done_with (d, (frame ?cs)\<lparr>frame_ip := lp s2\<rparr>)" by simp
  have ex: "exec_control V F cs = exec_opcode V F 0x0c ?cs" using p6 k(1) o by simp
  show ?thesis
  proof (cases "ce_terminate V")
    case True
    then show ?thesis using terminate_safe suspend_ops(1) ex by metis
  next
    case False
    have "exec_control V F cs = goes_on (label_pop_csp_n d (?cs\<lparr>frame := (frame ?cs)\<lparr>frame_ip := lp s2\<rparr>\<rparr>))"
      using ft by (simp add: ex br_dispatch(1) [OF False] exec_br_def on_frame_def)
    then show ?thesis using m p(4) branch_safe [OF A st _ _ _ _ _ p(3) c(1), of "?cs\<lparr>frame := (frame ?cs)\<lparr>frame_ip := lp s2\<rparr>\<rparr>"]
      by simp
  qed
qed

lemma br_if_stands:
  assumes A: "validated A" and V: "env_fits A V" and st: "stands A cs s" and m: "in_place A (chip (frame cs))"
    and t: "turn A s s1" and o: "opcode_at s = 0x0d"
  shows "safe_run A V (addr_cache cs) (exec_control V F cs)"
proof -
  have no: "opcode_at s \<notin> {0x02, 0x03, 0x04, 0x05, 0x0b}" using o by simp
  note p = plain_fetch [OF A st m t no] and p6 = plain_fetch(6) [OF A st m t no, of V F]
  have op: "op_br_if (env_av (vb_env A)) (vb_end A) 0x0d (fetched s) = Inr s1" using p(7) o by (simp add: prepare_opcode_def)
  then obtain s2 where s2: "POP_TYPE VALUE_TYPE_I32 (fetched s) = Inr s2"
    and s1: "check_branch_block (env_av (vb_env A)) (vb_end A) 0x0d s2 = Inr s1" by (auto simp: op_br_if_def)
  have k2: "lmem s2 = lmem s" "lp s2 = lp s + 1" using keeps_codeD(2) [OF s2] by (simp_all add: keeps_code_def)
  have cnt: "counts 1 0 (lctx s) (lctx s2)" using POP_TYPE_moves [OF _ _ s2] p(3) by (simp add: moves_def)
  from s1 obtain d c where r: "read_leb_uint32 (lmem s) (lp s + 1) (vb_end A) = Inr (d, lp s1)"
    and c: "wasm_loader_check_br (env_av (vb_env A)) (lctx s2) d 0x0d = Inr c" "lmem s1 = lmem s" "lctx s1 = c"
    by (auto elim!: check_branch_block_Inr simp: k2)
  have l2: "live (lctx s2)" using cnt by (simp add: counts_def)
  then have "c = lctx s2" using check_br_live [OF _ c(1)] by (simp add: live_def)
  then have l1: "live (lctx s1)" "stack_cell_num (lctx s1) + 1 = stack_cell_num (lctx s)" using cnt c(3) by (simp_all add: counts_def)
  let ?cs = "cs\<lparr>frame := (frame cs)\<lparr>frame_ip := lp s + 1\<rparr>\<rparr>"
  have "agree (lmem s) (chip (frame ?cs)) (lp s + 1) (lp s1)"
    using p(5,8) c(2) by (auto intro: agree_sub)
  from fetch_u32_at [OF r _ this] have ft: "fetch_u32 (frame ?cs) = done_with (d, (frame ?cs)\<lparr>frame_ip := lp s1\<rparr>)" by simp
  obtain v sp where sp: "frame_sp (frame cs) = v # sp" "length sp = stack_cell_num (lctx s1)"
    using p(4) l1(2) by (cases "frame_sp (frame cs)") auto
  let ?cs1 = "?cs\<lparr>frame := (frame ?cs)\<lparr>frame_ip := lp s1, frame_sp := sp\<rparr>\<rparr>"
  have ex: "exec_control V F cs = exec_opcode V F 0x0d ?cs" using p6 c(2) o by simp
  show ?thesis
  proof (cases "ce_terminate V")
    case True
    then show ?thesis using terminate_safe suspend_ops(2) ex by metis
  next
    case False
    have run: "exec_control V F cs = goes_on (if v \<noteq> 0 then label_pop_csp_n d ?cs1 else done_with ?cs1)"
      using ft sp(1) by (simp add: ex br_dispatch(2) [OF False] exec_br_if_def on_frame_def pop32_def)
    have "frame_csp (lctx s2) = frame_csp (lctx s)" "csp_num (lctx s2) = csp_num (lctx s)"
      using cnt by (simp_all add: counts_def stack_only_def)
    then have "safe_run A V (addr_cache cs) (goes_on (label_pop_csp_n d ?cs1))"
      using m sp(2) \<open>c = lctx s2\<close> c(3) by (intro branch_safe [OF A st _ _ _ _ _ l2 c(1)]) simp_all
    moreover have "stands A ?cs1 s1"
      using st sp(2) by (intro onward [OF A st t p(1) l1(1)]) (simp_all add: stands_def)
    ultimately show ?thesis using run by (auto simp: goes_on_def)
  qed
qed

section \<open>The depths that were put aside\<close>

abbreviation same_caches :: "LoaderState \<Rightarrow> LoaderState \<Rightarrow> bool" where
  "same_caches s s' \<equiv> br_table_caches s' = br_table_caches s"

lemma poke_caches [simp]: "br_table_caches (poke a b s) = br_table_caches s"
  by (simp add: poke_def)

lemma fill_nops_caches [simp]: "br_table_caches (fill_nops p s) = br_table_caches s"
  by (simp add: fill_nops_def)

lemma rewrite_local_caches [simp]: "br_table_caches (rewrite_local op t off p s) = br_table_caches s"
  by (simp add: rewrite_local_def Let_def)

lemma ctx_caches:
  "on_ctx f s = Inr s' \<Longrightarrow> same_caches s s'" "POP_TYPE t s = Inr s' \<Longrightarrow> same_caches s s'"
  "POP_TYPES ts s = Inr s' \<Longrightarrow> same_caches s s'" "PUSH_TYPES av ts s = Inr s' \<Longrightarrow> same_caches s s'"
  "POPS_AND_PUSH av n t t' s = Inr s' \<Longrightarrow> same_caches s s'" "mark_unreachable s = Inr s' \<Longrightarrow> same_caches s s'"
  "call_type av ft s = Inr s' \<Longrightarrow> same_caches s s'"
  by (auto simp: on_ctx_Inr POP_TYPE_def POP_TYPES_def PUSH_TYPES_def POPS_AND_PUSH_def mark_unreachable_def call_type_def)

lemma u32_caches: "read_u32 e s = Inr (v, s') \<Longrightarrow> same_caches s s'"
  by (auto simp: read_u32_code)

lemma branch_caches: "check_branch_block av e op s = Inr s' \<Longrightarrow> same_caches s s'"
  by (auto simp: check_branch_block_def dest!: ctx_caches u32_caches)

lemma block_type_caches: "read_block_type M e op s = Inr (bt, s') \<Longrightarrow> same_caches s s'"
  by (auto simp: read_block_type_def Let_def split: if_splits)

lemma local_caches: "get_local F e s = Inr (t, off, s') \<Longrightarrow> same_caches s s'"
  by (auto simp: get_local_def Let_def dest!: u32_caches split: if_splits)

lemma global_caches: "get_global M e s = Inr (i, t, b, s') \<Longrightarrow> same_caches s s'"
  by (auto simp: get_global_def Let_def dest!: u32_caches split: if_splits)

lemmas basic_caches = ctx_caches u32_caches branch_caches block_type_caches local_caches global_caches

lemma op_caches:
  "handle_op_block_and_loop av M e op s = Inr s' \<Longrightarrow> same_caches s s'"
  "op_if av M e op s = Inr s' \<Longrightarrow> same_caches s s'"
  "handle_op_else av s = Inr s' \<Longrightarrow> same_caches s s'" "op_end av e s = Inr s' \<Longrightarrow> same_caches s s'"
  "op_br av e op s = Inr s' \<Longrightarrow> same_caches s s'" "op_br_if av e op s = Inr s' \<Longrightarrow> same_caches s s'"
  "op_return F s = Inr s' \<Longrightarrow> same_caches s s'"
  "op_call av M e s = Inr s' \<Longrightarrow> same_caches s s'" "op_call_indirect av M e s = Inr s' \<Longrightarrow> same_caches s s'"
  "op_drop s = Inr s' \<Longrightarrow> same_caches s s'" "op_select av s = Inr s' \<Longrightarrow> same_caches s s'"
  by (auto simp: handle_op_block_and_loop_def op_if_def handle_op_else_def op_end_def op_br_def op_br_if_def op_return_def
      op_call_def op_call_indirect_def op_drop_def op_select_def Let_def dest!: basic_caches split: if_splits)

lemma variable_caches:
  "op_get_local av F e s = Inr s' \<Longrightarrow> same_caches s s'" "op_set_local F e s = Inr s' \<Longrightarrow> same_caches s s'"
  "op_tee_local av F e s = Inr s' \<Longrightarrow> same_caches s s'" "op_get_global av M e s = Inr s' \<Longrightarrow> same_caches s s'"
  "op_set_global M e s = Inr s' \<Longrightarrow> same_caches s s'" "op_const av e op s = Inr s' \<Longrightarrow> same_caches s s'"
  "op_load_store av M e op s = Inr s' \<Longrightarrow> same_caches s s'" "op_memory_size av M e s = Inr s' \<Longrightarrow> same_caches s s'"
  "op_memory_grow av M e s = Inr s' \<Longrightarrow> same_caches s s'"
  by (auto simp: op_get_local_def op_set_local_def op_tee_local_def op_get_global_def op_set_global_def op_const_def
      op_load_store_def op_memory_size_def op_memory_grow_def Let_def dest!: basic_caches split: if_splits option.splits)

lemma prefix_caches:
  "op_misc av M e s = Inr s' \<Longrightarrow> same_caches s s'" "op_atomic av stray M e s = Inr s' \<Longrightarrow> same_caches s s'"
  by (auto simp: op_misc_def op_atomic_def dest!: basic_caches split: if_splits option.splits)

lemma turn_caches:
  assumes t: "turn A s s1" and pos: "0 < unat (lp s + 1)"
  shows "\<exists>new. br_table_caches s1 = new @ br_table_caches s \<and> (\<forall>x\<in>set new. fst x = lp s)"
proof -
  let ?av = "env_av (vb_env A)" and ?M = "vb_module A" and ?F = "vb_fun A" and ?e = "vb_end A" and ?s = "fetched s"
  have "mark_unreachable ?s = Inr s1 \<or> s1 = ?s \<or> (\<exists>o1. handle_op_block_and_loop ?av ?M ?e o1 ?s = Inr s1)
    \<or> (\<exists>o1. op_if ?av ?M ?e o1 ?s = Inr s1) \<or> handle_op_else ?av ?s = Inr s1 \<or> op_end ?av ?e ?s = Inr s1
    \<or> (\<exists>o1. op_br ?av ?e o1 ?s = Inr s1) \<or> (\<exists>o1. op_br_if ?av ?e o1 ?s = Inr s1)
    \<or> op_br_table ?av ?e ?s = Inr s1 \<or> op_return ?F ?s = Inr s1 \<or> op_call ?av ?M ?e ?s = Inr s1
    \<or> op_call_indirect ?av ?M ?e ?s = Inr s1 \<or> op_drop ?s = Inr s1 \<or> op_select ?av ?s = Inr s1
    \<or> op_get_local ?av ?F ?e ?s = Inr s1 \<or> op_set_local ?F ?e ?s = Inr s1
    \<or> op_tee_local ?av ?F ?e ?s = Inr s1 \<or> op_get_global ?av ?M ?e ?s = Inr s1
    \<or> op_set_global ?M ?e ?s = Inr s1 \<or> (\<exists>o1. op_load_store ?av ?M ?e o1 ?s = Inr s1)
    \<or> op_memory_size ?av ?M ?e ?s = Inr s1 \<or> op_memory_grow ?av ?M ?e ?s = Inr s1
    \<or> (\<exists>o1. op_const ?av ?e o1 ?s = Inr s1) \<or> op_misc ?av ?M ?e ?s = Inr s1
    \<or> op_atomic ?av (env_stray (vb_env A)) ?M ?e ?s = Inr s1
    \<or> (\<exists>n t t'. POPS_AND_PUSH ?av n t t' ?s = Inr s1)"
    using turn_opcode [OF t] unfolding prepare_opcode_def Let_def
    by (simp split: if_splits option.splits prod.splits; blast)
  then have "same_caches ?s s1 \<or> op_br_table ?av ?e ?s = Inr s1"
    by (elim disjE exE) (simp; fail | drule basic_caches op_caches variable_caches prefix_caches, simp; fail)+
  then show ?thesis
  proof
    assume "op_br_table ?av ?e ?s = Inr s1"
    then obtain q ds where "table_bytes ?s s1 q ds" by (rule op_br_table_bytes) (use pos in simp_all)
    then show ?thesis by (auto simp: table_bytes_def)
  qed (auto intro!: exI [of _ "[]"])
qed

text \<open>Later instructions put their depths aside under other addresses.\<close>

lemma caches_grow:
  assumes A: "validated A"
  shows "visited A s \<Longrightarrow> \<exists>new. br_table_caches (vb_state A) = new @ br_table_caches s \<and>
    (\<forall>x\<in>set new. unat (lp s) \<le> unat (fst x) \<and> unat (fst x) < unat (vb_end A))"
proof (induction "loop_measure (vb_end A) s" arbitrary: s rule: less_induct)
  case less
  show ?case
  proof (cases "0 < csp_num (lctx s)")
    case False
    have "\<not> lp s < vb_end A"
    proof
      assume "lp s < vb_end A"
      then have "good_ctx (lctx s)" using visited_inv(1) [OF A less.prems] by (auto simp: loop_inv_def word_less_nat_alt)
      with good_open [OF this] False show False by blast
    qed
    with visited_inv(2) [OF A less.prems] show ?thesis by (subst (asm) prepare_loop.simps) simp
  next
    case True
    from A less.prems True obtain s1 where t: "turn A s s1" by (rule visited_open) blast
    note f = turn_forward(1,2) [OF A less.prems True t]
    have "0 < unat (lp s + 1)" using turn_at(2) [OF A less.prems True] by simp
    from turn_caches [OF t this] obtain new where new: "br_table_caches s1 = new @ br_table_caches s" "\<forall>x\<in>set new. fst x = lp s"
      by blast
    from less.hyps [OF f(2) visited_turn [OF less.prems t]] obtain late where
      "br_table_caches (vb_state A) = late @ br_table_caches s1" "\<forall>x\<in>set late. unat (lp s1) \<le> unat (fst x) \<and> unat (fst x) < unat (vb_end A)" by blast
    moreover have "unat (lp s) < unat (vb_end A)" using t by (simp add: turn_def word_less_nat_alt)
    ultimately show ?thesis using new f(1) by (intro exI [of _ "late @ new"]) (auto simp: order_trans)
  qed
qed

lemma find_own_cache:
  assumes A: "validated A" and v: "visited A s1" and c: "br_table_caches s1 = (a, ds) # cs" and a: "unat a < unat (lp s1)"
  shows "find (\<lambda>node. fst node = a) (br_table_caches (vb_state A)) = Some (a, ds)"
proof -
  from caches_grow [OF A v] obtain new where n: "br_table_caches (vb_state A) = new @ br_table_caches s1"
    "\<forall>x\<in>set new. unat (lp s1) \<le> unat (fst x) \<and> unat (fst x) < unat (vb_end A)" by blast
  have "find (\<lambda>node. fst node = a) (new @ rest) = find (\<lambda>node. fst node = a) rest" for rest
    using n(2) a by (induction new) auto
  then show ?thesis using n(1) c by simp
qed


section \<open>Branch tables\<close>

lemma pop_i32_counts:
  assumes "live c" "wasm_loader_pop_frame_ref c VALUE_TYPE_I32 = Inr c0"
  shows "counts 1 0 c c0"
  using pop_frame_refs_counts [OF assms(1), of "[VALUE_TYPE_I32]"] assms(2) by auto

text \<open>What an accepted table leaves: its depths, every one of them checked as a branch.\<close>

lemma table_facts:
  assumes A: "validated A" and st: "stands A cs s" and m: "in_place A (chip (frame cs))"
    and t: "turn A s s1" and o: "opcode_at s = 0x0e"
  obtains count q ds c0 where "read_leb_uint32 (lmem s) (lp s + 1) (vb_end A) = Inr (count, q)"
    "length ds = Suc (unat count)" "table_bytes (fetched s) s1 q ds" "counts 1 0 (lctx s) c0"
    "\<forall>d\<in>set ds. wasm_loader_check_br (env_av (vb_env A)) c0 d WASM_OP_BR_TABLE = Inr c0"
proof -
  have no: "opcode_at s \<notin> {0x02, 0x03, 0x04, 0x05, 0x0b}" using o by simp
  note p = plain_fetch [OF A st m t no]
  have op: "op_br_table (env_av (vb_env A)) (vb_end A) (fetched s) = Inr s1" using p(7) o by (simp add: prepare_opcode_def)
  have "0 < unat (lp (fetched s))" using p(8) by simp
  from op this obtain count q ds c0 where r: "read_leb_uint32 (lmem s) (lp s + 1) (vb_end A) = Inr (count, q)"
    "length ds = Suc (unat count)" "table_bytes (fetched s) s1 q ds"
    and c0: "wasm_loader_pop_frame_ref (lctx s) VALUE_TYPE_I32 = Inr c0"
    "\<not> poly_of c0 \<Longrightarrow> \<forall>d\<in>set ds. wasm_loader_check_br (env_av (vb_env A)) c0 d WASM_OP_BR_TABLE = Inr c0"
    by (rule op_br_table_bytes) simp
  have "counts 1 0 (lctx s) c0" by (rule pop_i32_counts [OF p(3) c0(1)])
  moreover have "\<not> poly_of c0" using calculation by (simp add: counts_def live_def)
  ultimately show thesis using that [OF r] c0(2) by blast
qed

text \<open>A branch to one of the depths.\<close>

lemma table_branch:
  assumes A: "validated A" and st: "stands A cs s" and m: "in_place A (chip (frame cs0))"
    and same: "labels cs0 = labels cs" "addr_cache cs0 = addr_cache cs" "length (frame_lp (frame cs0)) = length (frame_lp (frame cs))"
      "length (data_segs (frame cs0)) = length (data_segs (frame cs))"
    and c: "counts 1 0 (lctx s) c0" "wasm_loader_check_br av c0 d WASM_OP_BR_TABLE = Inr c0"
      "Suc (length (frame_sp (frame cs0))) = stack_cell_num (lctx s)"
  shows "safe_run A V (addr_cache cs) (goes_on (label_pop_csp_n d cs0))"
  using c by (intro branch_safe [OF A st m same _ c(2)]) (auto simp: counts_def stack_only_def)

lemma br_table_cache_stands:
  assumes A: "validated A" and V: "env_fits A V" and st: "stands A cs s" and m: "in_place A (chip (frame cs))"
    and t: "turn A s s1" and o: "opcode_at s = 0x0e" and b: "lmem s1 (lp s) = EXT_OP_BR_TABLE_CACHE"
    and n: "\<not> ce_terminate V"
  shows "safe_run A V (addr_cache cs) (exec_control V F cs)"
proof -
  have no: "opcode_at s \<notin> {0x02, 0x03, 0x04, 0x05, 0x0b}" using o by simp
  note p = plain_fetch [OF A st m t no] and p6 = plain_fetch(6) [OF A st m t no, of V F]
  obtain count q ds c0 where r: "read_leb_uint32 (lmem s) (lp s + 1) (vb_end A) = Inr (count, q)"
    and ds: "length ds = Suc (unat count)" "table_bytes (fetched s) s1 q ds"
    and c0: "counts 1 0 (lctx s) c0" "\<forall>d\<in>set ds. wasm_loader_check_br (env_av (vb_env A)) c0 d WASM_OP_BR_TABLE = Inr c0"
    by (rule table_facts [OF A st m t o])
  have v1: "visited A s1" and n0: "0 < csp_num (lctx s)" using st visited_turn [OF stands_visited [OF st] t] by (simp_all add: stands_def)
  have "br_table_caches s1 = (lp s, ds) # br_table_caches s"
    using ds(2) b o by (auto simp: table_bytes_def EXT_OP_BR_TABLE_CACHE_def)
  from find_own_cache [OF A v1 this] p(2)
  have own: "find (\<lambda>node. fst node = lp s) (br_table_caches (vb_state A)) = Some (lp s, ds)" by simp
  have "unat (code (vb_fun A)) \<le> unat (lp s)" "unat (lp s) < unat (vb_end A)"
    using A stands_visited [OF st] n0 by (metis visited_open word_less_nat_alt)+
  with own V have fnd: "find (\<lambda>node. fst node = lp s) (ce_br_tables V) = Some (lp s, ds)" by (simp add: env_fits_def)
  have "0 < stack_cell_num (lctx s)" using c0(1) by (auto simp: counts_def)
  then obtain x sp where sp: "frame_sp (frame cs) = x # sp" "Suc (length sp) = stack_cell_num (lctx s)"
    using p(4) by (cases "frame_sp (frame cs)") auto
  let ?cs = "cs\<lparr>frame := (frame cs)\<lparr>frame_ip := lp s + 1, frame_sp := sp\<rparr>\<rparr>"
  define i where "i = (if unat x > length ds - 1 then length ds - 1 else unat x)"
  have "exec_control V F cs = goes_on (label_pop_csp_n (ds ! i) ?cs)"
    using p6 b fnd sp(1) by (simp add: br_dispatch [OF n] exec_br_table_cache_def on_frame_def pop32_def i_def Let_def)
  moreover have "ds ! i \<in> set ds" using ds(1) by (intro nth_mem) (simp add: i_def)
  ultimately show ?thesis
    using m sp(2) by (simp only:) (rule table_branch [OF A st _ _ _ _ _ c0(1) c0(2) [THEN bspec]], simp_all)
qed

lemma br_table_stands:
  assumes A: "validated A" and V: "env_fits A V" and st: "stands A cs s" and m: "in_place A (chip (frame cs))"
    and t: "turn A s s1" and o: "opcode_at s = 0x0e"
  shows "safe_run A V (addr_cache cs) (exec_control V F cs)"
proof -
  have no: "opcode_at s \<notin> {0x02, 0x03, 0x04, 0x05, 0x0b}" using o by simp
  note p = plain_fetch [OF A st m t no] and p6 = plain_fetch(6) [OF A st m t no, of V F]
  obtain count q ds c0 where r: "read_leb_uint32 (lmem s) (lp s + 1) (vb_end A) = Inr (count, q)"
    and ds: "length ds = Suc (unat count)" "table_bytes (fetched s) s1 q ds"
    and c0: "counts 1 0 (lctx s) c0" "\<forall>d\<in>set ds. wasm_loader_check_br (env_av (vb_env A)) c0 d WASM_OP_BR_TABLE = Inr c0"
    by (rule table_facts [OF A st m t o])
  show ?thesis
  proof (cases "ce_terminate V \<or> lmem s1 (lp s) = EXT_OP_BR_TABLE_CACHE")
    case True
    then show ?thesis
    proof (elim disjE)
      assume "ce_terminate V"
      moreover have "lmem s1 (lp s) = 0x0e \<or> lmem s1 (lp s) = EXT_OP_BR_TABLE_CACHE" using ds(2) o by (auto simp: table_bytes_def)
      ultimately show ?thesis using terminate_safe suspend_ops(3,4) p6 by metis
    qed (use br_table_cache_stands [OF A V st m t o] terminate_safe suspend_ops(4) p6 in metis)
  next
    case False
    then have n: "\<not> ce_terminate V" and b: "lmem s1 (lp s) = 0x0e" "depth_bytes (lmem s1) q ds"
      and k: "unat q + length ds \<le> unat (lp s1)" "\<And>a. unat (lp s + 1) \<le> unat a \<Longrightarrow> unat a < unat q \<Longrightarrow> lmem s1 a = lmem s a"
      using ds(2) o by (auto simp: table_bytes_def)
    have "0 < stack_cell_num (lctx s)" using c0(1) by (auto simp: counts_def)
    then obtain x sp where sp: "frame_sp (frame cs) = x # sp" "Suc (length sp) = stack_cell_num (lctx s)"
      using p(4) by (cases "frame_sp (frame cs)") auto
    let ?cs = "cs\<lparr>frame := (frame cs)\<lparr>frame_ip := lp s + 1\<rparr>\<rparr>"
    have "agree (lmem s) (chip (frame ?cs)) (lp s + 1) q"
      using k p(5,8) ds(1) by (simp add: agree_def)
    from fetch_u32_at [OF r _ this] have ft: "fetch_u32 (frame ?cs) = done_with (count, (frame ?cs)\<lparr>frame_ip := q\<rparr>)" by simp
    let ?cs1 = "?cs\<lparr>frame := (frame ?cs)\<lparr>frame_ip := q, frame_sp := sp\<rparr>\<rparr>"
    define i where "i = (if x > count then count else x)"
    have i: "unat i < length ds" using ds(1) by (simp add: i_def word_less_nat_alt)
    have q: "unat (lp s) < unat q" using read_leb_uint32_Inr [OF r] p(8) by simp
    have "unat (q + i) = unat q + unat i"
      using unat_add_small [of q "unat i"] k(1) i unat_u32_less [of "lp s1"] by simp
    then have "chip (frame cs) (q + i) = lmem s1 (q + i)" using p(5) q k(1) i by (simp add: agree_def)
    also have "\<dots> = ucast (ds ! unat i)"
      using b(2) [unfolded depth_bytes_def, rule_format, OF i] by simp
    finally have "ucast (chip (frame cs) (q + i)) = ds ! unat i" using b(2) i by (simp add: depth_bytes_def ucast_byte_back)
    then have "exec_control V F cs = goes_on (label_pop_csp_n (ds ! unat i) ?cs1)"
      using p6 b(1) ft sp(1) by (simp add: br_dispatch [OF n] exec_br_table_def on_frame_def pop32_def i_def [symmetric] Let_def)
    then show ?thesis
      using m sp(2) i by (simp only:) (rule table_branch [OF A st _ _ _ _ _ c0(1) c0(2) [THEN bspec]], simp_all)
  qed
qed


section \<open>Returns and calls\<close>

lemma return_stands:
  assumes A: "validated A" and st: "stands A cs s" and m: "in_place A (chip (frame cs))"
    and t: "turn A s s1" and o: "opcode_at s = 0x0f"
  shows "safe_run A V (addr_cache cs) (exec_control V (vb_fun A) cs)"
proof -
  let ?ft = "func_type (vb_fun A)"
  have no: "opcode_at s \<notin> {0x02, 0x03, 0x04, 0x05, 0x0b}" using o by simp
  note p = plain_fetch [OF A st m t no] and p6 = plain_fetch(6) [OF A st m t no, of V "vb_fun A"]
  have "op_return (vb_fun A) (fetched s) = Inr s1" using p(7) o by (simp add: prepare_opcode_def)
  then obtain s2 where s2: "POP_TYPES (rev (block_type_get_result_types (Type_index ?ft))) (fetched s) = Inr s2"
    and s1: "mark_unreachable s2 = Inr s1" by (auto simp: op_return_def)
  have "func_type_ok ?ft" using A by (simp add: validated_def function_ok_def)
  then have "moves (ret_cells ?ft) 0 (fetched s) s2"
    using POP_TYPES_moves [OF _ _ s2] func_types_valid(2) p(3) by (simp add: ret_cells_def wasm_get_cell_num_eq list_all_rev)
  then have "ret_cells ?ft \<le> length (frame_sp (frame cs))" "lmem s2 = lmem s" using p(4) by (simp_all add: moves_def counts_def)
  moreover have "lmem s1 (lp s) = 0x0f" using calculation(2) s1 o keeps_codeD(6) [OF s1] by (simp add: keeps_code_def)
  ultimately show ?thesis
    using p6 by (simp add: exec_opcode_def checks_suspend_def exec_return_def Let_def EXT_OP_BLOCK_def EXT_OP_LOOP_def
        EXT_OP_IF_def EXT_OP_BR_TABLE_CACHE_def)
qed

lemma call_moves:
  assumes f: "func_type_ok ft" and l: "live (lctx s)" and c: "call_type av ft s = Inr s'"
  shows "param_cells ft \<le> stack_cell_num (lctx s)" "live (lctx s')"
    "stack_cell_num (lctx s') + param_cells ft = stack_cell_num (lctx s) + ret_cells ft" "lmem s' = lmem s" "lp s' = lp s"
proof -
  from c obtain s2 where s2: "POP_TYPES (rev (block_type_get_param_types (Type_index ft))) s = Inr s2"
    and s': "PUSH_TYPES av (block_type_get_result_types (Type_index ft)) s2 = Inr s'" by (auto simp: call_type_def)
  have a: "moves (param_cells ft) 0 s s2"
    using POP_TYPES_moves [OF l _ s2] func_types_valid(1) [OF f] by (simp add: param_cells_def wasm_get_cell_num_eq list_all_rev)
  have b: "moves 0 (ret_cells ft) s2 s'"
    using PUSH_TYPES_moves [OF moves_live [OF a] _ s'] func_types_valid(2) [OF f] by (simp add: ret_cells_def wasm_get_cell_num_eq)
  show "param_cells ft \<le> stack_cell_num (lctx s)" "live (lctx s')"
    "stack_cell_num (lctx s') + param_cells ft = stack_cell_num (lctx s) + ret_cells ft" "lmem s' = lmem s" "lp s' = lp s"
    using a b by (simp_all add: moves_def counts_def)
qed

text \<open>A call leaves the arguments on the stack and the frame at the instruction behind it.\<close>

lemma calls_safe:
  assumes A: "validated A" and st: "stands A cs s" and t: "turn A s s1" and sb: "same_blocks (lctx s) (lctx s1)"
    and l: "live (lctx s1)" and f: "unat fidx < length (ce_functions V)" "ce_functions V ! unat fidx = ft"
    and n: "param_cells ft \<le> length (frame_sp (frame cs'))"
      "length (frame_sp (frame cs')) + ret_cells ft = stack_cell_num (lctx s1) + param_cells ft"
    and cs': "labels cs' = labels cs" "frame_ip (frame cs') = lp s1" "addr_cache cs' = addr_cache cs"
      "length (frame_lp (frame cs')) = length (frame_lp (frame cs))"
      "length (data_segs (frame cs')) = length (data_segs (frame cs))"
  shows "safe_run A V (addr_cache cs) (done_with (Calls fidx cs'))"
proof -
  have "stands A cs2 s1" if "labels cs2 = labels cs'" "frame_ip (frame cs2) = frame_ip (frame cs')"
    "length (frame_lp (frame cs2)) = length (frame_lp (frame cs'))" "length (data_segs (frame cs2)) = length (data_segs (frame cs'))"
    "length (frame_sp (frame cs2)) + param_cells ft = length (frame_sp (frame cs')) + ret_cells ft"
    "cache_ok A (addr_cache cs2)" for cs2
    using that cs' n by (intro onward [OF A st t sb l]) simp_all
  then have "resumes A cs' (param_cells ft) (ret_cells ft)" by (auto simp: resumes_def)
  then show ?thesis using f n(1) cs'(3) by (simp add: Let_def)
qed

lemma call_stands:
  assumes A: "validated A" and V: "env_fits A V" and st: "stands A cs s" and m: "in_place A (chip (frame cs))"
    and t: "turn A s s1" and o: "opcode_at s = 0x10"
  shows "safe_run A V (addr_cache cs) (exec_control V F cs)"
proof -
  let ?M = "vb_module A"
  have no: "opcode_at s \<notin> {0x02, 0x03, 0x04, 0x05, 0x0b}" using o by simp
  note p = plain_fetch [OF A st m t no] and p6 = plain_fetch(6) [OF A st m t no, of V F]
  have "op_call (env_av (vb_env A)) ?M (vb_end A) (fetched s) = Inr s1" using p(7) o by (simp add: prepare_opcode_def)
  then obtain fidx q where r: "read_leb_uint32 (lmem s) (lp s + 1) (vb_end A) = Inr (fidx, q)"
    and chk: "check_function_index ?M fidx"
    and c: "call_type (env_av (vb_env A)) ((import_functions ?M @ module_functions ?M) ! unat fidx) ((fetched s)\<lparr>lp := q\<rparr>) = Inr s1"
    by (auto simp: op_call_def read_u32_code nth_append Let_def split: if_splits)
  let ?ft = "(import_functions ?M @ module_functions ?M) ! unat fidx"
  have fi: "unat fidx < length (ce_functions V)" "ce_functions V ! unat fidx = ?ft"
    using chk V by (simp_all add: check_function_index_def env_fits_def)
  have "func_type_ok ?ft"
    using A chk by (auto simp: validated_def module_ok_def check_function_index_def nth_append list_all_length)
  from call_moves [OF this _ c] p(3) have mv: "param_cells ?ft \<le> stack_cell_num (lctx s)" "live (lctx s1)"
    "stack_cell_num (lctx s1) + param_cells ?ft = stack_cell_num (lctx s) + ret_cells ?ft" "lmem s1 = lmem s" "lp s1 = q"
    by simp_all
  let ?cs = "cs\<lparr>frame := (frame cs)\<lparr>frame_ip := lp s + 1\<rparr>\<rparr>"
  have "agree (lmem s) (chip (frame ?cs)) (lp s + 1) q" using p(5,8) mv(4,5) by (auto intro: agree_sub)
  from fetch_u32_at [OF r _ this] have ft: "fetch_u32 (frame ?cs) = done_with (fidx, (frame ?cs)\<lparr>frame_ip := q\<rparr>)" by simp
  have ex: "exec_control V F cs = exec_opcode V F 0x10 ?cs" using p6 mv(4) o by simp
  show ?thesis
  proof (cases "ce_terminate V")
    case True
    then show ?thesis using terminate_safe suspend_ops(5) ex by metis
  next
    case False
    have "exec_control V F cs = done_with (Calls fidx (?cs\<lparr>frame := (frame ?cs)\<lparr>frame_ip := q\<rparr>\<rparr>))"
      using ft by (simp add: ex br_dispatch(5) [OF False] exec_call_def on_frame_def)
    then show ?thesis
      using mv p(4) by (simp only:) (rule calls_safe [OF A st t p(1) mv(2) fi], simp_all)
  qed
qed

lemma call_indirect_stands:
  assumes A: "validated A" and V: "env_fits A V" and st: "stands A cs s" and m: "in_place A (chip (frame cs))"
    and t: "turn A s s1" and o: "opcode_at s = 0x11"
  shows "safe_run A V (addr_cache cs) (exec_control V F cs)"
proof -
  let ?M = "vb_module A"
  have no: "opcode_at s \<notin> {0x02, 0x03, 0x04, 0x05, 0x0b}" using o by simp
  note p = plain_fetch [OF A st m t no] and p6 = plain_fetch(6) [OF A st m t no, of V F]
  have "op_call_indirect (env_av (vb_env A)) ?M (vb_end A) (fetched s) = Inr s1" using p(7) o by (simp add: prepare_opcode_def)
  then obtain tidx q s2 where r: "read_leb_uint32 (lmem s) (lp s + 1) (vb_end A) = Inr (tidx, q)"
    and s2: "POP_TYPE VALUE_TYPE_I32 ((fetched s)\<lparr>lp := q + 1\<rparr>) = Inr s2"
    and ti: "unat tidx < length (m_types ?M)" and c: "call_type (env_av (vb_env A)) (m_types ?M ! unat tidx) s2 = Inr s1"
    by (auto simp: op_call_indirect_def read_u32_code split: if_splits)
  let ?ft = "m_types ?M ! unat tidx"
  have "moves 1 0 ((fetched s)\<lparr>lp := q + 1\<rparr>) s2" using POP_TYPE_moves [OF _ _ s2] p(3) by simp
  then have k2: "live (lctx s2)" "stack_cell_num (lctx s2) + 1 = stack_cell_num (lctx s)" "lp s2 = q + 1" "lmem s2 = lmem s"
    by (simp_all add: moves_def counts_def)
  have fo: "func_type_ok ?ft" using A ti by (simp add: validated_def module_ok_def list_all_length)
  note mv = call_moves [OF fo k2(1) c]
  let ?cs = "cs\<lparr>frame := (frame cs)\<lparr>frame_ip := lp s + 1\<rparr>\<rparr>"
  have "unat (q + 1) = unat q + 1 \<or> unat (q + 1) = 0"
    using unat_u32_less [of q] by (cases "Suc (unat q) = 2 ^ 32") (simp_all add: unat_word_ariths)
  then have "unat q \<le> unat (lp s1)" using p(2) mv(5) k2(3) by auto
  then have "agree (lmem s) (chip (frame ?cs)) (lp s + 1) q" using p(5,8) mv(4) k2(4) by (auto intro: agree_sub)
  from fetch_u32_at [OF r _ this] have ft: "fetch_u32 (frame ?cs) = done_with (tidx, (frame ?cs)\<lparr>frame_ip := q\<rparr>)" by simp
  obtain x sp where sp: "frame_sp (frame cs) = x # sp" "length sp = stack_cell_num (lctx s2)"
    using p(4) k2(2) by (cases "frame_sp (frame cs)") auto
  let ?cs1 = "?cs\<lparr>frame := (frame ?cs)\<lparr>frame_ip := q + 1, frame_sp := sp\<rparr>\<rparr>"
  have ex: "exec_control V F cs = exec_opcode V F 0x11 ?cs" using p6 mv(4) k2(4) o by simp
  show ?thesis
  proof (cases "ce_terminate V")
    case True
    then show ?thesis using terminate_safe suspend_ops(6) ex by metis
  next
    case False
    have "ce_types V = m_types ?M" using V by (simp add: env_fits_def)
    then have run: "exec_control V F cs =
      (if unat x \<ge> length (ce_table V) then trap ''undefined element''
       else let fidx = ce_table V ! unat x
         in if fidx = - 1 then trap ''uninitialized element''
            else if unat fidx \<ge> length (ce_functions V) then trap ''unknown function''
            else if ?ft \<noteq> ce_functions V ! unat fidx then trap ''indirect call type mismatch''
            else done_with (Calls fidx ?cs1))"
      using ft sp(1) ti by (simp add: ex br_dispatch(6) [OF False] exec_call_indirect_def on_frame_def pop32_def jump_to_def Let_def)
    have "safe_run A V (addr_cache cs) (done_with (Calls fidx ?cs1))"
      if "unat fidx < length (ce_functions V)" "ce_functions V ! unat fidx = ?ft" for fidx
      using mv k2 sp(2) by (intro calls_safe [OF A st t p(1) mv(2) that]) simp_all
    then show ?thesis by (auto simp: run Let_def not_le simp del: safe_run_done)
  qed
qed

end
