(* ===== verification/Body_Safety.thy ===== *)
theory Body_Safety
  imports Control_Sound
begin

text \<open>
  What the validation of a body promises about its execution: from the frame a call makes, the
  interpreter follows the validation until it traps, is terminated or returns, whatever the calls in
  between return. The operand stack and the labels stay within the depths the validation recorded.
\<close>

section \<open>One instruction\<close>

text \<open>Bulk memory instructions with a memory index of more than one byte, of which the interpreter skips one byte
  only, are left out: with them the statements below are false (\<open>Interp_Sound.memidx_out_of_step\<close>).\<close>

definition covered :: "ValidatedBody \<Rightarrow> bool" where
  "covered A \<longleftrightarrow> (\<forall>s. visited A s \<and> 0 < csp_num (lctx s) \<longrightarrow>
     opcode_at s = 0xfc \<longrightarrow> short_memidx (vb_end A) (fetched s))"

lemma numeric_sig_range: "numeric_sig op = Some x \<Longrightarrow> 0x45 \<le> op \<and> op \<le> 0xc4"
  by (auto simp: numeric_sig_def not_less word_le_nat_alt split: if_splits)

lemma accepted_opcode:
  assumes "prepare_opcode E M F p_end op s = Inr s'"
  shows "op \<in> {0x00, 0x02, 0x03, 0x04, 0x05, 0x0b, 0x0c, 0x0d, 0x0e, 0x0f, 0x10, 0x11} \<or> plain_opcode op"
  using assms unfolding prepare_opcode_def plain_opcode_def Let_def
  by (auto split: if_splits option.splits dest!: numeric_sig_range simp: word_le_nat_alt)

lemma covered_plain:
  assumes c: "covered A" and v: "visited A s" "0 < csp_num (lctx s)" and p: "plain_opcode (opcode_at s)"
  shows "plain_instr (vb_end A) s"
  using c v p by (auto simp: covered_def plain_instr_def plain_opcode_def fetched_def Let_def)

lemma unreachable_traps:
  assumes A: "validated A" and st: "stands A cs s" and m: "in_place A (chip (frame cs))"
    and t: "turn A s s1" and o: "opcode_at s = 0x00"
  shows "exec_control V F cs = trap ''unreachable''"
proof -
  have no: "opcode_at s \<notin> {0x02, 0x03, 0x04, 0x05, 0x0b}" using o by simp
  note p = plain_fetch [OF A st m t no] and p6 = plain_fetch(6) [OF A st m t no, of V F]
  have "mark_unreachable (fetched s) = Inr s1" using p(7) o by (simp add: prepare_opcode_def)
  then have "lmem s1 (lp s) = 0x00" using o by (auto simp: mark_unreachable_def)
  moreover have "\<not> control_opcode 0x00"
    by (simp add: control_opcode_def EXT_OP_BLOCK_def EXT_OP_LOOP_def EXT_OP_IF_def EXT_OP_BR_TABLE_CACHE_def)
  ultimately show ?thesis using p6 by (simp add: plain_dispatch exec_plain_def no_wait)
qed

section \<open>The frame of a call\<close>

definition entry_frame :: "ValidatedBody \<Rightarrow> ControlState \<Rightarrow> bool" where
  "entry_frame A cs \<longleftrightarrow> (let F = vb_fun A in
     labels cs = [\<lparr>begin_addr = code F, target_addr = code F + code_size F - 1,
       block_sp = 0, block_cells = ret_cells (func_type F)\<rparr>] \<and>
     frame_ip (frame cs) = code F \<and> frame_sp (frame cs) = [] \<and>
     locals_fit F (length (frame_lp (frame cs))) \<and> cache_ok A (addr_cache cs) \<and>
     data_seg_count (vb_module A) \<le> length (data_segs (frame cs)))"

text \<open>The last byte of a body is the \<open>end\<close> of the function.\<close>

lemma function_end:
  assumes A: "validated A" and v: "visited A s" and t: "turn A s s'" and n: "0 < csp_num (lctx s)" "csp_num (lctx s') = 0"
  shows "lp s = vb_end A - 1"
proof -
  have v': "visited A s'" by (rule visited_turn [OF v t])
  have cl: "lp s' = lp s + 1" using closing_turn(4) [OF A v t] n by simp
  have "\<not> lp s' < vb_end A"
  proof
    assume "lp s' < vb_end A"
    then have "good_ctx (lctx s')" using visited_inv(1) [OF A v'] by (auto simp: loop_inv_def word_less_nat_alt)
    from good_open [OF this] n(2) show False by simp
  qed
  moreover have "unat (lp s) < unat (vb_end A)" using t by (simp add: turn_def word_less_nat_alt)
  ultimately have "unat (lp s + 1) = unat (vb_end A)" using cl turn_at(2) [OF A v n(1)] by (simp add: word_less_nat_alt)
  then have "lp s + 1 = vb_end A" by (simp add: word_unat_eq_iff)
  then show ?thesis by (simp add: algebra_simps)
qed

lemma entry_stands:
  assumes A: "validated A" and e: "entry_frame A cs"
  shows "\<exists>s. stands A cs s"
proof -
  let ?F = "vb_fun A"
  from A obtain s0 where s0: "prepare_start (vb_env A) ?F (vb_code A) = Inr s0"
    by (auto simp: validated_def wasm_loader_prepare_bytecode_def split: option.splits sum.splits if_splits)
  have v: "visited A s0" using s0 by (auto simp: visited_def intro: prepare_refl)
  note b = start_block [OF s0]
  have n: "0 < csp_num (lctx s0)" using b(1) by simp
  have lp: "lp s0 = code ?F" using s0 by (auto simp: prepare_start_def)
  have g: "good_ctx (lctx s0)" by (rule good_at [OF A v n])
  have z: "frame_csp (lctx s0) = [top_block s0]" "stack_cell_num (lctx s0) = 0"
  proof -
    from g obtain segs where "ctx_rel (lctx s0) segs" by (auto simp: good_ctx_def)
    then have "length (frame_csp (lctx s0)) = 1" using b(1) by (simp add: ctx_rel_def)
    then show "frame_csp (lctx s0) = [top_block s0]" by (cases "frame_csp (lctx s0)") simp_all
    show "stack_cell_num (lctx s0) = 0"
      using s0 by (auto simp: prepare_start_def wasm_loader_ctx_init_def wasm_loader_push_frame_csp_def Let_def split: if_splits)
  qed
  have lv: "live (lctx s0)" using g b(2) z(1) by (simp add: live_def poly_of_def new_block_def)
  have en: "entered A 0 s0"
    using v b by (simp add: entered_def opened_def new_block_def label_type_defs)
  have op: "openers A (\<lambda>_. s0) 1 s0" using en b(1) by (simp add: openers_def inside_refl)
  obtain x se where c: "completes A 0 s0 x se" using completes_exists [OF A v, of 0] b(1) by auto
  from A c v obtain se' where se: "turn A se se'" "csp_num (lctx se') = 0" "csp_num (lctx se) = Suc 0" "visited A se"
    by (rule completes_end_at)
  have "lp se = vb_end A - 1" using function_end [OF A se(4,1)] se(2,3) by simp
  then have "closes_at A 0 s0 (code ?F + code_size ?F - 1)"
    unfolding closes_at_def using c by (intro exI [of _ x] exI [of _ se]) (simp add: code_end_def)
  then have fit: "label_fits A 0 s0 (hd (labels cs))"
    using e b(2) lp
    by (simp add: entry_frame_def Let_def label_fits_def new_block_def label_type_defs label_cells_def label_types_def
        ret_cells_def wasm_get_cell_num_eq)
  have "sp_fits s0 0" using live_fits [OF A v n lv] z(2) by simp
  moreover have "tl (frame_csp (lctx s0)) = []" using z(1) by (metis list.sel(3))
  then have "outer_live s0" by (simp add: outer_live_def)
  ultimately have "stands A cs s0"
    using e b(1) lp op fit unfolding stands_def by (auto simp: entry_frame_def Let_def)
  then show ?thesis ..
qed


section \<open>The depths of the stacks\<close>

lemma pop_frame_ref_max_csp: "wasm_loader_pop_frame_ref c t = Inr c' \<Longrightarrow> max_csp_num c' = max_csp_num c"
  by (auto simp: wasm_loader_pop_frame_ref_def Let_def split: if_splits)

lemma pop_block_params_max_csp: "pop_block_params c ts = Inr c' \<Longrightarrow> max_csp_num c' = max_csp_num c"
  by (induction ts arbitrary: c) (auto split: if_splits dest: pop_frame_ref_max_csp)

lemma push_frame_refs_max_csp: "push_frame_refs av c ts = Inr c' \<Longrightarrow> max_csp_num c' = max_csp_num c"
  by (induction ts arbitrary: c) (auto simp: wasm_loader_push_frame_ref_def check_stack_push_def Let_def split: if_splits)

lemma open_block_max_csp: "open_block av op bt p c = Inr c' \<Longrightarrow> max_csp_num c \<le> max_csp_num c'"
  by (auto simp: open_block_def wasm_loader_push_frame_csp_def Let_def split: if_splits
      dest!: pop_block_params_max_csp push_frame_refs_max_csp)

lemma enter_max_csp:
  "handle_op_block_and_loop av M e op s = Inr s' \<Longrightarrow> max_csp_num (lctx s) \<le> max_csp_num (lctx s')"
  by (auto simp: handle_op_block_and_loop_def read_block_type_def on_ctx_Inr Let_def split: if_splits dest!: open_block_max_csp)

lemma turn_max_csp:
  assumes A: "validated A" and v: "visited A s" and n: "0 < csp_num (lctx s)" and t: "turn A s s'"
  shows "max_csp_num (lctx s) \<le> max_csp_num (lctx s')"
  using A v n t
proof (cases rule: turn_cases)
  case (entering bt s2)
  let ?av = "env_av (vb_env A)" and ?M = "vb_module A" and ?e = "vb_end A"
  from entering(1) turn_opcode [OF t] consider
      (b) "handle_op_block_and_loop ?av ?M ?e (opcode_at s) (fetched s) = Inr s'"
    | (i) "op_if ?av ?M ?e (opcode_at s) (fetched s) = Inr s'" by (auto simp: prepare_opcode_def)
  then show ?thesis
  proof cases
    case b
    then show ?thesis using enter_max_csp by fastforce
  next
    case i
    then obtain s3 where s3: "POP_TYPE VALUE_TYPE_I32 (fetched s) = Inr s3"
      "handle_op_block_and_loop ?av ?M ?e (opcode_at s) s3 = Inr s'" by (auto simp: op_if_def)
    have "max_csp_num (lctx s3) = max_csp_num (lctx s)"
      using s3(1) by (auto simp: POP_TYPE_def on_ctx_Inr dest!: pop_frame_ref_max_csp)
    then show ?thesis using enter_max_csp [OF s3(2)] by simp
  qed
qed (simp_all add: same_blocks_def divides_def closes_def)

lemma visited_depths:
  assumes A: "validated A"
  shows "visited A s \<Longrightarrow> max_stack_cell_num (lctx s) \<le> vb_max_stack A \<and> max_csp_num (lctx s) \<le> vb_max_block A"
proof (induction "loop_measure (vb_end A) s" arbitrary: s rule: less_induct)
  case less
  show ?case
  proof (cases "0 < csp_num (lctx s)")
    case False
    have "\<not> lp s < vb_end A"
    proof
      assume "lp s < vb_end A"
      then have "good_ctx (lctx s)" using visited_inv(1) [OF A less.prems] by (auto simp: loop_inv_def word_less_nat_alt)
      with good_open [OF this] False show False by blast
    qed
    then have "s = vb_state A" using visited_inv(2) [OF A less.prems] by (subst (asm) prepare_loop.simps) simp
    then show ?thesis using validated_result [OF A] by simp
  next
    case True
    from A less.prems True obtain s1 where t: "turn A s s1" by (rule visited_open) blast
    from less.hyps [OF turn_forward(2) [OF A less.prems True t] visited_turn [OF less.prems t]]
      turn_forward(3) [OF A less.prems True t] turn_max_csp [OF A less.prems True t] show ?thesis by simp
  qed
qed

lemma visited_cells:
  assumes A: "validated A" and v: "visited A s" and n: "0 < csp_num (lctx s)"
  shows "stack_cell_num (lctx s) \<le> vb_max_stack A"
proof -
  have "good_ctx (lctx s)" by (rule good_at [OF A v n])
  then show ?thesis using visited_depths [OF A v] by (auto simp: good_ctx_def ctx_rel_def)
qed

lemma open_if_end_limit:
  assumes A: "validated A" and v: "visited A s" and n: "0 < csp_num (lctx s)" and o: "opcode_at s = 0x0b"
  shows "height (lctx s) + result_count_of (block_type (top_block s)) \<le> vb_max_stack A"
proof -
  from A v n obtain s1 where t: "turn A s s1" by (rule visited_open) blast
  have "height (lctx s) + result_count_of (block_type (top_block s)) \<le> max_stack_cell_num (lctx s1)"
    using A v n t by (cases rule: turn_cases) (use o in \<open>simp_all add: divides_def closes_def\<close>)
  then show ?thesis using visited_depths [OF A visited_turn [OF v t]] by simp
qed

lemma stands_depths:
  assumes A: "validated A" and st: "stands A cs s"
  shows "length (frame_sp (frame cs)) \<le> vb_max_stack A" "length (labels cs) \<le> vb_max_block A"
proof -
  have v: "visited A s" and n: "0 < csp_num (lctx s)" using st stands_visited by (simp_all add: stands_def)
  have "good_ctx (lctx s)" by (rule good_at [OF A v n])
  then have m: "stack_cell_num (lctx s) \<le> max_stack_cell_num (lctx s)" "csp_num (lctx s) \<le> max_csp_num (lctx s)"
    by (auto simp: good_ctx_def ctx_rel_def)
  note d = visited_depths [OF A v]
  show "length (labels cs) \<le> vb_max_block A" using m(2) d st by (simp add: stands_def)
  show "length (frame_sp (frame cs)) \<le> vb_max_stack A"
    using st m(1) d open_if_end_limit [OF A v n] by (auto simp: stands_def sp_fits_def split: if_splits)
qed

section \<open>Whole instructions\<close>

text \<open>The stacks of a frame stay within the depths the validation recorded, which is what the frame has room for.\<close>

definition in_bounds :: "ValidatedBody \<Rightarrow> ControlState \<Rightarrow> bool" where
  "in_bounds A cs \<longleftrightarrow> length (frame_sp (frame cs)) \<le> vb_max_stack A \<and> length (labels cs) \<le> vb_max_block A"

definition bounded_steps :: "ValidatedBody \<Rightarrow> control_env \<Rightarrow> nat \<Rightarrow> ControlState \<Rightarrow> bool" where
  "bounded_steps A V n cs \<longleftrightarrow>
     (\<forall>j\<le>n. \<forall>cs'. control_steps V (vb_fun A) j cs = done_with (Goes_on cs') \<longrightarrow> in_bounds A cs')"

lemma stands_in_bounds: "validated A \<Longrightarrow> stands A cs s \<Longrightarrow> in_bounds A cs"
  using stands_depths by (simp add: in_bounds_def)

lemma one_step:
  assumes "safe_run A V c (exec_control V (vb_fun A) cs)" and A: "validated A" and b: "in_bounds A cs"
  shows "\<exists>n. safe_run A V c (control_steps V (vb_fun A) (Suc n) cs) \<and> bounded_steps A V (Suc n) cs"
proof -
  have one: "control_steps V (vb_fun A) 1 cs = exec_control V (vb_fun A) cs"
    using assms(1) by (auto simp: safe_run_def split: outcome.split)
  have "in_bounds A cs'" if "control_steps V (vb_fun A) j cs = done_with (Goes_on cs')" "j \<le> 1" for j cs'
  proof (cases "j = 0")
    case True
    then show ?thesis using that b by (simp add: done_with_def)
  next
    case False
    then have "j = 1" using that(2) by simp
    then have "safe_run A V c (done_with (Goes_on cs'))" using that(1) one assms(1) by metis
    then show ?thesis using stands_in_bounds [OF A] by auto
  qed
  then show ?thesis using assms(1) one by (intro exI [of _ 0]) (auto simp: bounded_steps_def)
qed

lemma instruction_stands:
  assumes A: "validated A" and V: "env_fits A V" and c: "covered A" and st: "stands A cs s" and m: "in_place A (chip (frame cs))"
  shows "\<exists>n. safe_run A V (addr_cache cs) (control_steps V (vb_fun A) (Suc n) cs) \<and> bounded_steps A V (Suc n) cs"
proof -
  have v: "visited A s" and n: "0 < csp_num (lctx s)" using st stands_visited by (simp_all add: stands_def)
  from A v n obtain s1 where t: "turn A s s1" by (rule visited_open) blast
  note b = stands_in_bounds [OF A st]
  from accepted_opcode [OF turn_opcode [OF t]] show ?thesis
  proof
    assume "plain_opcode (opcode_at s)"
    from plain_stands [OF A V st m t covered_plain [OF c v n this]] obtain k where
      k: "safe_run A V (addr_cache cs) (control_steps V (vb_fun A) (Suc k) cs)"
        "keeps_count V (vb_fun A) (Suc k) (stack_cell_num (lctx s1)) cs" by blast
    have "opcode_at s \<notin> {0x02, 0x03, 0x04, 0x05, 0x0b}" using \<open>plain_opcode (opcode_at s)\<close> plain_opcode_other by auto
    from plain_fetch(1) [OF A st m t this] n have "0 < csp_num (lctx s1)" by (simp add: same_blocks_def)
    then have "stack_cell_num (lctx s1) \<le> vb_max_stack A" by (rule visited_cells [OF A visited_turn [OF v t]])
    then have "bounded_steps A V (Suc k) cs"
      unfolding bounded_steps_def
    proof (intro allI impI)
      fix j cs'
      assume j: "j \<le> Suc k" "control_steps V (vb_fun A) j cs = done_with (Goes_on cs')"
      show "in_bounds A cs'"
      proof (cases "j = 0")
        case True
        then show ?thesis using j b by (simp add: done_with_def)
      next
        case False
        then have "length (frame_sp (frame cs')) = stack_cell_num (lctx s1)" "labels cs' = labels cs"
          using k(2) j by (auto simp: keeps_count_def)
        then show ?thesis using b \<open>stack_cell_num (lctx s1) \<le> vb_max_stack A\<close> by (simp add: in_bounds_def)
      qed
    qed
    with k(1) show ?thesis by blast
  next
    assume o: "opcode_at s \<in> {0x00, 0x02, 0x03, 0x04, 0x05, 0x0b, 0x0c, 0x0d, 0x0e, 0x0f, 0x10, 0x11}"
    have "safe_run A V (addr_cache cs) (exec_control V (vb_fun A) cs)"
      using o unreachable_traps [OF A st m t] block_stands [OF A V st m t] loop_stands [OF A V st m t]
        if_stands [OF A V st m t] else_stands [OF A st m t] end_stands [OF A st m] br_stands [OF A V st m t]
        br_if_stands [OF A V st m t] br_table_stands [OF A V st m t] return_stands [OF A st m t]
        call_stands [OF A V st m t] call_indirect_stands [OF A V st m t] by auto
    then show ?thesis by (rule one_step [OF _ A b])
  qed
qed

section \<open>Executions of a body\<close>

text \<open>A frame whose callee has returned: the arguments are replaced by the results. What the callee has done to
  the memory and the globals is left open; what it has added to the cache must be right.\<close>

definition returned :: "ValidatedBody \<Rightarrow> WASMFuncType \<Rightarrow> ControlState \<Rightarrow> ControlState \<Rightarrow> bool" where
  "returned A ft cs cs' \<longleftrightarrow> labels cs' = labels cs \<and> frame_ip (frame cs') = frame_ip (frame cs) \<and>
     length (frame_lp (frame cs')) = length (frame_lp (frame cs)) \<and>
     length (data_segs (frame cs')) = length (data_segs (frame cs)) \<and>
     length (frame_sp (frame cs')) = length (frame_sp (frame cs)) - param_cells ft + ret_cells ft \<and>
     cache_ok A (addr_cache cs')"

text \<open>The frames an execution of the body comes to, as long as nothing overwrites its code.\<close>

inductive reached :: "ValidatedBody \<Rightarrow> control_env \<Rightarrow> ControlState \<Rightarrow> ControlState \<Rightarrow> bool" for A V cs0 where
  reached_start: "reached A V cs0 cs0"
| reached_step: "reached A V cs0 cs \<Longrightarrow> in_place A (chip (frame cs)) \<Longrightarrow>
    exec_control V (vb_fun A) cs = done_with (Goes_on cs') \<Longrightarrow> reached A V cs0 cs'"
| reached_call: "reached A V cs0 cs \<Longrightarrow> in_place A (chip (frame cs)) \<Longrightarrow>
    exec_control V (vb_fun A) cs = done_with (Calls fidx cs') \<Longrightarrow>
    returned A (ce_functions V ! unat fidx) cs' cs'' \<Longrightarrow> reached A V cs0 cs''"

text \<open>A frame on its way to a state of the validation.\<close>

definition on_way :: "ValidatedBody \<Rightarrow> control_env \<Rightarrow> ControlState \<Rightarrow> bool" where
  "on_way A V cs \<longleftrightarrow> (\<exists>n c. safe_run A V c (control_steps V (vb_fun A) n cs) \<and> bounded_steps A V n cs)"

lemma bounded_start: "in_bounds A cs \<Longrightarrow> bounded_steps A V 0 cs"
  by (auto simp: bounded_steps_def done_with_def)

lemma stands_on_way: "validated A \<Longrightarrow> stands A cs s \<Longrightarrow> on_way A V cs"
  unfolding on_way_def
  by (rule exI [of _ 0], rule exI [of _ "addr_cache cs"]) (auto intro: bounded_start stands_in_bounds)

lemma on_way_in_bounds:
  assumes "on_way A V cs"
  shows "in_bounds A cs"
proof -
  from assms obtain n where "bounded_steps A V n cs" by (auto simp: on_way_def)
  then show ?thesis unfolding bounded_steps_def by (elim allE [of _ 0]) simp
qed

lemma on_way_steps:
  assumes A: "validated A" and V: "env_fits A V" and c: "covered A" and w: "on_way A V cs" and m: "in_place A (chip (frame cs))"
  obtains n ca where "safe_run A V ca (control_steps V (vb_fun A) (Suc n) cs)" "bounded_steps A V (Suc n) cs"
proof -
  from w obtain n ca where n: "safe_run A V ca (control_steps V (vb_fun A) n cs)" "bounded_steps A V n cs"
    by (auto simp: on_way_def)
  show thesis
  proof (cases n)
    case 0
    then obtain s where "stands A cs s" using n by auto
    from instruction_stands [OF A V c this m] that show thesis by blast
  next
    case (Suc k)
    with n that show thesis by blast
  qed
qed

lemma on_way_outcome:
  assumes A: "validated A" and V: "env_fits A V" and c: "covered A" and w: "on_way A V cs" and m: "in_place A (chip (frame cs))"
  obtains (trapped) e where "exec_control V (vb_fun A) cs = trap e"
  | (onwards) cs' where "exec_control V (vb_fun A) cs = done_with (Goes_on cs')" "on_way A V cs'"
  | (leaves) out ca where "exec_control V (vb_fun A) cs = done_with out" "safe_outcome A V ca out" "\<forall>cs'. out \<noteq> Goes_on cs'"
proof -
  from assms obtain n ca where n: "safe_run A V ca (control_steps V (vb_fun A) (Suc n) cs)" "bounded_steps A V (Suc n) cs"
    by (rule on_way_steps)
  show thesis
  proof (cases "exec_control V (vb_fun A) cs")
    case None
    with n(1) show thesis by (simp add: safe_run_def bindR_def trap_def done_with_def)
  next
    case (Some r)
    show thesis
    proof (cases r)
      case (Inl e)
      with Some trapped show thesis by (simp add: trap_def)
    next
      case (Inr out)
      with Some have ex: "exec_control V (vb_fun A) cs = done_with out" by (simp add: done_with_def)
      show thesis
      proof (cases "\<exists>cs'. out = Goes_on cs'")
        case True
        then obtain cs' where cs': "out = Goes_on cs'" ..
        have "bounded_steps A V n cs'"
          unfolding bounded_steps_def
        proof (intro allI impI)
          fix j cs1
          assume "j \<le> n" "control_steps V (vb_fun A) j cs' = done_with (Goes_on cs1)"
          then have "Suc j \<le> Suc n" "control_steps V (vb_fun A) (Suc j) cs = done_with (Goes_on cs1)" using ex cs' by simp_all
          then show "in_bounds A cs1" using n(2) unfolding bounded_steps_def by blast
        qed
        moreover have "safe_run A V ca (control_steps V (vb_fun A) n cs')" using n(1) ex cs' by simp
        ultimately have "on_way A V cs'" by (auto simp: on_way_def)
        then show thesis using onwards ex cs' by simp
      next
        case False
        then have "control_steps V (vb_fun A) (Suc n) cs = done_with out" using ex by (cases out) simp_all
        then show thesis using n(1) leaves [OF ex, of ca] False by auto
      qed
    qed
  qed
qed

lemma reached_on_way:
  assumes A: "validated A" and V: "env_fits A V" and c: "covered A" and e: "entry_frame A cs0" and r: "reached A V cs0 cs"
  shows "on_way A V cs"
  using r
proof (induction rule: reached.induct)
  case reached_start
  then show ?case using entry_stands [OF A e] stands_on_way [OF A] by blast
next
  case (reached_step cs cs')
  from A V c reached_step.IH reached_step.hyps(2) show ?case
    by (rule on_way_outcome) (use reached_step.hyps(3) in \<open>auto simp: trap_def done_with_def\<close>)
next
  case (reached_call cs fidx cs' cs'')
  from A V c reached_call.IH reached_call.hyps(2) show ?case
  proof (rule on_way_outcome)
    fix out ca
    assume "exec_control V (vb_fun A) cs = done_with out" "safe_outcome A V ca out"
    with reached_call.hyps(3) have "safe_outcome A V ca (Calls fidx cs')" by (simp add: done_with_def)
    then obtain t where "stands A cs'' t"
      using reached_call.hyps(4) by (auto simp: Let_def resumes_def returned_def)
    then show ?thesis by (rule stands_on_way [OF A])
  qed (use reached_call.hyps(3) in \<open>simp_all add: trap_def done_with_def\<close>)
qed

text \<open>The end of a step: a trap, the next instruction, a call of an existing function with all its arguments, a
  return with all the results of the function, or a request to terminate.\<close>

fun proper_outcome :: "ValidatedBody \<Rightarrow> control_env \<Rightarrow> outcome \<Rightarrow> bool" where
  "proper_outcome A V (Goes_on cs) = True"
| "proper_outcome A V (Calls fidx cs) =
     (unat fidx < length (ce_functions V) \<and>
      param_cells (ce_functions V ! unat fidx) \<le> length (frame_sp (frame cs)))"
| "proper_outcome A V (Returns vs cs) = (length vs = ret_cells (func_type (vb_fun A)))"
| "proper_outcome A V Terminates = True"

definition proper :: "ValidatedBody \<Rightarrow> control_env \<Rightarrow> outcome run \<Rightarrow> bool" where
  "proper A V r \<longleftrightarrow> (case r of None \<Rightarrow> False | Some (Inl e) \<Rightarrow> True | Some (Inr out) \<Rightarrow> proper_outcome A V out)"

lemma proper_simps [simp]: "proper A V (trap e)" "proper A V (done_with out) = proper_outcome A V out" "\<not> proper A V stuck"
  by (simp_all add: proper_def trap_def done_with_def stuck_def)

lemma reached_proper:
  assumes "validated A" "env_fits A V" "covered A" "entry_frame A cs0" "reached A V cs0 cs" "in_place A (chip (frame cs))"
  shows "proper A V (exec_control V (vb_fun A) cs)"
proof -
  note w = reached_on_way [OF assms(1-5)]
  from assms(1-3) w assms(6) show ?thesis
  proof (rule on_way_outcome)
    fix out ca
    assume "exec_control V (vb_fun A) cs = done_with out" "safe_outcome A V ca out"
    then show ?thesis by (cases out) (simp_all add: Let_def)
  qed simp_all
qed


section \<open>The small function runs\<close>

definition branching_control :: control_env where
  "branching_control = \<lparr>ce_base = tiny_instance, ce_types = [], ce_functions = [], ce_table = [], ce_br_tables = [],
     ce_terminate = False\<rparr>"

definition branching_frame :: "u32 \<Rightarrow> u32 list \<Rightarrow> ControlState" where
  "branching_frame ip sp = \<lparr>frame = \<lparr>frame_ip = ip, frame_sp = sp, frame_lp = [5], chip = branching_code,
       mem_inst = tiny_memory, data_segs = []\<rparr>,
     labels = [\<lparr>begin_addr = 0x1000, target_addr = 0x1008, block_sp = 0, block_cells = 1\<rparr>],
     addr_cache = replicate 128 no_block\<rparr>"

lemma branching_visited:
  assumes "visited branching_body s"
  shows "s \<in> {branching_state 0x1000 [function_block] [] 0 1, branching_state 0x1002 [function_block] [VALUE_TYPE_I32] 1 1,
    branching_state 0x1004 [if_block, function_block] [] 1 2,
    branching_state 0x1005 [if_block\<lparr>else_addr := 0x1004\<rparr>, function_block] [] 1 2,
    branching_state 0x1006 [function_block] [] 1 2, branching_state 0x1008 [function_block] [VALUE_TYPE_I32] 1 2,
    branching_state 0x1009 [] [VALUE_TYPE_I32] 1 2}" (is "s \<in> ?S")
proof -
  have lp: "lp (branching_state p bs cells ms mc) = p" for p bs cells ms mc by (simp add: branching_state_def)
  have start: "branching_state 0x1000 [function_block] [] 0 1 \<in> ?S" by (rule insertI1)
  have r: "prepare_reaches tiny_env tiny_module branching_function 0x1009 (branching_state 0x1000 [function_block] [] 0 1) s"
    using assms branching_start by (simp add: visited_def branching_body_def branching_end)
  have next_in: "u \<in> ?S" if "t \<in> ?S" "lp t < 0x1009" "prepare_step tiny_env tiny_module branching_function 0x1009 t = Inr u" for t u
    using that by (elim insertE emptyE) (simp_all add: branching_steps lp del: One_nat_def)
  have "prepare_reaches tiny_env tiny_module branching_function 0x1009 t u \<Longrightarrow> t \<in> ?S \<Longrightarrow> u \<in> ?S" for t u
  proof (induction rule: prepare_reaches.induct)
    case (prepare_next s t u)
    show ?case by (rule next_in [OF prepare_next.IH [OF prepare_next.prems] prepare_next.hyps(2,3)])
  qed
  from this [OF r start] show ?thesis .
qed

lemma branching_covered: "covered branching_body"
proof -
  have lp: "lp (branching_state p bs cells ms mc) = p" "lmem (branching_state p bs cells ms mc) = branching_code"
    "csp_num (lctx (branching_state p bs cells ms mc)) = length bs" for p bs cells ms mc by (simp_all add: branching_state_def)
  have "opcode_at s \<noteq> 0xfc" if "visited branching_body s" "0 < csp_num (lctx s)" for s
    using branching_visited [OF that(1)] that(2)
    by (elim insertE emptyE) (simp_all add: lp branching_bytes)
  then show ?thesis by (simp add: covered_def)
qed

lemma branching_fits: "env_fits branching_body branching_control"
  by (simp add: env_fits_def branching_control_def branching_body_def tiny_module_def branching_state_def tiny_instance_def
      global_count_def)

lemma branching_entry: "entry_frame branching_body (branching_frame 0x1000 [])"
proof -
  have "wasm_value_type_cell_num 0x7f = 1" by code_simp
  then show ?thesis
    using cache_start_ok [OF branching_validated]
    by (simp add: entry_frame_def branching_frame_def branching_body_def branching_function_def tiny_function_def
        ret_cells_def wasm_get_cell_num_def BLOCK_ADDR_CONFLICT_SIZE_def BLOCK_ADDR_CACHE_SIZE_def locals_fit_def
        local_count_def tiny_module_def value_type_defs local_type_def)
qed

lemma branching_first:
  "exec_control branching_control branching_function (branching_frame 0x1000 []) =
     done_with (Goes_on (branching_frame 0x1002 [1]))"
proof -
  have "read_leb branching_code 0x1001 0x1009 32 True = Inr (1, 0x1002)" by code_simp
  then have "read_leb_quick branching_code 0x1001 32 True = Some (1, 0x1002)"
    by (rule read_leb_fetched) (simp_all add: agree_def)
  moreover have "\<not> control_opcode 0x41"
    by (simp add: control_opcode_def EXT_OP_BLOCK_def EXT_OP_LOOP_def EXT_OP_IF_def EXT_OP_BR_TABLE_CACHE_def)
  ultimately show ?thesis
    by (simp add: exec_control_def fetch_byte_def branching_frame_def branching_bytes plain_dispatch exec_plain_def opcode_values
        exec_const_def push32_def no_wait)
qed


section \<open>The property\<close>

lemma body_runs:
  assumes "validated A" "env_fits A V" "covered A" "entry_frame A cs0" "reached A V cs0 cs" "in_place A (chip (frame cs))"
  shows "in_bounds A cs \<and> proper A V (exec_control V (vb_fun A) cs)"
  using on_way_in_bounds [OF reached_on_way [OF assms(1-5)]] reached_proper [OF assms] by simp

text \<open>C3: an accepted function runs safely to its end, if it is \<open>covered\<close> and its code stays. Let a call enter a body that the
  validation has accepted and in which no bulk memory instruction writes the index of a memory in more than one
  byte (the validation accepts that, and the interpreter gets out of step, \<open>memidx_out_of_step\<close>), and follow
  the interpreter through any number of instructions, blocks, loops, branches, tables and calls, where a
  callee may do anything but must come back with as many results as its type says, and as long as nothing
  overwrites the rewritten code. Then every frame the interpreter comes to stays within the operand stack and the labels
  the validation has counted, for which the frame was allocated, and the next step is defined: it traps, or goes on, or
  calls a function that exists with all its arguments on the stack, or returns exactly the cells of the function's
  result type, or stops because the thread has to. No step pops an empty stack, branches to a label
  that does not exist, or leaves the body.\<close>

theorem validated_body_runs:
  assumes "validated A" "env_fits A V" "covered A" "entry_frame A cs0" "reached A V cs0 cs" "in_place A (chip (frame cs))"
  shows "in_bounds A cs \<and> proper A V (exec_control V (vb_fun A) cs)"
  using assms by (rule body_runs)

theorem validated_body_runs_witness:
  "in_bounds branching_body (branching_frame 0x1002 [1]) \<and>
   proper branching_body branching_control (exec_control branching_control branching_function (branching_frame 0x1002 [1]))"
proof -
  have p: "in_place branching_body (chip (frame (branching_frame x y)))" for x y
    by (simp add: in_place_def agree_def branching_body_def branching_state_def branching_frame_def)
  have "reached branching_body branching_control (branching_frame 0x1000 []) (branching_frame 0x1002 [1])"
    by (rule reached_step [OF reached_start p]) (simp add: branching_first branching_body_def)
  from validated_body_runs [OF branching_validated branching_fits branching_covered branching_entry this p]
  show ?thesis by (simp add: branching_body_def)
qed

end
