(* ===== verification/Content_Safety.thy ===== *)
theory Content_Safety
  imports Module_Content Body_Safety
begin

text \<open>
  What the loader promises of an accepted module: its types and functions are well formed, the bodies lie
  one behind the other in the code section, and the frame of a function has room for its locals. With the
  validation of every body this makes each function a \<open>ValidatedBody\<close> whose code nothing has changed since,
  so that \<open>Body_Safety\<close> applies to every function of every module \<open>load_module\<close> accepts.
\<close>

section \<open>Loops\<close>

lemma items_inv:
  assumes "items f n p s = Inr (s', p')" "P p s"
    and "\<And>p s p' s'. P p s \<Longrightarrow> f p s = Inr (s', p') \<Longrightarrow> P p' s'"
  shows "P p' s'"
  using assms(1,2)
proof (induction n arbitrary: p s)
  case (Suc n)
  then obtain s1 p1 where "f p s = Inr (s1, p1)" "items f n p1 s1 = Inr (s', p')" by auto
  with Suc assms(3) show ?case by blast
qed simp

lemma items_count:
  assumes "items f n p s = Inr (s', p')" "\<And>p s p' s'. f p s = Inr (s', p') \<Longrightarrow> g s' = Suc (g s)"
  shows "g s' = g s + n"
  using assms(1)
proof (induction n arbitrary: p s)
  case (Suc n)
  then obtain s1 p1 where "f p s = Inr (s1, p1)" "items f n p1 s1 = Inr (s', p')" by auto
  with Suc.IH assms(2) show ?case by fastforce
qed simp

lemma get_bytes_length: "get_bytes m n p e = Inr (bs, q) \<Longrightarrow> length bs = n"
  by (induction n arbitrary: p bs) auto

lemma valid_for_interpreter: "is_valid_value_type_for_interpreter t \<Longrightarrow> is_valid_value_type t"
  by (auto simp: is_valid_value_type_for_interpreter_def split: if_splits)

lemma allocE_bound: "allocE E n = Inr u \<Longrightarrow> n < 0xFFFFFFFF"
  by (simp add: allocE_def loader_malloc_def)

text \<open>Taking a sequence of reads apart.\<close>

lemma bindE_guard:
  assumes "bindE (guardE b e) f = Inr y"
  obtains "b" "f () = Inr y"
  using assms by auto

lemma bindE_triple:
  assumes "bindE r (\<lambda>((a, b), c). f a b c) = Inr y"
  obtains a b c where "r = Inr ((a, b), c)" "f a b c = Inr y"
  using assms by auto

lemma bindE_pair:
  assumes "bindE r (\<lambda>(a, b). f a b) = Inr y"
  obtains a b where "r = Inr (a, b)" "f a b = Inr y"
  using assms by auto

lemma bindE_one:
  assumes "bindE r f = Inr y"
  obtains x where "r = Inr x" "f x = Inr y"
  using assms by auto

lemma Inr_pair:
  assumes "(Inr (a, b) :: 'e + _) = Inr (x, y)"
  obtains "x = a" "y = b"
  using assms by auto

lemma Inr_one:
  assumes "(Inr a :: 'e + _) = Inr b"
  obtains "a = b"
  using assms by auto

lemma if_Inr:
  assumes "(if b then r else r') = Inr y"
  obtains "b" "r = Inr y" | "\<not> b" "r' = Inr y"
  using assms by (auto split: if_splits)

lemmas bindE_elims = bindE_guard bindE_triple bindE_pair bindE_one Inr_pair Inr_one

section \<open>Types\<close>

lemma read_func_type_ok:
  assumes "read_func_type E m e p ts = Inr (ts', p')"
  shows "\<exists>t. ts' = ts @ [t] \<and> func_type_ok t"
proof -
  from assms obtain n1 n2 :: u32 and p1 params p2 p3 results p4 where b: "get_bytes m (unat n1) p1 e = Inr (params, p2)"
      "get_bytes m (unat n2) p3 e = Inr (results, p4)"
    and v: "list_all is_valid_value_type_for_interpreter (params @ results)"
    and ts: "ts' = ts @ [\<lparr>param_count = unat n1, result_count = unat n2, types = params @ results\<rparr>]"
    unfolding read_func_type_def Let_def
    by (elim bindE_elims) (rule that; assumption)
  from v have "list_all is_valid_value_type (params @ results)"
    unfolding list_all_iff by (blast intro: valid_for_interpreter)
  with get_bytes_length [OF b(1)] get_bytes_length [OF b(2)] ts show ?thesis by (simp add: func_type_ok_def)
qed

lemma load_type_section_ok:
  assumes "load_type_section E buf e s = Inr s'"
  shows "\<exists>ts. ld_mod s' = (ld_mod s)\<lparr>mc_types := ts\<rparr> \<and> list_all func_type_ok ts \<and> length ts < 2 ^ 30"
proof -
  from assms obtain n :: u32 and p ts q u where al: "(if n \<noteq> 0 then allocE E (sizeof_ptr * unat n) else Inr ()) = Inr u"
    and it: "items (read_func_type E (ld_mem s) e) (unat n) p [] = Inr (ts, q)"
    and s': "s\<lparr>ld_mod := (ld_mod s)\<lparr>mc_types := ts\<rparr>\<rparr> = s'"
    unfolding load_type_section_def Let_def by (elim bindE_elims) (rule that; assumption)
  have "list_all func_type_ok ts"
    by (rule items_inv [OF it, where P = "\<lambda>_. list_all func_type_ok"]) (auto dest: read_func_type_ok)
  moreover have "length ts = length ([] :: WASMFuncType list) + unat n"
    by (rule items_count [OF it]) (auto dest: read_func_type_ok)
  moreover have "unat n < 2 ^ 30"
    using al by (cases "n = 0") (auto simp: sizeof_ptr_def dest!: allocE_bound)
  ultimately show ?thesis using s' by auto
qed

section \<open>The content of a module\<close>

definition body_ok :: "WASMFunction \<Rightarrow> bool" where
  "body_ok F \<longleftrightarrow> function_ok F \<and> locals_fit F (param_cells (func_type F) + local_cells F)"

definition content_ok :: "ModuleContent \<Rightarrow> bool" where
  "content_ok c \<longleftrightarrow> list_all func_type_ok (mc_types c) \<and> length (mc_types c) < 2 ^ 30 \<and>
     list_all (\<lambda>f. func_type_ok (fi_type f)) (mc_import_functions c) \<and>
     list_all body_ok (mc_functions c) \<and>
     list_all (\<lambda>g. is_valid_value_type (gi_val_type g)) (mc_import_globals c) \<and>
     list_all (\<lambda>g. is_valid_value_type (g_val_type g)) (mc_globals c)"

lemma read_name_mod: "read_name E p e s = Inr (r, s') \<Longrightarrow> ld_mod s' = ld_mod s"
  by (auto simp: read_name_def wasm_const_str_list_insert_def Let_def split: if_splits)

lemma load_function_import_ok:
  assumes "load_function_import m p e ts mn fn = Inr (f, p')" "list_all func_type_ok ts"
  shows "func_type_ok (fi_type f)"
  using assms by (auto simp: load_function_import_def list_all_length)

lemma load_global_import_ok:
  assumes "load_global_import m p e mn gn = Inr (g, p')"
  shows "is_valid_value_type (gi_val_type g)"
  using assms by (auto simp: load_global_import_def Let_def valid_for_interpreter split: option.splits if_splits)

lemma load_import_ok:
  assumes "load_import E e p s = Inr (s', p')" "content_ok (ld_mod s)"
  shows "content_ok (ld_mod s') \<and> mc_functions (ld_mod s') = mc_functions (ld_mod s)"
  using assms(1) unfolding load_import_def Let_def
proof (elim bindE_elims)
  fix mn p1 s1 fn p2 s2 k p3
  assume "read_name E p e s = Inr ((mn, p1), s1)" "read_name E p1 e s1 = Inr ((fn, p2), s2)"
  then have m: "ld_mod s2 = ld_mod s" by (simp add: read_name_mod)
  assume "(if k = (0 :: u8) then
         bindE (load_function_import (ld_mem s2) p3 e (mc_types (ld_mod s2)) mn fn) (\<lambda>(f, p).
           Inr (on_mod (\<lambda>c. c\<lparr>mc_import_functions := mc_import_functions c @ [f]\<rparr>) s2, p))
       else if k = 1 then
         bindE (load_table_import (ld_mem s2) p3 e mn fn) (\<lambda>(t, p).
           Inr (on_mod (\<lambda>c. c\<lparr>mc_import_tables := mc_import_tables c @ [t]\<rparr>) s2, p))
       else if k = 2 then
         bindE (load_memory_import (ld_mem s2) p3 e mn fn) (\<lambda>(t, p).
           Inr (on_mod (\<lambda>c. c\<lparr>mc_import_memories := mc_import_memories c @ [t]\<rparr>) s2, p))
       else if k = 3 then
         bindE (load_global_import (ld_mem s2) p3 e mn fn) (\<lambda>(g, p).
           Inr (on_mod (\<lambda>c. c\<lparr>mc_import_globals := mc_import_globals c @ [g]\<rparr>) s2, p))
       else Inl ''invalid import kind'') = Inr (s', p')"
  then show ?thesis using assms(2)
    by (elim if_Inr bindE_elims)
      (simp_all add: on_mod_def m content_ok_def load_function_import_ok load_global_import_ok)
qed


lemma load_import_section_ok:
  assumes "load_import_section E buf e s = Inr s'" "content_ok (ld_mod s)"
  shows "content_ok (ld_mod s') \<and> mc_functions (ld_mod s') = mc_functions (ld_mod s)"
proof -
  have it: "content_ok (ld_mod s2) \<and> mc_functions (ld_mod s2) = mc_functions (ld_mod s)"
    if "items (load_import E e) n p s = Inr (s2, p2)" for n p s2 p2
    by (rule items_inv [OF that, where P = "\<lambda>_ s2. content_ok (ld_mod s2) \<and> mc_functions (ld_mod s2) = mc_functions (ld_mod s)"])
      (use assms(2) in \<open>auto dest: load_import_ok\<close>)
  from assms show ?thesis unfolding load_import_section_def
    by (elim bindE_elims if_Inr) (auto simp: on_mod_def content_ok_def dest!: it)
qed

section \<open>Functions\<close>

text \<open>The bodies lie one behind the other between two addresses.\<close>

fun bodies :: "nat \<Rightarrow> WASMFunction list \<Rightarrow> nat \<Rightarrow> bool" where
  "bodies lo [] hi \<longleftrightarrow> lo \<le> hi"
| "bodies lo (F # Fs) hi \<longleftrightarrow> lo < unat (code F) \<and> 0 < unat (code_size F) \<and>
     bodies (unat (code F) + unat (code_size F)) Fs hi"

lemma bodies_snoc:
  assumes "bodies lo Fs hi" "hi < unat (code F)" "0 < unat (code_size F)" "unat (code F) + unat (code_size F) \<le> hi'"
  shows "bodies lo (Fs @ [F]) hi'"
  using assms by (induction lo Fs hi rule: bodies.induct) auto

lemma bodies_bounds: "bodies lo Fs hi \<Longrightarrow> lo \<le> hi \<and>
   (\<forall>F\<in>set Fs. lo < unat (code F) \<and> unat (code F) + unat (code_size F) \<le> hi)"
  by (induction lo Fs hi rule: bodies.induct) auto

lemma bodies_mono: "bodies lo Fs hi \<Longrightarrow> hi \<le> hi' \<Longrightarrow> bodies lo Fs hi'"
  by (induction lo Fs hi rule: bodies.induct) auto

text \<open>The offsets of the locals.\<close>

lemma offsets_length [simp]: "length (offsets_from off ts) = length ts"
  by (induction off ts rule: offsets_from.induct) auto

lemma cell_num_foldl: "foldl (\<lambda>n t. n + wasm_value_type_cell_num t) n ts = n + wasm_get_cell_num ts"
  unfolding wasm_get_cell_num_def
  by (induction ts arbitrary: n) (simp, metis (no_types, lifting) add.assoc add_0 foldl_Cons)

lemma cell_num_Cons [simp]: "wasm_get_cell_num (t # ts) = wasm_value_type_cell_num t + wasm_get_cell_num ts"
  using cell_num_foldl [of "wasm_value_type_cell_num t" ts] by (simp add: wasm_get_cell_num_def)

lemma cell_num_Nil [simp]: "wasm_get_cell_num [] = 0"
  by (simp add: wasm_get_cell_num_def)

lemma cell_num_append: "wasm_get_cell_num (xs @ ys) = wasm_get_cell_num xs + wasm_get_cell_num ys"
  by (induction xs) auto

lemma offsets_bound:
  "j < length ts \<Longrightarrow> unat (offsets_from off ts ! j) + wasm_value_type_cell_num (ts ! j) \<le> off + wasm_get_cell_num ts"
proof (induction off ts arbitrary: j rule: offsets_from.induct)
  case (2 off t ts)
  show ?case
  proof (cases j)
    case 0
    have "unat (of_nat off :: u16) \<le> off" by (simp add: unat_of_nat)
    with 0 show ?thesis by simp
  next
    case (Suc i)
    with 2 show ?thesis by (simp add: add.assoc)
  qed
qed simp

lemma init_function_local_offsets_ok:
  assumes "init_function_local_offsets E ft ts = Inr offs" "func_type_ok ft" "list_all is_valid_value_type ts"
  shows "body_ok \<lparr>func_type = ft, local_types = ts, local_offsets = offs, code = c, code_size = n\<rparr>"
proof -
  let ?F = "\<lparr>func_type = ft, local_types = ts, local_offsets = offs, code = c, code_size = n\<rparr>"
  let ?ps = "take (param_count ft) (types ft)"
  have o: "offs = offsets_from 0 (?ps @ ts)" using assms(1) by (auto simp: init_function_local_offsets_def Let_def)
  have l: "length ?ps = param_count ft" using assms(2) by (simp add: func_type_ok_def)
  show ?thesis
    unfolding body_ok_def locals_fit_def
  proof (intro conjI allI impI)
    fix j
    assume j: "j < local_count ?F"
    then have "(?ps @ ts) ! j = local_type ?F j"
      using l by (simp add: local_type_def local_count_def nth_append)
    with offsets_bound [of j "?ps @ ts" 0] j l o show "unat (local_offsets ?F ! j) +
         wasm_value_type_cell_num (local_type ?F j)
         \<le> param_cells (func_type ?F) +
            local_cells ?F"
      by (simp add: local_count_def param_cells_def local_cells_def cell_num_append)
  qed (use assms in \<open>simp add: function_ok_def\<close>)
qed


lemma count_locals_forward: "count_locals m e p n = Inr (n', p') \<Longrightarrow> unat p < unat p'"
  unfolding count_locals_def by (elim bindE_elims) (auto dest!: read_leb_uint32_Inr(1) get_uint8_Inr(3))

lemma read_locals_valid:
  "read_locals m e n p ts = Inr (ts', p') \<Longrightarrow> list_all is_valid_value_type ts \<Longrightarrow> list_all is_valid_value_type ts'"
  unfolding read_locals_def by (elim bindE_elims) (auto simp: list_all_iff valid_for_interpreter)

lemma load_function_ok:
  assumes "load_function E m ts e code_e p (fs, p_code) = Inr ((fs', p_code'), p')"
    and "list_all func_type_ok ts" "list_all body_ok fs" "bodies lo fs (unat p_code)" "unat p_code \<le> unat code_e"
  shows "list_all body_ok fs' \<and> bodies lo fs' (unat p_code') \<and> unat p_code' \<le> unat code_e \<and>
    length fs' = Suc (length fs)"
proof -
  from assms(1) obtain ti :: u32 and p1 code_sz pc1 n pc2 k pc3 lts px offs where
    ti: "\<not> unat ti \<ge> length ts" and sz: "read_leb_uint32 m p_code code_e = Inr (code_sz, pc1)"
    and b: "\<not> (code_sz = 0 \<or> pc1 + code_sz > code_e)" and ln: "read_leb_uint32 m pc1 code_e = Inr (n, pc2)"
    and cl: "items (count_locals m code_e) (unat n) pc2 0 = Inr (k, pc3)"
    and en: "\<not> (pc1 + code_sz \<le> pc3 \<or> m (pc1 + code_sz - 1) \<noteq> 0x0b)"
    and rl: "items (read_locals m code_e k) (unat n) pc2 [] = Inr (lts, px)"
    and of: "init_function_local_offsets E (ts ! unat ti) lts = Inr offs"
    and r: "fs' = fs @ [\<lparr>func_type = ts ! unat ti, local_types = lts, local_offsets = offs, code = pc3,
              code_size = pc1 + code_sz - pc3\<rparr>]" "p_code' = pc1 + code_sz"
    unfolding load_function_def Let_def by (auto elim!: bindE_elims)
  let ?F = "\<lparr>func_type = ts ! unat ti, local_types = lts, local_offsets = offs, code = pc3, code_size = pc1 + code_sz - pc3\<rparr>"
  have "list_all is_valid_value_type lts"
    by (rule items_inv [OF rl, where P = "\<lambda>_. list_all is_valid_value_type"]) (auto dest: read_locals_valid)
  moreover have "func_type_ok (ts ! unat ti)" using ti assms(2) by (simp add: list_all_length)
  ultimately have F: "body_ok ?F" using of init_function_local_offsets_ok by blast
  have "unat pc2 \<le> unat pc3"
    by (rule items_inv [OF cl, where P = "\<lambda>q _. unat pc2 \<le> unat q"]) (auto dest: count_locals_forward)
  then have lt: "unat p_code < unat pc3" using read_leb_uint32_Inr(1) [OF sz] read_leb_uint32_Inr(1) [OF ln] by simp
  have en': "unat pc3 < unat (pc1 + code_sz)" "unat (pc1 + code_sz) \<le> unat code_e"
    using en b by (auto simp: word_le_nat_alt word_less_nat_alt)
  have u: "unat (pc1 + code_sz - pc3) = unat (pc1 + code_sz) - unat pc3"
    using en'(1) by (intro unat_sub_range) simp
  have "bodies lo (fs @ [?F]) (unat (pc1 + code_sz))"
    by (rule bodies_snoc [OF assms(4)]) (use lt en' u in simp_all)
  with F assms(3) en'(2) r show ?thesis by simp
qed


lemma load_function_section_ok:
  assumes "load_function_section E buf e cs s = Inr s'" "content_ok (ld_mod s)"
  shows "\<exists>fs. ld_mod s' = (ld_mod s)\<lparr>mc_functions := fs\<rparr> \<and> list_all body_ok fs \<and>
    (fs = [] \<or> (\<exists>b c. cs = Some (b, c) \<and> bodies (unat b) fs (unat c)))"
proof -
  from assms(1) obtain n k :: u32 and p pc ce fs pc' p' where
    c: "(case cs of None \<Rightarrow> Inr (0, (0, 0))
         | Some (buf_code, buf_code_end) \<Rightarrow>
             bindE (read_leb_uint32 (ld_mem s) buf_code buf_code_end) (\<lambda>(n, p_code). Inr (n, (p_code, buf_code_end)))) =
         Inr (k, (pc, ce))" and nk: "n = k"
    and it: "items (load_function E (ld_mem s) (mc_types (ld_mod s)) e ce) (unat n) p ([], pc) = Inr ((fs, pc'), p')"
    and s': "ld_mod s' = (ld_mod s)\<lparr>mc_functions := fs\<rparr>"
    unfolding load_function_section_def Let_def on_mod_def by (auto elim!: bindE_elims)
  have ts: "list_all func_type_ok (mc_types (ld_mod s))" using assms(2) by (simp add: content_ok_def)
  show ?thesis
  proof (cases cs)
    case None
    then have "fs = []" using c nk it by simp
    with s' show ?thesis by auto
  next
    case (Some bc)
    then obtain b where b: "cs = Some (b, ce)" and l: "read_leb_uint32 (ld_mem s) b ce = Inr (k, pc)"
      using c by (cases bc) auto
    note b = b less_imp_le [OF read_leb_uint32_Inr(1) [OF l]] read_leb_uint32_Inr(2) [OF l]
    have "list_all body_ok (fst (fs, pc')) \<and> bodies (unat b) (fst (fs, pc')) (unat (snd (fs, pc'))) \<and>
        unat (snd (fs, pc')) \<le> unat ce"
      by (rule items_inv [OF it, where P = "\<lambda>_ st. list_all body_ok (fst st) \<and> bodies (unat b) (fst st) (unat (snd st)) \<and>
            unat (snd st) \<le> unat ce"])
        (use b ts in \<open>auto dest: load_function_ok\<close>)
    with s' b(1) bodies_mono show ?thesis by fastforce
  qed
qed

lemma load_global_section_ok:
  assumes "load_global_section E buf e s = Inr s'"
  shows "\<exists>gs. ld_mod s' = (ld_mod s)\<lparr>mc_globals := gs\<rparr> \<and> list_all (\<lambda>g. is_valid_value_type (g_val_type g)) gs"
proof -
  from assms obtain n :: u32 and p gs q where
    it: "items (load_global E (ld_mem s) (mc_import_globals (ld_mod s)) e) (unat n) p [] = Inr (gs, q)"
    and s': "ld_mod s' = (ld_mod s)\<lparr>mc_globals := gs\<rparr>"
    unfolding load_global_section_def Let_def on_mod_def by (auto elim!: bindE_elims)
  have "list_all (\<lambda>g. is_valid_value_type (g_val_type g)) gs"
    by (rule items_inv [OF it, where P = "\<lambda>_. list_all (\<lambda>g. is_valid_value_type (g_val_type g))"])
      (auto simp: load_global_def Let_def valid_for_interpreter elim!: bindE_elims)
  with s' show ?thesis by blast
qed

lemma load_export_keeps:
  "load_export E e p (es, s) = Inr ((es', s'), p') \<Longrightarrow> ld_mod s' = ld_mod s"
  unfolding load_export_def Let_def by (auto elim!: bindE_elims dest!: read_name_mod split: option.splits)

lemma load_export_section_keeps:
  assumes "load_export_section E buf e s = Inr s'"
  shows "\<exists>es. ld_mod s' = (ld_mod s)\<lparr>mc_exports := es\<rparr>"
proof -
  from assms obtain n p es s2 p2 where i: "items (load_export E e) n p ([], s) = Inr ((es, s2), p2)"
    and s': "s2\<lparr>ld_mod := (ld_mod s2)\<lparr>mc_exports := es\<rparr>\<rparr> = s'"
    unfolding load_export_section_def on_mod_def by (elim bindE_elims) (rule that; assumption)
  have "ld_mod (snd (es, s2)) = ld_mod s"
  proof (rule items_inv [OF i, where P = "\<lambda>_ st. ld_mod (snd st) = ld_mod s"])
    fix p st p' st'
    assume "ld_mod (snd st) = ld_mod s" "load_export E e p st = Inr (st', p')"
    then show "ld_mod (snd st') = ld_mod s"
      using load_export_keeps [of E e p "fst st" "snd st" "fst st'" "snd st'" p'] by simp
  qed simp
  then show ?thesis using s' by auto
qed


section \<open>All sections\<close>

definition loaded_ok :: "WASMSection list \<Rightarrow> ModuleContent \<Rightarrow> bool" where
  "loaded_ok secs c \<longleftrightarrow> content_ok c \<and>
     (mc_functions c = [] \<or> (\<exists>b e. find_section 10 secs = Some (b, e) \<and> bodies (unat b) (mc_functions c) (unat e)))"

text \<open>The other loaders leave types, functions and globals alone.\<close>

lemma other_sections:
  "load_table_section E buf e s = Inr s' \<Longrightarrow> \<exists>x. ld_mod s' = (ld_mod s)\<lparr>mc_tables := x\<rparr>"
  "load_memory_section E buf e s = Inr s' \<Longrightarrow> \<exists>x. ld_mod s' = (ld_mod s)\<lparr>mc_memories := x\<rparr>"
  "load_start_section buf e s = Inr s' \<Longrightarrow> \<exists>x. ld_mod s' = (ld_mod s)\<lparr>mc_start_function := x\<rparr>"
  "load_table_segment_section E buf e s = Inr s' \<Longrightarrow> \<exists>x. ld_mod s' = (ld_mod s)\<lparr>mc_table_segs := x\<rparr>"
  "load_data_segment_section E buf e b s = Inr s' \<Longrightarrow> \<exists>x. ld_mod s' = (ld_mod s)\<lparr>mc_data_segs := x\<rparr>"
  "load_datacount_section buf e s = Inr s' \<Longrightarrow> \<exists>x. ld_mod s' = (ld_mod s)\<lparr>mc_data_seg_count1 := x\<rparr>"
  "load_code_section buf e fsec s = Inr s' \<Longrightarrow> s' = s"
  "load_user_section buf e s = Inr s' \<Longrightarrow> s' = s"
  unfolding load_table_section_def load_memory_section_def load_start_section_def load_table_segment_section_def
    load_data_segment_section_def load_datacount_section_def load_code_section_def load_user_section_def Let_def on_mod_def
  by (elim bindE_elims; force)+

lemma load_section_ok:
  assumes "load_section E secs sec (h, s) = Inr (h', s')" "loaded_ok secs (ld_mod s)"
  shows "loaded_ok secs (ld_mod s')"
proof -
  let ?b = "section_body sec" and ?e = "section_end_of sec"
  from assms(1) consider
    "load_user_section ?b ?e s = Inr s' \<or> load_code_section ?b ?e (find_section 3 secs) s = Inr s'"
  | "load_type_section E ?b ?e s = Inr s'" | "load_import_section E ?b ?e s = Inr s'"
  | "load_function_section E ?b ?e (find_section 10 secs) s = Inr s'" | "load_global_section E ?b ?e s = Inr s'"
  | "load_export_section E ?b ?e s = Inr s'"
  | "load_table_section E ?b ?e s = Inr s' \<or> load_memory_section E ?b ?e s = Inr s' \<or> load_start_section ?b ?e s = Inr s' \<or>
     load_table_segment_section E ?b ?e s = Inr s' \<or> load_data_segment_section E ?b ?e h s = Inr s' \<or>
     load_datacount_section ?b ?e s = Inr s'"
    unfolding load_section_def Let_def by (auto elim!: if_Inr)
  then show ?thesis
  proof cases
    case 1
    then show ?thesis using assms(2) by (auto dest: other_sections(7,8))
  next
    case 2
    then show ?thesis using assms(2) by (auto simp: loaded_ok_def content_ok_def dest!: load_type_section_ok)
  next
    case 3
    then show ?thesis using assms(2) load_import_section_ok by (auto simp: loaded_ok_def)
  next
    case 4
    then show ?thesis using assms(2) load_function_section_ok by (fastforce simp: loaded_ok_def content_ok_def)
  next
    case 5
    then show ?thesis using assms(2) by (auto simp: loaded_ok_def content_ok_def dest!: load_global_section_ok)
  next
    case 6
    then show ?thesis using assms(2) by (auto simp: loaded_ok_def content_ok_def dest!: load_export_section_keeps)
  next
    case 7
    then show ?thesis using assms(2) by (auto simp: loaded_ok_def content_ok_def dest!: other_sections(1-6))
  qed
qed

lemma load_sections_ok:
  "load_sections E secs todo (h, s) = Inr (h', s') \<Longrightarrow> loaded_ok secs (ld_mod s) \<Longrightarrow> loaded_ok secs (ld_mod s')"
proof (induction todo arbitrary: h s)
  case (Cons sec todo)
  then obtain h1 s1 where "load_section E secs sec (h, s) = Inr (h1, s1)" "load_sections E secs todo (h1, s1) = Inr (h', s')"
    by auto
  then show ?case using Cons load_section_ok by blast
qed simp

lemma empty_ok: "loaded_ok secs empty_content"
  by (simp add: loaded_ok_def content_ok_def empty_content_def)


section \<open>The code section\<close>

lemma tiles_bounds:
  "tiles m p e secs \<Longrightarrow> s \<in> set secs \<Longrightarrow>
   unat p < unat (section_body s) \<and> unat (section_body s) + unat (section_body_size s) \<le> unat e"
proof (induction secs arbitrary: p)
  case (Cons x secs)
  have "unat (section_body x + section_body_size x) = unat (section_body x) + unat (section_body_size x)"
    using Cons.prems(1) unat_add_small [of "section_body x" "unat (section_body_size x)"] unat_u32_less [of e] by simp
  with Cons show ?case by fastforce
qed simp

lemma find_section_bounds:
  assumes "tiles m p hi secs" "find_section t secs = Some (b, e)"
  shows "unat p < unat b" "unat b \<le> unat e" "unat e \<le> unat hi"
proof -
  from assms(2) obtain s where "find (\<lambda>sec. section_type sec = t) (rev secs) = Some s"
    and s: "b = section_body s" "e = section_body s + section_body_size s"
    by (auto simp: find_section_def section_end_of_def)
  then have "s \<in> set (rev secs)" unfolding find_Some_iff using nth_mem by blast
  then have "s \<in> set secs" by simp
  note t = tiles_bounds [OF assms(1) this]
  have "unat e = unat (section_body s) + unat (section_body_size s)"
    using t unat_add_small [of "section_body s" "unat (section_body_size s)"] unat_u32_less [of hi] s by simp
  with t s show "unat p < unat b" "unat b \<le> unat e" "unat e \<le> unat hi" by simp_all
qed

section \<open>One body\<close>

lemma visited_ends:
  assumes A: "validated A"
  obtains s0 where "prepare_start (vb_env A) (vb_fun A) (vb_code A) = Inr s0" "visited A s0" "visited A (vb_state A)"
proof -
  from A obtain s0 where s0: "prepare_start (vb_env A) (vb_fun A) (vb_code A) = Inr s0"
    by (auto simp: validated_def wasm_loader_prepare_bytecode_def split: sum.splits)
  have v: "visited A s0" using s0 by (auto simp: visited_def intro: prepare_refl)
  have F: "function_ok (vb_fun A)" using A by (simp add: validated_def)
  from prepare_loop_total [OF prepare_start_inv(1) [OF s0 F] validated_end(2,1) [OF A], of "vb_env A"] visited_inv(2) [OF A v]
  have "visited A (vb_state A)" using s0 by (auto simp: visited_def)
  with s0 v show ?thesis by (rule that)
qed

lemma validated_outside:
  assumes "validated A" "unat a < unat (code (vb_fun A)) \<or> unat (vb_end A) \<le> unat a"
  shows "lmem (vb_state A) a = vb_code A a"
  using assms visited_ends [OF assms(1)] visited_inv(1) [OF assms(1)] unfolding loop_inv_def by metis

lemma caches_in_body:
  assumes A: "validated A" and x: "x \<in> set (br_table_caches (vb_state A))"
  shows "unat (code (vb_fun A)) \<le> unat (fst x)" "unat (fst x) < unat (vb_end A)"
proof -
  from A obtain s0 where s0: "prepare_start (vb_env A) (vb_fun A) (vb_code A) = Inr s0" and v: "visited A s0"
    by (rule visited_ends)
  have F: "function_ok (vb_fun A)" using A by (simp add: validated_def)
  have "br_table_caches s0 = []" "lp s0 = code (vb_fun A)"
    using s0 prepare_start_inv(2) [OF s0 F] by (auto simp: prepare_start_def)
  then show "unat (code (vb_fun A)) \<le> unat (fst x)" "unat (fst x) < unat (vb_end A)"
    using caches_grow [OF A v] x by auto
qed


section \<open>All bodies\<close>

lemma prepare_functions_ok:
  assumes "prepare_functions V M ce Fs k = Some (Inr k')" "module_ok M" "list_all function_ok Fs" "bodies lo Fs hi"
    and "0 < lo" "hi < 2 ^ 32 - 1"
  shows "\<exists>As. map vb_fun As = Fs \<and>
    (\<forall>A\<in>set As. validated A \<and> vb_env A = V \<and> vb_module A = M \<and> in_place A (ck_mem k')) \<and>
    ck_depths k' = ck_depths k @ map (\<lambda>A. (vb_max_stack A, vb_max_block A)) As \<and>
    ck_br_tables k' = concat (map (\<lambda>A. br_table_caches (vb_state A)) (rev As)) @ ck_br_tables k \<and>
    (\<forall>a. unat a \<le> lo \<or> hi \<le> unat a \<longrightarrow> ck_mem k' a = ck_mem k a)"
  using assms(1,3-5)
proof (induction Fs arbitrary: lo k)
  case Nil
  then show ?case by simp
next
  case (Cons F Fs)
  from Cons.prems(1) obtain ms mb s where p: "wasm_loader_prepare_bytecode V M F (ck_mem k) = Some (Inr (ms, mb, s))"
    by (auto split: option.splits sum.splits)
  define k1 where "k1 = \<lparr>ck_mem = lmem s, ck_depths = ck_depths k @ [(ms, mb)],
    ck_br_tables = br_table_caches s @ ck_br_tables k, ck_memory_grow = (ck_memory_grow k \<or> possible_memory_grow s)\<rparr>"
  have r: "prepare_functions V M ce Fs k1 = Some (Inr k')"
    using Cons.prems(1) p by (simp add: k1_def split: if_splits)
  let ?lo = "unat (code F) + unat (code_size F)"
  define A where "A = \<lparr>vb_env = V, vb_module = M, vb_fun = F, vb_code = ck_mem k, vb_max_stack = ms, vb_max_block = mb, vb_state = s\<rparr>"
  have b: "bodies ?lo Fs hi" "lo < unat (code F)" using Cons.prems(3) by simp_all
  have hi: "?lo \<le> hi" using bodies_bounds [OF b(1)] by simp
  have A: "validated A"
    using p assms(2,6) Cons.prems(2,4) b(2) hi by (simp add: validated_def A_def)
  have e: "unat (vb_end A) = ?lo"
    using unat_code_end [of F] hi assms(6) by (simp add: A_def)
  have fs: "list_all function_ok Fs" "0 < ?lo" using Cons.prems(2) b(2) by auto
  from Cons.IH [OF r fs(1) b(1) fs(2)] obtain As where As: "map vb_fun As = Fs"
    "\<forall>A\<in>set As. validated A \<and> vb_env A = V \<and> vb_module A = M \<and> in_place A (ck_mem k')"
    "ck_depths k' = ck_depths k1 @ map (\<lambda>A. (vb_max_stack A, vb_max_block A)) As"
    "ck_br_tables k' = concat (map (\<lambda>A. br_table_caches (vb_state A)) (rev As)) @ ck_br_tables k1"
    and mem: "\<forall>a. unat a \<le> ?lo \<or> hi \<le> unat a \<longrightarrow> ck_mem k' a = ck_mem k1 a" by blast
  have "in_place A (ck_mem k')" using mem e by (simp add: in_place_def agree_def k1_def A_def)
  moreover have "ck_mem k' a = ck_mem k a" if "unat a \<le> lo \<or> hi \<le> unat a" for a
  proof -
    have "ck_mem k' a = lmem s a" using mem that b(2) by (auto simp: k1_def)
    also have "\<dots> = ck_mem k a" using validated_outside [OF A, of a] that b(2) e hi by (auto simp: A_def)
    finally show ?thesis .
  qed
  ultimately show ?case
    using As A by (intro exI [of _ "A # As"]) (auto simp: k1_def A_def)
qed

text \<open>A lookup of a table of depths finds the one of its own body.\<close>

lemma find_append_none: "\<forall>x\<in>set xs. \<not> P x \<Longrightarrow> find P (xs @ ys) = find P ys"
  by (induction xs) auto

lemma find_none_append: "\<forall>y\<in>set ys. \<not> P y \<Longrightarrow> find P (xs @ ys) = find P xs"
  by (induction xs) (auto simp: find_None_iff)

lemma bodies_sorted:
  "bodies lo Fs hi \<Longrightarrow> sorted_wrt (\<lambda>F G. unat (code F) + unat (code_size F) \<le> unat (code G)) Fs"
proof (induction lo Fs hi rule: bodies.induct)
  case (2 lo F Fs hi)
  then show ?case using bodies_bounds [of "unat (code F) + unat (code_size F)" Fs hi] by auto
qed simp

lemma find_own_table:
  assumes "\<forall>A\<in>set As. validated A" "A \<in> set As"
    and "sorted_wrt (\<lambda>A B. unat (vb_end A) \<le> unat (code (vb_fun B))) As"
    and a: "unat (code (vb_fun A)) \<le> unat a" "unat a < unat (vb_end A)"
  shows "find (\<lambda>node. fst node = a) (concat (map (\<lambda>A. br_table_caches (vb_state A)) (rev As))) =
    find (\<lambda>node. fst node = a) (br_table_caches (vb_state A))"
proof -
  from assms(2) obtain Bs Cs where As: "As = Bs @ A # Cs" by (meson split_list)
  have bs: "\<forall>x\<in>set (concat (map (\<lambda>A. br_table_caches (vb_state A)) (rev Bs))). fst x \<noteq> a"
    using caches_in_body(2) assms(1,3) a(1) unfolding As by (fastforce simp: sorted_wrt_append)
  have cs: "\<forall>x\<in>set (concat (map (\<lambda>A. br_table_caches (vb_state A)) (rev Cs))). fst x \<noteq> a"
    using caches_in_body(1) assms(1,3) a(2) unfolding As by (fastforce simp: sorted_wrt_append)
  show ?thesis unfolding As using find_append_none [OF cs] find_none_append [OF bs] by simp
qed


section \<open>An accepted module\<close>

lemma view_ok: "content_ok c \<Longrightarrow> module_ok (validation_view c aux)"
  by (auto simp: content_ok_def module_ok_def validation_view_def Let_def list.pred_map comp_def body_ok_def function_ok_def
      elim!: list.pred_mono_strong)

text \<open>The parts of a successful load.\<close>

lemma load_module_parts:
  assumes "load_module E V ok m buf sz = Some (Inr L)"
  obtains secs c mem aux where "tiles m (buf + 8) (buf + sz) secs" "unat buf + 8 \<le> unat (buf + sz)" "loaded_ok secs c"
    "prepare_functions V (validation_view c aux) (case find_section 10 secs of None \<Rightarrow> 0 | Some (_, e) \<Rightarrow> e) (mc_functions c)
       \<lparr>ck_mem = mem, ck_depths = [], ck_br_tables = [], ck_memory_grow = False\<rparr> = Some (Inr (lm_checked L))"
    "validation_view (lm_content L) (lm_aux L) = validation_view c aux" "mc_types (lm_content L) = mc_types c" "mc_functions (lm_content L) = mc_functions c"
proof -
  from assms obtain secs where l: "load Inr ok m buf sz = Inr secs" and f: "load_from_sections E V m secs = Some (Inr L)"
    by (auto simp: load_module_def split: sum.splits)
  from l obtain v where h: "load_header m buf sz = Inr v" and cs: "create_sections m buf sz ok = (secs, None)"
    by (auto simp: load_def split: prod.splits option.splits)
  have b: "unat buf + 8 \<le> unat (buf + sz)" by (rule load_header_Inr(3) [OF h])
  then have "buf + 8 \<le> buf + sz"
    using unat_add_small [of buf 8] unat_u32_less [of "buf + sz"] by (simp add: word_le_nat_alt)
  then have t: "tiles m (buf + 8) (buf + sz) secs"
    using create_sections_loop_sound [OF cs [unfolded create_sections_def]] by simp
  from f obtain h' s where s: "load_sections E secs secs (False, \<lparr>ld_mem = m, ld_strs = [], ld_mod = empty_content\<rparr>) = Inr (h', s)"
    by (auto simp: load_from_sections_def Let_def split: sum.splits)
  define c where "c = ld_mod s"
  define aux where "aux = resolve_aux c"
  have ok: "loaded_ok secs c" using load_sections_ok [OF s] empty_ok by (simp add: c_def)
  from f s obtain k where
    k: "prepare_functions V (validation_view c aux) (case find_section 10 secs of None \<Rightarrow> 0 | Some (_, e) \<Rightarrow> e) (mc_functions c)
       \<lparr>ck_mem = ld_mem s, ck_depths = [], ck_br_tables = [], ck_memory_grow = False\<rparr> = Some (Inr k)"
    and L: "L = \<lparr>lm_content = (if ck_memory_grow k then c
        else c\<lparr>mc_import_memories := on_head (resize_memory aux) (mc_import_memories c),
               mc_memories := on_head (resize_memory aux) (mc_memories c)\<rparr>), lm_checked = k, lm_aux = aux,
        lm_heap = resolve_heap_functions c, lm_global_data_size = calculate_global_data_offset
          (if ck_memory_grow k then c
        else c\<lparr>mc_import_memories := on_head (resize_memory aux) (mc_import_memories c),
               mc_memories := on_head (resize_memory aux) (mc_memories c)\<rparr>)\<rparr>"
    by (auto simp: load_from_sections_def Let_def c_def aux_def split: sum.splits option.splits)
  have "length (on_head f xs) = length xs" for f :: "MemoryType \<Rightarrow> MemoryType" and xs by (cases xs) simp_all
  then show ?thesis
    by (intro that [OF t b ok, of aux "ld_mem s"]) (use k L in \<open>simp_all add: validation_view_def Let_def\<close>)
qed


abbreviation loaded_view :: "LoadedModule \<Rightarrow> WASMModule" where
  "loaded_view L \<equiv> validation_view (lm_content L) (lm_aux L)"

text \<open>The functions of a loaded module are the accepted bodies \<open>As\<close>: their code is in place, their tables of depths
  and the depths of their stacks are the recorded ones, and no two of them overlap.\<close>

definition bodies_of :: "LoadedModule \<Rightarrow> ValidatedBody list \<Rightarrow> bool" where
  "bodies_of L As \<longleftrightarrow> map vb_fun As = mc_functions (lm_content L) \<and>
     (\<forall>A\<in>set As. validated A \<and> vb_module A = loaded_view L \<and> in_place A (ck_mem (lm_checked L)) \<and> body_ok (vb_fun A)) \<and>
     ck_depths (lm_checked L) = map (\<lambda>A. (vb_max_stack A, vb_max_block A)) As \<and>
     ck_br_tables (lm_checked L) = concat (map (\<lambda>A. br_table_caches (vb_state A)) (rev As)) \<and>
     sorted_wrt (\<lambda>A B. unat (vb_end A) \<le> unat (code (vb_fun B))) As \<and> length (mc_types (lm_content L)) < 2 ^ 30"

lemma bodies_exist:
  assumes "load_module E V ok m buf sz = Some (Inr L)" "unat (buf + sz) < 2 ^ 32 - 1"
  shows "\<exists>As. bodies_of L As"
proof -
  from assms(1) obtain secs c mem aux where t: "tiles m (buf + 8) (buf + sz) secs" and b8: "unat buf + 8 \<le> unat (buf + sz)"
    and ok: "loaded_ok secs c"
    and pf: "prepare_functions V (validation_view c aux) (case find_section 10 secs of None \<Rightarrow> 0 | Some (_, e) \<Rightarrow> e) (mc_functions c)
       \<lparr>ck_mem = mem, ck_depths = [], ck_br_tables = [], ck_memory_grow = False\<rparr> = Some (Inr (lm_checked L))"
    and L: "loaded_view L = validation_view c aux" "mc_types (lm_content L) = mc_types c"
      "mc_functions (lm_content L) = mc_functions c"
    by (rule load_module_parts)
  have co: "content_ok c" using ok by (simp add: loaded_ok_def)
  then have bo: "list_all body_ok (mc_functions c)" and ty: "length (mc_types c) < 2 ^ 30" by (simp_all add: content_ok_def)
  then have fo: "list_all function_ok (mc_functions c)" by (auto simp: body_ok_def elim!: list.pred_mono_strong)
  show ?thesis
  proof (cases "mc_functions c = []")
    case True
    then have "lm_checked L = \<lparr>ck_mem = mem, ck_depths = [], ck_br_tables = [], ck_memory_grow = False\<rparr>"
      using pf by simp
    then show ?thesis using True L ty by (intro exI [of _ "[]"]) (auto simp: bodies_of_def)
  next
    case False
    with ok obtain b e where f: "find_section 10 secs = Some (b, e)" and bs: "bodies (unat b) (mc_functions c) (unat e)"
      by (auto simp: loaded_ok_def)
    note fb = find_section_bounds [OF t f]
    have lo: "0 < unat b" and hi: "unat e < 2 ^ 32 - 1" using fb assms(2) by simp_all
    from prepare_functions_ok [OF pf view_ok [OF co] fo bs lo hi] obtain As where As: "map vb_fun As = mc_functions c"
      "\<forall>A\<in>set As. validated A \<and> vb_env A = V \<and> vb_module A = validation_view c aux \<and> in_place A (ck_mem (lm_checked L))"
      "ck_depths (lm_checked L) = map (\<lambda>A. (vb_max_stack A, vb_max_block A)) As"
      "ck_br_tables (lm_checked L) = concat (map (\<lambda>A. br_table_caches (vb_state A)) (rev As))" by auto
    have ends: "\<forall>A\<in>set As. unat (vb_end A) = unat (code (vb_fun A)) + unat (code_size (vb_fun A))"
      using As(2) unat_code_end by (auto simp: validated_def)
    have "sorted_wrt (\<lambda>A B. unat (code (vb_fun A)) + unat (code_size (vb_fun A)) \<le> unat (code (vb_fun B))) As"
      using bodies_sorted [OF bs] by (simp flip: As(1) add: sorted_wrt_map)
    then have "sorted_wrt (\<lambda>A B. unat (vb_end A) \<le> unat (code (vb_fun B))) As"
      by (rule sorted_wrt_mono_rel [rotated]) (use ends in simp)
    moreover have "\<forall>A\<in>set As. body_ok (vb_fun A)" using bo by (auto simp flip: As(1) simp: list.pred_map list.pred_set)
    ultimately show ?thesis using As L ty by (intro exI [of _ As]) (auto simp: bodies_of_def)
  qed
qed

text \<open>An instance of a loaded module as the interpreter sees it.\<close>

definition runs_module :: "LoadedModule \<Rightarrow> control_env \<Rightarrow> bool" where
  "runs_module L C \<longleftrightarrow> ce_types C = mc_types (lm_content L) \<and>
     ce_functions C = map fi_type (mc_import_functions (lm_content L)) @ map func_type (mc_functions (lm_content L)) \<and>
     ce_br_tables C = ck_br_tables (lm_checked L) \<and>
     length (ie_global_offsets (ce_base C)) = length (mc_import_globals (lm_content L)) + length (mc_globals (lm_content L))"

lemma runs_fits:
  assumes b: "bodies_of L As" and A: "A \<in> set As" and r: "runs_module L C"
  shows "env_fits A C"
proof -
  have m: "vb_module A = loaded_view L" using A b by (auto simp: bodies_of_def)
  have "find (\<lambda>node. fst node = a) (ce_br_tables C) = find (\<lambda>node. fst node = a) (br_table_caches (vb_state A))"
    if "unat (code (vb_fun A)) \<le> unat a" "unat a < unat (vb_end A)" for a
    using find_own_table [OF _ A _ that] b r by (simp add: bodies_of_def runs_module_def)
  then show ?thesis
    using b r unfolding env_fits_def m
    by (simp add: bodies_of_def runs_module_def validation_view_def Let_def global_count_def)
qed



section \<open>A small module\<close>

text \<open>One function of type \<^verbatim>\<open>i32 -> i32\<close> whose body is \<^verbatim>\<open>i32.const 1; if; else; end; i32.const 7; end\<close>, in 34 bytes.\<close>

definition sample_bytes :: "u8 list" where
  "sample_bytes = [0x00, 0x61, 0x73, 0x6d, 1, 0, 0, 0,
     0x01, 0x06, 0x01, 0x60, 0x01, 0x7f, 0x01, 0x7f,
     0x03, 0x02, 0x01, 0x00,
     0x0a, 0x0c, 0x01, 0x0a, 0x00, 0x41, 1, 0x04, 0x40, 0x05, 0x0b, 0x41, 7, 0x0b]"

definition sample_code :: cmem where "sample_code = mem_of 0xFE7 sample_bytes"

definition sample_env :: load_env where "sample_env = \<lparr>le_av = (\<lambda>_. True), le_sizeof = (\<lambda>_. 8), le_reuse = True, le_clone = False\<rparr>"

definition sample_sections :: "WASMSection list" where
  "sample_sections = [\<lparr>section_type = 1, section_body = 0xFF1, section_body_size = 6\<rparr>,
      \<lparr>section_type = 3, section_body = 0xFF9, section_body_size = 2\<rparr>,
      \<lparr>section_type = 10, section_body = 0xFFD, section_body_size = 12\<rparr>]"

definition sample_type where "sample_type = \<lparr>param_count = 1, result_count = 1, types = [0x7f, 0x7f]\<rparr>"

definition sample_content :: ModuleContent where
  "sample_content = empty_content\<lparr>mc_types := [sample_type], mc_functions := [branching_function]\<rparr>"

lemma sample_sections: "load Inr (\<lambda>_. True) sample_code 0xFE7 34 = Inr sample_sections"
  unfolding sample_code_def sample_sections_def by code_simp

lemma sample_reads:
  "read_leb_uint32 sample_code 0xFF1 0xFF7 = Inr (1, 0xFF2)"
  "get_uint8 sample_code 0xFF2 0xFF7 = Inr (0x60, 0xFF3)"
  "read_leb_uint32 sample_code 0xFF3 0xFF7 = Inr (1, 0xFF4)"
  "get_uint8 sample_code 0xFF4 0xFF7 = Inr (0x7f, 0xFF5)"
  "read_leb_uint32 sample_code 0xFF5 0xFF7 = Inr (1, 0xFF6)"
  "get_uint8 sample_code 0xFF6 0xFF7 = Inr (0x7f, 0xFF7)"
  "read_leb_uint32 sample_code 0xFF9 0xFFB = Inr (1, 0xFFA)"
  "read_leb_uint32 sample_code 0xFFA 0xFFB = Inr (0, 0xFFB)"
  "read_leb_uint32 sample_code 0xFFD 0x1009 = Inr (1, 0xFFE)"
  "read_leb_uint32 sample_code 0xFFE 0x1009 = Inr (10, 0xFFF)"
  "read_leb_uint32 sample_code 0xFFF 0x1009 = Inr (0, 0x1000)"
  "sample_code 0x1008 = 0x0b"
  unfolding sample_code_def by code_simp+

lemma sample_alloc: "allocE sample_env n = (if n < 0xFFFFFFFF then Inr () else Inl ''allocate memory failed'')"
  by (auto simp: allocE_def loader_malloc_def sample_env_def guardE_def)

lemma sample_values:
  "list_all is_valid_value_type_for_interpreter [0x7f, 0x7f]" "wasm_get_cell_num [0x7f] = Suc 0" "wasm_get_cell_num [] = 0" "wasm_value_type_cell_num 0x7f = Suc 0"
  "check_buf 0xFF4 0xFF7 1" "check_buf 0xFF6 0xFF7 1" "is_indices_overflow 0 1 = False" "find_section 10 sample_sections = Some (0xFFD, 0x1009)"
  "find_section 3 sample_sections = Some (0xFF9, 0xFFB)"
  by code_simp+

lemma sample_sizes: "le_sizeof sample_env t = 8" "sizeof_ptr = 4"
  by (simp_all add: sample_env_def sizeof_ptr_def)

lemma sample_type_section: "load_type_section sample_env 0xFF1 0xFF7 \<lparr>ld_mem = sample_code, ld_strs = [], ld_mod = empty_content\<rparr> =
  Inr \<lparr>ld_mem = sample_code, ld_strs = [], ld_mod = empty_content\<lparr>mc_types := [sample_type]\<rparr>\<rparr>"
  using sample_values
  by (simp add: load_type_section_def sample_reads sample_alloc read_func_type_def Let_def section_end_def CHECK_BUF_def sample_values
     sample_type_def guardE_def sample_sizes)

lemma sample_function_section: "load_function_section sample_env 0xFF9 0xFFB (Some (0xFFD, 0x1009)) \<lparr>ld_mem = sample_code, ld_strs = [], ld_mod = empty_content\<lparr>mc_types := [sample_type]\<rparr>\<rparr> =
  Inr \<lparr>ld_mem = sample_code, ld_strs = [], ld_mod = sample_content\<rparr>"
  using sample_values
  by (simp add: load_function_section_def sample_reads sample_alloc load_function_def Let_def section_end_def CHECK_BUF_def sample_values guardE_def sample_type_def
     sample_content_def on_mod_def init_function_local_offsets_def empty_content_def branching_function_def tiny_function_def sample_sizes)

lemma sample_code_section: "load_code_section 0xFFD 0x1009 (Some (0xFF9, 0xFFB)) \<lparr>ld_mem = sample_code, ld_strs = [], ld_mod = sample_content\<rparr> =
  Inr \<lparr>ld_mem = sample_code, ld_strs = [], ld_mod = sample_content\<rparr>"
  by (simp add: load_code_section_def sample_reads guardE_def)

lemma sample_loads: "load_sections sample_env sample_sections sample_sections (False, \<lparr>ld_mem = sample_code, ld_strs = [], ld_mod = empty_content\<rparr>) =
  Inr (False, \<lparr>ld_mem = sample_code, ld_strs = [], ld_mod = sample_content\<rparr>)"
  by (subst (2) sample_sections_def) (simp add: load_section_def section_end_of_def sample_type_section sample_function_section sample_code_section sample_values)

abbreviation sample_state :: "u32 \<Rightarrow> BranchBlock list \<Rightarrow> u8 list \<Rightarrow> nat \<Rightarrow> nat \<Rightarrow> LoaderState" where
  "sample_state p bs cells ms mc \<equiv> (branching_state p bs cells ms mc)\<lparr>lmem := sample_code\<rparr>"

lemma sample_body_bytes:
  "sample_code 0x1000 = 0x41" "sample_code 0x1002 = 0x04" "sample_code 0x1003 = 0x40" "sample_code 0x1004 = 0x05"
  "sample_code 0x1005 = 0x0b" "sample_code 0x1006 = 0x41" "sample_code 0x1008 = 0x0b"
  "read_leb_int32 sample_code 0x1001 0x1009 = Inr (1, 0x1002)"
  "read_leb_int32 sample_code 0x1007 0x1009 = Inr (7, 0x1008)"
  unfolding sample_code_def by code_simp+

lemma sample_start: "prepare_start tiny_env branching_function sample_code = Inr (sample_state 0x1000 [function_block] [] 0 1)"
  by (simp add: prepare_start_def wasm_loader_ctx_init_def wasm_loader_push_frame_csp_def branching_function_def branching_state_def
      tiny_env_def sizeof_BranchBlock_def Let_def tiny_function_def function_block_def new_block_def)

lemma sample_steps:
  "prepare_step tiny_env M branching_function 0x1009 (sample_state 0x1000 [function_block] [] 0 1) =
     Inr (sample_state 0x1002 [function_block] [VALUE_TYPE_I32] 1 1)"
  "prepare_step tiny_env M branching_function 0x1009 (sample_state 0x1002 [function_block] [VALUE_TYPE_I32] 1 1) =
     Inr (sample_state 0x1004 [if_block, function_block] [] 1 2)"
  "prepare_step tiny_env M branching_function 0x1009 (sample_state 0x1004 [if_block, function_block] [] 1 2) =
     Inr (sample_state 0x1005 [if_block\<lparr>else_addr := 0x1004\<rparr>, function_block] [] 1 2)"
  "prepare_step tiny_env M branching_function 0x1009
       (sample_state 0x1005 [if_block\<lparr>else_addr := 0x1004\<rparr>, function_block] [] 1 2) =
     Inr (sample_state 0x1006 [function_block] [] 1 2)"
  "prepare_step tiny_env M branching_function 0x1009 (sample_state 0x1006 [function_block] [] 1 2) =
     Inr (sample_state 0x1008 [function_block] [VALUE_TYPE_I32] 1 2)"
  "prepare_step tiny_env M branching_function 0x1009 (sample_state 0x1008 [function_block] [VALUE_TYPE_I32] 1 2) =
     Inr (sample_state 0x1009 [] [VALUE_TYPE_I32] 1 2)"
  by (simp_all add: branching_simps branching_type sample_body_bytes)

lemma sample_lp: "lp (sample_state p bs cells ms mc) = p" by (simp add: branching_state_def)

lemma sample_prepare: "wasm_loader_prepare_bytecode tiny_env M branching_function sample_code =
      Some (Inr (1, 2, sample_state 0x1009 [] [VALUE_TYPE_I32] 1 2))"
proof -
  have "prepare_loop tiny_env M branching_function 0x1009 (sample_state 0x1000 [function_block] [] 0 1) =
   Some (Inr (sample_state 0x1009 [] [VALUE_TYPE_I32] 1 2))"
   by (simp add: prepare_loop.simps sample_lp sample_steps del: One_nat_def)
    then show ?thesis
    using sample_start branching_end
    by (simp add: wasm_loader_prepare_bytecode_def branching_state_def code_end_def)
qed

definition sample_loaded :: LoadedModule where
  "sample_loaded = \<lparr>lm_content = sample_content,
     lm_checked = \<lparr>ck_mem = sample_code, ck_depths = [(1, 2)], ck_br_tables = [], ck_memory_grow = False\<rparr>, lm_aux = None,
     lm_heap = \<lparr>hf_malloc = - 1, hf_free = - 1, hf_retain = - 1\<rparr>, lm_global_data_size = 0\<rparr>"

lemma sample_fields:
  "mc_exports sample_content = []" "mc_functions sample_content = [branching_function]" "mc_data_segs sample_content = []"
  "mc_import_memories sample_content = []" "mc_memories sample_content = []" "mc_data_seg_count1 sample_content = 0"
  "mc_import_globals sample_content = []" "mc_globals sample_content = []" "mc_types sample_content = [sample_type]"
  "mc_import_functions sample_content = []" "sample_content\<lparr>mc_import_memories := [], mc_memories := []\<rparr> = sample_content"
  by (simp_all add: sample_content_def empty_content_def)

lemma sample_load: "load_module sample_env tiny_env (\<lambda>_. True) sample_code 0xFE7 34 = Some (Inr sample_loaded)"
proof -
  have c: "check_data_count_consistency False 0 0 = Inr ()" by code_simp
  have e: "code branching_function + code_size branching_function = 0x1009" using branching_end by (simp add: code_end_def)
  show ?thesis
    by (simp add: load_module_def sample_sections load_from_sections_def sample_loads sample_fields sample_loaded_def
     resolve_aux_def resolve_heap_functions_def sample_prepare calculate_global_data_offset_def sample_values e c branching_state_def)
qed


section \<open>The property\<close>

text \<open>C2: a module that loads consists of accepted functions. When the loader has cut a binary into sections, run
  the loader of every section and validated and rewritten every function body in turn, then each of its
  functions is one that the validation has accepted in the view of the module that the sections describe; the code of every function
  is still, after all other functions have been rewritten, what its own validation has left; the recorded depths of
  the stacks are those of the functions in their order; the list of tables of branch depths is made of
  theirs; and no body overlaps another. The only condition is that the binary does not end at the last address.\<close>

theorem accepted_module_bodies:
  assumes "load_module E V ok m buf sz = Some (Inr L)" "unat (buf + sz) < 2 ^ 32 - 1"
  shows "\<exists>As. bodies_of L As"
  using assms by (rule bodies_exist)

theorem accepted_module_bodies_witness:
  "load_module sample_env tiny_env (\<lambda>_. True) sample_code 0xFE7 34 = Some (Inr sample_loaded) \<and> (\<exists>As. bodies_of sample_loaded As)"
  using sample_load accepted_module_bodies [OF sample_load] by simp

end
