(* ===== verification/Module_Run.thy ===== *)
theory Module_Run
  imports Content_Safety
begin

text \<open>
  Whole executions of a loaded module: \<open>wasm_interp_call_wasm\<close> enters the machine of \<open>Interp_Control\<close>, whose
  steps call, return and go on in every function of the module. The invariant joins what \<open>Body_Safety\<close> shows of
  the running frame with the frames of its callers, which wait for results, with the cache all functions
  share, and with the room on the stack of frames.
\<close>

section \<open>Entering and leaving\<close>

text \<open>\<open>wasm_interp_call_wasm\<close> up to its call of the interpreter: the frame that receives the results and the
  copy of the arguments behind it. \<open>native_stack\<close> says whether the native stack has room. A machine without
  callers returns to this frame.\<close>

definition wasm_interp_call_wasm ::
  "machine_env \<Rightarrow> bool \<Rightarrow> nat \<Rightarrow> u32 list \<Rightarrow> Machine \<Rightarrow> progress run" where
  "wasm_interp_call_wasm V native_stack fidx argv k =
     (let ft = ce_functions (me_control V) ! fidx; argc = param_cells ft in
      if length argv < argc then trap ''invalid argument count''
      else if \<not> native_stack then trap ''native stack overflow''
      else
        let all_cell_num = (if ret_cells ft > 2 then ret_cells ft else 2)
        in case exec_env_alloc_wasm_frame (me_boundary V) (stack_top k) (wasm_interp_interp_frame_size all_cell_num) of
             None \<Rightarrow> trap ''wasm operand stack overflow''
           | Some stack \<Rightarrow>
               if stack + frame_header + 4 * argc > me_boundary V then trap ''wasm operand stack overflow''
               else
                 let k = k\<lparr>now := (now k)\<lparr>frame := (frame (now k))\<lparr>frame_sp := []\<rparr>\<rparr>, callers := [],
                           frame_base := stack_top k, stack_top := stack\<rparr>
                 in if fidx < me_import_count V then
                      bindR (call_func_native V (of_nat fidx) (take argc argv) k) (\<lambda>p.
                        case p of Running k' \<Rightarrow> done_with (Finished (frame_sp (frame (now k'))) k') | _ \<Rightarrow> done_with p)
                    else
                      bindR (enter_function V fidx (take argc argv) k) (\<lambda>p.
                        case p of Running k' \<Rightarrow> done_with (Running (k'\<lparr>callers := []\<rparr>)) | _ \<Rightarrow> done_with p))"

text \<open>Its end: the results go to \<open>argv\<close>, first cell first, and the frames are freed.\<close>

definition call_wasm_results :: "Machine \<Rightarrow> u32 list \<Rightarrow> u32 list \<Rightarrow> Machine \<Rightarrow> u32 list \<times> Machine" where
  "call_wasm_results k0 argv vs k = (rev vs @ drop (length vs) argv, k\<lparr>stack_top := stack_top k0, frame_base := frame_base k0\<rparr>)"

section \<open>The data segments stay\<close>

lemma bindR_done_iff: "bindR r f = done_with y \<longleftrightarrow> (\<exists>x. r = done_with x \<and> f x = done_with y)"
  by (auto simp: bindR_def done_with_def split: option.splits sum.splits)

lemma not_done [simp]: "stuck \<noteq> done_with x" "trap e \<noteq> done_with x" "done_with x \<noteq> trap e" "done_with x \<noteq> stuck"
  "done_with x = done_with y \<longleftrightarrow> x = y"
  by (auto simp: stuck_def trap_def done_with_def)

abbreviation same_segs :: "InterpState \<Rightarrow> InterpState \<Rightarrow> bool" where
  "same_segs i i' \<equiv> length (data_segs i') = length (data_segs i)"

lemma stack_segs:
  "fetch_u32 i = done_with (v, i') \<Longrightarrow> same_segs i i'"
  "pop32 i = done_with (x, i') \<Longrightarrow> same_segs i i'"
  "pop64 i = done_with (y, i') \<Longrightarrow> same_segs i i'"
  "push32 x i = done_with i' \<Longrightarrow> same_segs i i'"
  "push64 y i = done_with i' \<Longrightarrow> same_segs i i'"
  by (auto simp: fetch_u32_def pop32_def pop64_def push32_def push64_def split: option.splits list.splits)

lemma moved_segs [simp]: "data_segs (poke_chip a bs i) = data_segs i" "data_segs (skip_byte i) = data_segs i"
  by (simp_all add: poke_chip_def skip_byte_def)

lemma local_segs:
  "store_local off x i = done_with i' \<Longrightarrow> same_segs i i'"
  "store_local_64 off y i = done_with i' \<Longrightarrow> same_segs i i'"
  "get_local_cells w off i = done_with i' \<Longrightarrow> same_segs i i'"
  "set_local_cells w off i = done_with i' \<Longrightarrow> same_segs i i'"
  "tee_local_cells w off i = done_with i' \<Longrightarrow> same_segs i i'"
  by (auto simp: store_local_def store_local_64_def get_local_cells_def set_local_cells_def tee_local_cells_def bindR_done_iff
      split: if_splits prod.splits dest!: stack_segs)

lemma fetch_local_segs: "fetch_local F i = done_with (w, off, i') \<Longrightarrow> same_segs i i'"
  by (auto simp: fetch_local_def bindR_done_iff Let_def split: if_splits dest!: stack_segs)

lemma exec_local_segs: "exec_local F op i = done_with i' \<Longrightarrow> same_segs i i'"
  unfolding exec_local_def fetch_local_fast_def fetch_byte_def
  by (auto simp: bindR_done_iff split: if_splits dest!: fetch_local_segs local_segs)

lemma exec_global_segs: "exec_global V op i = done_with i' \<Longrightarrow> same_segs i i'"
  unfolding exec_global_def global_addr_def
  by (auto simp: bindR_done_iff split: if_splits dest!: stack_segs)

lemma handler_segs: "run_handler h i = done_with i' \<Longrightarrow> same_segs i i'"
  by (auto simp: run_handler_def bindR_done_iff)

lemma parametric_segs:
  "exec_drop n i = done_with i' \<Longrightarrow> same_segs i i'"
  "exec_select i = done_with i' \<Longrightarrow> same_segs i i'"
  "exec_select_64 i = done_with i' \<Longrightarrow> same_segs i i'"
  by (auto simp: exec_drop_def exec_select_def exec_select_64_def bindR_done_iff split: if_splits dest!: stack_segs)

lemma const_segs: "exec_const op i = done_with i' \<Longrightarrow> same_segs i i'"
  by (auto simp: exec_const_def split: if_splits option.splits dest!: stack_segs)

lemma exec_load_segs: "exec_load_op op i = done_with i' \<Longrightarrow> same_segs i i'"
  unfolding exec_load_op_def by (auto simp: bindR_done_iff dest!: stack_segs)

lemma pop_value_segs: "pop_value n i = done_with (cells, i') \<Longrightarrow> same_segs i i'"
  by (auto simp: pop_value_def split: if_splits)

lemma exec_store_segs: "exec_store_op op i = done_with i' \<Longrightarrow> same_segs i i'"
  unfolding exec_store_op_def
  by (auto simp: bindR_done_iff case_prod_beta split: option.splits dest!: stack_segs pop_value_segs)

lemma memory_size_segs: "exec_memory_size_op i = done_with i' \<Longrightarrow> same_segs i i'"
  unfolding exec_memory_size_op_def by (auto simp: bindR_done_iff dest!: stack_segs)

lemma memory_grow_segs: "exec_memory_grow_op V i = done_with i' \<Longrightarrow> same_segs i i'"
  unfolding exec_memory_grow_op_def by (auto simp: bindR_done_iff case_prod_beta Let_def dest!: stack_segs)

lemma bulk_segs:
  "exec_memory_init_op i = done_with i' \<Longrightarrow> same_segs i i'"
  "exec_data_drop_op i = done_with i' \<Longrightarrow> same_segs i i'"
  "exec_memory_copy_op i = done_with i' \<Longrightarrow> same_segs i i'"
  "exec_memory_fill_op i = done_with i' \<Longrightarrow> same_segs i i'"
  unfolding exec_memory_init_op_def exec_data_drop_op_def exec_memory_copy_op_def exec_memory_fill_op_def Let_def
  by (auto simp: bindR_done_iff split: if_splits dest!: stack_segs)

lemma exec_misc_segs: "exec_misc i = done_with i' \<Longrightarrow> same_segs i i'"
  unfolding exec_misc_def Let_def
  by (auto simp: bindR_done_iff split: if_splits dest!: stack_segs handler_segs bulk_segs)

lemma atomic_segs:
  assumes "exec_atomic_access a n align offset popx pushx i = done_with i'"
    and "\<And>i v j. popx i = done_with (v, j) \<Longrightarrow> same_segs i j" "\<And>i v j. pushx v i = done_with j \<Longrightarrow> same_segs i j"
  shows "same_segs i i'"
  using assms(1) unfolding exec_atomic_access_def Let_def
  by (auto simp: bindR_done_iff case_prod_beta split: if_splits dest!: stack_segs assms(2,3))

lemmas atomic_width_segs = atomic_segs [where popx = pop32 and pushx = push32, OF _ stack_segs(2,4)]
  atomic_segs [where popx = pop64 and pushx = push64, OF _ stack_segs(3,5)]

lemma exec_wait_segs:
  "exec_notify V al off i = done_with i' \<Longrightarrow> same_segs i i'"
  "exec_wait V w al off i = done_with i' \<Longrightarrow> same_segs i i'"
  unfolding exec_notify_def exec_wait_def finish_wait_def Let_def
  by (auto simp: bindR_done_iff case_prod_beta split: if_splits dest!: stack_segs)

lemma exec_atomic_segs: "exec_atomic V i = done_with i' \<Longrightarrow> same_segs i i'"
  unfolding exec_atomic_def Let_def
  by (auto simp: bindR_done_iff case_prod_beta split: if_splits dest!: stack_segs(1) atomic_width_segs exec_wait_segs)

lemma exec_plain_segs: "exec_plain V F op i = done_with i' \<Longrightarrow> same_segs i i'"
  unfolding exec_plain_def
  by (auto split: if_splits option.splits dest!: parametric_segs exec_local_segs exec_global_segs exec_load_segs exec_store_segs memory_size_segs memory_grow_segs const_segs
      exec_misc_segs exec_atomic_segs handler_segs)


text \<open>The control instructions leave all but the registers and the cache alone.\<close>

definition store_of :: "InterpState \<Rightarrow> cmem \<times> WASMMemoryInstance \<times> data_segment list" where
  "store_of i = (chip i, mem_inst i, data_segs i)"

abbreviation frame_store :: "ControlState \<Rightarrow> cmem \<times> WASMMemoryInstance \<times> data_segment list" where
  "frame_store cs \<equiv> store_of (frame cs)"

lemma store_of_updates [simp]:
  "store_of (i\<lparr>frame_ip := p\<rparr>) = store_of i" "store_of (i\<lparr>frame_sp := st\<rparr>) = store_of i"
  "store_of (i\<lparr>frame_lp := ls\<rparr>) = store_of i"
  by (simp_all add: store_of_def)

lemma operand_store:
  "fetch_u32 i = done_with (v, i') \<Longrightarrow> store_of i' = store_of i"
  "pop32 i = done_with (x, i') \<Longrightarrow> store_of i' = store_of i"
  by (auto simp: fetch_u32_def pop32_def split: option.splits list.splits)

lemma on_frame_store:
  assumes "on_frame f cs = done_with (x, cs')" "\<And>y i'. f (frame cs) = done_with (y, i') \<Longrightarrow> store_of i' = store_of (frame cs)"
  shows "frame_store cs' = frame_store cs"
  using assms by (auto simp: on_frame_def bindR_done_iff)

lemma block_header_store: "block_header V ext i = done_with (h, i') \<Longrightarrow> store_of i' = store_of i"
  by (auto simp: block_header_def bindR_done_iff fetch_byte_def Let_def split: if_splits dest!: operand_store)

lemma fetched_store:
  "on_frame fetch_u32 cs = done_with (v, cs') \<Longrightarrow> frame_store cs' = frame_store cs"
  "on_frame pop32 cs = done_with (v, cs') \<Longrightarrow> frame_store cs' = frame_store cs"
  "on_frame (block_header V ext) cs = done_with (h, cs') \<Longrightarrow> frame_store cs' = frame_store cs"
  by (auto elim!: on_frame_store dest: operand_store block_header_store)

lemma label_store:
  "PUSH_CSP n c t cs = done_with cs' \<Longrightarrow> frame_store cs' = frame_store cs"
  "POP_CSP_N d cs = done_with cs' \<Longrightarrow> frame_store cs' = frame_store cs"
  "find_block start label cs = done_with (r, cs') \<Longrightarrow> frame_store cs' = frame_store cs"
  "frame_store (jump_to a cs) = frame_store cs"
  by (auto simp: PUSH_CSP_def POP_CSP_N_def find_block_def jump_to_def bindR_done_iff Let_def split: if_splits list.splits)

lemma label_pop_store: "label_pop_csp_n d cs = done_with cs' \<Longrightarrow> frame_store cs' = frame_store cs"
  unfolding label_pop_csp_n_def by (auto simp: bindR_done_iff label_store split: if_splits dest!: label_store(1-3))

lemma block_store:
  "exec_block V ext cs = done_with cs' \<Longrightarrow> frame_store cs' = frame_store cs"
  "exec_loop V ext cs = done_with cs' \<Longrightarrow> frame_store cs' = frame_store cs"
  "exec_else cs = done_with cs' \<Longrightarrow> frame_store cs' = frame_store cs"
  unfolding exec_block_def exec_loop_def exec_else_def Let_def
  by (auto simp: bindR_done_iff label_store(4) split: list.splits dest!: fetched_store label_store(1))

lemma if_store: "exec_if V ext cs = done_with cs' \<Longrightarrow> frame_store cs' = frame_store cs"
  unfolding exec_if_def
  by (auto simp: bindR_done_iff label_store(4) split: if_splits option.splits dest!: fetched_store label_store(1-3))

lemma branch_store:
  "exec_br cs = done_with cs' \<Longrightarrow> frame_store cs' = frame_store cs"
  "exec_br_if cs = done_with cs' \<Longrightarrow> frame_store cs' = frame_store cs"
  "exec_br_table cs = done_with cs' \<Longrightarrow> frame_store cs' = frame_store cs"
  "exec_br_table_cache V cs = done_with cs' \<Longrightarrow> frame_store cs' = frame_store cs"
proof -
  show "exec_br_table_cache V cs = done_with cs' \<Longrightarrow> frame_store cs' = frame_store cs"
    unfolding exec_br_table_cache_def Let_def
    by (auto simp: bindR_done_iff case_prod_beta split: option.splits dest!: fetched_store label_pop_store)
qed (auto simp: exec_br_def exec_br_if_def exec_br_table_def Let_def bindR_done_iff split: if_splits
      dest!: fetched_store label_pop_store)

text \<open>The state in an outcome.\<close>

fun outcome_state :: "outcome \<Rightarrow> ControlState option" where
  "outcome_state (Goes_on cs) = Some cs"
| "outcome_state (Calls fidx cs) = Some cs"
| "outcome_state (Returns vs cs) = Some cs"
| "outcome_state Terminates = None"

lemma leaving_store:
  "exec_return F cs = done_with r \<Longrightarrow> outcome_state r = Some cs' \<Longrightarrow> frame_store cs' = frame_store cs"
  "exec_end F cs = done_with r \<Longrightarrow> outcome_state r = Some cs' \<Longrightarrow> frame_store cs' = frame_store cs"
  "exec_call V cs = done_with r \<Longrightarrow> outcome_state r = Some cs' \<Longrightarrow> frame_store cs' = frame_store cs"
  "exec_call_indirect V cs = done_with r \<Longrightarrow> outcome_state r = Some cs' \<Longrightarrow> frame_store cs' = frame_store cs"
  unfolding exec_return_def exec_end_def exec_call_def exec_call_indirect_def Let_def
  by (auto simp: bindR_done_iff label_store(4) split: if_splits dest!: fetched_store)

lemma goes_on_done: "goes_on r = done_with out \<longleftrightarrow> (\<exists>cs. r = done_with cs \<and> out = Goes_on cs)"
  by (auto simp: goes_on_def bindR_done_iff)

lemma exec_opcode_store:
  assumes "exec_opcode V F op cs = done_with r" "outcome_state r = Some cs'"
  shows "frame_store cs' = frame_store cs \<or> (\<exists>i. exec_plain (ce_base V) F op (frame cs) = done_with i \<and> cs' = cs\<lparr>frame := i\<rparr>)"
  using assms unfolding exec_opcode_def
  by (auto simp: goes_on_done bindR_done_iff split: if_splits
      dest!: block_store if_store branch_store dest: leaving_store)

lemma exec_control_segs:
  assumes "exec_control V F cs = done_with r" "outcome_state r = Some cs'"
  shows "same_segs (frame cs) (frame cs')"
proof -
  obtain op i where f: "fetch_byte (frame cs) = (op, i)" by fastforce
  have s: "data_segs i = data_segs (frame cs)" using f by (auto simp: fetch_byte_def)
  from assms f have "exec_opcode V F op (cs\<lparr>frame := i\<rparr>) = done_with r" by (simp add: exec_control_def)
  from exec_opcode_store [OF this assms(2)] show ?thesis
    using s exec_plain_segs [of "ce_base V" F op i] by (auto simp: store_of_def)
qed


section \<open>Bodies that share the cache\<close>

text \<open>The bodies of one module: accepted, covered, apart from each other, and run in an instance of the module.\<close>

definition together :: "ValidatedBody list \<Rightarrow> control_env \<Rightarrow> bool" where
  "together As C \<longleftrightarrow> (\<forall>A\<in>set As. validated A \<and> covered A \<and> env_fits A C) \<and>
     sorted_wrt (\<lambda>A B. unat (vb_end A) \<le> unat (code (vb_fun B))) As"

lemma entry_in_body:
  assumes "validated A" "entry_ok A b"
  shows "unat (code (vb_fun A)) \<le> unat (ba_start b)" "unat (ba_start b) < unat (vb_end A)"
proof -
  from assms(2) obtain n so where o: "opened A n so" and l: "lp so = ba_start b" by (auto simp: entry_ok_def)
  then have v: "visited A so" and n: "0 < csp_num (lctx so)" by (simp_all add: opened_def)
  from assms(1) v n obtain s' where "lp so < vb_end A" "unat (code (vb_fun A)) \<le> unat (lp so)" by (rule visited_open)
  then show "unat (code (vb_fun A)) \<le> unat (ba_start b)" "unat (ba_start b) < unat (vb_end A)"
    using l by (simp_all add: word_less_nat_alt)
qed

lemma together_trusted:
  assumes "together As C" "A \<in> set As" "B \<in> set As" "entry_ok A b"
  shows "trusted B b"
proof (cases "A = B")
  case True
  with assms(4) show ?thesis by (simp add: entry_trusted)
next
  case False
  have s: "sorted_wrt (\<lambda>A B. unat (vb_end A) \<le> unat (code (vb_fun B))) As" and v: "validated A"
    using assms(1,2) by (auto simp: together_def)
  obtain i j where i: "i < length As" "As ! i = A" and j: "j < length As" "As ! j = B"
    using assms(2,3) by (auto simp: in_set_conv_nth)
  with False have "i < j \<or> j < i" by (cases i j rule: linorder_cases) auto
  then have "unat (vb_end A) \<le> unat (code (vb_fun B)) \<or> unat (vb_end B) \<le> unat (code (vb_fun A))"
    using s i j by (auto simp: sorted_wrt_iff_nth_less)
  with entry_in_body [OF v assms(4)] show ?thesis by (auto simp: trusted_def)
qed

lemma together_cache:
  assumes "together As C" "A \<in> set As" "cache_kept A c c'" "\<forall>B\<in>set As. cache_ok B c"
  shows "\<forall>B\<in>set As. cache_ok B c'"
  using assms together_trusted [OF assms(1,2)] unfolding cache_kept_def by blast

text \<open>A frame on its way, with a cache that is right for all.\<close>

definition on_track :: "ValidatedBody list \<Rightarrow> control_env \<Rightarrow> ValidatedBody \<Rightarrow> ControlState \<Rightarrow> bool" where
  "on_track As C A cs \<longleftrightarrow> (\<exists>n c. safe_run A C c (control_steps C (vb_fun A) n cs) \<and> bounded_steps A C n cs \<and>
     (\<forall>B\<in>set As. cache_ok B c))"

lemma on_track_in_bounds: "on_track As C A cs \<Longrightarrow> in_bounds A cs"
  using on_way_in_bounds [of A C cs] by (auto simp: on_track_def on_way_def)

lemma stands_on_track:
  assumes "validated A" "stands A cs s" "\<forall>B\<in>set As. cache_ok B (addr_cache cs)"
  shows "on_track As C A cs"
  unfolding on_track_def
  by (rule exI [of _ 0], rule exI [of _ "addr_cache cs"])
    (use assms in \<open>auto intro: bounded_start stands_in_bounds\<close>)

lemma on_track_steps:
  assumes t: "together As C" "A \<in> set As" and w: "on_track As C A cs" and m: "in_place A (chip (frame cs))"
  obtains n c where "safe_run A C c (control_steps C (vb_fun A) (Suc n) cs)" "bounded_steps A C (Suc n) cs"
    "\<forall>B\<in>set As. cache_ok B c"
proof -
  from w obtain n c where n: "safe_run A C c (control_steps C (vb_fun A) n cs)" "bounded_steps A C n cs"
    "\<forall>B\<in>set As. cache_ok B c"
    by (auto simp: on_track_def)
  have A: "validated A" "env_fits A C" "covered A" using t by (auto simp: together_def)
  show thesis
  proof (cases n)
    case 0
    then obtain s where s: "stands A cs s" "cache_kept A c (addr_cache cs)" using n(1) by auto
    from instruction_stands [OF A s(1) m] together_cache [OF t s(2) n(3)] that show thesis by blast
  next
    case (Suc k)
    with n that show thesis by blast
  qed
qed

text \<open>One step of it.\<close>

lemma on_track_outcome:
  assumes t: "together As C" "A \<in> set As" and w: "on_track As C A cs" and m: "in_place A (chip (frame cs))"
  shows "(\<exists>e. exec_control C (vb_fun A) cs = trap e) \<or>
    (\<exists>cs'. exec_control C (vb_fun A) cs = done_with (Goes_on cs') \<and> on_track As C A cs') \<or>
    (\<exists>out c. exec_control C (vb_fun A) cs = done_with out \<and> safe_outcome A C c out \<and> (\<forall>cs'. out \<noteq> Goes_on cs') \<and>
       (\<forall>B\<in>set As. cache_ok B c))"
proof -
  from t w m obtain n c where n: "safe_run A C c (control_steps C (vb_fun A) (Suc n) cs)" "bounded_steps A C (Suc n) cs"
    "\<forall>B\<in>set As. cache_ok B c"
    by (rule on_track_steps)
  consider "exec_control C (vb_fun A) cs = stuck" | e where "exec_control C (vb_fun A) cs = trap e"
    | out where "exec_control C (vb_fun A) cs = done_with out"
    by (cases "exec_control C (vb_fun A) cs" rule: option.exhaust; auto simp: stuck_def trap_def done_with_def) (metis sum.exhaust)
  then show ?thesis
  proof cases
    case 1
    with n(1) show ?thesis by (simp add: safe_run_def)
  next
    case 3
    show ?thesis
    proof (cases "\<exists>cs'. out = Goes_on cs'")
      case True
      then obtain cs' where cs': "out = Goes_on cs'" ..
      have "bounded_steps A C n cs'"
        unfolding bounded_steps_def
      proof (intro allI impI)
        fix j cs1
        assume "j \<le> n" "control_steps C (vb_fun A) j cs' = done_with (Goes_on cs1)"
        then have "Suc j \<le> Suc n" "control_steps C (vb_fun A) (Suc j) cs = done_with (Goes_on cs1)" using 3 cs' by simp_all
        then show "in_bounds A cs1" using n(2) unfolding bounded_steps_def by blast
      qed
      moreover have "safe_run A C c (control_steps C (vb_fun A) n cs')" using n(1) 3 cs' by simp
      ultimately have "on_track As C A cs'" using n(3) by (auto simp: on_track_def)
      then show ?thesis using 3 cs' by simp
    next
      case False
      then have "control_steps C (vb_fun A) (Suc n) cs = done_with out" using 3 by (cases out) simp_all
      then show ?thesis using 3 n False by auto
    qed
  qed blast
qed


section \<open>The machine\<close>

definition body_of :: "ValidatedBody \<Rightarrow> FunctionBody" where
  "body_of A = \<lparr>fb_fun = vb_fun A, fb_max_stack = vb_max_stack A, fb_max_block = vb_max_block A\<rparr>"

lemma body_of_simps [simp]:
  "fb_fun (body_of A) = vb_fun A" "fb_max_stack (body_of A) = vb_max_stack A" "fb_max_block (body_of A) = vb_max_block A"
  by (simp_all add: body_of_def)

text \<open>The functions of the machine are the imports, whose results fit two cells, and the accepted bodies.\<close>

definition machine_fits :: "ValidatedBody list \<Rightarrow> machine_env \<Rightarrow> bool" where
  "machine_fits As V \<longleftrightarrow> together As (me_control V) \<and> me_bodies V = map body_of As \<and>
     length (ce_functions (me_control V)) = me_import_count V + length As \<and>
     (\<forall>j<length As. ce_functions (me_control V) ! (me_import_count V + j) = func_type (vb_fun (As ! j))) \<and>
     (\<forall>j<me_import_count V. ret_cells (ce_functions (me_control V) ! j) \<le> 2) \<and>
     (\<forall>A\<in>set As. body_ok (vb_fun A))"

definition own :: "ValidatedBody list \<Rightarrow> machine_env \<Rightarrow> nat \<Rightarrow> bool" where
  "own As V f \<longleftrightarrow> me_import_count V \<le> f \<and> f < me_import_count V + length As"

definition running :: "ValidatedBody list \<Rightarrow> machine_env \<Rightarrow> nat \<Rightarrow> ValidatedBody" where
  "running As V f = As ! (f - me_import_count V)"

definition frame_bytes :: "ValidatedBody \<Rightarrow> nat" where
  "frame_bytes A = wasm_interp_interp_frame_size (all_cells (body_of A))"

definition segs_fit :: "ValidatedBody list \<Rightarrow> ControlState \<Rightarrow> bool" where
  "segs_fit As cs \<longleftrightarrow> (\<forall>A\<in>set As. data_seg_count (vb_module A) \<le> length (data_segs (frame cs)))"

text \<open>A suspended frame goes on with \<open>q\<close> more cells.\<close>

definition awaits :: "ValidatedBody \<Rightarrow> Activation \<Rightarrow> nat \<Rightarrow> bool" where
  "awaits A a q \<longleftrightarrow> (\<exists>t. \<forall>cs. labels cs = act_labels a \<and> frame_ip (frame cs) = act_ip a \<and>
     frame_lp (frame cs) = act_lp a \<and> length (frame_sp (frame cs)) = length (act_sp a) + q \<and>
     cache_ok A (addr_cache cs) \<and> data_seg_count (vb_module A) \<le> length (data_segs (frame cs)) \<longrightarrow> stands A cs t)"

text \<open>The callers of the function \<open>g\<close>, whose frame is at \<open>base\<close>; the first of all is \<open>f0\<close>.\<close>

fun callers_ok :: "ValidatedBody list \<Rightarrow> machine_env \<Rightarrow> nat \<Rightarrow> nat \<Rightarrow> nat \<Rightarrow> Activation list \<Rightarrow> bool" where
  "callers_ok As V f0 g base [] \<longleftrightarrow> g = f0"
| "callers_ok As V f0 g base (a # as) \<longleftrightarrow> own As V (act_fun a) \<and>
     base = act_base a + frame_bytes (running As V (act_fun a)) \<and>
     base + frame_bytes (running As V (act_fun a)) \<le> me_boundary V \<and>
     awaits (running As V (act_fun a)) a (ret_cells (func_type (vb_fun (running As V g)))) \<and>
     callers_ok As V f0 (act_fun a) (act_base a) as"

definition machine_ok :: "ValidatedBody list \<Rightarrow> machine_env \<Rightarrow> nat \<Rightarrow> Machine \<Rightarrow> bool" where
  "machine_ok As V f0 k \<longleftrightarrow> (let A = running As V (cur_func k) in
     own As V (cur_func k) \<and> on_track As (me_control V) A (now k) \<and> segs_fit As (now k) \<and>
     stack_top k = frame_base k + frame_bytes A \<and> stack_top k + frame_bytes A \<le> me_boundary V \<and>
     callers_ok As V f0 (cur_func k) (frame_base k) (callers k))"

lemma running_in: "own As V f \<Longrightarrow> running As V f \<in> set As"
  by (auto simp: own_def running_def)

lemma alloc_frame_Some:
  "exec_env_alloc_wasm_frame bd base bytes = Some st \<Longrightarrow> 0 < bytes \<Longrightarrow> st = base + bytes \<and> st + bytes \<le> bd"
  by (auto simp: exec_env_alloc_wasm_frame_def split: if_splits)

lemma stands_segs:
  assumes "stands A (cs\<lparr>frame := (frame cs)\<lparr>data_segs := ds\<rparr>\<rparr>) t" "data_seg_count (vb_module A) \<le> length (data_segs (frame cs))"
  shows "stands A cs t"
  using assms by (simp add: stands_def)

lemma resumes_awaits:
  assumes r: "resumes A cs n q" and n: "n \<le> length (frame_sp (frame cs))"
    and a: "act_labels a = labels cs" "act_ip a = frame_ip (frame cs)" "act_lp a = frame_lp (frame cs)"
      "act_sp a = drop n (frame_sp (frame cs))"
  shows "awaits A a q"
proof -
  from r obtain t where t: "\<forall>cs'. labels cs' = labels cs \<and> frame_ip (frame cs') = frame_ip (frame cs) \<and>
     length (frame_lp (frame cs')) = length (frame_lp (frame cs)) \<and>
     length (data_segs (frame cs')) = length (data_segs (frame cs)) \<and>
     length (frame_sp (frame cs')) + n = length (frame_sp (frame cs)) + q \<and> cache_ok A (addr_cache cs') \<longrightarrow>
     stands A cs' t" by (auto simp: resumes_def)
  have "stands A cs' t" if "labels cs' = act_labels a" "frame_ip (frame cs') = act_ip a" "frame_lp (frame cs') = act_lp a"
      "length (frame_sp (frame cs')) = length (act_sp a) + q" "cache_ok A (addr_cache cs')"
      "data_seg_count (vb_module A) \<le> length (data_segs (frame cs'))" for cs'
    by (rule stands_segs [where ds = "data_segs (frame cs)", OF _ that(6)]) (use t that(1-5) a n in simp)
  then show ?thesis unfolding awaits_def by blast
qed


section \<open>Its steps\<close>

lemma frame_bytes_pos: "0 < frame_bytes A"
  by (simp add: frame_bytes_def wasm_interp_interp_frame_size_def frame_header_def)

text \<open>A call from the interpreter: what is on the stack of operands fits behind the frame.\<close>

lemma args_have_room:
  assumes "n \<le> vb_max_stack A" "base + frame_bytes A \<le> boundary"
  shows "base + frame_header + 4 * n \<le> boundary"
  using assms by (simp add: frame_bytes_def wasm_interp_interp_frame_size_def all_cells_def)

lemma running_body:
  assumes "machine_fits As V" "own As V f"
  shows "me_bodies V ! (f - me_import_count V) = body_of (running As V f)"
    "ce_functions (me_control V) ! f = func_type (vb_fun (running As V f))"
proof -
  have j: "f - me_import_count V < length As" "me_import_count V + (f - me_import_count V) = f"
    using assms(2) by (auto simp: own_def)
  show "me_bodies V ! (f - me_import_count V) = body_of (running As V f)"
    using assms(1) j by (simp add: machine_fits_def running_def)
  show "ce_functions (me_control V) ! f = func_type (vb_fun (running As V f))"
    using assms(1) j unfolding machine_fits_def running_def by metis
qed

lemma entry_on_track:
  assumes m: "machine_fits As V" and f: "own As V f" and F: "F = vb_fun (running As V f)"
    and args: "length args = param_cells (func_type F)"
    and cs: "labels cs = [\<lparr>begin_addr = code F, target_addr = code F + code_size F - 1, block_sp = 0,
        block_cells = ret_cells (func_type F)\<rparr>]" "frame_ip (frame cs) = code F" "frame_sp (frame cs) = []"
      "frame_lp (frame cs) = args @ replicate (local_cells F) 0"
    and ok: "\<forall>B\<in>set As. cache_ok B (addr_cache cs)" "segs_fit As cs"
  shows "on_track As (me_control V) (running As V f) cs"
proof -
  let ?A = "running As V f"
  have A: "?A \<in> set As" by (rule running_in [OF f])
  then have v: "validated ?A" and b: "body_ok (vb_fun ?A)" using m by (auto simp: machine_fits_def together_def)
  have "entry_frame ?A cs"
    using b cs args ok A by (auto simp: entry_frame_def Let_def body_ok_def segs_fit_def F)
  from entry_stands [OF v this] show ?thesis using stands_on_track [OF v _ ok(1)] by blast
qed

text \<open>\<open>enter_function\<close> from a caller that waits.\<close>

definition settled_progress :: "ValidatedBody list \<Rightarrow> machine_env \<Rightarrow> nat \<Rightarrow> progress run \<Rightarrow> bool" where
  "settled_progress As V f0 r \<longleftrightarrow> (\<exists>e. r = trap e) \<or> r = done_with Terminated \<or>
     (\<exists>k. r = done_with (Running k) \<and> machine_ok As V f0 k) \<or>
     (\<exists>vs k. r = done_with (Finished vs k) \<and> length vs = ret_cells (func_type (vb_fun (running As V f0))))"

lemma enter_ok:
  assumes m: "machine_fits As V" and f: "own As V f" and args: "length args = param_cells (func_type (vb_fun (running As V f)))"
    and ok: "\<forall>B\<in>set As. cache_ok B (addr_cache (now k))" "segs_fit As (now k)"
    and r: "enter_function V f args k = r"
  shows "(\<exists>e. r = trap e) \<or> r = done_with Terminated \<or>
    (\<exists>k'. r = done_with (Running k') \<and> cur_func k' = f \<and> on_track As (me_control V) (running As V f) (now k') \<and>
       segs_fit As (now k') \<and> frame_base k' = stack_top k \<and> stack_top k' = frame_base k' + frame_bytes (running As V f) \<and>
       stack_top k' + frame_bytes (running As V f) \<le> me_boundary V \<and> callers k' = suspend_frame k # callers k)"
proof (cases "exec_env_alloc_wasm_frame (me_boundary V) (stack_top k) (frame_bytes (running As V f))")
  case None
  then show ?thesis using r running_body(1) [OF m f] by (auto simp: enter_function_def Let_def frame_bytes_def)
next
  case (Some st)
  let ?A = "running As V f" and ?F = "vb_fun (running As V f)"
  let ?cs = "(now k)\<lparr>frame := (frame (now k))\<lparr>frame_ip := code ?F, frame_sp := [],
      frame_lp := args @ replicate (local_cells ?F) 0\<rparr>,
    labels := [\<lparr>begin_addr = code ?F, target_addr = code ?F + code_size ?F - 1, block_sp = 0,
      block_cells = ret_cells (func_type ?F)\<rparr>]\<rparr>"
  note al = alloc_frame_Some [OF Some frame_bytes_pos]
  have r': "r = (if ce_terminate (me_control V) then done_with Terminated
      else done_with (Running (k\<lparr>cur_func := f, now := ?cs, callers := suspend_frame k # callers k,
        frame_base := stack_top k, stack_top := st\<rparr>)))"
    using r Some running_body(1) [OF m f]
    by (simp add: enter_function_def Let_def frame_bytes_def cong: if_cong)
  have "on_track As (me_control V) ?A ?cs"
    by (rule entry_on_track [OF m f refl args]) (use ok in \<open>simp_all add: segs_fit_def\<close>)
  then show ?thesis using r' al ok(2) by (auto simp: segs_fit_def)
qed


lemma call_operands:
  assumes "exec_control V F cs = done_with (Calls fidx cs')"
  shows "length (frame_sp (frame cs')) \<le> length (frame_sp (frame cs))"
proof -
  obtain op i where f: "fetch_byte (frame cs) = (op, i)" by fastforce
  have s: "frame_sp i = frame_sp (frame cs)" using f by (auto simp: fetch_byte_def)
  from assms f have "exec_call V (cs\<lparr>frame := i\<rparr>) = done_with (Calls fidx cs') \<or>
      exec_call_indirect V (cs\<lparr>frame := i\<rparr>) = done_with (Calls fidx cs')"
    by (auto simp: exec_control_def exec_opcode_def goes_on_done bindR_done_iff exec_end_def exec_return_def Let_def split: if_splits)
  then show ?thesis
    using s unfolding exec_call_def exec_call_indirect_def Let_def
    by (auto simp: bindR_done_iff on_frame_def fetch_u32_def pop32_def jump_to_def split: if_splits option.splits list.splits)
qed

lemma awaits_on_track:
  assumes m: "machine_fits As V" and f: "own As V (act_fun a)" and w: "awaits (running As V (act_fun a)) a q"
    and cs: "labels cs = act_labels a" "frame_ip (frame cs) = act_ip a" "frame_lp (frame cs) = act_lp a"
      "length (frame_sp (frame cs)) = length (act_sp a) + q"
    and ok: "\<forall>B\<in>set As. cache_ok B (addr_cache cs)" "segs_fit As cs"
  shows "on_track As (me_control V) (running As V (act_fun a)) cs"
proof -
  let ?A = "running As V (act_fun a)"
  have A: "?A \<in> set As" by (rule running_in [OF f])
  then have v: "validated ?A" using m by (auto simp: machine_fits_def together_def)
  from w cs ok A obtain t where "stands ?A cs t" unfolding awaits_def segs_fit_def by blast
  then show ?thesis using stands_on_track [OF v _ ok(1)] by blast
qed

text \<open>A return to the caller, or out of the first function.\<close>

lemma return_ok:
  assumes m: "machine_fits As V" and c: "callers_ok As V f0 (cur_func k) (frame_base k) (callers k)"
    and vs: "length vs = ret_cells (func_type (vb_fun (running As V (cur_func k))))"
    and ok: "\<forall>B\<in>set As. cache_ok B (addr_cache (now k))" "segs_fit As (now k)"
  shows "settled_progress As V f0 (done_with (return_func vs k))"
proof (cases "callers k")
  case Nil
  with c vs show ?thesis by (auto simp: settled_progress_def return_func_def)
next
  case (Cons a as)
  let ?k = "k\<lparr>cur_func := act_fun a, now := resume_frame (a\<lparr>act_sp := vs @ act_sp a\<rparr>) (now k),
            callers := as, frame_base := act_base a, stack_top := frame_base k\<rparr>"
  from c Cons have a: "own As V (act_fun a)" "frame_base k = act_base a + frame_bytes (running As V (act_fun a))"
    "frame_base k + frame_bytes (running As V (act_fun a)) \<le> me_boundary V"
    "awaits (running As V (act_fun a)) a (length vs)" "callers_ok As V f0 (act_fun a) (act_base a) as" using vs by simp_all
  have "on_track As (me_control V) (running As V (act_fun a)) (now ?k)"
    by (rule awaits_on_track [OF m a(1,4)]) (use ok in \<open>simp_all add: resume_frame_def segs_fit_def\<close>)
  then have "machine_ok As V f0 ?k"
    using a ok(2) by (simp add: machine_ok_def Let_def resume_frame_def segs_fit_def)
  then show ?thesis using Cons by (simp add: settled_progress_def return_func_def)
qed

text \<open>A call out of a running frame.\<close>

lemma native_ok:
  assumes m: "machine_fits As V" and o: "own As V (cur_func k)" and fidx: "unat fidx < me_import_count V"
    and w: "awaits (running As V (cur_func k)) (suspend_frame k) (ret_cells (ce_functions (me_control V) ! unat fidx))"
    and fr: "stack_top k = frame_base k + frame_bytes (running As V (cur_func k))"
      "stack_top k + frame_bytes (running As V (cur_func k)) \<le> me_boundary V"
    and c: "callers_ok As V f0 (cur_func k) (frame_base k) (callers k)"
    and ok: "\<forall>B\<in>set As. cache_ok B (addr_cache (now k))" "segs_fit As (now k)"
  shows "settled_progress As V f0 (call_func_native V fidx args k)"
proof -
  have q: "ret_cells (ce_functions (me_control V) ! unat fidx) \<le> 2" using m fidx by (simp add: machine_fits_def)
  have "machine_ok As V f0 (k\<lparr>now := (now k)\<lparr>frame := (frame (now k))\<lparr>chip := chip i, mem_inst := mem_inst i,
      frame_sp := push_native_result (ret_cells (ce_functions (me_control V) ! unat fidx)) r0 r1 (frame_sp (frame (now k)))\<rparr>\<rparr>\<rparr>)"
      (is "machine_ok As V f0 ?k") for r0 r1 i
  proof -
    have w': "awaits (running As V (act_fun (suspend_frame k))) (suspend_frame k) (ret_cells (ce_functions (me_control V) ! unat fidx))"
      and o': "own As V (act_fun (suspend_frame k))" using w o by (simp_all add: suspend_frame_def Let_def)
    have "on_track As (me_control V) (running As V (act_fun (suspend_frame k))) (now ?k)"
      by (rule awaits_on_track [OF m o' w'])
        (use q ok in \<open>auto simp: suspend_frame_def Let_def push_native_result_def segs_fit_def\<close>)
    then show ?thesis using o fr c ok(2) by (simp add: machine_ok_def Let_def suspend_frame_def segs_fit_def)
  qed
  then show ?thesis
    by (auto simp: call_func_native_def settled_progress_def Let_def split: option.splits)
qed


lemma function_of_index:
  assumes "machine_fits As V" "unat fidx < length (ce_functions (me_control V))" "\<not> unat fidx < me_import_count V"
  shows "own As V (unat fidx)"
  using assms by (auto simp: machine_fits_def own_def)

lemma call_ok:
  assumes m: "machine_fits As V" and k: "machine_ok As V f0 k"
    and o: "safe_outcome (running As V (cur_func k)) (me_control V) c (Calls fidx cs)"
    and ok: "\<forall>B\<in>set As. cache_ok B c" "segs_fit As cs"
    and sp: "length (frame_sp (frame cs)) \<le> vb_max_stack (running As V (cur_func k))"
  shows "settled_progress As V f0 (call_func_from_interp V fidx (k\<lparr>now := cs\<rparr>))"
proof -
  let ?A = "running As V (cur_func k)" and ?ft = "ce_functions (me_control V) ! unat fidx"
  let ?n = "param_cells ?ft" and ?sp = "frame_sp (frame cs)"
  let ?k = "k\<lparr>now := cs\<lparr>frame := (frame cs)\<lparr>frame_sp := drop (param_cells ?ft) ?sp\<rparr>\<rparr>\<rparr>"
  from o have fi: "unat fidx < length (ce_functions (me_control V))" and c: "addr_cache cs = c"
    and n: "?n \<le> length ?sp" and r: "resumes ?A cs ?n (ret_cells ?ft)" by (simp_all add: Let_def)
  have k': "own As V (cur_func k)" "stack_top k = frame_base k + frame_bytes ?A" "stack_top k + frame_bytes ?A \<le> me_boundary V"
    "callers_ok As V f0 (cur_func k) (frame_base k) (callers k)" using k by (simp_all add: machine_ok_def Let_def)
  have room: "stack_top k + frame_header + 4 * ?n \<le> me_boundary V"
    using args_have_room [OF _ k'(3), of ?n] n sp by simp
  have w: "awaits ?A (suspend_frame ?k) (ret_cells ?ft)"
    by (rule resumes_awaits [OF r n]) (simp_all add: suspend_frame_def Let_def)
  have call: "call_func_from_interp V fidx (k\<lparr>now := cs\<rparr>) =
      (if unat fidx < me_import_count V then call_func_native V fidx (rev (take ?n ?sp)) ?k
       else enter_function V (unat fidx) (rev (take ?n ?sp)) ?k)"
    using fi n room by (simp add: call_func_from_interp_def Let_def)
  have segs: "segs_fit As (now ?k)" "\<forall>B\<in>set As. cache_ok B (addr_cache (now ?k))"
    using ok c by (simp_all add: segs_fit_def)
  show ?thesis
  proof (cases "unat fidx < me_import_count V")
    case True
    have "settled_progress As V f0 (call_func_native V fidx (rev (take ?n ?sp)) ?k)"
      by (rule native_ok [OF m _ True]) (use k' w segs in simp_all)
    with True call show ?thesis by simp
  next
    case False
    note f = function_of_index [OF m fi False]
    note b = running_body(2) [OF m f]
    have len: "length (rev (take ?n ?sp)) = param_cells (func_type (vb_fun (running As V (unat fidx))))"
      using n b by simp
    have call': "call_func_from_interp V fidx (k\<lparr>now := cs\<rparr>) = enter_function V (unat fidx) (rev (take ?n ?sp)) ?k"
      using call False by simp
    from enter_ok [OF m f len segs(2,1) refl] show ?thesis
    proof (elim disjE exE conjE)
      fix k2
      assume e: "enter_function V (unat fidx) (rev (take ?n ?sp)) ?k = done_with (Running k2)"
        "cur_func k2 = unat fidx" "on_track As (me_control V) (running As V (unat fidx)) (now k2)" "segs_fit As (now k2)"
        "frame_base k2 = stack_top ?k" "stack_top k2 = frame_base k2 + frame_bytes (running As V (unat fidx))"
        "stack_top k2 + frame_bytes (running As V (unat fidx)) \<le> me_boundary V"
        "callers k2 = suspend_frame ?k # callers ?k"
      have "callers_ok As V f0 (unat fidx) (frame_base k2) (callers k2)"
        using e(5,8) k' w b by (simp add: suspend_frame_def Let_def)
      then have "machine_ok As V f0 k2" using e f by (simp add: machine_ok_def Let_def)
      with e(1) show ?thesis by (simp add: settled_progress_def call')
    qed (auto simp: settled_progress_def call')
  qed
qed

lemma machine_step_ok:
  assumes m: "machine_fits As V" and k: "machine_ok As V f0 k"
    and p: "in_place (running As V (cur_func k)) (chip (frame (now k)))"
  shows "settled_progress As V f0 (machine_step V k)"
proof -
  let ?A = "running As V (cur_func k)" and ?C = "me_control V"
  have o: "own As V (cur_func k)" and w: "on_track As ?C ?A (now k)" and sg: "segs_fit As (now k)"
    using k by (simp_all add: machine_ok_def Let_def)
  have t: "together As ?C" using m by (simp add: machine_fits_def)
  have step: "machine_step V k = bindR (exec_control ?C (vb_fun ?A) (now k)) (\<lambda>r. case r of
           Goes_on cs \<Rightarrow> done_with (Running (k\<lparr>now := cs\<rparr>))
         | Calls fidx cs \<Rightarrow> call_func_from_interp V fidx (k\<lparr>now := cs\<rparr>)
         | Returns vs cs \<Rightarrow> done_with (return_func vs (k\<lparr>now := cs\<rparr>))
         | Terminates \<Rightarrow> done_with Terminated)"
    using running_body(1) [OF m o] by (simp add: machine_step_def Let_def)
  have segs: "segs_fit As cs" if "exec_control ?C (vb_fun ?A) (now k) = done_with out" "outcome_state out = Some cs" for out cs
    using exec_control_segs [OF that] sg by (simp add: segs_fit_def)
  from on_track_outcome [OF t running_in [OF o] w p] show ?thesis
  proof (elim disjE exE conjE)
    fix e
    assume "exec_control ?C (vb_fun ?A) (now k) = trap e"
    then show ?thesis using step by (auto simp: settled_progress_def)
  next
    fix cs
    assume g: "exec_control ?C (vb_fun ?A) (now k) = done_with (Goes_on cs)" "on_track As ?C ?A cs"
    then have "machine_ok As V f0 (k\<lparr>now := cs\<rparr>)"
      using k segs [OF g(1)] by (simp add: machine_ok_def Let_def)
    then show ?thesis using step g(1) by (auto simp: settled_progress_def)
  next
    fix out c
    assume e: "exec_control ?C (vb_fun ?A) (now k) = done_with out" and s: "safe_outcome ?A ?C c out"
      and n: "\<forall>cs'. out \<noteq> Goes_on cs'" and c: "\<forall>B\<in>set As. cache_ok B c"
    show ?thesis
    proof (cases out)
      case (Calls fidx cs)
      have "length (frame_sp (frame cs)) \<le> vb_max_stack ?A"
        using call_operands e Calls on_track_in_bounds [OF w] by (fastforce simp: in_bounds_def)
      from call_ok [OF m k s [unfolded Calls] c segs [OF e] this] show ?thesis using step e Calls by simp
    next
      case (Returns vs cs)
      have "settled_progress As V f0 (done_with (return_func vs (k\<lparr>now := cs\<rparr>)))"
        by (rule return_ok [OF m]) (use k s c segs [OF e] Returns in \<open>simp_all add: machine_ok_def Let_def\<close>)
      then show ?thesis using step e Returns by simp
    next
      case Terminates
      then show ?thesis using step e by (simp add: settled_progress_def)
    qed (use n in simp)
  qed
qed


section \<open>The instance of a loaded module\<close>

text \<open>The functions with the depths that the validation has recorded.\<close>

definition function_bodies :: "LoadedModule \<Rightarrow> FunctionBody list" where
  "function_bodies L = map (\<lambda>(F, ms, mb). \<lparr>fb_fun = F, fb_max_stack = ms, fb_max_block = mb\<rparr>)
     (zip (mc_functions (lm_content L)) (ck_depths (lm_checked L)))"

text \<open>An instance: its imports come first; none of them has a result of more than two cells.\<close>

definition instance_of :: "LoadedModule \<Rightarrow> machine_env \<Rightarrow> bool" where
  "instance_of L V \<longleftrightarrow> runs_module L (me_control V) \<and>
     me_import_count V = length (mc_import_functions (lm_content L)) \<and> me_bodies V = function_bodies L \<and>
     list_all (\<lambda>im. ret_cells (fi_type im) \<le> 2) (mc_import_functions (lm_content L))"

text \<open>The rewritten code is what the loader has left.\<close>

definition code_kept :: "LoadedModule \<Rightarrow> cmem \<Rightarrow> bool" where
  "code_kept L m \<longleftrightarrow> list_all (\<lambda>F. agree (ck_mem (lm_checked L)) m (code F) (code_end F)) (mc_functions (lm_content L))"

text \<open>The machines an execution comes to, as long as nothing overwrites the code.\<close>

inductive machine_reaches :: "LoadedModule \<Rightarrow> machine_env \<Rightarrow> Machine \<Rightarrow> Machine \<Rightarrow> bool" for L V k0 where
  reaches_start: "machine_reaches L V k0 k0"
| reaches_step: "machine_reaches L V k0 k \<Longrightarrow> code_kept L (chip (frame (now k))) \<Longrightarrow>
    machine_step V k = done_with (Running k') \<Longrightarrow> machine_reaches L V k0 k'"

lemma body_functions: "bodies_of L As \<Longrightarrow> mc_functions (lm_content L) = map vb_fun As"
  by (simp add: bodies_of_def)

lemma bodies_functions:
  assumes "bodies_of L As"
  shows "function_bodies L = map body_of As"
proof -
  have "mc_functions (lm_content L) = map vb_fun As" "ck_depths (lm_checked L) = map (\<lambda>A. (vb_max_stack A, vb_max_block A)) As"
    using assms by (simp_all add: bodies_of_def)
  then show ?thesis by (simp add: function_bodies_def body_of_def zip_map_map zip_same_conv_map comp_def)
qed

lemma instance_fits:
  assumes b: "bodies_of L As" and V: "instance_of L V" and c: "\<forall>A\<in>set As. covered A"
  shows "machine_fits As V"
proof -
  let ?imports = "map fi_type (mc_import_functions (lm_content L))"
  have r: "runs_module L (me_control V)" and n: "me_import_count V = length ?imports" using V by (simp_all add: instance_of_def)
  have fs: "ce_functions (me_control V) = ?imports @ map (\<lambda>A. func_type (vb_fun A)) As"
    using r body_functions [OF b] by (simp add: runs_module_def comp_def)
  have "together As (me_control V)"
    using b c runs_fits [OF b _ r] by (simp add: together_def bodies_of_def)
  moreover have "me_bodies V = map body_of As" using V bodies_functions [OF b] by (simp add: instance_of_def)
  ultimately show ?thesis
    using b V fs n by (simp add: machine_fits_def nth_append bodies_of_def instance_of_def list_all_length)
qed

lemma kept_in_place:
  assumes "bodies_of L As" "A \<in> set As" "code_kept L m"
  shows "in_place A m"
proof -
  have "in_place A (ck_mem (lm_checked L))" "vb_fun A \<in> set (mc_functions (lm_content L))"
    using assms(1,2) body_functions [OF assms(1)] by (auto simp: bodies_of_def)
  then show ?thesis using assms(3) by (auto simp: code_kept_def list_all_iff in_place_def agree_def)
qed

text \<open>The call of a function starts in the invariant.\<close>

lemma native_finishes:
  "(case p of Running k' \<Rightarrow> done_with (Finished (g k') k') | _ \<Rightarrow> done_with p) \<noteq> done_with (Running k)"
  by (cases p) simp_all

lemma enters_Running:
  "(case p of Running k' \<Rightarrow> done_with (Running (k'\<lparr>callers := []\<rparr>)) | _ \<Rightarrow> done_with p) = done_with (Running k) \<longleftrightarrow>
     (\<exists>k'. p = Running k' \<and> k = k'\<lparr>callers := []\<rparr>)"
  by (cases p) auto

lemma call_starts_ok:
  assumes m: "machine_fits As V" and f: "f < length (ce_functions (me_control V))"
    and ok: "\<forall>A\<in>set As. cache_ok A (addr_cache (now k0))" "segs_fit As (now k0)"
    and r: "wasm_interp_call_wasm V native_stack f argv k0 = done_with (Running k)"
  shows "own As V f \<and> machine_ok As V f k"
proof -
  have o: "own As V f"
  proof (rule ccontr)
    assume "\<not> own As V f"
    then have "f < me_import_count V" using f m by (auto simp: own_def machine_fits_def)
    then show False using r
      by (auto simp: wasm_interp_call_wasm_def Let_def bindR_done_iff native_finishes split: if_splits option.splits)
  qed
  then have nf: "\<not> f < me_import_count V" by (simp add: own_def)
  obtain stack k1 where e: "enter_function V f (take (param_cells (ce_functions (me_control V) ! f)) argv)
      (k0\<lparr>now := (now k0)\<lparr>frame := (frame (now k0))\<lparr>frame_sp := []\<rparr>\<rparr>, callers := [],
        frame_base := stack_top k0, stack_top := stack\<rparr>) = done_with (Running k1)" (is "enter_function V f ?args ?k = _")
    and k: "k = k1\<lparr>callers := []\<rparr>" and len: "param_cells (ce_functions (me_control V) ! f) \<le> length argv"
    using r nf by (auto simp: wasm_interp_call_wasm_def Let_def bindR_done_iff enters_Running split: if_splits option.splits)
  have "length ?args = param_cells (func_type (vb_fun (running As V f)))"
    using len running_body(2) [OF m o] by simp
  from enter_ok [OF m o this _ _ e] ok
  have "cur_func k1 = f \<and> on_track As (me_control V) (running As V f) (now k1) \<and>
       segs_fit As (now k1) \<and> stack_top k1 = frame_base k1 + frame_bytes (running As V f) \<and>
       stack_top k1 + frame_bytes (running As V f) \<le> me_boundary V"
    by (simp add: segs_fit_def)
  then show ?thesis using o k by (simp add: machine_ok_def Let_def)
qed

lemma reached_machine_ok:
  assumes "machine_reaches L V k0 k" "bodies_of L As" "machine_fits As V" "machine_ok As V f k0"
  shows "machine_ok As V f k"
  using assms
proof (induction rule: machine_reaches.induct)
  case (reaches_step k k')
  then have k: "machine_ok As V f k" by blast
  then have "running As V (cur_func k) \<in> set As" by (auto simp: machine_ok_def Let_def intro: running_in)
  from machine_step_ok [OF reaches_step.prems(2) k kept_in_place [OF reaches_step.prems(1) this reaches_step.hyps(2)]]
    reaches_step.hyps(3) show ?case by (auto simp: settled_progress_def)
qed

lemma module_runs:
  assumes b: "bodies_of L As" and c: "\<forall>A\<in>set As. covered A" and V: "instance_of L V"
    and f: "f < length (ce_functions (me_control V))"
    and k0: "\<forall>A\<in>set As. cache_ok A (addr_cache (now k0))"
      "length (data_segs (frame (now k0))) = length (mc_data_segs (lm_content L))"
    and r: "wasm_interp_call_wasm V native_stack f argv k0 = done_with (Running k1)"
    and k: "machine_reaches L V k1 k" and p: "code_kept L (chip (frame (now k)))"
  shows "in_bounds (running As V (cur_func k)) (now k) \<and> stack_top k \<le> me_boundary V \<and> machine_step V k \<noteq> stuck \<and>
    (\<forall>vs k'. machine_step V k = done_with (Finished vs k') \<longrightarrow> length vs = ret_cells (ce_functions (me_control V) ! f))"
proof -
  note m = instance_fits [OF b V c]
  have "segs_fit As (now k0)"
    using b k0(2) by (auto simp: segs_fit_def bodies_of_def validation_view_def Let_def)
  from call_starts_ok [OF m f k0(1) this r] have o: "own As V f" and k1: "machine_ok As V f k1" by simp_all
  note mk = reached_machine_ok [OF k b m k1]
  then have A: "running As V (cur_func k) \<in> set As" "stack_top k \<le> me_boundary V"
    "in_bounds (running As V (cur_func k)) (now k)"
    by (auto simp: machine_ok_def Let_def intro: running_in on_track_in_bounds)
  have "stuck \<noteq> (trap e :: progress run)" for e by (simp add: stuck_def trap_def)
  then show ?thesis using machine_step_ok [OF m mk kept_in_place [OF b A(1) p]] A(2,3) running_body(2) [OF m o]
    by (auto simp: settled_progress_def)
qed


section \<open>The small module runs\<close>

definition sample_body :: ValidatedBody where
  "sample_body = \<lparr>vb_env = tiny_env, vb_module = loaded_view sample_loaded, vb_fun = branching_function, vb_code = sample_code,
     vb_max_stack = 1, vb_max_block = 2, vb_state = sample_state 0x1009 [] [VALUE_TYPE_I32] 1 2\<rparr>"

definition sample_machine_env :: machine_env where
  "sample_machine_env = \<lparr>me_control = branching_control\<lparr>ce_types := [sample_type], ce_functions := [sample_type]\<rparr>,
     me_import_count = 0, me_bodies = [\<lparr>fb_fun = branching_function, fb_max_stack = 1, fb_max_block = 2\<rparr>],
     me_native = \<lambda>_ _ _. None, me_boundary = 1024\<rparr>"

definition sample_frame :: ControlState where
  "sample_frame = (branching_frame 0x1000 [])\<lparr>frame := (frame (branching_frame 0x1000 []))\<lparr>chip := sample_code\<rparr>\<rparr>"

definition sample_machine :: Machine where
  "sample_machine = \<lparr>cur_func = 0, now = sample_frame, callers = [], frame_base = 44, stack_top = 120\<rparr>"

lemma sample_body_validated: "validated sample_body"
proof -
  have t: "func_type_ok sample_type" using tiny_ok(2) by (simp add: function_ok_def sample_type_def tiny_function_def)
  have "function_ok branching_function" "1 < unat (code branching_function)"
    "unat (code branching_function) + unat (code_size branching_function) < 2 ^ 32 - 1"
    using tiny_ok by (simp_all add: function_ok_def branching_function_def tiny_function_def)
  moreover have "module_ok (loaded_view sample_loaded)"
    using t by (simp add: module_ok_def validation_view_def sample_loaded_def sample_fields Let_def branching_function_def
        tiny_function_def sample_content_def empty_content_def sample_type_def)
  ultimately show ?thesis using sample_prepare by (simp add: validated_def sample_body_def sample_loaded_def)
qed

lemma sample_bodies: "bodies_of sample_loaded [sample_body]"
proof -
  have "in_place sample_body sample_code" by (simp add: in_place_def agree_def sample_body_def)
  moreover have "body_ok branching_function"
  proof -
    from bodies_exist [OF sample_load] obtain As where As: "bodies_of sample_loaded As" by auto
    with body_functions [OF As] show ?thesis by (auto simp: bodies_of_def sample_loaded_def sample_fields)
  qed
  ultimately show ?thesis
    using sample_body_validated
    by (simp add: bodies_of_def sample_fields sample_body_def sample_loaded_def branching_state_def)
qed

lemma sample_visited:
  assumes "visited sample_body s"
  shows "s \<in> {sample_state 0x1000 [function_block] [] 0 1, sample_state 0x1002 [function_block] [VALUE_TYPE_I32] 1 1,
    sample_state 0x1004 [if_block, function_block] [] 1 2,
    sample_state 0x1005 [if_block\<lparr>else_addr := 0x1004\<rparr>, function_block] [] 1 2,
    sample_state 0x1006 [function_block] [] 1 2, sample_state 0x1008 [function_block] [VALUE_TYPE_I32] 1 2,
    sample_state 0x1009 [] [VALUE_TYPE_I32] 1 2}" (is "s \<in> ?S")
proof -
  let ?M = "loaded_view sample_loaded"
  have start: "sample_state 0x1000 [function_block] [] 0 1 \<in> ?S" by (rule insertI1)
  have r: "prepare_reaches tiny_env ?M branching_function 0x1009 (sample_state 0x1000 [function_block] [] 0 1) s"
    using assms sample_start by (simp add: visited_def sample_body_def branching_end)
  have next_in: "u \<in> ?S" if "t \<in> ?S" "lp t < 0x1009" "prepare_step tiny_env ?M branching_function 0x1009 t = Inr u" for t u
    using that by (elim insertE emptyE) (simp_all add: sample_steps sample_lp del: One_nat_def)
  have "prepare_reaches tiny_env ?M branching_function 0x1009 t u \<Longrightarrow> t \<in> ?S \<Longrightarrow> u \<in> ?S" for t u
  proof (induction rule: prepare_reaches.induct)
    case (prepare_next s t u)
    show ?case by (rule next_in [OF prepare_next.IH [OF prepare_next.prems] prepare_next.hyps(2,3)])
  qed
  from this [OF r start] show ?thesis .
qed

lemma sample_covered: "covered sample_body"
proof -
  have "opcode_at s \<noteq> 0xfc" if "visited sample_body s" "0 < csp_num (lctx s)" for s
    using sample_visited [OF that(1)] that(2)
    by (elim insertE emptyE) (simp_all add: branching_state_def sample_body_bytes)
  then show ?thesis by (simp add: covered_def)
qed

lemma sample_instance: "instance_of sample_loaded sample_machine_env"
proof -
  have "func_type branching_function = sample_type"
    by (simp add: branching_function_def tiny_function_def sample_type_def)
  then show ?thesis
    by (simp add: instance_of_def runs_module_def sample_machine_env_def sample_loaded_def sample_fields function_bodies_def
        branching_control_def tiny_instance_def)
qed

lemma sample_call:
  "wasm_interp_call_wasm sample_machine_env True 0 [5] (sample_machine\<lparr>frame_base := 0, stack_top := 0\<rparr>) =
     done_with (Running sample_machine)"
proof -
  have c: "param_cells sample_type = 1" "ret_cells sample_type = 1" "ret_cells (func_type branching_function) = 1"
    "param_cells (func_type branching_function) = 1" "local_types branching_function = []" "wasm_get_cell_num [] = 0"
    "code branching_function = 0x1000" "code_size branching_function = 9"
    by code_simp+
  show ?thesis
    by (simp add: wasm_interp_call_wasm_def enter_function_def Let_def sample_machine_env_def branching_control_def c
        exec_env_alloc_wasm_frame_def wasm_interp_interp_frame_size_def frame_header_def all_cells_def local_cells_def
        sample_machine_def sample_frame_def branching_frame_def suspend_frame_def)
qed


section \<open>The property\<close>

text \<open>C1: a loaded module runs safely over all its functions, on four conditions. Let a binary be loaded, so that its
  functions are the accepted bodies \<open>As\<close>, let an instance of it run, and let \<open>wasm_interp_call_wasm\<close> call the function \<open>f\<close>.
  Follow the interpreter through any number of steps of any of the functions, through calls, recursion and returns,
  native functions included, which may do anything with the memory and the globals. The conditions are: the rewritten code
  is in place at every step (\<open>code_kept\<close>; the interpreter has no protection against a write into it); no bulk memory
  instruction writes the index of a memory in more than one byte (\<open>covered\<close>; \<open>memidx_out_of_step\<close> shows that it is
  needed); no imported function has a result of more than two cells (\<open>instance_of\<close>; \<open>native_results_missing\<close>); and the
  cache of blocks and the number of data segments are right when the call begins. Then the running function is one of the
  accepted ones and its operands and labels are within what was validated; its frame lies below the boundary of
  the stack of frames; and the next step is defined: it does not pop an empty stack, write behind a frame, use an
  unknown function or leave a body. If it ends the execution, it returns exactly the cells of the result type of \<open>f\<close>.\<close>

theorem loaded_module_runs:
  assumes "bodies_of L As" "\<forall>A\<in>set As. covered A" "instance_of L V" "f < length (ce_functions (me_control V))"
    and "\<forall>A\<in>set As. cache_ok A (addr_cache (now k0))"
      "length (data_segs (frame (now k0))) = length (mc_data_segs (lm_content L))"
    and "wasm_interp_call_wasm V native_stack f argv k0 = done_with (Running k1)"
    and "machine_reaches L V k1 k" "code_kept L (chip (frame (now k)))"
  shows "in_bounds (running As V (cur_func k)) (now k) \<and> stack_top k \<le> me_boundary V \<and> machine_step V k \<noteq> stuck \<and>
    (\<forall>vs k'. machine_step V k = done_with (Finished vs k') \<longrightarrow> length vs = ret_cells (ce_functions (me_control V) ! f))"
  using assms by (rule module_runs)

theorem loaded_module_runs_witness:
  "in_bounds sample_body sample_frame \<and> stack_top sample_machine \<le> me_boundary sample_machine_env \<and>
   machine_step sample_machine_env sample_machine \<noteq> stuck"
proof -
  have c: "ret_cells sample_type = 1" by code_simp
  have "code_kept sample_loaded (chip (frame (now sample_machine)))"
    by (simp add: code_kept_def sample_loaded_def agree_def sample_machine_def sample_frame_def sample_fields)
  moreover have "cache_ok sample_body (addr_cache sample_frame)"
    using cache_start_ok [OF sample_body_validated]
    by (simp add: sample_frame_def branching_frame_def BLOCK_ADDR_CONFLICT_SIZE_def BLOCK_ADDR_CACHE_SIZE_def)
  ultimately show ?thesis
    using loaded_module_runs [OF sample_bodies _ sample_instance _ _ _ sample_call reaches_start] sample_covered c
    by (simp add: sample_machine_env_def sample_machine_def sample_loaded_def sample_fields running_def
        sample_frame_def branching_frame_def)
qed

end
