(* ===== verification/Bh_List.thy ===== *)
theory Bh_List
  imports Prelude
begin

text \<open>
  The intrusive list of the runtime (\<^verbatim>\<open>core/shared/utils/bh_list.c\<close>): clusters, execution
  environments, waiters of an address. An element is any object whose first field is a
  \<^verbatim>\<open>bh_list_link\<close>, so a list is a chain through the objects themselves: \<open>links\<close> gives for the
  address of an object the \<open>next\<close> field stored there, and all lists share it. A \<^verbatim>\<open>bh_list *\<close> that
  may be NULL is an option.

  \<open>repr h l xs\<close> is the abstraction: in the memory \<open>h\<close> the header \<open>l\<close> holds the elements \<open>xs\<close>.
  The locale \<open>intrusive_list\<close> is what the users of the list rely on; its interpretation at the end
  discharges it for the operations of the file.
\<close>

section \<open>The operations\<close>

type_synonym links = "u32 \<Rightarrow> u32"

record bh_list =
  head_next :: u32
  list_len :: u32

datatype bh_list_status = BH_LIST_SUCCESS | BH_LIST_ERROR

definition bh_list_init :: "bh_list option \<Rightarrow> bh_list option \<times> bh_list_status" where
  "bh_list_init list =
     (case list of None \<Rightarrow> (None, BH_LIST_ERROR)
      | Some l \<Rightarrow> (Some (l\<lparr>head_next := 0, list_len := 0\<rparr>), BH_LIST_SUCCESS))"

definition bh_list_insert ::
  "links \<Rightarrow> bh_list option \<Rightarrow> u32 \<Rightarrow> (links \<times> bh_list option) \<times> bh_list_status" where
  "bh_list_insert h list elem =
     (case list of None \<Rightarrow> ((h, list), BH_LIST_ERROR)
      | Some l \<Rightarrow>
         if elem = 0 then ((h, list), BH_LIST_ERROR)
         else ((h(elem := head_next l), Some (l\<lparr>head_next := elem, list_len := list_len l + 1\<rparr>)),
               BH_LIST_SUCCESS))"

text \<open>The loop of \<open>bh_list_remove\<close>; on a cyclic chain it does not return.\<close>

partial_function (option) remove_loop ::
  "links \<Rightarrow> bh_list \<Rightarrow> u32 \<Rightarrow> u32 \<Rightarrow> u32 \<Rightarrow> ((links \<times> bh_list) \<times> bh_list_status) option" where
  "remove_loop h l elem cur prev =
     (if cur = 0 then Some ((h, l), BH_LIST_ERROR)
      else if cur = elem then
        Some (if prev \<noteq> 0 then ((h(prev := h cur), l\<lparr>list_len := list_len l - 1\<rparr>), BH_LIST_SUCCESS)
              else ((h, l\<lparr>head_next := h cur, list_len := list_len l - 1\<rparr>), BH_LIST_SUCCESS))
      else remove_loop h l elem (h cur) cur)"

declare remove_loop.simps [code]

definition bh_list_remove ::
  "links \<Rightarrow> bh_list option \<Rightarrow> u32 \<Rightarrow> ((links \<times> bh_list option) \<times> bh_list_status) option" where
  "bh_list_remove h list elem =
     (case list of None \<Rightarrow> Some ((h, list), BH_LIST_ERROR)
      | Some l \<Rightarrow>
         if elem = 0 then Some ((h, list), BH_LIST_ERROR)
         else map_option (\<lambda>((h, l), r). ((h, Some l), r)) (remove_loop h l elem (head_next l) 0))"

definition bh_list_length :: "bh_list option \<Rightarrow> u32" where
  "bh_list_length list = (case list of None \<Rightarrow> 0 | Some l \<Rightarrow> list_len l)"

definition bh_list_first_elem :: "bh_list option \<Rightarrow> u32" where
  "bh_list_first_elem list = (case list of None \<Rightarrow> 0 | Some l \<Rightarrow> head_next l)"

definition bh_list_elem_next :: "links \<Rightarrow> u32 \<Rightarrow> u32" where
  "bh_list_elem_next h node = (if node \<noteq> 0 then h node else 0)"

section \<open>Chains\<close>

primrec chain :: "links \<Rightarrow> u32 \<Rightarrow> u32 list \<Rightarrow> bool" where
  "chain h p [] \<longleftrightarrow> p = 0"
| "chain h p (x # xs) \<longleftrightarrow> p = x \<and> x \<noteq> 0 \<and> chain h (h x) xs"

definition repr :: "links \<Rightarrow> bh_list \<Rightarrow> u32 list \<Rightarrow> bool" where
  "repr h l xs \<longleftrightarrow> chain h (head_next l) xs \<and> list_len l = of_nat (length xs) \<and> length xs < 2 ^ 32"

lemma chain_0 [simp]: "chain h 0 xs \<longleftrightarrow> xs = []"
  by (cases xs) auto

lemma chain_nonzero: "chain h p xs \<Longrightarrow> x \<in> set xs \<Longrightarrow> x \<noteq> 0"
  by (induction xs arbitrary: p) auto

lemma chain_unique: "chain h p xs \<Longrightarrow> chain h p ys \<Longrightarrow> xs = ys"
proof (induction xs arbitrary: p ys)
  case (Cons x xs)
  then show ?case by (cases ys) auto
qed simp

lemma chain_append: "chain h p (xs @ ys) \<Longrightarrow> \<exists>q. chain h q ys"
  by (induction xs arbitrary: p) auto

lemma chain_distinct: "chain h p xs \<Longrightarrow> distinct xs"
proof (induction xs arbitrary: p)
  case (Cons x xs)
  have "x \<notin> set xs"
  proof
    assume "x \<in> set xs"
    then obtain ys zs where xs: "xs = ys @ x # zs" by (auto simp: in_set_conv_decomp)
    then obtain q where "chain h q (x # zs)" using Cons.prems chain_append [of h "h x" ys "x # zs"] by auto
    then have "chain h (h x) zs" by simp
    moreover have "chain h (h x) (ys @ x # zs)" using Cons.prems xs by simp
    ultimately have "ys @ x # zs = zs" by (rule chain_unique [rotated])
    then show False using arg_cong [of "ys @ x # zs" zs length] by simp
  qed
  then show ?case using Cons by auto
qed simp

lemma chain_frame: "(\<And>x. x \<in> set xs \<Longrightarrow> h' x = h x) \<Longrightarrow> chain h' p xs = chain h p xs"
  by (induction xs arbitrary: p) auto

lemma chain_upd [simp]: "e \<notin> set xs \<Longrightarrow> chain (h(e := q)) p xs = chain h p xs"
  by (rule chain_frame) auto

lemma repr_frame: "repr h l xs \<Longrightarrow> (\<And>x. x \<in> set xs \<Longrightarrow> h' x = h x) \<Longrightarrow> repr h' l xs"
  using chain_frame [of xs h' h] by (simp add: repr_def)

lemma repr_length: "repr h l xs \<Longrightarrow> unat (list_len l) = length xs"
  by (simp add: repr_def unat_of_nat take_bit_nat_eq_self)

lemma repr_distinct: "repr h l xs \<Longrightarrow> distinct xs" and repr_nonzero: "repr h l xs \<Longrightarrow> 0 \<notin> set xs"
  using chain_distinct chain_nonzero [of h "head_next l" xs 0] by (auto simp: repr_def)

section \<open>Each operation against the list of elements\<close>

lemma bh_list_init_repr: "bh_list_init (Some l) = (Some l', r) \<Longrightarrow> repr h l' [] \<and> r = BH_LIST_SUCCESS"
  by (auto simp: bh_list_init_def repr_def)

lemma bh_list_insert_repr:
  assumes "repr h l xs" "e \<noteq> 0" "e \<notin> set xs" "length xs < 2 ^ 32 - 1"
  shows "\<exists>h' l'. bh_list_insert h (Some l) e = ((h', Some l'), BH_LIST_SUCCESS) \<and> repr h' l' (e # xs)
           \<and> (\<forall>p. p \<noteq> e \<longrightarrow> h' p = h p)"
  using assms by (auto simp: bh_list_insert_def repr_def)

text \<open>The loop stands behind the elements \<open>ys\<close>, with \<open>prev\<close> at the last of them.\<close>

lemma remove_loop_spec:
  assumes "chain h cur xs" "prev \<notin> set xs" "e \<noteq> 0"
  shows "remove_loop h l e cur prev =
           (if e \<in> set xs then
              (let q = (if e = cur then prev else last (takeWhile (\<lambda>x. x \<noteq> e) xs))
               in Some (if q \<noteq> 0 then ((h(q := h e), l\<lparr>list_len := list_len l - 1\<rparr>), BH_LIST_SUCCESS)
                        else ((h, l\<lparr>head_next := h e, list_len := list_len l - 1\<rparr>), BH_LIST_SUCCESS)))
            else Some ((h, l), BH_LIST_ERROR))"
  using assms
proof (induction xs arbitrary: cur prev)
  case Nil
  then show ?case by (simp add: remove_loop.simps)
next
  case (Cons x xs)
  then have x: "cur = x" "x \<noteq> 0" "chain h (h x) xs" "x \<notin> set xs"
    using chain_distinct [OF Cons.prems(1)] by auto
  show ?case
  proof (cases "x = e")
    case True
    then show ?thesis using x Cons.prems by (subst remove_loop.simps) (simp add: Let_def)
  next
    case False
    have hx: "h x = e \<Longrightarrow> e \<in> set xs \<Longrightarrow> takeWhile (\<lambda>x. x \<noteq> e) xs = []"
      using x(3) by (cases xs) auto
    have hx': "h x \<noteq> e \<Longrightarrow> e \<in> set xs \<Longrightarrow> takeWhile (\<lambda>x. x \<noteq> e) xs \<noteq> []"
      using x(3) by (cases xs) auto
    show ?thesis
      using x False Cons.IH [OF x(3,4) Cons.prems(3)] hx hx'
      by (subst remove_loop.simps) (auto simp: Let_def)
  qed
qed

lemma chain_remove1:
  assumes "chain h p xs" "e \<in> set xs" "e \<noteq> p"
  shows "chain (h(last (takeWhile (\<lambda>x. x \<noteq> e) xs) := h e)) p (remove1 e xs)"
  using assms
proof (induction xs arbitrary: p)
  case (Cons x xs)
  have d: "x \<notin> set xs" and x: "p = x" "x \<noteq> e" "x \<noteq> 0" "chain h (h x) xs" "e \<in> set xs"
    using Cons.prems chain_distinct [OF Cons.prems(1)] by auto
  show ?case
  proof (cases "h x = e")
    case True
    obtain ys where "xs = e # ys" using True x by (cases xs) auto
    then show ?thesis using x d True by (simp del: fun_upd_apply add: fun_upd_same)
  next
    case False
    have ne: "takeWhile (\<lambda>x. x \<noteq> e) xs \<noteq> []" using False x by (cases xs) auto
    then have "last (takeWhile (\<lambda>x. x \<noteq> e) xs) \<in> set xs" by (meson last_in_set set_takeWhileD)
    then have "last (takeWhile (\<lambda>x. x \<noteq> e) xs) \<noteq> x" using d by blast
    then show ?thesis using Cons.IH [OF x(4,5)] False x ne by simp
  qed
qed simp

lemma bh_list_remove_repr:
  assumes "repr h l xs" "e \<noteq> 0"
  shows "\<exists>h' l'. bh_list_remove h (Some l) e =
           Some ((h', Some l'), if e \<in> set xs then BH_LIST_SUCCESS else BH_LIST_ERROR)
           \<and> repr h' l' (remove1 e xs) \<and> (\<forall>p. p \<notin> set xs \<longrightarrow> h' p = h p)"
proof (cases "e \<in> set xs")
  case False
  then show ?thesis
    using assms remove_loop_spec [of h "head_next l" xs 0 e l] repr_nonzero [OF assms(1)]
    by (simp add: bh_list_remove_def repr_def remove1_idem)
next
  case True
  have c: "chain h (head_next l) xs" "0 \<notin> set xs"
    using assms repr_nonzero by (auto simp: repr_def)
  have len: "list_len l - 1 = of_nat (length xs - 1)"
    using assms(1) True by (cases xs) (auto simp: repr_def)
  have loop: "remove_loop h l e (head_next l) 0 =
      (let q = (if e = head_next l then 0 else last (takeWhile (\<lambda>x. x \<noteq> e) xs))
       in Some (if q \<noteq> 0 then ((h(q := h e), l\<lparr>list_len := list_len l - 1\<rparr>), BH_LIST_SUCCESS)
                else ((h, l\<lparr>head_next := h e, list_len := list_len l - 1\<rparr>), BH_LIST_SUCCESS)))"
    using remove_loop_spec [OF c assms(2)] True by simp
  show ?thesis
  proof (cases "e = head_next l")
    case True
    then obtain ys where "xs = e # ys" using c \<open>e \<in> set xs\<close> by (cases xs) auto
    then show ?thesis using loop c True assms len by (simp add: bh_list_remove_def repr_def)
  next
    case False
    let ?q = "last (takeWhile (\<lambda>x. x \<noteq> e) xs)"
    have "takeWhile (\<lambda>x. x \<noteq> e) xs \<noteq> []" using False c True by (cases xs) auto
    then have q: "?q \<in> set xs" by (meson last_in_set set_takeWhileD)
    then have "?q \<noteq> 0" using c by metis
    moreover have "chain (h(?q := h e)) (head_next l) (remove1 e xs)"
      by (rule chain_remove1) (use c True False in auto)
    ultimately show ?thesis
      using loop False assms q True len by (auto simp: bh_list_remove_def repr_def length_remove1)
  qed
qed

lemma bh_list_length_repr: "repr h l xs \<Longrightarrow> unat (bh_list_length (Some l)) = length xs"
  by (simp add: bh_list_length_def repr_length)

lemma bh_list_first_repr: "repr h l xs \<Longrightarrow> bh_list_first_elem (Some l) = (case xs of [] \<Rightarrow> 0 | x # _ \<Rightarrow> x)"
  by (cases xs) (auto simp: bh_list_first_elem_def repr_def)

lemma chain_next:
  "chain h p xs \<Longrightarrow> i < length xs \<Longrightarrow>
     bh_list_elem_next h (xs ! i) = (if i + 1 < length xs then xs ! (i + 1) else 0)"
proof (induction xs arbitrary: p i)
  case (Cons x xs)
  then show ?case by (cases i; cases xs) (auto simp: bh_list_elem_next_def)
qed simp


section \<open>What the users of the list rely on\<close>

text \<open>\<open>traverse_list\<close> of the thread manager (\<^verbatim>\<open>libraries/thread-mgr/thread_manager.c\<close>): the successor
  is read before the visitor runs, so the visitor may free the element or take it out. The state
  is any record that has the links.\<close>

partial_function (option) visit ::
  "('s \<Rightarrow> u32 \<Rightarrow> u32) \<Rightarrow> (u32 \<Rightarrow> 's \<Rightarrow> 's) \<Rightarrow> u32 \<Rightarrow> 's \<Rightarrow> 's option" where
  "visit next visitor node s =
     (if node = 0 then Some s else visit next visitor (next s node) (visitor node s))"

declare visit.simps [code]

definition traverse_list :: "('s \<Rightarrow> links) \<Rightarrow> bh_list \<Rightarrow> (u32 \<Rightarrow> 's \<Rightarrow> 's) \<Rightarrow> 's \<Rightarrow> 's option" where
  "traverse_list links_of l visitor s =
     visit (\<lambda>s. bh_list_elem_next (links_of s)) visitor (bh_list_first_elem (Some l)) s"

locale intrusive_list =
  fixes rep :: "links \<Rightarrow> 'l \<Rightarrow> u32 list \<Rightarrow> bool"
    and ins :: "links \<Rightarrow> 'l option \<Rightarrow> u32 \<Rightarrow> (links \<times> 'l option) \<times> bh_list_status"
    and del :: "links \<Rightarrow> 'l option \<Rightarrow> u32 \<Rightarrow> ((links \<times> 'l option) \<times> bh_list_status) option"
    and len :: "'l option \<Rightarrow> u32"
    and first :: "'l option \<Rightarrow> u32"
    and nxt :: "links \<Rightarrow> u32 \<Rightarrow> u32"
  assumes rep_ins: "rep h l xs \<Longrightarrow> e \<noteq> 0 \<Longrightarrow> e \<notin> set xs \<Longrightarrow> length xs < 2 ^ 32 - 1 \<Longrightarrow>
      \<exists>h' l'. ins h (Some l) e = ((h', Some l'), BH_LIST_SUCCESS) \<and> rep h' l' (e # xs)
        \<and> (\<forall>p. p \<noteq> e \<longrightarrow> h' p = h p)"
    and rep_del: "rep h l xs \<Longrightarrow> e \<noteq> 0 \<Longrightarrow>
      \<exists>h' l'. del h (Some l) e =
          Some ((h', Some l'), if e \<in> set xs then BH_LIST_SUCCESS else BH_LIST_ERROR)
        \<and> rep h' l' (remove1 e xs) \<and> (\<forall>p. p \<notin> set xs \<longrightarrow> h' p = h p)"
    and rep_len: "rep h l xs \<Longrightarrow> unat (len (Some l)) = length xs"
    and rep_first: "rep h l xs \<Longrightarrow> first (Some l) = (case xs of [] \<Rightarrow> 0 | x # _ \<Rightarrow> x)"
    and rep_next: "rep h l xs \<Longrightarrow> i < length xs \<Longrightarrow>
      nxt h (xs ! i) = (if i + 1 < length xs then xs ! (i + 1) else 0)"
    and rep_same: "rep h l xs \<Longrightarrow> (\<And>x. x \<in> set xs \<Longrightarrow> h' x = h x) \<Longrightarrow> rep h' l xs"
    and rep_elems: "rep h l xs \<Longrightarrow> distinct xs \<and> 0 \<notin> set xs"
    and next_local: "h' x = h x \<Longrightarrow> nxt h' x = nxt h x"
begin

lemma insert_then_remove:
  assumes "rep h l xs" "e \<noteq> 0" "e \<notin> set xs" "length xs < 2 ^ 32 - 1"
    "ins h (Some l) e = ((h1, Some l1), r)"
  shows "\<exists>h2 l2. del h1 (Some l1) e = Some ((h2, Some l2), BH_LIST_SUCCESS) \<and> rep h2 l2 xs"
proof -
  have "rep h1 l1 (e # xs)" using rep_ins [OF assms(1-4)] assms(5) by auto
  from rep_del [OF this assms(2)] show ?thesis by auto
qed

text \<open>The walk from the element at position \<open>i\<close>; the visitor may change the links of what it has
  visited.\<close>

lemma visit_from:
  assumes "rep h l xs" "i \<le> length xs"
    and "\<And>j. i \<le> j \<Longrightarrow> j < length xs \<Longrightarrow> links_of s (xs ! j) = h (xs ! j)"
    and keep: "\<And>x y s. x \<in> set xs \<Longrightarrow> y \<in> set xs \<Longrightarrow> y \<noteq> x \<Longrightarrow> links_of (visitor x s) y = links_of s y"
  shows "visit (\<lambda>s. nxt (links_of s)) visitor (if i < length xs then xs ! i else 0) s =
           Some (fold visitor (drop i xs) s)"
  using assms(2,3)
proof (induction "length xs - i" arbitrary: i s)
  case 0
  then show ?case by (simp add: visit.simps)
next
  case (Suc n)
  then have i: "i < length xs" by simp
  have el: "distinct xs" "0 \<notin> set xs" using rep_elems [OF assms(1)] by auto
  then have nz: "xs ! i \<noteq> 0" using i by (metis nth_mem)
  have "nxt (links_of s) (xs ! i) = nxt h (xs ! i)" using Suc.prems(2) i by (intro next_local) simp
  then have nx: "nxt (links_of s) (xs ! i) = (if i + 1 < length xs then xs ! (i + 1) else 0)"
    using rep_next [OF assms(1) i] by simp
  have "links_of (visitor (xs ! i) s) (xs ! j) = h (xs ! j)" if "i + 1 \<le> j" "j < length xs" for j
  proof -
    have "xs ! j \<noteq> xs ! i" using el i that by (simp add: nth_eq_iff_index_eq)
    then show ?thesis using keep i that Suc.prems(2) by simp
  qed
  from Suc.hyps(1) [of "i + 1" "visitor (xs ! i) s"] this Suc.hyps(2) i
  have "visit (\<lambda>s. nxt (links_of s)) visitor (if i + 1 < length xs then xs ! (i + 1) else 0)
          (visitor (xs ! i) s) = Some (fold visitor (drop (i + 1) xs) (visitor (xs ! i) s))"
    by simp
  then show ?case using i nz nx by (subst visit.simps) (simp add: Cons_nth_drop_Suc [symmetric])
qed

lemma visit_all:
  assumes "rep (links_of s) l xs"
    and "\<And>x y s. x \<in> set xs \<Longrightarrow> y \<in> set xs \<Longrightarrow> y \<noteq> x \<Longrightarrow> links_of (visitor x s) y = links_of s y"
  shows "visit (\<lambda>s. nxt (links_of s)) visitor (first (Some l)) s = Some (fold visitor xs s)"
proof -
  have "first (Some l) = (if 0 < length xs then xs ! 0 else 0)"
    using rep_first [OF assms(1)] by (cases xs) auto
  then show ?thesis using visit_from [OF assms(1) le0, of links_of s visitor] assms(2) by simp
qed

end

interpretation bl: intrusive_list repr bh_list_insert bh_list_remove bh_list_length bh_list_first_elem
  bh_list_elem_next
proof unfold_locales
  fix h h' :: links and x :: u32
  assume "h' x = h x"
  then show "bh_list_elem_next h' x = bh_list_elem_next h x" by (simp add: bh_list_elem_next_def)
next
  fix h l xs i
  assume "repr h l xs" "i < length xs"
  then show "bh_list_elem_next h (xs ! i) = (if i + 1 < length xs then xs ! (i + 1) else 0)"
    using chain_next [of h "head_next l" xs i] by (simp only: repr_def)
next
  fix h h' :: links and l xs
  assume "repr h l xs" "\<And>x. x \<in> set xs \<Longrightarrow> h' x = h x"
  then show "repr h' l xs" by (rule repr_frame)
next
  fix h l xs
  assume "repr h l xs"
  then show "distinct xs \<and> 0 \<notin> set xs" using repr_distinct repr_nonzero by blast
qed (blast intro: bh_list_insert_repr bh_list_remove_repr bh_list_length_repr bh_list_first_repr)+

section \<open>The list as a whole\<close>

text \<open>C24: The intrusive list refines a sequence of distinct non-null addresses. Inserting puts the
  element at the head and changes only the link of that element; removing returns on every such
  list, takes the element out wherever it is and reports an error, changing no element, exactly
  when it is not there; the length is the number of elements; and a traversal visits each element
  once, in order, even when the visitor destroys the link of the element it is given.\<close>
theorem bh_list_refines_sequence:
  assumes "repr h l xs" "e \<noteq> 0"
  shows "(e \<notin> set xs \<longrightarrow> length xs < 2 ^ 32 - 1 \<longrightarrow>
      (\<exists>h' l'. bh_list_insert h (Some l) e = ((h', Some l'), BH_LIST_SUCCESS) \<and> repr h' l' (e # xs)
        \<and> (\<forall>p. p \<noteq> e \<longrightarrow> h' p = h p)))
    \<and> (\<exists>h' l'. bh_list_remove h (Some l) e =
          Some ((h', Some l'), if e \<in> set xs then BH_LIST_SUCCESS else BH_LIST_ERROR)
        \<and> repr h' l' (remove1 e xs) \<and> (\<forall>p. p \<notin> set xs \<longrightarrow> h' p = h p))
    \<and> unat (bh_list_length (Some l)) = length xs
    \<and> distinct xs \<and> 0 \<notin> set xs
    \<and> traverse_list snd l (\<lambda>x (acc, h). (acc @ [x], h(x := d))) ([], h) =
        Some (xs, fold (\<lambda>x h. h(x := d)) xs h)"
proof (intro conjI impI)
  have f: "fold (\<lambda>x (acc, h). (acc @ [x], h(x := d))) ys (acc, h) = (acc @ ys, fold (\<lambda>x h. h(x := d)) ys h)"
    for ys acc and h :: links by (induction ys arbitrary: acc h) auto
  show "traverse_list snd l (\<lambda>x (acc, h). (acc @ [x], h(x := d))) ([], h) =
          Some (xs, fold (\<lambda>x h. h(x := d)) xs h)"
    unfolding traverse_list_def using assms(1) by (subst bl.visit_all) (auto simp: f)
qed (use assms bl.rep_ins bl.rep_del bl.rep_len bl.rep_elems in blast)+

lemma bh_list_refines_sequence_witness:
  "\<exists>h' l'. bh_list_remove (\<lambda>p. if p = 8 then 16 else 0) (Some \<lparr>head_next = 8, list_len = 2\<rparr>) 16 =
      Some ((h', Some l'), BH_LIST_SUCCESS) \<and> repr h' l' [8]"
proof -
  have "repr (\<lambda>p. if p = 8 then 16 else 0) \<lparr>head_next = 8, list_len = 2\<rparr> [8, 16]"
    by (simp add: repr_def)
  from bh_list_refines_sequence [OF this, of 16 0] show ?thesis by auto
qed

end
