(* ===== verification/Bh_Vector.thy ===== *)
theory Bh_Vector
  imports Prelude
begin

text \<open>
  The growable array of the runtime (\<^verbatim>\<open>core/shared/utils/bh_vector.c\<close>). The buffer of a vector is
  owned by it and is a list of bytes, \<open>None\<close> for NULL; the element at index \<open>i\<close> is the part of
  \<open>size_elem\<close> bytes at offset \<open>size_elem * i\<close>. Sizes are \<^verbatim>\<open>size_t\<close> and wrap at 32 bits. A pointer
  argument that may be NULL is an option. The allocator is the parameter \<open>av\<close>, the size of a mutex
  and the success of its initialisation are parameters of \<open>bh_vector_init\<close>; locking does not
  change the vector and is left out of the other operations.

  \<open>elems v\<close> is the abstraction to the list of elements. The locale \<open>growable_seq\<close> is the contract
  of the vector as the users of the file rely on it.
\<close>

section \<open>The operations\<close>

record Vector =
  max_elems :: u32
  data_buf :: "u8 list option"
  num_elems :: u32
  size_elem :: u32
  vlock :: bool

definition buf :: "Vector \<Rightarrow> u8 list" where
  "buf v = (case data_buf v of None \<Rightarrow> [] | Some d \<Rightarrow> d)"

text \<open>A copy of \<open>bs\<close> to offset \<open>p\<close> of a buffer, inside the buffer.\<close>

definition put_at :: "u8 list \<Rightarrow> nat \<Rightarrow> u8 list \<Rightarrow> u8 list" where
  "put_at d p bs = take p d @ bs @ drop (p + length bs) d"

definition alloc_vector_data :: "(u32 \<Rightarrow> bool) \<Rightarrow> u32 \<Rightarrow> u32 \<Rightarrow> u8 list option" where
  "alloc_vector_data av len sz =
     (let total_size = (ucast sz :: u64) * ucast len
      in if total_size > 0xFFFFFFFF then None
         else if av (ucast total_size) then Some (replicate (unat total_size) 0) else None)"

definition extend_vector :: "(u32 \<Rightarrow> bool) \<Rightarrow> Vector \<Rightarrow> u32 \<Rightarrow> Vector option" where
  "extend_vector av v len =
     (if len \<le> max_elems v then Some v
      else let len = (if len < size_elem v * 3 div 2 then size_elem v * 3 div 2 else len)
           in case alloc_vector_data av len (size_elem v) of
                None \<Rightarrow> None
              | Some d \<Rightarrow> Some (v\<lparr>data_buf := Some (put_at d 0 (take (unat (size_elem v * max_elems v)) (buf v))),
                                max_elems := len\<rparr>))"

definition bh_vector_destroy :: "Vector option \<Rightarrow> Vector option \<times> bool" where
  "bh_vector_destroy vector =
     (case vector of None \<Rightarrow> (None, False)
      | Some v \<Rightarrow> (Some \<lparr>max_elems = 0, data_buf = None, num_elems = 0, size_elem = 0, vlock = False\<rparr>, True))"

definition bh_vector_init ::
  "(u32 \<Rightarrow> bool) \<Rightarrow> u32 \<Rightarrow> bool \<Rightarrow> Vector option \<Rightarrow> u32 \<Rightarrow> u32 \<Rightarrow> bool \<Rightarrow> Vector option \<times> bool" where
  "bh_vector_init av mutex_size mutex_ok vector init_length sz use_lock =
     (case vector of None \<Rightarrow> (None, False)
      | Some v \<Rightarrow>
         let init_length = (if init_length = 0 then 4 else init_length)
         in case alloc_vector_data av init_length sz of
              None \<Rightarrow> (Some (v\<lparr>data_buf := None\<rparr>), False)
            | Some d \<Rightarrow>
                let v = v\<lparr>data_buf := Some d, size_elem := sz, max_elems := init_length,
                          num_elems := 0, vlock := False\<rparr>
                in if use_lock then
                     if \<not> av mutex_size then (fst (bh_vector_destroy (Some v)), False)
                     else if \<not> mutex_ok then (fst (bh_vector_destroy (Some v)), False)
                     else (Some (v\<lparr>vlock := True\<rparr>), True)
                   else (Some v, True))"

definition bh_vector_set :: "Vector option \<Rightarrow> u32 \<Rightarrow> u8 list option \<Rightarrow> Vector option \<times> bool" where
  "bh_vector_set vector index elem_buf =
     (case (vector, elem_buf) of
        (Some v, Some e) \<Rightarrow>
          if index \<ge> num_elems v then (Some v, False)
          else (Some (v\<lparr>data_buf := Some (put_at (buf v) (unat (size_elem v * index))
                                        (take (unat (size_elem v)) e))\<rparr>), True)
      | _ \<Rightarrow> (vector, False))"

text \<open>The result is what is copied to \<open>elem_buf\<close>, which is not NULL when \<open>out\<close> holds.\<close>

definition bh_vector_get :: "Vector option \<Rightarrow> u32 \<Rightarrow> bool \<Rightarrow> u8 list option" where
  "bh_vector_get vector index out =
     (case vector of None \<Rightarrow> None
      | Some v \<Rightarrow>
         if \<not> out then None
         else if index \<ge> num_elems v then None
         else Some (take (unat (size_elem v)) (drop (unat (size_elem v * index)) (buf v))))"

text \<open>The loop of \<open>bh_vector_insert\<close>: \<open>p\<close> is the offset it writes to.\<close>

function insert_loop :: "nat \<Rightarrow> u8 list \<Rightarrow> nat \<Rightarrow> nat \<Rightarrow> nat \<Rightarrow> u8 list \<times> nat" where
  "insert_loop sz d p i index =
     (if i > index then insert_loop sz (put_at d p (take sz (drop (p - sz) d))) (p - sz) (i - 1) index
      else (d, p))"
  by pat_completeness auto
termination by (relation "measure (\<lambda>(_, _, _, i, _). i)") auto

declare insert_loop.simps [simp del]

definition bh_vector_insert ::
  "(u32 \<Rightarrow> bool) \<Rightarrow> Vector option \<Rightarrow> u32 \<Rightarrow> u8 list option \<Rightarrow> Vector option \<times> bool" where
  "bh_vector_insert av vector index elem_buf =
     (case (vector, elem_buf) of
        (Some v, Some e) \<Rightarrow>
          if index \<ge> num_elems v then (Some v, False)
          else (case extend_vector av v (num_elems v + 1) of
                  None \<Rightarrow> (Some v, False)
                | Some v \<Rightarrow>
                    let p = unat (size_elem v * num_elems v);
                        (d, p) = insert_loop (unat (size_elem v)) (buf v) p
                                   (unat (num_elems v - 1)) (unat index)
                    in (Some (v\<lparr>data_buf := Some (put_at d p (take (unat (size_elem v)) e)),
                               num_elems := num_elems v + 1\<rparr>), True))
      | _ \<Rightarrow> (vector, False))"

definition bh_vector_append ::
  "(u32 \<Rightarrow> bool) \<Rightarrow> Vector option \<Rightarrow> u8 list option \<Rightarrow> Vector option \<times> bool" where
  "bh_vector_append av vector elem_buf =
     (case (vector, elem_buf) of
        (Some v, Some e) \<Rightarrow>
          (case extend_vector av v (num_elems v + 1) of
             None \<Rightarrow> (Some v, False)
           | Some v \<Rightarrow>
               (Some (v\<lparr>data_buf := Some (put_at (buf v) (unat (size_elem v * num_elems v))
                                         (take (unat (size_elem v)) e)),
                       num_elems := num_elems v + 1\<rparr>), True))
      | _ \<Rightarrow> (vector, False))"

function remove_elem_loop :: "nat \<Rightarrow> u8 list \<Rightarrow> nat \<Rightarrow> nat \<Rightarrow> nat \<Rightarrow> u8 list" where
  "remove_elem_loop sz d p i stop =
     (if i < stop then remove_elem_loop sz (put_at d p (take sz (drop (p + sz) d))) (p + sz) (i + 1) stop
      else d)"
  by pat_completeness auto
termination by (relation "measure (\<lambda>(_, _, _, i, stop). stop - i)") auto

declare remove_elem_loop.simps [simp del]

text \<open>The third result is what is copied to \<open>old_elem_buf\<close>, if that is not NULL.\<close>

definition bh_vector_remove ::
  "Vector option \<Rightarrow> u32 \<Rightarrow> bool \<Rightarrow> Vector option \<times> bool \<times> u8 list option" where
  "bh_vector_remove vector index out =
     (case vector of None \<Rightarrow> (None, False, None)
      | Some v \<Rightarrow>
         if index \<ge> num_elems v then (Some v, False, None)
         else let p = unat (size_elem v * index);
                  old = (if out then Some (take (unat (size_elem v)) (drop p (buf v))) else None);
                  d = remove_elem_loop (unat (size_elem v)) (buf v) p (unat index) (unat (num_elems v - 1))
              in (Some (v\<lparr>data_buf := Some d, num_elems := num_elems v - 1\<rparr>), True, old))"

definition bh_vector_size :: "Vector option \<Rightarrow> u32" where
  "bh_vector_size vector = (case vector of None \<Rightarrow> 0 | Some v \<Rightarrow> num_elems v)"

section \<open>Parts of a buffer\<close>

definition chunk :: "nat \<Rightarrow> u8 list \<Rightarrow> nat \<Rightarrow> u8 list" where
  "chunk s d j = take s (drop (s * j) d)"

definition elems :: "Vector \<Rightarrow> u8 list list" where
  "elems v = map (chunk (unat (size_elem v)) (buf v)) [0..<unat (num_elems v)]"

definition vector_ok :: "Vector \<Rightarrow> bool" where
  "vector_ok v \<longleftrightarrow> (\<exists>d. data_buf v = Some d \<and> length d = unat (size_elem v) * unat (max_elems v))
     \<and> unat (size_elem v) * unat (max_elems v) < 2 ^ 32
     \<and> num_elems v \<le> max_elems v \<and> 0 < size_elem v"

lemma length_put_at [simp]: "p + length bs \<le> length d \<Longrightarrow> length (put_at d p bs) = length d"
  by (simp add: put_at_def)

lemma length_elems [simp]: "length (elems v) = unat (num_elems v)"
  by (simp add: elems_def)

lemma nth_elems: "i < unat (num_elems v) \<Longrightarrow> elems v ! i = chunk (unat (size_elem v)) (buf v) i"
  by (simp add: elems_def)

lemma length_chunk: "s * (j + 1) \<le> length d \<Longrightarrow> length (chunk s d j) = s"
  by (simp add: chunk_def)

lemma chunk_put_at:
  assumes "length b = s" "s * (i + 1) \<le> length d"
  shows "chunk s (put_at d (s * i) b) j = (if j = i then b else chunk s d j)"
proof (cases j i rule: linorder_cases)
  case less
  then obtain k where k: "i = j + 1 + k" using less_imp_Suc_add by fastforce
  then show ?thesis using assms
    by (simp add: chunk_def put_at_def drop_take min_def distrib_left) linarith
next
  case equal
  then show ?thesis using assms by (simp add: chunk_def put_at_def)
next
  case greater
  then obtain k where k: "j = i + 1 + k" using less_imp_Suc_add by fastforce
  then show ?thesis using assms
    by (simp add: chunk_def put_at_def distrib_left add.commute add.left_commute)
qed


lemma insert_loop_spec:
  assumes "index \<le> i" "s * (i + 2) \<le> length d" "0 < s"
  shows "\<exists>d'. insert_loop s d (s * (i + 1)) i index = (d', s * (index + 1)) \<and> length d' = length d
    \<and> (\<forall>j. chunk s d' j = (if index + 1 < j \<and> j \<le> i + 1 then chunk s d (j - 1) else chunk s d j))"
  using assms(1,2)
proof (induction "i - index" arbitrary: i d)
  case 0
  then show ?case by (auto simp: insert_loop.simps)
next
  case (Suc n)
  then obtain i' where i: "i = Suc i'" "index \<le> i'" by (cases i) auto
  have b: "length (chunk s d i) = s" and bd: "s * (i + 1 + 1) \<le> length d"
    using Suc.prems(2) by (auto simp: length_chunk distrib_left)
  define e where "e = put_at d (s * (i + 1)) (chunk s d i)"
  have len: "length e = length d" using b bd by (simp add: e_def distrib_left)
  have ce: "chunk s e j = (if j = i + 1 then chunk s d i else chunk s d j)" for j
    unfolding e_def by (rule chunk_put_at [OF b bd])
  have step: "insert_loop s d (s * (i + 1)) i index = insert_loop s e (s * (i' + 1)) i' index"
    using i by (subst insert_loop.simps) (simp add: chunk_def e_def distrib_left)
  have "n = i' - index" "s * (i' + 2) \<le> length e"
    using Suc.hyps(2) Suc.prems(2) i len by (auto simp: distrib_left)
  from Suc.hyps(1) [OF this(1) i(2) this(2)] obtain d' where
    d': "insert_loop s e (s * (i' + 1)) i' index = (d', s * (index + 1))" "length d' = length e"
    "\<And>j. chunk s d' j = (if index + 1 < j \<and> j \<le> i' + 1 then chunk s e (j - 1) else chunk s e j)"
    by blast
  have "chunk s d' j = (if index + 1 < j \<and> j \<le> i + 1 then chunk s d (j - 1) else chunk s d j)" for j
    unfolding d'(3) ce using i by auto
  then show ?case using step d'(1,2) len by simp
qed

lemma remove_elem_loop_spec:
  assumes "i \<le> stop" "s * (stop + 1) \<le> length d"
  shows "length (remove_elem_loop s d (s * i) i stop) = length d
    \<and> (\<forall>j. chunk s (remove_elem_loop s d (s * i) i stop) j =
          (if i \<le> j \<and> j < stop then chunk s d (j + 1) else chunk s d j))"
  using assms
proof (induction "stop - i" arbitrary: i d)
  case 0
  then show ?case by (auto simp: remove_elem_loop.simps)
next
  case (Suc n)
  then have i: "i < stop" by simp
  have "s * (i + 2) \<le> s * (stop + 1)" using i by (intro mult_le_mono2) simp
  then have b: "length (chunk s d (i + 1)) = s" and bd: "s * (i + 1) \<le> length d"
    using Suc.prems(2) by (auto simp: length_chunk distrib_left)
  define e where "e = put_at d (s * i) (chunk s d (i + 1))"
  have len: "length e = length d" using b bd by (simp add: e_def distrib_left)
  have ce: "chunk s e j = (if j = i then chunk s d (i + 1) else chunk s d j)" for j
    unfolding e_def by (rule chunk_put_at [OF b bd])
  have step: "remove_elem_loop s d (s * i) i stop = remove_elem_loop s e (s * (i + 1)) (i + 1) stop"
    using i by (subst remove_elem_loop.simps) (simp add: chunk_def e_def distrib_left add.commute)
  have "n = stop - (i + 1)" "i + 1 \<le> stop" "s * (stop + 1) \<le> length e"
    using Suc.hyps(2) Suc.prems(2) i len by auto
  note IH = Suc.hyps(1) [OF this]
  show ?case unfolding step using IH i len by (auto simp: ce)
qed


section \<open>Each operation on the list of elements\<close>

lemma vector_okD:
  assumes "vector_ok v"
  shows "length (buf v) = unat (size_elem v) * unat (max_elems v)" "data_buf v = Some (buf v)"
    "unat (num_elems v) \<le> unat (max_elems v)" "0 < unat (size_elem v)"
  using assms by (auto simp: vector_ok_def buf_def word_le_nat_alt word_less_nat_alt)

lemma offset_nat:
  assumes "vector_ok v" "i \<le> max_elems v"
  shows "unat (size_elem v * i) = unat (size_elem v) * unat i"
proof -
  have "unat (size_elem v) * unat i \<le> unat (size_elem v) * unat (max_elems v)"
    using assms(2) by (simp add: word_le_nat_alt)
  also have "\<dots> < 2 ^ 32" using assms(1) by (simp add: vector_ok_def)
  finally show ?thesis by (simp add: unat_mult_lem [symmetric])
qed

lemma chunk_in_buf:
  assumes "vector_ok v" "i < max_elems v"
  shows "unat (size_elem v) * (unat i + 1) \<le> length (buf v)"
proof -
  have "unat i + 1 \<le> unat (max_elems v)" using assms(2) by (simp add: word_less_nat_alt)
  then show ?thesis using vector_okD(1) [OF assms(1)] by (metis mult_le_mono2)
qed

lemma alloc_vector_data_length:
  assumes "alloc_vector_data av len sz = Some d"
  shows "length d = unat sz * unat len" "unat sz * unat len < 2 ^ 32"
proof -
  let ?t = "(ucast sz :: u64) * ucast len"
  have "unat sz * unat len < 2 ^ 32 * 2 ^ 32"
    using unat_u32_less [of sz] unat_u32_less [of len] by (intro mult_strict_mono) auto
  then have "unat ?t = unat sz * unat len"
    using unat_u32_less [of sz] unat_u32_less [of len]
    by (simp add: unat_word_ariths(2) unsigned_ucast_eq take_bit_nat_eq_self)
  moreover have "?t \<le> 0xFFFFFFFF" "d = replicate (unat ?t) 0"
    using assms by (auto simp: alloc_vector_data_def Let_def split: if_splits)
  ultimately show "length d = unat sz * unat len" "unat sz * unat len < 2 ^ 32"
    by (auto simp: word_le_nat_alt)
qed

lemma extend_vector_ok:
  assumes "vector_ok v" "extend_vector av v len = Some v'"
  shows "vector_ok v' \<and> elems v' = elems v \<and> len \<le> max_elems v' \<and> size_elem v' = size_elem v
    \<and> num_elems v' = num_elems v"
proof (cases "len \<le> max_elems v")
  case True
  then show ?thesis using assms by (simp add: extend_vector_def)
next
  case False
  let ?n = "if len < size_elem v * 3 div 2 then size_elem v * 3 div 2 else len"
  let ?s = "unat (size_elem v)" and ?m = "unat (max_elems v)"
  obtain d where d: "alloc_vector_data av ?n (size_elem v) = Some d"
    and v': "v' = v\<lparr>data_buf := Some (put_at d 0 (take (unat (size_elem v * max_elems v)) (buf v))), max_elems := ?n\<rparr>"
    using assms(2) False by (auto simp: extend_vector_def Let_def split: option.splits)
  note len = alloc_vector_data_length [OF d] and ok = vector_okD [OF assms(1)]
  have ge: "max_elems v \<le> ?n" "len \<le> ?n" using False by auto
  then have "?s * ?m \<le> length d" by (simp add: len(1) word_le_nat_alt)
  moreover have "unat (size_elem v * max_elems v) = ?s * ?m" by (rule offset_nat [OF assms(1)]) simp
  ultimately have b: "buf v' = buf v @ drop (?s * ?m) d"
    unfolding buf_def [of v'] by (simp add: v' put_at_def ok(1))
  have "chunk ?s (buf v') j = chunk ?s (buf v) j" if "j < ?m" for j
  proof -
    from that have "j + 1 \<le> ?m" by simp
    then have "?s * (j + 1) \<le> ?s * ?m" by (rule mult_le_mono2)
    then show ?thesis unfolding b chunk_def using ok(1) by simp
  qed
  then have "elems v' = elems v" using ok(3) by (auto simp: elems_def v')
  moreover have "length (buf v') = ?s * unat ?n"
    using \<open>?s * ?m \<le> length d\<close> len(1) by (simp add: b ok(1))
  ultimately show ?thesis using assms(1) ge len(2) by (auto simp: v' vector_ok_def buf_def)
qed

lemma put_elem:
  assumes "vector_ok v" "i < max_elems v" "length e = unat (size_elem v)"
  defines "v' \<equiv> v\<lparr>data_buf := Some (put_at (buf v) (unat (size_elem v * i)) e)\<rparr>"
  shows "vector_ok v'" "chunk (unat (size_elem v)) (buf v') j =
           (if j = unat i then e else chunk (unat (size_elem v)) (buf v) j)"
proof -
  note o = offset_nat [OF assms(1) less_imp_le [OF assms(2)]] and c = chunk_in_buf [OF assms(1,2)]
  show "vector_ok v'" using assms(1,3) o c vector_okD(1,2) [OF assms(1)]
    by (simp add: v'_def vector_ok_def distrib_left)
  show "chunk (unat (size_elem v)) (buf v') j =
          (if j = unat i then e else chunk (unat (size_elem v)) (buf v) j)"
    using chunk_put_at [OF assms(3) c] unfolding buf_def [of v'] by (simp add: v'_def o)
qed

lemma bh_vector_set_elems:
  assumes "vector_ok v" "length e = unat (size_elem v)" "i < num_elems v"
  shows "\<exists>v'. bh_vector_set (Some v) i (Some e) = (Some v', True) \<and> vector_ok v'
    \<and> elems v' = (elems v)[unat i := e] \<and> size_elem v' = size_elem v"
proof -
  have m: "i < max_elems v" using assms(1,3) by (auto simp: vector_ok_def)
  note p = put_elem [OF assms(1) m assms(2)]
  let ?v = "v\<lparr>data_buf := Some (put_at (buf v) (unat (size_elem v * i)) e)\<rparr>"
  have "elems ?v = (elems v)[unat i := e]"
    by (rule nth_equalityI) (auto simp: elems_def p(2) nth_list_update)
  then show ?thesis using p(1) assms(2,3) by (simp add: bh_vector_set_def not_le)
qed

lemma bh_vector_get_elems:
  assumes "vector_ok v"
  shows "bh_vector_get (Some v) i True = (if i < num_elems v then Some (elems v ! unat i) else None)"
proof (cases "i < num_elems v")
  case True
  then have "unat (size_elem v * i) = unat (size_elem v) * unat i"
    using assms by (intro offset_nat) (auto simp: vector_ok_def)
  then show ?thesis using True
    by (simp add: bh_vector_get_def not_le nth_elems chunk_def word_less_nat_alt)
qed (simp add: bh_vector_get_def)

lemma bh_vector_append_elems:
  assumes "vector_ok v" "length e = unat (size_elem v)" "num_elems v \<noteq> -1"
  shows "case bh_vector_append av (Some v) (Some e) of
           (Some v', True) \<Rightarrow> vector_ok v' \<and> elems v' = elems v @ [e] \<and> size_elem v' = size_elem v
         | (Some v', False) \<Rightarrow> v' = v \<and> extend_vector av v (num_elems v + 1) = None
         | _ \<Rightarrow> False"
proof (cases "extend_vector av v (num_elems v + 1)")
  case None
  then show ?thesis by (simp add: bh_vector_append_def)
next
  case (Some w)
  note w = extend_vector_ok [OF assms(1) Some]
  have n: "unat (num_elems v + 1) = unat (num_elems v) + 1"
    using assms(3) by (metis add.commute eq_neg_iff_add_eq_0 unatSuc Suc_eq_plus1)
  then have m: "num_elems w < max_elems w" using w by (simp add: word_less_nat_alt word_le_nat_alt)
  have len: "length e = unat (size_elem w)" using assms(2) w by simp
  let ?d = "put_at (buf w) (unat (size_elem w * num_elems w)) e"
  let ?w = "w\<lparr>data_buf := Some ?d, num_elems := num_elems w + 1\<rparr>"
  note p = put_elem [OF conjunct1 [OF w] m len]
  have "elems ?w = map (chunk (unat (size_elem w)) ?d) [0..<unat (num_elems w)] @ [e]"
    using p(2) n w by (simp add: elems_def buf_def)
  also have "map (chunk (unat (size_elem w)) ?d) [0..<unat (num_elems w)] = elems w"
    using p(2) by (simp add: elems_def buf_def)
  finally have "elems ?w = elems v @ [e]" using w by simp
  moreover have "vector_ok ?w"
    using p(1) m n w by (auto simp: vector_ok_def word_less_nat_alt word_le_nat_alt)
  ultimately show ?thesis using Some w assms(2) by (simp add: bh_vector_append_def)
qed


lemma chunks_of_elems:
  assumes "n = unat (num_elems v)" "s = unat (size_elem v)"
  shows "map (chunk s (buf v)) [0..<n] = elems v"
  by (simp add: elems_def assms)

text \<open>What is inserted at index \<open>i\<close> ends up behind the element at \<open>i\<close>.\<close>

lemma bh_vector_insert_elems:
  assumes "vector_ok v" "length e = unat (size_elem v)" "i < num_elems v" "num_elems v \<noteq> -1"
  shows "case bh_vector_insert av (Some v) i (Some e) of
           (Some v', True) \<Rightarrow> vector_ok v' \<and> size_elem v' = size_elem v
             \<and> elems v' = take (unat i + 1) (elems v) @ e # drop (unat i + 1) (elems v)
         | (Some v', False) \<Rightarrow> v' = v \<and> extend_vector av v (num_elems v + 1) = None
         | _ \<Rightarrow> False"
proof (cases "extend_vector av v (num_elems v + 1)")
  case None
  then show ?thesis using assms(3) by (simp add: bh_vector_insert_def not_le)
next
  case (Some w)
  note w = extend_vector_ok [OF assms(1) Some]
  let ?s = "unat (size_elem w)" and ?n = "unat (num_elems w)" and ?i = "unat i"
  have n: "unat (num_elems v + 1) = unat (num_elems v) + 1"
    using assms(4) by (metis add.commute eq_neg_iff_add_eq_0 unatSuc Suc_eq_plus1)
  then have m: "num_elems w < max_elems w" using w by (simp add: word_less_nat_alt word_le_nat_alt)
  have len: "length e = ?s" and i: "?i < ?n" and s: "0 < ?s"
    using assms(2,3) w vector_okD(4) [of w] by (auto simp: word_less_nat_alt)
  have n1: "unat (num_elems w - 1) = ?n - 1" using i by (intro unat_minus_one) auto
  have p: "unat (size_elem w * num_elems w) = ?s * (?n - 1 + 1)"
    using offset_nat [of w "num_elems w"] w m i by simp
  have c: "?s * (?n + 1) \<le> length (buf w)" using chunk_in_buf m w by blast
  have "?i \<le> ?n - 1" "?s * (?n - 1 + 2) \<le> length (buf w)" using c i by auto
  from insert_loop_spec [OF this s] obtain d where
    d: "insert_loop ?s (buf w) (?s * (?n - 1 + 1)) (?n - 1) ?i = (d, ?s * (?i + 1))"
      "length d = length (buf w)"
      "\<And>j. chunk ?s d j = (if ?i + 1 < j \<and> j \<le> ?n then chunk ?s (buf w) (j - 1) else chunk ?s (buf w) j)"
    using i by auto
  let ?w = "w\<lparr>data_buf := Some (put_at d (?s * (?i + 1)) e), num_elems := num_elems w + 1\<rparr>"
  have res: "bh_vector_insert av (Some v) i (Some e) = (Some ?w, True)"
    using assms(2,3) Some w p n1 d(1) len by (simp add: bh_vector_insert_def not_le)
  have "?s * (?i + 1 + 1) \<le> ?s * (?n + 1)" using i by (intro mult_le_mono2) simp
  then have fit: "?s * (?i + 1 + 1) \<le> length d" using c d(2) by linarith
  have "elems ?w = take (?i + 1) (elems w) @ e # drop (?i + 1) (elems w)"
  proof (rule nth_equalityI)
    show "length (elems ?w) = length (take (?i + 1) (elems w) @ e # drop (?i + 1) (elems w))"
      using n w i by simp
    fix j assume "j < length (elems ?w)"
    then have j: "j < ?n + 1" using n w by simp
    have "elems ?w ! j = chunk ?s (put_at d (?s * (?i + 1)) e) j"
      using j n w by (simp add: nth_elems buf_def)
    also have "\<dots> = (if j = ?i + 1 then e else if ?i + 1 < j then chunk ?s (buf w) (j - 1) else chunk ?s (buf w) j)"
      unfolding chunk_put_at [OF len fit] d(3) using j by auto
    also have "\<dots> = (take (?i + 1) (elems w) @ e # drop (?i + 1) (elems w)) ! j"
    proof (cases "?i + 1 < j")
      case True
      then obtain k where "j = Suc (?i + 1 + k)" using less_imp_Suc_add by blast
      then show ?thesis using i j by (simp add: nth_append nth_elems)
    next
      case False
      then show ?thesis using i j by (cases "j = ?i + 1") (simp_all add: nth_append nth_elems)
    qed
    finally show "elems ?w ! j = (take (?i + 1) (elems w) @ e # drop (?i + 1) (elems w)) ! j" .
  qed
  moreover have "vector_ok ?w"
    using w m n d(2) fit len vector_okD(1,2) [of w]
    by (auto simp: vector_ok_def word_less_nat_alt word_le_nat_alt distrib_left)
  ultimately show ?thesis using res w by simp
qed

lemma bh_vector_remove_elems:
  assumes "vector_ok v" "i < num_elems v"
  shows "\<exists>v'. bh_vector_remove (Some v) i True = (Some v', True, Some (elems v ! unat i))
    \<and> vector_ok v' \<and> elems v' = take (unat i) (elems v) @ drop (unat i + 1) (elems v)
    \<and> size_elem v' = size_elem v"
proof -
  let ?s = "unat (size_elem v)" and ?n = "unat (num_elems v)" and ?i = "unat i"
  note ok = vector_okD [OF assms(1)]
  have i: "?i < ?n" using assms(2) by (simp add: word_less_nat_alt)
  have n1: "unat (num_elems v - 1) = ?n - 1" using i by (intro unat_minus_one) auto
  have p: "unat (size_elem v * i) = ?s * ?i"
    using assms by (intro offset_nat) (auto simp: vector_ok_def)
  have "?s * (?n - 1 + 1) \<le> ?s * unat (max_elems v)" using i ok(3) by (intro mult_le_mono2) simp
  then have c: "?s * (?n - 1 + 1) \<le> length (buf v)" using ok(1) by simp
  define d where "d = remove_elem_loop ?s (buf v) (?s * ?i) ?i (?n - 1)"
  have d: "length d = length (buf v)"
      "\<And>j. chunk ?s d j = (if ?i \<le> j \<and> j < ?n - 1 then chunk ?s (buf v) (j + 1) else chunk ?s (buf v) j)"
    unfolding d_def using remove_elem_loop_spec [of ?i "?n - 1" ?s "buf v"] c i by auto
  let ?w = "v\<lparr>data_buf := Some d, num_elems := num_elems v - 1\<rparr>"
  have "elems ?w = take ?i (elems v) @ drop (?i + 1) (elems v)"
  proof (rule nth_equalityI)
    show "length (elems ?w) = length (take ?i (elems v) @ drop (?i + 1) (elems v))"
      using n1 i by simp
    fix j assume "j < length (elems ?w)"
    then have j: "j < ?n - 1" using n1 by simp
    have "elems ?w ! j = chunk ?s d j" using j n1 by (simp add: nth_elems buf_def)
    also have "\<dots> = (take ?i (elems v) @ drop (?i + 1) (elems v)) ! j"
      unfolding d(2) using i j by (auto simp: nth_append nth_elems not_less)
    finally show "elems ?w ! j = (take ?i (elems v) @ drop (?i + 1) (elems v)) ! j" .
  qed
  moreover have "vector_ok ?w"
    using assms d(1) ok n1 i by (auto simp: vector_ok_def word_less_nat_alt word_le_nat_alt)
  moreover have "take ?s (drop (?s * ?i) (buf v)) = elems v ! ?i" using i by (simp add: nth_elems chunk_def)
  ultimately show ?thesis using assms(2) by (simp add: bh_vector_remove_def not_le p n1 d_def)
qed

lemma bh_vector_init_ok:
  assumes "bh_vector_init av msz mok vec n sz lk = (Some v, True)" "0 < sz"
  shows "vector_ok v \<and> elems v = [] \<and> size_elem v = sz \<and> num_elems v = 0 \<and> vlock v = lk"
  using assms
  by (auto simp: bh_vector_init_def bh_vector_destroy_def vector_ok_def elems_def Let_def
      dest: alloc_vector_data_length split: option.splits if_splits)

section \<open>What the users of the vector rely on\<close>

text \<open>\<open>ok\<close> is the invariant, \<open>cont\<close> the contents, \<open>fits\<close> that an element has the size of the
  vector's elements, \<open>room\<close> that the count does not wrap.\<close>

locale growable_seq =
  fixes ok :: "'v \<Rightarrow> bool" and cont :: "'v \<Rightarrow> 'e list" and fits :: "'v \<Rightarrow> 'e \<Rightarrow> bool"
    and room :: "'v \<Rightarrow> bool"
    and app :: "'v option \<Rightarrow> 'e option \<Rightarrow> 'v option \<times> bool"
    and get :: "'v option \<Rightarrow> u32 \<Rightarrow> bool \<Rightarrow> 'e option"
  assumes app_ok: "ok v \<Longrightarrow> fits v e \<Longrightarrow> room v \<Longrightarrow> app (Some v) (Some e) = (w, True) \<Longrightarrow>
      \<exists>v'. w = Some v' \<and> ok v' \<and> cont v' = cont v @ [e] \<and> fits v' = fits v"
    and get_ok: "ok v \<Longrightarrow> get (Some v) i True = (if unat i < length (cont v) then Some (cont v ! unat i) else None)"
    and room_ok: "ok v \<Longrightarrow> length (cont v) < 2 ^ 32 - 1 \<Longrightarrow> room v"
begin

text \<open>Append all of \<open>es\<close>, stopping at the first failure.\<close>

primrec app_all :: "'v \<Rightarrow> 'e list \<Rightarrow> 'v option" where
  "app_all v [] = Some v"
| "app_all v (e # es) =
     (case app (Some v) (Some e) of (Some v', True) \<Rightarrow> app_all v' es | _ \<Rightarrow> None)"

lemma app_all_cont:
  assumes "ok v" "\<And>e. e \<in> set es \<Longrightarrow> fits v e" "length (cont v) + length es < 2 ^ 32"
    "app_all v es = Some v'"
  shows "ok v' \<and> cont v' = cont v @ es"
  using assms
proof (induction es arbitrary: v)
  case (Cons e es)
  from Cons.prems(4) obtain w where
    app: "app (Some v) (Some e) = (Some w, True)" and rest: "app_all w es = Some v'"
    by (auto split: prod.splits option.splits bool.splits)
  have "room v" using Cons.prems(1,3) by (intro room_ok) auto
  from app_ok [OF Cons.prems(1) Cons.prems(2) this app]
  have w: "ok w" "cont w = cont v @ [e]" "fits w = fits v" by auto
  have "\<And>e. e \<in> set es \<Longrightarrow> fits w e" using Cons.prems(2) w(3) by simp
  from Cons.IH [OF w(1) this _ rest] show ?case using w(2) Cons.prems(3) by simp
qed simp

lemma get_app_all:
  assumes "ok v" "\<And>e. e \<in> set es \<Longrightarrow> fits v e" "length (cont v) + length es < 2 ^ 32"
    "app_all v es = Some v'" "k < length es"
  shows "get (Some v') (of_nat (length (cont v) + k)) True = Some (es ! k)"
  using app_all_cont [OF assms(1-4)] assms(3,5)
  by (simp add: get_ok unat_of_nat take_bit_nat_eq_self nth_append flip: of_nat_add)

end

interpretation bv: growable_seq vector_ok elems "\<lambda>v e. length e = unat (size_elem v)"
  "\<lambda>v. num_elems v \<noteq> -1" "bh_vector_append av" bh_vector_get for av
proof unfold_locales
  fix v e w
  assume *: "vector_ok v" "length e = unat (size_elem v)" "num_elems v \<noteq> -1"
    "bh_vector_append av (Some v) (Some e) = (w, True)"
  show "\<exists>v'. w = Some v' \<and> vector_ok v' \<and> elems v' = elems v @ [e]
      \<and> (\<lambda>e :: u8 list. length e = unat (size_elem v')) = (\<lambda>e. length e = unat (size_elem v))"
    using bh_vector_append_elems [OF *(1-3), of av] *(4) by (auto split: option.splits)
next
  fix v i
  assume "vector_ok v"
  then show "bh_vector_get (Some v) i True = (if unat i < length (elems v) then Some (elems v ! unat i) else None)"
    by (simp add: bh_vector_get_elems word_less_nat_alt)
next
  fix v
  have "unat (-1 :: u32) = 2 ^ 32 - 1" by (simp add: unsigned_minus_1_eq_mask mask_eq_exp_minus_1)
  moreover assume "length (elems v) < 2 ^ 32 - 1"
  ultimately show "num_elems v \<noteq> -1" by (metis length_elems less_irrefl)
qed

section \<open>The vector as a whole\<close>

text \<open>C25: A vector that satisfies its invariant refines a list of elements of one size: setting
  replaces, reading gives the element or fails out of range, appending adds at the end or fails
  with the vector unchanged when the buffer cannot be extended, and removing closes the gap and
  hands out the old element. Inserting at an index puts the new element behind the element that is
  there, not in its place. All of them keep the invariant.\<close>
theorem bh_vector_refines_list:
  assumes "vector_ok v" "length e = unat (size_elem v)" "num_elems v \<noteq> -1"
  shows "(\<forall>i < num_elems v. \<exists>v'. bh_vector_set (Some v) i (Some e) = (Some v', True) \<and> vector_ok v'
        \<and> elems v' = (elems v)[unat i := e])
    \<and> (\<forall>i. bh_vector_get (Some v) i True = (if i < num_elems v then Some (elems v ! unat i) else None))
    \<and> (case bh_vector_append av (Some v) (Some e) of
          (Some v', True) \<Rightarrow> vector_ok v' \<and> elems v' = elems v @ [e]
        | (Some v', False) \<Rightarrow> v' = v \<and> extend_vector av v (num_elems v + 1) = None
        | _ \<Rightarrow> False)
    \<and> (\<forall>i < num_elems v. \<exists>v'. bh_vector_remove (Some v) i True = (Some v', True, Some (elems v ! unat i))
        \<and> vector_ok v' \<and> elems v' = take (unat i) (elems v) @ drop (unat i + 1) (elems v))
    \<and> (\<forall>i < num_elems v. case bh_vector_insert av (Some v) i (Some e) of
          (Some v', True) \<Rightarrow> vector_ok v'
            \<and> elems v' = take (unat i + 1) (elems v) @ e # drop (unat i + 1) (elems v)
        | (Some v', False) \<Rightarrow> v' = v \<and> extend_vector av v (num_elems v + 1) = None
        | _ \<Rightarrow> False)"
proof (intro conjI allI impI)
  fix i assume i: "i < num_elems v"
  show "\<exists>v'. bh_vector_set (Some v) i (Some e) = (Some v', True) \<and> vector_ok v' \<and> elems v' = (elems v)[unat i := e]"
    using bh_vector_set_elems [OF assms(1,2) i] by blast
  show "\<exists>v'. bh_vector_remove (Some v) i True = (Some v', True, Some (elems v ! unat i))
      \<and> vector_ok v' \<and> elems v' = take (unat i) (elems v) @ drop (unat i + 1) (elems v)"
    using bh_vector_remove_elems [OF assms(1) i] by blast
  show "case bh_vector_insert av (Some v) i (Some e) of
      (Some v', True) \<Rightarrow> vector_ok v' \<and> elems v' = take (unat i + 1) (elems v) @ e # drop (unat i + 1) (elems v)
    | (Some v', False) \<Rightarrow> v' = v \<and> extend_vector av v (num_elems v + 1) = None
    | _ \<Rightarrow> False"
    using bh_vector_insert_elems [OF assms(1,2) i assms(3), of av]
    by (auto split: prod.splits option.splits bool.splits)
next
  show "case bh_vector_append av (Some v) (Some e) of
      (Some v', True) \<Rightarrow> vector_ok v' \<and> elems v' = elems v @ [e]
    | (Some v', False) \<Rightarrow> v' = v \<and> extend_vector av v (num_elems v + 1) = None
    | _ \<Rightarrow> False"
    using bh_vector_append_elems [OF assms, of av] by (auto split: prod.splits option.splits bool.splits)
qed (rule bh_vector_get_elems [OF assms(1)])

lemma bh_vector_refines_list_witness:
  "bh_vector_get (fst (bh_vector_append (\<lambda>_. True)
      (Some \<lparr>max_elems = 1, data_buf = Some [1, 2], num_elems = 1, size_elem = 2, vlock = False\<rparr>)
      (Some [3, 4]))) 1 True = Some [3, 4]
   \<and> bh_vector_get (Some \<lparr>max_elems = 1, data_buf = Some [1, 2], num_elems = 1, size_elem = 2, vlock = False\<rparr>) 0 True
      = Some [1, 2]"
proof -
  let ?v = "\<lparr>max_elems = 1, data_buf = Some [1, 2], num_elems = 1, size_elem = 2, vlock = False\<rparr>"
  have ok: "vector_ok ?v" "length [3, 4 :: u8] = unat (size_elem ?v)" "num_elems ?v \<noteq> -1"
    by (simp_all add: vector_ok_def)
  have "bh_vector_get (Some ?v) 0 True = Some [1, 2]"
    using bh_vector_refines_list [OF ok] by (auto simp: elems_def chunk_def buf_def)
  moreover have "bh_vector_get (fst (bh_vector_append (\<lambda>_. True) (Some ?v) (Some [3, 4]))) 1 True = Some [3, 4]"
    by code_simp
  ultimately show ?thesis by simp
qed

end
