(* ===== verification/Bh_Hashmap.thy ===== *)
theory Bh_Hashmap
  imports Prelude
begin

text \<open>
  The hash map of the runtime (\<^verbatim>\<open>core/shared/utils/bh_hashmap.c\<close>): an array of chains. The nodes of a
  chain belong to the map alone, so a chain is a list of pairs of a key and a value. Keys and
  values are pointers: a key argument that may be NULL is an option, and a value is an option
  whose \<open>None\<close> is NULL, which \<open>bh_hash_map_find\<close> does not distinguish from a missing key. The
  functions given at creation are fields of the record, as in the code; \<open>bh_hash_map_destroy\<close> and
  \<open>bh_hash_map_traverse\<close> give the calls they make. Locking does not change the map and is left out.

  The locale \<open>key_map\<close> is the contract that the users rely on.
\<close>

section \<open>The operations\<close>

record ('k, 'v) HashMap =
  map_size :: u32
  map_lock :: bool
  hash_func :: "'k \<Rightarrow> u32"
  key_equal_func :: "'k \<Rightarrow> 'k \<Rightarrow> bool"
  key_destroy_func :: bool
  value_destroy_func :: bool
  elements :: "('k \<times> 'v option) list list"

definition HASH_MAP_MIN_SIZE :: u32 where "HASH_MAP_MIN_SIZE = 4"
definition HASH_MAP_MAX_SIZE :: u32 where "HASH_MAP_MAX_SIZE = 65536"

text \<open>The \<open>elements\<close> start at offset 24 of the structure; a pointer has 4 bytes. \<open>hash\<close> and \<open>equal\<close> are
  \<open>None\<close> for NULL; \<open>msz\<close> and \<open>mok\<close> are the size of a mutex and the success of its initialisation.\<close>

definition bh_hash_map_create ::
  "(u32 \<Rightarrow> bool) \<Rightarrow> u32 \<Rightarrow> bool \<Rightarrow> u32 \<Rightarrow> bool \<Rightarrow> ('k \<Rightarrow> u32) option \<Rightarrow> ('k \<Rightarrow> 'k \<Rightarrow> bool) option
    \<Rightarrow> bool \<Rightarrow> bool \<Rightarrow> ('k, 'v) HashMap option" where
  "bh_hash_map_create av msz mok sz use_lock hash equal kd vd =
     (let sz = (if sz < HASH_MAP_MIN_SIZE then HASH_MAP_MIN_SIZE else sz)
      in if sz > HASH_MAP_MAX_SIZE then None
         else case (hash, equal) of
           (Some hash, Some equal) \<Rightarrow>
             let total_size = (24 :: u64) + 4 * ucast sz + (if use_lock then ucast msz else 0)
             in if \<not> av (ucast total_size) then None
                else if use_lock \<and> \<not> mok then None
                else Some \<lparr>map_size = sz, map_lock = use_lock, hash_func = hash, key_equal_func = equal,
                           key_destroy_func = kd, value_destroy_func = vd,
                           elements = replicate (unat sz) []\<rparr>
         | _ \<Rightarrow> None)"

definition slot :: "('k, 'v) HashMap \<Rightarrow> 'k \<Rightarrow> nat" where
  "slot m key = unat (hash_func m key mod map_size m)"

text \<open>The loops over a chain.\<close>

primrec chain_find :: "('k \<Rightarrow> 'k \<Rightarrow> bool) \<Rightarrow> 'k \<Rightarrow> ('k \<times> 'v) list \<Rightarrow> ('k \<times> 'v) option" where
  "chain_find eq key [] = None"
| "chain_find eq key (e # es) = (if eq (fst e) key then Some e else chain_find eq key es)"

primrec chain_update :: "('k \<Rightarrow> 'k \<Rightarrow> bool) \<Rightarrow> 'k \<Rightarrow> 'v \<Rightarrow> ('k \<times> 'v) list \<Rightarrow> ('k \<times> 'v) list" where
  "chain_update eq key v [] = []"
| "chain_update eq key v (e # es) =
     (if eq (fst e) key then (fst e, v) # es else e # chain_update eq key v es)"

primrec chain_unlink :: "('k \<Rightarrow> 'k \<Rightarrow> bool) \<Rightarrow> 'k \<Rightarrow> ('k \<times> 'v) list \<Rightarrow> ('k \<times> 'v) list" where
  "chain_unlink eq key [] = []"
| "chain_unlink eq key (e # es) = (if eq (fst e) key then es else e # chain_unlink eq key es)"

definition bh_hash_map_insert ::
  "bool \<Rightarrow> ('k, 'v) HashMap option \<Rightarrow> 'k option \<Rightarrow> 'v option \<Rightarrow> ('k, 'v) HashMap option \<times> bool" where
  "bh_hash_map_insert av hmap key value =
     (case (hmap, key) of
        (Some m, Some k) \<Rightarrow>
          let index = slot m k; chain = elements m ! index
          in if chain_find (key_equal_func m) k chain \<noteq> None then (hmap, False)
             else if \<not> av then (hmap, False)
             else (Some (m\<lparr>elements := (elements m)[index := (k, value) # chain]\<rparr>), True)
      | _ \<Rightarrow> (hmap, False))"

definition bh_hash_map_find :: "('k, 'v) HashMap option \<Rightarrow> 'k option \<Rightarrow> 'v option" where
  "bh_hash_map_find hmap key =
     (case (hmap, key) of
        (Some m, Some k) \<Rightarrow>
          (case chain_find (key_equal_func m) k (elements m ! slot m k) of
             Some (_, value) \<Rightarrow> value | None \<Rightarrow> None)
      | _ \<Rightarrow> None)"

text \<open>The third result is what is stored to \<open>p_old_value\<close>, if that is not NULL.\<close>

definition bh_hash_map_update ::
  "('k, 'v) HashMap option \<Rightarrow> 'k option \<Rightarrow> 'v option \<Rightarrow> bool
    \<Rightarrow> ('k, 'v) HashMap option \<times> bool \<times> 'v option option" where
  "bh_hash_map_update hmap key value out =
     (case (hmap, key) of
        (Some m, Some k) \<Rightarrow>
          let index = slot m k; chain = elements m ! index
          in (case chain_find (key_equal_func m) k chain of
                Some (_, old) \<Rightarrow>
                  (Some (m\<lparr>elements := (elements m)[index := chain_update (key_equal_func m) k value chain]\<rparr>),
                   True, if out then Some old else None)
              | None \<Rightarrow> (hmap, False, None))
      | _ \<Rightarrow> (hmap, False, None))"

definition bh_hash_map_remove ::
  "('k, 'v) HashMap option \<Rightarrow> 'k option \<Rightarrow> bool \<Rightarrow> bool
    \<Rightarrow> ('k, 'v) HashMap option \<times> bool \<times> 'k option \<times> 'v option option" where
  "bh_hash_map_remove hmap key out_key out_value =
     (case (hmap, key) of
        (Some m, Some k) \<Rightarrow>
          let index = slot m k; chain = elements m ! index
          in (case chain_find (key_equal_func m) k chain of
                Some (old_key, old) \<Rightarrow>
                  (Some (m\<lparr>elements := (elements m)[index := chain_unlink (key_equal_func m) k chain]\<rparr>),
                   True, if out_key then Some old_key else None, if out_value then Some old else None)
              | None \<Rightarrow> (hmap, False, None, None))
      | _ \<Rightarrow> (hmap, False, None, None))"

datatype ('k, 'v) destroy_call = Destroy_Key 'k | Destroy_Value "'v option" | Free_Elem 'k

definition bh_hash_map_destroy :: "('k, 'v) HashMap option \<Rightarrow> ('k, 'v) destroy_call list \<times> bool" where
  "bh_hash_map_destroy hmap =
     (case hmap of None \<Rightarrow> ([], False)
      | Some m \<Rightarrow>
         (concat (map (\<lambda>(k, v). (if key_destroy_func m then [Destroy_Key k] else [])
                        @ (if value_destroy_func m then [Destroy_Value v] else []) @ [Free_Elem k])
            (concat (elements m))), True))"

definition bh_hash_map_traverse :: "('k, 'v) HashMap option \<Rightarrow> bool \<Rightarrow> ('k \<times> 'v option) list \<times> bool" where
  "bh_hash_map_traverse hmap callback =
     (case hmap of None \<Rightarrow> ([], False)
      | Some m \<Rightarrow> if \<not> callback then ([], False) else (concat (elements m), True))"

definition bh_hash_map_get_struct_size :: "u32 \<Rightarrow> ('k, 'v) HashMap \<Rightarrow> u32" where
  "bh_hash_map_get_struct_size msz m = (24 + 4 * map_size m) + (if map_lock m then msz else 0)"

section \<open>Chains\<close>

text \<open>What a key comparison has to be for the map to be one.\<close>

definition keys_ok :: "('k \<Rightarrow> u32) \<Rightarrow> ('k \<Rightarrow> 'k \<Rightarrow> bool) \<Rightarrow> bool" where
  "keys_ok hash eq \<longleftrightarrow> (\<forall>k. eq k k) \<and> (\<forall>k l. eq k l \<longrightarrow> eq l k)
     \<and> (\<forall>k l n. eq k l \<longrightarrow> eq l n \<longrightarrow> eq k n) \<and> (\<forall>k l. eq k l \<longrightarrow> hash k = hash l)"

definition lookup :: "('k \<Rightarrow> 'k \<Rightarrow> bool) \<Rightarrow> ('k \<times> 'v) list \<Rightarrow> 'k \<Rightarrow> 'v option" where
  "lookup eq es k = map_option snd (chain_find eq k es)"

definition unique_keys :: "('k \<Rightarrow> 'k \<Rightarrow> bool) \<Rightarrow> ('k \<times> 'v) list \<Rightarrow> bool" where
  "unique_keys eq es \<longleftrightarrow> sorted_wrt (\<lambda>e f. \<not> eq (fst e) (fst f)) es"

lemma lookup_simps [simp]:
  "lookup eq [] k = None"
  "lookup eq (e # es) k = (if eq (fst e) k then Some (snd e) else lookup eq es k)"
  by (auto simp: lookup_def)

lemma chain_find_SomeD: "chain_find eq k es = Some e \<Longrightarrow> e \<in> set es \<and> eq (fst e) k"
  by (induction es) (auto split: if_splits)

lemma chain_find_None: "chain_find eq k es = None \<longleftrightarrow> (\<forall>e \<in> set es. \<not> eq (fst e) k)"
  by (induction es) auto

lemma lookup_None: "lookup eq es k = None \<longleftrightarrow> (\<forall>e \<in> set es. \<not> eq (fst e) k)"
  by (simp add: lookup_def chain_find_None)

lemma keys_okD:
  assumes "keys_ok h eq"
  shows "eq k k" "eq k l \<Longrightarrow> eq l k" "eq k l \<Longrightarrow> eq n k = eq n l" "eq k l \<Longrightarrow> eq k n = eq l n"
    "eq k l \<Longrightarrow> h k = h l"
  using assms unfolding keys_ok_def by blast+

lemma lookup_eq: "keys_ok h eq \<Longrightarrow> eq k l \<Longrightarrow> lookup eq es k = lookup eq es l"
  using keys_okD(3) [of h eq k l] by (induction es) auto

lemma keys_chain_update: "map fst (chain_update eq k v es) = map fst es"
  by (induction es) auto

lemma unique_keys_map: "unique_keys eq es = sorted_wrt (\<lambda>k l. \<not> eq k l) (map fst es)"
  by (simp add: unique_keys_def sorted_wrt_map)

lemma unique_keys_update: "unique_keys eq (chain_update eq k v es) = unique_keys eq es"
  by (simp add: unique_keys_map keys_chain_update)

lemma lookup_chain_update:
  assumes "keys_ok h eq"
  shows "lookup eq (chain_update eq k v es) l =
     (if eq k l \<and> lookup eq es k \<noteq> None then Some v else lookup eq es l)"
proof (induction es)
  case (Cons e es)
  show ?case
  proof (cases "eq (fst e) k")
    case True
    then show ?thesis using keys_okD(4) [OF assms True, of l] by simp
  next
    case False
    then have "eq k l \<Longrightarrow> \<not> eq (fst e) l" using keys_okD(3) [OF assms] by blast
    then show ?thesis using Cons False lookup_eq [OF assms, of k l es]
      by (cases "eq k l"; cases "lookup eq es l") auto
  qed
qed simp

lemma set_chain_unlink: "set (chain_unlink eq k es) \<subseteq> set es"
  by (induction es) auto

lemma unique_keys_unlink: "unique_keys eq es \<Longrightarrow> unique_keys eq (chain_unlink eq k es)"
  unfolding unique_keys_def by (induction es) (use set_chain_unlink in fastforce)+

lemma lookup_chain_unlink:
  assumes "keys_ok h eq" "unique_keys eq es"
  shows "lookup eq (chain_unlink eq k es) l = (if eq k l then None else lookup eq es l)"
  using assms(2)
proof (induction es)
  case (Cons e es)
  then have u: "unique_keys eq es" "\<And>f. f \<in> set es \<Longrightarrow> \<not> eq (fst e) (fst f)"
    by (auto simp: unique_keys_def)
  show ?case
  proof (cases "eq (fst e) k")
    case True
    have "lookup eq es l = None" if "eq (fst e) l"
    proof (unfold lookup_None, rule ballI, rule notI)
      fix f assume f: "f \<in> set es" "eq (fst f) l"
      then have "eq (fst e) (fst f)" using that keys_okD(2,4) [OF assms(1)] by blast
      then show False using u(2) f(1) by blast
    qed
    then show ?thesis using True keys_okD(4) [OF assms(1) True, of l] by auto
  next
    case False
    then have "eq k l \<Longrightarrow> \<not> eq (fst e) l" using keys_okD(3) [OF assms(1)] by blast
    then show ?thesis using Cons.IH [OF u(1)] False by auto
  qed
qed simp

section \<open>The map as a whole\<close>

definition map_ok :: "('k, 'v) HashMap \<Rightarrow> bool" where
  "map_ok m \<longleftrightarrow> keys_ok (hash_func m) (key_equal_func m) \<and> 0 < map_size m
     \<and> length (elements m) = unat (map_size m)
     \<and> (\<forall>i < length (elements m). unique_keys (key_equal_func m) (elements m ! i)
          \<and> (\<forall>e \<in> set (elements m ! i). slot m (fst e) = i))"

text \<open>The map that is represented: a value for each key that is there, \<open>None\<close> being a NULL value.\<close>

definition the_map :: "('k, 'v) HashMap \<Rightarrow> 'k \<Rightarrow> 'v option option" where
  "the_map m k = lookup (key_equal_func m) (elements m ! slot m k) k"

lemma slot_less: "map_ok m \<Longrightarrow> slot m k < length (elements m)"
  unfolding map_ok_def slot_def by (metis unat_mono word_mod_less_divisor)

lemma slot_eq: "map_ok m \<Longrightarrow> key_equal_func m k l \<Longrightarrow> slot m k = slot m l"
  unfolding map_ok_def slot_def by (metis keys_okD(5))

lemma the_map_eq: "map_ok m \<Longrightarrow> key_equal_func m k l \<Longrightarrow> the_map m k = the_map m l"
  unfolding the_map_def using slot_eq lookup_eq [of "hash_func m"] by (metis map_ok_def)

lemma map_ok_put:
  assumes "map_ok m" "unique_keys (key_equal_func m) es"
    "\<And>e. e \<in> set es \<Longrightarrow> slot m (fst e) = slot m k"
  shows "map_ok (m\<lparr>elements := (elements m)[slot m k := es]\<rparr>)"
  using assms slot_less [OF assms(1), of k]
  by (simp add: map_ok_def slot_def [of "m\<lparr>elements := x\<rparr>" for x] nth_list_update flip: slot_def [of m])

lemma the_map_put:
  assumes "map_ok m"
  shows "the_map (m\<lparr>elements := (elements m)[slot m k := es]\<rparr>) l =
    (if slot m l = slot m k then lookup (key_equal_func m) es l else the_map m l)"
  using slot_less [OF assms] by (simp add: the_map_def slot_def nth_list_update)

lemma chain_of:
  assumes "map_ok m"
  shows "unique_keys (key_equal_func m) (elements m ! slot m k)"
    "e \<in> set (elements m ! slot m k) \<Longrightarrow> slot m (fst e) = slot m k"
    "keys_ok (hash_func m) (key_equal_func m)"
  using assms slot_less [OF assms, of k] by (auto simp: map_ok_def)

lemma find_the_map:
  "bh_hash_map_find (Some m) (Some k) = (case the_map m k of Some v \<Rightarrow> v | None \<Rightarrow> None)"
  by (auto simp: bh_hash_map_find_def the_map_def lookup_def split: option.splits)

lemma insert_the_map:
  assumes "map_ok m"
  shows "\<exists>m'. bh_hash_map_insert av (Some m) (Some k) v = (Some m', the_map m k = None \<and> av)
    \<and> map_ok m' \<and> key_equal_func m' = key_equal_func m
    \<and> (\<forall>l. the_map m' l = (if the_map m k = None \<and> av \<and> key_equal_func m k l then Some v else the_map m l))"
proof (cases "the_map m k = None \<and> av")
  case False
  then show ?thesis using assms
    by (auto simp: bh_hash_map_insert_def the_map_def lookup_def Let_def)
next
  case True
  let ?c = "elements m ! slot m k" and ?eq = "key_equal_func m"
  note c = chain_of [OF assms]
  from True have none: "\<forall>e \<in> set ?c. \<not> ?eq (fst e) k" by (simp add: the_map_def lookup_None)
  then have "\<forall>e \<in> set ?c. \<not> ?eq k (fst e)" using keys_okD(2) [OF c(3)] by blast
  then have "unique_keys ?eq ((k, v) # ?c)" using c(1) by (simp add: unique_keys_def)
  then have ok: "map_ok (m\<lparr>elements := (elements m)[slot m k := (k, v) # ?c]\<rparr>)"
    using c(2) by (intro map_ok_put [OF assms]) auto
  have "the_map (m\<lparr>elements := (elements m)[slot m k := (k, v) # ?c]\<rparr>) l =
      (if ?eq k l then Some v else the_map m l)" for l
    using slot_eq [OF assms, of k l] by (auto simp: the_map_put [OF assms]) (auto simp: the_map_def)
  then show ?thesis using True ok none
    by (auto simp: bh_hash_map_insert_def the_map_def lookup_def Let_def)
qed

lemma update_the_map:
  assumes "map_ok m"
  shows "\<exists>m'. bh_hash_map_update (Some m) (Some k) v True = (Some m', the_map m k \<noteq> None, the_map m k)
    \<and> map_ok m' \<and> key_equal_func m' = key_equal_func m
    \<and> (\<forall>l. the_map m' l = (if the_map m k \<noteq> None \<and> key_equal_func m k l then Some v else the_map m l))"
proof (cases "chain_find (key_equal_func m) k (elements m ! slot m k)")
  case None
  then show ?thesis using assms
    by (auto simp: bh_hash_map_update_def the_map_def lookup_def Let_def)
next
  case (Some e)
  let ?c = "elements m ! slot m k" and ?eq = "key_equal_func m"
  let ?c' = "chain_update ?eq k v ?c"
  note c = chain_of [OF assms]
  have keys: "fst ` set ?c' = fst ` set ?c"
    using arg_cong [OF keys_chain_update [of ?eq k v ?c], of set] by simp
  have "slot m (fst f) = slot m k" if "f \<in> set ?c'" for f
  proof -
    have "fst f \<in> fst ` set ?c" using that keys by blast
    then show ?thesis using c(2) by auto
  qed
  then have ok: "map_ok (m\<lparr>elements := (elements m)[slot m k := ?c']\<rparr>)"
    using c(1) by (intro map_ok_put [OF assms]) (simp_all add: unique_keys_update)
  have there: "lookup ?eq ?c k = Some (snd e)" using Some by (simp add: lookup_def)
  have "the_map (m\<lparr>elements := (elements m)[slot m k := ?c']\<rparr>) l =
      (if ?eq k l then Some v else the_map m l)" for l
  proof (cases "slot m l = slot m k")
    case True
    then show ?thesis using there
      by (simp add: the_map_put [OF assms] lookup_chain_update [OF c(3)]) (simp add: the_map_def)
  next
    case False
    then have "\<not> ?eq k l" using slot_eq [OF assms, of k l] by auto
    then show ?thesis using False by (simp add: the_map_put [OF assms])
  qed
  moreover have "the_map m k = Some (snd e)" using there by (simp add: the_map_def)
  moreover have "bh_hash_map_update (Some m) (Some k) v True =
      (Some (m\<lparr>elements := (elements m)[slot m k := ?c']\<rparr>), True, Some (snd e))"
    using Some by (simp add: bh_hash_map_update_def Let_def split: prod.splits)
  ultimately show ?thesis using ok by auto
qed

lemma remove_the_map:
  assumes "map_ok m"
  shows "\<exists>m' k'. bh_hash_map_remove (Some m) (Some k) True True =
        (Some m', the_map m k \<noteq> None, k', the_map m k)
    \<and> map_ok m' \<and> key_equal_func m' = key_equal_func m
    \<and> (\<forall>l. the_map m' l = (if key_equal_func m k l then None else the_map m l))"
proof (cases "chain_find (key_equal_func m) k (elements m ! slot m k)")
  case None
  then have "the_map m k = None" by (simp add: the_map_def lookup_def)
  then have "\<forall>l. key_equal_func m k l \<longrightarrow> the_map m l = None" using the_map_eq [OF assms] by metis
  then show ?thesis using assms None
    by (auto simp: bh_hash_map_remove_def the_map_def lookup_def Let_def)
next
  case (Some e)
  let ?c = "elements m ! slot m k" and ?eq = "key_equal_func m"
  let ?c' = "chain_unlink ?eq k ?c"
  note c = chain_of [OF assms]
  have ok: "map_ok (m\<lparr>elements := (elements m)[slot m k := ?c']\<rparr>)"
    using c(2) set_chain_unlink [of ?eq k ?c]
    by (intro map_ok_put [OF assms]) (auto simp: unique_keys_unlink [OF c(1)])
  have "the_map (m\<lparr>elements := (elements m)[slot m k := ?c']\<rparr>) l =
      (if ?eq k l then None else the_map m l)" for l
    using slot_eq [OF assms, of k l]
    by (auto simp: the_map_put [OF assms] lookup_chain_unlink [OF c(3,1)]) (auto simp: the_map_def)
  moreover have "the_map m k = Some (snd e)" using Some by (simp add: the_map_def lookup_def)
  moreover have "bh_hash_map_remove (Some m) (Some k) True True =
      (Some (m\<lparr>elements := (elements m)[slot m k := ?c']\<rparr>), True, Some (fst e), Some (snd e))"
    using Some by (simp add: bh_hash_map_remove_def Let_def split: prod.splits)
  ultimately show ?thesis using ok by auto
qed

lemma create_the_map:
  assumes "bh_hash_map_create av msz mok n lk (Some h) (Some eq) kd vd = Some m" "keys_ok h eq"
  shows "map_ok m \<and> (\<forall>k. the_map m k = None) \<and> hash_func m = h \<and> key_equal_func m = eq"
proof -
  have m: "m = \<lparr>map_size = (if n < 4 then 4 else n), map_lock = lk, hash_func = h, key_equal_func = eq,
      key_destroy_func = kd, value_destroy_func = vd,
      elements = replicate (unat (if n < 4 then 4 else n)) []\<rparr>"
    using assms(1) by (auto simp: bh_hash_map_create_def Let_def HASH_MAP_MIN_SIZE_def split: if_splits)
  have "0 < (if n < 4 then 4 else n)" by (auto simp: word_gt_0)
  then have ok: "map_ok m" using assms(2) by (auto simp: m map_ok_def unique_keys_def)
  then have "the_map m k = None" for k
    using slot_less [of m k] by (simp add: the_map_def) (simp add: m)
  then show ?thesis using ok by (simp add: m)
qed


lemma remove_flags:
  "fst (bh_hash_map_remove hm k a b) = fst (bh_hash_map_remove hm k True True)"
  "fst (snd (bh_hash_map_remove hm k a b)) = fst (snd (bh_hash_map_remove hm k True True))"
  by (auto simp: bh_hash_map_remove_def Let_def split: option.splits)

lemma lookup_iff_set:
  assumes "keys_ok h eq" "unique_keys eq es"
  shows "lookup eq es k = Some v \<longleftrightarrow> (\<exists>e \<in> set es. eq (fst e) k \<and> snd e = v)"
  using assms(2)
proof (induction es)
  case (Cons e es)
  then have u: "unique_keys eq es" "\<And>f. f \<in> set es \<Longrightarrow> \<not> eq (fst e) (fst f)"
    by (auto simp: unique_keys_def)
  have "eq (fst e) k \<Longrightarrow> f \<in> set es \<Longrightarrow> \<not> eq (fst f) k" for f
    using u(2) keys_okD(2,4) [OF assms(1)] by blast
  then show ?case using Cons.IH [OF u(1)] by auto
qed simp

lemma traverse_the_map:
  assumes "map_ok m"
  shows "the_map m k = Some v \<longleftrightarrow>
    (\<exists>k'. key_equal_func m k' k \<and> (k', v) \<in> set (fst (bh_hash_map_traverse (Some m) True)))"
proof -
  have s: "(k', v) \<in> set (elements m ! slot m k)" if "key_equal_func m k' k" "es \<in> set (elements m)" "(k', v) \<in> set es" for k' es
  proof -
    from that(2) obtain i where i: "i < length (elements m)" "es = elements m ! i" by (auto simp: in_set_conv_nth)
    then have "slot m k' = i" using assms that(3) by (force simp: map_ok_def)
    then show ?thesis using slot_eq [OF assms that(1)] that(3) i by simp
  qed
  have l: "the_map m k = Some v \<longleftrightarrow> (\<exists>e \<in> set (elements m ! slot m k). key_equal_func m (fst e) k \<and> snd e = v)"
    unfolding the_map_def by (rule lookup_iff_set [OF chain_of(3) [OF assms] chain_of(1) [OF assms]])
  have t: "fst (bh_hash_map_traverse (Some m) True) = concat (elements m)"
    by (simp add: bh_hash_map_traverse_def)
  have "elements m ! slot m k \<in> set (elements m)" using slot_less [OF assms] by (rule nth_mem)
  then have "\<exists>k'. key_equal_func m k' k \<and> (k', v) \<in> set (concat (elements m))" if "the_map m k = Some v"
    using that unfolding l by (metis UN_iff prod.collapse set_concat)
  moreover have "the_map m k = Some v" if "key_equal_func m k' k" "(k', v) \<in> set (concat (elements m))" for k'
  proof -
    from that(2) obtain es where "es \<in> set (elements m)" "(k', v) \<in> set es" by auto
    from s [OF that(1) this] show ?thesis unfolding l using that(1) by force
  qed
  ultimately show ?thesis unfolding t by blast
qed

section \<open>The keys that are used\<close>

text \<open>Addresses (\<^verbatim>\<open>wait_address_hash\<close> of \<^verbatim>\<open>wasm_shared_memory.c\<close>, and the handles of the thread
  library), and C strings (\<^verbatim>\<open>wasm_string_hash\<close> of \<^verbatim>\<open>wasm.h\<close>), here without their final zero.\<close>

definition wait_address_hash :: "u32 \<Rightarrow> u32" where "wait_address_hash address = address"

definition wait_address_equal :: "u32 \<Rightarrow> u32 \<Rightarrow> bool" where
  "wait_address_equal h1 h2 = (if h1 = h2 then True else False)"

definition wasm_string_hash :: "u8 list \<Rightarrow> u32" where
  "wasm_string_hash str = foldl (\<lambda>h p. (push_bit 5 h - h) + ucast p) (of_nat (length str)) str"

definition wasm_string_equal :: "u8 list \<Rightarrow> u8 list \<Rightarrow> bool" where
  "wasm_string_equal s1 s2 = (s1 = s2)"

lemma keys_ok_address: "keys_ok wait_address_hash wait_address_equal"
  by (simp add: keys_ok_def wait_address_equal_def)

lemma keys_ok_string: "keys_ok wasm_string_hash wasm_string_equal"
  by (simp add: keys_ok_def wasm_string_equal_def)

section \<open>What the users of the map rely on\<close>

locale key_map =
  fixes ok :: "'m \<Rightarrow> bool" and val :: "'m \<Rightarrow> 'k \<Rightarrow> 'v option option" and eqk :: "'m \<Rightarrow> 'k \<Rightarrow> 'k \<Rightarrow> bool"
    and find :: "'m option \<Rightarrow> 'k option \<Rightarrow> 'v option"
    and ins :: "bool \<Rightarrow> 'm option \<Rightarrow> 'k option \<Rightarrow> 'v option \<Rightarrow> 'm option \<times> bool"
    and del :: "'m option \<Rightarrow> 'k option \<Rightarrow> 'm option \<times> bool"
  assumes find_val: "find (Some m) (Some k) = (case val m k of Some v \<Rightarrow> v | None \<Rightarrow> None)"
    and ins_val: "ok m \<Longrightarrow> \<exists>m'. ins av (Some m) (Some k) v = (Some m', val m k = None \<and> av)
      \<and> ok m' \<and> eqk m' = eqk m
      \<and> (\<forall>l. val m' l = (if val m k = None \<and> av \<and> eqk m k l then Some v else val m l))"
    and del_val: "ok m \<Longrightarrow> \<exists>m'. del (Some m) (Some k) = (Some m', val m k \<noteq> None)
      \<and> ok m' \<and> eqk m' = eqk m \<and> (\<forall>l. val m' l = (if eqk m k l then None else val m l))"
    and val_eq: "ok m \<Longrightarrow> eqk m k l \<Longrightarrow> val m k = val m l"
    and eqk_refl: "ok m \<Longrightarrow> eqk m k k"
begin

lemma find_after_ins:
  assumes "ok m" "ins av (Some m) (Some k) (Some v) = (Some m', True)"
  shows "find (Some m') (Some l) = (if eqk m k l then Some v else find (Some m) (Some l))"
proof -
  obtain m'' where "ins av (Some m) (Some k) (Some v) = (Some m'', val m k = None \<and> av)"
    "\<forall>l. val m'' l = (if val m k = None \<and> av \<and> eqk m k l then Some (Some v) else val m l)"
    using ins_val [OF assms(1)] by blast
  then show ?thesis using assms(2) by (auto simp: find_val)
qed

lemma ins_only_new:
  assumes "ok m" "find (Some m) (Some k) \<noteq> None"
  shows "snd (ins av (Some m) (Some k) v) = False"
proof -
  have "val m k \<noteq> None" using assms(2) by (cases "val m k") (auto simp: find_val)
  then show ?thesis using ins_val [OF assms(1), of av k v] by auto
qed

lemma ins_then_del:
  assumes "ok m" "ins av (Some m) (Some k) v = (Some m1, True)"
  shows "\<exists>m2. del (Some m1) (Some k) = (Some m2, True) \<and> ok m2 \<and> (\<forall>l. val m2 l = val m l)"
proof -
  obtain m' where "ins av (Some m) (Some k) v = (Some m', val m k = None \<and> av)" "ok m'" "eqk m' = eqk m"
    "\<forall>l. val m' l = (if val m k = None \<and> av \<and> eqk m k l then Some v else val m l)"
    using ins_val [OF assms(1)] by blast
  then have m1: "ok m1" "eqk m1 = eqk m" "val m k = None"
    "\<And>l. val m1 l = (if eqk m k l then Some v else val m l)" using assms(2) by auto
  obtain m2 where m2: "del (Some m1) (Some k) = (Some m2, val m1 k \<noteq> None)" "ok m2"
    "\<forall>l. val m2 l = (if eqk m1 k l then None else val m1 l)" using del_val [OF m1(1)] by blast
  have "val m1 k \<noteq> None" using m1(4) eqk_refl [OF assms(1)] by simp
  moreover have "val m2 l = val m l" for l
    using m2(3) m1 val_eq [OF assms(1), of k l] by auto
  ultimately show ?thesis using m2 by auto
qed

end

text \<open>The removal whose old key and value nobody asks for.\<close>

definition remove_quiet :: "('k, 'v) HashMap option \<Rightarrow> 'k option \<Rightarrow> ('k, 'v) HashMap option \<times> bool" where
  "remove_quiet hm k = (let (hm', r, _) = bh_hash_map_remove hm k False False in (hm', r))"

lemma remove_quiet_the_map:
  assumes "map_ok m"
  shows "\<exists>m'. remove_quiet (Some m) (Some k) = (Some m', the_map m k \<noteq> None)
    \<and> map_ok m' \<and> key_equal_func m' = key_equal_func m
    \<and> (\<forall>l. the_map m' l = (if key_equal_func m k l then None else the_map m l))"
  using remove_the_map [OF assms, of k] remove_flags [of "Some m" "Some k" False False]
  by (auto simp: remove_quiet_def split_beta)

interpretation hm: key_map map_ok the_map key_equal_func bh_hash_map_find bh_hash_map_insert remove_quiet
proof unfold_locales
  fix m :: "('a, 'b) HashMap" and k l
  assume ok: "map_ok m"
  show "key_equal_func m k k" using ok keys_okD(1) unfolding map_ok_def by metis
  assume "key_equal_func m k l"
  then show "the_map m k = the_map m l" by (rule the_map_eq [OF ok])
qed (rule find_the_map insert_the_map remove_quiet_the_map; assumption?)+

section \<open>The hash map refines a map\<close>

text \<open>C18: With a hash and a comparison that fit together, a fresh hash map is the empty map;
  inserting adds a new key and fails, changing nothing, on a key that is there or when memory is
  short; finding gives the value of the key; updating replaces the value of a key that is there
  and gives the old one; removing takes the key out; a traversal gives exactly the entries. Keys
  that compare equal are one key, chains and slots do not show.\<close>
theorem bh_hash_map_refines_map:
  assumes "keys_ok h eq"
    "bh_hash_map_create av msz mok n lk (Some h) (Some eq) kd vd = Some m0"
    "map_ok m" "key_equal_func m = eq"
  shows "map_ok m0 \<and> (\<forall>k. the_map m0 k = None)
    \<and> (\<exists>m'. bh_hash_map_insert a (Some m) (Some k) v = (Some m', the_map m k = None \<and> a) \<and> map_ok m'
        \<and> (\<forall>l. the_map m' l = (if the_map m k = None \<and> a \<and> eq k l then Some v else the_map m l)))
    \<and> bh_hash_map_find (Some m) (Some k) = (case the_map m k of Some v \<Rightarrow> v | None \<Rightarrow> None)
    \<and> (\<exists>m'. bh_hash_map_update (Some m) (Some k) v True = (Some m', the_map m k \<noteq> None, the_map m k)
        \<and> map_ok m' \<and> (\<forall>l. the_map m' l = (if the_map m k \<noteq> None \<and> eq k l then Some v else the_map m l)))
    \<and> (\<exists>m' k'. bh_hash_map_remove (Some m) (Some k) True True = (Some m', the_map m k \<noteq> None, k', the_map m k)
        \<and> map_ok m' \<and> (\<forall>l. the_map m' l = (if eq k l then None else the_map m l)))
    \<and> (the_map m k = Some v \<longleftrightarrow>
        (\<exists>k'. eq k' k \<and> (k', v) \<in> set (fst (bh_hash_map_traverse (Some m) True))))"
  using create_the_map [OF assms(2,1)] insert_the_map [OF assms(3), of a k v] find_the_map [of m k]
    update_the_map [OF assms(3), of k v] remove_the_map [OF assms(3), of k] traverse_the_map [OF assms(3)]
  unfolding assms(4) by (intro conjI) (blast | assumption)+

lemma bh_hash_map_refines_map_witness:
  "\<exists>m :: (u32, u32) HashMap. bh_hash_map_create (\<lambda>_. True) 4 True 32 True
       (Some wait_address_hash) (Some wait_address_equal) False True = Some m
     \<and> (\<exists>m'. bh_hash_map_insert True (Some m) (Some 4) (Some 7) = (Some m', True)
          \<and> the_map m' 4 = Some (Some 7) \<and> the_map m' 36 = None)"
proof -
  obtain m :: "(u32, u32) HashMap" where m: "bh_hash_map_create (\<lambda>_. True) 4 True 32 True
      (Some wait_address_hash) (Some wait_address_equal) False True = Some m"
    by (simp add: bh_hash_map_create_def HASH_MAP_MIN_SIZE_def HASH_MAP_MAX_SIZE_def)
  note c = create_the_map [OF m keys_ok_address]
  from bh_hash_map_refines_map [OF keys_ok_address m, of m True 4 "Some 7"] c
  have "\<exists>m'. bh_hash_map_insert True (Some m) (Some 4) (Some 7) = (Some m', True)
      \<and> the_map m' 4 = Some (Some 7) \<and> the_map m' 36 = None"
    by (fastforce simp: wait_address_equal_def)
  then show ?thesis using m by blast
qed

end
