(* ===== verification/Shared_Wait.thy ===== *)
theory Shared_Wait
  imports Bh_Hashmap Bh_List
begin

text \<open>
  Waiting on an address of shared memory and waking the waiters
  (\<^verbatim>\<open>core/iwasm/common/wasm_shared_memory.c\<close>). The global \<open>wait_map\<close> takes an address to an
  \<^verbatim>\<open>AtomicWaitInfo\<close>, the list of the threads that wait there. An object is its address: \<open>infos\<close> has
  the list header of each wait info, \<open>node_link\<close> and \<open>node_status\<close> the fields of the wait nodes.

  Everything happens under one mutex, which a waiting thread gives up only in
  \<^verbatim>\<open>os_cond_reltimedwait\<close>. So a wait is a first critical section (\<open>atomic_wait_begin\<close>), the loop that
  looks at the node after each wake-up (\<open>wait_loop\<close>), and a last critical section
  (\<open>atomic_wait_end\<close>); the interleavings of any number of threads are the steps of \<open>wait_step\<close>.

  The allocator is a parameter: the addresses of a new node and of a new wait info (0 when there is
  no memory), and whether an element of the hash map can be had.
\<close>

section \<open>The operations\<close>

datatype wait_status = S_WAITING | S_NOTIFIED

record wait_state =
  wait_map :: "(u32, u32) HashMap"
  infos :: "u32 \<Rightarrow> bh_list"
  node_link :: links
  node_status :: "u32 \<Rightarrow> wait_status"

definition ptr :: "u32 \<Rightarrow> u32 option" where "ptr p = (if p = 0 then None else Some p)"

definition find_info :: "wait_state \<Rightarrow> u32 \<Rightarrow> u32" where
  "find_info st address =
     (case bh_hash_map_find (Some (wait_map st)) (ptr address) of None \<Rightarrow> 0 | Some i \<Rightarrow> i)"

definition put_list :: "wait_state \<Rightarrow> u32 \<Rightarrow> links \<Rightarrow> bh_list option \<Rightarrow> wait_state" where
  "put_list st i h l =
     (case l of None \<Rightarrow> st | Some l \<Rightarrow> st\<lparr>infos := (infos st)(i := l), node_link := h\<rparr>)"

text \<open>\<open>acquire_wait_info\<close>; a node of 0 is the NULL of \<open>wasm_runtime_atomic_notify\<close>.\<close>

definition insert_node :: "wait_state \<Rightarrow> u32 \<Rightarrow> u32 \<Rightarrow> wait_state" where
  "insert_node st i node =
     (let ((h, l), _) = bh_list_insert (node_link st) (Some (infos st i)) node in put_list st i h l)"

definition acquire_wait_info :: "u32 \<Rightarrow> bool \<Rightarrow> wait_state \<Rightarrow> u32 \<Rightarrow> u32 \<Rightarrow> wait_state \<times> u32" where
  "acquire_wait_info new_info av st address node =
     (let i = find_info st address
      in if node = 0 then (st, i)
         else if i \<noteq> 0 then (insert_node st i node, i)
         else if new_info = 0 then (st, 0)
         else let l = fst (bh_list_init (Some \<lparr>head_next = 0, list_len = 0\<rparr>));
                  st = put_list st new_info (node_link st) l;
                  (m, ok) = bh_hash_map_insert av (Some (wait_map st)) (ptr address) (Some new_info)
              in if \<not> ok then (st, 0)
                 else (insert_node (st\<lparr>wait_map := (case m of Some m \<Rightarrow> m | None \<Rightarrow> wait_map st)\<rparr>) new_info node,
                       new_info))"

fun notify_loop :: "links \<Rightarrow> nat \<Rightarrow> u32 \<Rightarrow> (u32 \<Rightarrow> wait_status) \<Rightarrow> (u32 \<Rightarrow> wait_status)" where
  "notify_loop h 0 node status = status"
| "notify_loop h (Suc n) node status =
     notify_loop h n (bh_list_elem_next h node) (status(node := S_NOTIFIED))"

definition notify_wait_list :: "wait_state \<Rightarrow> u32 \<Rightarrow> u32 \<Rightarrow> wait_state \<times> u32" where
  "notify_wait_list st i count =
     (let l = infos st i;
          notify_count = (if count > list_len l then list_len l else count);
          node = bh_list_first_elem (Some l)
      in if node = 0 then (st, 0)
         else (st\<lparr>node_status := notify_loop (node_link st) (unat notify_count) node (node_status st)\<rparr>,
               notify_count))"

definition is_wait_node_exists :: "wait_state \<Rightarrow> u32 \<Rightarrow> u32 \<Rightarrow> bool option" where
  "is_wait_node_exists st i node =
     traverse_list (\<lambda>_. node_link st) (infos st i) (\<lambda>x found. found \<or> x = node) False"

text \<open>\<open>map_try_release_wait_info\<close>; the list of a wait info that is released is empty, so that
  \<open>destroy_wait_info\<close> frees only the wait info.\<close>

definition map_try_release_wait_info :: "wait_state \<Rightarrow> u32 \<Rightarrow> u32 \<Rightarrow> wait_state" where
  "map_try_release_wait_info st i address =
     (if list_len (infos st i) > 0 then st
      else (case fst (remove_quiet (Some (wait_map st)) (ptr address)) of
              Some m \<Rightarrow> st\<lparr>wait_map := m\<rparr> | None \<Rightarrow> st))"

text \<open>What the wait reads of the instance: a pending exception, whether the memory is shared, its
  bounds and its content, and whether the condition variable can be initialised.\<close>

record wait_env =
  has_exception :: bool
  is_shared :: bool
  mem_data :: u32
  mem_data_end :: u32
  mem_bytes :: cmem
  cond_init_ok :: bool

text \<open>The result is a return value with the exception that is set, or the wait info of a thread that
  goes to sleep.\<close>

definition atomic_wait_begin ::
  "wait_env \<Rightarrow> u32 \<Rightarrow> u32 \<Rightarrow> bool \<Rightarrow> wait_state \<Rightarrow> u32 \<Rightarrow> u64 \<Rightarrow> bool
    \<Rightarrow> wait_state \<times> ((u32 \<times> string option) + u32)" where
  "atomic_wait_begin E new_node new_info av st address expect wait64 =
     (if has_exception E then (st, Inl (-1, None))
      else if \<not> is_shared E then (st, Inl (-1, Some ''expected shared memory''))
      else if address < mem_data E \<or> address + (if wait64 then 8 else 4) > mem_data_end E then
        (st, Inl (-1, Some ''out of bounds memory access''))
      else let no_wait = (\<not> wait64 \<and> (le_word (cbytes (mem_bytes E) address 4) :: u32) \<noteq> ucast expect)
                         \<or> (wait64 \<and> (le_word (cbytes (mem_bytes E) address 8) :: u64) \<noteq> expect)
        in if no_wait then (st, Inl (1, None))
           else if new_node = 0 then (st, Inl (-1, Some ''failed to create wait node''))
           else if \<not> cond_init_ok E then (st, Inl (-1, Some ''failed to init wait cond''))
           else let st = st\<lparr>node_status := (node_status st)(new_node := S_WAITING)\<rparr>;
                    (st, i) = acquire_wait_info new_info av st address new_node
                in if i = 0 then (st, Inl (-1, Some ''failed to acquire wait_info''))
                   else (st, Inr i))"

text \<open>The loop, in which \<open>wake k\<close> is what the thread finds after the wake-up number \<open>k\<close>: the status
  of its node, and whether it has been terminated. \<open>timeout_left\<close> is in microseconds. The result is
  the number of wake-ups and whether the node is still waiting.\<close>

definition timeout_1sec :: u64 where "timeout_1sec = 1000000"

partial_function (option) wait_loop ::
  "(nat \<Rightarrow> wait_status \<times> bool) \<Rightarrow> 64 word \<Rightarrow> u64 \<Rightarrow> nat \<Rightarrow> (nat \<times> bool) option" where
  "wait_loop wake timeout timeout_left k =
     (let (status, terminated) = wake k
      in if timeout <s 0 then
           if status = S_NOTIFIED \<or> terminated then Some (k + 1, status = S_WAITING)
           else wait_loop wake timeout timeout_left (k + 1)
         else
           let timeout_wait = (if timeout_left < timeout_1sec then timeout_left else timeout_1sec)
           in if status = S_NOTIFIED \<or> timeout_left \<le> timeout_wait \<or> terminated
              then Some (k + 1, status = S_WAITING)
              else wait_loop wake timeout (timeout_left - timeout_wait) (k + 1))"

declare wait_loop.simps [code]

definition atomic_wait_end :: "wait_state \<Rightarrow> u32 \<Rightarrow> u32 \<Rightarrow> u32 \<Rightarrow> (wait_state \<times> u32) option" where
  "atomic_wait_end st address i node =
     (let is_timeout = (node_status st node = S_WAITING)
      in case bh_list_remove (node_link st) (Some (infos st i)) node of
           None \<Rightarrow> None
         | Some ((h, l), _) \<Rightarrow>
             Some (map_try_release_wait_info (put_list st i h l) i address, if is_timeout then 2 else 0))"

definition wasm_runtime_atomic_notify ::
  "wait_env \<Rightarrow> wait_state \<Rightarrow> u32 \<Rightarrow> u32 \<Rightarrow> wait_state \<times> (u32 \<times> string option)" where
  "wasm_runtime_atomic_notify E st address count =
     (if address < mem_data E \<or> address + 4 > mem_data_end E then
        (st, (-1, Some ''out of bounds memory access''))
      else if \<not> is_shared E then (st, (0, None))
      else let i = snd (acquire_wait_info 0 True st address 0)
           in if i = 0 then (st, (0, None))
              else let (st, n) = notify_wait_list st i count in (st, (n, None)))"


section \<open>The waiters of each address\<close>

text \<open>\<open>wait_rel st W\<close>: the state represents the lists \<open>W\<close> of waiters, one for each address.\<close>

abbreviation info_of :: "wait_state \<Rightarrow> u32 \<Rightarrow> u32 option option" where
  "info_of st \<equiv> the_map (wait_map st)"

definition wait_rel :: "wait_state \<Rightarrow> (u32 \<Rightarrow> u32 list) \<Rightarrow> bool" where
  "wait_rel st W \<longleftrightarrow> map_ok (wait_map st) \<and> key_equal_func (wait_map st) = wait_address_equal
     \<and> (\<forall>a. info_of st a = None \<longleftrightarrow> W a = [])
     \<and> (\<forall>a v. info_of st a = Some v \<longrightarrow>
          a \<noteq> 0 \<and> (\<exists>i. v = Some i \<and> i \<noteq> 0 \<and> repr (node_link st) (infos st i) (W a)))
     \<and> (\<forall>a b i. info_of st a = Some (Some i) \<longrightarrow> info_of st b = Some (Some i) \<longrightarrow> a = b)
     \<and> (\<forall>a b x. x \<in> set (W a) \<longrightarrow> x \<in> set (W b) \<longrightarrow> a = b)"

lemma wait_relD:
  assumes "wait_rel st W"
  shows "map_ok (wait_map st)" "key_equal_func (wait_map st) = wait_address_equal"
    "info_of st a = None \<longleftrightarrow> W a = []"
    "info_of st a = Some v \<Longrightarrow> a \<noteq> 0"
    "info_of st a = Some (Some i) \<Longrightarrow> i \<noteq> 0 \<and> repr (node_link st) (infos st i) (W a)"
    "info_of st a \<noteq> Some None"
    "info_of st a = Some (Some i) \<Longrightarrow> info_of st b = Some (Some i) \<Longrightarrow> a = b"
    "x \<in> set (W a) \<Longrightarrow> x \<in> set (W b) \<Longrightarrow> a = b"
  using assms unfolding wait_rel_def by (blast | force)+

lemma wait_address_equal_iff [simp]: "wait_address_equal a b \<longleftrightarrow> a = b"
  by (simp add: wait_address_equal_def)

lemma find_info_rel:
  assumes "wait_rel st W"
  shows "find_info st a = (case info_of st a of Some (Some i) \<Rightarrow> i | _ \<Rightarrow> 0)"
proof (cases "a = 0")
  case True
  then have "info_of st a = None" using wait_relD(4) [OF assms] by (cases "info_of st a") auto
  then show ?thesis using True by (simp add: find_info_def ptr_def bh_hash_map_find_def)
next
  case False
  then show ?thesis
    by (simp add: find_info_def ptr_def hm.find_val split: option.splits)
qed

text \<open>A node that is in no list fits into any of them: addresses are 32-bit words.\<close>

lemma room_for_node:
  assumes "repr h l xs" "e \<noteq> 0" "e \<notin> set xs"
  shows "length xs < 2 ^ 32 - 1"
proof -
  have "distinct (e # 0 # xs)" using bl.rep_elems [OF assms(1)] assms by auto
  then have "length (e # 0 # xs) = card (set (e # 0 # xs))" by (simp only: distinct_card)
  also have "\<dots> \<le> card (UNIV :: u32 set)" by (rule card_mono) auto
  also have "\<dots> = 2 ^ 32" by (simp add: card_word)
  finally show ?thesis by simp
qed

text \<open>Putting \<open>node\<close> into the list of a wait info that the map has at \<open>a\<close>.\<close>

lemma insert_node_rel:
  assumes "map_ok (wait_map st)" "key_equal_func (wait_map st) = wait_address_equal"
    "a \<noteq> 0" "i \<noteq> 0" "node \<noteq> 0" "\<And>b. node \<notin> set (W b)"
    "repr (node_link st) (infos st i) (W a)" "info_of st a = Some (Some i)"
    "\<And>b. b \<noteq> a \<Longrightarrow> info_of st b = None \<longleftrightarrow> W b = []"
    "\<And>b v. b \<noteq> a \<Longrightarrow> info_of st b = Some v \<Longrightarrow>
      b \<noteq> 0 \<and> (\<exists>j. v = Some j \<and> j \<noteq> 0 \<and> j \<noteq> i \<and> repr (node_link st) (infos st j) (W b))"
    "\<And>b c j. b \<noteq> a \<Longrightarrow> c \<noteq> a \<Longrightarrow> info_of st b = Some (Some j) \<Longrightarrow> info_of st c = Some (Some j) \<Longrightarrow> b = c"
    "\<And>b c x. x \<in> set (W b) \<Longrightarrow> x \<in> set (W c) \<Longrightarrow> b = c"
  defines "st' \<equiv> insert_node st i node"
  shows "wait_rel st' (W(a := node # W a)) \<and> wait_map st' = wait_map st \<and> node_status st' = node_status st"
proof -
  obtain h l where r: "bh_list_insert (node_link st) (Some (infos st i)) node = ((h, Some l), BH_LIST_SUCCESS)"
    "repr h l (node # W a)" "\<forall>p. p \<noteq> node \<longrightarrow> h p = node_link st p"
    using bl.rep_ins [OF assms(7,5,6) room_for_node [OF assms(7,5,6)]] by blast
  have st': "st' = st\<lparr>infos := (infos st)(i := l), node_link := h\<rparr>"
    by (simp add: st'_def insert_node_def put_list_def r(1))
  have "repr h (infos st j) (W b)" if "repr (node_link st) (infos st j) (W b)" for j b
    by (rule repr_frame [OF that]) (use r(3) assms(6) in metis)
  then have other: "b \<noteq> 0 \<and> (\<exists>j. v = Some j \<and> j \<noteq> 0 \<and> j \<noteq> i \<and> repr h (infos st j) (W b))"
    if "b \<noteq> a" "info_of st b = Some v" for b v
    using assms(10) [OF that] by blast
  have inj: "b = c" if "info_of st b = Some (Some j)" "info_of st c = Some (Some j)" for b c j
  proof (cases "j = i")
    case True
    then have "b = a" "c = a" using other that by (metis option.inject)+
    then show ?thesis by simp
  next
    case False
    then have "b \<noteq> a" "c \<noteq> a" using assms(8) that by auto
    then show ?thesis using assms(11) that by blast
  qed
  have "wait_rel st' (W(a := node # W a))"
    unfolding wait_rel_def
  proof (intro conjI allI impI)
    show "map_ok (wait_map st')" "key_equal_func (wait_map st') = wait_address_equal"
      using assms(1,2) by (simp_all add: st')
    show "info_of st' b = None \<longleftrightarrow> (W(a := node # W a)) b = []" for b
      using assms(8,9) by (cases "b = a") (simp_all add: st')
    fix b v assume v: "info_of st' b = Some v"
    then show "b \<noteq> 0" using other assms(3) by (cases "b = a") (auto simp: st')
    show "\<exists>j. v = Some j \<and> j \<noteq> 0 \<and> repr (node_link st') (infos st' j) ((W(a := node # W a)) b)"
    proof (cases "b = a")
      case True
      then have "v = Some i" using v assms(8) by (simp add: st')
      then show ?thesis using assms(4) r(2) True by (intro exI [of _ i]) (simp add: st')
    next
      case False
      then show ?thesis using other [OF False, of v] v by (auto simp: st')
    qed
  next
    fix b c j assume "info_of st' b = Some (Some j)" "info_of st' c = Some (Some j)"
    then show "b = c" using inj by (simp add: st')
  next
    fix b c x assume "x \<in> set ((W(a := node # W a)) b)" "x \<in> set ((W(a := node # W a)) c)"
    then show "b = c" using assms(6,12) by (auto split: if_splits)
  qed
  then show ?thesis by (simp add: st')
qed


lemma acquire_wait_info_rel:
  assumes "wait_rel st W" "a \<noteq> 0" "node \<noteq> 0" "\<And>b. node \<notin> set (W b)"
    "\<And>b. new_info \<noteq> 0 \<Longrightarrow> info_of st b \<noteq> Some (Some new_info)"
    "acquire_wait_info new_info av st a node = (st', i)"
  shows "node_status st' = node_status st
    \<and> (if i = 0 then wait_rel st' W \<and> wait_map st' = wait_map st
       else wait_rel st' (W(a := node # W a)) \<and> info_of st' a = Some (Some i)
         \<and> (\<forall>b. b \<noteq> a \<or> info_of st a \<noteq> None \<longrightarrow> info_of st' b = info_of st b))"
proof (cases "info_of st a")
  case (Some v)
  then obtain j where j: "info_of st a = Some (Some j)" "j \<noteq> 0" "repr (node_link st) (infos st j) (W a)"
    using wait_relD(5,6) [OF assms(1)] by (cases v) auto
  have st': "st' = insert_node st j node" "i = j"
    using assms(3,6) j by (auto simp: acquire_wait_info_def find_info_rel [OF assms(1)])
  have "b \<noteq> 0 \<and> (\<exists>j'. v = Some j' \<and> j' \<noteq> 0 \<and> j' \<noteq> j \<and> repr (node_link st) (infos st j') (W b))"
    if "b \<noteq> a" "info_of st b = Some v" for b v
  proof (cases v)
    case None
    then show ?thesis using wait_relD(6) [OF assms(1)] that by simp
  next
    case (Some j')
    then show ?thesis
      using wait_relD(4,5) [OF assms(1)] wait_relD(7) [OF assms(1), of b j a] that j(1) by auto
  qed
  from insert_node_rel [OF wait_relD(1,2) [OF assms(1)] assms(2) j(2) assms(3,4) j(3,1)
      wait_relD(3) [OF assms(1)] this wait_relD(7,8) [OF assms(1)]]
  show ?thesis using j(1,2) unfolding st' by simp
next
  case None
  then have find: "find_info st a = 0" by (simp add: find_info_rel [OF assms(1)])
  show ?thesis
  proof (cases "new_info = 0")
    case True
    then show ?thesis using assms(1,3,6) find by (simp add: acquire_wait_info_def)
  next
    case new: False
    define st1 where "st1 = st\<lparr>infos := (infos st)(new_info := \<lparr>head_next = 0, list_len = 0\<rparr>)\<rparr>"
    have put: "put_list st new_info (node_link st) (fst (bh_list_init (Some \<lparr>head_next = 0, list_len = 0\<rparr>))) = st1"
      by (simp add: put_list_def bh_list_init_def st1_def)
    have fresh: "repr (node_link st1) (infos st1 j) (W b)" "j \<noteq> new_info"
      if "info_of st b = Some (Some j)" for b j
      using wait_relD(5) [OF assms(1) that] assms(5) [OF new] that by (auto simp: st1_def)
    have rel1: "wait_rel st1 W"
      unfolding wait_rel_def
    proof (intro conjI allI impI)
      fix b v assume v: "info_of st1 b = Some v"
      then have v': "info_of st b = Some v" by (simp add: st1_def)
      then show "b \<noteq> 0" using wait_relD(4) [OF assms(1)] by blast
      show "\<exists>i. v = Some i \<and> i \<noteq> 0 \<and> repr (node_link st1) (infos st1 i) (W b)"
        using v' fresh wait_relD(5,6) [OF assms(1)] by (cases v) auto
    qed (use wait_relD [OF assms(1)] in \<open>auto simp: st1_def\<close>)
    obtain m where m: "bh_hash_map_insert av (Some (wait_map st1)) (Some a) (Some new_info) = (Some m, av)"
      "map_ok m" "key_equal_func m = wait_address_equal"
      "\<And>l. the_map m l = (if av \<and> a = l then Some (Some new_info) else info_of st l)"
      using hm.ins_val [OF wait_relD(1) [OF assms(1)], of av a "Some new_info"] None wait_relD(2) [OF assms(1)]
      by (auto simp: st1_def)
    show ?thesis
    proof (cases av)
      case False
      then have "st' = st1" "i = 0"
        using assms(2,3,6) find new m(1) put by (auto simp: acquire_wait_info_def ptr_def Let_def)
      then show ?thesis using rel1 by (simp add: st1_def)
    next
      case True
      define st2 where "st2 = st1\<lparr>wait_map := m\<rparr>"
      have st': "st' = insert_node st2 new_info node" "i = new_info"
        using assms(2,3,6) find new m(1) put True by (auto simp: acquire_wait_info_def ptr_def Let_def st2_def)
      have Wa: "W a = []" using None wait_relD(3) [OF assms(1)] by simp
      have l2: "info_of st2 l = (if a = l then Some (Some new_info) else info_of st l)" for l
        using m(4) True by (simp add: st2_def)
      have other: "b \<noteq> 0 \<and> (\<exists>j'. v = Some j' \<and> j' \<noteq> 0 \<and> j' \<noteq> new_info \<and> repr (node_link st2) (infos st2 j') (W b))"
        if "b \<noteq> a" "info_of st2 b = Some v" for b v
      proof -
        have v: "info_of st b = Some v" using that l2 by simp
        then show ?thesis
          using fresh wait_relD(4,5,6) [OF assms(1)] by (cases v) (auto simp: st2_def)
      qed
      have "wait_rel (insert_node st2 new_info node) (W(a := node # W a))
          \<and> wait_map (insert_node st2 new_info node) = wait_map st2
          \<and> node_status (insert_node st2 new_info node) = node_status st2"
      proof (rule insert_node_rel [OF _ _ assms(2) new assms(3,4) _ _ _ other])
        show "map_ok (wait_map st2)" "key_equal_func (wait_map st2) = wait_address_equal"
          using m by (simp_all add: st2_def)
        show "repr (node_link st2) (infos st2 new_info) (W a)"
          by (simp add: Wa st2_def st1_def repr_def)
        show "info_of st2 a = Some (Some new_info)" by (simp add: l2)
        show "\<And>b. b \<noteq> a \<Longrightarrow> info_of st2 b = None \<longleftrightarrow> W b = []"
          using wait_relD(3) [OF assms(1)] by (simp add: l2)
        show "\<And>b c j. b \<noteq> a \<Longrightarrow> c \<noteq> a \<Longrightarrow> info_of st2 b = Some (Some j) \<Longrightarrow> info_of st2 c = Some (Some j) \<Longrightarrow> b = c"
          using wait_relD(7) [OF assms(1)] by (simp add: l2)
        show "\<And>b c x. x \<in> set (W b) \<Longrightarrow> x \<in> set (W c) \<Longrightarrow> b = c"
          using wait_relD(8) [OF assms(1)] by blast
      qed
      then show ?thesis using new l2 None unfolding st' by (simp add: st2_def st1_def)
    qed
  qed
qed


section \<open>Notifying\<close>

definition notified :: "u32 list \<Rightarrow> (u32 \<Rightarrow> wait_status) \<Rightarrow> u32 \<Rightarrow> wait_status" where
  "notified xs status p = (if p \<in> set xs then S_NOTIFIED else status p)"

lemma notify_loop_notified:
  assumes "repr h l xs" "i + n \<le> length xs"
  shows "notify_loop h n (if i < length xs then xs ! i else 0) status = notified (take n (drop i xs)) status"
  using assms(2)
proof (induction n arbitrary: i status)
  case 0
  then show ?case by (auto simp: notified_def fun_eq_iff)
next
  case (Suc n)
  then have i: "i < length xs" by simp
  have "notify_loop h (Suc n) (xs ! i) status =
      notify_loop h n (if i + 1 < length xs then xs ! (i + 1) else 0) (status(xs ! i := S_NOTIFIED))"
    using bl.rep_next [OF assms(1) i] by simp
  also have "\<dots> = notified (take n (drop (i + 1) xs)) (status(xs ! i := S_NOTIFIED))"
    using Suc.IH [of "i + 1"] Suc.prems by simp
  also have "\<dots> = notified (take (Suc n) (drop i xs)) status"
    using i by (auto simp: notified_def fun_eq_iff Cons_nth_drop_Suc [symmetric])
  finally show ?case using i by simp
qed

lemma notify_wait_list_notified:
  assumes "repr (node_link st) (infos st i) xs" "xs \<noteq> []"
  shows "notify_wait_list st i count =
     (st\<lparr>node_status := notified (take (unat count) xs) (node_status st)\<rparr>,
      of_nat (min (unat count) (length xs)))"
proof -
  have len: "unat (list_len (infos st i)) = length xs" using repr_length [OF assms(1)] .
  let ?n = "if count > list_len (infos st i) then list_len (infos st i) else count"
  have n: "unat ?n = min (unat count) (length xs)" using len by (auto simp: word_less_nat_alt)
  have n': "?n = of_nat (min (unat count) (length xs))"
    unfolding n [symmetric] by simp
  have f: "bh_list_first_elem (Some (infos st i)) = xs ! 0" "xs ! 0 \<noteq> 0"
    using bl.rep_first [OF assms(1)] bl.rep_elems [OF assms(1)] assms(2) by (cases xs; auto)+
  have "notify_loop (node_link st) (unat ?n) (xs ! 0) (node_status st) =
      notified (take (unat ?n) xs) (node_status st)"
    using notify_loop_notified [OF assms(1), of 0 "unat ?n"] n assms(2) by simp
  also have "take (unat ?n) xs = take (unat count) xs" unfolding n by (simp add: min_def)
  finally show ?thesis
    using f n' by (simp add: notify_wait_list_def Let_def del: of_nat_min)
qed

lemma notify_rel:
  assumes "wait_rel st W" "is_shared E" "\<not> address < mem_data E" "\<not> address + 4 > mem_data_end E"
  shows "wasm_runtime_atomic_notify E st address count =
     (st\<lparr>node_status := notified (take (unat count) (W address)) (node_status st)\<rparr>,
      of_nat (min (unat count) (length (W address))), None)"
proof (cases "W address = []")
  case True
  then have "find_info st address = 0"
    using find_info_rel [OF assms(1), of address] wait_relD(3) [OF assms(1), of address] by simp
  moreover have "notified [] s = s" for s by (simp add: notified_def fun_eq_iff)
  ultimately show ?thesis
    using assms(2-4) True by (simp add: wasm_runtime_atomic_notify_def acquire_wait_info_def)
next
  case False
  then obtain v where "info_of st address = Some v" using wait_relD(3) [OF assms(1), of address] by auto
  then obtain i where i: "info_of st address = Some (Some i)"
    using wait_relD(6) [OF assms(1)] by (cases v) auto
  note r = wait_relD(5) [OF assms(1) i]
  then have "find_info st address = i" "i \<noteq> 0" using find_info_rel [OF assms(1)] i by simp_all
  then show ?thesis
    using assms(2-4) notify_wait_list_notified [OF conjunct2 [OF r] False, of count]
    by (simp add: wasm_runtime_atomic_notify_def acquire_wait_info_def)
qed

lemma wait_rel_status: "wait_rel (st\<lparr>node_status := s\<rparr>) W = wait_rel st W"
  by (simp add: wait_rel_def)

section \<open>Waking up\<close>

lemma atomic_wait_end_rel:
  assumes "wait_rel st W" "node \<in> set (W a)" "info_of st a = Some (Some i)"
  shows "is_wait_node_exists st i node = Some True
    \<and> (\<exists>st'. atomic_wait_end st a i node = Some (st', if node_status st node = S_WAITING then 2 else 0)
        \<and> wait_rel st' (W(a := remove1 node (W a))) \<and> node_status st' = node_status st
        \<and> (\<forall>b. b \<noteq> a \<or> remove1 node (W a) \<noteq> [] \<longrightarrow> info_of st' b = info_of st b))"
proof (intro conjI)
  let ?W = "W(a := remove1 node (W a))"
  note r = wait_relD(5) [OF assms(1,3)]
  have d: "distinct (W a)" "node \<noteq> 0" using bl.rep_elems [OF conjunct2 [OF r]] assms(2) by auto
  have f: "fold (\<lambda>x found. found \<or> x = node) ys b = (b \<or> node \<in> set ys)" for ys b
    by (induction ys arbitrary: b) auto
  show "is_wait_node_exists st i node = Some True"
    unfolding is_wait_node_exists_def traverse_list_def
    using bl.visit_all [of "\<lambda>_. node_link st" False "infos st i" "W a" "\<lambda>x found. found \<or> x = node"]
      r assms(2) by (simp add: f)
  obtain h l where del: "bh_list_remove (node_link st) (Some (infos st i)) node = Some ((h, Some l), BH_LIST_SUCCESS)"
    "repr h l (remove1 node (W a))" "\<forall>p. p \<notin> set (W a) \<longrightarrow> h p = node_link st p"
    using bl.rep_del [OF conjunct2 [OF r] d(2)] assms(2) by auto
  define st1 where "st1 = st\<lparr>infos := (infos st)(i := l), node_link := h\<rparr>"
  have put: "put_list st i h (Some l) = st1" by (simp add: put_list_def st1_def)
  have frame: "j \<noteq> i \<and> repr h (infos st j) (W b)" if "b \<noteq> a" "info_of st b = Some (Some j)" for b j
  proof
    show "j \<noteq> i" using wait_relD(7) [OF assms(1)] that assms(3) by blast
    show "repr h (infos st j) (W b)"
      by (rule repr_frame [of "node_link st"])
         (use wait_relD(5) [OF assms(1) that(2)] wait_relD(8) [OF assms(1)] that(1) del(3) in blast)+
  qed
  have len: "list_len l > 0 \<longleftrightarrow> remove1 node (W a) \<noteq> []"
    using repr_length [OF del(2)] by (auto simp: word_less_nat_alt)
  define st' where "st' = map_try_release_wait_info st1 i a"
  have res: "atomic_wait_end st a i node = Some (st', if node_status st node = S_WAITING then 2 else 0)"
    by (simp add: atomic_wait_end_def del(1) put st'_def)
  have inj: "x \<in> set (?W b) \<Longrightarrow> x \<in> set (?W c) \<Longrightarrow> b = c" for b c x
    using wait_relD(8) [OF assms(1), of x b c] set_remove1_subset [of node "W a"]
    by (auto split: if_splits)
  show "\<exists>st'. atomic_wait_end st a i node = Some (st', if node_status st node = S_WAITING then 2 else 0)
        \<and> wait_rel st' ?W \<and> node_status st' = node_status st
        \<and> (\<forall>b. b \<noteq> a \<or> remove1 node (W a) \<noteq> [] \<longrightarrow> info_of st' b = info_of st b)"
  proof (cases "remove1 node (W a) = []")
    case False
    then have st': "st' = st1" using len by (simp add: st'_def map_try_release_wait_info_def st1_def)
    have "wait_rel st1 ?W"
      unfolding wait_rel_def
    proof (intro conjI allI impI)
      fix b v assume v: "info_of st1 b = Some v"
      then have v': "info_of st b = Some v" by (simp add: st1_def)
      then show "b \<noteq> 0" using wait_relD(4) [OF assms(1)] by blast
      show "\<exists>j. v = Some j \<and> j \<noteq> 0 \<and> repr (node_link st1) (infos st1 j) (?W b)"
        using v' frame [of b] wait_relD(5,6) [OF assms(1)] del(2) assms(3)
        by (cases v; cases "b = a") (auto simp: st1_def)
    next
      fix b show "info_of st1 b = None \<longleftrightarrow> ?W b = []"
        using wait_relD(3) [OF assms(1)] False assms(2) by (auto simp: st1_def)
    next
      fix b c x assume "x \<in> set (?W b)" "x \<in> set (?W c)"
      then show "b = c" by (rule inj)
    qed (use wait_relD [OF assms(1)] in \<open>auto simp: st1_def\<close>)
    then show ?thesis using res st' by (simp add: st1_def)
  next
    case True
    have a0: "a \<noteq> 0" using wait_relD(4) [OF assms(1,3)] .
    obtain m where m: "remove_quiet (Some (wait_map st)) (Some a) = (Some m, True)"
      "map_ok m" "key_equal_func m = wait_address_equal"
      "\<And>b. the_map m b = (if a = b then None else info_of st b)"
      using hm.del_val [OF wait_relD(1) [OF assms(1)], of a] assms(3) wait_relD(2) [OF assms(1)] by auto
    have st': "st' = st1\<lparr>wait_map := m\<rparr>"
      using len True m(1) a0 by (simp add: st'_def map_try_release_wait_info_def st1_def ptr_def)
    have "wait_rel st' ?W"
      unfolding wait_rel_def
    proof (intro conjI allI impI)
      fix b v assume v: "info_of st' b = Some v"
      then have v': "info_of st b = Some v" "b \<noteq> a" using m(4) by (auto simp: st' split: if_splits)
      then show "b \<noteq> 0" using wait_relD(4) [OF assms(1)] by blast
      show "\<exists>j. v = Some j \<and> j \<noteq> 0 \<and> repr (node_link st') (infos st' j) (?W b)"
        using v' frame [of b] wait_relD(5,6) [OF assms(1)] by (cases v) (auto simp: st' st1_def)
    next
      fix b show "info_of st' b = None \<longleftrightarrow> ?W b = []"
        using wait_relD(3) [OF assms(1)] True by (simp add: st' m(4))
    next
      fix b c j assume "info_of st' b = Some (Some j)" "info_of st' c = Some (Some j)"
      then show "b = c" using wait_relD(7) [OF assms(1), of b j c] by (simp add: st' m(4) split: if_splits)
    next
      fix b c x assume "x \<in> set (?W b)" "x \<in> set (?W c)"
      then show "b = c" by (rule inj)
    qed (use m in \<open>simp_all add: st'\<close>)
    then show ?thesis using res True m(4) by (simp add: st' st1_def)
  qed
qed


section \<open>The waiting loop\<close>

lemma wait_loop_timeout:
  assumes "\<not> timeout <s 0"
  shows "\<exists>n b. wait_loop wake timeout left k = Some (n, b) \<and> k < n
    \<and> n \<le> k + unat left div 1000000 + 1
    \<and> b = (fst (wake (n - 1)) = S_WAITING)
    \<and> (b \<longrightarrow> snd (wake (n - 1)) \<or> unat left \<le> 1000000 * (n - k))
    \<and> (\<forall>j. k \<le> j \<and> j < n - 1 \<longrightarrow> fst (wake j) = S_WAITING \<and> \<not> snd (wake j))"
proof (induction "unat left" arbitrary: left k rule: less_induct)
  case less
  obtain status terminated where w: "wake k = (status, terminated)" by (cases "wake k")
  let ?w = "if left < timeout_1sec then left else timeout_1sec"
  show ?case
  proof (cases "status = S_NOTIFIED \<or> left \<le> ?w \<or> terminated")
    case True
    then have "wait_loop wake timeout left k = Some (k + 1, status = S_WAITING)"
      using assms by (subst wait_loop.simps) (simp add: w Let_def)
    moreover have "left \<le> ?w \<Longrightarrow> unat left \<le> 1000000"
      by (auto simp: timeout_1sec_def word_less_nat_alt word_le_nat_alt split: if_splits)
    ultimately show ?thesis using True w by (cases status) auto
  next
    case False
    then have big: "1000000 < unat left" "?w = timeout_1sec"
      by (auto simp: timeout_1sec_def word_less_nat_alt word_le_nat_alt split: if_splits)
    have sub: "unat (left - timeout_1sec) = unat left - 1000000"
      using big(1) by (subst unat_sub) (simp_all add: timeout_1sec_def word_le_nat_alt)
    have step: "wait_loop wake timeout left k = wait_loop wake timeout (left - timeout_1sec) (k + 1)"
      using False assms big(2) by (subst wait_loop.simps) (auto simp: w Let_def)
    obtain n b where n: "wait_loop wake timeout (left - timeout_1sec) (k + 1) = Some (n, b)" "k + 1 < n"
      "n \<le> k + 1 + (unat left - 1000000) div 1000000 + 1" "b = (fst (wake (n - 1)) = S_WAITING)"
      "b \<longrightarrow> snd (wake (n - 1)) \<or> unat left - 1000000 \<le> 1000000 * (n - (k + 1))"
      "\<And>j. k + 1 \<le> j \<Longrightarrow> j < n - 1 \<Longrightarrow> fst (wake j) = S_WAITING \<and> \<not> snd (wake j)"
      using less [of "left - timeout_1sec" "k + 1"] big(1) unfolding sub by auto
    have "unat left = (unat left - 1000000) + 1000000" using big(1) by simp
    then have "unat left div 1000000 = (unat left - 1000000) div 1000000 + 1" by (metis div_add_self2 zero_neq_numeral)
    then have "n \<le> k + unat left div 1000000 + 1" using n(3) by simp
    moreover have "b \<longrightarrow> snd (wake (n - 1)) \<or> unat left \<le> 1000000 * (n - k)"
      using n(2,5) by auto
    moreover have "fst (wake j) = S_WAITING \<and> \<not> snd (wake j)" if "k \<le> j" "j < n - 1" for j
      using that n(6) False w by (cases "j = k"; cases status) auto
    ultimately show ?thesis using n(1,2,4) step by (intro exI [of _ n] exI [of _ b]) simp
  qed
qed

lemma wait_loop_forever:
  assumes "timeout <s 0" "fst (wake (k + n)) = S_NOTIFIED \<or> snd (wake (k + n))"
    "\<And>j. j < n \<Longrightarrow> fst (wake (k + j)) = S_WAITING \<and> \<not> snd (wake (k + j))"
  shows "wait_loop wake timeout left k = Some (k + n + 1, fst (wake (k + n)) = S_WAITING)"
  using assms(2,3)
proof (induction n arbitrary: k)
  case 0
  then show ?case using assms(1) by (subst wait_loop.simps) (auto simp: split_beta)
next
  case (Suc n)
  have "wait_loop wake timeout left k = wait_loop wake timeout left (k + 1)"
    using Suc.prems(2) [of 0] assms(1) by (subst wait_loop.simps) (auto simp: split_beta)
  also have "\<dots> = Some (k + 1 + n + 1, fst (wake (k + 1 + n)) = S_WAITING)"
    using Suc.prems(1) Suc.prems(2) [of "Suc j" for j] by (intro Suc.IH) (simp_all del: prod.collapse)
  finally show ?case by simp
qed

text \<open>C14: A waiting thread comes back. With a timeout of \<open>timeout\<close> nanoseconds, not negative, the
  loop ends, whatever the other threads do and however often the thread wakes up for no reason,
  after at most one wake-up for each second begun; it reports a timeout only when the time is used
  up or the thread was terminated, and otherwise a notification. With a negative timeout it ends
  at the first wake-up at which the node has been notified or the thread terminated.\<close>
theorem atomic_wait_returns:
  shows "(\<not> timeout <s 0 \<longrightarrow>
      (\<exists>n b. wait_loop wake timeout (timeout div 1000) 0 = Some (n, b)
        \<and> 0 < n \<and> n \<le> unat timeout div 1000 div 1000000 + 1
        \<and> b = (fst (wake (n - 1)) = S_WAITING)
        \<and> (b \<longrightarrow> snd (wake (n - 1)) \<or> unat timeout div 1000 \<le> 1000000 * n)
        \<and> (\<forall>j < n - 1. fst (wake j) = S_WAITING \<and> \<not> snd (wake j))))
    \<and> (timeout <s 0 \<longrightarrow> (\<exists>k. fst (wake k) = S_NOTIFIED \<or> snd (wake k)) \<longrightarrow>
      (\<exists>n. wait_loop wake timeout left 0 = Some (n + 1, fst (wake n) = S_WAITING)
        \<and> (fst (wake n) = S_NOTIFIED \<or> snd (wake n))
        \<and> (\<forall>j < n. fst (wake j) = S_WAITING \<and> \<not> snd (wake j))))"
proof (intro conjI impI)
  assume "\<not> timeout <s 0"
  from wait_loop_timeout [OF this, of wake "timeout div 1000" 0]
  show "\<exists>n b. wait_loop wake timeout (timeout div 1000) 0 = Some (n, b)
        \<and> 0 < n \<and> n \<le> unat timeout div 1000 div 1000000 + 1
        \<and> b = (fst (wake (n - 1)) = S_WAITING)
        \<and> (b \<longrightarrow> snd (wake (n - 1)) \<or> unat timeout div 1000 \<le> 1000000 * n)
        \<and> (\<forall>j < n - 1. fst (wake j) = S_WAITING \<and> \<not> snd (wake j))"
    by (simp add: unat_div)
next
  let ?P = "\<lambda>k. fst (wake k) = S_NOTIFIED \<or> snd (wake k)"
  assume neg: "timeout <s 0" and "\<exists>k. ?P k"
  define n where "n = (LEAST k. ?P k)"
  have n: "?P n" unfolding n_def using \<open>\<exists>k. ?P k\<close> by (rule LeastI_ex)
  have "\<not> ?P j" if "j < n" for j using that not_less_Least unfolding n_def by blast
  then have before: "fst (wake j) = S_WAITING \<and> \<not> snd (wake j)" if "j < n" for j
    using that by (metis wait_status.exhaust)
  have "wait_loop wake timeout left 0 = Some (n + 1, fst (wake n) = S_WAITING)"
    using wait_loop_forever [OF neg, of wake 0 n left] n before by simp
  then show "\<exists>n. wait_loop wake timeout left 0 = Some (n + 1, fst (wake n) = S_WAITING)
        \<and> ?P n \<and> (\<forall>j < n. fst (wake j) = S_WAITING \<and> \<not> snd (wake j))"
    using n before by blast
qed

lemma atomic_wait_returns_witness:
  "(\<exists>n b. wait_loop (\<lambda>k. (S_WAITING, False)) 2500000000 (2500000000 div 1000) 0 = Some (n, b) \<and> n \<le> 3)
   \<and> (\<exists>n. wait_loop (\<lambda>k. (if k = 5 then S_NOTIFIED else S_WAITING, False)) (-1) 0 0 = Some (n + 1, False))"
proof
  let ?u = "\<lambda>k :: nat. (S_WAITING, False)"
  have "\<not> (2500000000 :: 64 word) <s 0" by (simp add: word_sless_alt)
  from mp [OF conjunct1 [OF atomic_wait_returns [of 2500000000 ?u 0]] this]
  obtain n b where n: "wait_loop ?u 2500000000 (2500000000 div 1000) 0 = Some (n, b)"
    "n \<le> unat (2500000000 :: 64 word) div 1000 div 1000000 + 1" by blast
  have "n \<le> 3" using n(2) by simp
  then show "\<exists>n b. wait_loop ?u 2500000000 (2500000000 div 1000) 0 = Some (n, b) \<and> n \<le> 3"
    using n(1) by blast
  let ?w = "\<lambda>k. (if k = (5 :: nat) then S_NOTIFIED else S_WAITING, False)"
  have neg: "(-1 :: 64 word) <s 0" by (simp add: word_sless_alt)
  have "\<exists>k. fst (?w k) = S_NOTIFIED \<or> snd (?w k)" by (rule exI [of _ 5]) simp
  from mp [OF mp [OF conjunct2 [OF atomic_wait_returns [of "-1" ?w 0]] neg] this]
  obtain n where n: "wait_loop ?w (-1) 0 0 = Some (n + 1, fst (?w n) = S_WAITING)"
    "fst (?w n) = S_NOTIFIED \<or> snd (?w n)" by blast
  from n(2) have "n = 5" by (simp split: if_splits)
  then show "\<exists>n. wait_loop ?w (-1) 0 0 = Some (n + 1, False)" using n(1) by auto
qed

section \<open>Any number of threads\<close>

definition wasm_shared_memory_init :: "(u32 \<Rightarrow> bool) \<Rightarrow> u32 \<Rightarrow> bool \<Rightarrow> bool \<Rightarrow> (u32, u32) HashMap option" where
  "wasm_shared_memory_init av mutex_size lock_ok map_lock_ok =
     (if \<not> lock_ok then None
      else bh_hash_map_create av mutex_size map_lock_ok 32 True (Some wait_address_hash)
             (Some wait_address_equal) False True)"

text \<open>A state of the system: the shared objects, and for the node of each sleeping thread the
  address it waits on and the wait info it holds. The allocator gives addresses that are not in use
  (\<open>fresh\<close>), and the memory of an instance is not at address 0.\<close>

type_synonym threads = "u32 \<Rightarrow> (u32 \<times> u32) option"

definition fresh :: "threads \<Rightarrow> u32 \<Rightarrow> u32 \<Rightarrow> bool" where
  "fresh T new_node new_info \<longleftrightarrow> T new_node = None \<and> (\<forall>n a. T n \<noteq> Some (a, new_info))"

inductive wait_step :: "wait_state \<times> threads \<Rightarrow> wait_state \<times> threads \<Rightarrow> bool" where
  sleep: "fresh T new_node new_info \<Longrightarrow> mem_data E \<noteq> 0 \<Longrightarrow>
    atomic_wait_begin E new_node new_info av st a expect wait64 = (st', Inr i) \<Longrightarrow>
    wait_step (st, T) (st', T(new_node \<mapsto> (a, i)))"
| no_sleep: "fresh T new_node new_info \<Longrightarrow> mem_data E \<noteq> 0 \<Longrightarrow>
    atomic_wait_begin E new_node new_info av st a expect wait64 = (st', Inl r) \<Longrightarrow>
    wait_step (st, T) (st', T)"
| notify: "wasm_runtime_atomic_notify E st a count = (st', r) \<Longrightarrow> wait_step (st, T) (st', T)"
| wake_up: "T node = Some (a, i) \<Longrightarrow> atomic_wait_end st a i node = Some (st', r) \<Longrightarrow>
    wait_step (st, T) (st', T(node := None))"

inductive_cases wait_stepE: "wait_step s t"

definition wait_init :: "wait_state \<times> threads \<Rightarrow> bool" where
  "wait_init s \<longleftrightarrow> snd s = Map.empty \<and> (\<exists>av msz. wasm_shared_memory_init av msz True True = Some (wait_map (fst s)))"

definition wait_inv :: "wait_state \<times> threads \<Rightarrow> bool" where
  "wait_inv s \<longleftrightarrow> (\<exists>W. wait_rel (fst s) W \<and> (\<forall>n. snd s n = None \<longleftrightarrow> (\<forall>a. n \<notin> set (W a)))
     \<and> (\<forall>n a i. snd s n = Some (a, i) \<longrightarrow> n \<in> set (W a) \<and> info_of (fst s) a = Some (Some i)))"

lemma wait_init_inv: "wait_init s \<Longrightarrow> wait_inv s"
proof -
  assume "wait_init s"
  then obtain av msz where T: "snd s = Map.empty"
    and "bh_hash_map_create av msz True 32 True (Some wait_address_hash) (Some wait_address_equal) False True
      = Some (wait_map (fst s))"
    by (auto simp: wait_init_def wasm_shared_memory_init_def)
  from create_the_map [OF this(2) keys_ok_address]
  have "wait_rel (fst s) (\<lambda>_. [])" by (simp add: wait_rel_def)
  then show ?thesis using T by (auto simp: wait_inv_def intro!: exI [of _ "\<lambda>_. []"])
qed

lemma begin_cases:
  assumes "atomic_wait_begin E new_node new_info av st a expect wait64 = (st', r)"
  shows "st' = st \<and> (\<exists>x. r = Inl x)
    \<or> new_node \<noteq> 0 \<and> mem_data E \<le> a \<and>
      (\<exists>i. acquire_wait_info new_info av (st\<lparr>node_status := (node_status st)(new_node := S_WAITING)\<rparr>) a new_node
           = (st', i) \<and> (if i = 0 then \<exists>x. r = Inl x else r = Inr i))"
  using assms by (auto simp: atomic_wait_begin_def Let_def not_less split: if_splits prod.splits)

lemma live_info:
  assumes "wait_rel st W" "\<And>n. T n = None \<longleftrightarrow> (\<forall>a. n \<notin> set (W a))"
    "\<And>n a i. T n = Some (a, i) \<Longrightarrow> n \<in> set (W a) \<and> info_of st a = Some (Some i)"
    "info_of st b = Some (Some j)"
  shows "\<exists>n a. T n = Some (a, j)"
proof -
  obtain n where n: "n \<in> set (W b)"
    using wait_relD(3) [OF assms(1), of b] assms(4) by (cases "W b") auto
  then obtain a i where t: "T n = Some (a, i)" using assms(2) [of n] by (cases "T n") auto
  then have "a = b" using assms(3) [OF t] n wait_relD(8) [OF assms(1)] by blast
  then show ?thesis using assms(3) [OF t] assms(4) t by auto
qed

lemma begin_inv:
  assumes "wait_inv (st, T)" "fresh T new_node new_info" "mem_data E \<noteq> 0"
    "atomic_wait_begin E new_node new_info av st a expect wait64 = (st', r)"
  shows "wait_inv (st', case r of Inl _ \<Rightarrow> T | Inr i \<Rightarrow> T(new_node \<mapsto> (a, i)))"
proof -
  from assms(1) obtain W where W: "wait_rel st W" "\<And>n. T n = None \<longleftrightarrow> (\<forall>a. n \<notin> set (W a))"
    "\<And>n a i. T n = Some (a, i) \<Longrightarrow> n \<in> set (W a) \<and> info_of st a = Some (Some i)"
    by (auto simp: wait_inv_def)
  let ?st = "st\<lparr>node_status := (node_status st)(new_node := S_WAITING)\<rparr>"
  consider "st' = st" "\<exists>x. r = Inl x"
    | i where "new_node \<noteq> 0" "mem_data E \<le> a" "acquire_wait_info new_info av ?st a new_node = (st', i)"
      "if i = 0 then \<exists>x. r = Inl x else r = Inr i"
    using begin_cases [OF assms(4)] by blast
  then show ?thesis
  proof cases
    case 1
    then show ?thesis using assms(1) by auto
  next
    case (2 i)
    have a: "a \<noteq> 0" using assms(3) 2(2) by auto
    have rel: "wait_rel ?st W" using W(1) by (simp add: wait_rel_status)
    have nn: "\<And>b. new_node \<notin> set (W b)" using W(2) assms(2) by (simp add: fresh_def)
    have ni: "\<And>b. new_info \<noteq> 0 \<Longrightarrow> info_of ?st b \<noteq> Some (Some new_info)"
      using live_info [OF W] assms(2) by (auto simp: fresh_def)
    note acq = acquire_wait_info_rel [OF rel a 2(1) nn ni 2(3)]
    show ?thesis
    proof (cases "i = 0")
      case True
      then show ?thesis using acq W 2(4) by (auto simp: wait_inv_def)
    next
      case False
      let ?W = "W(a := new_node # W a)" and ?T = "T(new_node \<mapsto> (a, i))"
      have acq': "wait_rel st' ?W" "info_of st' a = Some (Some i)"
        "\<And>b. b \<noteq> a \<or> info_of st a \<noteq> None \<Longrightarrow> info_of st' b = info_of st b"
        using acq False by auto
      have dom: "?T n = None \<longleftrightarrow> (\<forall>b. n \<notin> set (?W b))" for n using W(2) [of n] by auto
      have info: "n \<in> set (?W b) \<and> info_of st' b = Some (Some j)" if "?T n = Some (b, j)" for n b j
      proof (cases "n = new_node")
        case True
        then show ?thesis using that acq'(2) by simp
      next
        case neq: False
        then have t: "T n = Some (b, j)" using that by simp
        then have "info_of st' b = info_of st b" using acq'(3) W(3) [OF t] by (cases "b = a") auto
        then show ?thesis using W(3) [OF t] neq by auto
      qed
      have "wait_inv (st', ?T)"
        unfolding wait_inv_def fst_conv snd_conv using acq'(1) dom info by blast
      then show ?thesis using False 2(4) by simp
    qed
  qed
qed


lemma end_inv:
  assumes "wait_inv (st, T)" "T node = Some (a, i)"
  shows "is_wait_node_exists st i node = Some True
    \<and> (\<exists>st'. atomic_wait_end st a i node = Some (st', if node_status st node = S_WAITING then 2 else 0)
         \<and> wait_inv (st', T(node := None)))"
proof -
  from assms(1) obtain W where W: "wait_rel st W" "\<And>n. T n = None \<longleftrightarrow> (\<forall>a. n \<notin> set (W a))"
    "\<And>n a i. T n = Some (a, i) \<Longrightarrow> n \<in> set (W a) \<and> info_of st a = Some (Some i)"
    by (auto simp: wait_inv_def)
  note n = W(3) [OF assms(2)]
  let ?W = "W(a := remove1 node (W a))" and ?T = "T(node := None)"
  obtain st' where e: "is_wait_node_exists st i node = Some True"
    "atomic_wait_end st a i node = Some (st', if node_status st node = S_WAITING then 2 else 0)"
    "wait_rel st' ?W" "\<And>b. b \<noteq> a \<or> remove1 node (W a) \<noteq> [] \<Longrightarrow> info_of st' b = info_of st b"
    using atomic_wait_end_rel [OF W(1) conjunct1 [OF n] conjunct2 [OF n]] by blast
  have "distinct (W a)"
    using bl.rep_elems wait_relD(5) [OF W(1)] n by blast
  then have set: "set (remove1 node (W a)) = set (W a) - {node}" by (rule set_remove1_eq)
  have dom: "?T m = None \<longleftrightarrow> (\<forall>b. m \<notin> set (?W b))" for m
    using W(2) [of m] set n wait_relD(8) [OF W(1)] by (auto split: if_splits)
  have info: "m \<in> set (?W b) \<and> info_of st' b = Some (Some j)" if "?T m = Some (b, j)" for m b j
  proof -
    from that have m: "m \<noteq> node" "T m = Some (b, j)" by (auto split: if_splits)
    note mb = W(3) [OF m(2)]
    have "b = a \<Longrightarrow> remove1 node (W a) \<noteq> []" using mb m(1) set by (metis DiffI empty_iff list.set(1) singletonD)
    then show ?thesis using e(4) [of b] mb m(1) set by auto
  qed
  have "wait_inv (st', ?T)"
    unfolding wait_inv_def fst_conv snd_conv using e(3) dom info by blast
  then show ?thesis using e(1,2) by blast
qed

lemma notify_status:
  "wasm_runtime_atomic_notify E st a count = (st', r) \<Longrightarrow> \<exists>s. st' = st\<lparr>node_status := s\<rparr>"
  by (cases st) (auto simp: wasm_runtime_atomic_notify_def notify_wait_list_def Let_def
      intro: exI [of _ "node_status st"] split: if_splits prod.splits)

lemma wait_inv_status: "wait_inv (st\<lparr>node_status := s\<rparr>, T) = wait_inv (st, T)"
  by (simp add: wait_inv_def wait_rel_status)

lemma wait_step_inv: "wait_step s t \<Longrightarrow> wait_inv s \<Longrightarrow> wait_inv t"
proof (induction rule: wait_step.induct)
  case (sleep T new_node new_info E av st a expect wait64 st' i)
  then show ?case using begin_inv [OF sleep.prems sleep.hyps(1-3)] by simp
next
  case (no_sleep T new_node new_info E av st a expect wait64 st' r)
  then show ?case using begin_inv [OF no_sleep.prems no_sleep.hyps(1-3)] by simp
next
  case (notify E st a count st' r T)
  then show ?case using notify_status [OF notify.hyps] by (auto simp: wait_inv_status)
next
  case (wake_up T node a i st st' r)
  then show ?case using end_inv [OF wake_up.prems wake_up.hyps(1)] by auto
qed

lemma wait_reach_inv: "wait_step\<^sup>*\<^sup>* s t \<Longrightarrow> wait_inv s \<Longrightarrow> wait_inv t"
  by (induction rule: rtranclp_induct) (auto intro: wait_step_inv)

text \<open>C7: In every state that any number of threads can reach by waiting, notifying and waking up in
  any order, what a sleeping thread remembered is still there when it wakes up: the wait info is
  the one the map has for its address, its node is in that list, the last section of the wait
  succeeds, and it tells a notification from a timeout by the status of the node. No wait info is
  released while a thread uses it, and the lists of two addresses never mix.\<close>
theorem waiters_stay_registered:
  assumes "wait_init s0" "wait_step\<^sup>*\<^sup>* s0 (st, T)" "T node = Some (a, i)"
  shows "info_of st a = Some (Some i)
    \<and> is_wait_node_exists st i node = Some True
    \<and> (\<exists>st'. atomic_wait_end st a i node = Some (st', if node_status st node = S_WAITING then 2 else 0)
         \<and> (\<forall>node' a' i'. node' \<noteq> node \<longrightarrow> T node' = Some (a', i') \<longrightarrow>
              is_wait_node_exists st' i' node' = Some True \<and> info_of st' a' = Some (Some i')))"
proof -
  have inv: "wait_inv (st, T)" by (rule wait_reach_inv [OF assms(2) wait_init_inv [OF assms(1)]])
  then have "info_of st a = Some (Some i)" using assms(3) by (auto simp: wait_inv_def)
  moreover obtain st' where e: "is_wait_node_exists st i node = Some True"
    "atomic_wait_end st a i node = Some (st', if node_status st node = S_WAITING then 2 else 0)"
    "wait_inv (st', T(node := None))"
    using end_inv [OF inv assms(3)] by blast
  moreover have "is_wait_node_exists st' i' node' = Some True \<and> info_of st' a' = Some (Some i')"
    if "node' \<noteq> node" "T node' = Some (a', i')" for node' a' i'
  proof
    have t: "(T(node := None)) node' = Some (a', i')" using that by simp
    show "is_wait_node_exists st' i' node' = Some True" using end_inv [OF e(3) t] by blast
    show "info_of st' a' = Some (Some i')" using e(3) t by (auto simp: wait_inv_def)
  qed
  ultimately show ?thesis by blast
qed

text \<open>C26: A notification of \<open>count\<close> waiters at an address marks the first \<open>count\<close> nodes of its list,
  the latest that came first, and gives their number, whether or not they had been marked before
  and are only waiting for the mutex. So two notifications of one waiter each, before the first
  woken thread runs, both report one waiter, mark the same node, and leave the second waiter
  asleep.\<close>
theorem notify_marks_the_head_again:
  assumes "wait_rel st W" "is_shared E" "\<not> address < mem_data E" "\<not> address + 4 > mem_data_end E"
  shows "wasm_runtime_atomic_notify E st address count =
      (st\<lparr>node_status := notified (take (unat count) (W address)) (node_status st)\<rparr>,
       of_nat (min (unat count) (length (W address))), None)
    \<and> (\<forall>x y ys st1 r1 st2 r2. W address = x # y # ys \<longrightarrow> node_status st y = S_WAITING \<longrightarrow>
        wasm_runtime_atomic_notify E st address 1 = (st1, r1) \<longrightarrow>
        wasm_runtime_atomic_notify E st1 address 1 = (st2, r2) \<longrightarrow>
        r1 = (1, None) \<and> r2 = (1, None) \<and> st2 = st1 \<and> node_status st2 y = S_WAITING)"
proof (intro conjI allI impI)
  show "wasm_runtime_atomic_notify E st address count =
      (st\<lparr>node_status := notified (take (unat count) (W address)) (node_status st)\<rparr>,
       of_nat (min (unat count) (length (W address))), None)"
    by (rule notify_rel [OF assms])
next
  fix x y ys st1 r1 st2 r2
  assume xs: "W address = x # y # ys" and y: "node_status st y = S_WAITING"
    and 1: "wasm_runtime_atomic_notify E st address 1 = (st1, r1)"
    and 2: "wasm_runtime_atomic_notify E st1 address 1 = (st2, r2)"
  obtain v where "info_of st address = Some v" using wait_relD(3) [OF assms(1), of address] xs by auto
  then obtain i where "info_of st address = Some (Some i)"
    using wait_relD(6) [OF assms(1)] by (cases v) auto
  then have "distinct (W address)" using wait_relD(5) [OF assms(1)] bl.rep_elems by blast
  then have neq: "y \<noteq> x" using xs by auto
  have st1: "st1 = st\<lparr>node_status := notified [x] (node_status st)\<rparr>" "r1 = (1, None)"
    using 1 notify_rel [OF assms, of 1] xs by auto
  then have rel: "wait_rel st1 W" using assms(1) by (simp add: wait_rel_status)
  have "notified [x] (notified [x] s) = notified [x] s" for s by (simp add: notified_def fun_eq_iff)
  then have st2: "st2 = st1" "r2 = (1, None)"
    using 2 notify_rel [OF rel assms(2-4), of 1] xs st1(1) by auto
  show "r1 = (1, None)" "r2 = (1, None)" "st2 = st1" using st1 st2 by auto
  show "node_status st2 y = S_WAITING" using st1 st2 y neq by (simp add: notified_def)
qed


section \<open>Instances\<close>

definition no_waiters :: wait_state where
  "no_waiters = \<lparr>wait_map = the (wasm_shared_memory_init (\<lambda>_. True) 4 True True),
     infos = (\<lambda>_. \<lparr>head_next = 0, list_len = 0\<rparr>), node_link = (\<lambda>_. 0), node_status = (\<lambda>_. S_WAITING)\<rparr>"

definition zero_memory :: wait_env where
  "zero_memory = \<lparr>has_exception = False, is_shared = True, mem_data = 64, mem_data_end = 1088,
     mem_bytes = (\<lambda>_. 0), cond_init_ok = True\<rparr>"

lemma no_waiters_init: "wait_init (no_waiters, Map.empty)"
  by (auto simp: wait_init_def no_waiters_def wasm_shared_memory_init_def bh_hash_map_create_def
      HASH_MAP_MIN_SIZE_def HASH_MAP_MAX_SIZE_def)

lemma no_waiters_rel: "wait_rel no_waiters (\<lambda>_. [])"
proof -
  have "bh_hash_map_create (\<lambda>_. True) 4 True 32 True (Some wait_address_hash) (Some wait_address_equal)
      False True = Some (wait_map no_waiters)"
    by (simp add: no_waiters_def wasm_shared_memory_init_def bh_hash_map_create_def
        HASH_MAP_MIN_SIZE_def HASH_MAP_MAX_SIZE_def)
  from create_the_map [OF this keys_ok_address] show ?thesis by (simp add: wait_rel_def)
qed

lemma waiters_stay_registered_witness:
  "\<exists>st T. wait_step\<^sup>*\<^sup>* (no_waiters, Map.empty) (st, T) \<and> T 8 = Some (100, 16)
     \<and> is_wait_node_exists st 16 8 = Some True"
proof -
  have r: "snd (atomic_wait_begin zero_memory 8 16 True no_waiters 100 0 False) = Inr 16"
    by code_simp
  then obtain st where b: "atomic_wait_begin zero_memory 8 16 True no_waiters 100 0 False = (st, Inr 16)"
    by (metis prod.collapse)
  let ?T = "Map.empty(8 \<mapsto> (100, 16)) :: threads"
  have "wait_step (no_waiters, Map.empty) (st, ?T)"
    by (rule wait_step.sleep [OF _ _ b]) (simp_all add: fresh_def zero_memory_def)
  then have s: "wait_step\<^sup>*\<^sup>* (no_waiters, Map.empty) (st, ?T)" by blast
  have "is_wait_node_exists st 16 8 = Some True"
    using waiters_stay_registered [OF no_waiters_init s, of 8 100 16] by simp
  then show ?thesis using s by (intro exI [of _ st] exI [of _ ?T]) simp
qed

lemma two_waiters:
  "\<exists>st. wait_rel st ((\<lambda>_. [])(100 := [12, 8])) \<and> node_status st 8 = S_WAITING"
proof -
  have none: "info_of no_waiters b = None" for b using wait_relD(3) [OF no_waiters_rel, of b] by simp
  have "snd (acquire_wait_info 16 True no_waiters 100 8) = 16" by code_simp
  then obtain s1 where s1: "acquire_wait_info 16 True no_waiters 100 8 = (s1, 16)" by (metis prod.collapse)
  have rel1: "wait_rel s1 ((\<lambda>_. [])(100 := [8]))" "info_of s1 100 = Some (Some 16)"
    "node_status s1 = node_status no_waiters"
    using acquire_wait_info_rel [OF no_waiters_rel _ _ _ _ s1] none by simp_all
  obtain s2 i where s2: "acquire_wait_info 0 True s1 100 12 = (s2, i)" by (rule prod.exhaust)
  have "i = 16"
    using s2 find_info_rel [OF rel1(1), of 100] rel1(2) by (simp add: acquire_wait_info_def)
  moreover have "12 \<notin> set (((\<lambda>_. [])(100 := [8 :: u32])) b)" for b :: u32 by simp
  ultimately have "wait_rel s2 (((\<lambda>_. [])(100 := [8]))(100 := 12 # [8]))" "node_status s2 = node_status s1"
    using acquire_wait_info_rel [OF rel1(1) _ _ _ _ s2] by simp_all
  then show ?thesis using rel1(3) by (intro exI [of _ s2]) (simp add: no_waiters_def)
qed

lemma notify_marks_the_head_again_witness:
  "\<exists>st st1 st2. wasm_runtime_atomic_notify zero_memory st 100 1 = (st1, 1, None)
     \<and> wasm_runtime_atomic_notify zero_memory st1 100 1 = (st2, 1, None) \<and> node_status st2 8 = S_WAITING"
proof -
  obtain s2 where rel2: "wait_rel s2 ((\<lambda>_. [])(100 := [12, 8]))" and w: "node_status s2 8 = S_WAITING"
    using two_waiters by blast
  have E: "is_shared zero_memory" "\<not> 100 < mem_data zero_memory" "\<not> 100 + 4 > mem_data_end zero_memory"
    by (simp_all add: zero_memory_def)
  obtain t1 r1 where t1: "wasm_runtime_atomic_notify zero_memory s2 100 1 = (t1, r1)" by (rule prod.exhaust)
  obtain t2 r2 where t2: "wasm_runtime_atomic_notify zero_memory t1 100 1 = (t2, r2)" by (rule prod.exhaust)
  have "((\<lambda>_. [])(100 := [12, 8 :: u32])) 100 = 12 # 8 # []" by simp
  with conjunct2 [OF notify_marks_the_head_again [OF rel2 E, of 1]] t1 t2 w
  have "r1 = (1, None) \<and> r2 = (1, None) \<and> node_status t2 8 = S_WAITING" by blast
  then show ?thesis using t1 t2 by blast
qed

end
