(* ===== verification/Native_Symbols.thy ===== *)
theory Native_Symbols
  imports Loader_Stack "HOL-Library.Char_ord" "HOL-Library.List_Lexorder"
begin

text \<open>
  The registry of native functions (\<^verbatim>\<open>core/iwasm/common/wasm_native.c\<close>), and the functions that the
  firmware registers (\<^verbatim>\<open>src/main/function_registry.c\<close>). A C string is a HOL string without the
  final zero. A registered array is sorted in place, so a node of the list has the sorted content;
  \<open>array_ptr\<close> is the address of the array, by which a registration is withdrawn.

  \<^verbatim>\<open>qsort\<close> and \<^verbatim>\<open>bsearch\<close> are those of the C library of the platform: a sort, here a stable one, and
  the halving search of newlib.
\<close>

section \<open>The check of a signature against a function type\<close>

text \<open>Reading a string at an offset: the final zero can be read, nothing behind it.\<close>

datatype 'a reading = Out_Of_String | Rejected | Reading 'a

definition char_at :: "string \<Rightarrow> nat \<Rightarrow> char reading" where
  "char_at s p = (if p < length s then Reading (s ! p)
                  else if p = length s then Reading (CHR 0x00) else Out_Of_String)"

fun bind_reading :: "'a reading \<Rightarrow> ('a \<Rightarrow> 'b reading) \<Rightarrow> 'b reading" where
  "bind_reading (Reading x) f = f x"
| "bind_reading Rejected f = Rejected"
| "bind_reading Out_Of_String f = Out_Of_String"

definition compare_type_with_signature :: "u8 \<Rightarrow> char \<Rightarrow> bool" where
  "compare_type_with_signature type signature =
     (VALUE_TYPE_F64 \<le> type \<and> type \<le> VALUE_TYPE_I32
      \<and> signature = ''FfIi'' ! unat (type - VALUE_TYPE_F64))"

text \<open>The loop over the parameters: the index of the type and the offset in the string.\<close>

function params_loop :: "WASMFuncType \<Rightarrow> string \<Rightarrow> nat \<Rightarrow> nat \<Rightarrow> (nat \<times> nat) reading" where
  "params_loop type s i p =
     (if i < param_count type then
        bind_reading (char_at s p) (\<lambda>sig.
          if compare_type_with_signature (types type ! i) sig then params_loop type s (i + 1) (p + 1)
          else if types type ! i \<noteq> VALUE_TYPE_I32 then Rejected
          else if sig = CHR ''*'' then
            if i + 1 < param_count type \<and> types type ! (i + 1) = VALUE_TYPE_I32 then
              bind_reading (char_at s (p + 1)) (\<lambda>c.
                if c = CHR ''~'' then params_loop type s (i + 2) (p + 2)
                else params_loop type s (i + 1) (p + 1))
            else params_loop type s (i + 1) (p + 1)
          else if sig = CHR ''$'' then params_loop type s (i + 1) (p + 1)
          else Rejected)
      else Reading (i, p))"
  by pat_completeness auto
termination by (relation "measure (\<lambda>(type, _, i, _). param_count type - i)") auto

declare params_loop.simps [simp del]

text \<open>The lengths are compared as \<^verbatim>\<open>uint32\<close>.\<close>

definition check_symbol_signature :: "WASMFuncType \<Rightarrow> string option \<Rightarrow> bool reading" where
  "check_symbol_signature type signature =
     (case signature of None \<Rightarrow> Reading False
      | Some s \<Rightarrow>
         if length s < 2 then Reading False
         else bind_reading (char_at s 0) (\<lambda>c.
           if c \<noteq> CHR ''('' then Reading False
           else if (of_nat (length s - 1) :: u32) < of_nat (param_count type + 1) then Reading False
           else (case params_loop type s 0 1 of
                   Out_Of_String \<Rightarrow> Out_Of_String
                 | Rejected \<Rightarrow> Reading False
                 | Reading (i, p) \<Rightarrow>
                     bind_reading (char_at s p) (\<lambda>c.
                       if c \<noteq> CHR '')'' then Reading False
                       else let p = p + 1 in
                         if result_count type \<noteq> 0 then
                           if p \<ge> length s then Reading False
                           else bind_reading (char_at s p) (\<lambda>c.
                             if \<not> compare_type_with_signature (types type ! i) c then Reading False
                             else bind_reading (char_at s (p + 1)) (\<lambda>c. Reading (c = CHR 0x00)))
                         else bind_reading (char_at s p) (\<lambda>c. Reading (c = CHR 0x00))))))"

text \<open>What a signature says about the types: the parameters in parentheses, then the first result.
  A letter is a number, \<open>$\<close> a string, \<open>*\<close> a pointer, and \<open>*~\<close> a pointer with its length.\<close>

fun params_match :: "u8 list \<Rightarrow> string \<Rightarrow> bool" where
  "params_match [] cs = (cs = [])"
| "params_match (t # ts) [] = False"
| "params_match (t # ts) (c # cs) =
     (if compare_type_with_signature t c then params_match ts cs
      else t = VALUE_TYPE_I32 \<and>
        (c = CHR ''*'' \<and>
           (case (ts, cs) of
              (t' # ts', c' # cs') \<Rightarrow>
                if t' = VALUE_TYPE_I32 \<and> c' = CHR ''~'' then params_match ts' cs' else params_match ts cs
            | _ \<Rightarrow> params_match ts cs)
         \<or> c = CHR ''$'' \<and> params_match ts cs))"

definition signature_fits :: "WASMFuncType \<Rightarrow> string \<Rightarrow> bool" where
  "signature_fits type s \<longleftrightarrow>
     (\<exists>ps rs. s = ''('' @ ps @ '')'' @ rs \<and> length ps = param_count type
        \<and> params_match (take (param_count type) (types type)) ps
        \<and> (if result_count type = 0 then rs = []
           else \<exists>c. rs = [c] \<and> compare_type_with_signature (types type ! param_count type) c))"


lemma of_nat_less_u32: "a < 2 ^ 32 \<Longrightarrow> b < 2 ^ 32 \<Longrightarrow> (of_nat a :: u32) < of_nat b \<longleftrightarrow> a < b"
  by (simp add: word_less_nat_alt unat_of_nat take_bit_nat_eq_self)

lemma params_loop_spec:
  assumes "param_count f + 2 \<le> length s" "param_count f \<le> length (types f)" "i \<le> param_count f"
  shows "params_loop f s i (i + 1) =
    (if params_match (drop i (take (param_count f) (types f))) (take (param_count f - i) (drop (i + 1) s))
     then Reading (param_count f, param_count f + 1) else Rejected)"
  using assms(3)
proof (induction "param_count f - i" arbitrary: i rule: less_induct)
  case less
  let ?n = "param_count f" and ?T = "take (param_count f) (types f)"
  show ?case
  proof (cases "i < ?n")
    case False
    then show ?thesis using less.prems by (simp add: params_loop.simps)
  next
    case True
    define t c where tc: "t = types f ! i" "c = s ! (i + 1)"
    have IH1: "params_loop f s (i + 1) (i + 2) =
        (if params_match (drop (i + 1) ?T) (take (?n - (i + 1)) (drop (i + 2) s))
         then Reading (?n, ?n + 1) else Rejected)"
      using less.hyps [of "i + 1"] True by simp
    have T: "drop i ?T = t # drop (i + 1) ?T"
      using True assms(2) by (simp add: tc Cons_nth_drop_Suc [symmetric])
    have C: "take (?n - i) (drop (i + 1) s) = c # take (?n - (i + 1)) (drop (i + 2) s)"
    proof -
      have "drop (i + 1) s = c # drop (i + 2) s"
        using True assms(1) by (simp add: tc Cons_nth_drop_Suc)
      moreover have "?n - i = Suc (?n - (i + 1))" using True by simp
      ultimately show ?thesis by simp
    qed
    have at: "char_at s (i + 1) = Reading c" "char_at s (i + 2) = Reading (s ! (i + 2))"
      using True assms(1) by (auto simp: char_at_def tc)
    have step: "params_loop f s i (i + 1) =
       (if compare_type_with_signature t c then params_loop f s (i + 1) (i + 2)
        else if t \<noteq> VALUE_TYPE_I32 then Rejected
        else if c = CHR ''*'' then
          if i + 1 < ?n \<and> types f ! (i + 1) = VALUE_TYPE_I32 then
            if s ! (i + 2) = CHR ''~'' then params_loop f s (i + 2) (i + 3)
            else params_loop f s (i + 1) (i + 2)
          else params_loop f s (i + 1) (i + 2)
        else if c = CHR ''$'' then params_loop f s (i + 1) (i + 2)
        else Rejected)"
      by (subst params_loop.simps) (use True at in \<open>simp add: tc numeral_3_eq_3\<close>)
    show ?thesis
    proof (cases "i + 1 < ?n")
      case False
      then show ?thesis unfolding step IH1 T C by auto
    next
      case more: True
      then have T2: "drop (i + 1) ?T = types f ! (i + 1) # drop (i + 2) ?T"
        using assms(2) by (simp add: Cons_nth_drop_Suc [symmetric])
      have C2: "take (?n - (i + 1)) (drop (i + 2) s) = s ! (i + 2) # take (?n - (i + 2)) (drop (i + 3) s)"
      proof -
        have "drop (i + 2) s = s ! (i + 2) # drop (i + 3) s"
          using more assms(1) by (simp add: Cons_nth_drop_Suc numeral_3_eq_3)
        moreover have "?n - (i + 1) = Suc (?n - (i + 2))" using more by simp
        ultimately show ?thesis by simp
      qed
      have IH2: "params_loop f s (i + 2) (i + 3) =
        (if params_match (drop (i + 2) ?T) (take (?n - (i + 2)) (drop (i + 3) s))
         then Reading (?n, ?n + 1) else Rejected)"
        using less.hyps [of "i + 2"] more by (simp add: numeral_3_eq_3)
      show ?thesis
        unfolding step IH1 IH2 T C T2 C2 params_match.simps(3) [of t] list.case using more by auto
    qed
  qed
qed

lemma check_exact:
  assumes "CHR 0x00 \<notin> set s" "length s < 2 ^ 32" "param_count f < 2 ^ 16"
    "param_count f \<le> length (types f)"
  shows "check_symbol_signature f (Some s) = Reading (signature_fits f s)"
proof (cases "length s < param_count f + 2 \<or> s ! 0 \<noteq> CHR ''(''")
  case True
  have "\<not> signature_fits f s"
  proof
    assume "signature_fits f s"
    then obtain ps rs where "s = ''('' @ ps @ '')'' @ rs" "length ps = param_count f"
      by (auto simp: signature_fits_def)
    then show False using True by simp
  qed
  moreover have "(of_nat (length s - 1) :: u32) < of_nat (param_count f + 1) \<longleftrightarrow> length s - 1 < param_count f + 1"
    using assms(2,3) by (intro of_nat_less_u32) auto
  ultimately show ?thesis using True by (auto simp: check_symbol_signature_def char_at_def)
next
  case False
  let ?n = "param_count f" and ?T = "take (param_count f) (types f)" and ?P = "take (param_count f) (drop 1 s)"
  let ?r = "types f ! param_count f"
  have len: "?n + 2 \<le> length s" and open_par: "s ! 0 = CHR ''(''" using False by auto
  then have "\<not> (of_nat (length s - 1) :: u32) < of_nat (?n + 1)"
    using assms(2,3) by (subst of_nat_less_u32) auto
  moreover have "params_loop f s 0 1 = (if params_match ?T ?P then Reading (?n, ?n + 1) else Rejected)"
    using params_loop_spec [OF len assms(4), of 0] by simp
  moreover have nul: "s ! j \<noteq> CHR 0x00" if "j < length s" for j using assms(1) that by (metis nth_mem)
  ultimately have check: "check_symbol_signature f (Some s) = Reading
      (params_match ?T ?P \<and> s ! (?n + 1) = CHR '')'' \<and>
       (if result_count f = 0 then length s = ?n + 2
        else length s = ?n + 3 \<and> compare_type_with_signature ?r (s ! (?n + 2))))"
    using len open_par
    by (cases "params_match ?T ?P"; cases "result_count f = 0") (auto simp: check_symbol_signature_def char_at_def)
  have "s = (s ! 0) # ?P @ (s ! (?n + 1)) # drop (?n + 2) s"
  proof -
    have "s = (s ! 0) # drop 1 s" using len by (cases s) auto
    also have "drop 1 s = ?P @ drop (?n + 1) s" by (metis append_take_drop_id drop_drop)
    also have "drop (?n + 1) s = (s ! (?n + 1)) # drop (?n + 2) s"
      using len by (simp add: Cons_nth_drop_Suc)
    finally show ?thesis .
  qed
  then have split: "s = ''('' @ ?P @ [s ! (?n + 1)] @ drop (?n + 2) s" "length ?P = ?n"
    using open_par len by auto
  have parts: "ps = ?P \<and> s ! (?n + 1) = CHR '')'' \<and> rs = drop (?n + 2) s"
    if "s = ''('' @ ps @ '')'' @ rs" "length ps = ?n" for ps rs
    using that by (simp add: nth_append)
  have last_char: "(\<exists>c. drop (?n + 2) s = [c] \<and> Q c) \<longleftrightarrow> length s = ?n + 3 \<and> Q (s ! (?n + 2))" for Q
  proof
    assume "\<exists>c. drop (?n + 2) s = [c] \<and> Q c"
    then obtain c where c: "drop (?n + 2) s = [c]" "Q c" by blast
    then have "length s - (?n + 2) = 1" by (metis length_drop length_Cons list.size(3) One_nat_def)
    moreover have "s ! (?n + 2) = c" using c(1) len by (metis nth_drop nth_Cons_0 add.right_neutral)
    ultimately show "length s = ?n + 3 \<and> Q (s ! (?n + 2))" using c(2) by auto
  next
    assume *: "length s = ?n + 3 \<and> Q (s ! (?n + 2))"
    then have "drop (?n + 2) s = [s ! (?n + 2)]" by (simp add: Cons_nth_drop_Suc [symmetric])
    then show "\<exists>c. drop (?n + 2) s = [c] \<and> Q c" using * by blast
  qed
  have "signature_fits f s \<longleftrightarrow> params_match ?T ?P \<and> s ! (?n + 1) = CHR '')''
      \<and> (if result_count f = 0 then drop (?n + 2) s = []
         else \<exists>c. drop (?n + 2) s = [c] \<and> compare_type_with_signature ?r c)"
  proof
    assume "signature_fits f s"
    then obtain ps rs where p: "s = ''('' @ ps @ '')'' @ rs" "length ps = ?n" "params_match ?T ps"
      "if result_count f = 0 then rs = [] else \<exists>c. rs = [c] \<and> compare_type_with_signature ?r c"
      unfolding signature_fits_def by blast
    from parts [OF p(1,2)] p(3,4) show "params_match ?T ?P \<and> s ! (?n + 1) = CHR '')''
      \<and> (if result_count f = 0 then drop (?n + 2) s = []
         else \<exists>c. drop (?n + 2) s = [c] \<and> compare_type_with_signature ?r c)" by metis
  next
    assume *: "params_match ?T ?P \<and> s ! (?n + 1) = CHR '')''
      \<and> (if result_count f = 0 then drop (?n + 2) s = []
         else \<exists>c. drop (?n + 2) s = [c] \<and> compare_type_with_signature ?r c)"
    then have "s = ''('' @ ?P @ '')'' @ drop (?n + 2) s" using split(1) by metis
    then show "signature_fits f s" unfolding signature_fits_def using * split(2) by blast
  qed
  also have "(if result_count f = 0 then drop (?n + 2) s = []
         else \<exists>c. drop (?n + 2) s = [c] \<and> compare_type_with_signature ?r c)
      \<longleftrightarrow> (if result_count f = 0 then length s = ?n + 2
         else length s = ?n + 3 \<and> compare_type_with_signature ?r (s ! (?n + 2)))"
    unfolding last_char using len by auto
  finally show ?thesis unfolding check by simp
qed

text \<open>C20: The check of a registered signature against the type of an import never reads behind the
  final zero of the signature, and accepts exactly the signatures that describe the type: one
  letter for each parameter, a pointer followed by its length counting for two, and one letter for
  the first result when there is one.\<close>
theorem check_symbol_signature_exact:
  assumes "CHR 0x00 \<notin> set s" "length s < 2 ^ 32" "param_count f < 2 ^ 16"
    "param_count f \<le> length (types f)"
  shows "check_symbol_signature f (Some s) = Reading (signature_fits f s)"
  by (rule check_exact [OF assms])

lemma check_symbol_signature_exact_witness:
  "check_symbol_signature \<lparr>param_count = 3, result_count = 1, types = [0x7F, 0x7F, 0x7E, 0x7F]\<rparr> (Some ''(*~I)i'')
     = Reading True \<and>
   signature_fits \<lparr>param_count = 3, result_count = 1, types = [0x7F, 0x7F, 0x7E, 0x7F]\<rparr> ''(*~I)i''"
proof -
  let ?f = "\<lparr>param_count = 3, result_count = 1, types = [0x7F, 0x7F, 0x7E, 0x7F]\<rparr>"
  have "check_symbol_signature ?f (Some ''(*~I)i'') = Reading (signature_fits ?f ''(*~I)i'')"
    by (rule check_symbol_signature_exact) auto
  moreover have "check_symbol_signature ?f (Some ''(*~I)i'') = Reading True" by code_simp
  ultimately show ?thesis by simp
qed


section \<open>The registry\<close>

record NativeSymbol =
  symbol :: string
  func_ptr :: u32
  signature :: "string option"
  attachment :: u32

record NativeSymbolsNode =
  mod_name :: string
  array_ptr :: u32
  native_symbols :: "NativeSymbol list"
  call_conv_raw :: bool

text \<open>The sign of \<^verbatim>\<open>strcmp\<close>: strings are ordered as lists of unsigned characters.\<close>

definition strcmp :: "string \<Rightarrow> string \<Rightarrow> int" where
  "strcmp s t = (if s < t then -1 else if s = t then 0 else 1)"

definition native_symbol_cmp :: "NativeSymbol \<Rightarrow> NativeSymbol \<Rightarrow> int" where
  "native_symbol_cmp a b = strcmp (symbol a) (symbol b)"

definition qsort_symbols :: "NativeSymbol list \<Rightarrow> NativeSymbol list" where
  "qsort_symbols syms = sort_key symbol syms"

text \<open>The halving search: \<open>cmp p\<close> compares the key with the element at \<open>p\<close>.\<close>

function bsearch :: "(nat \<Rightarrow> int) \<Rightarrow> nat \<Rightarrow> nat \<Rightarrow> nat option" where
  "bsearch cmp base lim =
     (if lim = 0 then None
      else let p = base + lim div 2; c = cmp p
           in if c = 0 then Some p
              else if c > 0 then bsearch cmp (p + 1) ((lim - 1) div 2)
              else bsearch cmp base (lim div 2))"
  by pat_completeness auto
termination by (relation "measure (\<lambda>(_, _, lim). lim)") auto

declare bsearch.simps [simp del]

definition lookup_symbol :: "NativeSymbol list \<Rightarrow> string \<Rightarrow> NativeSymbol option" where
  "lookup_symbol syms name =
     (let key = \<lparr>symbol = name, func_ptr = 0, signature = None, attachment = 0\<rparr>
      in map_option (\<lambda>p. syms ! p) (bsearch (\<lambda>p. native_symbol_cmp key (syms ! p)) 0 (length syms)))"

text \<open>The loop of \<open>wasm_native_resolve_symbol\<close>: an entry whose function is NULL does not end it.\<close>

definition usable :: "NativeSymbol option \<Rightarrow> NativeSymbol option" where
  "usable e = (case e of Some e \<Rightarrow> if func_ptr e \<noteq> 0 then Some e else None | None \<Rightarrow> None)"

fun resolve_loop ::
  "NativeSymbolsNode list \<Rightarrow> string \<Rightarrow> string \<Rightarrow> (NativeSymbol \<times> NativeSymbolsNode) option" where
  "resolve_loop [] m field = None"
| "resolve_loop (node # nodes) m field =
     (if strcmp (mod_name node) m = 0 then
        (case usable (lookup_symbol (native_symbols node) field) of
           Some e \<Rightarrow> Some (e, node)
         | None \<Rightarrow>
             (case (if field \<noteq> [] \<and> hd field = CHR ''_''
                    then usable (lookup_symbol (native_symbols node) (tl field)) else None) of
                Some e \<Rightarrow> Some (e, node)
              | None \<Rightarrow> resolve_loop nodes m field))
      else resolve_loop nodes m field)"

text \<open>The result is the function, 0 for NULL, and what is stored: the signature to use for pointer
  conversion, the attachment and the calling convention. \<open>outs\<close> says that all outputs are wanted.\<close>

definition wasm_native_resolve_symbol ::
  "NativeSymbolsNode list \<Rightarrow> string \<Rightarrow> string \<Rightarrow> WASMFuncType option \<Rightarrow> bool
    \<Rightarrow> u32 \<times> (string option \<times> u32 \<times> bool) option" where
  "wasm_native_resolve_symbol nodes m field type outs =
     (case resolve_loop nodes m field of
        None \<Rightarrow> (0, None)
      | Some (e, node) \<Rightarrow>
          if \<not> outs then (func_ptr e, None)
          else (case signature e of
                  Some s \<Rightarrow>
                    if s \<noteq> [] then
                      (case type of
                         None \<Rightarrow> (0, None)
                       | Some type \<Rightarrow>
                           if check_symbol_signature type (Some s) \<noteq> Reading True then (0, None)
                           else (func_ptr e, Some (Some s, attachment e, call_conv_raw node)))
                    else (func_ptr e, Some (None, attachment e, call_conv_raw node))
                | None \<Rightarrow> (func_ptr e, Some (None, attachment e, call_conv_raw node))))"

definition register_natives ::
  "bool \<Rightarrow> NativeSymbolsNode list \<Rightarrow> string \<Rightarrow> u32 \<Rightarrow> NativeSymbol list \<Rightarrow> bool
    \<Rightarrow> NativeSymbolsNode list \<times> bool" where
  "register_natives av nodes m ptr syms raw =
     (if \<not> av then (nodes, False)
      else (\<lparr>mod_name = m, array_ptr = ptr, native_symbols = qsort_symbols syms, call_conv_raw = raw\<rparr> # nodes,
            True))"

definition wasm_native_register_natives where
  "wasm_native_register_natives av nodes m ptr syms = register_natives av nodes m ptr syms False"

definition wasm_native_register_natives_raw where
  "wasm_native_register_natives_raw av nodes m ptr syms = register_natives av nodes m ptr syms True"

fun wasm_native_unregister_natives ::
  "NativeSymbolsNode list \<Rightarrow> string \<Rightarrow> u32 \<Rightarrow> NativeSymbolsNode list \<times> bool" where
  "wasm_native_unregister_natives [] m ptr = ([], False)"
| "wasm_native_unregister_natives (node # nodes) m ptr =
     (if array_ptr node = ptr \<and> strcmp (mod_name node) m = 0 then (nodes, True)
      else (let (nodes, r) = wasm_native_unregister_natives nodes m ptr in (node # nodes, r)))"

text \<open>\<^verbatim>\<open>register_functions\<close> of the firmware; the addresses of the functions and of the array are
  parameters.\<close>

definition firmware_symbols :: "u32 \<Rightarrow> u32 \<Rightarrow> u32 \<Rightarrow> NativeSymbol list" where
  "firmware_symbols gpio sleep print =
     [\<lparr>symbol = ''gpio_set_level'', func_ptr = gpio, signature = Some ''(ii)'', attachment = 0\<rparr>,
      \<lparr>symbol = ''sleep_ms'', func_ptr = sleep, signature = Some ''(i)'', attachment = 0\<rparr>,
      \<lparr>symbol = ''print_debug'', func_ptr = print, signature = Some ''($)'', attachment = 0\<rparr>]"

definition register_functions ::
  "bool \<Rightarrow> NativeSymbolsNode list \<Rightarrow> u32 \<Rightarrow> u32 \<Rightarrow> u32 \<Rightarrow> u32 \<Rightarrow> NativeSymbolsNode list" where
  "register_functions av nodes ptr gpio sleep print =
     fst (wasm_native_register_natives av nodes ''env'' ptr (firmware_symbols gpio sleep print))"

section \<open>Searching\<close>

lemma strcmp_0 [simp]: "strcmp s t = 0 \<longleftrightarrow> s = t"
  by (auto simp: strcmp_def)

lemma bsearch_spec:
  assumes "sorted (map symbol xs)" "base + lim \<le> length xs"
    "\<And>j. j < base \<Longrightarrow> symbol (xs ! j) < k" "\<And>j. base + lim \<le> j \<Longrightarrow> j < length xs \<Longrightarrow> k < symbol (xs ! j)"
  shows "case bsearch (\<lambda>p. strcmp k (symbol (xs ! p))) base lim of
           Some p \<Rightarrow> p < length xs \<and> symbol (xs ! p) = k
         | None \<Rightarrow> \<forall>j < length xs. symbol (xs ! j) \<noteq> k"
  using assms(2-4)
proof (induction lim arbitrary: base rule: less_induct)
  case (less lim)
  have mono: "symbol (xs ! i) \<le> symbol (xs ! j)" if "i \<le> j" "j < length xs" for i j
    using sorted_nth_mono [OF assms(1), of i j] that by simp
  show ?case
  proof (cases "lim = 0")
    case True
    then have "symbol (xs ! j) \<noteq> k" if "j < length xs" for j
      using that less.prems(2,3) [of j] by (cases "j < base") auto
    then show ?thesis using True by (simp add: bsearch.simps)
  next
    case False
    define p where "p = base + lim div 2"
    have p: "p < base + lim" "base \<le> p" using False by (auto simp: p_def)
    then have pl: "p < length xs" using less.prems(1) by simp
    consider "k = symbol (xs ! p)" | "symbol (xs ! p) < k" | "k < symbol (xs ! p)" by force
    then show ?thesis
    proof cases
      case 1
      then show ?thesis using False pl by (subst bsearch.simps) (simp add: strcmp_def p_def)
    next
      case 2
      have e: "p + 1 + (lim - 1) div 2 = base + lim" using False unfolding p_def by presburger
      have "symbol (xs ! j) < k" if "j < p + 1" for j
        using mono [of j p] pl 2 that by (simp add: le_less_trans)
      then have "case bsearch (\<lambda>p. strcmp k (symbol (xs ! p))) (p + 1) ((lim - 1) div 2) of
           Some p \<Rightarrow> p < length xs \<and> symbol (xs ! p) = k | None \<Rightarrow> \<forall>j < length xs. symbol (xs ! j) \<noteq> k"
        using less.prems False e by (intro less.IH) auto
      moreover have "strcmp k (symbol (xs ! p)) = 1" using 2 by (auto simp: strcmp_def)
      ultimately show ?thesis using False pl by (subst bsearch.simps) (simp flip: p_def)
    next
      case 3
      have "k < symbol (xs ! j)" if "base + lim div 2 \<le> j" "j < length xs" for j
        using mono [of p j] 3 that by (simp add: p_def less_le_trans)
      then have "case bsearch (\<lambda>p. strcmp k (symbol (xs ! p))) base (lim div 2) of
           Some p \<Rightarrow> p < length xs \<and> symbol (xs ! p) = k | None \<Rightarrow> \<forall>j < length xs. symbol (xs ! j) \<noteq> k"
        using less.prems False by (intro less.IH) auto
      moreover have "strcmp k (symbol (xs ! p)) = -1" using 3 by (auto simp: strcmp_def)
      ultimately show ?thesis using False pl by (subst bsearch.simps) (simp add: Let_def flip: p_def)
    qed
  qed
qed

definition symbols_ok :: "NativeSymbol list \<Rightarrow> bool" where
  "symbols_ok syms \<longleftrightarrow> distinct (map symbol syms) \<and> (\<forall>e \<in> set syms. func_ptr e \<noteq> 0)"

definition registry_ok :: "NativeSymbolsNode list \<Rightarrow> bool" where
  "registry_ok nodes \<longleftrightarrow> (\<forall>node \<in> set nodes. symbols_ok (native_symbols node) \<and> sorted (map symbol (native_symbols node)))"

lemma lookup_symbol_iff:
  assumes "symbols_ok syms" "sorted (map symbol syms)"
  shows "lookup_symbol syms k = Some e \<longleftrightarrow> e \<in> set syms \<and> symbol e = k"
proof -
  have "case bsearch (\<lambda>p. strcmp k (symbol (syms ! p))) 0 (length syms) of
      Some p \<Rightarrow> p < length syms \<and> symbol (syms ! p) = k
    | None \<Rightarrow> \<forall>j < length syms. symbol (syms ! j) \<noteq> k"
    by (rule bsearch_spec [OF assms(2)]) auto
  moreover have "syms ! p = e" if "p < length syms" "symbol (syms ! p) = k" "e \<in> set syms" "symbol e = k" for p
    using assms(1) that by (auto simp: symbols_ok_def distinct_map inj_on_def)
  ultimately show ?thesis
    by (auto simp: lookup_symbol_def native_symbol_cmp_def in_set_conv_nth split: option.splits)
qed

lemma usable_lookup:
  assumes "symbols_ok syms" "sorted (map symbol syms)"
  shows "usable (lookup_symbol syms k) = lookup_symbol syms k"
  using lookup_symbol_iff [OF assms, of k] assms(1)
  by (cases "lookup_symbol syms k") (auto simp: usable_def symbols_ok_def)

lemma lookup_symbol_qsort:
  assumes "symbols_ok syms"
  shows "lookup_symbol (qsort_symbols syms) k = Some e \<longleftrightarrow> e \<in> set syms \<and> symbol e = k"
    and "symbols_ok (qsort_symbols syms)" "sorted (map symbol (qsort_symbols syms))"
proof -
  show ok: "symbols_ok (qsort_symbols syms)" and s: "sorted (map symbol (qsort_symbols syms))"
    using assms by (auto simp: symbols_ok_def qsort_symbols_def distinct_map)
  show "lookup_symbol (qsort_symbols syms) k = Some e \<longleftrightarrow> e \<in> set syms \<and> symbol e = k"
    using lookup_symbol_iff [OF ok s] by (simp add: qsort_symbols_def)
qed

lemma register_natives_ok:
  assumes "registry_ok nodes" "symbols_ok syms"
  shows "registry_ok (fst (register_natives av nodes m ptr syms raw))"
  using assms lookup_symbol_qsort(2,3) [OF assms(2)] by (auto simp: registry_ok_def register_natives_def)

lemma unregister_register:
  "fst (wasm_native_unregister_natives (fst (register_natives True nodes m ptr syms raw)) m ptr) = nodes"
  by (simp add: register_natives_def)


section \<open>Resolving imports\<close>

text \<open>The entry of a table for a name, or for the name without a leading underscore.\<close>

definition entry_for :: "NativeSymbol list \<Rightarrow> string \<Rightarrow> NativeSymbol \<Rightarrow> bool" where
  "entry_for syms field e \<longleftrightarrow> e \<in> set syms \<and>
     (symbol e = field
      \<or> symbol e = tl field \<and> field \<noteq> [] \<and> hd field = CHR ''_'' \<and> field \<notin> symbol ` set syms)"

lemma resolve_loop_Cons:
  assumes "symbols_ok (native_symbols node)" "sorted (map symbol (native_symbols node))"
  shows "mod_name node = m \<Longrightarrow> entry_for (native_symbols node) field e \<Longrightarrow>
      resolve_loop (node # nodes) m field = Some (e, node)"
    and "mod_name node \<noteq> m \<or> (\<forall>e. \<not> entry_for (native_symbols node) field e) \<Longrightarrow>
      resolve_loop (node # nodes) m field = resolve_loop nodes m field"
proof -
  let ?l = "lookup_symbol (native_symbols node)"
  have none: "?l k = None \<longleftrightarrow> k \<notin> symbol ` set (native_symbols node)" for k
  proof
    show "?l k = None \<Longrightarrow> k \<notin> symbol ` set (native_symbols node)"
      using lookup_symbol_iff [OF assms, of k] by auto
    show "k \<notin> symbol ` set (native_symbols node) \<Longrightarrow> ?l k = None"
      using lookup_symbol_iff [OF assms, of k] by (metis image_eqI not_None_eq)
  qed
  have u: "usable (Some e) = Some e" if "e \<in> set (native_symbols node)" for e
    using that assms(1) by (simp add: usable_def symbols_ok_def)
  show "resolve_loop (node # nodes) m field = Some (e, node)"
    if "mod_name node = m" "entry_for (native_symbols node) field e"
  proof (cases "symbol e = field")
    case True
    then have "?l field = Some e" using that by (simp add: entry_for_def lookup_symbol_iff [OF assms])
    then show ?thesis using that u by (simp add: entry_for_def)
  next
    case False
    then have "?l field = None" "?l (tl field) = Some e" "field \<noteq> []" "hd field = CHR ''_''"
      using that by (auto simp: entry_for_def lookup_symbol_iff [OF assms] none)
    then show ?thesis using that u by (simp add: entry_for_def usable_def [of None])
  qed
  show "resolve_loop (node # nodes) m field = resolve_loop nodes m field"
    if "mod_name node \<noteq> m \<or> (\<forall>e. \<not> entry_for (native_symbols node) field e)"
  proof (cases "mod_name node = m")
    case True
    then have no: "\<And>e. \<not> entry_for (native_symbols node) field e" using that by blast
    then have l: "?l field = None" unfolding none by (auto simp: entry_for_def)
    then have "field \<noteq> [] \<and> hd field = CHR ''_'' \<Longrightarrow> ?l (tl field) = None"
      using no unfolding none by (force simp: entry_for_def)
    then show ?thesis using l True
      by (cases "field \<noteq> [] \<and> hd field = CHR ''_''") (auto simp: usable_def [of None])
  qed simp
qed

lemma resolve_registered:
  assumes "symbols_ok syms"
  shows "entry_for syms field e \<Longrightarrow>
      resolve_loop (fst (register_natives True nodes m ptr syms raw)) m field =
      Some (e, \<lparr>mod_name = m, array_ptr = ptr, native_symbols = qsort_symbols syms, call_conv_raw = raw\<rparr>)"
    and "m' \<noteq> m \<or> (\<forall>e. \<not> entry_for syms field e) \<Longrightarrow>
      resolve_loop (fst (register_natives True nodes m ptr syms raw)) m' field = resolve_loop nodes m' field"
proof -
  let ?node = "\<lparr>mod_name = m, array_ptr = ptr, native_symbols = qsort_symbols syms, call_conv_raw = raw\<rparr>"
  have q: "entry_for (qsort_symbols syms) f e = entry_for syms f e" for f e
    by (simp add: entry_for_def qsort_symbols_def)
  have ok: "symbols_ok (native_symbols ?node)" "sorted (map symbol (native_symbols ?node))"
    using lookup_symbol_qsort(2,3) [OF assms] by simp_all
  have reg: "fst (register_natives True nodes m ptr syms raw) = ?node # nodes"
    by (simp add: register_natives_def)
  show "resolve_loop (fst (register_natives True nodes m ptr syms raw)) m field = Some (e, ?node)"
    if "entry_for syms field e"
    unfolding reg using that by (intro resolve_loop_Cons(1) [OF ok]) (simp_all only: q NativeSymbolsNode.simps)
  show "resolve_loop (fst (register_natives True nodes m ptr syms raw)) m' field = resolve_loop nodes m' field"
    if "m' \<noteq> m \<or> (\<forall>e. \<not> entry_for syms field e)"
    unfolding reg using that by (intro resolve_loop_Cons(2) [OF ok]) (auto simp only: q NativeSymbolsNode.simps)
qed

lemma firmware_symbols_ok:
  assumes "gpio \<noteq> 0" "sleep \<noteq> 0" "print \<noteq> 0"
  shows "symbols_ok (firmware_symbols gpio sleep print)"
    "entry_for (firmware_symbols gpio sleep print) ''gpio_set_level''
       \<lparr>symbol = ''gpio_set_level'', func_ptr = gpio, signature = Some ''(ii)'', attachment = 0\<rparr>"
  using assms by (simp_all add: symbols_ok_def firmware_symbols_def entry_for_def)

text \<open>C19: What is registered last is found first. After a table has been registered, an import from
  its module resolves to the entry of the table with that name, or, when there is none, to the entry
  whose name is the import's without a leading underscore; every other import resolves as before;
  and withdrawing the registration undoes it. So once the firmware has registered its table, the
  import \<open>env.gpio_set_level\<close> is the firmware's function, whatever was registered before, if it is
  declared with two 32-bit integers and no result, and fails to resolve otherwise.\<close>
theorem last_registration_wins:
  assumes "registry_ok nodes" "symbols_ok syms"
    "register_natives True nodes m ptr syms raw = (nodes', r)"
  shows "r \<and> registry_ok nodes'
    \<and> (\<forall>field e. entry_for syms field e \<longrightarrow> map_option fst (resolve_loop nodes' m field) = Some e)
    \<and> (\<forall>m' field. m' \<noteq> m \<or> (\<forall>e. \<not> entry_for syms field e) \<longrightarrow>
         resolve_loop nodes' m' field = resolve_loop nodes m' field)
    \<and> fst (wasm_native_unregister_natives nodes' m ptr) = nodes
    \<and> (\<forall>gpio sleep print type. gpio \<noteq> 0 \<and> sleep \<noteq> 0 \<and> print \<noteq> 0 \<longrightarrow>
         param_count type < 2 ^ 16 \<longrightarrow> param_count type \<le> length (types type) \<longrightarrow>
         wasm_native_resolve_symbol (register_functions True nodes ptr gpio sleep print) ''env'' ''gpio_set_level''
           (Some type) True =
         (if signature_fits type ''(ii)'' then (gpio, Some (Some ''(ii)'', 0, False)) else (0, None)))"
proof -
  have reg: "nodes' = fst (register_natives True nodes m ptr syms raw)" and r: r
    using assms(3) by (auto simp: register_natives_def)
  have gpio: "wasm_native_resolve_symbol (register_functions True nodes ptr gpio sleep print) ''env'' ''gpio_set_level''
           (Some type) True =
         (if signature_fits type ''(ii)'' then (gpio, Some (Some ''(ii)'', 0, False)) else (0, None))"
    if "gpio \<noteq> 0 \<and> sleep \<noteq> 0 \<and> print \<noteq> 0" "param_count type < 2 ^ 16" "param_count type \<le> length (types type)"
    for gpio sleep print type
  proof -
    have "check_symbol_signature type (Some ''(ii)'') = Reading (signature_fits type ''(ii)'')"
      using that by (intro check_exact) auto
    then show ?thesis
      using resolve_registered(1) [OF firmware_symbols_ok, of gpio sleep print nodes "''env''" ptr False] that(1)
      by (simp add: wasm_native_resolve_symbol_def register_functions_def wasm_native_register_natives_def)
  qed
  have "map_option fst (resolve_loop nodes' m field) = Some e" if "entry_for syms field e" for field e
    unfolding reg using resolve_registered(1) [OF assms(2) that] by simp
  moreover have "resolve_loop nodes' m' field = resolve_loop nodes m' field"
    if "m' \<noteq> m \<or> (\<forall>e. \<not> entry_for syms field e)" for m' field
    unfolding reg using resolve_registered(2) [OF assms(2)] that by blast
  moreover have "registry_ok nodes'" unfolding reg by (rule register_natives_ok [OF assms(1,2)])
  moreover have "fst (wasm_native_unregister_natives nodes' m ptr) = nodes"
    unfolding reg by (rule unregister_register)
  ultimately show ?thesis using r gpio by blast
qed

lemma last_registration_wins_witness:
  "let libc = [\<lparr>symbol = ''puts'', func_ptr = 4, signature = None, attachment = 0\<rparr>];
       nodes = fst (register_natives True [] ''env'' 16 libc False)
   in map_option fst (resolve_loop nodes ''env'' ''_puts'') = Some (hd libc)
      \<and> fst (wasm_native_resolve_symbol (register_functions True nodes 16 100 200 300) ''env'' ''gpio_set_level''
          (Some \<lparr>param_count = 2, result_count = 0, types = [0x7F, 0x7F]\<rparr>) True) = 100"
proof -
  let ?libc = "[\<lparr>symbol = ''puts'', func_ptr = 4, signature = None, attachment = 0\<rparr>]"
  let ?t = "\<lparr>param_count = 2, result_count = 0, types = [0x7F, 0x7F]\<rparr> :: WASMFuncType"
  have ok: "registry_ok []" "symbols_ok ?libc" by (simp_all add: registry_ok_def symbols_ok_def)
  obtain nodes r where n: "register_natives True [] ''env'' 16 ?libc False = (nodes, r)" by (rule prod.exhaust)
  note w = last_registration_wins [OF ok n]
  have e: "entry_for ?libc ''_puts'' (hd ?libc)" by (simp add: entry_for_def)
  have "map_option fst (resolve_loop nodes ''env'' ''_puts'') = Some (hd ?libc)" using w e by blast
  moreover have "signature_fits ?t ''(ii)''"
    unfolding signature_fits_def by (rule exI [of _ "''ii''"], rule exI [of _ "[]"]) (simp add: compare_type_with_signature_def VALUE_TYPE_I32_def VALUE_TYPE_F64_def)
  moreover have "fst (wasm_native_resolve_symbol (register_functions True [] 16 100 200 300) ''env'' ''gpio_set_level''
          (Some ?t) True) = 100"
    using last_registration_wins [OF ok n] \<open>signature_fits ?t ''(ii)''\<close> by simp
  moreover have "fst (wasm_native_resolve_symbol (register_functions True nodes 16 100 200 300) ''env'' ''gpio_set_level''
          (Some ?t) True) = 100"
  proof -
    obtain nodes2 r2 where n2: "register_natives True nodes ''env'' 16 ?libc False = (nodes2, r2)" by (rule prod.exhaust)
    have "registry_ok nodes" using w by blast
    from last_registration_wins [OF this ok(2) n2] \<open>signature_fits ?t ''(ii)''\<close> show ?thesis by simp
  qed
  ultimately show ?thesis using n by simp
qed

end
