(* ===== verification/Runtime_Init.thy ===== *)
theory Runtime_Init
  imports Native_Symbols
begin

text \<open>
  Starting and stopping the runtime: \<open>wasm_runtime_full_init\<close> and \<open>wasm_runtime_destroy\<close> of
  \<^verbatim>\<open>core/iwasm/common/wasm_runtime_common.c\<close> with what they call in \<^verbatim>\<open>wasm_memory.c\<close>,
  \<^verbatim>\<open>wasm_native.c\<close>, \<^verbatim>\<open>wasm_shared_memory.c\<close>, \<^verbatim>\<open>lib_pthread_wrapper.c\<close> and \<^verbatim>\<open>thread_manager.c\<close>.

  The state has the global variables; the mutexes, the context key and the wait map are a set of
  resources that exist (\<open>live\<close>), and \<open>bad_release\<close> lists the releases of one that does not. Whether a
  step that can fail succeeds is the parameter \<open>ok\<close>; the tables of native functions of the built-in
  libraries are parameters. The lock of the runtime is a mutex that is not recursive, so taking it
  twice in a thread is a deadlock, the value \<open>None\<close>.
\<close>

section \<open>State\<close>

datatype init_step =
    Libc_Register | Context_Key_Create | Wasi_Unstable_Register | Wasi_Preview1_Register
  | Pthread_Lock_Init | Pthread_Callback | Pthread_Register
  | Shared_Lock_Init | Wait_Map_Create | Cluster_Lock_Init | Exception_Lock_Init | Pool_Create | User_Register

datatype resource =
  Context_Key | Pthread_Lock | Shared_Lock | Wait_Map | Cluster_Lock | Exception_Lock

datatype memory_mode =
  MEMORY_MODE_UNKNOWN | MEMORY_MODE_POOL | MEMORY_MODE_ALLOCATOR | MEMORY_MODE_SYSTEM_ALLOCATOR

datatype mem_alloc_type =
    Alloc_With_Pool
  | Alloc_With_Allocator (malloc_func: u32) (realloc_func: u32) (free_func: u32)
  | Alloc_With_System_Allocator

record runtime =
  memory_mode :: memory_mode
  allocator :: "u32 \<times> u32 \<times> u32"
  registry :: "NativeSymbolsNode list"
  live :: "resource set"
  bad_release :: "resource list"
  destroy_callbacks :: nat
  running_mode :: u32
  cluster_max_thread_num :: u32
  runtime_ref_count :: u32
  runtime_lock :: bool

record init_args =
  mem_alloc :: mem_alloc_type
  native_mod_name :: string
  user_natives :: "NativeSymbol list"
  user_array :: u32
  max_thread_num :: u32
  init_running_mode :: u32

record library_tables =
  libc_builtin_apis :: "NativeSymbol list"
  libc_wasi_apis :: "NativeSymbol list"
  lib_pthread_apis :: "NativeSymbol list"

definition acquire :: "resource \<Rightarrow> runtime \<Rightarrow> runtime" where
  "acquire r st = st\<lparr>live := insert r (live st)\<rparr>"

definition release :: "resource \<Rightarrow> runtime \<Rightarrow> runtime" where
  "release r st = (if r \<in> live st then st\<lparr>live := live st - {r}\<rparr> else st\<lparr>bad_release := r # bad_release st\<rparr>)"

section \<open>The components\<close>

definition wasm_runtime_memory_init :: "(init_step \<Rightarrow> bool) \<Rightarrow> mem_alloc_type \<Rightarrow> runtime \<Rightarrow> bool \<times> runtime" where
  "wasm_runtime_memory_init ok type st =
     (case type of
        Alloc_With_Pool \<Rightarrow>
          if ok Pool_Create then (True, st\<lparr>memory_mode := MEMORY_MODE_POOL\<rparr>) else (False, st)
      | Alloc_With_Allocator m r f \<Rightarrow>
          if m \<noteq> 0 \<and> f \<noteq> 0 \<and> m \<noteq> f
          then (True, st\<lparr>memory_mode := MEMORY_MODE_ALLOCATOR, allocator := (m, r, f)\<rparr>) else (False, st)
      | Alloc_With_System_Allocator \<Rightarrow> (True, st\<lparr>memory_mode := MEMORY_MODE_SYSTEM_ALLOCATOR\<rparr>))"

definition wasm_runtime_memory_destroy :: "runtime \<Rightarrow> runtime" where
  "wasm_runtime_memory_destroy st = st\<lparr>memory_mode := MEMORY_MODE_UNKNOWN\<rparr>"

definition lib_pthread_init :: "(init_step \<Rightarrow> bool) \<Rightarrow> runtime \<Rightarrow> bool \<times> runtime" where
  "lib_pthread_init ok st =
     (if \<not> ok Pthread_Lock_Init then (False, st)
      else let st = acquire Pthread_Lock st
           in if \<not> ok Pthread_Callback then (False, release Pthread_Lock st)
              else (True, st\<lparr>destroy_callbacks := destroy_callbacks st + 1\<rparr>))"

definition lib_pthread_destroy :: "runtime \<Rightarrow> runtime" where
  "lib_pthread_destroy st = release Pthread_Lock st"

definition wasm_native_destroy :: "runtime \<Rightarrow> runtime" where
  "wasm_native_destroy st =
     (let st = (if Context_Key \<in> live st then release Context_Key st else st);
          st = lib_pthread_destroy st
      in st\<lparr>registry := []\<rparr>)"

definition register_in :: "bool \<Rightarrow> string \<Rightarrow> NativeSymbol list \<Rightarrow> runtime \<Rightarrow> bool \<times> runtime" where
  "register_in av m syms st =
     (let (nodes, r) = wasm_native_register_natives av (registry st) m 0 syms
      in (r, st\<lparr>registry := nodes\<rparr>))"

text \<open>One line for each \<^verbatim>\<open>goto fail\<close>. The last call, \<open>quick_aot_entry_init\<close>, sorts a constant table of the runtime for
  native code compiled ahead of time and cannot fail; it is left out.\<close>

definition wasm_native_init :: "(init_step \<Rightarrow> bool) \<Rightarrow> library_tables \<Rightarrow> runtime \<Rightarrow> bool \<times> runtime" where
  "wasm_native_init ok tabs st =
    (let (r, st) = register_in (ok Libc_Register) ''env'' (libc_builtin_apis tabs) st in
     if \<not> r then (False, wasm_native_destroy st) else
     if \<not> ok Context_Key_Create then (False, wasm_native_destroy st) else
     let st = acquire Context_Key st;
         (r, st) = register_in (ok Wasi_Unstable_Register) ''wasi_unstable'' (libc_wasi_apis tabs) st in
     if \<not> r then (False, wasm_native_destroy st) else
     let (r, st) = register_in (ok Wasi_Preview1_Register) ''wasi_snapshot_preview1'' (libc_wasi_apis tabs) st in
     if \<not> r then (False, wasm_native_destroy st) else
     let (r, st) = lib_pthread_init ok st in
     if \<not> r then (False, wasm_native_destroy st) else
     if lib_pthread_apis tabs = [] then (True, st) else
     let (r, st) = register_in (ok Pthread_Register) ''env'' (lib_pthread_apis tabs) st in
     if \<not> r then (False, wasm_native_destroy st) else (True, st))"

definition shared_memory_init :: "(init_step \<Rightarrow> bool) \<Rightarrow> runtime \<Rightarrow> bool \<times> runtime" where
  "shared_memory_init ok st =
     (if \<not> ok Shared_Lock_Init then (False, st)
      else let st = acquire Shared_Lock st
           in if \<not> ok Wait_Map_Create then (False, release Shared_Lock st)
              else (True, acquire Wait_Map st))"

definition shared_memory_destroy :: "runtime \<Rightarrow> runtime" where
  "shared_memory_destroy st = release Shared_Lock (release Wait_Map st)"

definition thread_manager_init :: "(init_step \<Rightarrow> bool) \<Rightarrow> runtime \<Rightarrow> bool \<times> runtime" where
  "thread_manager_init ok st =
     (if \<not> ok Cluster_Lock_Init then (False, st)
      else let st = acquire Cluster_Lock st
           in if \<not> ok Exception_Lock_Init then (False, release Cluster_Lock st)
              else (True, acquire Exception_Lock st))"

definition thread_manager_destroy :: "runtime \<Rightarrow> runtime" where
  "thread_manager_destroy st =
     release Cluster_Lock (release Exception_Lock (st\<lparr>destroy_callbacks := 0\<rparr>))"

section \<open>The runtime\<close>

text \<open>\<open>bh_platform_init\<close> and \<open>bh_platform_destroy\<close> do nothing on this platform.\<close>

definition wasm_runtime_env_init :: "(init_step \<Rightarrow> bool) \<Rightarrow> library_tables \<Rightarrow> runtime \<Rightarrow> bool \<times> runtime" where
  "wasm_runtime_env_init ok tabs st =
    (let (r, st) = wasm_native_init ok tabs st in
     if \<not> r then (False, st) else
     let (r, st) = shared_memory_init ok st in
     if \<not> r then (False, wasm_native_destroy st) else
     let (r, st) = thread_manager_init ok st in
     if \<not> r then (False, wasm_native_destroy (shared_memory_destroy st)) else (True, st))"

definition wasm_runtime_is_running_mode_supported :: "u32 \<Rightarrow> bool" where
  "wasm_runtime_is_running_mode_supported m = (if m = 0 then True else if m = 1 then True else False)"

definition wasm_runtime_set_default_running_mode :: "u32 \<Rightarrow> runtime \<Rightarrow> bool \<times> runtime" where
  "wasm_runtime_set_default_running_mode m st =
     (if wasm_runtime_is_running_mode_supported m then (True, st\<lparr>running_mode := m\<rparr>) else (False, st))"

definition wasm_runtime_destroy_internal :: "runtime \<Rightarrow> runtime" where
  "wasm_runtime_destroy_internal st =
     wasm_runtime_memory_destroy (wasm_native_destroy (thread_manager_destroy (shared_memory_destroy st)))"

text \<open>\<open>with_lock\<close>: \<^verbatim>\<open>os_mutex_lock(&runtime_lock)\<close> around a section.\<close>

definition with_lock :: "(runtime \<Rightarrow> ('a \<times> runtime) option) \<Rightarrow> runtime \<Rightarrow> ('a \<times> runtime) option" where
  "with_lock body st =
     (if runtime_lock st then None
      else map_option (\<lambda>(r, st). (r, st\<lparr>runtime_lock := False\<rparr>)) (body (st\<lparr>runtime_lock := True\<rparr>)))"

definition wasm_runtime_destroy :: "runtime \<Rightarrow> (unit \<times> runtime) option" where
  "wasm_runtime_destroy =
     with_lock (\<lambda>st. let st = st\<lparr>runtime_ref_count := runtime_ref_count st - 1\<rparr>
       in Some ((), if runtime_ref_count st = 0 then wasm_runtime_destroy_internal st else st))"

definition wasm_runtime_full_init_internal ::
  "(init_step \<Rightarrow> bool) \<Rightarrow> library_tables \<Rightarrow> init_args \<Rightarrow> runtime \<Rightarrow> (bool \<times> runtime) option" where
  "wasm_runtime_full_init_internal ok tabs args st =
    (let (r, st) = wasm_runtime_memory_init ok (mem_alloc args) st in
     if \<not> r then Some (False, st) else
     let (r, st) = wasm_runtime_set_default_running_mode (init_running_mode args) st in
     if \<not> r then Some (False, wasm_runtime_memory_destroy st) else
     let (r, st) = wasm_runtime_env_init ok tabs st in
     if \<not> r then Some (False, wasm_runtime_memory_destroy st) else
     let (r, st) = (if user_natives args = [] then (True, st)
       else let (nodes, r) = wasm_native_register_natives (ok User_Register) (registry st)
                               (native_mod_name args) (user_array args) (user_natives args)
            in (r, st\<lparr>registry := nodes\<rparr>)) in
     if \<not> r then map_option (\<lambda>(_, st). (False, st)) (wasm_runtime_destroy st) else
     Some (True, if max_thread_num args > 0 then st\<lparr>cluster_max_thread_num := max_thread_num args\<rparr> else st))"

definition wasm_runtime_full_init ::
  "(init_step \<Rightarrow> bool) \<Rightarrow> library_tables \<Rightarrow> init_args \<Rightarrow> runtime \<Rightarrow> (bool \<times> runtime) option" where
  "wasm_runtime_full_init ok tabs args =
     with_lock (\<lambda>st.
       map_option (\<lambda>(r, st). (r, if r then st\<lparr>runtime_ref_count := runtime_ref_count st + 1\<rparr> else st))
         (if runtime_ref_count st = 0 then wasm_runtime_full_init_internal ok tabs args st
          else Some (True, st)))"


section \<open>Starting\<close>

text \<open>The nodes of the built-in libraries, the latest first.\<close>

definition library_nodes :: "library_tables \<Rightarrow> NativeSymbolsNode list" where
  "library_nodes tabs =
     (let node = \<lambda>m syms. \<lparr>mod_name = m, array_ptr = 0, native_symbols = qsort_symbols syms, call_conv_raw = False\<rparr>
      in (if lib_pthread_apis tabs = [] then [] else [node ''env'' (lib_pthread_apis tabs)])
         @ [node ''wasi_snapshot_preview1'' (libc_wasi_apis tabs), node ''wasi_unstable'' (libc_wasi_apis tabs),
            node ''env'' (libc_builtin_apis tabs)])"

definition native_steps :: "library_tables \<Rightarrow> init_step list" where
  "native_steps tabs =
     [Libc_Register, Context_Key_Create, Wasi_Unstable_Register, Wasi_Preview1_Register, Pthread_Lock_Init,
      Pthread_Callback] @ (if lib_pthread_apis tabs = [] then [] else [Pthread_Register])"

definition stopped :: "runtime \<Rightarrow> bool" where
  "stopped st \<longleftrightarrow> memory_mode st = MEMORY_MODE_UNKNOWN \<and> registry st = [] \<and> live st = {}
     \<and> runtime_ref_count st = 0 \<and> \<not> runtime_lock st"

definition locks_done :: "(init_step \<Rightarrow> bool) \<Rightarrow> bool" where
  "locks_done ok \<longleftrightarrow> (\<forall>s \<in> set [Libc_Register, Context_Key_Create, Wasi_Unstable_Register, Wasi_Preview1_Register,
     Pthread_Lock_Init, Pthread_Callback]. ok s)"

lemmas init_defs = register_in_def wasm_native_register_natives_def register_natives_def acquire_def
  release_def lib_pthread_init_def lib_pthread_destroy_def wasm_native_destroy_def

lemma native_init_cases:
  assumes "registry st = []" "live st = {}"
  shows "wasm_native_init ok tabs st =
    (if \<forall>s \<in> set (native_steps tabs). ok s
     then (True, st\<lparr>registry := library_nodes tabs, live := {Context_Key, Pthread_Lock},
                    destroy_callbacks := destroy_callbacks st + 1\<rparr>)
     else (False, st\<lparr>registry := [], live := {},
                     bad_release := (if locks_done ok then bad_release st else Pthread_Lock # bad_release st),
                     destroy_callbacks := destroy_callbacks st + (if locks_done ok then 1 else 0)\<rparr>))"
  using assms insert_commute [of Pthread_Lock Context_Key "{}"]
  by (cases st) (auto simp: wasm_native_init_def native_steps_def locks_done_def library_nodes_def init_defs Let_def)

lemma native_destroy_after:
  assumes "live st = {Context_Key, Pthread_Lock}"
  shows "wasm_native_destroy st = st\<lparr>registry := [], live := {}\<rparr>"
  using assms by (simp add: init_defs Let_def insert_Diff_if)

lemma env_init_cases:
  assumes "registry st = []" "live st = {}"
  shows "wasm_runtime_env_init ok tabs st =
    (if \<forall>s \<in> set (native_steps tabs) \<union> {Shared_Lock_Init, Wait_Map_Create, Cluster_Lock_Init, Exception_Lock_Init}. ok s
     then (True, st\<lparr>registry := library_nodes tabs, live := UNIV, destroy_callbacks := destroy_callbacks st + 1\<rparr>)
     else (False, st\<lparr>registry := [], live := {},
                     bad_release := (if locks_done ok then bad_release st else Pthread_Lock # bad_release st),
                     destroy_callbacks := destroy_callbacks st + (if locks_done ok then 1 else 0)\<rparr>))"
proof (cases "\<forall>s \<in> set (native_steps tabs). ok s")
  case False
  then show ?thesis
    using native_init_cases [OF assms, of ok tabs] by (auto simp: wasm_runtime_env_init_def)
next
  case True
  have ld: "locks_done ok" using True by (auto simp: locks_done_def native_steps_def)
  have univ: "UNIV = {Context_Key, Pthread_Lock, Shared_Lock, Wait_Map, Cluster_Lock, Exception_Lock}"
    using resource.exhaust by blast
  have four: "(\<forall>s \<in> set (native_steps tabs) \<union> {Shared_Lock_Init, Wait_Map_Create, Cluster_Lock_Init, Exception_Lock_Init}. ok s)
      \<longleftrightarrow> ok Shared_Lock_Init \<and> ok Wait_Map_Create \<and> ok Cluster_Lock_Init \<and> ok Exception_Lock_Init"
    using True by auto
  note n = native_init_cases [OF assms, of ok tabs]
  show ?thesis
    unfolding four wasm_runtime_env_init_def n
    using True ld
    by (cases st) (auto simp: shared_memory_init_def thread_manager_init_def shared_memory_destroy_def acquire_def
        release_def native_destroy_after insert_Diff_if univ Let_def insert_commute)
qed


section \<open>Starting and stopping\<close>

text \<open>The start comes as far as the native functions; and every step of it succeeds.\<close>

definition natives_tried :: "(init_step \<Rightarrow> bool) \<Rightarrow> init_args \<Rightarrow> bool" where
  "natives_tried ok args \<longleftrightarrow>
     (case mem_alloc args of
        Alloc_With_Pool \<Rightarrow> ok Pool_Create
      | Alloc_With_Allocator m r f \<Rightarrow> m \<noteq> 0 \<and> f \<noteq> 0 \<and> m \<noteq> f
      | Alloc_With_System_Allocator \<Rightarrow> True)
     \<and> init_running_mode args \<le> 1"

definition boots :: "(init_step \<Rightarrow> bool) \<Rightarrow> library_tables \<Rightarrow> init_args \<Rightarrow> bool" where
  "boots ok tabs args \<longleftrightarrow>
     natives_tried ok args
     \<and> (\<forall>s \<in> set (native_steps tabs) \<union> {Shared_Lock_Init, Wait_Map_Create, Cluster_Lock_Init, Exception_Lock_Init}. ok s)"

lemma memory_init_frame:
  assumes "wasm_runtime_memory_init ok type st = (r, st')"
  shows "\<exists>m a. st' = st\<lparr>memory_mode := m, allocator := a\<rparr>
    \<and> (r \<longleftrightarrow> (case type of Alloc_With_Pool \<Rightarrow> ok Pool_Create
          | Alloc_With_Allocator m r f \<Rightarrow> m \<noteq> 0 \<and> f \<noteq> 0 \<and> m \<noteq> f | Alloc_With_System_Allocator \<Rightarrow> True))
    \<and> (if r then m \<noteq> MEMORY_MODE_UNKNOWN else m = memory_mode st)"
  using assms by (cases st) (auto simp: wasm_runtime_memory_init_def split: mem_alloc_type.splits if_splits)

lemma running_mode_supported: "wasm_runtime_is_running_mode_supported m \<longleftrightarrow> m \<le> 1"
proof -
  have "unat m = 0 \<or> unat m = 1 \<longleftrightarrow> m = 0 \<or> m = 1" by (auto simp: word_unat_eq_iff)
  moreover have "m \<le> 1 \<longleftrightarrow> unat m = 0 \<or> unat m = 1" by (auto simp: word_le_nat_alt)
  ultimately show ?thesis by (auto simp: wasm_runtime_is_running_mode_supported_def)
qed

lemma all_released:
  assumes "live st = UNIV"
  shows "wasm_runtime_destroy_internal st =
    st\<lparr>memory_mode := MEMORY_MODE_UNKNOWN, live := {}, registry := [], destroy_callbacks := 0\<rparr>"
proof -
  have "UNIV = {Context_Key, Pthread_Lock, Shared_Lock, Wait_Map, Cluster_Lock, Exception_Lock}"
    using resource.exhaust by blast
  then show ?thesis
    using assms
    by (cases st) (simp add: wasm_runtime_destroy_internal_def wasm_runtime_memory_destroy_def
        thread_manager_destroy_def shared_memory_destroy_def init_defs Let_def, blast)
qed

text \<open>What \<open>full_init_internal\<close> gives, up to the fields that the claims do not look at.\<close>

lemma full_init_internal_cases:
  assumes "registry st = []" "live st = {}" "memory_mode st = MEMORY_MODE_UNKNOWN" "runtime_lock st"
  shows "\<not> boots ok tabs args \<Longrightarrow>
      \<exists>st'. wasm_runtime_full_init_internal ok tabs args st = Some (False, st')
        \<and> registry st' = [] \<and> live st' = {} \<and> memory_mode st' = MEMORY_MODE_UNKNOWN
        \<and> runtime_ref_count st' = runtime_ref_count st
        \<and> bad_release st' = (if natives_tried ok args \<and> \<not> locks_done ok then Pthread_Lock # bad_release st
             else bad_release st)
        \<and> destroy_callbacks st' = destroy_callbacks st + (if natives_tried ok args \<and> locks_done ok then 1 else 0)"
    and "boots ok tabs args \<Longrightarrow> user_natives args \<noteq> [] \<Longrightarrow> \<not> ok User_Register \<Longrightarrow>
      wasm_runtime_full_init_internal ok tabs args st = None"
    and "boots ok tabs args \<Longrightarrow> user_natives args = [] \<or> ok User_Register \<Longrightarrow>
      \<exists>st' nodes. wasm_runtime_full_init_internal ok tabs args st = Some (True, st')
        \<and> live st' = UNIV \<and> memory_mode st' \<noteq> MEMORY_MODE_UNKNOWN
        \<and> runtime_ref_count st' = runtime_ref_count st \<and> bad_release st' = bad_release st
        \<and> registry st' = nodes @ library_nodes tabs
        \<and> nodes = (if user_natives args = [] then [] else
            [\<lparr>mod_name = native_mod_name args, array_ptr = user_array args,
              native_symbols = qsort_symbols (user_natives args), call_conv_raw = False\<rparr>])"
proof -
  obtain r1 st1 where m: "wasm_runtime_memory_init ok (mem_alloc args) st = (r1, st1)" by (rule prod.exhaust)
  obtain mo al where st1: "st1 = st\<lparr>memory_mode := mo, allocator := al\<rparr>"
    and r1: "r1 \<longleftrightarrow> (case mem_alloc args of Alloc_With_Pool \<Rightarrow> ok Pool_Create
          | Alloc_With_Allocator m r f \<Rightarrow> m \<noteq> 0 \<and> f \<noteq> 0 \<and> m \<noteq> f | Alloc_With_System_Allocator \<Rightarrow> True)"
    and mo: "if r1 then mo \<noteq> MEMORY_MODE_UNKNOWN else mo = MEMORY_MODE_UNKNOWN"
    using memory_init_frame [OF m] assms(3) by auto
  let ?st2 = "st1\<lparr>running_mode := init_running_mode args\<rparr>"
  have clean: "registry ?st2 = []" "live ?st2 = {}" using assms by (simp_all add: st1)
  note e = env_init_cases [OF clean, of ok tabs]
  note defs = wasm_runtime_full_init_internal_def m wasm_runtime_set_default_running_mode_def
    running_mode_supported wasm_runtime_memory_destroy_def
  show "\<exists>st'. wasm_runtime_full_init_internal ok tabs args st = Some (False, st')
        \<and> registry st' = [] \<and> live st' = {} \<and> memory_mode st' = MEMORY_MODE_UNKNOWN
        \<and> runtime_ref_count st' = runtime_ref_count st
        \<and> bad_release st' = (if natives_tried ok args \<and> \<not> locks_done ok then Pthread_Lock # bad_release st
             else bad_release st)
        \<and> destroy_callbacks st' = destroy_callbacks st + (if natives_tried ok args \<and> locks_done ok then 1 else 0)" if "\<not> boots ok tabs args"
  proof (cases "r1 \<and> init_running_mode args \<le> 1")
    case False
    then have "\<not> natives_tried ok args" using r1 by (auto simp: natives_tried_def)
    then show ?thesis using assms mo False by (auto simp: defs st1)
  next
    case True
    then have tried: "natives_tried ok args" using r1 by (simp add: natives_tried_def)
    then have "\<not> (\<forall>s \<in> set (native_steps tabs) \<union> {Shared_Lock_Init, Wait_Map_Create, Cluster_Lock_Init, Exception_Lock_Init}. ok s)"
      using that tried unfolding boots_def by blast
    then have "wasm_runtime_env_init ok tabs ?st2 = (False, ?st2\<lparr>registry := [], live := {},
         bad_release := (if locks_done ok then bad_release st else Pthread_Lock # bad_release st),
         destroy_callbacks := destroy_callbacks st + (if locks_done ok then 1 else 0)\<rparr>)"
      using e by (simp add: st1)
    then show ?thesis using True tried by (simp add: defs) (auto simp: st1)
  qed
  assume b: "boots ok tabs args"
  then have ok: "r1" "init_running_mode args \<le> 1"
    "\<forall>s \<in> set (native_steps tabs) \<union> {Shared_Lock_Init, Wait_Map_Create, Cluster_Lock_Init, Exception_Lock_Init}. ok s"
    using r1 unfolding boots_def natives_tried_def by blast+
  let ?st3 = "?st2\<lparr>registry := library_nodes tabs, live := UNIV, destroy_callbacks := destroy_callbacks st + 1\<rparr>"
  have env: "wasm_runtime_env_init ok tabs ?st2 = (True, ?st3)" using e ok(3) by (simp add: st1)
  show "wasm_runtime_full_init_internal ok tabs args st = None"
    if "user_natives args \<noteq> []" "\<not> ok User_Register"
    using that ok assms(4)
    by (simp add: defs env wasm_native_register_natives_def register_natives_def wasm_runtime_destroy_def with_lock_def)
      (simp add: st1)
  show "\<exists>st' nodes. wasm_runtime_full_init_internal ok tabs args st = Some (True, st')
        \<and> live st' = UNIV \<and> memory_mode st' \<noteq> MEMORY_MODE_UNKNOWN
        \<and> runtime_ref_count st' = runtime_ref_count st \<and> bad_release st' = bad_release st
        \<and> registry st' = nodes @ library_nodes tabs
        \<and> nodes = (if user_natives args = [] then [] else
            [\<lparr>mod_name = native_mod_name args, array_ptr = user_array args,
              native_symbols = qsort_symbols (user_natives args), call_conv_raw = False\<rparr>])"
    if "user_natives args = [] \<or> ok User_Register"
    using that ok mo
    by (simp add: defs env wasm_native_register_natives_def register_natives_def) (auto simp: st1)
qed

lemma runtime_starts:
  assumes "stopped st"
  shows "if boots ok tabs args then
      if user_natives args \<noteq> [] \<and> \<not> ok User_Register then wasm_runtime_full_init ok tabs args st = None
      else (\<exists>st' st''. wasm_runtime_full_init ok tabs args st = Some (True, st')
        \<and> live st' = UNIV \<and> runtime_ref_count st' = 1 \<and> memory_mode st' \<noteq> MEMORY_MODE_UNKNOWN
        \<and> (\<exists>nodes. registry st' = nodes @ library_nodes tabs \<and> length nodes \<le> 1)
        \<and> wasm_runtime_destroy st' = Some ((), st'') \<and> stopped st''
        \<and> bad_release st'' = bad_release st \<and> destroy_callbacks st'' = 0)
    else (\<exists>st'. wasm_runtime_full_init ok tabs args st = Some (False, st') \<and> stopped st'
        \<and> bad_release st' = (if natives_tried ok args \<and> \<not> locks_done ok then Pthread_Lock # bad_release st
             else bad_release st)
        \<and> destroy_callbacks st' = destroy_callbacks st + (if natives_tried ok args \<and> locks_done ok then 1 else 0))"
proof -
  let ?st = "st\<lparr>runtime_lock := True\<rparr>"
  have s: "registry ?st = []" "live ?st = {}" "memory_mode ?st = MEMORY_MODE_UNKNOWN" "runtime_lock ?st"
    "runtime_ref_count st = 0" "\<not> runtime_lock st"
    using assms by (auto simp: stopped_def)
  note c = full_init_internal_cases [OF s(1-4), of ok tabs args]
  have full: "wasm_runtime_full_init ok tabs args st =
      map_option (\<lambda>(r, st). (r, (if r then st\<lparr>runtime_ref_count := runtime_ref_count st + 1\<rparr> else st)\<lparr>runtime_lock := False\<rparr>))
        (wasm_runtime_full_init_internal ok tabs args ?st)"
    using s(5,6) by (auto simp: wasm_runtime_full_init_def with_lock_def option.map_comp comp_def split: prod.splits intro!: arg_cong2 [where f = map_option])
  show ?thesis
  proof (cases "boots ok tabs args")
    case False
    from c(1) [OF this] obtain st' where st': "wasm_runtime_full_init_internal ok tabs args ?st = Some (False, st')"
      "registry st' = []" "live st' = {}" "memory_mode st' = MEMORY_MODE_UNKNOWN" "runtime_ref_count st' = 0"
      "bad_release st' = (if natives_tried ok args \<and> \<not> locks_done ok then Pthread_Lock # bad_release st
        else bad_release st)"
      "destroy_callbacks st' = destroy_callbacks st + (if natives_tried ok args \<and> locks_done ok then 1 else 0)"
      using s(5) by auto
    then have "wasm_runtime_full_init ok tabs args st = Some (False, st'\<lparr>runtime_lock := False\<rparr>)"
      unfolding full by simp
    then show ?thesis
      using False st'(2-) by (auto simp: stopped_def intro!: exI [of _ "st'\<lparr>runtime_lock := False\<rparr>"])
  next
    case True
    show ?thesis
    proof (cases "user_natives args \<noteq> [] \<and> \<not> ok User_Register")
      case bad: True
      then show ?thesis using True c(2) unfolding full by simp
    next
      case False
      then obtain st' nodes where st': "wasm_runtime_full_init_internal ok tabs args ?st = Some (True, st')"
        "live st' = UNIV" "memory_mode st' \<noteq> MEMORY_MODE_UNKNOWN" "runtime_ref_count st' = runtime_ref_count ?st"
        "bad_release st' = bad_release ?st" "registry st' = nodes @ library_nodes tabs"
        "length nodes \<le> 1"
        using c(3) [OF True] by (auto split: if_splits)
      let ?run = "st'\<lparr>runtime_ref_count := runtime_ref_count st' + 1, runtime_lock := False\<rparr>"
      let ?stop = "wasm_runtime_destroy_internal (st'\<lparr>runtime_lock := True, runtime_ref_count := 0\<rparr>)\<lparr>runtime_lock := False\<rparr>"
      have "wasm_runtime_destroy ?run = Some ((), ?stop)"
        using st'(4) s(5) by (simp add: wasm_runtime_destroy_def with_lock_def)
      moreover have "stopped ?stop" "bad_release ?stop = bad_release st" "destroy_callbacks ?stop = 0"
        using st'(2,5) by (simp_all add: all_released stopped_def)
      moreover have "wasm_runtime_full_init ok tabs args st = Some (True, ?run)"
        unfolding full using st'(1) by simp
      ultimately show ?thesis
        using True False st'(2-7) s(5)
        by (auto intro!: exI [of _ ?run] exI [of _ ?stop])
    qed
  qed
qed

text \<open>C11: Starting the runtime from a stopped one either fails and leaves it stopped, with every
  mutex, table and registration released again; or succeeds exactly when every step does, and then
  all of them exist, stopping releases each of them once, and the runtime is stopped again. Two
  flaws of the error paths show, and they are all: when the start fails among the native functions before
  the thread library is up, the lock of that library, which has not been created, is destroyed (and nothing else
  that does not exist), and when it fails after that, exactly one callback node is left behind; a start that
  fails earlier does neither. If only the registration of the caller's own functions fails, the
  thread takes the lock of the runtime a second time and never returns.\<close>
theorem runtime_starts_and_stops:
  assumes "stopped st"
  shows "if boots ok tabs args then
      if user_natives args \<noteq> [] \<and> \<not> ok User_Register then wasm_runtime_full_init ok tabs args st = None
      else (\<exists>st' st''. wasm_runtime_full_init ok tabs args st = Some (True, st')
        \<and> live st' = UNIV \<and> runtime_ref_count st' = 1 \<and> memory_mode st' \<noteq> MEMORY_MODE_UNKNOWN
        \<and> (\<exists>nodes. registry st' = nodes @ library_nodes tabs \<and> length nodes \<le> 1)
        \<and> wasm_runtime_destroy st' = Some ((), st'') \<and> stopped st''
        \<and> bad_release st'' = bad_release st \<and> destroy_callbacks st'' = 0)
    else (\<exists>st'. wasm_runtime_full_init ok tabs args st = Some (False, st') \<and> stopped st'
        \<and> bad_release st' = (if natives_tried ok args \<and> \<not> locks_done ok then Pthread_Lock # bad_release st
             else bad_release st)
        \<and> destroy_callbacks st' = destroy_callbacks st + (if natives_tried ok args \<and> locks_done ok then 1 else 0))"
  by (rule runtime_starts [OF assms])

definition fresh_runtime :: runtime where
  "fresh_runtime = \<lparr>memory_mode = MEMORY_MODE_UNKNOWN, allocator = (0, 0, 0), registry = [], live = {},
     bad_release = [], destroy_callbacks = 0, running_mode = 0, cluster_max_thread_num = 4,
     runtime_ref_count = 0, runtime_lock = False\<rparr>"

lemma fresh_runtime_stopped: "stopped fresh_runtime"
  by (simp add: stopped_def fresh_runtime_def)

lemma runtime_starts_and_stops_witness:
  "let tabs = \<lparr>libc_builtin_apis = [], libc_wasi_apis = [], lib_pthread_apis = []\<rparr>;
       args = \<lparr>mem_alloc = Alloc_With_Allocator 4 8 12, native_mod_name = ''env'', user_natives = [],
               user_array = 0, max_thread_num = 0, init_running_mode = 0\<rparr>
   in \<exists>st. wasm_runtime_full_init (\<lambda>_. True) tabs args fresh_runtime = Some (True, st) \<and> live st = UNIV"
proof -
  let ?tabs = "\<lparr>libc_builtin_apis = [], libc_wasi_apis = [], lib_pthread_apis = []\<rparr>"
  let ?args = "\<lparr>mem_alloc = Alloc_With_Allocator 4 8 12, native_mod_name = ''env'', user_natives = [],
               user_array = 0, max_thread_num = 0, init_running_mode = 0\<rparr>"
  have "boots (\<lambda>_. True) ?tabs ?args" by (simp add: boots_def natives_tried_def)
  with runtime_starts_and_stops [OF fresh_runtime_stopped, of "\<lambda>_. True" ?tabs ?args] show ?thesis by auto
qed

end
