(* ===== verification/Firmware.thy ===== *)
theory Firmware
  imports Runtime_Init
begin

text \<open>
  The firmware itself (\<^verbatim>\<open>src/main/wasm_runner.c\<close>, \<^verbatim>\<open>main.c\<close>): read the module from the flash partition,
  start the runtime, register the functions of the board, load, instantiate and run the module, and
  release everything again.

  What the program does to the outside is a list of events. The board, its SDK and the parts of the
  runtime that load, instantiate and run a module are the record \<open>board\<close>: what each call gives. The main
  function of a module may run for ever, as that of \<^verbatim>\<open>src/application/my_program.c\<close> does, so the thread of the
  firmware may not return: then only its events are given, and no last state. The start and the end of the
  runtime are those of \<open>Runtime_Init\<close>.
\<close>

section \<open>The program\<close>

datatype event =
    Alloc_Buffer | Read_Flash | Free_Buffer | Start_Runtime | Register_Functions | Print_Bytes "u8 list"
  | Load_Module "u8 list" | Instantiate u32 u32 | Run_Main | Log_Exception string
  | Deinstantiate | Unload_Module | Destroy_Runtime

text \<open>What the main function of a module does: it runs for ever, or returns with or without an exception.\<close>

datatype main_run = Runs_Forever | Main_Returns "string option"

record board =
  has_partition :: bool
  buffer_ok :: bool
  flash_content :: "u8 list option"
  step_ok :: "init_step \<Rightarrow> bool"
  libraries :: library_tables
  os_functions :: "u32 \<times> u32 \<times> u32"
  board_functions :: "u32 \<times> u32 \<times> u32"
  loads :: "u8 list \<Rightarrow> bool"
  instantiates :: "u8 list \<Rightarrow> bool"
  main_run_of :: "u8 list \<Rightarrow> main_run"

definition MAX_WASM_FILE_SIZE :: nat where "MAX_WASM_FILE_SIZE = 64 * 1024"

text \<open>The loop that looks for the last byte that is not 0xFF; the index 0 is not looked at.\<close>

fun find_end :: "u8 list \<Rightarrow> nat \<Rightarrow> nat" where
  "find_end d 0 = 0"
| "find_end d (Suc i) = (if d ! Suc i \<noteq> 0xFF then Suc i + 1 else find_end d i)"

definition load_wasm_from_flash :: "board \<Rightarrow> event list \<times> (u8 list \<times> u32) option" where
  "load_wasm_from_flash B =
     (if \<not> has_partition B then ([], None)
      else if \<not> buffer_ok B then ([], None)
      else (case flash_content B of
              None \<Rightarrow> ([Alloc_Buffer, Read_Flash, Free_Buffer], None)
            | Some wasm_data \<Rightarrow>
                let actual_size = of_nat (find_end wasm_data (MAX_WASM_FILE_SIZE - 1)) :: u32
                in if \<not> (wasm_data ! 0 = 0x00 \<and> wasm_data ! 1 = 0x61 \<and> wasm_data ! 2 = 0x73 \<and> wasm_data ! 3 = 0x6D)
                   then ([Alloc_Buffer, Read_Flash, Free_Buffer], None)
                   else ([Alloc_Buffer, Read_Flash], Some (wasm_data, actual_size))))"

definition app_instance_main :: "board \<Rightarrow> u8 list \<Rightarrow> event list \<times> bool" where
  "app_instance_main B wasm =
     (case main_run_of B wasm of
        Runs_Forever \<Rightarrow> ([Run_Main], False)
      | Main_Returns None \<Rightarrow> ([Run_Main], True)
      | Main_Returns (Some e) \<Rightarrow> ([Run_Main, Log_Exception e], True))"

text \<open>The last ten bytes; the start index wraps when there are fewer.\<close>

definition last_bytes :: "u8 list \<Rightarrow> u32 \<Rightarrow> u8 list" where
  "last_bytes buf sz = map (\<lambda>i. buf ! i) [unat (sz - 10)..<unat sz]"

definition runner_args :: "board \<Rightarrow> init_args" where
  "runner_args B = (let (m, r, f) = os_functions B in
     \<lparr>mem_alloc = Alloc_With_Allocator m r f, native_mod_name = '''', user_natives = [], user_array = 0,
      max_thread_num = 0, init_running_mode = 0\<rparr>)"

text \<open>The end of the thread, behind the unloading of the module.\<close>

definition finish :: "event list \<Rightarrow> runtime \<Rightarrow> event list \<times> runtime option" where
  "finish ev st =
     (case wasm_runtime_destroy st of
        None \<Rightarrow> (ev, None)
      | Some (_, st) \<Rightarrow> (ev @ [Destroy_Runtime, Free_Buffer], Some st))"

definition iwasm_main :: "board \<Rightarrow> runtime \<Rightarrow> event list \<times> runtime option" where
  "iwasm_main B st =
    (case load_wasm_from_flash B of
       (ev, None) \<Rightarrow> (ev, Some st)
     | (ev, Some (buf, sz)) \<Rightarrow>
        if sz = 0 then (ev, Some st)
        else (case wasm_runtime_full_init (step_ok B) (libraries B) (runner_args B) st of
          None \<Rightarrow> (ev, None)
        | Some (False, st) \<Rightarrow> (ev @ [Free_Buffer], Some st)
        | Some (True, st) \<Rightarrow>
          let (gpio, sleep, print) = board_functions B;
              st = st\<lparr>registry := register_functions (step_ok B User_Register) (registry st) 0 gpio sleep print\<rparr>;
              ev = ev @ [Start_Runtime, Register_Functions, Print_Bytes (last_bytes buf sz)];
              wasm = take (unat sz) buf
          in if \<not> loads B wasm then finish ev st
             else if \<not> instantiates B wasm then finish (ev @ [Load_Module wasm, Unload_Module]) st
             else let (run, returned) = app_instance_main B wasm;
                      ev = ev @ [Load_Module wasm, Instantiate (64 * 1024) (128 * 1024)] @ run
                  in if \<not> returned then (ev, None)
                     else finish (ev @ [Deinstantiate, Unload_Module]) st))"

section \<open>What is held\<close>

text \<open>An event is legal when what it needs is held and what it gives is not: the module refers to the
  buffer, the instance to the module, and all of them to the runtime.\<close>

record held =
  buffer :: bool
  started :: bool
  module_loaded :: bool
  instance_made :: bool

definition nothing :: held where
  "nothing = \<lparr>buffer = False, started = False, module_loaded = False, instance_made = False\<rparr>"

fun event_step :: "event \<Rightarrow> held \<Rightarrow> held option" where
  "event_step Alloc_Buffer h = (if buffer h then None else Some (h\<lparr>buffer := True\<rparr>))"
| "event_step Read_Flash h = (if buffer h then Some h else None)"
| "event_step Free_Buffer h = (if buffer h \<and> \<not> module_loaded h then Some (h\<lparr>buffer := False\<rparr>) else None)"
| "event_step Start_Runtime h = (if started h then None else Some (h\<lparr>started := True\<rparr>))"
| "event_step Register_Functions h = (if started h then Some h else None)"
| "event_step (Print_Bytes bs) h = (if buffer h then Some h else None)"
| "event_step (Load_Module bs) h =
     (if buffer h \<and> started h \<and> \<not> module_loaded h then Some (h\<lparr>module_loaded := True\<rparr>) else None)"
| "event_step (Instantiate s hp) h =
     (if module_loaded h \<and> \<not> instance_made h then Some (h\<lparr>instance_made := True\<rparr>) else None)"
| "event_step Run_Main h = (if instance_made h then Some h else None)"
| "event_step (Log_Exception e) h = (if instance_made h then Some h else None)"
| "event_step Deinstantiate h = (if instance_made h then Some (h\<lparr>instance_made := False\<rparr>) else None)"
| "event_step Unload_Module h =
     (if module_loaded h \<and> \<not> instance_made h then Some (h\<lparr>module_loaded := False\<rparr>) else None)"
| "event_step Destroy_Runtime h =
     (if started h \<and> \<not> module_loaded h then Some (h\<lparr>started := False\<rparr>) else None)"

fun event_steps :: "event list \<Rightarrow> held \<Rightarrow> held option" where
  "event_steps [] h = Some h"
| "event_steps (e # es) h = (case event_step e h of None \<Rightarrow> None | Some h \<Rightarrow> event_steps es h)"

section \<open>The size of the module\<close>

text \<open>The content without the 0xFF bytes at its end, which are erased flash.\<close>

definition stripped :: "u8 list \<Rightarrow> u8 list" where
  "stripped d = rev (dropWhile (\<lambda>b. b = 0xFF) (rev d))"

lemma stripped_snoc: "stripped (d @ [b]) = (if b = 0xFF then stripped d else d @ [b])"
  by (simp add: stripped_def)

lemma stripped_prefix: "stripped d = take (length (stripped d)) d"
proof (induction d rule: rev_induct)
  case (snoc b d)
  have "length (stripped d) \<le> length d"
    by (simp add: stripped_def) (metis length_dropWhile_le length_rev)
  then show ?case using snoc by (simp add: stripped_snoc)
qed (simp add: stripped_def)

lemma find_end_stripped:
  "i < length d \<Longrightarrow> find_end d i =
     (if length (stripped (take (Suc i) d)) \<le> 1 then 0 else length (stripped (take (Suc i) d)))"
proof (induction i)
  case 0
  then obtain b bs where d: "d = b # bs" by (cases d) auto
  show ?case unfolding d using stripped_snoc [of "[]" b] by (simp add: stripped_def)
next
  case (Suc i)
  have "take (Suc (Suc i)) d = take (Suc i) d @ [d ! Suc i]"
    using Suc.prems by (simp add: take_Suc_conv_app_nth)
  then show ?case using Suc by (simp add: stripped_snoc)
qed


lemma stripped_trailing: "stripped (w @ replicate n 0xFF) = stripped w"
proof (induction n)
  case (Suc n)
  have "w @ replicate (Suc n) 0xFF = (w @ replicate n 0xFF) @ [0xFF]"
    by (simp add: replicate_append_same)
  then show ?case using Suc by (simp only: stripped_snoc) simp
qed simp

lemma stripped_image:
  assumes "w \<noteq> []" "last w \<noteq> 0xFF"
  shows "stripped (w @ replicate n 0xFF) = w"
  unfolding stripped_trailing using assms by (cases w rule: rev_cases) (simp_all add: stripped_snoc)

definition wasm_magic :: "u8 list" where "wasm_magic = [0x00, 0x61, 0x73, 0x6D]"

lemma magic_iff:
  assumes "4 \<le> length d"
  shows "d ! 0 = 0x00 \<and> d ! 1 = 0x61 \<and> d ! 2 = 0x73 \<and> d ! 3 = 0x6D \<longleftrightarrow> take 4 d = wasm_magic"
proof -
  have "Suc (Suc (Suc (Suc 0))) \<le> length d" using assms by simp
  then obtain a b c e es where "d = a # b # c # e # es" by (auto simp: Suc_le_length_iff)
  then show ?thesis by (simp add: wasm_magic_def)
qed

lemma magic_not_stripped:
  assumes "take 4 d = wasm_magic"
  shows "4 \<le> length (stripped d)"
proof (rule ccontr)
  have d: "d = wasm_magic @ drop 4 d" using assms by (metis append_take_drop_id)
  have all_ff: "stripped (w @ xs) = stripped w" if "\<forall>x \<in> set xs. x = 0xFF" for w xs
    using that by (induction xs rule: rev_induct) (auto simp: stripped_snoc append_assoc [symmetric] simp del: append_assoc)
  have pre: "length (stripped (w @ xs)) \<ge> length w" if "stripped w = w" for w xs
    using that by (induction xs rule: rev_induct) (auto simp: stripped_snoc append_assoc [symmetric] simp del: append_assoc)
  have "stripped wasm_magic = wasm_magic" by (simp add: stripped_def wasm_magic_def)
  from pre [OF this, of "drop 4 d"] d have "length wasm_magic \<le> length (stripped d)" by simp
  moreover assume "\<not> 4 \<le> length (stripped d)"
  ultimately show False by (simp add: wasm_magic_def)
qed

lemma load_wasm_from_flash_cases:
  assumes "flash_content B = Some d" "length d = MAX_WASM_FILE_SIZE"
  shows "load_wasm_from_flash B =
    (if \<not> has_partition B \<or> \<not> buffer_ok B then ([], None)
     else if take 4 d \<noteq> wasm_magic then ([Alloc_Buffer, Read_Flash, Free_Buffer], None)
     else ([Alloc_Buffer, Read_Flash], Some (d, of_nat (length (stripped d)))))"
proof -
  have "4 \<le> length d" using assms(2) by (simp add: MAX_WASM_FILE_SIZE_def)
  note magic = magic_iff [OF this]
  have "take (Suc (MAX_WASM_FILE_SIZE - 1)) d = d" using assms(2) by (simp add: MAX_WASM_FILE_SIZE_def)
  then have "find_end d (MAX_WASM_FILE_SIZE - 1) = (if length (stripped d) \<le> 1 then 0 else length (stripped d))"
    using find_end_stripped [of "MAX_WASM_FILE_SIZE - 1" d] assms(2) by (simp add: MAX_WASM_FILE_SIZE_def)
  then show ?thesis
    using magic_not_stripped [of d] unfolding load_wasm_from_flash_def assms(1) option.case Let_def magic by auto
qed

lemma image_size:
  assumes "length d = MAX_WASM_FILE_SIZE"
  shows "unat (of_nat (length (stripped d)) :: u32) = length (stripped d)"
    "take (length (stripped d)) d = stripped d"
proof -
  have "length (stripped d) \<le> length d" using stripped_prefix [of d] by (metis length_take min.cobounded1)
  then show "unat (of_nat (length (stripped d)) :: u32) = length (stripped d)"
    using assms by (simp add: MAX_WASM_FILE_SIZE_def unat_of_nat take_bit_nat_eq_self)
qed (rule stripped_prefix [symmetric])

lemma last_bytes_image:
  assumes "length d = MAX_WASM_FILE_SIZE"
  shows "last_bytes d (of_nat (length (stripped d))) =
    (if length (stripped d) < 10 then [] else drop (length (stripped d) - 10) (stripped d))"
proof (cases "length (stripped d) < 10")
  case True
  let ?n = "of_nat (length (stripped d)) :: u32"
  have "unat ?n < 10" using image_size(1) [OF assms] True by simp
  then have "unat (?n - 10) = unat ?n + 2 ^ 32 - 10" by (subst unat_sub_if') (simp add: word_le_nat_alt)
  then show ?thesis using True \<open>unat ?n < 10\<close> by (simp add: last_bytes_def)
next
  case False
  let ?n = "of_nat (length (stripped d)) :: u32"
  have n: "unat ?n = length (stripped d)" by (rule image_size(1) [OF assms])
  then have "unat (?n - 10) = length (stripped d) - 10"
    using False by (subst unat_sub) (simp_all add: word_le_nat_alt)
  then have "last_bytes d ?n = map (\<lambda>i. d ! i) [length (stripped d) - 10..<length (stripped d)]"
    using n by (simp add: last_bytes_def)
  also have "\<dots> = drop (length (stripped d) - 10) (stripped d)"
  proof (rule nth_equalityI)
    fix i assume "i < length (map (\<lambda>i. d ! i) [length (stripped d) - 10..<length (stripped d)])"
    then have i: "i < 10" using False by simp
    have "d ! (length (stripped d) - 10 + i) = stripped d ! (length (stripped d) - 10 + i)"
      using i False by (subst stripped_prefix) simp
    then show "map (\<lambda>i. d ! i) [length (stripped d) - 10..<length (stripped d)] ! i =
        drop (length (stripped d) - 10) (stripped d) ! i" using i False by simp
  qed (use False in simp)
  finally show ?thesis using False by simp
qed

text \<open>C28: When the 64 KiB at the start of the partition begin with the magic number, the module that
  is handed to the runtime is their content without the 0xFF bytes at the end: exactly the image
  \<open>w\<close>, if \<open>w\<close> was written to erased flash and does not itself end in 0xFF; an image that ends in 0xFF
  loses those bytes. The size is never 0, and the bytes that are printed are the last ten of the
  module, or none when it is shorter. Without the magic number the buffer is freed and nothing is
  run.\<close>
theorem flash_image_detected:
  assumes "flash_content B = Some d" "length d = MAX_WASM_FILE_SIZE" "has_partition B" "buffer_ok B"
  shows "(case load_wasm_from_flash B of
      (ev, Some (buf, sz)) \<Rightarrow> take 4 d = wasm_magic \<and> ev = [Alloc_Buffer, Read_Flash]
        \<and> take (unat sz) buf = stripped d \<and> 4 \<le> unat sz
        \<and> (\<forall>w n. d = w @ replicate n 0xFF \<longrightarrow> w \<noteq> [] \<longrightarrow> last w \<noteq> 0xFF \<longrightarrow> take (unat sz) buf = w)
        \<and> (\<forall>w n. d = (w @ [0xFF]) @ replicate n 0xFF \<longrightarrow> take (unat sz) buf = stripped w)
        \<and> last_bytes buf sz = (if unat sz < 10 then [] else drop (unat sz - 10) (stripped d))
    | (ev, None) \<Rightarrow> take 4 d \<noteq> wasm_magic \<and> ev = [Alloc_Buffer, Read_Flash, Free_Buffer])"
proof (cases "take 4 d = wasm_magic")
  case True
  have "stripped d = w" if "d = w @ replicate n 0xFF" "w \<noteq> []" "last w \<noteq> 0xFF" for w n
    using stripped_image [OF that(2,3)] that(1) by simp
  moreover have "stripped d = stripped w" if "d = (w @ [0xFF]) @ replicate n 0xFF" for w n
    unfolding that stripped_trailing by (simp add: stripped_snoc)
  ultimately have "(\<forall>w n. d = w @ replicate n 0xFF \<longrightarrow> w \<noteq> [] \<longrightarrow> last w \<noteq> 0xFF \<longrightarrow> stripped d = w)
      \<and> (\<forall>w n. d = (w @ [0xFF]) @ replicate n 0xFF \<longrightarrow> stripped d = stripped w)"
    by blast
  moreover have "load_wasm_from_flash B = ([Alloc_Buffer, Read_Flash], Some (d, of_nat (length (stripped d))))"
    using load_wasm_from_flash_cases [OF assms(1,2)] True assms(3,4) by simp
  ultimately show ?thesis
    using True magic_not_stripped [OF True]
    by (simp only: prod.case option.case image_size [OF assms(2)] last_bytes_image [OF assms(2)]) blast
next
  case False
  then show ?thesis using assms(3,4) unfolding load_wasm_from_flash_cases [OF assms(1,2)] by simp
qed


definition wasm_image :: "u8 list" where
  "wasm_image = wasm_magic @ [1, 0, 0, 0]"

definition demo_board :: board where
  "demo_board = \<lparr>has_partition = True, buffer_ok = True,
     flash_content = Some (wasm_image @ replicate 65528 0xFF), step_ok = (\<lambda>_. True),
     libraries = \<lparr>libc_builtin_apis = [], libc_wasi_apis = [], lib_pthread_apis = []\<rparr>,
     os_functions = (4, 8, 12), board_functions = (100, 200, 300),
     loads = (\<lambda>_. True), instantiates = (\<lambda>_. True), main_run_of = (\<lambda>_. Main_Returns None)\<rparr>"

lemma flash_image_detected_witness:
  "\<exists>ev sz. load_wasm_from_flash demo_board = (ev, Some (wasm_image @ replicate 65528 0xFF, sz))
     \<and> take (unat sz) (wasm_image @ replicate 65528 0xFF) = wasm_image"
proof -
  let ?d = "wasm_image @ replicate 65528 0xFF"
  have c: "flash_content demo_board = Some ?d" "length ?d = MAX_WASM_FILE_SIZE"
    "has_partition demo_board" "buffer_ok demo_board"
    by (simp_all add: demo_board_def MAX_WASM_FILE_SIZE_def wasm_image_def wasm_magic_def)
  have "take 4 ?d = wasm_magic" by (simp add: wasm_image_def wasm_magic_def)
  then have r: "load_wasm_from_flash demo_board = ([Alloc_Buffer, Read_Flash], Some (?d, of_nat (length (stripped ?d))))"
    using load_wasm_from_flash_cases [OF c(1,2)] c(3,4) by simp
  have w: "wasm_image \<noteq> []" "last wasm_image \<noteq> 0xFF" by (simp_all add: wasm_image_def)
  have "take (unat (of_nat (length (stripped ?d)) :: u32)) ?d = wasm_image"
    using flash_image_detected [OF c] w unfolding r prod.case option.case by blast
  then show ?thesis using r by blast
qed

section \<open>A run of the firmware\<close>

lemma event_steps_append: "event_steps (es @ fs) h = Option.bind (event_steps es h) (event_steps fs)"
  by (induction es arbitrary: h) (auto split: option.splits)

lemma registry_irrelevant:
  assumes "wasm_runtime_destroy st = Some ((), st')" "live st = UNIV" "runtime_ref_count st = 1"
  shows "wasm_runtime_destroy (st\<lparr>registry := nodes\<rparr>) = Some ((), st')"
  using assms by (auto simp: wasm_runtime_destroy_def with_lock_def all_released split: if_splits)

definition runs :: "board \<Rightarrow> u8 list \<Rightarrow> bool" where
  "runs B d \<longleftrightarrow> has_partition B \<and> buffer_ok B \<and> take 4 d = wasm_magic
     \<and> boots (step_ok B) (libraries B) (runner_args B)
     \<and> loads B (stripped d) \<and> instantiates B (stripped d)"

definition loops :: "board \<Rightarrow> u8 list \<Rightarrow> bool" where
  "loops B d \<longleftrightarrow> runs B d \<and> main_run_of B (stripped d) = Runs_Forever"

text \<open>The events of a run, without the states in between.\<close>

definition run_events :: "board \<Rightarrow> u8 list \<Rightarrow> event list" where
  "run_events B w =
     (if \<not> loads B w then []
      else if \<not> instantiates B w then [Load_Module w, Unload_Module]
      else [Load_Module w, Instantiate (64 * 1024) (128 * 1024)] @ fst (app_instance_main B w)
        @ (if snd (app_instance_main B w) then [Deinstantiate, Unload_Module] else []))"

definition firmware_events :: "board \<Rightarrow> event list" where
  "firmware_events B =
     (if \<not> has_partition B \<or> \<not> buffer_ok B then []
      else (case flash_content B of
          Some d \<Rightarrow>
            if take 4 d \<noteq> wasm_magic \<or> \<not> boots (step_ok B) (libraries B) (runner_args B)
            then [Alloc_Buffer, Read_Flash, Free_Buffer]
            else [Alloc_Buffer, Read_Flash, Start_Runtime] @ Register_Functions #
              Print_Bytes (last_bytes d (of_nat (length (stripped d)))) # run_events B (stripped d)
              @ (if loops B d then [] else [Destroy_Runtime, Free_Buffer])
        | None \<Rightarrow> [Alloc_Buffer, Read_Flash, Free_Buffer]))"

lemma app_instance_main_returns: "snd (app_instance_main B w) \<longleftrightarrow> main_run_of B w \<noteq> Runs_Forever"
  by (auto simp: app_instance_main_def split: main_run.splits option.splits)

lemma iwasm_main_boots:
  assumes "stopped st" "load_wasm_from_flash B = ([Alloc_Buffer, Read_Flash], Some (d, sz))" "sz \<noteq> 0"
    and "take (unat sz) d = w" "forever \<longleftrightarrow> loads B w \<and> instantiates B w \<and> main_run_of B w = Runs_Forever"
  shows "\<exists>st'. stopped st' \<and> iwasm_main B st =
    (if boots (step_ok B) (libraries B) (runner_args B)
     then ([Alloc_Buffer, Read_Flash, Start_Runtime, Register_Functions, Print_Bytes (last_bytes d sz)]
       @ run_events B w @ (if forever then [] else [Destroy_Runtime, Free_Buffer]), if forever then None else Some st')
     else ([Alloc_Buffer, Read_Flash, Free_Buffer], Some st'))"
proof -
  have nat: "user_natives (runner_args B) = []" by (simp add: runner_args_def split: prod.splits)
  note boot = runtime_starts [OF assms(1), of "step_ok B" "libraries B" "runner_args B"]
  show ?thesis
  proof (cases "boots (step_ok B) (libraries B) (runner_args B)")
    case False
    then obtain st' where "wasm_runtime_full_init (step_ok B) (libraries B) (runner_args B) st = Some (False, st')"
      "stopped st'" using boot by auto
    then show ?thesis using False assms(3) by (simp add: iwasm_main_def assms(2))
  next
    case True
    then obtain st1 st2 where run: "wasm_runtime_full_init (step_ok B) (libraries B) (runner_args B) st = Some (True, st1)"
      "live st1 = UNIV" "runtime_ref_count st1 = 1" "wasm_runtime_destroy st1 = Some ((), st2)" "stopped st2"
      using boot nat by auto
    obtain gpio sleep print where bf: "board_functions B = (gpio, sleep, print)" by (rule prod_cases3)
    note stop = registry_irrelevant [OF run(4,2,3)]
    obtain ev ret where am: "app_instance_main B w = (ev, ret)" by fastforce
    then have ret: "ret \<longleftrightarrow> main_run_of B w \<noteq> Runs_Forever" using app_instance_main_returns [of B w] by simp
    show ?thesis
      using True assms(3,5) stop run(5) ret unfolding iwasm_main_def assms(2) prod.case option.case run(1) bf
      by (intro exI [of _ st2]) (auto simp: Let_def run_events_def finish_def assms(4) am)
  qed
qed

lemma iwasm_main_events:
  assumes "stopped st" "\<forall>d. flash_content B = Some d \<longrightarrow> length d = MAX_WASM_FILE_SIZE"
  shows "\<exists>st'. stopped st' \<and>
    iwasm_main B st = (firmware_events B, if \<exists>d. flash_content B = Some d \<and> loops B d then None else Some st')"
proof (cases "flash_content B")
  case None
  then show ?thesis using assms(1)
    by (simp add: iwasm_main_def load_wasm_from_flash_def firmware_events_def)
next
  case (Some d)
  then have len: "length d = MAX_WASM_FILE_SIZE" using assms(2) by blast
  note l = load_wasm_from_flash_cases [OF Some len]
  show ?thesis
  proof (cases "has_partition B \<and> buffer_ok B \<and> take 4 d = wasm_magic")
    case False
    then show ?thesis using assms(1) Some by (auto simp: iwasm_main_def l firmware_events_def loops_def runs_def)
  next
    case True
    then have ld: "load_wasm_from_flash B = ([Alloc_Buffer, Read_Flash], Some (d, of_nat (length (stripped d))))"
      using l by simp
    have sz: "(of_nat (length (stripped d)) :: u32) \<noteq> 0"
      "take (unat (of_nat (length (stripped d)) :: u32)) d = stripped d"
      using image_size [OF len] magic_not_stripped True by (metis not_numeral_le_zero unat_0, metis)
    show ?thesis
      using iwasm_main_boots [OF assms(1) ld sz refl] True Some by (auto simp: firmware_events_def loops_def runs_def)
  qed
qed

definition running_held :: held where
  "running_held = \<lparr>buffer = True, started = True, module_loaded = True, instance_made = True\<rparr>"

lemma run_events_facts:
  "event_steps (run_events B w) \<lparr>buffer = True, started = True, module_loaded = False, instance_made = False\<rparr>
     = Some (if loads B w \<and> instantiates B w \<and> main_run_of B w = Runs_Forever then running_held
        else \<lparr>buffer = True, started = True, module_loaded = False, instance_made = False\<rparr>)"
  "Run_Main \<in> set (run_events B w) \<longleftrightarrow> loads B w \<and> instantiates B w"
  "length (filter (\<lambda>e. e = Run_Main) (run_events B w)) \<le> 1"
  "Load_Module v \<in> set (run_events B w) \<Longrightarrow> v = w"
  "loads B w \<Longrightarrow> instantiates B w \<Longrightarrow> main_run_of B w = Runs_Forever \<Longrightarrow> last (run_events B w) = Run_Main"
  "loads B w \<Longrightarrow> run_events B w \<noteq> []"
  by (auto simp: run_events_def app_instance_main_def running_held_def split: option.splits if_splits main_run.splits)

lemma firmware_events_held:
  "event_steps (firmware_events B) nothing =
     Some (if \<exists>d. flash_content B = Some d \<and> loops B d then running_held else nothing)"
  by (cases "flash_content B")
    (auto simp: firmware_events_def nothing_def event_steps_append run_events_facts(1) loops_def runs_def)

lemma firmware_events_loop:
  "flash_content B = Some d \<Longrightarrow> loops B d \<Longrightarrow> last (firmware_events B) = Run_Main"
  using run_events_facts(5,6) [of B "stripped d"] by (simp add: firmware_events_def loops_def runs_def)

lemma firmware_events_load:
  assumes "Load_Module w \<in> set (firmware_events B)"
  shows "\<exists>d es fs. flash_content B = Some d \<and> w = stripped d
      \<and> firmware_events B = es @ Register_Functions # fs \<and> Load_Module w \<in> set fs"
proof -
  let ?fs = "\<lambda>d. Print_Bytes (last_bytes d (of_nat (length (stripped d)))) # run_events B (stripped d)
      @ (if loops B d then [] else [Destroy_Runtime, Free_Buffer])"
  from assms obtain d where d: "flash_content B = Some d" "Load_Module w \<in> set (run_events B (stripped d))"
    "firmware_events B = [Alloc_Buffer, Read_Flash, Start_Runtime] @ Register_Functions # ?fs d"
    by (auto simp: firmware_events_def split: option.splits if_splits)
  have "Load_Module w \<in> set (?fs d)" using d(2) by simp
  then show ?thesis using d(1,3) run_events_facts(4) [OF d(2)] by blast
qed

text \<open>C8: A run of the firmware uses nothing that it does not hold, and it returns if the module does. It
  returns if and only if it does not come to a main function that runs for ever: no failing step, and nothing the
  runtime does, keeps the thread. When it returns, whatever has failed on the way, it holds nothing any more: the
  buffer is freed once, after the module that refers to it has been unloaded, the module is unloaded after its instance,
  the runtime is destroyed once, and is stopped again. When it does not, the last thing it did was to call the main
  function, and it holds the buffer, the runtime, the module and the instance. The main function of the module runs if
  and only if every step before it succeeded, and then once, with the firmware's functions
  registered before the module is loaded. That loading and instantiating return is taken for granted here.\<close>
theorem firmware_releases_everything:
  assumes "stopped st" "\<forall>d. flash_content B = Some d \<longrightarrow> length d = MAX_WASM_FILE_SIZE"
    and "iwasm_main B st = (ev, last_state)"
  shows "(last_state = None \<longleftrightarrow> (\<exists>d. flash_content B = Some d \<and> runs B d \<and> main_run_of B (stripped d) = Runs_Forever))
    \<and> (case last_state of
         Some st' \<Rightarrow> stopped st' \<and> event_steps ev nothing = Some nothing
       | None \<Rightarrow> last ev = Run_Main \<and> event_steps ev nothing = Some running_held)
    \<and> (Run_Main \<in> set ev \<longleftrightarrow> (\<exists>d. flash_content B = Some d \<and> runs B d))
    \<and> length (filter (\<lambda>e. e = Run_Main) ev) \<le> 1
    \<and> (Load_Module w \<in> set ev \<longrightarrow> (\<exists>d es fs. flash_content B = Some d \<and> w = stripped d
         \<and> ev = es @ Register_Functions # fs \<and> Load_Module w \<in> set fs))"
proof -
  obtain st' where st': "stopped st'" "ev = firmware_events B"
    "last_state = (if \<exists>d. flash_content B = Some d \<and> loops B d then None else Some st')"
    using iwasm_main_events [OF assms(1,2)] assms(3) by auto
  have "Run_Main \<in> set (firmware_events B) \<longleftrightarrow> (\<exists>d. flash_content B = Some d \<and> runs B d)"
    by (auto simp: firmware_events_def runs_def run_events_facts(2) split: option.splits)
  moreover have "length (filter (\<lambda>e. e = Run_Main) (firmware_events B)) \<le> 1"
    using run_events_facts(3) by (auto simp: firmware_events_def split: option.splits)
  ultimately show ?thesis
    using st' firmware_events_held [of B] firmware_events_loop [of B] firmware_events_load [of w B]
    by (auto simp: loops_def split: if_splits)
qed

lemma firmware_releases_everything_witness:
  "\<exists>ev st. iwasm_main demo_board fresh_runtime = (ev, Some st) \<and> stopped st \<and> Run_Main \<in> set ev
     \<and> event_steps ev nothing = Some nothing
     \<and> (\<exists>ev'. iwasm_main (demo_board\<lparr>main_run_of := \<lambda>_. Runs_Forever\<rparr>) fresh_runtime = (ev', None)
          \<and> last ev' = Run_Main)"
proof -
  let ?d = "wasm_image @ replicate 65528 0xFF" and ?B = "demo_board\<lparr>main_run_of := \<lambda>_. Runs_Forever\<rparr>"
  have d: "flash_content demo_board = Some ?d" "flash_content ?B = Some ?d" "length ?d = MAX_WASM_FILE_SIZE"
    by (simp_all add: demo_board_def MAX_WASM_FILE_SIZE_def wasm_image_def wasm_magic_def)
  have r: "runs demo_board ?d" "runs ?B ?d" "main_run_of demo_board w \<noteq> Runs_Forever" for w
    by (simp_all add: runs_def demo_board_def boots_def natives_tried_def runner_args_def wasm_image_def wasm_magic_def)
  obtain ev r1 ev' r2 where m: "iwasm_main demo_board fresh_runtime = (ev, r1)" "iwasm_main ?B fresh_runtime = (ev', r2)"
    by fastforce
  from d have len: "\<forall>d. flash_content demo_board = Some d \<longrightarrow> length d = MAX_WASM_FILE_SIZE"
    "\<forall>d. flash_content ?B = Some d \<longrightarrow> length d = MAX_WASM_FILE_SIZE" by simp_all
  have "r1 \<noteq> None \<and> (case r1 of Some st \<Rightarrow> stopped st \<and> event_steps ev nothing = Some nothing | None \<Rightarrow> last ev = Run_Main)
      \<and> Run_Main \<in> set ev"
    using firmware_releases_everything [where w = "[]", OF fresh_runtime_stopped len(1) m(1)] d(1) r by (cases r1) simp_all
  moreover have "r2 = None \<and> (case r2 of Some st \<Rightarrow> True | None \<Rightarrow> last ev' = Run_Main)"
    using firmware_releases_everything [where w = "[]", OF fresh_runtime_stopped len(2) m(2)] d(2) r by (cases r2) simp_all
  ultimately show ?thesis using m by auto
qed

end
