(* ===== verification/Spec2Isabelle.thy ===== *)
theory Spec2Isabelle
  imports Leb128 Module_Sections Numeric Floats Linear_Memory Memory_Api Module_Run Bh_List Bh_Vector Shared_Wait Firmware
begin

text \<open>
  A model of the WebAssembly runtime of this firmware.

  \<^bold>\<open>The program.\<close> The repository is the firmware of an ESP32-C6 (32-bit RISC-V): \<^verbatim>\<open>src/main\<close>
  reads a WebAssembly module from a flash partition and runs it with the WebAssembly Micro
  Runtime (WAMR 2.2, \<^verbatim>\<open>src/components/wamr\<close>). The runtime decodes the binary
  (\<^verbatim>\<open>core/iwasm/interpreter/wasm_loader.c\<close>, \<^verbatim>\<open>core/shared/utils/bh_leb128.c\<close>), validates every
  function body and rewrites it in place for the interpreter, gives the instance a linear
  memory (\<^verbatim>\<open>core/iwasm/common/wasm_memory.c\<close>) obtained from the platform layer
  (\<^verbatim>\<open>core/shared/platform/esp-idf\<close>), and interprets the rewritten code
  (\<^verbatim>\<open>core/iwasm/interpreter/wasm_interp_classic.c\<close>). Paths below are under
  \<^verbatim>\<open>src/components/wamr/core\<close>.

  \<^bold>\<open>The build modelled.\<close> Thirty-two bit pointers and \<open>size_t\<close>; bulk memory and shared
  memory are on; reference types, SIMD, garbage collection, exception handling, tail calls,
  64-bit and multiple memories, and the shared heap are off; bounds are checked in software;
  \<open>bh_assert\<close> is empty. The interpreter and the code validation are those of the classic
  interpreter (\<^verbatim>\<open>WASM_ENABLE_FAST_INTERP == 0\<close>), whose code is the WebAssembly binary with
  opcodes replaced in place; the fast interpreter has a code format of its own and is not
  modelled.

  \<^bold>\<open>Conventions.\<close> A C integer of \<open>w\<close> bits is a \<open>w word\<close>, a pointer a \<open>32 word\<close>, the memory a
  function from addresses to bytes; signed values are read with \<open>sint\<close>. A \<^verbatim>\<open>goto fail\<close>, a
  trap and a \<^verbatim>\<open>return false\<close> with a message are \<open>Inl\<close> of the message (numbers printed into a
  message are left out), success is \<open>Inr\<close>. A call to the allocator is the parameter \<open>av\<close>: whether
  a request of that size succeeds. Loops are structural recursion, \<open>function\<close> with a measure,
  or \<open>partial_function (option)\<close> with a theorem that they return.

  \<^bold>\<open>How the parts interact.\<close> \<^verbatim>\<open>main.c\<close> starts a thread (\<open>Firmware\<close>) that starts the runtime
  (\<open>Runtime_Init\<close>), registers the native functions of the firmware (\<open>Native_Symbols\<close>), loads the image from flash
  (\<open>Module_Content.load_module\<close>), instantiates and calls it (\<open>Module_Run.wasm_interp_call_wasm\<close>), and takes all
  down again. The load cuts the binary into sections (\<open>Module_Sections\<close>), runs the loader of each section
  (\<open>Module_Content\<close>), and validates and rewrites every function body (\<open>Loader_Code\<close> on the stacks of \<open>Loader_Stack\<close>).
  The interpreter has three layers: the instructions that go on with the next one (\<open>Interp_Frame\<close>, with the handlers
  of \<open>Interp_Ops\<close>, the arithmetic of \<open>Numeric\<close> and \<open>Floats\<close> and the memory of \<open>Linear_Memory\<close> and \<open>Memory_Api\<close>), the
  control instructions of one frame, and the frames (\<open>Interp_Control\<close>). It trusts the validation: it does not check the
  stack, the indices or the ends of its immediates. The longest chain of the development shows that it may.

  \<^bold>\<open>From the binary to the run.\<close>

  \<^descr> \<open>Leb128\<close>: \<^verbatim>\<open>bh_leb_read\<close> and the readers of the loader, against the numbers that the digit strings denote; errors,
    bounds on what is read, and agreement with the unchecked reader of the interpreter.
  \<^descr> \<open>Module_Sections\<close>: the header and the list of sections (\<^verbatim>\<open>load\<close>, \<^verbatim>\<open>create_sections\<close>): an accepted binary is tiled by
    its sections, in the prescribed order.
  \<^descr> \<open>Utf8_Check\<close>: the check of names accepts UTF-8 exactly. \<open>Module_Content\<close>: the loaders of all sections,
    \<^verbatim>\<open>load_from_sections\<close> with the globals of the linker, the validation of all bodies and the resizing of the memory.
  \<^descr> \<open>Loader_Stack\<close>: the two stacks of the code validation (\<^verbatim>\<open>WASMLoaderContext\<close>), refining the typed stacks of the
    validation algorithm of the WebAssembly standard.
  \<^descr> \<open>Loader_Code\<close>: \<^verbatim>\<open>wasm_loader_prepare_bytecode\<close>, one definition per case of the switch; \<open>Loader_Safety\<close>: every step
    keeps the state in range, the loop ends on every byte sequence, and every state of it is well typed.
  \<^descr> \<open>Interp_Ops\<close>, \<open>Interp_Frame\<close>: the handlers of the comparisons, the arithmetic and the conversions, and all other
    instructions that go on with the next one, on the state \<open>InterpState\<close> of a frame. \<open>Interp_Sound\<close>: where the
    validation has been, such an instruction finds its operands and immediates and leaves the cells the validation counted.
  \<^descr> \<open>Interp_Control\<close>: blocks, branches, calls, returns, the search for the end of a block with its cache, and the machine of
    frames. \<open>Block_Scan\<close>, \<open>Block_Trace\<close>, \<open>Block_Search\<close>: the search, which skips instructions byte by byte, finds
    the \<^verbatim>\<open>else\<close> and the \<^verbatim>\<open>end\<close> that the validation has matched. \<open>Control_Sound\<close>: the relation \<open>stands\<close> between a frame with
    its labels and a state of the validation is kept by every control instruction. \<open>Body_Safety\<close>: a frame of
    an accepted body runs safely to its end, whatever its callees return.
  \<^descr> \<open>Content_Safety\<close>: a module that loads consists of accepted bodies that lie apart from each other.
    \<open>Module_Run\<close>: its instance runs safely through all its functions, with the stack of frames.

  A C value that the interpreter does not check is \<open>stuck\<close> in the model when the code would read or write outside what
  belongs to it; a trap is a value. So the theorems say that \<open>stuck\<close> does not happen.

  \<^bold>\<open>The library and the environment.\<close>

  \<^descr> \<open>Prelude\<close>: byte memory, results, word and little-endian lemmas.
  \<^descr> \<open>Numeric\<close>, \<open>Floats\<close>: the arithmetic the interpreter implements by hand: rotations, bit counts, divisions, float
    minimum and maximum, conversions to integers. Floats are bit patterns; the rounding operations of the C compiler
    are parameters.
  \<^descr> \<open>Platform_Esp\<close>: the aligned allocator \<^verbatim>\<open>os_malloc\<close>, \<^verbatim>\<open>os_realloc\<close>, \<^verbatim>\<open>os_free\<close>, \<^verbatim>\<open>os_mmap\<close>.
  \<^descr> \<open>Linear_Memory\<close>, \<open>Memory_Api\<close>: loads, stores, \<^verbatim>\<open>memory.grow\<close>, \<^verbatim>\<open>memory.fill\<close>, \<^verbatim>\<open>copy\<close>, \<^verbatim>\<open>init\<close>, and the checks of
    application addresses the embedding interface exports.
  \<^descr> \<open>Bh_List\<close>, \<open>Bh_Vector\<close>, \<open>Bh_Hashmap\<close>: the containers (\<^verbatim>\<open>core/shared/utils\<close>), each refining a list, a list and a map.
  \<^descr> \<open>Shared_Wait\<close>: \<^verbatim>\<open>memory.atomic.wait\<close> and \<^verbatim>\<open>notify\<close> (\<^verbatim>\<open>common/wasm_shared_memory.c\<close>) as a step relation over any
    number of threads, on the lists and the hash map above.
  \<^descr> \<open>Native_Symbols\<close>: signatures, registration and lookup of native functions (\<^verbatim>\<open>common/wasm_native.c\<close>).
  \<^descr> \<open>Runtime_Init\<close>: \<^verbatim>\<open>wasm_runtime_full_init\<close> and \<^verbatim>\<open>wasm_runtime_destroy\<close> with every failure path; \<open>Firmware\<close>: \<^verbatim>\<open>src/main\<close>,
    whose thread releases everything it has acquired on every path on which the main function of the module returns.

  \<^bold>\<open>Interfaces.\<close> The locale \<open>byte_store\<close> (what a store leaves for a load) is interpreted by \<open>lm\<close> on the linear memory,
  \<open>intrusive_list\<close> by \<open>bl\<close> on \<open>bh_list\<close>, \<open>growable_seq\<close> by \<open>bv\<close> on \<open>bh_vector\<close>, and \<open>key_map\<close> by \<open>hm\<close> on \<open>bh_hashmap\<close>.

  \<^bold>\<open>Bounds and termination.\<close> The loops of \<open>prepare_loop\<close> and \<open>scan_loop\<close> are \<open>partial_function (option)\<close>: that the first
  returns is \<open>prepare_bytecode_total\<close>, and that the second does is part of \<open>find_block_addr_correct\<close>. There is no fuel
  but in \<open>control_steps\<close> and \<open>exec_steps\<close>, which count steps of an execution in invariants. The conditions on
  addresses (a body ends below the last address) keep the pointer arithmetic of the loader from wrapping around.

  \<^bold>\<open>Not modelled.\<close> The building of an instance (\<^verbatim>\<open>wasm_runtime.c\<close>): what the interpreter needs of it is stated
  (\<open>runs_module\<close>, \<open>instance_of\<close>). The fast interpreter, the ahead-of-time runtime and the compilers, which have code formats of
  their own. The allocator inside the module heap, WASI, the C library and the thread manager, which
  work on the operating system. In \<open>Module_Run\<close> the code of the module is assumed to stay in place while it
  runs: the model has one memory for everything, and the native functions may write anywhere; they do not call back into
  the module. The waiting of \<^verbatim>\<open>memory.atomic.wait\<close> and the waking of \<^verbatim>\<open>notify\<close> are parameters of the interpreter and
  steps of threads in \<open>Shared_Wait\<close>. Bodies that write the index of a memory in more than one byte are outside \<open>covered\<close>:
  the interpreter gets out of step in them.
\<close>

end
